(* ===== verification/Prelude.thy ===== *)
theory Prelude
  imports "HOL-Library.Word" "HOL-Library.Monad_Syntax"
begin

text \<open>
  Shared vocabulary of the development: the machine types of the 32-bit target, checked array
  accesses (a C access outside an object has no defined result, so it is \<open>None\<close> here), NUL-free
  names and their in-memory form, and the generic list and word lemmas the components use.
\<close>

unbundle bit_operations_syntax

type_synonym byte = "8 word"
type_synonym u16 = "16 word"
type_synonym u32 = "32 word"

named_theorems arr_simps

section \<open>Checked array accesses\<close>

definition load :: "'a list \<Rightarrow> nat \<Rightarrow> 'a option" where
  "load xs i = (if i < length xs then Some (xs ! i) else None)"

definition store :: "'a list \<Rightarrow> nat \<Rightarrow> 'a \<Rightarrow> 'a list option" where
  "store xs i v = (if i < length xs then Some (xs[i := v]) else None)"

lemma load_Some_iff [arr_simps]: "load xs i = Some v \<longleftrightarrow> i < length xs \<and> v = xs ! i"
  by (auto simp: load_def)

lemma load_None_iff [arr_simps]: "load xs i = None \<longleftrightarrow> length xs \<le> i"
  by (auto simp: load_def)

lemma store_Some_iff [arr_simps]:
  "store xs i v = Some ys \<longleftrightarrow> i < length xs \<and> ys = xs[i := v]"
  by (auto simp: store_def)

lemma store_None_iff [arr_simps]: "store xs i v = None \<longleftrightarrow> length xs \<le> i"
  by (auto simp: store_def)

lemma load_in [simp]: "i < length xs \<Longrightarrow> load xs i = Some (xs ! i)"
  by (simp add: load_def)

lemma store_in [simp]: "i < length xs \<Longrightarrow> store xs i v = Some (xs[i := v])"
  by (simp add: store_def)

text \<open>Overwriting a run of cells, the result of every copy and fill loop.\<close>

definition blit :: "'a list \<Rightarrow> nat \<Rightarrow> 'a list \<Rightarrow> 'a list" where
  "blit xs i ys = take i xs @ ys @ drop (i + length ys) xs"

lemma length_blit [simp]: "i + length ys \<le> length xs \<Longrightarrow> length (blit xs i ys) = length xs"
  by (simp add: blit_def)

lemma blit_Nil [simp]: "blit xs i [] = xs"
  by (simp add: blit_def)

lemma blit_Cons:
  "i < length xs \<Longrightarrow> blit xs i (y # ys) = blit (xs[i := y]) (Suc i) ys"
  by (simp add: blit_def take_Suc_conv_app_nth)

lemma blit_snoc:
  "i + length ys < length xs \<Longrightarrow>
    blit xs i (ys @ [y]) = (blit xs i ys)[i + length ys := y]"
  by (simp add: blit_def list_update_append Cons_nth_drop_Suc[symmetric])

lemma nth_blit:
  "i + length ys \<le> length xs \<Longrightarrow> k < length xs \<Longrightarrow>
    blit xs i ys ! k = (if i \<le> k \<and> k < i + length ys then ys ! (k - i) else xs ! k)"
  by (auto simp: blit_def nth_append min_def add.commute)

lemma blit_id: "i + n \<le> length xs \<Longrightarrow> blit xs i (take n (drop i xs)) = xs"
  by (rule nth_equalityI) (auto simp: nth_blit)

lemma take_blit [simp]: "n \<le> i \<Longrightarrow> i \<le> length xs \<Longrightarrow> take n (blit xs i ys) = take n xs"
  by (simp add: blit_def min_def)

lemma blit_read [simp]:
  "i + length ys \<le> length xs \<Longrightarrow> take (length ys) (drop i (blit xs i ys)) = ys"
  by (simp add: blit_def)

section \<open>Characters, names and strings\<close>

text \<open>An ASCII literal of the source, as the bytes the compiler lays down (without the NUL).\<close>

definition asc :: "string \<Rightarrow> byte list" where
  "asc s = map of_char s"

lemma asc_Nil [simp]: "asc [] = []"
  by (simp add: asc_def)

lemma asc_Cons [simp]: "asc (c # s) = of_char c # asc s"
  by (simp add: asc_def)

text \<open>A name without a NUL byte, and a C string: its bytes, a NUL, and what follows in the object.\<close>

definition nul_free :: "byte list \<Rightarrow> bool" where
  "nul_free s \<longleftrightarrow> 0 \<notin> set s"

lemma nul_free_Nil [simp]: "nul_free []"
  by (simp add: nul_free_def)

lemma nul_free_Cons [simp]: "nul_free (x # s) \<longleftrightarrow> x \<noteq> 0 \<and> nul_free s"
  by (auto simp: nul_free_def)

lemma nul_free_append [simp]: "nul_free (s @ t) \<longleftrightarrow> nul_free s \<and> nul_free t"
  by (auto simp: nul_free_def)

text \<open>The string an object holds: the bytes before its first NUL.\<close>

definition cstr :: "byte list \<Rightarrow> byte list" where
  "cstr xs = takeWhile (\<lambda>x. x \<noteq> 0) xs"

lemma cstr_simps [simp]:
  "cstr [] = []" "cstr (0 # xs) = []" "x \<noteq> 0 \<Longrightarrow> cstr (x # xs) = x # cstr xs"
  by (simp_all add: cstr_def)

lemma nul_free_cstr [simp]: "nul_free (cstr xs)"
  by (auto simp: cstr_def nul_free_def dest: set_takeWhileD)

lemma cstr_terminated [simp]: "nul_free s \<Longrightarrow> cstr (s @ 0 # r) = s"
  by (induction s) auto

lemma cstr_nul_free: "nul_free s \<Longrightarrow> cstr s = s"
  by (induction s) auto

lemma cstr_replicate [simp]: "cstr (replicate n 0) = []"
  by (cases n) auto

lemma terminated: "0 \<in> set a \<Longrightarrow> \<exists>r. a = cstr a @ 0 # r"
proof (induction a)
  case (Cons x a)
  then show ?case by (cases "x = 0") auto
qed simp

text \<open>A string literal, and one that ends in a newline.\<close>

definition lit :: "string \<Rightarrow> byte list" where "lit s = asc s @ [0]"
definition litln :: "string \<Rightarrow> byte list" where "litln s = asc s @ [10, 0]"

section \<open>Words\<close>

lemma unat_u32_lt [simp]: "unat (x :: u32) < 4294967296"
  using unsigned_less[of x, where ?'a = nat] by simp

lemma unat_byte_lt [simp]: "unat (x :: byte) < 256"
  using unsigned_less[of x, where ?'a = nat] by simp

lemma unat_add_u32: "unat (a + b :: u32) = (unat a + unat b) mod 4294967296"
  by (simp add: unat_word_ariths)

lemma unat_add_no_wrap:
  "unat a + unat b < 4294967296 \<Longrightarrow> unat (a + b :: u32) = unat a + unat b"
  by (simp add: unat_add_u32)

lemma unat_sub_no_wrap: "b \<le> a \<Longrightarrow> unat (a - b :: u32) = unat a - unat b"
  by (rule unat_sub)

lemma of_nat_unat_small: "n < 4294967296 \<Longrightarrow> unat (of_nat n :: u32) = n"
  by (simp add: unat_of_nat)

lemma sint_small: "unat (x :: u32) < 2 ^ 31 \<Longrightarrow> sint x = int (unat x)"
proof -
  assume "unat x < 2 ^ 31"
  then have "int (unat x) < int (2 ^ 31)" by (rule of_nat_less_iff [THEN iffD2])
  then have "uint x < 2 ^ 31" by (simp only: uint_nat of_nat_power of_nat_numeral)
  moreover have "- (2 ^ 31) \<le> uint x" using order_trans [of "- (2 ^ 31)" 0 "uint x"] by simp
  ultimately have "signed_take_bit 31 (uint x) = uint x" by (intro signed_take_bit_int_eq_self)
  then show ?thesis by (simp add: sint_uint)
qed

end
