(* ===== verification/Port.thy ===== *)
theory Port
  imports Prelude
begin

text \<open>
headers/port.h: a write to an I/O port, as an event; code that only writes ports is modelled by the list of its
  events. The ports that answer are the parameter \<open>pio\<close> of Ata.thy.
\<close>

datatype port_write = Outb u16 byte | Outw u16 u16

end
