(* ===== verification/CString.thy ===== *)
theory CString
  imports Prelude "HOL-Library.Sublist"
begin

text \<open>
  src/lib/string.h, the freestanding string routines shared by the kernel and user space.
  A pointer argument is the list of bytes from the pointer to the end of its object; a read
  or write past the end has no defined result and is \<open>None\<close>. A returned pointer is the offset
  from the argument (\<open>Some None\<close> for NULL). Only memmove may overlap, so it works on one object
  with two offsets. Lengths are natural numbers (no object exceeds 2 GB); characters are signed,
  as gcc compiles them for x86.
\<close>

section \<open>Comparison\<close>

fun strcmp :: "byte list \<Rightarrow> byte list \<Rightarrow> int option" where
  "strcmp (a # as) (b # bs) =
     (if a \<noteq> 0 \<and> a = b then strcmp as bs else Some (sint a - sint b))"
| "strcmp _ _ = None"

fun strncmp :: "byte list \<Rightarrow> byte list \<Rightarrow> nat \<Rightarrow> int option" where
  "strncmp _ _ 0 = Some 0"
| "strncmp (a # as) (b # bs) (Suc n) =
     (if a \<noteq> b then Some (uint a - uint b)
      else if a = 0 then Some 0
      else strncmp as bs n)"
| "strncmp _ _ (Suc n) = None"

fun memcmp :: "byte list \<Rightarrow> byte list \<Rightarrow> nat \<Rightarrow> int option" where
  "memcmp _ _ 0 = Some 0"
| "memcmp (x # xs) (y # ys) (Suc n) =
     (if x \<noteq> y then Some (uint x - uint y) else memcmp xs ys n)"
| "memcmp _ _ (Suc n) = None"

section \<open>Lengths and searches\<close>

fun strlen :: "byte list \<Rightarrow> nat option" where
  "strlen [] = None"
| "strlen (c # s) = (if c = 0 then Some 0 else map_option Suc (strlen s))"

fun strnlen :: "byte list \<Rightarrow> nat \<Rightarrow> nat option" where
  "strnlen _ 0 = Some 0"
| "strnlen [] (Suc n) = None"
| "strnlen (c # s) (Suc n) = (if c = 0 then Some 0 else map_option Suc (strnlen s n))"

fun memchr_from :: "nat \<Rightarrow> byte list \<Rightarrow> byte \<Rightarrow> nat \<Rightarrow> nat option option" where
  "memchr_from i _ ch 0 = Some None"
| "memchr_from i [] ch (Suc n) = None"
| "memchr_from i (p # ps) ch (Suc n) =
     (if p = ch then Some (Some i) else memchr_from (Suc i) ps ch n)"

definition memchr :: "byte list \<Rightarrow> u32 \<Rightarrow> nat \<Rightarrow> nat option option" where
  "memchr s c n = memchr_from 0 s (ucast c) n"

fun strchr_from :: "nat \<Rightarrow> byte list \<Rightarrow> byte \<Rightarrow> nat option option" where
  "strchr_from i [] ch = None"
| "strchr_from i (c # s) ch =
     (if c = ch then Some (Some i) else if c = 0 then Some None else strchr_from (Suc i) s ch)"

definition strchr :: "byte list \<Rightarrow> u32 \<Rightarrow> nat option option" where
  "strchr s c = strchr_from 0 s (ucast c)"

fun strrchr_from :: "nat \<Rightarrow> nat option \<Rightarrow> byte list \<Rightarrow> byte \<Rightarrow> nat option option" where
  "strrchr_from i lst [] ch = None"
| "strrchr_from i lst (c # s) ch =
     (let lst' = (if c = ch then Some i else lst)
      in if c = 0 then Some lst' else strrchr_from (Suc i) lst' s ch)"

definition strrchr :: "byte list \<Rightarrow> u32 \<Rightarrow> nat option option" where
  "strrchr s c = strrchr_from 0 None s (ucast c)"

text \<open>The inner loop of strstr, with the final test whether the needle was exhausted.\<close>

fun strstr_match :: "byte list \<Rightarrow> byte list \<Rightarrow> bool option" where
  "strstr_match (h # hs) (n # ns) =
     (if h \<noteq> 0 \<and> n \<noteq> 0 \<and> h = n then strstr_match hs ns else Some (n = 0))"
| "strstr_match _ _ = None"

fun strstr_from :: "nat \<Rightarrow> byte list \<Rightarrow> byte list \<Rightarrow> nat option option" where
  "strstr_from i [] needle = None"
| "strstr_from i (h # hs) needle =
     (if h = 0 then Some None
      else case strstr_match (h # hs) needle of
        None \<Rightarrow> None
      | Some True \<Rightarrow> Some (Some i)
      | Some False \<Rightarrow> strstr_from (Suc i) hs needle)"

definition strstr :: "byte list \<Rightarrow> byte list \<Rightarrow> nat option option" where
  "strstr hay needle =
     (case needle of
        [] \<Rightarrow> None
      | n # _ \<Rightarrow> if n = 0 then Some (Some 0) else strstr_from 0 hay needle)"

section \<open>Copying and filling\<close>

fun strcpy :: "byte list \<Rightarrow> byte list \<Rightarrow> byte list option" where
  "strcpy (d # ds) (s # ss) =
     (if s = 0 then Some (0 # ds) else map_option (Cons s) (strcpy ds ss))"
| "strcpy _ _ = None"

fun memset :: "byte list \<Rightarrow> byte \<Rightarrow> nat \<Rightarrow> byte list option" where
  "memset ds c 0 = Some ds"
| "memset (d # ds) c (Suc n) = map_option (Cons c) (memset ds c n)"
| "memset [] c (Suc n) = None"

fun memcpy :: "byte list \<Rightarrow> byte list \<Rightarrow> nat \<Rightarrow> byte list option" where
  "memcpy ds ss 0 = Some ds"
| "memcpy (d # ds) (s # ss) (Suc n) = map_option (Cons s) (memcpy ds ss n)"
| "memcpy _ _ (Suc n) = None"

fun strncpy :: "byte list \<Rightarrow> byte list \<Rightarrow> nat \<Rightarrow> byte list option" where
  "strncpy ds ss 0 = Some ds"
| "strncpy (d # ds) (s # ss) (Suc n) =
     (if s \<noteq> 0 then map_option (Cons s) (strncpy ds ss n)
      else memset (d # ds) 0 (Suc n))"
| "strncpy _ _ (Suc n) = None"

text \<open>strncat's second loop: at most n characters, then a NUL.\<close>

fun strncat_tail :: "byte list \<Rightarrow> byte list \<Rightarrow> nat \<Rightarrow> byte list option" where
  "strncat_tail (d # ds) ss 0 = Some (0 # ds)"
| "strncat_tail (d # ds) (s # ss) (Suc n) =
     (if s \<noteq> 0 then map_option (Cons s) (strncat_tail ds ss n) else Some (0 # ds))"
| "strncat_tail _ _ _ = None"

fun strcat :: "byte list \<Rightarrow> byte list \<Rightarrow> byte list option" where
  "strcat [] ss = None"
| "strcat (d # ds) ss = (if d \<noteq> 0 then map_option (Cons d) (strcat ds ss) else strcpy (d # ds) ss)"

definition strncat :: "byte list \<Rightarrow> byte list \<Rightarrow> nat \<Rightarrow> byte list option" where
  "strncat ds ss n = do {
     k \<leftarrow> strlen ds;
     t \<leftarrow> strncat_tail (drop k ds) ss n;
     Some (take k ds @ t) }"

text \<open>memmove: the two loops step an index, upwards or downwards, through one object.\<close>

fun move_up :: "byte list \<Rightarrow> nat \<Rightarrow> nat \<Rightarrow> nat \<Rightarrow> nat \<Rightarrow> byte list option" where
  "move_up m d s i 0 = Some m"
| "move_up m d s i (Suc k) = do {
     v \<leftarrow> load m (s + i);
     m' \<leftarrow> store m (d + i) v;
     move_up m' d s (Suc i) k }"

fun move_down :: "byte list \<Rightarrow> nat \<Rightarrow> nat \<Rightarrow> nat \<Rightarrow> byte list option" where
  "move_down m d s 0 = Some m"
| "move_down m d s (Suc i) = do {
     v \<leftarrow> load m (s + i);
     m' \<leftarrow> store m (d + i) v;
     move_down m' d s i }"

definition memmove :: "byte list \<Rightarrow> nat \<Rightarrow> nat \<Rightarrow> nat \<Rightarrow> byte list option" where
  "memmove m d s n =
     (if d = s \<or> n = 0 then Some m
      else if d < s then move_up m d s 0 n
      else move_down m d s n)"

section \<open>Numbers\<close>

fun atoi_from :: "u32 \<Rightarrow> byte list \<Rightarrow> u32 option" where
  "atoi_from n [] = None"
| "atoi_from n (c # s) =
     (if 48 \<le> sint c \<and> sint c \<le> 57 then atoi_from (n * 10 + (scast c - 48)) s else Some n)"

definition atoi :: "byte list \<Rightarrow> u32 option" where
  "atoi s = atoi_from 0 s"

text \<open>The do-while of itoa: digits come out least significant first.\<close>

function itoa_digits :: "u32 \<Rightarrow> byte list" where
  "itoa_digits m =
     (let c = 48 + ucast (m mod 10); m' = m div 10
      in if m' > 0 then c # itoa_digits m' else [c])"
  by pat_completeness auto
termination
proof (relation "measure unat")
  show "wf (measure (unat :: u32 \<Rightarrow> nat))" by simp
next
  fix m m' :: u32 and c :: byte
  assume "m' = m div 10" and "m' > 0"
  then have "unat m' = unat m div 10" and "unat m' > 0"
    by (simp_all add: unat_div word_less_nat_alt)
  then show "(m', m) \<in> measure unat" by (cases "unat m") auto
qed

declare itoa_digits.simps [simp del]

text \<open>The in-place reversal: swap cells j and i - 1 - j for each j below i div 2.\<close>

fun swap_ends :: "byte list \<Rightarrow> nat \<Rightarrow> nat \<Rightarrow> nat \<Rightarrow> byte list option" where
  "swap_ends b i j 0 = Some b"
| "swap_ends b i j (Suc k) = do {
     t \<leftarrow> load b j;
     u \<leftarrow> load b (i - 1 - j);
     b1 \<leftarrow> store b j u;
     b2 \<leftarrow> store b1 (i - 1 - j) t;
     swap_ends b2 i (Suc j) k }"

definition itoa :: "u32 \<Rightarrow> byte list \<Rightarrow> byte list option" where
  "itoa n buf =
     (let neg = sint n < 0;
          m = (if neg then 0 - n else n);
          ds = itoa_digits m;
          out = (if neg then ds @ [45] else ds);
          i = length out
      in do {
        b \<leftarrow> memcpy buf (out @ [0]) (i + 1);
        swap_ends b i 0 (i div 2) })"


section \<open>Behaviour on NUL-terminated strings\<close>

lemma strlen_terminated [simp]: "nul_free s \<Longrightarrow> strlen (s @ 0 # r) = Some (length s)"
  by (induction s) auto

lemma strlen_take: "strlen xs = Some k \<Longrightarrow> k < length xs \<and> take k xs = cstr xs \<and> xs ! k = 0"
  by (induction xs arbitrary: k) (auto split: if_splits)

lemma sint_byte_eq: "sint (a :: byte) - sint b = 0 \<longleftrightarrow> a = b"
  by (metis eq_iff_diff_eq_0 signed_word_eqI)

lemma sint_byte_0 [simp]: "sint (a :: byte) = 0 \<longleftrightarrow> a = 0"
  using sint_byte_eq [of a 0] by simp

lemma sint_byte_cong [simp]: "sint (a :: byte) = sint b \<longleftrightarrow> a = b"
  by (auto intro: signed_word_eqI)

lemma uint_byte_eq [simp]: "uint (a :: byte) = uint b \<longleftrightarrow> a = b"
  by (auto intro: unsigned_word_eqI)

lemma strcmp_total:
  "nul_free s \<Longrightarrow> nul_free t \<Longrightarrow> \<exists>k. strcmp (s @ 0 # r) (t @ 0 # r') = Some k \<and> (k = 0 \<longleftrightarrow> s = t)"
proof (induction s arbitrary: t)
  case Nil
  then show ?case by (cases t) (auto simp: sint_byte_eq)
next
  case (Cons a s)
  show ?case
  proof (cases t)
    case Nil
    with Cons.prems show ?thesis by auto
  next
    case (Cons b t')
    with Cons.IH [of t'] Cons.prems show ?thesis by (auto simp: sint_byte_eq)
  qed
qed

lemma strcmp_eq_0_iff [simp]:
  "nul_free s \<Longrightarrow> nul_free t \<Longrightarrow> strcmp (s @ 0 # r) (t @ 0 # r') = Some 0 \<longleftrightarrow> s = t"
  by (metis strcmp_total option.inject)

text \<open>
  A comparison against a terminated string needs only as much of the other object as the string
  is long: this is what makes a name field without a NUL safe to compare.
\<close>

lemma strcmp_bounded:
  "nul_free t \<Longrightarrow> length t < length xs \<Longrightarrow>
    \<exists>k. strcmp xs (t @ 0 # r) = Some k \<and> (k = 0 \<longleftrightarrow> take (Suc (length t)) xs = t @ [0])"
proof (induction t arbitrary: xs)
  case Nil
  then show ?case by (cases xs) (auto simp: sint_byte_eq)
next
  case (Cons b t)
  then obtain x xs' where "xs = x # xs'" "length t < length xs'" by (cases xs) auto
  with Cons show ?case by (auto simp: sint_byte_eq)
qed

lemma strcpy_terminated:
  "nul_free s \<Longrightarrow> strcpy ds (s @ 0 # r) =
     (if length s < length ds then Some (s @ 0 # drop (Suc (length s)) ds) else None)"
  by (induction s arbitrary: ds) (case_tac ds; auto)+

lemma memset_eq: "n \<le> length ds \<Longrightarrow> memset ds c n = Some (replicate n c @ drop n ds)"
  by (induction ds c n rule: memset.induct) auto

lemma memcpy_eq:
  "n \<le> length ds \<Longrightarrow> n \<le> length ss \<Longrightarrow> memcpy ds ss n = Some (take n ss @ drop n ds)"
  by (induction ds ss n rule: memcpy.induct) auto

lemma memcpy_Some_len: "memcpy ds ss n = Some r \<Longrightarrow> n \<le> length ds \<and> n \<le> length ss"
  by (induction ds ss n arbitrary: r rule: memcpy.induct) auto

lemma memcmp_eq:
  "n \<le> length xs \<Longrightarrow> n \<le> length ys \<Longrightarrow>
    \<exists>k. memcmp xs ys n = Some k \<and> (k = 0 \<longleftrightarrow> take n xs = take n ys)"
  by (induction xs ys n rule: memcmp.induct) auto

lemma strnlen_eq: "n \<le> length s \<Longrightarrow> strnlen s n = Some (length (cstr (take n s)))"
  by (induction s n rule: strnlen.induct) auto

lemma strncpy_terminated:
  "nul_free s \<Longrightarrow> n \<le> length ds \<Longrightarrow>
    strncpy ds (s @ 0 # r) n =
      Some (take n s @ replicate (n - length s) 0 @ drop n ds)"
proof (induction s arbitrary: ds n)
  case Nil
  then show ?case by (cases n; cases ds) (auto simp: memset_eq)
next
  case (Cons a s)
  then show ?case by (cases n; cases ds) auto
qed

lemma strcat_terminated:
  "nul_free d \<Longrightarrow> nul_free s \<Longrightarrow> length d + length s < length (d @ 0 # t) \<Longrightarrow>
    strcat (d @ 0 # t) (s @ 0 # r) = Some (d @ s @ 0 # drop (length s) t)"
  by (induction d) (auto simp: strcpy_terminated)

lemma strncat_tail_eq:
  "nul_free s \<Longrightarrow> min n (length s) < length ds \<Longrightarrow>
    strncat_tail ds (s @ 0 # r) n = Some (take n s @ 0 # drop (Suc (min n (length s))) ds)"
proof (induction s arbitrary: ds n)
  case Nil
  then show ?case by (cases n; cases ds) auto
next
  case (Cons a s)
  then show ?case by (cases n; cases ds) auto
qed

section \<open>Searches\<close>

lemma strchr_from_eq:
  "nul_free s \<Longrightarrow> ch \<noteq> 0 \<Longrightarrow> strchr_from i (s @ 0 # r) ch =
     Some (if ch \<in> set s then Some (i + length (takeWhile (\<lambda>x. x \<noteq> ch) s)) else None)"
  by (induction s arbitrary: i) auto

text \<open>An offset of the last occurrence, or what was found before.\<close>

fun last_index :: "nat \<Rightarrow> nat option \<Rightarrow> 'a list \<Rightarrow> 'a \<Rightarrow> nat option" where
  "last_index i o1 [] x = o1"
| "last_index i o1 (y # ys) x = last_index (Suc i) (if y = x then Some i else o1) ys x"

lemma last_index_snoc:
  "last_index i o1 (ys @ [y]) x = (if y = x then Some (i + length ys) else last_index i o1 ys x)"
  by (induction ys arbitrary: i o1) auto

lemma last_index_eq:
  "last_index i None ys x = Some k \<longleftrightarrow>
     i \<le> k \<and> k < i + length ys \<and> ys ! (k - i) = x \<and> x \<notin> set (drop (Suc (k - i)) ys)"
proof (induction ys rule: rev_induct)
  case Nil
  then show ?case by simp
next
  case (snoc y ys)
  then show ?case by (auto simp: last_index_snoc nth_append split: if_splits)
qed

lemma strrchr_from_eq:
  "nul_free s \<Longrightarrow> ch \<noteq> 0 \<Longrightarrow>
    strrchr_from i lst (s @ 0 # r) ch = Some (last_index i lst s ch)"
  by (induction s arbitrary: i lst) (auto simp: Let_def)

lemma strstr_match_eq:
  "nul_free h \<Longrightarrow> nul_free n \<Longrightarrow> strstr_match (h @ 0 # r) (n @ 0 # r') = Some (prefix n h)"
proof (induction n arbitrary: h)
  case Nil
  then show ?case by (cases h) auto
next
  case (Cons a n)
  then show ?case by (cases h) auto
qed

lemma strstr_from_None:
  "nul_free h \<Longrightarrow> nul_free n \<Longrightarrow>
    strstr_from i (h @ 0 # r) (n @ 0 # r') = Some None \<Longrightarrow>
    \<forall>j<length h. \<not> prefix n (drop j h)"
proof (induction h arbitrary: i)
  case Nil
  then show ?case by simp
next
  case (Cons a h)
  have m: "strstr_match (a # h @ 0 # r) (n @ 0 # r') = Some (prefix n (a # h))"
    using strstr_match_eq [of "a # h" n r r'] Cons.prems by simp
  from Cons.prems m have "\<not> prefix n (a # h)"
    and "strstr_from (Suc i) (h @ 0 # r) (n @ 0 # r') = Some None"
    by (auto split: bool.splits)
  with Cons show ?case by (auto simp: less_Suc_eq_0_disj)
qed

lemma strstr_from_Some:
  "nul_free h \<Longrightarrow> nul_free n \<Longrightarrow>
    strstr_from i (h @ 0 # r) (n @ 0 # r') = Some (Some k) \<Longrightarrow>
    i \<le> k \<and> k < i + length h \<and> prefix n (drop (k - i) h) \<and> (\<forall>j<k - i. \<not> prefix n (drop j h))"
proof (induction h arbitrary: i)
  case Nil
  then show ?case by simp
next
  case (Cons a h)
  have m: "strstr_match (a # h @ 0 # r) (n @ 0 # r') = Some (prefix n (a # h))"
    using strstr_match_eq [of "a # h" n r r'] Cons.prems by simp
  show ?case
  proof (cases "prefix n (a # h)")
    case True
    with Cons.prems m show ?thesis by auto
  next
    case False
    with Cons.prems m have "strstr_from (Suc i) (h @ 0 # r) (n @ 0 # r') = Some (Some k)"
      by simp
    with Cons.IH [of "Suc i"] Cons.prems have
      "Suc i \<le> k \<and> k < Suc i + length h \<and> prefix n (drop (k - Suc i) h) \<and>
       (\<forall>j<k - Suc i. \<not> prefix n (drop j h))" by simp
    then obtain e where "k = Suc (i + e)" "e < length h" "prefix n (drop e h)"
      "\<forall>j<e. \<not> prefix n (drop j h)"
      by (auto simp: le_iff_add)
    with False show ?thesis by (auto simp: less_Suc_eq_0_disj)
  qed
qed

lemma strstr_from_defined:
  "nul_free h \<Longrightarrow> nul_free n \<Longrightarrow> strstr_from i (h @ 0 # r) (n @ 0 # r') \<noteq> None"
proof (induction h arbitrary: i)
  case Nil
  then show ?case by simp
next
  case (Cons a h)
  have "strstr_match (a # h @ 0 # r) (n @ 0 # r') = Some (prefix n (a # h))"
    using strstr_match_eq [of "a # h" n r r'] Cons.prems by simp
  with Cons show ?case by (auto split: bool.splits)
qed

section \<open>memmove\<close>

lemma move_up_eq:
  "d \<le> s \<Longrightarrow> s + i + k \<le> length m \<Longrightarrow>
    move_up m d s i k = Some (blit m (d + i) (take k (drop (s + i) m)))"
proof (induction k arbitrary: m i)
  case 0
  then show ?case by simp
next
  case (Suc k)
  let ?m = "m[d + i := m ! (s + i)]"
  have rest: "take k (drop (s + Suc i) ?m) = take k (drop (s + Suc i) m)"
    using Suc.prems by simp
  have hd: "take (Suc k) (drop (s + i) m) = m ! (s + i) # take k (drop (s + Suc i) m)"
    using Suc.prems by (subst Cons_nth_drop_Suc [symmetric]) auto
  from Suc.prems Suc.IH [of "Suc i" ?m] show ?case
    by (simp add: hd rest blit_Cons)
qed

lemma move_down_eq:
  "s \<le> d \<Longrightarrow> d + k \<le> length m \<Longrightarrow>
    move_down m d s k = Some (blit m d (take k (drop s m)))"
proof (induction k arbitrary: m)
  case 0
  then show ?case by simp
next
  case (Suc k)
  let ?m = "m[d + k := m ! (s + k)]"
  have rest: "take k (drop s ?m) = take k (drop s m)"
    using Suc.prems by (intro nth_equalityI) auto
  have tl: "take (Suc k) (drop s m) = take k (drop s m) @ [m ! (s + k)]"
    using Suc.prems by (subst take_Suc_conv_app_nth) auto
  have "blit ?m d (take k (drop s m)) = blit m d (take (Suc k) (drop s m))"
    using Suc.prems by (intro nth_equalityI) (auto simp: nth_blit tl nth_append nth_list_update)
  with Suc.prems Suc.IH [of ?m] show ?case by (simp add: rest)
qed

lemma memmove_eq:
  "d + n \<le> length m \<Longrightarrow> s + n \<le> length m \<Longrightarrow>
    memmove m d s n = Some (blit m d (take n (drop s m)))"
  by (auto simp: memmove_def move_up_eq move_down_eq blit_id)

section \<open>Decimal conversion\<close>

definition dec_step :: "u32 \<Rightarrow> byte \<Rightarrow> u32" where
  "dec_step n c = n * 10 + (scast c - 48)"

definition is_dec :: "byte \<Rightarrow> bool" where
  "is_dec c \<longleftrightarrow> 48 \<le> sint c \<and> sint c \<le> 57"

lemma atoi_from_digits:
  "list_all is_dec ds \<Longrightarrow> atoi_from n (ds @ r) = atoi_from (foldl dec_step n ds) r"
  by (induction ds arbitrary: n) (auto simp: is_dec_def dec_step_def)

lemma dec_char:
  fixes d :: u32
  assumes "d < 10"
  shows "is_dec (48 + ucast d)" and "scast (48 + ucast d :: byte) - 48 = d"
proof -
  have "unat d < 10" using assms by (simp add: word_less_nat_alt)
  moreover have "d = of_nat (unat d)" by simp
  ultimately obtain n where n: "d = of_nat n" "n < 10" by blast
  then have "n = 0 \<or> n = 1 \<or> n = 2 \<or> n = 3 \<or> n = 4 \<or> n = 5 \<or> n = 6 \<or> n = 7 \<or> n = 8 \<or> n = 9"
    by arith
  with n show "is_dec (48 + ucast d)" and "scast (48 + ucast d :: byte) - 48 = d"
    by (elim disjE; simp add: is_dec_def)+
qed

lemma itoa_digits_dec: "list_all is_dec (itoa_digits m)"
proof (induction m rule: itoa_digits.induct)
  case (1 m)
  have "m mod 10 < 10" by (simp add: word_mod_less_divisor)
  then have "is_dec (48 + ucast (m mod 10))" by (rule dec_char)
  with 1 show ?case by (subst itoa_digits.simps) (simp add: Let_def)
qed

lemma itoa_digits_value: "foldl dec_step 0 (rev (itoa_digits m)) = m"
proof (induction m rule: itoa_digits.induct)
  case (1 m)
  have "m mod 10 < 10" by (simp add: word_mod_less_divisor)
  then have d: "scast (48 + ucast (m mod 10) :: byte) - 48 = m mod 10" by (rule dec_char)
  have step: "dec_step (m div 10) (48 + ucast (m mod 10)) = m"
    unfolding dec_step_def d by (metis div_mult_mod_eq mult.commute)
  show ?case
  proof (cases "m div 10 > 0")
    case True
    with 1 have "foldl dec_step 0 (rev (itoa_digits (m div 10))) = m div 10" by simp
    with True step show ?thesis by (subst itoa_digits.simps) (simp add: Let_def)
  next
    case False
    then have "m div 10 = 0" by (simp add: word_gt_0)
    with step show ?thesis by (subst itoa_digits.simps) (simp add: Let_def)
  qed
qed

lemma itoa_digits_length: "unat m < 10 ^ Suc k \<Longrightarrow> length (itoa_digits m) \<le> Suc k"
proof (induction k arbitrary: m)
  case 0
  then have "m div 10 = 0" by (simp add: word_arith_nat_div unat_div)
  then show ?case by (subst itoa_digits.simps) simp
next
  case (Suc k)
  then have "unat (m div 10) < 10 ^ Suc k" by (simp add: unat_div)
  with Suc.IH show ?case by (subst itoa_digits.simps) (simp add: Let_def)
qed

lemma itoa_digits_le_10: "length (itoa_digits m) \<le> 10"
  using itoa_digits_length [of m 9] unat_u32_lt [of m] by simp

lemma swap_ends_nth:
  "i \<le> length b \<Longrightarrow> j + k = i div 2 \<Longrightarrow>
    \<exists>r. swap_ends b i j k = Some r \<and> length r = length b \<and>
      (\<forall>p<length b. r ! p = (if j \<le> p \<and> p < i - j then b ! (i - 1 - p) else b ! p))"
proof (induction k arbitrary: b j)
  case 0
  have "p = i - 1 - p" if "j \<le> p" "p < i - j" for p using that 0 by arith
  then show ?case by auto
next
  case (Suc k)
  let ?q = "i - 1 - j"
  let ?b = "b[j := b ! ?q, ?q := b ! j]"
  have jq: "j < ?q" "?q < i" "j < i - j" "i - 1 - ?q = j" using Suc.prems by arith+
  have inb: "j < length b" "?q < length b" "j \<noteq> ?q" "\<not> Suc j \<le> j" "\<not> ?q < i - Suc j" "?q < i - j"
    using jq Suc.prems by arith+
  obtain r where r: "swap_ends ?b i (Suc j) k = Some r" "length r = length b"
    "\<forall>p<length b. r ! p = (if Suc j \<le> p \<and> p < i - Suc j then ?b ! (i - 1 - p) else ?b ! p)"
    using Suc.IH [of ?b "Suc j"] Suc.prems by auto
  have "r ! p = (if j \<le> p \<and> p < i - j then b ! (i - 1 - p) else b ! p)" if p: "p < length b" for p
  proof -
    have rp: "r ! p = (if Suc j \<le> p \<and> p < i - Suc j then ?b ! (i - 1 - p) else ?b ! p)"
      using r(3) p by blast
    consider "p = j" | "p = ?q" | "Suc j \<le> p \<and> p < ?q" | "p < j \<or> ?q < p"
      by arith
    then show ?thesis
    proof cases
      case 1
      with rp inb jq show ?thesis by simp
    next
      case 2
      with rp inb jq show ?thesis by simp
    next
      case 3
      then have "i - 1 - p \<noteq> j" "i - 1 - p \<noteq> ?q" "p < i - j" using jq by arith+
      with 3 rp show ?thesis by simp
    next
      case 4
      then have "p \<noteq> j" "p \<noteq> ?q" "\<not> (j \<le> p \<and> p < i - j)"
        "\<not> (Suc j \<le> p \<and> p < i - Suc j)" using jq by arith+
      with rp show ?thesis by (simp only: if_False nth_list_update_neq)
    qed
  qed
  with r jq inb show ?case by auto
qed

lemma swap_ends_rev:
  assumes "i \<le> length b"
  shows "swap_ends b i 0 (i div 2) = Some (rev (take i b) @ drop i b)"
proof -
  obtain r where r: "swap_ends b i 0 (i div 2) = Some r" "length r = length b"
    "\<forall>p<length b. r ! p = (if p < i then b ! (i - 1 - p) else b ! p)"
    using swap_ends_nth [of i b 0 "i div 2"] assms by auto
  have "r = rev (take i b) @ drop i b"
    using r(2,3) assms by (intro nth_equalityI) (auto simp: nth_append rev_nth)
  with r(1) show ?thesis by simp
qed

text \<open>The text itoa leaves in the buffer, without the NUL.\<close>

definition itoa_text :: "u32 \<Rightarrow> byte list" where
  "itoa_text n = (if sint n < 0 then 45 # rev (itoa_digits (0 - n)) else rev (itoa_digits n))"

lemma itoa_eq:
  "length (itoa_text n) < length buf \<Longrightarrow>
    itoa n buf = Some (itoa_text n @ 0 # drop (Suc (length (itoa_text n))) buf)"
  by (cases "sint n < 0")
    (auto simp: itoa_def itoa_text_def Let_def memcpy_eq swap_ends_rev Suc_le_eq)

lemma itoa_text_length: "length (itoa_text n) \<le> 11"
  using itoa_digits_le_10 [of n] itoa_digits_le_10 [of "0 - n"] by (simp add: itoa_text_def)


lemma atoi_itoa_text:
  assumes "0 \<le> sint n"
  shows "atoi (itoa_text n @ 0 # r) = Some n"
proof -
  have "list_all is_dec (rev (itoa_digits n))" using itoa_digits_dec by simp
  from atoi_from_digits [OF this] assms show ?thesis
    by (simp add: atoi_def itoa_text_def itoa_digits_value)
qed

lemma atoi_itoa_neg:
  assumes "sint n < 0"
  shows "itoa_text n = 45 # tl (itoa_text n) \<and> atoi (tl (itoa_text n) @ 0 # r) = Some (0 - n)"
proof -
  have "list_all is_dec (rev (itoa_digits (0 - n)))" using itoa_digits_dec by simp
  from atoi_from_digits [OF this] assms show ?thesis
    by (simp add: atoi_def itoa_text_def itoa_digits_value)
qed

lemma nul_free_itoa_text: "nul_free (itoa_text n)"
proof -
  have "nul_free (itoa_digits m)" for m
    using itoa_digits_dec [of m] by (auto simp: nul_free_def list_all_iff is_dec_def)
  then show ?thesis by (auto simp: itoa_text_def nul_free_def)
qed

section \<open>Properties\<close>

text \<open>Memmove within one object puts the old source bytes at the destination, whichever way the
  two ranges overlap, and changes no byte outside the destination range.\<close>

theorem memmove_overlap:
  assumes "d + n \<le> length m" and "s + n \<le> length m"
  shows "\<exists>m'. memmove m d s n = Some m' \<and> length m' = length m \<and>
    take n (drop d m') = take n (drop s m) \<and>
    (\<forall>k<length m. k < d \<or> d + n \<le> k \<longrightarrow> m' ! k = m ! k)"
proof -
  have l: "length (take n (drop s m)) = n" using assms by simp
  have "take n (drop d (blit m d (take n (drop s m)))) = take n (drop s m)"
    using blit_read [of d "take n (drop s m)" m] assms by (simp add: l)
  with assms l show ?thesis by (auto simp: memmove_eq nth_blit)
qed

theorem memmove_overlap_witness:
  "\<exists>m'. memmove [1, 2, 3, 4, 5] 1 0 4 = Some m' \<and> take 4 (drop 1 m') = [1, 2, 3, 4]"
  using memmove_overlap [of 1 4 "[1, 2, 3, 4, 5]" 0] by auto

text \<open>Strstr on two C strings always returns, with the offset of the first occurrence of the
  needle, or NULL exactly when the needle does not occur.\<close>

theorem strstr_first_occurrence:
  assumes "nul_free h" and "nul_free n"
  shows "\<exists>res. strstr (h @ 0 # r) (n @ 0 # r') = Some res \<and>
    (case res of
       None \<Rightarrow> \<not> sublist n h
     | Some k \<Rightarrow> k \<le> length h \<and> prefix n (drop k h) \<and> (\<forall>j<k. \<not> prefix n (drop j h)))"
proof (cases n)
  case Nil
  then show ?thesis by (auto simp: strstr_def)
next
  case (Cons a n')
  then have eq: "strstr (h @ 0 # r) (n @ 0 # r') = strstr_from 0 (h @ 0 # r) (n @ 0 # r')"
    using assms by (simp add: strstr_def)
  obtain res where res: "strstr_from 0 (h @ 0 # r) (n @ 0 # r') = Some res"
    using strstr_from_defined [OF assms] by blast
  show ?thesis
  proof (cases res)
    case None
    with res have no: "\<forall>j<length h. \<not> prefix n (drop j h)"
      using strstr_from_None [OF assms] by blast
    have "\<not> sublist n h"
    proof
      assume "sublist n h"
      then obtain ps ss where "h = ps @ n @ ss" by (auto simp: sublist_def)
      with Cons no [rule_format, of "length ps"] show False by simp
    qed
    with res None eq show ?thesis by simp
  next
    case (Some k)
    with res have "k < length h \<and> prefix n (drop k h) \<and> (\<forall>j<k. \<not> prefix n (drop j h))"
      using strstr_from_Some [OF assms, of 0] by fastforce
    with res Some eq show ?thesis by auto
  qed
qed

theorem strstr_first_occurrence_witness:
  "strstr (asc ''hello world'' @ [0]) (asc ''world'' @ [0]) = Some (Some 6) \<and>
   prefix (asc ''world'') (drop 6 (asc ''hello world''))"
proof -
  have "strstr (asc ''hello world'' @ [0]) (asc ''world'' @ [0]) = Some (Some 6)"
    by (simp add: strstr_def)
  with strstr_first_occurrence [of "asc ''hello world''" "asc ''world''" "[]" "[]"]
  show ?thesis by simp
qed

text \<open>Itoa never needs more than the 12 bytes its callers provide, leaves a NUL-terminated
  decimal text, and atoi reads the number back (the digits after the sign when it is negative).\<close>

theorem itoa_atoi_roundtrip:
  assumes "12 \<le> length buf"
  shows "\<exists>t. itoa n buf = Some (t @ 0 # drop (Suc (length t)) buf) \<and> length t \<le> 11 \<and> nul_free t \<and>
    (0 \<le> sint n \<longrightarrow> atoi (t @ 0 # drop (Suc (length t)) buf) = Some n) \<and>
    (sint n < 0 \<longrightarrow> t = 45 # tl t \<and> atoi (tl t @ 0 # drop (Suc (length t)) buf) = Some (0 - n))"
proof (intro exI conjI impI)
  show "itoa n buf = Some (itoa_text n @ 0 # drop (Suc (length (itoa_text n))) buf)"
    using assms itoa_text_length [of n] by (intro itoa_eq) simp
qed (use itoa_text_length nul_free_itoa_text atoi_itoa_text atoi_itoa_neg in auto)

theorem itoa_atoi_roundtrip_witness:
  "\<exists>t. itoa (- 42) (replicate 12 0) = Some (t @ 0 # drop (Suc (length t)) (replicate 12 0)) \<and>
     length t \<le> 11 \<and> t = 45 # tl t"
  using itoa_atoi_roundtrip [of "replicate 12 0" "- 42"] by auto

end
