(* ===== verification/Keyboard.thy ===== *)
theory Keyboard
  imports Prelude
begin

text \<open>
  src/drivers/keyboard.c: the 256-byte ring the interrupt handler fills, and the scancode decoder
  behind kbd_getc with its modifier, caps-lock and 0xE0-prefix state. kbd_getc busy-waits on an
  empty ring, which is \<open>None\<close> here. A bounded-queue interface states what the decoder relies on;
  the ring is its interpretation.
\<close>

definition KEY_UP :: u32 where "KEY_UP = 0xE0"
definition KEY_DOWN :: u32 where "KEY_DOWN = 0xE1"
definition KEY_LEFT :: u32 where "KEY_LEFT = 0xE2"
definition KEY_RIGHT :: u32 where "KEY_RIGHT = 0xE3"

definition MOD_SHIFT :: u32 where "MOD_SHIFT = 0x01"
definition MOD_CTRL :: u32 where "MOD_CTRL = 0x02"
definition MOD_ALT :: u32 where "MOD_ALT = 0x04"
definition MOD_SUPER :: u32 where "MOD_SUPER = 0x08"

lemmas key_defs = KEY_UP_def KEY_DOWN_def KEY_LEFT_def KEY_RIGHT_def
lemmas mod_defs = MOD_SHIFT_def MOD_CTRL_def MOD_ALT_def MOD_SUPER_def

record kbd =
  kb_buffer :: "byte list"
  kb_head :: nat
  kb_tail :: nat
  kb_modifiers :: u32
  kb_caps :: bool
  kb_extended :: bool

definition kbd_init :: kbd where
  "kbd_init = \<lparr>kb_buffer = replicate 256 0, kb_head = 0, kb_tail = 0, kb_modifiers = 0,
    kb_caps = False, kb_extended = False\<rparr>"

section \<open>Scancode tables\<close>

definition scancodes_init :: "(byte \<times> byte) list" where
  "scancodes_init =
    [(0x01, 0x1b),
     (0x02, 49), (0x03, 50), (0x04, 51), (0x05, 52),
     (0x06, 53), (0x07, 54), (0x08, 55), (0x09, 56),
     (0x0a, 57), (0x0b, 48), (0x0c, 45), (0x0d, 61),
     (0x0e, 8),
     (0x0f, 9)]
    @ zip [0x10, 0x11, 0x12, 0x13, 0x14, 0x15, 0x16, 0x17, 0x18, 0x19, 0x1a, 0x1b]
          (asc ''qwertyuiop[]'')
    @ [(0x1c, 10)]
    @ zip [0x1e, 0x1f, 0x20, 0x21, 0x22, 0x23, 0x24, 0x25, 0x26, 0x27, 0x28, 0x29, 0x2b]
          (asc ''asdfghjkl;'' @ [39, 96, 92])
    @ zip [0x2c, 0x2d, 0x2e, 0x2f, 0x30, 0x31, 0x32, 0x33, 0x34, 0x35, 0x37, 0x39]
          (asc ''zxcvbnm,./* '')"

definition scancodes_shift_init :: "(byte \<times> byte) list" where
  "scancodes_shift_init =
    [(0x01, 0x1b)]
    @ zip [0x02, 0x03, 0x04, 0x05, 0x06, 0x07, 0x08, 0x09, 0x0a, 0x0b, 0x0c, 0x0d]
          (asc ''!@#$%^&*()_+'')
    @ [(0x0e, 8), (0x0f, 9)]
    @ zip [0x10, 0x11, 0x12, 0x13, 0x14, 0x15, 0x16, 0x17, 0x18, 0x19, 0x1a, 0x1b]
          (asc ''QWERTYUIOP{}'')
    @ [(0x1c, 10)]
    @ zip [0x1e, 0x1f, 0x20, 0x21, 0x22, 0x23, 0x24, 0x25, 0x26, 0x27, 0x28, 0x29, 0x2b]
          (asc ''ASDFGHJKL:'' @ [34, 126, 124])
    @ zip [0x2c, 0x2d, 0x2e, 0x2f, 0x30, 0x31, 0x32, 0x33, 0x34, 0x35, 0x37, 0x39]
          (asc ''ZXCVBNM<>?* '')"

text \<open>A designated initialiser leaves every other element zero.\<close>

definition scancodes :: "byte \<Rightarrow> byte" where
  "scancodes sc = (case map_of scancodes_init sc of Some c \<Rightarrow> c | None \<Rightarrow> 0)"

definition scancodes_shift :: "byte \<Rightarrow> byte" where
  "scancodes_shift sc = (case map_of scancodes_shift_init sc of Some c \<Rightarrow> c | None \<Rightarrow> 0)"

section \<open>The ring\<close>

definition keyboard_handler :: "byte \<Rightarrow> kbd \<Rightarrow> kbd" where
  "keyboard_handler sc k =
     (let next = (kb_head k + 1) mod 256
      in if next \<noteq> kb_tail k
         then k\<lparr>kb_buffer := (kb_buffer k)[kb_head k := sc], kb_head := next\<rparr>
         else k)"

definition kbd_take :: "kbd \<Rightarrow> (byte \<times> kbd) option" where
  "kbd_take k =
     (if kb_head k = kb_tail k then None
      else Some (kb_buffer k ! kb_tail k, k\<lparr>kb_tail := (kb_tail k + 1) mod 256\<rparr>))"

section \<open>The decoder\<close>

definition mod_set :: "u32 \<Rightarrow> kbd \<Rightarrow> kbd" where
  "mod_set m k = k\<lparr>kb_modifiers := kb_modifiers k OR m\<rparr>"

definition mod_clear :: "u32 \<Rightarrow> kbd \<Rightarrow> kbd" where
  "mod_clear m k = k\<lparr>kb_modifiers := kb_modifiers k AND NOT m\<rparr>"

definition decode_release :: "byte \<Rightarrow> kbd \<Rightarrow> kbd" where
  "decode_release key k =
     (if kb_extended k then
        (let k' = k\<lparr>kb_extended := False\<rparr>
         in if key = 0x1d then mod_clear MOD_CTRL k'
            else if key = 0x38 then mod_clear MOD_ALT k'
            else if key = 0x5b \<or> key = 0x5c then mod_clear MOD_SUPER k'
            else k')
      else if key = 0x2a \<or> key = 0x36 then mod_clear MOD_SHIFT k
      else if key = 0x1d then mod_clear MOD_CTRL k
      else if key = 0x38 then mod_clear MOD_ALT k
      else k)"

definition decode_extended :: "byte \<Rightarrow> kbd \<Rightarrow> u32 \<times> kbd" where
  "decode_extended scancode k =
     (if scancode = 0x1d then (0, mod_set MOD_CTRL k)
      else if scancode = 0x38 then (0, mod_set MOD_ALT k)
      else if scancode = 0x5b \<or> scancode = 0x5c then (0, mod_set MOD_SUPER k)
      else if scancode = 0x48 then (KEY_UP, k)
      else if scancode = 0x50 then (KEY_DOWN, k)
      else if scancode = 0x4b then (KEY_LEFT, k)
      else if scancode = 0x4d then (KEY_RIGHT, k)
      else (0, k))"

definition decode_char :: "byte \<Rightarrow> kbd \<Rightarrow> u32" where
  "decode_char scancode k =
     (let base = scancodes scancode; shifted = scancodes_shift scancode;
          shift = (kb_modifiers k AND MOD_SHIFT \<noteq> 0)
      in if 97 \<le> sint base \<and> sint base \<le> 122
         then (if shift \<noteq> kb_caps k then scast shifted else scast base)
         else (if shift then scast shifted else scast base))"

definition kbd_decode :: "byte \<Rightarrow> kbd \<Rightarrow> u32 \<times> kbd" where
  "kbd_decode scancode k =
     (if scancode = 0xe0 then (0, k\<lparr>kb_extended := True\<rparr>)
      else if scancode AND 0x80 \<noteq> 0 then (0, decode_release (scancode AND 0x7f) k)
      else if kb_extended k then decode_extended scancode (k\<lparr>kb_extended := False\<rparr>)
      else if scancode = 0x2a \<or> scancode = 0x36 then (0, mod_set MOD_SHIFT k)
      else if scancode = 0x1d then (0, mod_set MOD_CTRL k)
      else if scancode = 0x38 then (0, mod_set MOD_ALT k)
      else if scancode = 0x3a then (0, k\<lparr>kb_caps := \<not> kb_caps k\<rparr>)
      else (decode_char scancode k, k))"

definition kbd_getc :: "kbd \<Rightarrow> (u32 \<times> kbd) option" where
  "kbd_getc k = do { (sc, k') \<leftarrow> kbd_take k; Some (kbd_decode sc k') }"

definition kbd_mods :: "kbd \<Rightarrow> u32" where
  "kbd_mods k = kb_modifiers k"

definition caps_active :: "kbd \<Rightarrow> bool" where
  "caps_active k = kb_caps k"

text \<open>kbd_flush steps the tail until it meets the head; at most 256 steps.\<close>

fun flush_steps :: "nat \<Rightarrow> kbd \<Rightarrow> kbd" where
  "flush_steps 0 k = k"
| "flush_steps (Suc n) k =
     (if kb_head k \<noteq> kb_tail k
      then flush_steps n (k\<lparr>kb_tail := (kb_tail k + 1) mod 256\<rparr>) else k)"

definition kbd_flush :: "kbd \<Rightarrow> kbd" where
  "kbd_flush k = (flush_steps 256 k)\<lparr>kb_extended := False\<rparr>"

section \<open>Bounded queues\<close>

text \<open>What a consumer may assume of the buffer between an interrupt handler and itself: items come
  out in arrival order, and an arrival at a full buffer is dropped, not written over an older one.\<close>

locale bounded_queue =
  fixes enq :: "'a \<Rightarrow> 'q \<Rightarrow> 'q"
    and deq :: "'q \<Rightarrow> ('a \<times> 'q) option"
    and contents :: "'q \<Rightarrow> 'a list"
    and ok :: "'q \<Rightarrow> bool"
    and capacity :: nat
  assumes enq_room: "ok q \<Longrightarrow> length (contents q) < capacity \<Longrightarrow> contents (enq x q) = contents q @ [x]"
    and enq_full: "ok q \<Longrightarrow> length (contents q) = capacity \<Longrightarrow> contents (enq x q) = contents q"
    and ok_enq: "ok q \<Longrightarrow> ok (enq x q)"
    and deq_None: "ok q \<Longrightarrow> deq q = None \<longleftrightarrow> contents q = []"
    and deq_Some: "ok q \<Longrightarrow> deq q = Some (x, q') \<Longrightarrow> contents q = x # contents q' \<and> ok q'"
    and bounded: "ok q \<Longrightarrow> length (contents q) \<le> capacity"
begin

definition run1 :: "'a option \<Rightarrow> 'q \<times> 'a list \<Rightarrow> 'q \<times> 'a list" where
  "run1 e s =
     (case e of
        Some x \<Rightarrow> (enq x (fst s), snd s)
      | None \<Rightarrow> (case deq (fst s) of None \<Rightarrow> s | Some (x, q') \<Rightarrow> (q', snd s @ [x])))"

definition spec1 :: "'a option \<Rightarrow> 'a list \<times> 'a list \<Rightarrow> 'a list \<times> 'a list" where
  "spec1 e s =
     (case e of
        Some x \<Rightarrow> (if length (fst s) < capacity then fst s @ [x] else fst s, snd s)
      | None \<Rightarrow> (case fst s of [] \<Rightarrow> s | x # xs \<Rightarrow> (xs, snd s @ [x])))"

lemma enq_spec:
  "ok q \<Longrightarrow> contents (enq x q) = (if length (contents q) < capacity then contents q @ [x] else contents q)"
  using bounded [of q] enq_room [of q x] enq_full [of q x] by fastforce

lemma run1_simulates:
  assumes "ok (fst s)"
  shows "ok (fst (run1 e s)) \<and>
    spec1 e (contents (fst s), snd s) = (contents (fst (run1 e s)), snd (run1 e s))"
proof (cases e)
  case (Some x)
  with assms show ?thesis by (simp add: run1_def spec1_def enq_spec ok_enq)
next
  case None
  show ?thesis
  proof (cases "deq (fst s)")
    case None
    with assms have "contents (fst s) = []" using deq_None by blast
    with assms None \<open>e = None\<close> show ?thesis
      by (simp add: run1_def spec1_def del: deq_None)
  next
    case (Some p)
    then obtain x q' where "deq (fst s) = Some (x, q')" by (cases p) simp
    with assms \<open>e = None\<close> deq_Some [of "fst s" x q'] show ?thesis
      by (simp add: run1_def spec1_def)
  qed
qed

lemma run_simulates:
  "ok (fst s) \<Longrightarrow>
    ok (fst (fold run1 es s)) \<and>
    fold spec1 es (contents (fst s), snd s) =
      (contents (fst (fold run1 es s)), snd (fold run1 es s))"
proof (induction es arbitrary: s)
  case Nil
  then show ?case by simp
next
  case (Cons e es)
  then show ?case using run1_simulates [of s e] by simp
qed

lemma enq_all:
  "ok q \<Longrightarrow> ok (fold enq xs q) \<and> contents (fold enq xs q) = take capacity (contents q @ xs)"
proof (induction xs arbitrary: q)
  case Nil
  then show ?case using bounded by simp
next
  case (Cons x xs)
  then have "ok (enq x q)" by (simp add: ok_enq)
  moreover have "capacity - length (contents q) = Suc (capacity - Suc (length (contents q)))"
    if "length (contents q) < capacity" using that by arith
  ultimately show ?case
    using Cons.IH [of "enq x q"] Cons.prems bounded [of q] by (auto simp: enq_spec)
qed

end

section \<open>The ring is a bounded queue of 255 scancodes\<close>

definition kbd_ok :: "kbd \<Rightarrow> bool" where
  "kbd_ok k \<longleftrightarrow> length (kb_buffer k) = 256 \<and> kb_head k < 256 \<and> kb_tail k < 256"

definition kbd_count :: "kbd \<Rightarrow> nat" where
  "kbd_count k = (kb_head k + 256 - kb_tail k) mod 256"

definition pending :: "kbd \<Rightarrow> byte list" where
  "pending k = map (\<lambda>i. kb_buffer k ! ((kb_tail k + i) mod 256)) [0..<kbd_count k]"

lemma length_pending [simp]: "length (pending k) = kbd_count k"
  by (simp add: pending_def)

lemma kbd_ok_init [simp]: "kbd_ok kbd_init"
  by (simp add: kbd_ok_def kbd_init_def)

lemma pending_init [simp]: "pending kbd_init = []"
  by (simp add: pending_def kbd_init_def kbd_count_def)

lemma ring_next: "h < 256 \<Longrightarrow> Suc h mod 256 = (if h = 255 then 0 else Suc h)"
  by auto

lemma kbd_count_cases:
  assumes "kbd_ok k"
  shows "kbd_count k =
    (if kb_tail k \<le> kb_head k then kb_head k - kb_tail k else kb_head k + 256 - kb_tail k)"
proof (cases "kb_tail k \<le> kb_head k")
  case True
  then have "kb_head k + 256 - kb_tail k = kb_head k - kb_tail k + 256" by arith
  moreover have "(kb_head k - kb_tail k) mod 256 = kb_head k - kb_tail k"
    using assms by (intro mod_less) (auto simp: kbd_ok_def)
  ultimately show ?thesis using True unfolding kbd_count_def by (simp only: mod_add_self2 if_True)
next
  case False
  with assms show ?thesis by (simp add: kbd_count_def kbd_ok_def)
qed

lemma kbd_count_le: "kbd_count k \<le> 255"
  using mod_less_divisor [of 256 "kb_head k + 256 - kb_tail k"] by (simp add: kbd_count_def)

lemma kbd_count_0: "kbd_ok k \<Longrightarrow> kbd_count k = 0 \<longleftrightarrow> kb_head k = kb_tail k"
  by (auto simp: kbd_count_cases kbd_ok_def)

lemma kbd_full: "kbd_ok k \<Longrightarrow> Suc (kb_head k) mod 256 = kb_tail k \<longleftrightarrow> kbd_count k = 255"
  using kbd_count_cases [of k] unfolding kbd_ok_def by (auto simp: ring_next split: if_splits)

lemma tail_plus:
  "kbd_ok k \<Longrightarrow> i < 256 \<Longrightarrow> (kb_tail k + i) mod 256 =
    (if kb_tail k + i < 256 then kb_tail k + i else kb_tail k + i - 256)"
  by (auto simp: kbd_ok_def le_mod_geq)

lemma tail_plus_count: "kbd_ok k \<Longrightarrow> (kb_tail k + kbd_count k) mod 256 = kb_head k"
  using kbd_count_le [of k] by (auto simp: tail_plus kbd_count_cases kbd_ok_def)

lemma ring_slots_distinct:
  "kbd_ok k \<Longrightarrow> i < kbd_count k \<Longrightarrow> (kb_tail k + i) mod 256 \<noteq> kb_head k"
  using kbd_count_le [of k] by (auto simp: tail_plus kbd_count_cases kbd_ok_def split: if_splits)

lemma handler_full: "kbd_ok k \<Longrightarrow> kbd_count k = 255 \<Longrightarrow> keyboard_handler sc k = k"
  by (simp add: keyboard_handler_def kbd_full)

lemma handler_room:
  assumes "kbd_ok k" and "kbd_count k < 255"
  shows "pending (keyboard_handler sc k) = pending k @ [sc]"
proof -
  let ?k = "keyboard_handler sc k"
  have ne: "Suc (kb_head k) mod 256 \<noteq> kb_tail k" using kbd_full assms by simp
  have k: "?k = k\<lparr>kb_buffer := (kb_buffer k)[kb_head k := sc], kb_head := Suc (kb_head k) mod 256\<rparr>"
    using ne by (simp add: keyboard_handler_def)
  have ok: "kbd_ok ?k" using assms(1) unfolding k kbd_ok_def by simp
  have c: "kbd_count ?k = Suc (kbd_count k)"
    using assms ne kbd_count_cases [OF ok] kbd_count_cases [OF assms(1)]
    by (auto simp: k kbd_ok_def ring_next split: if_splits)
  have old: "(kb_buffer k)[kb_head k := sc] ! ((kb_tail k + i) mod 256) =
      kb_buffer k ! ((kb_tail k + i) mod 256)" if "i < kbd_count k" for i
    using ring_slots_distinct [OF assms(1) that] by simp
  have new: "(kb_buffer k)[kb_head k := sc] ! ((kb_tail k + kbd_count k) mod 256) = sc"
    using assms(1) by (simp add: tail_plus_count) (simp add: kbd_ok_def)
  show ?thesis
    unfolding pending_def c upt_Suc_append [OF le0] by (simp add: k old new)
qed

lemma kbd_ok_handler: "kbd_ok k \<Longrightarrow> kbd_ok (keyboard_handler sc k)"
  by (simp add: keyboard_handler_def kbd_ok_def Let_def)

lemma kbd_take_None: "kbd_ok k \<Longrightarrow> kbd_take k = None \<longleftrightarrow> pending k = []"
  by (auto simp: kbd_take_def pending_def kbd_count_0)

lemma kbd_take_Some:
  assumes "kbd_ok k" and "kbd_take k = Some (sc, k')"
  shows "pending k = sc # pending k' \<and> kbd_ok k'"
proof -
  have ne: "kb_head k \<noteq> kb_tail k" and sc: "sc = kb_buffer k ! kb_tail k"
    and k': "k' = k\<lparr>kb_tail := (kb_tail k + 1) mod 256\<rparr>"
    using assms(2) by (auto simp: kbd_take_def split: if_splits)
  have ok': "kbd_ok k'" using assms(1) by (simp add: k' kbd_ok_def)
  have c: "kbd_count k = Suc (kbd_count k')"
    using assms(1) ne kbd_count_cases [OF ok'] kbd_count_cases [OF assms(1)]
    by (auto simp: k' kbd_ok_def ring_next split: if_splits)
  have "(kb_tail k + Suc i) mod 256 = ((kb_tail k + 1) mod 256 + i) mod 256" for i
    by (simp add: mod_simps)
  then have "pending k = sc # pending k'"
    unfolding pending_def c upt_conv_Cons [OF zero_less_Suc]
    using assms(1) by (simp add: sc k' kbd_ok_def map_Suc_upt [symmetric] del: upt_Suc)
  with ok' show ?thesis by simp
qed

interpretation kq: bounded_queue keyboard_handler kbd_take pending kbd_ok 255
proof unfold_locales
  fix q :: kbd and x :: byte
  assume ok: "kbd_ok q"
  show "length (pending q) \<le> 255" by (simp add: kbd_count_le)
  show "kbd_ok (keyboard_handler x q)" using ok by (rule kbd_ok_handler)
  show "kbd_take q = None \<longleftrightarrow> pending q = []" using ok by (rule kbd_take_None)
  show "pending (keyboard_handler x q) = pending q @ [x]" if "length (pending q) < 255"
    using ok that by (simp add: handler_room)
  show "pending (keyboard_handler x q) = pending q" if "length (pending q) = 255"
    using ok that by (simp add: handler_full)
  show "pending q = x # pending q' \<and> kbd_ok q'" if "kbd_take q = Some (x, q')" for q'
    using ok that by (rule kbd_take_Some)
qed


section \<open>Flushing and decoding\<close>

lemma flush_steps_ok: "kbd_ok k \<Longrightarrow> kbd_ok (flush_steps n k)"
  by (induction n k rule: flush_steps.induct) (auto simp: kbd_ok_def)

lemma flush_steps_empty:
  "kbd_ok k \<Longrightarrow> kbd_count k \<le> n \<Longrightarrow> kb_head (flush_steps n k) = kb_tail (flush_steps n k)"
proof (induction n arbitrary: k)
  case 0
  then show ?case by (simp add: kbd_count_0)
next
  case (Suc n)
  show ?case
  proof (cases "kb_head k = kb_tail k")
    case False
    then obtain sc k' where t: "kbd_take k = Some (sc, k')"
      and k': "k' = k\<lparr>kb_tail := (kb_tail k + 1) mod 256\<rparr>"
      by (simp add: kbd_take_def)
    from kbd_take_Some [OF Suc.prems(1) t] have "kbd_ok k'" "kbd_count k = Suc (kbd_count k')"
      using length_pending [of k] by simp_all
    with Suc k' False show ?thesis by simp
  qed simp
qed

lemma flush_steps_frame:
  "kb_modifiers (flush_steps n k) = kb_modifiers k \<and> kb_caps (flush_steps n k) = kb_caps k"
  by (induction n k rule: flush_steps.induct) auto

lemma kbd_flush_empty: "kbd_ok k \<Longrightarrow> kbd_ok (kbd_flush k) \<and> pending (kbd_flush k) = []"
  using flush_steps_empty [of k 256] flush_steps_ok [of k 256] kbd_count_le [of k]
  by (simp add: kbd_flush_def pending_def kbd_count_def kbd_ok_def)

text \<open>A decoder step does not touch the ring.\<close>

lemma decode_frame:
  "kb_buffer (snd (kbd_decode sc k)) = kb_buffer k"
  "kb_head (snd (kbd_decode sc k)) = kb_head k"
  "kb_tail (snd (kbd_decode sc k)) = kb_tail k"
  by (simp_all add: kbd_decode_def decode_release_def decode_extended_def mod_set_def mod_clear_def
      Let_def)

lemma decode_ok [simp]: "kbd_ok (snd (kbd_decode sc k)) = kbd_ok k"
  by (simp add: kbd_ok_def decode_frame)

lemma decode_pending [simp]: "pending (snd (kbd_decode sc k)) = pending k"
  by (simp add: pending_def kbd_count_def decode_frame)

lemma map_of_zip_range: "map_of xs k = Some v \<Longrightarrow> list_all (P \<circ> snd) xs \<Longrightarrow> P v"
  by (auto dest!: map_of_SomeD simp: list_all_iff)

lemma tables_ascii:
  "list_all ((\<lambda>c. 8 \<le> uint c \<and> uint c \<le> 126) \<circ> snd) scancodes_init"
  "list_all ((\<lambda>c. 8 \<le> uint c \<and> uint c \<le> 126) \<circ> snd) scancodes_shift_init"
  by (simp_all add: scancodes_init_def scancodes_shift_init_def)

lemma scancodes_ascii: "scancodes sc = 0 \<or> 8 \<le> uint (scancodes sc) \<and> uint (scancodes sc) \<le> 126"
  using map_of_zip_range [OF _ tables_ascii(1)]
  by (auto simp: scancodes_def split: option.splits)

lemma scancodes_shift_ascii:
  "scancodes_shift sc = 0 \<or> 8 \<le> uint (scancodes_shift sc) \<and> uint (scancodes_shift sc) \<le> 126"
  using map_of_zip_range [OF _ tables_ascii(2)]
  by (auto simp: scancodes_shift_def split: option.splits)

lemma scast_ascii:
  assumes "uint (c :: byte) \<le> 126"
  shows "uint (scast c :: u32) = uint c"
proof -
  have "sint c = signed_take_bit 7 (uint c)" by (simp add: sint_uint)
  also have "\<dots> = uint c"
    using assms by (intro signed_take_bit_int_eq_self) (auto intro: order_trans [OF _ uint_ge_0])
  finally have s: "sint c = uint c" .
  have "(scast c :: u32) = word_of_int (sint c)" by simp
  also have "\<dots> = word_of_int (uint c)" by (simp only: s)
  finally have "(scast c :: u32) = ucast c" by simp
  then have "uint (scast c :: u32) = take_bit 32 (uint c)"
    by (simp only: unsigned_ucast_eq) simp
  then show ?thesis using assms by (simp add: take_bit_int_eq_self)
qed

lemma decode_char_range:
  "decode_char sc k = 0 \<or> 8 \<le> uint (decode_char sc k) \<and> uint (decode_char sc k) \<le> 126"
proof -
  have "scast (scancodes sc) = (0 :: u32) \<or>
      8 \<le> uint (scast (scancodes sc) :: u32) \<and> uint (scast (scancodes sc) :: u32) \<le> 126"
    using scancodes_ascii [of sc] scast_ascii [of "scancodes sc"] by auto
  moreover have "scast (scancodes_shift sc) = (0 :: u32) \<or>
      8 \<le> uint (scast (scancodes_shift sc) :: u32) \<and> uint (scast (scancodes_shift sc) :: u32) \<le> 126"
    using scancodes_shift_ascii [of sc] scast_ascii [of "scancodes_shift sc"] by auto
  ultimately show ?thesis unfolding decode_char_def Let_def by (simp split: if_split)
qed

section \<open>Key events\<close>

text \<open>What a keyboard sends: a make code or a break code, with the 0xE0 prefix for the extended
  keys. 0x60 is excluded: its break code would be the prefix byte itself.\<close>

datatype key_event = Press bool byte | Release bool byte

fun wire :: "key_event \<Rightarrow> byte list" where
  "wire (Press e c) = (if e then [0xE0, c] else [c])"
| "wire (Release e c) = (if e then [0xE0, c OR 0x80] else [c OR 0x80])"

fun event_ok :: "key_event \<Rightarrow> bool" where
  "event_ok (Press e c) = (c AND 0x80 = 0)"
| "event_ok (Release e c) = (c AND 0x80 = 0 \<and> c \<noteq> 0x60)"

definition decode_all :: "byte list \<Rightarrow> kbd \<Rightarrow> kbd" where
  "decode_all bs k = fold (\<lambda>b k. snd (kbd_decode b k)) bs k"

text \<open>The keys behind each modifier bit, and the bit as the last event on one of them leaves it.\<close>

definition mod_keys :: "u32 \<Rightarrow> (bool \<times> byte) list" where
  "mod_keys m =
     (if m = MOD_SHIFT then [(False, 0x2a), (False, 0x36)]
      else if m = MOD_CTRL then [(False, 0x1d), (True, 0x1d)]
      else if m = MOD_ALT then [(False, 0x38), (True, 0x38)]
      else if m = MOD_SUPER then [(True, 0x5b), (True, 0x5c)]
      else [])"

fun held :: "u32 \<Rightarrow> bool \<Rightarrow> key_event list \<Rightarrow> bool" where
  "held m b [] = b"
| "held m b (Press e c # evs) = held m (if (e, c) \<in> set (mod_keys m) then True else b) evs"
| "held m b (Release e c # evs) = held m (if (e, c) \<in> set (mod_keys m) then False else b) evs"

lemma byte_no_80: "(c::byte) AND 0x80 = 0 \<longleftrightarrow> \<not> bit c 7"
  using and_exp_eq_0_iff_not_bit[of c 7] by simp
lemma bit_80: "bit (0x80::byte) n \<longleftrightarrow> n = 7"
    using bit_exp_iff [of 7 n, where ?'a = byte] by (auto)

lemma byte_80_strip: "(c::byte) AND 0x80 = 0 \<Longrightarrow> (c OR 0x80) AND 0x7f = c"
proof (rule bit_word_eqI)
  fix n assume c: "c AND 0x80 = 0" and n: "n < LENGTH(8)"
  have m: "(0x7f::byte) = mask 7" by (simp add: mask_eq_exp_minus_1)
  show "bit ((c OR 0x80) AND 0x7f) n = bit c n"
    using c n unfolding byte_no_80 m bit_and_iff bit_or_iff bit_80 bit_mask_iff
    by (cases "n = 7") auto
qed

lemma byte_80_set: "((c::byte) OR 0x80) AND 0x80 \<noteq> 0"
  unfolding byte_no_80 using bit_exp_iff [of 7 7, where ?'a = byte] by (simp add: bit_simps)
lemma byte_80_prefix: "(c::byte) AND 0x80 = 0 \<Longrightarrow> (c OR 0x80) = 0xE0 \<longleftrightarrow> c = 0x60"
  using byte_80_strip [of c] by auto

lemma flag_set: "(x OR m) AND m' = 0 \<longleftrightarrow> x AND m' = 0 \<and> m AND m' = (0 :: u32)"
  by (simp add: bit.conj_disj_distrib2 or_eq_0_iff)

lemma flag_clear_same: "(x AND NOT m) AND m = (0 :: u32)"
  by (simp add: and.assoc)

lemma flag_clear_other:
  assumes "m AND m' = (0 :: u32)"
  shows "(x AND NOT m) AND m' = x AND m'"
proof (rule bit_word_eqI)
  fix n assume "n < LENGTH(32)"
  moreover have "\<not> (bit m n \<and> bit m' n)"
    using assms by (metis bit_and_iff bit_0_eq bot_apply bot_bool_def)
  ultimately show "bit ((x AND NOT m) AND m') n = bit (x AND m') n"
    by (auto simp: bit_and_iff bit_not_iff)
qed


definition modifier_bits :: "u32 set" where
  "modifier_bits = {MOD_SHIFT, MOD_CTRL, MOD_ALT, MOD_SUPER}"

lemma modifier_bits_disjoint:
  "m \<in> modifier_bits \<Longrightarrow> m' \<in> modifier_bits \<Longrightarrow> m AND m' = 0 \<longleftrightarrow> m \<noteq> m'"
  by (auto simp: modifier_bits_def mod_defs)

lemma modifier_bits_in [simp]:
  "MOD_SHIFT \<in> modifier_bits" "MOD_CTRL \<in> modifier_bits" "MOD_ALT \<in> modifier_bits"
  "MOD_SUPER \<in> modifier_bits"
  by (simp_all add: modifier_bits_def)

lemma mod_set_bit [simp]:
  "m \<in> modifier_bits \<Longrightarrow> m' \<in> modifier_bits \<Longrightarrow>
    kb_modifiers (mod_set m' k) AND m = 0 \<longleftrightarrow> m \<noteq> m' \<and> kb_modifiers k AND m = 0"
  using modifier_bits_disjoint [of m' m] by (auto simp: mod_set_def flag_set)

lemma mod_clear_bit [simp]:
  "m \<in> modifier_bits \<Longrightarrow> m' \<in> modifier_bits \<Longrightarrow>
    kb_modifiers (mod_clear m' k) AND m = 0 \<longleftrightarrow> m = m' \<or> kb_modifiers k AND m = 0"
  using modifier_bits_disjoint [of m' m]
  by (cases "m = m'") (auto simp: mod_clear_def flag_clear_same flag_clear_other)

lemma mod_frame [simp]:
  "kb_extended (mod_set m k) = kb_extended k" "kb_extended (mod_clear m k) = kb_extended k"
  by (simp_all add: mod_set_def mod_clear_def)

lemma mod_keys_iff:
  "m \<in> modifier_bits \<Longrightarrow> (e, c) \<in> set (mod_keys m) \<longleftrightarrow>
     m = MOD_SHIFT \<and> \<not> e \<and> (c = 0x2a \<or> c = 0x36) \<or>
     m = MOD_CTRL \<and> c = 0x1d \<or> m = MOD_ALT \<and> c = 0x38 \<or>
     m = MOD_SUPER \<and> e \<and> (c = 0x5b \<or> c = 0x5c)"
  by (auto simp: mod_keys_def modifier_bits_def mod_defs)

lemmas decode_defs = kbd_decode_def decode_release_def decode_extended_def decode_all_def

lemma modifier_bits_distinct:
  "MOD_SHIFT \<noteq> MOD_CTRL" "MOD_SHIFT \<noteq> MOD_ALT" "MOD_SHIFT \<noteq> MOD_SUPER"
  "MOD_CTRL \<noteq> MOD_ALT" "MOD_CTRL \<noteq> MOD_SUPER" "MOD_ALT \<noteq> MOD_SUPER"
  by (simp_all add: mod_defs)

text \<open>One complete key event, from a state between events.\<close>

lemma decode_press:
  assumes "\<not> kb_extended k" and "c AND 0x80 = 0" and m: "m \<in> modifier_bits"
  shows "\<not> kb_extended (decode_all (wire (Press e c)) k) \<and>
    (kb_modifiers (decode_all (wire (Press e c)) k) AND m = 0) =
      (if (e, c) \<in> set (mod_keys m) then False else kb_modifiers k AND m = 0)"
proof -
  have n: "c \<noteq> 0xE0" using assms(2) by auto
  show ?thesis
    unfolding mod_keys_iff [OF m] using assms n
    by (cases e) (auto simp: decode_defs modifier_bits_distinct)
qed

lemma decode_break:
  assumes "\<not> kb_extended k" and "c AND 0x80 = 0" and "c \<noteq> 0x60" and m: "m \<in> modifier_bits"
  shows "\<not> kb_extended (decode_all (wire (Release e c)) k) \<and>
    (kb_modifiers (decode_all (wire (Release e c)) k) AND m = 0) =
      (if (e, c) \<in> set (mod_keys m) then True else kb_modifiers k AND m = 0)"
proof -
  have n: "c OR 0x80 \<noteq> 0xE0" "(c OR 0x80) AND 0x80 \<noteq> 0" "(c OR 0x80) AND 0x7f = c"
    using assms byte_80_prefix byte_80_set byte_80_strip by auto
  show ?thesis
    unfolding mod_keys_iff [OF m] using assms n
    by (cases e) (auto simp: decode_defs Let_def modifier_bits_distinct)
qed

lemma decode_all_append: "decode_all (xs @ ys) k = decode_all ys (decode_all xs k)"
  by (simp add: decode_all_def)

lemma decode_events:
  "\<not> kb_extended k \<Longrightarrow> list_all event_ok evs \<Longrightarrow> m \<in> modifier_bits \<Longrightarrow>
    \<not> kb_extended (decode_all (concat (map wire evs)) k) \<and>
    (kb_modifiers (decode_all (concat (map wire evs)) k) AND m \<noteq> 0) =
      held m (kb_modifiers k AND m \<noteq> 0) evs"
proof (induction evs arbitrary: k)
  case Nil
  then show ?case by (simp add: decode_all_def)
next
  case (Cons ev evs)
  show ?case
  proof (cases ev)
    case (Press e c)
    with Cons.prems decode_press [of k c m e] Cons.IH [of "decode_all (wire ev) k"]
    show ?thesis by (simp add: decode_all_append del: wire.simps)
  next
    case (Release e c)
    with Cons.prems decode_break [of k c m e] Cons.IH [of "decode_all (wire ev) k"]
    show ?thesis by (simp add: decode_all_append del: wire.simps)
  qed
qed


lemma table_case:
  "list_all (\<lambda>(sc, c). 97 \<le> sint c \<and> sint c \<le> 122 \<longrightarrow> scancodes_shift sc = c - 32) scancodes_init"
  by (simp add: scancodes_init_def scancodes_shift_def scancodes_shift_init_def)

lemma letter_case:
  "97 \<le> sint (scancodes sc) \<Longrightarrow> sint (scancodes sc) \<le> 122 \<Longrightarrow>
    scancodes_shift sc = scancodes sc - 32"
  using table_case by (auto simp: scancodes_def list_all_iff split: option.splits
      dest!: map_of_SomeD)

lemma decode_result:
  "fst (kbd_decode sc k) \<in> {KEY_UP, KEY_DOWN, KEY_LEFT, KEY_RIGHT} \<or>
   fst (kbd_decode sc k) = 0 \<or>
   8 \<le> uint (fst (kbd_decode sc k)) \<and> uint (fst (kbd_decode sc k)) \<le> 126"
  using decode_char_range [of sc k] by (simp add: kbd_decode_def decode_extended_def)

section \<open>Properties\<close>

text \<open>A trace of the ring: \<open>Some sc\<close> is an interrupt delivering sc, \<open>None\<close> a consumer's attempt to
  take one; the scancodes taken are collected. Beside it, the same trace on a plain list that
  drops arrivals at 255.\<close>

definition ring_step :: "byte option \<Rightarrow> kbd \<times> byte list \<Rightarrow> kbd \<times> byte list" where
  "ring_step e s =
     (case e of
        Some sc \<Rightarrow> (keyboard_handler sc (fst s), snd s)
      | None \<Rightarrow> (case kbd_take (fst s) of None \<Rightarrow> s | Some (sc, k') \<Rightarrow> (k', snd s @ [sc])))"

definition fifo_step :: "byte option \<Rightarrow> byte list \<times> byte list \<Rightarrow> byte list \<times> byte list" where
  "fifo_step e s =
     (case e of
        Some sc \<Rightarrow> (if length (fst s) < 255 then fst s @ [sc] else fst s, snd s)
      | None \<Rightarrow> (case fst s of [] \<Rightarrow> s | sc # scs \<Rightarrow> (scs, snd s @ [sc])))"

lemma ring_step_run1: "ring_step = kq.run1" and fifo_step_spec1: "fifo_step = kq.spec1"
  by (simp_all add: fun_eq_iff ring_step_def kq.run1_def fifo_step_def kq.spec1_def)

text \<open>C33: whatever the interleaving of keyboard interrupts and reads, the 256-byte ring behaves as a
  first-in first-out list of at most 255 scancodes: what is read and what stays pending are those
  of the list, nothing unread is overwritten, and the indices stay inside the buffer.\<close>

theorem kbd_ring_fifo:
  assumes "kbd_ok k"
  shows "kbd_ok (fst (fold ring_step es (k, []))) \<and>
    fold fifo_step es (pending k, []) =
      (pending (fst (fold ring_step es (k, []))), snd (fold ring_step es (k, [])))"
  using kq.run_simulates [of "(k, [])" es] assms
  by (simp add: ring_step_run1 fifo_step_spec1)

theorem kbd_ring_fifo_witness:
  "snd (fold ring_step [Some 0x1e, Some 0x30, None, Some 0x2e, None] (kbd_init, [])) = [0x1e, 0x30]"
proof -
  let ?es = "[Some 0x1e, Some 0x30, None, Some 0x2e, None] :: byte option list"
  have "snd (fold ring_step ?es (kbd_init, [])) = snd (fold fifo_step ?es ([], []))"
    using kbd_ring_fifo [OF kbd_ok_init, of ?es] by simp
  then show ?thesis by (simp add: fifo_step_def)
qed

text \<open>C34: after any sequence of complete key events, each modifier bit says what the last press or
  release of one of its keys left (left and right Ctrl and Alt share a bit, Shift has no extended
  key, Super only extended ones), and no prefix is left half read.\<close>

theorem modifiers_track_keys:
  assumes "\<not> kb_extended k" and "list_all event_ok evs"
    and "m \<in> {MOD_SHIFT, MOD_CTRL, MOD_ALT, MOD_SUPER}"
  shows "\<not> kb_extended (decode_all (concat (map wire evs)) k) \<and>
    (kb_modifiers (decode_all (concat (map wire evs)) k) AND m \<noteq> 0) =
      held m (kb_modifiers k AND m \<noteq> 0) evs"
  using decode_events [OF assms(1,2)] assms(3) by (simp add: modifier_bits_def)

theorem modifiers_track_keys_witness:
  "(kb_modifiers (decode_all (concat (map wire [Press True 0x1d, Press False 0x1e])) kbd_init)
     AND MOD_CTRL \<noteq> 0) = True"
  using modifiers_track_keys [of kbd_init "[Press True 0x1d, Press False 0x1e]" MOD_CTRL]
  by (simp add: kbd_init_def mod_keys_def mod_defs)

text \<open>Kbd_getc returns 0 (no character), an ASCII code from 8 to 126, or one of the four arrow
  keys, never anything else; and a letter key gives the upper-case letter exactly when Shift and
  Caps Lock disagree.\<close>

theorem kbd_getc_result:
  assumes "kbd_getc k = Some (c, k')"
  shows "(c \<in> {KEY_UP, KEY_DOWN, KEY_LEFT, KEY_RIGHT} \<or> c = 0 \<or> 8 \<le> uint c \<and> uint c \<le> 126) \<and>
    (\<forall>sc. 97 \<le> sint (scancodes sc) \<and> sint (scancodes sc) \<le> 122 \<longrightarrow>
      decode_char sc k' =
        (if (kb_modifiers k' AND MOD_SHIFT \<noteq> 0) \<noteq> kb_caps k' then scast (scancodes sc - 32)
         else scast (scancodes sc)))"
proof
  from assms obtain sc k0 where "kbd_decode sc k0 = (c, k')"
    by (auto simp: kbd_getc_def split: Option.bind_splits prod.splits)
  then show "c \<in> {KEY_UP, KEY_DOWN, KEY_LEFT, KEY_RIGHT} \<or> c = 0 \<or> 8 \<le> uint c \<and> uint c \<le> 126"
    using decode_result [of sc k0] by simp
qed (auto simp: decode_char_def letter_case)

theorem kbd_getc_result_witness:
  "kbd_getc (keyboard_handler 0x1e kbd_init) =
     Some (97, (keyboard_handler 0x1e kbd_init)\<lparr>kb_tail := 1\<rparr>) \<and> uint (97 :: u32) \<le> 126"
proof -
  have "kbd_getc (keyboard_handler 0x1e kbd_init) =
     Some (97, (keyboard_handler 0x1e kbd_init)\<lparr>kb_tail := 1\<rparr>)"
    by (simp add: kbd_getc_def kbd_take_def keyboard_handler_def kbd_init_def kbd_decode_def
        decode_char_def scancodes_def scancodes_init_def mod_defs Let_def)
  with kbd_getc_result [OF this] show ?thesis by (simp add: key_defs)
qed

end
