(* ===== verification/Wm.thy ===== *)
theory Wm
  imports CString
begin

text \<open>
  src/kernel/wm.c: the ten text terminals (80 x 25 cells of a character and an attribute byte), the
  operations that draw into one, and the copies to the VGA text buffer with the inverted caret cell.
  Cell accesses are checked, so an operation that returns \<open>Some\<close> stayed inside its arrays.
\<close>

definition MAX_TERMS :: nat where "MAX_TERMS = 10"
definition TERM_BUF_SIZE :: nat where "TERM_BUF_SIZE = 128"

definition VGA_COLOR :: "byte \<Rightarrow> byte \<Rightarrow> byte" where
  "VGA_COLOR bg fg = push_bit 4 bg OR fg"

record terminal =
  t_cursor_x :: int
  t_cursor_y :: int
  t_cells :: "byte list"
  t_color :: byte
  t_buf :: "byte list"
  t_len :: int
  t_prompt :: bool

definition storei :: "'a list \<Rightarrow> int \<Rightarrow> 'a \<Rightarrow> 'a list option" where
  "storei xs i v = (if i < 0 then None else store xs (nat i) v)"

definition loadi :: "'a list \<Rightarrow> int \<Rightarrow> 'a option" where
  "loadi xs i = (if i < 0 then None else load xs (nat i))"

section \<open>Drawing into a terminal\<close>

fun scroll_copy :: "byte list \<Rightarrow> nat \<Rightarrow> nat \<Rightarrow> byte list option" where
  "scroll_copy cells i 0 = Some cells"
| "scroll_copy cells i (Suc k) = do {
     v \<leftarrow> load cells (i + 80 * 2);
     cells' \<leftarrow> store cells i v;
     scroll_copy cells' (Suc i) k }"

fun fill_cells :: "byte list \<Rightarrow> byte \<Rightarrow> nat \<Rightarrow> nat \<Rightarrow> byte list option" where
  "fill_cells cells color i 0 = Some cells"
| "fill_cells cells color i (Suc k) = do {
     c1 \<leftarrow> store cells i 32;
     c2 \<leftarrow> store c1 (i + 1) color;
     fill_cells c2 color (i + 2) k }"

definition term_scroll :: "terminal \<Rightarrow> terminal option" where
  "term_scroll t = do {
     c1 \<leftarrow> scroll_copy (t_cells t) 0 (24 * 80 * 2);
     c2 \<leftarrow> fill_cells c1 (t_color t) (24 * 80 * 2) 80;
     Some (t\<lparr>t_cells := c2, t_cursor_y := 24\<rparr>) }"

definition term_putchar :: "terminal \<Rightarrow> byte \<Rightarrow> byte \<Rightarrow> terminal option" where
  "term_putchar t c color = do {
     t1 \<leftarrow> (if c = 10 then Some (t\<lparr>t_cursor_x := 0, t_cursor_y := t_cursor_y t + 1\<rparr>)
            else (let index = t_cursor_y t * 80 + t_cursor_x t in do {
              c1 \<leftarrow> storei (t_cells t) (index * 2) c;
              c2 \<leftarrow> storei c1 (index * 2 + 1) color;
              let x = t_cursor_x t + 1;
              Some (if x \<ge> 80
                    then t\<lparr>t_cells := c2, t_cursor_x := 0, t_cursor_y := t_cursor_y t + 1\<rparr>
                    else t\<lparr>t_cells := c2, t_cursor_x := x\<rparr>) }));
     if t_cursor_y t1 > 24 then term_scroll t1 else Some t1 }"

definition term_putchar_at :: "terminal \<Rightarrow> byte \<Rightarrow> int \<Rightarrow> int \<Rightarrow> byte \<Rightarrow> terminal option" where
  "term_putchar_at t c x y color =
     (if c = 10 then Some t
      else (let index = y * 80 + x in do {
        c1 \<leftarrow> storei (t_cells t) (index * 2) c;
        c2 \<leftarrow> storei c1 (index * 2 + 1) color;
        Some (t\<lparr>t_cells := c2\<rparr>) }))"

definition term_clear :: "terminal \<Rightarrow> terminal option" where
  "term_clear t = do {
     c \<leftarrow> fill_cells (t_cells t) (t_color t) 0 (80 * 25);
     Some (t\<lparr>t_cells := c, t_cursor_x := 0, t_cursor_y := 0\<rparr>) }"

fun term_print_color :: "terminal \<Rightarrow> byte list \<Rightarrow> byte \<Rightarrow> terminal option" where
  "term_print_color t [] color = None"
| "term_print_color t (c # s) color =
     (if c = 0 then Some t
      else do { t' \<leftarrow> term_putchar t c color; term_print_color t' s color })"

fun term_print :: "terminal \<Rightarrow> byte list \<Rightarrow> terminal option" where
  "term_print t [] = None"
| "term_print t (c # s) =
     (if c = 0 then Some t
      else do { t' \<leftarrow> term_putchar t c (t_color t); term_print t' s })"

definition term_backspace :: "terminal \<Rightarrow> terminal option" where
  "term_backspace t =
     (if t_cursor_x t = 0 \<and> t_cursor_y t = 0 then Some t
      else (let t1 = (if t_cursor_x t > 0 then t\<lparr>t_cursor_x := t_cursor_x t - 1\<rparr>
                      else t\<lparr>t_cursor_y := t_cursor_y t - 1, t_cursor_x := 79\<rparr>);
                index = t_cursor_y t1 * 80 + t_cursor_x t1
            in do {
              c \<leftarrow> storei (t_cells t1) (index * 2) 32;
              Some (t1\<lparr>t_cells := c\<rparr>) }))"

definition term_cursor_up :: "terminal \<Rightarrow> terminal" where
  "term_cursor_up t = (if t_cursor_y t > 0 then t\<lparr>t_cursor_y := t_cursor_y t - 1\<rparr> else t)"

definition term_cursor_down :: "terminal \<Rightarrow> terminal" where
  "term_cursor_down t = (if t_cursor_y t < 24 then t\<lparr>t_cursor_y := t_cursor_y t + 1\<rparr> else t)"

definition term_cursor_left :: "terminal \<Rightarrow> terminal" where
  "term_cursor_left t = (if t_cursor_x t > 0 then t\<lparr>t_cursor_x := t_cursor_x t - 1\<rparr> else t)"

definition term_cursor_right :: "terminal \<Rightarrow> terminal" where
  "term_cursor_right t = (if t_cursor_x t < 79 then t\<lparr>t_cursor_x := t_cursor_x t + 1\<rparr> else t)"

section \<open>The screen\<close>

text \<open>The caret is the cell with its background and foreground nibbles exchanged.\<close>

definition swap_attr :: "byte \<Rightarrow> byte" where
  "swap_attr a = drop_bit 4 a OR push_bit 4 a"

definition flip_attr :: "byte list \<Rightarrow> int \<Rightarrow> byte list option" where
  "flip_attr vga idx = do { attr \<leftarrow> loadi vga idx; storei vga idx (swap_attr attr) }"

definition wm_blit :: "terminal \<Rightarrow> byte list \<Rightarrow> byte list option" where
  "wm_blit t vga = do {
     v \<leftarrow> memcpy vga (t_cells t) (80 * 25 * 2);
     if t_cursor_y t \<le> 24 \<and> t_cursor_x t \<ge> 0 \<and> t_cursor_x t \<le> 79
     then flip_attr v ((t_cursor_y t * 80 + t_cursor_x t) * 2 + 1) else Some v }"

definition wm_blit_row :: "terminal \<Rightarrow> int \<Rightarrow> byte list \<Rightarrow> byte list option" where
  "wm_blit_row t y vga =
     (if y < 0 \<or> y > 24 then Some vga
      else do {
        let off = nat (y * 80 * 2);
        row \<leftarrow> memcpy (drop off vga) (drop off (t_cells t)) (80 * 2);
        let v = take off vga @ row;
        if t_cursor_y t = y \<and> t_cursor_x t \<ge> 0 \<and> t_cursor_x t \<le> 79
        then flip_attr v ((y * 80 + t_cursor_x t) * 2 + 1) else Some v })"

record wm =
  w_terms :: "terminal list"
  w_current_term :: int
  w_vga :: "byte list"

definition wm_current :: "wm \<Rightarrow> terminal option" where
  "wm_current w = loadi (w_terms w) (w_current_term w)"

definition wm_update :: "wm \<Rightarrow> terminal \<Rightarrow> wm option" where
  "wm_update w t = do {
     ts \<leftarrow> storei (w_terms w) (w_current_term w) t;
     Some (w\<lparr>w_terms := ts\<rparr>) }"

definition wm_show :: "wm \<Rightarrow> wm option" where
  "wm_show w = do {
     t \<leftarrow> wm_current w;
     v \<leftarrow> wm_blit t (w_vga w);
     Some (w\<lparr>w_vga := v\<rparr>) }"

definition wm_switch :: "int \<Rightarrow> wm \<Rightarrow> wm option" where
  "wm_switch idx w =
     (if idx < 0 \<or> idx \<ge> int MAX_TERMS then Some w
      else wm_show (w\<lparr>w_current_term := idx\<rparr>))"

definition term_init :: "terminal \<Rightarrow> terminal option" where
  "term_init t = term_clear (t\<lparr>t_color := VGA_COLOR 0 15, t_len := 0, t_prompt := False\<rparr>)"

fun terms_init :: "terminal list \<Rightarrow> terminal list option" where
  "terms_init [] = Some []"
| "terms_init (t # ts) = do { t' \<leftarrow> term_init t; ts' \<leftarrow> terms_init ts; Some (t' # ts') }"

definition wm_init :: "wm \<Rightarrow> wm option" where
  "wm_init w = do {
     ts \<leftarrow> terms_init (w_terms w);
     wm_show (w\<lparr>w_terms := ts, w_current_term := 0\<rparr>) }"

section \<open>Loops\<close>

lemma storei_Some: "0 \<le> i \<Longrightarrow> nat i < length xs \<Longrightarrow> storei xs i v = Some (xs[nat i := v])"
  by (simp add: storei_def)

lemma loadi_Some: "0 \<le> i \<Longrightarrow> nat i < length xs \<Longrightarrow> loadi xs i = Some (xs ! nat i)"
  by (simp add: loadi_def)

lemma scroll_copy_eq:
  "i + k + 160 \<le> length cells \<Longrightarrow>
    scroll_copy cells i k = Some (blit cells i (take k (drop (i + 160) cells)))"
proof (induction k arbitrary: cells i)
  case 0
  then show ?case by simp
next
  case (Suc k)
  let ?c = "cells[i := cells ! (i + 160)]"
  have "take (Suc k) (drop (i + 160) cells) = cells ! (i + 160) # take k (drop (Suc i + 160) cells)"
    using Suc.prems by (subst Cons_nth_drop_Suc [symmetric]) auto
  with Suc.prems Suc.IH [of "Suc i" ?c] show ?case by (simp add: blit_Cons)
qed

definition blanks :: "byte \<Rightarrow> nat \<Rightarrow> byte list" where
  "blanks color k = concat (replicate k [32, color])"

lemma length_blanks [simp]: "length (blanks color k) = 2 * k"
  by (induction k) (auto simp: blanks_def)

lemma blanks_Suc: "blanks color (Suc k) = 32 # color # blanks color k"
  by (simp add: blanks_def)

lemma nth_blanks: "i < 2 * k \<Longrightarrow> blanks color k ! i = (if even i then 32 else color)"
proof (induction k arbitrary: i)
  case (Suc k)
  then show ?case by (cases i; cases "i - 1") (auto simp: blanks_Suc nth_Cons' )
qed simp

lemma fill_cells_eq:
  "i + 2 * k \<le> length cells \<Longrightarrow> fill_cells cells color i k = Some (blit cells i (blanks color k))"
proof (induction k arbitrary: cells i)
  case 0
  then show ?case by (simp add: blanks_def)
next
  case (Suc k)
  then show ?case by (simp add: blanks_Suc blit_Cons)
qed

section \<open>The invariant\<close>

definition term_ok :: "terminal \<Rightarrow> bool" where
  "term_ok t \<longleftrightarrow> length (t_cells t) = 4000 \<and> length (t_buf t) = TERM_BUF_SIZE \<and>
     0 \<le> t_cursor_x t \<and> t_cursor_x t < 80 \<and> 0 \<le> t_cursor_y t \<and> t_cursor_y t < 25 \<and>
     0 \<le> t_len t \<and> t_len t < 128"

lemma term_scroll_eq:
  "length (t_cells t) = 4000 \<Longrightarrow>
    term_scroll t = Some (t\<lparr>t_cells := drop 160 (t_cells t) @ blanks (t_color t) 80, t_cursor_y := 24\<rparr>)"
  by (simp add: term_scroll_def scroll_copy_eq fill_cells_eq blit_def)

lemma term_clear_eq:
  "length (t_cells t) = 4000 \<Longrightarrow>
    term_clear t = Some (t\<lparr>t_cells := blanks (t_color t) 2000, t_cursor_x := 0, t_cursor_y := 0\<rparr>)"
  by (simp add: term_clear_def fill_cells_eq blit_def)

text \<open>The two cells a character occupies.\<close>

definition put_cell :: "byte list \<Rightarrow> int \<Rightarrow> int \<Rightarrow> byte \<Rightarrow> byte \<Rightarrow> byte list" where
  "put_cell cells x y c color =
     cells[nat ((y * 80 + x) * 2) := c, nat ((y * 80 + x) * 2 + 1) := color]"

lemma length_put_cell [simp]: "length (put_cell cells x y c color) = length cells"
  by (simp add: put_cell_def)

lemma cell_index:
  assumes "0 \<le> x" "x < 80" "0 \<le> y" "y < 25"
  shows "0 \<le> (y * 80 + x) * 2" "nat ((y * 80 + x) * 2) < 4000" "nat ((y * 80 + x) * 2 + 1) < 4000"
  using assms by auto

lemma cell_stores:
  assumes "length cells = 4000" "0 \<le> x" "x < 80" "0 \<le> y" "y < 25"
  shows "storei cells ((y * 80 + x) * 2) c \<bind> (\<lambda>c1. storei c1 ((y * 80 + x) * 2 + 1) color \<bind> f) =
    f (put_cell cells x y c color)"
  using cell_index [OF assms(2-5)] assms(1) by (simp add: storei_Some put_cell_def)

lemma term_putchar_at_eq:
  assumes "term_ok t" "0 \<le> x" "x < 80" "0 \<le> y" "y < 25"
  shows "term_putchar_at t c x y color =
    Some (if c = 10 then t else t\<lparr>t_cells := put_cell (t_cells t) x y c color\<rparr>)"
  unfolding term_putchar_at_def Let_def
  by (subst cell_stores) (use assms in \<open>auto simp: term_ok_def\<close>)

text \<open>What term_putchar does, with the loops gone.\<close>

definition advance :: "terminal \<Rightarrow> byte list \<Rightarrow> bool \<Rightarrow> terminal" where
  "advance t cells newline =
     (if \<not> newline \<and> t_cursor_x t < 79 then t\<lparr>t_cells := cells, t_cursor_x := t_cursor_x t + 1\<rparr>
      else if t_cursor_y t < 24
      then t\<lparr>t_cells := cells, t_cursor_x := 0, t_cursor_y := t_cursor_y t + 1\<rparr>
      else t\<lparr>t_cells := drop 160 cells @ blanks (t_color t) 80, t_cursor_x := 0, t_cursor_y := 24\<rparr>)"

lemma term_putchar_eq:
  assumes "term_ok t"
  shows "term_putchar t c color =
    Some (if c = 10 then advance t (t_cells t) True
          else advance t (put_cell (t_cells t) (t_cursor_x t) (t_cursor_y t) c color) False)"
  using assms cell_stores [of "t_cells t" "t_cursor_x t" "t_cursor_y t" c color]
  by (auto simp: term_putchar_def term_ok_def advance_def term_scroll_eq Let_def)

lemma term_ok_advance:
  "term_ok t \<Longrightarrow> length cells = 4000 \<Longrightarrow> term_ok (advance t cells nl)"
  by (auto simp: advance_def term_ok_def)

lemma term_putchar_ok:
  assumes "term_ok t"
  shows "\<exists>t'. term_putchar t c color = Some t' \<and> term_ok t' \<and> t_color t' = t_color t \<and>
    t_buf t' = t_buf t \<and> t_len t' = t_len t \<and> t_prompt t' = t_prompt t"
proof -
  have l: "length (t_cells t) = 4000" using assms by (simp add: term_ok_def)
  show ?thesis
    using term_ok_advance [OF assms] by (simp add: term_putchar_eq [OF assms] l) (simp add: advance_def)
qed

lemma term_print_color_ok:
  "term_ok t \<Longrightarrow> nul_free s \<Longrightarrow>
    \<exists>t'. term_print_color t (s @ 0 # r) color = Some t' \<and> term_ok t' \<and> t_color t' = t_color t \<and>
      t_buf t' = t_buf t \<and> t_len t' = t_len t \<and> t_prompt t' = t_prompt t"
proof (induction s arbitrary: t)
  case Nil
  then show ?case by simp
next
  case (Cons c s)
  obtain t1 where t1: "term_putchar t c color = Some t1" "term_ok t1" "t_color t1 = t_color t"
    "t_buf t1 = t_buf t" "t_len t1 = t_len t" "t_prompt t1 = t_prompt t"
    using term_putchar_ok [OF Cons.prems(1)] by blast
  with Cons.IH [OF t1(2)] Cons.prems(2) show ?case by auto
qed

lemma term_print_eq: "term_print t s = term_print_color t s (t_color t)" if "term_ok t"
  using that
proof (induction s arbitrary: t)
  case (Cons c s)
  obtain t1 where "term_putchar t c (t_color t) = Some t1" "term_ok t1" "t_color t1 = t_color t"
    using term_putchar_ok [OF Cons.prems] by blast
  with Cons.IH [of t1] show ?case by simp
qed simp

lemma term_clear_ok: "term_ok t \<Longrightarrow> \<exists>t'. term_clear t = Some t' \<and> term_ok t'"
  by (auto simp: term_ok_def term_clear_eq)

lemma term_backspace_eq:
  assumes "term_ok t" and "t_cursor_x t \<noteq> 0 \<or> t_cursor_y t \<noteq> 0"
  defines "x \<equiv> (if t_cursor_x t > 0 then t_cursor_x t - 1 else 79)"
    and "y \<equiv> (if t_cursor_x t > 0 then t_cursor_y t else t_cursor_y t - 1)"
  shows "term_backspace t =
    Some (t\<lparr>t_cursor_x := x, t_cursor_y := y, t_cells := (t_cells t)[nat ((y * 80 + x) * 2) := 32]\<rparr>)"
proof -
  have "0 \<le> x" "x < 80" "0 \<le> y" "y < 25" using assms(1,2) by (auto simp: term_ok_def x_def y_def)
  from cell_index [OF this] show ?thesis
    using assms by (auto simp: term_backspace_def term_ok_def storei_Some Let_def)
qed

lemma term_backspace_ok: "term_ok t \<Longrightarrow> \<exists>t'. term_backspace t = Some t' \<and> term_ok t'"
proof (cases "t_cursor_x t = 0 \<and> t_cursor_y t = 0")
  case False
  moreover assume "term_ok t"
  ultimately show ?thesis using term_backspace_eq [of t] by (auto simp: term_ok_def)
qed (simp add: term_backspace_def)


section \<open>The screen as a grid\<close>

definition cell_at :: "terminal \<Rightarrow> int \<Rightarrow> int \<Rightarrow> byte \<times> byte" where
  "cell_at t x y =
     (t_cells t ! nat ((y * 80 + x) * 2), t_cells t ! nat ((y * 80 + x) * 2 + 1))"

lemma dbl:
  fixes a b :: int
  assumes "0 \<le> a" and "0 \<le> b"
  shows "nat (a * 2) = nat (b * 2) \<longleftrightarrow> a = b" and "nat (a * 2 + 1) = nat (b * 2 + 1) \<longleftrightarrow> a = b"
  using assms by (simp_all add: eq_nat_nat_iff)

lemma dbl_odd:
  fixes a b :: int
  assumes "0 \<le> a" and "0 \<le> b"
  shows "nat (a * 2) \<noteq> nat (b * 2 + 1)"
proof -
  have "a * 2 \<noteq> b * 2 + 1" by presburger
  then show ?thesis using assms by (simp add: eq_nat_nat_iff)
qed

lemma caret_row:
  fixes x y :: int
  assumes "0 \<le> x" "x < 80"
  shows "((y * 80 + x) * 2 + 1) div 160 = y"
  using assms by (intro int_div_pos_eq [of _ _ _ "x * 2 + 1"]) auto

lemma index_inj:
  fixes x y x' y' :: int
  assumes "0 \<le> x" "x < 80" "0 \<le> y" "0 \<le> x'" "x' < 80" "0 \<le> y'"
  shows "nat ((y * 80 + x) * 2) = nat ((y' * 80 + x') * 2) \<longleftrightarrow> x = x' \<and> y = y'"
    and "nat ((y * 80 + x) * 2 + 1) = nat ((y' * 80 + x') * 2 + 1) \<longleftrightarrow> x = x' \<and> y = y'"
    and "nat ((y * 80 + x) * 2) \<noteq> nat ((y' * 80 + x') * 2 + 1)"
proof -
  have "(y * 80 + x) div 80 = y" "(y * 80 + x) mod 80 = x"
    "(y' * 80 + x') div 80 = y'" "(y' * 80 + x') mod 80 = x'"
    using assms by simp_all
  then have e: "y * 80 + x = y' * 80 + x' \<longleftrightarrow> x = x' \<and> y = y'" by metis
  have p: "0 \<le> y * 80 + x" "0 \<le> y' * 80 + x'" using assms by simp_all
  show "nat ((y * 80 + x) * 2) = nat ((y' * 80 + x') * 2) \<longleftrightarrow> x = x' \<and> y = y'"
    and "nat ((y * 80 + x) * 2 + 1) = nat ((y' * 80 + x') * 2 + 1) \<longleftrightarrow> x = x' \<and> y = y'"
    unfolding e [symmetric] by (rule dbl [OF p])+
  show "nat ((y * 80 + x) * 2) \<noteq> nat ((y' * 80 + x') * 2 + 1)"
    by (rule dbl_odd [OF p])
qed

lemma cell_at_put:
  assumes "length (t_cells t) = 4000" "0 \<le> x" "x < 80" "0 \<le> y" "y < 25"
    and "0 \<le> x'" "x' < 80" "0 \<le> y'" "y' < 25"
  shows "cell_at (t\<lparr>t_cells := put_cell (t_cells t) x y c color\<rparr>) x' y' =
    (if x' = x \<and> y' = y then (c, color) else cell_at t x' y')"
  using cell_index [OF assms(2-5)] cell_index [OF assms(6-9)] assms(1)
    index_inj [OF assms(2-4,6-8)] index_inj(3) [OF assms(6-8,2-4)]
  by (auto simp: cell_at_def put_cell_def nth_list_update)

lemma cell_at_cong: "t_cells t = t_cells t' \<Longrightarrow> cell_at t x y = cell_at t' x y"
  by (simp add: cell_at_def)

lemma cell_at_scrolled:
  assumes "length cells = 4000" "t_cells t = drop 160 cells @ blanks color 80"
    and "0 \<le> x" "x < 80" "0 \<le> y" "y < 25"
  shows "cell_at t x y =
    (if y = 24 then (32, color) else cell_at (t\<lparr>t_cells := cells\<rparr>) x (y + 1))"
proof (cases "y = 24")
  case True
  have "nat ((y * 80 + x) * 2) = 3840 + 2 * nat x" "nat ((y * 80 + x) * 2 + 1) = 3840 + (2 * nat x + 1)"
    using assms True by auto
  moreover have "nat x < 80" using assms by auto
  ultimately show ?thesis using assms True by (simp add: cell_at_def nth_append nth_blanks)
next
  case False
  have "nat ((y * 80 + x) * 2) < 3840" "nat ((y * 80 + x) * 2 + 1) < 3840"
    "nat (((y + 1) * 80 + x) * 2) = 160 + nat ((y * 80 + x) * 2)"
    "nat (((y + 1) * 80 + x) * 2 + 1) = 160 + nat ((y * 80 + x) * 2 + 1)"
    using assms False by auto
  with assms False show ?thesis by (simp add: cell_at_def nth_append)
qed

section \<open>Copies to the VGA buffer\<close>

definition vga_image :: "terminal \<Rightarrow> byte list" where
  "vga_image t =
     (let i = nat ((t_cursor_y t * 80 + t_cursor_x t) * 2 + 1)
      in (t_cells t)[i := swap_attr (t_cells t ! i)])"

lemma length_vga_image [simp]: "length (vga_image t) = length (t_cells t)"
  by (simp add: vga_image_def Let_def)

lemma flip_attr_eq:
  "0 \<le> i \<Longrightarrow> nat i < length v \<Longrightarrow> flip_attr v i = Some (v[nat i := swap_attr (v ! nat i)])"
  by (simp add: flip_attr_def loadi_Some storei_Some)

lemma wm_blit_eq:
  assumes "term_ok t" and "4000 \<le> length vga"
  shows "wm_blit t vga = Some (vga_image t @ drop 4000 vga)"
proof -
  have i: "0 \<le> (t_cursor_y t * 80 + t_cursor_x t) * 2"
    "nat ((t_cursor_y t * 80 + t_cursor_x t) * 2 + 1) < 4000"
    using assms cell_index [of "t_cursor_x t" "t_cursor_y t"] by (auto simp: term_ok_def)
  have "wm_blit t vga = flip_attr (t_cells t @ drop 4000 vga) ((t_cursor_y t * 80 + t_cursor_x t) * 2 + 1)"
    using assms by (simp add: wm_blit_def memcpy_eq term_ok_def)
  also have "\<dots> = Some (vga_image t @ drop 4000 vga)"
    using i assms
    by (subst flip_attr_eq) (auto simp: vga_image_def Let_def term_ok_def nth_append list_update_append)
  finally show ?thesis .
qed

lemma wm_blit_row_nth:
  assumes ok: "term_ok t" and len: "length vga = 4000" and y: "0 \<le> y" "y < 25"
  shows "\<exists>v. wm_blit_row t y vga = Some v \<and> length v = 4000 \<and>
    (\<forall>k<4000. v ! k = (if nat y = k div 160 then vga_image t ! k else vga ! k))"
proof -
  let ?off = "nat (y * 80 * 2)"
  let ?i = "(y * 80 + t_cursor_x t) * 2 + 1"
  let ?v = "blit vga ?off (take 160 (drop ?off (t_cells t)))"
  have off: "?off = 160 * nat y" using y by simp
  have room: "?off + 160 \<le> 4000" using y by auto
  have cl: "length (t_cells t) = 4000" using ok by (simp add: term_ok_def)
  have row: "memcpy (drop ?off vga) (drop ?off (t_cells t)) 160 =
      Some (take 160 (drop ?off (t_cells t)) @ drop (?off + 160) vga)"
    using room len cl by (simp add: memcpy_eq add.commute)
  have v: "take ?off vga @ take 160 (drop ?off (t_cells t)) @ drop (?off + 160) vga = ?v"
    using room cl by (simp add: blit_def)
  have lv: "length ?v = 4000" using room len cl by simp
  have inrow: "nat y = k div 160 \<longleftrightarrow> ?off \<le> k \<and> k < ?off + 160" for k
    unfolding off by (auto simp: div_nat_eqI dest: sym)
  have vk: "?v ! k = (if nat y = k div 160 then t_cells t ! k else vga ! k)" if "k < 4000" for k
    unfolding inrow using that room len cl by (subst nth_blit) auto
  have body: "wm_blit_row t y vga = (if t_cursor_y t = y then flip_attr ?v ?i else Some ?v)"
    using ok y row v by (simp add: wm_blit_row_def term_ok_def Let_def)
  show ?thesis
  proof (cases "t_cursor_y t = y")
    case False
    have "vga_image t ! k = t_cells t ! k" if "nat y = k div 160" for k
    proof -
      have "k div 160 \<noteq> nat ((t_cursor_y t * 80 + t_cursor_x t) * 2 + 1) div 160"
      proof
        assume "k div 160 = nat ((t_cursor_y t * 80 + t_cursor_x t) * 2 + 1) div 160"
        then have "int (k div 160) = ((t_cursor_y t * 80 + t_cursor_x t) * 2 + 1) div 160"
          using ok by (simp add: term_ok_def zdiv_int)
        also have "\<dots> = t_cursor_y t" using ok by (intro caret_row) (auto simp: term_ok_def)
        finally show False using that False y by simp
      qed
      then have "k \<noteq> nat ((t_cursor_y t * 80 + t_cursor_x t) * 2 + 1)" by blast
      then show ?thesis by (simp add: vga_image_def Let_def)
    qed
    with False body lv vk show ?thesis by auto
  next
    case True
    have i: "0 \<le> ?i" "nat ?i < 4000" using ok y by (auto simp: term_ok_def)
    have "?i div 160 = y" using ok by (intro caret_row) (auto simp: term_ok_def)
    then have id: "nat ?i div 160 = nat y" using i(1) by (simp add: nat_div_distrib [symmetric])
    have "wm_blit_row t y vga = Some (?v[nat ?i := swap_attr (?v ! nat ?i)])"
      using body True i lv by (simp add: flip_attr_eq)
    moreover have "?v[nat ?i := swap_attr (?v ! nat ?i)] ! k =
        (if nat y = k div 160 then vga_image t ! k else vga ! k)" if "k < 4000" for k
      using vk [OF that] vk [OF i(2)] id i lv cl True that
      by (cases "k = nat ?i") (simp_all add: vga_image_def Let_def)
    ultimately show ?thesis using lv by simp
  qed
qed


section \<open>Sequences of operations\<close>

datatype term_op =
  Put byte byte | PutAt byte int int byte | Clear | Print "byte list" byte | Backspace
| Up | Down | Left | Right

fun term_apply :: "term_op \<Rightarrow> terminal \<Rightarrow> terminal option" where
  "term_apply (Put c color) t = term_putchar t c color"
| "term_apply (PutAt c x y color) t = term_putchar_at t c x y color"
| "term_apply Clear t = term_clear t"
| "term_apply (Print s color) t = term_print_color t (s @ [0]) color"
| "term_apply Backspace t = term_backspace t"
| "term_apply Up t = Some (term_cursor_up t)"
| "term_apply Down t = Some (term_cursor_down t)"
| "term_apply Left t = Some (term_cursor_left t)"
| "term_apply Right t = Some (term_cursor_right t)"

fun term_run :: "term_op list \<Rightarrow> terminal \<Rightarrow> terminal option" where
  "term_run [] t = Some t"
| "term_run (a # as) t = do { t' \<leftarrow> term_apply a t; term_run as t' }"

text \<open>The guard the putchar_at syscall applies, and printed text is a C string.\<close>

fun term_op_ok :: "term_op \<Rightarrow> bool" where
  "term_op_ok (PutAt c x y color) = (0 \<le> x \<and> x < 80 \<and> 0 \<le> y \<and> y < 25)"
| "term_op_ok (Print s color) = nul_free s"
| "term_op_ok _ = True"

lemma term_apply_ok:
  assumes "term_ok t" and "term_op_ok a"
  shows "\<exists>t'. term_apply a t = Some t' \<and> term_ok t'"
proof (cases a)
  case (Put c color)
  with assms term_putchar_ok [of t c color] show ?thesis by auto
next
  case (PutAt c x y color)
  with assms show ?thesis
    using term_putchar_at_eq [of t x y c color] by (auto simp: term_ok_def)
next
  case (Print s color)
  with assms term_print_color_ok [of t s "[]" color] show ?thesis by auto
qed (use assms term_clear_ok term_backspace_ok in \<open>auto simp: term_ok_def term_cursor_up_def
       term_cursor_down_def term_cursor_left_def term_cursor_right_def\<close>)

lemma term_run_ok:
  "term_ok t \<Longrightarrow> list_all term_op_ok as \<Longrightarrow> \<exists>t'. term_run as t = Some t' \<and> term_ok t'"
proof (induction as arbitrary: t)
  case (Cons a as)
  then obtain t1 where "term_apply a t = Some t1" "term_ok t1"
    using term_apply_ok [of t a] by auto
  with Cons show ?case by simp
qed simp

definition term_blank :: terminal where
  "term_blank = \<lparr>t_cursor_x = 0, t_cursor_y = 0, t_cells = blanks 15 2000, t_color = 15,
     t_buf = replicate 128 0, t_len = 0, t_prompt = False\<rparr>"

lemma term_ok_blank [simp]: "term_ok term_blank"
  by (simp add: term_ok_def term_blank_def TERM_BUF_SIZE_def)

section \<open>Properties\<close>

text \<open>C35: no sequence of terminal operations leaves the cell array or moves the cursor off the
  screen: every operation, from a well-formed terminal, stays inside its arrays and gives a
  well-formed terminal again.\<close>

theorem term_ops_safe:
  assumes "term_ok t" and "list_all term_op_ok as"
  shows "\<exists>t'. term_run as t = Some t' \<and> term_ok t'"
  using term_run_ok [OF assms] .

theorem term_ops_safe_witness:
  "\<exists>t'. term_run [Print (asc ''ok'') 15, Backspace, PutAt 33 79 24 12, Down, Clear] term_blank = Some t' \<and>
     term_ok t'"
  using term_ops_safe [OF term_ok_blank,
      of "[Print (asc ''ok'') 15, Backspace, PutAt 33 79 24 12, Down, Clear]"] by simp

text \<open>The cell contents after drawing and before any scroll, and when a character scrolls.\<close>

definition drawn :: "terminal \<Rightarrow> byte \<Rightarrow> byte \<Rightarrow> int \<Rightarrow> int \<Rightarrow> byte \<times> byte" where
  "drawn t c color x y =
     (if c \<noteq> 10 \<and> x = t_cursor_x t \<and> y = t_cursor_y t then (c, color) else cell_at t x y)"

definition wraps :: "terminal \<Rightarrow> byte \<Rightarrow> bool" where
  "wraps t c \<longleftrightarrow> c = 10 \<or> t_cursor_x t = 79"

lemma advance_cells:
  "t_cells (advance t cells nl) =
     (if (nl \<or> \<not> t_cursor_x t < 79) \<and> \<not> t_cursor_y t < 24
      then drop 160 cells @ blanks (t_color t) 80 else cells)"
  by (simp add: advance_def)

lemma advance_cursor:
  assumes "term_ok t"
  shows "t_cursor_x (advance t cells nl) = (if nl \<or> t_cursor_x t = 79 then 0 else t_cursor_x t + 1)"
    and "t_cursor_y (advance t cells nl) =
      (if (nl \<or> t_cursor_x t = 79) \<and> t_cursor_y t < 24 then t_cursor_y t + 1 else t_cursor_y t)"
  using assms by (auto simp: advance_def term_ok_def)

lemma drawn_put:
  assumes "term_ok t" and "0 \<le> x" "x < 80" "0 \<le> y" "y < 25"
  shows "cell_at (t\<lparr>t_cells := if c = 10 then t_cells t
      else put_cell (t_cells t) (t_cursor_x t) (t_cursor_y t) c color\<rparr>) x y = drawn t c color x y"
  using assms cell_at_put [of t "t_cursor_x t" "t_cursor_y t" x y c color]
  by (auto simp: drawn_def term_ok_def intro: cell_at_cong)

text \<open>C36: term_putchar writes exactly the cell under the cursor (none for a newline), advances the
  cursor with wrapping at column 79, and when it runs off the last row shifts every row up by one
  and blanks the last; no other cell changes.\<close>

theorem term_putchar_effect:
  assumes "term_ok t"
  shows "\<exists>t'. term_putchar t c color = Some t' \<and>
    (\<forall>x y. 0 \<le> x \<and> x < 80 \<and> 0 \<le> y \<and> y < 25 \<longrightarrow>
      cell_at t' x y =
        (if wraps t c \<and> t_cursor_y t = 24
         then (if y = 24 then (32, t_color t) else drawn t c color x (y + 1))
         else drawn t c color x y)) \<and>
    t_cursor_x t' = (if wraps t c then 0 else t_cursor_x t + 1) \<and>
    t_cursor_y t' = (if wraps t c \<and> t_cursor_y t < 24 then t_cursor_y t + 1 else t_cursor_y t)"
proof -
  let ?cells = "if c = 10 then t_cells t
    else put_cell (t_cells t) (t_cursor_x t) (t_cursor_y t) c color"
  let ?t' = "advance t ?cells (c = 10)"
  have put: "term_putchar t c color = Some ?t'"
    by (simp add: term_putchar_eq [OF assms])
  have len: "length ?cells = 4000" using assms by (simp add: term_ok_def)
  have cy: "t_cursor_y t = 24 \<longleftrightarrow> \<not> t_cursor_y t < 24" "t_cursor_x t = 79 \<longleftrightarrow> \<not> t_cursor_x t < 79"
    using assms by (auto simp: term_ok_def)
  have "cell_at ?t' x y =
        (if wraps t c \<and> t_cursor_y t = 24
         then (if y = 24 then (32, t_color t) else drawn t c color x (y + 1))
         else drawn t c color x y)" if xy: "0 \<le> x" "x < 80" "0 \<le> y" "y < 25" for x y
  proof (cases "wraps t c \<and> t_cursor_y t = 24")
    case True
    then have "t_cells ?t' = drop 160 ?cells @ blanks (t_color t) 80"
      using cy by (auto simp: advance_cells wraps_def)
    from cell_at_scrolled [OF len this xy]
    have "cell_at ?t' x y =
        (if y = 24 then (32, t_color t) else cell_at (?t'\<lparr>t_cells := ?cells\<rparr>) x (y + 1))" .
    moreover have "cell_at (?t'\<lparr>t_cells := ?cells\<rparr>) x (y + 1) = drawn t c color x (y + 1)" if "y \<noteq> 24"
      unfolding drawn_put [OF assms xy(1,2), of "y + 1" c color, symmetric]
      using xy that drawn_put [OF assms xy(1,2), of "y + 1" c color]
      by (simp add: cell_at_def)
    ultimately show ?thesis using True by simp
  next
    case False
    then have "t_cells ?t' = ?cells" using cy by (auto simp: advance_cells wraps_def)
    then have "cell_at ?t' x y = cell_at (t\<lparr>t_cells := ?cells\<rparr>) x y" by (simp add: cell_at_def)
    with drawn_put [OF assms xy, of c color] show ?thesis by (simp only: if_not_P [OF False])
  qed
  with put advance_cursor [OF assms, of ?cells "c = 10"] show ?thesis
    by (simp add: wraps_def)
qed

theorem term_putchar_effect_witness:
  "\<exists>t'. term_putchar (term_blank\<lparr>t_cursor_x := 79, t_cursor_y := 24\<rparr>) 65 12 = Some t' \<and>
     cell_at t' 79 23 = (65, 12) \<and> cell_at t' 5 24 = (32, 15) \<and> t_cursor_x t' = 0"
proof -
  let ?t = "term_blank\<lparr>t_cursor_x := 79, t_cursor_y := 24\<rparr>"
  have "term_ok ?t" by (simp add: term_ok_def term_blank_def TERM_BUF_SIZE_def)
  from term_putchar_effect [OF this, of 65 12] obtain t' where
    t': "term_putchar ?t 65 12 = Some t'" "t_cursor_x t' = 0"
      "\<forall>x y. 0 \<le> x \<and> x < 80 \<and> 0 \<le> y \<and> y < 25 \<longrightarrow>
        cell_at t' x y = (if y = 24 then (32, t_color ?t) else drawn ?t 65 12 x (y + 1))"
    by (auto simp: wraps_def)
  from t'(3) [rule_format, of 79 23] t'(3) [rule_format, of 5 24] t'(1,2)
  show ?thesis by (simp add: drawn_def term_blank_def)
qed

lemma update_twice: "i \<noteq> j \<Longrightarrow> xs[i := a, j := b, i := c] = xs[i := c, j := b]"
  by (metis list_update_overwrite list_update_swap)

text \<open>A backspace right after a typed character puts the cursor back where it was and blanks
  the cell the character went to, also across the wrap to the next row, as long as the character
  did not scroll the screen.\<close>

theorem putchar_backspace:
  assumes "term_ok t" and "c \<noteq> 10" and "\<not> (t_cursor_x t = 79 \<and> t_cursor_y t = 24)"
  shows "(do { t1 \<leftarrow> term_putchar t c color; term_backspace t1 }) =
    Some (t\<lparr>t_cells := put_cell (t_cells t) (t_cursor_x t) (t_cursor_y t) 32 color\<rparr>)"
proof -
  let ?i = "nat ((t_cursor_y t * 80 + t_cursor_x t) * 2)"
  let ?j = "nat ((t_cursor_y t * 80 + t_cursor_x t) * 2 + 1)"
  let ?t1 = "advance t (put_cell (t_cells t) (t_cursor_x t) (t_cursor_y t) c color) False"
  have "?i \<noteq> ?j" using assms(1) by (intro index_inj) (auto simp: term_ok_def)
  from update_twice [OF this] have cells:
    "(put_cell (t_cells t) (t_cursor_x t) (t_cursor_y t) c color)[?i := 32] =
      put_cell (t_cells t) (t_cursor_x t) (t_cursor_y t) 32 color"
    unfolding put_cell_def by this
  have ok: "term_ok ?t1" using assms(1) by (intro term_ok_advance) (auto simp: term_ok_def)
  have "term_putchar t c color = Some ?t1" using assms(2) by (simp add: term_putchar_eq [OF assms(1)])
  moreover have "term_backspace ?t1 =
      Some (t\<lparr>t_cells := put_cell (t_cells t) (t_cursor_x t) (t_cursor_y t) 32 color\<rparr>)"
  proof (cases "t_cursor_x t < 79")
    case True
    have "0 \<le> t_cursor_x t" using assms(1) by (simp add: term_ok_def)
    with True term_backspace_eq [OF ok] cells show ?thesis by (simp add: advance_def)
  next
    case False
    then have "t_cursor_x t = 79" "t_cursor_y t < 24" "0 \<le> t_cursor_y t"
      using assms by (auto simp: term_ok_def)
    with term_backspace_eq [OF ok] cells show ?thesis by (simp add: advance_def)
  qed
  ultimately show ?thesis by simp
qed

theorem putchar_backspace_witness:
  "(do { t1 \<leftarrow> term_putchar (term_blank\<lparr>t_cursor_x := 79\<rparr>) 65 15; term_backspace t1 }) =
    Some (term_blank\<lparr>t_cursor_x := 79, t_cells := put_cell (t_cells term_blank) 79 0 32 15\<rparr>)"
proof -
  have "term_ok (term_blank\<lparr>t_cursor_x := 79\<rparr>)"
    by (simp add: term_ok_def term_blank_def TERM_BUF_SIZE_def)
  from putchar_backspace [OF this, of 65 15] show ?thesis by (simp add: term_blank_def)
qed

text \<open>Wm_blit_row y leaves row y of the VGA buffer equal to that row of the terminal's image
  (its cells with the caret cell inverted) and every other row as it was; a full blit is the image
  of all 25 rows. So once every changed row is refreshed, the screen is in sync.\<close>

theorem blit_row_sync:
  assumes "term_ok t" and "length vga = 4000" and "0 \<le> y" and "y < 25"
  shows "\<exists>v. wm_blit_row t y vga = Some v \<and> length v = 4000 \<and>
    (\<forall>k<4000. v ! k = (if nat y = k div 160 then vga_image t ! k else vga ! k)) \<and>
    wm_blit t vga = Some (vga_image t)"
  using wm_blit_row_nth [OF assms] wm_blit_eq [OF assms(1), of vga] assms(2) by simp

theorem blit_row_sync_witness:
  "\<exists>v. wm_blit_row term_blank 0 (replicate 4000 0) = Some v \<and> v ! 1 = 0xF0 \<and> v ! 160 = 0"
proof -
  obtain v where v: "wm_blit_row term_blank 0 (replicate 4000 0) = Some v"
    "\<forall>k<4000. v ! k = (if nat 0 = k div 160 then vga_image term_blank ! k else replicate 4000 0 ! k)"
    using blit_row_sync [OF term_ok_blank, of "replicate 4000 0" 0] by auto
  from v(2) have "v ! 1 = vga_image term_blank ! 1" "v ! 160 = 0" by simp_all
  moreover have "vga_image term_blank ! 1 = 0xF0"
    by (simp add: vga_image_def term_blank_def nth_blanks swap_attr_def)
  ultimately show ?thesis using v(1) by auto
qed

end
