(* ===== verification/BlockDev.thy ===== *)
theory BlockDev
  imports Prelude
begin

text \<open>
  The interface between the file system and the disk driver: reading and writing one 512-byte
  sector, as \<open>ata_read_sectors(lba, 1, buf)\<close> and \<open>ata_write_sectors(lba, 1, buf)\<close> are called
  everywhere in drivers/fs.c. The locales state what the client relies on: a sector read returns
  what the sector holds, a sector write changes no other sector, and, for a reliable device, that
  neither fails. The driver of Ata.thy is the instance.
\<close>

text \<open>The two operations, as the client sees them: a read fails or fills the 512-byte buffer.\<close>

record 'd disk =
  dk_read :: "u32 \<Rightarrow> 'd \<Rightarrow> byte list option \<times> 'd"
  dk_write :: "u32 \<Rightarrow> byte list \<Rightarrow> 'd \<Rightarrow> bool \<times> 'd"

text \<open>A device holds \<open>cap\<close> sectors \<open>sec d lba\<close>. It may fail a request; a failed write may leave
  anything in the sector it was for, and in no other.\<close>

locale block_device =
  fixes dk :: "'d disk"
    and sec :: "'d \<Rightarrow> u32 \<Rightarrow> byte list"
    and cap :: nat
    and dev_ok :: "'d \<Rightarrow> bool"
  assumes sec_length: "dev_ok d \<Longrightarrow> length (sec d lba) = 512"
    and read_ok: "dev_ok d \<Longrightarrow> dk_read dk lba d = (r, d') \<Longrightarrow> dev_ok d' \<and> sec d' = sec d"
    and read_value: "dev_ok d \<Longrightarrow> unat lba < cap \<Longrightarrow> dk_read dk lba d = (Some b, d') \<Longrightarrow>
      b = sec d lba"
    and read_length: "dev_ok d \<Longrightarrow> dk_read dk lba d = (Some b, d') \<Longrightarrow> length b = 512"
    and write_ok: "dev_ok d \<Longrightarrow> length b = 512 \<Longrightarrow> unat lba < cap \<Longrightarrow>
      dk_write dk lba b d = (ok, d') \<Longrightarrow>
      dev_ok d' \<and> (\<forall>l. l \<noteq> lba \<and> unat l < cap \<longrightarrow> sec d' l = sec d l) \<and> (ok \<longrightarrow> sec d' lba = b)"

text \<open>A device on which no request fails.\<close>

locale reliable_device = block_device +
  assumes read_succeeds: "dev_ok d \<Longrightarrow> unat lba < cap \<Longrightarrow> fst (dk_read dk lba d) \<noteq> None"
    and write_succeeds: "dev_ok d \<Longrightarrow> unat lba < cap \<Longrightarrow> length b = 512 \<Longrightarrow>
      fst (dk_write dk lba b d)"
begin

lemma read_E:
  assumes "dev_ok d" and "unat lba < cap"
  obtains d' where "dk_read dk lba d = (Some (sec d lba), d')" "dev_ok d'" "sec d' = sec d"
proof -
  obtain r d' where r: "dk_read dk lba d = (r, d')" by (cases "dk_read dk lba d")
  with read_succeeds [OF assms] obtain b where b: "r = Some b" by auto
  with read_ok [OF assms(1) r] read_value [OF assms r [unfolded b]] r that show thesis by simp
qed

lemma write_E:
  assumes "dev_ok d" and "unat lba < cap" and "length b = 512"
  obtains d' where "dk_write dk lba b d = (True, d')" "dev_ok d'" "sec d' lba = b"
    "\<forall>l. l \<noteq> lba \<and> unat l < cap \<longrightarrow> sec d' l = sec d l"
proof -
  obtain ok d' where r: "dk_write dk lba b d = (ok, d')" by (cases "dk_write dk lba b d")
  with write_succeeds [OF assms] have "ok" by simp
  with write_ok [OF assms(1,3,2) r] r that show thesis by simp
qed

end

end
