(* ===== verification/Ata.thy ===== *)
theory Ata
  imports BlockDev
begin

text \<open>
  drivers/ata.c: LBA28 programmed I/O, one sector per command, over the port instructions of
  headers/port.h. What answers on the ports is not part of the program: the driver takes it as the
  argument \<open>io\<close>. What the driver relies on is the ATA PIO protocol, stated as the locale \<open>pio_drive\<close>: it
  promises something for a register, command or data access only while the drive is not busy and in
  the phase for it, and nothing at all otherwise. On any such drive the driver is the block device
  that the file system expects. A concrete drive at the end shows that the contract can be met.
\<close>

section \<open>The driver\<close>

record 'p pio =
  inb :: "u16 \<Rightarrow> 'p \<Rightarrow> byte \<times> 'p"
  outb :: "u16 \<Rightarrow> byte \<Rightarrow> 'p \<Rightarrow> 'p"
  inw :: "u16 \<Rightarrow> 'p \<Rightarrow> u16 \<times> 'p"
  outw :: "u16 \<Rightarrow> u16 \<Rightarrow> 'p \<Rightarrow> 'p"

definition ATA_DATA :: u16 where "ATA_DATA = 0x1F0"
definition ATA_SECTOR_CNT :: u16 where "ATA_SECTOR_CNT = 0x1F2"
definition ATA_LBA_LO :: u16 where "ATA_LBA_LO = 0x1F3"
definition ATA_LBA_MID :: u16 where "ATA_LBA_MID = 0x1F4"
definition ATA_LBA_HI :: u16 where "ATA_LBA_HI = 0x1F5"
definition ATA_DRIVE :: u16 where "ATA_DRIVE = 0x1F6"
definition ATA_STATUS :: u16 where "ATA_STATUS = 0x1F7"
definition ATA_CMD_READ :: byte where "ATA_CMD_READ = 0x20"
definition ATA_CMD_WRITE :: byte where "ATA_CMD_WRITE = 0x30"
definition ATA_STATUS_BSY :: byte where "ATA_STATUS_BSY = 0x80"
definition ATA_STATUS_DRQ :: byte where "ATA_STATUS_DRQ = 0x08"
definition ATA_STATUS_ERR :: byte where "ATA_STATUS_ERR = 0x01"

lemmas ata_consts = ATA_DATA_def ATA_SECTOR_CNT_def ATA_LBA_LO_def ATA_LBA_MID_def ATA_LBA_HI_def
  ATA_DRIVE_def ATA_STATUS_def ATA_CMD_READ_def ATA_CMD_WRITE_def
  ATA_STATUS_BSY_def ATA_STATUS_DRQ_def ATA_STATUS_ERR_def

text \<open>The polling loops; the first argument is the number of polls left. They return 0 or -1.\<close>

fun wait_loop :: "nat \<Rightarrow> 'p pio \<Rightarrow> 'p \<Rightarrow> int \<times> 'p" where
  "wait_loop 0 io p = (-1, p)"
| "wait_loop (Suc n) io p =
     (let (status, p) = inb io ATA_STATUS p
      in if status AND ATA_STATUS_BSY = 0
         then (if status AND ATA_STATUS_ERR \<noteq> 0 then (-1, p) else (0, p))
         else wait_loop n io p)"

definition ata_wait :: "'p pio \<Rightarrow> 'p \<Rightarrow> int \<times> 'p" where
  "ata_wait io p = wait_loop 100000 io p"

fun wait_drq_loop :: "nat \<Rightarrow> 'p pio \<Rightarrow> 'p \<Rightarrow> int \<times> 'p" where
  "wait_drq_loop 0 io p = (-1, p)"
| "wait_drq_loop (Suc n) io p =
     (let (status, p) = inb io ATA_STATUS p
      in if status AND ATA_STATUS_ERR \<noteq> 0 then (-1, p)
         else if status AND ATA_STATUS_BSY = 0 \<and> status AND ATA_STATUS_DRQ \<noteq> 0 then (0, p)
         else wait_drq_loop n io p)"

definition ata_wait_drq :: "'p pio \<Rightarrow> 'p \<Rightarrow> int \<times> 'p" where
  "ata_wait_drq io p = wait_drq_loop 100000 io p"

text \<open>Programming the task file: drive and top LBA bits, a count of one, the address, the command.\<close>

definition ata_command :: "'p pio \<Rightarrow> u32 \<Rightarrow> byte \<Rightarrow> 'p \<Rightarrow> 'p" where
  "ata_command io lba cmd p =
     (let p = outb io ATA_DRIVE (ucast (0xE0 OR (drop_bit 24 lba AND 0x0F))) p;
          p = outb io ATA_SECTOR_CNT 1 p;
          p = outb io ATA_LBA_LO (ucast (lba AND 0xFF)) p;
          p = outb io ATA_LBA_MID (ucast (drop_bit 8 lba AND 0xFF)) p;
          p = outb io ATA_LBA_HI (ucast (drop_bit 16 lba AND 0xFF)) p
      in outb io ATA_STATUS cmd p)"

text \<open>The data loops move \<open>n\<close> 16-bit words. \<open>put_words\<close> returns the advanced pointer, \<open>get_words\<close>
  the buffer with the words stored at its front.\<close>

fun put_words :: "nat \<Rightarrow> 'p pio \<Rightarrow> byte list \<Rightarrow> 'p \<Rightarrow> (byte list \<times> 'p) option" where
  "put_words 0 io ptr p = Some (ptr, p)"
| "put_words (Suc n) io (a # b # ptr) p =
     put_words n io ptr (outw io ATA_DATA (ucast a OR push_bit 8 (ucast b)) p)"
| "put_words (Suc n) io _ p = None"

fun get_words :: "nat \<Rightarrow> 'p pio \<Rightarrow> byte list \<Rightarrow> 'p \<Rightarrow> (byte list \<times> 'p) option" where
  "get_words 0 io ptr p = Some (ptr, p)"
| "get_words (Suc n) io (_ # _ # ptr) p =
     (let (w, p) = inw io ATA_DATA p
      in map_option (\<lambda>(rest, p). (ucast (w AND 0xFF) # ucast (drop_bit 8 w AND 0xFF) # rest, p))
           (get_words n io ptr p))"
| "get_words (Suc n) io _ p = None"

fun ata_write_sectors :: "'p pio \<Rightarrow> u32 \<Rightarrow> nat \<Rightarrow> byte list \<Rightarrow> 'p \<Rightarrow> (int \<times> 'p) option" where
  "ata_write_sectors io lba 0 ptr p = Some (0, p)"
| "ata_write_sectors io lba (Suc count) ptr p =
     (let (r, p) = ata_wait io p
      in if r < 0 then Some (-1, p)
         else
           let (r, p) = ata_wait_drq io (ata_command io lba ATA_CMD_WRITE p)
           in if r < 0 then Some (-1, p)
              else do {
                (ptr, p) \<leftarrow> put_words 256 io ptr p;
                (let (r, p) = ata_wait io p
                 in if r < 0 then Some (-1, p)
                    else ata_write_sectors io (lba + 1) count ptr p) })"

text \<open>The read loop returns the buffer as it leaves it, also when it gives up half way.\<close>

fun ata_read_sectors ::
  "'p pio \<Rightarrow> u32 \<Rightarrow> nat \<Rightarrow> byte list \<Rightarrow> 'p \<Rightarrow> (int \<times> byte list \<times> 'p) option" where
  "ata_read_sectors io lba 0 ptr p = Some (0, ptr, p)"
| "ata_read_sectors io lba (Suc count) ptr p =
     (let (r, p) = ata_wait io p
      in if r < 0 then Some (-1, ptr, p)
         else
           let (r, p) = ata_wait io (ata_command io lba ATA_CMD_READ p)
           in if r < 0 then Some (-1, ptr, p)
              else do {
                (ptr, p) \<leftarrow> get_words 256 io ptr p;
                (r, rest, p) \<leftarrow> ata_read_sectors io (lba + 1) count (drop 512 ptr) p;
                Some (r, take 512 ptr @ rest, p) })"

text \<open>The one-sector requests of the file system, over a fresh 512-byte buffer.\<close>

definition ata_disk :: "'p pio \<Rightarrow> 'p disk" where
  "ata_disk io =
     \<lparr>dk_read = (\<lambda>lba p.
        (case ata_read_sectors io lba 1 (replicate 512 0) p of
           Some (r, buf, p') \<Rightarrow> (if r = 0 then Some buf else None, p')
         | None \<Rightarrow> (None, p))),
      dk_write = (\<lambda>lba b p.
        (case ata_write_sectors io lba 1 b p of
           Some (r, p') \<Rightarrow> (r = 0, p')
         | None \<Rightarrow> (False, p)))\<rparr>"

section \<open>The ATA PIO protocol\<close>

text \<open>What the drive is doing: waiting for a command, handing over the bytes of a sector, or collecting those of one.\<close>

datatype ata_phase = Ready | Sending "byte list" | Taking u32 "byte list"

text \<open>What the protocol speaks about: the sectors by their 28-bit address, the number of polls that will still see the
  drive busy, the error bit, the phase, and the registers of the task file.\<close>

record drive_view =
  vw_sec :: "u32 \<Rightarrow> byte list"
  vw_busy :: nat
  vw_err :: bool
  vw_phase :: ata_phase
  vw_dev :: byte
  vw_cnt :: byte
  vw_lo :: byte
  vw_mid :: byte
  vw_hi :: byte

definition view_lba :: "drive_view \<Rightarrow> u32" where
  "view_lba v = push_bit 24 (ucast (vw_dev v AND 0x0F)) OR push_bit 16 (ucast (vw_hi v))
     OR push_bit 8 (ucast (vw_mid v)) OR ucast (vw_lo v)"

text \<open>The drive takes register writes and commands; the registers ask for one sector of the first drive, by LBA.\<close>

definition takes_command :: "drive_view \<Rightarrow> bool" where
  "takes_command v \<longleftrightarrow> vw_busy v = 0 \<and> vw_phase v = Ready"

definition one_sector :: "drive_view \<Rightarrow> bool" where
  "one_sector v \<longleftrightarrow> vw_cnt v = 1 \<and> vw_dev v AND 0x50 = 0x40"

locale pio_drive =
  fixes io :: "'p pio" and view :: "'p \<Rightarrow> drive_view" and follows :: "'p \<Rightarrow> bool"
  assumes sector_512: "follows p \<Longrightarrow> length (vw_sec (view p) l) = 512"
    and busy_ends: "follows p \<Longrightarrow> vw_busy (view p) < 100000"
    and poll_busy: "follows p \<Longrightarrow> 0 < vw_busy (view p) \<Longrightarrow> inb io ATA_STATUS p = (s, p') \<Longrightarrow>
      s AND ATA_STATUS_BSY \<noteq> 0 \<and> s AND ATA_STATUS_ERR = 0 \<and> follows p' \<and>
      view p' = (view p)\<lparr>vw_busy := vw_busy (view p) - 1\<rparr>"
    and poll_ready: "follows p \<Longrightarrow> vw_busy (view p) = 0 \<Longrightarrow> inb io ATA_STATUS p = (s, p') \<Longrightarrow>
      s AND ATA_STATUS_BSY = 0 \<and> (s AND ATA_STATUS_ERR \<noteq> 0 \<longleftrightarrow> vw_err (view p)) \<and>
      (s AND ATA_STATUS_DRQ \<noteq> 0 \<longleftrightarrow> vw_phase (view p) \<noteq> Ready) \<and> follows p' \<and> view p' = view p"
    and set_drive: "follows p \<Longrightarrow> takes_command (view p) \<Longrightarrow>
      follows (outb io ATA_DRIVE v p) \<and> view (outb io ATA_DRIVE v p) = (view p)\<lparr>vw_dev := v\<rparr>"
    and set_count: "follows p \<Longrightarrow> takes_command (view p) \<Longrightarrow>
      follows (outb io ATA_SECTOR_CNT v p) \<and> view (outb io ATA_SECTOR_CNT v p) = (view p)\<lparr>vw_cnt := v\<rparr>"
    and set_lo: "follows p \<Longrightarrow> takes_command (view p) \<Longrightarrow>
      follows (outb io ATA_LBA_LO v p) \<and> view (outb io ATA_LBA_LO v p) = (view p)\<lparr>vw_lo := v\<rparr>"
    and set_mid: "follows p \<Longrightarrow> takes_command (view p) \<Longrightarrow>
      follows (outb io ATA_LBA_MID v p) \<and> view (outb io ATA_LBA_MID v p) = (view p)\<lparr>vw_mid := v\<rparr>"
    and set_hi: "follows p \<Longrightarrow> takes_command (view p) \<Longrightarrow>
      follows (outb io ATA_LBA_HI v p) \<and> view (outb io ATA_LBA_HI v p) = (view p)\<lparr>vw_hi := v\<rparr>"
    and start_read: "follows p \<Longrightarrow> takes_command (view p) \<Longrightarrow> one_sector (view p) \<Longrightarrow>
      p' = outb io ATA_STATUS ATA_CMD_READ p \<Longrightarrow>
      follows p' \<and> vw_sec (view p') = vw_sec (view p) \<and>
      vw_phase (view p') = (if vw_err (view p') then Ready else Sending (vw_sec (view p) (view_lba (view p))))"
    and start_write: "follows p \<Longrightarrow> takes_command (view p) \<Longrightarrow> one_sector (view p) \<Longrightarrow>
      p' = outb io ATA_STATUS ATA_CMD_WRITE p \<Longrightarrow>
      follows p' \<and> vw_sec (view p') = vw_sec (view p) \<and>
      vw_phase (view p') = (if vw_err (view p') then Ready else Taking (view_lba (view p)) [])"
    and data_in: "follows p \<Longrightarrow> vw_busy (view p) = 0 \<Longrightarrow> vw_phase (view p) = Sending (a # b # bs) \<Longrightarrow>
      inw io ATA_DATA p = (w, p') \<Longrightarrow>
      w = ucast a OR push_bit 8 (ucast b) \<and> follows p' \<and>
      view p' = (view p)\<lparr>vw_phase := (if bs = [] then Ready else Sending bs)\<rparr>"
    and data_out: "follows p \<Longrightarrow> vw_busy (view p) = 0 \<Longrightarrow> vw_phase (view p) = Taking l bs \<Longrightarrow> length bs < 510 \<Longrightarrow>
      follows (outw io ATA_DATA w p) \<and>
      view (outw io ATA_DATA w p) = (view p)\<lparr>vw_phase := Taking l (bs @ [ucast w, ucast (drop_bit 8 w)])\<rparr>"
    and data_last: "follows p \<Longrightarrow> vw_busy (view p) = 0 \<Longrightarrow> vw_phase (view p) = Taking l bs \<Longrightarrow> length bs = 510 \<Longrightarrow>
      p' = outw io ATA_DATA w p \<Longrightarrow>
      follows p' \<and> vw_phase (view p') = Ready \<and>
      (\<exists>c. vw_sec (view p') = (vw_sec (view p))(l := c) \<and>
        (\<not> vw_err (view p') \<longrightarrow> c = bs @ [ucast w, ucast (drop_bit 8 w)]))"

text \<open>A drive on which nothing fails.\<close>

locale sound_drive = pio_drive +
  assumes no_error: "follows p \<Longrightarrow> \<not> vw_err (view p)"

section \<open>Bytes and addresses\<close>

lemma low_byte_pair:
  "ucast (ucast a OR push_bit 8 (ucast b) :: u16) = (a :: byte)"
  "ucast (drop_bit 8 (ucast a OR push_bit 8 (ucast b) :: u16)) = (b :: byte)"
  by (rule bit_word_eqI, auto simp: bit_simps dest: bit_imp_le_length)+

lemma low_byte_pair_masked:
  "ucast ((ucast a OR push_bit 8 (ucast b) :: u16) AND 0xFF) = (a :: byte)"
  "ucast (drop_bit 8 (ucast a OR push_bit 8 (ucast b) :: u16) AND 0xFF) = (b :: byte)"
proof -
  have m: "(0xFF :: u16) = mask 8" by (simp add: mask_eq_decr_exp)
  show "ucast ((ucast a OR push_bit 8 (ucast b) :: u16) AND 0xFF) = (a :: byte)"
    unfolding m by (rule bit_word_eqI) (auto simp: bit_simps dest: bit_imp_le_length)
  show "ucast (drop_bit 8 (ucast a OR push_bit 8 (ucast b) :: u16) AND 0xFF) = (b :: byte)"
    unfolding m by (rule bit_word_eqI) (auto simp: bit_simps dest: bit_imp_le_length)
qed

lemma lba_fields:
  "push_bit 24 (ucast (ucast (0xE0 OR (drop_bit 24 lba AND 0x0F) :: u32) AND 0x0F :: byte))
     OR push_bit 16 (ucast (ucast (drop_bit 16 lba AND 0xFF) :: byte))
     OR push_bit 8 (ucast (ucast (drop_bit 8 lba AND 0xFF) :: byte))
     OR ucast (ucast (lba AND 0xFF) :: byte) = (lba :: u32) AND mask 28"
proof -
  have m: "(0xFF :: u32) = mask 8" "(0x0F :: u32) = mask 4" "(0x0F :: byte) = mask 4"
    by (simp_all add: mask_eq_decr_exp)
  have e: "(0xE0 OR x) AND mask 4 = x AND mask 4" for x :: u32
    by (simp add: bit.conj_disj_distrib2 mask_eq_decr_exp)
  have s: "ucast (0xE0 OR y :: u32) AND mask 4 = (ucast y AND mask 4 :: byte)" for y
  proof -
    have "bit (0xE0 :: u32) i = False" if "i < 4" for i
      using that by (auto simp: less_Suc_eq numeral_eq_Suc)
    then show ?thesis by (intro bit_word_eqI) (auto simp: bit_simps dest: bit_imp_le_length)
  qed
  show ?thesis
    unfolding m s
  proof (rule bit_word_eqI)
    fix n assume "n < LENGTH(32)"
    then consider "n < 8" | "8 \<le> n" "n < 16" | "16 \<le> n" "n < 24" | "24 \<le> n" "n < 28" | "28 \<le> n"
      by linarith
    then show "bit ((push_bit 24 (ucast (ucast (drop_bit 24 lba AND mask 4) AND mask 4 :: byte))
       OR push_bit 16 (ucast (ucast (drop_bit 16 lba AND mask 8) :: byte))
       OR push_bit 8 (ucast (ucast (drop_bit 8 lba AND mask 8) :: byte))
       OR ucast (ucast (lba AND mask 8) :: byte)) :: u32) n = bit (lba AND mask 28) n"
    proof cases
      case 1 then show ?thesis by (simp add: bit_simps)
    next
      case 2 then show ?thesis by (auto simp: bit_simps)
    next
      case 3 then show ?thesis by (auto simp: bit_simps)
    next
      case 4 then show ?thesis by (auto simp: bit_simps)
    next
      case 5 then show ?thesis by (auto simp: bit_simps)
    qed
  qed
qed

lemma and_mask_28: "unat (lba :: u32) < 2 ^ 28 \<Longrightarrow> lba AND mask 28 = lba"
  unfolding take_bit_eq_mask [symmetric]
  by (intro word_unat_eq_iff [THEN iffD2]) (simp only: unsigned_take_bit_eq, simp add: take_bit_eq_mod)

text \<open>The drive register selects the first drive and addressing by LBA.\<close>

lemma drive_select: "(ucast (0xE0 OR (drop_bit 24 lba AND 0x0F) :: u32) :: byte) AND 0x50 = 0x40"
proof -
  have "bit ((ucast (0xE0 OR (drop_bit 24 lba AND 0x0F) :: u32) :: byte) AND 0x50) n = bit (0x40 :: byte) n" if "n < 8" for n
  proof -
    have m: "(0x0F :: u32) = mask 4" by (simp add: mask_eq_decr_exp)
    from that consider "n = 0" | "n = 1" | "n = 2" | "n = 3" | "n = 4" | "n = 5" | "n = 6" | "n = 7" by linarith
    then show ?thesis unfolding m by cases (simp_all add: bit_simps)
  qed
  then show ?thesis by (intro bit_word_eqI) simp
qed

section \<open>The driver on such a drive\<close>

text \<open>What the drive holds, by the address the driver is given: it drops the top four bits.\<close>

definition held :: "drive_view \<Rightarrow> u32 \<Rightarrow> byte list" where
  "held v lba = vw_sec v (lba AND mask 28)"

context pio_drive
begin

text \<open>Both polls end, with the drive no longer busy and otherwise as it was.\<close>

lemma wait_loop_ends:
  assumes "follows p" and "vw_busy (view p) < n"
  obtains p' where "wait_loop n io p = (if vw_err (view p) then -1 else 0, p')" "follows p'" "view p' = (view p)\<lparr>vw_busy := 0\<rparr>"
  using assms
proof (induction n arbitrary: p thesis)
  case (Suc n)
  obtain s p1 where s: "inb io ATA_STATUS p = (s, p1)" by fastforce
  show ?case
  proof (cases "vw_busy (view p) = 0")
    case True
    from poll_ready [OF Suc.prems(2) True s] s True show ?thesis by (intro Suc.prems(1) [of p1]) auto
  next
    case False
    with poll_busy [OF Suc.prems(2) _ s] have p1: "s AND ATA_STATUS_BSY \<noteq> 0" "follows p1"
      "view p1 = (view p)\<lparr>vw_busy := vw_busy (view p) - 1\<rparr>" by simp_all
    have less: "vw_busy (view p1) < n" using p1(3) Suc.prems(3) False by simp
    show ?thesis by (rule Suc.IH [OF _ p1(2) less]) (use s p1 in \<open>auto intro: Suc.prems(1)\<close>)
  qed
qed simp

lemma wait_drq_loop_stuck:
  "follows p \<Longrightarrow> takes_command (view p) \<Longrightarrow> \<not> vw_err (view p) \<Longrightarrow>
    \<exists>p'. wait_drq_loop n io p = (-1, p') \<and> follows p' \<and> view p' = view p"
proof (induction n arbitrary: p)
  case (Suc n)
  obtain s p1 where s: "inb io ATA_STATUS p = (s, p1)" by fastforce
  have "vw_busy (view p) = 0" "vw_phase (view p) = Ready" using Suc.prems(2) by (simp_all add: takes_command_def)
  with poll_ready [OF Suc.prems(1) _ s] Suc.IH [of p1] Suc.prems s show ?case by auto
qed simp

lemma wait_drq_loop_ends:
  assumes "follows p" and "vw_busy (view p) < n"
  obtains p' where "wait_drq_loop n io p = (if vw_err (view p) \<or> vw_phase (view p) = Ready then -1 else 0, p')"
    "follows p'" "view p' = (view p)\<lparr>vw_busy := 0\<rparr>"
  using assms
proof (induction n arbitrary: p thesis)
  case (Suc n)
  obtain s p1 where s: "inb io ATA_STATUS p = (s, p1)" by fastforce
  show ?case
  proof (cases "vw_busy (view p) = 0")
    case True
    note r = poll_ready [OF Suc.prems(2) True s]
    show ?thesis
    proof (cases "vw_err (view p) \<or> vw_phase (view p) \<noteq> Ready")
      case fin: True
      with r s True show ?thesis by (intro Suc.prems(1) [of p1]) auto
    next
      case False
      with r True have "takes_command (view p1)" "\<not> vw_err (view p1)" "follows p1" by (auto simp: takes_command_def)
      from wait_drq_loop_stuck [OF this(3,1,2), of n] obtain p2 where
        "wait_drq_loop n io p1 = (-1, p2)" "follows p2" "view p2 = view p1" by blast
      with r s True False show ?thesis by (intro Suc.prems(1) [of p2]) auto
    qed
  next
    case False
    with poll_busy [OF Suc.prems(2) _ s] have p1: "s AND ATA_STATUS_BSY \<noteq> 0" "s AND ATA_STATUS_ERR = 0" "follows p1"
      "view p1 = (view p)\<lparr>vw_busy := vw_busy (view p) - 1\<rparr>" by simp_all
    have less: "vw_busy (view p1) < n" using p1(4) Suc.prems(3) False by simp
    show ?thesis by (rule Suc.IH [OF _ p1(3) less]) (use s p1 in \<open>auto intro: Suc.prems(1)\<close>)
  qed
qed simp

lemma ata_wait_ends:
  assumes "follows p"
  obtains p' where "ata_wait io p = (if vw_err (view p) then -1 else 0, p')" "follows p'" "view p' = (view p)\<lparr>vw_busy := 0\<rparr>"
  unfolding ata_wait_def by (rule wait_loop_ends [OF assms busy_ends [OF assms]])

lemma ata_wait_drq_ends:
  assumes "follows p"
  obtains p' where "ata_wait_drq io p = (if vw_err (view p) \<or> vw_phase (view p) = Ready then -1 else 0, p')"
    "follows p'" "view p' = (view p)\<lparr>vw_busy := 0\<rparr>"
  unfolding ata_wait_drq_def by (rule wait_drq_loop_ends [OF assms busy_ends [OF assms]])

text \<open>The task file is set for one sector, and then the command written.\<close>

lemma ata_command_addressed:
  assumes "follows p" and "takes_command (view p)"
  obtains q where "ata_command io lba cmd p = outb io ATA_STATUS cmd q" "follows q" "takes_command (view q)"
    "one_sector (view q)" "view_lba (view q) = lba AND mask 28" "vw_sec (view q) = vw_sec (view p)"
proof -
  let ?b = "\<lambda>x. ucast (x :: u32) :: byte"
  let ?p1 = "outb io ATA_DRIVE (?b (0xE0 OR (drop_bit 24 lba AND 0x0F))) p"
  let ?p2 = "outb io ATA_SECTOR_CNT 1 ?p1"
  let ?p3 = "outb io ATA_LBA_LO (?b (lba AND 0xFF)) ?p2"
  let ?p4 = "outb io ATA_LBA_MID (?b (drop_bit 8 lba AND 0xFF)) ?p3"
  let ?p5 = "outb io ATA_LBA_HI (?b (drop_bit 16 lba AND 0xFF)) ?p4"
  note p1 = set_drive [OF assms, of "?b (0xE0 OR (drop_bit 24 lba AND 0x0F))"]
  have t1: "takes_command (view ?p1)" using p1 assms(2) by (simp add: takes_command_def)
  note p2 = set_count [OF conjunct1 [OF p1] t1, of 1]
  have t2: "takes_command (view ?p2)" using p2 t1 by (simp add: takes_command_def)
  note p3 = set_lo [OF conjunct1 [OF p2] t2, of "?b (lba AND 0xFF)"]
  have t3: "takes_command (view ?p3)" using p3 t2 by (simp add: takes_command_def)
  note p4 = set_mid [OF conjunct1 [OF p3] t3, of "?b (drop_bit 8 lba AND 0xFF)"]
  have t4: "takes_command (view ?p4)" using p4 t3 by (simp add: takes_command_def)
  note p5 = set_hi [OF conjunct1 [OF p4] t4, of "?b (drop_bit 16 lba AND 0xFF)"]
  have v: "view ?p5 = (view p)\<lparr>vw_dev := ?b (0xE0 OR (drop_bit 24 lba AND 0x0F)), vw_cnt := 1, vw_lo := ?b (lba AND 0xFF),
      vw_mid := ?b (drop_bit 8 lba AND 0xFF), vw_hi := ?b (drop_bit 16 lba AND 0xFF)\<rparr>"
    using p1 p2 p3 p4 p5 by simp
  show thesis
  proof (rule that)
    show "ata_command io lba cmd p = outb io ATA_STATUS cmd ?p5" by (simp add: ata_command_def Let_def)
    show "follows ?p5" using p5 by simp
    show "takes_command (view ?p5)" using p5 t4 by (simp add: takes_command_def)
    show "one_sector (view ?p5)" using drive_select [of lba] by (simp add: v one_sector_def)
    show "view_lba (view ?p5) = lba AND mask 28" using lba_fields [of lba] by (simp add: v view_lba_def)
    show "vw_sec (view ?p5) = vw_sec (view p)" by (simp add: v)
  qed
qed

lemma get_words_sends:
  assumes "n > 0" and "length bs = 2 * n" and "2 * n \<le> length ptr" and "follows p" and "vw_busy (view p) = 0"
    and "vw_phase (view p) = Sending bs"
  shows "\<exists>p'. get_words n io ptr p = Some (bs @ drop (2 * n) ptr, p') \<and> follows p' \<and> view p' = (view p)\<lparr>vw_phase := Ready\<rparr>"
  using assms
proof (induction n arbitrary: bs ptr p)
  case (Suc n)
  obtain a b bs' where bs: "bs = a # b # bs'" using Suc.prems(2)
    by (metis Suc_length_conv mult_Suc_right numeral_2_eq_2 add_Suc plus_nat.add_0)
  obtain x y ptr' where ptr: "ptr = x # y # ptr'" using Suc.prems(3)
    by (cases ptr; cases "tl ptr") auto
  obtain w p1 where w: "inw io ATA_DATA p = (w, p1)" by fastforce
  note d = data_in [OF Suc.prems(4,5) Suc.prems(6) [unfolded bs] w]
  show ?case
  proof (cases "n = 0")
    case True
    with Suc.prems bs ptr w d show ?thesis by (simp add: low_byte_pair_masked del: drop_bit_or)
  next
    case False
    with Suc.prems bs ptr have "bs' \<noteq> []" by auto
    with False Suc.prems bs ptr w d Suc.IH [of bs' ptr' p1] show ?thesis
      by (auto simp: low_byte_pair_masked simp del: drop_bit_or)
  qed
qed simp

lemma put_words_takes:
  assumes "n > 0" and "length bs + 2 * n = 512" and "2 * n \<le> length ptr" and "follows p" and "vw_busy (view p) = 0"
    and "vw_phase (view p) = Taking l bs"
  shows "\<exists>p' c. put_words n io ptr p = Some (drop (2 * n) ptr, p') \<and> follows p' \<and> vw_phase (view p') = Ready \<and>
    vw_sec (view p') = (vw_sec (view p))(l := c) \<and> (\<not> vw_err (view p') \<longrightarrow> c = bs @ take (2 * n) ptr)"
  using assms
proof (induction n arbitrary: bs ptr p)
  case (Suc n)
  obtain x y ptr' where ptr: "ptr = x # y # ptr'" using Suc.prems(3)
    by (cases ptr; cases "tl ptr") auto
  let ?w = "ucast x OR push_bit 8 (ucast y) :: u16"
  show ?case
  proof (cases "n = 0")
    case True
    then have "length bs = 510" using Suc.prems(2) by simp
    from data_last [OF Suc.prems(4-6) this refl, of ?w] obtain c where c: "follows (outw io ATA_DATA ?w p)"
      "vw_phase (view (outw io ATA_DATA ?w p)) = Ready" "vw_sec (view (outw io ATA_DATA ?w p)) = (vw_sec (view p))(l := c)"
      "\<not> vw_err (view (outw io ATA_DATA ?w p)) \<longrightarrow> c = bs @ [x, y]" unfolding low_byte_pair by blast
    then show ?thesis using ptr True by (intro exI [of _ "outw io ATA_DATA ?w p"] exI [of _ c]) simp
  next
    case False
    then have "length bs < 510" using Suc.prems(2) by simp
    note o = data_out [OF Suc.prems(4-6) this, of ?w]
    with False Suc.prems ptr Suc.IH [of "bs @ [x, y]" ptr' "outw io ATA_DATA ?w p"]
    show ?thesis by (simp add: low_byte_pair del: drop_bit_or)
  qed
qed simp

text \<open>One sector of a read: the request fails with the drive as it was, or the sector is in the buffer.\<close>

lemma read_one_sector:
  assumes "follows p" and "vw_phase (view p) = Ready" and "512 \<le> length buf"
  obtains ok p' where "\<forall>count. ata_read_sectors io lba (Suc count) buf p =
      (if \<not> ok then Some (-1, buf, p')
       else do {
         (r, rest, e) \<leftarrow> ata_read_sectors io (lba + 1) count (drop 512 buf) p';
         Some (r, held (view p) lba @ rest, e) })"
    "follows p'" "vw_phase (view p') = Ready" "vw_sec (view p') = vw_sec (view p)" "\<not> ok \<longrightarrow> vw_err (view p) \<or> vw_err (view p')"
proof -
  obtain p1 where p1: "ata_wait io p = (if vw_err (view p) then -1 else 0, p1)" "follows p1" "view p1 = (view p)\<lparr>vw_busy := 0\<rparr>"
    by (rule ata_wait_ends [OF assms(1)])
  show thesis
  proof (cases "vw_err (view p)")
    case True
    then show thesis using p1 assms(2) by (intro that [of False p1]) simp_all
  next
    case False
    have "takes_command (view p1)" using p1(3) assms(2) by (simp add: takes_command_def)
    from ata_command_addressed [OF p1(2) this, of lba ATA_CMD_READ] obtain q where
      q: "ata_command io lba ATA_CMD_READ p1 = outb io ATA_STATUS ATA_CMD_READ q" "follows q" "takes_command (view q)"
      "one_sector (view q)" "view_lba (view q) = lba AND mask 28" "vw_sec (view q) = vw_sec (view p)"
      using p1(3) by auto
    let ?p2 = "outb io ATA_STATUS ATA_CMD_READ q"
    note p2 = start_read [OF q(2-4) refl]
    obtain p3 where p3: "ata_wait io ?p2 = (if vw_err (view ?p2) then -1 else 0, p3)" "follows p3"
      "view p3 = (view ?p2)\<lparr>vw_busy := 0\<rparr>" by (rule ata_wait_ends [OF conjunct1 [OF p2]])
    show thesis
    proof (cases "vw_err (view ?p2)")
      case True
      then show thesis using False p1 p2 p3 q by (intro that [of False p3]) simp_all
    next
      case sent: False
      have len: "length (held (view p) lba) = 512" by (simp add: held_def sector_512 [OF assms(1)])
      have "vw_phase (view p3) = Sending (held (view p) lba)" using p2 p3(3) q(5,6) sent by (simp add: held_def)
      from get_words_sends [of 256 "held (view p) lba" buf p3] this len assms(3) p3 obtain p4 where
        p4: "get_words 256 io buf p3 = Some (held (view p) lba @ drop 512 buf, p4)" "follows p4"
        "view p4 = (view p3)\<lparr>vw_phase := Ready\<rparr>" by auto
      show thesis
      proof (rule that [of True p4])
        show "\<forall>count. ata_read_sectors io lba (Suc count) buf p =
          (if \<not> True then Some (-1, buf, p4)
           else do {
             (r, rest, e) \<leftarrow> ata_read_sectors io (lba + 1) count (drop 512 buf) p4;
             Some (r, held (view p) lba @ rest, e) })"
          using p1(1) q(1) p3(1) p4(1) False sent len by simp
      qed (use p4 p3 p2 q in simp_all)
    qed
  qed
qed

text \<open>One sector of a write: a request that fails leaves anything in that sector, and nothing else changes.\<close>

lemma write_one_sector:
  assumes "follows p" and "vw_phase (view p) = Ready" and "512 \<le> length buf"
  obtains ok p' c where "\<forall>count. ata_write_sectors io lba (Suc count) buf p =
      (if \<not> ok then Some (-1, p') else ata_write_sectors io (lba + 1) count (drop 512 buf) p')"
    "follows p'" "vw_phase (view p') = Ready" "vw_busy (view p') = 0" "vw_sec (view p') = (vw_sec (view p))(lba AND mask 28 := c)"
    "ok \<longrightarrow> c = take 512 buf" "\<not> ok \<longrightarrow> (\<exists>q. follows q \<and> vw_err (view q))"
proof -
  obtain p1 where p1: "ata_wait io p = (if vw_err (view p) then -1 else 0, p1)" "follows p1" "view p1 = (view p)\<lparr>vw_busy := 0\<rparr>"
    by (rule ata_wait_ends [OF assms(1)])
  let ?l = "lba AND mask 28"
  show thesis
  proof (cases "vw_err (view p)")
    case True
    then show thesis using p1 assms(1,2) by (intro that [of False p1 "vw_sec (view p) ?l"]) auto
  next
    case False
    have "takes_command (view p1)" using p1(3) assms(2) by (simp add: takes_command_def)
    from ata_command_addressed [OF p1(2) this, of lba ATA_CMD_WRITE] obtain q where
      q: "ata_command io lba ATA_CMD_WRITE p1 = outb io ATA_STATUS ATA_CMD_WRITE q" "follows q" "takes_command (view q)"
      "one_sector (view q)" "view_lba (view q) = ?l" "vw_sec (view q) = vw_sec (view p)"
      using p1(3) by auto
    let ?p2 = "outb io ATA_STATUS ATA_CMD_WRITE q"
    note p2 = start_write [OF q(2-4) refl]
    obtain p3 where p3: "ata_wait_drq io ?p2 = (if vw_err (view ?p2) \<or> vw_phase (view ?p2) = Ready then -1 else 0, p3)" "follows p3"
      "view p3 = (view ?p2)\<lparr>vw_busy := 0\<rparr>" by (rule ata_wait_drq_ends [OF conjunct1 [OF p2]])
    show thesis
    proof (cases "vw_err (view ?p2)")
      case True
      then show thesis using False p1 p2 p3 q by (intro that [of False p3 "vw_sec (view p) ?l"]) auto
    next
      case taken: False
      have "vw_phase (view p3) = Taking ?l []" using p2 p3(3) q(5) taken by simp
      from put_words_takes [of 256 "[]" buf p3 ?l] this assms(3) p3 obtain p4 c where
        p4: "put_words 256 io buf p3 = Some (drop 512 buf, p4)" "follows p4" "vw_phase (view p4) = Ready"
        "vw_sec (view p4) = (vw_sec (view p3))(?l := c)" "\<not> vw_err (view p4) \<longrightarrow> c = take 512 buf" by auto
      obtain p5 where p5: "ata_wait io p4 = (if vw_err (view p4) then -1 else 0, p5)" "follows p5" "view p5 = (view p4)\<lparr>vw_busy := 0\<rparr>"
        by (rule ata_wait_ends [OF p4(2)])
      have step: "\<forall>count. ata_write_sectors io lba (Suc count) buf p =
          (if \<not> \<not> vw_err (view p4) then Some (-1, p5) else ata_write_sectors io (lba + 1) count (drop 512 buf) p5)"
        using p1(1) q(1) p3(1) p4(1) p5(1) p2 False taken by simp
      show thesis
        by (rule that [OF step, of c]) (use p5 p4 p3 p2 q in auto)
    qed
  qed
qed

declare ata_read_sectors.simps(2) [simp del] ata_write_sectors.simps(2) [simp del]

text \<open>The requests of the file system.\<close>

lemma disk_read:
  assumes "follows p" and "vw_phase (view p) = Ready"
  obtains ok p' where "dk_read (ata_disk io) lba p = (if ok then Some (held (view p) lba) else None, p')" "follows p'"
    "vw_phase (view p') = Ready" "vw_sec (view p') = vw_sec (view p)" "\<not> ok \<longrightarrow> vw_err (view p) \<or> vw_err (view p')"
proof (rule read_one_sector [OF assms, of "replicate 512 0" lba])
  fix ok p'
  assume "\<forall>count. ata_read_sectors io lba (Suc count) (replicate 512 0) p =
      (if \<not> ok then Some (-1, replicate 512 0, p')
       else do {
         (r, rest, e) \<leftarrow> ata_read_sectors io (lba + 1) count (drop 512 (replicate 512 0)) p';
         Some (r, held (view p) lba @ rest, e) })"
  note st = this [rule_format, of 0]
  assume a: "follows p'" "vw_phase (view p') = Ready" "vw_sec (view p') = vw_sec (view p)" "\<not> ok \<longrightarrow> vw_err (view p) \<or> vw_err (view p')"
  show thesis using st by (intro that [of ok p'] a) (simp add: ata_disk_def)
qed simp

lemma disk_write:
  assumes "follows p" and "vw_phase (view p) = Ready" and "length b = 512"
  obtains ok p' c where "dk_write (ata_disk io) lba b p = (ok, p')" "follows p'" "vw_phase (view p') = Ready"
    "vw_sec (view p') = (vw_sec (view p))(lba AND mask 28 := c)" "ok \<longrightarrow> c = b" "\<not> ok \<longrightarrow> (\<exists>q. follows q \<and> vw_err (view q))"
proof (rule write_one_sector [OF assms(1,2), of b lba])
  fix ok p' c
  assume "\<forall>count. ata_write_sectors io lba (Suc count) b p =
      (if \<not> ok then Some (-1, p') else ata_write_sectors io (lba + 1) count (drop 512 b) p')"
  note st = this [rule_format, of 0]
  assume a: "follows p'" "vw_phase (view p') = Ready" "vw_sec (view p') = (vw_sec (view p))(lba AND mask 28 := c)"
    "ok \<longrightarrow> c = take 512 b" "\<not> ok \<longrightarrow> (\<exists>q. follows q \<and> vw_err (view q))"
  have "ok \<longrightarrow> c = b" using a(4) assms(3) by simp
  with st a show thesis by (intro that [of ok p' c]) (simp_all add: ata_disk_def)
qed (simp add: assms(3))

end

text \<open>The driver is the block device of the file system; on a drive without errors it never fails.\<close>

sublocale pio_drive < driven: block_device "ata_disk io" "\<lambda>p. held (view p)" "2 ^ 28" "\<lambda>p. follows p \<and> vw_phase (view p) = Ready"
proof unfold_locales
  fix d d' and lba :: u32 and r :: "byte list option" and b :: "byte list" and ok :: bool
  assume d: "follows d \<and> vw_phase (view d) = Ready"
  then show "length (held (view d) lba) = 512" by (simp add: held_def sector_512)
  obtain good p' where rd: "dk_read (ata_disk io) lba d = (if good then Some (held (view d) lba) else None, p')" "follows p'"
    "vw_phase (view p') = Ready" "vw_sec (view p') = vw_sec (view d)"
    by (rule disk_read [OF conjunct1 [OF d] conjunct2 [OF d]])
  show "dk_read (ata_disk io) lba d = (r, d') \<Longrightarrow> (follows d' \<and> vw_phase (view d') = Ready) \<and> held (view d') = held (view d)"
    using rd by (auto simp: held_def fun_eq_iff)
  show "dk_read (ata_disk io) lba d = (Some b, d') \<Longrightarrow> b = held (view d) lba" using rd by (auto split: if_splits)
  then show "dk_read (ata_disk io) lba d = (Some b, d') \<Longrightarrow> length b = 512" using d by (simp add: held_def sector_512)
  assume w: "length b = 512" "unat lba < 2 ^ 28" "dk_write (ata_disk io) lba b d = (ok, d')"
  obtain good p' c where st: "dk_write (ata_disk io) lba b d = (good, p')" "follows p'" "vw_phase (view p') = Ready"
    "vw_sec (view p') = (vw_sec (view d))(lba AND mask 28 := c)" "good \<longrightarrow> c = b"
    by (rule disk_write [OF conjunct1 [OF d] conjunct2 [OF d] w(1)])
  then show "(follows d' \<and> vw_phase (view d') = Ready) \<and> (\<forall>l. l \<noteq> lba \<and> unat l < 2 ^ 28 \<longrightarrow> held (view d') l = held (view d) l) \<and>
    (ok \<longrightarrow> held (view d') lba = b)" using w(2,3) by (auto simp: held_def and_mask_28)
qed

sublocale sound_drive < driven: reliable_device "ata_disk io" "\<lambda>p. held (view p)" "2 ^ 28" "\<lambda>p. follows p \<and> vw_phase (view p) = Ready"
proof unfold_locales
  fix d and lba :: u32 and b :: "byte list"
  assume d: "follows d \<and> vw_phase (view d) = Ready"
  show "fst (dk_read (ata_disk io) lba d) \<noteq> None"
    by (rule disk_read [OF conjunct1 [OF d] conjunct2 [OF d], of lba]) (use no_error d in auto)
  assume len: "length b = 512"
  show "fst (dk_write (ata_disk io) lba b d)"
    by (rule disk_write [OF conjunct1 [OF d] conjunct2 [OF d] len, of lba]) (use no_error in auto)
qed

section \<open>Transfers of several sectors\<close>

text \<open>Sectors \<open>lba\<close>, \<open>lba + 1\<close>, ... as one run of bytes.\<close>

definition held_run :: "drive_view \<Rightarrow> u32 \<Rightarrow> nat \<Rightarrow> byte list" where
  "held_run v lba n = concat (map (\<lambda>k. held v (lba + of_nat k)) [0..<n])"

lemma held_run_Suc: "held_run v lba (Suc n) = held v lba @ held_run v (lba + 1) n"
  by (simp add: held_run_def upt_conv_Cons map_Suc_upt [symmetric] o_def algebra_simps
      del: upt_Suc map_Suc_upt)

lemma held_run_cong: "vw_sec v' = vw_sec v \<Longrightarrow> held_run v' = held_run v"
  by (simp add: held_run_def held_def fun_eq_iff)

context sound_drive
begin

lemma read_run:
  assumes "follows p" and "vw_phase (view p) = Ready" and "512 * n \<le> length buf"
  shows "\<exists>p'. ata_read_sectors io lba n buf p = Some (0, held_run (view p) lba n @ drop (512 * n) buf, p') \<and>
    follows p' \<and> vw_phase (view p') = Ready \<and> vw_sec (view p') = vw_sec (view p)"
  using assms
proof (induction n arbitrary: lba buf p)
  case 0
  then show ?case by (simp add: held_run_def)
next
  case (Suc n)
  from Suc.prems(3) have len: "512 \<le> length buf" "512 * n \<le> length (drop 512 buf)" by simp_all
  obtain ok p1 where step: "\<forall>count. ata_read_sectors io lba (Suc count) buf p =
      (if \<not> ok then Some (-1, buf, p1)
       else do {
         (r, rest, e) \<leftarrow> ata_read_sectors io (lba + 1) count (drop 512 buf) p1;
         Some (r, held (view p) lba @ rest, e) })"
    and p1: "follows p1" "vw_phase (view p1) = Ready" "vw_sec (view p1) = vw_sec (view p)" "\<not> ok \<longrightarrow> vw_err (view p) \<or> vw_err (view p1)"
    by (rule read_one_sector [OF Suc.prems(1,2) len(1), of lba])
  have ok: ok using p1(1,4) no_error Suc.prems(1) by blast
  from Suc.IH [OF p1(1,2) len(2), of "lba + 1"] obtain p2 where
    "ata_read_sectors io (lba + 1) n (drop 512 buf) p1 = Some (0, held_run (view p) (lba + 1) n @ drop (512 * n) (drop 512 buf), p2)"
    "follows p2" "vw_phase (view p2) = Ready" "vw_sec (view p2) = vw_sec (view p)"
    unfolding p1(3) held_run_cong [OF p1(3)] by blast
  with step [rule_format, of n] ok show ?case by (simp add: held_run_Suc add.commute)
qed

lemma write_run:
  assumes "follows p" and "vw_phase (view p) = Ready" and "512 * n \<le> length buf" and "unat lba + n \<le> 2 ^ 28"
  shows "\<exists>p'. ata_write_sectors io lba n buf p = Some (0, p') \<and> follows p' \<and> vw_phase (view p') = Ready \<and>
    (0 < n \<longrightarrow> vw_busy (view p') = 0) \<and> held_run (view p') lba n = take (512 * n) buf \<and>
    (\<forall>l. unat l < 2 ^ 28 \<and> (unat l < unat lba \<or> unat lba + n \<le> unat l) \<longrightarrow> held (view p') l = held (view p) l)"
  using assms
proof (induction n arbitrary: lba buf p)
  case 0
  then show ?case by (simp add: held_run_def)
next
  case (Suc n)
  from Suc.prems(3) have len: "512 \<le> length buf" "512 * n \<le> length (drop 512 buf)" by simp_all
  have lba: "unat lba < 2 ^ 28" using Suc.prems(4) by simp
  obtain ok p1 c where step: "\<forall>count. ata_write_sectors io lba (Suc count) buf p =
      (if \<not> ok then Some (-1, p1) else ata_write_sectors io (lba + 1) count (drop 512 buf) p1)"
    and p1: "follows p1" "vw_phase (view p1) = Ready" "vw_busy (view p1) = 0" "vw_sec (view p1) = (vw_sec (view p))(lba AND mask 28 := c)"
      "ok \<longrightarrow> c = take 512 buf" "\<not> ok \<longrightarrow> (\<exists>q. follows q \<and> vw_err (view q))"
    by (rule write_one_sector [OF Suc.prems(1,2) len(1), of lba])
  have ok: ok using p1(6) no_error by blast
  have next_lba: "unat (lba + 1) = unat lba + 1" using lba by (simp add: unat_add_u32)
  have sec1: "held (view p1) l = (if l = lba then take 512 buf else held (view p) l)" if "unat l < 2 ^ 28" for l
    using that p1(4,5) ok lba by (simp add: held_def and_mask_28)
  have room: "unat (lba + 1) + n \<le> 2 ^ 28" using Suc.prems(4) next_lba by simp
  from Suc.IH [OF p1(1,2) len(2) room] obtain p2 where
    p2: "ata_write_sectors io (lba + 1) n (drop 512 buf) p1 = Some (0, p2)" "follows p2" "vw_phase (view p2) = Ready"
    "0 < n \<longrightarrow> vw_busy (view p2) = 0" "held_run (view p2) (lba + 1) n = take (512 * n) (drop 512 buf)"
    and other: "\<forall>l. unat l < 2 ^ 28 \<and> (unat l < unat lba + 1 \<or> unat lba + 1 + n \<le> unat l) \<longrightarrow> held (view p2) l = held (view p1) l"
    unfolding next_lba by blast
  have "held (view p2) lba = take 512 buf" using other lba sec1 by simp
  then have "held_run (view p2) lba (Suc n) = take (512 * Suc n) buf"
    using p2(5) len(1) by (simp add: held_run_Suc take_add [of 512 "512 * n"])
  moreover have "held (view p2) l = held (view p) l"
    if "unat l < 2 ^ 28" "unat l < unat lba \<or> unat lba + Suc n \<le> unat l" for l
    using that other sec1 [of l] by auto
  moreover have "vw_busy (view p2) = 0" using p2(1,4) p1(3) by (cases n) auto
  ultimately show ?case using step [rule_format, of n] ok p2 by auto
qed

lemma write_read:
  assumes "follows p" and "vw_phase (view p) = Ready" and "512 * n \<le> length data" and "512 * n \<le> length buf"
    and "unat lba + n \<le> 2 ^ 28"
  shows "\<exists>p1 p2. ata_write_sectors io lba n data p = Some (0, p1) \<and> (0 < n \<longrightarrow> vw_busy (view p1) = 0) \<and>
    ata_read_sectors io lba n buf p1 = Some (0, take (512 * n) data @ drop (512 * n) buf, p2) \<and>
    (\<forall>l. unat l < 2 ^ 28 \<and> (unat l < unat lba \<or> unat lba + n \<le> unat l) \<longrightarrow> held (view p2) l = held (view p) l)"
proof -
  from write_run [OF assms(1,2,3,5)] obtain p1 where
    w: "ata_write_sectors io lba n data p = Some (0, p1)" "follows p1" "vw_phase (view p1) = Ready" "0 < n \<longrightarrow> vw_busy (view p1) = 0"
      "held_run (view p1) lba n = take (512 * n) data"
      "\<forall>l. unat l < 2 ^ 28 \<and> (unat l < unat lba \<or> unat lba + n \<le> unat l) \<longrightarrow> held (view p1) l = held (view p) l"
    by auto
  from read_run [OF w(2,3) assms(4), of lba] w show ?thesis by (auto simp: held_def)
qed

end

section \<open>Properties\<close>

text \<open>C28: what is written is read back, whatever drive follows the protocol and reports no error. Writing n sectors and reading
  n sectors at the same address returns the bytes written, the drive is no longer busy when a write returns, and every sector
  outside the run keeps its contents. The protocol says nothing of a drive that is sent a register, a command or data while it is busy or in
  another phase, so the driver must poll before each of them.\<close>

theorem ata_write_read:
  assumes "sound_drive io view follows" and "follows p" and "vw_phase (view p) = Ready"
    and "512 * n \<le> length data" and "512 * n \<le> length buf" and "unat lba + n \<le> 2 ^ 28"
  shows "\<exists>p1 p2. ata_write_sectors io lba n data p = Some (0, p1) \<and> (0 < n \<longrightarrow> vw_busy (view p1) = 0) \<and>
    ata_read_sectors io lba n buf p1 = Some (0, take (512 * n) data @ drop (512 * n) buf, p2) \<and>
    (\<forall>l. unat l < 2 ^ 28 \<and> (unat l < unat lba \<or> unat lba + n \<le> unat l) \<longrightarrow> held (view p2) l = held (view p) l)"
  by (rule sound_drive.write_read [OF assms])

section \<open>A drive that meets the contract\<close>

text \<open>It is busy for \<open>dr_latency\<close> polls after a command and after the last word of a written sector. While it is busy, and while a
  transfer is under way, register writes and commands are lost; data read or written while it is busy or in another phase are lost too.
  A command for more than one sector, or for a bad sector, sets ERR.\<close>

record drive = drive_view +
  dr_bad :: "u32 \<Rightarrow> bool"
  dr_latency :: nat

definition drive_view_of :: "drive \<Rightarrow> drive_view" where
  "drive_view_of d = drive_view.truncate d"

lemma drive_view_of_simps [simp]:
  "vw_sec (drive_view_of d) = vw_sec d" "vw_busy (drive_view_of d) = vw_busy d" "vw_err (drive_view_of d) = vw_err d"
  "vw_phase (drive_view_of d) = vw_phase d" "vw_dev (drive_view_of d) = vw_dev d" "vw_cnt (drive_view_of d) = vw_cnt d"
  "vw_lo (drive_view_of d) = vw_lo d" "vw_mid (drive_view_of d) = vw_mid d" "vw_hi (drive_view_of d) = vw_hi d"
  by (simp_all add: drive_view_of_def drive_view.defs)

definition drive_status :: "drive \<Rightarrow> byte" where
  "drive_status d =
     (if 0 < vw_busy d then 0x80
      else 0x40 OR (if vw_err d then 0x01 else 0) OR (if vw_phase d = Ready then 0 else 0x08))"

definition drive_inb :: "u16 \<Rightarrow> drive \<Rightarrow> byte \<times> drive" where
  "drive_inb port d = (if port = ATA_STATUS then (drive_status d, d\<lparr>vw_busy := vw_busy d - 1\<rparr>) else (0, d))"

definition drive_start :: "byte \<Rightarrow> drive \<Rightarrow> drive" where
  "drive_start cmd d =
     (let lba = view_lba (drive_view_of d); d' = d\<lparr>vw_busy := dr_latency d\<rparr>
      in if dr_bad d lba \<or> \<not> one_sector (drive_view_of d) then d'\<lparr>vw_err := True\<rparr>
         else d'\<lparr>vw_err := False, vw_phase := (if cmd = ATA_CMD_WRITE then Taking lba [] else Sending (vw_sec d lba))\<rparr>)"

definition drive_outb :: "u16 \<Rightarrow> byte \<Rightarrow> drive \<Rightarrow> drive" where
  "drive_outb port v d =
     (if \<not> takes_command (drive_view_of d) then d
      else if port = ATA_DRIVE then d\<lparr>vw_dev := v\<rparr>
      else if port = ATA_SECTOR_CNT then d\<lparr>vw_cnt := v\<rparr>
      else if port = ATA_LBA_LO then d\<lparr>vw_lo := v\<rparr>
      else if port = ATA_LBA_MID then d\<lparr>vw_mid := v\<rparr>
      else if port = ATA_LBA_HI then d\<lparr>vw_hi := v\<rparr>
      else if port = ATA_STATUS then drive_start v d
      else d)"

definition drive_inw :: "u16 \<Rightarrow> drive \<Rightarrow> u16 \<times> drive" where
  "drive_inw port d =
     (case vw_phase d of
        Sending (a # b # bs) \<Rightarrow>
          (if 0 < vw_busy d then (0, d)
           else (ucast a OR push_bit 8 (ucast b), d\<lparr>vw_phase := (if bs = [] then Ready else Sending bs)\<rparr>))
      | _ \<Rightarrow> (0, d))"

definition drive_outw :: "u16 \<Rightarrow> u16 \<Rightarrow> drive \<Rightarrow> drive" where
  "drive_outw port w d =
     (case vw_phase d of
        Taking lba bs \<Rightarrow>
          (let bs = bs @ [ucast w, ucast (drop_bit 8 w)]
           in if 0 < vw_busy d then d
              else if length bs = 512
              then d\<lparr>vw_sec := (vw_sec d)(lba := bs), vw_phase := Ready, vw_busy := dr_latency d\<rparr>
              else d\<lparr>vw_phase := Taking lba bs\<rparr>)
      | _ \<Rightarrow> d)"

definition drive_pio :: "drive pio" where
  "drive_pio = \<lparr>inb = drive_inb, outb = drive_outb, inw = drive_inw, outw = drive_outw\<rparr>"

lemma drive_pio_simps [simp]:
  "inb drive_pio = drive_inb" "outb drive_pio = drive_outb"
  "inw drive_pio = drive_inw" "outw drive_pio = drive_outw"
  by (simp_all add: drive_pio_def)

text \<open>Every wait ends within the driver's 100000 polls; and no sector is bad and no error pending.\<close>

definition drive_ok :: "drive \<Rightarrow> bool" where
  "drive_ok d \<longleftrightarrow> (\<forall>lba. length (vw_sec d lba) = 512) \<and> dr_latency d < 100000 \<and> vw_busy d < 100000"

definition drive_sound :: "drive \<Rightarrow> bool" where
  "drive_sound d \<longleftrightarrow> drive_ok d \<and> \<not> vw_err d \<and> (\<forall>lba. \<not> dr_bad d lba)"

lemmas drive_defs = drive_inb_def drive_outb_def drive_inw_def drive_outw_def drive_start_def drive_status_def
  drive_ok_def takes_command_def ata_consts

lemma drive_view_of_updates [simp]:
  "drive_view_of (d\<lparr>vw_busy := n\<rparr>) = (drive_view_of d)\<lparr>vw_busy := n\<rparr>" "drive_view_of (d\<lparr>vw_dev := v\<rparr>) = (drive_view_of d)\<lparr>vw_dev := v\<rparr>"
  "drive_view_of (d\<lparr>vw_cnt := v\<rparr>) = (drive_view_of d)\<lparr>vw_cnt := v\<rparr>" "drive_view_of (d\<lparr>vw_lo := v\<rparr>) = (drive_view_of d)\<lparr>vw_lo := v\<rparr>"
  "drive_view_of (d\<lparr>vw_mid := v\<rparr>) = (drive_view_of d)\<lparr>vw_mid := v\<rparr>" "drive_view_of (d\<lparr>vw_hi := v\<rparr>) = (drive_view_of d)\<lparr>vw_hi := v\<rparr>"
  "drive_view_of (d\<lparr>vw_phase := ph\<rparr>) = (drive_view_of d)\<lparr>vw_phase := ph\<rparr>"
  by (simp_all add: drive_view_of_def drive_view.defs)

interpretation ata: pio_drive drive_pio drive_view_of drive_ok
  by unfold_locales (auto simp: drive_defs Let_def split: if_splits)

lemma sound_start: "drive_sound d \<Longrightarrow> one_sector (drive_view_of d) \<Longrightarrow> drive_sound (drive_start cmd d)"
  by (auto simp: drive_sound_def drive_ok_def drive_start_def Let_def)

interpretation ata_sound: sound_drive drive_pio drive_view_of drive_sound
  by unfold_locales (auto simp: drive_sound_def drive_defs Let_def split: if_splits)

text \<open>The disk of the examples, as the file system sees it.\<close>

definition drive_sec :: "drive \<Rightarrow> u32 \<Rightarrow> byte list" where
  "drive_sec d lba = vw_sec d (lba AND mask 28)"

definition drive_good :: "drive \<Rightarrow> bool" where
  "drive_good d \<longleftrightarrow> drive_sound d \<and> vw_phase d = Ready"

interpretation ata_good: reliable_device "ata_disk drive_pio" drive_sec "2 ^ 28" drive_good
proof -
  have "drive_sec = (\<lambda>d. held (drive_view_of d))" "drive_good = (\<lambda>d. drive_sound d \<and> vw_phase (drive_view_of d) = Ready)"
    by (simp_all add: fun_eq_iff drive_sec_def drive_good_def held_def)
  then show "reliable_device (ata_disk drive_pio) drive_sec (2 ^ 28) drive_good" using ata_sound.driven.reliable_device_axioms by simp
qed

definition drive_blank :: drive where
  "drive_blank = \<lparr>vw_sec = (\<lambda>_. replicate 512 0), vw_busy = 2, vw_err = False, vw_phase = Ready, vw_dev = 0, vw_cnt = 0,
     vw_lo = 0, vw_mid = 0, vw_hi = 0, dr_bad = (\<lambda>_. False), dr_latency = 3\<rparr>"

lemma drive_good_blank [simp]: "drive_good drive_blank"
  by (simp add: drive_good_def drive_sound_def drive_ok_def drive_blank_def)

theorem ata_write_read_witness:
  "\<exists>d1 d2. ata_write_sectors drive_pio 300 2 (replicate 1024 7) drive_blank = Some (0, d1) \<and>
    ata_read_sectors drive_pio 300 2 (replicate 1030 1) d1 =
      Some (0, replicate 1024 7 @ replicate 6 1, d2)"
proof -
  have d: "drive_sound drive_blank" "vw_phase (drive_view_of drive_blank) = Ready" using drive_good_blank by (simp_all add: drive_good_def)
  from ata_write_read [OF ata_sound.sound_drive_axioms d, of 2 "replicate 1024 7" "replicate 1030 1" 300] show ?thesis by auto
qed

section \<open>Errors\<close>

text \<open>An error is never cleared. A command the drive rejects leaves ERR in its status until the
  next command is accepted, but the driver polls the status before it sends one and gives up when
  ERR is set: from then on every read and every write fails and sends the drive nothing.\<close>

lemma ata_error_sticks:
  assumes "inb io ATA_STATUS p = (s, p')" and "s AND ATA_STATUS_BSY = 0" and "s AND ATA_STATUS_ERR \<noteq> 0" and "0 < count"
  shows "ata_read_sectors io lba count buf p = Some (-1, buf, p') \<and> ata_write_sectors io lba count buf p = Some (-1, p')"
proof -
  have "wait_loop (Suc n) io p = (-1, p')" for n using assms(1-3) by simp
  from this [of 99999] have "ata_wait io p = (-1, p')" by (simp add: ata_wait_def)
  then show ?thesis using assms(4) by (cases count) (simp_all add: ata_read_sectors.simps(2) ata_write_sectors.simps(2))
qed

lemma ata_error_sticks_drive:
  assumes "vw_err d" and "vw_busy d = 0"
  shows "ata_read_sectors drive_pio lba (Suc n) buf d = Some (-1, buf, d)" "ata_write_sectors drive_pio lba (Suc n) buf d = Some (-1, d)"
  using ata_error_sticks [of drive_pio d "drive_status d" d "Suc n" lba buf] assms by (simp_all add: drive_defs)

end
