(* ===== verification/FsLayout.thy ===== *)
theory FsLayout
  imports CString
begin

text \<open>
  The on-disk format of drivers/fs.c (headers/fs.h): little-endian words, the superblock of sector
  128 and the 32-byte directory entries, sixteen to a sector. The structs are read from and written
  to sector buffers in place, so each has a decoder at an offset and an encoder, with the round
  trips between them.
\<close>

definition FS_MAGIC :: "byte list" where "FS_MAGIC = asc ''LUNFS1''"
definition FS_SUPER_LBA :: u32 where "FS_SUPER_LBA = 128"
definition FS_MAX_NAME :: nat where "FS_MAX_NAME = 23"
definition FS_ENTRIES_PER_SECTOR :: nat where "FS_ENTRIES_PER_SECTOR = 16"
definition FS_DIR :: byte where "FS_DIR = 1"
definition FS_FILE :: byte where "FS_FILE = 0"

section \<open>Little-endian words\<close>

definition le32 :: "byte list \<Rightarrow> nat \<Rightarrow> u32" where
  "le32 xs i = ucast (xs ! i) OR push_bit 8 (ucast (xs ! (i + 1)))
     OR push_bit 16 (ucast (xs ! (i + 2))) OR push_bit 24 (ucast (xs ! (i + 3)))"

definition bytes32 :: "u32 \<Rightarrow> byte list" where
  "bytes32 w = [ucast w, ucast (drop_bit 8 w), ucast (drop_bit 16 w), ucast (drop_bit 24 w)]"

lemma length_bytes32 [simp]: "length (bytes32 w) = 4"
  by (simp add: bytes32_def)

lemma le32_bytes32:
  "le32 (bytes32 w) 0 = w"
proof (rule bit_word_eqI)
  fix n assume "n < LENGTH(32)"
  then have "n < 32" by simp
  then consider "n < 8" | "8 \<le> n" "n < 16" | "16 \<le> n" "n < 24" | "24 \<le> n" "n < 32"
    by linarith
  then show "bit (le32 (bytes32 w) 0) n = bit w n"
    by cases (auto simp: le32_def bytes32_def bit_simps)
qed

lemma le32_at: "i + 4 \<le> length xs \<Longrightarrow> le32 xs i = le32 (take 4 (drop i xs)) 0"
proof -
  assume i: "i + 4 \<le> length xs"
  have "take 4 (drop i xs) ! k = xs ! (i + k)" if "k < 4" for k using that i by simp
  from this [of 0] this [of 1] this [of 2] this [of 3] show ?thesis
    unfolding le32_def by (simp only: add_0) simp
qed

lemma le32_append:
  "length xs = i \<Longrightarrow> le32 (xs @ bytes32 w @ ys) i = w"
  using le32_bytes32 [of w] le32_at [of i "xs @ bytes32 w @ ys"] by simp

section \<open>Superblock and directory entries\<close>

record superblock =
  sb_magic :: "byte list"
  dir_lba :: u32
  dir_sectors :: u32
  data_lba :: u32

definition superblock_of :: "byte list \<Rightarrow> superblock" where
  "superblock_of s =
     \<lparr>sb_magic = take 8 s, dir_lba = le32 s 8, dir_sectors = le32 s 12, data_lba = le32 s 16\<rparr>"

record file_entry =
  fe_name :: "byte list"
  fe_type :: byte
  fe_lba :: u32
  fe_size :: u32

text \<open>\<open>(struct file_entry *)&buf[i * sizeof(struct file_entry)]\<close>, read and stored.\<close>

definition entry_at :: "byte list \<Rightarrow> nat \<Rightarrow> file_entry" where
  "entry_at buf i =
     \<lparr>fe_name = take 23 (drop (32 * i) buf), fe_type = buf ! (32 * i + 23),
      fe_lba = le32 buf (32 * i + 24), fe_size = le32 buf (32 * i + 28)\<rparr>"

definition entry_bytes :: "file_entry \<Rightarrow> byte list" where
  "entry_bytes e = fe_name e @ [fe_type e] @ bytes32 (fe_lba e) @ bytes32 (fe_size e)"

definition put_entry :: "byte list \<Rightarrow> nat \<Rightarrow> file_entry \<Rightarrow> byte list" where
  "put_entry buf i e = blit buf (32 * i) (entry_bytes e)"

lemma length_entry_bytes [simp]: "length (entry_bytes e) = length (fe_name e) + 9"
  by (simp add: entry_bytes_def)

lemma entry_at_cong:
  assumes "take 32 (drop (32 * i) buf) = take 32 (drop (32 * j) buf')"
    and "32 * i + 32 \<le> length buf" and "32 * j + 32 \<le> length buf'"
  shows "entry_at buf i = entry_at buf' j"
proof -
  have nth: "buf ! (32 * i + k) = buf' ! (32 * j + k)" if "k < 32" for k
    using arg_cong [OF assms(1), of "\<lambda>xs. xs ! k"] that assms(2,3) by simp
  have "take 23 (drop (32 * i) buf) = take 23 (drop (32 * j) buf')"
    using arg_cong [OF assms(1), of "take 23"] by simp
  moreover have "le32 buf (32 * i + k) = le32 buf' (32 * j + k)" if "k + 4 \<le> 32" for k
    using that nth [of k] nth [of "k + 1"] nth [of "k + 2"] nth [of "k + 3"]
    by (simp add: le32_def add.assoc)
  ultimately show ?thesis using nth [of 23] by (simp add: entry_at_def)
qed

lemma entry_at_bytes:
  assumes "length (fe_name e) = 23"
  shows "entry_at (entry_bytes e) 0 = e"
proof -
  have "le32 (entry_bytes e) 24 = fe_lba e"
    using le32_append [of "fe_name e @ [fe_type e]" 24 "fe_lba e" "bytes32 (fe_size e)"] assms
    by (simp add: entry_bytes_def)
  moreover have "le32 (entry_bytes e) 28 = fe_size e"
    using le32_append [of "fe_name e @ [fe_type e] @ bytes32 (fe_lba e)" 28 "fe_size e" "[]"] assms
    by (simp add: entry_bytes_def)
  ultimately show ?thesis using assms
    by (simp add: entry_at_def) (simp add: entry_bytes_def nth_append)
qed

lemma length_put_entry [simp]:
  "length (fe_name e) = 23 \<Longrightarrow> 32 * i + 32 \<le> length buf \<Longrightarrow>
    length (put_entry buf i e) = length buf"
  by (simp add: put_entry_def)

lemma entry_at_put:
  assumes "length (fe_name e) = 23" and "32 * i + 32 \<le> length buf" and "32 * j + 32 \<le> length buf"
  shows "entry_at (put_entry buf i e) j = (if j = i then e else entry_at buf j)"
proof (cases "j = i")
  case True
  have "take 32 (drop (32 * i) (put_entry buf i e)) = take 32 (drop (32 * 0) (entry_bytes e))"
    using blit_read [of "32 * i" "entry_bytes e" buf] assms by (simp add: put_entry_def)
  from entry_at_cong [OF this] True assms entry_at_bytes [of e] show ?thesis by simp
next
  case False
  then consider "j < i" | "i < j" by linarith
  then have "take 32 (drop (32 * j) (put_entry buf i e)) = take 32 (drop (32 * j) buf)"
    by cases (rule nth_equalityI; use assms in \<open>simp add: put_entry_def nth_blit\<close>)+
  from entry_at_cong [OF this] False assms show ?thesis by simp
qed

text \<open>Clearing the first byte of a name frees the entry, and only that one.\<close>

lemma entry_at_clear:
  assumes "32 * i + 32 \<le> length buf" and "32 * j + 32 \<le> length buf" and "j \<noteq> i"
  shows "entry_at (buf[32 * i := 0]) j = entry_at buf j"
proof (rule entry_at_cong)
  show "take 32 (drop (32 * j) (buf[32 * i := 0])) = take 32 (drop (32 * j) buf)"
    by (rule nth_equalityI) (use assms in \<open>auto simp: nth_list_update\<close>)
qed (use assms in simp_all)

definition entry_free :: "file_entry \<Rightarrow> bool" where
  "entry_free e \<longleftrightarrow> fe_name e ! 0 = 0"

lemma entry_free_at: "32 * i < length buf \<Longrightarrow> entry_free (entry_at buf i) \<longleftrightarrow> buf ! (32 * i) = 0"
  by (simp add: entry_free_def entry_at_def)

text \<open>A name as stored: NUL-terminated within its 23 bytes.\<close>

definition name_ok :: "file_entry \<Rightarrow> bool" where
  "name_ok e \<longleftrightarrow> length (fe_name e) = 23 \<and> 0 \<in> set (fe_name e)"

definition entry_name :: "file_entry \<Rightarrow> byte list" where
  "entry_name e = cstr (fe_name e)"

end
