(* ===== verification/Fs.thy ===== *)
theory Fs
  imports FsLayout BlockDev Wm
begin

text \<open>
  The file system operations of drivers/fs.c that work on names: mount, find, read, write, append
  to a directory listing, mkdir, delete, cat and the two listings. The sector requests are the
  argument \<open>dk\<close> (BlockDev.thy); the static superblock, the device and, where the code prints, the
  current terminal are passed and returned. A name is the memory at the \<open>const char *\<close>, up to and
  beyond its NUL; an access outside an object makes the whole operation \<open>None\<close>, which is not the
  code's -1. Local buffers start as zeros: the code never reads a byte of them it has not written.
\<close>

section \<open>Mounting, names and paths\<close>

definition fs_mount :: "'d disk \<Rightarrow> superblock \<Rightarrow> 'd \<Rightarrow> (int \<times> superblock \<times> 'd) option" where
  "fs_mount dk sb d =
     (case dk_read dk FS_SUPER_LBA d of
        (None, d) \<Rightarrow> Some (-1, sb, d)
      | (Some sec, d) \<Rightarrow> do {
          c \<leftarrow> strcmp (take 20 sec) (FS_MAGIC @ [0]);
          Some (if c \<noteq> 0 then -1 else 0, superblock_of sec, d) })"

text \<open>The pointer \<open>slash\<close> left by the scan of parent_of, as an index.\<close>

fun last_slash :: "nat \<Rightarrow> nat option \<Rightarrow> byte list \<Rightarrow> nat option option" where
  "last_slash i s [] = None"
| "last_slash i s (c # p) =
     (if c = 0 then Some s else last_slash (Suc i) (if c = 47 then Some i else s) p)"

definition parent_of :: "byte list \<Rightarrow> byte list \<Rightarrow> byte list option" where
  "parent_of path out = do {
     slash \<leftarrow> last_slash 0 None path;
     (case slash of
        None \<Rightarrow> store out 0 0
      | Some n \<Rightarrow> do { out \<leftarrow> memcpy out path n; store out n 0 }) }"

fun has_slash :: "byte list \<Rightarrow> bool option" where
  "has_slash [] = None"
| "has_slash (c # s) = (if c = 0 then Some False else if c = 47 then Some True else has_slash s)"

section \<open>Finding an entry\<close>

text \<open>The scan shared by fs_find and fs_delete: the slot of the first used entry of that name in
  one sector, and its sector number, slot and sector contents over the whole directory. A read
  error and a missing name both end the scan with nothing.\<close>

fun find_in_sector :: "byte list \<Rightarrow> byte list \<Rightarrow> nat list \<Rightarrow> nat option option" where
  "find_in_sector buf name [] = Some None"
| "find_in_sector buf name (i # is) = do {
     c0 \<leftarrow> load buf (32 * i);
     if c0 = 0 then find_in_sector buf name is
     else do {
       c \<leftarrow> strcmp (drop (32 * i) buf) name;
       if c = 0 then Some (Some i) else find_in_sector buf name is } }"

fun locate :: "'d disk \<Rightarrow> superblock \<Rightarrow> byte list \<Rightarrow> nat list \<Rightarrow> 'd \<Rightarrow>
    ((nat \<times> nat \<times> byte list) option \<times> 'd) option" where
  "locate dk sb name [] d = Some (None, d)"
| "locate dk sb name (s # ss) d =
     (case dk_read dk (dir_lba sb + of_nat s) d of
        (None, d) \<Rightarrow> Some (None, d)
      | (Some buf, d) \<Rightarrow> do {
          r \<leftarrow> find_in_sector buf name [0..<FS_ENTRIES_PER_SECTOR];
          (case r of
             Some i \<Rightarrow> Some (Some (s, i, buf), d)
           | None \<Rightarrow> locate dk sb name ss d) })"

definition dir_range :: "superblock \<Rightarrow> nat list" where
  "dir_range sb = [0..<unat (dir_sectors sb)]"

text \<open>\<open>None\<close> inside the result is the return value -1; otherwise the entry is \<open>*out\<close>.\<close>

definition fs_find :: "'d disk \<Rightarrow> superblock \<Rightarrow> byte list \<Rightarrow> 'd \<Rightarrow>
    (file_entry option \<times> 'd) option" where
  "fs_find dk sb name d = do {
     (r, d) \<leftarrow> locate dk sb name (dir_range sb) d;
     Some (map_option (\<lambda>(s, i, buf). entry_at buf i) r, d) }"

definition fs_delete :: "'d disk \<Rightarrow> superblock \<Rightarrow> byte list \<Rightarrow> 'd \<Rightarrow> (int \<times> 'd) option" where
  "fs_delete dk sb name d = do {
     (r, d) \<leftarrow> locate dk sb name (dir_range sb) d;
     (case r of
        None \<Rightarrow> Some (-1, d)
      | Some (s, i, buf) \<Rightarrow> do {
          buf \<leftarrow> store buf (32 * i) 0;
          let (ok, d) = dk_write dk (dir_lba sb + of_nat s) buf d;
          Some (if ok then 0 else -1, d) }) }"

definition fs_unlink :: "'d disk \<Rightarrow> superblock \<Rightarrow> byte list \<Rightarrow> 'd \<Rightarrow> (int \<times> 'd) option" where
  "fs_unlink dk sb name d = fs_delete dk sb name d"

section \<open>Reading\<close>

text \<open>\<open>memcpy(buf + off, src, n)\<close>.\<close>

definition copy_to :: "byte list \<Rightarrow> nat \<Rightarrow> byte list \<Rightarrow> nat \<Rightarrow> byte list option" where
  "copy_to buf off src n = do { t \<leftarrow> memcpy (drop off buf) src n; Some (take off buf @ t) }"

text \<open>The loop of fs_read and fs_append over the sectors of a file. It returns whether it got to the
  end, the buffer, and \<open>off\<close>.\<close>

function read_run :: "'d disk \<Rightarrow> u32 \<Rightarrow> byte list \<Rightarrow> u32 \<Rightarrow> u32 \<Rightarrow> 'd \<Rightarrow>
    (bool \<times> byte list \<times> u32 \<times> 'd) option" where
  "read_run dk lba buf off remaining d =
     (if remaining = 0 then Some (True, buf, off, d)
      else case dk_read dk (lba + off div 512) d of
        (None, d) \<Rightarrow> Some (False, buf, off, d)
      | (Some sec, d) \<Rightarrow>
          let n = (if remaining < 512 then remaining else 512)
          in do {
            buf \<leftarrow> copy_to buf (unat off) sec (unat n);
            read_run dk lba buf (off + n) (remaining - n) d })"
  by pat_completeness auto
termination
proof (relation "measure (\<lambda>(dk, lba, buf, off, remaining, d). unat remaining)")
  fix dk :: "'d disk" and lba off remaining n :: u32 and d buf buf' p sec d'
  assume "remaining \<noteq> 0" and "n = (if remaining < 512 then remaining else 512)"
  then have "remaining - n < remaining"
    by (auto simp: word_less_nat_alt unat_sub_if' unat_gt_0 split: if_splits)
  then show "((dk, lba, buf', off + n, remaining - n, d'), (dk, lba, buf, off, remaining, d))
      \<in> measure (\<lambda>(dk, lba, buf, off, remaining, d). unat remaining)"
    by (simp add: word_less_nat_alt)
qed simp

declare read_run.simps [simp del]

definition fs_read :: "'d disk \<Rightarrow> superblock \<Rightarrow> byte list \<Rightarrow> byte list \<Rightarrow> u32 \<Rightarrow> 'd \<Rightarrow>
    (int \<times> byte list \<times> 'd) option" where
  "fs_read dk sb name buf max_len d = do {
     (r, d) \<leftarrow> fs_find dk sb name d;
     (case r of
        None \<Rightarrow> Some (-1, buf, d)
      | Some e \<Rightarrow>
          if fe_size e > max_len then Some (-1, buf, d)
          else do {
            (ok, buf, off, d) \<leftarrow> read_run dk (fe_lba e) buf 0 (fe_size e) d;
            Some (if ok then sint (fe_size e) else -1, buf, d) }) }"

section \<open>Writing\<close>

text \<open>The directory scan of fs_write: the slot to store the entry in, the old extent of the file
  when it exists, and the first sector past every used one. The code's \<open>slot_sec\<close> is an \<open>int\<close>, -1
  for none; a directory has fewer than 2^31 sectors.\<close>

record scan =
  sc_slot :: "(nat \<times> nat) option"
  sc_old :: "(u32 \<times> u32) option"
  sc_next :: u32

definition scan_entry :: "byte list \<Rightarrow> byte list \<Rightarrow> nat \<Rightarrow> nat \<Rightarrow> scan \<Rightarrow> scan option" where
  "scan_entry buf name s i sc = do {
     c0 \<leftarrow> load buf (32 * i);
     if c0 = 0 then Some (if sc_slot sc = None then sc\<lparr>sc_slot := Some (s, i)\<rparr> else sc)
     else do {
       let e = entry_at buf i;
       let end_lba = fe_lba e + (fe_size e + 511) div 512;
       let sc = (if end_lba > sc_next sc then sc\<lparr>sc_next := end_lba\<rparr> else sc);
       if sc_old sc = None then do {
         c \<leftarrow> strcmp (drop (32 * i) buf) name;
         Some (if c = 0
               then sc\<lparr>sc_old := Some (fe_lba e, (fe_size e + 511) div 512), sc_slot := Some (s, i)\<rparr>
               else sc) }
       else Some sc } }"

fun scan_sector :: "byte list \<Rightarrow> byte list \<Rightarrow> nat \<Rightarrow> nat list \<Rightarrow> scan \<Rightarrow> scan option" where
  "scan_sector buf name s [] sc = Some sc"
| "scan_sector buf name s (i # is) sc = do {
     sc \<leftarrow> scan_entry buf name s i sc;
     scan_sector buf name s is sc }"

fun scan_dir :: "'d disk \<Rightarrow> superblock \<Rightarrow> byte list \<Rightarrow> nat list \<Rightarrow> scan \<Rightarrow> 'd \<Rightarrow>
    (scan option \<times> 'd) option" where
  "scan_dir dk sb name [] sc d = Some (Some sc, d)"
| "scan_dir dk sb name (s # ss) sc d =
     (case dk_read dk (dir_lba sb + of_nat s) d of
        (None, d) \<Rightarrow> Some (None, d)
      | (Some buf, d) \<Rightarrow> do {
          sc \<leftarrow> scan_sector buf name s [0..<FS_ENTRIES_PER_SECTOR] sc;
          scan_dir dk sb name ss sc d })"

text \<open>The loop that writes the contents, a zero-padded sector at a time; \<open>ks\<close> are the values of
  \<open>k\<close> still to come.\<close>

fun write_run :: "'d disk \<Rightarrow> u32 \<Rightarrow> byte list \<Rightarrow> u32 \<Rightarrow> nat list \<Rightarrow> 'd \<Rightarrow> (bool \<times> 'd) option" where
  "write_run dk lba data len [] d = Some (True, d)"
| "write_run dk lba data len (k # ks) d = do {
     let chunk = len - of_nat k * 512;
     let chunk = (if chunk > 512 then 512 else chunk);
     pad \<leftarrow> memcpy (replicate 512 0) (drop (k * 512) data) (unat chunk);
     let (ok, d) = dk_write dk (lba + of_nat k) pad d;
     if ok then write_run dk lba data len ks d else Some (False, d) }"

text \<open>The guard on the parent: with a slash, a non-empty parent must exist.\<close>

definition parent_missing :: "'d disk \<Rightarrow> superblock \<Rightarrow> byte list \<Rightarrow> 'd \<Rightarrow> (bool \<times> 'd) option" where
  "parent_missing dk sb name d = do {
     sl \<leftarrow> has_slash name;
     if \<not> sl then Some (False, d)
     else do {
       parent \<leftarrow> parent_of name (replicate FS_MAX_NAME 0);
       c0 \<leftarrow> load parent 0;
       if c0 = 0 then Some (False, d)
       else do {
         (r, d) \<leftarrow> fs_find dk sb parent d;
         Some (r = None, d) } } }"

text \<open>Storing the new entry: the directory sector is read again, changed and written back.\<close>

definition store_entry :: "'d disk \<Rightarrow> superblock \<Rightarrow> nat \<times> nat \<Rightarrow> file_entry \<Rightarrow> 'd \<Rightarrow> int \<times> 'd" where
  "store_entry dk sb slot e d =
     (case dk_read dk (dir_lba sb + of_nat (fst slot)) d of
        (None, d) \<Rightarrow> (-1, d)
      | (Some buf, d) \<Rightarrow>
          let (ok, d) = dk_write dk (dir_lba sb + of_nat (fst slot)) (put_entry buf (snd slot) e) d
          in (if ok then 0 else -1, d))"

text \<open>fs_write up to the directory entry, everything but the parent's listing.\<close>

definition write_file :: "'d disk \<Rightarrow> superblock \<Rightarrow> byte list \<Rightarrow> byte \<Rightarrow> byte list \<Rightarrow> u32 \<Rightarrow> 'd \<Rightarrow>
    (int \<times> 'd) option" where
  "write_file dk sb name type data len d = do {
     n \<leftarrow> strlen name;
     if n \<ge> FS_MAX_NAME then Some (-1, d)
     else do {
       (missing, d) \<leftarrow> parent_missing dk sb name d;
       if missing then Some (-1, d)
       else do {
         (r, d) \<leftarrow> scan_dir dk sb name (dir_range sb)
           \<lparr>sc_slot = None, sc_old = None, sc_next = data_lba sb\<rparr> d;
         (case r of
            None \<Rightarrow> Some (-1, d)
          | Some sc \<Rightarrow>
              (case sc_slot sc of
                 None \<Rightarrow> Some (-1, d)
               | Some slot \<Rightarrow> do {
                   let sectors = (len + 511) div 512;
                   let write_lba = (case sc_old sc of
                       Some (old_lba, old_cap) \<Rightarrow> (if sectors \<le> old_cap then old_lba else sc_next sc)
                     | None \<Rightarrow> sc_next sc);
                   (ok, d) \<leftarrow> write_run dk write_lba data len [0..<unat sectors] d;
                   if \<not> ok then Some (-1, d)
                   else do {
                     nm \<leftarrow> strcpy (replicate FS_MAX_NAME 0) name;
                     Some (store_entry dk sb slot
                       \<lparr>fe_name = nm, fe_type = type, fe_lba = write_lba, fe_size = len\<rparr> d) } })) } } }"

text \<open>fs_append up to its call of fs_write: the old listing with the path and a newline behind it.\<close>

definition append_data :: "'d disk \<Rightarrow> superblock \<Rightarrow> byte list \<Rightarrow> byte list \<Rightarrow> 'd \<Rightarrow>
    ((byte list \<times> u32) option \<times> 'd) option" where
  "append_data dk sb dir path d = do {
     (r, d) \<leftarrow> fs_find dk sb dir d;
     (case r of
        None \<Rightarrow> Some (None, d)
      | Some e \<Rightarrow>
          if fe_size e \<ge> 2048 then Some (None, d)
          else do {
            (ok, buf, off, d) \<leftarrow> read_run dk (fe_lba e) (replicate 2048 0) 0 (fe_size e) d;
            if \<not> ok then Some (None, d)
            else do {
              path_len \<leftarrow> strlen path;
              if off + of_nat path_len + 1 \<ge> 2048 then Some (None, d)
              else do {
                buf \<leftarrow> copy_to buf (unat off) path path_len;
                buf \<leftarrow> store buf (unat off + path_len) 10;
                Some (Some (buf, off + of_nat path_len + 1), d) } } }) }"

text \<open>fs_write and fs_append call each other, up the path; the call of fs_append at the end of
  fs_write is written out here. The names get shorter.\<close>

lemma last_slash_cases:
  "last_slash i s p = Some r \<Longrightarrow> r = s \<or> (\<exists>n. r = Some n \<and> i \<le> n \<and> n < i + length (cstr p))"
proof (induction i s p rule: last_slash.induct)
  case (2 i s c p)
  show ?case
  proof (cases "c = 0")
    case False
    with 2 have "r = (if c = 47 then Some i else s) \<or>
        (\<exists>n. r = Some n \<and> Suc i \<le> n \<and> n < Suc i + length (cstr p))"
      by simp
    with False show ?thesis by (cases "c = 47") auto
  qed (use 2 in auto)
qed simp

lemma length_cstr_less: "n < length xs \<Longrightarrow> xs ! n = 0 \<Longrightarrow> length (cstr xs) \<le> n"
  by (induction xs arbitrary: n) (auto simp: cstr_def less_Suc_eq_0_disj nth_Cons')

lemma parent_shorter:
  assumes "parent_of path out = Some parent" and "load parent 0 = Some c0" and "c0 \<noteq> 0"
  shows "length (cstr parent) < length (cstr path)"
proof -
  from assms(1) obtain slash where sl: "last_slash 0 None path = Some slash"
    by (auto simp: parent_of_def split: bind_splits)
  show ?thesis
  proof (cases slash)
    case None
    with assms sl have False by (auto simp: parent_of_def arr_simps)
    then show ?thesis ..
  next
    case (Some n)
    with last_slash_cases [OF sl] have n: "n < length (cstr path)" by simp
    from assms(1) sl Some obtain out' where "n < length out'" "parent = out'[n := 0]"
      by (auto simp: parent_of_def arr_simps split: bind_splits)
    then have "length (cstr parent) \<le> n" by (intro length_cstr_less) simp_all
    with n show ?thesis by simp
  qed
qed

function fs_write :: "'d disk \<Rightarrow> superblock \<Rightarrow> byte list \<Rightarrow> byte \<Rightarrow> byte list \<Rightarrow> u32 \<Rightarrow> 'd \<Rightarrow>
    (int \<times> 'd) option" where
  "fs_write dk sb name type data len d = do {
     (r, d) \<leftarrow> write_file dk sb name type data len d;
     if r < 0 then Some (-1, d)
     else do {
       sl \<leftarrow> has_slash name;
       if \<not> sl then Some (0, d)
       else do {
         parent \<leftarrow> parent_of name (replicate FS_MAX_NAME 0);
         c0 \<leftarrow> load parent 0;
         if c0 = 0 then Some (0, d)
         else do {
           (b, d) \<leftarrow> append_data dk sb parent name d;
           (case b of
              None \<Rightarrow> Some (0, d)
            | Some (buf, off) \<Rightarrow> do {
                (_, d) \<leftarrow> fs_write dk sb parent FS_DIR buf off d;
                Some (0, d) }) } } } }"
  by pat_completeness auto
termination
  by (relation "measure (\<lambda>(dk, sb, name, type, data, len, d). length (cstr name))")
    (auto intro: parent_shorter)

declare fs_write.simps [simp del]

definition fs_append :: "'d disk \<Rightarrow> superblock \<Rightarrow> byte list \<Rightarrow> byte list \<Rightarrow> 'd \<Rightarrow>
    (int \<times> 'd) option" where
  "fs_append dk sb dir path d = do {
     (b, d) \<leftarrow> append_data dk sb dir path d;
     (case b of
        None \<Rightarrow> Some (-1, d)
      | Some (buf, off) \<Rightarrow> fs_write dk sb dir FS_DIR buf off d) }"

definition fs_mkdir :: "'d disk \<Rightarrow> superblock \<Rightarrow> byte list \<Rightarrow> 'd \<Rightarrow> (int \<times> 'd) option" where
  "fs_mkdir dk sb name d = fs_write dk sb name FS_DIR [0] 0 d"

end
