(* ===== verification/FsSpec.thy ===== *)
theory FsSpec
  imports Fs
begin

text \<open>
  What the operations of Fs.thy do to the disk, over any reliable device: the sectors \<open>f\<close> are read
  as directory slots, the live entries among them and the bytes of each file (\<open>files\<close>, a map from
  names to a type and contents). \<open>fs_ok\<close> is the invariant of a consistent disk: every live entry has a
  terminated name and an extent inside the data area, names are unique and extents do not overlap.
\<close>

section \<open>What a disk holds\<close>

definition slots :: "superblock \<Rightarrow> (nat \<times> nat) list" where
  "slots sb = List.product (dir_range sb) [0..<16]"

definition slot_entry :: "superblock \<Rightarrow> (u32 \<Rightarrow> byte list) \<Rightarrow> nat \<times> nat \<Rightarrow> file_entry" where
  "slot_entry sb f p = entry_at (f (dir_lba sb + of_nat (fst p))) (snd p)"

definition live :: "superblock \<Rightarrow> (u32 \<Rightarrow> byte list) \<Rightarrow> nat \<times> nat \<Rightarrow> bool" where
  "live sb f p \<longleftrightarrow> \<not> entry_free (slot_entry sb f p)"

definition holds_name :: "superblock \<Rightarrow> (u32 \<Rightarrow> byte list) \<Rightarrow> byte list \<Rightarrow> nat \<times> nat \<Rightarrow> bool" where
  "holds_name sb f nm p \<longleftrightarrow> live sb f p \<and> entry_name (slot_entry sb f p) = nm"

definition entry_sectors :: "file_entry \<Rightarrow> nat" where
  "entry_sectors e = unat ((fe_size e + 511) div 512)"

definition file_bytes :: "(u32 \<Rightarrow> byte list) \<Rightarrow> file_entry \<Rightarrow> byte list" where
  "file_bytes f e = take (unat (fe_size e))
     (concat (map (\<lambda>k. f (fe_lba e + of_nat k)) [0..<entry_sectors e]))"

definition lookup :: "superblock \<Rightarrow> (u32 \<Rightarrow> byte list) \<Rightarrow> byte list \<Rightarrow> file_entry option" where
  "lookup sb f nm = map_option (slot_entry sb f) (find (holds_name sb f nm) (slots sb))"

definition files :: "superblock \<Rightarrow> (u32 \<Rightarrow> byte list) \<Rightarrow> byte list \<Rightarrow> (byte \<times> byte list) option" where
  "files sb f nm = map_option (\<lambda>e. (fe_type e, file_bytes f e)) (lookup sb f nm)"

definition entry_ok :: "superblock \<Rightarrow> nat \<Rightarrow> file_entry \<Rightarrow> bool" where
  "entry_ok sb cap e \<longleftrightarrow> name_ok e \<and> unat (fe_size e) + 511 < 2 ^ 32 \<and> data_lba sb \<le> fe_lba e \<and>
     unat (fe_lba e) + entry_sectors e \<le> cap"

definition apart :: "file_entry \<Rightarrow> file_entry \<Rightarrow> bool" where
  "apart e e' \<longleftrightarrow> entry_name e \<noteq> entry_name e' \<and>
     (unat (fe_lba e) + entry_sectors e \<le> unat (fe_lba e') \<or>
      unat (fe_lba e') + entry_sectors e' \<le> unat (fe_lba e))"

definition geometry_ok :: "superblock \<Rightarrow> nat \<Rightarrow> bool" where
  "geometry_ok sb cap \<longleftrightarrow> unat (dir_lba sb) + unat (dir_sectors sb) \<le> unat (data_lba sb) \<and>
     unat (data_lba sb) \<le> cap \<and> cap < 2 ^ 32"

definition fs_ok :: "superblock \<Rightarrow> nat \<Rightarrow> (u32 \<Rightarrow> byte list) \<Rightarrow> bool" where
  "fs_ok sb cap f \<longleftrightarrow> geometry_ok sb cap \<and>
     (\<forall>p\<in>set (slots sb). live sb f p \<longrightarrow> entry_ok sb cap (slot_entry sb f p)) \<and>
     (\<forall>p\<in>set (slots sb). \<forall>q\<in>set (slots sb). p \<noteq> q \<longrightarrow> live sb f p \<longrightarrow> live sb f q \<longrightarrow>
        apart (slot_entry sb f p) (slot_entry sb f q))"

lemma slots_iff [simp]: "(s, i) \<in> set (slots sb) \<longleftrightarrow> s < unat (dir_sectors sb) \<and> i < 16"
  by (auto simp: slots_def dir_range_def)

lemma distinct_slots [simp]: "distinct (slots sb)"
  by (simp add: slots_def dir_range_def distinct_product)

lemma dir_sector_in:
  assumes "geometry_ok sb cap" and "s < unat (dir_sectors sb)"
  shows "unat (dir_lba sb + of_nat s) = unat (dir_lba sb) + s"
    and "unat (dir_lba sb + of_nat s) < unat (data_lba sb)"
    and "unat (dir_lba sb + of_nat s) < cap"
proof -
  have s: "unat (of_nat s :: u32) = s"
    using assms(2) unat_u32_lt [of "dir_sectors sb"] by (intro of_nat_unat_small) linarith
  show u: "unat (dir_lba sb + of_nat s) = unat (dir_lba sb) + s"
    using assms s unat_u32_lt [of "data_lba sb"]
    by (subst unat_add_no_wrap) (auto simp: geometry_ok_def)
  then show "unat (dir_lba sb + of_nat s) < unat (data_lba sb)" "unat (dir_lba sb + of_nat s) < cap"
    using assms by (auto simp: geometry_ok_def)
qed

lemma dir_sector_inj:
  assumes "geometry_ok sb cap" and "s < unat (dir_sectors sb)" and "s' < unat (dir_sectors sb)"
  shows "dir_lba sb + of_nat s = dir_lba sb + of_nat s' \<longleftrightarrow> s = s'"
proof
  assume "dir_lba sb + of_nat s = dir_lba sb + of_nat s'"
  then have "unat (dir_lba sb + of_nat s) = unat (dir_lba sb + of_nat s')" by (rule arg_cong)
  then show "s = s'"
    unfolding dir_sector_in(1) [OF assms(1,2)] dir_sector_in(1) [OF assms(1,3)] by simp
qed (rule arg_cong)

lemma fs_okD:
  assumes "fs_ok sb cap f" and "p \<in> set (slots sb)" and "live sb f p"
  shows "entry_ok sb cap (slot_entry sb f p)" and "name_ok (slot_entry sb f p)"
  using assms by (simp_all add: fs_ok_def entry_ok_def)

section \<open>The directory scans\<close>

lemma entry_name_cmp:
  assumes "length buf = 512" and "i < 16" and "name_ok (entry_at buf i)" and "nul_free nm"
  shows "\<exists>c. strcmp (drop (32 * i) buf) (nm @ 0 # r) = Some c \<and>
    (c = 0 \<longleftrightarrow> entry_name (entry_at buf i) = nm)"
proof -
  let ?n = "take 23 (drop (32 * i) buf)"
  from assms(3) have "0 \<in> set ?n" by (simp add: name_ok_def entry_at_def)
  then obtain u v where uv: "?n = u @ 0 # v" "0 \<notin> set u" by (meson split_list_first)
  then have "drop (32 * i) buf = u @ 0 # (v @ drop 23 (drop (32 * i) buf))"
    by (metis append_take_drop_id append.assoc append_Cons)
  moreover have "entry_name (entry_at buf i) = u"
    using uv by (simp add: entry_name_def entry_at_def nul_free_def)
  ultimately show ?thesis using strcmp_total [of u nm] uv(2) assms(4) by (simp add: nul_free_def)
qed

lemma find_in_sector_eq:
  assumes "length buf = 512" and "nul_free nm" and "\<forall>i\<in>set is. i < 16"
    and "\<forall>i\<in>set is. \<not> entry_free (entry_at buf i) \<longrightarrow> name_ok (entry_at buf i)"
  shows "find_in_sector buf (nm @ 0 # r) is =
    Some (find (\<lambda>i. \<not> entry_free (entry_at buf i) \<and> entry_name (entry_at buf i) = nm) is)"
  using assms(3,4)
proof (induction "is")
  case (Cons i "is")
  then have i: "32 * i < length buf" using assms(1) by auto
  show ?case
  proof (cases "entry_free (entry_at buf i)")
    case True
    with i Cons show ?thesis by (simp add: entry_free_at)
  next
    case False
    with Cons.prems entry_name_cmp [OF assms(1) _ _ assms(2), of i r] obtain c where
      "strcmp (drop (32 * i) buf) (nm @ 0 # r) = Some c" "c = 0 \<longleftrightarrow> entry_name (entry_at buf i) = nm"
      by auto
    with i False Cons show ?thesis by (simp add: entry_free_at)
  qed
qed simp

lemma find_append: "find P (xs @ ys) = (case find P xs of None \<Rightarrow> find P ys | Some x \<Rightarrow> Some x)"
  by (induction xs) simp_all

lemma find_map_pair: "find P (map (Pair s) is) = map_option (Pair s) (find (\<lambda>i. P (s, i)) is)"
  by (induction "is") simp_all

context reliable_device
begin

lemma locate_eq:
  assumes "fs_ok sb cap (sec d)" and "dev_ok d" and "nul_free nm"
    and "\<forall>s\<in>set ss. s < unat (dir_sectors sb)"
  shows "\<exists>d'. locate dk sb (nm @ 0 # r) ss d =
      Some (map_option (\<lambda>(s, i). (s, i, sec d (dir_lba sb + of_nat s)))
        (find (holds_name sb (sec d) nm) (List.product ss [0..<16])), d') \<and>
    dev_ok d' \<and> sec d' = sec d"
  using assms
proof (induction ss arbitrary: d)
  case Nil
  then show ?case by simp
next
  case (Cons s ss)
  let ?buf = "sec d (dir_lba sb + of_nat s)"
  from Cons.prems have geo: "geometry_ok sb cap" and s: "s < unat (dir_sectors sb)"
    by (simp_all add: fs_ok_def)
  from read_E [OF Cons.prems(2) dir_sector_in(3) [OF geo s]] obtain d1 where
    d1: "dk_read dk (dir_lba sb + of_nat s) d = (Some ?buf, d1)" "dev_ok d1" "sec d1 = sec d"
    by blast
  have names: "name_ok (entry_at ?buf i)" if "i < 16" "\<not> entry_free (entry_at ?buf i)" for i
    using fs_okD(2) [OF Cons.prems(1), of "(s, i)"] s that
    by (simp add: live_def slot_entry_def)
  have f: "find_in_sector ?buf (nm @ 0 # r) [0..<16] =
      Some (find (\<lambda>i. holds_name sb (sec d) nm (s, i)) [0..<16])"
    using names sec_length [OF Cons.prems(2)] Cons.prems(3)
    by (subst find_in_sector_eq) (auto simp: holds_name_def live_def slot_entry_def)
  from Cons.IH [of d1] Cons.prems d1 f show ?case
    by (auto simp: FS_ENTRIES_PER_SECTOR_def find_append find_map_pair split: option.splits)
qed

lemma fs_find_eq:
  assumes "fs_ok sb cap (sec d)" and "dev_ok d" and "nul_free nm"
  shows "\<exists>d'. fs_find dk sb (nm @ 0 # r) d = Some (lookup sb (sec d) nm, d') \<and>
    dev_ok d' \<and> sec d' = sec d"
proof -
  from locate_eq [OF assms, of "dir_range sb" r] show ?thesis
    by (auto simp: fs_find_def lookup_def slots_def dir_range_def option.map_comp o_def
        slot_entry_def [abs_def] split_def)
qed

end

subsection \<open>The scan of fs_write\<close>

definition entry_end :: "file_entry \<Rightarrow> nat" where
  "entry_end e = unat (fe_lba e) + entry_sectors e"

definition next_free_from :: "superblock \<Rightarrow> (u32 \<Rightarrow> byte list) \<Rightarrow> (nat \<times> nat) list \<Rightarrow> nat" where
  "next_free_from sb f ps =
     fold (\<lambda>p m. if live sb f p then max m (entry_end (slot_entry sb f p)) else m) ps (unat (data_lba sb))"

definition next_free :: "superblock \<Rightarrow> (u32 \<Rightarrow> byte list) \<Rightarrow> nat" where
  "next_free sb f = next_free_from sb f (slots sb)"

definition scan_step :: "superblock \<Rightarrow> (u32 \<Rightarrow> byte list) \<Rightarrow> byte list \<Rightarrow> nat \<times> nat \<Rightarrow> scan \<Rightarrow> scan" where
  "scan_step sb f nm p sc =
     (let e = slot_entry sb f p; end_lba = fe_lba e + (fe_size e + 511) div 512
      in if \<not> live sb f p then (if sc_slot sc = None then sc\<lparr>sc_slot := Some p\<rparr> else sc)
         else
           let sc = (if end_lba > sc_next sc then sc\<lparr>sc_next := end_lba\<rparr> else sc)
           in if sc_old sc = None \<and> entry_name e = nm
              then sc\<lparr>sc_old := Some (fe_lba e, (fe_size e + 511) div 512), sc_slot := Some p\<rparr>
              else sc)"

definition scan_start :: "superblock \<Rightarrow> scan" where
  "scan_start sb = \<lparr>sc_slot = None, sc_old = None, sc_next = data_lba sb\<rparr>"

lemma end_lba_nat:
  assumes "entry_ok sb cap e" and "cap < 2 ^ 32"
  shows "unat (fe_lba e + (fe_size e + 511) div 512) = entry_end e"
  using assms by (subst unat_add_no_wrap) (auto simp: entry_ok_def entry_sectors_def entry_end_def)

lemma scan_sector_eq:
  assumes "length (f (dir_lba sb + of_nat s)) = 512" and "nul_free nm" and "\<forall>i\<in>set is. i < 16"
    and "\<forall>i\<in>set is. live sb f (s, i) \<longrightarrow> name_ok (slot_entry sb f (s, i))"
  shows "scan_sector (f (dir_lba sb + of_nat s)) (nm @ 0 # r) s is sc =
    Some (fold (scan_step sb f nm) (map (Pair s) is) sc)"
  using assms(3,4)
proof (induction "is" arbitrary: sc)
  case (Cons i "is")
  let ?buf = "f (dir_lba sb + of_nat s)"
  from Cons have i: "32 * i < length ?buf" using assms(1) by auto
  have "scan_entry ?buf (nm @ 0 # r) s i sc = Some (scan_step sb f nm (s, i) sc)"
  proof (cases "live sb f (s, i)")
    case True
    with Cons.prems entry_name_cmp [OF assms(1) _ _ assms(2), of i r] obtain c where
      "strcmp (drop (32 * i) ?buf) (nm @ 0 # r) = Some c"
      "c = 0 \<longleftrightarrow> entry_name (entry_at ?buf i) = nm"
      by (auto simp: slot_entry_def)
    with True i show ?thesis
      by (auto simp: scan_entry_def scan_step_def live_def slot_entry_def entry_free_at Let_def)
  next
    case False
    with i show ?thesis
      by (simp add: scan_entry_def scan_step_def live_def slot_entry_def entry_free_at)
  qed
  with Cons show ?case by simp
qed simp

lemma scan_step_live:
  "live sb f p \<Longrightarrow> scan_step sb f nm p \<lparr>sc_slot = sl, sc_old = old, sc_next = nx\<rparr> =
    (let e = slot_entry sb f p; w = fe_lba e + (fe_size e + 511) div 512;
         nx' = (if w > nx then w else nx)
     in if old = None \<and> entry_name e = nm
        then \<lparr>sc_slot = Some p, sc_old = Some (fe_lba e, (fe_size e + 511) div 512), sc_next = nx'\<rparr>
        else \<lparr>sc_slot = sl, sc_old = old, sc_next = nx'\<rparr>)"
  by (simp add: scan_step_def Let_def)

lemma scan_step_free:
  "\<not> live sb f p \<Longrightarrow> scan_step sb f nm p \<lparr>sc_slot = sl, sc_old = old, sc_next = nx\<rparr> =
    \<lparr>sc_slot = (if sl = None then Some p else sl), sc_old = old, sc_next = nx\<rparr>"
  by (simp add: scan_step_def Let_def)

lemma word_max:
  "n < 2 ^ 32 \<Longrightarrow> (if w > of_nat n then w else of_nat n :: u32) = of_nat (max n (unat w))"
  by (auto simp: word_less_nat_alt of_nat_unat_small max_def)

lemma scan_fold:
  assumes "\<forall>p\<in>set ps. live sb f p \<longrightarrow> entry_ok sb cap (slot_entry sb f p)" and "cap < 2 ^ 32"
  shows "fold (scan_step sb f nm) ps (scan_start sb) =
    \<lparr>sc_slot = (case find (holds_name sb f nm) ps of
        None \<Rightarrow> find (\<lambda>p. \<not> live sb f p) ps | Some p \<Rightarrow> Some p),
     sc_old = map_option (\<lambda>p. (fe_lba (slot_entry sb f p),
       (fe_size (slot_entry sb f p) + 511) div 512)) (find (holds_name sb f nm) ps),
     sc_next = of_nat (next_free_from sb f ps)\<rparr> \<and> next_free_from sb f ps < 2 ^ 32"
  using assms(1)
proof (induction ps rule: rev_induct)
  case Nil
  then show ?case by (simp add: scan_start_def next_free_from_def)
next
  case (snoc p ps)
  let ?e = "slot_entry sb f p"
  let ?n = "next_free_from sb f ps"
  have n: "next_free_from sb f (ps @ [p]) = (if live sb f p then max ?n (entry_end ?e) else ?n)"
    by (simp add: next_free_from_def)
  show ?case
  proof (cases "live sb f p")
    case True
    let ?w = "fe_lba ?e + (fe_size ?e + 511) div 512"
    from snoc have small: "?n < 2 ^ 32" and IH: "fold (scan_step sb f nm) ps (scan_start sb) =
      \<lparr>sc_slot = (case find (holds_name sb f nm) ps of
          None \<Rightarrow> find (\<lambda>p. \<not> live sb f p) ps | Some p \<Rightarrow> Some p),
       sc_old = map_option (\<lambda>p. (fe_lba (slot_entry sb f p),
         (fe_size (slot_entry sb f p) + 511) div 512)) (find (holds_name sb f nm) ps),
       sc_next = of_nat ?n\<rparr>" by auto
    from True snoc.prems end_lba_nat [of sb cap ?e, OF _ assms(2)] have e: "unat ?w = entry_end ?e"
      by simp
    then have "next_free_from sb f (ps @ [p]) < 2 ^ 32"
      using n True small unat_u32_lt [of ?w] by simp
    moreover have "(if ?w > of_nat ?n then ?w else of_nat ?n) = of_nat (next_free_from sb f (ps @ [p]))"
      using word_max [of ?n ?w] small n True e by simp
    moreover have "holds_name sb f nm p \<longleftrightarrow> entry_name ?e = nm" using True by (simp add: holds_name_def)
    ultimately show ?thesis using True
      by (cases "find (holds_name sb f nm) ps")
        (simp_all add: IH scan_step_live Let_def find_append split: option.splits)
  next
    case False
    then have "\<not> holds_name sb f nm p" by (simp add: holds_name_def)
    with False snoc n show ?thesis
      by (auto simp: scan_step_free find_append split: option.splits)
  qed
qed

context reliable_device
begin

lemma scan_dir_eq:
  assumes "fs_ok sb cap (sec d)" and "dev_ok d" and "nul_free nm"
    and "\<forall>s\<in>set ss. s < unat (dir_sectors sb)"
  shows "\<exists>d'. scan_dir dk sb (nm @ 0 # r) ss sc d =
      Some (Some (fold (scan_step sb (sec d) nm) (List.product ss [0..<16]) sc), d') \<and>
    dev_ok d' \<and> sec d' = sec d"
  using assms
proof (induction ss arbitrary: d sc)
  case (Cons s ss)
  let ?buf = "sec d (dir_lba sb + of_nat s)"
  from Cons.prems have geo: "geometry_ok sb cap" and s: "s < unat (dir_sectors sb)"
    by (simp_all add: fs_ok_def)
  from read_E [OF Cons.prems(2) dir_sector_in(3) [OF geo s]] obtain d1 where
    d1: "dk_read dk (dir_lba sb + of_nat s) d = (Some ?buf, d1)" "dev_ok d1" "sec d1 = sec d"
    by blast
  have "scan_sector ?buf (nm @ 0 # r) s [0..<16] sc =
      Some (fold (scan_step sb (sec d) nm) (map (Pair s) [0..<16]) sc)"
    using fs_okD(2) [OF Cons.prems(1)] s
    by (intro scan_sector_eq [OF sec_length [OF Cons.prems(2)] Cons.prems(3)]) auto
  with Cons.IH [of d1] Cons.prems d1 show ?case
    by (simp add: FS_ENTRIES_PER_SECTOR_def)
qed simp

end

section \<open>Runs of sectors\<close>

lemma concat_chunks:
  "512 * n \<le> length xs \<Longrightarrow> concat (map (\<lambda>k. take 512 (drop (512 * k) xs)) [0..<n]) = take (512 * n) xs"
  by (induction n) (simp_all add: take_add add.commute [of 512])

text \<open>The contents as laid out in whole sectors.\<close>

definition padded :: "byte list \<Rightarrow> nat \<Rightarrow> nat \<Rightarrow> byte list" where
  "padded data len n = take len data @ replicate (512 * n - len) 0"

definition sectors_for :: "u32 \<Rightarrow> nat" where
  "sectors_for len = unat ((len + 511) div 512)"

lemma sectors_for_eq:
  "unat len + 511 < 2 ^ 32 \<Longrightarrow> sectors_for len = (unat len + 511) div 512"
  by (simp add: sectors_for_def unat_div unat_add_no_wrap)

lemma sectors_for_bounds:
  assumes "unat len + 511 < 2 ^ 32"
  shows "unat len \<le> 512 * sectors_for len" and "512 * sectors_for len < unat len + 512"
    and "k < sectors_for len \<Longrightarrow> 512 * k < unat len"
proof -
  have "512 * ((unat len + 511) div 512) + (unat len + 511) mod 512 = unat len + 511" by simp
  moreover have "(unat len + 511) mod 512 < 512" by simp
  ultimately show "unat len \<le> 512 * sectors_for len" "512 * sectors_for len < unat len + 512"
    "k < sectors_for len \<Longrightarrow> 512 * k < unat len"
    unfolding sectors_for_eq [OF assms] by linarith+
qed

lemma length_padded:
  "len \<le> length data \<Longrightarrow> len \<le> 512 * n \<Longrightarrow> length (padded data len n) = 512 * n"
  by (simp add: padded_def)

lemma padded_sector:
  assumes "len \<le> length data" and "512 * k < len" and "k < n" and "len \<le> 512 * n"
    and "c = (if len - 512 * k > 512 then 512 else len - 512 * k)"
  shows "take c (drop (k * 512) data) @ drop c (replicate 512 0) =
    take 512 (drop (512 * k) (padded data len n))"
proof (rule nth_equalityI)
  have kn: "512 * k + 512 \<le> 512 * n" using mult_le_mono2 [of "Suc k" n 512] assms(3) by simp
  have c: "c \<le> 512" "512 * k + c \<le> len" using assms(2,5) by (auto split: if_splits)
  have "length (padded data len n) = 512 * n" using assms by (intro length_padded)
  with kn c assms(1) show len: "length (take c (drop (k * 512) data) @ drop c (replicate 512 0)) =
      length (take 512 (drop (512 * k) (padded data len n)))"
    by (simp add: mult.commute)
  fix i assume "i < length (take c (drop (k * 512) data) @ drop c (replicate 512 (0 :: byte)))"
  with c assms(1) have i: "i < 512" by simp
  show "(take c (drop (k * 512) data) @ drop c (replicate 512 0)) ! i =
      take 512 (drop (512 * k) (padded data len n)) ! i"
  proof (cases "i < c")
    case True
    with c have "i < len - k * 512" by simp
    with True c i assms(1) kn show ?thesis by (simp add: padded_def nth_append mult.commute)
  next
    case False
    then have "\<not> i < len - k * 512" using assms(5) i by (auto split: if_splits)
    with False c i assms(1) kn show ?thesis by (simp add: padded_def nth_append mult.commute)
  qed
qed

lemma file_bytes_padded:
  assumes "unat (fe_size e) + 511 < 2 ^ 32" and "unat (fe_size e) \<le> length data"
    and "\<And>k. k < entry_sectors e \<Longrightarrow> f (fe_lba e + of_nat k) =
      take 512 (drop (512 * k) (padded data (unat (fe_size e)) (entry_sectors e)))"
  shows "file_bytes f e = take (unat (fe_size e)) data"
proof -
  let ?n = "entry_sectors e" and ?xs = "padded data (unat (fe_size e)) (entry_sectors e)"
  have n: "unat (fe_size e) \<le> 512 * ?n"
    using sectors_for_bounds(1) [OF assms(1)] by (simp add: entry_sectors_def sectors_for_def)
  have "map (\<lambda>k. f (fe_lba e + of_nat k)) [0..<?n] = map (\<lambda>k. take 512 (drop (512 * k) ?xs)) [0..<?n]"
    using assms(3) by (intro map_cong) simp_all
  moreover have "512 * ?n \<le> length ?xs" using length_padded [OF assms(2) n] by simp
  ultimately have "file_bytes f e = take (unat (fe_size e)) (take (512 * ?n) ?xs)"
    unfolding file_bytes_def by (simp only: concat_chunks)
  with n assms(2) show ?thesis by (simp add: padded_def)
qed

lemma length_concat_same:
  "\<forall>x\<in>set xss. length x = n \<Longrightarrow> length (concat xss) = n * length xss"
  by (induction xss) auto

lemma chunk_of_concat:
  "\<forall>x\<in>set xss. length x = n \<Longrightarrow> k < length xss \<Longrightarrow> take n (drop (n * k) (concat xss)) = xss ! k"
proof (induction xss arbitrary: k)
  case (Cons x xss)
  then show ?case by (cases k) auto
qed simp

lemma blit_adjacent:
  "i + length ys + length zs \<le> length xs \<Longrightarrow>
    blit (blit xs i ys) (i + length ys) zs = blit xs i (ys @ zs)"
  by (simp add: blit_def add.assoc add.commute [of "length zs"])

lemma copy_to_eq:
  "i + n \<le> length buf \<Longrightarrow> n \<le> length src \<Longrightarrow> copy_to buf i src n = Some (blit buf i (take n src))"
  by (simp add: copy_to_def memcpy_eq blit_def add.commute)

lemma run_sector_in:
  assumes "unat lba + n \<le> cap" and "cap < 2 ^ 32" and "k < n"
  shows "unat (lba + of_nat k :: u32) = unat lba + k" and "unat (lba + of_nat k :: u32) < cap"
proof -
  have "unat (of_nat k :: u32) = k" using assms by (intro of_nat_unat_small) simp
  then show "unat (lba + of_nat k :: u32) = unat lba + k" "unat (lba + of_nat k :: u32) < cap"
    using assms by (simp_all add: unat_add_no_wrap)
qed

context reliable_device
begin

lemma write_run_eq:
  assumes "dev_ok d" and "unat lba + n \<le> cap" and "cap < 2 ^ 32" and "unat len \<le> length data"
    and "unat len + 511 < 2 ^ 32" and "n = sectors_for len" and "k0 \<le> n"
  shows "\<exists>d'. write_run dk lba data len [k0..<n] d = Some (True, d') \<and> dev_ok d' \<and>
    (\<forall>l. unat l < cap \<and> (unat l < unat lba + k0 \<or> unat lba + n \<le> unat l) \<longrightarrow> sec d' l = sec d l) \<and>
    (\<forall>k. k0 \<le> k \<and> k < n \<longrightarrow>
      sec d' (lba + of_nat k) = take 512 (drop (512 * k) (padded data (unat len) n)))"
  using assms(1,7)
proof (induction "n - k0" arbitrary: k0 d)
  case 0
  then show ?case by auto
next
  case (Suc m)
  then have k0: "k0 < n" by simp
  have k512: "512 * k0 < unat len" "unat len \<le> 512 * n"
    using sectors_for_bounds [OF assms(5)] k0 assms(6) by auto
  have "512 * k0 < 4294967296" using less_trans [OF k512(1) unat_u32_lt] by simp
  then have w: "unat (of_nat k0 * 512 :: u32) = 512 * k0"
    using of_nat_unat_small [of k0] by (simp add: unat_word_ariths mult.commute)
  let ?c = "unat len - 512 * k0"
  have sub: "unat (len - of_nat k0 * 512) = ?c"
    using k512 w by (simp add: unat_sub_no_wrap word_le_nat_alt)
  let ?chunk = "if len - of_nat k0 * 512 > 512 then 512 else len - of_nat k0 * 512"
  have chunk: "unat ?chunk = (if ?c > 512 then 512 else ?c)"
    using sub by (simp add: word_less_nat_alt)
  let ?pad = "take 512 (drop (512 * k0) (padded data (unat len) n))"
  have pad: "memcpy (replicate 512 0) (drop (k0 * 512) data) (unat ?chunk) = Some ?pad"
    using padded_sector [OF assms(4) k512(1) k0 k512(2) chunk] assms(4) k512(1) chunk
    by (subst memcpy_eq) (auto split: if_splits)
  have len_pad: "length ?pad = 512"
    using length_padded [OF assms(4) k512(2)] k0 by simp
  note in_run = run_sector_in [OF assms(2,3)]
  from write_E [OF Suc.prems(1) in_run(2) [OF k0] len_pad] obtain d1 where
    d1: "dk_write dk (lba + of_nat k0) ?pad d = (True, d1)" "dev_ok d1"
      "sec d1 (lba + of_nat k0) = ?pad"
      "\<forall>l. l \<noteq> lba + of_nat k0 \<and> unat l < cap \<longrightarrow> sec d1 l = sec d l" by blast
  have "m = n - Suc k0" "Suc k0 \<le> n" using Suc.hyps(2) k0 by simp_all
  from Suc.hyps(1) [OF this(1) d1(2) this(2)] obtain d' where
    d': "write_run dk lba data len [Suc k0..<n] d1 = Some (True, d')" "dev_ok d'"
      "\<forall>l. unat l < cap \<and> (unat l < unat lba + Suc k0 \<or> unat lba + n \<le> unat l) \<longrightarrow> sec d' l = sec d1 l"
      "\<forall>k. Suc k0 \<le> k \<and> k < n \<longrightarrow>
        sec d' (lba + of_nat k) = take 512 (drop (512 * k) (padded data (unat len) n))"
    by blast
  have "write_run dk lba data len [k0..<n] d = Some (True, d')"
    using d1(1) d'(1) pad by (simp add: upt_conv_Cons [OF k0] Let_def)
  moreover have "sec d' l = sec d l"
    if "unat l < cap" "unat l < unat lba + k0 \<or> unat lba + n \<le> unat l" for l
  proof -
    from that in_run(1) [OF k0] k0 have "l \<noteq> lba + of_nat k0" by auto
    with that d1(4) d'(3) show ?thesis by auto
  qed
  moreover have "sec d' (lba + of_nat k) = take 512 (drop (512 * k) (padded data (unat len) n))"
    if "k0 \<le> k" "k < n" for k
  proof (cases "k = k0")
    case True
    have "sec d' (lba + of_nat k0) = sec d1 (lba + of_nat k0)"
      using d'(3) in_run [OF k0] by simp
    with True d1(3) show ?thesis by simp
  qed (use that d'(4) in auto)
  ultimately show ?case using d'(2) by blast
qed

lemma read_run_eq:
  assumes "dev_ok d" and "unat lba + m \<le> cap" and "cap < 2 ^ 32"
    and "512 dvd unat off \<or> len = 0" and "unat off + unat len \<le> 512 * m"
    and "unat off + unat len \<le> length buf" and "unat off + unat len < 2 ^ 32"
  shows "\<exists>d'. read_run dk lba buf off len d = Some (True,
      blit buf (unat off) (take (unat len) (drop (unat off)
        (concat (map (\<lambda>k. sec d (lba + of_nat k)) [0..<m])))), off + len, d') \<and>
    dev_ok d' \<and> sec d' = sec d"
  using assms(1,4-7)
proof (induction "unat len" arbitrary: len off buf d rule: less_induct)
  case less
  let ?F = "concat (map (\<lambda>k. sec d (lba + of_nat k)) [0..<m])"
  show ?case
  proof (cases "len = 0")
    case True
    with less.prems show ?thesis by (simp add: read_run.simps)
  next
    case False
    then obtain k where k: "unat off = 512 * k" using less.prems(2) by (auto simp: dvd_def)
    from False have pos: "0 < unat len" by (simp add: unat_gt_0)
    then have km: "k < m" using less.prems(3) k by simp
    note in_run = run_sector_in [OF assms(2,3) km]
    have k_small: "k < 4294967296" using less.prems(5) k by simp
    then have "off div 512 = of_nat k"
      using k by (intro word_unat_eq_iff [THEN iffD2]) (simp add: unat_div of_nat_unat_small)
    with read_E [OF less.prems(1) in_run(2)] obtain d1 where
      d1: "dk_read dk (lba + off div 512) d = (Some (sec d (lba + of_nat k)), d1)"
        "dev_ok d1" "sec d1 = sec d" by metis
    have lens: "\<forall>x\<in>set (map (\<lambda>k. sec d (lba + of_nat k)) [0..<m]). length x = 512"
      using sec_length [OF less.prems(1)] by auto
    have F: "take 512 (drop (512 * k) ?F) = sec d (lba + of_nat k)" "length ?F = 512 * m"
      using chunk_of_concat [OF lens, of k] length_concat_same [OF lens] km by simp_all
    let ?n = "if len < 512 then len else 512"
    have n: "unat ?n = min (unat len) 512" by (simp add: word_less_nat_alt min_def)
    have off': "unat (off + ?n) = unat off + unat ?n"
      using less.prems(5) n by (simp add: unat_add_no_wrap)
    have len': "unat (len - ?n) = unat len - unat ?n" "unat (len - ?n) < unat len"
      using n pos by (simp_all add: unat_sub_no_wrap word_le_nat_alt)
    let ?A = "take (unat ?n) (sec d (lba + of_nat k))"
    have lenA: "length ?A = unat ?n" using n sec_length [OF less.prems(1)] by simp
    let ?buf = "blit buf (unat off) ?A"
    have cp: "copy_to buf (unat off) (sec d (lba + of_nat k)) (unat ?n) = Some ?buf"
      using less.prems(4) n sec_length [OF less.prems(1)] by (intro copy_to_eq) auto
    have dvd: "512 dvd unat (off + ?n) \<or> len - ?n = 0"
      using off' k n len' by (cases "len < 512") (auto simp: word_less_nat_alt)
    have room: "unat (off + ?n) + unat (len - ?n) = unat off + unat len"
      using off' len' n by simp
    have "length ?buf = length buf" using lenA n less.prems(4) by simp
    with less.hyps [OF len'(2) d1(2) dvd, of ?buf] room less.prems(3-5) obtain d' where
      d': "read_run dk lba ?buf (off + ?n) (len - ?n) d1 = Some (True,
          blit ?buf (unat (off + ?n)) (take (unat (len - ?n)) (drop (unat (off + ?n)) ?F)),
          off + len, d')" "dev_ok d'" "sec d' = sec d"
      by (auto simp: d1(3))
    have A: "?A = take (unat ?n) (drop (unat off) ?F)"
      using n unfolding F(1) [symmetric] k by (simp add: min_def)
    have "blit ?buf (unat (off + ?n)) (take (unat (len - ?n)) (drop (unat (off + ?n)) ?F)) =
        blit buf (unat off) (?A @ take (unat (len - ?n)) (drop (unat (off + ?n)) ?F))"
      using blit_adjacent [of "unat off" ?A "take (unat (len - ?n)) (drop (unat (off + ?n)) ?F)" buf]
        lenA off' room F(2) less.prems(3,4) by simp
    also have "?A @ take (unat (len - ?n)) (drop (unat (off + ?n)) ?F) =
        take (unat ?n + unat (len - ?n)) (drop (unat off) ?F)"
      unfolding A off' take_add by (simp add: add.commute)
    also have "unat ?n + unat (len - ?n) = unat len" using len' n by simp
    finally have "blit ?buf (unat (off + ?n)) (take (unat (len - ?n)) (drop (unat (off + ?n)) ?F)) =
        blit buf (unat off) (take (unat len) (drop (unat off) ?F))" .
    with d' show ?thesis using False d1(1) cp
      by (subst read_run.simps) (simp add: Let_def)
  qed
qed

lemma fs_read_eq:
  assumes "fs_ok sb cap (sec d)" and "dev_ok d" and "nul_free nm"
    and "lookup sb (sec d) nm = Some e" and "entry_ok sb cap e"
    and "fe_size e \<le> max_len" and "unat (fe_size e) \<le> length buf"
  shows "\<exists>d'. fs_read dk sb (nm @ 0 # r) buf max_len d =
      Some (sint (fe_size e), blit buf 0 (file_bytes (sec d) e), d') \<and> dev_ok d' \<and> sec d' = sec d"
proof -
  from fs_find_eq [OF assms(1-3)] obtain d1 where
    d1: "fs_find dk sb (nm @ 0 # r) d = Some (Some e, d1)" "dev_ok d1" "sec d1 = sec d"
    using assms(4) by metis
  have "cap < 2 ^ 32" using assms(1) by (simp add: fs_ok_def geometry_ok_def)
  moreover have "unat (fe_lba e) + entry_sectors e \<le> cap" "unat (fe_size e) + 511 < 2 ^ 32"
    using assms(5) by (simp_all add: entry_ok_def)
  moreover from sectors_for_bounds(1) [OF this(2)] have "unat (fe_size e) \<le> 512 * entry_sectors e"
    by (simp add: entry_sectors_def sectors_for_def)
  ultimately obtain d2 where
    "read_run dk (fe_lba e) buf 0 (fe_size e) d1 =
      Some (True, blit buf 0 (file_bytes (sec d) e), fe_size e, d2)" "dev_ok d2" "sec d2 = sec d"
    using read_run_eq [OF d1(2), of "fe_lba e" "entry_sectors e" 0 "fe_size e" buf] assms(7) d1(3)
    by (auto simp: file_bytes_def)
  moreover have "\<not> max_len < fe_size e" using assms(6) by simp
  ultimately show ?thesis using d1(1) by (simp add: fs_read_def)
qed

lemma store_entry_eq:
  assumes "geometry_ok sb cap" and "dev_ok d" and "p \<in> set (slots sb)" and "length (fe_name e) = 23"
  shows "\<exists>d'. store_entry dk sb p e d = (0, d') \<and> dev_ok d' \<and>
    (\<forall>l. unat l < cap \<and> l \<noteq> dir_lba sb + of_nat (fst p) \<longrightarrow> sec d' l = sec d l) \<and>
    sec d' (dir_lba sb + of_nat (fst p)) =
      put_entry (sec d (dir_lba sb + of_nat (fst p))) (snd p) e"
proof -
  let ?l = "dir_lba sb + of_nat (fst p)"
  obtain s i where "p = (s, i)" by (cases p)
  with assms(3) have p: "fst p < unat (dir_sectors sb)" "snd p < 16" by simp_all
  from read_E [OF assms(2) dir_sector_in(3) [OF assms(1) p(1)]] obtain d1 where
    d1: "dk_read dk ?l d = (Some (sec d ?l), d1)" "dev_ok d1" "sec d1 = sec d" by blast
  have "length (put_entry (sec d ?l) (snd p) e) = 512"
    using assms(4) p(2) sec_length [OF assms(2)] by simp
  from write_E [OF d1(2) dir_sector_in(3) [OF assms(1) p(1)] this] obtain d2 where
    "dk_write dk ?l (put_entry (sec d ?l) (snd p) e) d1 = (True, d2)" "dev_ok d2"
    "sec d2 ?l = put_entry (sec d ?l) (snd p) e"
    "\<forall>l. l \<noteq> ?l \<and> unat l < cap \<longrightarrow> sec d2 l = sec d1 l" by blast
  with d1 show ?thesis by (simp add: store_entry_def)
qed

end

section \<open>What a write does to the disk\<close>

lemma slot_entry_cong:
  "f (dir_lba sb + of_nat (fst p)) = g (dir_lba sb + of_nat (fst p)) \<Longrightarrow>
    slot_entry sb f p = slot_entry sb g p"
  by (simp add: slot_entry_def)

lemma file_bytes_cong:
  "(\<And>k. k < entry_sectors e \<Longrightarrow> f (fe_lba e + of_nat k) = g (fe_lba e + of_nat k)) \<Longrightarrow>
    file_bytes f e = file_bytes g e"
  unfolding file_bytes_def by (intro arg_cong [where f = "take _"] arg_cong [where f = concat] map_cong) auto

lemma find_Some_in: "find P xs = Some x \<Longrightarrow> P x \<and> x \<in> set xs"
  by (induction xs) (auto split: if_splits)

lemma find_None_all: "find P xs = None \<longleftrightarrow> (\<forall>x\<in>set xs. \<not> P x)"
  by (induction xs) auto

lemma find_unique:
  "x \<in> set xs \<Longrightarrow> P x \<Longrightarrow> (\<And>y. y \<in> set xs \<Longrightarrow> P y \<Longrightarrow> y = x) \<Longrightarrow> find P xs = Some x"
  using find_Some_in [of P xs] find_None_all [of P xs] by (metis not_Some_eq)

lemma find_cong_set: "(\<And>x. x \<in> set xs \<Longrightarrow> P x \<longleftrightarrow> Q x) \<Longrightarrow> find P xs = find Q xs"
  by (induction xs) auto

lemma holds_name_unique:
  "fs_ok sb cap f \<Longrightarrow> p \<in> set (slots sb) \<Longrightarrow> q \<in> set (slots sb) \<Longrightarrow>
    holds_name sb f nm p \<Longrightarrow> holds_name sb f nm q \<Longrightarrow> p = q"
  by (auto simp: fs_ok_def holds_name_def apart_def)

text \<open>The entry a write stores, and the sectors it may use for the contents.\<close>

definition new_entry :: "byte list \<Rightarrow> byte \<Rightarrow> u32 \<Rightarrow> u32 \<Rightarrow> file_entry" where
  "new_entry nm type lba len =
     \<lparr>fe_name = nm @ replicate (23 - length nm) 0, fe_type = type, fe_lba = lba, fe_size = len\<rparr>"

definition write_place :: "superblock \<Rightarrow> nat \<Rightarrow> (u32 \<Rightarrow> byte list) \<Rightarrow> byte list \<Rightarrow> nat \<times> nat \<Rightarrow> u32 \<Rightarrow> nat \<Rightarrow> bool" where
  "write_place sb cap f nm p lba n \<longleftrightarrow> p \<in> set (slots sb) \<and>
     data_lba sb \<le> lba \<and> unat lba + n \<le> cap \<and>
     (\<forall>q\<in>set (slots sb). q \<noteq> p \<longrightarrow> live sb f q \<longrightarrow>
        entry_name (slot_entry sb f q) \<noteq> nm \<and>
        (unat lba + n \<le> unat (fe_lba (slot_entry sb f q)) \<or>
         entry_end (slot_entry sb f q) \<le> unat lba)) \<and>
     (live sb f p \<longrightarrow> entry_name (slot_entry sb f p) = nm)"

lemma new_entry_simps:
  assumes "nul_free nm" and "nm \<noteq> []" and "length nm < 23"
  shows "length (fe_name (new_entry nm type lba len)) = 23"
    and "name_ok (new_entry nm type lba len)" and "entry_name (new_entry nm type lba len) = nm"
    and "\<not> entry_free (new_entry nm type lba len)"
proof -
  have "23 - length nm = Suc (22 - length nm)" using assms(3) by simp
  then have r: "replicate (23 - length nm) (0 :: byte) = 0 # replicate (22 - length nm) 0" by simp
  show "length (fe_name (new_entry nm type lba len)) = 23"
    "name_ok (new_entry nm type lba len)" "entry_name (new_entry nm type lba len) = nm"
    using assms by (simp_all add: new_entry_def name_ok_def entry_name_def r)
  show "\<not> entry_free (new_entry nm type lba len)"
    using assms by (cases nm) (simp_all add: entry_free_def new_entry_def)
qed

end
