(* ===== verification/FsWrite.thy ===== *)
theory FsWrite
  imports FsSpec
begin

text \<open>
  One file write: the new entry goes into the slot that has the name or the first free one, the
  contents into the old sectors when they fit and behind every used sector otherwise. The lemmas
  show that this updates the map of files at the one name, keeps the disk consistent, and that
  write_file of Fs.thy does exactly this.
\<close>

lemma slot_pair: "q \<in> set (slots sb) \<Longrightarrow> fst q < unat (dir_sectors sb) \<and> snd q < 16"
  by (cases q) simp

lemma next_free_bounds:
  "unat (data_lba sb) \<le> next_free_from sb f ps"
  "q \<in> set ps \<Longrightarrow> live sb f q \<Longrightarrow> entry_end (slot_entry sb f q) \<le> next_free_from sb f ps"
  "unat (data_lba sb) \<le> B \<Longrightarrow> (\<And>q. q \<in> set ps \<Longrightarrow> live sb f q \<Longrightarrow> entry_end (slot_entry sb f q) \<le> B) \<Longrightarrow>
    next_free_from sb f ps \<le> B"
  by (induction ps rule: rev_induct) (auto simp: next_free_from_def)

text \<open>The disk \<open>f2\<close> is the disk \<open>f0\<close> with the entry \<open>e\<close> in slot \<open>p\<close> and \<open>data\<close> in its sectors.\<close>

definition stored :: "superblock \<Rightarrow> nat \<Rightarrow> (u32 \<Rightarrow> byte list) \<Rightarrow> (u32 \<Rightarrow> byte list) \<Rightarrow> nat \<times> nat \<Rightarrow>
    file_entry \<Rightarrow> byte list \<Rightarrow> bool" where
  "stored sb cap f0 f2 p e data \<longleftrightarrow>
     (let dir = dir_lba sb + of_nat (fst p)
      in f2 dir = put_entry (f0 dir) (snd p) e \<and>
         (\<forall>l. unat l < cap \<and> l \<noteq> dir \<and> (unat l < unat (fe_lba e) \<or> entry_end e \<le> unat l) \<longrightarrow>
            f2 l = f0 l) \<and>
         (\<forall>k<entry_sectors e. f2 (fe_lba e + of_nat k) =
            take 512 (drop (512 * k) (padded data (unat (fe_size e)) (entry_sectors e)))))"

text \<open>What the write relies on: the disk is consistent, and slot and sectors are fit for the entry.\<close>

definition storable :: "superblock \<Rightarrow> nat \<Rightarrow> (u32 \<Rightarrow> byte list) \<Rightarrow> byte list \<Rightarrow> nat \<times> nat \<Rightarrow> file_entry \<Rightarrow> bool" where
  "storable sb cap f nm p e \<longleftrightarrow> fs_ok sb cap f \<and> (\<forall>l. length (f l) = 512) \<and>
     entry_ok sb cap e \<and> \<not> entry_free e \<and> entry_name e = nm \<and>
     write_place sb cap f nm p (fe_lba e) (entry_sectors e)"

lemma storableD:
  assumes "storable sb cap f nm p e"
  shows "fs_ok sb cap f" "geometry_ok sb cap" "cap < 2 ^ 32" "entry_ok sb cap e" "\<not> entry_free e"
    "length (fe_name e) = 23" "entry_name e = nm" "p \<in> set (slots sb)" "data_lba sb \<le> fe_lba e"
    "unat (fe_lba e) + entry_sectors e \<le> cap" "length (f l) = 512"
    "fst p < unat (dir_sectors sb)" "snd p < 16"
    "live sb f p \<Longrightarrow> entry_name (slot_entry sb f p) = nm"
  using assms slot_pair [of p sb]
  by (auto simp: storable_def fs_ok_def geometry_ok_def write_place_def entry_ok_def name_ok_def)

lemma storable_apart:
  "storable sb cap f nm p e \<Longrightarrow> q \<in> set (slots sb) \<Longrightarrow> q \<noteq> p \<Longrightarrow> live sb f q \<Longrightarrow>
    apart e (slot_entry sb f q) \<and> apart (slot_entry sb f q) e"
  by (auto simp: storable_def write_place_def apart_def entry_end_def)

lemma data_not_dir:
  assumes "geometry_ok sb cap" and "s < unat (dir_sectors sb)" and "data_lba sb \<le> lba"
    and "unat lba + n \<le> cap" and "k < n"
  shows "lba + of_nat k \<noteq> dir_lba sb + of_nat s"
proof -
  have "cap < 2 ^ 32" using assms(1) by (simp add: geometry_ok_def)
  with run_sector_in(1) [OF assms(4) _ assms(5)] dir_sector_in(2) [OF assms(1,2)] assms(3)
  show ?thesis by (auto simp: word_le_nat_alt)
qed

lemma stored_slots:
  assumes "storable sb cap f0 nm p e" and "stored sb cap f0 f2 p e data"
  shows "slot_entry sb f2 p = e"
    and "q \<in> set (slots sb) \<Longrightarrow> q \<noteq> p \<Longrightarrow> slot_entry sb f2 q = slot_entry sb f0 q"
proof -
  note s = storableD [OF assms(1)]
  let ?dir = "dir_lba sb + of_nat (fst p)"
  from assms(2) have dir: "f2 ?dir = put_entry (f0 ?dir) (snd p) e"
    by (simp add: stored_def Let_def)
  show "slot_entry sb f2 p = e"
    using dir s by (simp add: slot_entry_def entry_at_put)
  assume q: "q \<in> set (slots sb)" "q \<noteq> p"
  show "slot_entry sb f2 q = slot_entry sb f0 q"
  proof (cases "fst q = fst p")
    case True
    with q(2) have "snd q \<noteq> snd p" by (metis prod.collapse)
    then show ?thesis
      using True dir s slot_pair [OF q(1)] by (simp add: slot_entry_def entry_at_put)
  next
    case False
    let ?l = "dir_lba sb + of_nat (fst q)"
    from slot_pair [OF q(1)] have fq: "fst q < unat (dir_sectors sb)" by simp
    from dir_sector_in(2,3) [OF s(2) fq] s(9) have "unat ?l < cap" "unat ?l < unat (fe_lba e)"
      by (auto simp: word_le_nat_alt)
    moreover have "?l \<noteq> ?dir" using dir_sector_inj [OF s(2) fq s(12)] False by simp
    ultimately have "f2 ?l = f0 ?l" using assms(2) by (simp add: stored_def Let_def)
    then show ?thesis by (rule slot_entry_cong)
  qed
qed

lemma stored_live:
  assumes "storable sb cap f0 nm p e" and "stored sb cap f0 f2 p e data" and "q \<in> set (slots sb)"
  shows "live sb f2 q \<longleftrightarrow> q = p \<or> live sb f0 q"
    and "holds_name sb f2 x q \<longleftrightarrow> (if x = nm then q = p else holds_name sb f0 x q)"
proof -
  note s = storableD [OF assms(1)] and sl = stored_slots [OF assms(1,2)]
  show l: "live sb f2 q \<longleftrightarrow> q = p \<or> live sb f0 q"
    using sl s(5) assms(3) by (cases "q = p") (simp_all add: live_def)
  show "holds_name sb f2 x q \<longleftrightarrow> (if x = nm then q = p else holds_name sb f0 x q)"
  proof (cases "q = p")
    case True
    then show ?thesis using l sl(1) s(7,14) by (auto simp: holds_name_def)
  next
    case False
    then show ?thesis
      using l sl(2) assms(3) storable_apart [OF assms(1,3) False] s(7)
      by (auto simp: holds_name_def apart_def)
  qed
qed

lemma stored_ok:
  assumes "storable sb cap f0 nm p e" and "stored sb cap f0 f2 p e data"
  shows "fs_ok sb cap f2"
proof -
  note s = storableD [OF assms(1)] and sl = stored_slots [OF assms] and lv = stored_live [OF assms]
  have "entry_ok sb cap (slot_entry sb f2 q)" if "q \<in> set (slots sb)" "live sb f2 q" for q
    using that sl lv(1) s(4) fs_okD(1) [OF s(1)] by (cases "q = p") simp_all
  moreover have "apart (slot_entry sb f2 q) (slot_entry sb f2 q')"
    if q: "q \<in> set (slots sb)" "q' \<in> set (slots sb)" "q \<noteq> q'" "live sb f2 q" "live sb f2 q'" for q q'
  proof -
    have "q \<noteq> p \<Longrightarrow> live sb f0 q \<and> slot_entry sb f2 q = slot_entry sb f0 q"
      "q' \<noteq> p \<Longrightarrow> live sb f0 q' \<and> slot_entry sb f2 q' = slot_entry sb f0 q'"
      using q sl(2) lv(1) by blast+
    then consider "q = p" "live sb f0 q'" "slot_entry sb f2 q' = slot_entry sb f0 q'"
      | "q' = p" "live sb f0 q" "slot_entry sb f2 q = slot_entry sb f0 q"
      | "live sb f0 q" "slot_entry sb f2 q = slot_entry sb f0 q"
        "live sb f0 q'" "slot_entry sb f2 q' = slot_entry sb f0 q'"
      using q(3) by blast
    then show ?thesis
    proof cases
      case 1
      with storable_apart [OF assms(1) q(2)] q(3) sl(1) show ?thesis by simp
    next
      case 2
      with storable_apart [OF assms(1) q(1)] q(3) sl(1) show ?thesis by simp
    next
      case 3
      with q(1-3) s(1) show ?thesis by (simp add: fs_ok_def)
    qed
  qed
  ultimately show ?thesis using s(2) by (simp add: fs_ok_def)
qed

lemma stored_bytes:
  assumes "storable sb cap f0 nm p e" and "stored sb cap f0 f2 p e data"
  shows "unat (fe_size e) \<le> length data \<Longrightarrow> file_bytes f2 e = take (unat (fe_size e)) data"
    and "q \<in> set (slots sb) \<Longrightarrow> q \<noteq> p \<Longrightarrow> live sb f0 q \<Longrightarrow>
      file_bytes f2 (slot_entry sb f0 q) = file_bytes f0 (slot_entry sb f0 q)"
proof -
  note s = storableD [OF assms(1)]
  show "file_bytes f2 e = take (unat (fe_size e)) data" if "unat (fe_size e) \<le> length data"
    using that s(4) assms(2) by (intro file_bytes_padded) (simp_all add: entry_ok_def stored_def Let_def)
  assume q: "q \<in> set (slots sb)" "q \<noteq> p" "live sb f0 q"
  let ?q = "slot_entry sb f0 q"
  from fs_okD(1) [OF s(1) q(1,3)]
  have eq: "data_lba sb \<le> fe_lba ?q" "unat (fe_lba ?q) + entry_sectors ?q \<le> cap"
    by (simp_all add: entry_ok_def)
  show "file_bytes f2 ?q = file_bytes f0 ?q"
  proof (rule file_bytes_cong)
    fix k assume k: "k < entry_sectors ?q"
    note in_run = run_sector_in [OF eq(2) s(3) k]
    from storable_apart [OF assms(1) q] in_run(1) k
    have "unat (fe_lba ?q + of_nat k) < unat (fe_lba e) \<or> entry_end e \<le> unat (fe_lba ?q + of_nat k)"
      by (auto simp: apart_def entry_end_def)
    with assms(2) in_run(2) data_not_dir [OF s(2,12) eq k]
    show "f2 (fe_lba ?q + of_nat k) = f0 (fe_lba ?q + of_nat k)"
      by (simp add: stored_def Let_def)
  qed
qed

lemma stored_lookup:
  assumes "storable sb cap f0 nm p e" and "stored sb cap f0 f2 p e data"
  shows "lookup sb f2 x = (if x = nm then Some e else lookup sb f0 x)"
proof -
  note s = storableD [OF assms(1)] and sl = stored_slots [OF assms] and lv = stored_live [OF assms]
  have same: "slot_entry sb f2 q = slot_entry sb f0 q"
    if "find (holds_name sb f0 x) (slots sb) = Some q" "x \<noteq> nm" for q
  proof -
    from find_Some_in [OF that(1)] have q: "q \<in> set (slots sb)" "live sb f0 q"
      "entry_name (slot_entry sb f0 q) = x" by (simp_all add: holds_name_def)
    with s(14) that(2) have "q \<noteq> p" by blast
    with q(1) show ?thesis by (rule sl(2))
  qed
  show ?thesis
  proof (cases "x = nm")
    case True
    have "find (holds_name sb f2 nm) (slots sb) = Some p"
      using lv(2) [of _ nm] s(8) by (intro find_unique) simp_all
    with True sl(1) show ?thesis by (simp add: lookup_def)
  next
    case False
    then have fnd: "find (holds_name sb f2 x) (slots sb) = find (holds_name sb f0 x) (slots sb)"
      using lv(2) by (intro find_cong_set) auto
    show ?thesis
    proof (cases "find (holds_name sb f0 x) (slots sb)")
      case (Some q)
      with fnd False same [OF Some False] show ?thesis by (simp add: lookup_def)
    qed (use fnd False in \<open>simp add: lookup_def\<close>)
  qed
qed

lemma lookup_Some_slot:
  assumes "lookup sb f x = Some e"
  obtains q where "q \<in> set (slots sb)" "live sb f q" "slot_entry sb f q = e" "entry_name e = x"
  using assms find_Some_in [of "holds_name sb f x" "slots sb"]
  by (auto simp: lookup_def holds_name_def)

lemma stored_files:
  assumes "storable sb cap f0 nm p e" and "stored sb cap f0 f2 p e data"
    and "unat (fe_size e) \<le> length data"
  shows "files sb f2 = (files sb f0)(nm \<mapsto> (fe_type e, take (unat (fe_size e)) data))"
proof
  fix x
  note lk = stored_lookup [OF assms(1,2), of x] and b = stored_bytes [OF assms(1,2)]
  show "files sb f2 x = ((files sb f0)(nm \<mapsto> (fe_type e, take (unat (fe_size e)) data))) x"
  proof (cases "x = nm \<or> lookup sb f0 x = None")
    case True
    with lk b(1) [OF assms(3)] show ?thesis by (auto simp: files_def)
  next
    case False
    then obtain e' where e': "lookup sb f0 x = Some e'" and x: "x \<noteq> nm" by auto
    from e' obtain q where q: "q \<in> set (slots sb)" "live sb f0 q" "slot_entry sb f0 q = e'"
      "entry_name e' = x" by (rule lookup_Some_slot)
    with x storableD(14) [OF assms(1)] have "q \<noteq> p" by auto
    with lk b(2) [OF q(1) _ q(2)] q e' x show ?thesis by (simp add: files_def)
  qed
qed

lemma stored_next_free:
  assumes "storable sb cap f0 nm p e" and "stored sb cap f0 f2 p e data"
  shows "next_free sb f2 \<le> max (next_free sb f0) (entry_end e)"
  unfolding next_free_def
proof (rule next_free_bounds(3))
  show "unat (data_lba sb) \<le> max (next_free_from sb f0 (slots sb)) (entry_end e)"
    using next_free_bounds(1) [of sb f0 "slots sb"] by simp
  fix q assume "q \<in> set (slots sb)" "live sb f2 q"
  with stored_slots [OF assms] stored_live(1) [OF assms] next_free_bounds(2) [of q "slots sb" sb f0]
  show "entry_end (slot_entry sb f2 q) \<le> max (next_free_from sb f0 (slots sb)) (entry_end e)"
    by (cases "q = p") (auto simp: le_max_iff_disj)
qed

section \<open>Names and parents\<close>

lemma has_slash_eq: "nul_free nm \<Longrightarrow> has_slash (nm @ 0 # r) = Some (47 \<in> set nm)"
  by (induction nm) auto

lemma last_slash_eq:
  "nul_free nm \<Longrightarrow> last_slash i s (nm @ 0 # r) = Some (last_index i s nm 47)"
  by (induction nm arbitrary: i s) auto

definition parent_name :: "byte list \<Rightarrow> byte list option" where
  "parent_name nm =
     (case last_index 0 None nm 47 of
        None \<Rightarrow> None
      | Some n \<Rightarrow> if n = 0 then None else Some (take n nm))"

lemma last_index_None: "last_index i s xs x = None \<longleftrightarrow> s = None \<and> x \<notin> set xs"
  by (induction xs arbitrary: i s) auto

lemma last_index_bound:
  "last_index i s xs x = Some n \<Longrightarrow> s = Some n \<or> (i \<le> n \<and> n < i + length xs)"
  by (induction xs arbitrary: i s) (fastforce split: if_splits)+

lemma parent_name_Some:
  assumes "parent_name nm = Some q"
  shows "length q < length nm" and "q \<noteq> []" and "nul_free nm \<Longrightarrow> nul_free q" and "47 \<in> set nm"
proof -
  from assms obtain n where n: "last_index 0 None nm 47 = Some n" "n \<noteq> 0" "q = take n nm"
    by (auto simp: parent_name_def split: option.splits if_splits)
  with last_index_bound [OF n(1)] have "n < length nm" by simp
  with n show "length q < length nm" "q \<noteq> []" "nul_free nm \<Longrightarrow> nul_free q"
    by (auto simp: nul_free_def dest: in_set_takeD)
  show "47 \<in> set nm" using n(1) last_index_None [of 0 None nm 47] by auto
qed

lemma parent_name_None: "parent_name nm = None \<Longrightarrow> 47 \<in> set nm \<Longrightarrow> last_index 0 None nm 47 = Some 0"
  using last_index_None [of 0 None nm 47] by (auto simp: parent_name_def split: option.splits if_splits)

text \<open>The parent check and the parent used for the listing: one computation of the code.\<close>

lemma parent_of_eq:
  assumes "nul_free nm" and "length nm < 23" and "47 \<in> set nm"
  shows "\<exists>r'. parent_of (nm @ 0 # r) (replicate FS_MAX_NAME 0) =
    Some ((case parent_name nm of None \<Rightarrow> [] | Some q \<Rightarrow> q) @ 0 # r')"
proof -
  from assms(3) obtain n where n: "last_index 0 None nm 47 = Some n"
    using last_index_None [of 0 None nm 47] by auto
  with last_index_bound [OF n] have "n < length nm" by simp
  then have nm: "n < 23" "take n (nm @ 0 # r) = take n nm" using assms(2) by simp_all
  have "23 - n = Suc (22 - n)" using nm(1) by simp
  then have zeros: "replicate (23 - n) (0 :: byte) = 0 # replicate (22 - n) 0" by simp
  have "(take n nm @ replicate (23 - n) (0 :: byte))[n := 0] = take n nm @ 0 # replicate (22 - n) 0"
    using zeros \<open>n < length nm\<close> by (simp add: list_update_append)
  then have "parent_of (nm @ 0 # r) (replicate FS_MAX_NAME 0) = Some (take n nm @ 0 # replicate (22 - n) 0)"
    using n nm \<open>n < length nm\<close>
    by (simp add: parent_of_def last_slash_eq [OF assms(1)] FS_MAX_NAME_def memcpy_eq)
  with n show ?thesis by (auto simp: parent_name_def)
qed

context reliable_device
begin

lemma parent_missing_eq:
  assumes "fs_ok sb cap (sec d)" and "dev_ok d" and "nul_free nm" and "length nm < 23"
  shows "\<exists>d'. parent_missing dk sb (nm @ 0 # r) d =
      Some (case parent_name nm of None \<Rightarrow> False | Some q \<Rightarrow> lookup sb (sec d) q = None, d') \<and>
    dev_ok d' \<and> sec d' = sec d"
proof (cases "47 \<in> set nm")
  case False
  then have "parent_name nm = None" using parent_name_Some(4) [of nm] by (cases "parent_name nm") auto
  with False assms(2,3) show ?thesis by (simp add: parent_missing_def has_slash_eq)
next
  case True
  from parent_of_eq [OF assms(3,4) True, of r] obtain r' where
    par: "parent_of (nm @ 0 # r) (replicate FS_MAX_NAME 0) =
      Some ((case parent_name nm of None \<Rightarrow> [] | Some q \<Rightarrow> q) @ 0 # r')" by blast
  show ?thesis
  proof (cases "parent_name nm")
    case None
    with True par assms(2,3) show ?thesis by (simp add: parent_missing_def has_slash_eq)
  next
    case (Some q)
    from parent_name_Some [OF Some] assms(3) have q: "q \<noteq> []" "nul_free q" by simp_all
    then have "q ! 0 \<noteq> 0" by (cases q) simp_all
    with q have c0: "load (q @ 0 # r') 0 = Some (q ! 0)" by (cases q) simp_all
    from fs_find_eq [OF assms(1,2) q(2), of r'] obtain d' where
      "fs_find dk sb (q @ 0 # r') d = Some (lookup sb (sec d) q, d')" "dev_ok d'" "sec d' = sec d"
      by blast
    with True par Some c0 \<open>q ! 0 \<noteq> 0\<close> assms(3) show ?thesis
      by (auto simp: parent_missing_def has_slash_eq)
  qed
qed

end

section \<open>Writing a file\<close>

text \<open>Where the scan puts a file: in the slot that has the name, else in the first free one; in its
  old sectors when the new contents fit, else behind everything.\<close>

definition chosen_slot :: "superblock \<Rightarrow> (u32 \<Rightarrow> byte list) \<Rightarrow> byte list \<Rightarrow> (nat \<times> nat) option" where
  "chosen_slot sb f nm =
     (case find (holds_name sb f nm) (slots sb) of
        None \<Rightarrow> find (\<lambda>p. \<not> live sb f p) (slots sb) | Some p \<Rightarrow> Some p)"

definition chosen_lba :: "superblock \<Rightarrow> (u32 \<Rightarrow> byte list) \<Rightarrow> byte list \<Rightarrow> u32 \<Rightarrow> u32" where
  "chosen_lba sb f nm len =
     (case lookup sb f nm of
        Some e \<Rightarrow> if sectors_for len \<le> entry_sectors e then fe_lba e else of_nat (next_free sb f)
      | None \<Rightarrow> of_nat (next_free sb f))"

lemma chosen_storable:
  assumes "fs_ok sb cap f" and "\<forall>l. length (f l) = 512" and "chosen_slot sb f nm = Some p"
    and nm: "nul_free nm" "nm \<noteq> []" "length nm < 23"
    and "unat len + 511 < 2 ^ 32" and "next_free sb f + sectors_for len \<le> cap"
  shows "storable sb cap f nm p (new_entry nm type (chosen_lba sb f nm len) len)"
proof -
  let ?e = "new_entry nm type (chosen_lba sb f nm len) len"
  note e = new_entry_simps [OF nm, of type "chosen_lba sb f nm len" len]
  have fields: "fe_lba ?e = chosen_lba sb f nm len" "entry_sectors ?e = sectors_for len" "fe_size ?e = len"
    by (simp_all add: new_entry_def entry_sectors_def sectors_for_def)
  have cap: "cap < 2 ^ 32" using assms(1) by (simp add: fs_ok_def geometry_ok_def)
  then have nf: "unat (of_nat (next_free sb f) :: u32) = next_free sb f"
    using assms(8) by (intro of_nat_unat_small) simp
  note bounds = next_free_bounds(1) [of sb f "slots sb", folded next_free_def]
    next_free_bounds(2) [of _ "slots sb" sb f, folded next_free_def]
  have place: "write_place sb cap f nm p (chosen_lba sb f nm len) (sectors_for len)"
  proof (cases "find (holds_name sb f nm) (slots sb)")
    case None
    with assms(3) have p: "p \<in> set (slots sb)" "\<not> live sb f p"
      using find_Some_in [of "\<lambda>p. \<not> live sb f p"] by (auto simp: chosen_slot_def)
    from None have "lookup sb f nm = None" by (simp add: lookup_def)
    then have lba: "unat (chosen_lba sb f nm len) = next_free sb f" by (simp add: chosen_lba_def nf)
    from None have "\<forall>q\<in>set (slots sb). live sb f q \<longrightarrow> entry_name (slot_entry sb f q) \<noteq> nm"
      by (auto simp: find_None_all holds_name_def)
    with p lba bounds(1,2) assms(8) show ?thesis
      by (simp add: write_place_def word_le_nat_alt)
  next
    case (Some p')
    with assms(3) have p: "holds_name sb f nm p" "p \<in> set (slots sb)"
      using find_Some_in [OF Some] by (auto simp: chosen_slot_def)
    have look: "lookup sb f nm = Some (slot_entry sb f p)"
      using Some assms(3) by (simp add: lookup_def chosen_slot_def)
    have others: "apart (slot_entry sb f p) (slot_entry sb f q)"
      if "q \<in> set (slots sb)" "q \<noteq> p" "live sb f q" for q
      using that assms(1) p by (auto simp: fs_ok_def holds_name_def)
    have ok: "entry_ok sb cap (slot_entry sb f p)" using fs_okD(1) [OF assms(1) p(2)] p(1)
      by (simp add: holds_name_def)
    show ?thesis
    proof (cases "sectors_for len \<le> entry_sectors (slot_entry sb f p)")
      case True
      then have "chosen_lba sb f nm len = fe_lba (slot_entry sb f p)" by (simp add: chosen_lba_def look)
      with True ok others p show ?thesis
        by (fastforce simp: write_place_def entry_ok_def apart_def entry_end_def holds_name_def)
    next
      case False
      then have "unat (chosen_lba sb f nm len) = next_free sb f" by (simp add: chosen_lba_def look nf)
      moreover have "entry_name (slot_entry sb f q) \<noteq> nm"
        if "q \<in> set (slots sb)" "q \<noteq> p" "live sb f q" for q
        using others [OF that] p(1) by (auto simp: apart_def holds_name_def)
      ultimately show ?thesis using p bounds assms(8)
        by (simp add: write_place_def word_le_nat_alt holds_name_def)
    qed
  qed
  then have "entry_ok sb cap ?e"
    using e(2) fields assms(7) by (simp add: entry_ok_def write_place_def)
  with assms(1,2) e(3,4) place show ?thesis by (simp add: storable_def fields)
qed

lemma stored_intro:
  assumes "storable sb cap f0 nm p e" and "\<And>l. length (f1 l) = 512"
    and "\<And>l. unat l < cap \<Longrightarrow> unat l < unat (fe_lba e) \<or> unat (fe_lba e) + entry_sectors e \<le> unat l \<Longrightarrow>
      f1 l = f0 l"
    and "\<And>k. k < entry_sectors e \<Longrightarrow> f1 (fe_lba e + of_nat k) =
      take 512 (drop (512 * k) (padded data (unat (fe_size e)) (entry_sectors e)))"
    and "\<And>l. unat l < cap \<Longrightarrow> l \<noteq> dir_lba sb + of_nat (fst p) \<Longrightarrow> f2 l = f1 l"
    and "f2 (dir_lba sb + of_nat (fst p)) = put_entry (f1 (dir_lba sb + of_nat (fst p))) (snd p) e"
  shows "stored sb cap f0 f2 p e data"
proof -
  note s = storableD [OF assms(1)]
  from dir_sector_in(2,3) [OF s(2,12)] s(9)
  have dir: "f1 (dir_lba sb + of_nat (fst p)) = f0 (dir_lba sb + of_nat (fst p))"
    by (intro assms(3)) (simp_all add: word_le_nat_alt)
  have "f2 (fe_lba e + of_nat k) =
      take 512 (drop (512 * k) (padded data (unat (fe_size e)) (entry_sectors e)))"
    if "k < entry_sectors e" for k
    using that assms(4,5) data_not_dir [OF s(2,12,9,10) that] run_sector_in(2) [OF s(10,3) that] by simp
  with assms(3,5,6) dir show ?thesis by (simp add: stored_def Let_def entry_end_def)
qed

context reliable_device
begin

lemma write_file_eq:
  assumes ok: "fs_ok sb cap (sec d)" and d: "dev_ok d"
    and nm: "nul_free nm" "nm \<noteq> []" "length nm < 23"
    and parent: "\<And>q. parent_name nm = Some q \<Longrightarrow> lookup sb (sec d) q \<noteq> None"
    and slot: "chosen_slot sb (sec d) nm = Some p"
    and len: "unat len + 511 < 2 ^ 32" "unat len \<le> length data"
    and room: "next_free sb (sec d) + sectors_for len \<le> cap"
  shows "\<exists>d'. write_file dk sb (nm @ 0 # r) type data len d = Some (0, d') \<and> dev_ok d' \<and>
    stored sb cap (sec d) (sec d') p (new_entry nm type (chosen_lba sb (sec d) nm len) len) data"
proof -
  let ?lba = "chosen_lba sb (sec d) nm len"
  let ?e = "new_entry nm type ?lba len"
  let ?n = "sectors_for len"
  have st: "storable sb cap (sec d) nm p ?e"
    using ok sec_length [OF d] slot nm len(1) room by (intro chosen_storable) auto
  note s = storableD [OF st]
  have fields: "fe_lba ?e = ?lba" "entry_sectors ?e = ?n" "fe_size ?e = len"
    by (simp_all add: new_entry_def entry_sectors_def sectors_for_def)
  from parent_missing_eq [OF ok d nm(1,3), of r] parent obtain d1 where
    d1: "parent_missing dk sb (nm @ 0 # r) d = Some (False, d1)" "dev_ok d1" "sec d1 = sec d"
    by (cases "parent_name nm") auto
  have entries: "\<forall>p\<in>set (slots sb). live sb (sec d) p \<longrightarrow> entry_ok sb cap (slot_entry sb (sec d) p)"
    using fs_okD(1) [OF ok] by blast
  let ?sc = "fold (scan_step sb (sec d) nm) (slots sb) (scan_start sb)"
  have sc: "sc_slot ?sc = Some p" "sc_next ?sc = of_nat (next_free sb (sec d))"
    "sc_old ?sc = map_option (\<lambda>e. (fe_lba e, (fe_size e + 511) div 512)) (lookup sb (sec d) nm)"
    using scan_fold [OF entries s(3), of nm] slot
    by (simp_all add: chosen_slot_def next_free_def lookup_def option.map_comp o_def)
  from scan_dir_eq [of sb d1 nm "dir_range sb" r "scan_start sb"] ok d1(2,3) nm(1) obtain d2 where
    d2: "scan_dir dk sb (nm @ 0 # r) (dir_range sb) (scan_start sb) d1 = Some (Some ?sc, d2)"
      "dev_ok d2" "sec d2 = sec d"
    by (auto simp: dir_range_def slots_def)
  have lba: "(case sc_old ?sc of
      Some (old_lba, old_cap) \<Rightarrow> if (len + 511) div 512 \<le> old_cap then old_lba else sc_next ?sc
    | None \<Rightarrow> sc_next ?sc) = ?lba"
    unfolding sc chosen_lba_def
    by (simp add: entry_sectors_def sectors_for_def word_le_nat_alt split: option.splits)
  from write_run_eq [OF d2(2) _ s(3) len(2,1) refl, of ?lba 0] s(10) fields obtain d3 where
    d3: "write_run dk ?lba data len [0..<?n] d2 = Some (True, d3)" "dev_ok d3"
    "\<forall>l. unat l < cap \<and> (unat l < unat ?lba \<or> unat ?lba + ?n \<le> unat l) \<longrightarrow> sec d3 l = sec d2 l"
    "\<forall>k<?n. sec d3 (?lba + of_nat k) = take 512 (drop (512 * k) (padded data (unat len) ?n))"
    by auto
  have name: "strcpy (replicate FS_MAX_NAME 0) (nm @ 0 # r) = Some (fe_name ?e)"
  proof -
    have "23 - length nm = Suc (22 - length nm)" using nm(3) by simp
    then show ?thesis using nm
      by (simp add: strcpy_terminated FS_MAX_NAME_def new_entry_def)
  qed
  from store_entry_eq [OF s(2) d3(2) s(8,6)] obtain d4 where
    d4: "store_entry dk sb p ?e d3 = (0, d4)" "dev_ok d4"
    "\<forall>l. unat l < cap \<and> l \<noteq> dir_lba sb + of_nat (fst p) \<longrightarrow> sec d4 l = sec d3 l"
    "sec d4 (dir_lba sb + of_nat (fst p)) = put_entry (sec d3 (dir_lba sb + of_nat (fst p))) (snd p) ?e"
    by blast
  have "stored sb cap (sec d) (sec d4) p ?e data"
    using d3(3,4) d4(3,4) sec_length [OF d3(2)] d2(3)
    by (intro stored_intro [OF st, of "sec d3"]) (auto simp: fields)
  moreover have "write_file dk sb (nm @ 0 # r) type data len d = Some (0, d4)"
  proof -
    have e: "\<lparr>fe_name = fe_name ?e, fe_type = type, fe_lba = ?lba, fe_size = len\<rparr> = ?e"
      by (simp add: new_entry_def)
    show ?thesis
      using nm d1(1) d2(1) d3(1) d4(1) sc(1) lba name e
      by (simp add: write_file_def FS_MAX_NAME_def scan_start_def [symmetric] Let_def
          sectors_for_def [symmetric] lba)
  qed
  ultimately show ?thesis using d4(2) by blast
qed

end

end
