(* ===== verification/FsRefine.thy ===== *)
theory FsRefine
  imports FsWrite Ata "HOL-Library.Sublist"
begin

text \<open>
  The file system as a map from names to a type and contents: fs_write refines \<open>spec_write\<close> (the
  new file, and the listings up its path), fs_delete removes the name, fs_find and fs_read return
  what the map holds, and the error returns leave the disk alone. All of it holds over any reliable
  device; Ata.thy provides one.
\<close>

section \<open>The abstract file system\<close>

type_synonym fsmap = "byte list \<Rightarrow> (byte \<times> byte list) option"

text \<open>Writing a name updates the map and, when the name has a parent, appends the name and a newline
  to the parent's listing, unless that would reach 2048 bytes or the parent's own parent is gone.\<close>

function spec_write :: "fsmap \<Rightarrow> byte list \<Rightarrow> byte \<Rightarrow> byte list \<Rightarrow> fsmap" where
  "spec_write m nm type bs =
     (let m1 = m(nm \<mapsto> (type, bs))
      in case parent_name nm of
           None \<Rightarrow> m1
         | Some q \<Rightarrow>
             (case m1 q of
                None \<Rightarrow> m1
              | Some (_, old) \<Rightarrow>
                  if length old + length nm + 1 < 2048 \<and>
                     (case parent_name q of None \<Rightarrow> True | Some q' \<Rightarrow> m1 q' \<noteq> None)
                  then spec_write m1 q FS_DIR (old @ nm @ [10])
                  else m1))"
  by pat_completeness auto
termination
  by (relation "measure (\<lambda>(m, nm, type, bs). length nm)") (auto dest: parent_name_Some(1))

declare spec_write.simps [simp del]

lemma files_None: "files sb f x = None \<longleftrightarrow> lookup sb f x = None"
  by (simp add: files_def)

lemma length_file_bytes:
  assumes "entry_ok sb cap e" and "\<forall>l. length (f l) = 512"
  shows "length (file_bytes f e) = unat (fe_size e)"
proof -
  have "unat (fe_size e) \<le> 512 * entry_sectors e"
    using sectors_for_bounds(1) [of "fe_size e"] assms(1)
    by (simp add: entry_ok_def entry_sectors_def sectors_for_def)
  moreover have "length (concat (map (\<lambda>k. f (fe_lba e + of_nat k)) [0..<entry_sectors e])) =
      512 * entry_sectors e"
    using assms(2) by (subst length_concat_same [where n = 512]) auto
  ultimately show ?thesis by (simp add: file_bytes_def)
qed

lemma lookup_entry_ok: "fs_ok sb cap f \<Longrightarrow> lookup sb f x = Some e \<Longrightarrow> entry_ok sb cap e"
  using fs_okD(1) [of sb cap f] by (auto elim!: lookup_Some_slot)

lemma chosen_slot_of_lookup: "lookup sb f x \<noteq> None \<Longrightarrow> chosen_slot sb f x \<noteq> None"
  by (auto simp: lookup_def chosen_slot_def)

lemma chosen_slot_live: "lookup sb f x = Some e \<Longrightarrow> chosen_slot sb f x = Some p \<Longrightarrow> live sb f p"
  using find_Some_in [of "holds_name sb f x" "slots sb"]
  by (auto simp: lookup_def chosen_slot_def holds_name_def)

lemma entry_end_chosen:
  assumes "fs_ok sb cap f" and "next_free sb f + sectors_for len \<le> cap"
  shows "entry_end (new_entry nm type (chosen_lba sb f nm len) len) \<le> next_free sb f + sectors_for len"
proof -
  have cap: "cap < 2 ^ 32" using assms(1) by (simp add: fs_ok_def geometry_ok_def)
  then have nf: "unat (of_nat (next_free sb f) :: u32) = next_free sb f"
    using assms(2) by (intro of_nat_unat_small) simp
  have "unat (fe_lba e) \<le> next_free sb f" if e: "lookup sb f nm = Some e" for e
  proof -
    from e obtain q where "q \<in> set (slots sb)" "live sb f q" "slot_entry sb f q = e"
      by (rule lookup_Some_slot)
    from next_free_bounds(2) [OF this(1,2)] this(3) show ?thesis
      by (simp add: next_free_def entry_end_def)
  qed
  then have "unat (chosen_lba sb f nm len) \<le> next_free sb f"
    by (auto simp: chosen_lba_def nf split: option.splits)
  then show ?thesis by (simp add: entry_end_def new_entry_def entry_sectors_def sectors_for_def)
qed

context reliable_device
begin

text \<open>The error branches of fs_write leave the disk as it was.\<close>

lemma write_file_missing_parent:
  assumes "fs_ok sb cap (sec d)" and "dev_ok d" and "nul_free nm" and "length nm < 23"
    and "parent_name nm = Some q" and "lookup sb (sec d) q = None"
  shows "\<exists>d'. write_file dk sb (nm @ 0 # r) type data len d = Some (-1, d') \<and> dev_ok d' \<and> sec d' = sec d"
  using parent_missing_eq [OF assms(1-4), of r] assms(3-6)
  by (auto simp: write_file_def FS_MAX_NAME_def)

lemma write_file_long_name:
  assumes "nul_free nm" and "23 \<le> length nm"
  shows "write_file dk sb (nm @ 0 # r) type data len d = Some (-1, d)"
  using assms by (simp add: write_file_def FS_MAX_NAME_def)

lemma write_file_dir_full:
  assumes "fs_ok sb cap (sec d)" and "dev_ok d" and "nul_free nm" and "length nm < 23"
    and "\<And>q. parent_name nm = Some q \<Longrightarrow> lookup sb (sec d) q \<noteq> None"
    and "chosen_slot sb (sec d) nm = None"
  shows "\<exists>d'. write_file dk sb (nm @ 0 # r) type data len d = Some (-1, d') \<and> dev_ok d' \<and> sec d' = sec d"
proof -
  from parent_missing_eq [OF assms(1-4), of r] assms(5) obtain d1 where
    d1: "parent_missing dk sb (nm @ 0 # r) d = Some (False, d1)" "dev_ok d1" "sec d1 = sec d"
    by (cases "parent_name nm") auto
  have entries: "\<forall>p\<in>set (slots sb). live sb (sec d) p \<longrightarrow> entry_ok sb cap (slot_entry sb (sec d) p)"
    and cap: "cap < 2 ^ 32"
    using fs_okD(1) [OF assms(1)] assms(1) by (auto simp: fs_ok_def geometry_ok_def)
  let ?sc = "fold (scan_step sb (sec d) nm) (slots sb) (scan_start sb)"
  have sc: "sc_slot ?sc = None"
    using scan_fold [OF entries cap, of nm] assms(6) by (simp add: chosen_slot_def)
  from scan_dir_eq [of sb d1 nm "dir_range sb" r "scan_start sb"] assms(1,3) d1(2,3) obtain d2 where
    d2: "scan_dir dk sb (nm @ 0 # r) (dir_range sb) (scan_start sb) d1 = Some (Some ?sc, d2)"
      "dev_ok d2" "sec d2 = sec d"
    by (auto simp: dir_range_def slots_def)
  have "write_file dk sb (nm @ 0 # r) type data len d = Some (-1, d2)"
    using assms(3,4) d1(1) d2(1) sc
    by (simp add: write_file_def FS_MAX_NAME_def scan_start_def [symmetric])
  with d2 show ?thesis by blast
qed

lemma append_data_eq:
  assumes "fs_ok sb cap (sec d)" and "dev_ok d" and "nul_free q" and "nul_free nm" and "length nm < 23"
    and "lookup sb (sec d) q = Some e"
  shows "\<exists>b d'. append_data dk sb (q @ 0 # r) (nm @ 0 # r') d = Some (b, d') \<and>
    dev_ok d' \<and> sec d' = sec d \<and>
    (if length (file_bytes (sec d) e) + length nm + 1 < 2048
     then \<exists>buf off. b = Some (buf, off) \<and> length buf = 2048 \<and>
       unat off = length (file_bytes (sec d) e) + length nm + 1 \<and>
       take (unat off) buf = file_bytes (sec d) e @ nm @ [10]
     else b = None)"
proof -
  let ?old = "file_bytes (sec d) e"
  from lookup_entry_ok [OF assms(1,6)] have e: "entry_ok sb cap e" .
  from length_file_bytes [OF e] sec_length [OF assms(2)] have len: "length ?old = unat (fe_size e)" by simp
  from fs_find_eq [OF assms(1-3), of r] assms(6) obtain d1 where
    d1: "fs_find dk sb (q @ 0 # r) d = Some (Some e, d1)" "dev_ok d1" "sec d1 = sec d" by auto
  show ?thesis
  proof (cases "unat (fe_size e) < 2048")
    case False
    then show ?thesis using d1 len
      by (simp add: append_data_def word_le_nat_alt)
  next
    case True
    have "cap < 2 ^ 32" using assms(1) by (simp add: fs_ok_def geometry_ok_def)
    moreover have "unat (fe_lba e) + entry_sectors e \<le> cap" "unat (fe_size e) + 511 < 2 ^ 32"
      using e by (simp_all add: entry_ok_def)
    moreover from sectors_for_bounds(1) [OF this(2)] have "unat (fe_size e) \<le> 512 * entry_sectors e"
      by (simp add: entry_sectors_def sectors_for_def)
    ultimately obtain d2 where
      d2: "read_run dk (fe_lba e) (replicate 2048 0) 0 (fe_size e) d1 =
        Some (True, blit (replicate 2048 0) 0 ?old, fe_size e, d2)" "dev_ok d2" "sec d2 = sec d"
      using read_run_eq [OF d1(2), of "fe_lba e" "entry_sectors e" 0 "fe_size e" "replicate 2048 0"]
        True d1(3)
      by (auto simp: file_bytes_def)
    have off: "unat (fe_size e + of_nat (length nm) + 1) = length ?old + length nm + 1"
      using True assms(5) len by (simp add: unat_word_ariths unat_of_nat)
    show ?thesis
    proof (cases "length ?old + length nm + 1 < 2048")
      case False
      with d1 d2 True assms(4) off len show ?thesis
        by (simp add: append_data_def word_le_nat_alt)
    next
      case fits: True
      let ?b1 = "blit (replicate 2048 0) 0 ?old"
      let ?b2 = "blit ?b1 (length ?old) nm"
      have cp: "copy_to ?b1 (unat (fe_size e)) (nm @ 0 # r') (length nm) = Some ?b2"
        using fits len by (subst copy_to_eq) auto
      have st: "store ?b2 (unat (fe_size e) + length nm) 10 = Some (?b2[length ?old + length nm := 10])"
        using fits len by simp
      have b2: "?b2 = blit (replicate 2048 0) 0 (?old @ nm)"
        using fits blit_adjacent [of 0 ?old nm "replicate 2048 0"] by simp
      have "?b2[length ?old + length nm := 10] = blit (replicate 2048 0) 0 (?old @ nm @ [10])"
        using fits blit_snoc [of 0 "?old @ nm" "replicate 2048 0" 10] by (simp add: b2)
      moreover have "take (length ?old + length nm + 1) (blit (replicate 2048 0) 0 (?old @ nm @ [10])) =
          ?old @ nm @ [10]"
        using blit_read [of 0 "?old @ nm @ [10]" "replicate 2048 0"] fits by simp
      ultimately show ?thesis
        using d1 d2 True assms(4) off fits cp st
        by (simp add: append_data_def word_le_nat_alt)
    qed
  qed
qed

lemma fs_write_fails:
  assumes "write_file dk sb name type data len d = Some (-1, d')"
  shows "fs_write dk sb name type data len d = Some (-1, d')"
  using assms by (subst fs_write.simps) simp

lemma fs_write_no_parent:
  assumes "write_file dk sb (nm @ 0 # r) type data len d = Some (0, d')"
    and "nul_free nm" and "length nm < 23" and "parent_name nm = None"
  shows "fs_write dk sb (nm @ 0 # r) type data len d = Some (0, d')"
proof (cases "47 \<in> set nm")
  case True
  from parent_of_eq [OF assms(2,3) True, of r] assms(4) True show ?thesis
    by (subst fs_write.simps) (auto simp: assms(1) has_slash_eq [OF assms(2)])
qed (subst fs_write.simps, simp add: assms(1) has_slash_eq [OF assms(2)])

lemma fs_write_parent:
  assumes "write_file dk sb (nm @ 0 # r) type data len d = Some (0, d')"
    and "nul_free nm" and "length nm < 23" and "parent_name nm = Some q"
  shows "\<exists>r'. fs_write dk sb (nm @ 0 # r) type data len d = do {
      (b, d) \<leftarrow> append_data dk sb (q @ 0 # r') (nm @ 0 # r) d';
      (case b of
         None \<Rightarrow> Some (0, d)
       | Some (buf, off) \<Rightarrow> do {
           (_, d) \<leftarrow> fs_write dk sb (q @ 0 # r') FS_DIR buf off d;
           Some (0, d) }) }"
proof -
  from parent_name_Some [OF assms(4)] assms(2) have q: "q \<noteq> []" "nul_free q" "47 \<in> set nm" by simp_all
  from parent_of_eq [OF assms(2,3) q(3), of r] assms(4) obtain r' where
    par: "parent_of (nm @ 0 # r) (replicate FS_MAX_NAME 0) = Some (q @ 0 # r')" by auto
  have "load (q @ 0 # r') 0 = Some (q ! 0)" "q ! 0 \<noteq> 0" using q by (cases q; simp)+
  then show ?thesis
    using par q(3) by (subst fs_write.simps) (auto simp: assms(1) has_slash_eq [OF assms(2)])
qed

lemma fs_write_refines:
  assumes "fs_ok sb cap (sec d)" and "dev_ok d"
    and "nul_free nm" and "nm \<noteq> []" and "length nm < 23"
    and "\<And>q. parent_name nm = Some q \<Longrightarrow> lookup sb (sec d) q \<noteq> None"
    and "chosen_slot sb (sec d) nm \<noteq> None"
    and "unat len + 511 < 2 ^ 32" and "unat len \<le> length data"
    and "next_free sb (sec d) + sectors_for len + 4 * length nm \<le> cap"
  shows "\<exists>d'. fs_write dk sb (nm @ 0 # r) type data len d = Some (0, d') \<and> dev_ok d' \<and>
    fs_ok sb cap (sec d') \<and>
    files sb (sec d') = spec_write (files sb (sec d)) nm type (take (unat len) data) \<and>
    next_free sb (sec d') \<le> next_free sb (sec d) + sectors_for len + 4 * length nm \<and>
    (\<forall>x\<in>set (slots sb). live sb (sec d') x \<longrightarrow>
       live sb (sec d) x \<or> chosen_slot sb (sec d) nm = Some x)"
  using assms
proof (induction "length nm" arbitrary: nm r type data len d rule: less_induct)
  case less
  let ?f = "sec d"
  let ?e = "new_entry nm type (chosen_lba sb ?f nm len) len"
  from less.prems(7) obtain p where p: "chosen_slot sb ?f nm = Some p" by auto
  have room: "next_free sb ?f + sectors_for len \<le> cap" using less.prems(10) by simp
  from write_file_eq [OF less.prems(1-6) p less.prems(8,9) room, of r type] obtain d1 where
    d1: "write_file dk sb (nm @ 0 # r) type data len d = Some (0, d1)" "dev_ok d1"
    and stored: "stored sb cap ?f (sec d1) p ?e data" by blast
  have st: "storable sb cap ?f nm p ?e"
    using less.prems sec_length [OF less.prems(2)] p room by (intro chosen_storable) auto
  have fields: "fe_type ?e = type" "fe_size ?e = len" by (simp_all add: new_entry_def)
  have ok1: "fs_ok sb cap (sec d1)" by (rule stored_ok [OF st stored])
  have files1: "files sb (sec d1) = (files sb ?f)(nm \<mapsto> (type, take (unat len) data))"
    using stored_files [OF st stored] less.prems(9) fields by simp
  have nf1: "next_free sb (sec d1) \<le> next_free sb ?f + sectors_for len"
    using stored_next_free [OF st stored] entry_end_chosen [OF less.prems(1) room, of nm type]
    by simp
  have live1: "live sb ?f x \<or> chosen_slot sb ?f nm = Some x"
    if "x \<in> set (slots sb)" "live sb (sec d1) x" for x
    using stored_live(1) [OF st stored that(1)] that(2) p by auto
  show ?case
  proof (cases "parent_name nm")
    case None
    with fs_write_no_parent [OF d1(1) less.prems(3,5) None] d1(2) ok1 files1 nf1 live1 show ?thesis
      by (simp add: spec_write.simps)
  next
    case (Some q)
    note q = parent_name_Some [OF Some]
    have nq: "nul_free q" "q \<noteq> []" "length q < 23" "q \<noteq> nm" using q less.prems(3,5) by auto
    from less.prems(6) [OF Some] have "files sb (sec d1) q \<noteq> None"
      using nq(4) by (simp add: files1 files_None)
    then obtain e' where e': "lookup sb (sec d1) q = Some e'" by (auto simp: files_None)
    let ?old = "file_bytes (sec d1) e'"
    from e' have m1q: "files sb (sec d1) q = Some (fe_type e', ?old)" by (simp add: files_def)
    from fs_write_parent [OF d1(1) less.prems(3,5) Some] obtain r' where
      fw: "fs_write dk sb (nm @ 0 # r) type data len d = do {
        (b, d) \<leftarrow> append_data dk sb (q @ 0 # r') (nm @ 0 # r) d1;
        (case b of None \<Rightarrow> Some (0, d)
         | Some (buf, off) \<Rightarrow> do { (_, d) \<leftarrow> fs_write dk sb (q @ 0 # r') FS_DIR buf off d; Some (0, d) }) }"
      by blast
    from append_data_eq [OF ok1 d1(2) nq(1) less.prems(3,5) e', of r' r] obtain b d2 where
      ap: "append_data dk sb (q @ 0 # r') (nm @ 0 # r) d1 = Some (b, d2)" "dev_ok d2" "sec d2 = sec d1"
      and b: "if length ?old + length nm + 1 < 2048
        then \<exists>buf off. b = Some (buf, off) \<and> length buf = 2048 \<and>
          unat off = length ?old + length nm + 1 \<and> take (unat off) buf = ?old @ nm @ [10]
        else b = None" by blast
    have spec: "spec_write (files sb ?f) nm type (take (unat len) data) =
      (if length ?old + length nm + 1 < 2048 \<and>
          (case parent_name q of None \<Rightarrow> True | Some q' \<Rightarrow> files sb (sec d1) q' \<noteq> None)
       then spec_write (files sb (sec d1)) q FS_DIR (?old @ nm @ [10]) else files sb (sec d1))"
      by (subst spec_write.simps) (simp add: Some files1 [symmetric] m1q Let_def)
    show ?thesis
    proof (cases "length ?old + length nm + 1 < 2048")
      case False
      with b have "b = None" by simp
      with fw ap False spec ok1 nf1 live1 show ?thesis by simp
    next
      case True
      with b obtain buf off where b': "b = Some (buf, off)" "length buf = 2048"
        "unat off = length ?old + length nm + 1" "take (unat off) buf = ?old @ nm @ [10]" by auto
      then have off: "unat off + 511 < 2 ^ 32" "unat off \<le> length buf" using True by simp_all
      show ?thesis
      proof (cases "case parent_name q of None \<Rightarrow> True | Some q' \<Rightarrow> files sb (sec d1) q' \<noteq> None")
        case False
        then obtain q' where "parent_name q = Some q'" "lookup sb (sec d2) q' = None"
          by (auto simp: files_None ap(3) split: option.splits)
        from write_file_missing_parent [OF _ ap(2) nq(1,3) this, of r' FS_DIR buf off] ok1 ap(3)
        obtain d3 where d3: "write_file dk sb (q @ 0 # r') FS_DIR buf off d2 = Some (-1, d3)"
          "dev_ok d3" "sec d3 = sec d1" by auto
        from fs_write_fails [OF d3(1)] fw ap(1) b'(1) spec False d3(2,3) ok1 nf1 live1
        show ?thesis by simp
      next
        case parent: True
        have four: "sectors_for off \<le> 4"
          using sectors_for_bounds(2) [OF off(1)] b'(3) True by simp
        then have room': "next_free sb (sec d2) + sectors_for off + 4 * length q \<le> cap"
          using four nf1 less.prems(10) q(1) ap(3) by simp
        have "chosen_slot sb (sec d2) q \<noteq> None"
          using chosen_slot_of_lookup [of sb "sec d1" q] e' ap(3) by simp
        moreover have "lookup sb (sec d2) q' \<noteq> None" if "parent_name q = Some q'" for q'
          using parent that ap(3) by (simp add: files_None)
        moreover have "fs_ok sb cap (sec d2)" using ok1 ap(3) by simp
        ultimately obtain d3 where
          "fs_write dk sb (q @ 0 # r') FS_DIR buf off d2 = Some (0, d3)"
          "dev_ok d3 \<and> fs_ok sb cap (sec d3)"
          "files sb (sec d3) = spec_write (files sb (sec d1)) q FS_DIR (take (unat off) buf)"
          "next_free sb (sec d3) \<le> next_free sb (sec d1) + sectors_for off + 4 * length q"
          "\<forall>x\<in>set (slots sb). live sb (sec d3) x \<longrightarrow>
             live sb (sec d1) x \<or> chosen_slot sb (sec d1) q = Some x"
          using less.hyps [OF q(1) _ ap(2) nq(1-3) _ _ off room', of r' FS_DIR] ap(3) by auto
        note d3 = this
        have "live sb (sec d1) x" if "chosen_slot sb (sec d1) q = Some x" for x
          using that e' chosen_slot_live by blast
        then have "\<forall>x\<in>set (slots sb). live sb (sec d3) x \<longrightarrow>
            live sb ?f x \<or> chosen_slot sb ?f nm = Some x"
          using d3(5) live1 by blast
        moreover have "next_free sb (sec d3) \<le> next_free sb ?f + sectors_for len + 4 * length nm"
          using d3(4) four nf1 q(1) by simp
        ultimately show ?thesis using d3(1-3) fw ap(1) b' spec True parent by simp
      qed
    qed
  qed
qed

end

section \<open>Deleting\<close>

definition freed :: "superblock \<Rightarrow> nat \<Rightarrow> (u32 \<Rightarrow> byte list) \<Rightarrow> (u32 \<Rightarrow> byte list) \<Rightarrow> nat \<times> nat \<Rightarrow> bool" where
  "freed sb cap f f2 p \<longleftrightarrow>
     (let dir = dir_lba sb + of_nat (fst p)
      in f2 dir = (f dir)[32 * snd p := 0] \<and> (\<forall>l. unat l < cap \<and> l \<noteq> dir \<longrightarrow> f2 l = f l))"

lemma freed_slots:
  assumes "fs_ok sb cap f" and "\<forall>l. length (f l) = 512" and "p \<in> set (slots sb)" and "freed sb cap f f2 p"
    and "q \<in> set (slots sb)"
  shows "live sb f2 q \<longleftrightarrow> q \<noteq> p \<and> live sb f q"
    and "q \<noteq> p \<Longrightarrow> slot_entry sb f2 q = slot_entry sb f q"
proof -
  have geo: "geometry_ok sb cap" using assms(1) by (simp add: fs_ok_def)
  note p = slot_pair [OF assms(3)] and q = slot_pair [OF assms(5)]
  let ?dir = "dir_lba sb + of_nat (fst p)" and ?l = "dir_lba sb + of_nat (fst q)"
  have dir: "f2 ?dir = (f ?dir)[32 * snd p := 0]" using assms(4) by (simp add: freed_def Let_def)
  show same: "slot_entry sb f2 q = slot_entry sb f q" if "q \<noteq> p"
  proof (cases "fst q = fst p")
    case True
    with that have "snd q \<noteq> snd p" by (metis prod.collapse)
    with True dir p q assms(2) show ?thesis by (simp add: slot_entry_def entry_at_clear)
  next
    case False
    then have "?l \<noteq> ?dir" "unat ?l < cap"
      using dir_sector_inj [OF geo] dir_sector_in(3) [OF geo] p q by auto
    with assms(4) have "f2 ?l = f ?l" by (simp add: freed_def Let_def)
    then show ?thesis by (rule slot_entry_cong)
  qed
  show "live sb f2 q \<longleftrightarrow> q \<noteq> p \<and> live sb f q"
  proof (cases "q = p")
    case True
    with dir p assms(2) show ?thesis by (simp add: live_def slot_entry_def entry_free_at)
  next
    case False
    with same show ?thesis by (simp add: live_def)
  qed
qed

lemma freed_ok:
  assumes "fs_ok sb cap f" and "\<forall>l. length (f l) = 512" and "p \<in> set (slots sb)" and "freed sb cap f f2 p"
  shows "fs_ok sb cap f2"
proof -
  note fs = freed_slots [OF assms]
  have "live sb f q \<and> slot_entry sb f2 q = slot_entry sb f q" if "q \<in> set (slots sb)" "live sb f2 q" for q
    using fs [OF that(1)] that(2) by simp
  with assms(1) show ?thesis unfolding fs_ok_def by metis
qed

lemma freed_files:
  assumes "fs_ok sb cap f" and "\<forall>l. length (f l) = 512" and "p \<in> set (slots sb)" and "freed sb cap f f2 p"
    and "holds_name sb f nm p"
  shows "files sb f2 = (files sb f)(nm := None)"
proof
  fix x
  note fs = freed_slots [OF assms(1-4)]
  have holds: "holds_name sb f2 y q \<longleftrightarrow> q \<noteq> p \<and> holds_name sb f y q" if "q \<in> set (slots sb)" for q y
    using fs [OF that] by (auto simp: holds_name_def)
  show "files sb f2 x = ((files sb f)(nm := None)) x"
  proof (cases "x = nm")
    case True
    have "find (holds_name sb f2 nm) (slots sb) = None"
      using holds holds_name_unique [OF assms(1,3) _ assms(5)] by (auto simp: find_None_all)
    with True show ?thesis by (simp add: files_def lookup_def)
  next
    case False
    have other: "q \<noteq> p" if "holds_name sb f x q" for q
      using that assms(5) False by (auto simp: holds_name_def)
    then have fnd: "find (holds_name sb f2 x) (slots sb) = find (holds_name sb f x) (slots sb)"
      using holds by (intro find_cong_set) auto
    show ?thesis
    proof (cases "find (holds_name sb f x) (slots sb)")
      case (Some q)
      from find_Some_in [OF this] have q: "holds_name sb f x q" "q \<in> set (slots sb)" by auto
      let ?e = "slot_entry sb f q"
      have geo: "geometry_ok sb cap" using assms(1) by (simp add: fs_ok_def)
      from fs_okD(1) [OF assms(1) q(2)] q(1) have e: "data_lba sb \<le> fe_lba ?e"
        "unat (fe_lba ?e) + entry_sectors ?e \<le> cap" by (simp_all add: entry_ok_def holds_name_def)
      have "file_bytes f2 ?e = file_bytes f ?e"
      proof (rule file_bytes_cong)
        fix k assume k: "k < entry_sectors ?e"
        have "unat (fe_lba ?e + of_nat k) < cap"
          using run_sector_in(2) [OF e(2) _ k] geo by (simp add: geometry_ok_def)
        with data_not_dir [OF geo _ e k] slot_pair [OF assms(3)] assms(4)
        show "f2 (fe_lba ?e + of_nat k) = f (fe_lba ?e + of_nat k)" by (simp add: freed_def Let_def)
      qed
      with fnd Some False fs(2) [OF q(2) other [OF q(1)]] show ?thesis
        by (simp add: files_def lookup_def)
    qed (use fnd False in \<open>simp add: files_def lookup_def\<close>)
  qed
qed

context reliable_device
begin

lemma fs_delete_eq:
  assumes "fs_ok sb cap (sec d)" and "dev_ok d" and "nul_free nm"
  shows "\<exists>d'. fs_delete dk sb (nm @ 0 # r) d =
      Some (if lookup sb (sec d) nm = None then -1 else 0, d') \<and> dev_ok d' \<and>
    fs_ok sb cap (sec d') \<and> files sb (sec d') = (files sb (sec d))(nm := None)"
proof -
  from locate_eq [OF assms, of "dir_range sb" r] obtain d1 where
    loc: "locate dk sb (nm @ 0 # r) (dir_range sb) d =
      Some (map_option (\<lambda>(s, i). (s, i, sec d (dir_lba sb + of_nat s)))
        (find (holds_name sb (sec d) nm) (slots sb)), d1)"
    and d1: "dev_ok d1" "sec d1 = sec d"
    by (auto simp: dir_range_def slots_def)
  show ?thesis
  proof (cases "find (holds_name sb (sec d) nm) (slots sb)")
    case None
    then have "lookup sb (sec d) nm = None" by (simp add: lookup_def)
    moreover from this have "(files sb (sec d))(nm := None) = files sb (sec d)"
      by (auto simp: files_def)
    ultimately show ?thesis using loc None d1 assms(1) by (simp add: fs_delete_def)
  next
    case (Some p)
    from find_Some_in [OF this] have p: "holds_name sb (sec d) nm p" "p \<in> set (slots sb)" by auto
    have lens: "\<forall>l. length (sec d l) = 512" using sec_length [OF assms(2)] by simp
    have geo: "geometry_ok sb cap" using assms(1) by (simp add: fs_ok_def)
    let ?dir = "dir_lba sb + of_nat (fst p)"
    note pr = slot_pair [OF p(2)]
    from write_E [OF d1(1), of ?dir "(sec d ?dir)[32 * snd p := 0]"] dir_sector_in(3) [OF geo] pr lens
    obtain d2 where d2: "dk_write dk ?dir ((sec d ?dir)[32 * snd p := 0]) d1 = (True, d2)" "dev_ok d2"
      "sec d2 ?dir = (sec d ?dir)[32 * snd p := 0]"
      "\<forall>l. l \<noteq> ?dir \<and> unat l < cap \<longrightarrow> sec d2 l = sec d1 l" by auto
    then have fr: "freed sb cap (sec d) (sec d2) p" using d1(2) by (simp add: freed_def Let_def)
    have "fs_delete dk sb (nm @ 0 # r) d = Some (0, d2)"
      using loc Some d2(1) pr lens by (simp add: fs_delete_def split_def)
    moreover have "lookup sb (sec d) nm \<noteq> None" using Some by (simp add: lookup_def)
    ultimately show ?thesis
      using d2(2) freed_ok [OF assms(1) lens p(2) fr] freed_files [OF assms(1) lens p(2) fr p(1)] by simp
  qed
qed

end

section \<open>Consequences of the specification\<close>

lemma parent_name_prefix: "parent_name nm = Some q \<Longrightarrow> strict_prefix q nm"
  using parent_name_Some(1) [of nm q]
  by (auto simp: parent_name_def take_is_prefix strict_prefix_def split: option.splits if_splits)

lemma spec_write_other: "\<not> prefix x nm \<Longrightarrow> spec_write m nm type bs x = m x"
proof (induction m nm type bs rule: spec_write.induct)
  case (1 m nm type bs)
  let ?m1 = "m(nm \<mapsto> (type, bs))"
  from 1(2) have x: "x \<noteq> nm" "?m1 x = m x" by auto
  show ?case
  proof (cases "parent_name nm")
    case None
    with x show ?thesis by (simp add: spec_write.simps Let_def)
  next
    case (Some q)
    then have "\<not> prefix x q" using parent_name_prefix [OF Some] 1(2)
      by (meson prefix_order.le_less_trans prefix_order.less_imp_le)
    show ?thesis
    proof (cases "?m1 q")
      case None
      with Some x show ?thesis by (subst spec_write.simps) (simp add: Let_def)
    next
      case (Some e)
      obtain t old where e: "e = (t, old)" by (cases e)
      note IH = 1(1) [OF refl \<open>parent_name nm = Some q\<close> Some [unfolded e] refl _ \<open>\<not> prefix x q\<close>]
      show ?thesis
      proof (cases "length old + length nm + 1 < 2048 \<and>
          (case parent_name q of None \<Rightarrow> True | Some q' \<Rightarrow> ?m1 q' \<noteq> None)")
        case True
        have "spec_write ?m1 q FS_DIR (old @ nm @ [10]) x = m x" by (rule trans [OF IH [OF True] x(2)])
        with True Some e \<open>parent_name nm = Some q\<close> show ?thesis
          by (subst spec_write.simps) (simp add: Let_def del: fun_upd_apply)
      next
        case False
        with Some e \<open>parent_name nm = Some q\<close> x show ?thesis
          by (subst spec_write.simps) (simp only: Let_def option.case prod.case if_False simp_thms)
      qed
    qed
  qed
qed

lemma spec_write_same: "spec_write m nm type bs nm = Some (type, bs)"
proof -
  have "spec_write m' q t b nm = m' nm" if "parent_name nm = Some q" for m' q t b
    using parent_name_prefix [OF that] by (intro spec_write_other) (auto simp: prefix_order.less_le_not_le)
  then show ?thesis
    by (subst spec_write.simps) (auto simp: Let_def split: option.splits)
qed

text \<open>A freshly formatted disk: no entries, the layout of the seeded image.\<close>

definition empty_sb :: superblock where
  "empty_sb = \<lparr>sb_magic = FS_MAGIC @ [0, 0], dir_lba = 200, dir_sectors = 64, data_lba = 300\<rparr>"

lemma empty_sb_simps [simp]: "dir_lba empty_sb = 200" "dir_sectors empty_sb = 64" "data_lba empty_sb = 300"
  by (simp_all add: empty_sb_def)

lemma drive_sec_blank: "drive_sec drive_blank l = replicate 512 0"
  by (simp add: drive_sec_def drive_blank_def)

lemma live_blank [simp]: "p \<in> set (slots sb) \<Longrightarrow> \<not> live sb (drive_sec drive_blank) p"
  using slot_pair [of p sb] by (simp add: live_def slot_entry_def entry_free_at drive_sec_blank)

lemma fs_ok_blank: "fs_ok empty_sb (2 ^ 28) (drive_sec drive_blank)"
  by (simp add: fs_ok_def geometry_ok_def)

lemma files_blank: "files empty_sb (drive_sec drive_blank) = Map.empty"
  by (rule ext) (simp add: files_def lookup_def find_None_all holds_name_def)

lemma next_free_blank: "next_free empty_sb (drive_sec drive_blank) \<le> 300"
  unfolding next_free_def by (rule next_free_bounds(3)) simp_all

lemma chosen_slot_free: "p \<in> set (slots sb) \<Longrightarrow> \<not> live sb f p \<Longrightarrow> chosen_slot sb f nm \<noteq> None"
  using find_None_all [of "\<lambda>p. \<not> live sb f p" "slots sb"]
  by (auto simp: chosen_slot_def split: option.splits)

lemma chosen_slot_blank: "chosen_slot empty_sb (drive_sec drive_blank) nm \<noteq> None"
  by (rule chosen_slot_free [of "(0, 0)"]) simp_all

lemma reliable_drive: "reliable_device (ata_disk drive_pio) drive_sec (2 ^ 28) drive_good"
  by (rule ata_good.reliable_device_axioms)

text \<open>A first file on it.\<close>

lemma blank_write:
  assumes "nul_free nm" and "nm \<noteq> []" and "length nm < 23" and "parent_name nm = None"
    and "unat len = length data" and "length data \<le> 65536"
  obtains d1 where
    "fs_write (ata_disk drive_pio) empty_sb (nm @ 0 # r) type data len drive_blank = Some (0, d1)"
    "drive_good d1" "fs_ok empty_sb (2 ^ 28) (drive_sec d1)"
    "files empty_sb (drive_sec d1) = [nm \<mapsto> (type, data)]"
    "next_free empty_sb (drive_sec d1) \<le> 600"
    "\<forall>x\<in>set (slots empty_sb). live empty_sb (drive_sec d1) x \<longrightarrow>
      chosen_slot empty_sb (drive_sec drive_blank) nm = Some x"
proof -
  have "unat len + 511 < 2 ^ 32" using assms(5,6) by simp
  moreover from sectors_for_bounds(2) [OF this] have "sectors_for len \<le> 128"
    using assms(5,6) by simp
  ultimately obtain d1 where
    d1: "fs_write (ata_disk drive_pio) empty_sb (nm @ 0 # r) type data len drive_blank = Some (0, d1)"
    "drive_good d1" "fs_ok empty_sb (2 ^ 28) (drive_sec d1)"
    "files empty_sb (drive_sec d1) =
      spec_write (files empty_sb (drive_sec drive_blank)) nm type (take (unat len) data)"
    "next_free empty_sb (drive_sec d1) \<le> 600"
    "\<forall>x\<in>set (slots empty_sb). live empty_sb (drive_sec d1) x \<longrightarrow>
       chosen_slot empty_sb (drive_sec drive_blank) nm = Some x"
    using ata_good.fs_write_refines [OF fs_ok_blank drive_good_blank assms(1-3), of len data r type]
      next_free_blank chosen_slot_blank [of nm] assms(3-5)
    by auto
  show thesis
    by (rule that [OF d1(1-3) _ d1(5,6)]) (simp add: d1(4) assms(4,5) spec_write.simps files_blank)
qed

text \<open>A file read back through its abstract contents.\<close>

lemma read_file_eq:
  assumes "reliable_device dk sec cap dev_ok" "fs_ok sb cap (sec d)" "dev_ok d" "nul_free nm"
    and "files sb (sec d) nm = Some (type, bs)" "length bs \<le> unat max_len" "length bs \<le> length buf"
  obtains d' where "fs_read dk sb (nm @ 0 # r) buf max_len d = Some (sint (of_nat (length bs) :: u32), bs @ drop (length bs) buf, d')"
    "sec d' = sec d"
proof -
  obtain e where e: "lookup sb (sec d) nm = Some e" "file_bytes (sec d) e = bs" using assms(5) by (auto simp: files_def)
  from lookup_entry_ok [OF assms(2) e(1)] have eo: "entry_ok sb cap e" .
  have "\<forall>l. length (sec d l) = 512"
    using block_device.sec_length [OF reliable_device.axioms(1) [OF assms(1)] assms(3)] by blast
  from length_file_bytes [OF eo this] e(2) have sz: "unat (fe_size e) = length bs" by simp
  then have "fe_size e \<le> max_len" "fe_size e = of_nat (length bs)" using assms(6) by (simp_all add: word_le_nat_alt flip: sz)
  with reliable_device.fs_read_eq [OF assms(1-4) e(1) eo, of max_len buf r] assms(7) sz
  show thesis using that by (auto simp: e(2) blit_def)
qed

section \<open>Properties\<close>

text \<open>C1: fs_write refines the abstract map. On a consistent disk with a free slot and room, it
  returns 0, keeps the disk consistent, and the files afterwards are those of \<open>spec_write\<close>: the new
  contents under the name, the name appended to its parent's listing, and so on up the path.\<close>

theorem fs_write_refinement:
  assumes "reliable_device dk sec cap dev_ok" and "fs_ok sb cap (sec d)" and "dev_ok d"
    and "nul_free nm" and "nm \<noteq> []" and "length nm < 23"
    and "\<And>q. parent_name nm = Some q \<Longrightarrow> files sb (sec d) q \<noteq> None"
    and "chosen_slot sb (sec d) nm \<noteq> None"
    and "unat len + 511 < 2 ^ 32" and "unat len \<le> length data"
    and "next_free sb (sec d) + sectors_for len + 4 * length nm \<le> cap"
  shows "\<exists>d'. fs_write dk sb (nm @ 0 # r) type data len d = Some (0, d') \<and> dev_ok d' \<and>
    fs_ok sb cap (sec d') \<and>
    files sb (sec d') = spec_write (files sb (sec d)) nm type (take (unat len) data)"
proof -
  have "lookup sb (sec d) q \<noteq> None" if "parent_name nm = Some q" for q
    using assms(7) [OF that] by (simp add: files_None)
  from reliable_device.fs_write_refines [OF assms(1-6) this assms(8-11)] show ?thesis by blast
qed

theorem fs_write_refinement_witness:
  "\<exists>d'. fs_write (ata_disk drive_pio) empty_sb (asc ''a'' @ 0 # []) FS_FILE (replicate 700 9) 700
      drive_blank = Some (0, d') \<and>
    files empty_sb (drive_sec d') = [asc ''a'' \<mapsto> (FS_FILE, replicate 700 9)]"
proof -
  have s: "sectors_for 700 = 2" by (simp add: sectors_for_def)
  have p: "parent_name (asc ''a'') = None" by (simp add: parent_name_def)
  from fs_write_refinement [OF reliable_drive fs_ok_blank drive_good_blank, of "asc ''a''" 700
      "replicate 700 9" "[]" FS_FILE] next_free_blank chosen_slot_blank s p
  show ?thesis by (auto simp: spec_write.simps files_blank)
qed


text \<open>C27: what fs_write stores, fs_read returns. After a successful write of a name, reading it into
  a large enough buffer returns the length and the bytes, and every file whose name is not a prefix
  of the written one (its directories are) is as before.\<close>

theorem fs_write_then_read:
  assumes "reliable_device dk sec cap dev_ok" and "fs_ok sb cap (sec d)" and "dev_ok d"
    and "nul_free nm" and "nm \<noteq> []" and "length nm < 23"
    and "\<And>q. parent_name nm = Some q \<Longrightarrow> files sb (sec d) q \<noteq> None"
    and "chosen_slot sb (sec d) nm \<noteq> None"
    and "unat len + 511 < 2 ^ 32" and "unat len \<le> length data"
    and "next_free sb (sec d) + sectors_for len + 4 * length nm \<le> cap"
    and "len \<le> max_len" and "unat len \<le> length buf"
  shows "\<exists>d1 d2. fs_write dk sb (nm @ 0 # r) type data len d = Some (0, d1) \<and>
    fs_read dk sb (nm @ 0 # r) buf max_len d1 =
      Some (sint len, take (unat len) data @ drop (unat len) buf, d2) \<and>
    (\<forall>x. \<not> prefix x nm \<longrightarrow> files sb (sec d2) x = files sb (sec d) x)"
proof -
  have "lookup sb (sec d) q \<noteq> None" if "parent_name nm = Some q" for q
    using assms(7) [OF that] by (simp add: files_None)
  from reliable_device.fs_write_refines [OF assms(1-6) this assms(8-11), of r type] obtain d1 where
    w: "fs_write dk sb (nm @ 0 # r) type data len d = Some (0, d1)" "dev_ok d1" "fs_ok sb cap (sec d1)"
    "files sb (sec d1) = spec_write (files sb (sec d)) nm type (take (unat len) data)" by blast
  then have "files sb (sec d1) nm = Some (type, take (unat len) data)" by (simp add: spec_write_same)
  then obtain d2 where "fs_read dk sb (nm @ 0 # r) buf max_len d1 = Some (sint len, take (unat len) data @ drop (unat len) buf, d2)" "sec d2 = sec d1"
    by (rule read_file_eq [OF assms(1) w(3,2) assms(4), of type "take (unat len) data" max_len buf r])
      (use assms(10,12,13) in \<open>simp_all add: min_def word_le_nat_alt\<close>)
  with w show ?thesis by (auto simp: spec_write_other)
qed

theorem fs_write_then_read_witness:
  "\<exists>d1 d2. fs_write (ata_disk drive_pio) empty_sb (asc ''a'' @ 0 # []) FS_FILE (replicate 700 9) 700
      drive_blank = Some (0, d1) \<and>
    fs_read (ata_disk drive_pio) empty_sb (asc ''a'' @ 0 # []) (replicate 702 1) 702 d1 =
      Some (700, replicate 700 9 @ [1, 1], d2)"
proof -
  have s: "sectors_for 700 = 2" by (simp add: sectors_for_def)
  have p: "parent_name (asc ''a'') = None" by (simp add: parent_name_def)
  have r: "replicate 2 (1 :: byte) = [1, 1]" by (simp add: numeral_2_eq_2)
  from fs_write_then_read [OF reliable_drive fs_ok_blank drive_good_blank, of "asc ''a''" 700
      "replicate 700 9" 702 "replicate 702 1" "[]" FS_FILE] next_free_blank chosen_slot_blank s p r
  show ?thesis by auto
qed

text \<open>C30: fs_delete removes exactly one name. It returns 0 when the name was there and -1 when not,
  the disk stays consistent, the name is gone and every other file keeps its type and contents.\<close>

theorem fs_delete_removes:
  assumes "reliable_device dk sec cap dev_ok" and "fs_ok sb cap (sec d)" and "dev_ok d" and "nul_free nm"
  shows "\<exists>d' d''. fs_delete dk sb (nm @ 0 # r) d =
      Some (if files sb (sec d) nm = None then -1 else 0, d') \<and>
    fs_ok sb cap (sec d') \<and> files sb (sec d') = (files sb (sec d))(nm := None) \<and>
    fs_find dk sb (nm @ 0 # r) d' = Some (None, d'')"
proof -
  from reliable_device.fs_delete_eq [OF assms, of r] obtain d' where
    d': "fs_delete dk sb (nm @ 0 # r) d = Some (if lookup sb (sec d) nm = None then -1 else 0, d')"
    "dev_ok d'" "fs_ok sb cap (sec d')" "files sb (sec d') = (files sb (sec d))(nm := None)" by blast
  then have "lookup sb (sec d') nm = None" by (simp add: files_None [symmetric])
  with reliable_device.fs_find_eq [OF assms(1) d'(3,2) assms(4), of r] d' show ?thesis
    by (auto simp: files_None)
qed

theorem fs_delete_removes_witness:
  "\<exists>d1 d2. fs_write (ata_disk drive_pio) empty_sb (asc ''a'' @ 0 # []) FS_FILE (replicate 700 9) 700
      drive_blank = Some (0, d1) \<and>
    fs_delete (ata_disk drive_pio) empty_sb (asc ''a'' @ 0 # []) d1 = Some (0, d2) \<and>
    files empty_sb (drive_sec d2) = Map.empty"
proof -
  have s: "sectors_for 700 = 2" by (simp add: sectors_for_def)
  have p: "parent_name (asc ''a'') = None" by (simp add: parent_name_def)
  from ata_good.fs_write_refines [OF fs_ok_blank drive_good_blank, of "asc ''a''" 700
      "replicate 700 9" "[]" FS_FILE] next_free_blank chosen_slot_blank s p
  obtain d1 where d1: "fs_write (ata_disk drive_pio) empty_sb (asc ''a'' @ 0 # []) FS_FILE
      (replicate 700 9) 700 drive_blank = Some (0, d1)" "drive_good d1"
    "fs_ok empty_sb (2 ^ 28) (drive_sec d1)"
    "files empty_sb (drive_sec d1) = [asc ''a'' \<mapsto> (FS_FILE, replicate 700 9)]"
    by (auto simp: spec_write.simps files_blank)
  from fs_delete_removes [OF reliable_drive d1(3,2), of "asc ''a''" "[]"] d1(1,4) show ?thesis
    by auto
qed

text \<open>C31: the error returns of fs_write. A name of 23 bytes or more, a path whose parent does not
  exist, and a new name on a full directory return -1 and leave every sector of the disk as it was.\<close>

theorem fs_write_errors:
  assumes "reliable_device dk sec cap dev_ok" and "fs_ok sb cap (sec d)" and "dev_ok d" and "nul_free nm"
    and "23 \<le> length nm \<or> (\<exists>q. parent_name nm = Some q \<and> files sb (sec d) q = None) \<or>
      chosen_slot sb (sec d) nm = None"
  shows "\<exists>d'. fs_write dk sb (nm @ 0 # r) type data len d = Some (-1, d') \<and> dev_ok d' \<and> sec d' = sec d"
proof -
  have "\<exists>d'. write_file dk sb (nm @ 0 # r) type data len d = Some (-1, d') \<and> dev_ok d' \<and> sec d' = sec d"
  proof (cases "23 \<le> length nm")
    case True
    with reliable_device.write_file_long_name [OF assms(1,4)] assms(3) show ?thesis by blast
  next
    case False
    then have len: "length nm < 23" by simp
    show ?thesis
    proof (cases "\<exists>q. parent_name nm = Some q \<and> files sb (sec d) q = None")
      case True
      then obtain q where "parent_name nm = Some q" "lookup sb (sec d) q = None" by (auto simp: files_None)
      then show ?thesis by (rule reliable_device.write_file_missing_parent [OF assms(1-4) len])
    next
      case False
      with assms(5) len have "chosen_slot sb (sec d) nm = None" by auto
      with False show ?thesis
        by (intro reliable_device.write_file_dir_full [OF assms(1-4) len]) (auto simp: files_None)
    qed
  qed
  then show ?thesis using reliable_device.fs_write_fails [OF assms(1)] by blast
qed

theorem fs_write_errors_witness:
  "\<exists>d'. fs_write (ata_disk drive_pio) empty_sb (asc ''d/a'' @ 0 # []) FS_FILE [1] 1 drive_blank =
      Some (-1, d') \<and> drive_sec d' = drive_sec drive_blank"
proof -
  have "parent_name (asc ''d/a'') = Some (asc ''d'')" by (simp add: parent_name_def)
  with fs_write_errors [OF reliable_drive fs_ok_blank drive_good_blank, of "asc ''d/a''" "[]" FS_FILE "[1]" 1]
  show ?thesis by (auto simp: files_blank)
qed

text \<open>Every write of a path adds a line to its parent. When the parent has no directory of its
  own and its listing has room, the write leaves it a directory (FS_DIR) whose contents are the old
  ones, the path and a newline. This asks neither that the path is new nor that the parent is a
  directory: rewriting a file lists it again, and writing below a regular file turns that file into
  a directory.\<close>

theorem fs_write_lists_again:
  assumes "reliable_device dk sec cap dev_ok" and "fs_ok sb cap (sec d)" and "dev_ok d"
    and "nul_free nm" and "length nm < 23"
    and "parent_name nm = Some q" and "parent_name q = None" and "files sb (sec d) q = Some (t, old)"
    and "chosen_slot sb (sec d) nm \<noteq> None" and "length old + length nm + 1 < 2048"
    and "unat len + 511 < 2 ^ 32" and "unat len \<le> length data"
    and "next_free sb (sec d) + sectors_for len + 4 * length nm \<le> cap"
  shows "\<exists>d'. fs_write dk sb (nm @ 0 # r) type data len d = Some (0, d') \<and>
    files sb (sec d') = (files sb (sec d))
      (nm \<mapsto> (type, take (unat len) data), q \<mapsto> (FS_DIR, old @ nm @ [10]))"
proof -
  have ne: "nm \<noteq> []" "q \<noteq> nm" using parent_name_Some(1) [OF assms(6)] by auto
  have "lookup sb (sec d) q' \<noteq> None" if "parent_name nm = Some q'" for q' using that assms(6,8) by (auto simp flip: files_None)
  from reliable_device.fs_write_refines [OF assms(1-4) ne(1) assms(5) this assms(9,11-13), of r type]
  show ?thesis using assms(6-8,10) ne(2) by (auto simp: spec_write.simps Let_def)
qed

theorem fs_write_lists_again_witness:
  "\<exists>d1 d2. fs_write (ata_disk drive_pio) empty_sb (asc ''d'' @ 0 # []) FS_FILE [7] 1 drive_blank =
      Some (0, d1) \<and>
    fs_write (ata_disk drive_pio) empty_sb (asc ''d/f'' @ 0 # []) FS_FILE [9] 1 d1 = Some (0, d2) \<and>
    files empty_sb (drive_sec d2) (asc ''d'') = Some (FS_DIR, [7] @ asc ''d/f'' @ [10])"
proof -
  have s: "sectors_for 1 = 1" by (simp add: sectors_for_def)
  have p: "parent_name (asc ''d'') = None" "parent_name (asc ''d/f'') = Some (asc ''d'')"
    by (simp_all add: parent_name_def)
  from ata_good.fs_write_refines [OF fs_ok_blank drive_good_blank, of "asc ''d''" 1 "[7]" "[]" FS_FILE]
    next_free_blank chosen_slot_blank s p
  obtain d1 where d1: "fs_write (ata_disk drive_pio) empty_sb (asc ''d'' @ 0 # []) FS_FILE [7] 1
      drive_blank = Some (0, d1)" "drive_good d1" "fs_ok empty_sb (2 ^ 28) (drive_sec d1)"
    "files empty_sb (drive_sec d1) = [asc ''d'' \<mapsto> (FS_FILE, [7])]"
    "next_free empty_sb (drive_sec d1) \<le> 305"
    "\<forall>x\<in>set (slots empty_sb). live empty_sb (drive_sec d1) x \<longrightarrow>
      chosen_slot empty_sb (drive_sec drive_blank) (asc ''d'') = Some x"
    by (auto simp: spec_write.simps files_blank)
  have "\<exists>x\<in>set (slots empty_sb). \<not> live empty_sb (drive_sec d1) x"
  proof (cases "live empty_sb (drive_sec d1) (0, 0)")
    case True
    then have "chosen_slot empty_sb (drive_sec drive_blank) (asc ''d'') = Some (0, 0)"
      using d1(6) by simp
    then have "\<not> live empty_sb (drive_sec d1) (0, 1)"
      using bspec [OF d1(6), of "(0, 1)"] by auto
    then show ?thesis by (intro bexI [of _ "(0, 1)"]) simp_all
  qed (auto intro: bexI [of _ "(0, 0)"])
  then have "chosen_slot empty_sb (drive_sec d1) (asc ''d/f'') \<noteq> None"
    using chosen_slot_free by blast
  with fs_write_lists_again [OF reliable_drive d1(3,2), of "asc ''d/f''" "asc ''d''" FS_FILE "[7]" 1 "[9]"
      "[]" FS_FILE] d1 s p
  show ?thesis by auto
qed

end
