(* ===== verification/FsList.thy ===== *)
theory FsList
  imports FsRefine
begin

text \<open>
  fs_cat, fs_ls and fs_ls_buf of drivers/fs.c: the loops that show a file or a directory, on the
  current terminal (Wm.thy) or in the caller's buffer. The listing of a directory is the file its
  members were appended to, one full path per line; showing it skips the directory's own name and
  slash on every line. The root is listed from the directory entries without a slash.
\<close>

text \<open>The loop over the sectors of a file shared by the three: \<open>body sec n st\<close> handles the \<open>n\<close> valid
  bytes of one sector. It returns whether every read succeeded.\<close>

function sector_loop :: "'d disk \<Rightarrow> (byte list \<Rightarrow> nat \<Rightarrow> 's \<Rightarrow> 's option) \<Rightarrow> u32 \<Rightarrow> u32 \<Rightarrow> 'd \<Rightarrow> 's \<Rightarrow>
    (bool \<times> 'd \<times> 's) option" where
  "sector_loop dk body lba remaining d st =
     (if remaining = 0 then Some (True, d, st)
      else case dk_read dk lba d of
        (None, d) \<Rightarrow> Some (False, d, st)
      | (Some sec, d) \<Rightarrow>
          let n = (if remaining < 512 then remaining else 512)
          in do {
            st \<leftarrow> body sec (unat n) st;
            sector_loop dk body (lba + 1) (remaining - n) d st })"
  by pat_completeness auto
termination
proof (relation "measure (\<lambda>(dk, body, lba, remaining, d, st). unat remaining)")
  fix dk :: "'d disk" and body :: "byte list \<Rightarrow> nat \<Rightarrow> 's \<Rightarrow> 's option"
  fix lba remaining n :: u32 and d d' and st st' :: 's and p sec
  assume "remaining \<noteq> 0" and "n = (if remaining < 512 then remaining else 512)"
  then have "remaining - n < remaining"
    by (auto simp: word_less_nat_alt unat_sub_if' unat_gt_0 split: if_splits)
  then show "((dk, body, lba + 1, remaining - n, d', st'), (dk, body, lba, remaining, d, st))
      \<in> measure (\<lambda>(dk, body, lba, remaining, d, st). unat remaining)"
    by (simp add: word_less_nat_alt)
qed simp

declare sector_loop.simps [simp del]

definition white :: byte where "white = VGA_COLOR 0 15"

text \<open>fs_cat prints each sector as a string, after writing a NUL behind its valid bytes; the local
  buffer has 512 bytes.\<close>

definition cat_sector :: "byte list \<Rightarrow> nat \<Rightarrow> terminal \<Rightarrow> terminal option" where
  "cat_sector sec n t = do {
     buf \<leftarrow> store sec n 0;
     term_print_color t buf white }"

definition fs_cat :: "'d disk \<Rightarrow> superblock \<Rightarrow> byte list \<Rightarrow> 'd \<Rightarrow> terminal \<Rightarrow> (int \<times> 'd \<times> terminal) option" where
  "fs_cat dk sb name d t = do {
     (r, d) \<leftarrow> fs_find dk sb name d;
     (case r of
        None \<Rightarrow> Some (-1, d, t)
      | Some e \<Rightarrow> do {
          (ok, d, t) \<leftarrow> sector_loop dk cat_sector (fe_lba e) (fe_size e) d t;
          if \<not> ok then Some (-1, d, t)
          else do {
            t \<leftarrow> term_print_color t (asc [CHR 0x0A] @ [0]) white;
            Some (0, d, t) } }) }"

text \<open>fs_ls of a named directory; the state is \<open>skip_left\<close> and the terminal.\<close>

fun ls_chars :: "nat \<Rightarrow> byte list \<Rightarrow> nat \<times> terminal \<Rightarrow> (nat \<times> terminal) option" where
  "ls_chars skip [] st = Some st"
| "ls_chars skip (c # cs) (skip_left, t) =
     (if skip_left > 0 then ls_chars skip cs (skip_left - 1, t)
      else do {
        t \<leftarrow> term_putchar t c white;
        ls_chars skip cs (if c = 10 then skip else skip_left, t) })"

text \<open>fs_ls of the root, over the slots of one directory sector.\<close>

fun ls_entries :: "byte list \<Rightarrow> nat list \<Rightarrow> terminal \<Rightarrow> terminal option" where
  "ls_entries buf [] t = Some t"
| "ls_entries buf (i # is) t = do {
     c0 \<leftarrow> load buf (32 * i);
     if c0 = 0 then ls_entries buf is t
     else do {
       sl \<leftarrow> has_slash (drop (32 * i) buf);
       if sl then ls_entries buf is t
       else do {
         t \<leftarrow> term_print_color t (drop (32 * i) buf) white;
         t \<leftarrow> term_print_color t (asc ''  '' @ [0]) white;
         size_buf \<leftarrow> itoa (fe_size (entry_at buf i)) (replicate 12 0);
         t \<leftarrow> term_print_color t size_buf white;
         t \<leftarrow> term_print_color t (asc '' bytes'' @ [10, 0]) white;
         ls_entries buf is t } } }"

fun ls_root :: "'d disk \<Rightarrow> superblock \<Rightarrow> nat list \<Rightarrow> 'd \<Rightarrow> terminal \<Rightarrow> (int \<times> 'd \<times> terminal) option" where
  "ls_root dk sb [] d t = Some (0, d, t)"
| "ls_root dk sb (s # ss) d t =
     (case dk_read dk (dir_lba sb + of_nat s) d of
        (None, d) \<Rightarrow> Some (-1, d, t)
      | (Some buf, d) \<Rightarrow> do {
          t \<leftarrow> ls_entries buf [0..<FS_ENTRIES_PER_SECTOR] t;
          ls_root dk sb ss d t })"

text \<open>\<open>name && name[0]\<close>: the name may be a null pointer.\<close>

definition names_something :: "byte list option \<Rightarrow> bool option" where
  "names_something name =
     (case name of None \<Rightarrow> Some False | Some s \<Rightarrow> do { c0 \<leftarrow> load s 0; Some (c0 \<noteq> 0) })"

definition fs_ls :: "'d disk \<Rightarrow> superblock \<Rightarrow> byte list option \<Rightarrow> 'd \<Rightarrow> terminal \<Rightarrow>
    (int \<times> 'd \<times> terminal) option" where
  "fs_ls dk sb name d t = do {
     named \<leftarrow> names_something name;
     if named then do {
       (r, d) \<leftarrow> fs_find dk sb (the name) d;
       (case r of
          None \<Rightarrow> Some (-1, d, t)
        | Some e \<Rightarrow> do {
            n \<leftarrow> strlen (the name);
            let skip = n + 1;
            (ok, d, (_, t)) \<leftarrow> sector_loop dk (\<lambda>sec n. ls_chars skip (take n sec))
              (fe_lba e) (fe_size e) d (skip, t);
            Some (if ok then 0 else -1, d, t) }) }
     else ls_root dk sb (dir_range sb) d t }"

text \<open>fs_ls_buf: the state is \<open>skip_left\<close>, \<open>o\<close> and the caller's buffer.\<close>

fun lsb_chars :: "nat \<Rightarrow> u32 \<Rightarrow> byte list \<Rightarrow> nat \<times> u32 \<times> byte list \<Rightarrow> (nat \<times> u32 \<times> byte list) option" where
  "lsb_chars skip max_len [] st = Some st"
| "lsb_chars skip max_len (c # cs) (skip_left, pos, buf) =
     (if skip_left > 0 then lsb_chars skip max_len cs (skip_left - 1, pos, buf)
      else do {
        (pos, buf) \<leftarrow> (if pos < max_len - 1 then do { buf \<leftarrow> store buf (unat pos) c; Some (pos + 1, buf) }
                   else Some (pos, buf));
        lsb_chars skip max_len cs (if c = 10 then skip else skip_left, pos, buf) })"

text \<open>The root: the entries of one sector, with a flag for the early return when the next line
  would not fit.\<close>

fun lsb_entries :: "byte list \<Rightarrow> u32 \<Rightarrow> nat list \<Rightarrow> u32 \<times> byte list \<Rightarrow> (bool \<times> u32 \<times> byte list) option" where
  "lsb_entries dirbuf max_len [] (pos, buf) = Some (False, pos, buf)"
| "lsb_entries dirbuf max_len (i # is) (pos, buf) = do {
     c0 \<leftarrow> load dirbuf (32 * i);
     if c0 = 0 then lsb_entries dirbuf max_len is (pos, buf)
     else do {
       sl \<leftarrow> has_slash (drop (32 * i) dirbuf);
       if sl then lsb_entries dirbuf max_len is (pos, buf)
       else do {
         size_buf \<leftarrow> itoa (fe_size (entry_at dirbuf i)) (replicate 12 0);
         l \<leftarrow> strlen (drop (32 * i) dirbuf);
         sl \<leftarrow> strlen size_buf;
         if pos + of_nat l + of_nat sl + 2 \<ge> max_len then Some (True, pos, buf)
         else do {
           buf \<leftarrow> copy_to buf (unat pos) (drop (32 * i) dirbuf) l;
           let pos = pos + of_nat l;
           buf \<leftarrow> store buf (unat pos) 32;
           let pos = pos + 1;
           buf \<leftarrow> copy_to buf (unat pos) size_buf sl;
           let pos = pos + of_nat sl;
           buf \<leftarrow> store buf (unat pos) 10;
           lsb_entries dirbuf max_len is (pos + 1, buf) } } } }"

fun lsb_root :: "'d disk \<Rightarrow> superblock \<Rightarrow> u32 \<Rightarrow> nat list \<Rightarrow> 'd \<Rightarrow> u32 \<times> byte list \<Rightarrow>
    (bool \<times> 'd \<times> u32 \<times> byte list) option" where
  "lsb_root dk sb max_len [] d st = Some (True, d, st)"
| "lsb_root dk sb max_len (s # ss) d st =
     (case dk_read dk (dir_lba sb + of_nat s) d of
        (None, d) \<Rightarrow> Some (False, d, st)
      | (Some dirbuf, d) \<Rightarrow> do {
          (full, st) \<leftarrow> lsb_entries dirbuf max_len [0..<FS_ENTRIES_PER_SECTOR] st;
          if full then Some (True, d, st) else lsb_root dk sb max_len ss d st })"

definition fs_ls_buf :: "'d disk \<Rightarrow> superblock \<Rightarrow> byte list option \<Rightarrow> byte list \<Rightarrow> u32 \<Rightarrow> 'd \<Rightarrow>
    (int \<times> byte list \<times> 'd) option" where
  "fs_ls_buf dk sb name buf max_len d = do {
     named \<leftarrow> names_something name;
     (ok, d, pos, buf) \<leftarrow>
       (if named then do {
          (r, d) \<leftarrow> fs_find dk sb (the name) d;
          (case r of
             None \<Rightarrow> Some (False, d, 0, buf)
           | Some e \<Rightarrow> do {
               n \<leftarrow> strlen (the name);
               let skip = n + 1;
               (ok, d, (_, pos, buf)) \<leftarrow> sector_loop dk (\<lambda>sec n. lsb_chars skip max_len (take n sec))
                 (fe_lba e) (fe_size e) d (skip, 0, buf);
               Some (ok, d, pos, buf) }) }
        else lsb_root dk sb max_len (dir_range sb) d (0, buf));
     if \<not> ok then Some (-1, buf, d)
     else do {
       buf \<leftarrow> store buf (unat pos) 0;
       Some (sint pos, buf, d) } }"

section \<open>The sector loop as one pass over the file\<close>

context reliable_device
begin

lemma sector_loop_eq:
  assumes "dev_ok d" and "unat lba + m \<le> cap" and "cap < 2 ^ 32" and "unat len \<le> 512 * m"
    and hom: "\<And>xs ys st. g (xs @ ys) st = g xs st \<bind> g ys" and nil: "\<And>st. g [] st = Some st"
  shows "\<exists>d'. sector_loop dk (\<lambda>sec n. g (take n sec)) lba len d st =
      map_option (\<lambda>st. (True, d', st))
        (g (take (unat len) (concat (map (\<lambda>k. sec d (lba + of_nat k)) [0..<m]))) st) \<and>
    dev_ok d' \<and> sec d' = sec d"
  using assms(1,2,4)
proof (induction m arbitrary: lba len d st)
  case 0
  then have "len = 0" by (simp add: unat_eq_0)
  with 0 nil show ?case by (auto simp: sector_loop.simps)
next
  case (Suc m)
  show ?case
  proof (cases "len = 0")
    case True
    with Suc.prems nil show ?thesis by (auto simp: sector_loop.simps)
  next
    case False
    have lba: "unat lba < cap" using Suc.prems(2) by simp
    from read_E [OF Suc.prems(1) lba] obtain d1 where
      d1: "dk_read dk lba d = (Some (sec d lba), d1)" "dev_ok d1" "sec d1 = sec d" by blast
    let ?n = "if len < 512 then len else 512"
    have n: "unat ?n = min (unat len) 512" by (simp add: word_less_nat_alt min_def)
    then have len': "unat (len - ?n) = unat len - unat ?n"
      by (simp add: unat_sub_no_wrap word_le_nat_alt)
    have next_lba: "m = 0 \<or> unat (lba + 1) + m \<le> cap"
      using Suc.prems(2) assms(3) by (cases m) (simp_all add: unat_add_u32)
    let ?F = "concat (map (\<lambda>k. sec d (lba + 1 + of_nat k)) [0..<m])"
    have F: "concat (map (\<lambda>k. sec d (lba + of_nat k)) [0..<Suc m]) = sec d lba @ ?F"
      by (simp add: upt_conv_Cons map_Suc_upt [symmetric] o_def algebra_simps del: upt_Suc map_Suc_upt)
    have split: "take (unat len) (sec d lba @ ?F) = take (unat ?n) (sec d lba) @ take (unat (len - ?n)) ?F"
      using sec_length [OF Suc.prems(1), of lba] n len' by (simp add: min_def)
    have rest: "\<exists>d'. sector_loop dk (\<lambda>sec n. g (take n sec)) (lba + 1) (len - ?n) d1 st1 =
      map_option (\<lambda>st. (True, d', st)) (g (take (unat (len - ?n)) ?F) st1) \<and>
      dev_ok d' \<and> sec d' = sec d" for st1
    proof (cases "m = 0")
      case True
      then have "len - ?n = 0" using Suc.prems(3) len' n by (simp add: word_unat_eq_iff)
      then show ?thesis using d1 nil True by (auto simp: sector_loop.simps)
    next
      case False
      with Suc.IH [OF d1(2), of "lba + 1" "len - ?n" st1] next_lba Suc.prems(3) len' n d1(3)
      show ?thesis by auto
    qed
    show ?thesis
    proof (cases "g (take (unat ?n) (sec d lba)) st")
      case None
      with False d1 Suc.prems(1) show ?thesis
        unfolding F split hom
        by (subst sector_loop.simps) (auto simp: Let_def intro: exI [of _ d])
    next
      case (Some st1)
      from rest [of st1] obtain d' where d': "sector_loop dk (\<lambda>sec n. g (take n sec)) (lba + 1) (len - ?n) d1 st1 =
        map_option (\<lambda>st. (True, d', st)) (g (take (unat (len - ?n)) ?F) st1)"
        "dev_ok d'" "sec d' = sec d" by blast
      with Some False d1(1) show ?thesis
        unfolding F split hom
        by (subst sector_loop.simps) (auto simp: Let_def intro: exI [of _ d'])
    qed
  qed
qed

lemma file_loop_eq:
  assumes "fs_ok sb cap (sec d)" and "dev_ok d" and "entry_ok sb cap e"
    and "\<And>xs ys st. g (xs @ ys) st = g xs st \<bind> g ys" and "\<And>st. g [] st = Some st"
  shows "\<exists>d'. sector_loop dk (\<lambda>sec n. g (take n sec)) (fe_lba e) (fe_size e) d st =
      map_option (\<lambda>st. (True, d', st)) (g (file_bytes (sec d) e) st) \<and> dev_ok d' \<and> sec d' = sec d"
proof -
  have "cap < 2 ^ 32" using assms(1) by (simp add: fs_ok_def geometry_ok_def)
  moreover have "unat (fe_lba e) + entry_sectors e \<le> cap" "unat (fe_size e) + 511 < 2 ^ 32"
    using assms(3) by (simp_all add: entry_ok_def)
  moreover from sectors_for_bounds(1) [OF this(2)] have "unat (fe_size e) \<le> 512 * entry_sectors e"
    by (simp add: entry_sectors_def sectors_for_def)
  ultimately show ?thesis
    using sector_loop_eq [OF assms(2), of "fe_lba e" "entry_sectors e" "fe_size e" g st] assms(4,5)
    by (simp add: file_bytes_def)
qed

end

section \<open>Listing a directory into a buffer\<close>

lemma lsb_chars_append:
  "lsb_chars skip m (xs @ ys) st = lsb_chars skip m xs st \<bind> lsb_chars skip m ys"
proof (induction xs arbitrary: st)
  case (Cons x xs)
  then show ?case by (cases st) (auto simp: bind_assoc split: Option.bind_splits)
qed (cases st, simp)

lemma lsb_chars_Nil: "lsb_chars skip m [] st = Some st"
  by (cases st) simp

text \<open>The characters a listing shows of a directory's contents.\<close>

fun shown :: "nat \<Rightarrow> nat \<Rightarrow> byte list \<Rightarrow> byte list" where
  "shown skip left [] = []"
| "shown skip left (c # cs) =
     (if left > 0 then shown skip (left - 1) cs
      else c # shown skip (if c = 10 then skip else 0) cs)"

text \<open>The buffer with as many of them as fit, keeping room for the NUL.\<close>

lemma lsb_chars_eq:
  assumes "0 < m" and "unat m \<le> length buf" and "unat pos < unat m"
  shows "\<exists>left' pos'. lsb_chars skip m cs (left, pos, buf) =
      Some (left', pos', blit buf (unat pos) (take (unat m - 1 - unat pos) (shown skip left cs))) \<and>
    unat pos' = unat pos + min (unat m - 1 - unat pos) (length (shown skip left cs))"
  using assms
proof (induction cs arbitrary: left pos buf)
  case (Cons c cs)
  show ?case
  proof (cases "left > 0")
    case False
    have "1 \<le> m" using Cons.prems(1) by (simp add: word_le_nat_alt word_less_nat_alt)
    then have m1: "unat (m - 1) = unat m - 1" by (simp add: unat_sub_no_wrap)
    let ?left = "if c = 10 then skip else left"
    show ?thesis
    proof (cases "pos < m - 1")
      case True
      then have pos: "unat pos < unat m - 1" using m1 by (simp add: word_less_nat_alt)
      then have p1: "unat (pos + 1) = unat pos + 1"
        using less_trans [OF _ unat_u32_lt [of m], of "unat pos + 1"] unat_add_no_wrap [of pos 1] by simp
      have "unat (pos + 1) < unat m" using p1 pos by simp
      with Cons.IH [of "buf[unat pos := c]" "pos + 1" ?left] Cons.prems p1 obtain left' pos' where
        IH: "lsb_chars skip m cs (?left, pos + 1, buf[unat pos := c]) = Some (left', pos',
          blit (buf[unat pos := c]) (unat pos + 1) (take (unat m - 1 - (unat pos + 1)) (shown skip ?left cs)))"
        "unat pos' = unat pos + 1 + min (unat m - 1 - (unat pos + 1)) (length (shown skip ?left cs))"
        by auto
      have st: "store buf (unat pos) c = Some (buf[unat pos := c])" using Cons.prems by simp
      have bl: "blit (buf[unat pos := c]) (unat pos + 1) ys = blit buf (unat pos) (c # ys)" for ys
        using Cons.prems by (simp add: blit_Cons)
      obtain k where k: "unat m - 1 - unat pos = Suc k" "unat m - 1 - (unat pos + 1) = k"
        using pos by (metis Suc_diff_Suc Suc_eq_plus1 diff_Suc_eq_diff_pred diff_diff_left)
      show ?thesis using False True st IH bl k by (auto simp: min_def)
    next
      case False2: False
      then have pos: "unat pos = unat m - 1" using m1 Cons.prems(3) by (simp add: word_less_nat_alt)
      from Cons.IH [of buf pos ?left] Cons.prems obtain left' pos' where
        "lsb_chars skip m cs (?left, pos, buf) = Some (left', pos', buf)" "unat pos' = unat pos"
        using pos by auto
      with False False2 pos show ?thesis by auto
    qed
  qed (use Cons in simp)
qed simp

text \<open>A directory file as fs_append leaves it: one line per member, with its full path.\<close>

definition listing :: "byte list \<Rightarrow> byte list list \<Rightarrow> byte list" where
  "listing dir names = concat (map (\<lambda>n. dir @ 47 # n @ [10]) names)"

lemma shown_skip: "length xs = left \<Longrightarrow> shown skip left (xs @ ys) = shown skip 0 ys"
  by (induction xs arbitrary: left) auto

lemma shown_line: "10 \<notin> set n \<Longrightarrow> shown skip 0 (n @ 10 # ys) = n @ 10 # shown skip skip ys"
  by (induction n) auto

lemma shown_listing:
  "\<forall>n\<in>set names. 10 \<notin> set n \<Longrightarrow>
    shown (length dir + 1) (length dir + 1) (listing dir names) = concat (map (\<lambda>n. n @ [10]) names)"
proof (induction names)
  case (Cons n names)
  have "listing dir (n # names) = (dir @ [47]) @ n @ 10 # listing dir names" by (simp add: listing_def)
  moreover have "shown (length dir + 1) (length dir + 1) ((dir @ [47]) @ n @ 10 # listing dir names) =
      n @ 10 # shown (length dir + 1) (length dir + 1) (listing dir names)"
    using Cons.prems by (subst shown_skip) (simp_all add: shown_line)
  ultimately show ?case using Cons by simp
qed (simp add: listing_def)

lemma term_print_color_stop:
  "term_print_color t (s @ 0 # r) color = term_print_color t (s @ [0]) color"
  by (induction s arbitrary: t) (auto split: Option.bind_splits)

lemma term_print_color_ok':
  assumes "term_ok t"
  shows "\<exists>t'. term_print_color t (s @ [0]) color = Some t' \<and> term_ok t'"
proof -
  have "0 \<in> set (s @ [0 :: byte])" by simp
  then obtain u v where "s @ [0] = u @ 0 # v" "nul_free u"
    unfolding nul_free_def by (meson split_list_first)
  with term_print_color_ok [OF assms, of u v color] show ?thesis by auto
qed

section \<open>Properties\<close>

text \<open>C32: fs_ls_buf of a directory shows its members. When the directory's contents are lines
  \<open>dir/name\<close>, the buffer gets the names, one per line, cut to fit with a NUL behind; the result is
  their length, nothing past the NUL is touched, and at most \<open>max_len\<close> bytes are used.\<close>

theorem fs_ls_buf_members:
  assumes "reliable_device dk sec cap dev_ok" and "fs_ok sb cap (sec d)" and "dev_ok d"
    and "nul_free nm" and "nm \<noteq> []"
    and "files sb (sec d) nm = Some (t, listing nm names)" and "\<forall>n\<in>set names. 10 \<notin> set n"
    and "0 < max_len" and "unat max_len \<le> length buf" and "unat max_len < 2 ^ 31"
  shows "\<exists>out d'. fs_ls_buf dk sb (Some (nm @ 0 # r)) buf max_len d =
      Some (int (length out), out @ 0 # drop (length out + 1) buf, d') \<and>
    out = take (unat max_len - 1) (concat (map (\<lambda>n. n @ [10]) names))"
proof -
  let ?text = "concat (map (\<lambda>n. n @ [10]) names)"
  let ?skip = "length nm + 1"
  let ?out = "take (unat max_len - 1) ?text"
  from assms(6) obtain e where e: "lookup sb (sec d) nm = Some e" "file_bytes (sec d) e = listing nm names"
    by (auto simp: files_def)
  from reliable_device.fs_find_eq [OF assms(1-4), of r] e(1) obtain d1 where
    d1: "fs_find dk sb (nm @ 0 # r) d = Some (Some e, d1)" "dev_ok d1" "sec d1 = sec d" by auto
  from lookup_entry_ok [OF assms(2) e(1)] have eo: "entry_ok sb cap e" .
  have "fs_ok sb cap (sec d1)" using assms(2) d1(3) by simp
  from reliable_device.file_loop_eq [OF assms(1) this d1(2) eo, of "lsb_chars ?skip max_len" "(?skip, 0, buf)"]
    lsb_chars_append [of ?skip max_len] d1(3)
  obtain d2 where d2: "sector_loop dk (\<lambda>sec n. lsb_chars ?skip max_len (take n sec)) (fe_lba e) (fe_size e) d1
      (?skip, 0, buf) = map_option (\<lambda>st. (True, d2, st))
        (lsb_chars ?skip max_len (listing nm names) (?skip, 0, buf))"
    by (auto simp: e(2) lsb_chars_Nil)
  have max: "0 < unat max_len" using assms(8) by (simp add: word_less_nat_alt)
  from lsb_chars_eq [OF assms(8,9), of 0 ?skip "listing nm names" ?skip] max obtain left' pos' where
    ch: "lsb_chars ?skip max_len (listing nm names) (?skip, 0, buf) = Some (left', pos', blit buf 0 ?out)"
    "unat pos' = min (unat max_len - 1) (length ?text)"
    unfolding shown_listing [OF assms(7)] by auto
  have pos': "unat pos' = length ?out" using ch(2) by simp
  moreover have "length ?out < unat max_len" using max by simp
  ultimately have "unat pos' < 2 ^ 31" using assms(10) by linarith
  then have "sint pos' = int (length ?out)" by (simp add: sint_small pos')
  moreover have "store (blit buf 0 ?out) (unat pos') 0 = Some (?out @ 0 # drop (length ?out + 1) buf)"
  proof -
    define out where "out = ?out"
    have "length out < length buf" using max assms(9) by (simp add: out_def)
    then have "blit buf 0 out = out @ buf ! length out # drop (length out + 1) buf"
      by (simp add: blit_def Cons_nth_drop_Suc)
    then show ?thesis
      using \<open>length out < length buf\<close> unfolding pos' out_def [symmetric] by (simp add: store_def)
  qed
  moreover have "names_something (Some (nm @ 0 # r)) = Some True"
    using assms(4,5) by (cases nm) (simp_all add: names_something_def)
  ultimately show ?thesis
    using d1(1) d2 ch(1) assms(4) by (simp add: fs_ls_buf_def)
qed

theorem fs_ls_buf_members_witness:
  "\<exists>d1 d2. fs_write (ata_disk drive_pio) empty_sb (asc ''d'' @ 0 # []) FS_DIR
      (asc ''d/x'' @ [10] @ asc ''d/yz'' @ [10]) 9 drive_blank = Some (0, d1) \<and>
    fs_ls_buf (ata_disk drive_pio) empty_sb (Some (asc ''d'' @ 0 # [])) (replicate 6 1) 6 d1 =
      Some (5, asc ''x'' @ [10] @ asc ''yz'' @ [10] @ [0], d2)"
proof -
  obtain d1 where d1: "fs_write (ata_disk drive_pio) empty_sb (asc ''d'' @ 0 # []) FS_DIR
      (listing (asc ''d'') [asc ''x'', asc ''yz'']) 9 drive_blank = Some (0, d1)"
    "drive_good d1" "fs_ok empty_sb (2 ^ 28) (drive_sec d1)"
    "files empty_sb (drive_sec d1) = [asc ''d'' \<mapsto> (FS_DIR, listing (asc ''d'') [asc ''x'', asc ''yz''])]"
    by (rule blank_write [of "asc ''d''" 9 "listing (asc ''d'') [asc ''x'', asc ''yz'']" "[]" FS_DIR])
      (simp_all add: listing_def parent_name_def)
  from fs_ls_buf_members [OF reliable_drive d1(3,2), of "asc ''d''" FS_DIR "[asc ''x'', asc ''yz'']" 6
      "replicate 6 1" "[]"] d1(1,4)
  show ?thesis by (auto simp: listing_def)
qed

text \<open>Fs_cat writes a NUL behind the valid bytes of each sector, in a buffer of one sector. It
  shows a file of fewer than 512 bytes (up to its first NUL) and a newline, but for any longer file
  the first full sector makes it write one byte past its buffer.\<close>

theorem fs_cat_overruns:
  assumes "reliable_device dk sec cap dev_ok" and "fs_ok sb cap (sec d)" and "dev_ok d"
    and "nul_free nm" and "files sb (sec d) nm = Some (ty, bs)" and "term_ok t"
  shows "if length bs < 512
    then \<exists>d' t1 t2. fs_cat dk sb (nm @ 0 # r) d t = Some (0, d', t2) \<and>
      term_print_color t (bs @ [0]) white = Some t1 \<and> term_putchar t1 10 white = Some t2
    else fs_cat dk sb (nm @ 0 # r) d t = None"
proof -
  from assms(5) obtain e where e: "lookup sb (sec d) nm = Some e" "file_bytes (sec d) e = bs"
    by (auto simp: files_def)
  from reliable_device.fs_find_eq [OF assms(1-4), of r] e(1) obtain d1 where
    d1: "fs_find dk sb (nm @ 0 # r) d = Some (Some e, d1)" "dev_ok d1" "sec d1 = sec d" by auto
  from lookup_entry_ok [OF assms(2) e(1)] have eo: "entry_ok sb cap e" .
  have len_sec: "length (sec d l) = 512" for l
    using block_device.sec_length [OF reliable_device.axioms(1) [OF assms(1)] assms(3)] .
  from length_file_bytes [OF eo, of "sec d"] e(2) len_sec have len: "unat (fe_size e) = length bs" by simp
  have size: "unat (fe_size e) + 511 < 2 ^ 32" using eo by (simp add: entry_ok_def)
  note newline = term_putchar_ok
  show ?thesis
  proof (cases "fe_size e = 0")
    case True
    with len have "bs = []" by simp
    with True d1(1) term_putchar_ok [OF assms(6), of 10 white] show ?thesis
      by (auto simp: fs_cat_def sector_loop.simps)
  next
    case False
    then have pos: "0 < unat (fe_size e)" by (simp add: unat_gt_0)
    with sectors_for_bounds [OF size] have sec1: "1 \<le> entry_sectors e"
      by (simp add: entry_sectors_def sectors_for_def)
    then have "unat (fe_lba e) < cap" using eo by (simp add: entry_ok_def)
    from reliable_device.read_E [OF assms(1) d1(2) this] obtain d2 where
      d2: "dk_read dk (fe_lba e) d1 = (Some (sec d (fe_lba e)), d2)" using d1(3) by metis
    let ?S = "sec d (fe_lba e)"
    show ?thesis
    proof (cases "length bs < 512")
      case short: True
      have "entry_sectors e = 1"
        using sectors_for_bounds(2) [OF size] short len sec1 by (simp add: entry_sectors_def sectors_for_def)
      then have bs: "bs = take (length bs) ?S" using e(2) len by (simp add: file_bytes_def)
      have "store ?S (length bs) 0 = Some (bs @ 0 # drop (length bs + 1) ?S)"
        using short len_sec bs by (simp add: store_def upd_conv_take_nth_drop)
      moreover from term_print_color_ok' [OF assms(6), of bs white] obtain t1 where
        "term_print_color t (bs @ [0]) white = Some t1" "term_ok t1" by blast
      moreover from term_putchar_ok [OF this(2), of 10 white] obtain t2 where
        "term_putchar t1 10 white = Some t2" by blast
      ultimately show ?thesis
        using False short d1(1) d2 len
        by (auto simp: fs_cat_def sector_loop.simps word_less_nat_alt cat_sector_def
            term_print_color_stop [of t bs "drop _ _"])
    next
      case long: False
      then have "\<not> fe_size e < 512" by (simp add: word_less_nat_alt len)
      then have "sector_loop dk cat_sector (fe_lba e) (fe_size e) d1 t = None"
        using False d2 len_sec by (simp add: sector_loop.simps cat_sector_def store_def)
      with long d1(1) show ?thesis by (simp add: fs_cat_def)
    qed
  qed
qed


theorem fs_cat_overruns_witness:
  "\<exists>d1. fs_write (ata_disk drive_pio) empty_sb (asc ''a'' @ 0 # []) FS_FILE (replicate 512 65) 512
      drive_blank = Some (0, d1) \<and>
    fs_cat (ata_disk drive_pio) empty_sb (asc ''a'' @ 0 # []) d1 term_blank = None"
proof -
  obtain d1 where d1: "fs_write (ata_disk drive_pio) empty_sb (asc ''a'' @ 0 # []) FS_FILE
      (replicate 512 65) 512 drive_blank = Some (0, d1)"
    "drive_good d1" "fs_ok empty_sb (2 ^ 28) (drive_sec d1)"
    "files empty_sb (drive_sec d1) = [asc ''a'' \<mapsto> (FS_FILE, replicate 512 65)]"
    by (rule blank_write [of "asc ''a''" 512 "replicate 512 65" "[]" FS_FILE])
      (simp_all add: parent_name_def)
  from fs_cat_overruns [OF reliable_drive d1(3,2), of "asc ''a''" FS_FILE "replicate 512 65" term_blank
      "[]"] d1(1,4)
  show ?thesis by simp
qed

end
