(* ===== verification/FsHandle.thy ===== *)
theory FsHandle
  imports FsList
begin

text \<open>
  Open file handles of drivers/fs.c: eight slots, numbered from fd 3. A read handle remembers the
  file's first sector and size and streams from the disk; a writable handle keeps the whole file in
  the one 64 KB buffer \<open>wbuf\<close> and writes it back on close, so only one can be open. An \<open>int\<close> of the
  code that is also used as an offset is a word here, read with \<open>sint\<close> where its sign matters.
\<close>

definition FD_BUF_SIZE :: u32 where "FD_BUF_SIZE = 65536"
definition FS_MAX_OPEN :: nat where "FS_MAX_OPEN = 8"
definition FS_FD_BASE :: int where "FS_FD_BASE = 3"
definition FS_O_WRONLY :: u32 where "FS_O_WRONLY = 0x0002"
definition FS_O_RDWR :: u32 where "FS_O_RDWR = 0x0004"
definition FS_O_CREAT :: u32 where "FS_O_CREAT = 0x0008"
definition FS_O_TRUNC :: u32 where "FS_O_TRUNC = 0x0010"
definition FS_O_APPEND :: u32 where "FS_O_APPEND = 0x0020"
definition FS_SEEK_SET :: u32 where "FS_SEEK_SET = 0"
definition FS_SEEK_CUR :: u32 where "FS_SEEK_CUR = 1"
definition FS_SEEK_END :: u32 where "FS_SEEK_END = 2"

lemmas fs_consts = FD_BUF_SIZE_def FS_MAX_OPEN_def FS_FD_BASE_def FS_O_WRONLY_def FS_O_RDWR_def
  FS_O_CREAT_def FS_O_TRUNC_def FS_O_APPEND_def FS_SEEK_SET_def FS_SEEK_CUR_def FS_SEEK_END_def

record fs_handle =
  h_used :: bool
  h_writable :: bool
  h_dirty :: bool
  h_type :: byte
  h_name :: "byte list"
  h_lba :: u32
  h_size :: u32
  h_wlen :: u32
  h_offset :: u32

text \<open>The statics of fs.c and the device.\<close>

record 'd fs_state =
  fs_sb :: superblock
  fs_dev :: 'd
  fs_handles :: "fs_handle list"
  fs_wbuf :: "byte list"

text \<open>The handle after \<open>memset(h, 0, sizeof *h)\<close>.\<close>

definition handle_zero :: fs_handle where
  "handle_zero = \<lparr>h_used = False, h_writable = False, h_dirty = False, h_type = 0,
     h_name = replicate FS_MAX_NAME 0, h_lba = 0, h_size = 0, h_wlen = 0, h_offset = 0\<rparr>"

definition set_handle :: "nat \<Rightarrow> fs_handle \<Rightarrow> 'd fs_state \<Rightarrow> 'd fs_state" where
  "set_handle i h fs = fs\<lparr>fs_handles := (fs_handles fs)[i := h]\<rparr>"

text \<open>The index and contents of the handle an fd names.\<close>

definition fd_lookup :: "int \<Rightarrow> 'd fs_state \<Rightarrow> (nat \<times> fs_handle) option" where
  "fd_lookup fd fs =
     (let i = fd - FS_FD_BASE
      in if i < 0 \<or> i \<ge> int FS_MAX_OPEN \<or> \<not> h_used (fs_handles fs ! nat i) then None
         else Some (nat i, fs_handles fs ! nat i))"

definition free_handle :: "'d fs_state \<Rightarrow> nat option" where
  "free_handle fs = find (\<lambda>i. \<not> h_used (fs_handles fs ! i)) [0..<FS_MAX_OPEN]"

text \<open>The writable branch of fs_open, for the handle \<open>h\<close> set up in slot \<open>i\<close>: the buffer is filled
  with the file unless that is new or to be truncated, and the position set.\<close>

definition open_done :: "u32 \<Rightarrow> nat \<Rightarrow> fs_handle \<Rightarrow> 'd fs_state \<Rightarrow> int \<times> 'd fs_state" where
  "open_done flags i h fs =
     (FS_FD_BASE + int i,
      set_handle i (h\<lparr>h_offset := (if flags AND FS_O_APPEND \<noteq> 0 then h_wlen h else 0)\<rparr>) fs)"

definition open_load :: "'d disk \<Rightarrow> byte list \<Rightarrow> u32 \<Rightarrow> file_entry option \<Rightarrow> nat \<Rightarrow> fs_handle \<Rightarrow>
    'd fs_state \<Rightarrow> (int \<times> 'd fs_state) option" where
  "open_load dk name flags found i h fs =
     (case found of
        None \<Rightarrow> Some (open_done flags i h fs)
      | Some e \<Rightarrow>
          if flags AND FS_O_TRUNC \<noteq> 0 then Some (open_done flags i h fs)
          else if fe_size e > FD_BUF_SIZE then Some (-1, set_handle i (h\<lparr>h_used := False\<rparr>) fs)
          else do {
            (r, wbuf, d) \<leftarrow> fs_read dk (fs_sb fs) name (fs_wbuf fs) FD_BUF_SIZE (fs_dev fs);
            let fs = fs\<lparr>fs_wbuf := wbuf, fs_dev := d\<rparr>;
            Some (if r < 0 then (-1, set_handle i (h\<lparr>h_used := False\<rparr>) fs)
                  else open_done flags i (h\<lparr>h_wlen := fe_size e\<rparr>) fs) })"

definition other_writer :: "nat \<Rightarrow> 'd fs_state \<Rightarrow> bool" where
  "other_writer i fs \<longleftrightarrow>
     (\<exists>j<FS_MAX_OPEN. j \<noteq> i \<and> h_used (fs_handles fs ! j) \<and> h_writable (fs_handles fs ! j))"

definition open_writable :: "'d disk \<Rightarrow> byte list \<Rightarrow> u32 \<Rightarrow> file_entry option \<Rightarrow> nat \<Rightarrow> fs_handle \<Rightarrow>
    'd fs_state \<Rightarrow> (int \<times> 'd fs_state) option" where
  "open_writable dk name flags found i h fs =
     (if other_writer i fs then Some (-1, set_handle i (h\<lparr>h_used := False\<rparr>) fs)
      else let h = h\<lparr>h_type := FS_FILE\<rparr>
           in open_load dk name flags found i h (set_handle i h fs))"

text \<open>The rest of fs_open once slot \<open>i\<close> is found free.\<close>

definition open_slot :: "'d disk \<Rightarrow> byte list \<Rightarrow> u32 \<Rightarrow> file_entry option \<Rightarrow> nat \<Rightarrow> 'd fs_state \<Rightarrow>
    (int \<times> 'd fs_state) option" where
  "open_slot dk name flags found i fs = do {
     let want_write = (flags AND (FS_O_WRONLY OR FS_O_RDWR) \<noteq> 0);
     nm \<leftarrow> strcpy (replicate FS_MAX_NAME 0) name;
     let h = handle_zero\<lparr>h_used := True, h_writable := want_write, h_name := nm\<rparr>;
     if want_write then open_writable dk name flags found i h (set_handle i h fs)
     else
       let h = (case found of
           Some e \<Rightarrow> h\<lparr>h_type := fe_type e, h_lba := fe_lba e, h_size := fe_size e\<rparr>
         | None \<Rightarrow> h)
       in Some (FS_FD_BASE + int i, set_handle i h fs) }"

definition fs_open :: "'d disk \<Rightarrow> byte list \<Rightarrow> u32 \<Rightarrow> 'd fs_state \<Rightarrow> (int \<times> 'd fs_state) option" where
  "fs_open dk name flags fs = do {
     n \<leftarrow> strlen name;
     if n \<ge> FS_MAX_NAME then Some (-1, fs)
     else do {
       (found, d) \<leftarrow> fs_find dk (fs_sb fs) name (fs_dev fs);
       let fs = fs\<lparr>fs_dev := d\<rparr>;
       if found = None \<and> flags AND FS_O_CREAT = 0 then Some (-1, fs)
       else if (case found of Some e \<Rightarrow> fe_type e = FS_DIR | None \<Rightarrow> False) then Some (-1, fs)
       else case free_handle fs of
         None \<Rightarrow> Some (-1, fs)
       | Some i \<Rightarrow> open_slot dk name flags found i fs } }"

text \<open>The streaming loop of fs_read_fd: whether every read succeeded, the buffer and \<open>done\<close>.\<close>

function stream_loop :: "'d disk \<Rightarrow> fs_handle \<Rightarrow> u32 \<Rightarrow> u32 \<Rightarrow> byte list \<Rightarrow> 'd \<Rightarrow>
    (bool \<times> byte list \<times> u32 \<times> 'd) option" where
  "stream_loop dk h n done buf d =
     (if \<not> done < n then Some (True, buf, done, d)
      else
        let pos = h_offset h + done; within = pos mod 512
        in case dk_read dk (h_lba h + pos div 512) d of
             (None, d) \<Rightarrow> Some (False, buf, done, d)
           | (Some sec, d) \<Rightarrow>
               let take_n = (if 512 - within > n - done then n - done else 512 - within)
               in do {
                 buf \<leftarrow> copy_to buf (unat done) (drop (unat within) sec) (unat take_n);
                 stream_loop dk h n (done + take_n) buf d })"
  by pat_completeness auto
termination
proof (relation "measure (\<lambda>(dk, h, n, done, buf, d). unat n - unat done)")
  fix dk :: "'d disk" and h :: fs_handle and n "done" pos within take_n :: u32 and buf buf' d d' p sec
  assume a: "\<not> \<not> done < n" "within = pos mod 512"
    and t: "take_n = (if 512 - within > n - done then n - done else 512 - within)"
  have w: "unat within < 512" using a(2) by (simp add: unat_mod)
  then have w': "unat (512 - within) = 512 - unat within" by (simp add: unat_sub_no_wrap word_le_nat_alt)
  have "unat done < unat n" using a(1) by (simp add: word_less_nat_alt)
  then have n: "unat (n - done) = unat n - unat done" "unat done < unat n"
    by (simp_all add: unat_sub_no_wrap word_le_nat_alt)
  then have "0 < unat take_n" "unat take_n \<le> unat n - unat done"
    using w w' by (auto simp: t word_less_nat_alt split: if_splits)
  moreover from this n have "unat (done + take_n) = unat done + unat take_n"
    using unat_u32_lt [of n] by (intro unat_add_no_wrap) linarith
  ultimately show "((dk, h, n, done + take_n, buf', d'), (dk, h, n, done, buf, d))
      \<in> measure (\<lambda>(dk, h, n, done, buf, d). unat n - unat done)"
    using n(2) by simp
qed simp

declare stream_loop.simps [simp del]

definition fs_read_fd :: "'d disk \<Rightarrow> int \<Rightarrow> byte list \<Rightarrow> u32 \<Rightarrow> 'd fs_state \<Rightarrow>
    (int \<times> byte list \<times> 'd fs_state) option" where
  "fs_read_fd dk fd buf n fs =
     (case fd_lookup fd fs of
        None \<Rightarrow> Some (-1, buf, fs)
      | Some (i, h) \<Rightarrow>
          if h_writable h then do {
            let avail = (if h_offset h < h_wlen h then h_wlen h - h_offset h else 0);
            let n = (if n > avail then avail else n);
            buf \<leftarrow> memcpy buf (drop (unat (h_offset h)) (fs_wbuf fs)) (unat n);
            Some (sint n, buf, set_handle i (h\<lparr>h_offset := h_offset h + n\<rparr>) fs) }
          else
            let avail = (if h_offset h < h_size h then h_size h - h_offset h else 0);
                n = (if n > avail then avail else n)
            in if n = 0 then Some (0, buf, fs)
               else do {
                 (ok, buf, done, d) \<leftarrow> stream_loop dk h n 0 buf (fs_dev fs);
                 let fs = fs\<lparr>fs_dev := d\<rparr>;
                 if \<not> ok then Some (if done \<noteq> 0 then sint done else -1, buf, fs)
                 else Some (sint done, buf, set_handle i (h\<lparr>h_offset := h_offset h + done\<rparr>) fs) })"

definition fs_write_fd :: "int \<Rightarrow> byte list \<Rightarrow> u32 \<Rightarrow> 'd fs_state \<Rightarrow> (int \<times> 'd fs_state) option" where
  "fs_write_fd fd buf n fs =
     (case fd_lookup fd fs of
        None \<Rightarrow> Some (-1, fs)
      | Some (i, h) \<Rightarrow>
          if \<not> h_writable h then Some (-1, fs)
          else if n > FD_BUF_SIZE \<or> h_offset h > FD_BUF_SIZE - n then Some (-1, fs)
          else do {
            (h, wbuf) \<leftarrow>
              (if h_offset h + n > h_wlen h then do {
                 wbuf \<leftarrow> (if h_offset h > h_wlen h then do {
                     gap \<leftarrow> memset (drop (unat (h_wlen h)) (fs_wbuf fs)) 0 (unat (h_offset h - h_wlen h));
                     Some (take (unat (h_wlen h)) (fs_wbuf fs) @ gap) }
                   else Some (fs_wbuf fs));
                 Some (h\<lparr>h_wlen := h_offset h + n\<rparr>, wbuf) }
               else Some (h, fs_wbuf fs));
            wbuf \<leftarrow> copy_to wbuf (unat (h_offset h)) buf (unat n);
            Some (sint n,
              set_handle i (h\<lparr>h_offset := h_offset h + n, h_dirty := True\<rparr>) (fs\<lparr>fs_wbuf := wbuf\<rparr>)) })"

definition fs_seek :: "int \<Rightarrow> u32 \<Rightarrow> u32 \<Rightarrow> 'd fs_state \<Rightarrow> int \<times> 'd fs_state" where
  "fs_seek fd off whence fs =
     (case fd_lookup fd fs of
        None \<Rightarrow> (-1, fs)
      | Some (i, h) \<Rightarrow>
          (case (if whence = FS_SEEK_SET then Some 0
                 else if whence = FS_SEEK_CUR then Some (h_offset h)
                 else if whence = FS_SEEK_END then Some (if h_writable h then h_wlen h else h_size h)
                 else None) of
             None \<Rightarrow> (-1, fs)
           | Some base \<Rightarrow>
               let pos = base + off
               in if sint pos < 0 then (-1, fs)
                  else (sint pos, set_handle i (h\<lparr>h_offset := pos\<rparr>) fs)))"

definition fs_close :: "'d disk \<Rightarrow> int \<Rightarrow> 'd fs_state \<Rightarrow> (int \<times> 'd fs_state) option" where
  "fs_close dk fd fs =
     (case fd_lookup fd fs of
        None \<Rightarrow> Some (-1, fs)
      | Some (i, h) \<Rightarrow> do {
          (rc, d) \<leftarrow>
            (if h_writable h
             then fs_write dk (fs_sb fs) (h_name h) (h_type h) (fs_wbuf fs) (h_wlen h) (fs_dev fs)
             else Some (0, fs_dev fs));
          Some (rc, set_handle i (h\<lparr>h_used := False\<rparr>) (fs\<lparr>fs_dev := d\<rparr>)) })"

text \<open>fs_close_all, over the slots still to visit.\<close>

fun close_from :: "'d disk \<Rightarrow> nat list \<Rightarrow> 'd fs_state \<Rightarrow> 'd fs_state option" where
  "close_from dk [] fs = Some fs"
| "close_from dk (i # is) fs =
     (if h_used (fs_handles fs ! i) then do {
        (_, fs) \<leftarrow> fs_close dk (FS_FD_BASE + int i) fs;
        close_from dk is fs }
      else close_from dk is fs)"

definition fs_close_all :: "'d disk \<Rightarrow> 'd fs_state \<Rightarrow> 'd fs_state option" where
  "fs_close_all dk fs = close_from dk [0..<FS_MAX_OPEN] fs"

section \<open>The invariant of the handle table\<close>

definition handle_ok :: "fs_handle \<Rightarrow> bool" where
  "handle_ok h \<longleftrightarrow> h_used h \<longrightarrow>
     length (h_name h) = 23 \<and> 0 \<in> set (h_name h) \<and> (h_writable h \<longrightarrow> h_wlen h \<le> FD_BUF_SIZE)"

definition writers :: "'d fs_state \<Rightarrow> nat set" where
  "writers fs = {i. i < FS_MAX_OPEN \<and> h_used (fs_handles fs ! i) \<and> h_writable (fs_handles fs ! i)}"

definition handles_ok :: "'d fs_state \<Rightarrow> bool" where
  "handles_ok fs \<longleftrightarrow> length (fs_handles fs) = FS_MAX_OPEN \<and> length (fs_wbuf fs) = 65536 \<and>
     (\<forall>h\<in>set (fs_handles fs). handle_ok h) \<and>
     (\<forall>i\<in>writers fs. \<forall>j\<in>writers fs. i = j)"

lemma handles_okD:
  assumes "handles_ok fs"
  shows "length (fs_handles fs) = 8" "length (fs_wbuf fs) = 65536"
    "i < 8 \<Longrightarrow> handle_ok (fs_handles fs ! i)"
    "i \<in> writers fs \<Longrightarrow> j \<in> writers fs \<Longrightarrow> i = j"
  using assms by (simp_all add: handles_ok_def FS_MAX_OPEN_def)

lemma set_handle_simps [simp]:
  "fs_sb (set_handle i h fs) = fs_sb fs" "fs_dev (set_handle i h fs) = fs_dev fs"
  "fs_wbuf (set_handle i h fs) = fs_wbuf fs"
  "fs_handles (set_handle i h fs) = (fs_handles fs)[i := h]"
  by (simp_all add: set_handle_def)

lemma fd_lookup_Some:
  "fd_lookup fd fs = Some (i, h) \<longleftrightarrow>
    i < 8 \<and> fd = 3 + int i \<and> h = fs_handles fs ! i \<and> h_used h"
  by (auto simp: fd_lookup_def Let_def fs_consts)

lemma free_handle_Some: "free_handle fs = Some i \<Longrightarrow> i < 8 \<and> \<not> h_used (fs_handles fs ! i)"
  using find_Some_in [of "\<lambda>i. \<not> h_used (fs_handles fs ! i)" "[0..<FS_MAX_OPEN]" i]
  by (auto simp: free_handle_def FS_MAX_OPEN_def)

text \<open>The one update every operation makes: slot \<open>i\<close> gets a good handle, which is not a second
  writer.\<close>

lemma handles_ok_update:
  assumes "handles_ok fs" and "i < 8" and "handle_ok h"
    and "h_used h \<Longrightarrow> h_writable h \<Longrightarrow> writers fs \<subseteq> {i}"
    and "fs_handles fs' = (fs_handles fs)[i := h]" and "length (fs_wbuf fs') = 65536"
  shows "handles_ok fs'"
proof -
  note ok = handles_okD [OF assms(1)]
  have "\<forall>h'\<in>set (fs_handles fs'). handle_ok h'"
    using assms(1,3) set_update_subset_insert [of "fs_handles fs" i h]
    by (auto simp: assms(5) handles_ok_def)
  moreover have "writers fs' \<subseteq> (if h_used h \<and> h_writable h then insert i (writers fs) else writers fs)"
    using assms(2) ok(1) by (auto simp: writers_def assms(5) nth_list_update FS_MAX_OPEN_def)
  then have "\<forall>x\<in>writers fs'. \<forall>y\<in>writers fs'. x = y"
  proof (cases "h_used h \<and> h_writable h")
    case True
    with \<open>writers fs' \<subseteq> _\<close> assms(4) have "writers fs' \<subseteq> {i}" by auto
    then show ?thesis by blast
  qed (use ok(4) in auto)
  ultimately show ?thesis using assms(6) ok(1) by (simp add: handles_ok_def assms(5) FS_MAX_OPEN_def)
qed

lemma handles_ok_same:
  "handles_ok fs \<Longrightarrow> fs_handles fs' = fs_handles fs \<Longrightarrow> length (fs_wbuf fs') = 65536 \<Longrightarrow> handles_ok fs'"
  by (simp add: handles_ok_def writers_def)

lemma writer_slot: "handles_ok fs \<Longrightarrow> i \<in> writers fs \<Longrightarrow> writers fs \<subseteq> {i}"
  by (auto dest: handles_okD(4))

lemma copy_to_length: "copy_to buf i src n = Some r \<Longrightarrow> i \<le> length buf \<Longrightarrow> length r = length buf"
proof -
  assume a: "copy_to buf i src n = Some r" "i \<le> length buf"
  then obtain t where t: "memcpy (drop i buf) src n = Some t" "r = take i buf @ t"
    by (auto simp: copy_to_def split: bind_splits)
  from memcpy_Some_len [OF t(1)] memcpy_eq [of n "drop i buf" src] t a(2) show ?thesis by auto
qed

lemma read_run_length:
  "read_run dk lba buf off len d = Some (ok, buf', off', d') \<Longrightarrow>
    unat off + unat len \<le> length buf \<Longrightarrow> unat off + unat len < 2 ^ 32 \<Longrightarrow> length buf' = length buf"
proof (induction dk lba buf off len d arbitrary: ok buf' off' d' rule: read_run.induct)
  case (1 dk lba buf off len d)
  show ?case
  proof (cases "len = 0")
    case True
    with 1(2) show ?thesis by (simp add: read_run.simps)
  next
    case False
    obtain r d1 where rd: "dk_read dk (lba + off div 512) d = (r, d1)" by fastforce
    show ?thesis
    proof (cases r)
      case None
      with 1(2) False rd show ?thesis by (simp add: read_run.simps)
    next
      case (Some sec)
      let ?n = "if len < 512 then len else 512"
      from 1(2) False rd Some obtain b1 where b1: "copy_to buf (unat off) sec (unat ?n) = Some b1"
        "read_run dk lba b1 (off + ?n) (len - ?n) d1 = Some (ok, buf', off', d')"
        by (subst (asm) (2) read_run.simps) (auto simp: Let_def split: bind_splits)
      have n: "unat ?n = min (unat len) 512" by (simp add: word_less_nat_alt min_def)
      have l1: "length b1 = length buf" using copy_to_length [OF b1(1)] 1(3) by simp
      have "unat (off + ?n) = unat off + unat ?n" using 1(4) n by (simp add: unat_add_no_wrap)
      moreover have "unat (len - ?n) = unat len - unat ?n" using n by (simp add: unat_sub_no_wrap word_le_nat_alt)
      ultimately have "unat (off + ?n) + unat (len - ?n) = unat off + unat len" using n by simp
      with 1(1) [OF False _ _ refl b1(1) b1(2)] rd Some 1(3,4) l1 show ?thesis by simp
    qed
  qed
qed

lemma fs_read_length:
  assumes "fs_read dk sb name buf max_len d = Some (r, buf', d')" and "unat max_len \<le> length buf"
  shows "length buf' = length buf"
proof -
  from assms(1) obtain f d1 where f: "fs_find dk sb name d = Some (f, d1)"
    by (auto simp: fs_read_def split: bind_splits)
  show ?thesis
  proof (cases f)
    case (Some e)
    show ?thesis
    proof (cases "fe_size e > max_len")
      case False
      with assms(1) f Some obtain ok off where "read_run dk (fe_lba e) buf 0 (fe_size e) d1 = Some (ok, buf', off, d')"
        by (auto simp: fs_read_def split: bind_splits)
      with False assms(2) show ?thesis by (intro read_run_length) (auto simp: word_less_nat_alt)
    qed (use assms f Some in \<open>simp add: fs_read_def\<close>)
  qed (use assms f in \<open>simp add: fs_read_def\<close>)
qed

section \<open>Every operation keeps the table in order\<close>

lemma other_writer_iff: "other_writer i fs \<longleftrightarrow> \<not> writers fs \<subseteq> {i}"
  by (auto simp: other_writer_def writers_def)

lemma other_writer_set [simp]: "other_writer i (set_handle i h fs) \<longleftrightarrow> other_writer i fs"
proof -
  have "(fs_handles fs)[i := h] ! j = fs_handles fs ! j" if "j \<noteq> i" for j using that by simp
  then show ?thesis unfolding other_writer_def set_handle_simps by metis
qed

lemma set_handle_twice [simp]: "set_handle i h (set_handle i h' fs) = set_handle i h fs"
  by (simp add: set_handle_def)

lemma open_load_result:
  assumes "open_load dk name flags found i h fs = Some (r, fs')"
    and "length (fs_wbuf fs) = 65536" and "h_wlen h = 0"
  obtains h' where "fs_handles fs' = (fs_handles fs)[i := h']" "length (fs_wbuf fs') = 65536"
    "h_name h' = h_name h" "h_wlen h' \<le> FD_BUF_SIZE"
proof (cases found)
  case None
  with assms that show thesis by (auto simp: open_load_def open_done_def)
next
  case (Some e)
  consider "flags AND FS_O_TRUNC \<noteq> 0" | "flags AND FS_O_TRUNC = 0" "fe_size e > FD_BUF_SIZE"
    | "flags AND FS_O_TRUNC = 0" "\<not> fe_size e > FD_BUF_SIZE" by blast
  then show thesis
  proof cases
    case 3
    with assms(1) Some obtain r' wbuf d where
      rd: "fs_read dk (fs_sb fs) name (fs_wbuf fs) FD_BUF_SIZE (fs_dev fs) = Some (r', wbuf, d)"
      by (cases "fs_read dk (fs_sb fs) name (fs_wbuf fs) FD_BUF_SIZE (fs_dev fs)") (auto simp: open_load_def)
    with fs_read_length [OF rd] assms(2) have "length wbuf = 65536" by (simp add: FD_BUF_SIZE_def)
    with 3 rd Some assms(1,3) that show thesis
      by (auto simp: open_load_def open_done_def Let_def not_less split: if_splits)
  qed (use Some assms that in \<open>auto simp: open_load_def open_done_def\<close>)
qed

lemma open_writable_ok:
  assumes "handles_ok fs" and "i < 8" and "length (h_name h) = 23" and "0 \<in> set (h_name h)"
    and "h_wlen h = 0" and "open_writable dk name flags found i h (set_handle i h fs) = Some (r, fs')"
  shows "handles_ok fs'"
proof (cases "other_writer i fs")
  case True
  with assms(6) have "fs' = set_handle i (h\<lparr>h_used := False\<rparr>) fs" by (simp add: open_writable_def)
  then show ?thesis using handles_okD(2) [OF assms(1)]
    by (intro handles_ok_update [OF assms(1,2), of "h\<lparr>h_used := False\<rparr>"]) (simp_all add: handle_ok_def)
next
  case False
  then have w: "writers fs \<subseteq> {i}" by (simp add: other_writer_iff)
  from assms(6) False have
    "open_load dk name flags found i (h\<lparr>h_type := FS_FILE\<rparr>) (set_handle i (h\<lparr>h_type := FS_FILE\<rparr>) fs) = Some (r, fs')"
    by (simp add: open_writable_def Let_def)
  then obtain h' where h': "fs_handles fs' = (fs_handles fs)[i := h']" "length (fs_wbuf fs') = 65536"
    "h_name h' = h_name h" "h_wlen h' \<le> FD_BUF_SIZE"
    using handles_okD(2) [OF assms(1)] assms(5) by (elim open_load_result) simp_all
  show ?thesis
    using assms(3,4) h' w by (intro handles_ok_update [OF assms(1,2) _ _ h'(1,2)]) (simp_all add: handle_ok_def)
qed

lemma strcpy_name:
  "strcpy (replicate FS_MAX_NAME 0) name = Some nm \<Longrightarrow> length nm = 23 \<and> 0 \<in> set nm"
proof -
  have "strcpy ds ss = Some r \<Longrightarrow> length r = length ds \<and> 0 \<in> set r" for ds ss r
    by (induction ds ss arbitrary: r rule: strcpy.induct) (auto split: if_splits)
  then show "strcpy (replicate FS_MAX_NAME 0) name = Some nm \<Longrightarrow> length nm = 23 \<and> 0 \<in> set nm"
    by (fastforce simp: FS_MAX_NAME_def)
qed

lemma open_slot_ok:
  assumes "handles_ok fs" and "free_handle fs = Some i"
    and "open_slot dk name flags found i fs = Some (r, fs')"
  shows "handles_ok fs'"
proof -
  note ok = handles_okD [OF assms(1)]
  from assms(3) obtain nm where nm: "strcpy (replicate FS_MAX_NAME 0) name = Some nm"
    by (cases "strcpy (replicate FS_MAX_NAME 0) name") (auto simp: open_slot_def Let_def)
  let ?w = "flags AND (FS_O_WRONLY OR FS_O_RDWR) \<noteq> 0"
  let ?h = "handle_zero\<lparr>h_used := True, h_writable := ?w, h_name := nm\<rparr>"
  show ?thesis
  proof (cases ?w)
    case True
    with assms(3) nm have "open_writable dk name flags found i ?h (set_handle i ?h fs) = Some (r, fs')"
      by (simp add: open_slot_def Let_def)
    with strcpy_name [OF nm] free_handle_Some [OF assms(2)] show ?thesis
      by (intro open_writable_ok [OF assms(1), of i ?h]) (simp_all add: handle_zero_def)
  next
    case False
    with assms(3) nm obtain h where "fs' = set_handle i h fs" "\<not> h_writable h" "h_name h = nm"
      by (auto simp: open_slot_def Let_def split: option.splits)
    with strcpy_name [OF nm] free_handle_Some [OF assms(2)] ok(2) show ?thesis
      by (intro handles_ok_update [OF assms(1), of i h]) (simp_all add: handle_ok_def)
  qed
qed

lemma fs_open_cases:
  assumes "fs_open dk name flags fs = Some (r, fs')"
  obtains "r = -1" "fs' = fs"
  | found d where "fs_find dk (fs_sb fs) name (fs_dev fs) = Some (found, d)" "r = -1" "fs' = fs\<lparr>fs_dev := d\<rparr>"
  | found d i where "fs_find dk (fs_sb fs) name (fs_dev fs) = Some (found, d)"
      "free_handle (fs\<lparr>fs_dev := d\<rparr>) = Some i"
      "open_slot dk name flags found i (fs\<lparr>fs_dev := d\<rparr>) = Some (r, fs')"
proof -
  from assms obtain n where n: "strlen name = Some n" by (cases "strlen name") (simp_all add: fs_open_def)
  show thesis
  proof (cases "n \<ge> FS_MAX_NAME")
    case False
    have "fs_find dk (fs_sb fs) name (fs_dev fs) \<noteq> None"
    proof
      assume "fs_find dk (fs_sb fs) name (fs_dev fs) = None"
      with assms n False show False by (simp add: fs_open_def)
    qed
    then obtain found d where fnd: "fs_find dk (fs_sb fs) name (fs_dev fs) = Some (found, d)" by auto
    let ?dir = "case found of Some e \<Rightarrow> fe_type e = FS_DIR | None \<Rightarrow> False"
    show thesis
    proof (cases "found = None \<and> flags AND FS_O_CREAT = 0 \<or> ?dir \<or> free_handle (fs\<lparr>fs_dev := d\<rparr>) = None")
      case True
      with assms n False fnd have "r = -1" "fs' = fs\<lparr>fs_dev := d\<rparr>"
        by (auto simp: fs_open_def Let_def simp del: not_None_eq split: if_splits)
      with fnd show thesis by (rule that(2))
    next
      case False2: False
      then obtain i where i: "free_handle (fs\<lparr>fs_dev := d\<rparr>) = Some i" by blast
      from assms n False fnd False2 i have "open_slot dk name flags found i (fs\<lparr>fs_dev := d\<rparr>) = Some (r, fs')"
        by (simp only: fs_open_def bind.bind_lunit Let_def prod.case if_False option.case de_Morgan_disj)
      with fnd i show thesis by (rule that(3))
    qed
  qed (use assms n that(1) in \<open>simp add: fs_open_def\<close>)
qed

lemma fs_open_ok:
  assumes "handles_ok fs" and "fs_open dk name flags fs = Some (r, fs')"
  shows "handles_ok fs'"
proof -
  have "handles_ok (fs\<lparr>fs_dev := d\<rparr>)" for d
    using handles_okD(2) [OF assms(1)] by (intro handles_ok_same [OF assms(1)]) simp_all
  note dev = this
  from assms(2) show ?thesis
  proof (cases rule: fs_open_cases)
    case 3
    from open_slot_ok [OF dev 3(2,3)] show ?thesis .
  qed (simp_all add: assms(1) dev)
qed

lemma fs_read_fd_ok:
  assumes "handles_ok fs" and "fs_read_fd dk fd buf n fs = Some (r, buf', fs')"
  shows "handles_ok fs'"
proof (cases "fd_lookup fd fs")
  case None
  with assms show ?thesis by (simp add: fs_read_fd_def)
next
  case (Some p)
  obtain i h where p: "p = (i, h)" by (cases p)
  with Some have i: "i < 8" "h = fs_handles fs ! i" "h_used h" by (auto simp: fd_lookup_Some)
  note ok = handles_okD [OF assms(1)]
  have "\<exists>d off. fs' = fs\<lparr>fs_dev := d\<rparr> \<or>
      fs' = set_handle i (h\<lparr>h_offset := off\<rparr>) (fs\<lparr>fs_dev := d\<rparr>) \<or> fs' = set_handle i (h\<lparr>h_offset := off\<rparr>) fs \<or> fs' = fs"
  proof (cases "h_writable h")
    case True
    with assms(2) Some p show ?thesis by (auto simp: fs_read_fd_def Let_def split: bind_splits)
  next
    case False
    let ?avail = "if h_offset h < h_size h then h_size h - h_offset h else 0"
    let ?n = "if n > ?avail then ?avail else n"
    show ?thesis
    proof (cases "?n = 0")
      case True
      with False assms(2) Some p show ?thesis by (simp only: fs_read_fd_def option.case prod.case if_False Let_def if_P) simp
    next
      case nz: False
      with False assms(2) Some p obtain ok b dn d where
        "stream_loop dk h ?n 0 buf (fs_dev fs) = Some (ok, b, dn, d)"
        by (cases "stream_loop dk h ?n 0 buf (fs_dev fs)") (simp_all only: fs_read_fd_def option.case prod.case if_False Let_def bind.bind_lzero, auto)
      with nz False assms(2) Some p show ?thesis
        by (simp only: fs_read_fd_def option.case prod.case if_False Let_def bind.bind_lunit) (auto split: if_splits)
    qed
  qed
  moreover have "handles_ok (fs\<lparr>fs_dev := d\<rparr>)" for d
    using ok(2) by (intro handles_ok_same [OF assms(1)]) simp_all
  moreover have "handles_ok (set_handle i (h\<lparr>h_offset := off\<rparr>) fs1)"
    if "fs_handles fs1 = fs_handles fs" "fs_wbuf fs1 = fs_wbuf fs" for off and fs1 :: "'a fs_state"
    using ok i writer_slot [OF assms(1), of i] that
    by (intro handles_ok_update [OF assms(1), of i "h\<lparr>h_offset := off\<rparr>"])
      (auto simp: handle_ok_def writers_def FS_MAX_OPEN_def)
  ultimately show ?thesis using assms(1) by auto
qed

lemma fs_seek_ok:
  assumes "handles_ok fs" and "fs_seek fd off whence fs = (r, fs')"
  shows "handles_ok fs'"
proof (cases "fd_lookup fd fs")
  case None
  with assms show ?thesis by (simp add: fs_seek_def)
next
  case (Some p)
  obtain i h where p: "p = (i, h)" by (cases p)
  with Some have i: "i < 8" "h = fs_handles fs ! i" "h_used h" by (auto simp: fd_lookup_Some)
  note ok = handles_okD [OF assms(1)]
  from assms(2) Some p have "\<exists>pos. fs' = fs \<or> fs' = set_handle i (h\<lparr>h_offset := pos\<rparr>) fs"
    by (auto simp: fs_seek_def Let_def split: if_splits)
  moreover have "handles_ok (set_handle i (h\<lparr>h_offset := pos\<rparr>) fs)" for pos
    using ok i writer_slot [OF assms(1), of i]
    by (intro handles_ok_update [OF assms(1), of i "h\<lparr>h_offset := pos\<rparr>"])
      (auto simp: handle_ok_def writers_def FS_MAX_OPEN_def)
  ultimately show ?thesis using assms(1) by auto
qed

lemma fs_close_ok:
  assumes "handles_ok fs" and "fs_close dk fd fs = Some (r, fs')"
  shows "handles_ok fs'"
proof (cases "fd_lookup fd fs")
  case None
  with assms show ?thesis by (simp add: fs_close_def)
next
  case (Some p)
  obtain i h where p: "p = (i, h)" by (cases p)
  with Some have i: "i < 8" by (simp add: fd_lookup_Some)
  from assms(2) Some p obtain d where "fs' = set_handle i (h\<lparr>h_used := False\<rparr>) (fs\<lparr>fs_dev := d\<rparr>)"
    by (auto simp: fs_close_def split: bind_splits if_splits)
  with handles_okD(2) [OF assms(1)] i show ?thesis
    by (intro handles_ok_update [OF assms(1), of i "h\<lparr>h_used := False\<rparr>"]) (simp_all add: handle_ok_def)
qed

lemma close_from_ok: "handles_ok fs \<Longrightarrow> close_from dk is fs = Some fs' \<Longrightarrow> handles_ok fs'"
  by (induction dk "is" fs rule: close_from.induct) (auto split: if_splits bind_splits dest: fs_close_ok)

section \<open>A writable handle is a file with a position\<close>

text \<open>Writing \<open>xs\<close> at \<open>pos\<close>: a gap is filled with zeros, what is behind stays.\<close>

definition overwrite :: "byte list \<Rightarrow> nat \<Rightarrow> byte list \<Rightarrow> byte list" where
  "overwrite bs pos xs = take pos (bs @ replicate (pos - length bs) 0) @ xs @ drop (pos + length xs) bs"

lemma overwrite_blit:
  assumes "l \<le> length w" and "p + length ys \<le> length w" and "p \<le> l"
  shows "take (max l (p + length ys)) (blit w p ys) = overwrite (take l w) p ys"
proof (cases "p + length ys \<le> l")
  case True
  then show ?thesis using assms by (cases "l = p") (auto simp: blit_def overwrite_def min_def max_def drop_take)
next
  case False
  then show ?thesis using assms by (simp add: blit_def overwrite_def min_def max_def)
qed

lemma overwrite_gap:
  assumes "l < p" and "p + length ys \<le> length w"
  shows "take (p + length ys) (blit (take l w @ replicate (p - l) 0 @ drop p w) p ys) = overwrite (take l w) p ys"
  using assms by (auto simp: blit_def overwrite_def min_def)

lemma fs_write_fd_spec:
  assumes "handles_ok fs" and "fd_lookup fd fs = Some (i, h)" and "h_writable h"
    and "unat (h_offset h) + unat n \<le> 65536" and "unat n \<le> length buf"
  shows "\<exists>fs'. fs_write_fd fd buf n fs = Some (int (unat n), fs') \<and> handles_ok fs' \<and>
    fs_handles fs' = (fs_handles fs)[i := h\<lparr>h_wlen := max (h_wlen h) (h_offset h + n),
      h_offset := h_offset h + n, h_dirty := True\<rparr>] \<and>
    fs_dev fs' = fs_dev fs \<and> fs_sb fs' = fs_sb fs \<and>
    take (unat (max (h_wlen h) (h_offset h + n))) (fs_wbuf fs') =
      overwrite (take (unat (h_wlen h)) (fs_wbuf fs)) (unat (h_offset h)) (take (unat n) buf)"
proof -
  note ok = handles_okD [OF assms(1)]
  from assms(2) have i: "i < 8" "h = fs_handles fs ! i" "h_used h" by (auto simp: fd_lookup_Some)
  with ok(3) [OF i(1)] assms(3) have wlen: "unat (h_wlen h) \<le> 65536"
    by (simp add: handle_ok_def FD_BUF_SIZE_def word_le_nat_alt)
  have n: "unat n \<le> 65536" using assms(4) by simp
  then have guard: "\<not> (n > FD_BUF_SIZE \<or> h_offset h > FD_BUF_SIZE - n)"
    using assms(4) by (simp add: FD_BUF_SIZE_def word_less_nat_alt word_le_nat_alt unat_sub_no_wrap)
  have pos: "unat (h_offset h + n) = unat (h_offset h) + unat n"
    using assms(4) by (simp add: unat_add_no_wrap)
  let ?w = "fs_wbuf fs" and ?l = "unat (h_wlen h)" and ?o = "unat (h_offset h)"
  let ?grow = "h_offset h + n > h_wlen h"
  have grow: "?grow \<longleftrightarrow> ?o + unat n > ?l" by (simp add: word_less_nat_alt pos)
  let ?w1 = "if ?grow \<and> h_offset h > h_wlen h then take ?l ?w @ replicate (?o - ?l) 0 @ drop ?o ?w else ?w"
  have gap: "memset (drop ?l ?w) 0 (unat (h_offset h - h_wlen h)) = Some (replicate (?o - ?l) 0 @ drop ?o ?w)"
    if "h_offset h > h_wlen h"
  proof -
    have "unat (h_offset h - h_wlen h) = ?o - ?l" "?l \<le> ?o"
      using that by (simp_all add: unat_sub_no_wrap word_less_nat_alt word_le_nat_alt)
    then show ?thesis using ok(2) assms(4) by (simp add: memset_eq)
  qed
  have len1: "length ?w1 = 65536" using ok(2) assms(4) by (auto simp: word_less_nat_alt)
  then have cp: "copy_to ?w1 ?o buf (unat n) = Some (blit ?w1 ?o (take (unat n) buf))"
    using assms(4,5) by (intro copy_to_eq) simp_all
  let ?h = "h\<lparr>h_wlen := max (h_wlen h) (h_offset h + n), h_offset := h_offset h + n, h_dirty := True\<rparr>"
  let ?fs = "set_handle i ?h (fs\<lparr>fs_wbuf := blit ?w1 ?o (take (unat n) buf)\<rparr>)"
  have sn: "sint n = int (unat n)" using n by (intro sint_small) simp
  have run: "fs_write_fd fd buf n fs = Some (int (unat n), ?fs)"
  proof (cases ?grow)
    case True
    then have mx: "max (h_wlen h) (h_offset h + n) = h_offset h + n" by (simp add: max_def less_imp_le)
    show ?thesis
      using True assms(2,3) guard gap cp sn by (cases "h_offset h > h_wlen h") (simp_all add: fs_write_fd_def mx)
  next
    case False
    then have mx: "h\<lparr>h_wlen := max (h_wlen h) (h_offset h + n), h_offset := h_offset h + n, h_dirty := True\<rparr> =
        h\<lparr>h_offset := h_offset h + n, h_dirty := True\<rparr>" by (simp add: max_def not_less)
    show ?thesis using False assms(2,3) guard cp sn by (simp add: fs_write_fd_def mx)
  qed
  have mx: "unat (max (h_wlen h) (h_offset h + n)) = max ?l (?o + unat n)"
    by (simp add: max_def word_le_nat_alt pos)
  have "handles_ok ?fs"
    using len1 ok(3) [OF i(1)] i assms(3,4,5) writer_slot [OF assms(1), of i] mx wlen n
    by (intro handles_ok_update [OF assms(1) i(1), of ?h])
      (auto simp: handle_ok_def writers_def FS_MAX_OPEN_def FD_BUF_SIZE_def word_le_nat_alt)
  moreover have "take (max ?l (?o + unat n)) (blit ?w1 ?o (take (unat n) buf)) =
      overwrite (take ?l ?w) ?o (take (unat n) buf)"
  proof (cases "?l < ?o")
    case True
    then have "?grow" "h_offset h > h_wlen h" by (simp_all add: pos word_less_nat_alt)
    then show ?thesis using True overwrite_gap [of ?l ?o "take (unat n) buf" ?w] ok(2) assms(4,5)
      by (simp add: max_def)
  next
    case False
    then have "\<not> h_offset h > h_wlen h" by (simp add: word_less_nat_alt)
    then show ?thesis using False overwrite_blit [of ?l ?w ?o "take (unat n) buf"] ok(2) assms(4,5) wlen
      by simp
  qed
  ultimately show ?thesis using run mx by (intro exI [of _ ?fs]) simp
qed

end
