(* ===== verification/FsCalls.thy ===== *)
theory FsCalls
  imports FsHandle
begin

text \<open>
  The handle layer as a system: a step relation over the calls on open files, the states reachable
  from boot, and what a program sees that opens, seeks, reads, writes and closes a file.
\<close>

section \<open>Reading through a handle\<close>

context reliable_device
begin

lemma stream_loop_eq:
  assumes "dev_ok d" and "unat (h_lba h) + m \<le> cap" and "cap < 2 ^ 32"
    and "unat (h_offset h) + unat n \<le> 512 * m" and "unat (h_offset h) + unat n < 2 ^ 32"
    and "unat done \<le> unat n" and "unat n \<le> length buf"
  shows "\<exists>d'. stream_loop dk h n done buf d = Some (True, blit buf (unat done)
      (take (unat n - unat done) (drop (unat (h_offset h) + unat done)
        (concat (map (\<lambda>k. sec d (h_lba h + of_nat k)) [0..<m])))), n, d') \<and>
    dev_ok d' \<and> sec d' = sec d"
  using assms(1,6,7)
proof (induction "unat n - unat done" arbitrary: "done" buf d rule: less_induct)
  case less
  let ?F = "concat (map (\<lambda>k. sec d (h_lba h + of_nat k)) [0..<m])"
  let ?O = "unat (h_offset h)" and ?N = "unat n" and ?D = "unat done"
  show ?case
  proof (cases "done < n")
    case False
    with less.prems(2) have "done = n" by (simp add: word_less_nat_alt word_unat_eq_iff)
    with less.prems show ?thesis by (simp add: stream_loop.simps)
  next
    case True
    then have DN: "?D < ?N" by (simp add: word_less_nat_alt)
    let ?pos = "h_offset h + done"
    let ?k = "(?O + ?D) div 512" and ?w = "(?O + ?D) mod 512"
    have pos: "unat ?pos = ?O + ?D" using DN assms(5) by (simp add: unat_add_no_wrap)
    have km: "?k < m" using DN assms(4) by (simp add: less_mult_imp_div_less mult.commute)
    have "?k < 4294967296" using DN assms(5) by simp
    then have kw: "?pos div 512 = of_nat ?k"
      by (intro word_unat_eq_iff [THEN iffD2]) (simp add: unat_div of_nat_unat_small pos)
    note in_run = run_sector_in [OF assms(2,3) km]
    from read_E [OF less.prems(1) in_run(2)] obtain d1 where
      d1: "dk_read dk (h_lba h + ?pos div 512) d = (Some (sec d (h_lba h + of_nat ?k)), d1)"
        "dev_ok d1" "sec d1 = sec d" unfolding kw by blast
    have lens: "\<forall>x\<in>set (map (\<lambda>k. sec d (h_lba h + of_nat k)) [0..<m]). length x = 512"
      using sec_length [OF less.prems(1)] by auto
    have F: "take 512 (drop (512 * ?k) ?F) = sec d (h_lba h + of_nat ?k)" "length ?F = 512 * m"
      using chunk_of_concat [OF lens, of ?k] length_concat_same [OF lens] km by simp_all
    obtain T where T: "T = (if 512 - ?pos mod 512 > n - done then n - done else 512 - ?pos mod 512)" by blast
    have w: "unat (?pos mod 512) = ?w" by (simp add: unat_mod pos)
    then have "unat (512 - ?pos mod 512) = 512 - ?w" by (simp add: unat_sub_no_wrap word_le_nat_alt)
    moreover have "unat (n - done) = ?N - ?D" using DN by (simp add: unat_sub_no_wrap word_le_nat_alt)
    ultimately have t: "unat T = min (512 - ?w) (?N - ?D)" by (simp add: T word_less_nat_alt min_def)
    have tpos: "0 < unat T" "?D + unat T \<le> ?N" using t DN by auto
    then have done': "unat (done + T) = ?D + unat T"
      using unat_u32_lt [of n] by (intro unat_add_no_wrap) linarith
    let ?A = "take (unat T) (drop ?w (sec d (h_lba h + of_nat ?k)))"
    have "?A = take (unat T) (drop (?w + 512 * ?k) ?F)"
      unfolding F(1) [symmetric] by (simp add: drop_take t)
    then have A: "?A = take (unat T) (drop (?O + ?D) ?F)" by simp
    have lenA: "length ?A = unat T" using sec_length [OF less.prems(1)] t by simp
    let ?buf = "blit buf ?D ?A"
    have cp: "copy_to buf ?D (drop ?w (sec d (h_lba h + of_nat ?k))) (unat T) = Some ?buf"
      using less.prems(3) tpos lenA by (intro copy_to_eq) auto
    have room: "?N \<le> length ?buf" using lenA tpos less.prems(3) by simp
    have less': "?N - unat (done + T) < ?N - ?D" "unat (done + T) \<le> ?N"
      unfolding done' using tpos by linarith+
    obtain d' where
      d': "stream_loop dk h n (done + T) ?buf d1 = Some (True, blit ?buf (?D + unat T)
          (take (?N - (?D + unat T)) (drop (?O + (?D + unat T)) ?F)), n, d')" "dev_ok d'" "sec d' = sec d"
      using less.hyps [OF less'(1) d1(2) less'(2) room] unfolding done' d1(3) by blast
    have "blit ?buf (?D + unat T) (take (?N - (?D + unat T)) (drop (?O + (?D + unat T)) ?F)) =
        blit buf ?D (?A @ take (?N - (?D + unat T)) (drop (?O + (?D + unat T)) ?F))"
      using blit_adjacent [of ?D ?A "take (?N - (?D + unat T)) (drop (?O + (?D + unat T)) ?F)" buf]
        lenA tpos F(2) assms(4) less.prems(3) by simp
    also have "?A @ take (?N - (?D + unat T)) (drop (?O + (?D + unat T)) ?F) =
        take (unat T + (?N - (?D + unat T))) (drop (?O + ?D) ?F)"
      unfolding A take_add by (simp add: ac_simps)
    also have "unat T + (?N - (?D + unat T)) = ?N - ?D" using tpos by simp
    finally have fin: "blit ?buf (?D + unat T) (take (?N - (?D + unat T)) (drop (?O + (?D + unat T)) ?F)) =
        blit buf ?D (take (?N - ?D) (drop (?O + ?D) ?F))" .
    have "stream_loop dk h n done buf d = stream_loop dk h n (done + T) ?buf d1"
      using True d1(1) cp by (subst stream_loop.simps) (simp add: Let_def w T [symmetric])
    with d' fin show ?thesis by auto
  qed
qed

end


section \<open>System calls as steps\<close>

text \<open>One call on the handle layer. The last rule is any call that goes to the disk directly
  (fs_write, fs_append, fs_mkdir, fs_unlink): the handles are not touched.\<close>

inductive fs_call :: "'d disk \<Rightarrow> 'd fs_state \<Rightarrow> 'd fs_state \<Rightarrow> bool" for dk where
  open_call: "fs_open dk name flags fs = Some (r, fs') \<Longrightarrow> fs_call dk fs fs'"
| read_call: "fs_read_fd dk fd buf n fs = Some (r, buf', fs') \<Longrightarrow> fs_call dk fs fs'"
| write_call: "fs_write_fd fd buf n fs = Some (r, fs') \<Longrightarrow> fs_call dk fs fs'"
| seek_call: "fs_seek fd off whence fs = (r, fs') \<Longrightarrow> fs_call dk fs fs'"
| close_call: "fs_close dk fd fs = Some (r, fs') \<Longrightarrow> fs_call dk fs fs'"
| close_all_call: "fs_close_all dk fs = Some fs' \<Longrightarrow> fs_call dk fs fs'"
| disk_call: "fs_call dk fs (fs\<lparr>fs_dev := d\<rparr>)"

lemma copy_to_enough: "copy_to buf i src n = Some r \<Longrightarrow> n \<le> length src"
  using memcpy_Some_len [of "drop i buf" src n] by (auto simp: copy_to_def split: bind_splits)

lemma fits_buffer:
  "\<not> (n > FD_BUF_SIZE \<or> off > FD_BUF_SIZE - n) \<longleftrightarrow> unat off + unat n \<le> 65536"
proof (cases "unat n \<le> 65536")
  case True
  then have "unat (FD_BUF_SIZE - n) = 65536 - unat n"
    by (simp add: FD_BUF_SIZE_def unat_sub_no_wrap word_le_nat_alt)
  with True show ?thesis by (auto simp: FD_BUF_SIZE_def word_less_nat_alt not_less)
qed (simp add: FD_BUF_SIZE_def word_less_nat_alt)

lemma fs_write_fd_answers:
  assumes "handles_ok fs" and "fd_lookup fd fs = Some (i, h)" and "unat n \<le> length buf"
  shows "\<exists>r fs'. fs_write_fd fd buf n fs = Some (r, fs') \<and>
    (if h_writable h \<and> unat (h_offset h) + unat n \<le> 65536 then r = int (unat n) else r = -1 \<and> fs' = fs)"
proof (cases "h_writable h \<and> unat (h_offset h) + unat n \<le> 65536")
  case True
  with fs_write_fd_spec [OF assms(1,2) _ _ assms(3)] show ?thesis by auto
next
  case False
  then have "\<not> h_writable h \<or> n > FD_BUF_SIZE \<or> h_offset h > FD_BUF_SIZE - n"
    using fits_buffer [of n "h_offset h"] by blast
  with False assms(2) show ?thesis by (auto simp: fs_write_fd_def)
qed

lemma fs_write_fd_fails:
  assumes "fs_write_fd fd buf n fs = Some (r, fs')"
    and "\<nexists>i h. fd_lookup fd fs = Some (i, h) \<and> h_writable h \<and> \<not> (n > FD_BUF_SIZE \<or> h_offset h > FD_BUF_SIZE - n)"
  shows "r = -1" "fs' = fs"
  using assms by (auto simp: fs_write_fd_def split: option.splits if_splits)

lemma fs_write_fd_ok:
  assumes "handles_ok fs" and "fs_write_fd fd buf n fs = Some (r, fs')"
  shows "handles_ok fs'"
proof (cases "\<exists>i h. fd_lookup fd fs = Some (i, h) \<and> h_writable h \<and> \<not> (n > FD_BUF_SIZE \<or> h_offset h > FD_BUF_SIZE - n)")
  case True
  then obtain i h where h: "fd_lookup fd fs = Some (i, h)" "h_writable h" "n \<le> FD_BUF_SIZE" "h_offset h \<le> FD_BUF_SIZE - n"
    by (auto simp: not_less)
  have room: "unat (h_offset h) + unat n \<le> 65536"
    using h(3,4) by (simp add: FD_BUF_SIZE_def word_le_nat_alt unat_sub_no_wrap)
  from assms(2) h have "\<exists>w w'. copy_to w (unat (h_offset h)) buf (unat n) = Some w'"
    by (fastforce simp: fs_write_fd_def split: bind_splits if_splits)
  then have "unat n \<le> length buf" using copy_to_enough by blast
  from fs_write_fd_spec [OF assms(1) h(1,2) room this] assms(2) show ?thesis by auto
next
  case False
  from fs_write_fd_fails [OF assms(2) False] assms(1) show ?thesis by simp
qed

lemma fs_call_ok: "fs_call dk fs fs' \<Longrightarrow> handles_ok fs \<Longrightarrow> handles_ok fs'"
proof (induction rule: fs_call.induct)
  case (close_all_call fs fs')
  then show ?case by (auto simp: fs_close_all_def dest: close_from_ok)
next
  case (disk_call fs d)
  then show ?case by (simp add: handles_ok_same handles_okD(2))
qed (auto dest: fs_open_ok fs_read_fd_ok fs_write_fd_ok fs_seek_ok fs_close_ok)

text \<open>The statics after fs_mount: no handle in use.\<close>

definition fs_boot :: "superblock \<Rightarrow> 'd \<Rightarrow> 'd fs_state" where
  "fs_boot sb d = \<lparr>fs_sb = sb, fs_dev = d, fs_handles = replicate FS_MAX_OPEN handle_zero,
     fs_wbuf = replicate 65536 0\<rparr>"

lemma fs_boot_ok: "handles_ok (fs_boot sb d)"
  by (auto simp: handles_ok_def fs_boot_def writers_def handle_ok_def handle_zero_def)

lemma reachable_ok: "(fs_call dk)\<^sup>*\<^sup>* (fs_boot sb d) fs \<Longrightarrow> handles_ok fs"
  by (induction rule: rtranclp_induct) (simp_all add: fs_boot_ok fs_call_ok)

text \<open>C29: the write buffer has one owner and is never overrun. Whatever sequence of calls is made from
  boot, on any disk and with any arguments, at most one open handle is writable, its contents fit the 64 KB
  buffer, and every open handle has a terminated name of at most 22 characters. In every such state a
  further write through an open handle is decided: it is accepted when the handle is writable and the bytes
  end within 64 KB of the start, and otherwise answers -1 and changes nothing; it never touches memory
  outside the buffer.\<close>

theorem one_writer:
  assumes "(fs_call dk)\<^sup>*\<^sup>* (fs_boot sb d) fs"
    and "i < FS_MAX_OPEN" and "h_used (fs_handles fs ! i)"
  shows "(\<exists>n<23. strlen (h_name (fs_handles fs ! i)) = Some n) \<and>
    (h_writable (fs_handles fs ! i) \<longrightarrow>
      h_wlen (fs_handles fs ! i) \<le> FD_BUF_SIZE \<and> length (fs_wbuf fs) = unat FD_BUF_SIZE \<and>
      (\<forall>j<FS_MAX_OPEN. h_used (fs_handles fs ! j) \<and> h_writable (fs_handles fs ! j) \<longrightarrow> j = i)) \<and>
    (\<forall>buf n. unat n \<le> length buf \<longrightarrow> (\<exists>r fs'. fs_write_fd (3 + int i) buf n fs = Some (r, fs') \<and>
      (if h_writable (fs_handles fs ! i) \<and> unat (h_offset (fs_handles fs ! i)) + unat n \<le> 65536
       then r = int (unat n) else r = -1 \<and> fs' = fs)))"
proof -
  note ok' = reachable_ok [OF assms(1)] note ok = handles_okD [OF ok']
  have "0 \<in> set ns \<Longrightarrow> \<exists>n<length ns. strlen ns = Some n" for ns
    by (induction ns) auto
  with ok(3) [of i] assms have "\<exists>n<23. strlen (h_name (fs_handles fs ! i)) = Some n"
    by (fastforce simp: handle_ok_def FS_MAX_OPEN_def)
  moreover have "h_writable (fs_handles fs ! i) \<Longrightarrow> h_wlen (fs_handles fs ! i) \<le> FD_BUF_SIZE"
    using ok(3) [of i] assms by (simp add: handle_ok_def FS_MAX_OPEN_def)
  moreover have "fd_lookup (3 + int i) fs = Some (i, fs_handles fs ! i)"
    using assms(2,3) ok(1) by (simp add: fd_lookup_Some FS_MAX_OPEN_def)
  ultimately show ?thesis using ok(2,4) assms(2,3) fs_write_fd_answers [OF ok']
    by (simp add: writers_def FD_BUF_SIZE_def)
qed

section \<open>A file through its handle\<close>

definition new_handle :: "byte list \<Rightarrow> bool \<Rightarrow> fs_handle" where
  "new_handle nm w = handle_zero\<lparr>h_used := True, h_writable := w,
     h_name := nm @ 0 # replicate (22 - length nm) 0\<rparr>"

lemma strcpy_new_name:
  "nul_free nm \<Longrightarrow> length nm < 23 \<Longrightarrow>
    strcpy (replicate FS_MAX_NAME 0) (nm @ 0 # r) = Some (nm @ 0 # replicate (22 - length nm) 0)"
  by (simp add: strcpy_terminated FS_MAX_NAME_def)

context reliable_device
begin

lemma fs_open_slot:
  assumes "fs_ok (fs_sb fs) cap (sec (fs_dev fs))" and "dev_ok (fs_dev fs)"
    and "nul_free nm" and "length nm < 23" and "free_handle fs = Some i"
    and "lookup (fs_sb fs) (sec (fs_dev fs)) nm = None \<Longrightarrow> flags AND FS_O_CREAT \<noteq> 0"
    and "\<And>e. lookup (fs_sb fs) (sec (fs_dev fs)) nm = Some e \<Longrightarrow> fe_type e \<noteq> FS_DIR"
  shows "\<exists>d'. fs_open dk (nm @ 0 # r) flags fs =
      open_slot dk (nm @ 0 # r) flags (lookup (fs_sb fs) (sec (fs_dev fs)) nm) i (fs\<lparr>fs_dev := d'\<rparr>) \<and>
    dev_ok d' \<and> sec d' = sec (fs_dev fs)"
proof -
  from fs_find_eq [OF assms(1-3)] obtain d' where
    d': "fs_find dk (fs_sb fs) (nm @ 0 # r) (fs_dev fs) = Some (lookup (fs_sb fs) (sec (fs_dev fs)) nm, d')"
      "dev_ok d'" "sec d' = sec (fs_dev fs)" by blast
  have "free_handle (fs\<lparr>fs_dev := d'\<rparr>) = Some i" using assms(5) by (simp add: free_handle_def)
  then have "fs_open dk (nm @ 0 # r) flags fs =
      open_slot dk (nm @ 0 # r) flags (lookup (fs_sb fs) (sec (fs_dev fs)) nm) i (fs\<lparr>fs_dev := d'\<rparr>)"
    using assms(3,4,6,7) d'(1)
    by (cases "lookup (fs_sb fs) (sec (fs_dev fs)) nm") (auto simp: fs_open_def FS_MAX_NAME_def)
  with d' show ?thesis by blast
qed

lemma fs_open_create:
  assumes "fs_ok (fs_sb fs) cap (sec (fs_dev fs))" and "dev_ok (fs_dev fs)"
    and "nul_free nm" and "length nm < 23" and "free_handle fs = Some i" and "writers fs = {}"
    and "\<And>e. lookup (fs_sb fs) (sec (fs_dev fs)) nm = Some e \<Longrightarrow> fe_type e \<noteq> FS_DIR"
    and "flags = FS_O_WRONLY OR FS_O_CREAT OR FS_O_TRUNC"
  shows "\<exists>d'. fs_open dk (nm @ 0 # r) flags fs =
      Some (3 + int i, set_handle i ((new_handle nm True)\<lparr>h_type := FS_FILE\<rparr>) (fs\<lparr>fs_dev := d'\<rparr>)) \<and>
    dev_ok d' \<and> sec d' = sec (fs_dev fs)"
proof -
  have flags: "flags AND FS_O_CREAT \<noteq> 0" "flags AND (FS_O_WRONLY OR FS_O_RDWR) \<noteq> 0"
    "flags AND FS_O_TRUNC \<noteq> 0" "flags AND FS_O_APPEND = 0"
    by (simp_all add: assms(8) fs_consts)
  from fs_open_slot [OF assms(1-5) flags(1) assms(7)] obtain d' where
    d': "fs_open dk (nm @ 0 # r) flags fs =
        open_slot dk (nm @ 0 # r) flags (lookup (fs_sb fs) (sec (fs_dev fs)) nm) i (fs\<lparr>fs_dev := d'\<rparr>)"
      "dev_ok d'" "sec d' = sec (fs_dev fs)" by blast
  let ?fs = "fs\<lparr>fs_dev := d'\<rparr>" and ?h = "new_handle nm True"
  have "writers ?fs = {}" using assms(6) by (simp add: writers_def)
  then have ow: "\<not> other_writer i ?fs" by (simp add: other_writer_iff)
  have "open_slot dk (nm @ 0 # r) flags found i ?fs =
      open_writable dk (nm @ 0 # r) flags found i ?h (set_handle i ?h ?fs)" for found
    using flags(2) strcpy_new_name [OF assms(3,4), of r] by (simp add: open_slot_def new_handle_def Let_def)
  moreover have "open_writable dk (nm @ 0 # r) flags found i ?h (set_handle i ?h ?fs) =
      open_load dk (nm @ 0 # r) flags found i (?h\<lparr>h_type := FS_FILE\<rparr>)
        (set_handle i (?h\<lparr>h_type := FS_FILE\<rparr>) ?fs)" for found
    using ow by (simp add: open_writable_def Let_def)
  moreover have "open_load dk (nm @ 0 # r) flags found i (?h\<lparr>h_type := FS_FILE\<rparr>)
        (set_handle i (?h\<lparr>h_type := FS_FILE\<rparr>) ?fs) =
      Some (3 + int i, set_handle i (?h\<lparr>h_type := FS_FILE\<rparr>) ?fs)" for found
    using flags(3,4)
    by (cases found) (simp_all add: open_load_def open_done_def FS_FD_BASE_def new_handle_def handle_zero_def)
  ultimately show ?thesis using d' by auto
qed

lemma fs_open_read:
  assumes "fs_ok (fs_sb fs) cap (sec (fs_dev fs))" and "dev_ok (fs_dev fs)"
    and "nul_free nm" and "length nm < 23" and "free_handle fs = Some i"
    and "lookup (fs_sb fs) (sec (fs_dev fs)) nm = Some e" and "fe_type e \<noteq> FS_DIR"
  shows "\<exists>d'. fs_open dk (nm @ 0 # r) 0 fs =
      Some (3 + int i, set_handle i ((new_handle nm False)\<lparr>h_type := fe_type e, h_lba := fe_lba e,
        h_size := fe_size e\<rparr>) (fs\<lparr>fs_dev := d'\<rparr>)) \<and>
    dev_ok d' \<and> sec d' = sec (fs_dev fs)"
proof -
  from fs_open_slot [OF assms(1-5), of 0 r] assms(6,7) obtain d' where
    d': "fs_open dk (nm @ 0 # r) 0 fs = open_slot dk (nm @ 0 # r) 0 (Some e) i (fs\<lparr>fs_dev := d'\<rparr>)"
      "dev_ok d'" "sec d' = sec (fs_dev fs)" by auto
  have "open_slot dk (nm @ 0 # r) 0 (Some e) i (fs\<lparr>fs_dev := d'\<rparr>) =
      Some (3 + int i, set_handle i ((new_handle nm False)\<lparr>h_type := fe_type e, h_lba := fe_lba e,
        h_size := fe_size e\<rparr>) (fs\<lparr>fs_dev := d'\<rparr>))"
    using strcpy_new_name [OF assms(3,4), of r]
    by (simp add: open_slot_def new_handle_def Let_def FS_FD_BASE_def)
  with d' show ?thesis by auto
qed

lemma fs_read_fd_eq:
  assumes "dev_ok (fs_dev fs)" and "cap < 2 ^ 32" and "fd_lookup fd fs = Some (i, h)" and "\<not> h_writable h"
    and "entry_ok sb cap e" and "h_lba h = fe_lba e" and "h_size h = fe_size e"
    and "unat n \<le> length buf" and "unat n < 2 ^ 31"
    and "bs = take (unat n) (drop (unat (h_offset h)) (file_bytes (sec (fs_dev fs)) e))"
    and "length (fs_handles fs) = 8"
  shows "\<exists>d'. fs_read_fd dk fd buf n fs = Some (int (length bs), blit buf 0 bs,
      set_handle i (h\<lparr>h_offset := h_offset h + of_nat (length bs)\<rparr>) (fs\<lparr>fs_dev := d'\<rparr>)) \<and>
    dev_ok d' \<and> sec d' = sec (fs_dev fs)"
proof -
  let ?d = "fs_dev fs" and ?o = "unat (h_offset h)" and ?s = "unat (fe_size e)"
  from assms(3) have i: "i < 8" "h = fs_handles fs ! i" by (auto simp: fd_lookup_Some)
  have eo: "unat (fe_lba e) + entry_sectors e \<le> cap" "?s + 511 < 2 ^ 32"
    using assms(5) by (simp_all add: entry_ok_def)
  have s512: "?s \<le> 512 * entry_sectors e"
    using sectors_for_bounds(1) [OF eo(2)] by (simp add: entry_sectors_def sectors_for_def)
  let ?F = "concat (map (\<lambda>k. sec ?d (fe_lba e + of_nat k)) [0..<entry_sectors e])"
  have lenF: "length ?F = 512 * entry_sectors e"
    using sec_length [OF assms(1)] by (subst length_concat_same [where n = 512]) auto
  let ?avail = "if h_offset h < h_size h then h_size h - h_offset h else 0"
  obtain n' where n': "n' = (if n > ?avail then ?avail else n)" by blast
  have avail: "unat ?avail = ?s - ?o"
    by (simp add: assms(7) word_less_nat_alt word_le_nat_alt unat_sub_no_wrap)
  then have un': "unat n' = min (unat n) (?s - ?o)" by (simp add: n' word_less_nat_alt)
  have bs: "bs = take (unat n') (drop ?o ?F)" "length bs = unat n'"
    unfolding assms(10) file_bytes_def un' using s512 lenF by (simp_all add: drop_take min.commute)
  then have n_bs: "n' = of_nat (length bs)" by simp
  show ?thesis
  proof (cases "n' = 0")
    case True
    then have "bs = []" using bs by simp
    moreover have "set_handle i h fs = fs" using i assms(11) by (simp add: set_handle_def)
    ultimately show ?thesis using True assms(1,3,4) n'
      by (intro exI [of _ ?d]) (simp add: fs_read_fd_def Let_def)
  next
    case False
    then have "?o + unat n' \<le> ?s" using un' by (auto simp: word_unat_eq_iff min_def)
    then have m: "unat (h_offset h) + unat n' \<le> 512 * entry_sectors e"
      "unat (h_offset h) + unat n' < 2 ^ 32" using s512 eo(2) by simp_all
    have buf: "unat n' \<le> length buf" using un' assms(8) by simp
    have lba: "unat (h_lba h) + entry_sectors e \<le> cap" using eo(1) assms(6) by simp
    from stream_loop_eq [OF assms(1) lba assms(2) m _ buf, of 0] obtain d' where
      d': "stream_loop dk h n' 0 buf ?d = Some (True, blit buf 0 bs, n', d')"
      "dev_ok d'" "sec d' = sec ?d" unfolding bs(1) assms(6) by auto
    have "sint n' = int (length bs)" using bs(2) un' assms(9) by (simp add: sint_small)
    with False d' assms(3,4) show ?thesis
      by (intro exI [of _ d']) (simp add: fs_read_fd_def Let_def n_bs n' [symmetric])
  qed
qed

end


lemma lookup_new_slot:
  "free_handle fs = Some i \<Longrightarrow> handles_ok fs \<Longrightarrow> h_used h \<Longrightarrow> fd_lookup (3 + int i) (set_handle i h fs) = Some (i, h)"
  using free_handle_Some [of fs i] handles_okD(1) [of fs] by (simp add: fd_lookup_Some)

text \<open>C26: opening a file for reading, seeking to any offset and reading gives exactly the bytes of the
  file's contents from there, cut at the end of the file, however the range lies across sectors.\<close>

theorem open_seek_read:
  assumes "reliable_device dk sec cap dev_ok" and "handles_ok fs"
    and "fs_ok (fs_sb fs) cap (sec (fs_dev fs))" and "dev_ok (fs_dev fs)"
    and "nul_free nm" and "length nm < 23" and "free_handle fs = Some i"
    and "files (fs_sb fs) (sec (fs_dev fs)) nm = Some (t, contents)" and "t \<noteq> FS_DIR"
    and "unat pos < 2 ^ 31" and "unat n < 2 ^ 31" and "unat n \<le> length buf"
    and "bs = take (unat n) (drop (unat pos) contents)"
  shows "\<exists>fs1 fs2 fs3. fs_open dk (nm @ 0 # r) 0 fs = Some (3 + int i, fs1) \<and>
    fs_seek (3 + int i) pos FS_SEEK_SET fs1 = (int (unat pos), fs2) \<and>
    fs_read_fd dk (3 + int i) buf n fs2 = Some (int (length bs), bs @ drop (length bs) buf, fs3)"
proof -
  from assms(8) obtain e where e: "lookup (fs_sb fs) (sec (fs_dev fs)) nm = Some e" "fe_type e = t"
    "file_bytes (sec (fs_dev fs)) e = contents" by (auto simp: files_def)
  from reliable_device.fs_open_read [OF assms(1,3-7) e(1), of r] e(2) assms(9) obtain d1 where
    d1: "fs_open dk (nm @ 0 # r) 0 fs = Some (3 + int i, set_handle i ((new_handle nm False)
        \<lparr>h_type := t, h_lba := fe_lba e, h_size := fe_size e\<rparr>) (fs\<lparr>fs_dev := d1\<rparr>))"
      "dev_ok d1" "sec d1 = sec (fs_dev fs)" by auto
  let ?h = "(new_handle nm False)\<lparr>h_type := t, h_lba := fe_lba e, h_size := fe_size e\<rparr>"
  let ?fs1 = "set_handle i ?h (fs\<lparr>fs_dev := d1\<rparr>)"
  let ?fs2 = "set_handle i (?h\<lparr>h_offset := pos\<rparr>) ?fs1"
  have ok1: "handles_ok (fs\<lparr>fs_dev := d1\<rparr>)" and free1: "free_handle (fs\<lparr>fs_dev := d1\<rparr>) = Some i"
    using handles_ok_same [OF assms(2), of "fs\<lparr>fs_dev := d1\<rparr>"] handles_okD(2) [OF assms(2)] assms(7)
    by (simp_all add: free_handle_def)
  have look: "fd_lookup (3 + int i) ?fs1 = Some (i, ?h)" "fd_lookup (3 + int i) ?fs2 = Some (i, ?h\<lparr>h_offset := pos\<rparr>)"
    using lookup_new_slot [OF free1 ok1] by (simp_all add: new_handle_def)
  have seek: "fs_seek (3 + int i) pos FS_SEEK_SET ?fs1 = (int (unat pos), ?fs2)"
    using look(1) assms(10) by (simp add: fs_seek_def Let_def FS_SEEK_SET_def sint_small)
  have cap: "cap < 2 ^ 32" using assms(3) by (simp add: fs_ok_def geometry_ok_def)
  from reliable_device.fs_read_fd_eq [OF assms(1) _ cap look(2) _ lookup_entry_ok [OF assms(3) e(1)]
      _ _ assms(12,11), of bs] d1(2,3) e(3) assms(13) handles_okD(1) [OF assms(2)]
  obtain fs3 where "fs_read_fd dk (3 + int i) buf n ?fs2 = Some (int (length bs), blit buf 0 bs, fs3)"
    by (auto simp: new_handle_def handle_zero_def)
  moreover have "blit buf 0 bs = bs @ drop (length bs) buf" by (simp add: blit_def)
  ultimately show ?thesis using d1(1) seek by auto
qed

text \<open>C25: a program that opens a path with \<open>O_WRONLY | O_CREAT | O_TRUNC\<close>, writes up to 64 KB and
  closes has stored exactly those bytes under that path: the file system's abstract contents change as
  in one fs_write, and nothing reaches the disk before the close.\<close>

theorem create_write_close:
  assumes "reliable_device dk sec cap dev_ok" and "handles_ok fs"
    and "fs_ok (fs_sb fs) cap (sec (fs_dev fs))" and "dev_ok (fs_dev fs)"
    and "nul_free nm" and "nm \<noteq> []" and "length nm < 23" and "free_handle fs = Some i" and "writers fs = {}"
    and "\<And>t c. files (fs_sb fs) (sec (fs_dev fs)) nm = Some (t, c) \<Longrightarrow> t \<noteq> FS_DIR"
    and "\<And>q. parent_name nm = Some q \<Longrightarrow> files (fs_sb fs) (sec (fs_dev fs)) q \<noteq> None"
    and "chosen_slot (fs_sb fs) (sec (fs_dev fs)) nm \<noteq> None" and "length xs \<le> 65536"
    and "next_free (fs_sb fs) (sec (fs_dev fs)) + sectors_for (of_nat (length xs)) + 4 * length nm \<le> cap"
  shows "\<exists>fs1 fs2 fs3.
    fs_open dk (nm @ 0 # r) (FS_O_WRONLY OR FS_O_CREAT OR FS_O_TRUNC) fs = Some (3 + int i, fs1) \<and>
    fs_write_fd (3 + int i) xs (of_nat (length xs)) fs1 = Some (int (length xs), fs2) \<and>
    sec (fs_dev fs2) = sec (fs_dev fs) \<and>
    fs_close dk (3 + int i) fs2 = Some (0, fs3) \<and>
    fd_lookup (3 + int i) fs3 = None \<and>
    files (fs_sb fs3) (sec (fs_dev fs3)) =
      spec_write (files (fs_sb fs) (sec (fs_dev fs))) nm FS_FILE xs"
proof -
  let ?sb = "fs_sb fs" and ?f = "sec (fs_dev fs)" and ?n = "of_nat (length xs) :: u32"
  have n: "unat ?n = length xs" using assms(13) by (intro of_nat_unat_small) simp
  have nodir: "fe_type e \<noteq> FS_DIR" if "lookup ?sb ?f nm = Some e" for e
    using that assms(10) by (simp add: files_def)
  let ?h = "(new_handle nm True)\<lparr>h_type := FS_FILE\<rparr>"
  from reliable_device.fs_open_create [OF assms(1,3,4,5,7,8,9) nodir refl, of r] obtain d1 where
    op: "fs_open dk (nm @ 0 # r) (FS_O_WRONLY OR FS_O_CREAT OR FS_O_TRUNC) fs =
      Some (3 + int i, set_handle i ?h (fs\<lparr>fs_dev := d1\<rparr>))" "dev_ok d1" "sec d1 = ?f" by auto
  let ?fs1 = "set_handle i ?h (fs\<lparr>fs_dev := d1\<rparr>)"
  from fs_open_ok [OF assms(2) op(1)] have ok1: "handles_ok ?fs1" .
  have i8: "i < 8" using free_handle_Some [OF assms(8)] by simp
  then have look: "fd_lookup (3 + int i) ?fs1 = Some (i, ?h)"
    using handles_okD(1) [OF assms(2)] by (simp add: fd_lookup_Some new_handle_def)
  have h: "h_wlen ?h = 0" "h_offset ?h = 0" "h_writable ?h" "h_used ?h"
    by (simp_all add: new_handle_def handle_zero_def)
  from fs_write_fd_spec [OF ok1 look h(3), of ?n xs] assms(13) n h obtain fs2 where
    wr: "fs_write_fd (3 + int i) xs ?n ?fs1 = Some (int (length xs), fs2)" "handles_ok fs2"
      "fs_handles fs2 = (fs_handles ?fs1)[i := ?h\<lparr>h_wlen := ?n, h_offset := ?n, h_dirty := True\<rparr>]"
      "fs_dev fs2 = d1" "fs_sb fs2 = ?sb" "take (length xs) (fs_wbuf fs2) = xs"
    by (auto simp: overwrite_def)
  let ?h2 = "?h\<lparr>h_wlen := ?n, h_offset := ?n, h_dirty := True\<rparr>"
  have look2: "fd_lookup (3 + int i) fs2 = Some (i, ?h2)"
    using i8 h(4) handles_okD(1) [OF assms(2)] by (simp add: fd_lookup_Some wr(3))
  have len: "unat ?n \<le> length (fs_wbuf fs2)" using handles_okD(2) [OF wr(2)] n assms(13) by simp
  have ok1': "fs_ok ?sb cap (sec d1)" using assms(3) op(3) by simp
  have small: "unat ?n + 511 < 2 ^ 32" using n assms(13) by simp
  from reliable_device.fs_write_refines [OF assms(1) ok1' op(2) assms(5-7), of ?n "fs_wbuf fs2"
      "replicate (22 - length nm) 0" FS_FILE] assms(11) [unfolded files_None] assms(12,14) small len op(3)
  obtain d3 where d3: "fs_write dk ?sb (nm @ 0 # replicate (22 - length nm) 0) FS_FILE (fs_wbuf fs2) ?n d1 =
      Some (0, d3)" "files ?sb (sec d3) = spec_write (files ?sb ?f) nm FS_FILE (take (unat ?n) (fs_wbuf fs2))"
    by auto
  let ?fs3 = "set_handle i (?h2\<lparr>h_used := False\<rparr>) (fs2\<lparr>fs_dev := d3\<rparr>)"
  have "fs_close dk (3 + int i) fs2 = Some (0, ?fs3)"
    using look2 d3(1) wr(4,5) h by (simp add: fs_close_def new_handle_def)
  moreover have "fd_lookup (3 + int i) ?fs3 = None"
    using i8 handles_okD(1) [OF wr(2)] by (simp add: fd_lookup_def FS_FD_BASE_def Let_def)
  moreover have "files (fs_sb ?fs3) (sec (fs_dev ?fs3)) = spec_write (files ?sb ?f) nm FS_FILE xs"
    using d3(2) wr(5,6) n by simp
  ultimately show ?thesis using op wr(1,4) by (intro exI [of _ ?fs1] exI [of _ fs2] exI [of _ ?fs3]) simp
qed

lemma boot_free: "free_handle (fs_boot sb d) = Some 0"
  by (simp add: free_handle_def fs_boot_def FS_MAX_OPEN_def handle_zero_def upt_rec)

lemma boot_writers: "writers (fs_boot sb d) = {}"
  by (auto simp: writers_def fs_boot_def handle_zero_def)

lemma fs_boot_sel [simp]: "fs_sb (fs_boot sb d) = sb" "fs_dev (fs_boot sb d) = d"
  by (simp_all add: fs_boot_def)

lemma create_write_close_witness:
  "\<exists>fs1 fs2 fs3.
    fs_open (ata_disk drive_pio) (asc ''a'' @ 0 # []) (FS_O_WRONLY OR FS_O_CREAT OR FS_O_TRUNC)
      (fs_boot empty_sb drive_blank) = Some (3, fs1) \<and>
    fs_write_fd 3 [7, 8, 9] 3 fs1 = Some (3, fs2) \<and>
    fs_close (ata_disk drive_pio) 3 fs2 = Some (0, fs3) \<and>
    files (fs_sb fs3) (drive_sec (fs_dev fs3)) = [asc ''a'' \<mapsto> (FS_FILE, [7, 8, 9])]"
proof -
  have p: "parent_name (asc ''a'') = None" by (simp add: parent_name_def)
  have s: "sectors_for 3 = 1" by (simp add: sectors_for_def)
  from create_write_close [OF reliable_drive fs_boot_ok, of empty_sb drive_blank "asc ''a''" 0 "[7, 8, 9]" "[]"]
    fs_ok_blank drive_good_blank boot_free [of empty_sb drive_blank] boot_writers [of empty_sb drive_blank] next_free_blank chosen_slot_blank p s
  show ?thesis by (simp add: spec_write.simps files_blank) blast
qed

lemma open_seek_read_witness:
  "\<exists>d1 fs1 fs2 fs3. fs_write (ata_disk drive_pio) empty_sb (asc ''a'' @ 0 # []) FS_FILE (replicate 700 9) 700
      drive_blank = Some (0, d1) \<and>
    fs_open (ata_disk drive_pio) (asc ''a'' @ 0 # []) 0 (fs_boot empty_sb d1) = Some (3, fs1) \<and>
    fs_seek 3 510 FS_SEEK_SET fs1 = (510, fs2) \<and>
    fs_read_fd (ata_disk drive_pio) 3 (replicate 200 1) 200 fs2 =
      Some (190, replicate 190 9 @ replicate 10 1, fs3)"
proof -
  have p: "parent_name (asc ''a'') = None" by (simp add: parent_name_def)
  from blank_write [of "asc ''a''" 700 "replicate 700 9" "[]" FS_FILE] p obtain d1 where
    d1: "fs_write (ata_disk drive_pio) empty_sb (asc ''a'' @ 0 # []) FS_FILE (replicate 700 9) 700
      drive_blank = Some (0, d1)" "drive_good d1" "fs_ok empty_sb (2 ^ 28) (drive_sec d1)"
    "files empty_sb (drive_sec d1) = [asc ''a'' \<mapsto> (FS_FILE, replicate 700 9)]" by auto
  from open_seek_read [OF reliable_drive fs_boot_ok, of empty_sb d1 "asc ''a''" 0 FS_FILE "replicate 700 9"
      510 200 "replicate 200 1" "replicate 190 9" "[]"] d1 boot_free [of empty_sb d1]
  show ?thesis by (auto simp: FS_FILE_def FS_DIR_def)
qed

lemma one_writer_witness:
  "\<exists>fs. (fs_call (ata_disk drive_pio))\<^sup>*\<^sup>* (fs_boot empty_sb drive_blank) fs \<and>
    h_writable (fs_handles fs ! 0) \<and> h_used (fs_handles fs ! 0) \<and>
    (\<forall>j<8. h_used (fs_handles fs ! j) \<and> h_writable (fs_handles fs ! j) \<longrightarrow> j = 0)"
proof -
  let ?s = "fs_boot empty_sb drive_blank"
  from ata_good.fs_open_create [of ?s "asc ''a''" 0 _ "[]"] fs_ok_blank drive_good_blank boot_free [of empty_sb drive_blank]
    boot_writers [of empty_sb drive_blank] files_blank obtain d where
    op: "fs_open (ata_disk drive_pio) (asc ''a'' @ 0 # []) (FS_O_WRONLY OR FS_O_CREAT OR FS_O_TRUNC) ?s =
      Some (3, set_handle 0 ((new_handle (asc ''a'') True)\<lparr>h_type := FS_FILE\<rparr>) (?s\<lparr>fs_dev := d\<rparr>))"
    by (auto simp: files_def fun_eq_iff)
  let ?s1 = "set_handle 0 ((new_handle (asc ''a'') True)\<lparr>h_type := FS_FILE\<rparr>) (?s\<lparr>fs_dev := d\<rparr>)"
  have r: "(fs_call (ata_disk drive_pio))\<^sup>*\<^sup>* ?s ?s1" using fs_call.open_call [OF op] by blast
  have u: "h_used (fs_handles ?s1 ! 0)" "h_writable (fs_handles ?s1 ! 0)"
    by (simp_all add: fs_boot_def FS_MAX_OPEN_def new_handle_def)
  from r u obtain s1 where s1: "(fs_call (ata_disk drive_pio))\<^sup>*\<^sup>* ?s s1" "h_used (fs_handles s1 ! 0)"
    "h_writable (fs_handles s1 ! 0)" by blast
  from one_writer [OF s1(1) _ s1(2)] s1 show ?thesis by (auto simp: FS_MAX_OPEN_def)
qed

end
