(* ===== verification/Memory.thy ===== *)
theory Memory
  imports CString
begin

text \<open>
  kernel/memory.c: the E820 map, the bitmap of 4 KB frames, the kernel's identity page tables and the
  per-process directories. Physical memory is a function from word addresses; the frame bitmap is
  kept apart as a byte list, so an access past it is a fault (\<open>None\<close>), and the table of the boot
  loader is the list \<open>es\<close>. The address of \<open>page_dir[]\<close> and of \<open>_kernel_end\<close> are chosen by the
  linker and are parameters. Register \<open>cr3\<close> is a field; there is no TLB.
\<close>

section \<open>Data\<close>

definition PAGE_SIZE :: u32 where "PAGE_SIZE = 4096"
definition LOW_END :: u32 where "LOW_END = 0x100000"
definition E820_USABLE :: u32 where "E820_USABLE = 1"
definition USER_BASE :: u32 where "USER_BASE = 0x400000"
definition USER_TOP :: u32 where "USER_TOP = 0x800000"
definition USER_STACK :: u32 where "USER_STACK = 0x7FF000"
definition USER_PDE_FIRST :: u32 where "USER_PDE_FIRST = drop_bit 22 USER_BASE"
definition USER_PDE_LAST :: u32 where "USER_PDE_LAST = drop_bit 22 (USER_TOP - 1)"

record e820_entry =
  base_lo :: u32
  base_hi :: u32
  len_lo :: u32
  len_hi :: u32
  e_type :: u32
  attrs :: u32

record mem =
  mem_top :: u32
  nframes :: u32
  frames_free :: u32
  bitmap :: "byte list"
  ram :: "u32 \<Rightarrow> u32"
  page_dir :: u32
  cur_dir :: u32
  brk :: u32
  fault_count :: u32
  cr3 :: u32

section \<open>The E820 map\<close>

definition skipped :: "e820_entry \<Rightarrow> bool" where
  "skipped e \<longleftrightarrow> e_type e \<noteq> E820_USABLE \<or> base_hi e \<noteq> 0"

fun top_from :: "u32 \<Rightarrow> e820_entry list \<Rightarrow> u32" where
  "top_from hi [] = hi"
| "top_from hi (e # es) =
     (if skipped e then top_from hi es
      else
        let end_addr = base_lo e + len_lo e;
            end_addr = (if end_addr < base_lo e then 0xFFFFFFFF else end_addr)
        in top_from (if end_addr > hi then end_addr else hi) es)"

definition top_usable :: "e820_entry list \<Rightarrow> u32" where
  "top_usable es = top_from 0 es"

fun in_usable :: "e820_entry list \<Rightarrow> u32 \<Rightarrow> bool" where
  "in_usable [] addr = False"
| "in_usable (e # es) addr =
     (if skipped e then in_usable es addr
      else
        let diff = addr - base_lo e
        in if sint diff \<ge> 0 \<and> diff < len_lo e then True else in_usable es addr)"

section \<open>The frame bitmap\<close>

definition frame_used :: "mem \<Rightarrow> u32 \<Rightarrow> bool option" where
  "frame_used m i = do {
     b \<leftarrow> load (bitmap m) (unat (drop_bit 3 i));
     Some (drop_bit (unat (i AND 7)) b AND 1 \<noteq> 0) }"

definition frame_set :: "mem \<Rightarrow> u32 \<Rightarrow> mem option" where
  "frame_set m i = do {
     b \<leftarrow> load (bitmap m) (unat (drop_bit 3 i));
     Some (m\<lparr>bitmap := (bitmap m)[unat (drop_bit 3 i) := b OR push_bit (unat (i AND 7)) 1]\<rparr>) }"

definition frame_clear :: "mem \<Rightarrow> u32 \<Rightarrow> mem option" where
  "frame_clear m i = do {
     b \<leftarrow> load (bitmap m) (unat (drop_bit 3 i));
     Some (m\<lparr>bitmap := (bitmap m)[unat (drop_bit 3 i) := b AND NOT (push_bit (unat (i AND 7)) 1)]\<rparr>) }"

fun alloc_from :: "nat list \<Rightarrow> mem \<Rightarrow> (u32 \<times> mem) option" where
  "alloc_from [] m = Some (0, m)"
| "alloc_from (i # is) m = do {
     u \<leftarrow> frame_used m (of_nat i);
     if \<not> u then do {
       m \<leftarrow> frame_set m (of_nat i);
       Some (of_nat i * PAGE_SIZE, m\<lparr>frames_free := frames_free m - 1\<rparr>) }
     else alloc_from is m }"

definition alloc_frame :: "mem \<Rightarrow> (u32 \<times> mem) option" where
  "alloc_frame m = alloc_from [0..<unat (nframes m)] m"

definition free_frame :: "u32 \<Rightarrow> mem \<Rightarrow> mem option" where
  "free_frame addr m =
     (let i = addr div PAGE_SIZE
      in if i < nframes m then do {
           u \<leftarrow> frame_used m i;
           if u then do {
             m \<leftarrow> frame_clear m i;
             Some (m\<lparr>frames_free := frames_free m + 1\<rparr>) }
           else Some m }
         else Some m)"

text \<open>The three loops of memory_init. The last may run for ever when the bitmap ends in the last
  page of the address space; it is then \<open>None\<close>.\<close>

definition init_frame :: "e820_entry list \<Rightarrow> u32 \<Rightarrow> mem \<Rightarrow> mem option" where
  "init_frame es i m =
     (let addr = i * PAGE_SIZE;
          used = (if addr < LOW_END then True
                  else if addr \<ge> USER_BASE \<and> addr < USER_TOP then True
                  else \<not> in_usable es addr)
      in if \<not> used then do {
           m \<leftarrow> frame_clear m i;
           Some (m\<lparr>frames_free := frames_free m + 1\<rparr>) }
         else Some m)"

fun init_frames :: "e820_entry list \<Rightarrow> nat list \<Rightarrow> mem \<Rightarrow> mem option" where
  "init_frames es [] m = Some m"
| "init_frames es (i # is) m = init_frame es (of_nat i) m \<bind> init_frames es is"

definition reserve_one :: "u32 \<Rightarrow> mem \<Rightarrow> mem option" where
  "reserve_one a m =
     (let i = a div PAGE_SIZE
      in if i < nframes m then do {
           u \<leftarrow> frame_used m i;
           if \<not> u then do {
             m \<leftarrow> frame_set m i;
             Some (m\<lparr>frames_free := frames_free m - 1\<rparr>) }
           else Some m }
         else Some m)"

partial_function (option) reserve :: "u32 \<Rightarrow> u32 \<Rightarrow> mem \<Rightarrow> mem option" where
  "reserve a end_addr m =
     (if a < end_addr then reserve_one a m \<bind> reserve (a + PAGE_SIZE) end_addr else Some m)"

definition memory_init :: "e820_entry list \<Rightarrow> u32 \<Rightarrow> mem \<Rightarrow> mem option" where
  "memory_init es kernel_end m =
     (let hi = top_usable es;
          n = hi div PAGE_SIZE;
          bm_phys = (kernel_end + PAGE_SIZE - 1) AND NOT (PAGE_SIZE - 1);
          bm_bytes = (n + 7) div 8;
          m = m\<lparr>mem_top := hi, nframes := n, bitmap := replicate (unat bm_bytes) 0xFF, frames_free := 0\<rparr>
      in init_frames es [0..<unat n] m \<bind>
         reserve (bm_phys AND NOT (PAGE_SIZE - 1)) (bm_phys + bm_bytes))"

section \<open>The kernel's page tables\<close>

text \<open>\<open>memset\<close> and \<open>memcpy\<close> of one page of word-addressed memory.\<close>

definition zero_page :: "u32 \<Rightarrow> mem \<Rightarrow> mem" where
  "zero_page p m = m\<lparr>ram := (\<lambda>a. if a - p < PAGE_SIZE then 0 else ram m a)\<rparr>"

definition copy_page :: "u32 \<Rightarrow> u32 \<Rightarrow> mem \<Rightarrow> mem" where
  "copy_page p q m = m\<lparr>ram := (\<lambda>a. if a - p < PAGE_SIZE then ram m (q + (a - p)) else ram m a)\<rparr>"

definition poke :: "u32 \<Rightarrow> u32 \<Rightarrow> mem \<Rightarrow> mem" where
  "poke a v m = m\<lparr>ram := (ram m)(a := v)\<rparr>"

text \<open>One iteration of map_range: \<open>None\<close> inside says that no frame was left and the function returned.\<close>

definition map_page :: "u32 \<Rightarrow> bool \<Rightarrow> mem \<Rightarrow> (bool \<times> mem) option" where
  "map_page v user m = do {
     let pde = page_dir m + 4 * drop_bit 22 v;
     let us = (if user then 0x4 else 0);
     (ok, m) \<leftarrow>
       (if ram m pde AND 1 = 0 then do {
          (pt, m) \<leftarrow> alloc_frame m;
          Some (if pt = 0 then (False, m) else (True, poke pde (pt OR 0x3 OR us) (zero_page pt m))) }
        else Some (True, if \<not> user then poke pde (ram m pde AND NOT 0x4) m else m));
     Some (if \<not> ok then (False, m)
           else (True, poke ((ram m pde AND 0xFFFFF000) + 4 * (drop_bit 12 v AND 0x3FF)) (v OR 0x3 OR us) m)) }"

partial_function (option) map_pages :: "u32 \<Rightarrow> u32 \<Rightarrow> bool \<Rightarrow> mem \<Rightarrow> mem option" where
  "map_pages v end_addr user m =
     (if v < end_addr then do {
        (ok, m) \<leftarrow> map_page v user m;
        if ok then map_pages (v + PAGE_SIZE) end_addr user m else Some m }
      else Some m)"

definition map_range :: "u32 \<Rightarrow> u32 \<Rightarrow> bool \<Rightarrow> mem \<Rightarrow> mem option" where
  "map_range from_addr to_addr user m = map_pages (from_addr AND NOT (PAGE_SIZE - 1)) to_addr user m"

definition map_supervisor :: "u32 \<Rightarrow> u32 \<Rightarrow> mem \<Rightarrow> mem option" where
  "map_supervisor from_addr to_addr m =
     (if from_addr \<ge> to_addr then Some m
      else do {
        m \<leftarrow> (if from_addr < USER_BASE
              then map_range from_addr (if to_addr < USER_BASE then to_addr else USER_BASE) False m
              else Some m);
        if to_addr > USER_TOP
        then map_range (if from_addr > USER_TOP then from_addr else USER_TOP) to_addr False m
        else Some m })"

fun map_usable :: "e820_entry list \<Rightarrow> mem \<Rightarrow> mem option" where
  "map_usable [] m = Some m"
| "map_usable (e # es) m =
     (if skipped e then map_usable es m
      else
        let base = base_lo e; len = len_lo e
        in if base + len < base \<or> base + len \<le> LOW_END then map_usable es m
           else
             let base = (if base < LOW_END then LOW_END else base)
             in map_supervisor base (base + len) m \<bind> map_usable es)"

definition paging_init :: "e820_entry list \<Rightarrow> mem \<Rightarrow> mem option" where
  "paging_init es m = do {
     m \<leftarrow> map_range 0 LOW_END False (zero_page (page_dir m) m);
     m \<leftarrow> map_usable es m;
     Some (m\<lparr>cr3 := page_dir m\<rparr>) }"

definition memory_total_kb :: "mem \<Rightarrow> u32" where "memory_total_kb m = mem_top m div 1024"
definition memory_free_frames :: "mem \<Rightarrow> u32" where "memory_free_frames m = frames_free m"
definition memory_total_frames :: "mem \<Rightarrow> u32" where "memory_total_frames m = nframes m"

section \<open>Per-process address spaces\<close>

definition vm_switch :: "u32 \<Rightarrow> mem \<Rightarrow> mem" where
  "vm_switch dir m = m\<lparr>cr3 := dir\<rparr>"

definition user_pdes :: "nat list" where
  "user_pdes = [unat USER_PDE_FIRST..<Suc (unat USER_PDE_LAST)]"

fun create_tables :: "u32 \<Rightarrow> nat list \<Rightarrow> mem \<Rightarrow> (bool \<times> mem) option" where
  "create_tables d [] m = Some (True, m)"
| "create_tables d (i # is) m = do {
     (pt, m) \<leftarrow> alloc_frame m;
     if pt = 0 then do { m \<leftarrow> free_frame d m; Some (False, m) }
     else create_tables d is (poke (d + 4 * of_nat i) (pt OR 0x3 OR 0x4) (zero_page pt m)) }"

definition vm_create :: "mem \<Rightarrow> (u32 \<times> mem) option" where
  "vm_create m = do {
     (d, m) \<leftarrow> alloc_frame m;
     if d = 0 then Some (0, m)
     else do {
       (ok, m) \<leftarrow> create_tables d user_pdes (copy_page d (page_dir m) m);
       Some (if ok then (d, m\<lparr>brk := 0\<rparr>) else (0, m)) } }"

fun free_ptes :: "u32 \<Rightarrow> nat list \<Rightarrow> mem \<Rightarrow> mem option" where
  "free_ptes pt [] m = Some m"
| "free_ptes pt (j # js) m =
     (let pte = ram m (pt + 4 * of_nat j)
      in (if pte AND 1 \<noteq> 0 then free_frame (pte AND 0xFFFFF000) m else Some m) \<bind> free_ptes pt js)"

fun destroy_tables :: "u32 \<Rightarrow> nat list \<Rightarrow> mem \<Rightarrow> mem option" where
  "destroy_tables d [] m = Some m"
| "destroy_tables d (i # is) m =
     (let pde = d + 4 * of_nat i
      in if ram m pde AND 1 = 0 then destroy_tables d is m
         else do {
           m \<leftarrow> free_ptes (ram m pde AND 0xFFFFF000) [0..<1024] m;
           m \<leftarrow> free_frame (ram m pde AND 0xFFFFF000) m;
           destroy_tables d is (poke pde 0 m) })"

definition vm_destroy :: "u32 \<Rightarrow> mem \<Rightarrow> mem option" where
  "vm_destroy dir m =
     (if dir = 0 \<or> dir = page_dir m then Some m
      else destroy_tables dir user_pdes m \<bind> free_frame dir)"

definition vm_attach :: "u32 \<Rightarrow> mem \<Rightarrow> mem" where
  "vm_attach dir m = vm_switch dir (m\<lparr>cur_dir := dir\<rparr>)"

definition vm_detach :: "mem \<Rightarrow> mem option" where
  "vm_detach m =
     (let old = cur_dir m
      in if old = 0 then Some m
         else vm_destroy old (vm_switch (page_dir m) (m\<lparr>cur_dir := 0\<rparr>)))"

definition vm_fault :: "u32 \<Rightarrow> mem \<Rightarrow> (int \<times> mem) option" where
  "vm_fault addr m =
     (if addr < USER_BASE \<or> addr \<ge> USER_TOP then Some (0, m)
      else
        let pd = cr3 m AND NOT 0xFFF; pde = ram m (pd + 4 * drop_bit 22 addr)
        in if pde AND 1 = 0 then Some (0, m)
           else
             let pte = (pde AND 0xFFFFF000) + 4 * (drop_bit 12 addr AND 0x3FF)
             in if ram m pte AND 1 \<noteq> 0 then Some (0, m)
                else do {
                  (frame, m) \<leftarrow> alloc_frame m;
                  if frame = 0 then Some (0, m)
                  else Some (1, (poke pte (frame OR 0x3 OR 0x4) (zero_page frame m))
                         \<lparr>fault_count := fault_count m + 1\<rparr>) })"

definition vm_note_load :: "u32 \<Rightarrow> mem \<Rightarrow> mem" where
  "vm_note_load len m =
     (let b = USER_BASE + ((len + PAGE_SIZE - 1) AND NOT (PAGE_SIZE - 1))
      in m\<lparr>brk := (if b < USER_BASE then USER_BASE else b)\<rparr>)"

definition vm_sbrk :: "u32 \<Rightarrow> mem \<Rightarrow> u32 \<times> mem" where
  "vm_sbrk inc m =
     (if inc = 0 then (brk m, m)
      else if inc > USER_TOP - brk m then (brk m, m)
      else if brk m + inc > USER_STACK then (brk m, m)
      else (brk m + inc, m\<lparr>brk := brk m + inc\<rparr>))"

definition vm_faults :: "mem \<Rightarrow> u32" where "vm_faults m = fault_count m"

end
