(* ===== verification/MemFrames.thy ===== *)
theory MemFrames
  imports Memory
begin

text \<open>
  The frame bitmap as a set of free frames: allocation, release, and what memory_init leaves.
\<close>

section \<open>Frames as numbers\<close>

definition used :: "mem \<Rightarrow> nat \<Rightarrow> bool" where
  "used m i = bit (bitmap m ! (i div 8)) (i mod 8)"

definition free_set :: "mem \<Rightarrow> nat set" where
  "free_set m = {i. i < unat (nframes m) \<and> \<not> used m i}"

definition page :: "nat \<Rightarrow> u32" where
  "page i = of_nat i * PAGE_SIZE"

text \<open>The bitmap covers all frames, frame 0 is never free and \<open>frames_free\<close> counts the clear bits.\<close>

definition mem_ok :: "mem \<Rightarrow> bool" where
  "mem_ok m \<longleftrightarrow> unat (nframes m) \<le> 2 ^ 20 \<and> unat (nframes m) \<le> 8 * length (bitmap m) \<and>
     0 \<notin> free_set m \<and> frames_free m = of_nat (card (free_set m))"

lemma finite_free_set [simp]: "finite (free_set m)"
  by (simp add: free_set_def)

lemma index_bits:
  assumes "i < 2 ^ 32"
  shows "unat (drop_bit 3 (of_nat i :: u32)) = i div 8" "unat ((of_nat i :: u32) AND 7) = i mod 8"
proof -
  have i: "unat (of_nat i :: u32) = i" using assms by (simp add: of_nat_unat_small)
  show "unat (drop_bit 3 (of_nat i :: u32)) = i div 8"
    by (simp only: unat_drop_bit_eq i) (simp add: drop_bit_eq_div)
  have "(7 :: u32) = mask 3" by (simp add: mask_eq_exp_minus_1)
  then have "(of_nat i :: u32) AND 7 = take_bit 3 (of_nat i)" by (simp add: take_bit_eq_mask)
  then show "unat ((of_nat i :: u32) AND 7) = i mod 8"
    by (simp only: unsigned_take_bit_eq i) (simp add: take_bit_eq_mod)
qed

lemma bit_test: "(drop_bit n (b :: byte) AND 1 \<noteq> 0) = bit b n"
  by (simp add: and_one_eq bit_iff_odd_drop_bit odd_iff_mod_2_eq_one)

lemma frame_used_eq:
  "i < 2 ^ 32 \<Longrightarrow> i div 8 < length (bitmap m) \<Longrightarrow> frame_used m (of_nat i) = Some (used m i)"
  by (simp only: frame_used_def index_bits load_in bind.bind_lunit bit_test used_def)

lemma frame_set_eq:
  assumes "i < 2 ^ 32" and "i div 8 < length (bitmap m)"
  shows "\<exists>m'. frame_set m (of_nat i) = Some m' \<and> (\<exists>b. m' = m\<lparr>bitmap := b\<rparr>) \<and>
    length (bitmap m') = length (bitmap m) \<and>
    (\<forall>j. j div 8 < length (bitmap m) \<longrightarrow> used m' j = (j = i \<or> used m j))"
proof -
  let ?b = "bitmap m ! (i div 8) OR push_bit (i mod 8) 1"
  let ?m = "m\<lparr>bitmap := (bitmap m)[i div 8 := ?b]\<rparr>"
  have "frame_set m (of_nat i) = Some ?m"
    using assms by (simp only: frame_set_def index_bits load_in bind.bind_lunit)
  moreover have "used ?m j = (j = i \<or> used m j)" if "j div 8 < length (bitmap m)" for j
  proof (cases "j div 8 = i div 8")
    case True
    then have "j = i \<longleftrightarrow> j mod 8 = i mod 8" by (metis mult_div_mod_eq)
    moreover have "j mod 8 < 8" by simp
    ultimately show ?thesis using True assms(2)
      by (auto simp: used_def bit_simps)
  qed (auto simp: used_def)
  ultimately show ?thesis by (intro exI [of _ ?m]) auto
qed

lemma frame_clear_eq:
  assumes "i < 2 ^ 32" and "i div 8 < length (bitmap m)"
  shows "\<exists>m'. frame_clear m (of_nat i) = Some m' \<and> (\<exists>b. m' = m\<lparr>bitmap := b\<rparr>) \<and>
    length (bitmap m') = length (bitmap m) \<and>
    (\<forall>j. j div 8 < length (bitmap m) \<longrightarrow> used m' j = (j \<noteq> i \<and> used m j))"
proof -
  let ?b = "bitmap m ! (i div 8) AND NOT (push_bit (i mod 8) 1)"
  let ?m = "m\<lparr>bitmap := (bitmap m)[i div 8 := ?b]\<rparr>"
  have "frame_clear m (of_nat i) = Some ?m"
    using assms by (simp only: frame_clear_def index_bits load_in bind.bind_lunit)
  moreover have "used ?m j = (j \<noteq> i \<and> used m j)" if "j div 8 < length (bitmap m)" for j
  proof (cases "j div 8 = i div 8")
    case True
    then have "j = i \<longleftrightarrow> j mod 8 = i mod 8" by (metis mult_div_mod_eq)
    moreover have "j mod 8 < 8" by simp
    ultimately show ?thesis using True assms(2)
      by (auto simp: used_def bit_simps)
  qed (auto simp: used_def)
  ultimately show ?thesis by (intro exI [of _ ?m]) auto
qed


lemma mem_okD:
  assumes "mem_ok m"
  shows "unat (nframes m) \<le> 1048576" "frames_free m = of_nat (card (free_set m))" "0 \<notin> free_set m"
    "i < unat (nframes m) \<Longrightarrow> i < 2 ^ 32 \<and> i div 8 < length (bitmap m)"
  using assms by (auto simp: mem_ok_def)

lemma used_update [simp]: "used (m\<lparr>frames_free := c\<rparr>) = used m" "used (m\<lparr>ram := r\<rparr>) = used m"
  "used (m\<lparr>brk := v\<rparr>) = used m" "used (m\<lparr>fault_count := c\<rparr>) = used m" "used (m\<lparr>cr3 := c\<rparr>) = used m"
  "used (m\<lparr>cur_dir := c\<rparr>) = used m"
  by (simp_all add: used_def fun_eq_iff)

lemma alloc_from_eq:
  assumes "mem_ok m" and "set is \<subseteq> {..<unat (nframes m)}"
  shows "alloc_from is m = (case find (\<lambda>i. \<not> used m i) is of None \<Rightarrow> Some (0, m)
    | Some i \<Rightarrow> frame_set m (of_nat i) \<bind>
        (\<lambda>m. Some (of_nat i * PAGE_SIZE, m\<lparr>frames_free := frames_free m - 1\<rparr>)))"
  using assms(2)
proof (induction "is")
  case (Cons i "is")
  then have "frame_used m (of_nat i) = Some (used m i)"
    using mem_okD(4) [OF assms(1), of i] by (intro frame_used_eq) simp_all
  with Cons show ?case by simp
qed simp

lemma page_0_iff: "i \<le> 1048576 \<Longrightarrow> page i = 0 \<longleftrightarrow> i = 0 \<or> i = 1048576"
proof -
  assume "i \<le> 1048576"
  then have "unat (page i) = i * 4096 mod 4294967296"
    by (simp add: page_def PAGE_SIZE_def unat_word_ariths of_nat_unat_small)
  then show ?thesis using \<open>i \<le> 1048576\<close> by (auto simp: word_unat_eq_iff) 
qed

lemma unat_page: "i < 1048576 \<Longrightarrow> unat (page i) = i * 4096"
  by (simp add: page_def PAGE_SIZE_def unat_word_ariths of_nat_unat_small)

definition same_but_map :: "mem \<Rightarrow> mem \<Rightarrow> bool" where
  "same_but_map m m' \<longleftrightarrow> (\<exists>b c. m' = m\<lparr>bitmap := b, frames_free := c\<rparr>)"

lemma same_but_map_refl [simp]: "same_but_map m m"
  by (auto simp: same_but_map_def intro!: exI [of _ "bitmap m"] exI [of _ "frames_free m"])

lemma same_but_mapD:
  "same_but_map m m' \<Longrightarrow> ram m' = ram m \<and> nframes m' = nframes m \<and> page_dir m' = page_dir m \<and> cr3 m' = cr3 m"
  by (auto simp: same_but_map_def)

lemma same_but_map_trans:
  assumes "same_but_map m1 m2" and "same_but_map m2 m3"
  shows "same_but_map m1 m3"
proof -
  from assms obtain b c b' c' where "m2 = m1\<lparr>bitmap := b, frames_free := c\<rparr>"
    "m3 = m2\<lparr>bitmap := b', frames_free := c'\<rparr>" unfolding same_but_map_def by blast
  then have "m3 = m1\<lparr>bitmap := b', frames_free := c'\<rparr>" by simp
  then show ?thesis unfolding same_but_map_def by blast
qed

lemma same_but_map_more: "same_but_map m m' \<Longrightarrow> cur_dir m' = cur_dir m \<and> brk m' = brk m"
  by (auto simp: same_but_map_def)

lemma alloc_frame_eq:
  assumes "mem_ok m"
  obtains "free_set m = {}" "alloc_frame m = Some (0, m)"
  | i m' where "alloc_frame m = Some (page i, m')" "i \<in> free_set m" "i < 1048576" "page i \<noteq> 0"
      "free_set m' = free_set m - {i}" "mem_ok m'" "same_but_map m m'"
      "\<forall>j\<in>free_set m. i \<le> j"
proof -
  note ok = mem_okD [OF assms]
  let ?n = "unat (nframes m)"
  let ?f = "find (\<lambda>i. \<not> used m i) [0..<?n]"
  have eq: "alloc_frame m = (case ?f of None \<Rightarrow> Some (0, m)
    | Some i \<Rightarrow> frame_set m (of_nat i) \<bind>
        (\<lambda>m. Some (of_nat i * PAGE_SIZE, m\<lparr>frames_free := frames_free m - 1\<rparr>)))"
    unfolding alloc_frame_def by (rule alloc_from_eq [OF assms]) auto
  show thesis
  proof (cases ?f)
    case None
    then have "free_set m = {}" by (auto simp: find_None_iff free_set_def)
    moreover have "alloc_frame m = Some (0, m)" using eq None by simp
    ultimately show thesis by (rule that(1))
  next
    case (Some i)
    then have i: "i < ?n" "\<not> used m i" "\<forall>j<i. used m j"
      by (auto simp: find_Some_iff)
    then have fi: "i \<in> free_set m" by (simp add: free_set_def)
    from frame_set_eq [of i m] ok(4) [OF i(1)] obtain m1 b where
      m1: "frame_set m (of_nat i) = Some m1" "m1 = m\<lparr>bitmap := b\<rparr>" "length (bitmap m1) = length (bitmap m)"
        "\<forall>j. j div 8 < length (bitmap m) \<longrightarrow> used m1 j = (j = i \<or> used m j)" by blast
    let ?m = "m1\<lparr>frames_free := frames_free m1 - 1\<rparr>"
    have nf: "nframes m1 = nframes m" using m1(2) by simp
    have fs: "free_set ?m = free_set m - {i}"
    proof -
      have "j \<in> free_set ?m \<longleftrightarrow> j \<in> free_set m \<and> j \<noteq> i" for j
        using m1(4) ok(4) [of j] by (auto simp: free_set_def nf)
      then show ?thesis by blast
    qed
    have "card (free_set m) = Suc (card (free_set m - {i}))"
      using fi by (metis card.remove finite_free_set)
    then have "frames_free ?m = of_nat (card (free_set ?m))"
      unfolding fs using ok(2) by (simp add: m1(2))
    then have "mem_ok ?m" using assms m1(2,3) fs ok(3) by (simp add: mem_ok_def)
    moreover have "same_but_map m ?m" using m1(2) by (auto simp: same_but_map_def)
    moreover have "i \<noteq> 0" using fi ok(3) by (metis)
    moreover have "i < 1048576" using i(1) ok(1) by simp
    moreover have "alloc_frame m = Some (page i, ?m)" using eq Some m1(1) by (simp add: page_def)
    moreover have "\<forall>j\<in>free_set m. i \<le> j" using i(3) by (auto simp: free_set_def not_less [symmetric])
    ultimately show thesis using fi fs page_0_iff [of i] by (intro that(2) [of i ?m]) simp_all
  qed
qed

lemma free_frame_eq:
  assumes "mem_ok m" and "i < 1048576" and "i \<noteq> 0"
  shows "\<exists>m'. free_frame (page i) m = Some m' \<and> mem_ok m' \<and> same_but_map m m' \<and>
    free_set m' = free_set m \<union> ({i} \<inter> {..<unat (nframes m)})"
proof -
  note ok = mem_okD [OF assms(1)]
  have "unat (page i div PAGE_SIZE) = i" using assms(2) unat_page [OF assms(2)]
    by (simp add: unat_div PAGE_SIZE_def)
  then have idx: "page i div PAGE_SIZE = of_nat i" using of_nat_unat_small [of i] assms(2)
    by (simp add: word_unat_eq_iff)
  have lt: "(of_nat i < nframes m) = (i < unat (nframes m))" 
    using assms(2) by (simp add: word_less_nat_alt of_nat_unat_small)
  show ?thesis
  proof (cases "i < unat (nframes m) \<and> used m i")
    case False
    then have "free_frame (page i) m = Some m"
      using lt idx frame_used_eq [of i m] ok(4) [of i] by (auto simp: free_frame_def Let_def)
    moreover have "free_set m = free_set m \<union> ({i} \<inter> {..<unat (nframes m)})"
      using False by (auto simp: free_set_def)
    ultimately show ?thesis using assms(1) by (intro exI [of _ m]) simp
  next
    case True
    from frame_clear_eq [of i m] ok(4) [of i] True obtain m1 b where
      m1: "frame_clear m (of_nat i) = Some m1" "m1 = m\<lparr>bitmap := b\<rparr>" "length (bitmap m1) = length (bitmap m)"
        "\<forall>j. j div 8 < length (bitmap m) \<longrightarrow> used m1 j = (j \<noteq> i \<and> used m j)" by blast
    let ?m = "m1\<lparr>frames_free := frames_free m1 + 1\<rparr>"
    have nf: "nframes m1 = nframes m" using m1(2) by simp
    have fs: "free_set ?m = insert i (free_set m)"
    proof -
      have "j \<in> free_set ?m \<longleftrightarrow> j \<in> free_set m \<or> j = i" for j
        using m1(4) ok(4) [of j] True by (auto simp: free_set_def nf)
      then show ?thesis by blast
    qed
    have "i \<notin> free_set m" using True by (simp add: free_set_def)
    then have "frames_free ?m = of_nat (card (free_set ?m))" unfolding fs using ok(2) by (simp add: m1(2))
    then have "mem_ok ?m" using assms m1(2,3) fs ok(3) by (simp add: mem_ok_def)
    moreover have "same_but_map m ?m" using m1(2) by (auto simp: same_but_map_def)
    moreover have "free_frame (page i) m = Some ?m"
      using lt idx frame_used_eq [of i m] ok(4) [of i] True m1(1) by (simp add: free_frame_def Let_def)
    ultimately show ?thesis using fs True by auto
  qed
qed

section \<open>Which addresses are usable\<close>

lemma sint_nonneg: "0 \<le> sint (x :: u32) \<longleftrightarrow> unat x < 2 ^ 31"
proof -
  have "bit x 31 \<longleftrightarrow> sint x < 0" using bit_last_iff [of x] by simp
  moreover have "bit (unat x) 31 = bit x 31" by (simp add: bit_unsigned_iff)
  then have "bit x 31 \<longleftrightarrow> odd (unat x div 2 ^ 31)" using bit_iff_odd [of "unat x" 31] by (simp only:)
  moreover have "odd (unat x div 2 ^ 31) \<longleftrightarrow> \<not> unat x < 2 ^ 31"
  proof (cases "unat x < 2 ^ 31")
    case False
    then have "unat x div 2 ^ 31 = 1" using unat_u32_lt [of x] by (simp add: div_nat_eqI del: unat_u32_lt)
    with False show ?thesis by simp
  qed simp
  ultimately show ?thesis by linarith
qed

text \<open>In_usable. For a map whose entries do not wrap, an address is found usable exactly when it lies in
  a usable entry less than 2 GiB above its base. So it never accepts an address outside usable
  memory, and it loses all of an entry beyond its first 2 GiB.\<close>

theorem in_usable_exact:
  assumes "\<forall>e\<in>set es. unat (base_lo e) + unat (len_lo e) \<le> 2 ^ 32"
  shows "in_usable es addr \<longleftrightarrow> (\<exists>e\<in>set es. \<not> skipped e \<and> unat (base_lo e) \<le> unat addr \<and>
    unat addr < unat (base_lo e) + min (unat (len_lo e)) (2 ^ 31))"
  using assms
proof (induction es)
  case (Cons e es)
  have "(0 \<le> sint (addr - base_lo e) \<and> addr - base_lo e < len_lo e) \<longleftrightarrow>
    unat (base_lo e) \<le> unat addr \<and> unat addr < unat (base_lo e) + min (unat (len_lo e)) (2 ^ 31)"
  proof (cases "base_lo e \<le> addr")
    case True
    then have "unat (addr - base_lo e) = unat addr - unat (base_lo e)" "unat (base_lo e) \<le> unat addr"
      by (simp_all add: unat_sub_no_wrap word_le_nat_alt)
    then show ?thesis by (auto simp: sint_nonneg word_less_nat_alt)
  next
    case False
    then have lt: "unat addr < unat (base_lo e)" by (simp add: word_le_nat_alt)
    then have "unat (addr - base_lo e) = 4294967296 + unat addr - unat (base_lo e)"
      by (simp add: unat_sub_if')
    moreover have "unat (base_lo e) + unat (len_lo e) \<le> 4294967296" using Cons.prems by simp
    then have "unat (len_lo e) \<le> 4294967296 - unat (base_lo e)" by linarith
    ultimately have "\<not> addr - base_lo e < len_lo e" using lt unat_u32_lt [of "base_lo e"]
      by (simp add: word_less_nat_alt del: unat_u32_lt)
    with lt show ?thesis by simp
  qed
  with Cons show ?case by (auto simp: Let_def)
qed simp

lemma in_usable_exact_witness:
  "in_usable [\<lparr>base_lo = 0x100000, base_hi = 0, len_lo = 0xBFF00000, len_hi = 0, e_type = 1, attrs = 0\<rparr>] 0x80000000 \<and>
    \<not> in_usable [\<lparr>base_lo = 0x100000, base_hi = 0, len_lo = 0xBFF00000, len_hi = 0, e_type = 1, attrs = 0\<rparr>] 0x80100000"
proof -
  let ?es = "[\<lparr>base_lo = 0x100000, base_hi = 0, len_lo = 0xBFF00000, len_hi = 0, e_type = 1, attrs = 0\<rparr>]"
  have a: "\<forall>e\<in>set ?es. unat (base_lo e) + unat (len_lo e) \<le> 2 ^ 32" by simp
  show ?thesis
    unfolding in_usable_exact [where addr = "0x80000000", OF a] in_usable_exact [where addr = "0x80100000", OF a]
    by (simp add: skipped_def E820_USABLE_def)
qed

section \<open>Initialisation\<close>

lemma page_lt_iff: "i < 1048576 \<Longrightarrow> j < 1048576 \<Longrightarrow> page i < page j \<longleftrightarrow> i < j"
  by (simp add: word_less_nat_alt unat_page)

definition frame_for_pool :: "e820_entry list \<Rightarrow> nat \<Rightarrow> bool" where
  "frame_for_pool es i \<longleftrightarrow> 256 \<le> i \<and> \<not> (1024 \<le> i \<and> i < 2048) \<and> in_usable es (page i)"

lemma frame_for_pool_iff:
  assumes "i < 1048576"
  shows "frame_for_pool es i \<longleftrightarrow> \<not> (if page i < LOW_END then True
      else if page i \<ge> USER_BASE \<and> page i < USER_TOP then True else \<not> in_usable es (page i))"
proof -
  have "page i < LOW_END \<longleftrightarrow> i < 256" "USER_BASE \<le> page i \<longleftrightarrow> 1024 \<le> i" "page i < USER_TOP \<longleftrightarrow> i < 2048"
    by (auto simp: word_less_nat_alt word_le_nat_alt unat_page [OF assms] LOW_END_def USER_BASE_def USER_TOP_def)
  then show ?thesis by (auto simp: frame_for_pool_def)
qed

lemma init_frame_eq:
  assumes "mem_ok m" and "i < unat (nframes m)" and "i \<notin> free_set m"
  shows "\<exists>m'. init_frame es (of_nat i) m = Some m' \<and> mem_ok m' \<and> same_but_map m m' \<and>
    free_set m' = free_set m \<union> (if frame_for_pool es i then {i} else {})"
proof -
  have i: "i < 1048576" using assms(2) mem_okD(1) [OF assms(1)] by simp
  show ?thesis
  proof (cases "frame_for_pool es i")
    case True
    then have "i \<noteq> 0" by (simp add: frame_for_pool_def)
    from free_frame_eq [OF assms(1) i this] obtain m' where
      m': "free_frame (page i) m = Some m'" "mem_ok m'" "same_but_map m m'" "free_set m' = free_set m \<union> {i}"
      using assms(2) by auto
    have "used m i" using assms(2,3) by (simp add: free_set_def)
    moreover have "page i div PAGE_SIZE = of_nat i"
      using of_nat_unat_small [of i] i unat_page [OF i] by (simp add: word_unat_eq_iff unat_div PAGE_SIZE_def)
    moreover have "of_nat i < nframes m" using assms(2) i by (simp add: word_less_nat_alt of_nat_unat_small)
    ultimately have "free_frame (page i) m = frame_clear m (of_nat i) \<bind>
        (\<lambda>m. Some (m\<lparr>frames_free := frames_free m + 1\<rparr>))"
      using frame_used_eq [of i m] mem_okD(4) [OF assms(1,2)] by (simp add: free_frame_def)
    with m'(1) True frame_for_pool_iff [OF i, of es] have "init_frame es (of_nat i) m = Some m'"
      by (simp add: init_frame_def page_def [symmetric])
    with m' True show ?thesis by simp
  next
    case False
    with frame_for_pool_iff [OF i, of es] have "init_frame es (of_nat i) m = Some m"
      by (simp only: init_frame_def page_def [symmetric] Let_def not_not if_False if_True)
    with assms(1) False show ?thesis by simp
  qed
qed

lemma init_frames_eq:
  assumes "mem_ok m" and "set is \<subseteq> {..<unat (nframes m)}" and "distinct is" and "set is \<inter> free_set m = {}"
  shows "\<exists>m'. init_frames es is m = Some m' \<and> mem_ok m' \<and> same_but_map m m' \<and>
    free_set m' = free_set m \<union> {i\<in>set is. frame_for_pool es i}"
  using assms
proof (induction "is" arbitrary: m)
  case (Cons i "is")
  then have "i < unat (nframes m)" "i \<notin> free_set m" by auto
  from init_frame_eq [OF Cons.prems(1) this, of es] obtain m1 where
    m1: "init_frame es (of_nat i) m = Some m1" "mem_ok m1" "same_but_map m m1"
      "free_set m1 = free_set m \<union> (if frame_for_pool es i then {i} else {})" by blast
  have "set is \<subseteq> {..<unat (nframes m1)}" "set is \<inter> free_set m1 = {}"
    using Cons.prems(2-4) m1(4) same_but_mapD [OF m1(3)] by auto
  with Cons.IH [OF m1(2)] Cons.prems(3) obtain m2 where
    m2: "init_frames es is m1 = Some m2" "mem_ok m2" "same_but_map m1 m2"
      "free_set m2 = free_set m1 \<union> {i\<in>set is. frame_for_pool es i}" by auto
  have "free_set m2 = free_set m \<union> {k\<in>set (i # is). frame_for_pool es k}" using m2(4) m1(4) by auto
  with m1(1) m2(1,2) same_but_map_trans [OF m1(3) m2(3)] show ?case by auto
qed simp

lemma reserve_one_eq:
  assumes "mem_ok m"
  shows "\<exists>m'. reserve_one a m = Some m' \<and> mem_ok m' \<and> same_but_map m m' \<and>
    free_set m' = free_set m - {unat a div 4096}"
proof -
  let ?i = "unat a div 4096"
  note ok = mem_okD [OF assms]
  have i: "a div PAGE_SIZE = of_nat ?i" "?i < 2 ^ 32"
  proof -
    have "unat (a div PAGE_SIZE) = ?i" by (simp add: unat_div PAGE_SIZE_def)
    then show "a div PAGE_SIZE = of_nat ?i" by (metis of_nat_unat_small unat_u32_lt word_unat_eq_iff)
    show "?i < 2 ^ 32" using unat_u32_lt [of a] div_le_dividend [of "unat a" 4096]
      by (simp del: unat_u32_lt)
  qed
  have lt: "of_nat ?i < nframes m \<longleftrightarrow> ?i < unat (nframes m)"
    using i(2) by (simp add: word_less_nat_alt of_nat_unat_small)
  show ?thesis
  proof (cases "?i < unat (nframes m) \<and> \<not> used m ?i")
    case False
    then have "reserve_one a m = Some m"
      using frame_used_eq [of ?i m] ok(4) [of ?i] by (auto simp: reserve_one_def Let_def i(1) lt)
    moreover have "free_set m = free_set m - {?i}" using False by (auto simp: free_set_def)
    ultimately show ?thesis using assms by auto
  next
    case True
    from frame_set_eq [of ?i m] ok(4) [of ?i] True obtain m1 b where
      m1: "frame_set m (of_nat ?i) = Some m1" "m1 = m\<lparr>bitmap := b\<rparr>" "length (bitmap m1) = length (bitmap m)"
        "\<forall>j. j div 8 < length (bitmap m) \<longrightarrow> used m1 j = (j = ?i \<or> used m j)" by blast
    let ?m = "m1\<lparr>frames_free := frames_free m1 - 1\<rparr>"
    have nf: "nframes m1 = nframes m" using m1(2) by simp
    have "j \<in> free_set ?m \<longleftrightarrow> j \<in> free_set m \<and> j \<noteq> ?i" for j
      using m1(4) ok(4) [of j] by (auto simp: free_set_def nf)
    then have fs: "free_set ?m = free_set m - {?i}" by blast
    have fi: "?i \<in> free_set m" using True by (simp add: free_set_def)
    have "frames_free m = of_nat (Suc (card (free_set m - {?i})))"
      using ok(2) card_Suc_Diff1 [OF finite_free_set fi] by simp
    then have "frames_free ?m = of_nat (card (free_set ?m))" unfolding fs by (simp add: m1(2))
    then have "mem_ok ?m" using assms m1(2,3) fs ok(3) by (simp add: mem_ok_def)
    moreover have "same_but_map m ?m" using m1(2) by (auto simp: same_but_map_def)
    moreover have "reserve_one a m = Some ?m"
      using True frame_used_eq [of ?i m] ok(4) [of ?i] m1(1) by (simp add: reserve_one_def Let_def i(1) lt)
    ultimately show ?thesis using fs by auto
  qed
qed

lemma reserve_eq:
  assumes "mem_ok m" and "end_addr \<le> 0xFFFFF000" and "4096 dvd unat a"
  shows "\<exists>m'. reserve a end_addr m = Some m' \<and> mem_ok m' \<and> same_but_map m m' \<and>
    free_set m' = free_set m - {i. unat a div 4096 \<le> i \<and> i * 4096 < unat end_addr}"
  using assms(1,3)
proof (induction "unat end_addr - unat a" arbitrary: a m rule: less_induct)
  case less
  obtain k where k: "unat a = 4096 * k" using less.prems(2) by (auto simp: dvd_def)
  show ?case
  proof (cases "a < end_addr")
    case False
    then have "unat end_addr \<le> unat a" by (simp add: word_less_nat_alt)
    then have "{i. unat a div 4096 \<le> i \<and> i * 4096 < unat end_addr} = {}" using k by auto
    then show ?thesis using False less.prems(1) by (subst reserve.simps) auto
  next
    case True
    then have lt: "unat a < unat end_addr" "unat end_addr \<le> 4294963200"
      using assms(2) by (simp_all add: word_less_nat_alt word_le_nat_alt)
    from reserve_one_eq [OF less.prems(1), of a] obtain m1 where
      m1: "reserve_one a m = Some m1" "mem_ok m1" "same_but_map m m1" "free_set m1 = free_set m - {k}"
      using k by auto
    have a': "unat (a + PAGE_SIZE) = unat a + 4096"
      using lt by (subst unat_add_no_wrap) (simp_all add: PAGE_SIZE_def)
    have "unat end_addr - unat (a + PAGE_SIZE) < unat end_addr - unat a" "4096 dvd unat (a + PAGE_SIZE)"
      using a' lt k by simp_all
    from less.hyps [OF this(1) m1(2) this(2)] obtain m2 where
      m2: "reserve (a + PAGE_SIZE) end_addr m1 = Some m2" "mem_ok m2" "same_but_map m1 m2"
        "free_set m2 = free_set m1 - {i. Suc k \<le> i \<and> i * 4096 < unat end_addr}"
      using a' k by auto
    have "{i. k \<le> i \<and> i * 4096 < unat end_addr} = insert k {i. Suc k \<le> i \<and> i * 4096 < unat end_addr}"
      using lt(1) k by auto
    then have "free_set m2 = free_set m - {i. unat a div 4096 \<le> i \<and> i * 4096 < unat end_addr}"
      using m2(4) m1(4) k by auto
    then show ?thesis using True m1(1) m2(1,2) same_but_map_trans [OF m1(3) m2(3)]
      by (subst reserve.simps) auto
  qed
qed


lemma mask_up_dvd: "4096 dvd unat (x AND NOT (PAGE_SIZE - 1))"
proof -
  have c: "PAGE_SIZE - 1 = mask 12" by (simp add: PAGE_SIZE_def mask_eq_exp_minus_1)
  have "x AND NOT (mask 12) = push_bit 12 (drop_bit 12 x)" by (rule bit_eqI) (auto simp: bit_simps)
  also have "\<dots> = of_nat (unat (drop_bit 12 x)) * 4096" by (simp add: push_bit_eq_mult)
  finally have e: "x AND NOT (mask 12) = of_nat (unat (drop_bit 12 x)) * 4096" .
  have "x AND NOT (PAGE_SIZE - 1) = page (unat (drop_bit 12 x))"
    unfolding c e page_def by (simp only: PAGE_SIZE_def)
  moreover have "unat (drop_bit 12 x) = unat x div 4096"
    by (simp only: unat_drop_bit_eq) (simp add: drop_bit_eq_div)
  moreover have "unat x div 4096 < 1048576" using unat_u32_lt [of x] by (intro less_mult_imp_div_less) simp
  ultimately show ?thesis using unat_page [of "unat x div 4096"] by simp
qed

lemma frames_le: "unat ((x :: u32) div PAGE_SIZE) < 1048576"
proof -
  have "unat x div 4096 < 1048576" using unat_u32_lt [of x] by (intro less_mult_imp_div_less) simp
  then show ?thesis by (simp add: unat_div PAGE_SIZE_def)
qed


lemma used_all: "i div 8 < n \<Longrightarrow> bitmap m = replicate n 0xFF \<Longrightarrow> used m i"
proof -
  assume a: "i div 8 < n" "bitmap m = replicate n 0xFF"
  have b: "(0xFF :: byte) = mask 8" by (simp add: mask_eq_exp_minus_1)
  have "used m i = bit (mask 8 :: byte) (i mod 8)" by (simp only: used_def a(2) b nth_replicate [OF a(1)])
  then show "used m i" by (simp only: bit_mask_iff) simp
qed

text \<open>Memory_init. Afterwards the free frames are exactly those of usable E820 memory above the
  first megabyte, outside the ring-3 window and not under the bitmap itself, and the counter is their
  number. It returns unless the bitmap reaches the last page of the address space.\<close>

theorem memory_init_exact:
  assumes "bm = (kernel_end + PAGE_SIZE - 1) AND NOT (PAGE_SIZE - 1)"
    and "n = top_usable es div PAGE_SIZE" and "unat bm + (unat n + 7) div 8 \<le> 0xFFFFF000"
  shows "\<exists>m'. memory_init es kernel_end m = Some m' \<and> mem_ok m' \<and> nframes m' = n \<and>
    mem_top m' = top_usable es \<and>
    free_set m' = {i. i < unat n \<and> frame_for_pool es i \<and>
      \<not> (unat bm div 4096 \<le> i \<and> i * 4096 < unat bm + (unat n + 7) div 8)} \<and> page_dir m' = page_dir m"
proof -
  let ?bytes = "(n + 7) div 8"
  have n: "unat n < 1048576" unfolding assms(2) by (rule frames_le)
  then have bytes: "unat ?bytes = (unat n + 7) div 8" by (simp add: unat_div unat_add_no_wrap)
  let ?m = "m\<lparr>mem_top := top_usable es, nframes := n, bitmap := replicate (unat ?bytes) 0xFF, frames_free := 0\<rparr>"
  have "used ?m i" if "i < unat n" for i
    using that by (intro used_all [of _ "unat ?bytes"]) (simp_all add: bytes)
  then have fs: "free_set ?m = {}" by (auto simp: free_set_def)
  have "unat n \<le> 8 * ((unat n + 7) div 8)" by presburger
  then have "mem_ok ?m" unfolding mem_ok_def fs using n by (simp add: bytes)
  moreover have "set [0..<unat n] \<subseteq> {..<unat (nframes ?m)}" by auto
  ultimately obtain m1 where m1: "init_frames es [0..<unat n] ?m = Some m1" "mem_ok m1" "same_but_map ?m m1"
    "free_set m1 = {i\<in>set [0..<unat n]. frame_for_pool es i}"
    using init_frames_eq [of ?m "[0..<unat n]" es] fs by auto
  have aligned: "4096 dvd unat bm" unfolding assms(1) by (rule mask_up_dvd)
  have bm: "bm AND NOT (PAGE_SIZE - 1) = bm"
    unfolding assms(1) by (simp add: and.assoc)
  have e: "unat (bm + ?bytes) = unat bm + (unat n + 7) div 8"
    using assms(3) bytes by (subst unat_add_no_wrap) simp_all
  then have le: "bm + ?bytes \<le> 0xFFFFF000" using assms(3) by (simp add: word_le_nat_alt)
  from reserve_eq [OF m1(2) le aligned] obtain m2 where
    m2: "reserve bm (bm + ?bytes) m1 = Some m2" "mem_ok m2" "same_but_map m1 m2"
      "free_set m2 = free_set m1 - {i. unat bm div 4096 \<le> i \<and> i * 4096 < unat bm + (unat n + 7) div 8}"
    unfolding e by blast
  have "memory_init es kernel_end m = Some m2"
    using m1(1) m2(1) bm by (simp add: memory_init_def Let_def assms(1) [symmetric] assms(2) [symmetric])
  moreover have "nframes m2 = n" "mem_top m2 = top_usable es" "page_dir m2 = page_dir m"
    using m1(3) m2(3) by (auto simp: same_but_map_def)
  ultimately show ?thesis using m2(2,4) m1(4) by (intro exI [of _ m2]) auto
qed

end
