(* ===== verification/MemSpace.thy ===== *)
theory MemSpace
  imports MemFrames
begin

text \<open>
  Page directories: a process directory and its one user table as a map from table indexes to frames,
  page faults, creation and destruction.
\<close>

section \<open>Addresses of table entries\<close>

lemma unat_entry: "p < 1048576 \<Longrightarrow> j < 1024 \<Longrightarrow> unat (page p + 4 * of_nat j) = p * 4096 + 4 * j"
proof -
  assume a: "p < 1048576" "j < 1024"
  have "unat (4 * of_nat j :: u32) = 4 * j"
    using a(2) by (simp add: unat_word_ariths of_nat_unat_small)
  then show ?thesis using a by (subst unat_add_no_wrap) (simp_all add: unat_page)
qed

lemma div_4096_iff: "(x :: nat) div 4096 = q \<longleftrightarrow> q * 4096 \<le> x \<and> x < q * 4096 + 4096"
proof -
  have "x div 4096 = q \<longleftrightarrow> q \<le> x div 4096 \<and> x div 4096 < Suc q" by auto
  then show ?thesis by (simp only: less_eq_div_iff_mult_less_eq div_less_iff_less_mult) auto
qed

lemma entry_eq_iff [simp]:
  "p < 1048576 \<Longrightarrow> q < 1048576 \<Longrightarrow> j < 1024 \<Longrightarrow> k < 1024 \<Longrightarrow>
    page p + 4 * of_nat j = page q + 4 * of_nat k \<longleftrightarrow> p = q \<and> j = k"
proof -
  assume a: "p < 1048576" "q < 1048576" "j < 1024" "k < 1024"
  then have "page p + 4 * of_nat j = page q + 4 * of_nat k \<longleftrightarrow> p * 4096 + 4 * j = q * 4096 + 4 * k"
    by (simp only: word_unat_eq_iff unat_entry)
  also have "\<dots> \<longleftrightarrow> p = q \<and> j = k"
  proof
    have d: "(p * 4096 + 4 * j) div 4096 = p" "(q * 4096 + 4 * k) div 4096 = q"
      unfolding div_4096_iff using a(3,4) by simp_all
    assume e: "p * 4096 + 4 * j = q * 4096 + 4 * k"
    from d(1) [unfolded e] d(2) have "p = q" by simp
    with e show "p = q \<and> j = k" by simp
  qed simp
  finally show ?thesis .
qed

lemma in_page_iff:
  assumes "q < 1048576"
  shows "a - page q < PAGE_SIZE \<longleftrightarrow> unat a div 4096 = q"
proof (cases "page q \<le> a")
  case True
  then have u: "unat (a - page q) = unat a - q * 4096" "q * 4096 \<le> unat a"
    using assms by (simp_all add: unat_sub_no_wrap unat_page word_le_nat_alt)
  have "a - page q < PAGE_SIZE \<longleftrightarrow> unat a - q * 4096 < 4096"
    by (simp add: word_less_nat_alt u(1) PAGE_SIZE_def)
  also have "\<dots> \<longleftrightarrow> unat a div 4096 = q" unfolding div_4096_iff using u(2) by auto
  finally show ?thesis .
next
  case False
  then have lt: "unat a < q * 4096" using assms by (simp add: word_le_nat_alt unat_page)
  have "unat (a - page q) = 4294967296 + unat a - q * 4096"
    using lt assms by (simp add: unat_sub_if' unat_page)
  then have "\<not> a - page q < PAGE_SIZE"
    using lt assms by (simp add: word_less_nat_alt PAGE_SIZE_def)
  moreover have "unat a div 4096 \<noteq> q" unfolding div_4096_iff using lt by simp
  ultimately show ?thesis by simp
qed

lemma entry_page: "p < 1048576 \<Longrightarrow> j < 1024 \<Longrightarrow> unat (page p + 4 * of_nat j) div 4096 = p"
  by (simp add: unat_entry)

lemma page_push: "page i = push_bit 12 (of_nat i)"
  by (simp add: page_def PAGE_SIZE_def push_bit_eq_mult)

lemma pte_bits [simp]:
  "(page i OR 7) AND 0xFFFFF000 = page i" "(page i OR 7) AND 1 = 1"
  "page i OR 3 OR 4 = page i OR 7" "(page i OR 7) AND 5 = 5"
proof -
  have c: "(7 :: u32) = mask 3" "(0xFFFFF000 :: u32) = NOT (mask 12)" "(3 :: u32) = mask 2"
    by (simp_all add: mask_eq_exp_minus_1)
  show "(page i OR 7) AND 0xFFFFF000 = page i"
    unfolding page_push c by (rule bit_eqI) (auto simp: bit_simps)
  have z: "page i AND 7 = 0"
    unfolding page_push c by (rule bit_eqI) (auto simp: bit_simps)
  show "(page i OR 7) AND 1 = 1"
    by (simp add: and.commute [of _ 1] bit.conj_disj_distrib)
  show "page i OR 3 OR 4 = page i OR 7" by (simp add: or.assoc)
  have "page i AND 5 = page i AND 7 AND 5" by (simp add: and.assoc)
  then show "(page i OR 7) AND 5 = 5" by (simp add: z bit.conj_disj_distrib2)
qed

section \<open>Address spaces\<close>

text \<open>A process directory in frame \<open>D\<close> with its one user table in frame \<open>P\<close> and the user pages
  \<open>pm\<close>, which maps table indexes to frames. All of it is allocated, all different, and no other entry
  of the directory can be used from ring 3.\<close>

definition owned :: "nat \<Rightarrow> nat \<Rightarrow> (nat \<Rightarrow> nat option) \<Rightarrow> nat set" where
  "owned D P pm = {D, P} \<union> ran pm"

definition table_ok :: "mem \<Rightarrow> nat \<Rightarrow> (nat \<Rightarrow> nat option) \<Rightarrow> bool" where
  "table_ok m P pm \<longleftrightarrow> dom pm \<subseteq> {..<1024} \<and> (\<forall>j<1024. ram m (page P + 4 * of_nat j) =
     (case pm j of None \<Rightarrow> 0 | Some f \<Rightarrow> page f OR 7))"

definition space :: "mem \<Rightarrow> nat \<Rightarrow> nat \<Rightarrow> (nat \<Rightarrow> nat option) \<Rightarrow> bool" where
  "space m D P pm \<longleftrightarrow> D \<noteq> P \<and> D \<notin> ran pm \<and> P \<notin> ran pm \<and> inj_on pm (dom pm) \<and>
     owned D P pm \<subseteq> {0<..<unat (nframes m)} \<and> owned D P pm \<inter> free_set m = {} \<and>
     ram m (page D + 4) = page P OR 7 \<and> table_ok m P pm \<and>
     (\<forall>i<1024. i \<noteq> 1 \<longrightarrow> ram m (page D + 4 * of_nat i) AND 4 = 0)"

lemma space_small: "mem_ok m \<Longrightarrow> space m D P pm \<Longrightarrow> f \<in> owned D P pm \<Longrightarrow> f < 1048576 \<and> f \<noteq> 0"
  using mem_okD(1) [of m] by (force simp: space_def)

lemma window_index:
  assumes "\<not> (addr < USER_BASE \<or> addr \<ge> USER_TOP)"
  shows "drop_bit 22 addr = 1"
proof -
  have "4194304 \<le> unat addr" "unat addr < 8388608"
    using assms by (simp_all add: USER_BASE_def USER_TOP_def word_less_nat_alt word_le_nat_alt)
  then have "unat addr div 4194304 = 1" by (simp add: div_nat_eqI)
  moreover have "unat (drop_bit 22 addr) = unat addr div 4194304"
    by (simp only: unat_drop_bit_eq) (simp add: drop_bit_eq_div)
  ultimately show ?thesis by (simp add: word_unat_eq_iff)
qed

lemma table_index: "\<exists>j<1024. drop_bit 12 addr AND 0x3FF = (of_nat j :: u32) \<and> j = unat addr div 4096 mod 1024"
proof -
  have "(0x3FF :: u32) = mask 10" by (simp add: mask_eq_exp_minus_1)
  then have "drop_bit 12 addr AND 0x3FF = take_bit 10 (drop_bit 12 addr)" by (simp add: take_bit_eq_mask)
  moreover have "unat (take_bit 10 (drop_bit 12 addr) :: u32) = unat addr div 4096 mod 1024"
    by (simp only: unsigned_take_bit_eq unat_drop_bit_eq) (simp add: drop_bit_eq_div take_bit_eq_mod)
  ultimately have "drop_bit 12 addr AND 0x3FF = of_nat (unat addr div 4096 mod 1024)"
    using of_nat_unat_small [of "unat addr div 4096 mod 1024"] by (simp add: word_unat_eq_iff)
  then show ?thesis by (intro exI [of _ "unat addr div 4096 mod 1024"]) simp
qed

lemma page_mask [simp]: "page D AND NOT 0xFFF = page D"
proof -
  have c: "(0xFFF :: u32) = mask 12" by (simp add: mask_eq_exp_minus_1)
  show ?thesis unfolding page_push c by (rule bit_eqI) (auto simp: bit_simps)
qed

lemma zero_page_simps [simp]:
  "nframes (zero_page p m) = nframes m" "page_dir (zero_page p m) = page_dir m" "cr3 (zero_page p m) = cr3 m"
  "bitmap (zero_page p m) = bitmap m" "frames_free (zero_page p m) = frames_free m"
  "brk (zero_page p m) = brk m" "cur_dir (zero_page p m) = cur_dir m" "fault_count (zero_page p m) = fault_count m"
  "ram (zero_page p m) a = (if a - p < PAGE_SIZE then 0 else ram m a)"
  by (simp_all add: zero_page_def)

lemma copy_page_simps [simp]:
  "nframes (copy_page p q m) = nframes m" "page_dir (copy_page p q m) = page_dir m" "cr3 (copy_page p q m) = cr3 m"
  "cur_dir (copy_page p q m) = cur_dir m"
  "bitmap (copy_page p q m) = bitmap m" "frames_free (copy_page p q m) = frames_free m"
  "ram (copy_page p q m) a = (if a - p < PAGE_SIZE then ram m (q + (a - p)) else ram m a)"
  by (simp_all add: copy_page_def)

lemma poke_simps [simp]:
  "nframes (poke p v m) = nframes m" "page_dir (poke p v m) = page_dir m" "cr3 (poke p v m) = cr3 m"
  "bitmap (poke p v m) = bitmap m" "frames_free (poke p v m) = frames_free m"
  "brk (poke p v m) = brk m" "cur_dir (poke p v m) = cur_dir m" "fault_count (poke p v m) = fault_count m"
  "ram (poke p v m) a = (if a = p then v else ram m a)"
  by (simp_all add: poke_def)

lemma free_set_cong: "bitmap m' = bitmap m \<Longrightarrow> nframes m' = nframes m \<Longrightarrow> free_set m' = free_set m"
  by (simp add: free_set_def used_def)

lemma mem_ok_cong:
  "bitmap m' = bitmap m \<Longrightarrow> nframes m' = nframes m \<Longrightarrow> frames_free m' = frames_free m \<Longrightarrow> mem_ok m' = mem_ok m"
  using free_set_cong [of m' m] by (simp add: mem_ok_def)

lemma page_mask' [simp]: "page D AND - 4096 = page D"
  using page_mask [of D] by simp

lemma quad_eq_iff [simp]: "i < 1024 \<Longrightarrow> j < 1024 \<Longrightarrow> 4 * of_nat i = (4 * of_nat j :: u32) \<longleftrightarrow> i = j"
  using entry_eq_iff [of 0 0 i j] by simp

lemma quad_eq_4 [simp]: "i < 1024 \<Longrightarrow> 4 * of_nat i = (4 :: u32) \<longleftrightarrow> i = 1"
  using quad_eq_iff [of i 1] by simp

lemma page_0 [simp]: "page 0 = 0"
  by (simp add: page_def)

lemma entry_eq_1 [simp]:
  "p < 1048576 \<Longrightarrow> q < 1048576 \<Longrightarrow> j < 1024 \<Longrightarrow> page p + 4 * of_nat j = page q + 4 \<longleftrightarrow> p = q \<and> j = 1"
  using entry_eq_iff [of p q j 1] by simp

lemma quad_lt [simp]: "k < 1024 \<Longrightarrow> 4 * of_nat k < PAGE_SIZE"
  using unat_entry [of 0 k] by (simp add: word_less_nat_alt PAGE_SIZE_def)

lemma alloc_frame_none: "mem_ok m \<Longrightarrow> free_set m = {} \<Longrightarrow> alloc_frame m = Some (0, m)"
  by (rule alloc_frame_eq [of m]) auto

lemma alloc_frame_some:
  assumes "mem_ok m" and "free_set m \<noteq> {}"
  obtains i m' where "alloc_frame m = Some (page i, m')" "i \<in> free_set m" "i < 1048576" "page i \<noteq> 0"
    "free_set m' = free_set m - {i}" "mem_ok m'" "same_but_map m m'" "i \<noteq> 0"
proof (cases rule: alloc_frame_eq [OF assms(1)])
  case (2 i m')
  have "i \<noteq> 0" using 2(4) by (cases "i = 0") (simp_all add: page_def)
  then show thesis by (rule that [OF 2(1-7)])
qed (use assms(2) in simp)

section \<open>Page faults\<close>

lemma vm_fault_outside: "addr < USER_BASE \<or> addr \<ge> USER_TOP \<Longrightarrow> vm_fault addr m = Some (0, m)"
  by (simp add: vm_fault_def)

lemma vm_fault_step:
  assumes "space m D P pm" and "mem_ok m" and "cr3 m = page D"
    and "\<not> (addr < USER_BASE \<or> addr \<ge> USER_TOP)" and "j = unat addr div 4096 mod 1024"
  shows "vm_fault addr m =
    (if pm j \<noteq> None then Some (0, m)
     else alloc_frame m \<bind> (\<lambda>(frame, m).
       if frame = 0 then Some (0, m)
       else Some (1, (poke (page P + 4 * of_nat j) (frame OR 7) (zero_page frame m))
              \<lparr>fault_count := fault_count m + 1\<rparr>)))"
proof -
  have j: "drop_bit 12 addr AND 0x3FF = (of_nat j :: u32)" "j < 1024"
    using table_index [of addr] assms(5) by simp_all
  have pde: "ram m (page D + 4) = page P OR 7" using assms(1) by (simp add: space_def)
  have pte: "ram m (page P + 4 * of_nat j) = (case pm j of None \<Rightarrow> 0 | Some f \<Rightarrow> page f OR 7)"
    using assms(1) j(2) by (simp add: space_def table_ok_def)
  have or: "frame OR 3 OR 4 = frame OR (7 :: u32)" for frame by (simp add: or.assoc)
  show ?thesis
    using assms(4) pde pte
    by (cases "pm j") (simp_all add: vm_fault_def Let_def assms(3) window_index [OF assms(4)] j(1) or
        del: split_paired_All cong: if_cong)
qed

text \<open>What a page fault changes when a frame is left.\<close>

lemma vm_fault_maps:
  assumes sp: "space m D P pm" and ok: "mem_ok m" and "cr3 m = page D"
    and "\<not> (addr < USER_BASE \<or> addr \<ge> USER_TOP)" and j: "j = unat addr div 4096 mod 1024"
    and "pm j = None" and "free_set m \<noteq> {}"
  obtains f m' where "vm_fault addr m = Some (1, m')" "f \<in> free_set m" "mem_ok m'"
    "free_set m' = free_set m - {f}" "space m' D P (pm(j \<mapsto> f))" "cr3 m' = cr3 m" "page_dir m' = page_dir m"
    "nframes m' = nframes m" "brk m' = brk m" "cur_dir m' = cur_dir m" "\<forall>k<1024. ram m' (page f + 4 * of_nat k) = 0"
    "\<forall>a. unat a div 4096 \<noteq> f \<and> a \<noteq> page P + 4 * of_nat j \<longrightarrow> ram m' a = ram m a"
proof -
  have j1024: "j < 1024" using j by simp
  obtain f m1 where f: "alloc_frame m = Some (page f, m1)"
    "f \<in> free_set m" "f < 1048576" "page f \<noteq> 0" "free_set m1 = free_set m - {f}" "mem_ok m1"
    "same_but_map m m1" "f \<noteq> 0" by (rule alloc_frame_some [OF ok assms(7)])
  note same = same_but_mapD [OF f(7)]
  have brk1: "brk m1 = brk m" "cur_dir m1 = cur_dir m" using f(7) by (auto simp: same_but_map_def)
  let ?m = "(poke (page P + 4 * of_nat j) (page f OR 7) (zero_page (page f) m1))\<lparr>fault_count := fault_count m1 + 1\<rparr>"
  have run: "vm_fault addr m = Some (1, ?m)"
    using vm_fault_step [OF sp ok assms(3-5)] assms(6) f(1,4) by simp
  have fs: "free_set ?m = free_set m - {f}" using free_set_cong [of ?m m1] f(5) by simp
  have fin: "f < unat (nframes m)" "f \<noteq> 0"
    using f(2,8) by (simp_all add: free_set_def)
  have new: "f \<notin> owned D P pm" using sp f(2) by (auto simp: space_def)
  note small = space_small [OF ok sp]
  have D: "D < 1048576" and P: "P < 1048576" using small by (simp_all add: owned_def)
  have one: "page D + 4 = page D + 4 * of_nat 1" by simp
  have ramD: "ram ?m (page D + 4 * of_nat i) = ram m (page D + 4 * of_nat i)" if "i < 1024" for i
    using that D P f(3) j1024 sp new same
    by (simp add: in_page_iff entry_page owned_def space_def)
  have ramP: "ram ?m (page P + 4 * of_nat i) = (if i = j then page f OR 7 else ram m (page P + 4 * of_nat i))"
    if "i < 1024" for i
    using that D P f(3) j1024 sp new same
    by (simp add: in_page_iff entry_page owned_def space_def)
  have "table_ok ?m P (pm(j \<mapsto> f))"
    using sp j1024 ramP by (auto simp: table_ok_def space_def)
  moreover have "owned D P (pm(j \<mapsto> f)) = insert f (owned D P pm)"
    using assms(6) by (auto simp: owned_def ran_map_upd)
  moreover have "inj_on (pm(j \<mapsto> f)) (dom (pm(j \<mapsto> f)))"
    using sp new assms(6) by (auto simp: space_def owned_def inj_on_def ran_def) 
  ultimately have "space ?m D P (pm(j \<mapsto> f))"
    using sp fs fin new ramD ramD [of 1] assms(6) same
    by (auto simp: space_def owned_def ran_map_upd)
  moreover have "mem_ok ?m" using mem_ok_cong [of ?m m1] f(6) by simp
  moreover have "\<forall>k<1024. ram ?m (page f + 4 * of_nat k) = 0"
    using f(3) P j1024 new by (simp add: in_page_iff entry_page owned_def)
  moreover have "\<forall>a. unat a div 4096 \<noteq> f \<and> a \<noteq> page P + 4 * of_nat j \<longrightarrow> ram ?m a = ram m a"
    using f(3) same by (simp add: in_page_iff)
  ultimately show thesis using that [of ?m f] run f(2) fs same brk1 by simp
qed

section \<open>Creating and destroying an address space\<close>

text \<open>The kernel directory: an allocated page none of whose entries outside the window is for users.\<close>

definition kernel_dir_ok :: "mem \<Rightarrow> nat \<Rightarrow> bool" where
  "kernel_dir_ok m K \<longleftrightarrow> page_dir m = page K \<and> K < 1048576 \<and> K \<notin> free_set m \<and>
     (\<forall>i<1024. i \<noteq> 1 \<longrightarrow> ram m (page K + 4 * of_nat i) AND 4 = 0)"

lemma user_pdes_eq: "user_pdes = [1]"
  by (simp add: user_pdes_def USER_PDE_FIRST_def USER_PDE_LAST_def USER_BASE_def USER_TOP_def
      drop_bit_eq_div upt_rec)

lemma vm_create_fails:
  assumes "mem_ok m" and "card (free_set m) < 2"
  shows "\<exists>m'. vm_create m = Some (0, m') \<and> free_set m' = free_set m \<and> mem_ok m'"
proof (cases "free_set m = {}")
  case True
  then show ?thesis using alloc_frame_none [OF assms(1)] assms(1)
    by (intro exI [of _ m]) (simp add: vm_create_def)
next
  case False
  obtain D m1 where 2: "alloc_frame m = Some (page D, m1)" "D \<in> free_set m" "D < 1048576" "page D \<noteq> 0"
    "free_set m1 = free_set m - {D}" "mem_ok m1" "same_but_map m m1" "D \<noteq> 0"
    by (rule alloc_frame_some [OF assms(1) False])
  have single: "free_set m = {D}"
  proof -
    have "card (free_set m - {D}) = 0"
      using assms(2) card_Suc_Diff1 [OF finite_free_set 2(2)] by linarith
    then have "free_set m - {D} = {}" by (metis card_0_eq finite_Diff finite_free_set)
    with 2(2) show ?thesis by blast
  qed
  let ?m = "copy_page (page D) (page_dir m1) m1"
  have ok: "mem_ok ?m" using mem_ok_cong [of ?m m1] 2(6) by simp
  have em: "free_set ?m = {}" using free_set_cong [of ?m m1] 2(5) single by simp
  from free_frame_eq [OF ok 2(3,8)] obtain m2 where
    m2: "free_frame (page D) ?m = Some m2" "mem_ok m2" "free_set m2 = {D} \<inter> {..<unat (nframes m)}"
    using em same_but_mapD [OF 2(7)] by auto
  have "vm_create m = Some (0, m2)" using 2(1,4) m2(1) alloc_frame_none [OF ok em]
    by (simp add: vm_create_def user_pdes_eq)
  moreover have "free_set m2 = free_set m" using m2(3) 2(2) single by (auto simp: free_set_def)
  ultimately show ?thesis using m2(2) by blast
qed

lemma vm_create_makes:
  assumes "mem_ok m" and "2 \<le> card (free_set m)" and "kernel_dir_ok m K"
  obtains D P m' where "vm_create m = Some (page D, m')" "page D \<noteq> 0" "mem_ok m'" "D \<in> free_set m" "P \<in> free_set m"
    "free_set m' = free_set m - {D, P}" "space m' D P Map.empty" "page_dir m' = page_dir m" "brk m' = 0"
    "nframes m' = nframes m" "\<forall>i<1024. i \<noteq> 1 \<longrightarrow> ram m' (page D + 4 * of_nat i) = ram m (page K + 4 * of_nat i)"
    "\<forall>a. unat a div 4096 \<notin> {D, P} \<longrightarrow> ram m' a = ram m a"
proof -
  have "free_set m \<noteq> {}" using assms(2) by auto
  then obtain D m1 where
    D: "alloc_frame m = Some (page D, m1)" "D \<in> free_set m" "D < 1048576" "page D \<noteq> 0"
      "free_set m1 = free_set m - {D}" "mem_ok m1" "same_but_map m m1" "D \<noteq> 0"
    by (rule alloc_frame_some [OF assms(1)])
  let ?m1 = "copy_page (page D) (page_dir m1) m1"
  note s1 = same_but_mapD [OF D(7)]
  have ok1: "mem_ok ?m1" using mem_ok_cong [of ?m1 m1] D(6) by simp
  have f1: "free_set ?m1 = free_set m - {D}" using free_set_cong [of ?m1 m1] D(5) by simp
  have "free_set ?m1 \<noteq> {}"
  proof -
    have "1 \<le> card (free_set m - {D})" using assms(2) card_Suc_Diff1 [OF finite_free_set D(2)] by simp
    then show ?thesis using f1 by (metis card.empty not_one_le_zero)
  qed
  then obtain P m2 where
    P: "alloc_frame ?m1 = Some (page P, m2)" "P \<in> free_set ?m1" "P < 1048576" "page P \<noteq> 0"
      "free_set m2 = free_set ?m1 - {P}" "mem_ok m2" "same_but_map ?m1 m2" "P \<noteq> 0"
    by (rule alloc_frame_some [OF ok1])
  note s2 = same_but_mapD [OF P(7)]
  have PD: "P \<noteq> D" using P(2) f1 by simp
  let ?m = "(poke (page D + 4) (page P OR 7) (zero_page (page P) m2))\<lparr>brk := 0\<rparr>"
  have run: "vm_create m = Some (page D, ?m)"
    using D(1,4) P(1,4) by (simp add: vm_create_def user_pdes_eq or.assoc)
  have fs: "free_set ?m = free_set m - {D, P}" using free_set_cong [of ?m m2] P(5) f1 by auto
  have K: "page_dir m = page K" "K < 1048576" "K \<noteq> D" "K \<noteq> P"
    using assms(3) D(2) P(2) f1 by (auto simp: kernel_dir_ok_def)
  have one: "page D + 4 = page D + 4 * of_nat 1" by simp
  have ramD: "ram ?m (page D + 4 * of_nat i) = ram m (page K + 4 * of_nat i)" if "i < 1024" "i \<noteq> 1" for i
    using that D(3) P(3) PD K s1 s2 by (simp add: in_page_iff entry_page)
  have ramP: "ram ?m (page P + 4 * of_nat i) = 0" if "i < 1024" for i
    using that D(3) P(3) PD by (simp add: in_page_iff entry_page)
  have in_range: "D \<in> {0<..<unat (nframes m)}" "P \<in> {0<..<unat (nframes m)}"
    using D(2,8) P(2,8) f1 by (auto simp: free_set_def)
  have "space ?m D P Map.empty"
    using PD fs in_range ramD ramP assms(3) s1 s2
    by (auto simp: space_def owned_def table_ok_def kernel_dir_ok_def)
  moreover have "mem_ok ?m" using mem_ok_cong [of ?m m2] P(6) by simp
  moreover have "\<forall>a. unat a div 4096 \<notin> {D, P} \<longrightarrow> ram ?m a = ram m a"
    using D(3) P(3) s1 s2 entry_page [of D 1] by (auto simp: in_page_iff)
  ultimately show thesis using that [of D ?m P] run D(2,4) P(2) f1 fs s1 s2 ramD by simp
qed

lemma page_inj: "p < 1048576 \<Longrightarrow> q < 1048576 \<Longrightarrow> page p = page q \<Longrightarrow> p = q"
  by (drule arg_cong [where f = unat]) (simp add: unat_page)

lemma free_ptes_eq:
  assumes "mem_ok m" and "table_ok m P pm" and "set js \<subseteq> {..<1024}"
    and "\<forall>f\<in>ran pm. f < 1048576 \<and> f \<noteq> 0 \<and> f < unat (nframes m)"
  shows "\<exists>m'. free_ptes (page P) js m = Some m' \<and> mem_ok m' \<and> same_but_map m m' \<and>
    free_set m' = free_set m \<union> ran (pm |` set js)"
  using assms
proof (induction js arbitrary: m)
  case (Cons j js)
  then have pte: "ram m (page P + 4 * of_nat j) = (case pm j of None \<Rightarrow> 0 | Some f \<Rightarrow> page f OR 7)"
    by (simp add: table_ok_def)
  obtain m1 where m1: "(if ram m (page P + 4 * of_nat j) AND 1 \<noteq> 0
      then free_frame (ram m (page P + 4 * of_nat j) AND 0xFFFFF000) m else Some m) = Some m1"
    "mem_ok m1" "same_but_map m m1" "free_set m1 = free_set m \<union> ran (pm |` {j})"
  proof (cases "pm j")
    case None
    then show thesis using that [of m] Cons.prems(1) pte by (simp add: ran_restrictD restrict_map_insert)
  next
    case (Some f)
    then have f: "f < 1048576" "f \<noteq> 0" "f < unat (nframes m)" using Cons.prems(4) by (auto simp: ran_def)
    from free_frame_eq [OF Cons.prems(1) f(1,2)] obtain m1 where
      "free_frame (page f) m = Some m1" "mem_ok m1" "same_but_map m m1" "free_set m1 = free_set m \<union> {f}"
      using f(3) by auto
    moreover have "ran (pm |` {j}) = {f}" using Some by (auto simp: ran_def restrict_map_def)
    ultimately show thesis using that [of m1] Some pte by simp
  qed
  note s1 = same_but_mapD [OF m1(3)]
  have "table_ok m1 P pm" using Cons.prems(2) s1 by (simp add: table_ok_def)
  moreover have "\<forall>f\<in>ran pm. f < 1048576 \<and> f \<noteq> 0 \<and> f < unat (nframes m1)" using Cons.prems(4) s1 by simp
  ultimately obtain m2 where m2: "free_ptes (page P) js m1 = Some m2" "mem_ok m2" "same_but_map m1 m2"
    "free_set m2 = free_set m1 \<union> ran (pm |` set js)"
    using Cons.IH [of m1] m1(2) Cons.prems(3) by auto
  have "ran (pm |` set (j # js)) = ran (pm |` {j}) \<union> ran (pm |` set js)"
    by (auto simp: ran_def restrict_map_def)
  with m1 m2 same_but_map_trans [OF m1(3) m2(3)] show ?case by (auto simp: Let_def)
qed simp

lemma vm_destroy_eq:
  assumes sp: "space m D P pm" and ok: "mem_ok m" and "page_dir m \<noteq> page D"
  shows "\<exists>m'. vm_destroy (page D) m = Some m' \<and> mem_ok m' \<and> free_set m' = free_set m \<union> owned D P pm \<and>
    cr3 m' = cr3 m \<and> cur_dir m' = cur_dir m"
proof -
  note small = space_small [OF ok sp]
  have D: "D < 1048576" "D \<noteq> 0" "D < unat (nframes m)" and P: "P < 1048576" "P \<noteq> 0" "P < unat (nframes m)"
    using small sp by (auto simp: owned_def space_def)
  have pages: "\<forall>f\<in>ran pm. f < 1048576 \<and> f \<noteq> 0 \<and> f < unat (nframes m)"
    using small sp by (auto simp: owned_def space_def)
  have tab: "table_ok m P pm" and pde: "ram m (page D + 4) = page P OR 7" using sp by (simp_all add: space_def)
  from free_ptes_eq [OF ok tab _ pages, of "[0..<1024]"] obtain m1 where
    m1: "free_ptes (page P) [0..<1024] m = Some m1" "mem_ok m1" "same_but_map m m1"
      "free_set m1 = free_set m \<union> ran (pm |` {..<1024})" by (auto simp: atLeast0LessThan)
  have "pm x = None" if "\<not> x < 1024" for x using tab that by (auto simp: table_ok_def dom_def)
  then have "pm |` {..<1024} = pm" by (auto simp: restrict_map_def fun_eq_iff)
  then have f1: "free_set m1 = free_set m \<union> ran pm" using m1(4) by simp
  from free_frame_eq [OF m1(2) P(1,2)] obtain m2 where
    m2: "free_frame (page P) m1 = Some m2" "mem_ok m2" "same_but_map m1 m2" "free_set m2 = free_set m \<union> ran pm \<union> {P}"
    using P(3) f1 same_but_mapD [OF m1(3)] by auto
  let ?m2 = "poke (page D + 4) 0 m2"
  have ok2: "mem_ok ?m2" using mem_ok_cong [of ?m2 m2] m2(2) by simp
  have nf: "nframes m2 = nframes m" using same_but_mapD [OF m1(3)] same_but_mapD [OF m2(3)] by simp
  from free_frame_eq [OF ok2 D(1,2)] free_set_cong [of ?m2 m2] obtain m3 where
    m3: "free_frame (page D) ?m2 = Some m3" "mem_ok m3" "same_but_map ?m2 m3"
      "free_set m3 = free_set m \<union> ran pm \<union> {P} \<union> {D}"
    using D(3) m2(4) nf by auto
  have "page D \<noteq> 0" using page_inj [of D 0] D by auto
  then have "vm_destroy (page D) m = Some m3"
    using assms(3) pde m1(1) m2(1) m3(1) same_but_mapD [OF m1(3)]
    by (simp add: vm_destroy_def user_pdes_eq)
  moreover have "cr3 m3 = cr3 m \<and> cur_dir m3 = cur_dir m"
    using same_but_mapD [OF m3(3)] same_but_map_more [OF m3(3)] same_but_mapD [OF m2(3)] same_but_map_more [OF m2(3)]
      same_but_mapD [OF m1(3)] same_but_map_more [OF m1(3)] by (simp add: poke_def)
  ultimately show ?thesis using m3 by (auto simp: owned_def)
qed

end
