(* ===== verification/MemProcess.thy ===== *)
theory MemProcess
  imports MemSpace
begin

text \<open>
  A user program as a sequence of steps, its isolation and the release of its frames; the program
  break.
\<close>

section \<open>A user program running\<close>

text \<open>The processor's page walk for an access from ring 3: both entries must be present and for users.\<close>

definition user_access :: "mem \<Rightarrow> u32 \<Rightarrow> u32 option" where
  "user_access m v =
     (let pde = ram m ((cr3 m AND NOT 0xFFF) + 4 * drop_bit 22 v)
      in if pde AND 5 \<noteq> 5 then None
         else
           let pte = ram m ((pde AND 0xFFFFF000) + 4 * (drop_bit 12 v AND 0x3FF))
           in if pte AND 5 \<noteq> 5 then None else Some ((pte AND 0xFFFFF000) + (v AND 0xFFF)))"

text \<open>What a program can make happen to memory: faults, stores through its own mapping, sbrk.\<close>

inductive user_step :: "mem \<Rightarrow> mem \<Rightarrow> bool" where
  fault: "vm_fault addr m = Some (r, m') \<Longrightarrow> user_step m m'"
| user_store: "v AND 3 = 0 \<Longrightarrow> user_access m v = Some a \<Longrightarrow> user_step m (poke a x m)"
| sbrk: "vm_sbrk inc m = (r, m') \<Longrightarrow> user_step m m'"

lemma dir_index: "\<exists>i<1024. drop_bit 22 v = (of_nat i :: u32)"
proof -
  have "unat (drop_bit 22 v) = unat v div 4194304"
    by (simp only: unat_drop_bit_eq) (simp add: drop_bit_eq_div)
  moreover have "unat v < 1024 * 4194304" using unat_u32_lt [of v] by linarith
  then have "unat v div 4194304 < 1024" by (rule less_mult_imp_div_less)
  ultimately show ?thesis
    using of_nat_unat_small [of "unat v div 4194304"] by (intro exI [of _ "unat v div 4194304"]) (simp add: word_unat_eq_iff)
qed

lemma and_5_4: "(w :: u32) AND 5 = 5 \<Longrightarrow> w AND 4 \<noteq> 0"
proof
  assume a: "w AND 5 = 5" "w AND 4 = 0"
  have "(5 :: u32) AND 4 = (w AND 5) AND 4" by (simp only: a(1))
  also have "(w AND 5) AND 4 = w AND 4" by (simp add: and.assoc)
  also note a(2)
  finally show False by simp
qed

lemma unat_in_page: "f < 1048576 \<Longrightarrow> unat (page f + (v AND 0xFFF)) div 4096 = f"
proof -
  assume f: "f < 1048576"
  have "(0xFFF :: u32) = mask 12" by (simp add: mask_eq_exp_minus_1)
  then have "v AND 0xFFF = take_bit 12 v" by (simp add: take_bit_eq_mask)
  then have "unat (v AND 0xFFF) < 4096"
    by (simp only: unsigned_take_bit_eq) (simp add: take_bit_eq_mod)
  then show ?thesis using f
    by (subst unat_add_no_wrap) (simp_all add: unat_page div_4096_iff)
qed

lemma user_access_page:
  assumes sp: "space m D P pm" and ok: "mem_ok m" and "cr3 m = page D" and "user_access m v = Some a"
  shows "unat a div 4096 \<in> ran pm"
proof -
  obtain i where i: "i < 1024" "drop_bit 22 v = (of_nat i :: u32)" using dir_index by blast
  obtain j where j: "j < 1024" "drop_bit 12 v AND 0x3FF = (of_nat j :: u32)" using table_index [of v] by blast
  have pdeu: "ram m (page D + 4 * of_nat i) AND 5 = 5"
    using assms(3,4) i(2) by (simp add: user_access_def Let_def split: if_splits)
  have "i = 1"
  proof (rule ccontr)
    assume "i \<noteq> 1"
    then have "ram m (page D + 4 * of_nat i) AND 4 = 0" using sp i(1) by (simp add: space_def)
    with and_5_4 [OF pdeu] show False by simp
  qed
  then have pde: "ram m (page D + 4 * of_nat i) = page P OR 7" using sp by (simp add: space_def)
  have pte: "ram m (page P + 4 * of_nat j) = (case pm j of None \<Rightarrow> 0 | Some f \<Rightarrow> page f OR 7)"
    using sp j(1) by (simp add: space_def table_ok_def)
  have acc: "user_access m v = (if ram m (page P + 4 * of_nat j) AND 5 \<noteq> 5 then None
      else Some ((ram m (page P + 4 * of_nat j) AND 0xFFFFF000) + (v AND 0xFFF)))"
    using pdeu by (simp add: user_access_def assms(3) i(2) pde j(2) Let_def)
  show ?thesis
  proof (cases "pm j")
    case (Some f)
    then have f: "f \<in> ran pm" by (auto simp: ran_def)
    then have "f < 1048576" using space_small [OF ok sp, of f] by (simp add: owned_def)
    then show ?thesis using acc assms(4) pte Some f unat_in_page [of f v] by simp
  qed (use acc assms(4) pte in simp)
qed


text \<open>The invariant of a running program: everything it owns was free before it was created, and
  nothing else has changed.\<close>

definition running :: "mem \<Rightarrow> nat \<Rightarrow> nat \<Rightarrow> mem \<Rightarrow> bool" where
  "running m0 D P m \<longleftrightarrow> (\<exists>pm. space m D P pm \<and> owned D P pm \<subseteq> free_set m0 \<and>
     free_set m = free_set m0 - owned D P pm) \<and>
     mem_ok m \<and> cr3 m = page D \<and> cur_dir m = page D \<and> page_dir m = page_dir m0 \<and>
     nframes m = nframes m0 \<and>
     (\<forall>a. unat a div 4096 \<notin> free_set m0 \<longrightarrow> ram m a = ram m0 a)"

lemma running_fault:
  assumes r: "running m0 D P m" and "vm_fault addr m = Some (x, m')"
  shows "running m0 D P m'"
proof -
  from r obtain pm where sp: "space m D P pm" and own: "owned D P pm \<subseteq> free_set m0"
    "free_set m = free_set m0 - owned D P pm" and ok: "mem_ok m" and cr: "cr3 m = page D"
    by (auto simp: running_def)
  let ?j = "unat addr div 4096 mod 1024"
  show ?thesis
  proof (cases "addr < USER_BASE \<or> addr \<ge> USER_TOP")
    case True
    from vm_fault_outside [OF this] assms show ?thesis by simp
  next
    case win: False
    show ?thesis
    proof (cases "pm ?j \<noteq> None \<or> free_set m = {}")
      case True
      then have "m' = m"
        using vm_fault_step [OF sp ok cr win refl] alloc_frame_none [OF ok] assms(2)
        by (cases "pm ?j = None") simp_all
      with r show ?thesis by simp
    next
      case False
      then have c: "pm ?j = None" "free_set m \<noteq> {}" by simp_all
      obtain f m1 where f: "vm_fault addr m = Some (1, m1)" "f \<in> free_set m" "mem_ok m1"
        "free_set m1 = free_set m - {f}" "space m1 D P (pm(?j \<mapsto> f))" "cr3 m1 = cr3 m" "page_dir m1 = page_dir m"
        "nframes m1 = nframes m" "cur_dir m1 = cur_dir m"
        "\<forall>a. unat a div 4096 \<noteq> f \<and> a \<noteq> page P + 4 * of_nat ?j \<longrightarrow> ram m1 a = ram m a"
        by (rule vm_fault_maps [OF sp ok cr win refl c]) blast
      have m1: "m1 = m'" using f(1) assms(2) by simp
      have o2: "owned D P (pm(?j \<mapsto> f)) = insert f (owned D P pm)"
        using c by (auto simp: owned_def ran_map_upd)
      have "P < 1048576" using space_small [OF ok sp, of P] by (simp add: owned_def)
      then have "unat (page P + 4 * of_nat ?j) div 4096 = P" by (intro entry_page) simp_all
      moreover have "P \<in> free_set m0" using own by (auto simp: owned_def)
      ultimately have "ram m1 a = ram m0 a" if "unat a div 4096 \<notin> free_set m0" for a
        using that f(2,10) own(2) r by (auto simp: running_def)
      moreover have "free_set m1 = free_set m0 - owned D P (pm(?j \<mapsto> f))" using f(4) own o2 by auto
      moreover have "owned D P (pm(?j \<mapsto> f)) \<subseteq> free_set m0" using o2 own f(2) by auto
      ultimately show ?thesis using r f(3,5-9) unfolding m1 [symmetric] running_def by auto
    qed
  qed
qed

lemma running_store:
  assumes r: "running m0 D P m" and "user_access m v = Some a"
  shows "running m0 D P (poke a x m)"
proof -
  from r obtain pm where sp: "space m D P pm" and own: "owned D P pm \<subseteq> free_set m0"
    "free_set m = free_set m0 - owned D P pm" and ok: "mem_ok m" and cr: "cr3 m = page D"
    by (auto simp: running_def)
  from user_access_page [OF sp ok cr assms(2)] have a: "unat a div 4096 \<in> ran pm" .
  have D: "D < 1048576" and P: "P < 1048576" using space_small [OF ok sp] by (simp_all add: owned_def)
  have not: "D \<notin> ran pm" "P \<notin> ran pm" using sp by (simp_all add: space_def)
  have ne: "page D + 4 * of_nat i \<noteq> a" "page P + 4 * of_nat i \<noteq> a" if "i < 1024" for i
    using entry_page [OF D that] entry_page [OF P that] a not by auto
  have fs: "free_set (poke a x m) = free_set m" by (rule free_set_cong) simp_all
  have "space (poke a x m) D P pm"
    using sp ne ne [of 1] fs by (auto simp: space_def table_ok_def)
  moreover have "mem_ok (poke a x m)" using mem_ok_cong [of "poke a x m" m] ok by simp
  moreover have "unat a div 4096 \<in> free_set m0" using a own(1) by (auto simp: owned_def)
  moreover have "cur_dir (poke a x m) = cur_dir m" by (simp add: poke_def)
  ultimately show ?thesis using r own fs unfolding running_def by auto
qed

lemma running_sbrk:
  assumes "running m0 D P m" and "vm_sbrk inc m = (x, m')"
  shows "running m0 D P m'"
proof -
  from assms(2) obtain b where m': "m' = m\<lparr>brk := b\<rparr>" 
    by (auto simp: vm_sbrk_def split: if_splits intro: that [of "brk m"])
  have fs: "free_set m' = free_set m" using free_set_cong [of m' m] m' by simp
  have "mem_ok m' = mem_ok m" using mem_ok_cong [of m' m] m' by simp
  moreover have "space m' D P pm = space m D P pm" for pm
    using fs by (simp add: space_def table_ok_def m')
  ultimately show ?thesis using assms(1) fs by (simp add: running_def m')
qed


lemma running_steps:
  assumes "user_step\<^sup>*\<^sup>* m1 m2" and "running m0 D P m1"
  shows "running m0 D P m2"
  using assms(1)
proof (induction rule: rtranclp_induct)
  case (step m m')
  from step.hyps(2) show ?case
    by cases (blast intro: running_fault [OF step.IH], blast intro: running_store [OF step.IH],
        rule running_sbrk [OF step.IH])
qed (rule assms(2))

lemma running_start:
  assumes "mem_ok m0" and "kernel_dir_ok m0 K" and "vm_create m0 = Some (d, m1)" and "d \<noteq> 0"
  obtains D P where "d = page D" "running m0 D P (vm_attach d m1)" "page_dir m0 \<noteq> page D"
proof -
  have "2 \<le> card (free_set m0)"
    using vm_create_fails [OF assms(1)] assms(3,4) by (cases "card (free_set m0) < 2") auto
  then obtain D P m' where c0: "vm_create m0 = Some (page D, m')" and c': "mem_ok m'" "D \<in> free_set m0"
    "P \<in> free_set m0" "free_set m' = free_set m0 - {D, P}" "space m' D P Map.empty"
    "page_dir m' = page_dir m0" "nframes m' = nframes m0"
    "\<forall>a. unat a div 4096 \<notin> {D, P} \<longrightarrow> ram m' a = ram m0 a"
    by (rule vm_create_makes [OF assms(1) _ assms(2)]) blast
  have "d = page D \<and> m' = m1" using c0 assms(3) by simp
  then have c: "d = page D" "mem_ok m1" "D \<in> free_set m0" "P \<in> free_set m0"
    "free_set m1 = free_set m0 - {D, P}" "space m1 D P Map.empty" "page_dir m1 = page_dir m0"
    "nframes m1 = nframes m0" "\<forall>a. unat a div 4096 \<notin> {D, P} \<longrightarrow> ram m1 a = ram m0 a"
    using c' by simp_all
  let ?m = "vm_attach d m1"
  have sel: "ram ?m = ram m1" "bitmap ?m = bitmap m1" "nframes ?m = nframes m1" "page_dir ?m = page_dir m1"
    "cr3 ?m = d" "cur_dir ?m = d" "frames_free ?m = frames_free m1"
    by (simp_all add: vm_attach_def vm_switch_def)
  have fs: "free_set ?m = free_set m1" by (rule free_set_cong) (simp_all add: sel)
  have ok: "mem_ok ?m" using mem_ok_cong [of ?m m1] c(2) by (simp add: sel)
  have sp: "space ?m D P Map.empty" using c(6) fs by (simp add: space_def table_ok_def sel)
  have own: "owned D P Map.empty = {D, P}" by (simp add: owned_def)
  have ow: "owned D P Map.empty \<subseteq> free_set m0" "free_set ?m = free_set m0 - owned D P Map.empty"
    unfolding own fs c(5) using c(3,4) by simp_all
  have cr: "cr3 ?m = page D" "cur_dir ?m = page D" unfolding sel by (fact c(1))+
  have pd: "page_dir ?m = page_dir m0" "nframes ?m = nframes m0" unfolding sel by (fact c(7,8))+
  have "ram ?m a = ram m0 a" if "unat a div 4096 \<notin> free_set m0" for a
  proof -
    have "unat a div 4096 \<noteq> D" "unat a div 4096 \<noteq> P" using that c(3,4) by metis+
    then show ?thesis using c(9) by (simp add: sel)
  qed
  with ok sp ow cr pd have "running m0 D P ?m" unfolding running_def by blast
  moreover have "page_dir m0 \<noteq> page D"
  proof
    assume e: "page_dir m0 = page D"
    have K: "page_dir m0 = page K" "K < 1048576" "K \<notin> free_set m0"
      using assms(2) unfolding kernel_dir_ok_def by blast+
    have "D < 1048576" using c(3) mem_okD(1) [OF assms(1)] by (simp add: free_set_def)
    with K(2) have "K = D" by (rule page_inj) (use K(1) e in metis)
    with c(3) K(3) show False by metis
  qed
  ultimately show thesis using c(1) that by blast
qed

section \<open>Properties\<close>

text \<open>C23: the page tables isolate a program. From the creation of its address space on, whatever it touches, loads and
  stores itself in ring 3 and however it grows its heap, every physical address it can reach lies in a frame that
  was free when it was created, and by these steps no other memory changes: not the kernel, not the kernel's tables,
  not another program's pages. The steps are the program's own accesses, their page faults and sbrk. What the kernel
  writes for it during a system call through a pointer it passed is not among them: the calls do not check such
  pointers (syscall.c, line 55).\<close>

theorem process_isolated:
  assumes "mem_ok m0" and "kernel_dir_ok m0 K" and "vm_create m0 = Some (d, m1)" and "d \<noteq> 0"
    and "user_step\<^sup>*\<^sup>* (vm_attach d m1) m2"
  shows "(\<forall>v a. user_access m2 v = Some a \<longrightarrow> unat a div 4096 \<in> free_set m0) \<and>
    (\<forall>a. unat a div 4096 \<notin> free_set m0 \<longrightarrow> ram m2 a = ram m0 a)"
proof -
  from running_start [OF assms(1-4)] obtain D P where "running m0 D P (vm_attach d m1)" by blast
  from running_steps [OF assms(5) this] have r: "running m0 D P m2" .
  then obtain pm where pm: "space m2 D P pm" "owned D P pm \<subseteq> free_set m0" "mem_ok m2" "cr3 m2 = page D"
    by (auto simp: running_def)
  show ?thesis using r user_access_page [OF pm(1,3,4)] pm(2) by (auto simp: running_def owned_def)
qed

text \<open>C24: a program leaves nothing behind. When it ends, vm_detach goes back to the kernel directory and
  frees exactly its frames: the free frames and their count are those before vm_create, whatever
  pages it touched.\<close>

theorem process_no_leak:
  assumes "mem_ok m0" and "kernel_dir_ok m0 K" and "vm_create m0 = Some (d, m1)" and "d \<noteq> 0"
    and "user_step\<^sup>*\<^sup>* (vm_attach d m1) m2"
  shows "\<exists>m3. vm_detach m2 = Some m3 \<and> free_set m3 = free_set m0 \<and> frames_free m3 = frames_free m0 \<and>
    cr3 m3 = page_dir m0 \<and> cur_dir m3 = 0"
proof -
  from running_start [OF assms(1-4)] obtain D P where
    D: "d = page D" "running m0 D P (vm_attach d m1)" "page_dir m0 \<noteq> page D" by blast
  from running_steps [OF assms(5) D(2)] have r: "running m0 D P m2" .
  then obtain pm where pm: "space m2 D P pm" "owned D P pm \<subseteq> free_set m0" "mem_ok m2"
    "free_set m2 = free_set m0 - owned D P pm" "cur_dir m2 = page D" "page_dir m2 = page_dir m0"
    by (auto simp: running_def)
  let ?m = "m2\<lparr>cur_dir := 0, cr3 := page_dir m2\<rparr>"
  have fs: "free_set ?m = free_set m2" by (rule free_set_cong) simp_all
  have "mem_ok ?m" using mem_ok_cong [of ?m m2] pm(3) by simp
  moreover have "space ?m D P pm" using pm(1) fs by (simp add: space_def table_ok_def)
  ultimately obtain m3 where m3: "vm_destroy (page D) ?m = Some m3" "mem_ok m3"
    "free_set m3 = free_set ?m \<union> owned D P pm" "cr3 m3 = page_dir m2" "cur_dir m3 = 0"
    using vm_destroy_eq [of ?m D P pm] pm(6) D(3) by auto
  have "free_set m3 = free_set m0" using m3(3) fs pm(2,4) by auto
  moreover have "frames_free m3 = frames_free m0"
    using mem_okD(2) [OF m3(2)] mem_okD(2) [OF assms(1)] calculation by simp
  moreover have "vm_detach m2 = Some m3"
    using m3(1) pm(5) assms(4) D(1) by (simp add: vm_detach_def vm_switch_def Let_def)
  ultimately show ?thesis using m3(4,5) pm(6) by simp
qed

section \<open>The program break\<close>

lemma vm_sbrk_eq:
  assumes "USER_BASE \<le> brk m" and "brk m \<le> USER_STACK"
  shows "vm_sbrk inc m = (if unat (brk m) + unat inc \<le> unat USER_STACK
    then (brk m + inc, m\<lparr>brk := brk m + inc\<rparr>) else (brk m, m))"
proof -
  have b: "4194304 \<le> unat (brk m)" "unat (brk m) \<le> 8384512"
    using assms(1,2) by (simp_all add: USER_BASE_def USER_STACK_def word_le_nat_alt)
  have top: "unat (USER_TOP - brk m) = 8388608 - unat (brk m)"
    using b by (subst unat_sub_no_wrap) (simp_all add: USER_TOP_def word_le_nat_alt)
  show ?thesis
  proof (cases "inc > USER_TOP - brk m")
    case True
    then have "8388608 - unat (brk m) < unat inc" by (simp add: word_less_nat_alt top)
    then have "\<not> unat (brk m) + unat inc \<le> unat USER_STACK" by (simp add: USER_STACK_def)
    moreover have "inc \<noteq> 0" using True by auto
    ultimately show ?thesis using True by (simp add: vm_sbrk_def)
  next
    case False
    then have inc: "unat inc \<le> 8388608 - unat (brk m)" by (simp add: word_less_nat_alt top not_less)
    then have sum: "unat (brk m + inc) = unat (brk m) + unat inc" using b by (simp add: unat_add_no_wrap)
    have "brk m + inc > USER_STACK \<longleftrightarrow> \<not> unat (brk m) + unat inc \<le> unat USER_STACK"
      by (simp add: word_less_nat_alt sum not_le)
    then show ?thesis using False b(2) by (cases "inc = 0") (auto simp: vm_sbrk_def USER_STACK_def)
  qed
qed

text \<open>C37: sbrk never takes the heap out of the window. Once a program is loaded (its break at most one
  below the stack page), every request leaves the break between its old value and the stack page; a
  request that fits moves it by exactly that much, any other changes nothing, and the value returned
  is the break after the call.\<close>

theorem vm_sbrk_bounds:
  assumes "USER_BASE \<le> brk m" and "brk m \<le> USER_STACK" and "vm_sbrk inc m = (r, m')"
  shows "r = brk m' \<and> m' = m\<lparr>brk := brk m'\<rparr> \<and> brk m \<le> brk m' \<and> brk m' \<le> USER_STACK \<and>
    unat (brk m') = (if unat (brk m) + unat inc \<le> unat USER_STACK then unat (brk m) + unat inc else unat (brk m))"
proof (cases "unat (brk m) + unat inc \<le> unat USER_STACK")
  case True
  then have "unat (brk m + inc) = unat (brk m) + unat inc"
    by (simp add: USER_STACK_def unat_add_no_wrap)
  with True vm_sbrk_eq [OF assms(1,2), of inc] assms(3) show ?thesis by (auto simp: word_le_nat_alt)
next
  case False
  with vm_sbrk_eq [OF assms(1,2), of inc] assms(2,3) show ?thesis by auto
qed

section \<open>Concrete machines\<close>

text \<open>Four frames: 0 and 1 are taken, 1 holds an empty kernel directory, 2 and 3 are free.\<close>

definition tiny :: mem where
  "tiny = \<lparr>mem_top = 0x4000, nframes = 4, frames_free = 2, bitmap = [3], ram = (\<lambda>_. 0), page_dir = 0x1000,
     cur_dir = 0, brk = 0, fault_count = 0, cr3 = 0x1000\<rparr>"

lemma tiny_free: "free_set tiny = {2, 3}"
proof -
  have "bit (3 :: byte) i \<longleftrightarrow> i < 2" for i
  proof -
    have "(3 :: byte) = mask 2" by (simp add: mask_eq_exp_minus_1)
    then show ?thesis by (simp only: bit_mask_iff) (auto simp: possible_bit_word)
  qed
  moreover have "used tiny i = bit (3 :: byte) i" if "i < 4" for i using that by (simp add: used_def tiny_def)
  ultimately have "used tiny i \<longleftrightarrow> i < 2" if "i < 4" for i by (simp only: that)
  then have "i \<in> free_set tiny \<longleftrightarrow> i \<in> {2, 3}" for i by (auto simp: free_set_def tiny_def)
  then show ?thesis by blast
qed

lemma tiny_ok: "mem_ok tiny"
  by (simp add: mem_ok_def tiny_free) (simp add: tiny_def)

lemma tiny_kernel: "kernel_dir_ok tiny 1"
  by (simp add: kernel_dir_ok_def tiny_free) (simp add: tiny_def page_def PAGE_SIZE_def)

lemma tiny_create:
  obtains d m1 where "vm_create tiny = Some (d, m1)" "d \<noteq> 0"
proof -
  have "2 \<le> card (free_set tiny)" by (simp add: tiny_free)
  then show thesis by (rule vm_create_makes [OF tiny_ok _ tiny_kernel]) (rule that)
qed

lemma process_isolated_witness:
  "\<exists>d m1. vm_create tiny = Some (d, m1) \<and>
    (\<forall>v a. user_access (vm_attach d m1) v = Some a \<longrightarrow> unat a div 4096 \<in> {2, 3}) \<and>
    ram (vm_attach d m1) 0x1004 = 0"
proof -
  obtain d m1 where c: "vm_create tiny = Some (d, m1)" "d \<noteq> 0" by (rule tiny_create)
  from process_isolated [OF tiny_ok tiny_kernel c rtranclp.rtrancl_refl] tiny_free
  have "\<forall>v a. user_access (vm_attach d m1) v = Some a \<longrightarrow> unat a div 4096 \<in> {2, 3}"
    "unat (0x1004 :: u32) div 4096 \<notin> {2, 3} \<longrightarrow> ram (vm_attach d m1) 0x1004 = ram tiny 0x1004" by blast+
  with c show ?thesis by (auto simp: tiny_def)
qed

lemma process_no_leak_witness:
  "\<exists>d m1 m3. vm_create tiny = Some (d, m1) \<and> vm_detach (vm_attach d m1) = Some m3 \<and>
    free_set m3 = {2, 3} \<and> frames_free m3 = 2"
proof -
  obtain d m1 where c: "vm_create tiny = Some (d, m1)" "d \<noteq> 0" by (rule tiny_create)
  from process_no_leak [OF tiny_ok tiny_kernel c rtranclp.rtrancl_refl] tiny_free obtain m3 where
    "vm_detach (vm_attach d m1) = Some m3" "free_set m3 = {2, 3}" "frames_free m3 = frames_free tiny" by auto
  with c show ?thesis by (auto simp: tiny_def)
qed

text \<open>An empty map leaves no frames; a machine with eight megabytes of it has those from 1 to 4 MB.\<close>

lemma memory_init_exact_witness:
  "\<exists>m'. memory_init [\<lparr>base_lo = 0, base_hi = 0, len_lo = 0x800000, len_hi = 0, e_type = 1, attrs = 0\<rparr>]
      0x20000 tiny = Some m' \<and> mem_ok m' \<and> nframes m' = 2048 \<and> 256 \<in> free_set m' \<and> 32 \<notin> free_set m'"
proof -
  let ?es = "[\<lparr>base_lo = 0, base_hi = 0, len_lo = 0x800000, len_hi = 0, e_type = 1, attrs = 0\<rparr>]"
  have top: "top_usable ?es div PAGE_SIZE = 2048"
    by (simp add: top_usable_def skipped_def E820_USABLE_def PAGE_SIZE_def)
  have bm: "(0x20000 :: u32) = (0x20000 + PAGE_SIZE - 1) AND NOT (PAGE_SIZE - 1)"
    by (simp add: PAGE_SIZE_def)
  have "frame_for_pool ?es 256" by (simp add: frame_for_pool_def skipped_def E820_USABLE_def page_def PAGE_SIZE_def)
  then show ?thesis
    using memory_init_exact [OF bm top [symmetric], of tiny] by (auto simp: frame_for_pool_def)
qed

lemma vm_sbrk_bounds_witness:
  "vm_sbrk 0x1000 (tiny\<lparr>brk := 0x401000\<rparr>) = (0x402000, tiny\<lparr>brk := 0x402000\<rparr>)"
proof -
  obtain r m' where v: "vm_sbrk 0x1000 (tiny\<lparr>brk := 0x401000\<rparr>) = (r, m')" by fastforce
  have "r = brk m' \<and> m' = tiny\<lparr>brk := brk m'\<rparr> \<and> unat (brk m') = 0x402000"
    using vm_sbrk_bounds [OF _ _ v] by (simp add: USER_BASE_def USER_STACK_def)
  moreover from this have "brk m' = 0x402000" by (simp add: word_unat_eq_iff)
  ultimately show ?thesis using v by metis
qed

end
