(* ===== verification/IdMap.thy ===== *)
theory IdMap
  imports MemProcess
begin

text \<open>
  The kernel's page directory (kernel/memory.c, map_range, map_supervisor, map_usable, paging_init): the page walk for the
  kernel, and the identity map that paging_init builds and every process directory keeps.
\<close>

section \<open>The identity map\<close>

text \<open>The processor's page walk for an access of the kernel, with write protection on: both entries must be present and writable.
  Before paging is switched on, by bit 31 of cr0, an address is what it says.\<close>

definition kernel_access :: "mem \<Rightarrow> u32 \<Rightarrow> u32 option" where
  "kernel_access m v =
     (let pde = ram m ((cr3 m AND NOT 0xFFF) + 4 * drop_bit 22 v)
      in if pde AND 3 \<noteq> 3 then None
         else
           let pte = ram m ((pde AND 0xFFFFF000) + 4 * (drop_bit 12 v AND 0x3FF))
           in if pte AND 3 \<noteq> 3 then None else Some ((pte AND 0xFFFFF000) + (v AND 0xFFF)))"

definition translate :: "u32 \<Rightarrow> mem \<Rightarrow> u32 \<Rightarrow> u32 option" where
  "translate cr0 m v = (if bit cr0 31 then kernel_access m v else Some v)"

text \<open>The directory in frame \<open>K\<close> while it is filled: \<open>T\<close> gives the frame of every table made so far, each its own; every page
  of \<open>S\<close> is mapped to itself; and there are frames enough for the tables of the entries \<open>I\<close> still missing.\<close>

definition tables_ok :: "mem \<Rightarrow> nat \<Rightarrow> (nat \<Rightarrow> nat option) \<Rightarrow> bool" where
  "tables_ok m K T \<longleftrightarrow> page_dir m = page K \<and> K < 1048576 \<and> K \<notin> free_set m \<and> inj_on T (dom T) \<and>
     (\<forall>i<1024. ram m (page K + 4 * of_nat i) = (case T i of None \<Rightarrow> 0 | Some P \<Rightarrow> page P OR 3)) \<and>
     (\<forall>P\<in>ran T. P < 1048576 \<and> P \<notin> free_set m \<and> P \<noteq> K)"

definition mapped :: "mem \<Rightarrow> (nat \<Rightarrow> nat option) \<Rightarrow> nat \<Rightarrow> bool" where
  "mapped m T q \<longleftrightarrow> (\<exists>P. T (q div 1024) = Some P \<and> ram m (page P + 4 * of_nat (q mod 1024)) = page q OR 3)"

definition kmap :: "mem \<Rightarrow> nat \<Rightarrow> nat set \<Rightarrow> nat set \<Rightarrow> bool" where
  "kmap m K I S \<longleftrightarrow> mem_ok m \<and> finite I \<and> I \<subseteq> {..<1024} - {1} \<and>
     (\<exists>T. tables_ok m K T \<and> dom T \<subseteq> I \<and> card (I - dom T) \<le> card (free_set m) \<and> (\<forall>q\<in>S. q < 1048576 \<and> mapped m T q))"

lemma pde_bits [simp]:
  "(page i OR 3) AND 0xFFFFF000 = page i" "(page i OR 3) AND 1 = 1" "(page i OR 3) AND 4 = 0" "(page i OR 3) AND 3 = 3"
  "(page i OR 3) AND NOT 4 = page i OR 3" "(page i OR 3) AND - 5 = page i OR 3"
proof -
  have c: "(3 :: u32) = mask 2" "(0xFFFFF000 :: u32) = NOT (mask 12)"
    by (simp_all add: mask_eq_exp_minus_1)
  show "(page i OR 3) AND 0xFFFFF000 = page i"
    unfolding page_push c by (rule bit_eqI) (auto simp: bit_simps)
  show "(page i OR 3) AND 1 = 1"
    by (simp add: and.commute [of _ 1] bit.conj_disj_distrib)
  show "(page i OR 3) AND 3 = 3" by (simp add: bit.conj_disj_distrib2)
  have z: "page i AND 7 = 0"
  proof -
    have c: "(7 :: u32) = mask 3" by (simp add: mask_eq_exp_minus_1)
    show ?thesis unfolding page_push c by (rule bit_eqI) (auto simp: bit_simps)
  qed
  have "page i AND 4 = page i AND (7 AND 4)" by simp
  then have "page i AND 4 = 0" by (simp only: and.assoc [symmetric] z) simp
  then show 4: "(page i OR 3) AND 4 = 0" by (simp add: bit.conj_disj_distrib2)
  have "page i OR 3 = (page i OR 3) AND (4 OR NOT 4)" by (simp only: bit.disj_cancel_right) simp
  also have "\<dots> = (page i OR 3) AND NOT 4" by (simp only: bit.conj_disj_distrib 4) simp
  finally show n: "(page i OR 3) AND NOT 4 = page i OR 3" by simp
  then show "(page i OR 3) AND - 5 = page i OR 3" by simp
qed

section \<open>Addresses\<close>

lemma dir_of: "drop_bit 22 v = (of_nat (unat v div 4096 div 1024) :: u32)" "unat v div 4096 div 1024 < 1024"
proof -
  have u: "unat (drop_bit 22 v) = unat v div 4194304"
    by (simp only: unat_drop_bit_eq) (simp add: drop_bit_eq_div)
  moreover have "unat v < 1024 * 4194304" using unat_u32_lt [of v] by linarith
  then have s: "unat v div 4194304 < 1024" by (rule less_mult_imp_div_less)
  ultimately show "drop_bit 22 v = (of_nat (unat v div 4096 div 1024) :: u32)"
    using of_nat_unat_small [of "unat v div 4194304"] by (simp add: word_unat_eq_iff div_mult2_eq [symmetric])
  show "unat v div 4096 div 1024 < 1024" using s by (simp add: div_mult2_eq [symmetric])
qed

lemma table_of: "drop_bit 12 v AND 0x3FF = (of_nat (unat v div 4096 mod 1024) :: u32)"
  using table_index [of v] by auto

lemma page_down: "(v :: u32) AND NOT (PAGE_SIZE - 1) = page (unat v div 4096)"
proof -
  have c: "PAGE_SIZE - 1 = mask 12" by (simp add: PAGE_SIZE_def mask_eq_exp_minus_1)
  have "v AND NOT (mask 12) = push_bit 12 (drop_bit 12 v)"
    by (rule bit_eqI) (auto simp: bit_simps)
  also have "\<dots> = page (unat (drop_bit 12 v))" by (simp add: page_push)
  also have "unat (drop_bit 12 v) = unat v div 4096"
    by (simp only: unat_drop_bit_eq) (simp add: drop_bit_eq_div)
  finally show ?thesis unfolding c .
qed

lemma page_and_offset: "page (unat v div 4096) + (v AND 0xFFF) = v"
proof -
  have c: "PAGE_SIZE - 1 = 0xFFF" by (simp add: PAGE_SIZE_def)
  have "page (unat v div 4096) + (v AND 0xFFF) = (v AND NOT 0xFFF) + (v AND 0xFFF)"
    using page_down [of v] unfolding c by simp
  also have "\<dots> = (v AND NOT 0xFFF) OR (v AND 0xFFF)"
    by (rule disjunctive_add) (auto simp: bit_simps)
  also have "\<dots> = v" by (rule bit_word_eqI) (auto simp: bit_simps)
  finally show ?thesis .
qed

text \<open>A page that is mapped is where it says, for the kernel and for nobody else.\<close>

lemma kmap_access:
  assumes "kmap m K I S" and "cr3 m = page K" and "unat v div 4096 \<in> S"
  shows "kernel_access m v = Some v"
proof -
  let ?q = "unat v div 4096"
  obtain T where T: "tables_ok m K T" "mapped m T ?q" using assms(1,3) by (auto simp: kmap_def)
  then obtain P where P: "T (?q div 1024) = Some P" "ram m (page P + 4 * of_nat (?q mod 1024)) = page ?q OR 3" by (auto simp: mapped_def)
  have "ram m (page K + 4 * of_nat (?q div 1024)) = page P OR 3" using T(1) P(1) dir_of(2) [of v] by (simp add: tables_ok_def)
  then show ?thesis using P(2) page_and_offset [of v] by (simp add: kernel_access_def assms(2) dir_of(1) table_of)
qed

lemma kmap_closed: "kmap m K I S \<Longrightarrow> cr3 m = page K \<Longrightarrow> user_access m v = None"
proof -
  assume k: "kmap m K I S" "cr3 m = page K"
  then obtain T where "tables_ok m K T" by (auto simp: kmap_def)
  then have "ram m (page K + 4 * of_nat (unat v div 4096 div 1024)) AND 4 = 0"
    using dir_of(2) [of v] by (cases "T (unat v div 4096 div 1024)") (simp_all add: tables_ok_def)
  then have "ram m (page K + 4 * of_nat (unat v div 4096 div 1024)) AND 5 \<noteq> 5" using and_5_4 by blast
  then show ?thesis by (simp add: user_access_def k(2) dir_of(1))
qed

lemma kmap_dir: "kmap m K I S \<Longrightarrow> kernel_dir_ok m K \<and> ram m (page K + 4) = 0"
proof -
  assume k: "kmap m K I S"
  then obtain T where T: "tables_ok m K T" "dom T \<subseteq> I" "1 \<notin> I" by (auto simp: kmap_def)
  then have "T 1 = None" by (cases "T 1") auto
  moreover have "\<forall>i<1024. ram m (page K + 4 * of_nat i) = (case T i of None \<Rightarrow> 0 | Some P \<Rightarrow> page P OR 3)"
    using T(1) by (simp add: tables_ok_def)
  from spec [OF this, of 1] have "ram m (page K + 4) = (case T 1 of None \<Rightarrow> 0 | Some P \<Rightarrow> page P OR 3)" by simp
  ultimately have "ram m (page K + 4) = 0" by (simp only: option.case)
  moreover have "ram m (page K + 4 * of_nat i) AND 4 = 0" if "i < 1024" for i
    using T(1) that by (cases "T i") (simp_all add: tables_ok_def)
  ultimately show ?thesis using T(1) by (simp add: kernel_dir_ok_def tables_ok_def)
qed

lemma kmap_mono: "kmap m K I S \<Longrightarrow> S' \<subseteq> S \<Longrightarrow> kmap m K I S'"
  unfolding kmap_def by (elim conjE exE, intro conjI exI) auto

section \<open>Filling the directory\<close>

lemma page_lt: "q < 1048576 \<Longrightarrow> unat (page q) div 4096 = q"
  by (simp add: unat_page)

text \<open>A store into one entry of a table changes that page and no other.\<close>

lemma mapped_poke:
  assumes "tables_ok m K T" and "T (q div 1024) = Some P" and "q < 1048576" and "r < 1048576" and "r = q \<or> mapped m T r"
  shows "mapped (poke (page P + 4 * of_nat (q mod 1024)) (page q OR 3) m) T r"
proof (cases "r = q")
  case False
  then obtain R where R: "T (r div 1024) = Some R" "ram m (page R + 4 * of_nat (r mod 1024)) = page r OR 3" using assms(5) by (auto simp: mapped_def)
  have small: "R < 1048576" "P < 1048576" using assms(1,2) R(1) by (auto simp: tables_ok_def ran_def)
  have "R \<noteq> P \<or> r mod 1024 \<noteq> q mod 1024"
  proof (rule ccontr)
    assume "\<not> ?thesis"
    then have e: "R = P" "r mod 1024 = q mod 1024" by simp_all
    have "r div 1024 = q div 1024"
      using assms(1,2) R(1) e(1) unfolding tables_ok_def inj_on_def by (metis domI)
    with e(2) False show False by (metis div_mult_mod_eq)
  qed
  then have "page R + 4 * of_nat (r mod 1024) \<noteq> page P + 4 * of_nat (q mod 1024)" using small by simp
  with R show ?thesis by (simp add: mapped_def)
qed (use assms(2) in \<open>simp add: mapped_def\<close>)

lemma tables_poke:
  assumes "tables_ok m K T" and "P \<in> ran T" and "j < 1024"
  shows "tables_ok (poke (page P + 4 * of_nat j) x m) K T"
proof -
  have "free_set (poke (page P + 4 * of_nat j) x m) = free_set m" by (rule free_set_cong) simp_all
  moreover have "P < 1048576" "P \<noteq> K" using assms(1,2) by (auto simp: tables_ok_def)
  ultimately show ?thesis using assms(1,3) by (simp add: tables_ok_def)
qed

text \<open>A fresh table: the directory gets its entry, every page mapped before stays so.\<close>

definition with_table :: "nat \<Rightarrow> nat \<Rightarrow> nat \<Rightarrow> mem \<Rightarrow> mem" where
  "with_table K i P m = poke (page K + 4 * of_nat i) (page P OR 3) (zero_page (page P) m)"

lemma new_table:
  assumes "mem_ok m" and "tables_ok m K T" and "T i = None" and "i < 1024" and "free_set m \<noteq> {}"
  obtains P m1 where "alloc_frame m = Some (page P, m1)" "page P \<noteq> 0"
    "mem_ok (with_table K i P m1)" "tables_ok (with_table K i P m1) K (T(i \<mapsto> P))" "page_dir m1 = page K"
    "card (free_set (with_table K i P m1)) + 1 = card (free_set m)" "\<forall>q. mapped m T q \<longrightarrow> mapped (with_table K i P m1) (T(i \<mapsto> P)) q"
proof -
  obtain P m1 where f: "alloc_frame m = Some (page P, m1)" "P \<in> free_set m" "P < 1048576" "page P \<noteq> 0"
    "free_set m1 = free_set m - {P}" "mem_ok m1" "same_but_map m m1" "P \<noteq> 0"
    by (rule alloc_frame_some [OF assms(1,5)])
  note s = same_but_mapD [OF f(7)]
  have K: "page_dir m = page K" "K < 1048576" "K \<notin> free_set m" using assms(2) by (simp_all add: tables_ok_def)
  have PK: "P \<noteq> K" and PT: "P \<notin> ran T" using f(2) assms(2) by (auto simp: tables_ok_def)
  let ?m = "poke (page K + 4 * of_nat i) (page P OR 3) (zero_page (page P) m1)"
  have fz: "free_set ?m = free_set m - {P}" using free_set_cong [of ?m m1] f(5) by simp
  have ramK: "ram ?m (page K + 4 * of_nat k) = (if k = i then page P OR 3 else ram m (page K + 4 * of_nat k))" if "k < 1024" for k
    using that assms(4) K(2) f(3) PK s by (simp add: in_page_iff entry_page)
  have ramT: "ram ?m (page R + 4 * of_nat j) = ram m (page R + 4 * of_nat j)" if "R \<in> ran T" "j < 1024" for R j
  proof -
    have "R < 1048576" "R \<noteq> K" "R \<noteq> P" using that(1) assms(2) PT by (auto simp: tables_ok_def)
    then show ?thesis using that(2) assms(4) K(2) f(3) s by (simp add: in_page_iff entry_page)
  qed
  have ran: "ran (T(i \<mapsto> P)) = insert P (ran T)" using assms(3) by (simp add: ran_map_upd)
  have "inj_on (T(i \<mapsto> P)) (dom (T(i \<mapsto> P)))"
    using assms(2,3) PT by (auto simp: tables_ok_def inj_on_def ran_def)
  then have "tables_ok ?m K (T(i \<mapsto> P))"
    using assms(2) ramK fz f(3) PK s K unfolding tables_ok_def ran by auto
  moreover have "mem_ok ?m" using mem_ok_cong [of ?m m1] f(6) by simp
  moreover have "card (free_set ?m) + 1 = card (free_set m)"
    unfolding fz using card_Suc_Diff1 [OF finite_free_set f(2)] by simp
  moreover have "mapped ?m (T(i \<mapsto> P)) q" if q: "mapped m T q" for q
  proof -
    obtain R where R: "T (q div 1024) = Some R" "ram m (page R + 4 * of_nat (q mod 1024)) = page q OR 3" using q by (auto simp: mapped_def)
    then have "R \<in> ran T" "q div 1024 \<noteq> i" using assms(3) by (auto simp: ran_def)
    then show ?thesis using R ramT [of R "q mod 1024"] by (simp add: mapped_def)
  qed
  ultimately show thesis using that [OF f(1,4)] s K by (simp add: with_table_def)
qed

text \<open>One iteration of map_range, for a page outside the window.\<close>

lemma map_page_kmap:
  assumes "kmap m K I S" and "q < 1048576" and "q div 1024 \<in> I"
  shows "\<exists>m'. map_page (page q) False m = Some (True, m') \<and> kmap m' K I (insert q S)"
proof -
  obtain T where T: "tables_ok m K T" "dom T \<subseteq> I" "card (I - dom T) \<le> card (free_set m)" "\<forall>q\<in>S. q < 1048576 \<and> mapped m T q"
    and ok: "mem_ok m" "finite I" "I \<subseteq> {..<1024} - {1}" using assms(1) by (auto simp: kmap_def)
  have i: "q div 1024 < 1024" using assms(3) ok(3) by auto
  have at: "drop_bit 22 (page q) = (of_nat (q div 1024) :: u32)" "drop_bit 12 (page q) AND 0x3FF = (of_nat (q mod 1024) :: u32)"
    using dir_of(1) [of "page q"] table_of [of "page q"] page_lt [OF assms(2)] by simp_all
  have K: "page_dir m = page K" using T(1) by (simp add: tables_ok_def)
  have put: "kmap (poke (page P + 4 * of_nat (q mod 1024)) (page q OR 3) m1) K I (insert q S)"
    if "mem_ok m1" "tables_ok m1 K T1" "dom T1 \<subseteq> I" "card (I - dom T1) \<le> card (free_set m1)" "\<forall>q\<in>S. q < 1048576 \<and> mapped m1 T1 q" "T1 (q div 1024) = Some P"
    for P T1 m1
  proof -
    let ?m = "poke (page P + 4 * of_nat (q mod 1024)) (page q OR 3) m1"
    have "P \<in> ran T1" using that(6) by (auto simp: ran_def)
    from tables_poke [OF that(2) this, of "q mod 1024"] have "tables_ok ?m K T1" by simp
    moreover have "mem_ok ?m" "free_set ?m = free_set m1" using mem_ok_cong [of ?m m1] free_set_cong [of ?m m1] that(1) by simp_all
    moreover have "\<forall>r\<in>insert q S. r < 1048576 \<and> mapped ?m T1 r"
      using mapped_poke [OF that(2,6) assms(2)] that(5) assms(2) by blast
    ultimately show ?thesis using ok(2,3) that(3,4) unfolding kmap_def by (intro conjI exI [of _ T1]) simp_all
  qed
  show ?thesis
  proof (cases "T (q div 1024)")
    case None
    have mem: "q div 1024 \<in> I - dom T" using None assms(3) by auto
    then have "card (I - dom T) \<noteq> 0" using ok(2) by auto
    then have ne: "free_set m \<noteq> {}" using T(3) by auto
    obtain P m1 where f: "alloc_frame m = Some (page P, m1)" "page P \<noteq> 0"
      and m1: "mem_ok (with_table K (q div 1024) P m1)" "tables_ok (with_table K (q div 1024) P m1) K (T(q div 1024 \<mapsto> P))" "page_dir m1 = page K"
        "card (free_set (with_table K (q div 1024) P m1)) + 1 = card (free_set m)"
        "\<forall>r. mapped m T r \<longrightarrow> mapped (with_table K (q div 1024) P m1) (T(q div 1024 \<mapsto> P)) r"
      by (rule new_table [OF ok(1) T(1) None i ne])
    let ?m1 = "with_table K (q div 1024) P m1"
    have S: "\<forall>r\<in>S. r < 1048576 \<and> mapped ?m1 (T(q div 1024 \<mapsto> P)) r" using T(4) m1(5) by blast
    have "I - dom (T(q div 1024 \<mapsto> P)) = (I - dom T) - {q div 1024}" by auto
    then have "card (I - dom (T(q div 1024 \<mapsto> P))) \<le> card (free_set ?m1)"
      using T(3) m1(4) card_Suc_Diff1 [OF _ mem] ok(2) by simp
    moreover have "dom (T(q div 1024 \<mapsto> P)) \<subseteq> I" using T(2) assms(3) by auto
    ultimately have "kmap (poke (page P + 4 * of_nat (q mod 1024)) (page q OR 3) ?m1) K I (insert q S)"
      by (intro put [OF m1(1,2) _ _ S]) simp_all
    moreover have "map_page (page q) False m = Some (True, poke (page P + 4 * of_nat (q mod 1024)) (page q OR 3) ?m1)"
      using f(1,2) T(1) None i m1(3) by (simp add: map_page_def at K Let_def tables_ok_def with_table_def)
    ultimately show ?thesis by blast
  next
    case (Some P)
    have pde: "ram m (page K + 4 * of_nat (q div 1024)) = page P OR 3" using T(1) Some i by (simp add: tables_ok_def)
    then have same: "poke (page K + 4 * of_nat (q div 1024)) (page P OR 3) m = m" by (auto simp: poke_def intro!: mem.equality)
    have "map_page (page q) False m = Some (True, poke (page P + 4 * of_nat (q mod 1024)) (page q OR 3) m)"
      using pde same by (simp add: map_page_def at K Let_def)
    with put [OF ok(1) T Some] show ?thesis by blast
  qed
qed

text \<open>The pages that the bytes from one address up to another touch.\<close>

definition touched :: "u32 \<Rightarrow> u32 \<Rightarrow> nat set" where
  "touched a b = {r. unat a div 4096 \<le> r \<and> r * 4096 < unat b}"

lemma page_Suc: "page q + PAGE_SIZE = page (Suc q)"
  by (simp add: page_def algebra_simps)

lemma map_pages_kmap:
  assumes "kmap m K I S" and "end_addr \<le> 0xFFFFF000" and "q < 1048576" and "\<forall>r. q \<le> r \<and> r * 4096 < unat end_addr \<longrightarrow> r div 1024 \<in> I"
  shows "\<exists>m'. map_pages (page q) end_addr False m = Some m' \<and> kmap m' K I (S \<union> {r. q \<le> r \<and> r * 4096 < unat end_addr})"
  using assms(1,3,4)
proof (induction "unat end_addr - q * 4096" arbitrary: q m S rule: less_induct)
  case less
  have lt: "page q < end_addr \<longleftrightarrow> q * 4096 < unat end_addr" using less.prems(2) by (simp add: word_less_nat_alt unat_page)
  show ?case
  proof (cases "page q < end_addr")
    case False
    then have "S \<union> {r. q \<le> r \<and> r * 4096 < unat end_addr} = S" using lt by auto
    then show ?thesis using less.prems(1) False by (subst map_pages.simps) simp
  next
    case True
    have e: "unat end_addr \<le> 4294963200" using assms(2) by (simp add: word_le_nat_alt)
    have "q div 1024 \<in> I" using less.prems(3) True lt by simp
    from map_page_kmap [OF less.prems(1,2) this] obtain m1 where m1: "map_page (page q) False m = Some (True, m1)" "kmap m1 K I (insert q S)" by blast
    have next_q: "Suc q < 1048576" "unat end_addr - Suc q * 4096 < unat end_addr - q * 4096" using True lt e by simp_all
    have rest: "\<forall>r. Suc q \<le> r \<and> r * 4096 < unat end_addr \<longrightarrow> r div 1024 \<in> I" using less.prems(3) by simp
    have "insert q S \<union> {r. Suc q \<le> r \<and> r * 4096 < unat end_addr} = S \<union> {r. q \<le> r \<and> r * 4096 < unat end_addr}"
      using True lt by (auto simp: Suc_le_eq order.order_iff_strict)
    with less.hyps [OF next_q(2) m1(2) next_q(1) rest] True m1(1) show ?thesis
      by (subst map_pages.simps) (auto simp: page_Suc)
  qed
qed

lemma map_range_kmap:
  assumes "kmap m K I S" and "to_addr \<le> 0xFFFFF000" and "\<forall>r\<in>touched from_addr to_addr. r div 1024 \<in> I"
  shows "\<exists>m'. map_range from_addr to_addr False m = Some m' \<and> kmap m' K I (S \<union> touched from_addr to_addr)"
proof -
  have q: "unat from_addr div 4096 < 1048576" using unat_u32_lt [of from_addr] by (intro less_mult_imp_div_less) simp
  have "\<forall>r. unat from_addr div 4096 \<le> r \<and> r * 4096 < unat to_addr \<longrightarrow> r div 1024 \<in> I" using assms(3) by (simp add: touched_def)
  from map_pages_kmap [OF assms(1,2) q this] show ?thesis by (simp add: map_range_def touched_def page_down)
qed

text \<open>The pages of the ring-3 window are left out.\<close>

definition beside_window :: "nat set \<Rightarrow> nat set" where
  "beside_window A = {r \<in> A. r div 1024 \<noteq> 1}"

lemma window_bounds: "r div 1024 \<noteq> 1 \<longleftrightarrow> r * 4096 < 0x400000 \<or> 2048 \<le> (r :: nat)"
proof -
  have "r div 1024 = 1 \<longleftrightarrow> 1024 \<le> r \<and> r < 2048"
  proof
    assume "r div 1024 = 1"
    then show "1024 \<le> r \<and> r < 2048" using div_mult_mod_eq [of r 1024] mod_less_divisor [of 1024 r] by simp
  qed (simp add: div_nat_eqI)
  then show ?thesis by auto
qed

lemma map_supervisor_kmap:
  assumes "kmap m K I S" and "to_addr \<le> 0xFFFFF000" and "\<forall>r\<in>beside_window (touched from_addr to_addr). r div 1024 \<in> I"
  shows "\<exists>m'. map_supervisor from_addr to_addr m = Some m' \<and>
    kmap m' K I (S \<union> (if from_addr < to_addr then beside_window (touched from_addr to_addr) else {}))"
proof (cases "from_addr < to_addr")
  case lt: True
  let ?lo = "if to_addr < USER_BASE then to_addr else USER_BASE"
  let ?A = "if from_addr < USER_BASE then touched from_addr ?lo else {}"
  have base: "unat USER_BASE = 0x400000" "unat USER_TOP = 0x800000" by (simp_all add: USER_BASE_def USER_TOP_def)
  have A: "?A = {r \<in> touched from_addr to_addr. r * 4096 < 0x400000}"
  proof -
    have "unat ?lo = min (unat to_addr) 0x400000" using base by (simp add: word_less_nat_alt min_def)
    moreover have "from_addr < USER_BASE" if "unat from_addr div 4096 \<le> r" "r * 4096 < 0x400000" for r
      using that base by (simp add: word_less_nat_alt)
    ultimately show ?thesis by (auto simp: touched_def)
  qed
  let ?hi = "if from_addr > USER_TOP then from_addr else USER_TOP"
  let ?B = "if to_addr > USER_TOP then touched ?hi to_addr else {}"
  have B: "?B = {r \<in> touched from_addr to_addr. 2048 \<le> r}"
  proof -
    have "unat ?hi = max (unat from_addr) 0x800000" using base by (simp add: word_less_nat_alt max_def)
    then have "unat ?hi div 4096 = max (unat from_addr div 4096) 2048" by (auto simp: max_def div_le_mono dest: div_le_mono [of _ _ 4096])
    moreover have "USER_TOP < to_addr" if "2048 \<le> r" "r * 4096 < unat to_addr" for r
      using that base by (simp add: word_less_nat_alt)
    ultimately show ?thesis by (auto simp: touched_def)
  qed
  have AB: "?A \<union> ?B = beside_window (touched from_addr to_addr)" unfolding A B beside_window_def window_bounds by auto
  have lo: "?lo \<le> 0xFFFFF000" using assms(2) by (auto simp: USER_BASE_def)
  have IA: "\<forall>r\<in>?A. r div 1024 \<in> I" and IB: "\<forall>r\<in>?B. r div 1024 \<in> I" using assms(3) unfolding AB [symmetric] by blast+
  obtain m1 where m1: "(if from_addr < USER_BASE then map_range from_addr ?lo False m else Some m) = Some m1" "kmap m1 K I (S \<union> ?A)"
  proof (cases "from_addr < USER_BASE")
    case True
    with IA map_range_kmap [OF assms(1) lo, of from_addr] obtain m1 where
      "map_range from_addr ?lo False m = Some m1" "kmap m1 K I (S \<union> touched from_addr ?lo)" by auto
    with True that show thesis by simp
  qed (use that assms(1) in simp)
  obtain m2 where "(if to_addr > USER_TOP then map_range ?hi to_addr False m1 else Some m1) = Some m2" "kmap m2 K I (S \<union> ?A \<union> ?B)"
  proof (cases "to_addr > USER_TOP")
    case True
    with IB map_range_kmap [OF m1(2) assms(2), of ?hi] obtain m2 where
      "map_range ?hi to_addr False m1 = Some m2" "kmap m2 K I (S \<union> ?A \<union> touched ?hi to_addr)" by auto
    with True that show thesis by simp
  qed (use that m1(2) in simp)
  moreover have "\<not> to_addr \<le> from_addr" using lt by simp
  ultimately show ?thesis using m1(1) lt AB by (simp add: map_supervisor_def Un_assoc)
next
  case False
  then have "to_addr \<le> from_addr" by simp
  with assms(1) False show ?thesis by (simp add: map_supervisor_def)
qed

text \<open>A process directory keeps the identity map, so the kernel goes on working after a switch to it.\<close>

lemma process_keeps_kernel:
  assumes "kmap m K I S" and "vm_create m = Some (d, m')" and "d \<noteq> 0" and v: "unat v div 4096 \<in> S"
  shows "kernel_access (vm_attach d m') v = Some v"
proof -
  obtain T where T: "mem_ok m" "I \<subseteq> {..<1024} - {1}" "tables_ok m K T" "dom T \<subseteq> I" "\<forall>q\<in>S. mapped m T q" using assms(1) by (auto simp: kmap_def)
  have kd: "kernel_dir_ok m K" using kmap_dir [OF assms(1)] by simp
  have "2 \<le> card (free_set m)" using vm_create_fails [OF T(1)] assms(2,3) by (cases "card (free_set m) < 2") auto
  then obtain D P m1 where c: "vm_create m = Some (page D, m1)" "page D \<noteq> 0" "D \<in> free_set m" "P \<in> free_set m"
    "\<forall>i<1024. i \<noteq> 1 \<longrightarrow> ram m1 (page D + 4 * of_nat i) = ram m (page K + 4 * of_nat i)" "\<forall>a. unat a div 4096 \<notin> {D, P} \<longrightarrow> ram m1 a = ram m a"
    by (rule vm_create_makes [OF T(1) _ kd])
  let ?q = "unat v div 4096"
  obtain R where R: "T (?q div 1024) = Some R" "ram m (page R + 4 * of_nat (?q mod 1024)) = page ?q OR 3" using T(5) v by (auto simp: mapped_def)
  have i: "?q div 1024 < 1024" "?q div 1024 \<noteq> 1" using dir_of(2) [of v] R(1) T(2,4) by auto
  then have "ram m1 (page D + 4 * of_nat (?q div 1024)) = page R OR 3" using c(5) T(3) R(1) by (simp add: tables_ok_def)
  moreover have "R < 1048576" "R \<noteq> D" "R \<noteq> P" using T(3) R(1) c(3,4) by (auto simp: tables_ok_def ran_def)
  then have "ram m1 (page R + 4 * of_nat (?q mod 1024)) = page ?q OR 3" using c(6) R(2) by (simp add: entry_page)
  moreover have "d = page D" "m' = m1" using c(1) assms(2) by simp_all
  ultimately show ?thesis using page_and_offset [of v] by (simp add: kernel_access_def vm_attach_def vm_switch_def dir_of(1) table_of)
qed

text \<open>What map_usable maps for an entry. When the base is raised to the first megabyte the length is not cut, so this can
  reach past the end of the entry.\<close>

definition mapped_start :: "e820_entry \<Rightarrow> u32" where
  "mapped_start e = (if base_lo e < LOW_END then LOW_END else base_lo e)"

definition mapped_end :: "e820_entry \<Rightarrow> u32" where
  "mapped_end e = mapped_start e + len_lo e"

definition entry_pages :: "e820_entry \<Rightarrow> nat set" where
  "entry_pages e =
     (if skipped e \<or> base_lo e + len_lo e < base_lo e \<or> base_lo e + len_lo e \<le> LOW_END \<or> mapped_end e \<le> mapped_start e then {}
      else beside_window (touched (mapped_start e) (mapped_end e)))"

lemma map_usable_kmap:
  assumes "kmap m K I S" and "\<forall>e\<in>set es. \<not> skipped e \<longrightarrow> mapped_end e \<le> 0xFFFFF000" and "\<forall>e\<in>set es. \<forall>r\<in>entry_pages e. r div 1024 \<in> I"
  shows "\<exists>m'. map_usable es m = Some m' \<and> kmap m' K I (S \<union> \<Union> (entry_pages ` set es))"
  using assms
proof (induction es arbitrary: m S)
  case (Cons e es)
  have IH: "\<exists>m'. map_usable es m1 = Some m' \<and> kmap m' K I (S1 \<union> \<Union> (entry_pages ` set es))" if "kmap m1 K I S1" for m1 S1
    using Cons.IH [OF that] Cons.prems(2,3) by simp
  show ?case
  proof (cases "skipped e \<or> base_lo e + len_lo e < base_lo e \<or> base_lo e + len_lo e \<le> LOW_END")
    case True
    then have "entry_pages e = {}" by (auto simp: entry_pages_def)
    with IH [OF Cons.prems(1)] True show ?thesis by (auto simp: Let_def)
  next
    case False
    have le: "mapped_end e \<le> 0xFFFFF000" using Cons.prems(2) False by simp
    have pages: "entry_pages e = (if mapped_start e < mapped_end e then beside_window (touched (mapped_start e) (mapped_end e)) else {})"
      using False by (auto simp: entry_pages_def)
    have step: "map_usable (e # es) m = map_supervisor (mapped_start e) (mapped_end e) m \<bind> map_usable es"
      using False by (simp add: Let_def mapped_start_def mapped_end_def)
    show ?thesis
    proof (cases "mapped_start e < mapped_end e")
      case True
      then have "\<forall>r\<in>beside_window (touched (mapped_start e) (mapped_end e)). r div 1024 \<in> I" using Cons.prems(3) pages by simp
      from map_supervisor_kmap [OF Cons.prems(1) le this] obtain m1 where
        "map_supervisor (mapped_start e) (mapped_end e) m = Some m1" "kmap m1 K I (S \<union> entry_pages e)" using pages True by auto
      with IH [of m1 "S \<union> entry_pages e"] step show ?thesis by (auto simp: Un_assoc)
    next
      case False
      then have "mapped_end e \<le> mapped_start e" by simp
      then have "map_supervisor (mapped_start e) (mapped_end e) m = Some m" by (simp add: map_supervisor_def)
      with IH [OF Cons.prems(1)] step pages False show ?thesis by simp
    qed
  qed
qed simp

text \<open>The addresses of the first megabyte and of the usable ranges outside the window. A range that reaches the end of the
  address space, as it is or with its base raised, is not among them: map_usable passes it over.\<close>

definition ram_addr :: "e820_entry list \<Rightarrow> u32 \<Rightarrow> bool" where
  "ram_addr es a \<longleftrightarrow> a < LOW_END \<or> (a < USER_BASE \<or> USER_TOP \<le> a) \<and>
     (\<exists>e\<in>set es. \<not> skipped e \<and> unat (base_lo e) \<le> unat a \<and> unat a < unat (base_lo e) + unat (len_lo e) \<and>
        unat (mapped_start e) + unat (len_lo e) < 2 ^ 32)"

lemma ram_addr_pages:
  assumes "ram_addr es a"
  shows "unat a div 4096 \<in> touched 0 LOW_END \<union> \<Union> (entry_pages ` set es)"
proof (cases "a < LOW_END")
  case True
  then have "unat a div 4096 < 256" by (intro less_mult_imp_div_less) (simp add: LOW_END_def word_less_nat_alt)
  then show ?thesis by (simp add: touched_def LOW_END_def)
next
  case False
  then obtain e where e: "e \<in> set es" "\<not> skipped e" "unat (base_lo e) \<le> unat a" "unat a < unat (base_lo e) + unat (len_lo e)"
    "unat (mapped_start e) + unat (len_lo e) < 2 ^ 32" and w: "a < USER_BASE \<or> USER_TOP \<le> a" using assms by (auto simp: ram_addr_def)
  have low: "unat LOW_END \<le> unat a" using False by (simp add: word_less_nat_alt)
  have base: "unat (base_lo e) \<le> unat (mapped_start e)" by (auto simp: mapped_start_def word_less_nat_alt)
  have start: "unat (mapped_start e) \<le> unat a" using e(3) low by (simp add: mapped_start_def)
  have ends: "unat (base_lo e + len_lo e) = unat (base_lo e) + unat (len_lo e)" "unat (mapped_end e) = unat (mapped_start e) + unat (len_lo e)"
    unfolding mapped_end_def using e(5) base by (simp_all add: unat_add_no_wrap)
  have "\<not> (base_lo e + len_lo e < base_lo e \<or> base_lo e + len_lo e \<le> LOW_END \<or> mapped_end e \<le> mapped_start e)"
    using e(3,4) low start base unfolding word_less_nat_alt word_le_nat_alt ends by simp
  then have pages: "entry_pages e = beside_window (touched (mapped_start e) (mapped_end e))" using e(2) by (simp add: entry_pages_def)
  have "unat a div 4096 \<in> touched (mapped_start e) (mapped_end e)"
    unfolding touched_def ends(2) using start e(4) base by (auto intro: div_le_mono order.strict_trans1 [OF div_times_less_eq_dividend])
  moreover have "unat a div 4096 div 1024 \<noteq> 1"
  proof -
    have "unat a < 0x400000 \<or> 0x800000 \<le> unat a" using w by (simp add: USER_BASE_def USER_TOP_def word_less_nat_alt word_le_nat_alt)
    then have "unat a < 0x400000 \<or> 0x800000 div 4096 \<le> unat a div 4096" by (auto dest: div_le_mono [where k = 4096])
    then show ?thesis unfolding window_bounds by (auto intro: order.strict_trans1 [OF div_times_less_eq_dividend])
  qed
  ultimately show ?thesis using e(1) pages by (auto simp: beside_window_def)
qed

text \<open>The directory entries that need a table, when nothing is mapped from \<open>lim\<close> on.\<close>

definition needed :: "nat \<Rightarrow> nat set" where
  "needed lim = {i. i * 0x400000 < lim} - {1}"

lemma needed_bounds:
  assumes "lim \<le> 0xFFFFF000"
  shows "finite (needed lim)" "needed lim \<subseteq> {..<1024} - {1}" "card (needed lim) \<le> (lim + 0x3FFFFF) div 0x400000"
proof -
  have sub: "needed lim \<subseteq> {..<(lim + 0x3FFFFF) div 0x400000}"
  proof
    fix i assume "i \<in> needed lim"
    then have "Suc i * 0x400000 \<le> lim + 0x3FFFFF" by (simp add: needed_def)
    then show "i \<in> {..<(lim + 0x3FFFFF) div 0x400000}" by (simp add: less_eq_div_iff_mult_less_eq Suc_le_eq [symmetric])
  qed
  then show "finite (needed lim)" by (rule finite_subset) simp
  show "card (needed lim) \<le> (lim + 0x3FFFFF) div 0x400000" using card_mono [OF _ sub] by simp
  show "needed lim \<subseteq> {..<1024} - {1}" using assms by (auto simp: needed_def)
qed

text \<open>Paging_init returns and leaves a directory that maps the first megabyte and every usable range outside the window to themselves,
  for the kernel only; its page is not in the pool and the entry of the ring-3 window is empty.\<close>

lemma paging_init_maps:
  assumes "mem_ok m" and "page_dir m = page K" and "K < 1048576" and "K \<notin> free_set m"
    and "\<forall>e\<in>set es. \<not> skipped e \<longrightarrow> unat (mapped_end e) \<le> lim" and "unat LOW_END \<le> lim" and "lim \<le> 0xFFFFF000"
    and "(lim + 0x3FFFFF) div 0x400000 \<le> card (free_set m)"
  obtains m' where "paging_init es m = Some m'" "mem_ok m'" "kernel_dir_ok m' K" "ram m' (page K + 4) = 0" "cr3 m' = page K"
    "\<forall>a. ram_addr es a \<longrightarrow> kernel_access m' a = Some a" "\<forall>a. user_access m' a = None"
    "\<forall>d m1 a. vm_create m' = Some (d, m1) \<and> d \<noteq> 0 \<and> ram_addr es a \<longrightarrow> kernel_access (vm_attach d m1) a = Some a"
proof -
  let ?m = "zero_page (page K) m" and ?I = "needed lim"
  note nb = needed_bounds [OF assms(7)]
  have fs: "free_set ?m = free_set m" by (rule free_set_cong) simp_all
  have ok: "mem_ok ?m" using mem_ok_cong [of ?m m] assms(1) by simp
  have "tables_ok ?m K Map.empty" using assms(2-4) fs by (simp add: tables_ok_def in_page_iff entry_page)
  then have k0: "kmap ?m K ?I {}" using ok nb assms(8) fs by (auto simp: kmap_def intro!: exI [of _ Map.empty])
  have in_I: "r div 1024 \<in> ?I" if "r * 4096 < lim" "r div 1024 \<noteq> 1" for r
  proof -
    have "r div 1024 * 0x400000 \<le> r * 4096" using div_times_less_eq_dividend [of r 1024] by simp
    then show ?thesis using that by (simp add: needed_def)
  qed
  have low: "\<forall>r\<in>touched 0 LOW_END. r div 1024 \<in> ?I"
    using assms(6) by (auto simp: touched_def LOW_END_def needed_def)
  have le: "LOW_END \<le> 0xFFFFF000" by (simp add: LOW_END_def)
  from map_range_kmap [OF k0 le low] obtain m1 where m1: "map_range 0 LOW_END False ?m = Some m1" "kmap m1 K ?I (touched 0 LOW_END)" by auto
  have ends: "\<forall>e\<in>set es. \<not> skipped e \<longrightarrow> mapped_end e \<le> 0xFFFFF000" using assms(5,7) by (auto simp: word_le_nat_alt)
  have "\<forall>e\<in>set es. \<forall>r\<in>entry_pages e. r div 1024 \<in> ?I"
  proof (intro ballI)
    fix e r assume e: "e \<in> set es" "r \<in> entry_pages e"
    then have "\<not> skipped e" "r * 4096 < unat (mapped_end e)" "r div 1024 \<noteq> 1"
      by (auto simp: entry_pages_def beside_window_def touched_def split: if_splits)
    then show "r div 1024 \<in> ?I" using in_I assms(5) e(1) by force
  qed
  from map_usable_kmap [OF m1(2) ends this] obtain m2 where
    m2: "map_usable es m1 = Some m2" "kmap m2 K ?I (touched 0 LOW_END \<union> \<Union> (entry_pages ` set es))" by blast
  let ?m2 = "m2\<lparr>cr3 := page K\<rparr>"
  have dir: "page_dir m2 = page K" using kmap_dir [OF m2(2)] by (simp add: kernel_dir_ok_def)
  have "free_set ?m2 = free_set m2" by (rule free_set_cong) simp_all
  moreover have "mem_ok ?m2 = mem_ok m2" by (rule mem_ok_cong) simp_all
  ultimately have k2: "kmap ?m2 K ?I (touched 0 LOW_END \<union> \<Union> (entry_pages ` set es))" using m2(2) by (simp add: kmap_def tables_ok_def mapped_def)
  have run: "paging_init es m = Some ?m2" using m1(1) m2(1) assms(2) dir by (simp add: paging_init_def)
  have acc: "\<forall>a. ram_addr es a \<longrightarrow> kernel_access ?m2 a = Some a" using kmap_access [OF k2] ram_addr_pages by simp
  have closed: "\<forall>a. user_access ?m2 a = None" using kmap_closed [OF k2] by simp
  have ok2: "mem_ok ?m2" using k2 by (simp add: kmap_def)
  have proc: "\<forall>d m1 a. vm_create ?m2 = Some (d, m1) \<and> d \<noteq> 0 \<and> ram_addr es a \<longrightarrow> kernel_access (vm_attach d m1) a = Some a"
    by (intro allI impI, elim conjE, rule process_keeps_kernel [OF k2 _ _ ram_addr_pages])
  have cr: "cr3 ?m2 = page K" by simp
  from kmap_dir [OF k2] show thesis by (intro that [OF run ok2 _ _ cr acc closed proc]) (elim conjE, assumption)+
qed

end
