(* ===== verification/Heap.thy ===== *)
theory Heap
  imports FsLayout MemProcess
begin

text \<open>
  The user heap of home/lib/libc.c: malloc, free, calloc, realloc, strdup and strndup over the memory of
  one program, a function from byte addresses, with block headers and the free list in it as the code
  lays them out. The break comes from the kernel's vm_sbrk. A walk that never ends is \<open>None\<close>.
\<close>

section \<open>Blocks\<close>

definition MIN_ALIGN :: u32 where "MIN_ALIGN = 8"
definition BLOCK_HDR :: u32 where "BLOCK_HDR = 8"

record heap =
  bytes :: "u32 \<Rightarrow> byte"
  freelist :: u32
  heap_brk :: u32
  heap_state :: int
  kern :: mem

definition get32 :: "(u32 \<Rightarrow> byte) \<Rightarrow> u32 \<Rightarrow> u32" where
  "get32 f a = le32 [f a, f (a + 1), f (a + 2), f (a + 3)] 0"

definition put32 :: "u32 \<Rightarrow> u32 \<Rightarrow> (u32 \<Rightarrow> byte) \<Rightarrow> u32 \<Rightarrow> byte" where
  "put32 a v f = (\<lambda>x. if x - a < 4 then bytes32 v ! unat (x - a) else f x)"

text \<open>The two fields of \<open>struct block\<close>.\<close>

definition bsize :: "heap \<Rightarrow> u32 \<Rightarrow> u32" where "bsize h b = get32 (bytes h) b"
definition bnext :: "heap \<Rightarrow> u32 \<Rightarrow> u32" where "bnext h b = get32 (bytes h) (b + 4)"

definition set_size :: "u32 \<Rightarrow> u32 \<Rightarrow> heap \<Rightarrow> heap" where
  "set_size b v h = h\<lparr>bytes := put32 b v (bytes h)\<rparr>"

definition set_next :: "u32 \<Rightarrow> u32 \<Rightarrow> heap \<Rightarrow> heap" where
  "set_next b v h = h\<lparr>bytes := put32 (b + 4) v (bytes h)\<rparr>"

text \<open>\<open>if (prev) prev->next = v; else freelist = v;\<close>\<close>

definition link :: "u32 \<Rightarrow> u32 \<Rightarrow> heap \<Rightarrow> heap" where
  "link prev v h = (if prev \<noteq> 0 then set_next prev v h else h\<lparr>freelist := v\<rparr>)"

definition align8 :: "u32 \<Rightarrow> u32" where
  "align8 n = (n + (MIN_ALIGN - 1)) AND NOT (MIN_ALIGN - 1)"

text \<open>The system call, answered by the kernel's vm_sbrk.\<close>

definition sys_sbrk :: "u32 \<Rightarrow> heap \<Rightarrow> u32 \<times> heap" where
  "sys_sbrk inc h = (let (r, k) = vm_sbrk inc (kern h) in (r, h\<lparr>kern := k\<rparr>))"

definition heap_boot :: "u32 \<Rightarrow> heap \<Rightarrow> heap" where
  "heap_boot heap_start h =
     (let (cur, h) = sys_sbrk 0 h;
          (failed, h) = (if heap_start > cur
                         then let (r, h) = sys_sbrk (heap_start - cur) h in (r \<le> cur, h)
                         else (False, h))
      in if failed then h\<lparr>heap_state := -1\<rparr>
         else let (b, h) = sys_sbrk 0 h in h\<lparr>heap_brk := b, heap_state := 1\<rparr>)"

partial_function (option) list_tail :: "u32 \<Rightarrow> heap \<Rightarrow> u32 option" where
  "list_tail p h = (if bnext h p \<noteq> 0 then list_tail (bnext h p) h else Some p)"

definition morecore :: "u32 \<Rightarrow> heap \<Rightarrow> (bool \<times> heap) option" where
  "morecore need h =
     (let req = (if need > 4096 then need else 4096);
          req = (req + 4095) AND NOT 4095;
          old = heap_brk h;
          (got, h) = sys_sbrk req h
      in if got \<noteq> old + req then Some (False, h)
         else
           let h = set_next old 0 (set_size old req (h\<lparr>heap_brk := got\<rparr>))
           in if freelist h = 0 then Some (True, h\<lparr>freelist := old\<rparr>)
              else do {
                p \<leftarrow> list_tail (freelist h) h;
                Some (True, if p + bsize h p = old then set_size p (bsize h p + bsize h old) h
                            else set_next p old h) })"

text \<open>The inner loop of malloc: the first free block of at least \<open>need\<close> bytes, with the one before it.\<close>

partial_function (option) find_fit :: "u32 \<Rightarrow> u32 \<Rightarrow> u32 \<Rightarrow> heap \<Rightarrow> (u32 \<times> u32) option option" where
  "find_fit need prev b h =
     (if b = 0 then Some None
      else if bsize h b \<ge> need then Some (Some (prev, b))
      else find_fit need b (bnext h b) h)"

definition take_block :: "u32 \<Rightarrow> u32 \<Rightarrow> u32 \<Rightarrow> heap \<Rightarrow> heap" where
  "take_block need prev b h =
     (let nxt = bnext h b
      in if bsize h b \<ge> need + BLOCK_HDR + MIN_ALIGN then
           let rest = b + need;
               h = set_size rest (bsize h b - need) h;
               h = set_next rest nxt h;
               h = set_size b need h
           in link prev rest h
         else link prev nxt h)"

partial_function (option) malloc_loop :: "u32 \<Rightarrow> heap \<Rightarrow> (u32 \<times> heap) option" where
  "malloc_loop need h = do {
     r \<leftarrow> find_fit need 0 (freelist h) h;
     case r of
       Some (prev, b) \<Rightarrow> Some (b + BLOCK_HDR, take_block need prev b h)
     | None \<Rightarrow> do {
         (ok, h) \<leftarrow> morecore need h;
         if ok then malloc_loop need h else Some (0, h) } }"

definition malloc :: "u32 \<Rightarrow> u32 \<Rightarrow> heap \<Rightarrow> (u32 \<times> heap) option" where
  "malloc heap_start len h =
     (let h = (if heap_state h = 0 then heap_boot heap_start h else h)
      in if heap_state h < 0 then Some (0, h) else malloc_loop (align8 len + BLOCK_HDR) h)"

text \<open>The search of free, over \<open>prev\<close> and \<open>cur\<close>.\<close>

partial_function (option) free_place :: "u32 \<Rightarrow> u32 \<Rightarrow> u32 \<Rightarrow> heap \<Rightarrow> (u32 \<times> u32) option" where
  "free_place b prev cur h =
     (if cur \<noteq> 0 \<and> cur < b then free_place b cur (bnext h cur) h else Some (prev, cur))"

definition merge_next :: "u32 \<Rightarrow> u32 \<Rightarrow> heap \<Rightarrow> heap" where
  "merge_next b cur h =
     (if cur \<noteq> 0 \<and> b + bsize h b = cur
      then let h = set_size b (bsize h b + bsize h cur) h in set_next b (bnext h cur) h
      else h)"

definition merge_prev :: "u32 \<Rightarrow> u32 \<Rightarrow> heap \<Rightarrow> heap" where
  "merge_prev prev b h =
     (if prev \<noteq> 0 \<and> prev + bsize h prev = b
      then let h = set_size prev (bsize h prev + bsize h b) h in set_next prev (bnext h b) h
      else h)"

definition free :: "u32 \<Rightarrow> heap \<Rightarrow> heap option" where
  "free ptr h =
     (if ptr = 0 then Some h
      else do {
        let b = ptr - BLOCK_HDR;
        (prev, cur) \<leftarrow> free_place b 0 (freelist h) h;
        Some (merge_prev prev b (merge_next b cur (link prev b (set_next b cur h)))) })"

definition fill_bytes :: "u32 \<Rightarrow> byte \<Rightarrow> u32 \<Rightarrow> heap \<Rightarrow> heap" where
  "fill_bytes p c n h = h\<lparr>bytes := (\<lambda>x. if x - p < n then c else bytes h x)\<rparr>"

definition move_bytes :: "u32 \<Rightarrow> u32 \<Rightarrow> u32 \<Rightarrow> heap \<Rightarrow> heap" where
  "move_bytes p q n h = h\<lparr>bytes := (\<lambda>x. if x - p < n then bytes h (q + (x - p)) else bytes h x)\<rparr>"

definition calloc :: "u32 \<Rightarrow> u32 \<Rightarrow> u32 \<Rightarrow> heap \<Rightarrow> (u32 \<times> heap) option" where
  "calloc heap_start count len h =
     (let total = count * len
      in if count \<noteq> 0 \<and> total div count \<noteq> len then Some (0, h)
         else do {
           (p, h) \<leftarrow> malloc heap_start total h;
           Some (p, if p \<noteq> 0 then fill_bytes p 0 total h else h) })"

definition realloc :: "u32 \<Rightarrow> u32 \<Rightarrow> u32 \<Rightarrow> heap \<Rightarrow> (u32 \<times> heap) option" where
  "realloc heap_start ptr len h =
     (if ptr = 0 then malloc heap_start len h
      else if len = 0 then do { h \<leftarrow> free ptr h; Some (0, h) }
      else
        let b = ptr - BLOCK_HDR; payload = bsize h b - BLOCK_HDR
        in if payload \<ge> len then
             let need = align8 len + BLOCK_HDR
             in if bsize h b \<ge> need + BLOCK_HDR + MIN_ALIGN then do {
                  let rest = b + need;
                  let h = set_size b need (set_size rest (bsize h b - need) h);
                  h \<leftarrow> free (rest + BLOCK_HDR) h;
                  Some (ptr, h) }
                else Some (ptr, h)
           else do {
             (n, h) \<leftarrow> malloc heap_start len h;
             if n = 0 then Some (0, h)
             else do {
               h \<leftarrow> free ptr (move_bytes n ptr payload h);
               Some (n, h) } })"


text \<open>strdup and strndup, which read a string from memory.\<close>

partial_function (option) string_end :: "u32 \<Rightarrow> u32 \<Rightarrow> heap \<Rightarrow> u32 option" where
  "string_end s i h = (if bytes h (s + i) = 0 then Some i else string_end s (i + 1) h)"

definition strdup :: "u32 \<Rightarrow> u32 \<Rightarrow> heap \<Rightarrow> (u32 \<times> heap) option" where
  "strdup heap_start s h = do {
     len \<leftarrow> string_end s 0 h;
     let n = len + 1;
     (p, h) \<leftarrow> malloc heap_start n h;
     Some (p, if p \<noteq> 0 then move_bytes p s n h else h) }"

fun string_end_max :: "u32 \<Rightarrow> u32 \<Rightarrow> nat \<Rightarrow> heap \<Rightarrow> u32" where
  "string_end_max s i 0 h = i"
| "string_end_max s i (Suc n) h = (if bytes h (s + i) = 0 then i else string_end_max s (i + 1) n h)"

definition strndup :: "u32 \<Rightarrow> u32 \<Rightarrow> u32 \<Rightarrow> heap \<Rightarrow> (u32 \<times> heap) option" where
  "strndup heap_start s n h = do {
     let len = string_end_max s 0 (unat n) h;
     (p, h) \<leftarrow> malloc heap_start (len + 1) h;
     Some (p, if p \<noteq> 0 then fill_bytes (p + len) 0 1 (move_bytes p s len h) else h) }"

section \<open>Words in memory\<close>

lemma u32_shift: "unat a + k < 4294967296 \<Longrightarrow> unat (a + of_nat k :: u32) = unat a + k"
proof -
  assume a: "unat a + k < 4294967296"
  then have "unat (of_nat k :: u32) = k" by (intro of_nat_unat_small) simp
  then show ?thesis using a by (subst unat_add_no_wrap) simp_all
qed

lemma in_word_iff: "unat a + 4 \<le> 4294967296 \<Longrightarrow> x - a < (4 :: u32) \<longleftrightarrow> unat a \<le> unat x \<and> unat x < unat a + 4"
proof -
  assume a: "unat a + 4 \<le> 4294967296"
  show ?thesis
  proof (cases "a \<le> x")
    case True
    then have "unat (x - a) = unat x - unat a" "unat a \<le> unat x"
      by (simp_all add: unat_sub_no_wrap word_le_nat_alt)
    then show ?thesis by (auto simp: word_less_nat_alt)
  next
    case False
    then have lt: "unat x < unat a" by (simp add: word_le_nat_alt)
    then have "unat (x - a) = 4294967296 + unat x - unat a" by (simp add: unat_sub_if')
    then have "\<not> x - a < 4" using lt a by (simp add: word_less_nat_alt)
    with lt show ?thesis by simp
  qed
qed

lemma put32_out:
  "unat a + 4 \<le> 4294967296 \<Longrightarrow> unat x < unat a \<or> unat a + 4 \<le> unat x \<Longrightarrow> put32 a v f x = f x"
  by (auto simp: put32_def in_word_iff)

lemma get32_cong:
  assumes "unat b + 4 \<le> 4294967296"
    and "\<And>x. unat b \<le> unat x \<Longrightarrow> unat x < unat b + 4 \<Longrightarrow> f x = g x"
  shows "get32 f b = get32 g b"
proof -
  have "f (b + of_nat k) = g (b + of_nat k)" if "k < 4" for k
    using that assms(1) u32_shift [of b k] by (intro assms(2)) simp_all
  from this [of 0] this [of 1] this [of 2] this [of 3] show ?thesis by (simp add: get32_def)
qed

lemma get32_put32 [simp]: "get32 (put32 a v f) a = v"
proof -
  have "le32 [bytes32 v ! 0, bytes32 v ! 1, bytes32 v ! 2, bytes32 v ! 3] 0 = le32 (bytes32 v) 0"
    by (simp add: bytes32_def)
  then show ?thesis by (simp add: get32_def put32_def le32_bytes32)
qed

lemma get32_put32_other:
  assumes "unat a + 4 \<le> 4294967296" and "unat b + 4 \<le> 4294967296" and "unat b + 4 \<le> unat a \<or> unat a + 4 \<le> unat b"
  shows "get32 (put32 a v f) b = get32 f b"
  using assms by (intro get32_cong put32_out) auto

section \<open>The free list as a list\<close>

type_synonym blocks = "(nat \<times> nat) list"

fun chain :: "heap \<Rightarrow> u32 \<Rightarrow> blocks \<Rightarrow> bool" where
  "chain h p [] \<longleftrightarrow> p = 0"
| "chain h p ((a, s) # fl) \<longleftrightarrow> p \<noteq> 0 \<and> unat p = a \<and> unat (bsize h p) = s \<and> chain h (bnext h p) fl"

text \<open>In address order between \<open>lo\<close> and \<open>hi\<close>, without overlap, each with room for its header.\<close>

fun sep :: "nat \<Rightarrow> nat \<Rightarrow> blocks \<Rightarrow> bool" where
  "sep lo hi [] \<longleftrightarrow> True"
| "sep lo hi ((a, s) # fl) \<longleftrightarrow> lo \<le> a \<and> 8 \<le> s \<and> a + s \<le> hi \<and> sep (a + s) hi fl"

definition cells :: "blocks \<Rightarrow> nat set" where
  "cells fl = (\<Union>(a, s)\<in>set fl. {a..<a + s})"

lemma cells_simps [simp]:
  "cells [] = {}" "cells ((a, s) # fl) = {a..<a + s} \<union> cells fl" "cells (fl @ fl') = cells fl \<union> cells fl'"
  by (auto simp: cells_def)

lemma sep_mono: "sep lo hi fl \<Longrightarrow> lo' \<le> lo \<Longrightarrow> hi \<le> hi' \<Longrightarrow> sep lo' hi' fl"
  by (induction lo hi fl arbitrary: lo' rule: sep.induct) auto

lemma sep_append:
  "sep lo hi (fl @ (a, s) # fl') \<longleftrightarrow>
    sep lo a fl \<and> lo \<le> a \<and> 8 \<le> s \<and> a + s \<le> hi \<and> sep (a + s) hi fl'"
proof (induction fl arbitrary: lo)
  case (Cons x fl)
  obtain b t where x: "x = (b, t)" by (cases x)
  show ?case using Cons.IH [of "b + t"] by (auto simp: x)
qed auto

lemma sep_append': "sep lo hi (fl @ fl') \<Longrightarrow> sep lo hi fl'"
proof (induction fl arbitrary: lo)
  case (Cons x fl)
  obtain b t where x: "x = (b, t)" by (cases x)
  show ?case using Cons.IH [of "b + t"] Cons.prems by (auto simp: x elim: sep_mono)
qed simp

lemma sep_cells: "sep lo hi fl \<Longrightarrow> cells fl \<subseteq> {lo..<hi}"
  by (induction lo hi fl rule: sep.induct) force+

lemma header_cong:
  assumes "unat p + 8 \<le> 4294967296"
    and "\<And>x. unat p \<le> unat x \<Longrightarrow> unat x < unat p + 8 \<Longrightarrow> bytes h' x = bytes h x"
  shows "bsize h' p = bsize h p" and "bnext h' p = bnext h p"
proof -
  have p4: "unat (p + 4) = unat p + 4" using assms(1) by (simp add: unat_add_no_wrap)
  show "bsize h' p = bsize h p" using assms by (auto simp: bsize_def intro!: get32_cong)
  show "bnext h' p = bnext h p" using assms p4 by (auto simp: bnext_def intro!: get32_cong)
qed

lemma chain_cong:
  assumes "chain h p fl" and "sep lo hi fl" and "hi \<le> 4294967296"
    and "\<And>x. unat x \<in> cells fl \<Longrightarrow> bytes h' x = bytes h x"
  shows "chain h' p fl"
  using assms(1,2,4)
proof (induction fl arbitrary: p lo)
  case (Cons as fl)
  obtain a s where as: "as = (a, s)" by (cases as)
  have p: "p \<noteq> 0" "unat p = a" "unat (bsize h p) = s" "chain h (bnext h p) fl"
    and s: "8 \<le> s" "a + s \<le> hi" "sep (a + s) hi fl" using Cons.prems(1,2) by (simp_all add: as)
  have eq: "bytes h' x = bytes h x" if "unat p \<le> unat x" "unat x < unat p + 8" for x
    using that p(2) s(1) by (intro Cons.prems(3)) (simp add: as)
  have room: "unat p + 8 \<le> 4294967296" using p(2) s(1,2) assms(3) by simp
  note hd = header_cong [OF room eq]
  have "chain h' (bnext h p) fl" by (rule Cons.IH [OF p(4) s(3)]) (simp add: Cons.prems(3) as)
  with p hd show ?case by (simp add: as)
qed simp

text \<open>The front part of the list, whatever follows it.\<close>

fun seg :: "heap \<Rightarrow> u32 \<Rightarrow> blocks \<Rightarrow> bool" where
  "seg h p [] \<longleftrightarrow> True"
| "seg h p ((a, s) # fl) \<longleftrightarrow> p \<noteq> 0 \<and> unat p = a \<and> unat (bsize h p) = s \<and> seg h (bnext h p) fl"

lemma chain_seg: "chain h p (fl @ rest) \<Longrightarrow> seg h p fl"
  by (induction fl arbitrary: p) auto

lemma seg_cong:
  assumes "seg h p fl" and "sep lo hi fl" and "hi \<le> 4294967296"
    and "\<And>x. unat x \<in> cells fl \<Longrightarrow> bytes h' x = bytes h x"
  shows "seg h' p fl"
  using assms(1,2,4)
proof (induction fl arbitrary: p lo)
  case (Cons as fl)
  obtain a s where as: "as = (a, s)" by (cases as)
  have p: "p \<noteq> 0" "unat p = a" "unat (bsize h p) = s" "seg h (bnext h p) fl"
    and s: "8 \<le> s" "a + s \<le> hi" "sep (a + s) hi fl" using Cons.prems(1,2) by (simp_all add: as)
  have eq: "bytes h' x = bytes h x" if "unat p \<le> unat x" "unat x < unat p + 8" for x
    using that p(2) s(1) by (intro Cons.prems(3)) (simp add: as)
  have room: "unat p + 8 \<le> 4294967296" using p(2) s(1,2) assms(3) by simp
  note hd = header_cong [OF room eq]
  have "seg h' (bnext h p) fl" by (rule Cons.IH [OF p(4) s(3)]) (simp add: Cons.prems(3) as)
  with p hd show ?case by (simp add: as)
qed simp

text \<open>What \<open>set_size\<close> and \<open>set_next\<close> write and keep.\<close>

lemma set_fields [simp]:
  "freelist (set_size b v h) = freelist h" "freelist (set_next b v h) = freelist h"
  "heap_brk (set_size b v h) = heap_brk h" "heap_brk (set_next b v h) = heap_brk h"
  "heap_state (set_size b v h) = heap_state h" "heap_state (set_next b v h) = heap_state h"
  "kern (set_size b v h) = kern h" "kern (set_next b v h) = kern h"
  by (simp_all add: set_size_def set_next_def)

lemma set_size_get [simp]: "bsize (set_size b v h) b = v"
  by (simp add: set_size_def bsize_def)

lemma set_next_get [simp]: "bnext (set_next b v h) b = v"
  by (simp add: set_next_def bnext_def)

lemma set_size_next: "unat b + 8 \<le> 4294967296 \<Longrightarrow> bnext (set_size b v h) b = bnext h b"
  by (auto simp: set_size_def bnext_def unat_add_no_wrap intro!: get32_put32_other)

lemma set_next_size: "unat b + 8 \<le> 4294967296 \<Longrightarrow> bsize (set_next b v h) b = bsize h b"
  by (auto simp: set_next_def bsize_def unat_add_no_wrap intro!: get32_put32_other)

lemma set_out:
  assumes "unat b + 8 \<le> 4294967296" and "unat x < unat b \<or> unat b + 8 \<le> unat x"
  shows "bytes (set_size b v h) x = bytes h x" and "bytes (set_next b v h) x = bytes h x"
proof -
  have "unat (b + 4) = unat b + 4" using assms(1) by (simp add: unat_add_no_wrap)
  then show "bytes (set_size b v h) x = bytes h x" "bytes (set_next b v h) x = bytes h x"
    using assms by (auto simp: set_size_def set_next_def intro!: put32_out)
qed

definition last_ptr :: "blocks \<Rightarrow> u32" where
  "last_ptr fl = (if fl = [] then 0 else of_nat (fst (last fl)))"

lemma link_chain:
  assumes "seg h p fl" and "sep lo hi (fl @ fl')" and "0 < lo" and "hi \<le> 4294967296" and "chain h q fl'"
    and "fl \<noteq> []"
  shows "chain (set_next (last_ptr fl) q h) p (fl @ fl')"
  using assms(1-3,6)
proof (induction fl arbitrary: p lo)
  case (Cons as fl)
  obtain a s where as: "as = (a, s)" by (cases as)
  have p: "p \<noteq> 0" "unat p = a" "unat (bsize h p) = s" "seg h (bnext h p) fl"
    and s: "lo \<le> a" "8 \<le> s" "a + s \<le> hi" "sep (a + s) hi (fl @ fl')" using Cons.prems(1,2) by (simp_all add: as)
  have room: "unat p + 8 \<le> 4294967296" using p(2) s(2,3) assms(4) by simp
  show ?case
  proof (cases "fl = []")
    case True
    have q: "last_ptr (as # fl) = p" using True p(2) by (auto simp: last_ptr_def as)
    have "cells fl' \<subseteq> {a + s..<hi}" using s(4) True sep_cells by simp
    then have "bytes (set_next p q h) x = bytes h x" if "unat x \<in> cells fl'" for x
      using that room p(2) s(2) by (intro set_out) auto
    with chain_cong [OF assms(5), of "a + s" hi "set_next p q h"] s(4) True assms(4)
    have "chain (set_next p q h) q fl'" by simp
    then show ?thesis using True p room unfolding q by (simp add: as set_next_size)
  next
    case False
    let ?h = "set_next (last_ptr fl) q h"
    obtain b t fl0 where fl: "fl = fl0 @ [(b, t)]" using False by (metis prod.exhaust rev_exhaust)
    have "sep (a + s) hi (fl0 @ (b, t) # fl')" using s(4) by (simp add: fl)
    then have b: "a + s \<le> b" "b + t \<le> hi" "8 \<le> t" by (simp_all add: sep_append)
    have "unat (of_nat b :: u32) = b" using b assms(4) by (intro of_nat_unat_small) simp
    then have lp: "unat (last_ptr fl) = b" by (simp add: last_ptr_def fl)
    have "bytes ?h x = bytes h x" if "unat p \<le> unat x" "unat x < unat p + 8" for x
      using that lp b p(2) s(2) assms(4) by (intro set_out) auto
    note hd = header_cong [OF room this]
    have "chain ?h (bnext h p) (fl @ fl')" by (rule Cons.IH [OF p(4) s(4) _ False]) (use s(2) in simp)
    moreover have "last_ptr (as # fl) = last_ptr fl" using False by (simp add: last_ptr_def)
    ultimately show ?thesis using p hd by (simp add: as)
  qed
qed simp

lemma find_fit_skip:
  "chain h p (fl @ rest) \<Longrightarrow> \<forall>(a, s)\<in>set fl. s < unat need \<Longrightarrow>
    \<exists>q. chain h q rest \<and> find_fit need prev p h = find_fit need (if fl = [] then prev else last_ptr fl) q h"
proof (induction fl arbitrary: p prev)
  case (Cons as fl)
  obtain a s where as: "as = (a, s)" by (cases as)
  have p: "p \<noteq> 0" "unat p = a" "unat (bsize h p) = s" "chain h (bnext h p) (fl @ rest)"
    using Cons.prems(1) by (simp_all add: as)
  have "\<not> bsize h p \<ge> need" using Cons.prems(2) p(3) by (simp add: as word_le_nat_alt)
  then have step: "find_fit need prev p h = find_fit need p (bnext h p) h"
    using p(1) by (subst find_fit.simps) simp
  have "last_ptr (as # fl) = (if fl = [] then p else last_ptr fl)"
    using p(2) by (auto simp: last_ptr_def as)
  then show ?case using Cons.IH [OF p(4), of p] Cons.prems(2) by (simp add: step)
qed auto

lemma find_fit_None:
  assumes "chain h p fl" and "\<forall>(a, s)\<in>set fl. s < unat need"
  shows "find_fit need 0 p h = Some None"
proof -
  from find_fit_skip [of h p fl "[]" need 0] assms show ?thesis by (auto simp: find_fit.simps)
qed

lemma find_fit_Some:
  assumes "chain h p (fl1 @ (a, s) # fl2)" and "\<forall>(a, s)\<in>set fl1. s < unat need" and "unat need \<le> s"
  obtains b where "find_fit need 0 p h = Some (Some (last_ptr fl1, b))" "unat b = a" "b \<noteq> 0"
    "unat (bsize h b) = s" "chain h (bnext h b) fl2"
proof -
  from find_fit_skip [OF assms(1,2), of 0] obtain b where
    b: "chain h b ((a, s) # fl2)" "find_fit need 0 p h = find_fit need (if fl1 = [] then 0 else last_ptr fl1) b h"
    by blast
  have "(if fl1 = [] then 0 else last_ptr fl1) = last_ptr fl1" by (simp add: last_ptr_def)
  moreover have "bsize h b \<ge> need" using b(1) assms(3) by (simp add: word_le_nat_alt)
  ultimately have "find_fit need 0 p h = Some (Some (last_ptr fl1, b))"
    using b by (subst (asm) (2) find_fit.simps) simp
  then show thesis using b(1) that by simp
qed

text \<open>The list always splits at the first block that fits.\<close>

lemma first_fit_split:
  "(\<forall>(a, s)\<in>set fl. s < n) \<or> (\<exists>fl1 a s fl2. fl = fl1 @ (a, s) # fl2 \<and> (\<forall>(a, s)\<in>set fl1. s < n) \<and> n \<le> (s :: nat))"
proof (induction fl)
  case (Cons as fl)
  obtain a s where as: "as = (a, s)" by (cases as)
  show ?case
  proof (cases "s < n")
    case True
    from Cons.IH show ?thesis
    proof
      assume "\<exists>fl1 a s fl2. fl = fl1 @ (a, s) # fl2 \<and> (\<forall>(a, s)\<in>set fl1. s < n) \<and> n \<le> s"
      then obtain fl1 b t fl2 where "fl = fl1 @ (b, t) # fl2" "\<forall>(a, s)\<in>set fl1. s < n" "n \<le> t" by blast
      then have "as # fl = (as # fl1) @ (b, t) # fl2" "\<forall>(a, s)\<in>set (as # fl1). s < n" "n \<le> t"
        using True by (simp_all add: as)
      then show ?thesis by blast
    qed (use True in \<open>simp add: as\<close>)
  next
    case False
    then have "as # fl = [] @ (a, s) # fl" "\<forall>(a, s)\<in>set []. s < n" "n \<le> s" by (simp_all add: as)
    then show ?thesis by blast
  qed
qed simp

lemma last_ptr_header:
  assumes "sep lo hi (fl @ fl')" and "0 < lo" and "hi < 4294967296" and "fl \<noteq> []"
  obtains b t where "last fl = (b, t)" "unat (last_ptr fl) = b" "8 \<le> t" "lo \<le> b" "b + t \<le> hi"
    "{b..<b + t} \<subseteq> cells fl" "last_ptr fl \<noteq> 0"
proof -
  obtain b t fl0 where fl: "fl = fl0 @ [(b, t)]" using assms(4) by (metis prod.exhaust rev_exhaust)
  have "sep lo hi (fl0 @ (b, t) # fl')" using assms(1) by (simp add: fl)
  then have b: "8 \<le> t" "b + t \<le> hi" "lo \<le> b" using assms(2) by (simp_all add: sep_append)
  have u: "unat (of_nat b :: u32) = b" using b assms(3) by (intro of_nat_unat_small) simp
  then have "last_ptr fl \<noteq> 0" using b(3) assms(2) by (auto simp: last_ptr_def fl word_unat_eq_iff)
  then show thesis using that [of b t] b u by (simp add: last_ptr_def fl)
qed

lemma link_frame:
  assumes "sep lo hi (fl @ fl')" and "0 < lo" and "hi < 4294967296" and "unat x \<notin> cells fl"
  shows "bytes (link (last_ptr fl) q h) x = bytes h x"
proof (cases "fl = []")
  case False
  then obtain b t where b: "unat (last_ptr fl) = b" "8 \<le> t" "b + t \<le> hi" "{b..<b + t} \<subseteq> cells fl" "last_ptr fl \<noteq> 0"
    by (rule last_ptr_header [OF assms(1-3)])
  have "unat x < b \<or> b + 8 \<le> unat x"
  proof (rule ccontr)
    assume "\<not> ?thesis"
    then have "unat x \<in> {b..<b + t}" using b(2) by simp
    with b(4) assms(4) show False by blast
  qed
  then show ?thesis using b assms(3) by (auto simp: link_def intro!: set_out(2))
qed (simp add: last_ptr_def link_def)

lemma link_list:
  assumes "seg h (freelist h) fl" and "sep lo hi (fl @ fl')" and "0 < lo" and "hi < 4294967296" and "chain h q fl'"
  shows "chain (link (last_ptr fl) q h) (freelist (link (last_ptr fl) q h)) (fl @ fl')"
proof (cases "fl = []")
  case True
  have "chain (h\<lparr>freelist := q\<rparr>) q fl'"
    using assms(2,4,5) True by (intro chain_cong [OF assms(5), of lo hi]) simp_all
  then show ?thesis using True by (simp add: last_ptr_def link_def)
next
  case False
  then obtain b t where b: "last_ptr fl \<noteq> 0" by (rule last_ptr_header [OF assms(2-4)])
  have hi: "hi \<le> 4294967296" using assms(4) by simp
  from link_chain [OF assms(1-3) hi assms(5) False] b show ?thesis by (simp add: link_def)
qed

lemma link_fields [simp]:
  "heap_brk (link p q h) = heap_brk h" "heap_state (link p q h) = heap_state h" "kern (link p q h) = kern h"
  by (simp_all add: link_def)


lemma cells_disjoint:
  assumes "sep lo hi (fl1 @ (a, s) # fl2)" and "0 < lo"
  shows "cells fl1 \<inter> {a..<a + s} = {}" and "cells fl2 \<inter> {a..<a + s} = {}" and "cells fl1 \<inter> cells fl2 = {}"
    and "cells fl1 \<inter> {a..} = {}"
proof -
  from assms have "sep lo a fl1" "sep (a + s) hi fl2" "lo \<le> a" by (simp_all add: sep_append)
  then have "cells fl1 \<subseteq> {lo..<a}" "cells fl2 \<subseteq> {a + s..<hi}" by (simp_all add: sep_cells)
  then show "cells fl1 \<inter> {a..<a + s} = {}" "cells fl2 \<inter> {a..<a + s} = {}" "cells fl1 \<inter> cells fl2 = {}"
    "cells fl1 \<inter> {a..} = {}" by fastforce+
qed

definition split_block :: "nat \<Rightarrow> nat \<Rightarrow> nat \<Rightarrow> blocks" where
  "split_block need a s = (if need + 16 \<le> s then [(a + need, s - need)] else [])"

lemma take_block_spec:
  assumes ch: "chain h (freelist h) (fl1 @ (a, s) # fl2)" and sp: "sep lo hi (fl1 @ (a, s) # fl2)"
    and lo: "0 < lo" and hi: "hi < 4294967296" and b: "unat b = a" "unat (bsize h b) = s" "chain h (bnext h b) fl2"
    and need: "8 \<le> unat need" "unat need \<le> s" "unat need + 16 < 4294967296"
  shows "let h' = take_block need (last_ptr fl1) b h; fl' = fl1 @ split_block (unat need) a s @ fl2
    in chain h' (freelist h') fl' \<and> sep lo hi fl' \<and>
      unat (bsize h' b) = (if unat need + 16 \<le> s then unat need else s) \<and>
      (\<forall>x. unat x \<notin> cells (fl1 @ (a, s) # fl2) \<longrightarrow> bytes h' x = bytes h x) \<and>
      heap_brk h' = heap_brk h \<and> heap_state h' = heap_state h \<and> kern h' = kern h"
proof -
  note dis = cells_disjoint [OF sp lo]
  have parts: "sep lo a fl1" "lo \<le> a" "8 \<le> s" "a + s \<le> hi" "sep (a + s) hi fl2"
    using sp lo by (simp_all add: sep_append)
  have seg1: "seg h (freelist h) fl1" using ch by (rule chain_seg)
  have n16: "unat (need + BLOCK_HDR + MIN_ALIGN) = unat need + 16"
    using need(3) by (simp add: BLOCK_HDR_def MIN_ALIGN_def unat_add_no_wrap add.assoc)
  have room: "unat b + 8 \<le> 4294967296" using b(1) parts(3,4) hi by simp
  have le: "hi \<le> 4294967296" "a \<le> 4294967296" using hi parts(3,4) by simp_all
  show ?thesis
  proof (cases "unat need + 16 \<le> s")
    case True
    let ?r = "b + need"
    let ?h3 = "set_size b need (set_next ?r (bnext h b) (set_size ?r (bsize h b - need) h))"
    let ?fl = "(a + unat need, s - unat need) # fl2"
    have tb: "take_block need (last_ptr fl1) b h = link (last_ptr fl1) ?r ?h3"
      using True n16 b(2) by (simp add: take_block_def Let_def word_le_nat_alt)
    have r: "unat ?r = a + unat need" using b(1) need(2) parts(4) hi by (simp add: unat_add_no_wrap)
    have rroom: "unat ?r + 8 \<le> 4294967296" using r True parts(4) hi by simp
    have out3: "bytes ?h3 x = bytes h x" if "unat x \<notin> {a..<a + s}" for x
    proof -
      have "unat x < a \<or> a + s \<le> unat x" using that by auto
      then show ?thesis using r b(1) True room rroom parts(3) need(1) by (auto simp: set_out)
    qed
    have "unat (bsize h b - need) = s - unat need"
      using b(2) need(2) by (simp add: unat_sub_no_wrap word_le_nat_alt)
    moreover have "bytes ?h3 x = bytes (set_next ?r (bnext h b) (set_size ?r (bsize h b - need) h)) x"
      if "unat ?r \<le> unat x" "unat x < unat ?r + 8" for x
      using that r b(1) need(1) by (intro set_out(1) [OF room]) auto
    note hd = header_cong [OF rroom this]
    ultimately have r3: "unat (bsize ?h3 ?r) = s - unat need" "bnext ?h3 ?r = bnext h b"
      unfolding hd using rroom by (simp_all add: set_next_size)
    have "chain ?h3 (bnext h b) fl2"
      using dis(2) by (intro chain_cong [OF b(3) parts(5) le(1)] out3) blast
    moreover have "?r \<noteq> 0" using r need(1) by (metis not_one_le_zero unsigned_0 add_is_0 not_numeral_le_zero)
    ultimately have ch3: "chain ?h3 ?r ?fl" using r r3 by simp
    have "seg ?h3 (freelist h) fl1"
      by (rule seg_cong [OF seg1 parts(1) le(2)]) (use out3 dis(1) in blast)
    then have seg3: "seg ?h3 (freelist ?h3) fl1" by simp
    have sp': "sep lo hi (fl1 @ ?fl)"
      using parts True lo by (auto simp: sep_append intro: sep_mono)
    have ch': "chain (link (last_ptr fl1) ?r ?h3) (freelist (link (last_ptr fl1) ?r ?h3)) (fl1 @ ?fl)"
      by (rule link_list [OF seg3 sp' lo hi ch3])
    have fr: "bytes (link (last_ptr fl1) ?r ?h3) x = bytes ?h3 x" if "unat x \<notin> cells fl1" for x
      by (rule link_frame [OF sp' lo hi that])
    have "bytes (link (last_ptr fl1) ?r ?h3) x = bytes ?h3 x" if "unat b \<le> unat x" "unat x < unat b + 8" for x
      using that b(1) parts(3) dis(1) by (intro fr) auto
    then have "bsize (link (last_ptr fl1) ?r ?h3) b = bsize ?h3 b" by (rule header_cong(1) [OF room])
    then have "unat (bsize (link (last_ptr fl1) ?r ?h3) b) = unat need" by simp
    then show ?thesis using ch' sp' fr out3 True by (simp add: Let_def tb split_block_def)
  next
    case False
    have tb: "take_block need (last_ptr fl1) b h = link (last_ptr fl1) (bnext h b) h"
      using False n16 b(2) by (simp add: take_block_def Let_def word_le_nat_alt)
    have sp': "sep lo hi (fl1 @ fl2)"
    proof (cases fl2)
      case Nil
      then show ?thesis using parts by (auto intro: sep_mono)
    next
      case (Cons x xs)
      obtain c t where "x = (c, t)" by (cases x)
      then show ?thesis using parts lo Cons by (auto simp: sep_append intro: sep_mono)
    qed
    have ch': "chain (link (last_ptr fl1) (bnext h b) h) (freelist (link (last_ptr fl1) (bnext h b) h)) (fl1 @ fl2)"
      by (rule link_list [OF seg1 sp' lo hi b(3)])
    have fr: "bytes (link (last_ptr fl1) (bnext h b) h) x = bytes h x" if "unat x \<notin> cells fl1" for x
      by (rule link_frame [OF sp' lo hi that])
    have "bytes (link (last_ptr fl1) (bnext h b) h) x = bytes h x" if "unat b \<le> unat x" "unat x < unat b + 8" for x
      using that b(1) parts(3) dis(1) by (intro fr) auto
    then have "bsize (link (last_ptr fl1) (bnext h b) h) b = bsize h b" by (rule header_cong(1) [OF room])
    then show ?thesis using ch' sp' fr False b(2) by (simp add: Let_def tb split_block_def)
  qed
qed

section \<open>Releasing a block\<close>

lemma free_place_eq:
  "chain h p (fl1 @ fl2) \<Longrightarrow> \<forall>(a, s)\<in>set fl1. a < unat b \<Longrightarrow> (\<forall>(c, t)\<in>set fl2. unat b \<le> c) \<Longrightarrow>
    \<exists>q. chain h q fl2 \<and> free_place b prev p h = Some (if fl1 = [] then prev else last_ptr fl1, q)"
proof (induction fl1 arbitrary: p prev)
  case Nil
  then have "\<not> (p \<noteq> 0 \<and> p < b)" by (cases fl2) (auto simp: word_less_nat_alt)
  then have "free_place b prev p h = Some (prev, p)" by (subst free_place.simps) (simp only: if_False)
  with Nil show ?case by auto
next
  case (Cons as fl1)
  obtain a s where as: "as = (a, s)" by (cases as)
  have p: "p \<noteq> 0" "unat p = a" "chain h (bnext h p) (fl1 @ fl2)"
    using Cons.prems(1) by (simp_all add: as)
  have "p < b" using Cons.prems(2) p(2) by (simp add: as word_less_nat_alt)
  then have step: "free_place b prev p h = free_place b p (bnext h p) h"
    using p(1) by (subst free_place.simps) simp
  have "last_ptr (as # fl1) = (if fl1 = [] then p else last_ptr fl1)"
    using p(2) by (auto simp: last_ptr_def as)
  then show ?case using Cons.IH [OF p(3), of p] Cons.prems(2,3) by (simp add: step)
qed

text \<open>Joining a block with the one right behind it.\<close>

lemma chain_join:
  assumes "chain h p (fl @ (b, s) # (b + s, t) # r)" and "sep lo hi (fl @ (b, s) # (b + s, t) # r)"
    and "0 < lo" and "hi < 4294967296" and "unat bb = b" and "unat c = b + s"
  shows "chain (set_next bb (bnext h c) (set_size bb (bsize h bb + bsize h c) h)) p (fl @ (b, s + t) # r)"
  using assms(1-3)
proof (induction fl arbitrary: p lo)
  case Nil
  have p: "p = bb" using Nil.prems(1) assms(5) by (simp add: word_unat_eq_iff)
  have "bnext h bb = c" using Nil.prems(1) assms(6) by (simp add: p word_unat_eq_iff)
  then have nx: "bnext h bb = c" "unat (bsize h bb) = s" "unat (bsize h c) = t" "chain h (bnext h c) r"
    using Nil.prems(1) by (simp_all add: p)
  have s: "8 \<le> s" "8 \<le> t" "b + s + t \<le> hi" "sep (b + s + t) hi r" using Nil.prems(2) by simp_all
  have room: "unat bb + 8 \<le> 4294967296" using s assms(4,5) by simp
  let ?h = "set_next bb (bnext h c) (set_size bb (bsize h bb + bsize h c) h)"
  have "cells r \<subseteq> {b + s + t..<hi}" using s(4) by (rule sep_cells)
  then have "bytes ?h x = bytes h x" if "unat x \<in> cells r" for x
  proof -
    have "b + s + t \<le> unat x" using that \<open>cells r \<subseteq> _\<close> by auto
    then show ?thesis using room assms(5) s(1) by (simp add: set_out)
  qed
  then have "chain ?h (bnext h c) r" by (rule chain_cong [OF nx(4) s(4) less_imp_le [OF assms(4)]])
  moreover have "unat (bsize h bb + bsize h c) = s + t"
    using nx s(3) assms(4) by (simp add: unat_add_no_wrap)
  moreover have "bb \<noteq> 0" using Nil.prems(2,3) assms(5) by auto
  ultimately show ?case using room assms(5) by (simp add: p set_next_size)
next
  case (Cons as fl)
  obtain a u where as: "as = (a, u)" by (cases as)
  have p: "p \<noteq> 0" "unat p = a" "unat (bsize h p) = u" "chain h (bnext h p) (fl @ (b, s) # (b + s, t) # r)"
    and s: "lo \<le> a" "8 \<le> u" "sep (a + u) hi (fl @ (b, s) # (b + s, t) # r)"
    using Cons.prems(1,2) by (simp_all add: as)
  have b: "a + u \<le> b" "8 \<le> s" "b + s \<le> hi" using s(3) by (simp_all add: sep_append)
  let ?h = "set_next bb (bnext h c) (set_size bb (bsize h bb + bsize h c) h)"
  have room: "unat p + 8 \<le> 4294967296" "unat bb + 8 \<le> 4294967296" using p(2) s(2) b assms(4,5) by simp_all
  have "bytes ?h x = bytes h x" if "unat p \<le> unat x" "unat x < unat p + 8" for x
    using that p(2) s(2) b(1) assms(5) room(2) by (simp add: set_out)
  note hd = header_cong [OF room(1) this]
  have "chain ?h (bnext h p) (fl @ (b, s + t) # r)"
    by (rule Cons.IH [OF p(4) s(3)]) (use s(2) in simp)
  then show ?case using p hd by (simp add: as)
qed

lemma join_frame:
  assumes "unat bb + 8 \<le> 4294967296" and "unat x < unat bb \<or> unat bb + 8 \<le> unat x"
  shows "bytes (set_next bb v (set_size bb w h)) x = bytes h x"
  using assms by (simp add: set_out)

definition merge_after :: "nat \<Rightarrow> nat \<Rightarrow> blocks \<Rightarrow> blocks" where
  "merge_after b s fl = (case fl of [] \<Rightarrow> [(b, s)]
     | (c, t) # r \<Rightarrow> if b + s = c then (b, s + t) # r else (b, s) # fl)"

definition merge_before :: "blocks \<Rightarrow> blocks \<Rightarrow> blocks" where
  "merge_before fl fl' = (case (rev fl, fl') of
       ((a, u) # r, (b, s) # r') \<Rightarrow> if a + u = b then rev r @ (a, u + s) # r' else fl @ fl'
     | _ \<Rightarrow> fl @ fl')"

lemma merge_next_eq:
  assumes "chain h p (fl1 @ (b, s) # fl2)" and "sep lo hi (fl1 @ (b, s) # fl2)" and "0 < lo" and "hi < 4294967296"
    and "unat bb = b" and "unat (bsize h bb) = s" and "q = bnext h bb" and "chain h q fl2"
  shows "chain (merge_next bb q h) p (fl1 @ merge_after b s fl2)"
    and "\<And>x. unat x \<notin> {b..<b + s} \<Longrightarrow> bytes (merge_next bb q h) x = bytes h x"
    and "freelist (merge_next bb q h) = freelist h \<and> heap_brk (merge_next bb q h) = heap_brk h \<and>
      heap_state (merge_next bb q h) = heap_state h \<and> kern (merge_next bb q h) = kern h"
proof -
  have s: "8 \<le> s" "b + s \<le> hi" "lo \<le> b" using assms(2) by (simp_all add: sep_append)
  have room: "unat bb + 8 \<le> 4294967296" using s assms(4,5) by simp
  have sum: "unat (bb + bsize h bb) = b + s" using s(2) assms(4-6) by (simp add: unat_add_no_wrap)
  have nx: "bnext (set_size bb v h) q = bnext h q" if "q \<noteq> 0" "unat q = b + s" for v
  proof -
    have "\<exists>t r. fl2 = (b + s, t) # r"
    proof (cases fl2)
      case (Cons x r)
      then show ?thesis using assms(8) that(2) by (cases x) simp
    qed (use assms(8) that(1) in simp)
    then obtain t r where fl2: "fl2 = (b + s, t) # r" by blast
    then have "b + s + 8 \<le> hi" using assms(2) by (simp add: sep_append fl2)
    then have "unat q + 8 \<le> 4294967296" using that assms(4) by simp
    then show ?thesis
      using that(2) s(1) assms(5) room by (intro header_cong(2) set_out(1)) auto
  qed
  have eqn: "merge_next bb q h = (if q \<noteq> 0 \<and> unat q = b + s
      then set_next bb (bnext h q) (set_size bb (bsize h bb + bsize h q) h) else h)"
  proof -
    have "bb + bsize h bb = q \<longleftrightarrow> unat q = b + s" using sum by (auto simp: word_unat_eq_iff)
    then show ?thesis using nx by (auto simp: merge_next_def Let_def)
  qed
  show "bytes (merge_next bb q h) x = bytes h x" if "unat x \<notin> {b..<b + s}" for x
    using that s(1) assms(5) room by (auto simp: eqn intro!: join_frame)
  show "freelist (merge_next bb q h) = freelist h \<and> heap_brk (merge_next bb q h) = heap_brk h \<and>
      heap_state (merge_next bb q h) = heap_state h \<and> kern (merge_next bb q h) = kern h"
    by (simp add: eqn)
  show "chain (merge_next bb q h) p (fl1 @ merge_after b s fl2)"
  proof (cases fl2)
    case Nil
    then show ?thesis unfolding eqn using assms(1,8) by (simp add: merge_after_def)
  next
    case (Cons ct r)
    obtain c t where ct: "ct = (c, t)" by (cases ct)
    have q: "q \<noteq> 0" "unat q = c" using assms(8) Cons by (simp_all add: ct)
    show ?thesis
    proof (cases "b + s = c")
      case True
      with chain_join [of h p fl1 b s t r lo hi bb q] assms(1-5) q Cons
      show ?thesis by (simp add: eqn ct merge_after_def)
    next
      case False
      then show ?thesis using assms(1) q Cons by (simp add: eqn ct merge_after_def)
    qed
  qed
qed


lemma chain_tail: "chain h p (fl @ rest) \<Longrightarrow> \<exists>q. chain h q rest"
  by (induction fl arbitrary: p) auto

lemma merge_prev_eq:
  assumes "chain h (freelist h) (fl1 @ (b, s) # r)" and "sep lo hi (fl1 @ (b, s) # r)" and "0 < lo" and "hi < 4294967296"
    and "unat bb = b"
  shows "chain (merge_prev (last_ptr fl1) bb h) (freelist h) (merge_before fl1 ((b, s) # r))"
    and "\<And>x. unat x \<notin> cells fl1 \<Longrightarrow> bytes (merge_prev (last_ptr fl1) bb h) x = bytes h x"
    and "freelist (merge_prev (last_ptr fl1) bb h) = freelist h \<and> heap_brk (merge_prev (last_ptr fl1) bb h) = heap_brk h \<and>
      heap_state (merge_prev (last_ptr fl1) bb h) = heap_state h \<and> kern (merge_prev (last_ptr fl1) bb h) = kern h"
proof -
  let ?m = "merge_prev (last_ptr fl1) bb h"
  have "chain ?m (freelist h) (merge_before fl1 ((b, s) # r)) \<and>
    (\<forall>x. unat x \<notin> cells fl1 \<longrightarrow> bytes ?m x = bytes h x) \<and>
    freelist ?m = freelist h \<and> heap_brk ?m = heap_brk h \<and> heap_state ?m = heap_state h \<and> kern ?m = kern h"
  proof (cases "fl1 = []")
    case True
    then show ?thesis using assms(1) by (simp add: merge_prev_def last_ptr_def merge_before_def)
  next
    case False
    then obtain a u fl0 where fl: "fl1 = fl0 @ [(a, u)]" by (metis prod.exhaust rev_exhaust)
    obtain pp where pp: "pp = last_ptr fl1" by blast
    have p: "unat pp = a" "8 \<le> u" "a + u \<le> hi" "lo \<le> a" "pp \<noteq> 0"
      using last_ptr_header [OF assms(2-4) False] by (auto simp: fl pp)
    have ch: "chain h (freelist h) (fl0 @ (a, u) # (b, s) # r)" using assms(1) by (simp add: fl)
    have sp: "sep lo hi (fl0 @ (a, u) # (b, s) # r)" using assms(2) by (simp add: fl)
    from chain_tail [OF ch] obtain c where c: "chain h c ((a, u) # (b, s) # r)" by blast
    then have "c = pp" using p(1) by (simp add: word_unat_eq_iff)
    then have pu: "unat (bsize h pp) = u" using c by simp
    have bs: "8 \<le> s" "a + u \<le> b" "b + s \<le> hi" using sp by (simp_all add: sep_append)
    have room: "unat pp + 8 \<le> 4294967296" "unat bb + 8 \<le> 4294967296" using p bs assms(4,5) by simp_all
    have cond: "pp + bsize h pp = bb \<longleftrightarrow> a + u = b"
      using p(1,3) pu assms(4,5) by (simp add: word_unat_eq_iff unat_add_no_wrap)
    have nx: "bnext (set_size pp v h) bb = bnext h bb" for v
      using p(1,2) bs(2) assms(5) room by (intro header_cong(2) set_out(1)) auto
    have m: "?m = (if a + u = b then set_next pp (bnext h bb) (set_size pp (bsize h pp + bsize h bb) h) else h)"
      using p(5) cond by (simp add: merge_prev_def pp [symmetric] Let_def nx)
    have ox: "unat x < unat pp \<or> unat pp + 8 \<le> unat x" if "unat x \<notin> cells fl1" for x
      using that p(1,2) by (auto simp: fl)
    have out: "\<forall>x. unat x \<notin> cells fl1 \<longrightarrow> bytes ?m x = bytes h x"
      unfolding m by (cases "a + u = b") (auto intro!: join_frame [OF room(1) ox])
    show ?thesis
    proof (cases "a + u = b")
      case True
      have "unat bb = a + u" using True assms(5) by simp
      from chain_join [of h _ fl0 a u s r lo hi pp bb, OF _ _ assms(3,4) p(1) this] ch sp True
      have "chain ?m (freelist h) (fl0 @ (a, u + s) # r)" unfolding m by simp
      moreover have "merge_before fl1 ((b, s) # r) = fl0 @ (a, u + s) # r"
        using True by (simp add: merge_before_def fl)
      moreover have "freelist ?m = freelist h \<and> heap_brk ?m = heap_brk h \<and> heap_state ?m = heap_state h \<and>
        kern ?m = kern h" unfolding m by simp
      ultimately show ?thesis using out by simp
    next
      case False
      then have mh: "?m = h" unfolding m by simp
      have "merge_before fl1 ((b, s) # r) = fl1 @ (b, s) # r" using False by (simp add: merge_before_def fl)
      then show ?thesis unfolding mh using assms(1) by simp
    qed
  qed
  then show "chain ?m (freelist h) (merge_before fl1 ((b, s) # r))"
    "\<And>x. unat x \<notin> cells fl1 \<Longrightarrow> bytes ?m x = bytes h x"
    "freelist ?m = freelist h \<and> heap_brk ?m = heap_brk h \<and> heap_state ?m = heap_state h \<and> kern ?m = kern h"
    by blast+
qed


lemma cells_merge_after: "cells (merge_after b s fl) = {b..<b + s} \<union> cells fl"
  by (cases fl) (auto simp: merge_after_def split: prod.splits)

lemma cells_merge_before: "cells (merge_before fl fl') = cells fl \<union> cells fl'"
proof (cases "rev fl")
  case (Cons x r)
  then have "fl = rev r @ [x]" by simp
  then show ?thesis by (cases x, cases fl') (auto simp: merge_before_def split: prod.splits)
qed (simp add: merge_before_def)

lemma sep_merge_after: "sep lo hi (fl1 @ (b, s) # fl2) \<Longrightarrow> sep lo hi (fl1 @ merge_after b s fl2)"
proof (cases fl2)
  case (Cons x r)
  obtain c t where "x = (c, t)" by (cases x)
  moreover assume "sep lo hi (fl1 @ (b, s) # fl2)"
  ultimately show ?thesis using Cons by (auto simp: merge_after_def sep_append add.assoc)
qed (simp add: merge_after_def)

lemma sep_merge_before: "sep lo hi (fl1 @ fl2) \<Longrightarrow> sep lo hi (merge_before fl1 fl2)"
proof (cases "rev fl1")
  case (Cons x r)
  then have fl1: "fl1 = rev r @ [x]" by simp
  assume sp: "sep lo hi (fl1 @ fl2)"
  show ?thesis
  proof (cases fl2)
    case Nil
    then show ?thesis using sp fl1 by (simp add: merge_before_def split: prod.splits)
  next
    case c2: (Cons y r')
    obtain a u b s where "x = (a, u)" "y = (b, s)" by (cases x, cases y)
    with sp fl1 c2 show ?thesis by (auto simp: merge_before_def sep_append add.assoc)
  qed
qed (simp add: merge_before_def)

lemma merge_after_head: "\<exists>n r. merge_after b s fl = (b, n) # r"
  by (cases fl) (auto simp: merge_after_def)

text \<open>What free does to a block that lies between the free ones.\<close>

lemma free_spec:
  assumes ch: "chain h (freelist h) (fl1 @ fl2)" and sp: "sep lo hi (fl1 @ (b, s) # fl2)"
    and lo: "0 < lo" and hi: "hi < 4294967296" and bb: "unat bb = b" "unat (bsize h bb) = s"
  shows "\<exists>h'. free (bb + BLOCK_HDR) h = Some h' \<and>
    chain h' (freelist h') (merge_before fl1 (merge_after b s fl2)) \<and>
    sep lo hi (merge_before fl1 (merge_after b s fl2)) \<and>
    (\<forall>x. unat x \<notin> cells (fl1 @ fl2) \<and> unat x \<notin> {b..<b + s} \<longrightarrow> bytes h' x = bytes h x) \<and>
    heap_brk h' = heap_brk h \<and> heap_state h' = heap_state h \<and> kern h' = kern h"
proof -
  have parts: "sep lo b fl1" "lo \<le> b" "8 \<le> s" "b + s \<le> hi" "sep (b + s) hi fl2"
    using sp by (simp_all add: sep_append)
  note dis = cells_disjoint [OF sp lo]
  have room: "unat bb + 8 \<le> 4294967296" using bb(1) parts(3,4) hi by simp
  have ptr: "bb + BLOCK_HDR \<noteq> 0"
  proof -
    have "unat (bb + BLOCK_HDR) = b + 8"
      using bb(1) parts(3,4) hi by (simp add: BLOCK_HDR_def unat_add_no_wrap)
    then show ?thesis by auto
  qed
  have below: "\<forall>(a, u)\<in>set fl1. a < unat bb"
  proof
    fix x assume "x \<in> set fl1"
    then obtain a u l1 l2 where x: "x = (a, u)" "fl1 = l1 @ (a, u) # l2" by (metis prod.exhaust split_list)
    then have "8 \<le> u" "a + u \<le> b" using parts(1) by (simp_all add: sep_append)
    then show "case x of (a, u) \<Rightarrow> a < unat bb" using x(1) bb(1) by simp
  qed
  have above: "\<forall>(c, t)\<in>set fl2. unat bb \<le> c"
  proof
    fix x assume "x \<in> set fl2"
    then obtain c t l1 l2 where x: "x = (c, t)" "fl2 = l1 @ (c, t) # l2" by (metis prod.exhaust split_list)
    then have "b + s \<le> c" using parts(5) by (simp add: sep_append)
    then show "case x of (c, t) \<Rightarrow> unat bb \<le> c" using x(1) bb(1) by simp
  qed
  from free_place_eq [OF ch below above, of 0] obtain q where
    q: "chain h q fl2" "free_place bb 0 (freelist h) h = Some (last_ptr fl1, q)"
    by (auto simp: last_ptr_def)
  let ?h1 = "set_next bb q h" and ?p = "last_ptr fl1"
  have out1: "bytes ?h1 x = bytes h x" if "unat x \<notin> {b..<b + s}" for x
    using that bb(1) parts(3) by (intro set_out(2) [OF room]) auto
  have "chain ?h1 q fl2" using dis(2) parts(5) hi by (intro chain_cong [OF q(1), of "b + s" hi] out1) auto
  moreover have "bb \<noteq> 0" using bb(1) parts(2) lo by auto
  ultimately have ch1: "chain ?h1 bb ((b, s) # fl2)" using bb room by (simp add: set_next_size)
  have "seg ?h1 (freelist h) fl1"
    using dis(1) parts hi by (intro seg_cong [OF chain_seg [OF ch], of lo b] out1) auto
  then have seg1: "seg ?h1 (freelist ?h1) fl1" by simp
  let ?h2 = "link ?p bb ?h1"
  have ch2: "chain ?h2 (freelist ?h2) (fl1 @ (b, s) # fl2)" by (rule link_list [OF seg1 sp lo hi ch1])
  have out2: "bytes ?h2 x = bytes ?h1 x" if "unat x \<notin> cells fl1" for x by (rule link_frame [OF sp lo hi that])
  have "bytes ?h2 x = bytes ?h1 x" if "unat bb \<le> unat x" "unat x < unat bb + 8" for x
    using that bb(1) parts(3) dis(1) by (intro out2) auto
  note hd = header_cong [OF room this]
  have b2: "unat (bsize ?h2 bb) = s" "q = bnext ?h2 bb" using hd bb(2) room by (simp_all add: set_next_size)
  from chain_tail [OF ch2] obtain bq where "chain ?h2 bq ((b, s) # fl2)" by blast
  moreover from this have "bq = bb" using bb(1) by (simp add: word_unat_eq_iff)
  ultimately have "chain ?h2 (bnext ?h2 bb) fl2" by simp
  then have q2: "chain ?h2 q fl2" by (simp only: b2(2) [symmetric])
  note m1 = merge_next_eq [OF ch2 sp lo hi bb(1) b2 q2]
  let ?h3 = "merge_next bb q ?h2"
  obtain n r where nr: "merge_after b s fl2 = (b, n) # r" using merge_after_head by blast
  have ch3: "chain ?h3 (freelist ?h3) (fl1 @ (b, n) # r)" using m1(1,3) nr by simp
  have sp3: "sep lo hi (fl1 @ (b, n) # r)" using sep_merge_after [OF sp] nr by simp
  note m2 = merge_prev_eq [OF ch3 sp3 lo hi bb(1)]
  let ?h4 = "merge_prev ?p bb ?h3"
  have "free (bb + BLOCK_HDR) h = Some ?h4" using q(2) ptr by (simp add: free_def)
  moreover have "chain ?h4 (freelist ?h4) (merge_before fl1 (merge_after b s fl2))" using m2(1,3) nr by simp
  moreover have "sep lo hi (merge_before fl1 (merge_after b s fl2))" using sep_merge_before sp3 nr by simp
  moreover have "bytes ?h4 x = bytes h x" if "unat x \<notin> cells (fl1 @ fl2) \<and> unat x \<notin> {b..<b + s}" for x
    using that m2(2) m1(2) out2 out1 by simp
  ultimately show ?thesis using m1(3) m2(3) by simp
qed

section \<open>Growing the heap\<close>

lemma list_tail_eq: "chain h p fl \<Longrightarrow> fl \<noteq> [] \<Longrightarrow> list_tail p h = Some (last_ptr fl)"
proof (induction fl arbitrary: p)
  case (Cons as fl)
  obtain a s where as: "as = (a, s)" by (cases as)
  have p: "unat p = a" "chain h (bnext h p) fl" using Cons.prems(1) by (simp_all add: as)
  show ?case
  proof (cases fl)
    case Nil
    then have "list_tail p h = Some p" using p(2) by (subst list_tail.simps) simp
    then show ?thesis using Nil p(1) by (auto simp: last_ptr_def as)
  next
    case c: (Cons x r)
    then have "bnext h p \<noteq> 0" using p(2) by (cases x) simp
    then have "list_tail p h = list_tail (bnext h p) h" by (subst list_tail.simps) simp
    then show ?thesis using Cons.IH [OF p(2)] c by (simp add: last_ptr_def)
  qed
qed simp

definition heap_ok :: "nat \<Rightarrow> heap \<Rightarrow> blocks \<Rightarrow> bool" where
  "heap_ok lo h fl \<longleftrightarrow> heap_state h = 1 \<and> 0 < lo \<and> chain h (freelist h) fl \<and> sep lo (unat (heap_brk h)) fl \<and>
     lo \<le> unat (heap_brk h) \<and>
     brk (kern h) = heap_brk h \<and> USER_BASE \<le> heap_brk h \<and> heap_brk h \<le> USER_STACK"

definition grow :: "u32 \<Rightarrow> nat" where
  "grow need = (max (unat need) 4096 + 4095) div 4096 * 4096"

lemma grow_ge: "unat need \<le> grow need" "0 < grow need" "8 \<le> grow need"
  by (simp_all add: grow_def)

lemma req_grow:
  assumes "unat need \<le> 0x7FFFFFFF"
  shows "unat (((if need > 4096 then need else 4096) + 4095) AND NOT 4095) = grow need"
proof -
  let ?x = "(if need > 4096 then need else 4096) + 4095 :: u32"
  have x: "unat ?x = max (unat need) 4096 + 4095"
    using assms by (auto simp: unat_add_no_wrap word_less_nat_alt max_def)
  have c: "(4095 :: u32) = mask 12" by (simp add: mask_eq_exp_minus_1)
  have "?x AND NOT (mask 12) = push_bit 12 (drop_bit 12 ?x)" by (rule bit_eqI) (auto simp: bit_simps)
  also have "\<dots> = page (unat (drop_bit 12 ?x))" by (simp add: page_push)
  also have "unat (drop_bit 12 ?x) = unat ?x div 4096"
    by (simp only: unat_drop_bit_eq) (simp add: drop_bit_eq_div)
  finally have e: "?x AND NOT (mask 12) = page (unat ?x div 4096)" .
  have "unat ?x div 4096 < 1048576" using unat_u32_lt [of ?x] by (intro less_mult_imp_div_less) simp
  then have "unat (?x AND NOT (mask 12)) = unat ?x div 4096 * 4096" unfolding e by (rule unat_page)
  then show ?thesis unfolding x grow_def by (simp only: c)
qed

text \<open>A failed request for memory changes nothing; a successful one adds one block behind all others.\<close>

lemma sys_sbrk_eq:
  assumes "brk (kern h) = heap_brk h" and "USER_BASE \<le> heap_brk h" and "heap_brk h \<le> USER_STACK"
  shows "sys_sbrk inc h = (if unat (heap_brk h) + unat inc \<le> unat USER_STACK
    then (heap_brk h + inc, h\<lparr>kern := (kern h)\<lparr>brk := heap_brk h + inc\<rparr>\<rparr>) else (heap_brk h, h))"
  using vm_sbrk_eq [of "kern h" inc] assms by (auto simp: sys_sbrk_def)

lemma merge_before_single: "merge_before fl [(b, s)] =
    (if fl = [] then [(b, s)]
     else let (a, u) = last fl in if a + u = b then butlast fl @ [(a, u + s)] else fl @ [(b, s)])"
proof (cases "fl = []")
  case False
  then obtain fl0 x where "fl = fl0 @ [x]" by (metis rev_exhaust)
  then show ?thesis by (cases x) (simp add: merge_before_def)
qed (simp add: merge_before_def)

lemma sep_snoc: "sep lo hi fl \<Longrightarrow> lo \<le> hi \<Longrightarrow> 8 \<le> s \<Longrightarrow> sep lo (hi + s) (fl @ [(hi, s)])"
  by (auto simp: sep_append)

lemma chain_grow_last:
  assumes "chain h p (fl @ [(a, u)])" and "sep lo hi (fl @ [(a, u)])" and "0 < lo" and "hi < 4294967296"
    and "unat pp = a" and "unat v = s"
  shows "chain (set_size pp v h) p (fl @ [(a, s)])"
  using assms(1-3)
proof (induction fl arbitrary: p lo)
  case Nil
  then have p: "p = pp" "bnext h p = 0" "p \<noteq> 0" using assms(5) by (simp_all add: word_unat_eq_iff)
  have "unat pp + 8 \<le> 4294967296" using Nil.prems(2) assms(4,5) by simp
  then show ?case using p assms(5,6) by (simp add: set_size_next)
next
  case (Cons as fl)
  obtain b t where as: "as = (b, t)" by (cases as)
  have p: "p \<noteq> 0" "unat p = b" "unat (bsize h p) = t" "chain h (bnext h p) (fl @ [(a, u)])"
    and s: "8 \<le> t" "sep (b + t) hi (fl @ [(a, u)])" "lo \<le> b"
    using Cons.prems(1,2) by (simp_all add: as)
  have a: "b + t \<le> a" "a + u \<le> hi" "8 \<le> u" using s(2) by (simp_all add: sep_append)
  have room: "unat p + 8 \<le> 4294967296" "unat pp + 8 \<le> 4294967296" using p(2) s(1) a assms(4,5) by simp_all
  have "bytes (set_size pp v h) x = bytes h x" if "unat p \<le> unat x" "unat x < unat p + 8" for x
    using that p(2) s(1) a(1) assms(5) by (intro set_out(1) [OF room(2)]) auto
  note hd = header_cong [OF room(1) this]
  have "chain (set_size pp v h) (bnext h p) (fl @ [(a, s)])"
    by (rule Cons.IH [OF p(4) s(2)]) (use s(1) in simp)
  then show ?case using p hd by (simp add: as)
qed


lemma chain_last:
  assumes "chain h p (fl @ [(a, u)])" and "unat pp = a"
  shows "unat (bsize h pp) = u"
proof -
  from chain_tail [OF assms(1)] obtain q where q: "chain h q [(a, u)]" by blast
  then have "q = pp" using assms(2) by (simp add: word_unat_eq_iff)
  with q show ?thesis by simp
qed

lemma morecore_fails:
  assumes "heap_ok lo h fl" and "unat need \<le> 0x7FFFFFFF" and "unat USER_STACK < unat (heap_brk h) + grow need"
  shows "morecore need h = Some (False, h)"
proof -
  obtain req where req0: "req = ((if need > 4096 then need else 4096) + 4095) AND NOT (4095 :: u32)" by blast
  have req: "unat req = grow need" unfolding req0 by (rule req_grow [OF assms(2)])
  have sb: "sys_sbrk req h = (heap_brk h, h)"
    using sys_sbrk_eq [of h req] assms(1,3) by (simp add: heap_ok_def req)
  have "req \<noteq> 0" using req grow_ge(2) [of need] by auto
  then show ?thesis unfolding morecore_def Let_def req0 [symmetric] sb by simp
qed

lemma morecore_grows:
  assumes ok: "heap_ok lo h fl" and small: "unat need \<le> 0x7FFFFFFF"
    and room: "unat (heap_brk h) + grow need \<le> unat USER_STACK"
  obtains h' where "morecore need h = Some (True, h')"
    "heap_ok lo h' (merge_before fl [(unat (heap_brk h), grow need)])"
    "unat (heap_brk h') = unat (heap_brk h) + grow need"
    "\<And>x. unat x \<notin> cells fl \<Longrightarrow> unat x \<notin> {unat (heap_brk h)..<unat (heap_brk h) + grow need} \<Longrightarrow> bytes h' x = bytes h x"
proof -
  obtain req where req0: "req = ((if need > 4096 then need else 4096) + 4095) AND NOT (4095 :: u32)" by blast
  have req: "unat req = grow need" unfolding req0 by (rule req_grow [OF small])
  obtain old where old: "old = heap_brk h" by blast
  let ?B = "unat old" and ?g = "grow need"
  have top: "?B + ?g \<le> 8384512" using room by (simp add: old USER_STACK_def)
  have got: "unat (old + req) = ?B + ?g" using top req by (simp add: unat_add_no_wrap)
  have sb: "sys_sbrk req h = (old + req, h\<lparr>kern := (kern h)\<lparr>brk := old + req\<rparr>\<rparr>)"
    using sys_sbrk_eq [of h req] ok room by (simp add: heap_ok_def old req)
  let ?h0 = "h\<lparr>kern := (kern h)\<lparr>brk := old + req\<rparr>, heap_brk := old + req\<rparr>"
  let ?h1 = "set_next old 0 (set_size old req ?h0)"
  have ch: "chain h (freelist h) fl" and sp: "sep lo ?B fl" and lo: "0 < lo" "lo \<le> ?B"
    using ok by (simp_all add: heap_ok_def old)
  have oroom: "unat old + 8 \<le> 4294967296" using top by simp
  have out1: "bytes ?h1 x = bytes h x" if "unat x \<notin> {?B..<?B + ?g}" for x
  proof -
    have "unat x < unat old \<or> unat old + 8 \<le> unat x" using that grow_ge(3) [of need] by auto
    then have "bytes ?h1 x = bytes ?h0 x" by (rule join_frame [OF oroom])
    then show ?thesis by simp
  qed
  have ch1: "chain ?h1 (freelist h) fl"
    using sep_cells [OF sp] top by (intro chain_cong [OF ch sp] out1) auto
  have b0: "old \<noteq> 0" using lo by auto
  have new: "chain ?h1 old [(?B, ?g)]" using b0 oroom req by (simp add: set_next_size)
  have sp1: "sep lo (?B + ?g) (fl @ [(?B, ?g)])" using sep_snoc [OF sp lo(2) grow_ge(3)] .
  have hi: "?B + ?g < 4294967296" using top by simp
  have bnds: "USER_BASE \<le> old + req" "old + req \<le> USER_STACK"
    using ok top got by (simp_all add: heap_ok_def old USER_BASE_def USER_STACK_def word_le_nat_alt)
  have okI: "heap_ok lo h' fl'" if "chain h' (freelist h') fl'" "sep lo (?B + ?g) fl'" "heap_brk h' = old + req"
    "heap_state h' = heap_state h" "kern h' = (kern h)\<lparr>brk := old + req\<rparr>" for h' fl'
    using that ok lo bnds got by (simp add: heap_ok_def)
  have mc: "morecore need h =
     (if freelist h = 0 then Some (True, ?h1\<lparr>freelist := old\<rparr>)
      else do {
        p \<leftarrow> list_tail (freelist h) ?h1;
        Some (True, if p + bsize ?h1 p = old then set_size p (bsize ?h1 p + bsize ?h1 old) ?h1
                    else set_next p old ?h1) })"
    unfolding morecore_def Let_def req0 [symmetric] old [symmetric] sb by simp
  show thesis
  proof (cases "fl = []")
    case True
    let ?h = "?h1\<lparr>freelist := old\<rparr>"
    have "freelist h = 0" using ch True by simp
    then have "morecore need h = Some (True, ?h)" using mc by simp
    moreover have "chain ?h old [(?B, ?g)]" using chain_cong [OF new, of lo "?B + ?g" ?h] sp1 True hi by simp
    then have "heap_ok lo ?h (merge_before fl [(?B, ?g)])"
      using sp1 True by (intro okI) (simp_all add: merge_before_single)
    moreover have "bytes ?h x = bytes h x" if "unat x \<notin> {?B..<?B + ?g}" for x using out1 [OF that] by simp
    ultimately show thesis using that [of ?h] got by (simp add: old)
  next
    case False
    then obtain fl0 a u where fl: "fl = fl0 @ [(a, u)]" by (metis prod.exhaust rev_exhaust)
    have sp': "sep lo ?B (fl @ [])" using sp by simp
    have Bh: "?B < 4294967296" using top by simp
    obtain pp where pp: "pp = last_ptr fl" by blast
    have p: "unat pp = a" "8 \<le> u" "a + u \<le> ?B" "lo \<le> a" "pp \<noteq> 0"
      using last_ptr_header [OF sp' lo(1) Bh False] by (auto simp: fl pp)
    have us: "unat (bsize ?h1 pp) = u" using chain_last [of ?h1 "freelist h" fl0 a u pp] ch1 p(1) by (simp add: fl)
    have f0: "freelist h \<noteq> 0" using ch False by (cases fl) auto
    have "list_tail (freelist h) ?h1 = Some pp" using list_tail_eq [OF ch1 False] by (simp add: pp)
    moreover have cond: "pp + bsize ?h1 pp = old \<longleftrightarrow> a + u = ?B"
      using p us top by (simp add: word_unat_eq_iff unat_add_no_wrap)
    ultimately have mc': "morecore need h = Some (True,
        if a + u = ?B then set_size pp (bsize ?h1 pp + bsize ?h1 old) ?h1 else set_next pp old ?h1)"
      using mc f0 by simp
    have proom: "unat pp + 8 \<le> 4294967296" using p top by simp
    have pout: "unat x < unat pp \<or> unat pp + 8 \<le> unat x" if "unat x \<notin> cells fl" for x
      using that p(1,2) by (auto simp: fl)
    show thesis
    proof (cases "a + u = ?B")
      case True
      let ?h = "set_size pp (bsize ?h1 pp + bsize ?h1 old) ?h1"
      have v: "unat (bsize ?h1 pp + bsize ?h1 old) = u + ?g"
        using us req oroom p top True by (simp add: set_next_size unat_add_no_wrap)
      have "chain ?h (freelist h) (fl0 @ [(a, u + ?g)])"
        using ch1 sp top by (intro chain_grow_last [OF _ _ lo(1) Bh p(1) v]) (simp_all add: fl)
      moreover have m: "merge_before fl [(?B, ?g)] = fl0 @ [(a, u + ?g)]"
        using True by (simp add: merge_before_single fl)
      moreover have "sep lo (?B + ?g) (fl0 @ [(a, u + ?g)])"
        using sep_merge_before [OF sp1] m by simp
      ultimately have "heap_ok lo ?h (merge_before fl [(?B, ?g)])" by (intro okI) simp_all
      moreover have "bytes ?h x = bytes h x" if "unat x \<notin> cells fl" "unat x \<notin> {?B..<?B + ?g}" for x
        using set_out(1) [OF proom pout [OF that(1)]] out1 [OF that(2)] by simp
      ultimately show thesis using that [of ?h] got mc' True by (simp add: old)
    next
      case no: False
      let ?h = "set_next pp old ?h1"
      have sg: "seg ?h1 (freelist h) fl" using chain_seg [of ?h1 "freelist h" fl "[]"] ch1 by simp
      have "chain ?h (freelist h) (fl @ [(?B, ?g)])"
        using link_chain [OF sg sp1 lo(1) _ new False] hi by (simp add: pp)
      moreover have "merge_before fl [(?B, ?g)] = fl @ [(?B, ?g)]"
        using no by (simp add: merge_before_single fl)
      ultimately have "heap_ok lo ?h (merge_before fl [(?B, ?g)])" using sp1 by (intro okI) simp_all
      moreover have "bytes ?h x = bytes h x" if "unat x \<notin> cells fl" "unat x \<notin> {?B..<?B + ?g}" for x
        using set_out(2) [OF proom pout [OF that(1)]] out1 [OF that(2)] by simp
      ultimately show thesis using that [of ?h] got mc' no by (simp add: old)
    qed
  qed
qed

section \<open>Allocation\<close>

text \<open>What a successful allocation of \<open>n\<close> bytes, header included, makes of a heap.\<close>

definition taken :: "nat \<Rightarrow> nat \<Rightarrow> heap \<Rightarrow> blocks \<Rightarrow> u32 \<Rightarrow> heap \<Rightarrow> blocks \<Rightarrow> bool" where
  "taken lo n h fl b h' fl' \<longleftrightarrow> heap_ok lo h' fl' \<and> heap_brk h \<le> heap_brk h' \<and>
     (\<exists>s. n \<le> s \<and> s < n + 16 \<and> lo \<le> unat b \<and> unat b + s \<le> unat (heap_brk h') \<and> unat (bsize h' b) = s \<and>
        {unat b..<unat b + s} \<inter> cells fl' = {} \<and>
        {unat b..<unat b + s} \<union> cells fl' = cells fl \<union> {unat (heap_brk h)..<unat (heap_brk h')}) \<and>
     (\<forall>x. unat x \<notin> cells fl \<and> unat x \<notin> {unat (heap_brk h)..<unat (heap_brk h')} \<longrightarrow> bytes h' x = bytes h x)"

lemma heap_ok_top: "heap_ok lo h fl \<Longrightarrow> unat (heap_brk h) \<le> 8384512"
  by (simp add: heap_ok_def USER_STACK_def word_le_nat_alt)

lemma cells_split_block:
  "n \<le> s \<Longrightarrow> s' = (if n + 16 \<le> s then n else s) \<Longrightarrow> {a..<a + s'} \<union> cells (split_block n a s) = {a..<a + s}"
  by (auto simp: split_block_def)

lemma split_block_cells_disjoint:
  "s' = (if n + 16 \<le> s then n else s) \<Longrightarrow> {a..<a + s'} \<inter> cells (split_block n a s) = {}"
  by (auto simp: split_block_def)

lemma take_heap_ok:
  assumes ok: "heap_ok lo h (fl1 @ (a, s) # fl2)" and fit: "\<forall>(a, s)\<in>set fl1. s < unat need"
    and need: "8 \<le> unat need" "unat need \<le> s" "unat need \<le> 0x7FFFFFFF"
  obtains b fl' where "find_fit need 0 (freelist h) h = Some (Some (last_ptr fl1, b))"
    "taken lo (unat need) h (fl1 @ (a, s) # fl2) b (take_block need (last_ptr fl1) b h) fl'"
proof -
  let ?fl = "fl1 @ (a, s) # fl2" and ?hi = "unat (heap_brk h)"
  have ch: "chain h (freelist h) ?fl" and sp: "sep lo ?hi ?fl" and lo: "0 < lo" using ok by (simp_all add: heap_ok_def)
  have hi: "?hi < 4294967296" using heap_ok_top [OF ok] by simp
  obtain b where b: "find_fit need 0 (freelist h) h = Some (Some (last_ptr fl1, b))" "unat b = a"
    "unat (bsize h b) = s" "chain h (bnext h b) fl2"
    by (rule find_fit_Some [OF ch fit need(2)])
  let ?h = "take_block need (last_ptr fl1) b h" and ?fl' = "fl1 @ split_block (unat need) a s @ fl2"
  have n16: "unat need + 16 < 4294967296" using need(3) by simp
  note t = take_block_spec [OF ch sp lo hi b(2-4) need(1,2) n16, unfolded Let_def]
  let ?s = "if unat need + 16 \<le> s then unat need else s"
  have parts: "lo \<le> a" "a + s \<le> ?hi" "sep (a + s) ?hi fl2" "sep lo a fl1" using sp by (simp_all add: sep_append)
  have "heap_ok lo ?h ?fl'" using t ok by (simp add: heap_ok_def)
  moreover have "unat need \<le> ?s" "?s < unat need + 16" "?s \<le> s" using need(2) by auto
  moreover have "unat (bsize ?h b) = ?s" using t by simp
  moreover have "{a..<a + ?s} \<inter> cells ?fl' = {}"
    using sep_cells [OF parts(3)] sep_cells [OF parts(4)] split_block_cells_disjoint [OF refl, of a "unat need" s] \<open>?s \<le> s\<close>
    by auto
  moreover have "{a..<a + ?s} \<union> cells ?fl' = cells ?fl"
    using cells_split_block [OF need(2) refl, of a] by auto
  moreover have "bytes ?h x = bytes h x" if "unat x \<notin> cells ?fl" for x using t that by simp
  moreover have "heap_brk ?h = heap_brk h" using t by simp
  ultimately have "taken lo (unat need) h ?fl b ?h ?fl'"
    using parts(1,2) b(2) unfolding taken_def by (intro conjI exI [of _ ?s]) (simp_all del: cells_simps)
  with b(1) show thesis by (rule that)
qed

lemma taken_grown:
  assumes "taken lo n h' (merge_before fl [(unat (heap_brk h), g)]) b h'' fl'"
    and "unat (heap_brk h') = unat (heap_brk h) + g"
    and "\<And>x. unat x \<notin> cells fl \<Longrightarrow> unat x \<notin> {unat (heap_brk h)..<unat (heap_brk h) + g} \<Longrightarrow> bytes h' x = bytes h x"
  shows "taken lo n h fl b h'' fl'"
proof -
  let ?B = "unat (heap_brk h)" and ?B' = "unat (heap_brk h')" and ?B'' = "unat (heap_brk h'')"
  from assms(1) have le: "?B' \<le> ?B''" by (simp add: taken_def word_le_nat_alt)
  have u: "cells fl \<union> {?B..<?B''} = cells (merge_before fl [(?B, g)]) \<union> {?B'..<?B''}"
    using le assms(2) by (auto simp: cells_merge_before)
  have "bytes h'' x = bytes h x" if "unat x \<notin> cells fl" "unat x \<notin> {?B..<?B''}" for x
  proof -
    have "bytes h'' x = bytes h' x"
      using assms(1) that le assms(2) unfolding taken_def by (auto simp: cells_merge_before)
    also have "\<dots> = bytes h x" using that le assms(2) by (intro assms(3)) auto
    finally show ?thesis .
  qed
  then show ?thesis using assms(1,2) u unfolding taken_def by (auto simp: word_le_nat_alt)
qed

lemma merged_fits:
  assumes "n \<le> g"
  obtains fl1 a s fl2 where "merge_before fl [(B, g)] = fl1 @ (a, s) # fl2" "\<forall>(a, s)\<in>set fl1. s < n" "n \<le> s"
proof -
  obtain a u where l: "last fl = (a, u)" by (cases "last fl")
  have "\<exists>(a, s)\<in>set (merge_before fl [(B, g)]). n \<le> s"
    using assms by (cases "fl = []"; cases "a + u = B") (auto simp: merge_before_single l)
  then have "\<not> (\<forall>(a, s)\<in>set (merge_before fl [(B, g)]). s < n)" by fastforce
  then show thesis using first_fit_split [of "merge_before fl [(B, g)]" n] that by metis
qed

lemma malloc_loop_spec:
  assumes ok: "heap_ok lo h fl" and need: "8 \<le> unat need" "unat need \<le> 0x7FFFFFFF"
  shows "\<exists>p h'. malloc_loop need h = Some (p, h') \<and>
    (if (\<forall>(a, s)\<in>set fl. s < unat need) \<and> unat USER_STACK < unat (heap_brk h) + grow need
     then p = 0 \<and> h' = h
     else \<exists>b fl'. p = b + BLOCK_HDR \<and> taken lo (unat need) h fl b h' fl')"
  using first_fit_split [of fl "unat need"]
proof (elim disjE exE conjE)
  fix fl1 a s fl2 assume fl: "fl = fl1 @ (a, s) # fl2" and f: "\<forall>(a, s)\<in>set fl1. s < unat need" "unat need \<le> s"
  obtain b fl' where "find_fit need 0 (freelist h) h = Some (Some (last_ptr fl1, b))"
    "taken lo (unat need) h fl b (take_block need (last_ptr fl1) b h) fl'"
    by (rule take_heap_ok [OF ok [unfolded fl] f(1) need(1) f(2) need(2), folded fl])
  moreover have "\<not> (\<forall>(a, s)\<in>set fl. s < unat need)" using fl f(2) by auto
  ultimately show ?thesis by (subst malloc_loop.simps) auto
next
  assume none: "\<forall>(a, s)\<in>set fl. s < unat need"
  have ch: "chain h (freelist h) fl" using ok by (simp add: heap_ok_def)
  have ff: "find_fit need 0 (freelist h) h = Some None" by (rule find_fit_None [OF ch none])
  show ?thesis
  proof (cases "unat (heap_brk h) + grow need \<le> unat USER_STACK")
    case False
    then have "morecore need h = Some (False, h)" by (intro morecore_fails [OF ok need(2)]) simp
    then show ?thesis using ff none False by (subst malloc_loop.simps) simp
  next
    case True
    let ?fl = "merge_before fl [(unat (heap_brk h), grow need)]"
    obtain h1 where h1: "morecore need h = Some (True, h1)" "heap_ok lo h1 ?fl"
      "unat (heap_brk h1) = unat (heap_brk h) + grow need"
      "\<And>x. unat x \<notin> cells fl \<Longrightarrow> unat x \<notin> {unat (heap_brk h)..<unat (heap_brk h) + grow need} \<Longrightarrow> bytes h1 x = bytes h x"
      by (rule morecore_grows [OF ok need(2) True]) blast
    obtain fl1 a s fl2 where fl: "?fl = fl1 @ (a, s) # fl2"
      and f: "\<forall>(a, s)\<in>set fl1. s < unat need" "unat need \<le> s" by (rule merged_fits [OF grow_ge(1) [of need]])
    obtain b fl' where b: "find_fit need 0 (freelist h1) h1 = Some (Some (last_ptr fl1, b))"
      "taken lo (unat need) h1 ?fl b (take_block need (last_ptr fl1) b h1) fl'"
      by (rule take_heap_ok [OF h1(2) [unfolded fl] f(1) need(1) f(2) need(2), folded fl])
    have "malloc_loop need h1 = Some (b + BLOCK_HDR, take_block need (last_ptr fl1) b h1)"
      using b(1) by (subst malloc_loop.simps) simp
    then have "malloc_loop need h = Some (b + BLOCK_HDR, take_block need (last_ptr fl1) b h1)"
      using ff h1(1) by (subst malloc_loop.simps) simp
    moreover have "taken lo (unat need) h fl b (take_block need (last_ptr fl1) b h1) fl'"
      by (rule taken_grown [OF b(2) h1(3,4)])
    ultimately show ?thesis using True by auto
  qed
qed

lemma unat_align8:
  assumes "unat n \<le> 0x7FFFFFF0"
  shows "unat (align8 n) = (unat n + 7) div 8 * 8"
proof -
  let ?x = "n + 7 :: u32"
  have x: "unat ?x = unat n + 7" using assms by (simp add: unat_add_no_wrap)
  have c: "(7 :: u32) = mask 3" by (simp add: mask_eq_exp_minus_1)
  have "?x AND NOT (mask 3) = push_bit 3 (drop_bit 3 ?x)" by (rule bit_eqI) (auto simp: bit_simps)
  then have "unat (?x AND NOT (mask 3)) = unat (push_bit 3 (drop_bit 3 ?x))" by simp
  also have "\<dots> = unat ?x div 8 * 8"
    using x assms
    by (simp only: push_bit_eq_mult unat_word_ariths unat_drop_bit_eq drop_bit_eq_div)
      (simp add: mod_less)
  finally show ?thesis unfolding x c [symmetric] by (simp add: align8_def MIN_ALIGN_def)
qed

lemma malloc_spec:
  assumes ok: "heap_ok lo h fl" and len: "unat len \<le> 0x7FFFFFF0" and n: "n = (unat len + 7) div 8 * 8 + 8"
  shows "\<exists>p h'. malloc st len h = Some (p, h') \<and>
    (p = 0 \<and> h' = h \<and> (\<forall>(a, s)\<in>set fl. s < n) \<and>
       unat USER_STACK < unat (heap_brk h) + (max n 4096 + 4095) div 4096 * 4096 \<or>
     (\<exists>b fl'. p = b + BLOCK_HDR \<and> taken lo n h fl b h' fl'))"
proof -
  have a: "unat (align8 len) + 8 = n" using unat_align8 [OF len] n by simp
  have "n \<le> 0x7FFFFFFF" using len n by simp
  then have w: "unat (align8 len + BLOCK_HDR) = n"
    using a by (simp add: BLOCK_HDR_def unat_add_no_wrap)
  have "malloc st len h = malloc_loop (align8 len + BLOCK_HDR) h"
    using ok by (simp add: malloc_def heap_ok_def)
  moreover have "8 \<le> unat (align8 len + BLOCK_HDR)" "unat (align8 len + BLOCK_HDR) \<le> 0x7FFFFFFF"
    using w n \<open>n \<le> 0x7FFFFFFF\<close> by simp_all
  ultimately show ?thesis using malloc_loop_spec [OF ok, of "align8 len + BLOCK_HDR"]
    unfolding grow_def w by (auto split: if_splits)
qed

text \<open>A block outside the free list has its place in it.\<close>

lemma sep_insert:
  assumes "sep lo hi fl" and "{b..<b + s} \<inter> cells fl = {}" and "8 \<le> s" and "lo \<le> b" and "b + s \<le> hi"
  shows "\<exists>fl1 fl2. fl = fl1 @ fl2 \<and> sep lo hi (fl1 @ (b, s) # fl2)"
  using assms(1,2,4)
proof (induction fl arbitrary: lo)
  case Nil
  then show ?case using assms(3,5) by simp
next
  case (Cons as fl)
  obtain a u where as: "as = (a, u)" by (cases as)
  have p: "lo \<le> a" "8 \<le> u" "a + u \<le> hi" "sep (a + u) hi fl" using Cons.prems(1) by (simp_all add: as)
  have dis: "{b..<b + s} \<inter> {a..<a + u} = {}" "{b..<b + s} \<inter> cells fl = {}" using Cons.prems(2) unfolding as cells_simps by blast+
  consider "a + u \<le> b" | "b + s \<le> a" | "max a b \<in> {b..<b + s} \<inter> {a..<a + u}"
    using p(2) assms(3) by (cases "a + u \<le> b"; cases "b + s \<le> a") auto
  then show ?case
  proof cases
    case 1
    then obtain fl1 fl2 where "fl = fl1 @ fl2 \<and> sep (a + u) hi (fl1 @ (b, s) # fl2)"
      using Cons.IH [OF p(4) dis(2)] by blast
    then show ?thesis using p by (intro exI [of _ "as # fl1"] exI [of _ fl2]) (simp add: as)
  next
    case 2
    then show ?thesis using p Cons.prems(3) assms(3,5)
      by (intro exI [of _ "[]"] exI [of _ "as # fl"]) (simp add: as)
  next
    case 3
    then show ?thesis using dis(1) by blast
  qed
qed

section \<open>Blocks in use\<close>

text \<open>A heap in which the program holds the blocks \<open>al\<close>, each given by its first address and its length.\<close>

definition live :: "nat \<Rightarrow> heap \<Rightarrow> blocks \<Rightarrow> (nat \<times> nat) set \<Rightarrow> bool" where
  "live lo h fl al \<longleftrightarrow> heap_ok lo h fl \<and>
     (\<forall>(a, s)\<in>al. lo \<le> a \<and> 8 \<le> s \<and> a + s \<le> unat (heap_brk h) \<and> unat (bsize h (of_nat a)) = s \<and>
        {a..<a + s} \<inter> cells fl = {}) \<and>
     (\<forall>(a, s)\<in>al. \<forall>(b, t)\<in>al. (a, s) \<noteq> (b, t) \<longrightarrow> {a..<a + s} \<inter> {b..<b + t} = {})"

lemma live_block:
  assumes "live lo h fl al" and "(a, s) \<in> al"
  shows "heap_ok lo h fl" "lo \<le> a" "8 \<le> s" "a + s \<le> unat (heap_brk h)" "unat (of_nat a :: u32) = a"
    "unat (bsize h (of_nat a)) = s" "{a..<a + s} \<inter> cells fl = {}" "a + s < 4294967296"
proof -
  show ok: "heap_ok lo h fl" and p: "lo \<le> a" "8 \<le> s" "a + s \<le> unat (heap_brk h)"
    "unat (bsize h (of_nat a)) = s" "{a..<a + s} \<inter> cells fl = {}"
    using assms unfolding live_def by auto
  show "a + s < 4294967296" using p heap_ok_top [OF ok] by simp
  then show "unat (of_nat a :: u32) = a" by (intro of_nat_unat_small) simp
qed

lemma live_disjoint:
  "live lo h fl al \<Longrightarrow> (a, s) \<in> al \<Longrightarrow> (b, t) \<in> al \<Longrightarrow> (a, s) \<noteq> (b, t) \<Longrightarrow> {a..<a + s} \<inter> {b..<b + t} = {}"
  unfolding live_def by blast

lemma liveI:
  assumes "heap_ok lo h fl"
    and "\<And>a s. (a, s) \<in> al \<Longrightarrow> lo \<le> a \<and> 8 \<le> s \<and> a + s \<le> unat (heap_brk h) \<and> unat (bsize h (of_nat a)) = s \<and>
        {a..<a + s} \<inter> cells fl = {}"
    and "\<And>a s b t. (a, s) \<in> al \<Longrightarrow> (b, t) \<in> al \<Longrightarrow> (a, s) \<noteq> (b, t) \<Longrightarrow> {a..<a + s} \<inter> {b..<b + t} = {}"
  shows "live lo h fl al"
proof -
  have "\<forall>(a, s)\<in>al. lo \<le> a \<and> 8 \<le> s \<and> a + s \<le> unat (heap_brk h) \<and> unat (bsize h (of_nat a)) = s \<and>
      {a..<a + s} \<inter> cells fl = {}" using assms(2) by fast
  moreover have "\<forall>(a, s)\<in>al. \<forall>(b, t)\<in>al. (a, s) \<noteq> (b, t) \<longrightarrow> {a..<a + s} \<inter> {b..<b + t} = {}"
    using assms(3) by fast
  ultimately show ?thesis unfolding live_def using assms(1) by blast
qed

text \<open>A change of the heap that leaves the bytes of a held block alone keeps it.\<close>

lemma live_header:
  assumes "live lo h fl al" and "(a, s) \<in> al" and "\<And>x. unat x \<in> {a..<a + 8} \<Longrightarrow> bytes h' x = bytes h x"
  shows "unat (bsize h' (of_nat a)) = s"
proof -
  note b = live_block [OF assms(1,2)]
  have "bsize h' (of_nat a) = bsize h (of_nat a)"
    using b by (intro header_cong(1) assms(3)) auto
  with b(6) show ?thesis by simp
qed

lemma live_malloc:
  assumes lv: "live lo h fl al" and tk: "taken lo n h fl b h' fl'" and n: "8 \<le> n"
  shows "live lo h' fl' (insert (unat b, unat (bsize h' b)) al)"
    and "\<And>a s x. (a, s) \<in> al \<Longrightarrow> unat x \<in> {a..<a + s} \<Longrightarrow> bytes h' x = bytes h x"
proof -
  let ?s = "unat (bsize h' b)" and ?B = "unat (heap_brk h)" and ?B' = "unat (heap_brk h')"
  from tk have t: "heap_ok lo h' fl'" "?B \<le> ?B'" "n \<le> ?s" "lo \<le> unat b" "unat b + ?s \<le> ?B'"
    "{unat b..<unat b + ?s} \<inter> cells fl' = {}"
    "{unat b..<unat b + ?s} \<union> cells fl' = cells fl \<union> {?B..<?B'}"
    and fr: "\<And>x. unat x \<notin> cells fl \<Longrightarrow> unat x \<notin> {?B..<?B'} \<Longrightarrow> bytes h' x = bytes h x"
    unfolding taken_def word_le_nat_alt by auto
  have out: "{a..<a + s} \<inter> (cells fl \<union> {?B..<?B'}) = {}" if "(a, s) \<in> al" for a s
    using live_block(4,7) [OF lv that] by auto
  then have out': "{a..<a + s} \<inter> {unat b..<unat b + ?s} = {}" "{a..<a + s} \<inter> cells fl' = {}" if "(a, s) \<in> al" for a s
    using that t(7) by blast+
  show keep: "bytes h' x = bytes h x" if "(a, s) \<in> al" "unat x \<in> {a..<a + s}" for a s x
    using out [OF that(1)] that(2) by (intro fr) blast+
  have hd: "unat (bsize h' (of_nat a)) = s" if "(a, s) \<in> al" for a s
    using live_block(3) [OF lv that] by (intro live_header [OF lv that] keep [OF that]) auto
  have old: "lo \<le> a \<and> 8 \<le> s \<and> a + s \<le> ?B' \<and> unat (bsize h' (of_nat a)) = s \<and> {a..<a + s} \<inter> cells fl' = {}"
    if "(a, s) \<in> al" for a s
    using live_block(2-4) [OF lv that] hd [OF that] out'(2) [OF that] t(2) by simp
  have dis: "{a..<a + s} \<inter> {c..<c + u} = {}"
    if "(a, s) \<in> insert (unat b, ?s) al" "(c, u) \<in> insert (unat b, ?s) al" "(a, s) \<noteq> (c, u)" for a s c u
    using that live_disjoint [OF lv, of a s c u] out'(1) by blast
  show "live lo h' fl' (insert (unat b, ?s) al)"
  proof (rule liveI [OF t(1) _ dis])
    fix a s assume "(a, s) \<in> insert (unat b, ?s) al"
    then consider "a = unat b" "s = ?s" | "(a, s) \<in> al" by blast
    then show "lo \<le> a \<and> 8 \<le> s \<and> a + s \<le> ?B' \<and> unat (bsize h' (of_nat a)) = s \<and> {a..<a + s} \<inter> cells fl' = {}"
      by cases (use t n old in simp_all)
  qed
qed

lemma merged_keeps:
  "\<exists>(c, u)\<in>set (merge_before fl1 (merge_after b s fl2)). s \<le> u"
proof -
  have "\<exists>n r. merge_after b s fl2 = (b, n) # r \<and> s \<le> n"
    by (cases fl2) (auto simp: merge_after_def)
  then obtain n r where m: "merge_after b s fl2 = (b, n) # r" "s \<le> n" by blast
  show ?thesis
  proof (cases "fl1 = []")
    case True
    then show ?thesis using m by (auto simp: merge_before_def)
  next
    case False
    obtain fl a u where l: "fl1 = fl @ [(a, u)]" using False by (metis prod.exhaust rev_exhaust)
    with m show ?thesis by (cases "a + u = b") (auto simp: merge_before_def)
  qed
qed

lemma live_free:
  assumes lv: "live lo h fl al" and b: "(a, s) \<in> al"
  obtains h' fl' where "free (of_nat a + BLOCK_HDR) h = Some h'" "live lo h' fl' (al - {(a, s)})"
    "cells fl' = cells fl \<union> {a..<a + s}"
    "\<exists>(c, u)\<in>set fl'. s \<le> u"
    "\<And>c u x. (c, u) \<in> al - {(a, s)} \<Longrightarrow> unat x \<in> {c..<c + u} \<Longrightarrow> bytes h' x = bytes h x"
proof -
  note blk = live_block [OF lv b]
  have ok: "heap_ok lo h fl" by (rule blk(1))
  let ?B = "unat (heap_brk h)"
  from sep_insert [OF _ blk(7,3,2,4)] ok obtain fl1 fl2 where fl: "fl = fl1 @ fl2" "sep lo ?B (fl1 @ (a, s) # fl2)"
    unfolding heap_ok_def by blast
  have ch: "chain h (freelist h) (fl1 @ fl2)" and lo: "0 < lo" using ok fl(1) by (simp_all add: heap_ok_def)
  have hi: "?B < 4294967296" using heap_ok_top [OF ok] by simp
  let ?fl = "merge_before fl1 (merge_after a s fl2)"
  from free_spec [OF ch fl(2) lo hi blk(5,6)] obtain h' where
    h': "free (of_nat a + BLOCK_HDR) h = Some h'" "chain h' (freelist h') ?fl" "sep lo ?B ?fl"
      "heap_brk h' = heap_brk h" "heap_state h' = heap_state h" "kern h' = kern h"
    and fr: "\<And>x. unat x \<notin> cells fl \<Longrightarrow> unat x \<notin> {a..<a + s} \<Longrightarrow> bytes h' x = bytes h x"
    unfolding fl(1) by blast
  have cl: "cells ?fl = cells fl \<union> {a..<a + s}"
    by (auto simp: cells_merge_before cells_merge_after fl(1))
  have keep: "bytes h' x = bytes h x" if "(c, u) \<in> al - {(a, s)}" "unat x \<in> {c..<c + u}" for c u x
    using that live_block(7) [OF lv, of c u] live_disjoint [OF lv, of c u a s] b by (intro fr) blast+
  have "heap_ok lo h' ?fl" using ok h' by (simp add: heap_ok_def)
  then have "live lo h' ?fl (al - {(a, s)})"
  proof (rule liveI)
    fix c u assume c: "(c, u) \<in> al - {(a, s)}"
    then have c': "(c, u) \<in> al" "(c, u) \<noteq> (a, s)" by simp_all
    have "{c..<c + u} \<inter> cells ?fl = {}"
      unfolding cl using live_block(7) [OF lv c'(1)] live_disjoint [OF lv c'(1) b c'(2)] by blast
    moreover have "unat (bsize h' (of_nat c)) = u"
      using live_block(3) [OF lv c'(1)] by (intro live_header [OF lv c'(1)] keep [OF c]) auto
    ultimately show "lo \<le> c \<and> 8 \<le> u \<and> c + u \<le> unat (heap_brk h') \<and> unat (bsize h' (of_nat c)) = u \<and> {c..<c + u} \<inter> cells ?fl = {}"
      using live_block(2-4) [OF lv c'(1)] h'(4) by simp
  next
    fix c u d v assume "(c, u) \<in> al - {(a, s)}" "(d, v) \<in> al - {(a, s)}" "(c, u) \<noteq> (d, v)"
    then show "{c..<c + u} \<inter> {d..<d + v} = {}" using live_disjoint [OF lv] by blast
  qed
  from that [OF h'(1) this cl merged_keeps keep] show thesis .
qed

text \<open>A write of the program into its own block.\<close>

lemma live_write:
  assumes lv: "live lo h fl al" and b: "(a, s) \<in> al" and x: "a + 8 \<le> unat x" "unat x < a + s"
  shows "live lo (h\<lparr>bytes := (bytes h)(x := v)\<rparr>) fl al"
proof -
  let ?h = "h\<lparr>bytes := (bytes h)(x := v)\<rparr>"
  note blk = live_block [OF lv b]
  have in_b: "unat x \<in> {a..<a + s}" using x by simp
  have "bytes ?h y = bytes h y" if "unat y \<in> cells fl" for y
  proof -
    have "y \<noteq> x" using that blk(7) in_b by blast
    then show ?thesis by simp
  qed
  then have "chain ?h (freelist h) fl"
  proof (rule chain_cong [rotated 3])
    show "chain h (freelist h) fl" "sep lo (unat (heap_brk h)) fl" using blk(1) by (simp_all add: heap_ok_def)
    show "unat (heap_brk h) \<le> 4294967296" using heap_ok_top [OF blk(1)] by simp
  qed
  then have "heap_ok lo ?h fl" using blk(1) by (simp add: heap_ok_def)
  then show ?thesis
  proof (rule liveI)
    fix c u assume c: "(c, u) \<in> al"
    have "bytes ?h y = bytes h y" if y: "unat y \<in> {c..<c + 8}" for y
    proof (cases "(c, u) = (a, s)")
      case True
      then have "y \<noteq> x" using y x(1) by auto
      then show ?thesis by simp
    next
      case False
      have "unat y \<in> {c..<c + u}" using y live_block(3) [OF lv c] by simp
      then have "y \<noteq> x" using live_disjoint [OF lv c b False] in_b by blast
      then show ?thesis by simp
    qed
    then have "unat (bsize ?h (of_nat c)) = u" by (rule live_header [OF lv c])
    then show "lo \<le> c \<and> 8 \<le> u \<and> c + u \<le> unat (heap_brk ?h) \<and> unat (bsize ?h (of_nat c)) = u \<and> {c..<c + u} \<inter> cells fl = {}"
      using live_block(2-4,7) [OF lv c] by simp
  next
    fix c u d w assume "(c, u) \<in> al" "(d, w) \<in> al" "(c, u) \<noteq> (d, w)"
    then show "{c..<c + u} \<inter> {d..<d + w} = {}" by (rule live_disjoint [OF lv])
  qed
qed

end
