(* ===== verification/HeapRun.thy ===== *)
theory HeapRun
  imports Heap
begin

text \<open>
Programs using the heap: the steps of a program that allocates, releases and writes, and what holds after any of them.
\<close>

section \<open>Programs that use the heap\<close>

text \<open>
  A program's calls, from the first one on: \<open>al\<close> holds the blocks it has been given and not released, each
  with its first address, header included, and its length. Between the calls it writes into its own blocks.
\<close>

inductive heap_run :: "u32 \<Rightarrow> heap \<Rightarrow> heap \<Rightarrow> (nat \<times> nat) set \<Rightarrow> bool" for st h0 where
  boot: "heap_state h0 = 0 \<Longrightarrow> h = heap_boot st h0 \<Longrightarrow> heap_state h = 1 \<Longrightarrow> heap_run st h0 h {}"
| alloc: "heap_run st h0 h al \<Longrightarrow> unat len \<le> 0x7FFFFFF0 \<Longrightarrow> malloc st len h = Some (p, h') \<Longrightarrow>
    al' = (if p = 0 then al else insert (unat (p - BLOCK_HDR), unat (bsize h' (p - BLOCK_HDR))) al) \<Longrightarrow>
    heap_run st h0 h' al'"
| release: "heap_run st h0 h al \<Longrightarrow> (a, s) \<in> al \<Longrightarrow> free (of_nat a + BLOCK_HDR) h = Some h' \<Longrightarrow>
    heap_run st h0 h' (al - {(a, s)})"
| store: "heap_run st h0 h al \<Longrightarrow> (a, s) \<in> al \<Longrightarrow> a + 8 \<le> unat x \<Longrightarrow> unat x < a + s \<Longrightarrow>
    heap_run st h0 (h\<lparr>bytes := (bytes h)(x := v)\<rparr>) al"

definition loaded :: "heap \<Rightarrow> bool" where
  "loaded h \<longleftrightarrow> freelist h = 0 \<and> USER_BASE \<le> brk (kern h) \<and> brk (kern h) \<le> USER_STACK"

lemma heap_boot_ok:
  assumes h: "loaded h" and ok: "heap_state (heap_boot st h) = 1"
  shows "heap_ok (unat (heap_brk (heap_boot st h))) (heap_boot st h) []"
proof -
  have b: "USER_BASE \<le> brk (kern h)" "brk (kern h) \<le> USER_STACK" using h by (simp_all add: loaded_def)
  let ?b = "brk (kern h)"
  have nz: "0 < unat v" if "USER_BASE \<le> v" for v using that by (simp add: USER_BASE_def word_le_nat_alt)
  show ?thesis
  proof (cases "st > ?b \<and> unat ?b + unat (st - ?b) \<le> unat USER_STACK")
    case True
    then have s: "vm_sbrk (st - ?b) (kern h) = (st, (kern h)\<lparr>brk := st\<rparr>)"
      using vm_sbrk_eq [OF b, of "st - ?b"] by simp
    have "unat ?b + unat (st - ?b) = unat st"
      using True by (subst unat_sub_no_wrap) (simp_all add: word_le_nat_alt word_less_nat_alt)
    then have "USER_BASE \<le> st" "st \<le> USER_STACK" using True b by (auto simp: word_le_nat_alt word_less_nat_alt)
    moreover have "heap_boot st h =
        h\<lparr>kern := (kern h)\<lparr>brk := st\<rparr>, heap_brk := st, heap_state := 1\<rparr>"
      using True not_le [of st ?b] by (simp add: heap_boot_def sys_sbrk_def s vm_sbrk_def [of 0])
    ultimately show ?thesis using h nz by (simp add: heap_ok_def loaded_def)
  next
    case False
    then have "vm_sbrk (st - ?b) (kern h) = (?b, kern h)" if "st > ?b"
      using that vm_sbrk_eq [OF b, of "st - ?b"] by simp
    then have "st > ?b \<Longrightarrow> heap_state (heap_boot st h) = -1"
      by (simp add: heap_boot_def sys_sbrk_def vm_sbrk_def [of 0])
    then have "\<not> st > ?b" using ok by auto
    then have "heap_boot st h = h\<lparr>heap_brk := ?b, heap_state := 1\<rparr>"
      by (simp add: heap_boot_def sys_sbrk_def vm_sbrk_def [of 0])
    then show ?thesis using h nz b by (simp add: heap_ok_def loaded_def)
  qed
qed

lemma taken_ptr:
  assumes "taken lo n h fl b h' fl'" and "8 \<le> n"
  shows "b + BLOCK_HDR \<noteq> 0" "b + BLOCK_HDR - BLOCK_HDR = b" "unat (b + BLOCK_HDR) = unat b + 8"
proof -
  from assms have ok: "heap_ok lo h' fl'" and le: "unat b + n \<le> unat (heap_brk h')" by (auto simp: taken_def)
  then show "unat (b + BLOCK_HDR) = unat b + 8"
    using heap_ok_top [OF ok] assms(2) by (simp add: BLOCK_HDR_def unat_add_no_wrap)
  then show "b + BLOCK_HDR \<noteq> 0" by auto
qed simp

lemma heap_run_live:
  assumes "heap_run st h0 h al" and "loaded h0"
  shows "\<exists>fl. live (unat (heap_brk (heap_boot st h0))) h fl al"
  using assms(1)
proof induction
  case (boot h)
  then have "heap_ok (unat (heap_brk (heap_boot st h0))) h []" using heap_boot_ok [OF assms(2)] by simp
  then show ?case by (auto intro: liveI)
next
  case (alloc h al len p h' al')
  then obtain fl where lv: "live (unat (heap_brk (heap_boot st h0))) h fl al" by blast
  then have ok: "heap_ok (unat (heap_brk (heap_boot st h0))) h fl" by (simp add: live_def)
  from malloc_spec [OF ok alloc.hyps(2) refl, of st] alloc.hyps(3) consider "p = 0" "h' = h"
    | b fl' where "p = b + BLOCK_HDR" "taken (unat (heap_brk (heap_boot st h0))) ((unat len + 7) div 8 * 8 + 8) h fl b h' fl'"
    by fastforce
  then show ?case
  proof cases
    case 1
    then show ?thesis using lv alloc.hyps(4) by auto
  next
    case 2
    have n: "8 \<le> (unat len + 7) div 8 * 8 + 8" by simp
    from live_malloc(1) [OF lv 2(2) n] taken_ptr(1,2) [OF 2(2) n] show ?thesis
      using alloc.hyps(4) 2(1) by auto
  qed
next
  case (release h al a s h')
  then obtain fl where lv: "live (unat (heap_brk (heap_boot st h0))) h fl al" by blast
  from live_free [OF lv release.hyps(2)] release.hyps(3) show ?case by (metis option.inject)
next
  case (store h al a s x v)
  then show ?case using live_write by blast
qed

text \<open>C21: Blocks never overlap. Whatever a program does with malloc, free and its own blocks, the blocks it
  holds lie above the image and below the stack, no two of them share a byte, headers included, and the
  length in every header is still the block's.\<close>

theorem heap_blocks_apart:
  assumes "heap_run st h0 h al" and "loaded h0" and "(a, s) \<in> al" and "(b, t) \<in> al"
  shows "((a, s) = (b, t) \<or> {a..<a + s} \<inter> {b..<b + t} = {}) \<and> unat (heap_brk (heap_boot st h0)) \<le> a \<and>
    a + s \<le> unat USER_STACK \<and> unat (bsize h (of_nat a)) = s"
proof (intro conjI)
  from heap_run_live [OF assms(1,2)] obtain fl where lv: "live (unat (heap_brk (heap_boot st h0))) h fl al" by blast
  show "(a, s) = (b, t) \<or> {a..<a + s} \<inter> {b..<b + t} = {}" using live_disjoint [OF lv assms(3,4)] by blast
  note blk = live_block [OF lv assms(3)]
  show "unat (heap_brk (heap_boot st h0)) \<le> a" "unat (bsize h (of_nat a)) = s" by (rule blk(2), rule blk(6))
  show "a + s \<le> unat USER_STACK" using blk(1,4) by (simp add: heap_ok_def word_le_nat_alt)
qed

lemma malloc_run_spec:
  assumes "heap_run st h0 h al" and "loaded h0" and "unat len \<le> 0x7FFFFFF0"
  shows "\<exists>p h'. malloc st len h = Some (p, h') \<and>
    (p = 0 \<longrightarrow> h' = h \<and> unat USER_STACK < unat (heap_brk h) + (max ((unat len + 7) div 8 * 8 + 8) 4096 + 4095) div 4096 * 4096) \<and>
    (p \<noteq> 0 \<longrightarrow> unat p + unat len \<le> unat USER_STACK \<and>
       (\<forall>(a, s)\<in>al. {unat p - 8..<unat p + unat len} \<inter> {a..<a + s} = {}) \<and>
       (\<forall>(a, s)\<in>al. \<forall>x. unat x \<in> {a..<a + s} \<longrightarrow> bytes h' x = bytes h x))"
proof -
  let ?lo = "unat (heap_brk (heap_boot st h0))" and ?n = "(unat len + 7) div 8 * 8 + 8"
  from heap_run_live [OF assms(1,2)] obtain fl where lv: "live ?lo h fl al" by blast
  then have ok: "heap_ok ?lo h fl" by (simp add: live_def)
  from malloc_spec [OF ok assms(3) refl, of st] obtain p h' where m: "malloc st len h = Some (p, h')"
    and c: "(p = 0 \<and> h' = h \<and> unat USER_STACK < unat (heap_brk h) + (max ?n 4096 + 4095) div 4096 * 4096) \<or>
      (\<exists>b fl'. p = b + BLOCK_HDR \<and> taken ?lo ?n h fl b h' fl')" by blast
  from c show ?thesis
  proof
    assume "p = 0 \<and> h' = h \<and> unat USER_STACK < unat (heap_brk h) + (max ?n 4096 + 4095) div 4096 * 4096"
    then show ?thesis using m by simp
  next
    assume "\<exists>b fl'. p = b + BLOCK_HDR \<and> taken ?lo ?n h fl b h' fl'"
    then obtain b fl' where b: "p = b + BLOCK_HDR" and tk: "taken ?lo ?n h fl b h' fl'" by blast
    have n: "8 \<le> ?n" by simp
    note p = taken_ptr [OF tk n, folded b]
    from tk obtain s where s: "?n \<le> s" "unat b + s \<le> unat (heap_brk h')" "heap_brk h' \<le> USER_STACK"
      "{unat b..<unat b + s} \<union> cells fl' = cells fl \<union> {unat (heap_brk h)..<unat (heap_brk h')}"
      unfolding taken_def heap_ok_def by blast
    have len: "unat len + 8 \<le> s" using s(1) by simp
    then have sub: "{unat p - 8..<unat p + unat len} \<subseteq> cells fl \<union> {unat (heap_brk h)..<unat (heap_brk h')}"
      unfolding s(4) [symmetric] p(3) by auto
    have "{unat p - 8..<unat p + unat len} \<inter> {a..<a + u} = {}" if "(a, u) \<in> al" for a u
    proof -
      have "{a..<a + u} \<inter> (cells fl \<union> {unat (heap_brk h)..<unat (heap_brk h')}) = {}"
        using live_block(4,7) [OF lv that] by auto
      with sub show ?thesis by blast
    qed
    moreover have "unat p + unat len \<le> unat USER_STACK" using p(3) len s(2,3) by (simp add: word_le_nat_alt)
    moreover note live_malloc(2) [OF lv tk n]
    ultimately show ?thesis using m p(1) by (intro exI [of _ p] exI [of _ h']) blast
  qed
qed

text \<open>C22: malloc of at most 0x7FFFFFF0 bytes (2 GB less 16) returns, after any calls made before. A pointer it returns
  starts \<open>len\<close> bytes that no held block has, the held blocks keep their contents, and it returns NULL, changing
  nothing, only when the break cannot grow by the request rounded up to whole pages. Larger requests are outside
  this property: near 4 GB the rounding of libc.c (62, 100) wraps, and malloc loops or returns a block with no
  payload (malloc_wraps below shows the second).\<close>

theorem malloc_fresh:
  assumes "heap_run st h0 h al" and "loaded h0" and "unat len \<le> 0x7FFFFFF0"
  shows "\<exists>p h'. malloc st len h = Some (p, h') \<and>
    (p = 0 \<longrightarrow> h' = h \<and> unat USER_STACK < unat (heap_brk h) + (max ((unat len + 7) div 8 * 8 + 8) 4096 + 4095) div 4096 * 4096) \<and>
    (p \<noteq> 0 \<longrightarrow> unat p + unat len \<le> unat USER_STACK \<and>
       (\<forall>(a, s)\<in>al. {unat p - 8..<unat p + unat len} \<inter> {a..<a + s} = {}) \<and>
       (\<forall>(a, s)\<in>al. \<forall>x. unat x \<in> {a..<a + s} \<longrightarrow> bytes h' x = bytes h x))"
  by (rule malloc_run_spec [OF assms])

text \<open>Free of a held block always returns, and leaves every other held block's contents and the break
  alone. The released bytes can be had again: the next request that fits the block succeeds, even when
  the break can grow no more.\<close>

theorem free_returns:
  assumes "heap_run st h0 h al" and "loaded h0" and "(a, s) \<in> al" and "(unat len + 7) div 8 * 8 + 8 \<le> s"
  shows "\<exists>h' p h''. free (of_nat a + BLOCK_HDR) h = Some h' \<and> heap_run st h0 h' (al - {(a, s)}) \<and>
    (\<forall>(b, t)\<in>al - {(a, s)}. \<forall>x. unat x \<in> {b..<b + t} \<longrightarrow> bytes h' x = bytes h x) \<and>
    malloc st len h' = Some (p, h'') \<and> p \<noteq> 0"
proof -
  let ?lo = "unat (heap_brk (heap_boot st h0))"
  from heap_run_live [OF assms(1,2)] obtain fl where lv: "live ?lo h fl al" by blast
  note blk = live_block [OF lv assms(3)]
  obtain h' fl' where f: "free (of_nat a + BLOCK_HDR) h = Some h'" "live ?lo h' fl' (al - {(a, s)})"
    "\<exists>(c, u)\<in>set fl'. s \<le> u"
    "\<And>c u x. (c, u) \<in> al - {(a, s)} \<Longrightarrow> unat x \<in> {c..<c + u} \<Longrightarrow> bytes h' x = bytes h x"
    by (rule live_free [OF lv assms(3)]) blast
  have ok: "heap_ok ?lo h' fl'" using f(2) by (simp add: live_def)
  have "s \<le> 8384512" using blk(4) heap_ok_top [OF blk(1)] by simp
  then have len: "unat len \<le> 0x7FFFFFF0" using assms(4) by simp
  have big: "\<not> (\<forall>(a, u)\<in>set fl'. u < (unat len + 7) div 8 * 8 + 8)" using f(3) assms(4) by fastforce
  from malloc_spec [OF ok len refl, of st] obtain p h'' where m: "malloc st len h' = Some (p, h'')"
    and c: "(p = 0 \<and> h'' = h' \<and> (\<forall>(a, u)\<in>set fl'. u < (unat len + 7) div 8 * 8 + 8)) \<or>
      (\<exists>b fl''. p = b + BLOCK_HDR \<and> taken ?lo ((unat len + 7) div 8 * 8 + 8) h' fl' b h'' fl'')" by blast
  from c big obtain b fl'' where b: "p = b + BLOCK_HDR"
    "taken ?lo ((unat len + 7) div 8 * 8 + 8) h' fl' b h'' fl''" by blast
  have "p \<noteq> 0" unfolding b(1) by (rule taken_ptr(1) [OF b(2)]) simp
  moreover have "heap_run st h0 h' (al - {(a, s)})" by (rule heap_run.release [OF assms(1,3) f(1)])
  moreover have "\<forall>(b, t)\<in>al - {(a, s)}. \<forall>x. unat x \<in> {b..<b + t} \<longrightarrow> bytes h' x = bytes h x"
    by (intro ballI, clarify, rule f(4)) simp_all
  ultimately show ?thesis using f(1) m by (intro exI conjI)
qed

text \<open>The rounding of malloc wraps: a request of the last seven sizes below 2 to the 32 is served as
  one of nothing, and a pointer to no bytes at all comes back for four gigabytes.\<close>

theorem malloc_wraps:
  assumes "0xFFFFFFF9 \<le> len"
  shows "malloc st len h = malloc st 0 h"
proof -
  have "4294967289 \<le> unat len" using assms by (simp add: word_le_nat_alt)
  then obtain k where k: "unat len = 4294967289 + k" using le_Suc_ex by blast
  then have "k < 7" using unat_u32_lt [of len] by linarith
  have "unat (len + 7) = (unat len + 7) mod 4294967296" by (simp add: unat_word_ariths)
  also have "\<dots> = k" using \<open>k < 7\<close> by (simp add: k)
  finally have "unat (len + 7) < unat (8 :: u32)" using \<open>k < 7\<close> by simp
  then have "len + 7 < 8" by (simp only: word_less_nat_alt)
  moreover have "x AND NOT 7 = 0" if "x < 8" for x :: u32
  proof -
    have m: "(7 :: u32) = mask 3" by (simp add: mask_eq_exp_minus_1)
    have "x = take_bit 3 x" using that by (simp add: word_less_nat_alt take_bit_eq_mod word_unat_eq_iff unat_mod)
    then have "x AND mask 3 = x" by (simp add: take_bit_eq_mask)
    then have "x AND NOT (mask 3) = (x AND mask 3) AND NOT (mask 3)" by (rule arg_cong [OF sym])
    also have "\<dots> = 0" by (simp add: and.assoc)
    finally show ?thesis unfolding m .
  qed
  ultimately have "(len + 7) AND NOT 7 = 0" by blast
  moreover have "(0 + 7) AND NOT (7 :: u32) = 0" by simp
  ultimately have "align8 len = align8 0" by (simp add: align8_def MIN_ALIGN_def)
  then show ?thesis by (simp only: malloc_def)
qed

text \<open>Calloc refuses a product that does not fit 32 bits, and what it returns is zeroed, as far as the
  product reaches, with the held blocks unchanged.\<close>

theorem calloc_zeroes:
  assumes "heap_run st h0 h al" and "loaded h0" and "count \<noteq> 0" and "unat (count * len) \<le> 0x7FFFFFF0"
  shows "\<exists>p h'. calloc st count len h = Some (p, h') \<and>
    (unat count * unat len \<ge> 2 ^ 32 \<longrightarrow> p = 0 \<and> h' = h) \<and>
    (p \<noteq> 0 \<longrightarrow> (\<forall>i < unat count * unat len. bytes h' (p + of_nat i) = 0) \<and>
      (\<forall>(a, s)\<in>al. \<forall>x. unat x \<in> {a..<a + s} \<longrightarrow> bytes h' x = bytes h x))"
proof -
  let ?t = "count * len"
  have div_eq: "?t div count = len \<longleftrightarrow> unat count * unat len < 2 ^ 32"
  proof
    assume "unat count * unat len < 2 ^ 32"
    then have "unat ?t = unat count * unat len" by (simp add: unat_word_ariths)
    then have "unat (?t div count) = unat len" using assms(3) by (simp add: unat_div word_unat_eq_iff)
    then show "?t div count = len" by (simp add: word_unat_eq_iff)
  next
    assume e: "?t div count = len"
    have "unat (?t div count) * unat count \<le> unat ?t" by (simp add: unat_div)
    then have "unat len * unat count \<le> unat ?t" using e by simp
    then have "unat len * unat count < 4294967296" using unat_u32_lt by (rule le_less_trans)
    then show "unat count * unat len < 2 ^ 32" by (simp add: mult.commute)
  qed
  show ?thesis
  proof (cases "unat count * unat len < 2 ^ 32")
    case False
    then show ?thesis using div_eq assms(3) by (auto simp: calloc_def)
  next
    case True
    then have t: "unat ?t = unat count * unat len" by (simp add: unat_word_ariths)
    from malloc_run_spec [OF assms(1,2,4)] obtain p h' where m: "malloc st ?t h = Some (p, h')"
      and p: "p \<noteq> 0 \<Longrightarrow> unat p + unat ?t \<le> unat USER_STACK"
      and apart: "\<And>a s. p \<noteq> 0 \<Longrightarrow> (a, s) \<in> al \<Longrightarrow> {unat p - 8..<unat p + unat ?t} \<inter> {a..<a + s} = {}"
      and keep: "\<And>a s x. p \<noteq> 0 \<Longrightarrow> (a, s) \<in> al \<Longrightarrow> unat x \<in> {a..<a + s} \<Longrightarrow> bytes h' x = bytes h x"
      by blast
    have nd: "\<not> ?t div count \<noteq> len" using div_eq True by simp
    show ?thesis
    proof (cases "p = 0")
      case True
      then have "calloc st count len h = Some (0, h')" using m nd by (simp add: calloc_def Let_def)
      with \<open>unat count * unat len < 2 ^ 32\<close> show ?thesis by simp
    next
      case False
      let ?h = "fill_bytes p 0 ?t h'"
      have c: "calloc st count len h = Some (p, ?h)" using m nd False by (simp add: calloc_def Let_def)
      have z: "bytes ?h (p + of_nat i) = 0" if "i < unat count * unat len" for i
      proof -
        have "unat (of_nat i :: u32) = i" using that True by (intro of_nat_unat_small) simp
        then have "of_nat i < ?t" using that t by (simp add: word_less_nat_alt)
        then show ?thesis by (simp add: fill_bytes_def)
      qed
      have k: "bytes ?h x = bytes h x" if "(a, s) \<in> al" "unat x \<in> {a..<a + s}" for a s x
      proof -
        have "\<not> x - p < ?t"
        proof
          assume "x - p < ?t"
          then have lt: "unat (x - p) < unat ?t" by (simp add: word_less_nat_alt)
          have "unat (p + (x - p)) = unat p + unat (x - p)"
            using p [OF False] lt by (intro unat_add_no_wrap) (simp add: USER_STACK_def)
          then have "unat x = unat p + unat (x - p)" by simp
          then have "unat x \<in> {unat p - 8..<unat p + unat ?t}" using lt by simp
          with apart [OF False that(1)] that(2) show False by blast
        qed
        then show ?thesis using keep [OF False that] by (simp add: fill_bytes_def)
      qed
      from c z k False \<open>unat count * unat len < 2 ^ 32\<close> show ?thesis by auto
    qed
  qed
qed

section \<open>A concrete program\<close>

definition tiny_heap :: heap where
  "tiny_heap = \<lparr>bytes = (\<lambda>_. 0), freelist = 0, heap_brk = 0, heap_state = 0, kern = tiny\<lparr>brk := 0x400100\<rparr>\<rparr>"

lemma tiny_boot: "heap_boot 0x400200 tiny_heap =
    tiny_heap\<lparr>kern := tiny\<lparr>brk := 0x400200\<rparr>, heap_brk := 0x400200, heap_state := 1\<rparr>"
  by (simp add: heap_boot_def sys_sbrk_def vm_sbrk_def tiny_heap_def tiny_def USER_TOP_def USER_STACK_def)

lemma tiny_loaded: "loaded tiny_heap"
  by (simp add: loaded_def tiny_heap_def tiny_def USER_BASE_def USER_STACK_def)

lemma tiny_run: "heap_run 0x400200 tiny_heap (heap_boot 0x400200 tiny_heap) {}"
  by (rule heap_run.boot) (simp_all add: tiny_boot, simp add: tiny_heap_def)

lemma tiny_block:
  obtains p h where "malloc 0x400200 100 (heap_boot 0x400200 tiny_heap) = Some (p, h)" "p \<noteq> 0"
    "heap_run 0x400200 tiny_heap h {(unat (p - BLOCK_HDR), unat (bsize h (p - BLOCK_HDR)))}"
    "112 \<le> unat (bsize h (p - BLOCK_HDR))" "unat (of_nat (unat (p - BLOCK_HDR)) + BLOCK_HDR) = unat p"
proof -
  let ?h = "heap_boot 0x400200 tiny_heap"
  have ok: "heap_ok 0x400200 ?h []"
    using heap_boot_ok [where st = "0x400200", OF tiny_loaded] by (simp add: tiny_boot)
  have len: "unat (100 :: u32) \<le> 0x7FFFFFF0" by simp
  from malloc_spec [OF ok len refl, of "0x400200"] obtain b h fl where
    m: "malloc 0x400200 100 ?h = Some (b + BLOCK_HDR, h)" "taken 0x400200 112 ?h [] b h fl"
    by (auto simp: tiny_boot USER_STACK_def)
  note p = taken_ptr [OF m(2)]
  have "112 \<le> unat (bsize h b)" using m(2) by (auto simp: taken_def)
  moreover have "heap_run 0x400200 tiny_heap h {(unat b, unat (bsize h b))}"
    using heap_run.alloc [OF tiny_run len m(1) refl] p(1,2) by simp
  ultimately show thesis using m(1) p by (intro that [of "b + BLOCK_HDR" h]) simp_all
qed

lemma heap_blocks_apart_witness:
  "\<exists>h a s. heap_run 0x400200 tiny_heap h {(a, s)} \<and> 0x400200 \<le> a \<and> a + s \<le> 0x7FF000 \<and> unat (bsize h (of_nat a)) = s"
proof -
  obtain p h where "heap_run 0x400200 tiny_heap h {(unat (p - BLOCK_HDR), unat (bsize h (p - BLOCK_HDR)))}"
    by (rule tiny_block)
  note r = this
  from heap_blocks_apart [OF r tiny_loaded singletonI singletonI] r show ?thesis
    by (intro exI [of _ h] exI [of _ "unat (p - BLOCK_HDR)"] exI [of _ "unat (bsize h (p - BLOCK_HDR))"] conjI)
      (simp_all add: tiny_boot USER_STACK_def)
qed

lemma malloc_fresh_witness:
  "\<exists>p h. malloc 0x400200 100 (heap_boot 0x400200 tiny_heap) = Some (p, h) \<and> p \<noteq> 0 \<and> unat p + 100 \<le> 0x7FF000"
proof -
  have "unat (100 :: u32) \<le> 0x7FFFFFF0" by simp
  from malloc_fresh [OF tiny_run tiny_loaded this] show ?thesis
    by (auto simp: tiny_boot USER_STACK_def)
qed

lemma free_returns_witness:
  "\<exists>p h h' q h''. malloc 0x400200 100 (heap_boot 0x400200 tiny_heap) = Some (p, h) \<and>
    free (of_nat (unat (p - BLOCK_HDR)) + BLOCK_HDR) h = Some h' \<and> malloc 0x400200 104 h' = Some (q, h'') \<and> q \<noteq> 0"
proof -
  obtain p h where b: "malloc 0x400200 100 (heap_boot 0x400200 tiny_heap) = Some (p, h)"
    "heap_run 0x400200 tiny_heap h {(unat (p - BLOCK_HDR), unat (bsize h (p - BLOCK_HDR)))}"
    "112 \<le> unat (bsize h (p - BLOCK_HDR))" by (rule tiny_block)
  have "(unat (104 :: u32) + 7) div 8 * 8 + 8 \<le> unat (bsize h (p - BLOCK_HDR))" using b(3) by simp
  from free_returns [OF b(2) tiny_loaded singletonI this] b(1) show ?thesis by blast
qed

lemma malloc_wraps_witness: "malloc 0x400200 0xFFFFFFFF tiny_heap = malloc 0x400200 0 tiny_heap"
  by (rule malloc_wraps) simp

lemma calloc_zeroes_witness:
  "\<exists>p h. calloc 0x400200 3 5 (heap_boot 0x400200 tiny_heap) = Some (p, h) \<and> (p \<noteq> 0 \<longrightarrow> bytes h (p + 14) = 0)"
proof -
  have "unat (3 * 5 :: u32) \<le> 0x7FFFFFF0" by simp
  from calloc_zeroes [OF tiny_run tiny_loaded _ this] obtain p h where
    "calloc 0x400200 3 5 (heap_boot 0x400200 tiny_heap) = Some (p, h)"
    "p \<noteq> 0 \<longrightarrow> (\<forall>i < unat (3 :: u32) * unat (5 :: u32). bytes h (p + of_nat i) = 0)" by auto
  then show ?thesis by (intro exI [of _ p] exI [of _ h]) (auto dest!: spec [of _ 14])
qed

end
