(* ===== verification/Libc.thy ===== *)
theory Libc
  imports FsCalls
begin

text \<open>
home/lib/libc.c: qsort over an array of bytes, the strto* parsers over NUL-terminated strings (a returned
  end pointer is an offset), and the floating point routines over the operations of long double, which are
  a parameter: the x87 arithmetic is not modelled.
\<close>

section \<open>Sorting\<close>

definition abs_int :: "u32 \<Rightarrow> u32" where
  "abs_int n = (if sint n < 0 then - n else n)"

text \<open>The innermost loop of qsort: the bytes at \<open>x\<close> and \<open>y\<close> change places, one after the other.\<close>

fun swap_bytes :: "byte list \<Rightarrow> nat \<Rightarrow> nat \<Rightarrow> nat \<Rightarrow> nat \<Rightarrow> byte list option" where
  "swap_bytes a x y k 0 = Some a"
| "swap_bytes a x y k (Suc n) = do {
     t \<leftarrow> load a (x + k);
     u \<leftarrow> load a (y + k);
     a \<leftarrow> store a (x + k) u;
     a \<leftarrow> store a (y + k) t;
     swap_bytes a x y (Suc k) n }"

text \<open>The comparison function reads the two elements it is given.\<close>

type_synonym comparator = "byte list \<Rightarrow> byte list \<Rightarrow> int"

definition element :: "byte list \<Rightarrow> nat \<Rightarrow> nat \<Rightarrow> byte list option" where
  "element a x w = (if x + w \<le> length a then Some (take w (drop x a)) else None)"

fun sift :: "comparator \<Rightarrow> nat \<Rightarrow> nat \<Rightarrow> byte list \<Rightarrow> byte list option" where
  "sift cmp w 0 a = Some a"
| "sift cmp w (Suc j) a = do {
     let x = Suc j * w;
     let y = j * w;
     ex \<leftarrow> element a x w;
     ey \<leftarrow> element a y w;
     if cmp ex ey \<ge> 0 then Some a
     else do {
       a \<leftarrow> swap_bytes a x y 0 w;
       sift cmp w j a } }"

fun qsort_loop :: "comparator \<Rightarrow> nat \<Rightarrow> nat \<Rightarrow> nat \<Rightarrow> byte list \<Rightarrow> byte list option" where
  "qsort_loop cmp w i 0 a = Some a"
| "qsort_loop cmp w i (Suc k) a = do {
     a \<leftarrow> sift cmp w i a;
     qsort_loop cmp w (Suc i) k a }"

definition qsort :: "byte list \<Rightarrow> nat \<Rightarrow> nat \<Rightarrow> comparator \<Rightarrow> byte list option" where
  "qsort a n w cmp = qsort_loop cmp w 1 (n - 1) a"

section \<open>Numbers in strings\<close>

definition digit_value :: "int \<Rightarrow> int \<Rightarrow> int" where
  "digit_value c base =
     (let v = if 48 \<le> c \<and> c \<le> 57 then c - 48
              else if 97 \<le> c \<and> c \<le> 122 then c - 97 + 10
              else if 65 \<le> c \<and> c \<le> 90 then c - 65 + 10
              else -1
      in if v < 0 then -1 else if v < base then v else -1)"

definition is_space :: "int \<Rightarrow> bool" where
  "is_space c \<longleftrightarrow> c = 32 \<or> c = 9 \<or> c = 10 \<or> c = 13 \<or> c = 12 \<or> c = 11"

fun skip_space :: "byte list \<Rightarrow> nat option" where
  "skip_space [] = None"
| "skip_space (c # s) = (if is_space (uint c) then map_option Suc (skip_space s) else Some 0)"

text \<open>The optional sign at offset \<open>i\<close>.\<close>

definition read_sign :: "byte list \<Rightarrow> nat \<Rightarrow> (bool \<times> nat) option" where
  "read_sign s i = do {
     c \<leftarrow> load s i;
     Some (if c = 43 \<or> c = 45 then (c = 45, i + 1) else (False, i)) }"

definition hex_prefix :: "byte list \<Rightarrow> nat \<Rightarrow> bool option" where
  "hex_prefix s i = do {
     c \<leftarrow> load s i;
     if c \<noteq> 48 then Some False
     else do {
       d \<leftarrow> load s (i + 1);
       if d \<noteq> 120 \<and> d \<noteq> 88 then Some False
       else do { e \<leftarrow> load s (i + 2); Some (digit_value (sint e) 16 \<ge> 0) } } }"

definition read_base :: "byte list \<Rightarrow> nat \<Rightarrow> int \<Rightarrow> (int \<times> nat) option" where
  "read_base s i base = do {
     hex \<leftarrow> (if base = 0 \<or> base = 16 then hex_prefix s i else Some False);
     if hex then Some (16, i + 2)
     else if base = 0 then do { c \<leftarrow> load s i; Some (if c = 48 then 8 else 10, i) }
     else Some (base, i) }"

fun read_digits :: "int \<Rightarrow> byte list \<Rightarrow> 64 word \<Rightarrow> nat \<Rightarrow> (64 word \<times> nat) option" where
  "read_digits base [] acc k = None"
| "read_digits base (c # s) acc k =
     (let d = digit_value (uint c) base
      in if d \<ge> 0
         then read_digits base s (acc * ucast (of_int base :: u32) + ucast (of_int d :: u32)) (Suc k)
         else Some (acc, k))"

text \<open>The value and the offset stored through \<open>end\<close>.\<close>

definition strtoull :: "byte list \<Rightarrow> int \<Rightarrow> (64 word \<times> nat) option" where
  "strtoull s base = do {
     i \<leftarrow> skip_space s;
     (neg, i) \<leftarrow> read_sign s i;
     (base, i) \<leftarrow> read_base s i base;
     (acc, k) \<leftarrow> read_digits base (drop i s) 0 0;
     Some (if neg then - acc else acc, if k > 0 then i + k else 0) }"

definition strtoll :: "byte list \<Rightarrow> int \<Rightarrow> (64 word \<times> nat) option" where
  "strtoll s base = strtoull s base"

definition strtoul :: "byte list \<Rightarrow> int \<Rightarrow> (u32 \<times> nat) option" where
  "strtoul s base = map_option (map_prod ucast id) (strtoull s base)"

definition strtol :: "byte list \<Rightarrow> int \<Rightarrow> (u32 \<times> nat) option" where
  "strtol s base = map_option (map_prod ucast id) (strtoull s base)"

section \<open>Floating point\<close>

text \<open>The operations and constants of \<open>long double\<close> the code uses.\<close>

record 'f float_ops =
  f_int :: "int \<Rightarrow> 'f"
  f_half :: 'f
  f_tenth :: 'f
  f_add :: "'f \<Rightarrow> 'f \<Rightarrow> 'f"
  f_mul :: "'f \<Rightarrow> 'f \<Rightarrow> 'f"
  f_neg :: "'f \<Rightarrow> 'f"

function scale_loop :: "'f float_ops \<Rightarrow> nat \<Rightarrow> 'f \<Rightarrow> 'f \<Rightarrow> 'f" where
  "scale_loop F e p r =
     (if e = 0 then r
      else let r = (if odd e then f_mul F r p else r)
           in scale_loop F (e div 2) (if e div 2 \<noteq> 0 then f_mul F p p else p) r)"
  by pat_completeness auto
termination by (relation "measure (\<lambda>(F, e, p, r). e)") auto

declare scale_loop.simps [simp del]

definition ldexpl :: "'f float_ops \<Rightarrow> 'f \<Rightarrow> u32 \<Rightarrow> 'f" where
  "ldexpl F x e =
     (if sint e > 0 then scale_loop F (nat (sint e)) (f_int F 2) x
      else if sint e < 0 then scale_loop F (unat (- e)) (f_half F) x
      else x)"

text \<open>The loops over digits, before the point, after it, and in the exponent: \<open>s\<close> is what is left to read.\<close>

definition is_digit :: "byte \<Rightarrow> bool" where
  "is_digit c \<longleftrightarrow> 48 \<le> sint c \<and> sint c \<le> 57"

fun int_digits :: "'f float_ops \<Rightarrow> byte list \<Rightarrow> 'f \<Rightarrow> nat \<Rightarrow> ('f \<times> nat) option" where
  "int_digits F [] val k = None"
| "int_digits F (c # s) val k =
     (if is_digit c then int_digits F s (f_add F (f_mul F val (f_int F 10)) (f_int F (sint c - 48))) (Suc k)
      else Some (val, k))"

fun frac_digits :: "'f float_ops \<Rightarrow> byte list \<Rightarrow> 'f \<Rightarrow> 'f \<Rightarrow> nat \<Rightarrow> ('f \<times> nat) option" where
  "frac_digits F [] val sc k = None"
| "frac_digits F (c # s) val sc k =
     (if is_digit c
      then frac_digits F s (f_add F val (f_mul F (f_int F (sint c - 48)) sc)) (f_mul F sc (f_tenth F)) (Suc k)
      else Some (val, k))"

fun exp_digits :: "byte list \<Rightarrow> int \<Rightarrow> nat \<Rightarrow> (int \<times> nat) option" where
  "exp_digits [] ev k = None"
| "exp_digits (c # s) ev k =
     (if is_digit c then exp_digits s (if ev < 100000000 then ev * 10 + (sint c - 48) else ev) (Suc k)
      else Some (ev, k))"

definition strtold :: "'f float_ops \<Rightarrow> byte list \<Rightarrow> ('f \<times> nat) option" where
  "strtold F s = do {
     i \<leftarrow> skip_space s;
     (neg, i) \<leftarrow> read_sign s i;
     (val, k) \<leftarrow> int_digits F (drop i s) (f_int F 0) 0;
     let any = k > 0;
     let i = i + k;
     c \<leftarrow> load s i;
     (val, any, i) \<leftarrow>
       (if c = 46
        then do { (val, k) \<leftarrow> frac_digits F (drop (i + 1) s) val (f_tenth F) 0; Some (val, any \<or> k > 0, i + 1 + k) }
        else Some (val, any, i));
     c \<leftarrow> load s i;
     (val, i) \<leftarrow>
       (if any \<and> (c = 101 \<or> c = 69)
        then do {
          (eneg, j) \<leftarrow> read_sign s (i + 1);
          (ev, k) \<leftarrow> exp_digits (drop j s) 0 0;
          Some (if k > 0 then (ldexpl F val (of_int (if eneg then - ev else ev)), j + k) else (val, i)) }
        else Some (val, i));
     Some (if neg then f_neg F val else val, if any then i else 0) }"

end
