(* ===== verification/LibcSort.thy ===== *)
theory LibcSort
  imports Libc "HOL-Library.Multiset"
begin

text \<open>
qsort of home/lib/libc.c is a stable insertion sort: the comparison contract, the sort on lists, and the code on bytes.
\<close>

section \<open>qsort is an insertion sort\<close>

text \<open>Insertion from the right, on the reversed list.\<close>

fun put_rev :: "('a \<Rightarrow> 'a \<Rightarrow> int) \<Rightarrow> 'a \<Rightarrow> 'a list \<Rightarrow> 'a list" where
  "put_rev cmp x [] = [x]"
| "put_rev cmp x (y # r) = (if cmp x y \<ge> 0 then x # y # r else y # put_rev cmp x r)"

text \<open>The contract of a comparison function on the values it is used for.\<close>

locale comparison =
  fixes cmp :: "'a \<Rightarrow> 'a \<Rightarrow> int" and val :: "'a \<Rightarrow> bool"
  assumes swap: "val x \<Longrightarrow> val y \<Longrightarrow> cmp x y < 0 \<longleftrightarrow> 0 < cmp y x"
    and trans: "val x \<Longrightarrow> val y \<Longrightarrow> val z \<Longrightarrow> cmp x y \<le> 0 \<Longrightarrow> cmp y z \<le> 0 \<Longrightarrow> cmp x z \<le> 0"
begin

lemma not_less: "val x \<Longrightarrow> val y \<Longrightarrow> 0 \<le> cmp x y \<Longrightarrow> cmp y x \<le> 0"
  using swap [of x y] by linarith

lemma put_sorted:
  assumes "val x" and "\<forall>y\<in>set r. val y" and "sorted_wrt (\<lambda>a b. cmp b a \<le> 0) r"
  shows "sorted_wrt (\<lambda>a b. cmp b a \<le> 0) (put_rev cmp x r)"
  using assms(2,3)
proof (induction r)
  case (Cons y r)
  have y: "val y" "\<forall>z\<in>set r. val z" "\<forall>z\<in>set r. cmp z y \<le> 0" using Cons.prems by auto
  show ?case
  proof (cases "cmp x y \<ge> 0")
    case True
    then have "cmp y x \<le> 0" by (rule not_less [OF assms(1) y(1)])
    then have "\<forall>z\<in>set r. cmp z x \<le> 0" using y trans [OF _ y(1) assms(1)] by blast
    with True \<open>cmp y x \<le> 0\<close> Cons.prems show ?thesis by simp
  next
    case False
    have "set (put_rev cmp x r) = insert x (set r)" by (induction r) auto
    then show ?thesis using False y Cons by auto
  qed
qed simp

lemma equal_trans:
  assumes "val x" "val y" "val z" "cmp z x = 0" "cmp z y = 0"
  shows "0 \<le> cmp x y"
proof (rule ccontr)
  assume "\<not> 0 \<le> cmp x y"
  then have "0 < cmp y x" using swap [OF assms(1,2)] by simp
  have "cmp y z \<le> 0" using not_less [OF assms(3,2)] assms(5) by simp
  then have "cmp y x \<le> 0" by (rule trans [OF assms(2,3,1)]) (simp add: assms(4))
  with \<open>0 < cmp y x\<close> show False by simp
qed

lemma put_stable:
  assumes "val x" and "val z" and "\<forall>y\<in>set r. val y"
  shows "filter (\<lambda>y. cmp z y = 0) (put_rev cmp x r) = filter (\<lambda>y. cmp z y = 0) (x # r)"
  using assms(3)
proof (induction r)
  case (Cons y r)
  then show ?case using equal_trans [OF assms(1) _ assms(2), of y] by auto
qed simp

end

lemma set_put_rev [simp]: "set (put_rev cmp x r) = insert x (set r)"
  by (induction r) auto

lemma mset_put_rev [simp]: "mset (put_rev cmp x r) = add_mset x (mset r)"
  by (induction r) auto

text \<open>The fold over the elements, on the reversed list.\<close>

definition isort_rev :: "('a \<Rightarrow> 'a \<Rightarrow> int) \<Rightarrow> 'a list \<Rightarrow> 'a list \<Rightarrow> 'a list" where
  "isort_rev cmp r es = fold (put_rev cmp) es r"

context comparison
begin

lemma isort_rev_spec:
  assumes "\<forall>y\<in>set r. val y" and "\<forall>y\<in>set es. val y" and "sorted_wrt (\<lambda>a b. cmp b a \<le> 0) r"
  shows "sorted_wrt (\<lambda>a b. cmp b a \<le> 0) (isort_rev cmp r es)"
    and "val z \<Longrightarrow> filter (\<lambda>y. cmp z y = 0) (isort_rev cmp r es) = filter (\<lambda>y. cmp z y = 0) (rev es @ r)"
  using assms
proof (induction es arbitrary: r)
  case (Cons x es)
  { case 1
    then show ?case using Cons.IH(1) [of "put_rev cmp x r"] put_sorted [of x r] by (simp add: isort_rev_def)
  next
    case 2
    then show ?case using Cons.IH(2) [of "put_rev cmp x r"] put_sorted [of x r] put_stable [of x z r]
      by (simp add: isort_rev_def) }
qed (simp_all add: isort_rev_def)

end

lemma mset_isort_rev: "mset (isort_rev cmp r es) = mset r + mset es"
  by (induction es arbitrary: r) (auto simp: isort_rev_def)

section \<open>The code does it on bytes\<close>

lemma swap_bytes_mid:
  "length y1 = k \<Longrightarrow> length x1 = k \<Longrightarrow> length x2 = length y2 \<Longrightarrow>
    swap_bytes (p @ (x1 @ y2) @ (y1 @ x2) @ q) (length p + k + length y2) (length p) k (length y2) =
    Some (p @ (x1 @ x2) @ (y1 @ y2) @ q)"
proof (induction y2 arbitrary: k x1 y1 x2)
  case (Cons b y2)
  then obtain c x3 where x2: "x2 = c # x3" "length x3 = length y2" by (cases x2) auto
  let ?a = "p @ (x1 @ b # y2) @ (y1 @ c # x3) @ q"
  have la: "load ?a (length p + k + length (b # y2) + k) = Some c" "load ?a (length p + k) = Some b"
    using Cons.prems by (simp_all add: load_def nth_append)
  have s1: "store ?a (length p + k + length (b # y2) + k) b = Some (p @ (x1 @ b # y2) @ (y1 @ b # x3) @ q)"
    using Cons.prems by (simp add: store_def list_update_append)
  have s2: "store (p @ (x1 @ b # y2) @ (y1 @ b # x3) @ q) (length p + k) c =
      Some (p @ (x1 @ c # y2) @ (y1 @ b # x3) @ q)"
    using Cons.prems by (simp add: store_def list_update_append)
  have ih: "swap_bytes (p @ ((x1 @ [c]) @ y2) @ ((y1 @ [b]) @ x3) @ q) (length p + Suc k + length y2) (length p) (Suc k) (length y2) =
      Some (p @ ((x1 @ [c]) @ x3) @ ((y1 @ [b]) @ y2) @ q)"
    by (rule Cons.IH) (use Cons.prems x2 in simp_all)
  show ?case using la s1 s2 ih unfolding x2 by simp
qed simp

lemma swap_bytes_spec:
  "length x = w \<Longrightarrow> length y = w \<Longrightarrow> swap_bytes (p @ y @ x @ q) (length p + w) (length p) 0 w = Some (p @ x @ y @ q)"
  using swap_bytes_mid [of "[]" 0 "[]" x y p q] by simp

lemma length_concat_const: "\<forall>e\<in>set es. length e = w \<Longrightarrow> length (concat es) = length es * w"
  by (induction es) auto

lemma sift_spec:
  assumes "length x = w" and "\<forall>e\<in>set r. length e = w"
  shows "sift cmp w (length r) (concat (rev r) @ x @ q) = Some (concat (rev (put_rev cmp x r)) @ q)"
  using assms(2)
proof (induction r arbitrary: q)
  case (Cons y r)
  let ?p = "concat (rev r)"
  have p: "length ?p = length r * w" using length_concat_const [of "rev r" w] Cons.prems by simp
  have y: "length y = w" using Cons.prems by simp
  have e: "element (?p @ y @ x @ q) (Suc (length r) * w) w = Some x" "element (?p @ y @ x @ q) (length r * w) w = Some y"
    using p y assms(1) by (simp_all add: element_def)
  have s: "swap_bytes (?p @ y @ x @ q) (Suc (length r) * w) (length r * w) 0 w = Some (?p @ x @ y @ q)"
    using swap_bytes_spec [OF assms(1) y, of ?p q] unfolding p by (simp add: add.commute)
  show ?case using e s Cons.IH [of "y @ q"] Cons.prems by (simp add: Let_def)
qed simp

lemma length_put_rev [simp]: "length (put_rev cmp x r) = Suc (length r)"
  by (induction r) auto

lemma qsort_loop_spec:
  assumes "\<forall>e\<in>set es. length e = w" and "\<forall>e\<in>set r. length e = w"
  shows "qsort_loop cmp w (length r) (length es) (concat (rev r) @ concat es @ q) =
    Some (concat (rev (isort_rev cmp r es)) @ q)"
  using assms
proof (induction es arbitrary: r)
  case (Cons x es)
  have "sift cmp w (length r) (concat (rev r) @ x @ concat es @ q) = Some (concat (rev (put_rev cmp x r)) @ concat es @ q)"
    using Cons.prems by (intro sift_spec) simp_all
  then show ?case using Cons.IH [of "put_rev cmp x r"] Cons.prems by (simp add: isort_rev_def)
qed (simp add: isort_rev_def)

lemma qsort_eq:
  assumes "\<forall>e\<in>set es. length e = w"
  shows "qsort (concat es @ q) (length es) w cmp = Some (concat (rev (isort_rev cmp [] es)) @ q)"
proof (cases es)
  case Nil
  then show ?thesis by (simp add: qsort_def isort_rev_def)
next
  case (Cons x es')
  then show ?thesis using qsort_loop_spec [of es' w "[x]" cmp q] assms by (simp add: qsort_def isort_rev_def)
qed

text \<open>C18: qsort sorts. It stays inside the array of \<open>length es\<close> elements of \<open>w\<close> bytes, leaves the same
  elements, in ascending order, those that compare equal in the order they had, for every comparison that is
  a total preorder on the elements.\<close>

theorem qsort_sorts:
  assumes "\<forall>e\<in>set es. length e = w"
    and "\<And>x y. x \<in> set es \<Longrightarrow> y \<in> set es \<Longrightarrow> cmp x y < 0 \<longleftrightarrow> 0 < cmp y x"
    and "\<And>x y z. x \<in> set es \<Longrightarrow> y \<in> set es \<Longrightarrow> z \<in> set es \<Longrightarrow> cmp x y \<le> 0 \<Longrightarrow> cmp y z \<le> 0 \<Longrightarrow> cmp x z \<le> 0"
  shows "\<exists>fs. qsort (concat es @ q) (length es) w cmp = Some (concat fs @ q) \<and> mset fs = mset es \<and>
    sorted_wrt (\<lambda>x y. cmp x y \<le> 0) fs \<and>
    (\<forall>x\<in>set es. filter (\<lambda>y. cmp x y = 0) fs = filter (\<lambda>y. cmp x y = 0) es)"
proof -
  have c: "comparison cmp (\<lambda>x. x \<in> set es)" by unfold_locales (use assms(2,3) in blast)+
  note sp = comparison.isort_rev_spec [OF c, of "[]" es]
  have "sorted_wrt (\<lambda>x y. cmp x y \<le> 0) (rev (isort_rev cmp [] es))"
    using sp(1) by (simp add: sorted_wrt_rev)
  moreover have "filter (\<lambda>y. cmp x y = 0) (rev (isort_rev cmp [] es)) = filter (\<lambda>y. cmp x y = 0) es" if "x \<in> set es" for x
    using sp(2) [of x] that by (simp add: rev_filter [symmetric])
  ultimately show ?thesis using qsort_eq [OF assms(1), of q cmp]
    by (intro exI [of _ "rev (isort_rev cmp [] es)"]) (simp add: mset_isort_rev)
qed

text \<open>memcmp of the string library is such a comparison.\<close>

lemma memcmp_swap:
  "length x = n \<Longrightarrow> length y = n \<Longrightarrow> the (memcmp x y n) = - the (memcmp y x n)"
proof (induction n arbitrary: x y)
  case (Suc n)
  then obtain a x' b y' where x: "x = a # x'" "y = b # y'" "length x' = n" "length y' = n"
    by (auto simp: length_Suc_conv)
  note ih = Suc.IH [OF x(3,4)]
  show ?case by (cases "a = b") (simp_all add: x(1,2), rule ih)
qed simp

lemma memcmp_le_trans:
  "length x = n \<Longrightarrow> length y = n \<Longrightarrow> length z = n \<Longrightarrow>
    the (memcmp x y n) \<le> 0 \<Longrightarrow> the (memcmp y z n) \<le> 0 \<Longrightarrow> the (memcmp x z n) \<le> 0"
proof (induction n arbitrary: x y z)
  case (Suc n)
  obtain a x' where x: "x = a # x'" "length x' = n" using Suc.prems(1) by (auto simp: length_Suc_conv)
  obtain b y' where y: "y = b # y'" "length y' = n" using Suc.prems(2) by (auto simp: length_Suc_conv)
  obtain c z' where z: "z = c # z'" "length z' = n" using Suc.prems(3) by (auto simp: length_Suc_conv)
  show ?case
  proof (cases "a = b \<and> b = c")
    case True
    then show ?thesis using Suc.prems Suc.IH [OF x(2) y(2) z(2)] by (simp add: x y z)
  next
    case False
    have "uint a \<le> uint b" "uint b \<le> uint c" using Suc.prems(4,5) by (auto simp: x y z split: if_splits)
    moreover have "uint a \<noteq> uint b \<or> uint b \<noteq> uint c" using False by simp
    ultimately have "uint a < uint c" by linarith
    then show ?thesis by (auto simp: x z)
  qed
qed simp

interpretation memcmp: comparison "\<lambda>x y. the (memcmp x y n)" "\<lambda>x. length x = n" for n
proof unfold_locales
  fix x y z :: "byte list" assume l: "length x = n" "length y = n"
  show "the (memcmp x y n) < 0 \<longleftrightarrow> 0 < the (memcmp y x n)" using memcmp_swap [OF l] by linarith
  assume "length z = n" "the (memcmp x y n) \<le> 0" "the (memcmp y z n) \<le> 0"
  with l show "the (memcmp x z n) \<le> 0" by (rule memcmp_le_trans)
qed

lemma qsort_sorts_witness:
  "\<exists>fs. qsort ([3, 1, 2, 7, 2, 5] @ [9]) 3 2 (\<lambda>x y. the (memcmp x y 2)) = Some (concat fs @ [9]) \<and>
    mset fs = {#[3, 1], [2, 7], [2, 5]#} \<and> sorted_wrt (\<lambda>x y. the (memcmp x y 2) \<le> 0) fs"
proof -
  let ?es = "[[3, 1], [2, 7], [2, 5]] :: byte list list"
  have w: "\<forall>e\<in>set ?es. length e = 2" by simp
  have n: "length ?es = 3" "concat ?es = [3, 1, 2, 7, 2, 5]" by simp_all
  have "\<exists>fs. qsort (concat ?es @ [9]) (length ?es) 2 (\<lambda>x y. the (memcmp x y 2)) = Some (concat fs @ [9]) \<and>
      mset fs = mset ?es \<and> sorted_wrt (\<lambda>x y. the (memcmp x y 2) \<le> 0) fs \<and>
      (\<forall>x\<in>set ?es. filter (\<lambda>y. the (memcmp x y 2) = 0) fs = filter (\<lambda>y. the (memcmp x y 2) = 0) ?es)"
    by (rule qsort_sorts [OF w]) (use w memcmp.swap memcmp.trans in metis)+
  then obtain fs where "qsort (concat ?es @ [9]) (length ?es) 2 (\<lambda>x y. the (memcmp x y 2)) = Some (concat fs @ [9])"
    "mset fs = mset ?es" "sorted_wrt (\<lambda>x y. the (memcmp x y 2) \<le> 0) fs" by blast
  then show ?thesis unfolding n by (intro exI [of _ fs]) simp
qed

end
