(* ===== verification/LibcTime.thy ===== *)
theory LibcTime
  imports Libc "HOL-Library.Signed_Division"
begin

text \<open>
time and strftime of home/lib/libc.c, with the Gregorian calendar localtime is proved against.
\<close>

section \<open>Broken-down time\<close>

record tm =
  tm_sec :: int
  tm_min :: int
  tm_hour :: int
  tm_mday :: int
  tm_mon :: int
  tm_year :: int
  tm_wday :: int
  tm_yday :: int
  tm_isdst :: int

text \<open>The civil date of a day count since 1970-01-01: year less 1900, month from 0, day. The middle part
  is unsigned arithmetic in the code.\<close>

definition civil :: "int \<Rightarrow> int \<times> int \<times> int" where
  "civil days =
     (let z = days + 719468;
          era = (if z \<ge> 0 then z else z - 146096) sdiv 146097;
          doe = of_int (z - era * 146097) :: u32;
          yoe = (doe - doe div 1460 + doe div 36524 - doe div 146096) div 365;
          y = uint yoe + era * 400;
          doy = doe - (365 * yoe + yoe div 4 - yoe div 100);
          mp = (5 * doy + 2) div 153;
          d = doy - (153 * mp + 2) div 5 + 1;
          m = mp + (if mp < 10 then 3 else -9)
      in (y + (if m \<le> 2 then 1 else 0) - 1900, sint m - 1, sint d))"

definition localtime :: "u32 option \<Rightarrow> tm" where
  "localtime t =
     (let secs = (case t of None \<Rightarrow> 0 | Some w \<Rightarrow> sint w);
          days = secs sdiv 86400;
          rem = secs smod 86400;
          (rem, days) = (if rem < 0 then (rem + 86400, days - 1) else (rem, days));
          wday = (days + 4) smod 7;
          (y, m, d) = civil days
      in \<lparr>tm_sec = rem smod 60, tm_min = (rem smod 3600) sdiv 60, tm_hour = rem sdiv 3600,
          tm_mday = d, tm_mon = m, tm_year = y,
          tm_wday = (if wday < 0 then wday + 7 else wday), tm_yday = 0, tm_isdst = 0\<rparr>)"

definition gmtime :: "u32 option \<Rightarrow> tm" where
  "gmtime t = localtime t"

text \<open>time has no clock to read: it stores and returns the epoch.\<close>

definition time :: "u32 option \<Rightarrow> u32 \<times> u32 option" where
  "time t = (0, map_option (\<lambda>_. 0) t)"

text \<open>The copying loop of strftime: from \<open>q\<close> to \<open>s\<close> at \<open>n\<close>.\<close>

fun ins_loop :: "byte list \<Rightarrow> byte list \<Rightarrow> nat \<Rightarrow> nat \<Rightarrow> (byte list \<times> nat) option" where
  "ins_loop [] s n mx = None"
| "ins_loop (q # qs) s n mx =
     (if q \<noteq> 0 \<and> n + 1 < mx then do { s \<leftarrow> store s n q; ins_loop qs s (n + 1) mx } else Some (s, n))"

definition months :: "byte list list" where
  "months = map (\<lambda>s. asc s @ [0]) [''Jan'', ''Feb'', ''Mar'', ''Apr'', ''May'', ''Jun'', ''Jul'', ''Aug'', ''Sep'', ''Oct'', ''Nov'', ''Dec'']"

definition wdays :: "byte list list" where
  "wdays = map (\<lambda>s. asc s @ [0]) [''Sun'', ''Mon'', ''Tue'', ''Wed'', ''Thu'', ''Fri'', ''Sat'']"

definition pick :: "byte list list \<Rightarrow> int \<Rightarrow> byte list option" where
  "pick xs i = (if i < 0 then None else load xs (nat i))"

text \<open>What a conversion inserts, from \<open>tmp\<close> or a table.\<close>

definition conversion :: "tm \<Rightarrow> byte \<Rightarrow> byte list option" where
  "conversion tm c =
     (let num = (\<lambda>v. itoa (of_int v) (replicate 16 0))
      in if c = 89 then num (tm_year tm + 1900)
         else if c = 109 then num (tm_mon tm + 1)
         else if c = 100 then num (tm_mday tm)
         else if c = 72 then num (tm_hour tm)
         else if c = 77 then num (tm_min tm)
         else if c = 83 then num (tm_sec tm)
         else if c = 98 then pick months (tm_mon tm smod 12)
         else if c = 97 then pick wdays (tm_wday tm smod 7)
         else if c = 37 then Some [37, 0]
         else Some [37, c, 0])"

fun strftime_loop :: "byte list \<Rightarrow> tm \<Rightarrow> byte list \<Rightarrow> nat \<Rightarrow> nat \<Rightarrow> (byte list \<times> nat) option" where
  "strftime_loop [] tm s n mx = None"
| "strftime_loop (c # p) tm s n mx =
     (if c = 0 \<or> \<not> n + 1 < mx then Some (s, n)
      else if c \<noteq> 37 then do { s \<leftarrow> store s n c; strftime_loop p tm s (n + 1) mx }
      else case p of [] \<Rightarrow> None
        | d # p' \<Rightarrow> do {
            ins \<leftarrow> conversion tm d;
            (s, n) \<leftarrow> ins_loop ins s n mx;
            strftime_loop p' tm s n mx })"

definition strftime :: "byte list \<Rightarrow> nat \<Rightarrow> byte list \<Rightarrow> tm \<Rightarrow> (byte list \<times> nat) option" where
  "strftime s mx fmt tm = do {
     (s, n) \<leftarrow> strftime_loop fmt tm s 0 mx;
     s \<leftarrow> (if mx > 0 then store s n 0 else Some s);
     Some (s, n) }"

section \<open>The calendar\<close>

definition leap :: "int \<Rightarrow> bool" where
  "leap y \<longleftrightarrow> y mod 4 = 0 \<and> (y mod 100 \<noteq> 0 \<or> y mod 400 = 0)"

definition month_len :: "int \<Rightarrow> int \<Rightarrow> int" where
  "month_len y m = (if m = 2 then if leap y then 29 else 28 else if m \<in> {4, 6, 9, 11} then 30 else 31)"

text \<open>Days before the first of month \<open>m\<close> of year \<open>y\<close>, counted from 1970-01-01.\<close>

definition year_start :: "int \<Rightarrow> int" where
  "year_start y = 365 * (y - 1) + (y - 1) div 4 - (y - 1) div 100 + (y - 1) div 400 - 719162"

definition month_start :: "int \<Rightarrow> int \<Rightarrow> int" where
  "month_start y m = year_start y + (\<Sum>k\<leftarrow>[1..m - 1]. month_len y k)"

text \<open>Two sweeps over finite tables: the years of an era, and the days of a year from 1 March.\<close>

definition ystart :: "int \<Rightarrow> int" where "ystart Y = 365 * Y + Y div 4 - Y div 100"
definition yindex :: "int \<Rightarrow> int" where "yindex e = e - e div 1460 + e div 36524 - e div 146096"

lemma era_years: "list_all (\<lambda>Y. 365 * Y \<le> yindex (ystart Y) \<and>
    yindex (if Y = 399 then 146096 else ystart (Y + 1) - 1) < 365 * (Y + 1)) [0..399]"
  by code_simp

lemma year_days: "list_all (\<lambda>D. let mp = (5 * D + 2) div 153; d = D - (153 * mp + 2) div 5 + 1 in
    0 \<le> mp \<and> mp \<le> 11 \<and> 1 \<le> d \<and> d \<le> [31, 30, 31, 30, 31, 31, 30, 31, 30, 31, 31, 29] ! nat mp \<and>
    (mp = 11 \<and> d = 29 \<longrightarrow> D = 365)) [0..365]"
  by code_simp

lemma yindex_mono: "0 \<le> a \<Longrightarrow> a \<le> b \<Longrightarrow> b \<le> 146096 \<Longrightarrow> yindex a \<le> yindex b"
proof -
  assume a: "0 \<le> a" "a \<le> b" "b \<le> 146096"
  have "b div 1460 \<le> (a + (b - a) * 1460) div 1460" using a by (intro zdiv_mono1) simp_all
  then have "b div 1460 \<le> a div 1460 + (b - a)" by simp
  moreover have "a div 36524 - a div 146096 \<le> b div 36524 - b div 146096"
  proof (cases "b = 146096")
    case True
    show ?thesis
    proof (cases "a = b")
      case False
      then have "a \<le> 146095" using a True by simp
      then have "a div 36524 \<le> 146095 div 36524" "a div 146096 = 0"
        using a(1) by (intro zdiv_mono1, simp_all add: div_pos_pos_trivial)
      then show ?thesis using True by simp
    qed simp
  next
    case False
    then have "b div 146096 = 0" "a div 146096 = 0" using a by simp_all
    then show ?thesis using zdiv_mono1 [OF a(2), of 36524] by simp
  qed
  ultimately show ?thesis by (simp add: yindex_def)
qed

lemma era_year:
  assumes "0 \<le> e" and "e < 146097"
  defines "Y \<equiv> yindex e div 365"
  shows "0 \<le> Y" "Y \<le> 399" "ystart Y \<le> e" "Y < 399 \<Longrightarrow> e < ystart (Y + 1)"
proof -
  have sw: "365 * y \<le> yindex (ystart y)" "yindex (if y = 399 then 146096 else ystart (y + 1) - 1) < 365 * (y + 1)"
    if "0 \<le> y" "y \<le> 399" for y using era_years that by (simp_all add: list_all_iff)
  have "yindex 0 \<le> yindex e" "yindex e \<le> yindex 146096" using assms(1,2) by (auto intro!: yindex_mono)
  then have i: "0 \<le> yindex e" "yindex e \<le> 145999" by (simp_all add: yindex_def)
  show y: "0 \<le> Y" "Y \<le> 399" using i zdiv_mono1 [OF i(2), of 365] by (simp_all add: Y_def)
  have iY: "365 * Y \<le> yindex e" "yindex e < 365 * (Y + 1)" unfolding Y_def by simp_all
  have yle: "ystart y \<le> 146000" "0 \<le> ystart y" if "0 \<le> y" "y \<le> 399" for y
  proof -
    have "y div 4 \<le> 399 div 4" using that(2) by (rule zdiv_mono1) simp
    moreover have "0 \<le> y div 4" "0 \<le> y div 100" using that by simp_all
    moreover have "y div 100 \<le> y div 4" using that by (intro zdiv_mono2) simp_all
    ultimately show "ystart y \<le> 146000" "0 \<le> ystart y" using that by (simp_all add: ystart_def)
  qed
  show "ystart Y \<le> e"
  proof (rule ccontr)
    assume "\<not> ystart Y \<le> e"
    then have c: "e \<le> ystart (Y - 1 + 1) - 1" by simp
    have "Y \<noteq> 0" using c assms(1) by (auto simp: ystart_def)
    then have "0 \<le> Y - 1" "Y - 1 \<le> 398" using y by simp_all
    moreover have "yindex e \<le> yindex (ystart (Y - 1 + 1) - 1)" using c assms(1) yle [OF y] by (intro yindex_mono) simp_all
    ultimately have "yindex e < 365 * Y" using sw(2) [of "Y - 1"] by simp
    with iY show False by simp
  qed
  show "e < ystart (Y + 1)" if "Y < 399"
  proof (rule ccontr)
    assume "\<not> e < ystart (Y + 1)"
    then have "yindex (ystart (Y + 1)) \<le> yindex e" using assms(2) yle [of "Y + 1"] y that by (intro yindex_mono) simp_all
    with sw(1) [of "Y + 1"] y that iY show False by simp
  qed
qed

text \<open>The unsigned arithmetic does not wrap.\<close>

lemma word_div_int:
  assumes "0 \<le> x" and "x < 4294967296" and "0 \<le> k" and "k < 4294967296"
  shows "(of_int x :: u32) div of_int k = of_int (x div k)"
proof -
  have "x div k \<le> x div 1" using assms by (cases "k = 0") (simp, intro zdiv_mono2, simp_all)
  then have "0 \<le> x div k" "x div k < 4294967296" using assms by (simp_all add: pos_imp_zdiv_nonneg_iff div_int_pos_iff)
  then show ?thesis
    using assms by (simp add: word_uint_eq_iff uint_div unsigned_of_int take_bit_int_eq_self)
qed

lemma uint_int: "0 \<le> x \<Longrightarrow> x < 4294967296 \<Longrightarrow> uint (of_int x :: u32) = x"
  by (simp add: unsigned_of_int take_bit_int_eq_self)

lemma sint_int: "- 2147483648 \<le> x \<Longrightarrow> x < 2147483648 \<Longrightarrow> sint (of_int x :: u32) = x"
  by (simp add: signed_of_int signed_take_bit_int_eq_self)

lemma sdiv_nonneg: "0 \<le> (a :: int) \<Longrightarrow> 0 < b \<Longrightarrow> a sdiv b = a div b"
  by (cases "a = 0") (simp_all add: signed_divide_int_def)

lemma smod_nonneg: "0 \<le> (a :: int) \<Longrightarrow> 0 < b \<Longrightarrow> a smod b = a mod b"
  using minus_sdiv_mult_eq_smod [of a b] by (simp add: sdiv_nonneg minus_div_mult_eq_mod)

definition month_of :: "int \<Rightarrow> int" where
  "month_of mp = (if mp < 10 then mp + 3 else mp - 9)"

lemma civil_eq:
  assumes days: "-719468 \<le> days"
  defines "z \<equiv> days + 719468"
  defines "e \<equiv> z mod 146097"
  defines "Y \<equiv> yindex e div 365"
  defines "D \<equiv> e - ystart Y"
  defines "mp \<equiv> (5 * D + 2) div 153"
  assumes D: "0 \<le> D" "D \<le> 365"
  shows "civil days = (Y + z div 146097 * 400 + (if month_of mp \<le> 2 then 1 else 0) - 1900, month_of mp - 1,
    D - (153 * mp + 2) div 5 + 1)"
proof -
  have z: "0 \<le> z" using days by (simp add: z_def)
  have e: "0 \<le> e" "e < 146097" by (simp_all add: e_def)
  note y = era_year [OF e, folded Y_def]
  let ?w = "of_int :: int \<Rightarrow> u32"
  have era: "(if z \<ge> 0 then z else z - 146096) sdiv 146097 = z div 146097" using z by (simp add: sdiv_nonneg)
  have ze: "z - z div 146097 * 146097 = e" unfolding e_def by (rule minus_div_mult_eq_mod)
  have "?w e div 1460 = ?w (e div 1460)" "?w e div 36524 = ?w (e div 36524)" "?w e div 146096 = ?w (e div 146096)"
    using word_div_int [of e 1460] word_div_int [of e 36524] word_div_int [of e 146096] e by simp_all
  then have "?w e - ?w e div 1460 + ?w e div 36524 - ?w e div 146096 = ?w (yindex e)" by (simp add: yindex_def)
  moreover have iy: "0 \<le> yindex e" "yindex e < 146000"
    using yindex_mono [of 0 e] yindex_mono [of e 146096] e by (simp_all add: yindex_def)
  ultimately have yoe: "(?w e - ?w e div 1460 + ?w e div 36524 - ?w e div 146096) div 365 = ?w Y"
    using word_div_int [of "yindex e" 365] by (simp add: Y_def)
  have "?w Y div 4 = ?w (Y div 4)" "?w Y div 100 = ?w (Y div 100)"
    using word_div_int [of Y 4] word_div_int [of Y 100] y by simp_all
  then have doy: "?w e - (365 * ?w Y + ?w Y div 4 - ?w Y div 100) = ?w D" by (simp add: D_def ystart_def)
  have mp: "(5 * ?w D + 2) div 153 = ?w mp" using word_div_int [of "5 * D + 2" 153] D by (simp add: mp_def)
  have mpr: "0 \<le> mp" "mp \<le> 11" using D zdiv_mono1 [of "5 * D + 2" 1827 153] by (simp_all add: mp_def)
  have m5: "(153 * ?w mp + 2) div 5 = ?w ((153 * mp + 2) div 5)" using word_div_int [of "153 * mp + 2" 5] mpr by simp
  have d: "?w D - ?w ((153 * mp + 2) div 5) + 1 = ?w (D - (153 * mp + 2) div 5 + 1)" by simp
  have "?w mp < 10 \<longleftrightarrow> mp < 10" using uint_int [of mp] mpr by (simp add: word_less_def)
  then have m: "?w mp + (if ?w mp < 10 then 3 else -9) = ?w (month_of mp)" by (simp add: month_of_def)
  have mr: "1 \<le> month_of mp" "month_of mp \<le> 12" using mpr by (auto simp: month_of_def)
  have m2: "?w (month_of mp) \<le> 2 \<longleftrightarrow> month_of mp \<le> 2" using uint_int [of "month_of mp"] mr by (simp add: word_le_def)
  have dr: "- 2147483648 \<le> D - (153 * mp + 2) div 5 + 1" "D - (153 * mp + 2) div 5 + 1 < 2147483648"
    using D mpr zdiv_mono1 [of "153 * mp + 2" 1685 5] zdiv_mono1 [of 0 "153 * mp + 2" 5] by simp_all
  have s: "sint (?w (month_of mp)) = month_of mp" using mr by (intro sint_int) simp_all
  have u: "uint (?w Y) = Y" using y by (intro uint_int) simp_all
  show ?thesis
    unfolding civil_def Let_def z_def [symmetric] era ze yoe doy mp m5 d m m2 s u sint_int [OF dr] by simp
qed

lemma div_pred:
  assumes "1 < k"
  shows "(y :: int) div k = (y - 1) div k + (if y mod k = 0 then 1 else 0)"
proof -
  have y: "y = k * (y div k) + y mod k" by simp
  have r: "0 \<le> y mod k" "y mod k < k" using assms by simp_all
  show ?thesis
  proof (cases "y mod k = 0")
    case True
    have "(y - 1) div k = y div k - 1"
      by (rule int_div_pos_eq [of _ _ _ "k - 1"]) (use y True assms in \<open>simp_all add: algebra_simps\<close>)
    with True show ?thesis by simp
  next
    case False
    have "(y - 1) div k = y div k"
      by (rule int_div_pos_eq [of _ _ _ "y mod k - 1"]) (use y r False in \<open>simp_all add: algebra_simps\<close>)
    with False show ?thesis by simp
  qed
qed

lemma leap_alt: "y mod 400 = 0 \<Longrightarrow> y mod 100 = 0" "y mod 100 = 0 \<Longrightarrow> (y :: int) mod 4 = 0"
  using mod_mod_cancel [of 100 400 y] mod_mod_cancel [of 4 100 y] by simp_all

lemma year_step: "year_start (y + 1) = year_start y + 365 + (if leap y then 1 else 0)"
proof -
  have sums: "p = q + 365 + l"
    if "p = 365 * y + A - B + C - 719162" "q = 365 * (y - 1) + a - b + c - 719162"
      "A = a + i" "B = b + j" "C = c + k" "l = i - j + k" for p q A B C a b c i j k l :: int
    using that by (simp add: algebra_simps)
  show ?thesis
  proof (rule sums)
    show "year_start (y + 1) = 365 * y + y div 4 - y div 100 + y div 400 - 719162" by (simp add: year_start_def)
    show "year_start y = 365 * (y - 1) + (y - 1) div 4 - (y - 1) div 100 + (y - 1) div 400 - 719162"
      by (simp add: year_start_def)
    show "y div 4 = (y - 1) div 4 + (if y mod 4 = 0 then 1 else 0)"
      "y div 100 = (y - 1) div 100 + (if y mod 100 = 0 then 1 else 0)"
      "y div 400 = (y - 1) div 400 + (if y mod 400 = 0 then 1 else 0)" by (rule div_pred, simp)+
    show "(if leap y then 1 else 0 :: int) =
        (if y mod 4 = 0 then 1 else 0) - (if y mod 100 = 0 then 1 else 0) + (if y mod 400 = 0 then 1 else 0)"
    proof -
      have e: "(if C \<and> (\<not> B \<or> A) then 1 else 0 :: int) = (if C then 1 else 0) - (if B then 1 else 0) + (if A then 1 else 0)"
        if "A \<longrightarrow> B" "B \<longrightarrow> C" for A B C using that by (cases A; cases B; cases C) simp_all
      show ?thesis unfolding leap_def
        by (rule e; rule impI; erule leap_alt)
    qed
  qed
qed

lemma leap_era: "leap (y + 400 * era) \<longleftrightarrow> leap y"
proof -
  have e: "400 * era = (100 * era) * 4" "400 * era = (4 * era) * 100" "400 * era = era * 400" by simp_all
  have "(y + 400 * era) mod 4 = y mod 4" unfolding e(1) by (rule mod_mult_self1)
  moreover have "(y + 400 * era) mod 100 = y mod 100" unfolding e(2) by (rule mod_mult_self1)
  moreover have "(y + 400 * era) mod 400 = y mod 400" unfolding e(3) by (rule mod_mult_self1)
  ultimately show ?thesis by (simp only: leap_def)
qed

lemma year_start_era:
  "year_start (Y + 400 * era + 1) = ystart Y + 146097 * era - 719162" if "0 \<le> Y" "Y \<le> 399"
proof -
  have e: "400 * era = (100 * era) * 4" "400 * era = (4 * era) * 100" "400 * era = era * 400" by simp_all
  have d: "(Y + 400 * era) div 4 = 100 * era + Y div 4" unfolding e(1) by (rule div_mult_self1) simp
  have "(Y + 400 * era) div 100 = 4 * era + Y div 100" unfolding e(2) by (rule div_mult_self1) simp
  moreover have "(Y + 400 * era) div 400 = era + Y div 400" unfolding e(3) by (rule div_mult_self1) simp
  moreover have "Y div 400 = 0" using that by (simp add: div_pos_pos_trivial)
  moreover have "Y + 400 * era + 1 - 1 = Y + 400 * era" by simp
  moreover have "365 * (Y + 400 * era) + (100 * era + a) - (4 * era + b) + (era + 0) - 719162 =
      365 * Y + a - b + 146097 * era - 719162" for a b by simp
  ultimately show ?thesis using d by (simp only: year_start_def ystart_def)
qed

text \<open>A date as day count, month by month from 1 March of year \<open>y\<close>.\<close>

lemma month_start_eq:
  fixes y :: int
  assumes "0 \<le> mp" and "mp \<le> 11"
  defines "yy \<equiv> y + (if month_of mp \<le> 2 then 1 else 0)"
  shows "month_start yy (month_of mp) = year_start (y + 1) - 306 + (153 * mp + 2) div 5"
    and "month_len yy (month_of mp) = (if mp = 11 then if leap (y + 1) then 29 else 28
      else [31, 30, 31, 30, 31, 31, 30, 31, 30, 31, 31, 29] ! nat mp)"
proof -
  have "mp \<in> set [0..11]" using assms(1,2) by simp
  then have mp: "mp \<in> {0, 1, 2, 3, 4, 5, 6, 7, 8, 9, 10, 11}" by (simp add: upto.simps)
  then show "month_start yy (month_of mp) = year_start (y + 1) - 306 + (153 * mp + 2) div 5"
    using year_step [of y] unfolding yy_def
    by (elim insertE emptyE) (simp_all add: month_of_def month_start_def month_len_def upto.simps)
  from mp show "month_len yy (month_of mp) = (if mp = 11 then if leap (y + 1) then 29 else 28
      else [31, 30, 31, 30, 31, 31, 30, 31, 30, 31, 31, 29] ! nat mp)"
    unfolding yy_def by (elim insertE emptyE) (simp_all add: month_of_def month_len_def)
qed

lemma civil_date:
  assumes "-719468 \<le> days" and "civil days = (y, m, d)"
  shows "month_start (y + 1900) (m + 1) + d - 1 = days \<and> 0 \<le> m \<and> m \<le> 11 \<and> 1 \<le> d \<and> d \<le> month_len (y + 1900) (m + 1)"
proof -
  define z where "z = days + 719468"
  define e where "e = z mod 146097"
  define Y where "Y = yindex e div 365"
  define D where "D = e - ystart Y"
  define mp where "mp = (5 * D + 2) div 153"
  let ?era = "z div 146097"
  have e: "0 \<le> e" "e < 146097" by (simp_all add: e_def)
  note yr = era_year [OF e, folded Y_def]
  have st: "ystart (Y + 1) = ystart Y + 365 + (if (Y + 1) mod 4 = 0 then 1 else 0) - (if (Y + 1) mod 100 = 0 then 1 else 0)"
  proof -
    have "(Y + 1) div 4 = Y div 4 + (if (Y + 1) mod 4 = 0 then 1 else 0)" using div_pred [of 4 "Y + 1"] by simp
    moreover have "(Y + 1) div 100 = Y div 100 + (if (Y + 1) mod 100 = 0 then 1 else 0)"
      using div_pred [of 100 "Y + 1"] by simp
    moreover have "365 * (Y + 1) + (a + i) - (b + j) = 365 * Y + a - b + 365 + i - j" for a b i j by simp
    ultimately show ?thesis by (simp only: ystart_def)
  qed
  have D: "0 \<le> D" "D \<le> 365" "D = 365 \<Longrightarrow> leap (Y + 400 * ?era + 1)"
  proof -
    show "0 \<le> D" using yr(3) by (simp add: D_def)
    have l: "leap (Y + 400 * ?era + 1) \<longleftrightarrow> leap (Y + 1)" using leap_era [of "Y + 1" ?era] by (simp add: ac_simps)
    have "D \<le> 365 \<and> (D = 365 \<longrightarrow> leap (Y + 1))"
    proof (cases "Y < 399")
      case True
      have bound: "D \<le> 365 \<and> (D = 365 \<longrightarrow> P \<and> (\<not> Q \<or> R))"
        if "e < ystart Y + 365 + (if P then 1 else 0) - (if Q then 1 else 0)" "Q \<longrightarrow> P" for P Q R
        using that unfolding D_def by (cases P; cases Q) simp_all
      show ?thesis unfolding leap_def
        by (rule bound [OF yr(4) [OF True, unfolded st]], rule impI, erule leap_alt)
    next
      case False
      then have "Y = 399" using yr(2) by simp
      then show ?thesis using e(2) by (simp add: D_def ystart_def leap_def)
    qed
    then show "D \<le> 365" "D = 365 \<Longrightarrow> leap (Y + 400 * ?era + 1)" using l by simp_all
  qed
  have "D \<in> set [0..365]" using D by simp
  note day = bspec [OF year_days [unfolded list_all_iff Let_def] this, folded mp_def]
  from day have sw: "0 \<le> mp" "mp \<le> 11" "1 \<le> D - (153 * mp + 2) div 5 + 1"
    "D - (153 * mp + 2) div 5 + 1 \<le> [31, 30, 31, 30, 31, 31, 30, 31, 30, 31, 31, 29] ! nat mp"
    "mp = 11 \<and> D - (153 * mp + 2) div 5 + 1 = 29 \<longrightarrow> D = 365"
    by - (elim conjE, assumption)+
  let ?y = "Y + 400 * ?era"
  have "civil days = (Y + ?era * 400 + (if month_of mp \<le> 2 then 1 else 0) - 1900, month_of mp - 1, D - (153 * mp + 2) div 5 + 1)"
    by (rule civil_eq [OF assms(1), folded z_def, folded e_def, folded Y_def, folded D_def, folded mp_def, OF D(1,2)])
  then have "civil days = (?y + (if month_of mp \<le> 2 then 1 else 0) - 1900, month_of mp - 1, D - (153 * mp + 2) div 5 + 1)"
    unfolding mult.commute [of ?era] .
  then have r: "y + 1900 = ?y + (if month_of mp \<le> 2 then 1 else 0)" "m + 1 = month_of mp" "d = D - (153 * mp + 2) div 5 + 1"
    using assms(2) by simp_all
  note ms = month_start_eq [OF sw(1,2), of ?y]
  have "month_start (y + 1900) (m + 1) + d - 1 = year_start (?y + 1) - 306 + D" unfolding r ms(1) by simp
  also have "\<dots> = ystart Y + 146097 * ?era - 719468 + D" using year_start_era [OF yr(1,2), of ?era] by simp
  also have "\<dots> = z - 719468" using mult_div_mod_eq [of 146097 z] by (simp add: D_def e_def)
  finally have a: "month_start (y + 1900) (m + 1) + d - 1 = days" by (simp add: z_def)
  have "d \<le> month_len (y + 1900) (m + 1)"
  proof (cases "mp = 11 \<and> \<not> leap (?y + 1)")
    case True
    then have "d \<noteq> 29" using D(3) sw(5) unfolding r(3) by blast
    moreover have "d \<le> 29" using sw(4) True unfolding r(3) by simp
    ultimately show ?thesis unfolding r(1,2) ms(2) using True by simp
  next
    case False
    have "d \<le> [31, 30, 31, 30, 31, 31, 30, 31, 30, 31, 31, 29] ! nat mp" using sw(4) unfolding r(3) .
    then show ?thesis unfolding r(1,2) ms(2) using False by (cases "mp = 11") simp_all
  qed
  moreover have "1 \<le> m + 1 \<and> m + 1 \<le> 12" unfolding r(2) using sw(1,2) by (auto simp: month_of_def)
  ultimately show ?thesis using a sw(3) r(3) by simp
qed

text \<open>The adjustment that turns truncating division into flooring.\<close>

lemma sdiv_neg:
  assumes "(a :: int) < 0" and "0 < b"
  shows "a sdiv b = - (- a div b)" and "a smod b = - (- a mod b)"
proof -
  show d: "a sdiv b = - (- a div b)" using assms by (simp add: signed_divide_int_def)
  have "a smod b = a - a sdiv b * b" by (simp add: minus_sdiv_mult_eq_smod)
  also have "\<dots> = - (- a - - a div b * b)" unfolding d by simp
  also have "\<dots> = - (- a mod b)" by (simp only: minus_div_mult_eq_mod)
  finally show "a smod b = - (- a mod b)" .
qed

lemma floor_adjust:
  assumes "0 < (b :: int)"
  shows "(if a smod b < 0 then (a smod b + b, a sdiv b - 1) else (a smod b, a sdiv b)) = (a mod b, a div b)"
proof (cases "0 \<le> a")
  case True
  moreover have "\<not> a mod b < 0" using pos_mod_sign [OF assms, of a] by (simp only: not_less)
  ultimately show ?thesis using assms by (simp add: sdiv_nonneg smod_nonneg)
next
  case False
  have m: "0 \<le> - a mod b" "- a mod b < b" using assms by simp_all
  show ?thesis
  proof (cases "- a mod b = 0")
    case True
    then show ?thesis using False assms zdiv_zminus1_eq_if [of b "- a"] zmod_zminus1_eq_if [of "- a" b]
      by (simp add: sdiv_neg)
  next
    case nz: False
    have "a div b = - (- a div b) - 1" "a mod b = b - - a mod b"
      using nz False assms zdiv_zminus1_eq_if [of b "- a"] zmod_zminus1_eq_if [of "- a" b] by simp_all
    moreover have "a sdiv b = - (- a div b)" "a smod b = - (- a mod b)" using sdiv_neg [of a b] False assms by simp_all
    moreover have "- (- a mod b) < 0" using nz m(1) by linarith
    ultimately show ?thesis by (simp only: if_True) simp
  qed
qed

text \<open>C19: localtime gives the civil date and time of every 32-bit time stamp, before and after 1970: a date of
  the Gregorian calendar whose day count from 1970-01-01 is the number of days in the stamp, the time of day
  that is left, and the day of the week, 1970-01-01 being a Thursday.\<close>

theorem localtime_correct:
  fixes t :: u32
  shows "let b = localtime (Some t); y = tm_year b + 1900; m = tm_mon b + 1; days = sint t div 86400 in
    month_start y m + tm_mday b - 1 = days \<and> m \<in> {1..12} \<and> tm_mday b \<in> {1..month_len y m} \<and>
    tm_hour b * 3600 + tm_min b * 60 + tm_sec b = sint t mod 86400 \<and>
    tm_hour b \<in> {0..23} \<and> tm_min b \<in> {0..59} \<and> tm_sec b \<in> {0..59} \<and> tm_wday b = (days + 4) mod 7"
proof -
  have range: "- 2147483648 \<le> sint t" "sint t < 2147483648"
    using sint_range_size [of t] by (simp_all add: word_size)
  let ?s = "sint t"
  have qr: "(if ?s smod 86400 < 0 then (?s smod 86400 + 86400, ?s sdiv 86400 - 1) else (?s smod 86400, ?s sdiv 86400)) =
      (?s mod 86400, ?s div 86400)" by (rule floor_adjust) simp
  have wd: "(if (x + 4) smod 7 < 0 then (x + 4) smod 7 + 7 else (x + 4) smod 7) = (x + 4) mod 7" for x :: int
    using floor_adjust [of 7 "x + 4"] by (auto split: if_splits)
  obtain d0 r0 where dr: "d0 = ?s div 86400" "r0 = ?s mod 86400" by blast
  obtain y m d where c: "civil d0 = (y, m, d)" by (cases "civil d0")
  have days: "-719468 \<le> d0" using zdiv_mono1 [OF range(1), of 86400] by (simp add: dr)
  note cd = civil_date [OF days c]
  have r: "0 \<le> r0" "r0 \<le> 86399" using pos_mod_bound [of 86400 ?s] by (simp_all add: dr(2))
  have b: "localtime (Some t) = \<lparr>tm_sec = r0 mod 60, tm_min = r0 mod 3600 div 60, tm_hour = r0 div 3600,
      tm_mday = d, tm_mon = m, tm_year = y, tm_wday = (d0 + 4) mod 7, tm_yday = 0, tm_isdst = 0\<rparr>"
    using r by (simp add: localtime_def Let_def qr [folded dr] wd c sdiv_nonneg smod_nonneg)
  have "r0 mod 60 = r0 mod 3600 mod 60" by (rule mod_mod_cancel [symmetric]) simp
  then have t: "r0 div 3600 * 3600 + r0 mod 3600 div 60 * 60 + r0 mod 60 = r0"
    using div_mult_mod_eq [of "r0 mod 3600" 60] div_mult_mod_eq [of r0 3600] by linarith
  have h: "0 \<le> r0 div 3600" "r0 div 3600 \<le> 23" using r(1) zdiv_mono1 [OF r(2), of 3600] by simp_all
  have mi: "0 \<le> r0 mod 3600 div 60" "r0 mod 3600 div 60 \<le> 59" using zdiv_mono1 [of "r0 mod 3600" 3599 60] by simp_all
  have se: "r0 mod 60 \<le> 59" using pos_mod_bound [of 60 r0] by simp
  have "m + 1 \<in> {1..12}" "d \<in> {1..month_len (y + 1900) (m + 1)}" using cd by simp_all
  moreover have "r0 div 3600 \<in> {0..23}" using h by (simp only: atLeastAtMost_iff)
  moreover have "r0 mod 3600 div 60 \<in> {0..59}" using mi by (simp only: atLeastAtMost_iff)
  moreover have "r0 mod 60 \<in> {0..59}" using se pos_mod_sign [of 60 r0] by (simp only: atLeastAtMost_iff)
  ultimately show ?thesis using cd t unfolding b dr [symmetric] Let_def tm.select_convs by blast
qed

end
