(* ===== verification/Format.thy ===== *)
theory Format
  imports Libc
begin

text \<open>
Formatted output of home/lib/stdio.c: do_format over its directives and conversions, and the buffer functions
  snprintf and sprintf. What a part of the code emits is the list of characters in order; the emit function
  of the context consumes it.
\<close>

section \<open>Arguments and directives\<close>

text \<open>A variadic argument as its caller passed it: a 32-bit word (also a pointer that is only printed), a
  64-bit word, or a string pointer, \<open>SArg None\<close> for NULL. Reading one of another kind is undefined.\<close>

datatype varg = WArg u32 | QArg "64 word" | SArg "byte list option"

record flags =
  fl_left :: bool
  fl_zero :: bool
  fl_plus :: bool
  fl_space :: bool
  fl_alt :: bool

definition no_flags :: flags where
  "no_flags = \<lparr>fl_left = False, fl_zero = False, fl_plus = False, fl_space = False, fl_alt = False\<rparr>"

fun arg_word :: "varg list \<Rightarrow> (u32 \<times> varg list) option" where
  "arg_word (WArg w # as) = Some (w, as)"
| "arg_word _ = None"

fun arg_quad :: "varg list \<Rightarrow> (64 word \<times> varg list) option" where
  "arg_quad (QArg w # as) = Some (w, as)"
| "arg_quad _ = None"

fun arg_str :: "varg list \<Rightarrow> (byte list option \<times> varg list) option" where
  "arg_str (SArg s # as) = Some (s, as)"
| "arg_str _ = None"

text \<open>\<open>is_ll ? va_arg(ap, unsigned long long) : va_arg(ap, unsigned int)\<close>, and the signed variant.\<close>

definition arg_unsigned :: "bool \<Rightarrow> varg list \<Rightarrow> (64 word \<times> varg list) option" where
  "arg_unsigned ll as = (if ll then arg_quad as else map_option (map_prod ucast id) (arg_word as))"

definition arg_signed :: "bool \<Rightarrow> varg list \<Rightarrow> (64 word \<times> varg list) option" where
  "arg_signed ll as = (if ll then arg_quad as else map_option (map_prod scast id) (arg_word as))"

section \<open>The parts of a directive\<close>

fun read_flags :: "byte list \<Rightarrow> flags \<Rightarrow> (flags \<times> byte list) option" where
  "read_flags [] f = None"
| "read_flags (c # p) f =
     (if c = 45 then read_flags p (f\<lparr>fl_left := True\<rparr>)
      else if c = 48 then read_flags p (f\<lparr>fl_zero := True\<rparr>)
      else if c = 43 then read_flags p (f\<lparr>fl_plus := True\<rparr>)
      else if c = 32 then read_flags p (f\<lparr>fl_space := True\<rparr>)
      else if c = 35 then read_flags p (f\<lparr>fl_alt := True\<rparr>)
      else Some (f, c # p))"

text \<open>A decimal number; a sum above \<open>INT_MAX\<close> is undefined.\<close>

fun read_num :: "byte list \<Rightarrow> int \<Rightarrow> (int \<times> byte list) option" where
  "read_num [] n = None"
| "read_num (c # p) n =
     (if is_digit c
      then let n = n * 10 + (sint c - 48) in if n > 0x7FFFFFFF then None else read_num p n
      else Some (n, c # p))"

definition read_width :: "byte list \<Rightarrow> varg list \<Rightarrow> flags \<Rightarrow> (int \<times> flags \<times> byte list \<times> varg list) option" where
  "read_width p as f = (case p of
       [] \<Rightarrow> None
     | c # p' \<Rightarrow>
         if c = 42 then do {
           (w, as) \<leftarrow> arg_word as;
           let width = sint w;
           if width = - 0x80000000 then None
           else Some (if width < 0 then (- width, f\<lparr>fl_left := True\<rparr>, p', as) else (width, f, p', as)) }
         else do { (n, p) \<leftarrow> read_num p 0; Some (n, f, p, as) })"

definition read_prec :: "byte list \<Rightarrow> varg list \<Rightarrow> (int \<times> byte list \<times> varg list) option" where
  "read_prec p as = (case p of
       [] \<Rightarrow> None
     | c # p' \<Rightarrow>
         if c \<noteq> 46 then Some (-1, p, as)
         else case p' of
           [] \<Rightarrow> None
         | d # p'' \<Rightarrow>
             if d = 42 then do { (w, as) \<leftarrow> arg_word as; Some (if sint w < 0 then -1 else sint w, p'', as) }
             else do { (n, p) \<leftarrow> read_num p' 0; Some (n, p, as) })"

text \<open>The length modifiers h, l, z, j and t.\<close>

fun read_length :: "byte list \<Rightarrow> bool \<Rightarrow> (bool \<times> byte list) option" where
  "read_length [] ll = None"
| "read_length [c] ll = (if c \<in> {104, 108, 122, 106, 116} then None else Some (ll, [c]))"
| "read_length (c # d # p) ll =
     (if c \<in> {104, 108, 122, 106, 116}
      then if c = 108 \<and> d = 108 then read_length p True else read_length (d # p) (ll \<or> c = 106)
      else Some (ll, c # d # p))"

section \<open>What the conversions emit\<close>

text \<open>The characters a part of the code emits, in order.\<close>

definition put_pad :: "byte \<Rightarrow> int \<Rightarrow> byte list" where
  "put_pad c n = replicate (nat n) c"

fun put_str :: "byte list \<Rightarrow> nat \<Rightarrow> byte list option" where
  "put_str s 0 = Some []"
| "put_str [] (Suc n) = None"
| "put_str (c # s) (Suc n) = (if c = 0 then Some [] else map_option (Cons c) (put_str s n))"

text \<open>The digit loops fill the 32 cells of \<open>tmp\<close>, last digit first, and emit them from the top: \<open>room\<close> is
  the number of free cells.\<close>

definition digit_char :: "bool \<Rightarrow> 64 word \<Rightarrow> byte option" where
  "digit_char upper d = load (asc (if upper then ''0123456789ABCDEF'' else ''0123456789abcdef'')) (unat d)"

fun uint_digits :: "nat \<Rightarrow> bool \<Rightarrow> 64 word \<Rightarrow> 64 word \<Rightarrow> byte list \<Rightarrow> byte list option" where
  "uint_digits 0 upper base v tmp = None"
| "uint_digits (Suc room) upper base v tmp = do {
     c \<leftarrow> digit_char upper (v mod base);
     if v div base \<noteq> 0 then uint_digits room upper base (v div base) (c # tmp) else Some (c # tmp) }"

definition put_uint :: "64 word \<Rightarrow> 64 word \<Rightarrow> bool \<Rightarrow> int \<Rightarrow> bool \<Rightarrow> bool \<Rightarrow> bool \<Rightarrow> byte list option" where
  "put_uint v base upper width zero left alt = do {
     let octal0 = (v = 0 \<and> base = 8 \<and> alt);
     tmp \<leftarrow> uint_digits (if octal0 then 31 else 32) upper base v (if octal0 then [48] else []);
     let prefix = alt \<and> base = 16;
     let total = int (length tmp) + (if prefix then 2 else 0);
     Some ((if \<not> left \<and> \<not> zero then put_pad 32 (width - total) else []) @
           (if prefix then [48, if upper then 88 else 120] else []) @
           (if \<not> left \<and> zero then put_pad 48 (width - total) else []) @
           tmp @ (if left then put_pad 32 (width - total) else [])) }"

fun mag_digits :: "nat \<Rightarrow> 64 word \<Rightarrow> byte list \<Rightarrow> byte list option" where
  "mag_digits room mag tmp =
     (if mag = 0 then Some tmp
      else case room of 0 \<Rightarrow> None
        | Suc room \<Rightarrow> mag_digits room (mag div 10) ((48 + ucast (mag mod 10)) # tmp))"

declare mag_digits.simps [simp del]

definition put_signed :: "64 word \<Rightarrow> flags \<Rightarrow> int \<Rightarrow> byte list option" where
  "put_signed v f width = do {
     let mag = (if sint v < 0 then 0 - v else v);
     let signlen = (sint v < 0 \<or> fl_plus f \<or> fl_space f);
     let sign = (if sint v < 0 then 45 else if fl_plus f then 43 else 32);
     tmp \<leftarrow> mag_digits (if mag = 0 then 31 else 32) mag (if mag = 0 then [48] else []);
     let total = int (length tmp) + (if signlen then 1 else 0);
     Some ((if \<not> fl_left f \<and> \<not> fl_zero f then put_pad 32 (width - total) else []) @
           (if signlen then [sign] else []) @
           (if \<not> fl_left f \<and> fl_zero f then put_pad 48 (width - total) else []) @
           tmp @ (if fl_left f then put_pad 32 (width - total) else [])) }"

text \<open>The length of a string, cut at the precision.\<close>

fun shown_len :: "byte list \<Rightarrow> int \<Rightarrow> int \<Rightarrow> int option" where
  "shown_len [] prec n = None"
| "shown_len (c # s) prec n = (if c \<noteq> 0 \<and> (prec < 0 \<or> n < prec) then shown_len s prec (n + 1) else Some n)"

definition put_string :: "byte list option \<Rightarrow> bool \<Rightarrow> int \<Rightarrow> int \<Rightarrow> byte list option" where
  "put_string arg left width prec = do {
     let s = (case arg of Some s \<Rightarrow> s | None \<Rightarrow> asc ''(null)'' @ [0]);
     n \<leftarrow> shown_len s prec 0;
     out \<leftarrow> put_str s (nat n);
     Some ((if left then [] else put_pad 32 (width - n)) @ out @ (if left then put_pad 32 (width - n) else [])) }"

definition put_char :: "byte \<Rightarrow> bool \<Rightarrow> int \<Rightarrow> byte list" where
  "put_char ch left width =
     (if left then [] else put_pad 32 (width - 1)) @ [ch] @ (if left then put_pad 32 (width - 1) else [])"

text \<open>The switch over the conversion character.\<close>

definition convert :: "byte \<Rightarrow> flags \<Rightarrow> int \<Rightarrow> int \<Rightarrow> bool \<Rightarrow> varg list \<Rightarrow> (byte list \<times> varg list) option" where
  "convert conv f width prec ll as =
     (if conv = 100 \<or> conv = 105 then do {
        (v, as) \<leftarrow> arg_signed ll as; out \<leftarrow> put_signed v f width; Some (out, as) }
      else if conv = 117 then do {
        (v, as) \<leftarrow> arg_unsigned ll as;
        out \<leftarrow> put_uint v 10 False width (fl_zero f) (fl_left f) False; Some (out, as) }
      else if conv = 120 \<or> conv = 88 then do {
        (v, as) \<leftarrow> arg_unsigned ll as;
        out \<leftarrow> put_uint v 16 (conv = 88) width (fl_zero f) (fl_left f) (fl_alt f); Some (out, as) }
      else if conv = 111 then do {
        (v, as) \<leftarrow> arg_unsigned ll as;
        out \<leftarrow> put_uint v 8 False width (fl_zero f) (fl_left f) (fl_alt f); Some (out, as) }
      else if conv = 112 then do {
        (ptr, as) \<leftarrow> arg_word as;
        out \<leftarrow> (if ptr = 0 then put_str (asc ''(nil)'' @ [0]) (nat (-1))
               else put_uint (ucast ptr) 16 False width (fl_zero f) (fl_left f) True);
        Some (out, as) }
      else if conv = 99 then do { (w, as) \<leftarrow> arg_word as; Some (put_char (ucast w) (fl_left f) width, as) }
      else if conv = 115 then do {
        (s, as) \<leftarrow> arg_str as; out \<leftarrow> put_string s (fl_left f) width prec; Some (out, as) }
      else Some (37 # (if conv \<noteq> 0 then [conv] else []), as))"

text \<open>After a percent sign: the output, the rest of the format, the arguments left. The loop's step skips the
  conversion character, whatever it is.\<close>

definition directive :: "byte list \<Rightarrow> varg list \<Rightarrow> (byte list \<times> byte list \<times> varg list) option" where
  "directive p as = (case p of
       [] \<Rightarrow> None
     | c # p' \<Rightarrow>
         if c = 37 then Some ([37], p', as)
         else do {
           (f, p) \<leftarrow> read_flags p no_flags;
           (width, f, p, as) \<leftarrow> read_width p as f;
           (prec, p, as) \<leftarrow> read_prec p as;
           (ll, p) \<leftarrow> read_length p False;
           conv \<leftarrow> load p 0;
           (out, as) \<leftarrow> convert conv f width prec ll as;
           Some (out, drop 1 p, as) })"

lemma read_flags_len: "read_flags p f = Some (f', p') \<Longrightarrow> length p' \<le> length p"
  by (induction p f rule: read_flags.induct) (auto split: if_splits intro: le_SucI)

lemma read_num_len: "read_num p n = Some (m, p') \<Longrightarrow> length p' \<le> length p"
  by (induction p n rule: read_num.induct) (auto simp: Let_def split: if_splits intro: le_SucI)

lemma read_length_len: "read_length p ll = Some (ll', p') \<Longrightarrow> length p' \<le> length p"
  by (induction p ll rule: read_length.induct) (auto split: if_splits intro: le_SucI)

lemma read_width_len: "read_width p as f = Some (w, f', p', as') \<Longrightarrow> length p' \<le> length p"
  by (auto simp: read_width_def Let_def split: list.splits if_splits bind_splits dest: read_num_len)

lemma read_prec_len: "read_prec p as = Some (n, p', as') \<Longrightarrow> length p' \<le> length p"
  by (auto simp: read_prec_def split: list.splits if_splits bind_splits dest: read_num_len)

lemma directive_len: "directive p as = Some (out, p', as') \<Longrightarrow> length p' \<le> length p"
  by (auto simp: directive_def split: list.splits if_splits bind_splits
      dest!: read_flags_len read_width_len read_prec_len read_length_len) (linarith | simp add: le_diff_conv)+

text \<open>The characters \<open>do_format\<close> emits.\<close>

function format :: "byte list \<Rightarrow> varg list \<Rightarrow> byte list option" where
  "format [] as = None"
| "format (c # p) as =
     (if c = 0 then Some []
      else if c \<noteq> 37 then (case format p as of None \<Rightarrow> None | Some out \<Rightarrow> Some (c # out))
      else case directive p as of
        None \<Rightarrow> None
      | Some (out, p', as') \<Rightarrow> (case format p' as' of None \<Rightarrow> None | Some rest \<Rightarrow> Some (out @ rest)))"
  by pat_completeness auto
termination by (relation "measure (length \<circ> fst)") (auto dest: directive_len)

section \<open>Where the characters go\<close>

text \<open>\<open>struct out_ctx\<close> for a buffer: \<open>len\<close> counts every character, only \<open>cap - 1\<close> of them are stored.\<close>

record out_ctx =
  o_buf :: "byte list"
  o_cap :: u32
  o_len :: u32

definition emit_buf :: "byte \<Rightarrow> out_ctx \<Rightarrow> out_ctx option" where
  "emit_buf c ctx = do {
     buf \<leftarrow> (if o_len ctx + 1 < o_cap ctx then store (o_buf ctx) (unat (o_len ctx)) c else Some (o_buf ctx));
     Some (ctx\<lparr>o_buf := buf, o_len := o_len ctx + 1\<rparr>) }"

fun emit_all :: "(byte \<Rightarrow> 's \<Rightarrow> 's option) \<Rightarrow> byte list \<Rightarrow> 's \<Rightarrow> 's option" where
  "emit_all emit [] s = Some s"
| "emit_all emit (c # cs) s = do { s \<leftarrow> emit c s; emit_all emit cs s }"

definition do_format :: "(byte \<Rightarrow> 's \<Rightarrow> 's option) \<Rightarrow> byte list \<Rightarrow> varg list \<Rightarrow> 's \<Rightarrow> 's option" where
  "do_format emit fmt as s = do { out \<leftarrow> format fmt as; emit_all emit out s }"

text \<open>The result is \<open>(int)o->len\<close>, a word here.\<close>

definition vsnprintf :: "byte list \<Rightarrow> u32 \<Rightarrow> byte list \<Rightarrow> varg list \<Rightarrow> (byte list \<times> u32) option" where
  "vsnprintf buf n fmt as = do {
     ctx \<leftarrow> do_format emit_buf fmt as \<lparr>o_buf = buf, o_cap = n, o_len = 0\<rparr>;
     buf \<leftarrow> (if n > 0
            then store (o_buf ctx) (unat (if o_len ctx < n - 1 then o_len ctx else n - 1)) 0
            else Some (o_buf ctx));
     Some (buf, o_len ctx) }"

definition vsprintf :: "byte list \<Rightarrow> byte list \<Rightarrow> varg list \<Rightarrow> (byte list \<times> u32) option" where
  "vsprintf buf fmt as = do {
     ctx \<leftarrow> do_format emit_buf fmt as \<lparr>o_buf = buf, o_cap = -1, o_len = 0\<rparr>;
     buf \<leftarrow> store (o_buf ctx) (unat (o_len ctx)) 0;
     Some (buf, o_len ctx) }"

definition snprintf :: "byte list \<Rightarrow> u32 \<Rightarrow> byte list \<Rightarrow> varg list \<Rightarrow> (byte list \<times> u32) option" where
  "snprintf buf n fmt as = vsnprintf buf n fmt as"

definition sprintf :: "byte list \<Rightarrow> byte list \<Rightarrow> varg list \<Rightarrow> (byte list \<times> u32) option" where
  "sprintf buf fmt as = vsprintf buf fmt as"

lemma emit_buf_eq:
  assumes "unat (o_len ctx) + 1 < 2 ^ 32" and "unat (o_cap ctx) \<le> length (o_buf ctx)"
  shows "emit_buf c ctx = Some (ctx\<lparr>o_len := o_len ctx + 1,
    o_buf := (if unat (o_len ctx) + 1 < unat (o_cap ctx) then (o_buf ctx)[unat (o_len ctx) := c] else o_buf ctx)\<rparr>)"
proof -
  have "unat (o_len ctx + 1) = unat (o_len ctx) + 1" using assms(1) by (simp add: unat_add_no_wrap)
  then have "o_len ctx + 1 < o_cap ctx \<longleftrightarrow> unat (o_len ctx) + 1 < unat (o_cap ctx)" by (simp add: word_less_nat_alt)
  then show ?thesis using assms(2) by (simp add: emit_buf_def)
qed

lemma emit_all_buf:
  assumes "unat (o_len ctx) + length out < 2 ^ 32" and "unat (o_cap ctx) \<le> length (o_buf ctx)"
  shows "emit_all emit_buf out ctx = Some (ctx\<lparr>o_len := o_len ctx + of_nat (length out),
    o_buf := blit (o_buf ctx) (unat (o_len ctx)) (take (unat (o_cap ctx) - 1 - unat (o_len ctx)) out)\<rparr>)"
  using assms
proof (induction out arbitrary: ctx)
  case (Cons c out)
  let ?n = "unat (o_len ctx)" and ?c = "unat (o_cap ctx)"
  let ?ctx = "ctx\<lparr>o_len := o_len ctx + 1, o_buf := (if ?n + 1 < ?c then (o_buf ctx)[?n := c] else o_buf ctx)\<rparr>"
  have e: "emit_buf c ctx = Some ?ctx" using Cons.prems by (intro emit_buf_eq) simp_all
  have n: "unat (o_len ctx + 1) = ?n + 1" using Cons.prems(1) by (simp add: unat_add_no_wrap)
  have "emit_all emit_buf out ?ctx = Some (?ctx\<lparr>o_len := o_len ?ctx + of_nat (length out),
    o_buf := blit (o_buf ?ctx) (unat (o_len ?ctx)) (take (unat (o_cap ?ctx) - 1 - unat (o_len ?ctx)) out)\<rparr>)"
    using Cons.prems n by (intro Cons.IH) simp_all
  moreover have "take (?c - 1 - ?n) (c # out) = (if ?n + 1 < ?c then c # take (?c - 1 - (?n + 1)) out else [])"
    by (simp add: take_Cons')
  ultimately show ?case using e n Cons.prems(2)
    by (auto simp: blit_Cons add.assoc)
qed simp

text \<open>C38: snprintf keeps to its buffer: the first \<open>n - 1\<close> characters of the output and a NUL are stored, what
  lies behind is untouched, and the result is the length of the whole output.\<close>

theorem snprintf_truncates:
  assumes "format fmt as = Some out" and "length out < 2 ^ 32" and "0 < n" and "unat n \<le> length buf"
  shows "snprintf buf n fmt as =
    Some (take (unat n - 1) out @ 0 # drop (min (length out) (unat n - 1) + 1) buf, of_nat (length out))"
proof -
  let ?m = "min (length out) (unat n - 1)"
  have n: "0 < unat n" using assms(3) by (simp add: word_less_nat_alt)
  have n1: "unat (n - 1) = unat n - 1" using assms(3) by (simp add: unat_sub_no_wrap word_le_nat_alt word_less_nat_alt Suc_leI)
  have len: "unat (of_nat (length out) :: u32) = length out" using assms(2) by (intro of_nat_unat_small) simp
  have e: "do_format emit_buf fmt as \<lparr>o_buf = buf, o_cap = n, o_len = 0\<rparr> =
      Some \<lparr>o_buf = blit buf 0 (take (unat n - 1) out), o_cap = n, o_len = of_nat (length out)\<rparr>"
    using assms(1,2,4) by (simp add: do_format_def emit_all_buf)
  have ix: "unat (if of_nat (length out) < n - 1 then of_nat (length out) else n - 1) = ?m"
    using len n1 by (auto simp: word_less_nat_alt)
  have st: "store (blit buf 0 (take (unat n - 1) out)) ?m 0 =
      Some (take (unat n - 1) out @ 0 # drop (?m + 1) buf)"
  proof -
    have m: "length (take (unat n - 1) out) = ?m" by simp
    have "?m < length buf" using n assms(4) by linarith
    then have "drop ?m buf = buf ! ?m # drop (?m + 1) buf" by (simp add: Cons_nth_drop_Suc)
    then have "blit buf 0 (take (unat n - 1) out) = take (unat n - 1) out @ buf ! ?m # drop (?m + 1) buf"
      by (simp add: blit_def m)
    then show ?thesis by (simp add: store_def list_update_append m)
  qed
  show ?thesis using assms(3) unfolding snprintf_def vsnprintf_def e by (simp only: bind.bind_lunit out_ctx.select_convs if_True ix st)
qed

section \<open>Printed numbers are read back\<close>

lemma less_16: "n < 16 \<Longrightarrow> n \<in> {0, 1, 2, 3, 4, 5, 6, 7, 8, 9, 10, 11, 12, 13, 14, 15 :: nat}"
  by (auto simp: numeral_eq_Suc less_Suc_eq)

lemma digit_char_value:
  assumes "unat d < n" and "n \<le> 16"
  shows "\<exists>c. digit_char upper d = Some c \<and> digit_value (uint c) (int n) = int (unat d) \<and>
    \<not> is_space (uint c) \<and> c \<noteq> 43 \<and> c \<noteq> 45 \<and> sint c = uint c"
proof -
  have "unat d \<in> {0, 1, 2, 3, 4, 5, 6, 7, 8, 9, 10, 11, 12, 13, 14, 15}" using assms by (intro less_16) simp
  with assms(1) show ?thesis
    by (cases upper; elim insertE emptyE) (simp_all add: digit_char_def digit_value_def is_space_def load_def)
qed

lemma unat_mod_64: "unat (v mod base :: 64 word) = unat v mod unat base"
  by (simp add: unat_mod)

lemma uint_digits_room:
  "unat v < unat base ^ room \<Longrightarrow> 1 < unat base \<Longrightarrow> unat base \<le> 16 \<Longrightarrow> 0 < room \<Longrightarrow>
    \<exists>out. uint_digits room upper base v tmp = Some out \<and> length tmp < length out \<and>
      drop (length out - length tmp) out = tmp \<and>
      (\<exists>c. out ! 0 = c \<and> (\<exists>d. unat d < unat base \<and> digit_char upper d = Some c))"
proof (induction room arbitrary: v tmp)
  case (Suc room)
  have m: "unat (v mod base) < unat base" using Suc.prems(2) by (simp add: unat_mod)
  obtain c where c: "digit_char upper (v mod base) = Some c" using digit_char_value [OF m Suc.prems(3)] by blast
  show ?case
  proof (cases "v div base = 0")
    case True
    then show ?thesis using c m by auto
  next
    case False
    then have "unat v div unat base \<noteq> 0" by (simp add: word_unat_eq_iff unat_div)
    then have "unat base \<le> unat v" by (metis div_less leI)
    then have "room \<noteq> 0" using Suc.prems(1) by (cases room) auto
    have "unat (v div base) < unat base ^ room"
      using Suc.prems(1) by (simp add: unat_div less_mult_imp_div_less mult.commute)
    from Suc.IH [OF this Suc.prems(2,3), of "c # tmp"] \<open>room \<noteq> 0\<close> obtain out where
      o: "uint_digits room upper base (v div base) (c # tmp) = Some out" "length (c # tmp) < length out"
        "drop (length out - length (c # tmp)) out = c # tmp"
        "\<exists>c. out ! 0 = c \<and> (\<exists>d. unat d < unat base \<and> digit_char upper d = Some c)" by blast
    have "drop (length out - length tmp) out = tmp"
    proof -
      have "length out - length tmp = 1 + (length out - length (c # tmp))" using o(2) by simp
      then have "drop (length out - length tmp) out = drop 1 (drop (length out - length (c # tmp)) out)"
        by (simp only: drop_drop)
      then show ?thesis by (simp only: o(3)) simp
    qed
    then show ?thesis using c o False by auto
  qed
qed simp

definition word_base :: "64 word \<Rightarrow> bool" where
  "word_base b \<longleftrightarrow> 1 < unat b \<and> unat b \<le> 16 \<and> ucast (of_int (int (unat b)) :: u32) = b"

lemma word_bases: "word_base 10" "word_base 16"
  by (simp_all add: word_base_def)

lemma small_ucast: "n \<le> 16 \<Longrightarrow> ucast (of_int (int n) :: u32) = (of_nat n :: 64 word)"
proof -
  assume "n \<le> 16"
  then have "n \<in> {0, 1, 2, 3, 4, 5, 6, 7, 8, 9, 10, 11, 12, 13, 14, 15} \<or> n = 16" using less_16 [of n] by linarith
  then show ?thesis by (elim disjE insertE emptyE) simp_all
qed

lemma digits_read:
  assumes "word_base base"
  shows "uint_digits room upper base v tmp = Some out \<Longrightarrow>
    read_digits (int (unat base)) (out @ t) acc k =
      read_digits (int (unat base)) (tmp @ t) (acc * base ^ (length out - length tmp) + v) (k + (length out - length tmp))"
proof (induction room arbitrary: v tmp)
  case (Suc room)
  have b: "1 < unat base" "unat base \<le> 16" using assms by (simp_all add: word_base_def)
  have m: "unat (v mod base) < unat base" using b by (simp add: unat_mod)
  obtain c where c: "digit_char upper (v mod base) = Some c"
    "digit_value (uint c) (int (unat base)) = int (unat (v mod base))"
    using digit_char_value [OF m b(2)] by blast
  have w: "ucast (of_int (int (unat (v mod base))) :: u32) = v mod base"
    using small_ucast [of "unat (v mod base)"] m b by simp
  have step: "read_digits (int (unat base)) ((c # tmp) @ t) a k' =
      read_digits (int (unat base)) (tmp @ t) (a * base + v mod base) (Suc k')" for a k'
    using c(2) w assms by (simp add: word_base_def Let_def)
  show ?case
  proof (cases "v div base = 0")
    case True
    then have "v mod base = v" using div_mult_mod_eq [of v base] by simp
    moreover have "out = c # tmp" using True Suc.prems c(1) by simp
    ultimately show ?thesis using step [of acc k] by (simp del: read_digits.simps)
  next
    case False
    then have o: "uint_digits room upper base (v div base) (c # tmp) = Some out" using Suc.prems c(1) by simp
    have len: "length (c # tmp) \<le> length out" using o
    proof (induction room upper base "v div base" "c # tmp" arbitrary: v c tmp rule: uint_digits.induct)
      case (2 room upper base)
      then show ?case by (fastforce split: bind_splits if_splits)
    qed simp
    let ?m = "length out - length (c # tmp)"
    have lm: "length out - length tmp = Suc ?m" using len by simp
    have "(acc * base ^ ?m + v div base) * base + v mod base = acc * base ^ Suc ?m + v"
      using div_mult_mod_eq [of v base] by (simp add: algebra_simps)
    then show ?thesis using Suc.IH [OF o] step lm by simp
  qed
qed simp

lemma read_digits_stop: "read_digits b (0 # t) acc k = Some (acc, k)"
  by (simp add: digit_value_def)

text \<open>The digits of \<open>v\<close> in base 10 or 16: what they look like to the parser.\<close>

lemma uint_digits_text:
  assumes "word_base base" and "base = 10 \<or> base = 16"
  obtains c ds where "uint_digits 32 upper base v [] = Some (c # ds)"
    "read_digits (int (unat base)) ((c # ds) @ 0 # t) 0 0 = Some (v, length (c # ds))"
    "\<not> is_space (uint c)" "c \<noteq> 43" "c \<noteq> 45" "0 \<le> digit_value (sint c) (int (unat base))"
proof -
  have b: "1 < unat base" "unat base \<le> 16" using assms(1) by (simp_all add: word_base_def)
  have "unat v < 2 ^ 64" using unsigned_less [of v, where ?'a = nat] by simp
  then have "unat v < unat base ^ 32" using assms(2) by auto
  from uint_digits_room [OF this b] obtain out where o: "uint_digits 32 upper base v [] = Some out" "out \<noteq> []"
    and h: "\<exists>d. unat d < unat base \<and> digit_char upper d = Some (out ! 0)" by (metis length_greater_0_conv list.size(3) zero_less_numeral)
  then obtain c ds where cd: "out = c # ds" by (cases out) auto
  from h obtain d where d: "unat d < unat base" "digit_char upper d = Some c" by (auto simp: cd)
  from digit_char_value [OF d(1) b(2), of upper] d(2) have c: "digit_value (uint c) (int (unat base)) = int (unat d)"
    "\<not> is_space (uint c)" "c \<noteq> 43" "c \<noteq> 45" "sint c = uint c" by simp_all
  have "read_digits (int (unat base)) ((c # ds) @ 0 # t) 0 0 = Some (v, length (c # ds))"
    using digits_read [OF assms(1) o(1), of "0 # t" 0 0] by (simp add: cd read_digits_stop del: read_digits.simps)
  then show thesis using that o(1) c by (simp add: cd del: read_digits.simps)
qed

lemma strtoull_plain:
  assumes "read_digits 10 (c # ds) 0 0 = Some (v, n)" "\<not> is_space (uint c)" "c \<noteq> 43" "c \<noteq> 45" "0 < n"
  shows "strtoull (c # ds) 10 = Some (v, n)"
  using assms by (simp add: strtoull_def read_sign_def read_base_def load_def del: read_digits.simps)

lemma strtoull_minus:
  assumes "read_digits 10 ds 0 0 = Some (v, n)" "0 < n"
  shows "strtoull (45 # ds) 10 = Some (- v, Suc n)"
  using assms by (simp add: strtoull_def read_sign_def read_base_def is_space_def load_def del: read_digits.simps)

lemma strtoull_hex:
  assumes "read_digits 16 (c # ds) 0 0 = Some (v, n)" "0 \<le> digit_value (sint c) 16" "0 < n"
  shows "strtoull (48 # 120 # c # ds) 0 = Some (v, Suc (Suc n))"
  using assms by (simp add: strtoull_def read_sign_def read_base_def hex_prefix_def is_space_def load_def del: read_digits.simps)

text \<open>The decimal digits of a magnitude are those of \<open>uint_digits\<close>.\<close>

lemma mag_digits_eq:
  "v \<noteq> 0 \<Longrightarrow> mag_digits room v tmp = uint_digits room False 10 v tmp"
proof (induction room arbitrary: v tmp)
  case 0
  then show ?case by (subst mag_digits.simps) simp
next
  case (Suc room)
  have m: "unat (v mod 10) < 10" by (simp add: unat_mod)
  then have "unat (v mod 10) \<in> {0, 1, 2, 3, 4, 5, 6, 7, 8, 9, 10, 11, 12, 13, 14, 15}" by (intro less_16) linarith
  then have "v mod 10 \<in> {0, 1, 2, 3, 4, 5, 6, 7, 8, 9}"
    using m by (elim insertE emptyE) (simp_all add: word_unat_eq_iff)
  then have c: "digit_char False (v mod 10) = Some (48 + ucast (v mod 10))"
    by (elim insertE emptyE) (simp_all add: digit_char_def load_def)
  show ?case
  proof (cases "v div 10 = 0")
    case True
    then show ?thesis using c Suc.prems by (subst mag_digits.simps) (simp add: mag_digits.simps)
  next
    case False
    then show ?thesis using c Suc by (subst mag_digits.simps) simp
  qed
qed

lemma directive_d: "format [37, 108, 108, 100, 0] [QArg v] = put_signed v no_flags 0"
  by (cases "put_signed v no_flags 0")
    (simp_all add: directive_def read_width_def read_prec_def is_digit_def convert_def arg_signed_def load_def)

lemma directive_x: "format [37, 35, 108, 108, 120, 0] [QArg v] = put_uint v 16 False 0 False False True"
  by (cases "put_uint v 16 False 0 False False True")
    (simp_all add: directive_def read_width_def read_prec_def is_digit_def convert_def arg_unsigned_def load_def no_flags_def)

text \<open>C20: What printf prints, strtoull and strtoll read back: every 64-bit number printed with %lld is read in
  base 10 to the same number, and every one printed with %#llx in base 0, and the end pointer is at the end
  of the text.\<close>

theorem print_parse_roundtrip:
  "(\<exists>out. format (asc ''%lld'' @ [0]) [QArg v] = Some out \<and> strtoll (out @ 0 # t) 10 = Some (v, length out)) \<and>
   (\<exists>out. format (asc ''%#llx'' @ [0]) [QArg v] = Some out \<and> strtoull (out @ 0 # t) 0 = Some (v, length out))"
proof
  have f: "asc ''%lld'' @ [0] = [37, 108, 108, 100, 0]" by simp
  show "\<exists>out. format (asc ''%lld'' @ [0]) [QArg v] = Some out \<and> strtoll (out @ 0 # t) 10 = Some (v, length out)"
    unfolding f directive_d strtoll_def
  proof (cases "sint v < 0")
    case True
    then have nz: "v \<noteq> 0" by auto
    obtain c ds where d: "uint_digits 32 False 10 (- v) [] = Some (c # ds)"
      "read_digits 10 ((c # ds) @ 0 # t) 0 0 = Some (- v, length (c # ds))"
      by (rule uint_digits_text [OF word_bases(1), of False "- v" t]) simp_all
    have "put_signed v no_flags 0 = Some (45 # c # ds)"
      using True nz d(1) by (simp add: put_signed_def mag_digits_eq no_flags_def put_pad_def)
    moreover have "strtoull (45 # (c # ds) @ 0 # t) 10 = Some (v, Suc (length (c # ds)))"
      using strtoull_minus [OF d(2)] by simp
    ultimately show "\<exists>out. put_signed v no_flags 0 = Some out \<and> strtoull (out @ 0 # t) 10 = Some (v, length out)"
      by (intro exI [of _ "45 # c # ds"]) simp
  next
    case False
    obtain c ds where d: "uint_digits 32 False 10 v [] = Some (c # ds)"
      "read_digits 10 ((c # ds) @ 0 # t) 0 0 = Some (v, length (c # ds))" "\<not> is_space (uint c)" "c \<noteq> 43" "c \<noteq> 45"
      by (rule uint_digits_text [OF word_bases(1), of False v t]) simp_all
    have "put_signed v no_flags 0 = Some (c # ds)"
    proof (cases "v = 0")
      case True
      then have "c # ds = [48]" using d(1) by (simp add: digit_char_def load_def numeral_eq_Suc)
      then show ?thesis using True by (simp add: put_signed_def mag_digits.simps no_flags_def put_pad_def)
    next
      case nz: False
      then show ?thesis using False d(1) by (simp add: put_signed_def mag_digits_eq no_flags_def put_pad_def)
    qed
    moreover have "strtoull ((c # ds) @ 0 # t) 10 = Some (v, length (c # ds))"
      using strtoull_plain [of c "ds @ 0 # t" v "length (c # ds)"] d(2-) by simp
    ultimately show "\<exists>out. put_signed v no_flags 0 = Some out \<and> strtoull (out @ 0 # t) 10 = Some (v, length out)"
      by (intro exI [of _ "c # ds"]) simp
  qed
next
  have f: "asc ''%#llx'' @ [0] = [37, 35, 108, 108, 120, 0]" by simp
  obtain c ds where d: "uint_digits 32 False 16 v [] = Some (c # ds)"
    "read_digits 16 ((c # ds) @ 0 # t) 0 0 = Some (v, length (c # ds))" "0 \<le> digit_value (sint c) 16"
    by (rule uint_digits_text [OF word_bases(2), of False v t]) simp_all
  have "put_uint v 16 False 0 False False True = Some (48 # 120 # c # ds)"
    using d(1) by (simp add: put_uint_def put_pad_def)
  moreover have "strtoull (48 # 120 # c # ds @ 0 # t) 0 = Some (v, Suc (Suc (length (c # ds))))"
    using strtoull_hex [of c "ds @ 0 # t" v "length (c # ds)"] d(2,3) by simp
  ultimately show "\<exists>out. format (asc ''%#llx'' @ [0]) [QArg v] = Some out \<and> strtoull (out @ 0 # t) 0 = Some (v, length out)"
    unfolding f directive_x by (intro exI [of _ "48 # 120 # c # ds"]) simp
qed

lemma snprintf_truncates_witness:
  "snprintf [1, 1, 1, 1, 1, 1] 4 (asc ''%#llx'' @ [0]) [QArg 0xBEEF] = Some ([48, 120, 98, 0, 1, 1], 6)"
proof -
  have f: "format (asc ''%#llx'' @ [0]) [QArg 0xBEEF] = Some [48, 120, 98, 101, 101, 102]"
    by code_simp
  show ?thesis using snprintf_truncates [OF f, of 4 "[1, 1, 1, 1, 1, 1]"] by simp
qed

end
