(* ===== verification/Syscall.thy ===== *)
theory Syscall
  imports FsCalls Keyboard Heap Port
begin

text \<open>
kernel/syscall.c: the machine a system call works on, syscall_handler over the registers and the memory of the
  caller, and fault_handler. A pointer argument is an address in the caller's memory; a string is read up to
  its NUL.
\<close>

section \<open>The machine\<close>

datatype exit_fn = exit_to_shell | user_halt | user_power_off | user_reboot

text \<open>The port writes before a machine stops.\<close>

fun stop_ports :: "exit_fn \<Rightarrow> port_write list" where
  "stop_ports user_power_off = [Outw 0x604 0x2000]"
| "stop_ports user_reboot = [Outb 0x64 0xFE]"
| "stop_ports _ = []"

record 'd sys =
  sy_fs :: "'d fs_state"
  sy_wm :: wm
  sy_kbd :: kbd
  sy_mem :: mem
  sy_exit :: exit_fn

record regs =
  r_esi :: u32
  r_ebx :: u32
  r_edx :: u32
  r_ecx :: u32
  r_eax :: u32

text \<open>The memory of the caller, as its page tables show it.\<close>

type_synonym umem = "u32 \<Rightarrow> byte"

definition region :: "umem \<Rightarrow> u32 \<Rightarrow> nat \<Rightarrow> byte list" where
  "region u p n = map (\<lambda>i. u (p + of_nat i)) [0..<n]"

definition put_region :: "umem \<Rightarrow> u32 \<Rightarrow> byte list \<Rightarrow> umem" where
  "put_region u p bs = (\<lambda>x. if unat (x - p) < length bs then bs ! unat (x - p) else u x)"

text \<open>A string argument, with its NUL.\<close>

partial_function (option) user_string :: "umem \<Rightarrow> u32 \<Rightarrow> byte list option" where
  "user_string u p = (if u p = 0 then Some [0]
     else do { s \<leftarrow> user_string u (p + 1); Some (u p # s) })"

section \<open>Operations on the console\<close>

text \<open>Changes to the current terminal, shown on the screen as the code does.\<close>

definition with_term :: "(terminal \<Rightarrow> terminal option) \<Rightarrow> 'd sys \<Rightarrow> 'd sys option" where
  "with_term f s = do {
     t \<leftarrow> wm_current (sy_wm s);
     t \<leftarrow> f t;
     w \<leftarrow> wm_update (sy_wm s) t;
     Some (s\<lparr>sy_wm := w\<rparr>) }"

definition show_term :: "'d sys \<Rightarrow> 'd sys option" where
  "show_term s = do { w \<leftarrow> wm_show (sy_wm s); Some (s\<lparr>sy_wm := w\<rparr>) }"

definition show_row :: "int \<Rightarrow> 'd sys \<Rightarrow> 'd sys option" where
  "show_row y s = do {
     t \<leftarrow> wm_current (sy_wm s);
     v \<leftarrow> wm_blit_row t y (w_vga (sy_wm s));
     Some (s\<lparr>sy_wm := (sy_wm s)\<lparr>w_vga := v\<rparr>\<rparr>) }"

fun put_chars :: "byte list \<Rightarrow> byte \<Rightarrow> terminal \<Rightarrow> terminal option" where
  "put_chars [] color t = Some t"
| "put_chars (c # s) color t = do { t \<leftarrow> term_putchar t c color; put_chars s color t }"

definition sys_write :: "byte list \<Rightarrow> 'd sys \<Rightarrow> 'd sys option" where
  "sys_write buf s = do {
     s \<leftarrow> with_term (put_chars buf (VGA_COLOR 0 15)) s;
     show_term s }"

text \<open>
  The loop of the getc call. While the ring is empty the caller waits for keyboard interrupts, which come
  with the scan codes of \<open>keys\<close>; without any more of them it waits for ever.
\<close>

partial_function (option) wait_key :: "byte list \<Rightarrow> kbd \<Rightarrow> (u32 \<times> byte list \<times> kbd) option" where
  "wait_key keys k =
     (case kbd_getc k of
        Some (c, k) \<Rightarrow> if c \<noteq> 0 then Some (c, keys, k) else wait_key keys k
      | None \<Rightarrow> (case keys of [] \<Rightarrow> None | sc # keys \<Rightarrow> wait_key keys (keyboard_handler sc k)))"

definition putchar_at_call :: "byte \<Rightarrow> u32 \<Rightarrow> u32 \<Rightarrow> byte \<Rightarrow> 'd sys \<Rightarrow> 'd sys option" where
  "putchar_at_call c x y color s =
     (if x < 80 \<and> y < 25 then do {
        s \<leftarrow> with_term (\<lambda>t. term_putchar_at t c (uint x) (uint y) color) s;
        show_row (uint y) s }
      else Some s)"

definition goto_call :: "u32 \<Rightarrow> u32 \<Rightarrow> 'd sys \<Rightarrow> 'd sys option" where
  "goto_call x y s =
     (if x < 80 \<and> y < 25 then do {
        t \<leftarrow> wm_current (sy_wm s);
        let oy = t_cursor_y t;
        s \<leftarrow> with_term (\<lambda>t. Some (t\<lparr>t_cursor_x := uint x, t_cursor_y := uint y\<rparr>)) s;
        s \<leftarrow> show_row oy s;
        if oy \<noteq> uint y then show_row (uint y) s else Some s }
      else Some s)"

definition exit_call :: "u32 \<Rightarrow> exit_fn \<Rightarrow> exit_fn" where
  "exit_call b e =
     (if b = 0 then exit_to_shell else if b = 1 then user_halt else if b = 2 then user_power_off
      else if b = 3 then user_reboot else e)"

section \<open>The system call\<close>

text \<open>
  What a call leaves: registers, the interrupt frame's eip and cs, the caller's memory, the scan codes still
  to come, the kernel. A buffer the kernel writes is the region of the length the caller gave.
\<close>

record 'd outcome =
  oc_regs :: regs
  oc_frame :: "u32 \<times> u32"
  oc_user :: umem
  oc_keys :: "byte list"
  oc_sys :: "'d sys"

definition ret :: "int \<Rightarrow> 'd outcome \<Rightarrow> 'd outcome" where
  "ret r oc = oc\<lparr>oc_regs := (oc_regs oc)\<lparr>r_eax := of_int r\<rparr>\<rparr>"

definition set_sys :: "'d sys \<Rightarrow> 'd outcome \<Rightarrow> 'd outcome" where
  "set_sys s oc = oc\<lparr>oc_sys := s\<rparr>"

definition set_fs :: "'d fs_state \<Rightarrow> 'd outcome \<Rightarrow> 'd outcome" where
  "set_fs fs oc = oc\<lparr>oc_sys := (oc_sys oc)\<lparr>sy_fs := fs\<rparr>\<rparr>"

text \<open>The calls 4, 5, 6, 12 to 17, on files.\<close>

definition file_call :: "'d disk \<Rightarrow> 'd outcome \<Rightarrow> 'd outcome option" where
  "file_call dk oc =
     (let r = oc_regs oc; u = oc_user oc; fs = sy_fs (oc_sys oc); n = r_eax r
      in if n = 4 then do {
           name \<leftarrow> user_string u (r_ebx r);
           (v, buf, d) \<leftarrow> fs_read dk (fs_sb fs) name (region u (r_ecx r) (unat (r_edx r))) (r_edx r) (fs_dev fs);
           Some (ret v (set_fs (fs\<lparr>fs_dev := d\<rparr>) (oc\<lparr>oc_user := put_region u (r_ecx r) buf\<rparr>))) }
         else if n = 5 then do {
           name \<leftarrow> user_string u (r_ebx r);
           (v, d) \<leftarrow> fs_write dk (fs_sb fs) name FS_FILE (region u (r_ecx r) (unat (r_edx r))) (r_edx r) (fs_dev fs);
           Some (ret v (set_fs (fs\<lparr>fs_dev := d\<rparr>) oc)) }
         else if n = 6 then do {
           name \<leftarrow> (if r_ebx r = 0 then Some None else map_option Some (user_string u (r_ebx r)));
           (v, buf, d) \<leftarrow> fs_ls_buf dk (fs_sb fs) name (region u (r_ecx r) (unat (r_edx r))) (r_edx r) (fs_dev fs);
           Some (ret v (set_fs (fs\<lparr>fs_dev := d\<rparr>) (oc\<lparr>oc_user := put_region u (r_ecx r) buf\<rparr>))) }
         else if n = 12 then do {
           name \<leftarrow> user_string u (r_ebx r);
           (v, fs) \<leftarrow> fs_open dk name (r_ecx r) fs;
           Some (ret v (set_fs fs oc)) }
         else if n = 13 then do {
           (v, buf, fs) \<leftarrow> fs_read_fd dk (sint (r_ebx r)) (region u (r_ecx r) (unat (r_edx r))) (r_edx r) fs;
           Some (ret v (set_fs fs (oc\<lparr>oc_user := put_region u (r_ecx r) buf\<rparr>))) }
         else if n = 14 then do {
           (v, fs) \<leftarrow> fs_write_fd (sint (r_ebx r)) (region u (r_ecx r) (unat (r_edx r))) (r_edx r) fs;
           Some (ret v (set_fs fs oc)) }
         else if n = 15 then (case fs_seek (sint (r_ebx r)) (r_ecx r) (r_edx r) fs of
           (v, fs) \<Rightarrow> Some (ret v (set_fs fs oc)))
         else if n = 16 then do {
           (v, fs) \<leftarrow> fs_close dk (sint (r_ebx r)) fs;
           Some (ret v (set_fs fs oc)) }
         else if n = 17 then do {
           name \<leftarrow> user_string u (r_ebx r);
           (v, d) \<leftarrow> fs_unlink dk (fs_sb fs) name (fs_dev fs);
           Some (ret v (set_fs (fs\<lparr>fs_dev := d\<rparr>) oc)) }
         else Some oc)"

text \<open>\<open>entry\<close> gives the address of a kernel function. Segment 8 is the kernel's code.\<close>

definition syscall_handler :: "'d disk \<Rightarrow> (exit_fn \<Rightarrow> u32) \<Rightarrow> 'd outcome \<Rightarrow> 'd outcome option" where
  "syscall_handler dk entry oc =
     (let r = oc_regs oc; s = oc_sys oc; n = r_eax r
      in if n = 1 then map_option (\<lambda>s. set_sys s oc) (sys_write (region (oc_user oc) (r_ebx r) (unat (r_ecx r))) s)
         else if n = 2 then Some (oc\<lparr>oc_frame := (entry (sy_exit s), 0x08)\<rparr>)
         else if n = 3 then do {
           (c, keys, k) \<leftarrow> wait_key (oc_keys oc) (sy_kbd s);
           Some (oc\<lparr>oc_regs := r\<lparr>r_eax := c\<rparr>, oc_keys := keys, oc_sys := s\<lparr>sy_kbd := k\<rparr>\<rparr>) }
         else if n = 7 then Some (set_sys (s\<lparr>sy_exit := exit_call (r_ebx r) (sy_exit s)\<rparr>) oc)
         else if n = 8 then map_option (\<lambda>s. set_sys s oc) (with_term term_clear s \<bind> show_term)
         else if n = 9 then
           map_option (\<lambda>s. set_sys s oc) (putchar_at_call (ucast (r_ebx r)) (r_ecx r) (r_edx r) (ucast (r_esi r)) s)
         else if n = 10 then map_option (\<lambda>s. set_sys s oc) (goto_call (r_ebx r) (r_ecx r) s)
         else if n = 11 then (case vm_sbrk (r_ebx r) (sy_mem s) of
           (b, m) \<Rightarrow> Some (oc\<lparr>oc_regs := r\<lparr>r_eax := b\<rparr>, oc_sys := s\<lparr>sy_mem := m\<rparr>\<rparr>))
         else file_call dk oc)"

section \<open>Faults\<close>

text \<open>uhex writes eight digits from the right and a NUL.\<close>

fun uhex_loop :: "nat \<Rightarrow> u32 \<Rightarrow> byte list \<Rightarrow> byte list option" where
  "uhex_loop 0 v buf = Some buf"
| "uhex_loop (Suc i) v buf = do {
     let d = v AND 0xF;
     buf \<leftarrow> store buf i (if d < 10 then 48 + ucast d else 65 + ucast d - 10);
     uhex_loop i (drop_bit 4 v) buf }"

definition uhex :: "u32 \<Rightarrow> byte list \<Rightarrow> byte list option" where
  "uhex v buf = do { buf \<leftarrow> uhex_loop 8 v buf; store buf 8 0 }"

definition print_lit :: "string \<Rightarrow> byte \<Rightarrow> terminal \<Rightarrow> terminal option" where
  "print_lit s color t = term_print_color t (asc s @ [0]) color"

definition fault_report :: "u32 \<Rightarrow> u32 \<Rightarrow> u32 \<Rightarrow> terminal \<Rightarrow> terminal option" where
  "fault_report cr2 err vector t = do {
     let c = VGA_COLOR 0 4;
     vbuf \<leftarrow> itoa vector (replicate 12 0);
     t \<leftarrow> print_lit (CHR 0x0A # ''FAULT vec='') c t;
     t \<leftarrow> term_print_color t vbuf c;
     abuf \<leftarrow> uhex cr2 (replicate 9 0);
     t \<leftarrow> print_lit '' cr2=0x'' c t;
     t \<leftarrow> term_print_color t abuf c;
     vbuf \<leftarrow> itoa err (replicate 12 0);
     t \<leftarrow> print_lit '' err='' c t;
     t \<leftarrow> term_print_color t vbuf c;
     t \<leftarrow> (if vector = 0x0E then do {
            t \<leftarrow> print_lit (if err AND 1 \<noteq> 0 then '' present'' else '' not-present'') c t;
            t \<leftarrow> print_lit (if err AND 2 \<noteq> 0 then '' write'' else '' read'') c t;
            print_lit (if err AND 4 \<noteq> 0 then '' user'' else '' kernel'') c t }
          else Some t);
     print_lit (CHR 0x0A # '''') c t }"

text \<open>A fault ends with the instruction retried, or with a report and the machine halted.\<close>

datatype 'd fault_end = Retry "'d sys" | Halted "'d sys"

definition fault_handler :: "u32 \<Rightarrow> u32 \<Rightarrow> u32 \<Rightarrow> 'd sys \<Rightarrow> 'd fault_end option" where
  "fault_handler cr2 err vector s = do {
     (v, m) \<leftarrow> (if vector = 0x0E then vm_fault cr2 (sy_mem s) else Some (0, sy_mem s));
     let s = s\<lparr>sy_mem := m\<rparr>;
     if v \<noteq> 0 then Some (Retry s)
     else do {
       s \<leftarrow> with_term (fault_report cr2 err vector) s;
       s \<leftarrow> show_term s;
       Some (Halted s) } }"

end
