(* ===== verification/SyscallSpec.thy ===== *)
theory SyscallSpec
  imports Syscall
begin

text \<open>
What a system call can change: the caller's memory only in the buffer it names, the interrupt frame only on exit,
  and the invariants of the kernel's parts hold after every call.
\<close>

section \<open>Kernel calls and the buffer they are given\<close>

lemma memcpy_length: "memcpy ds ss n = Some r \<Longrightarrow> length r = length ds"
  by (induction ds ss n arbitrary: r rule: memcpy.induct) auto

lemma copy_to_keeps: "copy_to buf i src n = Some r \<Longrightarrow> length r = length buf"
  by (auto simp: copy_to_def split: bind_splits dest: memcpy_length)

lemma store_keeps: "store xs i v = Some ys \<Longrightarrow> length ys = length xs"
  by (auto simp: arr_simps)

lemma stream_loop_keeps:
  "stream_loop dk h n done buf d = Some (ok, buf', done', d') \<Longrightarrow> length buf' = length buf"
proof (induction dk h n "done" buf d rule: stream_loop.induct)
  case (1 dk h n "done" buf d)
  show ?case
  proof (cases "done < n")
    case False
    then show ?thesis using 1(2) by (simp add: stream_loop.simps)
  next
    case True
    let ?pos = "h_offset h + done"
    obtain r d1 where rd: "dk_read dk (h_lba h + ?pos div 512) d = (r, d1)" by fastforce
    show ?thesis
    proof (cases r)
      case None
      then show ?thesis using 1(2) True rd by (simp add: stream_loop.simps)
    next
      case (Some sec)
      obtain T where T: "T = (if 512 - ?pos mod 512 > n - done then n - done else 512 - ?pos mod 512)" by blast
      from 1(2) True rd Some T obtain b1 where b1: "copy_to buf (unat done) (drop (unat (?pos mod 512)) sec) (unat T) = Some b1"
        "stream_loop dk h n (done + T) b1 d1 = Some (ok, buf', done', d')"
        by (subst (asm) (2) stream_loop.simps) (auto simp: Let_def split: bind_splits)
      have "length buf' = length b1"
        by (rule 1(1) [OF _ refl refl _ _ T b1(1) b1(2)]) (use True rd Some in auto)
      with copy_to_keeps [OF b1(1)] show ?thesis by simp
    qed
  qed
qed

lemma fs_read_fd_keeps: "fs_read_fd dk fd buf n fs = Some (r, buf', fs') \<Longrightarrow> length buf' = length buf"
  by (auto simp: fs_read_fd_def Let_def split: option.splits bind_splits if_splits
) (erule memcpy_length stream_loop_keeps)+

lemma sector_loop_keeps:
  "(\<And>sec n st st'. body sec n st = Some st' \<Longrightarrow> I st \<Longrightarrow> I st') \<Longrightarrow>
    sector_loop dk body lba remaining d st = Some (ok, d', st') \<Longrightarrow> I st \<Longrightarrow> I st'"
proof (induction dk body lba remaining d st rule: sector_loop.induct)
  case (1 dk body lba remaining d st)
  obtain r d1 where rd: "dk_read dk lba d = (r, d1)" by fastforce
  show ?case
  proof (cases "remaining = 0 \<or> r = None")
    case True
    then show ?thesis using 1(3,4) rd by (subst (asm) sector_loop.simps) (auto split: if_splits)
  next
    case False
    then obtain sec where sec: "r = Some sec" by blast
    let ?n = "if remaining < 512 then remaining else 512"
    from 1(3) False rd sec obtain st1 where st1: "body sec (unat ?n) st = Some st1"
      "sector_loop dk body (lba + 1) (remaining - ?n) d1 st1 = Some (ok, d', st')"
      by (subst (asm) (2) sector_loop.simps) (auto simp: Let_def split: bind_splits)
    have "I st1" by (rule 1(2) [OF st1(1) 1(4)])
    have nz: "remaining \<noteq> 0" using False by simp
    show ?thesis
    proof (rule 1(1) [OF nz rd [symmetric] sec refl st1(1)])
      show "I s2" if "body x k s1 = Some s2" "I s1" for x k s1 s2 by (rule 1(2) [OF that])
    qed (rule st1(2), rule \<open>I st1\<close>)
  qed
qed

lemma lsb_chars_keeps:
  "lsb_chars skip m cs st = Some st' \<Longrightarrow> length (snd (snd st')) = length (snd (snd st))"
proof (induction skip m cs st arbitrary: st' rule: lsb_chars.induct)
  case (2 skip m c cs skip_left pos buf)
  show ?case
  proof (cases "skip_left > 0")
    case True
    then show ?thesis using 2(1) [OF True] 2(3) by simp
  next
    case False
    with 2(3) obtain pos1 buf1 where b: "(if pos < m - 1 then do { buf \<leftarrow> store buf (unat pos) c; Some (pos + 1, buf) }
        else Some (pos, buf)) = Some (pos1, buf1)"
      "lsb_chars skip m cs (if c = 10 then skip else skip_left, pos1, buf1) = Some st'"
      by (auto split: bind_splits)
    have "length buf1 = length buf" using b(1) by (auto split: if_splits bind_splits dest: store_keeps)
    with 2(2) [OF False b(1) refl b(2)] show ?thesis by simp
  qed
qed simp

lemma lsb_entries_keeps:
  "lsb_entries dirbuf m is st = Some (full, st') \<Longrightarrow> length (snd st') = length (snd st)"
proof (induction "is" arbitrary: st)
  case Nil
  then show ?case by (cases st) simp
next
  case (Cons i "is")
  obtain pos buf where st: "st = (pos, buf)" by (cases st)
  from Cons.prems show ?case unfolding st
    by (auto simp: Let_def split: bind_splits if_splits dest!: Cons.IH copy_to_keeps store_keeps)
qed

lemma lsb_root_keeps:
  "lsb_root dk sb m ss d st = Some (ok, d', st') \<Longrightarrow> length (snd st') = length (snd st)"
proof (induction ss arbitrary: d st)
  case (Cons s ss)
  then show ?case
    by (auto split: prod.splits option.splits bind_splits if_splits dest!: Cons.IH lsb_entries_keeps)
qed simp

lemma fs_ls_buf_keeps:
  assumes "fs_ls_buf dk sb name buf m d = Some (r, buf', d')"
  shows "length buf' = length buf"
proof -
  have "length (snd (snd st')) = length buf"
    if "sector_loop dk (\<lambda>sec n. lsb_chars skip m (take n sec)) lba len d (skip, 0, buf) = Some (ok, d', st')"
    for skip lba len d ok d' st'
    using sector_loop_keeps [where I = "\<lambda>st. length (snd (snd st)) = length buf", OF _ that] lsb_chars_keeps by fastforce
  note in_dir = this
  show ?thesis using assms
    by (auto simp: fs_ls_buf_def Let_def split: bind_splits if_splits option.splits
        dest!: in_dir lsb_root_keeps store_keeps)
qed

text \<open>So a kernel call changes the caller's memory only inside the buffer.\<close>

lemma put_region_out: "unat (x - p) \<ge> length bs \<Longrightarrow> put_region u p bs x = u x"
  by (simp add: put_region_def)

lemma length_region [simp]: "length (region u p n) = n"
  by (simp add: region_def)

section \<open>Effects of the calls on files\<close>

text \<open>The buffer a call may write, for each call number.\<close>

definition out_buffer :: "regs \<Rightarrow> (u32 \<times> nat)" where
  "out_buffer r = (r_ecx r, if r_eax r \<in> {4, 6, 13} then unat (r_edx r) else 0)"

lemma ret_simps [simp]:
  "oc_frame (ret v oc) = oc_frame oc" "oc_user (ret v oc) = oc_user oc" "oc_keys (ret v oc) = oc_keys oc"
  "oc_sys (ret v oc) = oc_sys oc"
  by (simp_all add: ret_def)

lemma set_fs_simps [simp]:
  "oc_frame (set_fs fs oc) = oc_frame oc" "oc_user (set_fs fs oc) = oc_user oc" "oc_keys (set_fs fs oc) = oc_keys oc"
  "oc_sys (set_fs fs oc) = (oc_sys oc)\<lparr>sy_fs := fs\<rparr>"
  by (simp_all add: set_fs_def)

definition file_effect :: "'d disk \<Rightarrow> 'd outcome \<Rightarrow> 'd outcome \<Rightarrow> bool" where
  "file_effect dk oc oc' \<longleftrightarrow> oc_frame oc' = oc_frame oc \<and> oc_keys oc' = oc_keys oc \<and>
     (\<exists>fs'. oc_sys oc' = (oc_sys oc)\<lparr>sy_fs := fs'\<rparr> \<and> (fs' = sy_fs (oc_sys oc) \<or> fs_call dk (sy_fs (oc_sys oc)) fs')) \<and>
     (\<exists>bs. length bs = snd (out_buffer (oc_regs oc)) \<and> oc_user oc' = put_region (oc_user oc) (r_ecx (oc_regs oc)) bs)"

lemma file_effectI:
  assumes "oc' = ret v (set_fs fs' (oc\<lparr>oc_user := put_region (oc_user oc) (r_ecx (oc_regs oc)) bs\<rparr>))"
    and "fs_call dk (sy_fs (oc_sys oc)) fs'" and "length bs = snd (out_buffer (oc_regs oc))"
  shows "file_effect dk oc oc'"
  using assms by (auto simp: file_effect_def)

lemma put_region_Nil [simp]: "put_region u p [] = u"
  by (simp add: put_region_def)

lemma file_effectI':
  assumes "oc' = ret v (set_fs fs' oc)" and "fs_call dk (sy_fs (oc_sys oc)) fs'" and "r_eax (oc_regs oc) \<notin> {4, 6, 13}"
  shows "file_effect dk oc oc'"
  using assms by (auto simp: file_effect_def out_buffer_def intro!: exI [of _ "[]"])

lemma file_call_effect:
  assumes "file_call dk oc = Some oc'"
  shows "file_effect dk oc oc'"
proof -
  let ?r = "oc_regs oc" and ?u = "oc_user oc" and ?fs = "sy_fs (oc_sys oc)"
  let ?n = "r_eax ?r" and ?p = "r_ecx ?r" and ?len = "unat (r_edx (oc_regs oc))"
  consider "?n = 4" | "?n = 6" | "?n = 13" | "?n = 5" | "?n = 12" | "?n = 14" | "?n = 15" | "?n = 16" | "?n = 17"
    | "?n \<notin> {4, 5, 6, 12, 13, 14, 15, 16, 17}" by blast
  then show ?thesis
  proof cases
    case 1
    then obtain name v buf d where c: "fs_read dk (fs_sb ?fs) name (region ?u ?p ?len) (r_edx ?r) (fs_dev ?fs) = Some (v, buf, d)"
      "oc' = ret v (set_fs (?fs\<lparr>fs_dev := d\<rparr>) (oc\<lparr>oc_user := put_region ?u ?p buf\<rparr>))"
      using assms by (auto simp: file_call_def Let_def split: bind_splits)
    have "length buf = ?len" using fs_read_length [OF c(1)] by simp
    then show ?thesis using 1 by (intro file_effectI [OF c(2) disk_call]) (simp add: out_buffer_def)
  next
    case 2
    then obtain name v buf d where c: "fs_ls_buf dk (fs_sb ?fs) name (region ?u ?p ?len) (r_edx ?r) (fs_dev ?fs) = Some (v, buf, d)"
      "oc' = ret v (set_fs (?fs\<lparr>fs_dev := d\<rparr>) (oc\<lparr>oc_user := put_region ?u ?p buf\<rparr>))"
      using assms by (auto simp: file_call_def Let_def split: bind_splits)
    have "length buf = ?len" using fs_ls_buf_keeps [OF c(1)] by simp
    then show ?thesis using 2 by (intro file_effectI [OF c(2) disk_call]) (simp add: out_buffer_def)
  next
    case 3
    then obtain v buf fs' where c: "fs_read_fd dk (sint (r_ebx ?r)) (region ?u ?p ?len) (r_edx ?r) ?fs = Some (v, buf, fs')"
      "oc' = ret v (set_fs fs' (oc\<lparr>oc_user := put_region ?u ?p buf\<rparr>))"
      using assms by (auto simp: file_call_def Let_def split: bind_splits)
    have "length buf = ?len" using fs_read_fd_keeps [OF c(1)] by simp
    then show ?thesis using 3 by (intro file_effectI [OF c(2) read_call [OF c(1)]]) (simp add: out_buffer_def)
  next
    case 4
    then obtain v d where c: "oc' = ret v (set_fs (?fs\<lparr>fs_dev := d\<rparr>) oc)"
      using assms by (auto simp: file_call_def Let_def split: bind_splits)
    then show ?thesis using 4 by (intro file_effectI' [OF c disk_call]) simp
  next
    case 5
    then obtain name v fs' where c: "fs_open dk name ?p ?fs = Some (v, fs')" "oc' = ret v (set_fs fs' oc)"
      using assms by (auto simp: file_call_def Let_def split: bind_splits)
    then show ?thesis using 5 by (intro file_effectI' [OF c(2) open_call [OF c(1)]]) simp
  next
    case 6
    then obtain v fs' where c: "fs_write_fd (sint (r_ebx ?r)) (region ?u ?p ?len) (r_edx ?r) ?fs = Some (v, fs')"
      "oc' = ret v (set_fs fs' oc)"
      using assms by (auto simp: file_call_def Let_def split: bind_splits)
    then show ?thesis using 6 by (intro file_effectI' [OF c(2) write_call [OF c(1)]]) simp
  next
    case 7
    then obtain v fs' where c: "fs_seek (sint (r_ebx ?r)) ?p (r_edx ?r) ?fs = (v, fs')" "oc' = ret v (set_fs fs' oc)"
      using assms by (auto simp: file_call_def Let_def split: prod.splits)
    then show ?thesis using 7 by (intro file_effectI' [OF c(2) seek_call [OF c(1)]]) simp
  next
    case 8
    then obtain v fs' where c: "fs_close dk (sint (r_ebx ?r)) ?fs = Some (v, fs')" "oc' = ret v (set_fs fs' oc)"
      using assms by (auto simp: file_call_def Let_def split: bind_splits)
    then show ?thesis using 8 by (intro file_effectI' [OF c(2) close_call [OF c(1)]]) simp
  next
    case 9
    then obtain v d where c: "oc' = ret v (set_fs (?fs\<lparr>fs_dev := d\<rparr>) oc)"
      using assms by (auto simp: file_call_def Let_def split: bind_splits)
    then show ?thesis using 9 by (intro file_effectI' [OF c disk_call]) simp
  next
    case 10
    then have "oc' = oc" using assms by (simp add: file_call_def Let_def)
    then show ?thesis using 10 by (auto simp: file_effect_def out_buffer_def intro!: exI [of _ "sy_fs (oc_sys oc)"] exI [of _ "[]"])
  qed
qed

section \<open>The invariant of the machine\<close>

definition screen_ok :: "wm \<Rightarrow> bool" where
  "screen_ok w \<longleftrightarrow> 0 \<le> w_current_term w \<and> nat (w_current_term w) < length (w_terms w) \<and>
     (\<forall>t\<in>set (w_terms w). term_ok t) \<and> length (w_vga w) = 4000"

text \<open>The part that holds whether or not a program runs; while one runs the break is in the window besides.\<close>

definition kernel_ok :: "'d sys \<Rightarrow> bool" where
  "kernel_ok s \<longleftrightarrow> handles_ok (sy_fs s) \<and> screen_ok (sy_wm s) \<and> kbd_ok (sy_kbd s)"

definition sys_ok :: "'d sys \<Rightarrow> bool" where
  "sys_ok s \<longleftrightarrow> handles_ok (sy_fs s) \<and> screen_ok (sy_wm s) \<and> kbd_ok (sy_kbd s) \<and>
     USER_BASE \<le> brk (sy_mem s) \<and> brk (sy_mem s) \<le> USER_STACK"

lemma sys_kernel_ok: "sys_ok s \<longleftrightarrow> kernel_ok s \<and> USER_BASE \<le> brk (sy_mem s) \<and> brk (sy_mem s) \<le> USER_STACK"
  by (auto simp: sys_ok_def kernel_ok_def)

lemma with_term_ok:
  assumes "sys_ok s" and "\<And>t. term_ok t \<Longrightarrow> \<exists>t'. f t = Some t' \<and> term_ok t'"
  obtains w where "with_term f s = Some (s\<lparr>sy_wm := w\<rparr>)" "sys_ok (s\<lparr>sy_wm := w\<rparr>)"
proof -
  let ?w = "sy_wm s" and ?i = "nat (w_current_term (sy_wm s))"
  have w: "0 \<le> w_current_term ?w" "?i < length (w_terms ?w)" "\<forall>t\<in>set (w_terms ?w). term_ok t" "length (w_vga ?w) = 4000"
    using assms(1) by (simp_all add: sys_ok_def screen_ok_def)
  have t: "wm_current ?w = Some (w_terms ?w ! ?i)" using w by (simp add: wm_current_def loadi_Some)
  obtain t' where t': "f (w_terms ?w ! ?i) = Some t'" "term_ok t'" using assms(2) w(2,3) nth_mem by blast
  let ?w' = "?w\<lparr>w_terms := (w_terms ?w)[?i := t']\<rparr>"
  have "wm_update ?w t' = Some ?w'" using w by (simp add: wm_update_def storei_Some)
  then have "with_term f s = Some (s\<lparr>sy_wm := ?w'\<rparr>)" using t t' by (simp add: with_term_def)
  moreover have "\<forall>t\<in>set ((w_terms ?w)[?i := t']). term_ok t"
    using set_update_subset_insert [of "w_terms ?w" ?i t'] w(3) t'(2) by blast
  then have "sys_ok (s\<lparr>sy_wm := ?w'\<rparr>)" using assms(1) by (simp add: sys_ok_def screen_ok_def)
  ultimately show thesis by (rule that)
qed

lemma show_term_ok:
  assumes "sys_ok s"
  obtains w where "show_term s = Some (s\<lparr>sy_wm := w\<rparr>)" "sys_ok (s\<lparr>sy_wm := w\<rparr>)"
proof -
  let ?w = "sy_wm s" and ?i = "nat (w_current_term (sy_wm s))"
  have w: "0 \<le> w_current_term ?w" "?i < length (w_terms ?w)" "\<forall>t\<in>set (w_terms ?w). term_ok t" "length (w_vga ?w) = 4000"
    using assms by (simp_all add: sys_ok_def screen_ok_def)
  let ?t = "w_terms ?w ! ?i"
  have t: "wm_current ?w = Some ?t" "term_ok ?t" using w by (simp_all add: wm_current_def loadi_Some)
  have "wm_blit ?t (w_vga ?w) = Some (vga_image ?t)" using wm_blit_eq [OF t(2), of "w_vga ?w"] w(4) by simp
  then have "show_term s = Some (s\<lparr>sy_wm := ?w\<lparr>w_vga := vga_image ?t\<rparr>\<rparr>)" using t by (simp add: show_term_def wm_show_def)
  moreover have "length (vga_image ?t) = 4000" using t(2) by (simp add: term_ok_def)
  then have "sys_ok (s\<lparr>sy_wm := ?w\<lparr>w_vga := vga_image ?t\<rparr>\<rparr>)" using assms by (simp add: sys_ok_def screen_ok_def)
  ultimately show thesis by (rule that)
qed

lemma show_row_ok:
  assumes "sys_ok s" and "0 \<le> y" "y < 25"
  obtains w where "show_row y s = Some (s\<lparr>sy_wm := w\<rparr>)" "sys_ok (s\<lparr>sy_wm := w\<rparr>)"
proof -
  let ?w = "sy_wm s" and ?i = "nat (w_current_term (sy_wm s))"
  have w: "0 \<le> w_current_term ?w" "?i < length (w_terms ?w)" "\<forall>t\<in>set (w_terms ?w). term_ok t" "length (w_vga ?w) = 4000"
    using assms(1) by (simp_all add: sys_ok_def screen_ok_def)
  let ?t = "w_terms ?w ! ?i"
  have t: "wm_current ?w = Some ?t" "term_ok ?t" using w by (simp_all add: wm_current_def loadi_Some)
  from wm_blit_row_nth [OF t(2) w(4) assms(2,3)] obtain v where v: "wm_blit_row ?t y (w_vga ?w) = Some v" "length v = 4000" by blast
  have "show_row y s = Some (s\<lparr>sy_wm := ?w\<lparr>w_vga := v\<rparr>\<rparr>)" using t v by (simp add: show_row_def)
  moreover have "sys_ok (s\<lparr>sy_wm := ?w\<lparr>w_vga := v\<rparr>\<rparr>)" using assms(1) v(2) by (simp add: sys_ok_def screen_ok_def)
  ultimately show thesis by (rule that)
qed

lemma put_chars_ok: "term_ok t \<Longrightarrow> \<exists>t'. put_chars bs color t = Some t' \<and> term_ok t'"
proof (induction bs arbitrary: t)
  case (Cons c bs)
  from term_putchar_ok [OF Cons.prems] obtain t1 where "term_putchar t c color = Some t1" "term_ok t1" by blast
  with Cons.IH [of t1] show ?case by simp
qed simp

lemma sys_write_ok:
  assumes "sys_ok s"
  obtains w where "sys_write bs s = Some (s\<lparr>sy_wm := w\<rparr>)" "sys_ok (s\<lparr>sy_wm := w\<rparr>)"
proof -
  obtain w where w: "with_term (put_chars bs (VGA_COLOR 0 15)) s = Some (s\<lparr>sy_wm := w\<rparr>)" "sys_ok (s\<lparr>sy_wm := w\<rparr>)"
    by (rule with_term_ok [OF assms put_chars_ok])
  obtain w' where "show_term (s\<lparr>sy_wm := w\<rparr>) = Some (s\<lparr>sy_wm := w\<rparr>\<lparr>sy_wm := w'\<rparr>)" "sys_ok (s\<lparr>sy_wm := w\<rparr>\<lparr>sy_wm := w'\<rparr>)"
    by (rule show_term_ok [OF w(2)])
  with w(1) show thesis by (intro that [of w']) (simp_all add: sys_write_def)
qed

lemma clear_ok:
  assumes "sys_ok s"
  obtains w where "with_term term_clear s \<bind> show_term = Some (s\<lparr>sy_wm := w\<rparr>)" "sys_ok (s\<lparr>sy_wm := w\<rparr>)"
proof -
  obtain w where w: "with_term term_clear s = Some (s\<lparr>sy_wm := w\<rparr>)" "sys_ok (s\<lparr>sy_wm := w\<rparr>)"
    by (rule with_term_ok [OF assms term_clear_ok])
  obtain w' where "show_term (s\<lparr>sy_wm := w\<rparr>) = Some (s\<lparr>sy_wm := w\<rparr>\<lparr>sy_wm := w'\<rparr>)" "sys_ok (s\<lparr>sy_wm := w\<rparr>\<lparr>sy_wm := w'\<rparr>)"
    by (rule show_term_ok [OF w(2)])
  with w(1) show thesis by (intro that [of w']) simp_all
qed

lemma putchar_at_ok:
  assumes "sys_ok s"
  obtains w where "putchar_at_call c x y color s = Some (s\<lparr>sy_wm := w\<rparr>)" "sys_ok (s\<lparr>sy_wm := w\<rparr>)"
proof (cases "x < 80 \<and> y < 25")
  case True
  then have r: "0 \<le> uint x" "uint x < 80" "0 \<le> uint y" "uint y < 25" by (auto simp: word_less_def)
  have "\<exists>t'. term_putchar_at t c (uint x) (uint y) color = Some t' \<and> term_ok t'" if "term_ok t" for t
    using term_putchar_at_eq [OF that r] that by (simp add: term_ok_def)
  then obtain w where w: "with_term (\<lambda>t. term_putchar_at t c (uint x) (uint y) color) s = Some (s\<lparr>sy_wm := w\<rparr>)" "sys_ok (s\<lparr>sy_wm := w\<rparr>)"
    by (rule with_term_ok [OF assms]) blast
  obtain w' where "show_row (uint y) (s\<lparr>sy_wm := w\<rparr>) = Some (s\<lparr>sy_wm := w\<rparr>\<lparr>sy_wm := w'\<rparr>)" "sys_ok (s\<lparr>sy_wm := w\<rparr>\<lparr>sy_wm := w'\<rparr>)"
    by (rule show_row_ok [OF w(2) r(3,4)])
  with w(1) True show thesis by (intro that [of w']) (simp_all add: putchar_at_call_def)
next
  case False
  then show thesis using assms by (intro that [of "sy_wm s"]) (auto simp: putchar_at_call_def)
qed

lemma goto_ok:
  assumes "sys_ok s"
  obtains w where "goto_call x y s = Some (s\<lparr>sy_wm := w\<rparr>)" "sys_ok (s\<lparr>sy_wm := w\<rparr>)"
proof (cases "x < 80 \<and> y < 25")
  case True
  then have r: "0 \<le> uint x" "uint x < 80" "0 \<le> uint y" "uint y < 25" by (auto simp: word_less_def)
  have "screen_ok (sy_wm s)" using assms by (simp add: sys_ok_def)
  then obtain t where t: "wm_current (sy_wm s) = Some t" "term_ok t"
    by (auto simp: screen_ok_def wm_current_def loadi_Some)
  have oy: "0 \<le> t_cursor_y t" "t_cursor_y t < 25" using t(2) by (simp_all add: term_ok_def)
  have "\<exists>t'. Some (t\<lparr>t_cursor_x := uint x, t_cursor_y := uint y\<rparr>) = Some t' \<and> term_ok t'" if "term_ok t" for t
    using that r by (simp add: term_ok_def)
  then obtain w where w: "with_term (\<lambda>t. Some (t\<lparr>t_cursor_x := uint x, t_cursor_y := uint y\<rparr>)) s = Some (s\<lparr>sy_wm := w\<rparr>)"
      "sys_ok (s\<lparr>sy_wm := w\<rparr>)"
    by (rule with_term_ok [OF assms]) blast
  obtain w1 where w1: "show_row (t_cursor_y t) (s\<lparr>sy_wm := w\<rparr>) = Some (s\<lparr>sy_wm := w\<rparr>\<lparr>sy_wm := w1\<rparr>)" "sys_ok (s\<lparr>sy_wm := w\<rparr>\<lparr>sy_wm := w1\<rparr>)"
    by (rule show_row_ok [OF w(2) oy])
  obtain w2 where w2: "show_row (uint y) (s\<lparr>sy_wm := w1\<rparr>) = Some (s\<lparr>sy_wm := w1\<rparr>\<lparr>sy_wm := w2\<rparr>)" "sys_ok (s\<lparr>sy_wm := w1\<rparr>\<lparr>sy_wm := w2\<rparr>)"
    by (rule show_row_ok [of "s\<lparr>sy_wm := w1\<rparr>", OF _ r(3,4)]) (use w1(2) in simp)
  show thesis
  proof (cases "t_cursor_y t = uint y")
    case True
    then show thesis using t w w1 \<open>x < 80 \<and> y < 25\<close> by (intro that [of w1]) (simp_all add: goto_call_def)
  next
    case False
    then show thesis using t w w1 w2 \<open>x < 80 \<and> y < 25\<close> by (intro that [of w2]) (simp_all add: goto_call_def)
  qed
next
  case False
  then show thesis using assms by (intro that [of "sy_wm s"]) (auto simp: goto_call_def)
qed

section \<open>The system call as a whole\<close>

lemma kbd_getc_ok: "kbd_getc k = Some (c, k') \<Longrightarrow> kbd_ok k \<Longrightarrow> kbd_ok k'"
proof -
  assume g: "kbd_getc k = Some (c, k')" and ok: "kbd_ok k"
  then obtain sc k1 where k1: "kbd_take k = Some (sc, k1)" "kbd_decode sc k1 = (c, k')"
    by (auto simp: kbd_getc_def split: bind_splits)
  have "kbd_ok k1" using kbd_take_Some [OF ok k1(1)] by blast
  then show "kbd_ok k'" using decode_ok [of sc k1] k1(2) by simp
qed

lemma wait_key_ok:
  assumes "wait_key keys k = Some r" and "kbd_ok k"
  shows "fst r \<noteq> 0 \<and> kbd_ok (snd (snd r))"
proof -
  have "kbd_ok k \<longrightarrow> fst r \<noteq> 0 \<and> kbd_ok (snd (snd r))"
  proof (rule wait_key.raw_induct [OF _ assms(1), of "\<lambda>keys k r. kbd_ok k \<longrightarrow> fst r \<noteq> 0 \<and> kbd_ok (snd (snd r))"])
    fix w :: "byte list \<Rightarrow> kbd \<Rightarrow> (u32 \<times> byte list \<times> kbd) option" and keys k r
    assume ih: "\<And>keys k r. w keys k = Some r \<Longrightarrow> kbd_ok k \<longrightarrow> fst r \<noteq> 0 \<and> kbd_ok (snd (snd r))"
      and b: "(case kbd_getc k of None \<Rightarrow> (case keys of [] \<Rightarrow> None | sc # keys \<Rightarrow> w keys (keyboard_handler sc k))
         | Some (c, k) \<Rightarrow> if c \<noteq> 0 then Some (c, keys, k) else w keys k) = Some r"
    show "kbd_ok k \<longrightarrow> fst r \<noteq> 0 \<and> kbd_ok (snd (snd r))"
    proof (cases "kbd_getc k")
      case None
      then obtain sc ks where "keys = sc # ks" "w ks (keyboard_handler sc k) = Some r" using b by (auto split: list.splits)
      then show ?thesis using ih kbd_ok_handler by blast
    next
      case (Some ck)
      obtain c k1 where ck: "ck = (c, k1)" by (cases ck)
      show ?thesis
      proof (cases "c = 0")
        case True
        then show ?thesis using b ih [of keys k1 r] kbd_getc_ok [of k c k1] Some ck by simp
      next
        case False
        then show ?thesis using b kbd_getc_ok [of k c k1] Some ck by auto
      qed
    qed
  qed
  with assms(2) show ?thesis by blast
qed

lemma file_effect_ok:
  assumes "file_effect dk oc oc'" and "sys_ok (oc_sys oc)"
  shows "sys_ok (oc_sys oc')"
  using assms by (auto simp: file_effect_def sys_ok_def intro: fs_call_ok)

lemma file_effect_user:
  assumes "file_effect dk oc oc'" and "unat (x - r_ecx (oc_regs oc)) \<ge> snd (out_buffer (oc_regs oc))"
  shows "oc_user oc' x = oc_user oc x"
  using assms by (auto simp: file_effect_def put_region_out)

text \<open>Every call but those on files and getc answers, and touches neither the caller's memory nor the keys.\<close>

definition quiet :: "(exit_fn \<Rightarrow> u32) \<Rightarrow> 'd outcome \<Rightarrow> 'd outcome \<Rightarrow> bool" where
  "quiet entry oc oc' \<longleftrightarrow> sys_ok (oc_sys oc') \<and> oc_user oc' = oc_user oc \<and> oc_keys oc' = oc_keys oc \<and>
     oc_frame oc' = (if r_eax (oc_regs oc) = 2 then (entry (sy_exit (oc_sys oc)), 8) else oc_frame oc)"

lemma quiet_screen:
  "sys_ok (oc_sys oc\<lparr>sy_wm := w\<rparr>) \<Longrightarrow> r_eax (oc_regs oc) \<noteq> 2 \<Longrightarrow> quiet entry oc (set_sys (oc_sys oc\<lparr>sy_wm := w\<rparr>) oc)"
  by (simp add: quiet_def set_sys_def)

lemma direct_call:
  assumes "sys_ok (oc_sys oc)" and "r_eax (oc_regs oc) \<in> {1, 2, 7, 8, 9, 10, 11}"
  shows "\<exists>oc'. syscall_handler dk entry oc = Some oc' \<and> quiet entry oc oc'"
proof -
  let ?r = "oc_regs oc" and ?s = "oc_sys oc"
  consider "r_eax ?r = 1" | "r_eax ?r = 2" | "r_eax ?r = 7" | "r_eax ?r = 8" | "r_eax ?r = 9" | "r_eax ?r = 10" | "r_eax ?r = 11"
    using assms(2) by blast
  then show ?thesis
  proof cases
    case 1
    obtain w where "sys_write (region (oc_user oc) (r_ebx ?r) (unat (r_ecx ?r))) ?s = Some (?s\<lparr>sy_wm := w\<rparr>)" "sys_ok (?s\<lparr>sy_wm := w\<rparr>)"
      by (rule sys_write_ok [OF assms(1)])
    then show ?thesis using 1 by (simp add: syscall_handler_def Let_def quiet_screen)
  next
    case 4
    obtain w where "with_term term_clear ?s \<bind> show_term = Some (?s\<lparr>sy_wm := w\<rparr>)" "sys_ok (?s\<lparr>sy_wm := w\<rparr>)"
      by (rule clear_ok [OF assms(1)])
    then show ?thesis using 4 by (simp add: syscall_handler_def Let_def quiet_screen)
  next
    case 5
    obtain w where "putchar_at_call (ucast (r_ebx ?r)) (r_ecx ?r) (r_edx ?r) (ucast (r_esi ?r)) ?s = Some (?s\<lparr>sy_wm := w\<rparr>)"
      "sys_ok (?s\<lparr>sy_wm := w\<rparr>)" by (rule putchar_at_ok [OF assms(1)])
    then show ?thesis using 5 by (simp add: syscall_handler_def Let_def quiet_screen)
  next
    case 6
    obtain w where "goto_call (r_ebx ?r) (r_ecx ?r) ?s = Some (?s\<lparr>sy_wm := w\<rparr>)" "sys_ok (?s\<lparr>sy_wm := w\<rparr>)"
      by (rule goto_ok [OF assms(1)])
    then show ?thesis using 6 by (simp add: syscall_handler_def Let_def quiet_screen)
  next
    case 7
    have b: "USER_BASE \<le> brk (sy_mem ?s)" "brk (sy_mem ?s) \<le> USER_STACK" using assms(1) by (simp_all add: sys_ok_def)
    obtain v m where v: "vm_sbrk (r_ebx ?r) (sy_mem ?s) = (v, m)" by fastforce
    have "USER_BASE \<le> brk m \<and> brk m \<le> USER_STACK"
      using vm_sbrk_eq [OF b, of "r_ebx ?r"] v b
      by (auto simp: word_le_nat_alt unat_add_no_wrap USER_BASE_def USER_STACK_def split: if_splits)
    then show ?thesis using 7 v assms(1) by (simp add: syscall_handler_def Let_def quiet_def sys_ok_def)
  qed (use assms(1) in \<open>simp_all add: syscall_handler_def Let_def quiet_def set_sys_def sys_ok_def\<close>)
qed

lemma handler_cases:
  assumes "syscall_handler dk entry oc = Some oc'" and "sys_ok (oc_sys oc)"
  shows "sys_ok (oc_sys oc') \<and>
    (\<forall>x. unat (x - r_ecx (oc_regs oc)) \<ge> snd (out_buffer (oc_regs oc)) \<longrightarrow> oc_user oc' x = oc_user oc x) \<and>
    (r_eax (oc_regs oc) \<noteq> 2 \<longrightarrow> oc_frame oc' = oc_frame oc)"
proof -
  let ?n = "r_eax (oc_regs oc)"
  consider "?n \<in> {1, 2, 7, 8, 9, 10, 11}" | "?n = 3" | "?n \<notin> {1, 2, 3, 7, 8, 9, 10, 11}" by blast
  then show ?thesis
  proof cases
    case 1
    from direct_call [OF assms(2) 1, of dk entry] assms(1) have "quiet entry oc oc'" by auto
    then show ?thesis by (auto simp: quiet_def)
  next
    case 2
    then obtain c keys k where "wait_key (oc_keys oc) (sy_kbd (oc_sys oc)) = Some (c, keys, k)"
      "oc' = oc\<lparr>oc_regs := (oc_regs oc)\<lparr>r_eax := c\<rparr>, oc_keys := keys, oc_sys := (oc_sys oc)\<lparr>sy_kbd := k\<rparr>\<rparr>"
      using assms(1) by (auto simp: syscall_handler_def Let_def split: bind_splits)
    with wait_key_ok [of "oc_keys oc" "sy_kbd (oc_sys oc)" "(c, keys, k)"] assms(2) show ?thesis by (simp add: sys_ok_def)
  next
    case 3
    then have "file_call dk oc = Some oc'" using assms(1) by (simp add: syscall_handler_def Let_def)
    note e = file_call_effect [OF this]
    have "oc_frame oc' = oc_frame oc" using e by (simp add: file_effect_def)
    then show ?thesis using file_effect_ok [OF e assms(2)] file_effect_user [OF e] by blast
  qed
qed

text \<open>No system call that returns, whatever its number, registers and memory and whatever the disk does, breaks
  the kernel (SyscallTotal.thy shows when it returns): the handle table keeps one writer, every terminal's cursor and cells stay in range, the key ring and
  the break stay in bounds. Of the caller's memory a call changes only the buffer it was given, and then only
  the calls that read; the return address changes on exit alone.\<close>

theorem syscall_safe:
  assumes "sys_ok (oc_sys oc)" and "syscall_handler dk entry oc = Some oc'"
  shows "sys_ok (oc_sys oc') \<and>
    (\<forall>x. unat (x - r_ecx (oc_regs oc)) \<ge> (if r_eax (oc_regs oc) \<in> {4, 6, 13} then unat (r_edx (oc_regs oc)) else 0) \<longrightarrow>
      oc_user oc' x = oc_user oc x) \<and>
    (r_eax (oc_regs oc) \<noteq> 2 \<longrightarrow> oc_frame oc' = oc_frame oc)"
  using handler_cases [OF assms(2,1)] by (simp add: out_buffer_def)

text \<open>The calls on the screen, the break and the exit always answer, the exit into the kernel's code at the
  chosen function.\<close>

theorem syscall_answers:
  assumes "sys_ok (oc_sys oc)" and "r_eax (oc_regs oc) \<in> {1, 2, 7, 8, 9, 10, 11}"
  shows "\<exists>oc'. syscall_handler dk entry oc = Some oc' \<and> oc_user oc' = oc_user oc \<and>
    (r_eax (oc_regs oc) = 2 \<longrightarrow> oc_frame oc' = (entry (sy_exit (oc_sys oc)), 8))"
  using direct_call [OF assms, of dk entry] by (auto simp: quiet_def)

section \<open>A concrete machine\<close>

definition no_disk :: "unit disk" where
  "no_disk = \<lparr>dk_read = (\<lambda>_ d. (None, d)), dk_write = (\<lambda>_ _ d. (False, d))\<rparr>"

definition tiny_sys :: "unit sys" where
  "tiny_sys = \<lparr>sy_fs = fs_boot (superblock_of (replicate 512 0)) (),
     sy_wm = \<lparr>w_terms = replicate 10 term_blank, w_current_term = 0, w_vga = replicate 4000 0\<rparr>,
     sy_kbd = kbd_init, sy_mem = tiny\<lparr>brk := 0x401000\<rparr>, sy_exit = exit_to_shell\<rparr>"

lemma tiny_sys_ok: "sys_ok tiny_sys"
  by (simp add: sys_ok_def tiny_sys_def fs_boot_ok screen_ok_def USER_BASE_def USER_STACK_def)

definition tiny_call :: "u32 \<Rightarrow> u32 \<Rightarrow> u32 \<Rightarrow> u32 \<Rightarrow> unit outcome" where
  "tiny_call n b c d = \<lparr>oc_regs = \<lparr>r_esi = 0, r_ebx = b, r_edx = d, r_ecx = c, r_eax = n\<rparr>, oc_frame = (0, 0),
     oc_user = (\<lambda>_. 65), oc_keys = [0x1E], oc_sys = tiny_sys\<rparr>"

lemma syscall_safe_witness:
  "\<exists>oc. syscall_handler no_disk (\<lambda>_. 0) (tiny_call 13 9 0x401000 16) = Some oc \<and> sys_ok (oc_sys oc) \<and>
    r_eax (oc_regs oc) = -1 \<and> oc_user oc 0x401010 = 65"
proof -
  let ?oc = "tiny_call 13 9 0x401000 16"
  have ok: "sys_ok (oc_sys ?oc)" by (simp add: tiny_call_def tiny_sys_ok)
  have l: "fd_lookup 9 (sy_fs tiny_sys) = None"
    by (simp add: fd_lookup_def tiny_sys_def fs_boot_def handle_zero_def fs_consts)
  obtain oc' where c: "syscall_handler no_disk (\<lambda>_. 0) ?oc = Some oc'" "r_eax (oc_regs oc') = -1"
    by (simp add: syscall_handler_def file_call_def tiny_call_def Let_def fs_read_fd_def l ret_def set_fs_def)
  from syscall_safe [OF ok c(1)] have "oc_user oc' 0x401010 = 65" "sys_ok (oc_sys oc')"
    by (simp_all add: tiny_call_def)
  with c show ?thesis by blast
qed

lemma syscall_answers_witness:
  "\<exists>oc. syscall_handler no_disk (\<lambda>f. if f = exit_to_shell then 0x1234 else 0) (tiny_call 2 0 0 0) = Some oc \<and>
    oc_frame oc = (0x1234, 8)"
proof -
  let ?oc = "tiny_call 2 0 0 0"
  have "sys_ok (oc_sys ?oc)" "r_eax (oc_regs ?oc) \<in> {1, 2, 7, 8, 9, 10, 11}" by (simp_all add: tiny_call_def tiny_sys_ok)
  from syscall_answers [OF this, of no_disk "\<lambda>f. if f = exit_to_shell then 0x1234 else 0"] show ?thesis
    by (auto simp: tiny_call_def tiny_sys_def)
qed

end
