(* ===== verification/UserApi.thy ===== *)
theory UserApi
  imports SyscallSpec
begin

text \<open>
home/lib/user_api.h: the system call stubs a program uses, and what the calls on the screen and the keys do to the
  machine: the terminal shown changes as the call says and the VGA buffer is its image again.
\<close>

section \<open>The stubs\<close>

text \<open>What \<open>int $0x80\<close> reaches: the disk and the kernel's addresses. A register a stub does not name keeps its value.\<close>

record 'd kernel =
  k_disk :: "'d disk"
  k_entry :: "exit_fn \<Rightarrow> u32"

definition int80 :: "'d kernel \<Rightarrow> (regs \<Rightarrow> regs) \<Rightarrow> 'd outcome \<Rightarrow> 'd outcome option" where
  "int80 k f oc = syscall_handler (k_disk k) (k_entry k) (oc\<lparr>oc_regs := f (oc_regs oc)\<rparr>)"

text \<open>A stub that returns eax.\<close>

definition int80_eax :: "'d kernel \<Rightarrow> (regs \<Rightarrow> regs) \<Rightarrow> 'd outcome \<Rightarrow> (u32 \<times> 'd outcome) option" where
  "int80_eax k f oc = do { oc \<leftarrow> int80 k f oc; Some (r_eax (oc_regs oc), oc) }"

definition sys_write_u :: "'d kernel \<Rightarrow> u32 \<Rightarrow> u32 \<Rightarrow> 'd outcome \<Rightarrow> 'd outcome option" where
  "sys_write_u k buf len = int80 k (\<lambda>r. r\<lparr>r_eax := 1, r_ebx := buf, r_ecx := len\<rparr>)"

definition sys_exit :: "'d kernel \<Rightarrow> 'd outcome \<Rightarrow> 'd outcome option" where
  "sys_exit k = int80 k (\<lambda>r. r\<lparr>r_eax := 2\<rparr>)"

definition sys_exit_to :: "'d kernel \<Rightarrow> u32 \<Rightarrow> 'd outcome \<Rightarrow> 'd outcome option" where
  "sys_exit_to k mode = int80 k (\<lambda>r. r\<lparr>r_eax := 7, r_ebx := mode\<rparr>)"

definition sys_clear :: "'d kernel \<Rightarrow> 'd outcome \<Rightarrow> 'd outcome option" where
  "sys_clear k = int80 k (\<lambda>r. r\<lparr>r_eax := 8\<rparr>)"

definition sys_putchar_at :: "'d kernel \<Rightarrow> byte \<Rightarrow> u32 \<Rightarrow> u32 \<Rightarrow> u32 \<Rightarrow> 'd outcome \<Rightarrow> 'd outcome option" where
  "sys_putchar_at k c x y color =
     int80 k (\<lambda>r. r\<lparr>r_eax := 9, r_ebx := scast c, r_ecx := x, r_edx := y, r_esi := color\<rparr>)"

definition sys_goto_xy :: "'d kernel \<Rightarrow> u32 \<Rightarrow> u32 \<Rightarrow> 'd outcome \<Rightarrow> 'd outcome option" where
  "sys_goto_xy k x y = int80 k (\<lambda>r. r\<lparr>r_eax := 10, r_ebx := x, r_ecx := y\<rparr>)"

text \<open>The length loop of sys_print.\<close>

partial_function (option) print_len :: "umem \<Rightarrow> u32 \<Rightarrow> u32 \<Rightarrow> u32 option" where
  "print_len u s len = (if u (s + len) \<noteq> 0 then print_len u s (len + 1) else Some len)"

definition sys_print :: "'d kernel \<Rightarrow> u32 \<Rightarrow> 'd outcome \<Rightarrow> 'd outcome option" where
  "sys_print k s oc = do { len \<leftarrow> print_len (oc_user oc) s 0; sys_write_u k s len oc }"

definition sys_getc :: "'d kernel \<Rightarrow> 'd outcome \<Rightarrow> (u32 \<times> 'd outcome) option" where
  "sys_getc k = int80_eax k (\<lambda>r. r\<lparr>r_eax := 3\<rparr>)"

definition sys_read_file :: "'d kernel \<Rightarrow> u32 \<Rightarrow> u32 \<Rightarrow> u32 \<Rightarrow> 'd outcome \<Rightarrow> (u32 \<times> 'd outcome) option" where
  "sys_read_file k name buf maxlen = int80_eax k (\<lambda>r. r\<lparr>r_eax := 4, r_ebx := name, r_ecx := buf, r_edx := maxlen\<rparr>)"

definition sys_write_file :: "'d kernel \<Rightarrow> u32 \<Rightarrow> u32 \<Rightarrow> u32 \<Rightarrow> 'd outcome \<Rightarrow> (u32 \<times> 'd outcome) option" where
  "sys_write_file k name buf len = int80_eax k (\<lambda>r. r\<lparr>r_eax := 5, r_ebx := name, r_ecx := buf, r_edx := len\<rparr>)"

definition sys_list :: "'d kernel \<Rightarrow> u32 \<Rightarrow> u32 \<Rightarrow> u32 \<Rightarrow> 'd outcome \<Rightarrow> (u32 \<times> 'd outcome) option" where
  "sys_list k path buf maxlen = int80_eax k (\<lambda>r. r\<lparr>r_eax := 6, r_ebx := path, r_ecx := buf, r_edx := maxlen\<rparr>)"

definition sys_sbrk_u :: "'d kernel \<Rightarrow> u32 \<Rightarrow> 'd outcome \<Rightarrow> (u32 \<times> 'd outcome) option" where
  "sys_sbrk_u k inc = int80_eax k (\<lambda>r. r\<lparr>r_eax := 11, r_ebx := inc\<rparr>)"

definition sys_open :: "'d kernel \<Rightarrow> u32 \<Rightarrow> u32 \<Rightarrow> 'd outcome \<Rightarrow> (u32 \<times> 'd outcome) option" where
  "sys_open k name flags = int80_eax k (\<lambda>r. r\<lparr>r_eax := 12, r_ebx := name, r_ecx := flags\<rparr>)"

definition sys_read :: "'d kernel \<Rightarrow> u32 \<Rightarrow> u32 \<Rightarrow> u32 \<Rightarrow> 'd outcome \<Rightarrow> (u32 \<times> 'd outcome) option" where
  "sys_read k fd buf n = int80_eax k (\<lambda>r. r\<lparr>r_eax := 13, r_ebx := fd, r_ecx := buf, r_edx := n\<rparr>)"

definition sys_fwrite :: "'d kernel \<Rightarrow> u32 \<Rightarrow> u32 \<Rightarrow> u32 \<Rightarrow> 'd outcome \<Rightarrow> (u32 \<times> 'd outcome) option" where
  "sys_fwrite k fd buf n = int80_eax k (\<lambda>r. r\<lparr>r_eax := 14, r_ebx := fd, r_ecx := buf, r_edx := n\<rparr>)"

definition sys_lseek :: "'d kernel \<Rightarrow> u32 \<Rightarrow> u32 \<Rightarrow> u32 \<Rightarrow> 'd outcome \<Rightarrow> (u32 \<times> 'd outcome) option" where
  "sys_lseek k fd off whence = int80_eax k (\<lambda>r. r\<lparr>r_eax := 15, r_ebx := fd, r_ecx := off, r_edx := whence\<rparr>)"

definition sys_close :: "'d kernel \<Rightarrow> u32 \<Rightarrow> 'd outcome \<Rightarrow> (u32 \<times> 'd outcome) option" where
  "sys_close k fd = int80_eax k (\<lambda>r. r\<lparr>r_eax := 16, r_ebx := fd\<rparr>)"

definition sys_unlink :: "'d kernel \<Rightarrow> u32 \<Rightarrow> 'd outcome \<Rightarrow> (u32 \<times> 'd outcome) option" where
  "sys_unlink k name = int80_eax k (\<lambda>r. r\<lparr>r_eax := 17, r_ebx := name\<rparr>)"

section \<open>The screen\<close>

text \<open>The terminal on the screen; the screen shows it when the VGA buffer is its image.\<close>

definition cur_term :: "'d sys \<Rightarrow> terminal" where
  "cur_term s = w_terms (sy_wm s) ! nat (w_current_term (sy_wm s))"

definition shown :: "'d sys \<Rightarrow> bool" where
  "shown s \<longleftrightarrow> w_vga (sy_wm s) = vga_image (cur_term s)"

text \<open>The system with another terminal and screen contents.\<close>

definition redraw :: "terminal \<Rightarrow> byte list \<Rightarrow> 'd sys \<Rightarrow> 'd sys" where
  "redraw t v s = s\<lparr>sy_wm := (sy_wm s)\<lparr>w_terms := (w_terms (sy_wm s))[nat (w_current_term (sy_wm s)) := t], w_vga := v\<rparr>\<rparr>"

lemma kernel_okD:
  assumes "kernel_ok s"
  shows "0 \<le> w_current_term (sy_wm s)" "nat (w_current_term (sy_wm s)) < length (w_terms (sy_wm s))"
    "length (w_vga (sy_wm s)) = 4000" "term_ok (cur_term s)"
  using assms by (simp_all add: kernel_ok_def screen_ok_def cur_term_def)

lemma kernel_redraw_ok:
  assumes "kernel_ok s" and "term_ok t" and "length v = 4000"
  shows "kernel_ok (redraw t v s)" "cur_term (redraw t v s) = t" "w_vga (sy_wm (redraw t v s)) = v"
    "redraw t' v' (redraw t v s) = redraw t' v' s"
  using kernel_okD [OF assms(1)] assms set_update_subset_insert [of "w_terms (sy_wm s)" "nat (w_current_term (sy_wm s))" t]
  by (auto simp: redraw_def cur_term_def kernel_ok_def screen_ok_def)

lemma redraw_same: "redraw (cur_term s) (w_vga (sy_wm s)) s = s"
  by (simp add: redraw_def cur_term_def)

lemma kernel_with_term_eq:
  "kernel_ok s \<Longrightarrow> f (cur_term s) = Some t \<Longrightarrow> with_term f s = Some (redraw t (w_vga (sy_wm s)) s)"
  using kernel_okD [of s]
  by (simp add: with_term_def wm_current_def wm_update_def loadi_Some storei_Some cur_term_def redraw_def)

lemma kernel_current_eq: "kernel_ok s \<Longrightarrow> wm_current (sy_wm s) = Some (cur_term s)"
  using kernel_okD [of s] by (simp add: wm_current_def loadi_Some cur_term_def)

lemma kernel_show_term_eq: "kernel_ok s \<Longrightarrow> show_term s = Some (redraw (cur_term s) (vga_image (cur_term s)) s)"
  using kernel_okD [of s] wm_blit_eq [of "cur_term s" "w_vga (sy_wm s)"]
  by (simp add: show_term_def wm_show_def kernel_current_eq redraw_def) (simp add: cur_term_def)

lemma redraw_rest: "sy_mem (redraw t v s) = sy_mem s"
  by (simp add: redraw_def)

lemma redraw_ok:
  assumes "sys_ok s" and "term_ok t" and "length v = 4000"
  shows "sys_ok (redraw t v s)" "cur_term (redraw t v s) = t" "w_vga (sy_wm (redraw t v s)) = v"
    "redraw t' v' (redraw t v s) = redraw t' v' s"
  using kernel_redraw_ok [OF _ assms(2,3), of s] assms(1) by (simp_all add: sys_kernel_ok redraw_rest)

lemma sys_is_ok: "sys_ok s \<Longrightarrow> kernel_ok s"
  by (simp add: sys_kernel_ok)

lemmas sys_okD = kernel_okD [OF sys_is_ok]
lemmas with_term_eq = kernel_with_term_eq [OF sys_is_ok]
lemmas current_eq = kernel_current_eq [OF sys_is_ok]
lemmas show_term_eq = kernel_show_term_eq [OF sys_is_ok]

lemma show_row_eq:
  assumes "sys_ok s" and "0 \<le> y" "y < 25"
    and "\<And>k. k < 4000 \<Longrightarrow> k div 160 \<noteq> nat y \<Longrightarrow> w_vga (sy_wm s) ! k = vga_image (cur_term s) ! k"
  shows "show_row y s = Some (redraw (cur_term s) (vga_image (cur_term s)) s)"
proof -
  note s = sys_okD [OF assms(1)]
  from wm_blit_row_nth [OF s(4,3) assms(2,3)] obtain v where v: "wm_blit_row (cur_term s) y (w_vga (sy_wm s)) = Some v"
    "length v = 4000" "\<And>k. k < 4000 \<Longrightarrow> v ! k = (if nat y = k div 160 then vga_image (cur_term s) ! k else w_vga (sy_wm s) ! k)"
    by blast
  have "v = vga_image (cur_term s)"
  proof (rule nth_equalityI)
    show "length v = length (vga_image (cur_term s))" using v(2) s(4) by (simp add: term_ok_def)
    show "v ! k = vga_image (cur_term s) ! k" if "k < length v" for k
      using v(3) [of k] assms(4) [of k] that v(2) by auto
  qed
  with v(1) show ?thesis by (simp add: show_row_def current_eq [OF assms(1)] redraw_def) (simp add: cur_term_def)
qed


section \<open>Calls on the screen\<close>

text \<open>\<open>oc'\<close> is \<open>oc\<close> with the terminal \<open>t\<close> on the screen; only registers differ besides.\<close>

definition shows_term :: "terminal \<Rightarrow> 'd outcome \<Rightarrow> 'd outcome \<Rightarrow> bool" where
  "shows_term t oc oc' \<longleftrightarrow> term_ok t \<and> oc_user oc' = oc_user oc \<and> oc_keys oc' = oc_keys oc \<and> oc_frame oc' = oc_frame oc \<and>
     oc_sys oc' = redraw t (vga_image t) (oc_sys oc)"

lemma shows_termD:
  assumes "shows_term t oc oc'" and "sys_ok (oc_sys oc)"
  shows "sys_ok (oc_sys oc')" "shown (oc_sys oc')" "cur_term (oc_sys oc') = t" "sy_kbd (oc_sys oc') = sy_kbd (oc_sys oc)"
    "oc_keys oc' = oc_keys oc" "oc_user oc' = oc_user oc" "term_ok t"
  using assms redraw_ok [OF assms(2), of t "vga_image t"]
  by (auto simp: shows_term_def term_ok_def shown_def) (simp add: redraw_def)

lemma shows_term_trans:
  assumes "shows_term t oc oc1" and "shows_term t' oc1 oc2" and "sys_ok (oc_sys oc)"
  shows "shows_term t' oc oc2"
  using assms redraw_ok(4) [OF assms(3), of t "vga_image t"] by (auto simp: shows_term_def term_ok_def)

lemma shows_term_refl:
  assumes "sys_ok (oc_sys oc)" and "shown (oc_sys oc)"
  shows "shows_term (cur_term (oc_sys oc)) oc oc"
  using assms(2) redraw_same [of "oc_sys oc"] sys_okD(4) [OF assms(1)] by (simp add: shows_term_def shown_def)

lemma shows_set_sys:
  "term_ok t \<Longrightarrow> oc_sys oc = s \<Longrightarrow> shows_term t oc (set_sys (redraw t (vga_image t) s) (oc\<lparr>oc_regs := r\<rparr>))"
  by (simp add: shows_term_def set_sys_def)

lemma redraw_vga: "redraw t' v' (redraw t v s) = redraw t' v' s"
  by (simp add: redraw_def)

lemma sys_clear_eq:
  assumes "sys_ok (oc_sys oc)"
  obtains oc' where "sys_clear k oc = Some oc'"
    "shows_term ((cur_term (oc_sys oc))\<lparr>t_cells := blanks (t_color (cur_term (oc_sys oc))) 2000, t_cursor_x := 0, t_cursor_y := 0\<rparr>) oc oc'"
proof -
  let ?s = "oc_sys oc"
  let ?t = "(cur_term ?s)\<lparr>t_cells := blanks (t_color (cur_term ?s)) 2000, t_cursor_x := 0, t_cursor_y := 0\<rparr>"
  note s = sys_okD [OF assms]
  have t: "term_clear (cur_term ?s) = Some ?t" "term_ok ?t" using s(4) by (simp_all add: term_clear_eq term_ok_def)
  note r = redraw_ok [OF assms t(2) s(3)]
  have "with_term term_clear ?s \<bind> show_term = Some (redraw ?t (vga_image ?t) ?s)"
    using with_term_eq [OF assms, of term_clear ?t, OF t(1)] show_term_eq [OF r(1)] r(2) by (simp add: redraw_vga)
  then have "sys_clear k oc = Some (set_sys (redraw ?t (vga_image ?t) ?s) (oc\<lparr>oc_regs := (oc_regs oc)\<lparr>r_eax := 8\<rparr>\<rparr>))"
    by (simp add: sys_clear_def int80_def syscall_handler_def Let_def)
  then show thesis by (rule that) (rule shows_set_sys [OF t(2) refl])
qed

lemma put_cell_row:
  assumes "0 \<le> x" "x < 80" "0 \<le> y" "k div 160 \<noteq> nat y"
  shows "put_cell cs x y c color ! k = cs ! k"
proof -
  have "nat ((y * 80 + x) * 2) = 160 * nat y + 2 * nat x" "nat ((y * 80 + x) * 2 + 1) = 160 * nat y + (2 * nat x + 1)" "nat x < 80"
    using assms by auto
  then have "nat ((y * 80 + x) * 2) div 160 = nat y" "nat ((y * 80 + x) * 2 + 1) div 160 = nat y"
    by (simp_all add: div_nat_eqI)
  with assms(4) have "k \<noteq> nat ((y * 80 + x) * 2)" "k \<noteq> nat ((y * 80 + x) * 2 + 1)" by auto
  then show ?thesis by (simp add: put_cell_def)
qed

lemma vga_image_nth:
  "k < length (t_cells t) \<Longrightarrow> vga_image t ! k =
    (if k = nat ((t_cursor_y t * 80 + t_cursor_x t) * 2 + 1) then swap_attr (t_cells t ! k) else t_cells t ! k)"
  by (simp add: vga_image_def Let_def nth_list_update)

text \<open>A cell a program puts is the cell it names, unless the character is a newline, which the kernel skips.\<close>

definition put_at :: "byte \<Rightarrow> int \<Rightarrow> int \<Rightarrow> byte \<Rightarrow> terminal \<Rightarrow> terminal" where
  "put_at c x y color t = (if c = 10 then t else t\<lparr>t_cells := put_cell (t_cells t) x y c color\<rparr>)"

lemma sys_putchar_at_eq:
  assumes "sys_ok (oc_sys oc)" and "shown (oc_sys oc)" and "x < 80" "y < 25"
  obtains oc' where "sys_putchar_at k c x y color oc = Some oc'"
    "shows_term (put_at c (uint x) (uint y) (ucast color) (cur_term (oc_sys oc))) oc oc'"
proof -
  let ?s = "oc_sys oc" and ?t = "put_at c (uint x) (uint y) (ucast color) (cur_term (oc_sys oc))"
  note s = sys_okD [OF assms(1)]
  have xy: "0 \<le> uint x" "uint x < 80" "0 \<le> uint y" "uint y < 25" using assms(3,4) by (auto simp: word_less_def)
  have t: "term_putchar_at (cur_term ?s) c (uint x) (uint y) (ucast color) = Some ?t" "term_ok ?t"
    using term_putchar_at_eq [OF s(4) xy, of c "ucast color"] s(4) by (simp_all add: put_at_def term_ok_def)
  note r = redraw_ok [OF assms(1) t(2) s(3)]
  have cells: "length (t_cells (cur_term ?s)) = 4000" "length (t_cells ?t) = 4000" using s(4) t(2) by (simp_all add: term_ok_def)
  have cur: "t_cursor_x ?t = t_cursor_x (cur_term ?s)" "t_cursor_y ?t = t_cursor_y (cur_term ?s)" by (simp_all add: put_at_def)
  have "w_vga (sy_wm ?s) ! j = vga_image ?t ! j" if "j < 4000" "j div 160 \<noteq> nat (uint y)" for j
  proof -
    have "t_cells ?t ! j = t_cells (cur_term ?s) ! j" using put_cell_row [OF xy(1-3) that(2)] by (simp add: put_at_def)
    then show ?thesis using assms(2) that(1) cells cur by (cases "j = nat ((t_cursor_y (cur_term ?s) * 80 + t_cursor_x (cur_term ?s)) * 2 + 1)") (simp_all add: shown_def vga_image_nth)
  qed
  then have row: "show_row (uint y) (redraw ?t (w_vga (sy_wm ?s)) ?s) = Some (redraw ?t (vga_image ?t) ?s)"
    using show_row_eq [OF r(1) xy(3,4)] r(2,3) by (simp add: redraw_vga)
  have c: "ucast (scast c :: u32) = c" by (rule bit_word_eqI) (simp add: bit_simps)
  have "putchar_at_call c x y (ucast color) ?s = Some (redraw ?t (vga_image ?t) ?s)"
    using with_term_eq [OF assms(1), of "\<lambda>t. term_putchar_at t c (uint x) (uint y) (ucast color)" ?t, OF t(1)] row assms(3,4) by (simp add: putchar_at_call_def)
  then have "sys_putchar_at k c x y color oc = Some (set_sys (redraw ?t (vga_image ?t) ?s)
      (oc\<lparr>oc_regs := (oc_regs oc)\<lparr>r_eax := 9, r_ebx := scast c, r_ecx := x, r_edx := y, r_esi := color\<rparr>\<rparr>))"
    by (simp add: sys_putchar_at_def int80_def syscall_handler_def Let_def c)
  then show thesis by (rule that) (rule shows_set_sys [OF t(2) refl])
qed


lemma vga_image_row:
  assumes "term_ok t" and "t_cells t' = t_cells t" and "k < 4000" and "0 \<le> t_cursor_x t'" "t_cursor_x t' < 80" "0 \<le> t_cursor_y t'"
    and "k div 160 \<noteq> nat (t_cursor_y t)" "k div 160 \<noteq> nat (t_cursor_y t')"
  shows "vga_image t' ! k = vga_image t ! k"
proof -
  have "k \<noteq> nat ((t_cursor_y u * 80 + t_cursor_x u) * 2 + 1)"
    if "0 \<le> t_cursor_x u" "t_cursor_x u < 80" "0 \<le> t_cursor_y u" "k div 160 \<noteq> nat (t_cursor_y u)" for u
  proof -
    have "nat ((t_cursor_y u * 80 + t_cursor_x u) * 2 + 1) = 160 * nat (t_cursor_y u) + (2 * nat (t_cursor_x u) + 1)" "nat (t_cursor_x u) < 80"
      using that(1-3) by auto
    then have "nat ((t_cursor_y u * 80 + t_cursor_x u) * 2 + 1) div 160 = nat (t_cursor_y u)" by (simp add: div_nat_eqI)
    with that(4) show ?thesis by auto
  qed
  from this [of t] this [of t'] show ?thesis using assms by (simp add: vga_image_nth term_ok_def)
qed

definition move_to :: "int \<Rightarrow> int \<Rightarrow> terminal \<Rightarrow> terminal" where
  "move_to x y t = t\<lparr>t_cursor_x := x, t_cursor_y := y\<rparr>"

lemma goto_call_eq:
  assumes "sys_ok s" and "shown s" and "x < 80" "y < 25"
  shows "goto_call x y s = Some (redraw (move_to (uint x) (uint y) (cur_term s)) (vga_image (move_to (uint x) (uint y) (cur_term s))) s)"
proof -
  let ?t = "cur_term s" and ?t' = "move_to (uint x) (uint y) (cur_term s)" and ?oy = "t_cursor_y (cur_term s)"
  note s = sys_okD [OF assms(1)]
  have xy: "0 \<le> uint x" "uint x < 80" "0 \<le> uint y" "uint y < 25" using assms(3,4) by (auto simp: word_less_def)
  have t': "term_ok ?t'" using s(4) xy by (simp add: term_ok_def move_to_def)
  note r = redraw_ok [OF assms(1) t' s(3)]
  have w: "with_term (\<lambda>t. Some (t\<lparr>t_cursor_x := uint x, t_cursor_y := uint y\<rparr>)) s = Some (redraw ?t' (w_vga (sy_wm s)) s)"
    using with_term_eq [OF assms(1), of "\<lambda>t. Some (t\<lparr>t_cursor_x := uint x, t_cursor_y := uint y\<rparr>)" ?t'] by (simp add: move_to_def)
  have oy: "0 \<le> ?oy" "?oy < 25" using s(4) by (simp_all add: term_ok_def)
  have same: "w_vga (sy_wm s) ! j = vga_image ?t' ! j" if "j < 4000" "j div 160 \<noteq> nat ?oy" "j div 160 \<noteq> nat (uint y)" for j
    using vga_image_row [OF s(4), of ?t' j] that xy assms(2) by (simp add: shown_def move_to_def)
  show ?thesis
  proof (cases "?oy = uint y")
    case True
    have "show_row ?oy (redraw ?t' (w_vga (sy_wm s)) s) = Some (redraw ?t' (vga_image ?t') s)"
      using show_row_eq [OF r(1) oy] same r(2,3) True by (simp add: redraw_vga)
    then show ?thesis using w assms(3,4) True by (simp add: goto_call_def current_eq [OF assms(1)] Let_def)
  next
    case False
    let ?s1 = "redraw ?t' (w_vga (sy_wm s)) s"
    have "length (w_vga (sy_wm ?s1)) = 4000" using r(3) s(3) by simp
    from wm_blit_row_nth [OF t' this oy] obtain v where v: "wm_blit_row ?t' ?oy (w_vga (sy_wm ?s1)) = Some v" "length v = 4000"
      "\<And>j. j < 4000 \<Longrightarrow> v ! j = (if nat ?oy = j div 160 then vga_image ?t' ! j else w_vga (sy_wm ?s1) ! j)" by blast
    have s1: "show_row ?oy ?s1 = Some (redraw ?t' v s)"
      using v(1) current_eq [OF r(1)] r(2) by (simp add: show_row_def redraw_def)
    note r2 = redraw_ok [OF assms(1) t' v(2)]
    have "show_row (uint y) (redraw ?t' v s) = Some (redraw ?t' (vga_image ?t') s)"
      using show_row_eq [OF r2(1) xy(3,4)] r2(2,3) v(3) same r(3) by (auto simp: redraw_vga)
    then show ?thesis using w s1 assms(3,4) False by (simp add: goto_call_def current_eq [OF assms(1)] Let_def)
  qed
qed

lemma sys_goto_xy_eq:
  assumes "sys_ok (oc_sys oc)" and "shown (oc_sys oc)"
  obtains oc' where "sys_goto_xy k x y oc = Some oc'"
    "shows_term (if x < 80 \<and> y < 25 then move_to (uint x) (uint y) (cur_term (oc_sys oc)) else cur_term (oc_sys oc)) oc oc'"
proof -
  let ?s = "oc_sys oc"
  let ?t = "if x < 80 \<and> y < 25 then move_to (uint x) (uint y) (cur_term ?s) else cur_term ?s"
  note s = sys_okD [OF assms(1)]
  have t: "term_ok ?t" using s(4) by (auto simp: term_ok_def move_to_def word_less_def)
  have "goto_call x y ?s = Some (redraw ?t (vga_image ?t) ?s)"
  proof (cases "x < 80 \<and> y < 25")
    case True
    then show ?thesis using goto_call_eq [OF assms] by simp
  next
    case False
    have "goto_call x y ?s = Some ?s" unfolding goto_call_def using False by (rule if_not_P)
    moreover have "redraw (cur_term ?s) (vga_image (cur_term ?s)) ?s = ?s" using redraw_same [of ?s] assms(2) by (simp add: shown_def)
    ultimately show ?thesis unfolding if_not_P [OF False] by simp
  qed
  then have "sys_goto_xy k x y oc = Some (set_sys (redraw ?t (vga_image ?t) ?s)
      (oc\<lparr>oc_regs := (oc_regs oc)\<lparr>r_eax := 10, r_ebx := x, r_ecx := y\<rparr>\<rparr>))"
    by (simp add: sys_goto_xy_def int80_def syscall_handler_def Let_def)
  then show thesis by (rule that) (rule shows_set_sys [OF t refl])
qed

section \<open>The keys a program reads\<close>

text \<open>What getc reads from: the scan codes still to come and the keyboard driver.\<close>

definition input_of :: "'d outcome \<Rightarrow> byte list \<times> kbd" where
  "input_of oc = (oc_keys oc, sy_kbd (oc_sys oc))"

inductive typed :: "byte list \<times> kbd \<Rightarrow> u32 list \<Rightarrow> byte list \<times> kbd \<Rightarrow> bool" where
  typed_none: "typed i [] i"
| typed_key: "wait_key (fst i) (snd i) = Some (c, i1) \<Longrightarrow> typed i1 cs i2 \<Longrightarrow> typed i (c # cs) i2"

inductive_simps typed_Nil [simp]: "typed i [] i'"
inductive_simps typed_Cons [simp]: "typed i (c # cs) i'"

text \<open>Only the input and registers differ.\<close>

definition reads_key :: "byte list \<times> kbd \<Rightarrow> 'd outcome \<Rightarrow> 'd outcome \<Rightarrow> bool" where
  "reads_key i oc oc' \<longleftrightarrow> input_of oc' = i \<and> oc_user oc' = oc_user oc \<and> oc_frame oc' = oc_frame oc \<and>
     oc_sys oc' = (oc_sys oc)\<lparr>sy_kbd := snd i\<rparr>"

lemma sys_getc_eq:
  assumes "sys_ok (oc_sys oc)" and "wait_key (oc_keys oc) (sy_kbd (oc_sys oc)) = Some (c, i)"
  obtains oc' where "sys_getc k oc = Some (c, oc')" "reads_key i oc oc'" "sys_ok (oc_sys oc')"
    "cur_term (oc_sys oc') = cur_term (oc_sys oc)" "shown (oc_sys oc') = shown (oc_sys oc)"
proof -
  let ?oc = "oc\<lparr>oc_regs := (oc_regs oc)\<lparr>r_eax := c\<rparr>, oc_keys := fst i, oc_sys := (oc_sys oc)\<lparr>sy_kbd := snd i\<rparr>\<rparr>"
  have "kbd_ok (snd i)" using wait_key_ok [OF assms(2)] assms(1) by (simp add: sys_ok_def)
  then have "sys_ok (oc_sys ?oc)" using assms(1) by (simp add: sys_ok_def)
  moreover have "sys_getc k oc = Some (c, ?oc)"
    using assms(2) by (cases i) (simp add: sys_getc_def int80_eax_def int80_def syscall_handler_def Let_def)
  moreover have "reads_key i oc ?oc" by (simp add: reads_key_def input_of_def)
  ultimately show thesis by (intro that [of ?oc]) (simp_all add: cur_term_def shown_def)
qed

lemma shows_term_input: "shows_term t oc oc' \<Longrightarrow> input_of oc' = input_of oc"
  by (simp add: shows_term_def input_of_def redraw_def)

end
