(* ===== verification/UserMem.thy ===== *)
theory UserMem
  imports UserApi
begin

text \<open>
The memory of a program as the system calls and the loader touch it: writes to a range of addresses, and the string a
  pointer argument names.
\<close>

section \<open>A string in memory\<close>

definition string_at :: "umem \<Rightarrow> u32 \<Rightarrow> byte list \<Rightarrow> bool" where
  "string_at u x s \<longleftrightarrow> nul_free s \<and> (\<forall>i\<le>length s. u (x + of_nat i) = (s @ [0]) ! i)"

lemma string_at_Cons: "string_at u x (c # s) \<longleftrightarrow> c \<noteq> 0 \<and> u x = c \<and> string_at u (x + 1) s"
proof -
  have "(\<forall>i<Suc (Suc (length s)). u (x + of_nat i) = ((c # s) @ [0]) ! i) \<longleftrightarrow>
      u (x + of_nat 0) = ((c # s) @ [0]) ! 0 \<and> (\<forall>i<Suc (length s). u (x + of_nat (Suc i)) = ((c # s) @ [0]) ! Suc i)"
    by (rule All_less_Suc2)
  then show ?thesis by (auto simp: string_at_def less_Suc_eq_le add.assoc)
qed

lemma string_at_Nil: "string_at u x [] \<longleftrightarrow> u x = 0"
  by (simp add: string_at_def)

lemma user_string_at: "string_at u x s \<Longrightarrow> user_string u x = Some (s @ [0])"
proof (induction s arbitrary: x)
  case Nil
  then show ?case by (subst user_string.simps) (simp add: string_at_Nil)
next
  case (Cons c s)
  then show ?case by (subst user_string.simps) (simp add: string_at_Cons)
qed

section \<open>Writes to a range of addresses\<close>

lemma put_region_eq:
  assumes "unat p + length bs \<le> 4294967296"
  shows "put_region u p bs x = (if unat p \<le> unat x \<and> unat x < unat p + length bs then bs ! (unat x - unat p) else u x)"
proof (cases "p \<le> x")
  case True
  then show ?thesis by (auto simp: put_region_def unat_sub_no_wrap word_le_nat_alt)
next
  case False
  then have "unat x < unat p" by (simp add: word_le_nat_alt)
  moreover have "unat (x - p) = unat x + 4294967296 - unat p" using calculation by (simp add: unat_sub_if')
  ultimately show ?thesis using assms by (auto simp: put_region_def)
qed

text \<open>Memory that differs only inside a range.\<close>

definition within :: "nat \<Rightarrow> nat \<Rightarrow> umem \<Rightarrow> umem \<Rightarrow> bool" where
  "within lo hi u u' \<longleftrightarrow> (\<forall>x. unat x < lo \<or> hi \<le> unat x \<longrightarrow> u' x = u x)"

lemma within_refl: "within lo hi u u"
  by (simp add: within_def)

lemma within_trans: "within lo hi u u1 \<Longrightarrow> within lo' hi' u1 u2 \<Longrightarrow> within (min lo lo') (max hi hi') u u2"
  by (auto simp: within_def)

lemma within_mono: "within lo hi u u' \<Longrightarrow> lo' \<le> lo \<Longrightarrow> hi \<le> hi' \<Longrightarrow> within lo' hi' u u'"
  by (auto simp: within_def)

lemma within_put_region: "unat p + length bs \<le> 4294967296 \<Longrightarrow> within (unat p) (unat p + length bs) u (put_region u p bs)"
  by (auto simp: within_def put_region_eq)

lemma within_put32: "unat p + 4 \<le> 4294967296 \<Longrightarrow> within (unat p) (unat p + 4) u (put32 p v u)"
  by (auto simp: within_def put32_out)

lemma string_at_within:
  assumes "string_at u p s" and "within lo hi u u'" and "hi \<le> unat p" and "unat p + length s < 4294967296"
  shows "string_at u' p s"
proof -
  have "u' (p + of_nat i) = u (p + of_nat i)" if "i \<le> length s" for i
    using assms(2,3,4) that u32_shift [of p i] by (simp add: within_def)
  with assms(1) show ?thesis by (simp add: string_at_def)
qed

lemma get32_within:
  "within lo hi u u' \<Longrightarrow> unat p + 4 \<le> lo \<or> hi \<le> unat p \<Longrightarrow> unat p + 4 \<le> 4294967296 \<Longrightarrow> get32 u' p = get32 u p"
  by (rule get32_cong) (auto simp: within_def)

lemma string_at_put:
  assumes "nul_free s" and "unat p + length s + 1 \<le> 4294967296"
  shows "string_at (put_region u p (s @ [0])) p s"
proof -
  have "put_region u p (s @ [0]) (p + of_nat i) = (s @ [0]) ! i" if "i \<le> length s" for i
    using put_region_eq [of p "s @ [0]" u "p + of_nat i"] u32_shift [of p i] that assms(2) by simp
  with assms(1) show ?thesis by (simp add: string_at_def)
qed

end
