(* ===== verification/Mirror.thy ===== *)
theory Mirror
  imports UserApi Format
begin

text \<open>
home/lib/mirror.c: the double-buffered screen of a program. Drawing changes the back copy only; mirror_flush sends the
  kernel the cells that differ from the front copy. A coordinate is an int of the code, unbounded here; a string is
  its object's bytes, NUL included. The loop of mirror_flush is shown correct over any screen whose cells one call
  each can change, and the kernel's terminal is such a screen.
\<close>

section \<open>The two copies of the screen\<close>

record mirror_cell =
  mc_ch :: byte
  mc_attr :: byte

record mirror =
  m_back :: "mirror_cell list"
  m_front :: "mirror_cell list"

definition MIRROR_COLS :: int where "MIRROR_COLS = 80"
definition MIRROR_ROWS :: int where "MIRROR_ROWS = 25"

definition MIRROR_KEY_UP :: u32 where "MIRROR_KEY_UP = 0xE0"
definition MIRROR_KEY_DOWN :: u32 where "MIRROR_KEY_DOWN = 0xE1"
definition MIRROR_KEY_LEFT :: u32 where "MIRROR_KEY_LEFT = 0xE2"
definition MIRROR_KEY_RIGHT :: u32 where "MIRROR_KEY_RIGHT = 0xE3"
definition MIRROR_KEY_ESC :: u32 where "MIRROR_KEY_ESC = 0x1B"
definition MIRROR_KEY_ENTER :: u32 where "MIRROR_KEY_ENTER = 10"
definition MIRROR_KEY_BACKSPACE :: u32 where "MIRROR_KEY_BACKSPACE = 8"

lemmas mirror_keys = MIRROR_KEY_UP_def MIRROR_KEY_DOWN_def MIRROR_KEY_LEFT_def MIRROR_KEY_RIGHT_def
  MIRROR_KEY_ESC_def MIRROR_KEY_ENTER_def MIRROR_KEY_BACKSPACE_def

section \<open>Drawing into the back copy\<close>

definition mirror_putc :: "int \<Rightarrow> int \<Rightarrow> byte \<Rightarrow> byte \<Rightarrow> mirror \<Rightarrow> mirror option" where
  "mirror_putc x y ch attr m =
     (if x < 0 \<or> y < 0 \<or> x \<ge> MIRROR_COLS \<or> y \<ge> MIRROR_ROWS then Some m
      else do {
        b \<leftarrow> storei (m_back m) (y * MIRROR_COLS + x) \<lparr>mc_ch = ch, mc_attr = attr\<rparr>;
        Some (m\<lparr>m_back := b\<rparr>) })"

text \<open>The pen: the mirror with the position of the next character.\<close>

type_synonym pen = "mirror \<times> int \<times> int"

fun emit :: "int \<Rightarrow> byte \<Rightarrow> byte \<Rightarrow> pen \<Rightarrow> pen option" where
  "emit startx ch attr (m, cx, cy) =
     (if ch = 10 then Some (m, startx, cy + 1)
      else do { m \<leftarrow> mirror_putc cx cy ch attr m; Some (m, cx + 1, cy) })"

fun put_sn_loop :: "int \<Rightarrow> int \<Rightarrow> byte list \<Rightarrow> byte \<Rightarrow> pen \<Rightarrow> pen option" where
  "put_sn_loop startx maxw [] attr p = None"
| "put_sn_loop startx maxw (c # s) attr p =
     (if c = 0 then Some p
      else if maxw \<ge> 0 \<and> fst (snd p) - startx \<ge> maxw then Some p
      else do { p \<leftarrow> emit startx c attr p; put_sn_loop startx maxw s attr p })"

text \<open>A string argument that may be a null pointer.\<close>

definition put_sn :: "int \<Rightarrow> int \<Rightarrow> byte list option \<Rightarrow> byte \<Rightarrow> pen \<Rightarrow> pen option" where
  "put_sn startx maxw s attr p = (case s of None \<Rightarrow> Some p | Some s \<Rightarrow> put_sn_loop startx maxw s attr p)"

text \<open>The digits of hex, the last one first.\<close>

function hex_digits :: "u32 \<Rightarrow> byte list" where
  "hex_digits v =
     (let d = v AND 0xF; c = (if d < 10 then 48 + ucast d else 65 + ucast d - 10); v' = drop_bit 4 v
      in c # (if v' \<noteq> 0 then hex_digits v' else []))"
  by pat_completeness auto
termination
proof (relation "measure unat")
  fix v d :: u32 and c :: byte and v' :: u32
  assume v': "v' = drop_bit 4 v" and nz: "v' \<noteq> 0"
  have "unat v' = unat v div 16" unfolding v' by (simp add: drop_bit_eq_div unat_div_distrib)
  moreover from nz have "unat v' \<noteq> 0" by (simp add: unat_eq_0)
  ultimately have "unat v' < unat v" by linarith
  then show "(v', v) \<in> measure unat" by simp
qed simp

definition hex :: "u32 \<Rightarrow> byte list \<Rightarrow> byte list option" where
  "hex v buf = do {
     let n = length (hex_digits v);
     buf \<leftarrow> (if n \<le> 8 then memcpy buf (rev (hex_digits v)) n else None);
     store buf n 0 }"

definition blank_cell :: "byte \<Rightarrow> mirror_cell" where
  "blank_cell attr = \<lparr>mc_ch = 32, mc_attr = attr\<rparr>"

definition mirror_cursor :: "'d kernel \<Rightarrow> int \<Rightarrow> int \<Rightarrow> 'd outcome \<Rightarrow> 'd outcome option" where
  "mirror_cursor k x y = sys_goto_xy k (of_int x) (of_int y)"

definition mirror_getkey :: "'d kernel \<Rightarrow> 'd outcome \<Rightarrow> (u32 \<times> 'd outcome) option" where
  "mirror_getkey k = sys_getc k"

definition mirror_init :: "'d kernel \<Rightarrow> byte \<Rightarrow> mirror \<Rightarrow> 'd outcome \<Rightarrow> (mirror \<times> 'd outcome) option" where
  "mirror_init k attr m oc = do {
     let matches_clear = (drop_bit 4 attr = 0);
     let back = replicate 2000 (blank_cell attr);
     let front = (if matches_clear then back else replicate 2000 \<lparr>mc_ch = 0, mc_attr = 0\<rparr>);
     oc \<leftarrow> sys_clear k oc;
     oc \<leftarrow> mirror_cursor k (MIRROR_COLS - 1) (MIRROR_ROWS - 1) oc;
     Some (m\<lparr>m_back := back, m_front := front\<rparr>, oc) }"

definition mirror_clear :: "byte \<Rightarrow> mirror \<Rightarrow> mirror" where
  "mirror_clear attr m = m\<lparr>m_back := replicate 2000 (blank_cell attr)\<rparr>"

definition mirror_puts :: "int \<Rightarrow> int \<Rightarrow> byte list option \<Rightarrow> byte \<Rightarrow> mirror \<Rightarrow> mirror option" where
  "mirror_puts x y s attr m = map_option fst (put_sn x (-1) s attr (m, x, y))"

text \<open>The loop of mirror_printf over the format and the arguments left.\<close>

fun printf_loop :: "int \<Rightarrow> byte \<Rightarrow> byte list \<Rightarrow> varg list \<Rightarrow> pen \<Rightarrow> pen option" where
  "printf_loop x attr [] args p = None"
| "printf_loop x attr (c # fmt) args p =
     (if c = 0 then Some p
      else case fmt of
        [] \<Rightarrow> None
      | f # fmt' \<Rightarrow>
          if c \<noteq> 37 \<or> f = 0 then do { p \<leftarrow> emit x c attr p; printf_loop x attr fmt args p }
          else if f = 115 then do {
            (s, args) \<leftarrow> arg_str args;
            p \<leftarrow> put_sn x (-1) s attr p;
            printf_loop x attr fmt' args p }
          else if f = 99 then do {
            (v, args) \<leftarrow> arg_word args;
            p \<leftarrow> emit x (ucast v) attr p;
            printf_loop x attr fmt' args p }
          else if f = 100 then do {
            (v, args) \<leftarrow> arg_word args;
            buf \<leftarrow> itoa v (replicate 16 0);
            p \<leftarrow> put_sn x (-1) (Some buf) attr p;
            printf_loop x attr fmt' args p }
          else if f = 120 then do {
            (v, args) \<leftarrow> arg_word args;
            buf \<leftarrow> hex v (replicate 16 0);
            p \<leftarrow> put_sn x (-1) (Some buf) attr p;
            printf_loop x attr fmt' args p }
          else if f = 37 then do { p \<leftarrow> emit x 37 attr p; printf_loop x attr fmt' args p }
          else do { p \<leftarrow> emit x 37 attr p; p \<leftarrow> emit x f attr p; printf_loop x attr fmt' args p })"

definition mirror_printf :: "int \<Rightarrow> int \<Rightarrow> byte \<Rightarrow> byte list \<Rightarrow> varg list \<Rightarrow> mirror \<Rightarrow> mirror option" where
  "mirror_printf x y attr fmt args m = map_option fst (printf_loop x attr fmt args (m, x, y))"

text \<open>A list of characters put one after the other, as the loops of fill and box do.\<close>

fun putc_all :: "(int \<times> int \<times> byte) list \<Rightarrow> byte \<Rightarrow> mirror \<Rightarrow> mirror option" where
  "putc_all [] attr m = Some m"
| "putc_all ((x, y, ch) # ps) attr m = do { m \<leftarrow> mirror_putc x y ch attr m; putc_all ps attr m }"

definition mirror_fill :: "int \<Rightarrow> int \<Rightarrow> int \<Rightarrow> int \<Rightarrow> byte \<Rightarrow> byte \<Rightarrow> mirror \<Rightarrow> mirror option" where
  "mirror_fill x y w h ch attr m =
     (if w \<le> 0 \<or> h \<le> 0 then Some m
      else
        let x0 = (if x < 0 then 0 else x);
            y0 = (if y < 0 then 0 else y);
            x1 = (if x + w > MIRROR_COLS then MIRROR_COLS else x + w);
            y1 = (if y + h > MIRROR_ROWS then MIRROR_ROWS else y + h)
        in putc_all [(xx, yy, ch). yy \<leftarrow> [y0..y1 - 1], xx \<leftarrow> [x0..x1 - 1]] attr m)"

definition mirror_box :: "int \<Rightarrow> int \<Rightarrow> int \<Rightarrow> int \<Rightarrow> byte \<Rightarrow> byte list option \<Rightarrow> mirror \<Rightarrow> mirror option" where
  "mirror_box x y w h attr title m =
     (if w < 2 \<or> h < 2 then Some m
      else do {
        m \<leftarrow> putc_all (concat (map (\<lambda>i. [(x + i, y, 0xC4), (x + i, y + h - 1, 0xC4)]) [0..w - 1])) attr m;
        m \<leftarrow> putc_all (concat (map (\<lambda>i. [(x, y + i, 0xB3), (x + w - 1, y + i, 0xB3)]) [1..h - 2])) attr m;
        m \<leftarrow> putc_all [(x, y, 0xDA), (x + w - 1, y, 0xBF), (x, y + h - 1, 0xC0), (x + w - 1, y + h - 1, 0xD9)] attr m;
        if title \<noteq> None \<and> w > 4 then map_option fst (put_sn (x + 2) (w - 4) title attr (m, x + 2, y))
        else Some m })"

section \<open>Flushing\<close>

fun flush_cells :: "'d kernel \<Rightarrow> (nat \<times> nat) list \<Rightarrow> mirror \<Rightarrow> 'd outcome \<Rightarrow> (mirror \<times> 'd outcome) option" where
  "flush_cells k [] m oc = Some (m, oc)"
| "flush_cells k ((x, y) # ps) m oc = do {
     let i = y * 80 + x;
     b \<leftarrow> load (m_back m) i;
     f \<leftarrow> load (m_front m) i;
     if mc_ch b = mc_ch f \<and> mc_attr b = mc_attr f then flush_cells k ps m oc
     else do {
       oc \<leftarrow> sys_putchar_at k (mc_ch b) (of_nat x) (of_nat y) (ucast (mc_attr b)) oc;
       front \<leftarrow> store (m_front m) i b;
       flush_cells k ps (m\<lparr>m_front := front\<rparr>) oc } }"

definition mirror_flush :: "'d kernel \<Rightarrow> mirror \<Rightarrow> 'd outcome \<Rightarrow> (mirror \<times> 'd outcome) option" where
  "mirror_flush k m oc =
     (let blank = list_all (\<lambda>c. \<not> (mc_ch c \<noteq> 32 \<or> drop_bit 4 (mc_attr c) \<noteq> 0)) (m_back m)
      in if blank then do { oc \<leftarrow> sys_clear k oc; Some (m\<lparr>m_front := m_back m\<rparr>, oc) }
         else flush_cells k [(x, y). y \<leftarrow> [0..<25], x \<leftarrow> [0..<80]] m oc)"

section \<open>Widgets\<close>

definition mirror_status :: "int \<Rightarrow> byte list option \<Rightarrow> byte list option \<Rightarrow> byte \<Rightarrow> mirror \<Rightarrow> mirror option" where
  "mirror_status row left right attr m =
     (if row < 0 \<or> row \<ge> MIRROR_ROWS then Some m
      else do {
        m \<leftarrow> mirror_fill 0 row MIRROR_COLS 1 32 attr m;
        (m, _) \<leftarrow> put_sn 1 (-1) left attr (m, 1, row);
        case right of
          None \<Rightarrow> Some m
        | Some s \<Rightarrow> do {
            c \<leftarrow> load s 0;
            if c = 0 then Some m
            else do {
              n \<leftarrow> strlen s;
              let rx = MIRROR_COLS - 1 - int n;
              let rx = (if rx < 1 then 1 else rx);
              map_option fst (put_sn rx (MIRROR_COLS - rx - 1) right attr (m, rx, row)) } } })"

text \<open>The rows of mirror_menu from item \<open>i\<close> on.\<close>

fun menu_rows :: "int \<Rightarrow> int \<Rightarrow> int \<Rightarrow> byte list option list \<Rightarrow> int \<Rightarrow> byte \<Rightarrow> byte \<Rightarrow> nat \<Rightarrow> nat \<Rightarrow> mirror \<Rightarrow> mirror option" where
  "menu_rows x y w items selected attr sel_attr i 0 m = Some m"
| "menu_rows x y w items selected attr sel_attr i (Suc n) m =
     (let ry = y + int i
      in if ry \<ge> MIRROR_ROWS then Some m
         else do {
           let ra = (if int i = selected then sel_attr else attr);
           m \<leftarrow> mirror_fill x ry w 1 32 ra m;
           m \<leftarrow> mirror_putc x ry (if int i = selected then 62 else 32) ra m;
           m \<leftarrow> (if w \<ge> 3 then do {
                   s \<leftarrow> load items i;
                   map_option fst (put_sn (x + 2) (w - 2) s ra (m, x + 2, ry)) }
                 else Some m);
           menu_rows x y w items selected attr sel_attr (Suc i) n m })"

definition mirror_menu :: "int \<Rightarrow> int \<Rightarrow> int \<Rightarrow> byte list option list \<Rightarrow> int \<Rightarrow> int \<Rightarrow> byte \<Rightarrow> byte \<Rightarrow> mirror \<Rightarrow> mirror option" where
  "mirror_menu x y w items count selected attr sel_attr m =
     menu_rows x y w items selected attr sel_attr 0 (nat count) m"

partial_function (option) select_loop :: "'d kernel \<Rightarrow> int \<Rightarrow> int \<Rightarrow> int \<Rightarrow> byte list option list \<Rightarrow> int \<Rightarrow> int \<Rightarrow>
    byte \<Rightarrow> byte \<Rightarrow> mirror \<Rightarrow> 'd outcome \<Rightarrow> (int \<times> mirror \<times> 'd outcome) option" where
  "select_loop k x y w items count selected attr sel_attr m oc = do {
     m \<leftarrow> mirror_menu x y w items count selected attr sel_attr m;
     (m, oc) \<leftarrow> mirror_flush k m oc;
     (c, oc) \<leftarrow> mirror_getkey k oc;
     if c = MIRROR_KEY_UP
     then select_loop k x y w items count ((selected + count - 1) mod count) attr sel_attr m oc
     else if c = MIRROR_KEY_DOWN
     then select_loop k x y w items count ((selected + 1) mod count) attr sel_attr m oc
     else if c = MIRROR_KEY_ENTER then Some (selected, m, oc)
     else if c = MIRROR_KEY_ESC then Some (-1, m, oc)
     else select_loop k x y w items count selected attr sel_attr m oc }"

definition mirror_menu_select :: "'d kernel \<Rightarrow> int \<Rightarrow> int \<Rightarrow> int \<Rightarrow> byte list option list \<Rightarrow> int \<Rightarrow> int \<Rightarrow>
    byte \<Rightarrow> byte \<Rightarrow> mirror \<Rightarrow> 'd outcome \<Rightarrow> (int \<times> mirror \<times> 'd outcome) option" where
  "mirror_menu_select k x y w items count selected attr sel_attr m oc =
     (if count \<le> 0 then Some (-1, m, oc)
      else select_loop k x y w items count (if selected < 0 \<or> selected \<ge> count then 0 else selected) attr sel_attr m oc)"

text \<open>The loops of mirror_input that close and open a gap in the buffer.\<close>

fun close_gap :: "nat \<Rightarrow> nat \<Rightarrow> byte list \<Rightarrow> byte list option" where
  "close_gap i 0 buf = Some buf"
| "close_gap i (Suc n) buf = do { c \<leftarrow> load buf (i + 1); buf \<leftarrow> store buf i c; close_gap (i + 1) n buf }"

fun open_gap :: "nat \<Rightarrow> nat \<Rightarrow> byte list \<Rightarrow> byte list option" where
  "open_gap i 0 buf = Some buf"
| "open_gap i (Suc n) buf = do { c \<leftarrow> load buf (i - 1); buf \<leftarrow> store buf i c; open_gap (i - 1) n buf }"

fun field_chars :: "int \<Rightarrow> int \<Rightarrow> int \<Rightarrow> byte list \<Rightarrow> byte \<Rightarrow> nat \<Rightarrow> nat \<Rightarrow> nat \<Rightarrow> mirror \<Rightarrow> mirror option" where
  "field_chars x y w buf attr off i 0 m = Some m"
| "field_chars x y w buf attr off i (Suc n) m =
     (if int i - int off < w then do {
        c \<leftarrow> load buf i;
        m \<leftarrow> mirror_putc (x + int i - int off) y c attr m;
        field_chars x y w buf attr off (i + 1) n m }
      else Some m)"

text \<open>One key of mirror_input: the buffer, its length and the caret.\<close>

definition input_key :: "u32 \<Rightarrow> int \<Rightarrow> byte list \<times> nat \<times> nat \<Rightarrow> (byte list \<times> nat \<times> nat) option" where
  "input_key c cap st = (case st of (buf, len, cur) \<Rightarrow>
     if c = MIRROR_KEY_BACKSPACE then
       (if cur > 0 then do {
          buf \<leftarrow> close_gap (cur - 1) (len - 1 - (cur - 1)) buf;
          buf \<leftarrow> store buf (len - 1) 0;
          Some (buf, len - 1, cur - 1) }
        else Some st)
     else if c = MIRROR_KEY_LEFT then Some (buf, len, if cur > 0 then cur - 1 else cur)
     else if c = MIRROR_KEY_RIGHT then Some (buf, len, if cur < len then cur + 1 else cur)
     else if sint c \<ge> 32 \<and> sint c \<le> 126 \<and> int len < cap - 1 then do {
       buf \<leftarrow> open_gap len (len - cur) buf;
       buf \<leftarrow> store buf cur (ucast c);
       buf \<leftarrow> store buf (len + 1) 0;
       Some (buf, len + 1, cur + 1) }
     else Some st)"

definition draw_field :: "int \<Rightarrow> int \<Rightarrow> int \<Rightarrow> byte \<Rightarrow> byte list \<times> nat \<times> nat \<Rightarrow> mirror \<Rightarrow> (int \<times> mirror) option" where
  "draw_field x y w attr st m = (case st of (buf, len, cur) \<Rightarrow> do {
     let off = (if int cur \<ge> w then nat (int cur - w + 1) else 0);
     m \<leftarrow> mirror_fill x y w 1 32 attr m;
     m \<leftarrow> field_chars x y w buf attr off off (len - off) m;
     Some (x + int cur - int off, m) })"

partial_function (option) input_loop :: "'d kernel \<Rightarrow> int \<Rightarrow> int \<Rightarrow> int \<Rightarrow> int \<Rightarrow> byte \<Rightarrow> byte list \<times> nat \<times> nat \<Rightarrow>
    mirror \<Rightarrow> 'd outcome \<Rightarrow> (int \<times> byte list \<times> mirror \<times> 'd outcome) option" where
  "input_loop k x y w cap attr st m oc = do {
     (caret, m) \<leftarrow> draw_field x y w attr st m;
     oc \<leftarrow> mirror_cursor k caret y oc;
     (m, oc) \<leftarrow> mirror_flush k m oc;
     (c, oc) \<leftarrow> mirror_getkey k oc;
     if c = MIRROR_KEY_ENTER then do {
       oc \<leftarrow> mirror_cursor k (MIRROR_COLS - 1) (MIRROR_ROWS - 1) oc;
       Some (0, fst st, m, oc) }
     else if c = MIRROR_KEY_ESC then do {
       oc \<leftarrow> mirror_cursor k (MIRROR_COLS - 1) (MIRROR_ROWS - 1) oc;
       Some (-1, fst st, m, oc) }
     else do {
       st \<leftarrow> input_key c cap st;
       input_loop k x y w cap attr st m oc } }"

definition mirror_input :: "'d kernel \<Rightarrow> int \<Rightarrow> int \<Rightarrow> int \<Rightarrow> byte list \<Rightarrow> int \<Rightarrow> byte \<Rightarrow> mirror \<Rightarrow> 'd outcome \<Rightarrow>
    (int \<times> byte list \<times> mirror \<times> 'd outcome) option" where
  "mirror_input k x y w buf cap attr m oc =
     (if cap \<le> 0 \<or> w \<le> 0 then Some (-1, buf, m, oc)
      else do {
        n \<leftarrow> strlen buf;
        let len = (if int n > cap - 1 then nat (cap - 1) else n);
        input_loop k x y w cap attr (buf, len, len) m oc })"

definition mirror_progress :: "int \<Rightarrow> int \<Rightarrow> int \<Rightarrow> int \<Rightarrow> byte \<Rightarrow> byte \<Rightarrow> mirror \<Rightarrow> mirror option" where
  "mirror_progress x y w percent fill attr m =
     (if w \<le> 0 then Some m
      else do {
        let percent = (if percent < 0 then 0 else percent);
        let percent = (if percent > 100 then 100 else percent);
        let n = (percent * w) div 100;
        m \<leftarrow> mirror_fill x y w 1 0xB0 attr m;
        mirror_fill x y n 1 0xDB fill m })"


section \<open>Drawing stays in the back copy\<close>

definition mirror_wf :: "mirror \<Rightarrow> bool" where
  "mirror_wf m \<longleftrightarrow> length (m_back m) = 2000 \<and> length (m_front m) = 2000"

text \<open>A drawing operation answers, and changes cells of the back copy only.\<close>

definition draws :: "mirror \<Rightarrow> mirror option \<Rightarrow> bool" where
  "draws m r \<longleftrightarrow> (\<exists>m'. r = Some m' \<and> mirror_wf m' \<and> m_front m' = m_front m)"

definition pen_draws :: "mirror \<Rightarrow> pen option \<Rightarrow> bool" where
  "pen_draws m r \<longleftrightarrow> (\<exists>p. r = Some p \<and> mirror_wf (fst p) \<and> m_front (fst p) = m_front m)"

named_theorems drawing

lemma drawsI: "r = Some m' \<Longrightarrow> mirror_wf m' \<Longrightarrow> m_front m' = m_front m \<Longrightarrow> draws m r"
  by (simp add: draws_def)

lemma draws_Some [simp]: "draws m (Some m') \<longleftrightarrow> mirror_wf m' \<and> m_front m' = m_front m"
  by (simp add: draws_def)

lemma pen_draws_Some [simp]: "pen_draws m (Some p) \<longleftrightarrow> mirror_wf (fst p) \<and> m_front (fst p) = m_front m"
  by (simp add: pen_draws_def)

lemma draws_bind:
  assumes "draws m r" and "\<And>m'. mirror_wf m' \<Longrightarrow> m_front m' = m_front m \<Longrightarrow> draws m' (f m')"
  shows "draws m (r \<bind> f)"
  using assms by (fastforce simp: draws_def)

lemma pen_bind:
  assumes "pen_draws m r" and "\<And>p. mirror_wf (fst p) \<Longrightarrow> m_front (fst p) = m_front m \<Longrightarrow> pen_draws (fst p) (f p)"
  shows "pen_draws m (r \<bind> f)"
  using assms by (fastforce simp: pen_draws_def)

lemma pen_draws_map: "pen_draws m r \<Longrightarrow> draws m (map_option fst r)"
  by (auto simp: draws_def pen_draws_def)

lemma draws_trans: "m_front m' = m_front m \<Longrightarrow> draws m' r \<Longrightarrow> draws m r"
  by (simp add: draws_def)

lemma mirror_putc_eq:
  assumes "mirror_wf m"
  shows "mirror_putc x y ch attr m = Some (if 0 \<le> x \<and> x < 80 \<and> 0 \<le> y \<and> y < 25
    then m\<lparr>m_back := (m_back m)[nat (y * 80 + x) := \<lparr>mc_ch = ch, mc_attr = attr\<rparr>]\<rparr> else m)"
  using assms by (auto simp: mirror_putc_def mirror_wf_def MIRROR_COLS_def MIRROR_ROWS_def storei_Some)

lemma mirror_putc_draws [drawing]: "mirror_wf m \<Longrightarrow> draws m (mirror_putc x y ch attr m)"
  by (simp add: mirror_putc_eq) (simp add: mirror_wf_def)

lemma emit_draws: "mirror_wf (fst p) \<Longrightarrow> pen_draws (fst p) (emit startx ch attr p)"
proof -
  obtain m cx cy where p: "p = (m, cx, cy)" by (cases p)
  assume "mirror_wf (fst p)"
  with mirror_putc_draws [of m cx cy ch attr] show ?thesis by (auto simp: p draws_def)
qed

lemma put_sn_draws:
  assumes "0 \<in> set s" and "mirror_wf (fst p)"
  shows "pen_draws (fst p) (put_sn_loop startx maxw s attr p)"
  using assms
proof (induction s arbitrary: p)
  case (Cons c s)
  have "pen_draws (fst p) (emit startx c attr p \<bind> put_sn_loop startx maxw s attr)" if "c \<noteq> 0"
    by (rule pen_bind [OF emit_draws [OF Cons.prems(2)]]) (use Cons that in auto)
  with Cons.prems show ?case by simp
qed simp

lemma put_sn_draws_map [drawing]:
  assumes "\<And>b. s = Some b \<Longrightarrow> 0 \<in> set b" and "mirror_wf m"
  shows "draws m (map_option fst (put_sn startx maxw s attr (m, cx, cy)))"
proof (rule pen_draws_map, cases s)
  case None
  then show "pen_draws m (put_sn startx maxw s attr (m, cx, cy))" using assms(2) by (simp add: put_sn_def)
next
  case (Some b)
  with put_sn_draws [of b "(m, cx, cy)" startx maxw attr] assms
  show "pen_draws m (put_sn startx maxw s attr (m, cx, cy))" by (simp add: put_sn_def)
qed

lemma putc_all_draws [drawing]: "mirror_wf m \<Longrightarrow> draws m (putc_all ps attr m)"
proof (induction ps arbitrary: m)
  case (Cons q ps)
  obtain x y ch where q: "q = (x, y, ch)" by (cases q)
  have "draws m (mirror_putc x y ch attr m \<bind> putc_all ps attr)"
    by (rule draws_bind [OF mirror_putc_draws [OF Cons.prems]]) (rule Cons.IH)
  then show ?case by (simp add: q)
qed simp

lemma mirror_fill_draws [drawing]: "mirror_wf m \<Longrightarrow> draws m (mirror_fill x y w h ch attr m)"
  by (simp add: mirror_fill_def Let_def putc_all_draws)


lemma mirror_box_draws [drawing]:
  assumes "\<And>b. title = Some b \<Longrightarrow> 0 \<in> set b" and "mirror_wf m"
  shows "draws m (mirror_box x y w h attr title m)"
proof -
  have "draws m'' (if title \<noteq> None \<and> w > 4 then map_option fst (put_sn (x + 2) (w - 4) title attr (m'', x + 2, y)) else Some m'')"
    if "mirror_wf m''" for m'' using put_sn_draws_map [OF assms(1) that] that by simp
  then show ?thesis unfolding mirror_box_def using assms(2)
    by (auto intro!: draws_bind putc_all_draws mirror_putc_draws)
qed

lemma mirror_status_draws [drawing]:
  assumes "\<And>b. left = Some b \<Longrightarrow> 0 \<in> set b" "\<And>b. right = Some b \<Longrightarrow> nul_free b" and "mirror_wf m"
  shows "draws m (mirror_status row left (map_option (\<lambda>b. b @ [0]) right) attr m)"
proof -
  have l: "pen_draws m' (put_sn 1 (- 1) left attr (m', 1, row))" if "mirror_wf m'" for m'
    using put_sn_draws [of _ "(m', 1, row)" 1 "- 1" attr] assms(1) that by (cases left) (simp_all add: put_sn_def)
  have r: "draws m' (case map_option (\<lambda>b. b @ [0]) right of None \<Rightarrow> Some m'
      | Some s \<Rightarrow> do { c \<leftarrow> load s 0; if c = 0 then Some m' else do { n \<leftarrow> strlen s;
          let rx = MIRROR_COLS - 1 - int n; let rx = (if rx < 1 then 1 else rx);
          map_option fst (put_sn rx (MIRROR_COLS - rx - 1) (map_option (\<lambda>b. b @ [0]) right) attr (m', rx, row)) } })"
    if "mirror_wf m'" for m'
  proof (cases right)
    case (Some b)
    have "draws m' (map_option fst (put_sn rx mx (Some (b @ [0])) attr (m', rx, row)))" for rx mx
      using that by (intro put_sn_draws_map) auto
    then show ?thesis using that assms(2) Some by (cases b) (simp_all add: Let_def)
  qed (use that in simp)
  have "draws m (mirror_fill 0 row MIRROR_COLS 1 32 attr m \<bind> (\<lambda>m. put_sn 1 (- 1) left attr (m, 1, row) \<bind> (\<lambda>(m, _).
      case map_option (\<lambda>b. b @ [0]) right of None \<Rightarrow> Some m
      | Some s \<Rightarrow> do { c \<leftarrow> load s 0; if c = 0 then Some m else do { n \<leftarrow> strlen s;
          let rx = MIRROR_COLS - 1 - int n; let rx = (if rx < 1 then 1 else rx);
          map_option fst (put_sn rx (MIRROR_COLS - rx - 1) (map_option (\<lambda>b. b @ [0]) right) attr (m, rx, row)) } })))"
  proof (rule draws_bind [OF mirror_fill_draws [OF assms(3)]], goal_cases)
    case (1 m1)
    from l [OF 1(1)] obtain m2 q where "put_sn 1 (- 1) left attr (m1, 1, row) = Some (m2, q)" "mirror_wf m2" "m_front m2 = m_front m1"
      by (auto simp: pen_draws_def)
    then show ?case using draws_trans [OF _ r] by simp
  qed
  then show ?thesis using assms(3) by (simp add: mirror_status_def)
qed

lemma menu_rows_draws:
  assumes "\<forall>b. Some b \<in> set items \<longrightarrow> 0 \<in> set b" and "i + n \<le> length items" and "mirror_wf m"
  shows "draws m (menu_rows x y w items selected attr sel_attr i n m)"
  using assms(2,3)
proof (induction n arbitrary: i m)
  case (Suc n)
  let ?ra = "if int i = selected then sel_attr else attr"
  have item: "draws m' (if w \<ge> 3 then do { s \<leftarrow> load items i; map_option fst (put_sn (x + 2) (w - 2) s ?ra (m', x + 2, y + int i)) } else Some m')"
    if "mirror_wf m'" for m'
  proof -
    have "0 \<in> set b" if "items ! i = Some b" for b
      using assms(1) Suc.prems(1) that nth_mem [of i items] by auto
    from put_sn_draws_map [OF this \<open>mirror_wf m'\<close>] show ?thesis using Suc.prems(1) that by simp
  qed
  have rest: "draws m' (menu_rows x y w items selected attr sel_attr (Suc i) n m')" if "mirror_wf m'" for m'
    using Suc.prems(1) that by (intro Suc.IH) simp_all
  show ?case
  proof (cases "y + int i \<ge> MIRROR_ROWS")
    case False
    have "draws m (do { m \<leftarrow> mirror_fill x (y + int i) w 1 32 ?ra m;
           m \<leftarrow> mirror_putc x (y + int i) (if int i = selected then 62 else 32) ?ra m;
           m \<leftarrow> (if w \<ge> 3 then do { s \<leftarrow> load items i; map_option fst (put_sn (x + 2) (w - 2) s ?ra (m, x + 2, y + int i)) } else Some m);
           menu_rows x y w items selected attr sel_attr (Suc i) n m })"
      by (intro draws_bind mirror_fill_draws mirror_putc_draws item rest Suc.prems(2))
    then show ?thesis using False by (simp only: menu_rows.simps Let_def if_False)
  qed (use Suc.prems(2) in simp)
qed simp

lemma mirror_menu_draws [drawing]:
  assumes "\<forall>b. Some b \<in> set items \<longrightarrow> 0 \<in> set b" and "count \<le> int (length items)" and "mirror_wf m"
  shows "draws m (mirror_menu x y w items count selected attr sel_attr m)"
  unfolding mirror_menu_def using assms by (intro menu_rows_draws) auto

lemma mirror_progress_draws [drawing]: "mirror_wf m \<Longrightarrow> draws m (mirror_progress x y w percent fill attr m)"
  by (auto simp: mirror_progress_def Let_def intro!: draws_bind mirror_fill_draws)

lemma field_chars_draws:
  "i + n \<le> length buf \<Longrightarrow> mirror_wf m \<Longrightarrow> draws m (field_chars x y w buf attr off i n m)"
proof (induction n arbitrary: i m)
  case (Suc n)
  then show ?case by (auto intro!: draws_bind mirror_putc_draws)
qed simp


section \<open>Bringing a screen up to date\<close>

text \<open>The loop of mirror_flush over a screen whose cells one call each can change.\<close>

fun sync_cells :: "(nat \<Rightarrow> 'c \<Rightarrow> 's \<Rightarrow> 's option) \<Rightarrow> nat list \<Rightarrow> 'c list \<Rightarrow> 'c list \<Rightarrow> 's \<Rightarrow> ('c list \<times> 's) option" where
  "sync_cells put [] back front s = Some (front, s)"
| "sync_cells put (i # is) back front s =
     (if back ! i = front ! i then sync_cells put is back front s
      else do { s \<leftarrow> put i (back ! i) s; sync_cells put is back (front[i := back ! i]) s })"

text \<open>Such a screen: a call changes the cell it names, and no other, to a cell it can show.\<close>

locale cell_screen =
  fixes put :: "nat \<Rightarrow> 'c \<Rightarrow> 's \<Rightarrow> 's option" and cell :: "'s \<Rightarrow> nat \<Rightarrow> 'c" and inv :: "'s \<Rightarrow> bool"
    and can_show :: "'c \<Rightarrow> bool" and n :: nat
  assumes put: "inv s \<Longrightarrow> i < n \<Longrightarrow> \<exists>s'. put i c s = Some s' \<and> inv s' \<and>
    (\<forall>j<n. cell s' j = (if j = i \<and> can_show c then c else cell s j))"
begin

lemma sync:
  assumes "inv s" and "length back = n" "length front = n" and "set is \<subseteq> {..<n}" "distinct is"
  shows "\<exists>f s'. sync_cells put is back front s = Some (f, s') \<and> inv s' \<and> length f = n \<and>
    (\<forall>j<n. f ! j = (if j \<in> set is then back ! j else front ! j)) \<and>
    (\<forall>j<n. cell s' j = (if j \<in> set is \<and> back ! j \<noteq> front ! j \<and> can_show (back ! j) then back ! j else cell s j))"
  using assms
proof (induction "is" arbitrary: s front)
  case (Cons i "is")
  have i: "i < n" "i \<notin> set is" "set is \<subseteq> {..<n}" "distinct is" using Cons.prems by auto
  show ?case
  proof (cases "back ! i = front ! i")
    case True
    from Cons.IH [OF Cons.prems(1-3) i(3,4)] obtain f s' where r: "sync_cells put is back front s = Some (f, s')" "inv s'" "length f = n"
      "\<forall>j<n. f ! j = (if j \<in> set is then back ! j else front ! j)"
      "\<forall>j<n. cell s' j = (if j \<in> set is \<and> back ! j \<noteq> front ! j \<and> can_show (back ! j) then back ! j else cell s j)" by blast
    show ?thesis using r(1-3) True by (intro exI [of _ f] exI [of _ s']) (auto simp: r(4,5))
  next
    case False
    from put [OF Cons.prems(1) i(1), of "back ! i"] obtain s1 where s1: "put i (back ! i) s = Some s1" "inv s1"
      "\<forall>j<n. cell s1 j = (if j = i \<and> can_show (back ! i) then back ! i else cell s j)" by blast
    have "length (front[i := back ! i]) = n" using Cons.prems(3) by simp
    from Cons.IH [OF s1(2) Cons.prems(2) this i(3,4)] obtain f s' where r: "sync_cells put is back (front[i := back ! i]) s1 = Some (f, s')"
      "inv s'" "length f = n" "\<forall>j<n. f ! j = (if j \<in> set is then back ! j else front[i := back ! i] ! j)"
      "\<forall>j<n. cell s' j = (if j \<in> set is \<and> back ! j \<noteq> front[i := back ! i] ! j \<and> can_show (back ! j) then back ! j else cell s1 j)" by blast
    show ?thesis using r(1-3) s1(1,3) i(1,2) False Cons.prems(3)
      by (intro exI [of _ f] exI [of _ s']) (auto simp: r(4,5) nth_list_update)
  qed
qed auto

text \<open>Over all cells: the front copy is the back copy, and every cell that differed shows it.\<close>

lemma sync_all:
  assumes "inv s" and "length back = n" "length front = n" and "set is = {..<n}" "distinct is"
  shows "\<exists>s'. sync_cells put is back front s = Some (back, s') \<and> inv s' \<and>
    (\<forall>j<n. cell s' j = (if back ! j \<noteq> front ! j \<and> can_show (back ! j) then back ! j else cell s j))"
proof -
  have "set is \<subseteq> {..<n}" using assms(4) by simp
  from sync [OF assms(1-3) this assms(5)] obtain f s' where r: "sync_cells put is back front s = Some (f, s')" "inv s'" "length f = n"
    "\<forall>j<n. f ! j = (if j \<in> set is then back ! j else front ! j)"
    "\<forall>j<n. cell s' j = (if j \<in> set is \<and> back ! j \<noteq> front ! j \<and> can_show (back ! j) then back ! j else cell s j)" by blast
  have "f = back" using r(3,4) assms(2,4) by (intro nth_equalityI) auto
  then show ?thesis using r(1,2,5) assms(4) by auto
qed

end

section \<open>The kernel's terminal as such a screen\<close>

definition cell_nth :: "terminal \<Rightarrow> nat \<Rightarrow> mirror_cell" where
  "cell_nth t j = \<lparr>mc_ch = t_cells t ! (2 * j), mc_attr = t_cells t ! (2 * j + 1)\<rparr>"

definition put_nth :: "'d kernel \<Rightarrow> nat \<Rightarrow> mirror_cell \<Rightarrow> 'd outcome \<Rightarrow> 'd outcome option" where
  "put_nth k i c oc = sys_putchar_at k (mc_ch c) (of_nat (i mod 80)) (of_nat (i div 80)) (ucast (mc_attr c)) oc"

text \<open>The machines a program reaches from \<open>oc0\<close> by drawing on its terminal, and moving no cursor.\<close>

definition drawn_from :: "'d outcome \<Rightarrow> 'd outcome \<Rightarrow> bool" where
  "drawn_from oc0 oc \<longleftrightarrow> sys_ok (oc_sys oc0) \<and> shown (oc_sys oc0) \<and>
     (\<exists>cs. shows_term ((cur_term (oc_sys oc0))\<lparr>t_cells := cs\<rparr>) oc0 oc)"

definition not_newline :: "mirror_cell \<Rightarrow> bool" where
  "not_newline c \<longleftrightarrow> mc_ch c \<noteq> 10"

lemma put_cell_nth:
  assumes "length cs = 4000" "i < 2000" "j < 2000"
  shows "cell_nth (t\<lparr>t_cells := put_cell cs (int (i mod 80)) (int (i div 80)) c a\<rparr>) j =
    (if j = i then \<lparr>mc_ch = c, mc_attr = a\<rparr> else cell_nth (t\<lparr>t_cells := cs\<rparr>) j)"
proof -
  have "int (i div 80) * 80 + int (i mod 80) = int i" by (metis div_mult_mod_eq of_nat_add of_nat_mult of_nat_numeral)
  then have "nat ((int (i div 80) * 80 + int (i mod 80)) * 2) = 2 * i" "nat ((int (i div 80) * 80 + int (i mod 80)) * 2 + 1) = 2 * i + 1"
    by simp_all
  then have p: "put_cell cs (int (i mod 80)) (int (i div 80)) c a = cs[2 * i := c, 2 * i + 1 := a]" by (simp only: put_cell_def)
  have "2 * i + 1 \<noteq> 2 * j" "2 * j + 1 \<noteq> 2 * i" by presburger+
  then show ?thesis unfolding p using assms by (auto simp: cell_nth_def nth_list_update)
qed

lemma put_nth_drawn:
  assumes "drawn_from oc0 oc" and "i < 2000"
  shows "\<exists>oc'. put_nth k i c oc = Some oc' \<and> drawn_from oc0 oc' \<and>
    (\<forall>j<2000. cell_nth (cur_term (oc_sys oc')) j = (if j = i \<and> not_newline c then c else cell_nth (cur_term (oc_sys oc)) j))"
proof -
  obtain cs where o: "sys_ok (oc_sys oc0)" "shown (oc_sys oc0)" "shows_term ((cur_term (oc_sys oc0))\<lparr>t_cells := cs\<rparr>) oc0 oc"
    using assms(1) by (auto simp: drawn_from_def)
  note d = shows_termD [OF o(3,1)]
  let ?x = "of_nat (i mod 80) :: u32" and ?y = "of_nat (i div 80) :: u32"
  let ?t = "(cur_term (oc_sys oc0))\<lparr>t_cells := cs\<rparr>"
  have lt: "i mod 80 < 80" "i div 80 < 25" using assms(2) by (simp, linarith)
  have u: "uint ?x = int (i mod 80)" "uint ?y = int (i div 80)"
    using lt by (simp_all add: uint_nat of_nat_unat_small)
  have xy: "?x < 80" "?y < 25" using lt by (simp_all add: word_less_nat_alt of_nat_unat_small)
  have a: "ucast (ucast (mc_attr c) :: u32) = mc_attr c" by (rule bit_word_eqI) (simp add: bit_simps)
  obtain oc' where p: "put_nth k i c oc = Some oc'"
    "shows_term (put_at (mc_ch c) (int (i mod 80)) (int (i div 80)) (mc_attr c) ?t) oc oc'"
    using sys_putchar_at_eq [OF d(1,2) xy, of k "mc_ch c" "ucast (mc_attr c)"] unfolding u a d(3) put_nth_def by blast
  note d' = shows_termD [OF p(2) d(1)]
  have len: "length cs = 4000" using d(7) by (simp add: term_ok_def)
  have "\<exists>cs'. put_at (mc_ch c) (int (i mod 80)) (int (i div 80)) (mc_attr c) ?t = (cur_term (oc_sys oc0))\<lparr>t_cells := cs'\<rparr>"
    by (auto simp: put_at_def)
  then have "drawn_from oc0 oc'" using o(1,2) shows_term_trans [OF o(3) p(2) o(1)] by (auto simp: drawn_from_def)
  moreover have "cell_nth (put_at (mc_ch c) (int (i mod 80)) (int (i div 80)) (mc_attr c) ?t) j =
      (if j = i \<and> not_newline c then c else cell_nth ?t j)" if "j < 2000" for j
    using put_cell_nth [OF len assms(2) that, of "mc_ch c" "mc_attr c" ?t] by (auto simp: put_at_def not_newline_def)
  ultimately show ?thesis using p(1) d(3) d'(3) by auto
qed

interpretation scr: cell_screen "put_nth k" "\<lambda>oc. cell_nth (cur_term (oc_sys oc))" "drawn_from oc0" not_newline 2000 for k oc0
  by unfold_locales (rule put_nth_drawn)


lemma mirror_cell_eq: "mc_ch b = mc_ch f \<and> mc_attr b = mc_attr f \<longleftrightarrow> b = (f :: mirror_cell)"
  by auto

lemma flush_cells_sync:
  assumes "mirror_wf m" and "\<forall>(x, y)\<in>set ps. x < 80 \<and> y < 25"
  shows "flush_cells k ps m oc = map_option (\<lambda>(f, oc). (m\<lparr>m_front := f\<rparr>, oc))
    (sync_cells (put_nth k) (map (\<lambda>(x, y). y * 80 + x) ps) (m_back m) (m_front m) oc)"
  using assms
proof (induction ps arbitrary: m oc)
  case (Cons p ps)
  obtain x y where p: "p = (x, y)" by (cases p)
  let ?i = "y * 80 + x"
  have i: "?i < 2000" "?i mod 80 = x" "?i div 80 = y" using Cons.prems(2) by (simp_all add: p)
  have len: "length (m_back m) = 2000" "length (m_front m) = 2000" using Cons.prems(1) by (simp_all add: mirror_wf_def)
  have b: "load (m_back m) ?i = Some (m_back m ! ?i)" "load (m_front m) ?i = Some (m_front m ! ?i)"
    "store (m_front m) ?i c = Some ((m_front m)[?i := c])" for c using i(1) len by simp_all
  have wf: "mirror_wf (m\<lparr>m_front := (m_front m)[?i := c]\<rparr>)" for c using len by (simp add: mirror_wf_def)
  have ps: "\<forall>(x, y)\<in>set ps. x < 80 \<and> y < 25" using Cons.prems(2) by simp
  have put: "sys_putchar_at k (mc_ch c) (of_nat x) (of_nat y) (ucast (mc_attr c)) oc = put_nth k ?i c oc" for c
    unfolding put_nth_def i(2,3) ..
  show ?case
  proof (cases "m_back m ! ?i = m_front m ! ?i")
    case True
    then show ?thesis using Cons.IH [OF Cons.prems(1) ps] b(1,2) by (simp add: p Let_def)
  next
    case False
    then have "\<not> (mc_ch (m_back m ! ?i) = mc_ch (m_front m ! ?i) \<and> mc_attr (m_back m ! ?i) = mc_attr (m_front m ! ?i))"
      unfolding mirror_cell_eq .
    then have "flush_cells k (p # ps) m oc = put_nth k ?i (m_back m ! ?i) oc \<bind>
        (\<lambda>oc. flush_cells k ps (m\<lparr>m_front := (m_front m)[?i := m_back m ! ?i]\<rparr>) oc)"
      using b by (simp only: p flush_cells.simps Let_def bind.bind_lunit if_False put)
    also have "\<dots> = put_nth k ?i (m_back m ! ?i) oc \<bind> (\<lambda>oc. map_option (\<lambda>(f, oc). (m\<lparr>m_front := f\<rparr>, oc))
        (sync_cells (put_nth k) (map (\<lambda>(x, y). y * 80 + x) ps) (m_back m) ((m_front m)[?i := m_back m ! ?i]) oc))"
      using Cons.IH [OF wf ps] by simp
    finally show ?thesis using False by (simp add: p map_option_bind option.map_comp split: bind_splits)
  qed
qed simp

lemma rows_in_order:
  fixes w h :: nat
  shows "map (\<lambda>(x, y). y * w + x) [(x, y). y \<leftarrow> [0..<h], x \<leftarrow> [0..<w]] = [0..<h * w]"
proof (induction h)
  case (Suc h)
  have "map (\<lambda>x. h * w + x) [0..<w] = [h * w..<h * w + w]" by (rule nth_equalityI) simp_all
  moreover have "[0..<Suc h * w] = [0..<h * w] @ [h * w..<h * w + w]"
    using upt_add_eq_append [of 0 "h * w" w] by (simp add: add.commute)
  ultimately show ?case using Suc by (simp add: comp_def)
qed simp

lemma screen_order: "map (\<lambda>(x, y). y * 80 + x) [(x, y). y \<leftarrow> [0..<25], x \<leftarrow> [0..<80]] = [0..<2000::nat]"
  using rows_in_order [of 80 25] by simp

text \<open>What mirror_flush leaves: the front copy is the back copy, and every cell that differed, newlines apart, is shown.\<close>

definition all_blank :: "mirror \<Rightarrow> bool" where
  "all_blank m \<longleftrightarrow> (\<forall>c\<in>set (m_back m). mc_ch c = 32 \<and> drop_bit 4 (mc_attr c) = 0)"

lemma mirror_flush_cells:
  assumes "sys_ok (oc_sys oc)" "shown (oc_sys oc)" "mirror_wf m" "\<not> all_blank m"
  obtains oc' cs where "mirror_flush k m oc = Some (m\<lparr>m_front := m_back m\<rparr>, oc')" "shows_term ((cur_term (oc_sys oc))\<lparr>t_cells := cs\<rparr>) oc oc'"
    "\<forall>j<2000. cell_nth (cur_term (oc_sys oc')) j = (if m_back m ! j \<noteq> m_front m ! j \<and> not_newline (m_back m ! j) then m_back m ! j
       else cell_nth (cur_term (oc_sys oc)) j)"
proof -
  have "shows_term (cur_term (oc_sys oc)\<lparr>t_cells := t_cells (cur_term (oc_sys oc))\<rparr>) oc oc" using shows_term_refl [OF assms(1,2)] by simp
  then have d: "drawn_from oc oc" using assms(1,2) unfolding drawn_from_def by blast
  have len: "length (m_back m) = 2000" "length (m_front m) = 2000" using assms(3) by (simp_all add: mirror_wf_def)
  have ix: "set [0..<2000::nat] = {..<2000}" "distinct [0..<2000::nat]" by auto
  from scr.sync_all [OF d len ix, of k] obtain oc' where r: "sync_cells (put_nth k) [0..<2000] (m_back m) (m_front m) oc = Some (m_back m, oc')"
    "drawn_from oc oc'" "\<And>j. j < 2000 \<Longrightarrow> cell_nth (cur_term (oc_sys oc')) j =
      (if m_back m ! j \<noteq> m_front m ! j \<and> not_newline (m_back m ! j) then m_back m ! j else cell_nth (cur_term (oc_sys oc)) j)" by blast
  have nb: "\<not> list_all (\<lambda>c. \<not> (mc_ch c \<noteq> 32 \<or> drop_bit 4 (mc_attr c) \<noteq> 0)) (m_back m)"
    using assms(4) by (auto simp: all_blank_def list_all_iff)
  have "\<forall>(x, y)\<in>set [(x, y). y \<leftarrow> [0..<25], x \<leftarrow> [0..<80]]. x < (80 :: nat) \<and> y < (25 :: nat)" by auto
  from flush_cells_sync [OF assms(3) this, of k oc] r(1)
  have f: "mirror_flush k m oc = Some (m\<lparr>m_front := m_back m\<rparr>, oc')"
    unfolding screen_order using nb by (simp only: mirror_flush_def Let_def if_False) simp
  from r(2) obtain cs where "shows_term ((cur_term (oc_sys oc))\<lparr>t_cells := cs\<rparr>) oc oc'" by (auto simp: drawn_from_def)
  then show thesis using r(3) by (intro that [OF f]) auto
qed

lemma mirror_flush_run:
  assumes "sys_ok (oc_sys oc)" "shown (oc_sys oc)" "mirror_wf m"
  obtains oc' t where "mirror_flush k m oc = Some (m\<lparr>m_front := m_back m\<rparr>, oc')" "shows_term t oc oc'"
    "t_color t = t_color (cur_term (oc_sys oc))"
    "\<forall>j<2000. cell_nth t j =
      (if all_blank m then \<lparr>mc_ch = 32, mc_attr = t_color (cur_term (oc_sys oc))\<rparr>
       else if m_back m ! j \<noteq> m_front m ! j \<and> not_newline (m_back m ! j) then m_back m ! j
       else cell_nth (cur_term (oc_sys oc)) j)"
proof (cases "all_blank m")
  case True
  let ?t = "(cur_term (oc_sys oc))\<lparr>t_cells := blanks (t_color (cur_term (oc_sys oc))) 2000, t_cursor_x := 0, t_cursor_y := 0\<rparr>"
  obtain oc' where c: "sys_clear k oc = Some oc'" "shows_term ?t oc oc'" by (rule sys_clear_eq [OF assms(1)])
  have b: "mirror_flush k m oc = Some (m\<lparr>m_front := m_back m\<rparr>, oc')"
    using True c(1) by (simp add: mirror_flush_def all_blank_def list_all_iff)
  show thesis
  proof (rule that [OF b c(2)])
    show "\<forall>j<2000. cell_nth ?t j = (if all_blank m then \<lparr>mc_ch = 32, mc_attr = t_color (cur_term (oc_sys oc))\<rparr>
       else if m_back m ! j \<noteq> m_front m ! j \<and> not_newline (m_back m ! j) then m_back m ! j
       else cell_nth (cur_term (oc_sys oc)) j)"
      using True by (simp add: cell_nth_def nth_blanks)
  qed simp
next
  case False
  obtain oc' cs where "mirror_flush k m oc = Some (m\<lparr>m_front := m_back m\<rparr>, oc')" "shows_term ((cur_term (oc_sys oc))\<lparr>t_cells := cs\<rparr>) oc oc'"
    "\<forall>j<2000. cell_nth (cur_term (oc_sys oc')) j = (if m_back m ! j \<noteq> m_front m ! j \<and> not_newline (m_back m ! j) then m_back m ! j
       else cell_nth (cur_term (oc_sys oc)) j)" by (rule mirror_flush_cells [OF assms False])
  then show thesis using shows_termD(3) [OF _ assms(1)] False by (intro that) simp_all
qed


section \<open>What the screen shows\<close>

text \<open>The look of a cell: a blank or NUL glyph shows its background only.\<close>

definition look :: "mirror_cell \<Rightarrow> byte \<times> byte" where
  "look c = (if mc_ch c = 0 \<or> mc_ch c = 32 then (32, drop_bit 4 (mc_attr c)) else (mc_ch c, mc_attr c))"

text \<open>The terminal looks like the cells, those apart that hold a newline, which the kernel never draws (term_putchar_at
  returns at once); a terminal that clears to a black background.\<close>

definition looks_like :: "mirror_cell list \<Rightarrow> terminal \<Rightarrow> bool" where
  "looks_like cs t \<longleftrightarrow> (\<forall>j<2000. not_newline (cs ! j) \<longrightarrow> look (cs ! j) = look (cell_nth t j))"

definition dark :: "terminal \<Rightarrow> bool" where
  "dark t \<longleftrightarrow> drop_bit 4 (t_color t) = 0"

text \<open>A program that uses the mirror: drawing is putc and clear, of which the other drawing functions are made. Any
  character may be drawn in any cell.\<close>

inductive mirror_session :: "'d kernel \<Rightarrow> mirror \<Rightarrow> 'd outcome \<Rightarrow> bool" for k where
  session_init: "sys_ok (oc_sys oc) \<Longrightarrow> dark (cur_term (oc_sys oc)) \<Longrightarrow> mirror_init k attr m0 oc = Some (m, oc') \<Longrightarrow>
    mirror_session k m oc'"
| session_clear: "mirror_session k m oc \<Longrightarrow> mirror_session k (mirror_clear attr m) oc"
| session_putc: "mirror_session k m oc \<Longrightarrow> mirror_putc x y ch attr m = Some m' \<Longrightarrow> mirror_session k m' oc"
| session_cursor: "mirror_session k m oc \<Longrightarrow> mirror_cursor k x y oc = Some oc' \<Longrightarrow> mirror_session k m oc'"
| session_flush: "mirror_session k m oc \<Longrightarrow> mirror_flush k m oc = Some (m', oc') \<Longrightarrow> mirror_session k m' oc'"
| session_key: "mirror_session k m oc \<Longrightarrow> mirror_getkey k oc = Some (c, oc') \<Longrightarrow> mirror_session k m oc'"

definition mirror_inv :: "mirror \<Rightarrow> 'd outcome \<Rightarrow> bool" where
  "mirror_inv m oc \<longleftrightarrow> sys_ok (oc_sys oc) \<and> shown (oc_sys oc) \<and> mirror_wf m \<and> dark (cur_term (oc_sys oc)) \<and>
     looks_like (m_front m) (cur_term (oc_sys oc))"

lemma looks_like_cells: "t_cells t' = t_cells t \<Longrightarrow> looks_like cs t' = looks_like cs t"
  by (simp add: looks_like_def cell_nth_def)

lemma mirror_cursor_inv:
  assumes "mirror_inv m oc" and "mirror_cursor k x y oc = Some oc'"
  shows "mirror_inv m oc'"
proof -
  have o: "sys_ok (oc_sys oc)" "shown (oc_sys oc)" using assms(1) by (simp_all add: mirror_inv_def)
  let ?t = "if of_int x < (80 :: u32) \<and> of_int y < (25 :: u32) then move_to (uint (of_int x :: u32)) (uint (of_int y :: u32)) (cur_term (oc_sys oc))
    else cur_term (oc_sys oc)"
  obtain oc1 where "sys_goto_xy k (of_int x) (of_int y) oc = Some oc1" "shows_term ?t oc oc1" by (rule sys_goto_xy_eq [OF o])
  then have s: "shows_term ?t oc oc'" using assms(2) by (simp add: mirror_cursor_def)
  have c: "t_cells ?t = t_cells (cur_term (oc_sys oc))" "t_color ?t = t_color (cur_term (oc_sys oc))" by (simp_all add: move_to_def)
  show ?thesis using assms(1) shows_termD [OF s o(1)] looks_like_cells [OF c(1)] c(2) by (simp add: mirror_inv_def dark_def)
qed

lemma mirror_getkey_inv:
  assumes "mirror_inv m oc" and "mirror_getkey k oc = Some (c, oc')"
  shows "mirror_inv m oc'"
proof -
  have o: "sys_ok (oc_sys oc)" using assms(1) by (simp add: mirror_inv_def)
  from assms(2) obtain i where w: "wait_key (oc_keys oc) (sy_kbd (oc_sys oc)) = Some (c, i)"
    by (auto simp: mirror_getkey_def sys_getc_def int80_eax_def int80_def syscall_handler_def Let_def split: bind_splits)
  obtain oc1 where "sys_getc k oc = Some (c, oc1)" "sys_ok (oc_sys oc1)" "cur_term (oc_sys oc1) = cur_term (oc_sys oc)"
    "shown (oc_sys oc1) = shown (oc_sys oc)" by (rule sys_getc_eq [OF o w])
  then show ?thesis using assms by (simp add: mirror_getkey_def mirror_inv_def)
qed

lemma mirror_flush_inv:
  assumes "mirror_inv m oc"
  obtains oc' where "mirror_flush k m oc = Some (m\<lparr>m_front := m_back m\<rparr>, oc')" "mirror_inv (m\<lparr>m_front := m_back m\<rparr>) oc'"
proof -
  have o: "sys_ok (oc_sys oc)" "shown (oc_sys oc)" "mirror_wf m" "dark (cur_term (oc_sys oc))" "looks_like (m_front m) (cur_term (oc_sys oc))" using assms by (simp_all add: mirror_inv_def)
  obtain oc' t where f: "mirror_flush k m oc = Some (m\<lparr>m_front := m_back m\<rparr>, oc')" "shows_term t oc oc'"
    "t_color t = t_color (cur_term (oc_sys oc))"
    "\<forall>j<2000. cell_nth t j =
      (if all_blank m then \<lparr>mc_ch = 32, mc_attr = t_color (cur_term (oc_sys oc))\<rparr>
       else if m_back m ! j \<noteq> m_front m ! j \<and> not_newline (m_back m ! j) then m_back m ! j
       else cell_nth (cur_term (oc_sys oc)) j)" by (rule mirror_flush_run [OF o(1-3), of k])
  have "look (m_back m ! j) = look (cell_nth t j)" if "j < 2000" "not_newline (m_back m ! j)" for j
  proof -
    have in_back: "m_back m ! j \<in> set (m_back m)" using o(3) that by (simp add: mirror_wf_def)
    show ?thesis
    proof (cases "all_blank m")
      case True
      then have "look (m_back m ! j) = (32, 0)" using in_back by (auto simp: all_blank_def look_def)
      then show ?thesis using f(4) that True o(4) by (simp add: look_def dark_def)
    next
      case False
      then show ?thesis using f(4) that o(5) by (auto simp: looks_like_def)
    qed
  qed
  then have "looks_like (m_back m) t" by (simp add: looks_like_def)
  then have "mirror_inv (m\<lparr>m_front := m_back m\<rparr>) oc'"
    using shows_termD [OF f(2) o(1)] f(3) o by (simp add: mirror_inv_def mirror_wf_def dark_def)
  with f(1) show thesis by (rule that)
qed

lemma mirror_init_run:
  assumes "sys_ok (oc_sys oc)" and "dark (cur_term (oc_sys oc))"
  obtains m oc' where "mirror_init k attr m0 oc = Some (m, oc')" "mirror_inv m oc'"
proof -
  let ?m = "m0\<lparr>m_back := replicate 2000 (blank_cell attr), m_front := (if drop_bit 4 attr = 0 then replicate 2000 (blank_cell attr)
    else replicate 2000 \<lparr>mc_ch = 0, mc_attr = 0\<rparr>)\<rparr>"
  let ?t = "(cur_term (oc_sys oc))\<lparr>t_cells := blanks (t_color (cur_term (oc_sys oc))) 2000, t_cursor_x := 0, t_cursor_y := 0\<rparr>"
  obtain oc1 where c: "sys_clear k oc = Some oc1" "shows_term ?t oc oc1" by (rule sys_clear_eq [OF assms(1)])
  note d = shows_termD [OF c(2) assms(1)]
  have "looks_like (m_front ?m) ?t"
    using assms(2) by (simp add: looks_like_def look_def cell_nth_def nth_blanks blank_cell_def dark_def)
  then have inv: "mirror_inv ?m oc1" using d assms(2)
    by (simp add: mirror_inv_def mirror_wf_def not_newline_def blank_cell_def dark_def)
  obtain oc2 where g: "sys_goto_xy k (of_int 79) (of_int 24) oc1 = Some oc2" by (rule sys_goto_xy_eq [OF d(1,2)])
  then have cur: "mirror_cursor k 79 24 oc1 = Some oc2" by (simp add: mirror_cursor_def)
  then have "mirror_init k attr m0 oc = Some (?m, oc2)"
    using c(1) by (simp add: mirror_init_def Let_def MIRROR_COLS_def MIRROR_ROWS_def)
  then show thesis by (rule that) (rule mirror_cursor_inv [OF inv cur])
qed

lemma mirror_session_inv: "mirror_session k m oc \<Longrightarrow> mirror_inv m oc"
proof (induction rule: mirror_session.induct)
  case (session_init oc attr m0 m oc')
  obtain m1 oc1 where "mirror_init k attr m0 oc = Some (m1, oc1)" "mirror_inv m1 oc1" by (rule mirror_init_run [OF session_init(1,2)])
  with session_init(3) show ?case by simp
next
  case (session_clear m oc attr)
  then show ?case by (simp add: mirror_inv_def mirror_clear_def mirror_wf_def not_newline_def blank_cell_def)
next
  case (session_putc m oc ch x y attr m')
  then have "mirror_wf m" by (simp add: mirror_inv_def)
  with session_putc show ?case
    by (auto simp: mirror_putc_eq mirror_inv_def mirror_wf_def split: if_splits)
next
  case (session_cursor m oc x y oc')
  then show ?case by (blast intro: mirror_cursor_inv)
next
  case (session_flush m oc m' oc')
  obtain oc1 where "mirror_flush k m oc = Some (m\<lparr>m_front := m_back m\<rparr>, oc1)" "mirror_inv (m\<lparr>m_front := m_back m\<rparr>) oc1"
    by (rule mirror_flush_inv [OF session_flush(3)])
  with session_flush(2) show ?case by simp
next
  case (session_key m oc c oc')
  then show ?case by (blast intro: mirror_getkey_inv)
qed

text \<open>C6: In every program that draws through the mirror, after any drawing of any characters, cursor movement, key and
  flush, a flush answers, sends what changed and leaves the terminal looking like the drawn cells: every one of the
  2000 that does not hold a newline, wherever newlines were drawn before, and the VGA buffer as that terminal's image
  with its caret. A cell that holds a newline is the exception: the kernel draws no newline, so such a cell keeps
  showing what it showed.\<close>

theorem mirror_flush_shows:
  assumes "mirror_session k m oc"
  shows "\<exists>oc'. mirror_flush k m oc = Some (m\<lparr>m_front := m_back m\<rparr>, oc') \<and>
    looks_like (m_back m) (cur_term (oc_sys oc')) \<and> w_vga (sy_wm (oc_sys oc')) = vga_image (cur_term (oc_sys oc'))"
proof -
  obtain oc' where "mirror_flush k m oc = Some (m\<lparr>m_front := m_back m\<rparr>, oc')" "mirror_inv (m\<lparr>m_front := m_back m\<rparr>) oc'"
    by (rule mirror_flush_inv [OF mirror_session_inv [OF assms]])
  then show ?thesis by (auto simp: mirror_inv_def shown_def)
qed

lemma tiny_dark: "dark (cur_term tiny_sys)"
  by (simp add: dark_def cur_term_def tiny_sys_def term_blank_def)

definition no_kernel :: "unit kernel" where
  "no_kernel = \<lparr>k_disk = no_disk, k_entry = (\<lambda>_. 0)\<rparr>"

lemma mirror_flush_shows_witness:
  "\<exists>m oc m1 oc'. mirror_init no_kernel 0x1F (\<lparr>m_back = [], m_front = []\<rparr>) (tiny_call 0 0 0 0) = Some (m, oc) \<and>
    mirror_putc 3 2 65 0x1F m = Some m1 \<and> mirror_flush no_kernel m1 oc = Some (m1\<lparr>m_front := m_back m1\<rparr>, oc') \<and>
    look (cell_nth (cur_term (oc_sys oc')) 163) = (65, 0x1F)"
proof -
  have ok: "sys_ok (oc_sys (tiny_call 0 0 0 0))" "dark (cur_term (oc_sys (tiny_call 0 0 0 0)))"
    by (simp_all add: tiny_call_def tiny_sys_ok tiny_dark)
  obtain m oc where i: "mirror_init no_kernel 0x1F (\<lparr>m_back = [], m_front = []\<rparr>) (tiny_call 0 0 0 0) = Some (m, oc)" "mirror_inv m oc"
    by (rule mirror_init_run [OF ok])
  let ?m1 = "m\<lparr>m_back := (m_back m)[163 := \<lparr>mc_ch = 65, mc_attr = 0x1F\<rparr>]\<rparr>"
  have wf: "mirror_wf m" using i(2) by (simp add: mirror_inv_def)
  have p: "mirror_putc 3 2 65 0x1F m = Some ?m1" by (simp add: mirror_putc_eq [OF wf])
  have "mirror_session no_kernel ?m1 oc"
    by (rule session_putc [OF session_init [OF ok i(1)] p])
  from mirror_flush_shows [OF this] obtain oc' where f: "mirror_flush no_kernel ?m1 oc = Some (?m1\<lparr>m_front := m_back ?m1\<rparr>, oc')"
    "looks_like (m_back ?m1) (cur_term (oc_sys oc'))" by blast
  have "163 < (2000 :: nat)" "not_newline (m_back ?m1 ! 163)" using wf by (simp_all add: mirror_wf_def not_newline_def)
  with f(2) have "look (m_back ?m1 ! 163) = look (cell_nth (cur_term (oc_sys oc')) 163)" unfolding looks_like_def by blast
  then have "look (cell_nth (cur_term (oc_sys oc')) 163) = (65, 0x1F)" using wf by (simp add: mirror_wf_def look_def)
  with i(1) p f(1) show ?thesis by blast
qed


section \<open>Menus\<close>

text \<open>What the widgets need: a working screen and whole arrays.\<close>

definition ready :: "mirror \<Rightarrow> 'd outcome \<Rightarrow> bool" where
  "ready m oc \<longleftrightarrow> sys_ok (oc_sys oc) \<and> shown (oc_sys oc) \<and> mirror_wf m"

lemma ready_flush:
  assumes "ready m oc"
  obtains oc' where "mirror_flush k m oc = Some (m\<lparr>m_front := m_back m\<rparr>, oc')" "ready (m\<lparr>m_front := m_back m\<rparr>) oc'" "input_of oc' = input_of oc"
proof -
  have o: "sys_ok (oc_sys oc)" "shown (oc_sys oc)" "mirror_wf m" using assms by (simp_all add: ready_def)
  obtain oc' t where f: "mirror_flush k m oc = Some (m\<lparr>m_front := m_back m\<rparr>, oc')" "shows_term t oc oc'" by (rule mirror_flush_run [OF o])
  show thesis
    using shows_termD [OF f(2) o(1)] shows_term_input [OF f(2)] o(3) by (intro that [OF f(1)]) (simp_all add: ready_def mirror_wf_def)
qed

lemma ready_cursor:
  assumes "ready m oc"
  obtains oc' where "mirror_cursor k x y oc = Some oc'" "ready m oc'" "input_of oc' = input_of oc"
proof -
  have o: "sys_ok (oc_sys oc)" "shown (oc_sys oc)" "mirror_wf m" using assms by (simp_all add: ready_def)
  obtain oc' t where g: "sys_goto_xy k (of_int x) (of_int y) oc = Some oc'" "shows_term t oc oc'"
    using sys_goto_xy_eq [OF o(1,2), of k "of_int x" "of_int y"] by blast
  show thesis
    using g(1) shows_termD [OF g(2) o(1)] shows_term_input [OF g(2)] o(3) by (intro that [of oc']) (simp_all add: mirror_cursor_def ready_def)
qed

lemma ready_getkey:
  assumes "ready m oc" and "wait_key (fst (input_of oc)) (snd (input_of oc)) = Some (c, i)"
  obtains oc' where "mirror_getkey k oc = Some (c, oc')" "ready m oc'" "input_of oc' = i"
proof -
  have o: "sys_ok (oc_sys oc)" "shown (oc_sys oc)" "mirror_wf m" using assms by (simp_all add: ready_def)
  have w: "wait_key (oc_keys oc) (sy_kbd (oc_sys oc)) = Some (c, i)" using assms(2) by (simp add: input_of_def)
  obtain oc' where g: "sys_getc k oc = Some (c, oc')" "reads_key i oc oc'" "sys_ok (oc_sys oc')" "shown (oc_sys oc') = shown (oc_sys oc)"
    by (rule sys_getc_eq [OF o(1) w])
  show thesis using g o by (intro that [of oc']) (simp_all add: mirror_getkey_def ready_def reads_key_def)
qed

definition menu_step :: "int \<Rightarrow> u32 \<Rightarrow> int \<Rightarrow> int" where
  "menu_step count c s = (if c = MIRROR_KEY_UP then (s - 1) mod count else if c = MIRROR_KEY_DOWN then (s + 1) mod count else s)"

definition ends_menu :: "u32 \<Rightarrow> bool" where
  "ends_menu c \<longleftrightarrow> c = MIRROR_KEY_ENTER \<or> c = MIRROR_KEY_ESC"

lemma select_loop_keys:
  assumes items: "\<forall>b. Some b \<in> set items \<longrightarrow> 0 \<in> set b" "count \<le> int (length items)"
    and "ready m oc" and "typed (input_of oc) (cs @ [c]) i" and "\<forall>c\<in>set cs. \<not> ends_menu c" and "ends_menu c"
  shows "\<exists>m' oc'. select_loop k x y w items count s attr sel_attr m oc =
    Some (if c = MIRROR_KEY_ESC then -1 else fold (menu_step count) cs s, m', oc') \<and> ready m' oc' \<and> input_of oc' = i"
  using assms(3-5)
proof (induction cs arbitrary: s m oc)
  case Nil
  have wf: "mirror_wf m" using Nil.prems(1) by (simp add: ready_def)
  from mirror_menu_draws [OF items wf, of x y w s attr sel_attr] obtain m1 where m1: "mirror_menu x y w items count s attr sel_attr m = Some m1" "mirror_wf m1"
    by (auto simp: draws_def)
  have "ready m1 oc" using Nil.prems(1) m1(2) by (simp add: ready_def)
  then obtain oc1 where f: "mirror_flush k m1 oc = Some (m1\<lparr>m_front := m_back m1\<rparr>, oc1)" "ready (m1\<lparr>m_front := m_back m1\<rparr>) oc1"
    "input_of oc1 = input_of oc" by (rule ready_flush)
  have "wait_key (fst (input_of oc1)) (snd (input_of oc1)) = Some (c, i)" using Nil.prems(2) f(3) by (cases i) auto
  then obtain oc2 where g: "mirror_getkey k oc1 = Some (c, oc2)" "ready (m1\<lparr>m_front := m_back m1\<rparr>) oc2" "input_of oc2 = i"
    by (rule ready_getkey [OF f(2)])
  from assms(6) show ?case using m1(1) f(1) g by (subst select_loop.simps) (auto simp: ends_menu_def mirror_keys)
next
  case (Cons d cs)
  have wf: "mirror_wf m" using Cons.prems(1) by (simp add: ready_def)
  from mirror_menu_draws [OF items wf, of x y w s attr sel_attr] obtain m1 where m1: "mirror_menu x y w items count s attr sel_attr m = Some m1" "mirror_wf m1"
    by (auto simp: draws_def)
  have "ready m1 oc" using Cons.prems(1) m1(2) by (simp add: ready_def)
  then obtain oc1 where f: "mirror_flush k m1 oc = Some (m1\<lparr>m_front := m_back m1\<rparr>, oc1)" "ready (m1\<lparr>m_front := m_back m1\<rparr>) oc1"
    "input_of oc1 = input_of oc" by (rule ready_flush)
  from Cons.prems(2) obtain i1 where i1: "wait_key (fst (input_of oc1)) (snd (input_of oc1)) = Some (d, i1)" "typed i1 (cs @ [c]) i"
    using f(3) by auto
  from i1(1) obtain oc2 where g: "mirror_getkey k oc1 = Some (d, oc2)" "ready (m1\<lparr>m_front := m_back m1\<rparr>) oc2" "input_of oc2 = i1"
    by (rule ready_getkey [OF f(2)])
  have d: "\<not> ends_menu d" "\<forall>c\<in>set cs. \<not> ends_menu c" using Cons.prems(3) by simp_all
  have t: "typed (input_of oc2) (cs @ [c]) i" using i1(2) g(3) by simp
  have up: "(s + count - 1) mod count = (s - 1) mod count" using mod_add_self2 [of "s - 1" count] by (simp add: algebra_simps)
  have "select_loop k x y w items count s attr sel_attr m oc =
      select_loop k x y w items count (menu_step count d s) attr sel_attr (m1\<lparr>m_front := m_back m1\<rparr>) oc2"
    using m1(1) f(1) g(1) d(1) by (subst select_loop.simps) (auto simp: ends_menu_def menu_step_def up)
  with Cons.IH [OF g(2) t d(2), of "menu_step count d s"] show ?case by (simp only: fold_simps)
qed

lemma menu_fold:
  "0 < count \<Longrightarrow> 0 \<le> s \<Longrightarrow> s < count \<Longrightarrow>
    fold (menu_step count) cs s = (s + int (count_list cs MIRROR_KEY_DOWN) - int (count_list cs MIRROR_KEY_UP)) mod count"
proof (induction cs arbitrary: s)
  case (Cons c cs)
  have "0 \<le> menu_step count c s" "menu_step count c s < count" using Cons.prems by (simp_all add: menu_step_def)
  note ih = Cons.IH [OF Cons.prems(1) this]
  let ?D = "int (count_list cs MIRROR_KEY_DOWN)" and ?U = "int (count_list cs MIRROR_KEY_UP)"
  have m: "(u mod count + a - b) mod count = (u + a - b) mod count" for u a b
    unfolding add_diff_eq [symmetric] by (rule mod_add_left_eq)
  consider "c = MIRROR_KEY_UP" | "c = MIRROR_KEY_DOWN" | "c \<noteq> MIRROR_KEY_UP" "c \<noteq> MIRROR_KEY_DOWN" by blast
  then show ?case
  proof cases
    case 1
    then have ms: "menu_step count c s = (s - 1) mod count" by (simp add: menu_step_def)
    have "fold (menu_step count) (c # cs) s = (s - 1 + ?D - ?U) mod count" using ih unfolding ms fold_simps m .
    moreover have "s - 1 + ?D - ?U = s + int (count_list (c # cs) MIRROR_KEY_DOWN) - int (count_list (c # cs) MIRROR_KEY_UP)"
      using 1 by (simp add: mirror_keys)
    ultimately show ?thesis by (simp only:)
  next
    case 2
    then have ms: "menu_step count c s = (s + 1) mod count" by (simp add: menu_step_def mirror_keys)
    have "fold (menu_step count) (c # cs) s = (s + 1 + ?D - ?U) mod count" using ih unfolding ms fold_simps m .
    moreover have "s + 1 + ?D - ?U = s + int (count_list (c # cs) MIRROR_KEY_DOWN) - int (count_list (c # cs) MIRROR_KEY_UP)"
      using 2 by (simp add: mirror_keys)
    ultimately show ?thesis by (simp only:)
  next
    case 3
    then show ?thesis using ih by (simp add: menu_step_def)
  qed
qed simp

text \<open>C17: A menu answers as soon as a key ends it: with -1 for escape, and for enter with the entry reached from the
  first one by the arrow keys, downs less ups, around the list; other keys change nothing, and no key behind the
  last is read.\<close>

theorem menu_select_result:
  assumes "ready m oc" and "\<forall>b. Some b \<in> set items \<longrightarrow> 0 \<in> set b" and "0 < count" "count \<le> int (length items)"
    and "typed (input_of oc) (cs @ [c]) i" and "\<forall>c\<in>set cs. \<not> ends_menu c" and "ends_menu c"
  shows "\<exists>m' oc'. mirror_menu_select k x y w items count sel attr sel_attr m oc =
      Some (if c = MIRROR_KEY_ESC then -1
        else ((if 0 \<le> sel \<and> sel < count then sel else 0) + int (count_list cs MIRROR_KEY_DOWN) - int (count_list cs MIRROR_KEY_UP)) mod count,
        m', oc') \<and>
    ready m' oc' \<and> input_of oc' = i"
proof -
  let ?s = "if 0 \<le> sel \<and> sel < count then sel else 0"
  have s: "0 \<le> ?s" "?s < count" using assms(3) by auto
  have "(if sel < 0 \<or> sel \<ge> count then 0 else sel) = ?s" by auto
  with select_loop_keys [OF assms(2,4,1,5,6,7), of k x y w ?s attr sel_attr] show ?thesis
    using assms(3) unfolding menu_fold [OF assms(3) s] mirror_menu_select_def by auto
qed


lemma typed_two:
  assumes "map_option fst (wait_key keys kb) = Some a"
    and "map_option fst (wait_key keys kb \<bind> (\<lambda>(_, i). wait_key (fst i) (snd i))) = Some b"
  shows "\<exists>i. typed (keys, kb) [a, b] i"
  using assms by (auto split: bind_splits)

declare wait_key.simps [code]

text \<open>The scan codes of the down arrow and the enter key, each with its release.\<close>

lemma down_enter: "\<exists>i. typed ([0xE0, 0x50, 0xE0, 0xD0, 0x1C, 0x9C], kbd_init) ([MIRROR_KEY_DOWN] @ [MIRROR_KEY_ENTER]) i"
  unfolding append.simps by (rule typed_two; code_simp)

lemma tiny_ready:
  obtains oc :: "unit outcome" where "ready \<lparr>m_back = replicate 2000 (blank_cell 7), m_front = replicate 2000 (blank_cell 7)\<rparr> oc"
    "input_of oc = (keys, kbd_init)"
proof -
  let ?oc = "(tiny_call 0 0 0 0)\<lparr>oc_keys := keys\<rparr>"
  have ok: "sys_ok (oc_sys ?oc)" by (simp add: tiny_call_def tiny_sys_ok)
  obtain oc' t where c: "sys_clear no_kernel ?oc = Some oc'" "shows_term t ?oc oc'" using sys_clear_eq [OF ok, of no_kernel] by blast
  have "input_of oc' = (keys, kbd_init)"
    using shows_term_input [OF c(2)] by (simp add: input_of_def tiny_call_def tiny_sys_def)
  then show thesis using shows_termD [OF c(2) ok] by (intro that [of oc']) (simp_all add: ready_def mirror_wf_def)
qed

lemma menu_select_result_witness:
  "\<exists>oc m m' oc'. mirror_menu_select no_kernel 0 0 10 [Some (asc ''yes'' @ [0]), Some (asc ''no'' @ [0])] 2 0 7 0x70 m oc
    = Some (1, m', oc')"
proof -
  let ?m = "\<lparr>m_back = replicate 2000 (blank_cell 7), m_front = replicate 2000 (blank_cell 7)\<rparr>"
  obtain i where t: "typed ([0xE0, 0x50, 0xE0, 0xD0, 0x1C, 0x9C], kbd_init) ([MIRROR_KEY_DOWN] @ [MIRROR_KEY_ENTER]) i"
    using down_enter by blast
  obtain oc :: "unit outcome" where oc: "ready ?m oc" "input_of oc = ([0xE0, 0x50, 0xE0, 0xD0, 0x1C, 0x9C], kbd_init)" by (rule tiny_ready)
  have "\<forall>b. Some b \<in> set [Some (asc ''yes'' @ [0]), Some (asc ''no'' @ [0])] \<longrightarrow> 0 \<in> set b" by simp
  from menu_select_result [OF oc(1) this, where count = 2 and cs = "[MIRROR_KEY_DOWN]" and c = MIRROR_KEY_ENTER and i = i
      and k = no_kernel and x = 0 and y = 0 and w = 10 and sel = 0 and attr = 7 and sel_attr = "0x70"] t oc(2) show ?thesis
    by (auto simp: ends_menu_def mirror_keys)
qed

section \<open>The input field\<close>

text \<open>The field as an editor: the text left and right of the caret.\<close>

definition edit_key :: "int \<Rightarrow> u32 \<Rightarrow> byte list \<times> byte list \<Rightarrow> byte list \<times> byte list" where
  "edit_key cap c lr = (case lr of (l, r) \<Rightarrow>
     if c = MIRROR_KEY_BACKSPACE then (butlast l, r)
     else if c = MIRROR_KEY_LEFT then (if l = [] then (l, r) else (butlast l, last l # r))
     else if c = MIRROR_KEY_RIGHT then (if r = [] then (l, r) else (l @ [hd r], tl r))
     else if sint c \<ge> 32 \<and> sint c \<le> 126 \<and> int (length l + length r) < cap - 1 then (l @ [ucast c], r)
     else (l, r))"

text \<open>How buffer, length and caret hold it, in an object of \<open>n\<close> bytes.\<close>

definition field_rep :: "nat \<Rightarrow> int \<Rightarrow> byte list \<times> nat \<times> nat \<Rightarrow> byte list \<times> byte list \<Rightarrow> bool" where
  "field_rep n cap st lr \<longleftrightarrow> (case lr of (l, r) \<Rightarrow>
     nul_free l \<and> nul_free r \<and> int (length l + length r) < cap \<and> cap \<le> int n \<and>
     (\<exists>rest. st = (l @ r @ 0 # rest, length l + length r, length l) \<and> length l + length r + 1 + length rest = n))"

lemma close_gap_eq: "close_gap (length l) (length r) (l @ x # r @ rest) = Some (l @ r @ last (x # r) # rest)"
proof (induction r arbitrary: l x)
  case (Cons y r)
  from Cons.IH [of "l @ [y]" y] show ?case by (simp add: load_def store_def nth_append list_update_append)
qed simp

lemma open_gap_eq: "open_gap (length l + length r) (length r) (l @ r @ x # rest) = Some (l @ (case r of [] \<Rightarrow> x | y # _ \<Rightarrow> y) # r @ rest)"
proof (induction r arbitrary: x rest rule: rev_induct)
  case (snoc y r)
  from snoc.IH [of y "y # rest"] show ?case by (cases r) (simp_all add: load_def store_def nth_append list_update_append)
qed simp

lemma printable_char: "32 \<le> sint (c :: u32) \<Longrightarrow> sint c \<le> 126 \<Longrightarrow> ucast c \<noteq> (0 :: byte)"
proof
  assume a: "32 \<le> sint c" "sint c \<le> 126" and z: "ucast c = (0 :: byte)"
  have w: "(word_of_int (sint c) :: u32) = c" by simp
  have "uint c = sint c mod 2 ^ LENGTH(32)" using uint_word_of_int [of "sint c", where ?'a = 32] unfolding w .
  then have u: "uint c = sint c" using a by simp
  have "uint (ucast c :: byte) = uint c mod 256" by (simp add: unsigned_ucast_eq take_bit_eq_mod)
  with a z u show False by simp
qed

lemma input_key_refines:
  assumes "field_rep n cap st lr"
  shows "\<exists>st'. input_key c cap st = Some st' \<and> field_rep n cap st' (edit_key cap c lr)"
proof -
  obtain l r where lr: "lr = (l, r)" by (cases lr)
  obtain rest where st: "st = (l @ r @ 0 # rest, length l + length r, length l)" "nul_free l" "nul_free r"
    "int (length l + length r) < cap" "cap \<le> int n" "length l + length r + 1 + length rest = n"
    using assms by (auto simp: field_rep_def lr)
  consider "c = MIRROR_KEY_BACKSPACE" | "c = MIRROR_KEY_LEFT" | "c = MIRROR_KEY_RIGHT"
    | "c \<notin> {MIRROR_KEY_BACKSPACE, MIRROR_KEY_LEFT, MIRROR_KEY_RIGHT}" "sint c \<ge> 32" "sint c \<le> 126" "int (length l + length r) < cap - 1"
    | "c \<notin> {MIRROR_KEY_BACKSPACE, MIRROR_KEY_LEFT, MIRROR_KEY_RIGHT}"
        "\<not> (sint c \<ge> 32 \<and> sint c \<le> 126 \<and> int (length l + length r) < cap - 1)" by blast
  then show ?thesis
  proof cases
    case 1
    show ?thesis
    proof (cases l rule: rev_cases)
      case (snoc l0 x)
      have "close_gap (length l0) (length r) (l @ r @ 0 # rest) = Some (l0 @ r @ last (x # r) # 0 # rest)"
        using close_gap_eq [of l0 r x "0 # rest"] snoc by simp
      then have "input_key c cap st = Some (l0 @ r @ 0 # 0 # rest, length l0 + length r, length l0)"
        using 1 snoc by (simp add: input_key_def st store_def nth_append list_update_append)
      then show ?thesis using st 1 snoc by (auto simp: field_rep_def edit_key_def lr)
    qed (use st 1 in \<open>simp add: input_key_def edit_key_def lr field_rep_def\<close>)
  next
    case 2
    then show ?thesis using st
      by (cases l rule: rev_cases) (auto simp: input_key_def edit_key_def lr field_rep_def mirror_keys)
  next
    case 3
    then show ?thesis using st
      by (cases r) (auto simp: input_key_def edit_key_def lr field_rep_def mirror_keys)
  next
    case 4
    obtain z rest' where rest: "rest = z # rest'" using st(5,6) 4(4) by (cases rest) auto
    have "open_gap (length l + length r) (length r) (l @ r @ 0 # rest) = Some (l @ (case r of [] \<Rightarrow> 0 | y # _ \<Rightarrow> y) # r @ rest)"
      by (rule open_gap_eq)
    then have "input_key c cap st = Some (l @ ucast c # r @ 0 # rest', length l + length r + 1, length l + 1)"
      using 4 by (simp add: input_key_def st(1) rest store_def nth_append list_update_append)
    then show ?thesis using st 4 printable_char [OF 4(2,3)] by (auto simp: field_rep_def edit_key_def lr rest)
  next
    case 5
    then show ?thesis using assms st(1) by (auto simp: input_key_def edit_key_def lr)
  qed
qed


lemma draw_field_draws:
  assumes "field_rep n cap st lr" and "0 < w" and "mirror_wf m"
  obtains caret m' where "draw_field x y w attr st m = Some (caret, m')" "mirror_wf m'"
proof -
  obtain l r rest where st: "st = (l @ r @ 0 # rest, length l + length r, length l)"
    using assms(1) by (auto simp: field_rep_def split: prod.splits)
  obtain off where off: "off = (if int (length l) \<ge> w then nat (int (length l) - w + 1) else 0)" by blast
  have le: "off \<le> length l" using assms(2) by (auto simp: off)
  let ?draw = "mirror_fill x y w 1 32 attr m \<bind> field_chars x y w (l @ r @ 0 # rest) attr off off (length l + length r - off)"
  have "draws m ?draw"
    by (rule draws_bind [OF mirror_fill_draws [OF assms(3)]]) (use le in \<open>intro field_chars_draws, simp_all\<close>)
  then obtain m' where m': "?draw = Some m'" "mirror_wf m'" by (auto simp: draws_def)
  have "draw_field x y w attr st m = ?draw \<bind> (\<lambda>m. Some (x + int (length l) - int off, m))"
    unfolding draw_field_def st Let_def prod.case off [symmetric] by simp
  with m' show thesis by (intro that [of "x + int (length l) - int off" m']) simp_all
qed

lemma input_loop_keys:
  assumes "field_rep n cap st lr" and "0 < w" and "ready m oc" and "typed (input_of oc) (cs @ [c]) i"
    and "\<forall>c\<in>set cs. \<not> ends_menu c" and "ends_menu c"
  shows "\<exists>st' m' oc'. input_loop k x y w cap attr st m oc = Some (if c = MIRROR_KEY_ESC then -1 else 0, fst st', m', oc') \<and>
    field_rep n cap st' (fold (edit_key cap) cs lr) \<and> ready m' oc' \<and> input_of oc' = i"
  using assms(1,3-5)
proof (induction cs arbitrary: st lr m oc)
  case Nil
  have wf: "mirror_wf m" using Nil.prems(2) by (simp add: ready_def)
  obtain caret m1 where m1: "draw_field x y w attr st m = Some (caret, m1)" "mirror_wf m1"
    by (rule draw_field_draws [OF Nil.prems(1) assms(2) wf])
  have "ready m1 oc" using Nil.prems(2) m1(2) by (simp add: ready_def)
  then obtain oc1 where g: "mirror_cursor k caret y oc = Some oc1" "ready m1 oc1" "input_of oc1 = input_of oc" by (rule ready_cursor)
  obtain oc2 where f: "mirror_flush k m1 oc1 = Some (m1\<lparr>m_front := m_back m1\<rparr>, oc2)" "ready (m1\<lparr>m_front := m_back m1\<rparr>) oc2"
    "input_of oc2 = input_of oc1" by (rule ready_flush [OF g(2)])
  have "wait_key (fst (input_of oc2)) (snd (input_of oc2)) = Some (c, i)" using Nil.prems(3) f(3) g(3) by (cases i) auto
  then obtain oc3 where h: "mirror_getkey k oc2 = Some (c, oc3)" "ready (m1\<lparr>m_front := m_back m1\<rparr>) oc3" "input_of oc3 = i"
    by (rule ready_getkey [OF f(2)])
  obtain oc4 where e: "mirror_cursor k 79 24 oc3 = Some oc4" "ready (m1\<lparr>m_front := m_back m1\<rparr>) oc4" "input_of oc4 = input_of oc3"
    by (rule ready_cursor [OF h(2)])
  have "input_loop k x y w cap attr st m oc = Some (if c = MIRROR_KEY_ESC then -1 else 0, fst st, m1\<lparr>m_front := m_back m1\<rparr>, oc4)"
    using m1(1) g(1) f(1) h(1) e(1) assms(6)
    by (subst input_loop.simps) (auto simp: ends_menu_def mirror_keys MIRROR_COLS_def MIRROR_ROWS_def)
  then show ?case using e(2,3) h(3) Nil.prems(1)
    by (intro exI [of _ st] exI [of _ "m1\<lparr>m_front := m_back m1\<rparr>"] exI [of _ oc4]) simp
next
  case (Cons d cs)
  have wf: "mirror_wf m" using Cons.prems(2) by (simp add: ready_def)
  obtain caret m1 where m1: "draw_field x y w attr st m = Some (caret, m1)" "mirror_wf m1"
    by (rule draw_field_draws [OF Cons.prems(1) assms(2) wf])
  have "ready m1 oc" using Cons.prems(2) m1(2) by (simp add: ready_def)
  then obtain oc1 where g: "mirror_cursor k caret y oc = Some oc1" "ready m1 oc1" "input_of oc1 = input_of oc" by (rule ready_cursor)
  obtain oc2 where f: "mirror_flush k m1 oc1 = Some (m1\<lparr>m_front := m_back m1\<rparr>, oc2)" "ready (m1\<lparr>m_front := m_back m1\<rparr>) oc2"
    "input_of oc2 = input_of oc1" by (rule ready_flush [OF g(2)])
  from Cons.prems(3) obtain i1 where i1: "wait_key (fst (input_of oc2)) (snd (input_of oc2)) = Some (d, i1)" "typed i1 (cs @ [c]) i"
    using f(3) g(3) by auto
  from i1(1) obtain oc3 where h: "mirror_getkey k oc2 = Some (d, oc3)" "ready (m1\<lparr>m_front := m_back m1\<rparr>) oc3" "input_of oc3 = i1"
    by (rule ready_getkey [OF f(2)])
  obtain st' where st': "input_key d cap st = Some st'" "field_rep n cap st' (edit_key cap d lr)"
    using input_key_refines [OF Cons.prems(1)] by blast
  have d: "\<not> ends_menu d" "\<forall>c\<in>set cs. \<not> ends_menu c" using Cons.prems(4) by simp_all
  have t: "typed (input_of oc3) (cs @ [c]) i" using i1(2) h(3) by simp
  have "input_loop k x y w cap attr st m oc = input_loop k x y w cap attr st' (m1\<lparr>m_front := m_back m1\<rparr>) oc3"
    using m1(1) g(1) f(1) h(1) d(1) st'(1) by (subst input_loop.simps) (simp add: ends_menu_def)
  with Cons.IH [OF st'(2) h(2) t d(2)] show ?case by (simp only: fold_simps)
qed

text \<open>C10: The input field is an editor on the text left and right of its caret: whatever is typed before enter or
  escape, the buffer ends as the string an editor with these keys holds, terminated, shorter than the
  capacity, and no byte beyond the buffer is touched. The result is 0 for enter and -1 for escape.\<close>

theorem mirror_input_edits:
  assumes "ready m oc" and "nul_free s" "int (length s) < cap" "cap \<le> int (length (s @ 0 # rest))" and "0 < w"
    and "typed (input_of oc) (cs @ [c]) i" and "\<forall>c\<in>set cs. \<not> ends_menu c" and "ends_menu c"
  shows "\<exists>l r rest' m' oc'. mirror_input k x y w (s @ 0 # rest) cap attr m oc =
      Some (if c = MIRROR_KEY_ESC then -1 else 0, (l @ r) @ 0 # rest', m', oc') \<and>
    (l, r) = fold (edit_key cap) cs (s, []) \<and> int (length (l @ r)) < cap \<and> nul_free (l @ r) \<and>
    length ((l @ r) @ 0 # rest') = length (s @ 0 # rest) \<and> ready m' oc' \<and> input_of oc' = i"
proof -
  let ?n = "length (s @ 0 # rest)"
  have rep: "field_rep ?n cap (s @ 0 # rest, length s, length s) (s, [])"
    using assms(2-4) by (simp add: field_rep_def)
  obtain l r where lr: "fold (edit_key cap) cs (s, []) = (l, r)" by fastforce
  from input_loop_keys [OF rep assms(5,1,6-8), of k x y attr] lr obtain st' m' oc' where r:
    "input_loop k x y w cap attr (s @ 0 # rest, length s, length s) m oc = Some (if c = MIRROR_KEY_ESC then -1 else 0, fst st', m', oc')"
    "field_rep ?n cap st' (l, r)" "ready m' oc'" "input_of oc' = i" by auto
  have e: "mirror_input k x y w (s @ 0 # rest) cap attr m oc = input_loop k x y w cap attr (s @ 0 # rest, length s, length s) m oc"
    using assms(2,3,5) by (simp add: mirror_input_def Let_def)
  from r(2) obtain rest' where b: "fst st' = (l @ r) @ 0 # rest'" "length ((l @ r) @ 0 # rest') = ?n" "int (length (l @ r)) < cap" "nul_free (l @ r)"
    by (auto simp: field_rep_def)
  have run: "mirror_input k x y w (s @ 0 # rest) cap attr m oc = Some (if c = MIRROR_KEY_ESC then -1 else 0, (l @ r) @ 0 # rest', m', oc')"
    using r(1) unfolding e b(1) .
  show ?thesis
    by (intro exI [of _ l] exI [of _ r] exI [of _ rest'] exI [of _ m'] exI [of _ oc'] conjI)
      (rule run, rule lr [symmetric], rule b(3), rule b(4), rule b(2), rule r(3), rule r(4))
qed

lemma x_enter: "\<exists>i. typed ([0x2D, 0xAD, 0x1C, 0x9C], kbd_init) ([120] @ [MIRROR_KEY_ENTER]) i"
  unfolding append.simps by (rule typed_two; code_simp)

lemma mirror_input_edits_witness:
  "\<exists>oc m rest' m' oc'. mirror_input no_kernel 0 0 10 (asc ''a'' @ 0 # [0, 0]) 4 7 m oc = Some (0, asc ''ax'' @ 0 # rest', m', oc')"
proof -
  let ?m = "\<lparr>m_back = replicate 2000 (blank_cell 7), m_front = replicate 2000 (blank_cell 7)\<rparr>"
  obtain i where t: "typed ([0x2D, 0xAD, 0x1C, 0x9C], kbd_init) ([120] @ [MIRROR_KEY_ENTER]) i" using x_enter by blast
  obtain oc :: "unit outcome" where oc: "ready ?m oc" "input_of oc = ([0x2D, 0xAD, 0x1C, 0x9C], kbd_init)" by (rule tiny_ready)
  have e: "edit_key 4 120 (asc ''a'', []) = (asc ''ax'', [])" by code_simp
  from mirror_input_edits [OF oc(1), where s = "asc ''a''" and rest = "[0, 0]" and cap = 4 and w = 10 and cs = "[120]" and c = MIRROR_KEY_ENTER
      and i = i and k = no_kernel and x = 0 and y = 0 and attr = 7] t oc(2) e
  obtain rest' m' oc' where "mirror_input no_kernel 0 0 10 (asc ''a'' @ 0 # [0, 0]) 4 7 ?m oc = Some (0, asc ''ax'' @ 0 # rest', m', oc')"
    by (auto simp: ends_menu_def mirror_keys)
  then show ?thesis by blast
qed

section \<open>Clipping\<close>

lemma rect_mem:
  "(a, b, c) \<in> set [(xx, yy, ch). yy \<leftarrow> [y0..y1], xx \<leftarrow> [x0..x1]] \<longleftrightarrow>
    c = ch \<and> x0 \<le> a \<and> a \<le> x1 \<and> y0 \<le> b \<and> b \<le> (y1 :: int)"
  by (auto simp: image_iff)

lemma putc_all_eq:
  "mirror_wf m \<Longrightarrow> \<forall>(x, y, c)\<in>set ps. 0 \<le> x \<and> x < 80 \<and> 0 \<le> y \<and> y < 25 \<and> c = ch \<Longrightarrow>
    \<exists>m'. putc_all ps attr m = Some m' \<and> mirror_wf m' \<and> m_front m' = m_front m \<and>
      (\<forall>j<2000. m_back m' ! j = (if (int (j mod 80), int (j div 80), ch) \<in> set ps then \<lparr>mc_ch = ch, mc_attr = attr\<rparr> else m_back m ! j))"
proof (induction ps arbitrary: m)
  case (Cons p ps)
  obtain x y where p: "p = (x, y, ch)" and xy: "0 \<le> x" "x < 80" "0 \<le> y" "y < 25" using Cons.prems(2) by (cases p) auto
  let ?i = "nat (y * 80 + x)"
  let ?m = "m\<lparr>m_back := (m_back m)[?i := \<lparr>mc_ch = ch, mc_attr = attr\<rparr>]\<rparr>"
  have wf: "mirror_wf ?m" using Cons.prems(1) by (simp add: mirror_wf_def)
  have put: "mirror_putc x y ch attr m = Some ?m" using xy by (simp add: mirror_putc_eq [OF Cons.prems(1)])
  have "?i = nat y * 80 + nat x" "nat x < 80" using xy by auto
  then have "?i mod 80 = nat x" "?i div 80 = nat y" by simp_all
  then have j: "j = ?i \<longleftrightarrow> int (j mod 80) = x \<and> int (j div 80) = y" for j
    using xy by (metis \<open>?i = nat y * 80 + nat x\<close> add.commute div_mult_mod_eq int_nat_eq nat_int mult.commute)
  have ps: "\<forall>(x, y, c)\<in>set ps. 0 \<le> x \<and> x < 80 \<and> 0 \<le> y \<and> y < 25 \<and> c = ch" using Cons.prems(2) by simp
  from Cons.IH [OF wf this] obtain m' where m': "putc_all ps attr ?m = Some m'" "mirror_wf m'" "m_front m' = m_front m"
    "\<forall>j<2000. m_back m' ! j = (if (int (j mod 80), int (j div 80), ch) \<in> set ps then \<lparr>mc_ch = ch, mc_attr = attr\<rparr> else m_back ?m ! j)" by auto
  have len: "length (m_back m) = 2000" using Cons.prems(1) by (simp add: mirror_wf_def)
  have "m_back m' ! k = (if (int (k mod 80), int (k div 80), ch) \<in> set (p # ps) then \<lparr>mc_ch = ch, mc_attr = attr\<rparr> else m_back m ! k)"
    if k: "k < 2000" for k
  proof (cases "k = ?i")
    case True
    with j have "(int (k mod 80), int (k div 80), ch) = p" by (simp add: p)
    moreover have "m_back ?m ! k = \<lparr>mc_ch = ch, mc_attr = attr\<rparr>" using True k len by simp
    moreover have "m_back m' ! k = (if (int (k mod 80), int (k div 80), ch) \<in> set ps then \<lparr>mc_ch = ch, mc_attr = attr\<rparr> else m_back ?m ! k)"
      using m'(4) k by blast
    ultimately show ?thesis by (simp only: list.set insert_iff if_cancel) simp
  next
    case False
    with j have "(int (k mod 80), int (k div 80), ch) \<noteq> p" by (auto simp: p)
    moreover have "m_back ?m ! k = m_back m ! k" using False by simp
    moreover have "m_back m' ! k = (if (int (k mod 80), int (k div 80), ch) \<in> set ps then \<lparr>mc_ch = ch, mc_attr = attr\<rparr> else m_back ?m ! k)"
      using m'(4) k by blast
    ultimately show ?thesis by (simp only: list.set insert_iff simp_thms)
  qed
  then show ?case using put m'(1-3) by (intro exI [of _ m']) (simp add: p)
qed simp

text \<open>Mirror_fill sets exactly the cells of its rectangle that lie on the screen, whatever the rectangle.\<close>

theorem mirror_fill_clips:
  assumes "mirror_wf m"
  shows "\<exists>m'. mirror_fill x y w h ch attr m = Some m' \<and> mirror_wf m' \<and> m_front m' = m_front m \<and>
    (\<forall>j<2000. m_back m' ! j =
      (if x \<le> int (j mod 80) \<and> int (j mod 80) < x + w \<and> y \<le> int (j div 80) \<and> int (j div 80) < y + h
       then \<lparr>mc_ch = ch, mc_attr = attr\<rparr> else m_back m ! j))"
proof (cases "w \<le> 0 \<or> h \<le> 0")
  case True
  then show ?thesis using assms by (auto simp: mirror_fill_def)
next
  case False
  let ?ps = "[(xx, yy, ch). yy \<leftarrow> [(if y < 0 then 0 else y)..(if y + h > 25 then 25 else y + h) - 1],
    xx \<leftarrow> [(if x < 0 then 0 else x)..(if x + w > 80 then 80 else x + w) - 1]]"
  have "0 \<le> a \<and> a < 80 \<and> 0 \<le> b \<and> b < 25 \<and> c = ch" if "(a, b, c) \<in> set ?ps" for a b c
    using that unfolding rect_mem by (simp split: if_splits)
  then have "\<forall>(x, y, c)\<in>set ?ps. 0 \<le> x \<and> x < 80 \<and> 0 \<le> y \<and> y < 25 \<and> c = ch" by blast
  from putc_all_eq [OF assms this] obtain m' where m': "putc_all ?ps attr m = Some m'" "mirror_wf m'" "m_front m' = m_front m"
    "\<forall>j<2000. m_back m' ! j = (if (int (j mod 80), int (j div 80), ch) \<in> set ?ps then \<lparr>mc_ch = ch, mc_attr = attr\<rparr> else m_back m ! j)" by blast
  have mem: "(a, b, ch) \<in> set ?ps \<longleftrightarrow> x \<le> a \<and> a < x + w \<and> y \<le> b \<and> b < y + h" if "0 \<le> a" "a < 80" "0 \<le> b" "b < 25" for a b
    unfolding rect_mem using that by (simp split: if_splits)
  have fill: "mirror_fill x y w h ch attr m = putc_all ?ps attr m"
    using False by (simp add: mirror_fill_def Let_def MIRROR_COLS_def MIRROR_ROWS_def)
  have "m_back m' ! j = (if x \<le> int (j mod 80) \<and> int (j mod 80) < x + w \<and> y \<le> int (j div 80) \<and> int (j div 80) < y + h
      then \<lparr>mc_ch = ch, mc_attr = attr\<rparr> else m_back m ! j)" if j: "j < 2000" for j
  proof -
    have "j mod 80 < 80" "j div 80 < 25" using j by (simp, linarith)
    then have "int (j mod 80) < 80" "int (j div 80) < 25" "0 \<le> int (j mod 80)" "0 \<le> int (j div 80)" by linarith+
    from mem [OF this(3,1,4,2)] m'(4) j show ?thesis by (simp only: )
  qed
  with m'(1-3) show ?thesis unfolding fill by blast
qed

end
