(* ===== verification/Stdio.thy ===== *)
theory Stdio
  imports UserApi Format HeapRun
begin

text \<open>
The streams of home/lib/stdio.c over the system calls. A FILE is its five ints in the memory of the program, at the
  address malloc returned, and a stream argument is that address. Where a library call of the code hands the kernel
  a pointer the model does too; the allocator runs on the same memory.
\<close>

section \<open>A program and its streams\<close>

text \<open>What the linker and the stack give: the kernel behind \<open>int $0x80\<close>, the end of the image, the three console
  streams, and where the one-byte local of fgetc and fputc lies.\<close>

record 'd uenv =
  u_kernel :: "'d kernel"
  u_heap_start :: u32
  u_stdin :: u32
  u_stdout :: u32
  u_stderr :: u32
  u_local :: u32

text \<open>A running program: the machine, and the statics of the allocator.\<close>

record 'd prog =
  p_oc :: "'d outcome"
  p_freelist :: u32
  p_brk :: u32
  p_heap_state :: int

definition with_heap :: "(heap \<Rightarrow> ('r \<times> heap) option) \<Rightarrow> 'd prog \<Rightarrow> ('r \<times> 'd prog) option" where
  "with_heap f p = do {
     (r, h) \<leftarrow> f \<lparr>bytes = oc_user (p_oc p), freelist = p_freelist p, heap_brk = p_brk p, heap_state = p_heap_state p,
       kern = sy_mem (oc_sys (p_oc p))\<rparr>;
     Some (r, p\<lparr>p_oc := (p_oc p)\<lparr>oc_user := bytes h, oc_sys := (oc_sys (p_oc p))\<lparr>sy_mem := kern h\<rparr>\<rparr>,
       p_freelist := freelist h, p_brk := heap_brk h, p_heap_state := heap_state h\<rparr>) }"

text \<open>A system call with a result, and one without.\<close>

definition call :: "('d outcome \<Rightarrow> (u32 \<times> 'd outcome) option) \<Rightarrow> 'd prog \<Rightarrow> (u32 \<times> 'd prog) option" where
  "call f p = do { (r, oc) \<leftarrow> f (p_oc p); Some (r, p\<lparr>p_oc := oc\<rparr>) }"

definition call0 :: "('d outcome \<Rightarrow> 'd outcome option) \<Rightarrow> 'd prog \<Rightarrow> 'd prog option" where
  "call0 f p = do { oc \<leftarrow> f (p_oc p); Some (p\<lparr>p_oc := oc\<rparr>) }"

text \<open>The program's memory.\<close>

definition mem_of :: "'d prog \<Rightarrow> umem" where
  "mem_of p = oc_user (p_oc p)"

definition set_mem :: "umem \<Rightarrow> 'd prog \<Rightarrow> 'd prog" where
  "set_mem u p = p\<lparr>p_oc := (p_oc p)\<lparr>oc_user := u\<rparr>\<rparr>"

text \<open>A \<open>FILE\<close> at an address: five ints one after the other.\<close>

definition f_fd :: "u32 \<Rightarrow> 'd prog \<Rightarrow> u32" where "f_fd f p = get32 (mem_of p) f"
definition f_kind :: "u32 \<Rightarrow> 'd prog \<Rightarrow> u32" where "f_kind f p = get32 (mem_of p) (f + 4)"
definition f_eof :: "u32 \<Rightarrow> 'd prog \<Rightarrow> u32" where "f_eof f p = get32 (mem_of p) (f + 8)"
definition f_error :: "u32 \<Rightarrow> 'd prog \<Rightarrow> u32" where "f_error f p = get32 (mem_of p) (f + 12)"
definition f_ungot :: "u32 \<Rightarrow> 'd prog \<Rightarrow> u32" where "f_ungot f p = get32 (mem_of p) (f + 16)"

definition set_fd :: "u32 \<Rightarrow> u32 \<Rightarrow> 'd prog \<Rightarrow> 'd prog" where "set_fd f v p = set_mem (put32 f v (mem_of p)) p"
definition set_eof :: "u32 \<Rightarrow> u32 \<Rightarrow> 'd prog \<Rightarrow> 'd prog" where "set_eof f v p = set_mem (put32 (f + 8) v (mem_of p)) p"
definition set_error :: "u32 \<Rightarrow> u32 \<Rightarrow> 'd prog \<Rightarrow> 'd prog" where "set_error f v p = set_mem (put32 (f + 12) v (mem_of p)) p"
definition set_ungot :: "u32 \<Rightarrow> u32 \<Rightarrow> 'd prog \<Rightarrow> 'd prog" where "set_ungot f v p = set_mem (put32 (f + 16) v (mem_of p)) p"

definition EOF :: int where "EOF = -1"

definition O_RDONLY :: u32 where "O_RDONLY = 0x0001"
definition O_WRONLY :: u32 where "O_WRONLY = 0x0002"
definition O_RDWR :: u32 where "O_RDWR = 0x0004"
definition O_CREAT :: u32 where "O_CREAT = 0x0008"
definition O_TRUNC :: u32 where "O_TRUNC = 0x0010"
definition O_APPEND :: u32 where "O_APPEND = 0x0020"
definition SEEK_SET :: u32 where "SEEK_SET = 0"
definition SEEK_CUR :: u32 where "SEEK_CUR = 1"
definition SEEK_END :: u32 where "SEEK_END = 2"

section \<open>Opening and closing\<close>

partial_function (option) has_plus :: "umem \<Rightarrow> u32 \<Rightarrow> bool \<Rightarrow> bool option" where
  "has_plus u m pl = (if u m = 0 then Some pl else has_plus u (m + 1) (if u m = 43 then True else pl))"

text \<open>The flags of a mode string, which fopen and mode_flags compute alike.\<close>

definition mode_flags :: "umem \<Rightarrow> u32 \<Rightarrow> u32 option option" where
  "mode_flags u mode = do {
     pl \<leftarrow> has_plus u mode False;
     Some (if u mode = 114 then Some (if pl then O_RDWR else O_RDONLY)
       else if u mode = 119 then Some ((if pl then O_RDWR else O_WRONLY) OR O_CREAT OR O_TRUNC)
       else if u mode = 97 then Some ((if pl then O_RDWR else O_WRONLY) OR O_CREAT OR O_APPEND)
       else None) }"

text \<open>\<open>memset(f, 0, sizeof *f); f->fd = fd; f->ungot = -1\<close>.\<close>

definition new_file :: "u32 \<Rightarrow> u32 \<Rightarrow> 'd prog \<Rightarrow> 'd prog" where
  "new_file f fd p = set_ungot f (-1) (set_fd f fd (set_mem (\<lambda>x. if x - f < 20 then 0 else mem_of p x) p))"

definition fopen :: "'d uenv \<Rightarrow> u32 \<Rightarrow> u32 \<Rightarrow> 'd prog \<Rightarrow> (u32 \<times> 'd prog) option" where
  "fopen env path mode p = do {
     flags \<leftarrow> mode_flags (mem_of p) mode;
     case flags of
       None \<Rightarrow> Some (0, p)
     | Some flags \<Rightarrow> do {
         (fd, p) \<leftarrow> call (sys_open (u_kernel env) path flags) p;
         if sint fd < 0 then Some (0, p)
         else do {
           (f, p) \<leftarrow> with_heap (malloc (u_heap_start env) 20) p;
           if f = 0 then do { (_, p) \<leftarrow> call (sys_close (u_kernel env) fd) p; Some (0, p) }
           else Some (f, new_file f fd p) } } }"

definition fdopen :: "'d uenv \<Rightarrow> u32 \<Rightarrow> u32 \<Rightarrow> 'd prog \<Rightarrow> (u32 \<times> 'd prog) option" where
  "fdopen env fd mode p =
     (if sint fd < 0 then Some (0, p)
      else do {
        (f, p) \<leftarrow> with_heap (malloc (u_heap_start env) 20) p;
        if f = 0 then Some (0, p) else Some (f, new_file f fd p) })"

definition freopen :: "'d uenv \<Rightarrow> u32 \<Rightarrow> u32 \<Rightarrow> u32 \<Rightarrow> 'd prog \<Rightarrow> (u32 \<times> 'd prog) option" where
  "freopen env path mode f p =
     (if f = 0 \<or> f_kind f p \<noteq> 0 then Some (0, p)
      else do {
        (ok, p) \<leftarrow>
          (if path \<noteq> 0 then do {
             flags \<leftarrow> mode_flags (mem_of p) mode;
             case flags of
               None \<Rightarrow> Some (False, p)
             | Some flags \<Rightarrow> do {
                 p \<leftarrow> (if sint (f_fd f p) \<ge> 0 then map_option snd (call (sys_close (u_kernel env) (f_fd f p)) p) else Some p);
                 (fd, p) \<leftarrow> call (sys_open (u_kernel env) path flags) p;
                 if sint fd < 0 then Some (False, set_fd f (-1) p) else Some (True, set_fd f fd p) } }
           else Some (True, p));
        if \<not> ok then Some (0, p)
        else Some (f, set_ungot f (-1) (set_error f 0 (set_eof f 0 p))) })"

definition fileno :: "u32 \<Rightarrow> 'd prog \<Rightarrow> int" where
  "fileno f p = (if f \<noteq> 0 then sint (f_fd f p) else -1)"

definition fclose :: "'d uenv \<Rightarrow> u32 \<Rightarrow> 'd prog \<Rightarrow> (int \<times> 'd prog) option" where
  "fclose env f p =
     (if f = 0 then Some (EOF, p)
      else if f_kind f p \<noteq> 0 then Some (0, p)
      else do {
        (r, p) \<leftarrow> call (sys_close (u_kernel env) (f_fd f p)) p;
        (_, p) \<leftarrow> with_heap (\<lambda>h. map_option (Pair ()) (free f h)) p;
        Some (if r = 0 then 0 else EOF, p) })"

section \<open>Reading and writing\<close>

definition fgetc :: "'d uenv \<Rightarrow> u32 \<Rightarrow> 'd prog \<Rightarrow> (int \<times> 'd prog) option" where
  "fgetc env f p =
     (if f = 0 then Some (EOF, p)
      else if sint (f_ungot f p) \<ge> 0 then Some (sint (f_ungot f p), set_ungot f (-1) p)
      else if f_kind f p = 1 then do { (c, p) \<leftarrow> call (sys_getc (u_kernel env)) p; Some (sint c, p) }
      else if f_kind f p \<noteq> 0 then Some (EOF, p)
      else do {
        (r, p) \<leftarrow> call (sys_read (u_kernel env) (f_fd f p) (u_local env) 1) p;
        if sint r \<le> 0 then Some (EOF, if r = 0 then set_eof f 1 p else set_error f 1 p)
        else Some (uint (mem_of p (u_local env)), p) })"

definition getc :: "'d uenv \<Rightarrow> u32 \<Rightarrow> 'd prog \<Rightarrow> (int \<times> 'd prog) option" where
  "getc env f = fgetc env f"

definition getchar :: "'d uenv \<Rightarrow> 'd prog \<Rightarrow> (int \<times> 'd prog) option" where
  "getchar env = fgetc env (u_stdin env)"

definition fputc :: "'d uenv \<Rightarrow> int \<Rightarrow> u32 \<Rightarrow> 'd prog \<Rightarrow> (int \<times> 'd prog) option" where
  "fputc env c f p =
     (if f = 0 then Some (EOF, p)
      else do {
        let b = (of_int c :: byte);
        let p = set_mem ((mem_of p)(u_local env := b)) p;
        if f_kind f p = 2 then do { p \<leftarrow> call0 (sys_write_u (u_kernel env) (u_local env) 1) p; Some (uint b, p) }
        else if f_kind f p \<noteq> 0 then Some (EOF, p)
        else do {
          (r, p) \<leftarrow> call (sys_fwrite (u_kernel env) (f_fd f p) (u_local env) 1) p;
          if r \<noteq> 1 then Some (EOF, set_error f 1 p) else Some (uint b, p) } })"

definition putc :: "'d uenv \<Rightarrow> int \<Rightarrow> u32 \<Rightarrow> 'd prog \<Rightarrow> (int \<times> 'd prog) option" where
  "putc env c f = fputc env c f"

definition ungetc :: "int \<Rightarrow> u32 \<Rightarrow> 'd prog \<Rightarrow> int \<times> 'd prog" where
  "ungetc c f p =
     (if f = 0 \<or> c = EOF then (EOF, p)
      else (uint (of_int c :: byte), set_eof f 0 (set_ungot f (ucast (of_int c :: byte)) p)))"

text \<open>The loop of fread, with the bytes still to read.\<close>

fun fread_loop :: "'d uenv \<Rightarrow> u32 \<Rightarrow> u32 \<Rightarrow> u32 \<Rightarrow> nat \<Rightarrow> 'd prog \<Rightarrow> (u32 \<times> 'd prog) option" where
  "fread_loop env f ptr got 0 p = Some (got, p)"
| "fread_loop env f ptr got (Suc n) p = do {
     (c, p) \<leftarrow> fgetc env f p;
     if c = EOF then Some (got, p)
     else fread_loop env f ptr (got + 1) n (set_mem ((mem_of p)(ptr + got := of_int c)) p) }"

definition fread :: "'d uenv \<Rightarrow> u32 \<Rightarrow> u32 \<Rightarrow> u32 \<Rightarrow> u32 \<Rightarrow> 'd prog \<Rightarrow> (u32 \<times> 'd prog) option" where
  "fread env ptr sz nmemb f p =
     (if f = 0 \<or> sz = 0 \<or> nmemb = 0 then Some (0, p)
      else
        let tot = sz * nmemb
        in if tot div sz \<noteq> nmemb then Some (0, set_error f 1 p)
           else do {
             (got, p) \<leftarrow> fread_loop env f ptr 0 (unat tot) p;
             Some (got div sz, p) })"

text \<open>A write the kernel takes is whole, so the loop of fwrite ends; on a smaller result it goes on.\<close>

partial_function (option) fwrite_loop :: "'d uenv \<Rightarrow> u32 \<Rightarrow> u32 \<Rightarrow> u32 \<Rightarrow> u32 \<Rightarrow> 'd prog \<Rightarrow> (u32 \<times> 'd prog) option" where
  "fwrite_loop env f ptr done tot p =
     (if done < tot then do {
        (r, p) \<leftarrow> call (sys_fwrite (u_kernel env) (f_fd f p) (ptr + done) (tot - done)) p;
        if sint r \<le> 0 then Some (done, set_error f 1 p)
        else fwrite_loop env f ptr (done + r) tot p }
      else Some (done, p))"

definition fwrite :: "'d uenv \<Rightarrow> u32 \<Rightarrow> u32 \<Rightarrow> u32 \<Rightarrow> u32 \<Rightarrow> 'd prog \<Rightarrow> (u32 \<times> 'd prog) option" where
  "fwrite env ptr sz nmemb f p =
     (if f = 0 \<or> sz = 0 \<or> nmemb = 0 then Some (0, p)
      else
        let tot = sz * nmemb
        in if tot div sz \<noteq> nmemb then Some (0, set_error f 1 p)
           else if f_kind f p = 2 then do { p \<leftarrow> call0 (sys_write_u (u_kernel env) ptr tot) p; Some (nmemb, p) }
           else if f_kind f p \<noteq> 0 then Some (0, p)
           else do {
             (done, p) \<leftarrow> fwrite_loop env f ptr 0 tot p;
             Some (done div sz, p) })"

definition fseek :: "'d uenv \<Rightarrow> u32 \<Rightarrow> u32 \<Rightarrow> u32 \<Rightarrow> 'd prog \<Rightarrow> (int \<times> 'd prog) option" where
  "fseek env f off whence p =
     (if f = 0 \<or> f_kind f p \<noteq> 0 then Some (-1, p)
      else do {
        (r, p) \<leftarrow> call (sys_lseek (u_kernel env) (f_fd f p) off whence) p;
        if sint r < 0 then Some (-1, set_error f 1 p)
        else Some (0, set_ungot f (-1) (set_eof f 0 p)) })"

definition ftell :: "'d uenv \<Rightarrow> u32 \<Rightarrow> 'd prog \<Rightarrow> (int \<times> 'd prog) option" where
  "ftell env f p =
     (if f = 0 \<or> f_kind f p \<noteq> 0 then Some (-1, p)
      else do { (r, p) \<leftarrow> call (sys_lseek (u_kernel env) (f_fd f p) 0 SEEK_CUR) p; Some (sint r, p) })"

definition feof :: "u32 \<Rightarrow> 'd prog \<Rightarrow> int" where
  "feof f p = (if f \<noteq> 0 then sint (f_eof f p) else 0)"

definition ferror :: "u32 \<Rightarrow> 'd prog \<Rightarrow> int" where
  "ferror f p = (if f \<noteq> 0 then sint (f_error f p) else 0)"

definition clearerr :: "u32 \<Rightarrow> 'd prog \<Rightarrow> 'd prog" where
  "clearerr f p = (if f \<noteq> 0 then set_error f 0 (set_eof f 0 p) else p)"

definition rewind :: "'d uenv \<Rightarrow> u32 \<Rightarrow> 'd prog \<Rightarrow> 'd prog option" where
  "rewind env f p = do { (_, p) \<leftarrow> fseek env f 0 SEEK_SET p; Some (clearerr f p) }"

text \<open>The loop of fgets: the index reached.\<close>

fun fgets_loop :: "'d uenv \<Rightarrow> u32 \<Rightarrow> u32 \<Rightarrow> nat \<Rightarrow> nat \<Rightarrow> 'd prog \<Rightarrow> (nat \<times> 'd prog) option" where
  "fgets_loop env f s i 0 p = Some (i, p)"
| "fgets_loop env f s i (Suc n) p = do {
     (c, p) \<leftarrow> fgetc env f p;
     if c = EOF then Some (i, p)
     else do {
       let p = set_mem ((mem_of p)(s + of_nat i := of_int c)) p;
       if c = 10 then Some (i + 1, p) else fgets_loop env f s (i + 1) n p } }"

definition fgets :: "'d uenv \<Rightarrow> u32 \<Rightarrow> int \<Rightarrow> u32 \<Rightarrow> 'd prog \<Rightarrow> (u32 \<times> 'd prog) option" where
  "fgets env s n f p =
     (if s = 0 \<or> n \<le> 0 then Some (0, p)
      else do {
        (i, p) \<leftarrow> fgets_loop env f s 0 (nat (n - 1)) p;
        Some (if i = 0 then 0 else s, set_mem ((mem_of p)(s + of_nat i := 0)) p) })"

definition fputs :: "'d uenv \<Rightarrow> u32 \<Rightarrow> u32 \<Rightarrow> 'd prog \<Rightarrow> (int \<times> 'd prog) option" where
  "fputs env s f p = do {
     n \<leftarrow> print_len (mem_of p) s 0;
     (r, p) \<leftarrow> fwrite env s 1 n f p;
     Some (if r = n then 0 else EOF, p) }"

definition puts :: "'d uenv \<Rightarrow> u32 \<Rightarrow> 'd prog \<Rightarrow> (int \<times> 'd prog) option" where
  "puts env s p = do {
     (r, p) \<leftarrow> fputs env s (u_stdout env) p;
     if r = EOF then Some (EOF, p)
     else do { (r, p) \<leftarrow> fputc env 10 (u_stdout env) p; Some (if r = EOF then EOF else 0, p) } }"

definition fflush :: "u32 \<Rightarrow> int" where
  "fflush f = 0"

definition remove :: "'d uenv \<Rightarrow> u32 \<Rightarrow> 'd prog \<Rightarrow> (int \<times> 'd prog) option" where
  "remove env path p = do { (r, p) \<leftarrow> call (sys_unlink (u_kernel env) path) p; Some (if r = 0 then 0 else -1, p) }"

section \<open>Formatted output to a stream\<close>

text \<open>The context of emit_file is the program and the count of characters; the result of fputc is not looked at.\<close>

definition emit_file :: "'d uenv \<Rightarrow> u32 \<Rightarrow> byte \<Rightarrow> 'd prog \<times> u32 \<Rightarrow> ('d prog \<times> u32) option" where
  "emit_file env f c cx = do { (_, p) \<leftarrow> fputc env (sint c) f (fst cx); Some (p, snd cx + 1) }"

definition vfprintf :: "'d uenv \<Rightarrow> u32 \<Rightarrow> byte list \<Rightarrow> varg list \<Rightarrow> 'd prog \<Rightarrow> (int \<times> 'd prog) option" where
  "vfprintf env f fmt args p = do {
     (p, n) \<leftarrow> do_format (emit_file env f) fmt args (p, 0);
     Some (sint n, p) }"

definition vprintf :: "'d uenv \<Rightarrow> byte list \<Rightarrow> varg list \<Rightarrow> 'd prog \<Rightarrow> (int \<times> 'd prog) option" where
  "vprintf env = vfprintf env (u_stdout env)"

definition printf :: "'d uenv \<Rightarrow> byte list \<Rightarrow> varg list \<Rightarrow> 'd prog \<Rightarrow> (int \<times> 'd prog) option" where
  "printf env = vfprintf env (u_stdout env)"

definition fprintf :: "'d uenv \<Rightarrow> u32 \<Rightarrow> byte list \<Rightarrow> varg list \<Rightarrow> 'd prog \<Rightarrow> (int \<times> 'd prog) option" where
  "fprintf env = vfprintf env"

end
