(* ===== verification/StdioSpec.thy ===== *)
theory StdioSpec
  imports Stdio UserMem
begin

text \<open>
What reading a file through a stream and printing on the console do, down to the disk and the screen.
\<close>

section \<open>The fields of a stream\<close>

definition fs_of :: "'d prog \<Rightarrow> 'd fs_state" where
  "fs_of p = sy_fs (oc_sys (p_oc p))"

text \<open>A byte outside the struct at \<open>f\<close>.\<close>

definition off_file :: "u32 \<Rightarrow> u32 \<Rightarrow> bool" where
  "off_file f x \<longleftrightarrow> unat x < unat f \<or> unat f + 20 \<le> unat x"

definition file_fits :: "u32 \<Rightarrow> bool" where
  "file_fits f \<longleftrightarrow> f \<noteq> 0 \<and> unat f + 20 \<le> 2 ^ 32"

lemma file_field:
  assumes "file_fits f"
  shows "unat (f + 4) = unat f + 4" "unat (f + 8) = unat f + 8" "unat (f + 12) = unat f + 12" "unat (f + 16) = unat f + 16"
  using assms u32_shift [of f 4] u32_shift [of f 8] u32_shift [of f 12] u32_shift [of f 16] by (simp_all add: file_fits_def)

text \<open>The fields are those of the struct's 20 bytes.\<close>

lemma fields_cong:
  assumes "file_fits f" and "\<And>x. \<not> off_file f x \<Longrightarrow> mem_of q x = mem_of p x"
  shows "f_fd f q = f_fd f p" "f_kind f q = f_kind f p" "f_eof f q = f_eof f p" "f_error f q = f_error f p" "f_ungot f q = f_ungot f p"
  using assms file_field [OF assms(1)] unfolding f_fd_def f_kind_def f_eof_def f_error_def f_ungot_def
  by (intro get32_cong assms(2); force simp: file_fits_def off_file_def)+

lemma set_mem_simps [simp]: "mem_of (set_mem u p) = u" "fs_of (set_mem u p) = fs_of p" "set_mem u (set_mem v p) = set_mem u p"
  by (simp_all add: mem_of_def set_mem_def fs_of_def)

lemma set_eof_fields:
  assumes "file_fits f"
  shows "f_fd f (set_eof f v p) = f_fd f p" "f_kind f (set_eof f v p) = f_kind f p" "f_eof f (set_eof f v p) = v"
    "f_error f (set_eof f v p) = f_error f p" "f_ungot f (set_eof f v p) = f_ungot f p"
    "off_file f x \<Longrightarrow> mem_of (set_eof f v p) x = mem_of p x"
  using file_field [OF assms] assms
  by (simp_all add: f_fd_def f_kind_def f_eof_def f_error_def f_ungot_def set_eof_def file_fits_def get32_put32_other off_file_def)
    (subst put32_out; auto)

section \<open>Reading from a file\<close>

lemma sys_read_eq:
  "sys_read k fd buf n oc = do {
     (v, b, fs) \<leftarrow> fs_read_fd (k_disk k) (sint fd) (region (oc_user oc) buf (unat n)) n (sy_fs (oc_sys oc));
     Some (of_int v, ret v (set_fs fs (oc\<lparr>oc_regs := (oc_regs oc)\<lparr>r_eax := 13, r_ebx := fd, r_ecx := buf, r_edx := n\<rparr>,
       oc_user := put_region (oc_user oc) buf b\<rparr>))) }"
  by (auto simp: sys_read_def int80_eax_def int80_def syscall_handler_def file_call_def Let_def ret_def split: bind_splits)

lemma put_region_1: "put_region u x [b] = u(x := b)"
proof
  fix y
  show "put_region u x [b] y = (u(x := b)) y"
    by (cases "y = x") (auto simp: put_region_def unat_eq_0)
qed

lemma region_1: "region u x 1 = [u x]"
  by (simp add: region_def)

lemma byte_not_EOF: "uint (b :: byte) \<noteq> EOF"
proof -
  have "0 \<le> uint b" by simp
  then show ?thesis unfolding EOF_def by linarith
qed

text \<open>The stream \<open>f\<close> reads the entry \<open>e\<close> of a disk that works and has the bytes \<open>bs\<close> still to come.\<close>

definition reading :: "('d \<Rightarrow> u32 \<Rightarrow> byte list) \<Rightarrow> nat \<Rightarrow> ('d \<Rightarrow> bool) \<Rightarrow> file_entry \<Rightarrow> u32 \<Rightarrow> byte list \<Rightarrow> 'd prog \<Rightarrow> bool" where
  "reading sec cap dev_ok e f bs p \<longleftrightarrow> file_fits f \<and> f_kind f p = 0 \<and> f_ungot f p = -1 \<and> dev_ok (fs_dev (fs_of p)) \<and>
     entry_ok (fs_sb (fs_of p)) cap e \<and> length (fs_handles (fs_of p)) = 8 \<and>
     (\<exists>i h. fd_lookup (sint (f_fd f p)) (fs_of p) = Some (i, h) \<and> \<not> h_writable h \<and> h_lba h = fe_lba e \<and> h_size h = fe_size e \<and>
       unat (h_offset h) \<le> unat (fe_size e) \<and> bs = drop (unat (h_offset h)) (file_bytes (sec (fs_dev (fs_of p))) e))"

lemma reading_cong:
  assumes "reading sec cap dev_ok e f bs p" and "fs_of q = fs_of p" and "\<And>x. \<not> off_file f x \<Longrightarrow> mem_of q x = mem_of p x"
  shows "reading sec cap dev_ok e f bs q"
proof -
  have "file_fits f" using assms(1) by (simp add: reading_def)
  from fields_cong [OF this assms(3)] show ?thesis using assms(1,2) by (simp add: reading_def)
qed

context reliable_device begin

lemma fgetc_reading:
  assumes r: "reading sec cap dev_ok e f bs p" and "k_disk (u_kernel env) = dk" and "cap < 2 ^ 32" and "off_file f (u_local env)"
  shows "\<exists>q. fs_sb (fs_of q) = fs_sb (fs_of p) \<and> (case bs of
      [] \<Rightarrow> fgetc env f p = Some (EOF, set_eof f 1 q) \<and> mem_of q = mem_of p \<and> reading sec cap dev_ok e f [] q
    | b # bs' \<Rightarrow> fgetc env f p = Some (uint b, q) \<and> mem_of q = (mem_of p)(u_local env := b) \<and> reading sec cap dev_ok e f bs' q)"
proof -
  let ?fs = "fs_of p" and ?l = "u_local env"
  from r obtain i h where h: "fd_lookup (sint (f_fd f p)) ?fs = Some (i, h)" "\<not> h_writable h" "h_lba h = fe_lba e" "h_size h = fe_size e"
    "unat (h_offset h) \<le> unat (fe_size e)" "bs = drop (unat (h_offset h)) (file_bytes (sec (fs_dev ?fs)) e)"
    and f: "file_fits f" "f_kind f p = 0" "f_ungot f p = -1" "dev_ok (fs_dev ?fs)" "entry_ok (fs_sb ?fs) cap e" "length (fs_handles ?fs) = 8"
    by (auto simp: reading_def)
  have un: "\<not> sint (f_ungot f p) \<ge> 0" using f(3) by simp
  obtain t where t: "t = take 1 bs" by blast
  have t1: "t = take (unat (1 :: u32)) (drop (unat (h_offset h)) (file_bytes (sec (fs_dev ?fs)) e))" using h(6) t by simp
  have n1: "unat (1 :: u32) \<le> length [mem_of p ?l]" "unat (1 :: u32) < 2 ^ 31" by simp_all
  obtain d' where d': "fs_read_fd dk (sint (f_fd f p)) [mem_of p ?l] 1 ?fs =
      Some (int (length t), blit [mem_of p ?l] 0 t, set_handle i (h\<lparr>h_offset := h_offset h + of_nat (length t)\<rparr>) (?fs\<lparr>fs_dev := d'\<rparr>))"
      "dev_ok d'" "sec d' = sec (fs_dev ?fs)"
    using fs_read_fd_eq [OF f(4) assms(3) h(1,2) f(5) h(3,4) n1 t1 f(6)] by blast
  define q where "q = (let b = blit [mem_of p ?l] 0 (t); v = int (length (t)); oc = p_oc p in
    p\<lparr>p_oc := ret v (set_fs (set_handle i (h\<lparr>h_offset := h_offset h + of_nat (length (t))\<rparr>) (?fs\<lparr>fs_dev := d'\<rparr>))
      (oc\<lparr>oc_regs := (oc_regs oc)\<lparr>r_eax := 13, r_ebx := f_fd f p, r_ecx := ?l, r_edx := 1\<rparr>, oc_user := put_region (oc_user oc) ?l b\<rparr>))\<rparr>)"
  have c: "call (sys_read (u_kernel env) (f_fd f p) ?l 1) p = Some (of_nat (length (t)), q)"
    using d'(1) assms(2)
    by (simp add: call_def sys_read_eq region_1 [unfolded One_nat_def] q_def Let_def mem_of_def fs_of_def)
  have qf: "fs_of q = set_handle i (h\<lparr>h_offset := h_offset h + of_nat (length (t))\<rparr>) (?fs\<lparr>fs_dev := d'\<rparr>)"
    by (simp add: q_def Let_def fs_of_def)
  have qm: "mem_of q = (mem_of p)(?l := (case bs of [] \<Rightarrow> mem_of p ?l | b # _ \<Rightarrow> b))"
    by (cases bs) (simp_all add: t q_def Let_def mem_of_def blit_def put_region_1)
  have len: "length (file_bytes (sec (fs_dev ?fs)) e) = unat (fe_size e)"
    using length_file_bytes [OF f(5)] sec_length [OF f(4)] by blast
  have lt: "unat (h_offset h) + length t \<le> unat (fe_size e)" using h(5,6) len by (auto simp: t)
  have i: "i < 8" "h_used h" using h(1) by (auto simp: fd_lookup_Some)
  have off: "unat (h_offset h + of_nat (length (t))) = unat (h_offset h) + length (t)"
    using lt f(5) by (intro u32_shift) (auto simp: entry_ok_def)
  have tl: "tl bs = drop (unat (h_offset h) + length t) (file_bytes (sec (fs_dev ?fs)) e)"
    unfolding h(6) t using len h(5) by (simp add: tl_drop drop_Suc [symmetric] min_def)
  have same: "\<not> off_file f x \<Longrightarrow> mem_of q x = mem_of p x" for x using assms(4) by (auto simp: qm)
  have fields: "f_fd f q = f_fd f p" "f_kind f q = f_kind f p" "f_ungot f q = f_ungot f p"
    by (rule fields_cong [OF f(1) same]; assumption)+
  have lk: "fd_lookup (sint (f_fd f q)) (fs_of q) = Some (i, h\<lparr>h_offset := h_offset h + of_nat (length (t))\<rparr>)"
    using h(1) i f(6) unfolding fields(1) qf by (auto simp: fd_lookup_Some)
  have "reading sec cap dev_ok e f (tl bs) q"
    unfolding reading_def fields
    using f lk [unfolded fields] h(2-4) d'(2,3) lt off tl by (auto simp: qf)
  then show ?thesis using c un f(1,2) t
    by (intro exI [of _ q], cases bs) (simp_all add: fgetc_def qf qm file_fits_def EOF_def)
qed

text \<open>fread's loop: the bytes land in the buffer one after the other.\<close>

lemma fread_loop_reads:
  assumes "reading sec cap dev_ok e f bs p" and "k_disk (u_kernel env) = dk" and "cap < 2 ^ 32" and l: "off_file f (u_local env)"
    and "unat ptr + g + n \<le> 2 ^ 32" and "g + n < 2 ^ 32"
    and buf: "\<And>x. unat ptr \<le> unat x \<Longrightarrow> unat x < unat ptr + g + n \<Longrightarrow> off_file f x \<and> x \<noteq> u_local env"
  shows "\<exists>q. fread_loop env f ptr (of_nat g) n p = Some (of_nat (g + min n (length bs)), q) \<and>
    reading sec cap dev_ok e f (drop n bs) q \<and> f_eof f q = (if length bs < n then 1 else f_eof f p) \<and>
    (\<forall>i<min n (length bs). mem_of q (ptr + of_nat (g + i)) = bs ! i) \<and>
    (\<forall>x. off_file f x \<and> x \<noteq> u_local env \<and> \<not> (unat ptr + g \<le> unat x \<and> unat x < unat ptr + g + n) \<longrightarrow> mem_of q x = mem_of p x)"
  using assms(1,5,6) buf
proof (induction n arbitrary: g bs p)
  case 0
  then show ?case by simp
next
  case (Suc n)
  have ff: "file_fits f" using Suc.prems(1) by (simp add: reading_def)
  show ?case
  proof (cases bs)
    case Nil
    from fgetc_reading [OF Suc.prems(1) assms(2,3) l] Nil obtain q where q: "fgetc env f p = Some (EOF, set_eof f 1 q)"
      "mem_of q = mem_of p" "reading sec cap dev_ok e f [] q" by auto
    have "fs_of (set_eof f 1 q) = fs_of q" by (simp add: set_eof_def)
    then have "reading sec cap dev_ok e f [] (set_eof f 1 q)"
      using q(3) set_eof_fields(1,2,5) [OF ff, of 1 q] by (simp add: reading_def)
    then show ?thesis using q(1,2) Nil set_eof_fields(3,6) [OF ff, where v = 1 and p = q]
      by (intro exI [of _ "set_eof f 1 q"]) simp
  next
    case (Cons b bs')
    let ?x = "ptr + of_nat g"
    from fgetc_reading [OF Suc.prems(1) assms(2,3) l] Cons obtain q where q: "fgetc env f p = Some (uint b, q)"
      "mem_of q = (mem_of p)(u_local env := b)" "reading sec cap dev_ok e f bs' q" by auto
    have x: "unat ?x = unat ptr + g" using Suc.prems(2) by (intro u32_shift) simp
    then have off: "off_file f ?x" "?x \<noteq> u_local env" using Suc.prems(4) [of ?x] by simp_all
    let ?q = "set_mem ((mem_of q)(?x := b)) q"
    have same: "mem_of ?q y = mem_of q y" if "\<not> off_file f y" for y using off that by auto
    have "reading sec cap dev_ok e f bs' ?q" by (rule reading_cong [OF q(3)]) (use same in simp_all)
    moreover have "unat ptr + Suc g + n \<le> 2 ^ 32" "Suc g + n < 2 ^ 32" using Suc.prems(2,3) by simp_all
    moreover have "off_file f y \<and> y \<noteq> u_local env" if "unat ptr \<le> unat y" "unat y < unat ptr + Suc g + n" for y
      using Suc.prems(4) [of y] that by simp
    ultimately obtain r where r: "fread_loop env f ptr (of_nat (Suc g)) n ?q = Some (of_nat (Suc g + min n (length bs')), r)"
      "reading sec cap dev_ok e f (drop n bs') r" "f_eof f r = (if length bs' < n then 1 else f_eof f ?q)"
      "\<forall>i<min n (length bs'). mem_of r (ptr + of_nat (Suc g + i)) = bs' ! i"
      "\<forall>y. off_file f y \<and> y \<noteq> u_local env \<and> \<not> (unat ptr + Suc g \<le> unat y \<and> unat y < unat ptr + Suc g + n) \<longrightarrow> mem_of r y = mem_of ?q y"
      using Suc.IH [of bs' ?q "Suc g"] by blast
    have "mem_of ?q y = mem_of p y" if "\<not> off_file f y" for y using off that l q(2) by auto
    then have eof: "f_eof f ?q = f_eof f p" by (rule fields_cong(3) [OF ff])
    have run: "fread_loop env f ptr (of_nat g) (Suc n) p = fread_loop env f ptr (of_nat (Suc g)) n ?q"
      using q(1) byte_not_EOF [of b] by (simp add: add.commute)
    have "mem_of r ?x = b" using r(5) off x by simp
    then have at: "mem_of r (ptr + of_nat (g + i)) = bs ! i" if "i < min (Suc n) (length bs)" for i
      using r(4) that Cons by (cases i) auto
    have "mem_of r y = mem_of p y" if "off_file f y" "y \<noteq> u_local env" "\<not> (unat ptr + g \<le> unat y \<and> unat y < unat ptr + g + Suc n)" for y
    proof -
      have "y \<noteq> ?x" using that(3) x by auto
      then show ?thesis using r(5) that q(2) by auto
    qed
    then show ?thesis using r(1-3) run eof at Cons by (intro exI [of _ r]) auto
  qed
qed

end

text \<open>fread on a stream that reads a file stores the next bytes of the file in the buffer, as many as there are
  up to the requested count, returns the number of whole elements, moves on behind them and raises the end flag
  exactly when the file ended first. No other memory than the buffer, the struct and fgetc's local changes.\<close>

lemma fread_reads:
  assumes "reliable_device dk sec cap dev_ok" and "k_disk (u_kernel env) = dk" and "cap < 2 ^ 32"
    and "reading sec cap dev_ok e f bs p" and "off_file f (u_local env)"
    and "n = unat sz * unat nmemb" and "0 < n" "n < 2 ^ 32" "unat ptr + n \<le> 2 ^ 32"
    and "\<And>x. unat ptr \<le> unat x \<Longrightarrow> unat x < unat ptr + n \<Longrightarrow> off_file f x \<and> x \<noteq> u_local env"
  shows "\<exists>q. fread env ptr sz nmemb f p = Some (of_nat (min n (length bs)) div sz, q) \<and>
    reading sec cap dev_ok e f (drop n bs) q \<and> f_eof f q = (if length bs < n then 1 else f_eof f p) \<and>
    region (mem_of q) ptr (min n (length bs)) = take n bs \<and>
    (\<forall>x. off_file f x \<and> x \<noteq> u_local env \<and> \<not> (unat ptr \<le> unat x \<and> unat x < unat ptr + n) \<longrightarrow> mem_of q x = mem_of p x)"
proof -
  have ff: "file_fits f" using assms(4) by (simp add: reading_def)
  have z: "unat ptr + 0 + n \<le> 2 ^ 32" "0 + n < 2 ^ 32" using assms(8,9) by simp_all
  have b: "off_file f x \<and> x \<noteq> u_local env" if "unat ptr \<le> unat x" "unat x < unat ptr + 0 + n" for x using assms(10) that by simp
  obtain q where q: "fread_loop env f ptr (of_nat 0) n p = Some (of_nat (0 + min n (length bs)), q)"
    "reading sec cap dev_ok e f (drop n bs) q" "f_eof f q = (if length bs < n then 1 else f_eof f p)"
    "\<forall>i<min n (length bs). mem_of q (ptr + of_nat (0 + i)) = bs ! i"
    "\<forall>x. off_file f x \<and> x \<noteq> u_local env \<and> \<not> (unat ptr + 0 \<le> unat x \<and> unat x < unat ptr + 0 + n) \<longrightarrow> mem_of q x = mem_of p x"
    using reliable_device.fread_loop_reads [OF assms(1,4,2,3,5) z b] by blast
  have t: "unat (sz * nmemb) = n" using assms(6,8) by (simp add: unat_word_ariths)
  have nz: "sz \<noteq> 0" "nmemb \<noteq> 0" using assms(6,7) by (auto simp: unat_0_iff)
  have "unat (sz * nmemb div sz) = unat nmemb" using assms(6,7) unfolding unat_div_distrib t by simp
  then have d: "sz * nmemb div sz = nmemb" by (rule word_unat_eq_iff [THEN iffD2])
  have "region (mem_of q) ptr (min n (length bs)) = take n bs"
    by (rule nth_equalityI) (use q(4) in \<open>auto simp: region_def\<close>)
  then show ?thesis using q ff nz d t by (intro exI [of _ q]) (simp add: fread_def Let_def file_fits_def)
qed


section \<open>Opening a file and reading it\<close>

lemma has_plus_at: "string_at u x s \<Longrightarrow> has_plus u x b = Some (b \<or> 43 \<in> set s)"
proof (induction s arbitrary: x b)
  case Nil
  then show ?case by (subst has_plus.simps) (simp add: string_at_Nil)
next
  case (Cons c s)
  then show ?case by (subst has_plus.simps) (auto simp: string_at_Cons)
qed

lemma print_len_at: "string_at u (x + n) s \<Longrightarrow> print_len u x n = Some (n + of_nat (length s))"
proof (induction s arbitrary: n)
  case Nil
  then show ?case by (subst print_len.simps) (simp add: string_at_Nil)
next
  case (Cons c s)
  then have "string_at u (x + (n + 1)) s" by (simp add: string_at_Cons add.assoc)
  from Cons.IH [OF this] show ?case using Cons.prems by (subst print_len.simps) (simp add: string_at_Cons add.assoc)
qed

lemma sys_open_eq:
  "sys_open k name flags oc = do {
     nm \<leftarrow> user_string (oc_user oc) name;
     (v, fs) \<leftarrow> fs_open (k_disk k) nm flags (sy_fs (oc_sys oc));
     Some (of_int v, ret v (set_fs fs (oc\<lparr>oc_regs := (oc_regs oc)\<lparr>r_eax := 12, r_ebx := name, r_ecx := flags\<rparr>\<rparr>))) }"
  by (auto simp: sys_open_def int80_eax_def int80_def syscall_handler_def file_call_def Let_def ret_def split: bind_splits)

text \<open>The heap as the allocator sees it.\<close>

definition heap_of :: "'d prog \<Rightarrow> heap" where
  "heap_of p = \<lparr>bytes = mem_of p, freelist = p_freelist p, heap_brk = p_brk p, heap_state = p_heap_state p,
    kern = sy_mem (oc_sys (p_oc p))\<rparr>"

lemma with_heap_eq:
  assumes "f (heap_of p) = Some (r, h)"
  obtains q where "with_heap f p = Some (r, q)" "mem_of q = bytes h" "fs_of q = fs_of p" "heap_of q = h"
proof -
  let ?q = "p\<lparr>p_oc := (p_oc p)\<lparr>oc_user := bytes h, oc_sys := (oc_sys (p_oc p))\<lparr>sy_mem := kern h\<rparr>\<rparr>,
       p_freelist := freelist h, p_brk := heap_brk h, p_heap_state := heap_state h\<rparr>"
  have "with_heap f p = Some (r, ?q)" using assms by (simp add: with_heap_def heap_of_def mem_of_def)
  then show thesis by (rule that) (simp_all add: mem_of_def fs_of_def heap_of_def)
qed

lemma new_file_fields:
  assumes "file_fits f"
  shows "f_fd f (new_file f fd p) = fd" "f_kind f (new_file f fd p) = 0" "f_eof f (new_file f fd p) = 0"
    "f_error f (new_file f fd p) = 0" "f_ungot f (new_file f fd p) = -1"
    "off_file f x \<Longrightarrow> mem_of (new_file f fd p) x = mem_of p x" "fs_of (new_file f fd p) = fs_of p"
proof -
  let ?z = "\<lambda>x. if x - f < 20 then 0 else mem_of p x"
  let ?u = "put32 (f + 16) (-1) (put32 f fd ?z)"
  have m: "mem_of (new_file f fd p) = ?u" by (simp add: new_file_def set_ungot_def set_fd_def)
  have inside: "x - f < 20 \<longleftrightarrow> \<not> off_file f x" for x
  proof (cases "f \<le> x")
    case True
    then have "unat (x - f) = unat x - unat f" "unat f \<le> unat x" by (simp_all add: unat_sub_no_wrap word_le_nat_alt)
    then show ?thesis by (auto simp: word_less_nat_alt off_file_def)
  next
    case False
    then have lt: "unat x < unat f" by (simp add: word_le_nat_alt)
    have "\<not> x - f < 20"
    proof
      assume a: "x - f < 20"
      have "unat (f + (x - f)) = unat f + unat (x - f)"
        using a assms by (intro unat_add_no_wrap) (simp add: file_fits_def word_less_nat_alt)
      then show False using lt by simp
    qed
    then show ?thesis using lt by (simp add: off_file_def)
  qed
  have zero: "get32 ?z a = 0" if "unat f \<le> unat a" "unat a + 4 \<le> unat f + 20" for a
  proof -
    have "get32 ?z a = get32 (\<lambda>_. 0) a"
      using that assms by (intro get32_cong) (auto simp: inside off_file_def file_fits_def)
    moreover have "le32 [0, 0, 0, 0] 0 = 0" by code_simp
    ultimately show ?thesis by (simp only: get32_def)
  qed
  note u = file_field [OF assms]
  have fit: "unat f + 20 \<le> 4294967296" using assms by (simp add: file_fits_def)
  have mid: "get32 ?u a = get32 ?z a" if "unat f + 4 \<le> unat a" "unat a + 4 \<le> unat f + 16" for a
    using that fit u by (subst get32_put32_other; simp)+
  show "f_fd f (new_file f fd p) = fd" unfolding f_fd_def m using fit u by (subst get32_put32_other) simp_all
  show "f_kind f (new_file f fd p) = 0" "f_eof f (new_file f fd p) = 0" "f_error f (new_file f fd p) = 0"
    unfolding f_kind_def f_eof_def f_error_def m using mid zero u by simp_all
  show "f_ungot f (new_file f fd p) = -1" unfolding f_ungot_def m by simp
  show "mem_of (new_file f fd p) x = mem_of p x" if "off_file f x"
    unfolding m using that fit u inside [of x] by (subst put32_out; auto simp: off_file_def)+
  show "fs_of (new_file f fd p) = fs_of p" by (simp add: new_file_def set_ungot_def set_fd_def)
qed

lemma fopen_reading:
  assumes "reliable_device dk sec cap dev_ok" and "k_disk (u_kernel env) = dk" and "handles_ok (fs_of p)"
    and "fs_ok (fs_sb (fs_of p)) cap (sec (fs_dev (fs_of p)))" and "dev_ok (fs_dev (fs_of p))"
    and "string_at (mem_of p) path nm" and "length nm < 23" and "string_at (mem_of p) mode (asc ''r'')"
    and "free_handle (fs_of p) = Some i"
    and "files (fs_sb (fs_of p)) (sec (fs_dev (fs_of p))) nm = Some (t, contents)" and "t \<noteq> FS_DIR"
    and "malloc (u_heap_start env) 20 (heap_of p) = Some (f, h)" and "file_fits f"
  shows "\<exists>e q. fopen env path mode p = Some (f, q) \<and> reading sec cap dev_ok e f contents q \<and> f_eof f q = 0 \<and>
    (\<forall>x. off_file f x \<longrightarrow> mem_of q x = bytes h x)"
proof -
  let ?fs = "fs_of p"
  from assms(10) obtain e where e: "lookup (fs_sb ?fs) (sec (fs_dev ?fs)) nm = Some e" "fe_type e = t"
    "file_bytes (sec (fs_dev ?fs)) e = contents" by (auto simp: files_def)
  have nf: "nul_free nm" using assms(6) by (simp add: string_at_def)
  let ?h = "(new_handle nm False)\<lparr>h_type := fe_type e, h_lba := fe_lba e, h_size := fe_size e\<rparr>"
  have ty: "fe_type e \<noteq> FS_DIR" using e(2) assms(11) by simp
  obtain d where d: "fs_open dk (nm @ [0]) 0 ?fs = Some (3 + int i, set_handle i ?h (?fs\<lparr>fs_dev := d\<rparr>))" "dev_ok d"
    "sec d = sec (fs_dev ?fs)"
    using reliable_device.fs_open_read [OF assms(1,4,5) nf assms(7,9) e(1) ty, of "[]"] by blast
  have z: "1 AND FS_O_CREAT = 0" "0 AND FS_O_CREAT = 0" "1 AND (FS_O_WRONLY OR FS_O_RDWR) = 0" "0 AND (FS_O_WRONLY OR FS_O_RDWR) = 0"
    by (simp_all add: FS_O_CREAT_def FS_O_WRONLY_def FS_O_RDWR_def)
  have slot: "open_slot dk nm0 1 = open_slot dk nm0 0" for nm0
    by (intro ext) (simp only: open_slot_def z simp_thms if_False Let_def)
  have ro: "fs_open dk nm0 O_RDONLY ?fs = fs_open dk nm0 0 ?fs" for nm0
    unfolding fs_open_def O_RDONLY_def z slot ..
  have i: "i < 8" using free_handle_Some [OF assms(9)] by simp
  have hs: "length (fs_handles ?fs) = 8" using handles_okD(1) [OF assms(3)] .
  define q1 where "q1 = p\<lparr>p_oc := ret (3 + int i) (set_fs (set_handle i ?h (?fs\<lparr>fs_dev := d\<rparr>))
    ((p_oc p)\<lparr>oc_regs := (oc_regs (p_oc p))\<lparr>r_eax := 12, r_ebx := path, r_ecx := O_RDONLY\<rparr>\<rparr>))\<rparr>"
  have q1: "mem_of q1 = mem_of p" "fs_of q1 = set_handle i ?h (?fs\<lparr>fs_dev := d\<rparr>)" "heap_of q1 = heap_of p"
    by (simp_all add: q1_def mem_of_def fs_of_def heap_of_def)
  have c: "call (sys_open (u_kernel env) path O_RDONLY) p = Some (of_int (3 + int i), q1)"
    using d(1) user_string_at [OF assms(6)] assms(2)
    by (simp add: call_def sys_open_eq ro [unfolded fs_of_def] q1_def mem_of_def fs_of_def)
  have fd: "sint (of_int (3 + int i) :: u32) = 3 + int i"
  proof -
    have "unat (of_nat (3 + i) :: u32) = 3 + i" using i by (intro of_nat_unat_small) simp
    then show ?thesis using sint_small [of "of_nat (3 + i)"] i by simp
  qed
  obtain q2 where q2: "with_heap (malloc (u_heap_start env) 20) q1 = Some (f, q2)" "mem_of q2 = bytes h" "fs_of q2 = fs_of q1"
    by (rule with_heap_eq [of "malloc (u_heap_start env) 20" q1 f h]) (use q1(3) assms(12) in simp_all)
  let ?q = "new_file f (of_int (3 + int i)) q2"
  note nw = new_file_fields [OF assms(13), where fd = "of_int (3 + int i)" and p = q2]
  have m: "mode_flags (mem_of p) mode = Some (Some O_RDONLY)"
    using has_plus_at [OF assms(8), of False] assms(8) by (simp add: mode_flags_def string_at_Cons)
  have run: "fopen env path mode p = Some (f, ?q)"
    using m c q2(1) fd assms(13) by (simp add: fopen_def file_fits_def)
  have lk: "fd_lookup (3 + int i) (fs_of ?q) = Some (i, ?h)"
    unfolding nw(7) q2(3) q1(2) using i hs by (simp add: fd_lookup_Some new_handle_def)
  have lk': "fd_lookup (sint (f_fd f ?q)) (fs_of ?q) = Some (i, ?h)" unfolding nw(1) fd by (rule lk)
  have fsq: "fs_of ?q = set_handle i ?h (?fs\<lparr>fs_dev := d\<rparr>)" unfolding nw(7) q2(3) q1(2) ..
  have "reading sec cap dev_ok e f contents ?q" unfolding reading_def
  proof (intro conjI exI [of _ i] exI [of _ ?h])
    show "dev_ok (fs_dev (fs_of ?q))" "entry_ok (fs_sb (fs_of ?q)) cap e" "length (fs_handles (fs_of ?q)) = 8"
      unfolding fsq using d(2) lookup_entry_ok [OF assms(4) e(1)] hs by simp_all
    show "contents = drop (unat (h_offset ?h)) (file_bytes (sec (fs_dev (fs_of ?q))) e)"
      unfolding fsq using d(3) e(3) by (simp add: new_handle_def handle_zero_def)
  qed (rule assms(13) nw lk' | simp add: new_handle_def handle_zero_def)+
  then show ?thesis using run nw(3) nw(6) q2(2) by (intro exI [of _ e] exI [of _ ?q]) simp
qed


text \<open>C7: A program that opens an existing file with fopen in mode r and calls fread gets exactly the file's first bytes
  in its buffer, cut at the end of the file, and the number of whole elements; feof then tells whether the file
  ended before the request. This runs through the allocator, the system calls, the handle table and the disk.\<close>

theorem stdio_reads_file:
  assumes "reliable_device dk sec cap dev_ok" and "k_disk (u_kernel env) = dk" and "handles_ok (fs_of p)"
    and "fs_ok (fs_sb (fs_of p)) cap (sec (fs_dev (fs_of p)))" and "dev_ok (fs_dev (fs_of p))"
    and "string_at (mem_of p) path nm" and "length nm < 23" and "string_at (mem_of p) mode (asc ''r'')"
    and "free_handle (fs_of p) = Some i"
    and "files (fs_sb (fs_of p)) (sec (fs_dev (fs_of p))) nm = Some (t, contents)" and "t \<noteq> FS_DIR"
    and "malloc (u_heap_start env) 20 (heap_of p) = Some (f, h)" and "file_fits f" and "off_file f (u_local env)"
    and "n = unat sz * unat nmemb" and "0 < n" "n < 2 ^ 32" "unat ptr + n \<le> 2 ^ 32"
    and "\<And>x. unat ptr \<le> unat x \<Longrightarrow> unat x < unat ptr + n \<Longrightarrow> off_file f x \<and> x \<noteq> u_local env"
  shows "\<exists>p1 p2. fopen env path mode p = Some (f, p1) \<and>
    fread env ptr sz nmemb f p1 = Some (of_nat (min n (length contents)) div sz, p2) \<and>
    region (mem_of p2) ptr (min n (length contents)) = take n contents \<and>
    (feof f p2 \<noteq> 0 \<longleftrightarrow> length contents < n)"
proof -
  from fopen_reading [OF assms(1-13)] obtain e p1 where p1: "fopen env path mode p = Some (f, p1)" "reading sec cap dev_ok e f contents p1"
    "f_eof f p1 = 0" by blast
  have cap: "cap < 2 ^ 32" using assms(4) by (simp add: fs_ok_def geometry_ok_def)
  from fread_reads [OF assms(1,2) cap p1(2) assms(14-19)] obtain p2 where
    "fread env ptr sz nmemb f p1 = Some (of_nat (min n (length contents)) div sz, p2)"
    "f_eof f p2 = (if length contents < n then 1 else f_eof f p1)"
    "region (mem_of p2) ptr (min n (length contents)) = take n contents" by blast
  then show ?thesis using p1(1,3) assms(13) by (intro exI [of _ p1] exI [of _ p2]) (simp add: feof_def file_fits_def)
qed

text \<open>A program on the machine with one file, its strings and buffer above its heap.\<close>

definition tiny_env :: "drive uenv" where
  "tiny_env = \<lparr>u_kernel = \<lparr>k_disk = ata_disk drive_pio, k_entry = (\<lambda>_. 0)\<rparr>, u_heap_start = 0x400200, u_stdin = 0x401000,
    u_stdout = 0x401020, u_stderr = 0x401040, u_local = 0x7FF800\<rparr>"

definition tiny_prog :: "drive \<Rightarrow> drive prog" where
  "tiny_prog d = \<lparr>p_oc = \<lparr>oc_regs = \<lparr>r_esi = 0, r_ebx = 0, r_edx = 0, r_ecx = 0, r_eax = 0\<rparr>, oc_frame = (0, 0),
      oc_user = (\<lambda>x. if x = 0x7FF900 then 97 else if x = 0x7FF910 then 114 else 0), oc_keys = [],
      oc_sys = \<lparr>sy_fs = fs_boot empty_sb d, sy_wm = sy_wm tiny_sys, sy_kbd = kbd_init, sy_mem = tiny\<lparr>brk := 0x400100\<rparr>,
        sy_exit = exit_to_shell\<rparr>\<rparr>,
    p_freelist = 0, p_brk = 0, p_heap_state = 0\<rparr>"

lemma stdio_reads_file_witness:
  "\<exists>d f p1 p2. fopen tiny_env 0x7FF900 0x7FF910 (tiny_prog d) = Some (f, p1) \<and>
    fread tiny_env 0x7FF000 4 200 f p1 = Some (175, p2) \<and> region (mem_of p2) 0x7FF000 700 = replicate 700 9 \<and> feof f p2 \<noteq> 0"
proof -
  have "parent_name (asc ''a'') = None" by (simp add: parent_name_def)
  with blank_write [of "asc ''a''" 700 "replicate 700 9" "[]" FS_FILE] obtain d where
    d: "drive_good d" "fs_ok empty_sb (2 ^ 28) (drive_sec d)" "files empty_sb (drive_sec d) = [asc ''a'' \<mapsto> (FS_FILE, replicate 700 9)]" by auto
  let ?p = "tiny_prog d"
  have fsp: "fs_of ?p = fs_boot empty_sb d" by (simp add: fs_of_def tiny_prog_def)
  let ?H = "heap_of ?p"
  have boot: "heap_boot 0x400200 ?H = ?H\<lparr>kern := tiny\<lparr>brk := 0x400200\<rparr>, heap_brk := 0x400200, heap_state := 1\<rparr>"
    by (simp add: heap_boot_def sys_sbrk_def vm_sbrk_def heap_of_def tiny_prog_def tiny_def USER_TOP_def USER_STACK_def)
  have ld: "loaded ?H" by (simp add: loaded_def heap_of_def tiny_prog_def tiny_def USER_BASE_def USER_STACK_def)
  have st: "heap_state ?H = 0" by (simp add: heap_of_def tiny_prog_def)
  have run: "heap_run 0x400200 ?H (heap_boot 0x400200 ?H) {}" by (rule heap_run.boot [OF st refl]) (simp add: boot)
  have "malloc 0x400200 20 ?H = malloc 0x400200 20 (heap_boot 0x400200 ?H)"
    unfolding malloc_def Let_def st by (simp add: boot)
  moreover have "unat (20 :: u32) \<le> 0x7FFFFFF0" by simp
  note malloc_run_spec [OF run ld this]
  ultimately obtain f h where f: "malloc 0x400200 20 ?H = Some (f, h)" "f \<noteq> 0" "unat f + 20 \<le> 0x7FF000"
    by (auto simp: boot USER_STACK_def)
  have ff: "file_fits f" using f(2,3) by (simp add: file_fits_def)
  have off: "off_file f x" if "0x7FF000 \<le> unat x" for x using f(3) that by (simp add: off_file_def)
  have str: "string_at (mem_of ?p) 0x7FF900 (asc ''a'')" "string_at (mem_of ?p) 0x7FF910 (asc ''r'')"
    by (simp_all add: string_at_Cons string_at_Nil mem_of_def tiny_prog_def)
  have "k_disk (u_kernel tiny_env) = ata_disk drive_pio" by (simp add: tiny_env_def)
  note stdio_reads_file [OF reliable_drive this, where p = ?p and path = "0x7FF900" and mode = "0x7FF910" and nm = "asc ''a''" and i = 0
      and t = FS_FILE and contents = "replicate 700 9" and f = f and h = h and n = 800 and sz = 4 and nmemb = 200 and ptr = "0x7FF000"]
  from this [unfolded fsp fs_boot_sel, OF fs_boot_ok d(2,1) str(1) _ str(2) boot_free _ _ _ ff off]
  show ?thesis using f(1) d(3) off by (auto simp: tiny_env_def FS_FILE_def FS_DIR_def word_unat_eq_iff)
qed


section \<open>Printing on the console\<close>

lemma sys_write_u_eq:
  assumes "sys_ok (oc_sys oc)"
  obtains oc' t where "sys_write_u k buf len oc = Some oc'" "shows_term t oc oc'"
    "put_chars (region (oc_user oc) buf (unat len)) (VGA_COLOR 0 15) (cur_term (oc_sys oc)) = Some t"
proof -
  let ?s = "oc_sys oc" and ?bs = "region (oc_user oc) buf (unat len)"
  note s = sys_okD [OF assms]
  obtain t where t: "put_chars ?bs (VGA_COLOR 0 15) (cur_term ?s) = Some t" "term_ok t" using put_chars_ok [OF s(4)] by blast
  note r = redraw_ok [OF assms t(2) s(3)]
  have "sys_write ?bs ?s = Some (redraw t (vga_image t) ?s)"
    using with_term_eq [OF assms, of "put_chars ?bs (VGA_COLOR 0 15)" t, OF t(1)] show_term_eq [OF r(1)] r(2) by (simp add: sys_write_def redraw_vga)
  then have "sys_write_u k buf len oc = Some (set_sys (redraw t (vga_image t) ?s)
      (oc\<lparr>oc_regs := (oc_regs oc)\<lparr>r_eax := 1, r_ebx := buf, r_ecx := len\<rparr>\<rparr>))"
    by (simp add: sys_write_u_def int80_def syscall_handler_def Let_def)
  then show thesis by (rule that [OF _ shows_set_sys [OF t(2) refl] t(1)])
qed

definition term_of :: "'d prog \<Rightarrow> terminal" where
  "term_of p = cur_term (oc_sys (p_oc p))"

text \<open>A stream on the console, on a machine in order.\<close>

definition console :: "'d uenv \<Rightarrow> u32 \<Rightarrow> 'd prog \<Rightarrow> bool" where
  "console env f p \<longleftrightarrow> file_fits f \<and> off_file f (u_local env) \<and> f_kind f p = 2 \<and> sys_ok (oc_sys (p_oc p))"

lemma fputc_console:
  assumes "console env f p"
  obtains q where "fputc env (sint c) f p = Some (uint c, q)" "console env f q" "shown (oc_sys (p_oc q))"
    "term_putchar (term_of p) c (VGA_COLOR 0 15) = Some (term_of q)"
proof -
  have c: "file_fits f" "off_file f (u_local env)" "f_kind f p = 2" "sys_ok (oc_sys (p_oc p))" using assms by (simp_all add: console_def)
  let ?p = "set_mem ((mem_of p)(u_local env := c)) p"
  have oc: "oc_sys (p_oc ?p) = oc_sys (p_oc p)" "oc_user (p_oc ?p) = (mem_of p)(u_local env := c)" by (simp_all add: set_mem_def)
  have ok: "sys_ok (oc_sys (p_oc ?p))" using c(4) oc by simp
  obtain oc' t where w: "sys_write_u (u_kernel env) (u_local env) 1 (p_oc ?p) = Some oc'" "shows_term t (p_oc ?p) oc'"
    "put_chars (region (oc_user (p_oc ?p)) (u_local env) (unat (1 :: u32))) (VGA_COLOR 0 15) (cur_term (oc_sys (p_oc ?p))) = Some t"
    by (rule sys_write_u_eq [OF ok])
  let ?q = "?p\<lparr>p_oc := oc'\<rparr>"
  have same: "\<not> off_file f x \<Longrightarrow> mem_of r x = mem_of p x" if "mem_of r = (mem_of p)(u_local env := c)" for r x
    using c(2) that by auto
  have kind: "f_kind f r = 2" if "mem_of r = (mem_of p)(u_local env := c)" for r :: "'a prog"
    using fields_cong(2) [OF c(1), of r p] same [OF that] c(3) by auto
  note d = shows_termD [OF w(2) ok]
  have mq: "mem_of ?q = (mem_of p)(u_local env := c)" using d(6) oc(2) by (simp add: mem_of_def)
  have "console env f ?q" using c(1,2) kind [OF mq] d(1) by (simp add: console_def)
  moreover have "term_putchar (term_of p) c (VGA_COLOR 0 15) = Some (term_of ?q)"
    using w(3) d(3) oc by (auto simp: region_def term_of_def split: bind_splits)
  moreover have "fputc env (sint c) f p = Some (uint c, ?q)"
    using c(1) kind [of ?p] w(1) by (simp add: fputc_def Let_def call0_def file_fits_def)
  ultimately show thesis using d(2) by (intro that [of ?q]) simp_all
qed

lemma emit_console:
  "console env f p \<Longrightarrow> \<exists>q. emit_all (emit_file env f) out (p, n) = Some (q, n + of_nat (length out)) \<and> console env f q \<and>
    put_chars out (VGA_COLOR 0 15) (term_of p) = Some (term_of q) \<and>
    (shown (oc_sys (p_oc p)) \<longrightarrow> shown (oc_sys (p_oc q)))"
proof (induction out arbitrary: p n)
  case (Cons c out)
  obtain q where q: "fputc env (sint c) f p = Some (uint c, q)" "console env f q" "shown (oc_sys (p_oc q))"
    "term_putchar (term_of p) c (VGA_COLOR 0 15) = Some (term_of q)" by (rule fputc_console [OF Cons.prems])
  from Cons.IH [OF q(2), of "n + 1"] q show ?case by (auto simp: emit_file_def add.assoc)
qed simp

text \<open>C9: printf shows on the terminal exactly the characters of the formatted text, one after the other, with the VGA
  buffer as the terminal's image, and returns their number.\<close>

theorem printf_shows:
  assumes "console env (u_stdout env) p" and "shown (oc_sys (p_oc p))" and "format fmt args = Some out"
  shows "\<exists>q. printf env fmt args p = Some (sint (of_nat (length out) :: u32), q) \<and>
    put_chars out (VGA_COLOR 0 15) (term_of p) = Some (term_of q) \<and> w_vga (sy_wm (oc_sys (p_oc q))) = vga_image (term_of q)"
proof -
  obtain q where "emit_all (emit_file env (u_stdout env)) out (p, 0) = Some (q, 0 + of_nat (length out))"
    "put_chars out (VGA_COLOR 0 15) (term_of p) = Some (term_of q)" "shown (oc_sys (p_oc q))"
    using emit_console [OF assms(1), of out 0] assms(2) by blast
  then show ?thesis using assms(3)
    by (intro exI [of _ q]) (simp add: printf_def vfprintf_def do_format_def shown_def term_of_def)
qed


lemma printf_shows_witness:
  "\<exists>p q t. printf tiny_env (asc ''n=%d'' @ [0]) [WArg 42] p = Some (4, q) \<and> put_chars (asc ''n=42'') (VGA_COLOR 0 15) t = Some (term_of q)"
proof -
  let ?p = "set_mem (put32 0x401024 2 (\<lambda>_. 0)) (tiny_prog drive_blank)"
  have ok: "sys_ok (oc_sys (p_oc ?p))"
    using tiny_sys_ok fs_boot_ok [of empty_sb drive_blank]
    by (simp add: sys_ok_def set_mem_def tiny_prog_def tiny_sys_def USER_BASE_def USER_STACK_def tiny_def)
  obtain oc' t where c: "sys_clear (u_kernel tiny_env) (p_oc ?p) = Some oc'" "shows_term t (p_oc ?p) oc'"
    using sys_clear_eq [OF ok, of "u_kernel tiny_env"] by blast
  note d = shows_termD [OF c(2) ok]
  let ?q = "?p\<lparr>p_oc := oc'\<rparr>"
  have "mem_of ?q = put32 0x401024 2 (\<lambda>_. 0)" using d(6) by (simp add: mem_of_def set_mem_def)
  then have "f_kind 0x401020 ?q = 2" by (simp add: f_kind_def)
  then have con: "console tiny_env (u_stdout tiny_env) ?q" using d(1) by (simp add: console_def file_fits_def off_file_def tiny_env_def)
  have fm: "format (asc ''n=%d'' @ [0]) [WArg 42] = Some (asc ''n=42'')" by code_simp
  from printf_shows [OF con _ fm] d(2) obtain q where "printf tiny_env (asc ''n=%d'' @ [0]) [WArg 42] ?q = Some (4, q)"
    "put_chars (asc ''n=42'') (VGA_COLOR 0 15) (term_of ?q) = Some (term_of q)" by auto
  then show ?thesis by blast
qed

end
