(* ===== verification/Gdt.thy ===== *)
theory Gdt
  imports Prelude
begin

text \<open>
kernel/gdt.c: the six descriptors, the task state segment and the operand of lgdt, against the fields the processor
  reads from a descriptor. The reload of the segment registers is assembly and left out.
\<close>

definition GDT_ENTRIES :: nat where "GDT_ENTRIES = 6"
definition KERNEL_DATA :: u32 where "KERNEL_DATA = 0x10"

record gdt_entry =
  g_limit_low :: u16
  g_base_low :: u16
  g_base_mid :: byte
  g_access :: byte
  g_flags_limit_high :: byte
  g_base_high :: byte

record tss =
  s_prev_tss :: u32
  s_esp0 :: u32
  s_ss0 :: u32
  s_esp1 :: u32
  s_ss1 :: u32
  s_esp2 :: u32
  s_ss2 :: u32
  s_cr3 :: u32
  s_eip :: u32
  s_eflags :: u32
  s_eax :: u32
  s_ecx :: u32
  s_edx :: u32
  s_ebx :: u32
  s_esp :: u32
  s_ebp :: u32
  s_esi :: u32
  s_edi :: u32
  s_es :: u32
  s_cs :: u32
  s_ss :: u32
  s_ds :: u32
  s_fs :: u32
  s_gs :: u32
  s_ldt :: u32
  s_trap :: u16
  s_iomap :: u16

definition tss_zero :: tss where
  "tss_zero = \<lparr>s_prev_tss = 0, s_esp0 = 0, s_ss0 = 0, s_esp1 = 0, s_ss1 = 0, s_esp2 = 0, s_ss2 = 0, s_cr3 = 0, s_eip = 0, s_eflags = 0, s_eax = 0, s_ecx = 0, s_edx = 0,
    s_ebx = 0, s_esp = 0, s_ebp = 0, s_esi = 0, s_edi = 0, s_es = 0, s_cs = 0, s_ss = 0, s_ds = 0, s_fs = 0, s_gs = 0, s_ldt = 0, s_trap = 0, s_iomap = 0\<rparr>"

definition sizeof_tss :: u32 where "sizeof_tss = 25 * 4 + 2 * 2"

definition gdt_entry_of :: "u32 \<Rightarrow> u32 \<Rightarrow> byte \<Rightarrow> byte \<Rightarrow> gdt_entry" where
  "gdt_entry_of base limit access flags =
     \<lparr>g_limit_low = ucast (limit AND 0xFFFF), g_base_low = ucast (base AND 0xFFFF),
      g_base_mid = ucast (drop_bit 16 base AND 0xFF), g_access = access,
      g_flags_limit_high = ucast (drop_bit 16 limit AND 0x0F) OR (flags AND 0xF0),
      g_base_high = ucast (drop_bit 24 base AND 0xFF)\<rparr>"

definition set_gdt_entry :: "nat \<Rightarrow> u32 \<Rightarrow> u32 \<Rightarrow> byte \<Rightarrow> byte \<Rightarrow> gdt_entry list \<Rightarrow> gdt_entry list option" where
  "set_gdt_entry index base limit access flags gdt = store gdt index (gdt_entry_of base limit access flags)"

text \<open>The linker places \<open>gdt\<close> and \<open>tss\<close>. The result holds the operand of lgdt: its limit and base.\<close>

definition gdt_init :: "u32 \<Rightarrow> u32 \<Rightarrow> gdt_entry list \<Rightarrow> tss \<Rightarrow>
    (gdt_entry list \<times> tss \<times> (u16 \<times> u32)) option" where
  "gdt_init gdt_addr tss_addr gdt tss = do {
     gdt \<leftarrow> set_gdt_entry 0 0 0 0 0 gdt;
     gdt \<leftarrow> set_gdt_entry 1 0 0xFFFFF 0x9A 0xC0 gdt;
     gdt \<leftarrow> set_gdt_entry 2 0 0xFFFFF 0x92 0xC0 gdt;
     gdt \<leftarrow> set_gdt_entry 3 0 0xFFFFF 0xFA 0xC0 gdt;
     gdt \<leftarrow> set_gdt_entry 4 0 0xFFFFF 0xF2 0xC0 gdt;
     let tss = tss\<lparr>s_esp0 := 0x90000, s_ss0 := KERNEL_DATA, s_iomap := ucast sizeof_tss\<rparr>;
     gdt \<leftarrow> set_gdt_entry 5 tss_addr (sizeof_tss - 1) 0x89 0x00 gdt;
     Some (gdt, tss, (of_nat (8 * GDT_ENTRIES) - 1, gdt_addr)) }"

section \<open>What the processor reads\<close>

text \<open>The fields of a descriptor as the architecture lays them out.\<close>

definition seg_base :: "gdt_entry \<Rightarrow> u32" where
  "seg_base g = ucast (g_base_low g) OR push_bit 16 (ucast (g_base_mid g)) OR push_bit 24 (ucast (g_base_high g))"

definition seg_limit :: "gdt_entry \<Rightarrow> u32" where
  "seg_limit g =
     (let l = ucast (g_limit_low g) OR push_bit 16 (ucast (g_flags_limit_high g AND 0x0F))
      in if bit (g_flags_limit_high g) 7 then push_bit 12 l OR 0xFFF else l)"

definition seg_dpl :: "gdt_entry \<Rightarrow> nat" where
  "seg_dpl g = unat (drop_bit 5 (g_access g) AND 3)"

definition seg_present :: "gdt_entry \<Rightarrow> bool" where
  "seg_present g \<longleftrightarrow> bit (g_access g) 7"

lemma mask_lits:
  "(0x0F :: 'a::len word) = mask 4" "(0xFF :: 'a word) = mask 8" "(0xFFF :: 'a word) = mask 12"
  "(0xFFFF :: 'a word) = mask 16" "(0xFFFFF :: 'a word) = mask 20" "(0xF0 :: 'a word) = push_bit 4 (mask 4)"
  by (simp_all add: mask_eq_exp_minus_1 push_bit_eq_mult)

lemmas field_bits = bit_or_iff bit_and_iff bit_push_bit_iff bit_drop_bit_eq bit_unsigned_iff bit_mask_iff mask_lits
  possible_bit_def

lemma seg_base_of: "seg_base (gdt_entry_of base limit access flags) = base"
proof (rule bit_word_eqI)
  fix n assume "n < LENGTH(32)"
  moreover have "24 + (n - 24) = n \<or> n < 24" "n - 16 < 8 \<longleftrightarrow> n < 24" by auto
  ultimately show "bit (seg_base (gdt_entry_of base limit access flags)) n = bit base n"
    by (auto simp: seg_base_def gdt_entry_of_def field_bits)
qed

lemma seg_limit_of:
  assumes "limit AND 0xFFFFF = limit"
  shows "seg_limit (gdt_entry_of base limit access flags) =
    (if bit flags 7 then push_bit 12 limit OR 0xFFF else limit)"
proof -
  let ?g = "gdt_entry_of base limit access flags"
  have "ucast (g_limit_low ?g) OR push_bit 16 (ucast (g_flags_limit_high ?g AND 0x0F)) = limit AND 0xFFFFF"
    by (rule bit_word_eqI) (auto simp: gdt_entry_of_def field_bits)
  moreover have "bit (g_flags_limit_high ?g) 7 = bit flags 7"
    by (simp add: gdt_entry_of_def field_bits)
  ultimately show ?thesis using assms by (simp add: seg_limit_def Let_def)
qed

text \<open>A segment that covers the address space, of a privilege level.\<close>

definition flat_segment :: "nat \<Rightarrow> gdt_entry \<Rightarrow> bool" where
  "flat_segment dpl g \<longleftrightarrow> seg_present g \<and> seg_dpl g = dpl \<and> seg_base g = 0 \<and> seg_limit g = 0xFFFFFFFF"

text \<open>After gdt_init the code and data segments of the kernel (ring 0) and of user programs (ring 3) are present and
  span the whole address space from 0; the task state segment is the tss of the kernel and no longer, and an
  interrupt from ring 3 finds its stack at 0x90000 in the kernel's data segment.\<close>

theorem gdt_init_segments:
  assumes "length gdt = GDT_ENTRIES"
  shows "\<exists>gdt' tss' ptr. gdt_init gdt_addr tss_addr gdt tss = Some (gdt', tss', ptr) \<and> length gdt' = 6 \<and>
    flat_segment 0 (gdt' ! 1) \<and> flat_segment 0 (gdt' ! 2) \<and> flat_segment 3 (gdt' ! 3) \<and> flat_segment 3 (gdt' ! 4) \<and>
    \<not> seg_present (gdt' ! 0) \<and>
    seg_base (gdt' ! 5) = tss_addr \<and> seg_limit (gdt' ! 5) = sizeof_tss - 1 \<and> seg_dpl (gdt' ! 5) = 0 \<and>
    s_esp0 tss' = 0x90000 \<and> s_ss0 tss' = 0x10 \<and> ptr = (47, gdt_addr)"
proof -
  have bits: "bit (0xC0 :: byte) 7" "\<not> bit (0 :: byte) 7" by simp_all
  have ok: "flat_segment 0 (gdt_entry_of 0 0xFFFFF 0x9A 0xC0)" "flat_segment 0 (gdt_entry_of 0 0xFFFFF 0x92 0xC0)"
    "flat_segment 3 (gdt_entry_of 0 0xFFFFF 0xFA 0xC0)" "flat_segment 3 (gdt_entry_of 0 0xFFFFF 0xF2 0xC0)"
    by (simp_all add: flat_segment_def seg_base_of seg_limit_of bits)
      (simp_all add: seg_present_def seg_dpl_def gdt_entry_of_def)
  have null: "\<not> seg_present (gdt_entry_of 0 0 0 0)" by (simp add: seg_present_def gdt_entry_of_def)
  have task: "seg_limit (gdt_entry_of tss_addr (sizeof_tss - 1) 0x89 0x00) = sizeof_tss - 1"
    by (subst seg_limit_of) (simp_all add: sizeof_tss_def)
  have dpl: "seg_dpl (gdt_entry_of tss_addr (sizeof_tss - 1) 0x89 0x00) = 0"
    by (simp add: seg_dpl_def gdt_entry_of_def)
  from assms have l: "length gdt = 6" by (simp add: GDT_ENTRIES_def)
  show ?thesis
    by (simp add: gdt_init_def set_gdt_entry_def l ok null task dpl seg_base_of Let_def GDT_ENTRIES_def KERNEL_DATA_def)
qed

theorem gdt_init_segments_witness:
  "\<exists>gdt' tss' ptr. gdt_init 0x9000 0x9100 (replicate 6 (gdt_entry_of 0 0 0 0)) tss_zero =
      Some (gdt', tss', ptr) \<and> flat_segment 3 (gdt' ! 3) \<and> seg_base (gdt' ! 5) = 0x9100"
  using gdt_init_segments [of "replicate 6 (gdt_entry_of 0 0 0 0)" "0x9000" "0x9100"] by (fastforce simp: GDT_ENTRIES_def)

end
