(* ===== verification/Pit.thy ===== *)
theory Pit
  imports Port
begin

text \<open>
drivers/pit.c: the timer's counter and rate, the divisor written to channel 0, and the deadline of pit_sleep.
\<close>

definition PIT_CHANNEL0 :: u16 where "PIT_CHANNEL0 = 0x40"
definition PIT_COMMAND :: u16 where "PIT_COMMAND = 0x43"
definition PIT_FREQ :: u32 where "PIT_FREQ = 1193182"

record pit =
  pt_ticks :: u32
  pt_hz :: u32

text \<open>A division by zero traps: \<open>None\<close>. An argument of outb is cut to a byte.\<close>

definition pit_init :: "u32 \<Rightarrow> pit \<Rightarrow> (port_write list \<times> pit) option" where
  "pit_init hz p =
     (if hz = 0 then None
      else let divisor = PIT_FREQ div hz
        in Some ([Outb PIT_COMMAND 0x36,
                  Outb PIT_CHANNEL0 (ucast (divisor AND 0xFF)),
                  Outb PIT_CHANNEL0 (ucast (drop_bit 8 divisor AND 0xFF))], p\<lparr>pt_hz := hz\<rparr>))"

definition pit_handler :: "pit \<Rightarrow> pit" where
  "pit_handler p = p\<lparr>pt_ticks := pt_ticks p + 1\<rparr>"

definition pit_ticks :: "pit \<Rightarrow> u32" where "pit_ticks p = pt_ticks p"

definition pit_uptime_sec :: "pit \<Rightarrow> u32 option" where
  "pit_uptime_sec p = (if pt_hz p = 0 then None else Some (pt_ticks p div pt_hz p))"

text \<open>The deadline of pit_sleep, in ticks.\<close>

definition sleep_target :: "u32 \<Rightarrow> pit \<Rightarrow> u32" where
  "sleep_target ms p =
     (let add = (pt_hz p div 1000) * ms; rem = (pt_hz p mod 1000) * ms
      in pt_ticks p + add + rem div 1000)"

section \<open>Deadlines\<close>

lemma split_rate: "(h div 1000) * ms + (h mod 1000) * ms div 1000 = (h * ms :: nat) div 1000"
proof -
  obtain q r where qr: "q = h div 1000" "r = h mod 1000" by blast
  then have "h = 1000 * q + r" by simp
  then have "h * ms = r * ms + q * ms * 1000" by (simp only: algebra_simps)
  then have "h * ms div 1000 = (r * ms + q * ms * 1000) div 1000" by (simp only:)
  also have "\<dots> = q * ms + r * ms div 1000" by (rule div_mult_self1) simp
  finally show ?thesis unfolding qr ..
qed

lemma unat_mult_no_wrap: "unat a * unat b < 2 ^ 32 \<Longrightarrow> unat (a * b :: u32) = unat a * unat b"
  by (simp add: unat_word_ariths)

lemma sleep_target_eq:
  assumes "unat (pt_hz p) * unat ms < 2 ^ 32"
    and "unat (pt_ticks p) + unat (pt_hz p) * unat ms div 1000 < 2 ^ 32"
  shows "unat (sleep_target ms p) = unat (pt_ticks p) + unat (pt_hz p) * unat ms div 1000"
proof -
  let ?h = "unat (pt_hz p)" and ?m = "unat ms"
  have "?h div 1000 * ?m \<le> ?h * ?m" "?h mod 1000 * ?m \<le> ?h * ?m"
    by (simp_all add: mult_le_mono1)
  with assms(1) have "?h div 1000 * ?m < 2 ^ 32" "?h mod 1000 * ?m < 2 ^ 32" by linarith+
  then have a: "unat (pt_hz p div 1000 * ms) = ?h div 1000 * ?m"
    and r: "unat (pt_hz p mod 1000 * ms div 1000) = ?h mod 1000 * ?m div 1000"
    by (simp_all add: unat_mult_no_wrap unat_div unat_mod)
  obtain A B C where g: "A = ?h div 1000 * ?m" "B = ?h mod 1000 * ?m div 1000" "C = ?h * ?m div 1000" by blast
  have s: "A + B = C" unfolding g by (rule split_rate)
  have t: "unat (pt_ticks p) + C < 2 ^ 32" using assms(2) g by simp
  have "unat (pt_ticks p + pt_hz p div 1000 * ms) = unat (pt_ticks p) + A"
    using s t by (simp add: unat_add_no_wrap a flip: g)
  then show ?thesis unfolding sleep_target_def Let_def
    using s t by (simp add: unat_add_no_wrap r flip: g)
qed

text \<open>The rate the channel runs at is the divisor the two port writes carry.\<close>

lemma mask_byte: "(0xFF :: u32) = mask 8" by (simp add: mask_eq_exp_minus_1)

lemma pit_init_divisor:
  assumes "19 \<le> hz"
  shows "\<exists>lo hi. pit_init hz p = Some ([Outb 0x43 0x36, Outb 0x40 lo, Outb 0x40 hi], p\<lparr>pt_hz := hz\<rparr>) \<and>
    unat lo + 256 * unat hi = 1193182 div unat hz"
proof -
  let ?d = "PIT_FREQ div hz"
  have h: "19 \<le> unat hz" using assms by (simp add: word_le_nat_alt)
  then have "1193182 div unat hz \<le> 1193182 div 19" by (intro div_le_mono2) auto
  then have d: "unat ?d = 1193182 div unat hz" "1193182 div unat hz < 65536"
    by (simp_all add: PIT_FREQ_def unat_div)
  have "unat (ucast (?d AND 0xFF) :: byte) = unat ?d mod 256"
    by (simp add: mask_byte unsigned_ucast_eq take_bit_eq_mod unsigned_take_bit_eq unat_mod flip: take_bit_eq_mask)
  moreover have "unat (ucast (drop_bit 8 ?d AND 0xFF) :: byte) = unat ?d div 256 mod 256"
    by (simp add: mask_byte unsigned_ucast_eq take_bit_eq_mod unsigned_take_bit_eq unat_drop_bit_eq drop_bit_eq_div unat_mod unat_div flip: take_bit_eq_mask)
  moreover have "unat ?d div 256 mod 256 = unat ?d div 256" using d by simp
  ultimately show ?thesis
    using d assms by (auto simp: pit_init_def Let_def PIT_COMMAND_def PIT_CHANNEL0_def)
qed

end
