(* ===== verification/Idt.thy ===== *)
theory Idt
  imports Pit Keyboard
begin

text \<open>
kernel/idt.c: the gates, the setup of the interrupt controllers, the dispatch of an interrupt to the drivers, and
  the wait of pit_sleep (drivers/pit.c), which the interrupts end. lidt and the entry points of isr.asm are assembly.
\<close>

section \<open>The table\<close>

text \<open>The entry points of isr.asm, whose addresses the linker chooses.\<close>

datatype isr = isr0x20 | isr0x21 | isr0x80 | isrfault0x0D | isrfault0x0E | isr_dummy

record idt_entry =
  i_offset_low :: u16
  i_selector :: u16
  i_zero :: byte
  i_type_attr :: byte
  i_offset_high :: u16

definition idt_entry_of :: "u32 \<Rightarrow> u32 \<Rightarrow> bool \<Rightarrow> idt_entry" where
  "idt_entry_of addr dpl trap =
     \<lparr>i_offset_low = ucast (addr AND 0xFFFF), i_selector = 0x08, i_zero = 0,
      i_type_attr = ucast ((if trap then 0x8F else 0x8E) OR push_bit 5 dpl),
      i_offset_high = ucast (drop_bit 16 addr AND 0xFFFF)\<rparr>"

definition set_gate :: "nat \<Rightarrow> u32 \<Rightarrow> u32 \<Rightarrow> bool \<Rightarrow> idt_entry list \<Rightarrow> idt_entry list option" where
  "set_gate vector addr dpl trap idt = store idt vector (idt_entry_of addr dpl trap)"

fun set_gates :: "nat list \<Rightarrow> u32 \<Rightarrow> idt_entry list \<Rightarrow> idt_entry list option" where
  "set_gates [] addr idt = Some idt"
| "set_gates (i # is) addr idt = set_gate i addr 0 False idt \<bind> set_gates is addr"

text \<open>The interrupt controllers are remapped to vectors 0x20 and up; only the timer and the keyboard are let through.\<close>

definition pic_setup :: "port_write list" where
  "pic_setup =
     [Outb 0x20 0x11, Outb 0xA0 0x11, Outb 0x21 0x20, Outb 0xA1 0x28, Outb 0x21 0x04, Outb 0xA1 0x02,
      Outb 0x21 0x01, Outb 0xA1 0x01, Outb 0x21 0xFC, Outb 0xA1 0xFF]"

definition idt_init :: "(isr \<Rightarrow> u32) \<Rightarrow> u32 \<Rightarrow> idt_entry list \<Rightarrow>
    (port_write list \<times> idt_entry list \<times> (u16 \<times> u32)) option" where
  "idt_init isr_addr idt_addr idt = do {
     idt \<leftarrow> set_gates [0..<256] (isr_addr isr_dummy) idt;
     idt \<leftarrow> set_gate 0x20 (isr_addr isr0x20) 0 False idt;
     idt \<leftarrow> set_gate 0x21 (isr_addr isr0x21) 0 False idt;
     idt \<leftarrow> set_gate 0x0D (isr_addr isrfault0x0D) 0 False idt;
     idt \<leftarrow> set_gate 0x0E (isr_addr isrfault0x0E) 0 False idt;
     idt \<leftarrow> set_gate 0x80 (isr_addr isr0x80) 3 True idt;
     Some (pic_setup, idt, (8 * 256 - 1, idt_addr)) }"

section \<open>Interrupts\<close>

text \<open>The drivers an interrupt reaches. The keyboard interrupt reads the scan code waiting at port 0x60.\<close>

record devices =
  dv_kbd :: kbd
  dv_pit :: pit

record irq =
  irq_vector :: u32
  irq_scancode :: byte

definition isr_common_handler :: "irq \<Rightarrow> devices \<Rightarrow> port_write list \<times> devices" where
  "isr_common_handler q d =
     (let d = (if irq_vector q = 0x20 then d\<lparr>dv_pit := pit_handler (dv_pit d)\<rparr> else d);
          d = (if irq_vector q = 0x21 then d\<lparr>dv_kbd := keyboard_handler (irq_scancode q) (dv_kbd d)\<rparr> else d)
      in ([Outb 0x20 0x20], d))"

text \<open>
  The wait of pit_sleep: each hlt ends with the next interrupt of \<open>irqs\<close>, the ones that will arrive. With
  no more of them it waits for ever, which is \<open>None\<close>.
\<close>

fun sleep_loop :: "u32 \<Rightarrow> irq list \<Rightarrow> devices \<Rightarrow> (irq list \<times> devices) option" where
  "sleep_loop target irqs d =
     (if pt_ticks (dv_pit d) < target then
        (case irqs of [] \<Rightarrow> None | q # irqs \<Rightarrow> sleep_loop target irqs (snd (isr_common_handler q d)))
      else Some (irqs, d))"

definition pit_sleep :: "u32 \<Rightarrow> irq list \<Rightarrow> devices \<Rightarrow> (irq list \<times> devices) option" where
  "pit_sleep ms irqs d = sleep_loop (sleep_target ms (dv_pit d)) irqs d"

declare sleep_loop.simps [simp del]

section \<open>The gates\<close>

definition gate_offset :: "idt_entry \<Rightarrow> u32" where
  "gate_offset e = ucast (i_offset_low e) OR push_bit 16 (ucast (i_offset_high e))"

definition gate_dpl :: "idt_entry \<Rightarrow> nat" where
  "gate_dpl e = unat (drop_bit 5 (i_type_attr e) AND 3)"

definition gate_present :: "idt_entry \<Rightarrow> bool" where
  "gate_present e \<longleftrightarrow> bit (i_type_attr e) 7"

text \<open>A gate of type 15 leaves interrupts on, one of type 14 turns them off.\<close>

definition gate_kind :: "idt_entry \<Rightarrow> byte" where
  "gate_kind e = i_type_attr e AND 0x1F"

lemma mask_16: "(0xFFFF :: u32) = mask 16" by (simp add: mask_eq_exp_minus_1)

lemma gate_offset_of: "gate_offset (idt_entry_of addr dpl trap) = addr"
proof (rule bit_word_eqI)
  fix n assume "n < LENGTH(32)"
  then show "bit (gate_offset (idt_entry_of addr dpl trap)) n = bit addr n"
    by (auto simp: gate_offset_def idt_entry_of_def bit_or_iff bit_and_iff bit_push_bit_iff bit_drop_bit_eq
      bit_unsigned_iff bit_mask_iff possible_bit_def mask_16)
qed


lemma gate_attr_of:
  assumes "dpl = 0 \<or> dpl = 3"
  shows "gate_dpl (idt_entry_of addr dpl trap) = unat dpl" "gate_present (idt_entry_of addr dpl trap)"
    "gate_kind (idt_entry_of addr dpl trap) = (if trap then 15 else 14)" "i_selector (idt_entry_of addr dpl trap) = 8"
  using assms by (auto simp: gate_dpl_def gate_present_def gate_kind_def idt_entry_of_def)

lemma set_gates_eq:
  "(\<forall>i\<in>set is. i < length idt) \<Longrightarrow> \<exists>idt'. set_gates is addr idt = Some idt' \<and> length idt' = length idt \<and>
    (\<forall>i<length idt. idt' ! i = (if i \<in> set is then idt_entry_of addr 0 False else idt ! i))"
proof (induction "is" arbitrary: idt)
  case (Cons j js)
  let ?t = "idt[j := idt_entry_of addr 0 False]"
  have "\<forall>i\<in>set js. i < length ?t" using Cons.prems by simp
  from Cons.IH [OF this] Cons.prems show ?case
    by (auto simp: set_gate_def nth_list_update)
qed simp

text \<open>The handler of a vector.\<close>

definition handler_of :: "nat \<Rightarrow> isr" where
  "handler_of v = (if v = 0x20 then isr0x20 else if v = 0x21 then isr0x21 else if v = 0x0D then isrfault0x0D
     else if v = 0x0E then isrfault0x0E else if v = 0x80 then isr0x80 else isr_dummy)"

text \<open>After idt_init each of the 256 vectors leads to its handler in the kernel's code segment, and a program in
  ring 3 can raise no vector but the system call 0x80, the only one that leaves interrupts on.\<close>

theorem idt_init_gates:
  assumes "length idt = 256"
  shows "\<exists>idt' ptr. idt_init isr_addr idt_addr idt = Some (pic_setup, idt', ptr) \<and> length idt' = 256 \<and> ptr = (2047, idt_addr) \<and>
    (\<forall>v<256. gate_present (idt' ! v) \<and> i_selector (idt' ! v) = 8 \<and>
      gate_offset (idt' ! v) = isr_addr (handler_of v) \<and>
      (gate_dpl (idt' ! v) = 3 \<longleftrightarrow> v = 0x80) \<and> (gate_dpl (idt' ! v) = 0 \<longleftrightarrow> v \<noteq> 0x80) \<and>
      (gate_kind (idt' ! v) = 15 \<longleftrightarrow> v = 0x80))"
proof -
  obtain t where t: "set_gates [0..<256] (isr_addr isr_dummy) idt = Some t" "length t = 256"
    "\<forall>i<256. t ! i = idt_entry_of (isr_addr isr_dummy) 0 False"
    using set_gates_eq [of "[0..<256]" idt "isr_addr isr_dummy"] assms by auto
  let ?g = "\<lambda>i. idt_entry_of (isr_addr i) 0 False"
  define u where "u = t[0x20 := ?g isr0x20, 0x21 := ?g isr0x21, 0x0D := ?g isrfault0x0D,
    0x0E := ?g isrfault0x0E, 0x80 := idt_entry_of (isr_addr isr0x80) 3 True]"
  have r: "idt_init isr_addr idt_addr idt = Some (pic_setup, u, (2047, idt_addr))"
    by (simp add: idt_init_def t set_gate_def u_def)
  have u: "u ! v = idt_entry_of (isr_addr (handler_of v)) (if v = 0x80 then 3 else 0) (v = 0x80)" if "v < 256" for v
    using that t by (simp add: u_def nth_list_update handler_of_def)
  have "gate_present (u ! v) \<and> i_selector (u ! v) = 8 \<and> gate_offset (u ! v) = isr_addr (handler_of v) \<and>
      (gate_dpl (u ! v) = 3 \<longleftrightarrow> v = 0x80) \<and> (gate_dpl (u ! v) = 0 \<longleftrightarrow> v \<noteq> 0x80) \<and> (gate_kind (u ! v) = 15 \<longleftrightarrow> v = 0x80)"
    if "v < 256" for v
    unfolding u [OF that] by (simp add: gate_attr_of gate_offset_of)
  with r t(2) show ?thesis by (auto simp: u_def)
qed

theorem idt_init_gates_witness:
  "\<exists>idt' ptr. idt_init (\<lambda>i. if i = isr0x80 then 0x10000 else 0x20000) 0x5000 (replicate 256 (idt_entry_of 0 0 False)) =
      Some (pic_setup, idt', ptr) \<and> gate_dpl (idt' ! 0x80) = 3 \<and> gate_offset (idt' ! 0x80) = 0x10000 \<and> gate_dpl (idt' ! 3) = 0"
proof -
  have "length (replicate 256 (idt_entry_of 0 0 False)) = 256" by simp
  from idt_init_gates [OF this, of "\<lambda>i. if i = isr0x80 then 0x10000 else 0x20000" "0x5000"] obtain t p where
    "idt_init (\<lambda>i. if i = isr0x80 then 0x10000 else 0x20000) 0x5000 (replicate 256 (idt_entry_of 0 0 False)) = Some (pic_setup, t, p)"
    "\<forall>v<256. gate_offset (t ! v) = (if handler_of v = isr0x80 then 0x10000 else 0x20000) \<and>
      (gate_dpl (t ! v) = 3 \<longleftrightarrow> v = 0x80) \<and> (gate_dpl (t ! v) = 0 \<longleftrightarrow> v \<noteq> 0x80)" by auto
  then show ?thesis by (auto simp: handler_of_def)
qed

section \<open>Sleeping\<close>

definition timer_irqs :: "irq list \<Rightarrow> nat" where
  "timer_irqs qs = length (filter (\<lambda>q. irq_vector q = 0x20) qs)"

definition key_irqs :: "irq list \<Rightarrow> kbd \<Rightarrow> kbd" where
  "key_irqs qs k = fold (\<lambda>q k. if irq_vector q = 0x21 then keyboard_handler (irq_scancode q) k else k) qs k"

lemma sleep_loop_waits:
  assumes "unat (pt_ticks (dv_pit d)) \<le> unat target"
  shows "(case sleep_loop target irqs d of
      None \<Rightarrow> timer_irqs irqs < unat target - unat (pt_ticks (dv_pit d))
    | Some (irqs', d') \<Rightarrow> pt_ticks (dv_pit d') = target \<and> pt_hz (dv_pit d') = pt_hz (dv_pit d) \<and>
        (\<exists>used. irqs = used @ irqs' \<and> timer_irqs used = unat target - unat (pt_ticks (dv_pit d)) \<and>
          dv_kbd d' = key_irqs used (dv_kbd d) \<and> (used = [] \<or> irq_vector (last used) = 0x20)))"
  using assms
proof (induction irqs arbitrary: d)
  case Nil
  then show ?case
    by (cases "pt_ticks (dv_pit d) < target")
      (auto simp: sleep_loop.simps timer_irqs_def key_irqs_def word_less_nat_alt word_unat_eq_iff)
next
  case (Cons q qs)
  show ?case
  proof (cases "pt_ticks (dv_pit d) < target")
    case False
    then have "pt_ticks (dv_pit d) = target"
      using Cons.prems by (simp add: word_less_nat_alt word_unat_eq_iff)
    then show ?thesis by (simp add: sleep_loop.simps timer_irqs_def key_irqs_def)
  next
    case True
    let ?d = "snd (isr_common_handler q d)"
    have lt: "unat (pt_ticks (dv_pit d)) < unat target" using True by (simp add: word_less_nat_alt)
    then have "unat (pt_ticks (dv_pit d)) + 1 < 4294967296" using unat_u32_lt [of target] by linarith
    then have one: "unat (pt_ticks (dv_pit d) + 1) = unat (pt_ticks (dv_pit d)) + 1" by (simp add: unat_add_no_wrap)
    have tk: "unat (pt_ticks (dv_pit ?d)) = unat (pt_ticks (dv_pit d)) + (if irq_vector q = 0x20 then 1 else 0)"
      "pt_hz (dv_pit ?d) = pt_hz (dv_pit d)"
      by (auto simp: isr_common_handler_def pit_handler_def one)
    have le: "unat (pt_ticks (dv_pit ?d)) \<le> unat target" using lt tk by auto
    have step: "sleep_loop target (q # qs) d = sleep_loop target qs ?d" using True by (simp add: sleep_loop.simps)
    show ?thesis
    proof (cases "sleep_loop target qs ?d")
      case None
      with Cons.IH [OF le] step tk lt show ?thesis by (auto simp: timer_irqs_def split: if_splits)
    next
      case (Some r)
      obtain qs' d' where r: "r = (qs', d')" by (cases r)
      with Cons.IH [OF le] Some obtain used where u: "pt_ticks (dv_pit d') = target" "pt_hz (dv_pit d') = pt_hz (dv_pit ?d)"
        "qs = used @ qs'" "timer_irqs used = unat target - unat (pt_ticks (dv_pit ?d))"
        "used = [] \<or> irq_vector (last used) = 0x20"
        "dv_kbd d' = key_irqs used (dv_kbd ?d)" by auto
      have "timer_irqs (q # used) = unat target - unat (pt_ticks (dv_pit d))"
        using u(4) tk lt by (auto simp: timer_irqs_def)
      moreover have "irq_vector (last (q # used)) = 0x20"
        using u(4,5) tk lt by (cases "used = []") (auto simp: timer_irqs_def split: if_splits)
      moreover have "key_irqs (q # used) (dv_kbd d) = key_irqs used (dv_kbd ?d)"
        by (simp add: key_irqs_def isr_common_handler_def)
      ultimately show ?thesis using Some r u tk step by (auto intro!: exI [of _ "q # used"])
    qed
  qed
qed

text \<open>C39: pit_sleep returns exactly at the timer interrupt that completes its time: after hz * ms / 1000 of them, and it
  waits for ever when fewer come. Keys pressed meanwhile reach the keyboard driver.\<close>

theorem pit_sleep_waits:
  assumes "unat (pt_hz (dv_pit d)) * unat ms < 2 ^ 32"
    and "unat (pt_ticks (dv_pit d)) + unat (pt_hz (dv_pit d)) * unat ms div 1000 < 2 ^ 32"
  shows "(case pit_sleep ms irqs d of
      None \<Rightarrow> timer_irqs irqs < unat (pt_hz (dv_pit d)) * unat ms div 1000
    | Some (irqs', d') \<Rightarrow> unat (pt_ticks (dv_pit d')) = unat (pt_ticks (dv_pit d)) + unat (pt_hz (dv_pit d)) * unat ms div 1000 \<and>
        (\<exists>used. irqs = used @ irqs' \<and> timer_irqs used = unat (pt_hz (dv_pit d)) * unat ms div 1000 \<and>
          dv_kbd d' = key_irqs used (dv_kbd d) \<and> (used = [] \<or> irq_vector (last used) = 0x20)))"
proof -
  note t = sleep_target_eq [OF assms]
  then have "unat (pt_ticks (dv_pit d)) \<le> unat (sleep_target ms (dv_pit d))" by simp
  from sleep_loop_waits [OF this, of irqs] t show ?thesis
    by (auto simp: pit_sleep_def split: option.splits)
qed

theorem pit_sleep_waits_witness:
  "(case pit_sleep 30 (replicate 5 \<lparr>irq_vector = 0x20, irq_scancode = 0\<rparr>) \<lparr>dv_kbd = kbd_init, dv_pit = \<lparr>pt_ticks = 7, pt_hz = 100\<rparr>\<rparr> of
      None \<Rightarrow> False
    | Some (irqs', d') \<Rightarrow> unat (pt_ticks (dv_pit d')) = 10)"
  using pit_sleep_waits [of "\<lparr>dv_kbd = kbd_init, dv_pit = \<lparr>pt_ticks = 7, pt_hz = 100\<rparr>\<rparr>" 30
    "replicate 5 \<lparr>irq_vector = 0x20, irq_scancode = 0\<rparr>"]
  by (auto simp: timer_irqs_def split: option.splits)

end
