(* ===== verification/Vga.thy ===== *)
theory Vga
  imports Wm Port
begin

text \<open>
drivers/vga.c: the early console on the VGA buffer with its own cursor and block cursor, and the banner. The console is
  the terminal of kernel/wm.c with a fixed colour, which the property shows; showCursor has an empty body.
\<close>

record vga =
  v_mem :: "byte list"
  v_cursor_x :: int
  v_cursor_y :: int
  v_block_x :: int
  v_block_y :: int

definition vga_init :: "port_write list" where
  "vga_init = [Outb 0x3D4 0x0A, Outb 0x3D5 0x20]"

definition flip_cell :: "int \<Rightarrow> int \<Rightarrow> vga \<Rightarrow> vga option" where
  "flip_cell x y v =
     (let i = y * 80 + x in do { m \<leftarrow> flip_attr (v_mem v) (i * 2 + 1); Some (v\<lparr>v_mem := m\<rparr>) })"

definition block_hide :: "vga \<Rightarrow> vga option" where
  "block_hide v =
     (if v_block_y v < 0 then Some v
      else do {
        v \<leftarrow> flip_cell (v_block_x v) (v_block_y v) v;
        Some (v\<lparr>v_block_x := -1, v_block_y := -1\<rparr>) })"

definition block_show :: "vga \<Rightarrow> vga option" where
  "block_show v = do {
     v \<leftarrow> flip_cell (v_cursor_x v) (v_cursor_y v) v;
     Some (v\<lparr>v_block_x := v_cursor_x v, v_block_y := v_cursor_y v\<rparr>) }"

definition cursor_up :: "vga \<Rightarrow> vga" where
  "cursor_up v = (if v_cursor_y v > 0 then v\<lparr>v_cursor_y := v_cursor_y v - 1\<rparr> else v)"

definition cursor_down :: "vga \<Rightarrow> vga" where
  "cursor_down v = (if v_cursor_y v < 24 then v\<lparr>v_cursor_y := v_cursor_y v + 1\<rparr> else v)"

definition cursor_left :: "vga \<Rightarrow> vga" where
  "cursor_left v = (if v_cursor_x v > 0 then v\<lparr>v_cursor_x := v_cursor_x v - 1\<rparr> else v)"

definition cursor_right :: "vga \<Rightarrow> vga" where
  "cursor_right v = (if v_cursor_x v < 79 then v\<lparr>v_cursor_x := v_cursor_x v + 1\<rparr> else v)"

definition vga_scroll :: "vga \<Rightarrow> vga option" where
  "vga_scroll v = do {
     m \<leftarrow> scroll_copy (v_mem v) 0 (24 * 80 * 2);
     m \<leftarrow> fill_cells m 0x0f (24 * 80 * 2) 80;
     Some (v\<lparr>v_mem := m, v_cursor_y := 24\<rparr>) }"

definition vga_putchar :: "byte \<Rightarrow> byte \<Rightarrow> vga \<Rightarrow> vga option" where
  "vga_putchar c color v = do {
     v \<leftarrow> (if c = 10 then Some (v\<lparr>v_cursor_x := 0, v_cursor_y := v_cursor_y v + 1\<rparr>)
           else (let index = v_cursor_y v * 80 + v_cursor_x v in do {
             m \<leftarrow> storei (v_mem v) (index * 2) c;
             m \<leftarrow> storei m (index * 2 + 1) color;
             let x = v_cursor_x v + 1;
             Some (if x \<ge> 80 then v\<lparr>v_mem := m, v_cursor_x := 0, v_cursor_y := v_cursor_y v + 1\<rparr>
                   else v\<lparr>v_mem := m, v_cursor_x := x\<rparr>) }));
     if v_cursor_y v > 24 then vga_scroll v else Some v }"

definition vga_putchar_at :: "byte \<Rightarrow> int \<Rightarrow> int \<Rightarrow> byte \<Rightarrow> vga \<Rightarrow> vga option" where
  "vga_putchar_at c x y color v =
     (if c \<noteq> 10 then
        (let index = y * 80 + x in do {
           m \<leftarrow> storei (v_mem v) (index * 2) c;
           m \<leftarrow> storei m (index * 2 + 1) color;
           Some (v\<lparr>v_mem := m\<rparr>) })
      else Some v)"

definition vga_clear :: "byte \<Rightarrow> vga \<Rightarrow> vga option" where
  "vga_clear color v = do {
     m \<leftarrow> fill_cells (v_mem v) color 0 (80 * 25);
     Some (v\<lparr>v_mem := m, v_cursor_x := 0, v_cursor_y := 0\<rparr>) }"

fun vga_print :: "byte list \<Rightarrow> byte \<Rightarrow> vga \<Rightarrow> vga option" where
  "vga_print [] color v = None"
| "vga_print (c # s) color v =
     (if c = 0 then Some v else do { v \<leftarrow> vga_putchar c color v; vga_print s color v })"

definition bkspc :: "vga \<Rightarrow> vga option" where
  "bkspc v =
     (if v_cursor_x v = 0 \<and> v_cursor_y v = 0 then Some v
      else (let v = (if v_cursor_x v > 0 then v\<lparr>v_cursor_x := v_cursor_x v - 1\<rparr>
                     else v\<lparr>v_cursor_y := v_cursor_y v - 1, v_cursor_x := 79\<rparr>);
                index = v_cursor_y v * 80 + v_cursor_x v
            in do {
              attr \<leftarrow> loadi (v_mem v) (index * 2 + 1);
              vga_putchar_at 32 (v_cursor_x v) (v_cursor_y v) attr v }))"

text \<open>The banner goes to the current terminal.\<close>

definition banner :: "byte list list" where
  "banner =
     [asc ''   __                      _      ____  ____'' @ [10] @ [0],
      asc ''  / /  __ _____  ___ _____(_)__ _/ __ '' @ [92] @ asc ''/ __/'' @ [10] @ [0],
      asc '' / /__/ // / _ '' @ [92] @ asc ''/ _ '' @ [96] @ asc ''/ __/ / _ '' @ [96] @ asc ''/ /_/ /'' @ [92] @ asc '' '' @ [92] @ asc ''  '' @ [10] @ [0],
      asc ''/____/'' @ [92] @ asc ''_,_/_//_/'' @ [92] @ asc ''_,_/_/ /_/'' @ [92] @ asc ''_,_/'' @ [92] @ asc ''____/___/  '' @ [10] @ [0]]"

fun print_lines :: "byte list list \<Rightarrow> byte \<Rightarrow> terminal \<Rightarrow> terminal option" where
  "print_lines [] color t = Some t"
| "print_lines (s # ss) color t = do { t \<leftarrow> term_print_color t s color; print_lines ss color t }"

definition print_banner :: "byte \<Rightarrow> terminal \<Rightarrow> terminal option" where
  "print_banner color t = print_lines banner (VGA_COLOR 0 color) t"

section \<open>The console and the terminals\<close>

text \<open>The console as a terminal: the early output routines and those of the window manager are the same code on
  different state, the console's colour being the fixed 0x0f.\<close>

definition as_term :: "terminal \<Rightarrow> vga \<Rightarrow> terminal" where
  "as_term t v = t\<lparr>t_cells := v_mem v, t_cursor_x := v_cursor_x v, t_cursor_y := v_cursor_y v, t_color := 0x0f\<rparr>"

lemma as_term_simps [simp]:
  "t_cells (as_term t v) = v_mem v" "t_cursor_x (as_term t v) = v_cursor_x v" "t_cursor_y (as_term t v) = v_cursor_y v"
  "t_color (as_term t v) = 0x0f"
  "as_term t v\<lparr>t_cells := m\<rparr> = as_term t (v\<lparr>v_mem := m\<rparr>)"
  "as_term t v\<lparr>t_cursor_x := i\<rparr> = as_term t (v\<lparr>v_cursor_x := i\<rparr>)"
  "as_term t v\<lparr>t_cursor_y := i\<rparr> = as_term t (v\<lparr>v_cursor_y := i\<rparr>)"
  by (simp_all add: as_term_def)

lemma swap_updates:
  "v\<lparr>v_cursor_x := i, v_mem := m\<rparr> = v\<lparr>v_mem := m, v_cursor_x := i\<rparr>"
  "v\<lparr>v_cursor_y := i, v_cursor_x := j\<rparr> = v\<lparr>v_cursor_x := j, v_cursor_y := i\<rparr>"
  by simp_all

lemma scroll_term: "term_scroll (as_term t v) = map_option (as_term t) (vga_scroll v)"
  by (auto simp: term_scroll_def vga_scroll_def split: bind_splits)

lemma putchar_term: "term_putchar (as_term t v) c color = map_option (as_term t) (vga_putchar c color v)"
  by (auto simp: term_putchar_def vga_putchar_def Let_def scroll_term simp del: mult_Suc split: bind_splits)

lemma putchar_at_term: "term_putchar_at (as_term t v) c x y color = map_option (as_term t) (vga_putchar_at c x y color v)"
  by (auto simp: term_putchar_at_def vga_putchar_at_def Let_def split: bind_splits)

lemma print_term: "term_print_color (as_term t v) s color = map_option (as_term t) (vga_print s color v)"
  by (induction s arbitrary: v) (auto simp: putchar_term split: bind_splits)

lemma clear_term: "term_clear (as_term t v) = map_option (as_term t) (vga_clear 0x0f v)"
  by (auto simp: term_clear_def vga_clear_def split: bind_splits)

lemma cursor_term:
  "term_cursor_up (as_term t v) = as_term t (cursor_up v)" "term_cursor_down (as_term t v) = as_term t (cursor_down v)"
  "term_cursor_left (as_term t v) = as_term t (cursor_left v)" "term_cursor_right (as_term t v) = as_term t (cursor_right v)"
  by (simp_all add: term_cursor_up_def term_cursor_down_def term_cursor_left_def term_cursor_right_def
    cursor_up_def cursor_down_def cursor_left_def cursor_right_def)


lemma term_okE:
  assumes "term_ok (as_term t v)"
  shows "length (v_mem v) = 4000" "0 \<le> v_cursor_x v" "v_cursor_x v < 80" "0 \<le> v_cursor_y v" "v_cursor_y v < 25"
  using assms by (simp_all add: term_ok_def)

text \<open>The console rewrites the attribute that the terminal leaves alone.\<close>

lemma erase_cell:
  assumes "length m = 4000" and "0 \<le> x" "x < 80" "0 \<le> y" "y < 25"
  defines "i \<equiv> y * 80 + x"
  shows "loadi m (i * 2 + 1) = Some (m ! nat (i * 2 + 1))"
    and "storei m (i * 2) c = Some (m[nat (i * 2) := c])"
    and "storei (m[nat (i * 2) := c]) (i * 2 + 1) (m ! nat (i * 2 + 1)) = Some (m[nat (i * 2) := c])"
proof -
  have i: "0 \<le> i" "i < 2000" using assms unfolding i_def by auto
  with assms(1) show "loadi m (i * 2 + 1) = Some (m ! nat (i * 2 + 1))" "storei m (i * 2) c = Some (m[nat (i * 2) := c])"
    by (simp_all add: loadi_Some storei_Some)
  let ?m = "m[nat (i * 2) := c]"
  have "nat (i * 2) \<noteq> nat (i * 2 + 1)" using i by arith
  then have "?m[nat (i * 2 + 1) := m ! nat (i * 2 + 1)] = ?m"
    by (metis list_update_id nth_list_update_neq)
  then show "storei ?m (i * 2 + 1) (m ! nat (i * 2 + 1)) = Some ?m"
    using i assms(1) by (simp add: storei_Some)
qed

lemma bkspc_term:
  assumes "term_ok (as_term t v)"
  shows "term_backspace (as_term t v) = map_option (as_term t) (bkspc v)"
proof (cases "v_cursor_x v = 0 \<and> v_cursor_y v = 0")
  case True
  then show ?thesis by (simp add: term_backspace_def bkspc_def)
next
  case False
  define x where "x = (if v_cursor_x v > 0 then v_cursor_x v - 1 else 79)"
  define y where "y = (if v_cursor_x v > 0 then v_cursor_y v else v_cursor_y v - 1)"
  let ?v = "v\<lparr>v_cursor_x := x, v_cursor_y := y\<rparr>"
  have v: "(if v_cursor_x v > 0 then v\<lparr>v_cursor_x := v_cursor_x v - 1\<rparr>
      else v\<lparr>v_cursor_y := v_cursor_y v - 1, v_cursor_x := 79\<rparr>) = ?v"
    by (simp add: x_def y_def)
  have t: "(if v_cursor_x v > 0 then as_term t v\<lparr>t_cursor_x := v_cursor_x v - 1\<rparr>
      else as_term t v\<lparr>t_cursor_y := v_cursor_y v - 1, t_cursor_x := 79\<rparr>) = as_term t ?v"
    by (simp add: x_def y_def swap_updates)
  have xy: "0 \<le> x" "x < 80" "0 \<le> y" "y < 25"
    using term_okE [OF assms] False by (auto simp: x_def y_def)
  note e = erase_cell [OF term_okE(1) [OF assms] xy]
  have "bkspc v = Some (?v\<lparr>v_mem := (v_mem v)[nat ((y * 80 + x) * 2) := 32]\<rparr>)"
    using False e unfolding bkspc_def v vga_putchar_at_def by (auto simp: Let_def)
  moreover have "term_backspace (as_term t v) = Some (as_term t (?v\<lparr>v_mem := (v_mem v)[nat ((y * 80 + x) * 2) := 32]\<rparr>))"
    using False e unfolding term_backspace_def as_term_simps(1-4) t by (auto simp: Let_def)
  ultimately show ?thesis by simp
qed

section \<open>The block cursor\<close>

lemma swap_attr_twice: "swap_attr (swap_attr a) = a"
proof (rule bit_word_eqI)
  fix n assume "n < LENGTH(8)"
  moreover have "4 + (n - 4) = n \<or> n < 4" by auto
  ultimately show "bit (swap_attr (swap_attr a)) n = bit a n"
    by (auto simp: swap_attr_def bit_or_iff bit_drop_bit_eq bit_push_bit_iff possible_bit_def)
qed

lemma block_show_hide:
  assumes "term_ok (as_term t v)"
  shows "\<exists>v'. block_show v = Some v' \<and> block_hide v' = Some (v\<lparr>v_block_x := -1, v_block_y := -1\<rparr>)"
proof -
  obtain i where i: "i = (v_cursor_y v * 80 + v_cursor_x v) * 2 + 1" by blast
  note b = term_okE [OF assms]
  then have "0 \<le> i" "nat i < length (v_mem v)" unfolding i by auto
  then show ?thesis using b
    by (simp add: block_show_def block_hide_def flip_cell_def Let_def flip_attr_eq swap_attr_twice flip: i)
qed

section \<open>Sequences of operations\<close>

text \<open>The operations of a terminal (Wm.thy) on the console, which clears to its fixed colour.\<close>

fun console_apply :: "term_op \<Rightarrow> vga \<Rightarrow> vga option" where
  "console_apply (Put c color) v = vga_putchar c color v"
| "console_apply (PutAt c x y color) v = vga_putchar_at c x y color v"
| "console_apply Clear v = vga_clear 0x0f v"
| "console_apply (Print s color) v = vga_print (s @ [0]) color v"
| "console_apply Backspace v = bkspc v"
| "console_apply Up v = Some (cursor_up v)"
| "console_apply Down v = Some (cursor_down v)"
| "console_apply Left v = Some (cursor_left v)"
| "console_apply Right v = Some (cursor_right v)"

fun console_run :: "term_op list \<Rightarrow> vga \<Rightarrow> vga option" where
  "console_run [] v = Some v"
| "console_run (a # as) v = do { v \<leftarrow> console_apply a v; console_run as v }"

lemma console_apply_term:
  "term_ok (as_term t v) \<Longrightarrow> term_apply a (as_term t v) = map_option (as_term t) (console_apply a v)"
  by (cases a) (simp_all add: putchar_term putchar_at_term print_term clear_term bkspc_term cursor_term)

lemma console_run_term:
  "term_ok (as_term t v) \<Longrightarrow> list_all term_op_ok as \<Longrightarrow>
    \<exists>v'. console_run as v = Some v' \<and> term_run as (as_term t v) = Some (as_term t v') \<and> term_ok (as_term t v')"
proof (induction as arbitrary: v)
  case (Cons a as)
  then obtain t1 where t1: "term_apply a (as_term t v) = Some t1" "term_ok t1"
    using term_apply_ok [of "as_term t v" a] by auto
  then obtain v1 where "console_apply a v = Some v1" "t1 = as_term t v1"
    using console_apply_term [OF Cons.prems(1), of a] by auto
  with Cons t1 show ?case by fastforce
qed simp

text \<open>C40: The early console and a terminal of colour 0x0f behave the same: every sequence of operations that draw inside the
  screen ends on both with the same cells and the same cursor, and never leaves the 4000 bytes of the screen.\<close>

theorem console_is_terminal:
  assumes "term_ok (as_term t v)" and "list_all term_op_ok as"
  shows "\<exists>v'. console_run as v = Some v' \<and> term_run as (as_term t v) = Some (as_term t v') \<and>
    length (v_mem v') = 4000 \<and> 0 \<le> v_cursor_x v' \<and> v_cursor_x v' < 80 \<and> 0 \<le> v_cursor_y v' \<and> v_cursor_y v' < 25"
  using console_run_term [OF assms] term_okE by blast

theorem console_is_terminal_witness:
  "\<exists>v'. console_run [Print (asc ''hi'') 15, Backspace, PutAt 33 79 24 12, Clear, Put 65 9]
      \<lparr>v_mem = replicate 4000 0, v_cursor_x = 79, v_cursor_y = 24, v_block_x = -1, v_block_y = -1\<rparr> = Some v' \<and>
    length (v_mem v') = 4000"
  using console_is_terminal [of term_blank
      "\<lparr>v_mem = replicate 4000 0, v_cursor_x = 79, v_cursor_y = 24, v_block_x = -1, v_block_y = -1\<rparr>"
      "[Print (asc ''hi'') 15, Backspace, PutAt 33 79 24 12, Clear, Put 65 9]"]
  by (auto simp: term_ok_def as_term_def term_blank_def TERM_BUF_SIZE_def nul_free_def of_char_def)

end
