(* ===== verification/Shell.thy ===== *)
theory Shell
  imports SyscallSpec Idt Vga
begin

text \<open>
kernel/shell.c, the machine the shell works on and its commands. A command may return, enter a program or stop the
  machine; a local array is a list, checked at every access.
\<close>


text \<open>The machine as the shell uses it, with the interrupts that will still arrive while it waits.\<close>

record 'd shell =
  sh_sys :: "'d sys"
  sh_pit :: pit
  sh_irqs :: "irq list"

text \<open>
  How a command ends: it returns, it enters a user program at eip with the stack esp and the memory that the
  program sees, or it stops the machine after some port writes.
\<close>

datatype 'd cmd_end = Back "'d shell" | Entered u32 u32 umem "'d shell" | Stopped "port_write list" "'d shell"

definition on_sys :: "('d sys \<Rightarrow> 'd sys option) \<Rightarrow> 'd shell \<Rightarrow> 'd shell option" where
  "on_sys f s = do { y \<leftarrow> f (sh_sys s); Some (s\<lparr>sh_sys := y\<rparr>) }"

text \<open>\<open>term_print_color(wm_current(), str, VGA_COLOR(BLACK, fg))\<close>, and a change of the current terminal.\<close>

definition on_term :: "(terminal \<Rightarrow> terminal option) \<Rightarrow> 'd shell \<Rightarrow> 'd shell option" where
  "on_term f = on_sys (with_term f)"

definition say :: "byte \<Rightarrow> byte list \<Rightarrow> 'd shell \<Rightarrow> 'd shell option" where
  "say fg str = on_term (\<lambda>t. term_print_color t str (VGA_COLOR 0 fg))"

definition on_dev :: "(superblock \<Rightarrow> 'd \<Rightarrow> ('r \<times> 'd) option) \<Rightarrow> 'd shell \<Rightarrow> ('r \<times> 'd shell) option" where
  "on_dev f s = (let y = sh_sys s; fs = sy_fs y in do {
     (r, d) \<leftarrow> f (fs_sb fs) (fs_dev fs);
     Some (r, s\<lparr>sh_sys := y\<lparr>sy_fs := fs\<lparr>fs_dev := d\<rparr>\<rparr>\<rparr>) })"

text \<open>A file system call that prints to the current terminal.\<close>

definition on_dev_term :: "(superblock \<Rightarrow> 'd \<Rightarrow> terminal \<Rightarrow> (int \<times> 'd \<times> terminal) option) \<Rightarrow>
    'd shell \<Rightarrow> (int \<times> 'd shell) option" where
  "on_dev_term f s = do {
     t \<leftarrow> wm_current (sy_wm (sh_sys s));
     ((r, t), s) \<leftarrow> on_dev (\<lambda>sb d. do { (r, d, t) \<leftarrow> f sb d t; Some ((r, t), d) }) s;
     s \<leftarrow> on_term (\<lambda>_. Some t) s;
     Some (r, s) }"

section \<open>Commands\<close>

text \<open>A command takes its arguments, each a string with its NUL and what follows in the line buffer.\<close>

type_synonym 'd command = "byte list list \<Rightarrow> 'd shell \<Rightarrow> 'd cmd_end option"

definition returned :: "'d shell option \<Rightarrow> 'd cmd_end option" where
  "returned r = map_option Back r"

definition help_text :: "byte list" where
  "help_text = concat (map (\<lambda>s. asc s @ [10])
     [''Available Commands:'', ''  help'', ''  clear'', ''  echo'', ''  read'', ''  ls'', ''  cat'', ''  rm'', ''  mkdir'',
      ''  run'', ''  uptime'', ''  sleep'', ''  halt'', ''  exit'']) @ [0]"

definition cmd_help :: "'d command" where
  "cmd_help argv s = returned (say 15 help_text s)"

definition cmd_clear :: "'d command" where
  "cmd_clear argv s = returned (on_term (\<lambda>t. do { t \<leftarrow> term_clear t; Some (t\<lparr>t_prompt := False\<rparr>) }) s)"

fun echo_args :: "bool \<Rightarrow> byte list list \<Rightarrow> 'd shell \<Rightarrow> 'd shell option" where
  "echo_args first [] s = Some s"
| "echo_args first (a # as) s = do {
     s \<leftarrow> (if \<not> first then say 15 (lit '' '') s else Some s);
     s \<leftarrow> say 15 a s;
     echo_args False as s }"

definition cmd_echo :: "'d command" where
  "cmd_echo argv s =
     (if length argv \<ge> 2 then returned (do { s \<leftarrow> echo_args True (tl argv) s; say 15 (litln '''') s }) else Some (Back s))"

fun mkdir_args :: "'d disk \<Rightarrow> byte list list \<Rightarrow> 'd shell \<Rightarrow> 'd shell option" where
  "mkdir_args dk [] s = Some s"
| "mkdir_args dk (a # as) s = do {
     (r, s) \<leftarrow> on_dev (\<lambda>sb. fs_mkdir dk sb a) s;
     s \<leftarrow> (if r \<noteq> 0 then do { s \<leftarrow> say 4 (lit ''mkdir: failed:'') s; s \<leftarrow> say 4 a s; say 4 (litln '''') s } else Some s);
     mkdir_args dk as s }"

definition cmd_mkdir :: "'d disk \<Rightarrow> 'd command" where
  "cmd_mkdir dk argv s = (if length argv \<ge> 2 then returned (mkdir_args dk (tl argv) s) else Some (Back s))"

definition cmd_uptime :: "'d command" where
  "cmd_uptime argv s = returned (do {
     secs \<leftarrow> pit_uptime_sec (sh_pit s);
     buf \<leftarrow> itoa secs (replicate 12 0);
     s \<leftarrow> say 15 (lit ''uptime: '') s;
     s \<leftarrow> say 14 buf s;
     say 15 (litln '' seconds'') s })"

text \<open>A number in yellow and a text behind it.\<close>

definition say_number :: "u32 \<Rightarrow> byte list \<Rightarrow> 'd shell \<Rightarrow> 'd shell option" where
  "say_number n unit s = do { buf \<leftarrow> itoa n (replicate 12 0); s \<leftarrow> say 14 buf s; say 15 unit s }"

definition cmd_free :: "'d command" where
  "cmd_free argv s = returned (do {
     let m = sy_mem (sh_sys s);
     let total_f = memory_total_frames m;
     let free_f = memory_free_frames m;
     s \<leftarrow> say 15 (lit ''  total  '') s;
     s \<leftarrow> say_number (memory_total_kb m) (litln '' KB'') s;
     s \<leftarrow> say 15 (lit ''  frames '') s;
     s \<leftarrow> say_number total_f (lit '' total, '') s;
     s \<leftarrow> say_number free_f (lit '' free, '') s;
     s \<leftarrow> say_number (total_f - free_f) (litln '' used'') s;
     s \<leftarrow> say 15 (lit ''  heap   '') s;
     s \<leftarrow> say_number (free_f * 4 div 1024) (litln '' KB free'') s;
     s \<leftarrow> say 15 (lit ''  ring3  '') s;
     s \<leftarrow> say 3 (lit ''0x400000-0x800000 on demand, '') s;
     say_number (vm_faults m) (litln '' faults served'') s })"

definition cmd_sleep :: "'d command" where
  "cmd_sleep argv s =
     (if length argv > 1 then do {
        ms \<leftarrow> atoi (argv ! 1);
        (irqs, d) \<leftarrow> pit_sleep ms (sh_irqs s) \<lparr>dv_kbd = sy_kbd (sh_sys s), dv_pit = sh_pit s\<rparr>;
        Some (Back (s\<lparr>sh_irqs := irqs, sh_pit := dv_pit d, sh_sys := (sh_sys s)\<lparr>sy_kbd := dv_kbd d\<rparr>\<rparr>)) }
      else Some (Back s))"

definition cmd_read :: "'d disk \<Rightarrow> 'd command" where
  "cmd_read dk argv s =
     (if length argv < 2 then returned (say 4 (litln ''usage: read <lba>'') s)
      else do {
        lba \<leftarrow> atoi (argv ! 1);
        (r, s) \<leftarrow> on_dev (\<lambda>sb d. Some (dk_read dk lba d)) s;
        returned (case r of
            Some sector \<Rightarrow> do { s \<leftarrow> say 15 (sector @ [0]) s; say 15 (litln '''') s }
          | None \<Rightarrow> say 4 (litln ''read failed'') s) })"

definition cmd_halt :: "'d command" where
  "cmd_halt argv s = Some (Stopped [] s)"

definition cmd_exit :: "'d command" where
  "cmd_exit argv s = Some (Stopped [Outw 0x604 0x2000] s)"

definition cmd_ls :: "'d disk \<Rightarrow> 'd command" where
  "cmd_ls dk argv s = returned
     (if length argv \<ge> 2 then do {
        (r, s) \<leftarrow> on_dev_term (\<lambda>sb. fs_ls dk sb (Some (argv ! 1))) s;
        if r \<noteq> 0 then say 4 (litln ''ls: not found'') s else Some s }
      else do { (r, s) \<leftarrow> on_dev_term (\<lambda>sb. fs_ls dk sb (Some [0])) s; Some s })"

definition cmd_banner :: "'d command" where
  "cmd_banner argv s = (if length argv = 1 then returned (on_term (print_banner 2) s) else Some (Back s))"

definition cmd_cat :: "'d disk \<Rightarrow> 'd command" where
  "cmd_cat dk argv s = returned
     (if length argv < 2 then say 4 (litln ''usage: cat <file>'') s
      else do {
        (r, s) \<leftarrow> on_dev_term (\<lambda>sb. fs_cat dk sb (argv ! 1)) s;
        if r \<noteq> 0 then say 4 (litln ''cat: not found'') s else Some s })"

definition cmd_rm :: "'d disk \<Rightarrow> 'd command" where
  "cmd_rm dk argv s = returned
     (if length argv < 2 then say 4 (litln ''usage: rm <file>'') s
      else do {
        (r, s) \<leftarrow> on_dev (\<lambda>sb. fs_delete dk sb (argv ! 1)) s;
        if r \<noteq> 0 then say 4 (litln ''rm: not found'') s else Some s })"

end
