(* ===== verification/Loader.thy ===== *)
theory Loader
  imports Shell
begin

text \<open>
kernel/shell.c, the loader: the image of a program is read into a fresh address space, its arguments go to the top of
  its stack, and the processor enters it; the two formats are a plain image and the header of the on-board compiler.
\<close>

definition MAX_ARGS :: nat where "MAX_ARGS = 16"
definition USER_PROG_MAX :: u32 where "USER_PROG_MAX = 0x200000"
definition TCC_FLAT_MAGIC :: "byte list" where "TCC_FLAT_MAGIC = asc ''LUNB''"
definition TCC_FLAT_BASE :: u32 where "TCC_FLAT_BASE = 0x680000"
definition TCC_FLAT_MAX :: u32 where "TCC_FLAT_MAX = 0x10000"

section \<open>Running a program\<close>

text \<open>The strings of the arguments, downwards from the top of the stack, with the address of each.\<close>

fun push_strings :: "byte list list \<Rightarrow> u32 \<Rightarrow> umem \<Rightarrow> (u32 list \<times> u32 \<times> umem) option" where
  "push_strings [] sp u = Some ([], sp, u)"
| "push_strings (a # as) sp u = do {
     n \<leftarrow> strlen a;
     let len = of_nat n + 1;
     let sp = sp - len;
     let u = put_region u sp (take (unat len) a);
     (ptrs, sp', u) \<leftarrow> push_strings as sp u;
     Some (sp # ptrs, sp', u) }"

fun push_words :: "u32 \<Rightarrow> u32 list \<Rightarrow> umem \<Rightarrow> umem" where
  "push_words p [] u = u"
| "push_words p (v # vs) u = push_words (p + 4) vs (put32 p v u)"

definition build_user_args :: "byte list list \<Rightarrow> umem \<Rightarrow> (u32 \<times> umem) option" where
  "build_user_args argv u = do {
     let argv = take MAX_ARGS argv;
     let argc = of_nat (length argv);
     (ptrs, sp, u) \<leftarrow> push_strings argv USER_STACK u;
     let sp = sp AND NOT 3;
     let sp = sp - (argc + 1) * 4;
     let argv_ptr = sp;
     let u = push_words sp (ptrs @ [0]) u;
     let sp = sp - 4;
     let u = put32 sp 0 u;
     let sp = sp - 12;
     Some (sp, push_words sp [0, argc, argv_ptr] u) }"

definition rd32_le :: "umem \<Rightarrow> u32 \<Rightarrow> u32" where
  "rd32_le u p = ucast (u p) OR push_bit 8 (ucast (u (p + 1))) OR push_bit 16 (ucast (u (p + 2))) OR push_bit 24 (ucast (u (p + 3)))"

text \<open>
  A new process sees zeros: its pages are zeroed when it first touches them. The kernel's own accesses to the
  window go through the same page faults, which fault_handler serves before the access (Syscall.thy).
\<close>

definition fresh_user :: umem where
  "fresh_user = (\<lambda>_. 0)"

definition on_mem :: "(mem \<Rightarrow> mem) \<Rightarrow> 'd shell \<Rightarrow> 'd shell" where
  "on_mem f s = s\<lparr>sh_sys := (sh_sys s)\<lparr>sy_mem := f (sy_mem (sh_sys s))\<rparr>\<rparr>"

definition detach :: "'d shell \<Rightarrow> 'd shell option" where
  "detach s = do { m \<leftarrow> vm_detach (sy_mem (sh_sys s)); Some (on_mem (\<lambda>_. m) s) }"

definition enter_program :: "u32 \<Rightarrow> u32 \<Rightarrow> byte list list \<Rightarrow> umem \<Rightarrow> 'd shell \<Rightarrow> 'd cmd_end option" where
  "enter_program note eip argv u s = do {
     s \<leftarrow> on_term (\<lambda>t. Some (t\<lparr>t_prompt := False\<rparr>)) (on_mem (vm_note_load note) s);
     let s = s\<lparr>sh_sys := (sh_sys s)\<lparr>sy_kbd := kbd_flush (sy_kbd (sh_sys s))\<rparr>\<rparr>;
     (esp, u) \<leftarrow> build_user_args argv u;
     Some (Entered eip esp u s) }"

definition refuse :: "string \<Rightarrow> 'd shell \<Rightarrow> 'd cmd_end option" where
  "refuse why s = returned (do { s \<leftarrow> say 4 (litln why) s; detach s })"

text \<open>What follows a successful read of \<open>n\<close> bytes to USER_BASE.\<close>

definition start_image :: "u32 \<Rightarrow> byte list list \<Rightarrow> umem \<Rightarrow> 'd shell \<Rightarrow> 'd cmd_end option" where
  "start_image n argv u s =
     (if 12 \<le> sint n \<and> region u USER_BASE 4 = TCC_FLAT_MAGIC then
        (let fsize = rd32_le u (USER_BASE + 4);
             fentry = rd32_le u (USER_BASE + 8)
         in if fsize > n - 12 \<or> fsize + 12 > TCC_FLAT_MAX \<or> TCC_FLAT_BASE + fsize > USER_STACK \<or> fentry \<ge> fsize
            then refuse ''run: bad flat binary'' s
            else enter_program ((TCC_FLAT_BASE - USER_BASE) + fsize) (TCC_FLAT_BASE + fentry) argv
              (put_region u TCC_FLAT_BASE (region u (USER_BASE + 12) (unat fsize))) s)
      else enter_program n USER_BASE argv u s)"

definition shell_run_program :: "'d disk \<Rightarrow> byte list \<Rightarrow> byte list list \<Rightarrow> 'd shell \<Rightarrow> 'd cmd_end option" where
  "shell_run_program dk name argv s = do {
     (dir, m) \<leftarrow> vm_create (sy_mem (sh_sys s));
     let s = on_mem (\<lambda>_. m) s;
     if dir = 0 then returned (say 4 (litln ''run: out of memory'') s)
     else do {
       let s = on_mem (vm_attach dir) s;
       ((r, img), s) \<leftarrow> on_dev (\<lambda>sb d. do {
          (r, img, d) \<leftarrow> fs_read dk sb name (region fresh_user USER_BASE (unat USER_PROG_MAX)) USER_PROG_MAX d;
          Some ((r, img), d) }) s;
       if r < 0 then refuse ''run: not found or too big'' s
       else start_image (of_int r) argv (put_region fresh_user USER_BASE img) s } }"

definition cmd_run :: "'d disk \<Rightarrow> 'd command" where
  "cmd_run dk argv s =
     (if length argv < 2 then returned (say 4 (litln ''usage: run <file> [args...]'') s)
      else shell_run_program dk (argv ! 1) (tl argv) s)"

end
