(* ===== verification/ShellRun.thy ===== *)
theory ShellRun
  imports Loader
begin

text \<open>
kernel/shell.c, the command line: its parser and redirection, the table of commands, the line editor on the ten
  workspaces, and the loop over the keys.
\<close>

definition CMD_BUF_SIZE :: nat where "CMD_BUF_SIZE = 128"

section \<open>The command line\<close>

definition commands :: "'d disk \<Rightarrow> (byte list \<times> 'd command) list" where
  "commands dk =
     [(lit ''help'', cmd_help), (lit ''clear'', cmd_clear), (lit ''echo'', cmd_echo), (lit ''read'', cmd_read dk),
      (lit ''exit'', cmd_exit), (lit ''halt'', cmd_halt), (lit ''ls'', cmd_ls dk), (lit ''cat'', cmd_cat dk),
      (lit ''rm'', cmd_rm dk), (lit ''mkdir'', cmd_mkdir dk), (lit ''run'', cmd_run dk), (lit ''uptime'', cmd_uptime),
      (lit ''sleep'', cmd_sleep), (lit ''banner'', cmd_banner), (lit ''free'', cmd_free)]"

text \<open>parse_line works in the line buffer: an argument is an index into it.\<close>

function skip_blanks :: "byte list \<Rightarrow> nat \<Rightarrow> nat option" where
  "skip_blanks line p = do { c \<leftarrow> load line p; if c = 32 then skip_blanks line (Suc p) else Some p }"
  by pat_completeness auto
termination by (relation "measure (\<lambda>(line, p). length line - p)") (auto simp: load_def split: if_splits)

function skip_word :: "byte list \<Rightarrow> nat \<Rightarrow> nat option" where
  "skip_word line p = do { c \<leftarrow> load line p; if c \<noteq> 0 \<and> c \<noteq> 32 then skip_word line (Suc p) else Some p }"
  by pat_completeness auto
termination by (relation "measure (\<lambda>(line, p). length line - p)") (auto simp: load_def split: if_splits)

function parse_loop :: "byte list \<Rightarrow> nat \<Rightarrow> nat list \<Rightarrow> (nat list \<times> byte list) option" where
  "parse_loop line p argv = do {
     c \<leftarrow> load line p;
     if c \<noteq> 0 \<and> length argv < MAX_ARGS then do {
       p \<leftarrow> skip_blanks line p;
       c \<leftarrow> load line p;
       if c = 0 then Some (argv, line)
       else do {
         q \<leftarrow> skip_word line p;
         c \<leftarrow> load line q;
         if c \<noteq> 0 then parse_loop (line[q := 0]) (Suc q) (argv @ [p]) else parse_loop line q (argv @ [p]) } }
     else Some (argv, line) }"
  by pat_completeness auto
termination by (relation "measure (\<lambda>(line, p, argv). MAX_ARGS - length argv)") auto

declare skip_blanks.simps [simp del] skip_word.simps [simp del] parse_loop.simps [simp del]

definition parse_line :: "byte list \<Rightarrow> (nat list \<times> byte list) option" where
  "parse_line line = parse_loop line 0 []"

text \<open>The text of a redirection: the arguments with their escapes, into a local array of CMD_BUF_SIZE bytes.\<close>

fun put_arg :: "byte list \<Rightarrow> byte list \<times> nat \<Rightarrow> (byte list \<times> nat) option" where
  "put_arg [] st = None"
| "put_arg (c # s) (content, len) =
     (if c = 0 then Some (content, len)
      else do {
        e \<leftarrow> (if c = 92 then load s 0 else Some 0);
        if c = 92 \<and> e \<noteq> 0 then
          (if e = 110 \<or> e = 116 \<or> e = 92 then do {
             content \<leftarrow> store content len (if e = 110 then 10 else if e = 116 then 9 else 92);
             put_arg (tl s) (content, len + 1) }
           else do {
             content \<leftarrow> store content len 92;
             content \<leftarrow> store content (len + 1) e;
             put_arg (tl s) (content, len + 2) })
        else do {
          content \<leftarrow> store content len c;
          put_arg s (content, len + 1) } })"

fun put_args :: "bool \<Rightarrow> byte list list \<Rightarrow> byte list \<times> nat \<Rightarrow> (byte list \<times> nat) option" where
  "put_args first [] st = Some st"
| "put_args first (a # as) (content, len) = do {
     st \<leftarrow> (if \<not> first then do { content \<leftarrow> store content len 32; Some (content, len + 1) } else Some (content, len));
     st \<leftarrow> put_arg a st;
     put_args False as st }"

definition redirect_content :: "byte list list \<Rightarrow> (byte list \<times> nat) option" where
  "redirect_content args = do {
     (content, len) \<leftarrow> put_args True args (replicate CMD_BUF_SIZE 0, 0);
     content \<leftarrow> store content len 0;
     Some (content, len) }"

definition redirect :: "'d disk \<Rightarrow> byte list list \<Rightarrow> byte list \<Rightarrow> 'd shell \<Rightarrow> 'd shell option" where
  "redirect dk args file s = do {
     (content, len) \<leftarrow> redirect_content args;
     (r, s) \<leftarrow> on_dev (\<lambda>sb. fs_write dk sb file FS_FILE content (of_nat len)) s;
     if r = 0 then do { s \<leftarrow> say 2 (lit ''wrote '') s; s \<leftarrow> say 2 file s; say 2 (litln '''') s }
     else say 4 (litln ''write failed'') s }"

text \<open>The index of the first argument from \<open>i\<close> on that is \<open>>\<close>.\<close>

fun find_redirect :: "nat \<Rightarrow> byte list list \<Rightarrow> nat option option" where
  "find_redirect i [] = Some None"
| "find_redirect i (a # as) = do { c \<leftarrow> strcmp a (lit ''>''); if c = 0 then Some (Some i) else find_redirect (Suc i) as }"

fun dispatch :: "(byte list \<times> 'd command) list \<Rightarrow> byte list list \<Rightarrow> 'd shell \<Rightarrow> 'd cmd_end option" where
  "dispatch [] argv s = returned (do { s \<leftarrow> say 15 (hd argv) s; say 4 (litln '': command not found'') s })"
| "dispatch ((name, f) # cs) argv s = do {
     c \<leftarrow> strcmp (hd argv) name;
     if c = 0 then f argv s else dispatch cs argv s }"

definition run_args :: "'d disk \<Rightarrow> byte list list \<Rightarrow> 'd shell \<Rightarrow> 'd cmd_end option" where
  "run_args dk argv s =
     (if argv = [] then Some (Back s)
      else do {
        r \<leftarrow> find_redirect 1 (tl argv);
        (case r of
           Some i \<Rightarrow>
             returned (if i + 1 \<ge> length argv then say 4 (litln ''usage: <cmd> ... > <file>'') s
                   else redirect dk (tl (take i argv)) (argv ! (i + 1)) s)
         | None \<Rightarrow> dispatch (commands dk) argv s) })"

definition execute :: "'d disk \<Rightarrow> 'd shell \<Rightarrow> 'd cmd_end option" where
  "execute dk s = do {
     t \<leftarrow> wm_current (sy_wm (sh_sys s));
     (offs, line) \<leftarrow> parse_line (t_buf t);
     s \<leftarrow> on_term (\<lambda>t. Some (t\<lparr>t_buf := line\<rparr>)) s;
     run_args dk (map (\<lambda>p. drop p line) offs) s }"

section \<open>The shell loop\<close>

definition prompt_text :: "byte list" where
  "prompt_text = lit ''sherenity > ''"

definition prompt_if_none :: "'d shell \<Rightarrow> 'd shell option" where
  "prompt_if_none = on_term (\<lambda>t. if \<not> t_prompt t then do {
     t \<leftarrow> term_print_color t prompt_text (VGA_COLOR 0 3);
     Some (t\<lparr>t_prompt := True\<rparr>) } else Some t)"

definition show_current :: "'d shell \<Rightarrow> 'd shell option" where
  "show_current = on_sys show_term"

text \<open>The head of the outer loop draws only when it prompts.\<close>

definition outer_prompt :: "'d shell \<Rightarrow> 'd shell option" where
  "outer_prompt s = do {
     t \<leftarrow> wm_current (sy_wm (sh_sys s));
     if \<not> t_prompt t then do { s \<leftarrow> prompt_if_none s; show_current s } else Some s }"

definition switch_workspace :: "int \<Rightarrow> 'd shell \<Rightarrow> 'd shell option" where
  "switch_workspace idx s = do {
     w \<leftarrow> wm_switch idx (sy_wm (sh_sys s));
     s \<leftarrow> prompt_if_none (s\<lparr>sh_sys := (sh_sys s)\<lparr>sy_wm := w\<rparr>\<rparr>);
     show_current s }"

text \<open>The workspace that a key with ctrl selects.\<close>

definition workspace_key :: "u32 \<Rightarrow> int option" where
  "workspace_key c =
     (if 49 \<le> c \<and> c \<le> 57 then Some (uint c - 49)
      else if c = 48 then Some 9
      else map_of (zip (map ucast (asc ''qwertyuopa'')) [0, 1, 2, 3, 4, 5, 6, 7, 8, 9]) c)"

text \<open>A key in the line editor: newline, backspace, a printable character, or nothing.\<close>

definition line_key :: "u32 \<Rightarrow> terminal \<Rightarrow> terminal option" where
  "line_key c t =
     (if c = 8 then (if t_len t > 0 then term_backspace (t\<lparr>t_len := t_len t - 1\<rparr>) else Some t)
      else if 32 \<le> c \<and> c \<le> 126 then
        (if t_len t < int TERM_BUF_SIZE - 1 then do {
           buf \<leftarrow> storei (t_buf t) (t_len t) (ucast c);
           term_putchar (t\<lparr>t_buf := buf, t_len := t_len t + 1\<rparr>) (ucast c) (VGA_COLOR 0 15) }
         else Some t)
      else Some t)"

definition enter_line :: "terminal \<Rightarrow> terminal option" where
  "enter_line t = do {
     t \<leftarrow> term_putchar t 10 (VGA_COLOR 0 15);
     buf \<leftarrow> storei (t_buf t) (t_len t) 0;
     Some (t\<lparr>t_buf := buf\<rparr>) }"

text \<open>After a command has returned; the outer loop then prompts again.\<close>

definition after_command :: "'d shell \<Rightarrow> 'd shell option" where
  "after_command s = do {
     s \<leftarrow> on_term (\<lambda>t. Some (t\<lparr>t_len := 0, t_prompt := False\<rparr>)) s;
     s \<leftarrow> show_current s;
     outer_prompt s }"

text \<open>One round of the inner loop after kbd_getc returned \<open>c\<close>.\<close>

definition shell_key :: "'d disk \<Rightarrow> u32 \<Rightarrow> 'd shell \<Rightarrow> 'd cmd_end option" where
  "shell_key dk c s =
     (case (if kbd_mods (sy_kbd (sh_sys s)) AND MOD_CTRL \<noteq> 0 then workspace_key c else None) of
        Some ws \<Rightarrow> returned (switch_workspace ws s)
      | None \<Rightarrow>
          if c = 10 then do {
            s \<leftarrow> on_term enter_line s;
            r \<leftarrow> execute dk s;
            (case r of Back s \<Rightarrow> returned (after_command s) | _ \<Rightarrow> Some r) }
          else returned (do { s \<leftarrow> on_term (line_key c) s; show_current s }))"

text \<open>Waiting for a key: each interrupt is delivered to its driver.\<close>

definition deliver :: "irq \<Rightarrow> 'd shell \<Rightarrow> 'd shell" where
  "deliver q s =
     (let d = snd (isr_common_handler q \<lparr>dv_kbd = sy_kbd (sh_sys s), dv_pit = sh_pit s\<rparr>)
      in s\<lparr>sh_pit := dv_pit d, sh_sys := (sh_sys s)\<lparr>sy_kbd := dv_kbd d\<rparr>\<rparr>)"

text \<open>The loop: it ends when a program is entered or the machine stops; without any more interrupts it waits for ever.\<close>

partial_function (option) shell_loop :: "'d disk \<Rightarrow> 'd shell \<Rightarrow> 'd cmd_end option" where
  "shell_loop dk s =
     (case kbd_getc (sy_kbd (sh_sys s)) of
        Some (c, k) \<Rightarrow> do {
          r \<leftarrow> shell_key dk c (s\<lparr>sh_sys := (sh_sys s)\<lparr>sy_kbd := k\<rparr>\<rparr>);
          (case r of Back s \<Rightarrow> shell_loop dk s | Entered eip esp u s \<Rightarrow> Some (Entered eip esp u s)
            | Stopped ports s \<Rightarrow> Some (Stopped ports s)) }
      | None \<Rightarrow> (case sh_irqs s of
          [] \<Rightarrow> None
        | q # irqs \<Rightarrow> shell_loop dk (deliver q (s\<lparr>sh_irqs := irqs\<rparr>))))"

definition shell_run :: "'d disk \<Rightarrow> 'd shell \<Rightarrow> 'd cmd_end option" where
  "shell_run dk s = do { s \<leftarrow> outer_prompt s; shell_loop dk s }"

text \<open>Where an exiting program resumes: its memory is released, its files are closed, the line is dropped.\<close>

definition exit_prepare :: "'d disk \<Rightarrow> 'd shell \<Rightarrow> 'd shell option" where
  "exit_prepare dk s = do {
     s \<leftarrow> detach s;
     fs \<leftarrow> fs_close_all dk (sy_fs (sh_sys s));
     on_term (\<lambda>t. Some (t\<lparr>t_len := 0\<rparr>)) (s\<lparr>sh_sys := (sh_sys s)\<lparr>sy_fs := fs\<rparr>\<rparr>) }"

definition exit_to_shell :: "'d disk \<Rightarrow> 'd shell \<Rightarrow> 'd cmd_end option" where
  "exit_to_shell dk s = do { s \<leftarrow> exit_prepare dk s; shell_run dk s }"

end
