(* ===== verification/ShellLine.thy ===== *)
theory ShellLine
  imports ShellRun
begin

text \<open>
The command line of kernel/shell.c: parse_line finds the words of a line, and the text of a redirection is the words with
  their escapes replaced, inside its local array.
\<close>

section \<open>The words of a line\<close>

function words_of :: "byte list \<Rightarrow> byte list list" where
  "words_of s =
     (let s = dropWhile (\<lambda>c. c = 32) s
      in if s = [] then [] else takeWhile (\<lambda>c. c \<noteq> 32) s # words_of (dropWhile (\<lambda>c. c \<noteq> 32) s))"
  by pat_completeness auto
termination
proof (relation "measure length")
  fix s x :: "byte list" assume x: "x = dropWhile (\<lambda>c. c = 32) s" "x \<noteq> []"
  have "hd x \<noteq> 32" using hd_dropWhile [of "\<lambda>c. c = 32" s] x by simp
  then have "dropWhile (\<lambda>c. c \<noteq> 32) x = dropWhile (\<lambda>c. c \<noteq> 32) (tl x)" using x(2) by (cases x) auto
  moreover have "length (tl x) < length x" using x(2) by simp
  moreover have "length x \<le> length s" unfolding x(1) by (rule length_dropWhile_le)
  ultimately show "(dropWhile (\<lambda>c. c \<noteq> 32) x, s) \<in> measure length"
    using length_dropWhile_le [of "\<lambda>c. c \<noteq> 32" "tl x"] by simp
qed simp

declare words_of.simps [simp del]

lemma words_of_Nil [simp]: "words_of [] = []"
  by (simp add: words_of.simps)

lemma words_of_blank [simp]: "words_of (32 # s) = words_of s"
  by (simp add: words_of.simps [of "32 # s"] words_of.simps [of s])

lemma words_of_blanks: "list_all (\<lambda>c. c = 32) b \<Longrightarrow> words_of (b @ s) = words_of s"
  by (induction b) auto

lemma words_of_word:
  "w \<noteq> [] \<Longrightarrow> 32 \<notin> set w \<Longrightarrow> s = [] \<or> hd s = 32 \<Longrightarrow> words_of (w @ s) = w # words_of s"
proof -
  assume w: "w \<noteq> []" "32 \<notin> set w" and s: "s = [] \<or> hd s = 32"
  have a: "\<forall>c\<in>set w. c \<noteq> 32" using w(2) by auto
  have d: "dropWhile (\<lambda>c. c = 32) (w @ s) = w @ s" using w by (cases w) auto
  have "takeWhile (\<lambda>c. c \<noteq> 32) (w @ s) = w" "dropWhile (\<lambda>c. c \<noteq> 32) (w @ s) = s"
    using a s by (cases s; simp add: takeWhile_append2 dropWhile_append2)+
  then show ?thesis using w(1) by (simp add: words_of.simps [of "w @ s"] d)
qed

text \<open>Every line is blanks, or blanks, a word, and the rest behind it.\<close>

lemma line_cases:
  obtains (blank) b where "s = b" "list_all (\<lambda>c. c = 32) b"
  | (word) b w s' where "s = b @ w @ s'" "list_all (\<lambda>c. c = 32) b" "w \<noteq> []" "32 \<notin> set w" "s' = [] \<or> hd s' = 32"
proof -
  let ?b = "takeWhile (\<lambda>c. c = 32) s" and ?t = "dropWhile (\<lambda>c. c = 32) s"
  let ?w = "takeWhile (\<lambda>c. c \<noteq> 32) ?t" and ?u = "dropWhile (\<lambda>c. c \<noteq> 32) ?t"
  have b: "list_all (\<lambda>c. c = 32) ?b" by (auto simp: list_all_iff dest: set_takeWhileD)
  show thesis
  proof (cases "?t = []")
    case True
    then have "s = ?b" by (metis append_Nil2 takeWhile_dropWhile_id)
    with b show ?thesis using blank by metis
  next
    case False
    have "s = ?b @ ?w @ ?u" by simp
    moreover have "?w \<noteq> []" using False hd_dropWhile [of "\<lambda>c. c = 32" s] by (cases ?t) auto
    moreover have "32 \<notin> set ?w" by (auto dest: set_takeWhileD)
    moreover have "?u = [] \<or> hd ?u = 32" using hd_dropWhile [of "\<lambda>c. c \<noteq> 32" ?t] by auto
    ultimately show ?thesis using word b by metis
  qed
qed

section \<open>The parser\<close>

lemma skip_blanks_eq:
  "list_all (\<lambda>c. c = 32) b \<Longrightarrow> c \<noteq> 32 \<Longrightarrow> skip_blanks (pre @ b @ c # r) (length pre) = Some (length pre + length b)"
proof (induction b arbitrary: pre)
  case Nil
  then show ?case by (subst skip_blanks.simps) simp
next
  case (Cons x b)
  then show ?case using Cons.IH [of "pre @ [32]"] by (subst skip_blanks.simps) simp
qed

lemma skip_word_eq:
  "32 \<notin> set w \<Longrightarrow> nul_free w \<Longrightarrow> c = 0 \<or> c = 32 \<Longrightarrow> skip_word (pre @ w @ c # r) (length pre) = Some (length pre + length w)"
proof (induction w arbitrary: pre)
  case Nil
  then show ?case by (subst skip_word.simps) auto
next
  case (Cons x w)
  then show ?case using Cons.IH [of "pre @ [x]"] by (subst skip_word.simps) auto
qed

lemma take_words: "n < 16 \<Longrightarrow> take (16 - n) (w # ws) = w # take (16 - Suc n) ws"
  by (simp add: take_Cons')

lemma parse_loop_stop: "load line p = Some 0 \<or> (\<exists>c. load line p = Some c) \<and> length argv \<ge> 16 \<Longrightarrow>
    parse_loop line p argv = Some (argv, line)"
  by (subst parse_loop.simps) (auto simp: MAX_ARGS_def)

text \<open>One word: the loop goes on behind the blank that ended it, which is now a NUL, or at the end of the line.\<close>

lemma parse_loop_word:
  fixes pre r :: "byte list"
  assumes "list_all (\<lambda>c. c = 32) b" and "w \<noteq> []" "32 \<notin> set w" and "nul_free (b @ w)"
    and "c = 0 \<or> c = 32" and "length argv < 16"
  defines "line \<equiv> pre @ b @ w @ c # r" and "p \<equiv> length (pre @ b)" and "q \<equiv> length (pre @ b @ w)"
  shows "parse_loop line (length pre) argv =
    (if c \<noteq> 0 then parse_loop ((pre @ b @ w @ [0]) @ r) (length (pre @ b @ w @ [0])) (argv @ [p])
     else parse_loop line q (argv @ [p]))"
proof -
  obtain x w' where x: "w = x # w'" "x \<noteq> 32" "x \<noteq> 0" using assms(2-4) by (cases w) auto
  have hd0: "hd (b @ w) \<noteq> 0" using assms(4) x by (cases b) auto
  have l0: "load line (length pre) = Some (hd (b @ w))" using x by (cases b) (simp_all add: line_def load_def nth_append)
  have e1: "skip_blanks line (length pre) = Some p"
    using skip_blanks_eq [OF assms(1) x(2), of pre "w' @ c # r"] x(1) by (simp add: line_def p_def)
  have l1: "load line p = Some x" using x(1) by (simp add: line_def p_def load_def nth_append)
  have "nul_free w" using assms(4) by simp
  from skip_word_eq [OF assms(3) this assms(5), of "pre @ b" r] have e2: "skip_word line p = Some q"
    by (simp add: line_def p_def q_def)
  have l2: "load line q = Some c" by (simp add: line_def q_def load_def nth_append)
  have u: "line[q := 0] = (pre @ b @ w @ [0]) @ r" by (simp add: line_def q_def list_update_append)
  have "parse_loop line (length pre) argv =
      (if c \<noteq> 0 then parse_loop (line[q := 0]) (Suc q) (argv @ [p]) else parse_loop line q (argv @ [p]))"
    using l0 hd0 e1 l1 x e2 l2 assms(6) by (subst parse_loop.simps) (simp add: MAX_ARGS_def)
  then show ?thesis unfolding u by (simp add: q_def)
qed

text \<open>What parse_loop leaves in the buffer from the position it starts at.\<close>

definition parsed :: "byte list \<Rightarrow> byte list \<Rightarrow> nat \<Rightarrow> byte list list \<Rightarrow> nat list \<times> byte list \<Rightarrow> bool" where
  "parsed pre rest n ws res \<longleftrightarrow> (case res of (offs, line) \<Rightarrow>
     (\<exists>m. line = pre @ m \<and> length m = length rest) \<and>
     map (\<lambda>p. cstr (drop p line)) offs = take (16 - n) ws \<and> (\<forall>p\<in>set offs. 0 \<in> set (drop p line)))"

lemma parse_loop_eq:
  "nul_free s \<Longrightarrow> \<exists>offs line. parse_loop (pre @ s @ 0 # r) (length pre) argv = Some (argv @ offs, line) \<and>
    parsed pre (s @ 0 # r) (length argv) (words_of s) (offs, line)"
proof (induction "length s" arbitrary: s pre argv rule: less_induct)
  case less
  let ?line = "pre @ s @ 0 # r"
  show ?case
  proof (cases "length argv < 16")
    case False
    then have "parse_loop ?line (length pre) argv = Some (argv, ?line)"
      by (intro parse_loop_stop) (cases s; simp add: load_def nth_append)
    then show ?thesis using False by (simp add: parsed_def)
  next
    case True
    from line_cases [of s] show ?thesis
    proof cases
      case (blank b)
      have e: "skip_blanks ?line (length pre) = Some (length pre + length s)"
        using skip_blanks_eq [of s 0 pre r] blank by simp
      have "words_of s = []" using words_of_blanks [of s "[]"] blank by simp
      moreover have "parse_loop ?line (length pre) argv = Some (argv, ?line)"
        using e by (subst parse_loop.simps) (cases s; simp add: load_def nth_append)
      ultimately show ?thesis by (simp add: parsed_def)
    next
      case (word b w s')
      let ?p = "length (pre @ b)"
      have nf: "nul_free (b @ w)" "nul_free w" "nul_free s'" using less.prems word(1) by auto
      have ws: "words_of s = w # words_of s'" using word by (simp add: words_of_blanks words_of_word)
      note step = parse_loop_word [OF word(2,3,4) nf(1) _ True]
      show ?thesis
      proof (cases s')
        case Nil
        have "parse_loop ?line (length pre) argv = Some (argv @ [?p], ?line)"
          using step [of 0 pre r] word(1) Nil
          by (simp add: parse_loop_stop load_def nth_append)
        moreover have "cstr (drop ?p ?line) = w" using word(1) Nil nf by simp
        ultimately show ?thesis using word(1) Nil ws True by (simp add: parsed_def take_words)
      next
        case (Cons c s2)
        then have c: "c = 32" using word(5) by simp
        let ?pre = "pre @ b @ w @ [0]"
        have go: "parse_loop ?line (length pre) argv = parse_loop (?pre @ s2 @ 0 # r) (length ?pre) (argv @ [?p])"
          using step [of 32 pre "s2 @ 0 # r"] word(1) Cons c by simp
        have "length s2 < length s" "nul_free s2" using word(1) Cons nf by auto
        from less.hyps [OF this, of ?pre "argv @ [?p]"] obtain offs line m where
          IH: "parse_loop (?pre @ s2 @ 0 # r) (length ?pre) (argv @ [?p]) = Some ((argv @ [?p]) @ offs, line)"
          "line = ?pre @ m" "length m = length (s2 @ 0 # r)"
          "map (\<lambda>p. cstr (drop p line)) offs = take (16 - length (argv @ [?p])) (words_of s2)"
          "\<forall>p\<in>set offs. 0 \<in> set (drop p line)" unfolding parsed_def by auto
        have "cstr (drop ?p line) = w" "0 \<in> set (drop ?p line)" using IH(2) nf by simp_all
        moreover have "words_of s = w # words_of s2" using ws Cons c by simp
        moreover have "\<exists>m'. line = pre @ m' \<and> length m' = length (s @ 0 # r)" using IH(2,3) word(1) Cons by simp
        ultimately show ?thesis using go IH(1,4,5) True
          by (intro exI [of _ "?p # offs"] exI [of _ line]) (simp add: parsed_def take_words)
      qed
    qed
  qed
qed


text \<open>Parse_line finds in a line buffer the words between blanks, the first sixteen of them, each terminated in place, and
  changes nothing of the buffer's size.\<close>

theorem parse_line_words:
  assumes "nul_free s"
  shows "\<exists>offs line. parse_line (s @ 0 # r) = Some (offs, line) \<and> length line = length (s @ 0 # r) \<and>
    map (\<lambda>p. cstr (drop p line)) offs = take MAX_ARGS (words_of s) \<and> (\<forall>p\<in>set offs. 0 \<in> set (drop p line))"
  using parse_loop_eq [OF assms, of "[]" r "[]"] by (auto simp: parse_line_def parsed_def MAX_ARGS_def)

theorem parse_line_words_witness:
  "\<exists>offs line. parse_line (asc '' ls  a '' @ [0, 7]) = Some (offs, line) \<and>
    map (\<lambda>p. cstr (drop p line)) offs = [asc ''ls'', asc ''a'']"
proof -
  have "nul_free (asc '' ls  a '')" by (simp add: nul_free_def of_char_def)
  from parse_line_words [OF this, of "[7]"] obtain offs line where
    "parse_line (asc '' ls  a '' @ [0, 7]) = Some (offs, line)"
    "map (\<lambda>p. cstr (drop p line)) offs = take MAX_ARGS (words_of (asc '' ls  a ''))" by auto
  moreover have "take MAX_ARGS (words_of (asc '' ls  a '')) = [asc ''ls'', asc ''a'']" by code_simp
  ultimately show ?thesis by auto
qed

section \<open>Redirected text\<close>

text \<open>Escapes: newline, tab and backslash; any other escape stands for itself.\<close>

fun unescape :: "byte list \<Rightarrow> byte list" where
  "unescape (c # e # s) =
     (if c = 92 then
        (if e = 110 then 10 # unescape s else if e = 116 then 9 # unescape s else if e = 92 then 92 # unescape s
         else 92 # e # unescape s)
      else c # unescape (e # s))"
| "unescape s = s"

fun with_blanks :: "byte list list \<Rightarrow> byte list" where
  "with_blanks [] = []"
| "with_blanks [w] = w"
| "with_blanks (w # ws) = w @ 32 # with_blanks ws"

lemma unescape_length: "length (unescape s) \<le> length s"
  by (induction s rule: unescape.induct) auto

lemma put_arg_eq:
  "nul_free s \<Longrightarrow> len + length (unescape s) \<le> length content \<Longrightarrow>
    put_arg (s @ 0 # r) (content, len) = Some (blit content len (unescape s), len + length (unescape s))"
proof (induction s arbitrary: content len rule: unescape.induct)
  case (1 c e s)
  consider (plain) "c \<noteq> 92" | (known) "c = 92" "e = 110 \<or> e = 116 \<or> e = 92" | (other) "c = 92" "e \<noteq> 110" "e \<noteq> 116" "e \<noteq> 92"
    by blast
  then show ?case
  proof cases
    case plain
    then show ?thesis using 1(5) [OF plain] "1.prems" by (simp add: blit_Cons)
  next
    case known
    then show ?thesis using 1(1-3) "1.prems" by (auto simp: blit_Cons)
  next
    case other
    then show ?thesis using 1(4) [OF other] "1.prems" by (simp add: blit_Cons)
  qed
qed (simp_all add: blit_Cons load_def)

text \<open>The arguments behind the first, each with a blank before it.\<close>

lemma put_args_rest:
  "(\<forall>a\<in>set args. 0 \<in> set a) \<Longrightarrow>
    t = concat (map (\<lambda>a. 32 # unescape (cstr a)) args) \<Longrightarrow> len + length t \<le> length content \<Longrightarrow>
    put_args False args (content, len) = Some (blit content len t, len + length t)"
proof (induction args arbitrary: content len t)
  case (Cons a as)
  let ?u = "unescape (cstr a)" and ?c = "content[len := 32]"
  let ?t = "concat (map (\<lambda>a. 32 # unescape (cstr a)) as)"
  obtain r where a: "a = cstr a @ 0 # r" using Cons.prems(1) terminated [of a] by auto
  have l: "len + 1 + length ?u + length ?t \<le> length content" using Cons.prems(2,3) by simp
  then have p: "put_arg a (?c, len + 1) = Some (blit ?c (len + 1) ?u, len + 1 + length ?u)"
    by (subst a) (simp add: put_arg_eq)
  have "put_args False as (blit ?c (len + 1) ?u, len + 1 + length ?u) =
      Some (blit (blit ?c (len + 1) ?u) (len + 1 + length ?u) ?t, len + 1 + length ?u + length ?t)"
    using Cons.IH [OF _ refl, of "len + 1 + length ?u" "blit ?c (len + 1) ?u"] Cons.prems(1) l by simp
  moreover have "blit (blit ?c (len + 1) ?u) (len + 1 + length ?u) ?t = blit content len (32 # ?u @ ?t)"
    using l blit_adjacent [of "len + 1" ?u ?t ?c] by (simp add: blit_Cons)
  ultimately show ?case using p l Cons.prems(2) by simp
qed simp

lemma put_args_eq:
  assumes "\<forall>a\<in>set args. 0 \<in> set a" and "t = with_blanks (map (\<lambda>a. unescape (cstr a)) args)" and "length t \<le> length content"
  shows "put_args True args (content, 0) = Some (blit content 0 t, length t)"
proof (cases args)
  case Nil
  then show ?thesis using assms by simp
next
  case (Cons a as)
  let ?u = "unescape (cstr a)" and ?t = "concat (map (\<lambda>a. 32 # unescape (cstr a)) as)"
  have "with_blanks (w # ws) = w @ concat (map (\<lambda>a. 32 # a) ws)" for w ws
    by (induction ws arbitrary: w) simp_all
  then have t: "t = ?u @ ?t" using assms(2) Cons by (simp add: comp_def)
  obtain r where a: "a = cstr a @ 0 # r" using assms(1) Cons terminated [of a] by auto
  have "put_arg a (content, 0) = Some (blit content 0 ?u, length ?u)"
    using assms(3) t by (subst a) (simp add: put_arg_eq)
  moreover have "put_args False as (blit content 0 ?u, length ?u) =
      Some (blit (blit content 0 ?u) (length ?u) ?t, length ?u + length ?t)"
  proof (rule put_args_rest)
    have "length ?u + length ?t \<le> length content" using assms(3) unfolding t by simp
    moreover then have "length (blit content 0 ?u) = length content" by simp
    ultimately show "length ?u + length ?t \<le> length (blit content 0 ?u)" by simp
  qed (use assms(1) Cons in simp_all)
  moreover have "blit (blit content 0 ?u) (length ?u) ?t = blit content 0 (?u @ ?t)"
    using blit_adjacent [of 0 ?u ?t content] assms(3) t by simp
  ultimately show ?thesis using Cons t by simp
qed

lemma redirect_content_eq:
  assumes "\<forall>a\<in>set args. 0 \<in> set a" and "t = with_blanks (map (\<lambda>a. unescape (cstr a)) args)" and "length t < CMD_BUF_SIZE"
  shows "\<exists>content. redirect_content args = Some (content, length t) \<and> length content = CMD_BUF_SIZE \<and> take (length t) content = t"
proof -
  let ?c = "blit (replicate CMD_BUF_SIZE 0) 0 t"
  have "put_args True args (replicate CMD_BUF_SIZE 0, 0) = Some (?c, length t)"
    using assms by (intro put_args_eq) simp_all
  moreover have l: "length ?c = CMD_BUF_SIZE" using assms(3) by simp
  moreover have "take (length t) ?c = t" using assms(3) by (simp add: blit_def)
  ultimately show ?thesis using assms(3) by (simp add: redirect_content_def)
qed

section \<open>A line fits\<close>

text \<open>Every word takes its length and one more in a line, so any words of a line fit between blanks.\<close>

definition room :: "byte list list \<Rightarrow> nat" where
  "room ws = sum_list (map (\<lambda>w. length w + 1) ws)"

lemma room_words_of: "room (words_of s) \<le> length s + 1"
proof (induction "length s" arbitrary: s rule: less_induct)
  case less
  from line_cases [of s] show ?case
  proof cases
    case (blank b)
    then show ?thesis using words_of_blanks [of s "[]"] by (simp add: room_def)
  next
    case (word b w s')
    then have ws: "words_of s = w # words_of s'" by (simp add: words_of_blanks words_of_word)
    show ?thesis
    proof (cases s')
      case Nil
      then show ?thesis using ws word(1) by (simp add: room_def)
    next
      case (Cons c s2)
      then have "words_of s' = words_of s2" "length s2 < length s" using word by auto
      with less.hyps [of s2] show ?thesis using ws word(1) Cons by (simp add: room_def)
    qed
  qed
qed

lemma room_part: "room (tl (take i (take n ws))) \<le> room ws"
proof -
  have "room (take k ws) \<le> room ws" for k ws
    by (metis append_take_drop_id le_add1 map_append room_def sum_list_append)
  moreover have "room (tl xs) \<le> room xs" for xs by (cases xs) (simp_all add: room_def)
  ultimately show ?thesis by (metis le_trans take_take)
qed

lemma with_blanks_length: "ws \<noteq> [] \<Longrightarrow> length (with_blanks (map unescape ws)) + 1 \<le> room ws"
proof (induction ws rule: with_blanks.induct)
  case (2 w)
  then show ?case using unescape_length [of w] by (simp add: room_def)
next
  case (3 w v ws)
  then show ?case using unescape_length [of w] by (simp add: room_def)
qed simp

lemma line_fits:
  assumes "length s < CMD_BUF_SIZE"
  shows "length (with_blanks (map unescape (tl (take i (take n (words_of s)))))) < CMD_BUF_SIZE"
proof (cases "tl (take i (take n (words_of s))) = []")
  case False
  from with_blanks_length [OF this] room_part [of i n "words_of s"] room_words_of [of s] assms show ?thesis by linarith
qed (simp add: CMD_BUF_SIZE_def)

text \<open>However a line of the editor is split, the text before a redirection is exactly the words between command and \<open>>\<close>
  with their escapes replaced and single blanks between them, and it never leaves the 128 bytes of the local array.\<close>

theorem redirect_text:
  fixes i :: nat
  assumes "nul_free s" and "length s < CMD_BUF_SIZE" and "parse_line (s @ 0 # r) = Some (offs, line)"
    and "argv = map (\<lambda>p. drop p line) offs"
  defines "body \<equiv> with_blanks (map unescape (tl (take i (take MAX_ARGS (words_of s)))))"
  shows "\<exists>content. redirect_content (tl (take i argv)) = Some (content, length body) \<and>
    length body < CMD_BUF_SIZE \<and> take (length body) content = body"
proof -
  from parse_loop_eq [OF assms(1), of "[]" r "[]"] assms(3) have p:
    "map (\<lambda>p. cstr (drop p line)) offs = take MAX_ARGS (words_of s)" "\<forall>p\<in>set offs. 0 \<in> set (drop p line)"
    by (auto simp: parse_line_def parsed_def MAX_ARGS_def)
  let ?args = "tl (take i argv)"
  have "set (tl xs) \<subseteq> set xs" for xs :: "byte list list" by (cases xs) auto
  then have "set ?args \<subseteq> set argv" using set_take_subset [of i argv] by blast
  then have "\<forall>a\<in>set ?args. 0 \<in> set a" using p(2) assms(4) by auto
  moreover have "map (\<lambda>a. unescape (cstr a)) ?args = map unescape (tl (take i (map cstr argv)))"
    by (simp add: map_tl take_map comp_def)
  moreover have "map cstr argv = take MAX_ARGS (words_of s)" using p(1) assms(4) by (simp add: comp_def)
  ultimately show ?thesis
    using redirect_content_eq [of ?args body] line_fits [OF assms(2), of i MAX_ARGS] by (auto simp: body_def)
qed


theorem redirect_text_witness:
  "\<exists>offs line content. parse_line (asc ''echo a  b > f'' @ [0]) = Some (offs, line) \<and>
    redirect_content (tl (take 3 (map (\<lambda>p. drop p line) offs))) = Some (content, 3) \<and> take 3 content = asc ''a b''"
proof -
  let ?s = "asc ''echo a  b > f''"
  have nf: "nul_free ?s" by (simp add: nul_free_def of_char_def)
  have l: "length ?s < CMD_BUF_SIZE" by (simp add: CMD_BUF_SIZE_def)
  obtain offs line where p: "parse_line (?s @ 0 # []) = Some (offs, line)"
    using parse_loop_eq [OF nf, of "[]" "[]" "[]"] by (auto simp: parse_line_def)
  have w: "with_blanks (map unescape (tl (take 3 (take MAX_ARGS (words_of ?s))))) = asc ''a b''" by code_simp
  have "length (asc ''a b'') = 3" by simp
  with redirect_text [OF nf l p refl, of 3] p show ?thesis unfolding w by (auto simp: eval_nat_numeral)
qed

end
