(* ===== verification/ShellSpec.thy ===== *)
theory ShellSpec
  imports ShellLine UserApi
begin

text \<open>
What the shell does to its workspaces and the disk: output changes only the picture of the current terminal, a
  redirection stores its text as one file, and the keys edit one line per workspace.
\<close>

section \<open>Output of the shell\<close>

definition shell_ok :: "'d shell \<Rightarrow> bool" where
  "shell_ok s \<longleftrightarrow> kernel_ok (sh_sys s)"

definition cur :: "'d shell \<Rightarrow> terminal" where
  "cur s = cur_term (sh_sys s)"

definition paint :: "terminal \<Rightarrow> byte list \<Rightarrow> 'd shell \<Rightarrow> 'd shell" where
  "paint t v s = s\<lparr>sh_sys := redraw t v (sh_sys s)\<rparr>"

lemma shell_okD:
  assumes "shell_ok s"
  shows "term_ok (cur s)" "length (w_vga (sy_wm (sh_sys s))) = 4000" "length (vga_image (cur s)) = 4000"
  using kernel_okD [of "sh_sys s"] assms by (simp_all add: shell_ok_def cur_def term_ok_def)

lemma paint_ok:
  assumes "shell_ok s" and "term_ok t" and "length v = 4000"
  shows "shell_ok (paint t v s)" "cur (paint t v s) = t" "paint t' v' (paint t v s) = paint t' v' s"
  using kernel_redraw_ok [of "sh_sys s" t v] assms by (simp_all add: shell_ok_def cur_def paint_def)

lemma paint_rest [simp]:
  "sh_pit (paint t v s) = sh_pit s" "sh_irqs (paint t v s) = sh_irqs s" "sy_fs (sh_sys (paint t v s)) = sy_fs (sh_sys s)"
  "sy_mem (sh_sys (paint t v s)) = sy_mem (sh_sys s)" "sy_kbd (sh_sys (paint t v s)) = sy_kbd (sh_sys s)"
  by (simp_all add: paint_def redraw_def)

lemma on_term_eq: "shell_ok s \<Longrightarrow> f (cur s) = Some t \<Longrightarrow> on_term f s = Some (paint t (w_vga (sy_wm (sh_sys s))) s)"
  using kernel_with_term_eq [of "sh_sys s" f t] by (simp add: on_term_def on_sys_def shell_ok_def cur_def paint_def)


lemma paint_same: "paint (cur s) (w_vga (sy_wm (sh_sys s))) s = s"
  by (simp add: paint_def cur_def redraw_same)

text \<open>\<open>s'\<close> is \<open>s\<close> with another picture of the current terminal; its line is the same.\<close>

definition redrawn :: "'d shell \<Rightarrow> 'd shell \<Rightarrow> bool" where
  "redrawn s s' \<longleftrightarrow> (\<exists>t v. s' = paint t v s \<and> term_ok t \<and> length v = 4000 \<and> t_buf t = t_buf (cur s) \<and> t_len t = t_len (cur s))"

lemma redrawnI: "term_ok t \<Longrightarrow> length v = 4000 \<Longrightarrow> t_buf t = t_buf (cur s) \<Longrightarrow> t_len t = t_len (cur s) \<Longrightarrow> redrawn s (paint t v s)"
  by (auto simp: redrawn_def)

lemma redrawn_ok:
  assumes "redrawn s s'" and "shell_ok s"
  shows "shell_ok s'" "t_buf (cur s') = t_buf (cur s)" "t_len (cur s') = t_len (cur s)"
    "sh_pit s' = sh_pit s" "sh_irqs s' = sh_irqs s" "sy_fs (sh_sys s') = sy_fs (sh_sys s)"
    "sy_mem (sh_sys s') = sy_mem (sh_sys s)" "sy_kbd (sh_sys s') = sy_kbd (sh_sys s)"
proof -
  from assms(1) obtain t v where "s' = paint t v s" "term_ok t" "length v = 4000" "t_buf t = t_buf (cur s)" "t_len t = t_len (cur s)"
    by (auto simp: redrawn_def)
  with paint_ok [OF assms(2), of t v] show "shell_ok s'" "t_buf (cur s') = t_buf (cur s)" "t_len (cur s') = t_len (cur s)"
    "sh_pit s' = sh_pit s" "sh_irqs s' = sh_irqs s" "sy_fs (sh_sys s') = sy_fs (sh_sys s)"
    "sy_mem (sh_sys s') = sy_mem (sh_sys s)" "sy_kbd (sh_sys s') = sy_kbd (sh_sys s)" by simp_all
qed

lemma redrawn_trans: "redrawn s s1 \<Longrightarrow> redrawn s1 s2 \<Longrightarrow> shell_ok s \<Longrightarrow> redrawn s s2"
  using paint_ok by (fastforce simp: redrawn_def)

lemma on_term_drawn:
  assumes "shell_ok s" and "f (cur s) = Some t" and "term_ok t" and "t_buf t = t_buf (cur s)" and "t_len t = t_len (cur s)"
  shows "\<exists>s'. on_term f s = Some s' \<and> redrawn s s' \<and> cur s' = t"
  using on_term_eq [where f = f, OF assms(1,2)] redrawnI [OF assms(3) shell_okD(2) [OF assms(1)] assms(4,5)]
    paint_ok(2) [OF assms(1,3) shell_okD(2) [OF assms(1)]] by auto

lemma say_drawn:
  assumes "shell_ok s" and "0 \<in> set str"
  shows "\<exists>s'. say fg str s = Some s' \<and> redrawn s s' \<and> t_prompt (cur s') = t_prompt (cur s)"
proof -
  obtain r where r: "str = cstr str @ 0 # r" using terminated [OF assms(2)] by blast
  from term_print_color_ok [OF shell_okD(1) [OF assms(1)] nul_free_cstr, of str r "VGA_COLOR 0 fg"] obtain t where
    "term_print_color (cur s) str (VGA_COLOR 0 fg) = Some t" "term_ok t" "t_buf t = t_buf (cur s)" "t_len t = t_len (cur s)"
    "t_prompt t = t_prompt (cur s)" unfolding r [symmetric] by blast
  with on_term_drawn [OF assms(1), of "\<lambda>t. term_print_color t str (VGA_COLOR 0 fg)" t] show ?thesis
    unfolding say_def by auto
qed


lemma lit_nul [simp]: "0 \<in> set (lit s)" "0 \<in> set (litln s)"
  by (simp_all add: lit_def litln_def)

lemma say3_drawn:
  assumes "shell_ok s" and "0 \<in> set a" "0 \<in> set b" "0 \<in> set c"
  shows "\<exists>s'. (do { s \<leftarrow> say f a s; s \<leftarrow> say g b s; say h c s }) = Some s' \<and> redrawn s s'"
proof -
  obtain s1 where s1: "say f a s = Some s1" "redrawn s s1" using say_drawn [OF assms(1,2)] by blast
  obtain s2 where s2: "say g b s1 = Some s2" "redrawn s1 s2" using say_drawn [OF redrawn_ok(1) [OF s1(2) assms(1)] assms(3)] by blast
  note d2 = redrawn_trans [OF s1(2) s2(2) assms(1)]
  obtain s3 where s3: "say h c s2 = Some s3" "redrawn s2 s3" using say_drawn [OF redrawn_ok(1) [OF d2 assms(1)] assms(4)] by blast
  show ?thesis using s1 s2 s3 redrawn_trans [OF d2 s3(2) assms(1)] by simp
qed

section \<open>Commands with a redirection\<close>

lemma strcmp_lit:
  assumes "0 \<in> set a" and "nul_free b"
  shows "\<exists>c. strcmp a (b @ [0]) = Some c \<and> (c = 0 \<longleftrightarrow> cstr a = b)"
proof -
  obtain r where r: "a = cstr a @ 0 # r" using terminated [OF assms(1)] by blast
  obtain c where c: "strcmp (cstr a @ 0 # r) (b @ 0 # []) = Some c"
    using strcmp_total [OF nul_free_cstr assms(2)] by blast
  then show ?thesis using strcmp_eq_0_iff [OF nul_free_cstr assms(2), of a r "[]"] r by auto
qed

lemma find_redirect_eq:
  assumes "\<forall>a\<in>set as. 0 \<in> set a" and "asc ''>'' \<notin> set (map cstr as)" and "0 \<in> set b" and "cstr b = asc ''>''"
  shows "find_redirect i (as @ b # bs) = Some (Some (i + length as))"
  using assms(1,2)
proof (induction as arbitrary: i)
  case Nil
  have "nul_free (asc ''>'')" by (simp add: nul_free_def of_char_def)
  from strcmp_lit [OF assms(3) this] assms(4) show ?case by (auto simp: lit_def)
next
  case (Cons a as)
  have "nul_free (asc ''>'')" by (simp add: nul_free_def of_char_def)
  from strcmp_lit [OF _ this, of a] Cons.prems obtain c where "strcmp a (lit ''>'') = Some c" "c \<noteq> 0"
    by (auto simp: lit_def)
  with Cons show ?case by simp
qed

text \<open>The parsed line and the machine in which the command runs.\<close>

lemma execute_eq:
  assumes "shell_ok s" and "t_buf (cur s) = l @ 0 # r" and "nul_free l"
  shows "\<exists>argv s1. execute dk s = run_args dk argv s1 \<and> shell_ok s1 \<and>
    s1 = paint ((cur s)\<lparr>t_buf := t_buf (cur s1)\<rparr>) (w_vga (sy_wm (sh_sys s))) s \<and> t_len (cur s1) = t_len (cur s) \<and>
    map cstr argv = take MAX_ARGS (words_of l) \<and> (\<forall>a\<in>set argv. 0 \<in> set a)"
proof -
  obtain offs line where p: "parse_line (l @ 0 # r) = Some (offs, line)" "length line = length (l @ 0 # r)"
    "map (\<lambda>p. cstr (drop p line)) offs = take MAX_ARGS (words_of l)" "\<forall>p\<in>set offs. 0 \<in> set (drop p line)"
    using parse_loop_eq [OF assms(3), of "[]" r "[]"] by (auto simp: parse_line_def parsed_def MAX_ARGS_def)
  let ?t = "(cur s)\<lparr>t_buf := line\<rparr>"
  let ?s1 = "paint ?t (w_vga (sy_wm (sh_sys s))) s"
  have t: "term_ok ?t" using shell_okD(1) [OF assms(1)] p(2) assms(2) by (simp add: term_ok_def)
  note ok = paint_ok(1,2) [OF assms(1) t shell_okD(2) [OF assms(1)]]
  have "execute dk s = run_args dk (map (\<lambda>p. drop p line) offs) ?s1"
    using on_term_eq [OF assms(1), of "\<lambda>t. Some (t\<lparr>t_buf := line\<rparr>)" ?t] p(1) kernel_current_eq [of "sh_sys s"] assms(1,2)
    by (simp add: execute_def shell_ok_def cur_def)
  then show ?thesis using p(3,4) ok by (intro exI [of _ "map (\<lambda>p. drop p line) offs"] exI [of _ ?s1]) (simp add: comp_def)
qed

lemma set_dev_ok:
  fixes d :: 'd
  assumes "shell_ok s"
  defines "f \<equiv> s\<lparr>sh_sys := (sh_sys s)\<lparr>sy_fs := (sy_fs (sh_sys s))\<lparr>fs_dev := d\<rparr>\<rparr>\<rparr>"
  shows "shell_ok f" "cur f = cur s" "sy_fs (sh_sys f) = (sy_fs (sh_sys s))\<lparr>fs_dev := d\<rparr>"
proof -
  have "handles_ok (sy_fs (sh_sys s))" using assms(1) by (simp add: shell_ok_def kernel_ok_def)
  then have "handles_ok ((sy_fs (sh_sys s))\<lparr>fs_dev := d\<rparr>)"
    by (rule handles_ok_same) (use \<open>handles_ok (sy_fs (sh_sys s))\<close> in \<open>simp_all add: handles_ok_def\<close>)
  then show "shell_ok f" using assms(1) by (simp add: f_def shell_ok_def kernel_ok_def)
  show "cur f = cur s" by (simp add: f_def cur_def cur_term_def)
  show "sy_fs (sh_sys f) = (sy_fs (sh_sys s))\<lparr>fs_dev := d\<rparr>" by (simp add: f_def)
qed

text \<open>C5: A line \<open>cmd words > file\<close> stores the words, with their escapes replaced and single blanks between them, as the
  contents of the file: on a consistent disk with room the abstract file system changes as by one write, and the
  shell goes on. This is what the code does for every command, although docs/index.md (386-387) says that the output
  of the command is written: the command is not run, and for any command other than echo the two differ.\<close>

theorem redirect_stores:
  assumes "reliable_device dk sec cap dev_ok" and "shell_ok s" and "t_buf (cur s) = l @ 0 # r" and "nul_free l"
    and "take MAX_ARGS (words_of l) = cmd # args @ asc ''>'' # file # others" and "asc ''>'' \<notin> set args"
    and "fs_sb (sy_fs (sh_sys s)) = sb" and "fs_dev (sy_fs (sh_sys s)) = d" and "fs_ok sb cap (sec d)" and "dev_ok d"
    and "file \<noteq> []" and "length file < 23" and "\<And>q. parent_name file = Some q \<Longrightarrow> files sb (sec d) q \<noteq> None"
    and "chosen_slot sb (sec d) file \<noteq> None" and "next_free sb (sec d) + 1 + 4 * length file \<le> cap"
  shows "\<exists>s' d'. execute dk s = Some (Back s') \<and> shell_ok s' \<and> sy_fs (sh_sys s') = (sy_fs (sh_sys s))\<lparr>fs_dev := d'\<rparr> \<and>
    fs_ok sb cap (sec d') \<and> files sb (sec d') = spec_write (files sb (sec d)) file FS_FILE (with_blanks (map unescape args))"
proof -
  obtain argv s1 where e: "execute dk s = run_args dk argv s1" "shell_ok s1"
    "s1 = paint ((cur s)\<lparr>t_buf := t_buf (cur s1)\<rparr>) (w_vga (sy_wm (sh_sys s))) s"
    "map cstr argv = take MAX_ARGS (words_of l)" "\<forall>a\<in>set argv. 0 \<in> set a"
    using execute_eq [OF assms(2-4)] by blast
  from e(4) assms(5) obtain a0 as b f bs where argv: "argv = a0 # as @ b # f # bs" "map cstr as = args"
    "cstr b = asc ''>''" "cstr f = file" by (auto simp: map_eq_Cons_conv map_eq_append_conv)
  let ?i = "Suc (length as)" and ?body = "with_blanks (map unescape args)"
  have fr: "find_redirect 1 (tl argv) = Some (Some ?i)"
    using find_redirect_eq [of as b 1 "f # bs"] argv e(5) assms(6) by simp
  have parts: "tl (take ?i argv) = as" "argv ! (?i + 1) = f" "\<not> length argv \<le> ?i + 1" "argv \<noteq> []"
    using argv(1) by (simp_all add: nth_append)
  have lb: "length l < 128" using shell_okD(1) [OF assms(2)] assms(3) by (simp add: term_ok_def TERM_BUF_SIZE_def)
  have "args = tl (take ?i (take MAX_ARGS (words_of l)))"
    using argv(2) by (auto simp: assms(5))
  then have small: "length ?body < 128" using line_fits [of l ?i MAX_ARGS] lb by (simp add: CMD_BUF_SIZE_def)
  obtain content where c: "redirect_content as = Some (content, length ?body)" "length content = 128" "take (length ?body) content = ?body"
    using redirect_content_eq [of as ?body] small argv e(5) by (auto simp: CMD_BUF_SIZE_def comp_def)
  let ?n = "of_nat (length ?body) :: u32"
  have n: "unat ?n = length ?body" using small by (simp add: of_nat_unat_small)
  have "sectors_for ?n \<le> 1" using n small by (subst sectors_for_eq) simp_all
  then have room: "next_free sb (sec d) + sectors_for ?n + 4 * length file \<le> cap" using assms(15) by linarith
  obtain r' where r': "f = file @ 0 # r'" using terminated [of f] argv e(5) by auto
  have "nul_free file" using argv(4) nul_free_cstr by metis
  then obtain d' where d': "fs_write dk sb f FS_FILE content ?n d = Some (0, d')" "fs_ok sb cap (sec d')"
    "files sb (sec d') = spec_write (files sb (sec d)) file FS_FILE ?body"
    using reliable_device.fs_write_refines [OF assms(1,9,10) _ assms(11,12) _ assms(14) _ _ room, of content r' FS_FILE]
      assms(13) n small c r' by (auto simp: files_None)
  have fs1: "sy_fs (sh_sys s1) = sy_fs (sh_sys s)" by (subst e(3)) simp
  let ?s2 = "s1\<lparr>sh_sys := (sh_sys s1)\<lparr>sy_fs := (sy_fs (sh_sys s1))\<lparr>fs_dev := d'\<rparr>\<rparr>\<rparr>"
  note s2 = set_dev_ok [OF e(2), of d']
  obtain s3 where s3: "(do { s \<leftarrow> say 2 (lit ''wrote '') ?s2; s \<leftarrow> say 2 f s; say 2 (litln '''') s }) = Some s3" "redrawn ?s2 s3"
    using say3_drawn [OF s2(1), of "lit ''wrote ''" f "litln ''''" 2 2 2] argv e(5) by auto
  have "redirect dk as f s1 = Some s3"
    using c(1) d'(1) fs1 assms(7,8) s3(1) by (simp add: redirect_def on_dev_def Let_def)
  then have "execute dk s = Some (Back s3)"
    using e(1) fr parts by (simp add: run_args_def returned_def)
  then show ?thesis using redrawn_ok [OF s3(2) s2(1)] s2(3) fs1 d' by auto
qed

text \<open>A machine with a blank drive and a line typed.\<close>

definition blank_shell :: "byte list \<Rightarrow> drive shell" where
  "blank_shell l = \<lparr>sh_sys = \<lparr>sy_fs = fs_boot empty_sb drive_blank,
     sy_wm = \<lparr>w_terms = replicate 10 (term_blank\<lparr>t_buf := l @ replicate (128 - length l) 0\<rparr>), w_current_term = 0,
       w_vga = replicate 4000 0\<rparr>,
     sy_kbd = kbd_init, sy_mem = tiny, sy_exit = exit_fn.exit_to_shell\<rparr>,
     sh_pit = \<lparr>pt_ticks = 0, pt_hz = 100\<rparr>, sh_irqs = []\<rparr>"

lemma blank_shell_ok:
  assumes "length l < 128"
  shows "shell_ok (blank_shell l)" "t_buf (cur (blank_shell l)) = l @ 0 # replicate (127 - length l) 0"
    "sy_fs (sh_sys (blank_shell l)) = fs_boot empty_sb drive_blank"
proof -
  have "term_ok (term_blank\<lparr>t_buf := l @ replicate (128 - length l) 0\<rparr>)"
    using term_ok_blank assms by (simp add: term_ok_def TERM_BUF_SIZE_def)
  then show "shell_ok (blank_shell l)"
    by (simp add: shell_ok_def blank_shell_def kernel_ok_def fs_boot_ok screen_ok_def)
  have "replicate (128 - length l) (0 :: byte) = 0 # replicate (127 - length l) 0"
    using assms by (cases "128 - length l") (auto simp: Suc_diff_le simp flip: replicate_Suc)
  then show "t_buf (cur (blank_shell l)) = l @ 0 # replicate (127 - length l) 0"
    by (simp add: cur_def cur_term_def blank_shell_def)
  show "sy_fs (sh_sys (blank_shell l)) = fs_boot empty_sb drive_blank" by (simp add: blank_shell_def)
qed

theorem redirect_stores_witness:
  "\<exists>s' d'. execute (ata_disk drive_pio) (blank_shell (asc ''echo a  b > f'')) = Some (Back s') \<and>
    fs_dev (sy_fs (sh_sys s')) = d' \<and> files empty_sb (drive_sec d') = [asc ''f'' \<mapsto> (FS_FILE, asc ''a b'')]"
proof -
  let ?l = "asc ''echo a  b > f''"
  have l: "length ?l < 128" "nul_free ?l" by (simp_all add: nul_free_def of_char_def)
  have w: "take MAX_ARGS (words_of ?l) = asc ''echo'' # [asc ''a'', asc ''b''] @ asc ''>'' # asc ''f'' # []" by code_simp
  have p: "parent_name (asc ''f'') = None" by (simp add: parent_name_def of_char_def)
  have m: "asc ''>'' \<notin> set [asc ''a'', asc ''b'']" "asc ''f'' \<noteq> []" by (simp_all add: of_char_def)
  note b = blank_shell_ok [OF l(1)]
  from redirect_stores [OF reliable_drive b(1,2) l(2) w m(1) refl refl, unfolded b(3) fs_boot_sel, OF fs_ok_blank drive_good_blank m(2)]
    p chosen_slot_blank next_free_blank
  show ?thesis by (fastforce simp: spec_write.simps files_blank b(3) unescape.simps)
qed

section \<open>The line editor\<close>

























end
