(* ===== verification/LoaderSpec.thy ===== *)
theory LoaderSpec
  imports ShellSpec UserMem
begin

text \<open>
The loader of kernel/shell.c: the argument block a program finds on its stack, and where a program starts.
\<close>

section \<open>The argument block\<close>

definition arg_bytes :: "byte list list \<Rightarrow> nat" where
  "arg_bytes as = sum_list (map (\<lambda>a. length (cstr a) + 1) as)"

lemma push_strings_eq:
  "\<forall>a\<in>set as. 0 \<in> set a \<Longrightarrow> arg_bytes as \<le> unat sp \<Longrightarrow>
    \<exists>ptrs sp' u'. push_strings as sp u = Some (ptrs, sp', u') \<and> length ptrs = length as \<and>
      unat sp' = unat sp - arg_bytes as \<and> within (unat sp') (unat sp) u u' \<and>
      (\<forall>i<length as. unat sp' \<le> unat (ptrs ! i) \<and> unat (ptrs ! i) + length (cstr (as ! i)) < unat sp \<and>
         string_at u' (ptrs ! i) (cstr (as ! i)))"
proof (induction as arbitrary: sp u)
  case Nil
  then show ?case by (simp add: arg_bytes_def within_refl)
next
  case (Cons a as)
  let ?n = "length (cstr a)" and ?p = "sp - (of_nat (length (cstr a)) + 1)"
  obtain r where r: "a = cstr a @ 0 # r" using terminated [of a] Cons.prems(1) by auto
  have n: "strlen a = Some ?n" by (subst r) (rule strlen_terminated [OF nul_free_cstr])
  have b: "?n + 1 + arg_bytes as \<le> unat sp" using Cons.prems(2) by (simp add: arg_bytes_def)
  then have small: "?n + 1 < 4294967296" using unat_u32_lt [of sp] by linarith
  then have l: "unat (of_nat ?n + 1 :: u32) = ?n + 1" using of_nat_unat_small [of ?n] by (simp add: unat_add_no_wrap)
  then have p: "unat ?p = unat sp - (?n + 1)" using b by (subst unat_sub_no_wrap) (simp_all add: word_le_nat_alt)
  let ?u = "put_region u ?p (cstr a @ [0])"
  have tk: "take (unat (of_nat ?n + 1 :: u32)) a = cstr a @ [0]" unfolding l by (subst r) simp
  have fits: "unat ?p + length (cstr a @ [0]) = unat sp" using p b by simp
  have top: "unat sp \<le> 4294967296" using unat_u32_lt [of sp] by linarith
  have w: "within (unat ?p) (unat sp) u ?u" using within_put_region [of ?p "cstr a @ [0]" u] fits top by simp
  have sa: "string_at ?u ?p (cstr a)" using string_at_put [OF nul_free_cstr, of ?p a u] fits top by simp
  have prem: "\<forall>a\<in>set as. 0 \<in> set a" "arg_bytes as \<le> unat ?p" using Cons.prems(1) b p by simp_all
  from Cons.IH [OF prem, of ?u] obtain ptrs sp' u' where
    IH: "push_strings as ?p ?u = Some (ptrs, sp', u')" "length ptrs = length as" "unat sp' = unat ?p - arg_bytes as"
    "within (unat sp') (unat ?p) ?u u'" "\<forall>i<length as. unat sp' \<le> unat (ptrs ! i) \<and>
       unat (ptrs ! i) + length (cstr (as ! i)) < unat ?p \<and> string_at u' (ptrs ! i) (cstr (as ! i))" by blast
  have ps: "push_strings (a # as) sp u = Some (?p # ptrs, sp', u')" using n tk IH(1) by (simp add: Let_def)
  have sp': "unat sp' = unat sp - arg_bytes (a # as)" using IH(3) p b by (simp add: arg_bytes_def)
  have le: "unat sp' \<le> unat ?p" "unat ?p \<le> unat sp" using IH(3) p by simp_all
  have wi: "within (unat sp') (unat sp) u u'" using within_trans [OF w IH(4)] le by (simp add: min_absorb2 max_absorb1)
  have s1: "string_at u' ?p (cstr a)" using string_at_within [OF sa IH(4)] fits top by simp
  have all: "unat sp' \<le> unat ((?p # ptrs) ! i) \<and> unat ((?p # ptrs) ! i) + length (cstr ((a # as) ! i)) < unat sp \<and>
      string_at u' ((?p # ptrs) ! i) (cstr ((a # as) ! i))" if "i < length (a # as)" for i
  proof (cases i)
    case 0
    then show ?thesis using s1 le fits by simp
  next
    case (Suc j)
    then show ?thesis using IH(5) that le by fastforce
  qed
  show ?case using ps sp' wi all IH(2) by auto
qed

lemma push_words_eq:
  "unat p + 4 * length vs \<le> 4294967296 \<Longrightarrow>
    within (unat p) (unat p + 4 * length vs) u (push_words p vs u) \<and>
    (\<forall>i<length vs. get32 (push_words p vs u) (p + 4 * of_nat i) = vs ! i)"
proof (induction vs arbitrary: p u)
  case Nil
  then show ?case by (simp add: within_refl)
next
  case (Cons v vs)
  let ?u = "put32 p v u"
  show ?case
  proof (cases vs)
    case Nil
    then show ?thesis using within_put32 [of p u v] Cons.prems by simp
  next
    case (Cons w ws)
    then have p4: "unat (p + 4) = unat p + 4" using Cons.prems by (subst unat_add_no_wrap) auto
    have IH: "within (unat p + 4) (unat p + 4 * length (v # vs)) ?u (push_words (p + 4) vs ?u)"
      "\<forall>i<length vs. get32 (push_words (p + 4) vs ?u) (p + 4 + 4 * of_nat i) = vs ! i"
      using Cons.IH [of "p + 4" ?u] Cons.prems p4 by (simp_all add: add.assoc)
    have wi: "within (unat p) (unat p + 4 * length (v # vs)) u (push_words p (v # vs) u)"
      using within_trans [OF within_put32 [of p u v] IH(1)] Cons.prems by simp
    have g0: "get32 (push_words p (v # vs) u) p = v"
      using get32_within [OF IH(1), of p] Cons.prems by simp
    have "get32 (push_words p (v # vs) u) (p + 4 * of_nat i) = (v # vs) ! i" if "i < length (v # vs)" for i
      using that g0 IH(2) by (cases i) (simp_all add: algebra_simps)
    with wi show ?thesis by blast
  qed
qed

lemma mask_off: "k < 32 \<Longrightarrow> unat (x AND NOT (mask k) :: u32) = unat x div 2 ^ k * 2 ^ k"
proof -
  assume k: "k < 32"
  then have "(2 :: nat) ^ k < 2 ^ 32" by (rule power_strict_increasing) simp
  then have p: "unat (2 ^ k :: u32) = 2 ^ k" using of_nat_unat_small [of "2 ^ k"] by simp
  have "x AND NOT (mask k) = push_bit k (drop_bit k x)"
  proof (rule bit_eqI)
    fix n
    have "k + (n - k) = n \<or> n < k" by arith
    then show "bit (x AND NOT (mask k)) n = bit (push_bit k (drop_bit k x)) n" by (auto simp: bit_simps)
  qed
  then have "unat (x AND NOT (mask k)) = unat (push_bit k (drop_bit k x))" by simp
  also have "\<dots> = unat x div 2 ^ k * 2 ^ k mod 2 ^ 32"
    by (simp only: push_bit_eq_mult unat_word_ariths unat_drop_bit_eq drop_bit_eq_div p) (simp add: mod_mult_left_eq)
  also have "\<dots> = unat x div 2 ^ k * 2 ^ k"
    using unat_u32_lt [of x] by (intro mod_less le_less_trans [OF div_times_less_eq_dividend]) simp
  finally show ?thesis .
qed

lemma align_down: "unat (x AND NOT 3 :: u32) = unat x div 4 * 4"
  using mask_off [of 2 x] by (simp add: mask_eq_exp_minus_1)

lemma page_up: "unat n + 4095 < 4294967296 \<Longrightarrow> unat ((n + PAGE_SIZE - 1) AND NOT (PAGE_SIZE - 1)) = (unat n + 4095) div 4096 * 4096"
proof -
  assume n: "unat n + 4095 < 4294967296"
  have "n + PAGE_SIZE - 1 = n + 4095" "PAGE_SIZE - 1 = mask 12" by (simp_all add: PAGE_SIZE_def mask_eq_exp_minus_1)
  then have "(n + PAGE_SIZE - 1) AND NOT (PAGE_SIZE - 1) = (n + 4095) AND NOT (mask 12)" by (simp only:)
  then show ?thesis using mask_off [of 12 "n + 4095"] n by (simp add: unat_add_no_wrap)
qed

text \<open>What a C entry point \<open>_start(argc, argv)\<close> finds at its initial stack pointer.\<close>

definition args_at :: "umem \<Rightarrow> u32 \<Rightarrow> byte list list \<Rightarrow> bool" where
  "args_at u esp strs \<longleftrightarrow> get32 u esp = 0 \<and> get32 u (esp + 4) = of_nat (length strs) \<and>
     (\<forall>i<length strs. string_at u (get32 u (get32 u (esp + 8) + 4 * of_nat i)) (strs ! i)) \<and>
     get32 u (get32 u (esp + 8) + 4 * of_nat (length strs)) = 0"

lemma build_user_args_eq:
  assumes "\<forall>a\<in>set argv. 0 \<in> set a" and "length argv \<le> MAX_ARGS" and "arg_bytes argv \<le> 4096"
  shows "\<exists>esp u'. build_user_args argv u = Some (esp, u') \<and> args_at u' esp (map cstr argv) \<and>
    within (unat esp) (unat USER_STACK) u u' \<and> 0x7FDF00 \<le> unat esp \<and> unat esp mod 4 = 0 \<and> unat esp < unat USER_STACK"
proof -
  let ?n = "length argv"
  have T: "unat USER_STACK = 8384512" by (simp add: USER_STACK_def)
  have n: "?n \<le> 16" "?n < 4294967296" using assms(2) by (simp_all add: MAX_ARGS_def)
  obtain ptrs sp1 u1 where p: "push_strings argv USER_STACK u = Some (ptrs, sp1, u1)" "length ptrs = ?n"
    "unat sp1 = 8384512 - arg_bytes argv" "within (unat sp1) 8384512 u u1"
    "\<forall>i<?n. unat sp1 \<le> unat (ptrs ! i) \<and> unat (ptrs ! i) + length (cstr (argv ! i)) < 8384512 \<and>
       string_at u1 (ptrs ! i) (cstr (argv ! i))"
    using push_strings_eq [OF assms(1), of USER_STACK u] assms(3) unfolding T by auto
  obtain sp2 where sp2: "sp2 = sp1 AND NOT 3" "unat sp2 = unat sp1 div 4 * 4" using align_down by blast
  have c: "unat ((of_nat ?n + 1) * 4 :: u32) = (?n + 1) * 4"
    using n by (simp add: unat_word_ariths unat_of_nat)
  obtain sp3 where sp3: "sp3 = sp2 - (of_nat ?n + 1) * 4" by blast
  have s2: "8384512 - 4099 \<le> unat sp2" "unat sp2 \<le> unat sp1" "unat sp2 mod 4 = 0"
  proof -
    have "a div 4 * 4 \<le> a" "a \<le> a div 4 * 4 + 3" "a div 4 * 4 mod 4 = 0" for a :: nat by presburger+
    from this [of "unat sp1"] show "8384512 - 4099 \<le> unat sp2" "unat sp2 \<le> unat sp1" "unat sp2 mod 4 = 0"
      using p(3) assms(3) unfolding sp2(2) by linarith+
  qed
  have u3: "unat sp3 = unat sp2 - (?n + 1) * 4"
    unfolding sp3 using c s2 n by (subst unat_sub_no_wrap) (simp_all add: word_le_nat_alt)
  obtain sp4 sp5 where sp4: "sp4 = sp3 - 4" and sp5: "sp5 = sp4 - 12" by blast
  have u4: "unat sp4 = unat sp3 - 4" unfolding sp4 using u3 s2 n by (subst unat_sub_no_wrap) (simp_all add: word_le_nat_alt)
  have u5: "unat sp5 = unat sp4 - 12" unfolding sp5 using u3 u4 s2 n by (subst unat_sub_no_wrap) (simp_all add: word_le_nat_alt)
  obtain u2 u3' u4' where mem: "u2 = push_words sp3 (ptrs @ [0]) u1" "u3' = put32 sp4 0 u2" "u4' = push_words sp5 [0, of_nat ?n, sp3] u3'"
    by blast
  have r: "build_user_args argv u = Some (sp5, u4')"
    unfolding build_user_args_def
    by (simp only: take_all [OF assms(2)] p(1) Let_def bind.bind_lunit prod.case mem sp5 sp4 sp3 sp2(1))
  have top: "unat sp3 + 4 * (?n + 1) = unat sp2" "unat sp4 + 4 = unat sp3" "unat sp5 + 12 = unat sp4" "unat sp2 \<le> 8384512"
    using u3 u4 u5 s2 n p(3) by simp_all
  have w2: "within (unat sp3) (unat sp2) u1 u2" "\<forall>i<?n + 1. get32 u2 (sp3 + 4 * of_nat i) = (ptrs @ [0]) ! i"
    using push_words_eq [of sp3 "ptrs @ [0]" u1] top p(2) unfolding mem(1) by simp_all
  have w3: "within (unat sp4) (unat sp3) u2 u3'" using within_put32 [of sp4 u2 0] top unfolding mem(2) by simp
  have w4: "within (unat sp5) (unat sp4) u3' u4'" "\<forall>i<3. get32 u4' (sp5 + 4 * of_nat i) = [0, of_nat ?n, sp3] ! i"
  proof -
    have l: "length [0 :: u32, of_nat ?n, sp3] = 3" by simp
    have "unat sp5 + 4 * 3 \<le> 4294967296" using top by simp
    from push_words_eq [of sp5 "[0, of_nat ?n, sp3]" u3', unfolded l, OF this] top(3)
    show "within (unat sp5) (unat sp4) u3' u4'" "\<forall>i<3. get32 u4' (sp5 + 4 * of_nat i) = [0, of_nat ?n, sp3] ! i"
      unfolding mem(3) by simp_all
  qed
  have w34: "within (unat sp5) (unat sp3) u2 u4'" using within_trans [OF w3 w4(1)] top by simp
  have w14: "within (unat sp5) (unat sp2) u1 u4'" using within_trans [OF w2(1) w34] top by simp
  have frame: "get32 u4' sp5 = 0" "get32 u4' (sp5 + 4) = of_nat ?n" "get32 u4' (sp5 + 8) = sp3"
    using w4(2) [rule_format, of 0] w4(2) [rule_format, of 1] w4(2) [rule_format, of 2] by (simp_all add: numeral_2_eq_2)
  have vec: "get32 u4' (sp3 + 4 * of_nat i) = (ptrs @ [0]) ! i" if "i \<le> ?n" for i
  proof -
    have i: "unat (of_nat (4 * i) :: u32) = 4 * i" using that n by (intro of_nat_unat_small) simp
    have a: "unat (sp3 + 4 * of_nat i) = unat sp3 + 4 * i" using u32_shift [of sp3 "4 * i"] that top n by simp
    show ?thesis using get32_within [OF w34, of "sp3 + 4 * of_nat i"] a w2(2) that top n by simp
  qed
  have str: "string_at u4' (ptrs ! i) (cstr (argv ! i))" if "i < ?n" for i
    using string_at_within [OF _ w14, of "ptrs ! i" "cstr (argv ! i)"] p(5) that s2(2) by fastforce
  have "args_at u4' sp5 (map cstr argv)"
    unfolding args_at_def frame using frame vec str p(2) by (simp add: nth_append)
  moreover have "within (unat sp5) 8384512 u u4'" using within_trans [OF p(4) w14] top p(3) s2 by simp
  moreover have "unat sp5 mod 4 = 0" using u3 u4 u5 s2 n by presburger
  ultimately show ?thesis using r T top u3 u4 u5 s2 n by auto
qed

text \<open>The loader hands a program its arguments: at the initial stack pointer a C entry point finds argc and a vector of
  pointers to exactly the argument strings, ended by NULL; the block is aligned, lies at the top of the stack, and no
  other memory changes.\<close>

theorem program_arguments:
  assumes "\<forall>a\<in>set argv. 0 \<in> set a" and "length argv \<le> MAX_ARGS" and "arg_bytes argv \<le> 4096"
  shows "\<exists>esp u'. build_user_args argv u = Some (esp, u') \<and> args_at u' esp (map cstr argv) \<and>
    within (unat esp) (unat USER_STACK) u u' \<and> 0x7FDF00 \<le> unat esp \<and> unat esp mod 4 = 0 \<and> unat esp < unat USER_STACK"
  by (rule build_user_args_eq [OF assms])

theorem program_arguments_witness:
  "\<exists>esp u'. build_user_args [asc ''cat'' @ [0, 9], asc ''f'' @ [0]] fresh_user = Some (esp, u') \<and>
    get32 u' (esp + 4) = 2 \<and> string_at u' (get32 u' (get32 u' (esp + 8) + 4)) (asc ''f'')"
proof -
  have c: "cstr (asc ''cat'' @ [0, 9]) = asc ''cat''" "cstr (asc ''f'' @ [0]) = asc ''f''" by (simp_all add: of_char_def)
  have "arg_bytes [asc ''cat'' @ [0, 9], asc ''f'' @ [0]] \<le> 4096" by (simp add: arg_bytes_def c)
  with program_arguments [of "[asc ''cat'' @ [0, 9], asc ''f'' @ [0]]" fresh_user] obtain esp u' where
    "build_user_args [asc ''cat'' @ [0, 9], asc ''f'' @ [0]] fresh_user = Some (esp, u')"
    "args_at u' esp [asc ''cat'', asc ''f'']" by (auto simp: MAX_ARGS_def c)
  then show ?thesis by (auto simp: args_at_def All_less_Suc2 eval_nat_numeral)
qed

section \<open>Entering a program\<close>

lemma vm_note_load_brk:
  assumes "unat n \<le> 0x290000"
  shows "unat (brk (vm_note_load n m)) = 0x400000 + (unat n + 4095) div 4096 * 4096"
proof -
  let ?r = "(n + PAGE_SIZE - 1) AND NOT (PAGE_SIZE - 1)"
  have r: "unat ?r = (unat n + 4095) div 4096 * 4096" using page_up [of n] assms by simp
  have "(unat n + 4095) div 4096 * 4096 \<le> unat n + 4095" by (rule div_times_less_eq_dividend)
  then have "unat (USER_BASE + ?r) = 0x400000 + unat ?r" using assms r by (simp add: USER_BASE_def unat_add_no_wrap)
  moreover have "\<not> USER_BASE + ?r < USER_BASE" using calculation by (simp add: word_less_nat_alt USER_BASE_def)
  ultimately show ?thesis using r by (simp add: vm_note_load_def Let_def)
qed

lemma on_mem_simps [simp]:
  "cur (on_mem f s) = cur s" "sy_fs (sh_sys (on_mem f s)) = sy_fs (sh_sys s)" "sy_kbd (sh_sys (on_mem f s)) = sy_kbd (sh_sys s)"
  "sy_wm (sh_sys (on_mem f s)) = sy_wm (sh_sys s)" "sy_mem (sh_sys (on_mem f s)) = f (sy_mem (sh_sys s))"
  by (simp_all add: on_mem_def cur_def cur_term_def)

lemma enter_program_eq:
  assumes "shell_ok s" and "\<forall>a\<in>set argv. 0 \<in> set a" and "length argv \<le> MAX_ARGS" and "arg_bytes argv \<le> 4096"
    and "unat note \<le> 0x290000"
  shows "\<exists>esp u' s'. enter_program note eip argv u s = Some (Entered eip esp u' s') \<and> sys_ok (sh_sys s') \<and>
    args_at u' esp (map cstr argv) \<and> within (unat esp) (unat USER_STACK) u u' \<and> 0x7FDF00 \<le> unat esp \<and>
    unat (brk (sy_mem (sh_sys s'))) = 0x400000 + (unat note + 4095) div 4096 * 4096 \<and>
    pending (sy_kbd (sh_sys s')) = [] \<and> \<not> t_prompt (cur s') \<and> sy_fs (sh_sys s') = sy_fs (sh_sys s)"
proof -
  let ?s = "on_mem (vm_note_load note) s" and ?t = "(cur s)\<lparr>t_prompt := False\<rparr>"
  note b = vm_note_load_brk [OF assms(5), of "sy_mem (sh_sys s)"]
  have "(unat note + 4095) div 4096 * 4096 \<le> unat note + 4095" by (rule div_times_less_eq_dividend)
  then have range: "USER_BASE \<le> brk (vm_note_load note (sy_mem (sh_sys s)))" "brk (vm_note_load note (sy_mem (sh_sys s))) \<le> USER_STACK"
    using b assms(5) by (simp_all add: word_le_nat_alt USER_BASE_def USER_STACK_def)
  have ok: "shell_ok ?s" using assms(1) by (simp add: shell_ok_def kernel_ok_def)
  have t: "term_ok ?t" using shell_okD(1) [OF assms(1)] by (simp add: term_ok_def)
  let ?s1 = "paint ?t (w_vga (sy_wm (sh_sys ?s))) ?s"
  have p: "on_term (\<lambda>t. Some (t\<lparr>t_prompt := False\<rparr>)) ?s = Some ?s1"
    using on_term_eq [OF ok, of "\<lambda>t. Some (t\<lparr>t_prompt := False\<rparr>)" ?t] by simp
  note ok1 = paint_ok(1,2) [OF ok t shell_okD(2) [OF ok]]
  let ?s2 = "?s1\<lparr>sh_sys := (sh_sys ?s1)\<lparr>sy_kbd := kbd_flush (sy_kbd (sh_sys ?s1))\<rparr>\<rparr>"
  have kb: "kbd_ok (sy_kbd (sh_sys ?s1))" using ok1(1) by (simp add: shell_ok_def kernel_ok_def)
  then have "kernel_ok (sh_sys ?s2)" using ok1(1) kbd_flush_empty [OF kb] by (simp add: shell_ok_def kernel_ok_def)
  then have ok2: "sys_ok (sh_sys ?s2)" using range by (simp add: sys_kernel_ok)
  have c2: "cur ?s2 = ?t" using ok1(2) by (simp add: cur_def cur_term_def)
  obtain esp u' where a: "build_user_args argv u = Some (esp, u')" "args_at u' esp (map cstr argv)"
    "within (unat esp) (unat USER_STACK) u u'" "0x7FDF00 \<le> unat esp" using build_user_args_eq [OF assms(2-4)] by blast
  have "enter_program note eip argv u s = Some (Entered eip esp u' ?s2)"
    using p a(1) by (simp add: enter_program_def Let_def)
  then show ?thesis using a ok2 c2 b kbd_flush_empty [OF kb] by (auto intro!: exI [of _ esp])
qed

lemma region_within:
  assumes "within lo hi u u'" and "unat p + k \<le> lo" and "lo \<le> 4294967296"
  shows "region u' p k = region u p k"
  unfolding region_def using assms u32_shift [of p] by (intro map_cong) (auto simp: within_def)

text \<open>An image that may start does, and where.\<close>

lemma start_valid_image:
  assumes "shell_ok s" and "\<forall>a\<in>set argv. 0 \<in> set a" and "length argv \<le> MAX_ARGS" and "arg_bytes argv \<le> 4096"
    and "n \<le> USER_PROG_MAX" and "fsize = rd32_le u (USER_BASE + 4)" and "fentry = rd32_le u (USER_BASE + 8)"
    and "flat \<longleftrightarrow> 12 \<le> n \<and> region u USER_BASE 4 = TCC_FLAT_MAGIC"
    and "flat \<Longrightarrow> fsize \<le> n - 12 \<and> fsize + 12 \<le> TCC_FLAT_MAX \<and> fentry < fsize"
  defines "start \<equiv> if flat then TCC_FLAT_BASE else USER_BASE" and "len \<equiv> if flat then unat fsize else unat n"
  shows "\<exists>eip esp u' s'. start_image n argv u s = Some (Entered eip esp u' s') \<and> sys_ok (sh_sys s') \<and>
    eip = start + (if flat then fentry else 0) \<and> (0 < len \<longrightarrow> unat eip < unat start + len) \<and>
    region u' start len = region u (if flat then USER_BASE + 12 else USER_BASE) len \<and>
    unat start + len \<le> unat (brk (sy_mem (sh_sys s'))) \<and> brk (sy_mem (sh_sys s')) < esp \<and>
    args_at u' esp (map cstr argv) \<and> pending (sy_kbd (sh_sys s')) = []"
proof -
  have n: "unat n \<le> 0x200000" using assms(5) by (simp add: word_le_nat_alt USER_PROG_MAX_def)
  have sn: "12 \<le> sint n \<longleftrightarrow> 12 \<le> n" using n sint_small [of n] by (simp add: word_le_def)
  have up: "a \<le> (a + 4095) div 4096 * 4096 \<and> (a + 4095) div 4096 * 4096 \<le> a + 4095" for a :: nat
  proof -
    obtain b where b: "b = a + 4095" by blast
    have "b div 4096 * 4096 + b mod 4096 = b" "b mod 4096 < 4096" by (rule div_mult_mod_eq) simp
    then show ?thesis unfolding b [symmetric] using b by linarith
  qed
  show ?thesis
  proof (cases flat)
    case False
    have len: "unat n \<le> 0x290000" using n by simp
    from enter_program_eq [OF assms(1-4) len, of USER_BASE u] obtain esp u' s' where
      e: "enter_program n USER_BASE argv u s = Some (Entered USER_BASE esp u' s')" "sys_ok (sh_sys s')" "args_at u' esp (map cstr argv)"
      "within (unat esp) (unat USER_STACK) u u'" "0x7FDF00 \<le> unat esp"
      "unat (brk (sy_mem (sh_sys s'))) = 0x400000 + (unat n + 4095) div 4096 * 4096" "pending (sy_kbd (sh_sys s')) = []" by blast
    have "start_image n argv u s = Some (Entered USER_BASE esp u' s')"
      using e(1) False assms(8) by (auto simp: start_image_def sn)
    moreover have "region u' USER_BASE (unat n) = region u USER_BASE (unat n)"
      using e(5) n by (intro region_within [OF e(4)]) (simp_all add: USER_BASE_def unat_u32_lt less_imp_le)
    moreover have "brk (sy_mem (sh_sys s')) < esp" using e(5,6) n up [of "unat n"] by (simp add: word_less_nat_alt)
    ultimately show ?thesis using e False up [of "unat n"] by (simp add: start_def len_def USER_BASE_def)
  next
    case True
    note h = assms(9) [OF True]
    have f12: "unat fsize \<le> unat n - 12" using h assms(8) True
      by (auto simp: word_le_nat_alt unat_sub_no_wrap)
    then have "unat (fsize + 12) = unat fsize + 12" using n by (simp add: unat_add_no_wrap)
    then have f: "unat fsize + 12 \<le> 0x10000" using h by (simp add: word_le_nat_alt TCC_FLAT_MAX_def)
    have fe: "unat fentry < unat fsize" using h by (simp add: word_less_nat_alt)
    let ?u = "put_region u TCC_FLAT_BASE (region u (USER_BASE + 12) (unat fsize))" and ?note = "(TCC_FLAT_BASE - USER_BASE) + fsize"
    have nt: "unat ?note = 0x280000 + unat fsize" using f by (simp add: TCC_FLAT_BASE_def USER_BASE_def unat_add_no_wrap)
    then have len: "unat ?note \<le> 0x290000" using f by simp
    from enter_program_eq [OF assms(1-4) len, of "TCC_FLAT_BASE + fentry" ?u] obtain esp u' s' where
      e: "enter_program ?note (TCC_FLAT_BASE + fentry) argv ?u s = Some (Entered (TCC_FLAT_BASE + fentry) esp u' s')"
      "sys_ok (sh_sys s')" "args_at u' esp (map cstr argv)" "within (unat esp) (unat USER_STACK) ?u u'" "0x7FDF00 \<le> unat esp"
      "unat (brk (sy_mem (sh_sys s'))) = 0x400000 + (unat ?note + 4095) div 4096 * 4096" "pending (sy_kbd (sh_sys s')) = []" by blast
    have "unat (TCC_FLAT_BASE + fsize) = 0x680000 + unat fsize" using f by (simp add: TCC_FLAT_BASE_def unat_add_no_wrap)
    then have good: "\<not> (fsize > n - 12 \<or> fsize + 12 > TCC_FLAT_MAX \<or> TCC_FLAT_BASE + fsize > USER_STACK \<or> fentry \<ge> fsize)"
      using h f fe by (auto simp: not_less not_le word_le_nat_alt USER_STACK_def)
    have st: "start_image n argv u s = Some (Entered (TCC_FLAT_BASE + fentry) esp u' s')"
      using e(1) True assms(6-8) good by (simp add: start_image_def sn Let_def)
    have eip: "unat (TCC_FLAT_BASE + fentry) = 0x680000 + unat fentry" using f fe by (simp add: TCC_FLAT_BASE_def unat_add_no_wrap)
    have "region u' TCC_FLAT_BASE (unat fsize) = region ?u TCC_FLAT_BASE (unat fsize)"
      using e(5) f by (intro region_within [OF e(4)]) (simp_all add: TCC_FLAT_BASE_def less_imp_le)
    also have "\<dots> = region u (USER_BASE + 12) (unat fsize)"
    proof (rule nth_equalityI)
      fix i assume "i < length (region ?u TCC_FLAT_BASE (unat fsize))"
      then have i: "i < unat fsize" by simp
      have "unat (TCC_FLAT_BASE + of_nat i) = 0x680000 + i" using u32_shift [of TCC_FLAT_BASE i] i f by (simp add: TCC_FLAT_BASE_def)
      then have "?u (TCC_FLAT_BASE + of_nat i) = region u (USER_BASE + 12) (unat fsize) ! i"
        using put_region_eq [of TCC_FLAT_BASE "region u (USER_BASE + 12) (unat fsize)" u] i f by (simp add: TCC_FLAT_BASE_def)
      then show "region ?u TCC_FLAT_BASE (unat fsize) ! i = region u (USER_BASE + 12) (unat fsize) ! i"
        using i by (simp add: region_def)
    qed simp
    finally have r: "region u' TCC_FLAT_BASE (unat fsize) = region u (USER_BASE + 12) (unat fsize)" .
    have "brk (sy_mem (sh_sys s')) < esp" using e(5,6) nt f up [of "unat ?note"] by (simp add: word_less_nat_alt)
    then show ?thesis using e st r eip fe True nt up [of "unat ?note"]
      by (simp add: start_def len_def) (simp add: TCC_FLAT_BASE_def)
  qed
qed

text \<open>An image with the magic and a header that does not describe it is refused.\<close>

lemma start_bad_image:
  assumes "n \<le> USER_PROG_MAX" and "12 \<le> n" and "region u USER_BASE 4 = TCC_FLAT_MAGIC"
    and "fsize = rd32_le u (USER_BASE + 4)" and "fentry = rd32_le u (USER_BASE + 8)"
    and "\<not> (fsize \<le> n - 12 \<and> fsize + 12 \<le> TCC_FLAT_MAX \<and> fentry < fsize)"
  shows "start_image n argv u s = refuse ''run: bad flat binary'' s"
proof -
  have n: "unat n \<le> 0x200000" using assms(1) by (simp add: word_le_nat_alt USER_PROG_MAX_def)
  have "12 \<le> sint n" using n sint_small [of n] assms(2) by (simp add: word_le_def)
  with assms(3-6) show ?thesis by (auto simp: start_image_def Let_def not_le not_less)
qed

lemma refuse_not_entered: "refuse why s \<noteq> Some (Entered eip esp u s')"
  by (auto simp: refuse_def returned_def)

text \<open>C8: A program only ever starts inside its image, whatever the file holds. A plain image starts at USER_BASE. An image
  with the compiler's magic starts, at its entry in the copy at TCC_FLAT_BASE, exactly when its header describes it:
  the size within the file and the limit and the entry below the size; with any other header nothing is entered and
  the shell reports a bad binary. In what is entered the image is what the file holds, the break is above it and
  below the argument block, no key typed to the shell reaches the program, and the kernel is in the state every
  system call keeps.\<close>

theorem program_starts_inside:
  assumes "shell_ok s" and "\<forall>a\<in>set argv. 0 \<in> set a" and "length argv \<le> MAX_ARGS" and "arg_bytes argv \<le> 4096"
    and "n \<le> USER_PROG_MAX" and "fsize = rd32_le u (USER_BASE + 4)" and "fentry = rd32_le u (USER_BASE + 8)"
    and "flat \<longleftrightarrow> 12 \<le> n \<and> region u USER_BASE 4 = TCC_FLAT_MAGIC"
    and "valid \<longleftrightarrow> fsize \<le> n - 12 \<and> fsize + 12 \<le> TCC_FLAT_MAX \<and> fentry < fsize"
  defines "start \<equiv> if flat then TCC_FLAT_BASE else USER_BASE" and "len \<equiv> if flat then unat fsize else unat n"
  shows "if flat \<and> \<not> valid
    then start_image n argv u s = refuse ''run: bad flat binary'' s \<and>
      (\<forall>eip esp u' s'. start_image n argv u s \<noteq> Some (Entered eip esp u' s'))
    else \<exists>eip esp u' s'. start_image n argv u s = Some (Entered eip esp u' s') \<and> sys_ok (sh_sys s') \<and>
      eip = start + (if flat then fentry else 0) \<and> (0 < len \<longrightarrow> unat eip < unat start + len) \<and>
      region u' start len = region u (if flat then USER_BASE + 12 else USER_BASE) len \<and>
      unat start + len \<le> unat (brk (sy_mem (sh_sys s'))) \<and> brk (sy_mem (sh_sys s')) < esp \<and>
      args_at u' esp (map cstr argv) \<and> pending (sy_kbd (sh_sys s')) = []"
proof (cases "flat \<and> \<not> valid")
  case True
  with assms(8,9) have "start_image n argv u s = refuse ''run: bad flat binary'' s"
    by (intro start_bad_image [OF assms(5) _ _ assms(6,7)]) auto
  with True show ?thesis by (simp add: refuse_not_entered)
next
  case False
  then have "flat \<Longrightarrow> fsize \<le> n - 12 \<and> fsize + 12 \<le> TCC_FLAT_MAX \<and> fentry < fsize" using assms(9) by blast
  from start_valid_image [OF assms(1-8) this] show ?thesis
    unfolding if_not_P [OF False] start_def len_def .
qed

theorem program_starts_inside_witness:
  "\<exists>eip esp u' s'. start_image 16 [asc ''a'' @ [0]]
      (put_region fresh_user USER_BASE (asc ''LUNB'' @ [4, 0, 0, 0, 1, 0, 0, 0, 7, 8, 9, 10])) (blank_shell []) =
        Some (Entered eip esp u' s') \<and> eip = 0x680001 \<and> region u' 0x680000 4 = [7, 8, 9, 10]"
proof -
  let ?u = "put_region fresh_user USER_BASE (asc ''LUNB'' @ [4, 0, 0, 0, 1, 0, 0, 0, 7, 8, 9, 10])"
  have r: "rd32_le ?u (USER_BASE + 4) = 4" "rd32_le ?u (USER_BASE + 8) = 1" "region ?u USER_BASE 4 = TCC_FLAT_MAGIC"
    "region ?u (USER_BASE + 12) 4 = [7, 8, 9, 10]" by code_simp+
  have c: "cstr (asc ''a'' @ [0]) = asc ''a''" by (simp add: of_char_def)
  have a: "arg_bytes [asc ''a'' @ [0]] \<le> 4096" by (simp add: arg_bytes_def c)
  have ok: "shell_ok (blank_shell [])" by (rule blank_shell_ok) simp
  have n: "(16 :: u32) \<le> USER_PROG_MAX" by (simp add: USER_PROG_MAX_def)
  have flat: "True \<longleftrightarrow> (12 :: u32) \<le> 16 \<and> region ?u USER_BASE 4 = TCC_FLAT_MAGIC" using r(3) by simp
  have valid: "True \<longleftrightarrow> (4 :: u32) \<le> 16 - 12 \<and> 4 + 12 \<le> TCC_FLAT_MAX \<and> (1 :: u32) < 4" by (simp add: TCC_FLAT_MAX_def)
  have "\<forall>b\<in>set [asc ''a'' @ [0]]. 0 \<in> set b" "length [asc ''a'' @ [0]] \<le> MAX_ARGS" by (simp_all add: MAX_ARGS_def)
  from program_starts_inside [OF ok this a n r(1,2) [symmetric] flat valid] show ?thesis
    unfolding if_True simp_thms if_False by (auto simp: TCC_FLAT_BASE_def r(4) [simplified])
qed

end
