(* ===== verification/Edit.thy ===== *)
theory Edit
  imports Mirror
begin

text \<open>
home/edit.c: the text editor. Its statics are a record; an offset into the buffer is a natural number, the horizontal
  scroll an int of the code. A string is its object's bytes, NUL included; a local array starts as zeroes, of which nothing is
  read before it is written. The name and the buffer the file calls get lie in the program's memory at given addresses.
\<close>

section \<open>The state\<close>

text \<open>What the linker gives: the kernel behind \<open>int $0x80\<close>, where the object a file name lies in is, and where buf is.\<close>

record 'd edit_env =
  ev_kernel :: "'d kernel"
  ev_name :: u32
  ev_buf :: u32

record edit =
  e_buf :: "byte list"
  e_len :: nat
  e_pos :: nat
  e_top :: nat
  e_offx :: int
  e_dirty :: bool
  e_cmd_mode :: bool
  e_cmd_len :: nat
  e_quit :: bool
  e_cmd :: "byte list"
  e_fname :: "byte list"
  e_msg :: "byte list"

definition ATTR_TEXT :: byte where "ATTR_TEXT = 0x07"
definition ATTR_TITLE :: byte where "ATTR_TITLE = 0x1F"
definition ATTR_STATUS :: byte where "ATTR_STATUS = 0x1F"
definition ATTR_FRAME :: byte where "ATTR_FRAME = 0x03"
definition ATTR_FIELD :: byte where "ATTR_FIELD = 0x8F"
definition TEXT_ROWS :: nat where "TEXT_ROWS = 23"
definition BUF_MAX :: nat where "BUF_MAX = 65536"
definition TAB_W :: nat where "TAB_W = 4"
definition CMD_MAX :: nat where "CMD_MAX = 50"

fun scat :: "byte list \<Rightarrow> byte list \<Rightarrow> byte list option" where
  "scat [] s = None"
| "scat (c # d) s = (if c \<noteq> 0 then map_option (Cons c) (scat d s) else strcpy (c # d) s)"

definition scatn :: "byte list \<Rightarrow> nat \<Rightarrow> byte list option" where
  "scatn d n = do { t \<leftarrow> itoa (of_nat n) (replicate 12 0); scat d t }"

fun set_msg_loop :: "nat \<Rightarrow> byte list \<Rightarrow> byte list \<Rightarrow> byte list option" where
  "set_msg_loop i [] m = None"
| "set_msg_loop i (c # s) m =
     (if c \<noteq> 0 \<and> i < 71 then do { m \<leftarrow> store m i c; set_msg_loop (i + 1) s m } else store m i 0)"

definition set_msg :: "byte list \<Rightarrow> edit \<Rightarrow> edit option" where
  "set_msg s e = do { m \<leftarrow> set_msg_loop 0 s (e_msg e); Some (e\<lparr>e_msg := m\<rparr>) }"

section \<open>Lines and columns\<close>

fun line_begin :: "byte list \<Rightarrow> nat \<Rightarrow> nat option" where
  "line_begin buf 0 = Some 0"
| "line_begin buf (Suc p) = do { c \<leftarrow> load buf p; if c \<noteq> 10 then line_begin buf p else Some (Suc p) }"

fun line_end_loop :: "byte list \<Rightarrow> nat \<Rightarrow> nat \<Rightarrow> nat option" where
  "line_end_loop buf p 0 = Some p"
| "line_end_loop buf p (Suc n) = do { c \<leftarrow> load buf p; if c \<noteq> 10 then line_end_loop buf (p + 1) n else Some p }"

definition line_end :: "byte list \<Rightarrow> nat \<Rightarrow> nat \<Rightarrow> nat option" where
  "line_end buf len p = line_end_loop buf p (len - p)"

text \<open>The column after a character.\<close>

definition next_col :: "byte \<Rightarrow> nat \<Rightarrow> nat" where
  "next_col ch c = (if ch = 9 then c + (TAB_W - c mod TAB_W) else c + 1)"

fun col_loop :: "byte list \<Rightarrow> nat \<Rightarrow> nat \<Rightarrow> nat \<Rightarrow> nat option" where
  "col_loop buf i 0 c = Some c"
| "col_loop buf i (Suc n) c = do { ch \<leftarrow> load buf i; col_loop buf (i + 1) n (next_col ch c) }"

definition col_of :: "byte list \<Rightarrow> nat \<Rightarrow> nat option" where
  "col_of buf p = do { b \<leftarrow> line_begin buf p; col_loop buf b (p - b) 0 }"

fun col_walk :: "byte list \<Rightarrow> nat \<Rightarrow> nat \<Rightarrow> nat \<Rightarrow> nat \<Rightarrow> (nat \<times> nat) option" where
  "col_walk buf target i 0 c = Some (i, c)"
| "col_walk buf target i (Suc n) c =
     (if c < target then do { ch \<leftarrow> load buf i; col_walk buf target (i + 1) n (next_col ch c) } else Some (i, c))"

definition pos_for_col :: "byte list \<Rightarrow> nat \<Rightarrow> nat \<Rightarrow> nat \<Rightarrow> nat option" where
  "pos_for_col buf len start target = do {
     e \<leftarrow> line_end buf len start;
     (i, c) \<leftarrow> col_walk buf target start (e - start) 0;
     Some (if c > target \<and> i > start then i - 1 else i) }"

text \<open>The newlines in a stretch of the buffer, as line_of and draw count them.\<close>

fun newlines :: "byte list \<Rightarrow> nat \<Rightarrow> nat \<Rightarrow> nat \<Rightarrow> nat option" where
  "newlines buf i 0 k = Some k"
| "newlines buf i (Suc n) k = do { c \<leftarrow> load buf i; newlines buf (i + 1) n (if c = 10 then k + 1 else k) }"

definition line_of :: "byte list \<Rightarrow> nat \<Rightarrow> nat option" where
  "line_of buf p = newlines buf 0 p 1"

section \<open>Editing\<close>

text \<open>The loops of do_insert that move the tail up and fill the gap, and of do_backspace that moves it down.\<close>

fun move_up :: "nat \<Rightarrow> nat \<Rightarrow> nat \<Rightarrow> byte list \<Rightarrow> byte list option" where
  "move_up p n 0 buf = Some buf"
| "move_up p n (Suc j) buf = do { c \<leftarrow> load buf (p + j); buf \<leftarrow> store buf (p + j + n) c; move_up p n j buf }"

fun fill_gap :: "nat \<Rightarrow> nat \<Rightarrow> byte \<Rightarrow> byte list \<Rightarrow> byte list option" where
  "fill_gap p 0 c buf = Some buf"
| "fill_gap p (Suc n) c buf = do { buf \<leftarrow> store buf p c; fill_gap (p + 1) n c buf }"

fun move_down :: "nat \<Rightarrow> nat \<Rightarrow> byte list \<Rightarrow> byte list option" where
  "move_down i 0 buf = Some buf"
| "move_down i (Suc n) buf = do { c \<leftarrow> load buf i; buf \<leftarrow> store buf (i - 1) c; move_down (i + 1) n buf }"

definition do_insert :: "byte \<Rightarrow> nat \<Rightarrow> edit \<Rightarrow> edit option" where
  "do_insert c n e =
     (if e_len e + n \<ge> BUF_MAX then set_msg (lit ''buffer full'') e
      else do {
        b \<leftarrow> move_up (e_pos e) n (e_len e - e_pos e) (e_buf e);
        b \<leftarrow> fill_gap (e_pos e) n c b;
        Some (e\<lparr>e_buf := b, e_pos := e_pos e + n, e_len := e_len e + n, e_dirty := True\<rparr>) })"

definition do_backspace :: "edit \<Rightarrow> edit option" where
  "do_backspace e =
     (if e_pos e = 0 then Some e
      else do {
        b \<leftarrow> move_down (e_pos e) (e_len e - e_pos e) (e_buf e);
        Some (e\<lparr>e_buf := b, e_pos := e_pos e - 1, e_len := e_len e - 1, e_dirty := True\<rparr>) })"

section \<open>The view\<close>

partial_function (option) top_up :: "byte list \<Rightarrow> nat \<Rightarrow> nat \<Rightarrow> nat option" where
  "top_up buf lb tp =
     (if lb < tp then do { tp \<leftarrow> (if tp > 0 then line_begin buf (tp - 1) else Some 0); top_up buf lb tp }
      else Some tp)"

text \<open>The start of the last line on the screen, or one past the text's end.\<close>

fun last_visible :: "byte list \<Rightarrow> nat \<Rightarrow> nat \<Rightarrow> nat \<Rightarrow> nat option" where
  "last_visible buf len la 0 = Some la"
| "last_visible buf len la (Suc n) = do {
     e \<leftarrow> line_end buf len la;
     if e \<ge> len then Some (len + 1) else last_visible buf len (e + 1) n }"

partial_function (option) top_down :: "byte list \<Rightarrow> nat \<Rightarrow> nat \<Rightarrow> nat \<Rightarrow> nat option" where
  "top_down buf len lb tp = do {
     la \<leftarrow> last_visible buf len tp (TEXT_ROWS - 1);
     if lb \<le> la then Some tp
     else do { e \<leftarrow> line_end buf len tp; top_down buf len lb (e + 1) } }"

definition scroll_fix :: "edit \<Rightarrow> edit option" where
  "scroll_fix e = do {
     lb \<leftarrow> line_begin (e_buf e) (e_pos e);
     tp \<leftarrow> top_up (e_buf e) lb (e_top e);
     tp \<leftarrow> top_down (e_buf e) (e_len e) lb tp;
     c \<leftarrow> col_of (e_buf e) (e_pos e);
     let offx = (if int c < e_offx e then int c
       else if int c \<ge> e_offx e + MIRROR_COLS then int c - (MIRROR_COLS - 1) else e_offx e);
     Some (e\<lparr>e_top := tp, e_offx := (if offx < 0 then 0 else offx)\<rparr>) }"

fun tab_cells :: "int \<Rightarrow> int \<Rightarrow> nat \<Rightarrow> mirror \<Rightarrow> mirror option" where
  "tab_cells row sx 0 m = Some m"
| "tab_cells row sx (Suc n) m = do {
     m \<leftarrow> (if sx \<ge> 0 \<and> sx < MIRROR_COLS then mirror_putc sx row 32 ATTR_TEXT m else Some m);
     tab_cells row (sx + 1) n m }"

text \<open>One character of a line at its column, and the line from \<open>i\<close> on.\<close>

definition draw_char :: "int \<Rightarrow> int \<Rightarrow> nat \<Rightarrow> byte \<Rightarrow> mirror \<Rightarrow> mirror option" where
  "draw_char row offx col c m =
     (if c = 9 then tab_cells row (int col - offx) (TAB_W - col mod TAB_W) m
      else
        let c = (if sint c < 32 \<or> sint c > 126 then 46 else c); sx = int col - offx
        in if sx \<ge> 0 \<and> sx < MIRROR_COLS then mirror_putc sx row c ATTR_TEXT m else Some m)"

fun draw_chars :: "byte list \<Rightarrow> int \<Rightarrow> int \<Rightarrow> nat \<Rightarrow> nat \<Rightarrow> nat \<Rightarrow> mirror \<Rightarrow> mirror option" where
  "draw_chars buf row offx i 0 col m = Some m"
| "draw_chars buf row offx i (Suc n) col m = do {
     c \<leftarrow> load buf i;
     m \<leftarrow> draw_char row offx col c m;
     let col = next_col c col;
     if int col - offx \<ge> MIRROR_COLS then Some m else draw_chars buf row offx (i + 1) n col m }"

definition draw_line :: "int \<Rightarrow> nat \<Rightarrow> edit \<Rightarrow> mirror \<Rightarrow> mirror option" where
  "draw_line row s e m = do {
     m \<leftarrow> mirror_fill 0 row MIRROR_COLS 1 32 ATTR_TEXT m;
     if s > e_len e then Some m
     else do {
       ed \<leftarrow> line_end (e_buf e) (e_len e) s;
       draw_chars (e_buf e) row (e_offx e) s (ed - s) 0 m } }"

fun draw_rows :: "int \<Rightarrow> nat \<Rightarrow> nat \<Rightarrow> edit \<Rightarrow> mirror \<Rightarrow> mirror option" where
  "draw_rows row 0 s e m = Some m"
| "draw_rows row (Suc n) s e m = do {
     m \<leftarrow> draw_line row s e m;
     s \<leftarrow> (if s \<le> e_len e then do {
             ed \<leftarrow> line_end (e_buf e) (e_len e) s;
             Some (if ed < e_len e then ed + 1 else e_len e + 1) }
           else Some s);
     draw_rows (row + 1) n s e m }"

text \<open>The title line and the last line, with the caret.\<close>

definition draw_title :: "edit \<Rightarrow> mirror \<Rightarrow> mirror option" where
  "draw_title e m = do {
     left \<leftarrow> strcpy (replicate 76 0) (lit ''lunaria edit - '');
     c \<leftarrow> load (e_fname e) 0;
     left \<leftarrow> scat left (if c \<noteq> 0 then e_fname e else lit ''(untitled)'');
     mirror_status 0 (Some left) (Some (if e_dirty e then lit ''modified'' else lit '''')) ATTR_TITLE m }"

definition draw_command :: "'d kernel \<Rightarrow> edit \<Rightarrow> mirror \<Rightarrow> 'd outcome \<Rightarrow> (mirror \<times> 'd outcome) option" where
  "draw_command k e m oc = do {
     left \<leftarrow> strcpy (replicate 76 0) (lit '':'');
     left \<leftarrow> scat left (e_cmd e);
     m \<leftarrow> mirror_status 24 (Some left) (Some (lit ''enter run - esc cancel'')) ATTR_STATUS m;
     oc \<leftarrow> mirror_cursor k (2 + int (e_cmd_len e)) 24 oc;
     Some (m, oc) }"

definition draw_position :: "'d kernel \<Rightarrow> edit \<Rightarrow> mirror \<Rightarrow> 'd outcome \<Rightarrow> (mirror \<times> 'd outcome) option" where
  "draw_position k e m oc = do {
     right \<leftarrow> strcpy (replicate 26 0) (lit ''L'');
     l \<leftarrow> line_of (e_buf e) (e_pos e);
     right \<leftarrow> scatn right l;
     right \<leftarrow> scat right (lit '' C'');
     c \<leftarrow> col_of (e_buf e) (e_pos e);
     right \<leftarrow> scatn right (c + 1);
     c0 \<leftarrow> load (e_msg e) 0;
     left \<leftarrow> strcpy (replicate 76 0) (if c0 \<noteq> 0 then e_msg e else lit ''esc commands | arrows move | type to edit'');
     m \<leftarrow> mirror_status 24 (Some left) (Some right) ATTR_STATUS m;
     row \<leftarrow> newlines (e_buf e) (e_top e) (e_pos e - e_top e) 0;
     oc \<leftarrow> mirror_cursor k (int c - e_offx e) (1 + int row) oc;
     Some (m, oc) }"

definition draw :: "'d kernel \<Rightarrow> edit \<Rightarrow> mirror \<Rightarrow> 'd outcome \<Rightarrow> (mirror \<times> 'd outcome) option" where
  "draw k e m oc = do {
     m \<leftarrow> draw_title e m;
     m \<leftarrow> draw_rows 1 23 (e_top e) e m;
     if e_cmd_mode e then draw_command k e m oc else draw_position k e m oc }"

section \<open>Files\<close>

text \<open>The name's object and the buffer laid in the program's memory around a call, and read back.\<close>

definition with_objects :: "'d edit_env \<Rightarrow> byte list \<Rightarrow> edit \<Rightarrow> ('d outcome \<Rightarrow> (u32 \<times> 'd outcome) option) \<Rightarrow>
    'd outcome \<Rightarrow> (u32 \<times> edit \<times> 'd outcome) option" where
  "with_objects env name e f oc = do {
     (n, oc) \<leftarrow> f (oc\<lparr>oc_user := put_region (put_region (oc_user oc) (ev_buf env) (e_buf e)) (ev_name env) name\<rparr>);
     Some (n, e\<lparr>e_buf := region (oc_user oc) (ev_buf env) (length (e_buf e))\<rparr>, oc) }"

definition load_into :: "'d edit_env \<Rightarrow> byte list \<Rightarrow> edit \<Rightarrow> 'd outcome \<Rightarrow> (int \<times> edit \<times> 'd outcome) option" where
  "load_into env name e oc = do {
     (n, e, oc) \<leftarrow> with_objects env name e
        (sys_read_file (ev_kernel env) (ev_name env) (ev_buf env) (of_nat (BUF_MAX - 1))) oc;
     if sint n < 0 then Some (-1, e, oc)
     else do {
       f \<leftarrow> strcpy (e_fname e) name;
       Some (sint n, e\<lparr>e_len := nat (sint n), e_pos := 0, e_top := 0, e_offx := 0, e_dirty := False, e_fname := f\<rparr>, oc) } }"

definition save_file :: "'d edit_env \<Rightarrow> byte list \<Rightarrow> edit \<Rightarrow> 'd outcome \<Rightarrow> (bool \<times> edit \<times> 'd outcome) option" where
  "save_file env name e oc = do {
     c \<leftarrow> load name 0;
     l \<leftarrow> (if c = 0 then Some 0 else strlen name);
     if c = 0 then do { e \<leftarrow> set_msg (lit ''no file name - :w <name>'') e; Some (False, e, oc) }
     else if l \<ge> FS_MAX_NAME then do { e \<leftarrow> set_msg (lit ''name too long (max 22)'') e; Some (False, e, oc) }
     else do {
       (n, e, oc) \<leftarrow> with_objects env name e
          (sys_write_file (ev_kernel env) (ev_name env) (ev_buf env) (of_nat (e_len e))) oc;
       if n \<noteq> 0 then do { e \<leftarrow> set_msg (lit ''save failed'') e; Some (False, e, oc) }
       else do {
         f \<leftarrow> strcpy (e_fname e) name;
         m \<leftarrow> strcpy (e_msg e) (lit ''saved '');
         m \<leftarrow> scat m name;
         m \<leftarrow> scat m (lit '' ('');
         m \<leftarrow> scatn m (e_len e);
         m \<leftarrow> scat m (lit '' bytes)'');
         Some (True, e\<lparr>e_fname := f, e_dirty := False, e_msg := m\<rparr>, oc) } } }"

text \<open>The message of a load.\<close>

definition say_loaded :: "nat \<Rightarrow> edit \<Rightarrow> edit option" where
  "say_loaded n e = do {
     m \<leftarrow> strcpy (e_msg e) (lit ''loaded '');
     m \<leftarrow> scatn m n;
     m \<leftarrow> scat m (lit '' bytes'');
     Some (e\<lparr>e_msg := m\<rparr>) }"

section \<open>Commands\<close>

text \<open>The blanks at the start of a string, and those at the end of the \<open>n\<close> characters at \<open>i\<close>, which become NULs.\<close>

fun blanks_at :: "byte list \<Rightarrow> nat option" where
  "blanks_at [] = None"
| "blanks_at (c # s) = (if c = 32 then map_option Suc (blanks_at s) else Some 0)"

fun trim_blanks :: "nat \<Rightarrow> nat \<Rightarrow> byte list \<Rightarrow> byte list option" where
  "trim_blanks i 0 cmd = Some cmd"
| "trim_blanks i (Suc n) cmd = do {
     c \<leftarrow> load cmd (i + n);
     if c = 32 then do { cmd \<leftarrow> store cmd (i + n) 0; trim_blanks i n cmd } else Some cmd }"

definition quit_unless_dirty :: "edit \<Rightarrow> edit option" where
  "quit_unless_dirty e =
     (if e_dirty e then set_msg (lit ''modified - :w saves, :q! discards'') e else Some (e\<lparr>e_quit := True\<rparr>))"

definition new_buffer :: "edit \<Rightarrow> edit option" where
  "new_buffer e =
     (if e_dirty e then set_msg (lit ''modified - :w saves first'') e
      else do {
        f \<leftarrow> store (e_fname e) 0 0;
        set_msg (lit ''new empty buffer'') (e\<lparr>e_len := 0, e_pos := 0, e_top := 0, e_offx := 0, e_dirty := False, e_fname := f\<rparr>) })"

definition open_file :: "'d edit_env \<Rightarrow> byte list \<Rightarrow> edit \<Rightarrow> 'd outcome \<Rightarrow> (edit \<times> 'd outcome) option" where
  "open_file env arg e oc =
     (if e_dirty e then do { e \<leftarrow> set_msg (lit ''modified - :w saves first'') e; Some (e, oc) }
      else do {
        l \<leftarrow> strlen arg;
        if l \<ge> FS_MAX_NAME then do { e \<leftarrow> set_msg (lit ''name too long (max 22)'') e; Some (e, oc) }
        else do {
          (n, e, oc) \<leftarrow> load_into env arg e oc;
          e \<leftarrow> (if n < 0 then set_msg (lit ''no such file'') e else say_loaded (e_len e) e);
          Some (e, oc) } })"

text \<open>The argument after the command's letter.\<close>

definition argument :: "nat \<Rightarrow> byte list \<Rightarrow> byte list option" where
  "argument i cmd = do { j \<leftarrow> blanks_at (drop (i + 1) cmd); Some (drop (i + 1 + j) cmd) }"

definition do_command :: "'d edit_env \<Rightarrow> nat \<Rightarrow> edit \<Rightarrow> 'd outcome \<Rightarrow> (edit \<times> 'd outcome) option" where
  "do_command env i e oc = do {
     let c = drop i (e_cmd e);
     q \<leftarrow> strcmp c (lit ''q'');
     qq \<leftarrow> strcmp c (lit ''q!'');
     w \<leftarrow> strcmp c (lit ''w'');
     wq \<leftarrow> strcmp c (lit ''wq'');
     n \<leftarrow> strcmp c (lit ''n'');
     c0 \<leftarrow> load c 0;
     c1 \<leftarrow> load c 1;
     if q = 0 then do { e \<leftarrow> quit_unless_dirty e; Some (e, oc) }
     else if qq = 0 then Some (e\<lparr>e_quit := True\<rparr>, oc)
     else if w = 0 then do { (_, e, oc) \<leftarrow> save_file env (e_fname e) e oc; Some (e, oc) }
     else if wq = 0 then do {
       (ok, e, oc) \<leftarrow> save_file env (e_fname e) e oc;
       Some (if ok then e\<lparr>e_quit := True\<rparr> else e, oc) }
     else if n = 0 then do { e \<leftarrow> new_buffer e; Some (e, oc) }
     else if c0 = 101 \<and> c1 = 32 then do { arg \<leftarrow> argument i (e_cmd e); open_file env arg e oc }
     else if c0 = 119 \<and> c1 = 32 then do {
       arg \<leftarrow> argument i (e_cmd e);
       (_, e, oc) \<leftarrow> save_file env arg e oc;
       Some (e, oc) }
     else do { e \<leftarrow> set_msg (lit ''cmds: w [file] wq q q! e <file> n'') e; Some (e, oc) } }"

definition run_command :: "'d edit_env \<Rightarrow> edit \<Rightarrow> 'd outcome \<Rightarrow> (edit \<times> 'd outcome) option" where
  "run_command env e oc = do {
     i \<leftarrow> blanks_at (e_cmd e);
     n \<leftarrow> strlen (drop i (e_cmd e));
     cmd \<leftarrow> trim_blanks i n (e_cmd e);
     let e = e\<lparr>e_cmd := cmd\<rparr>;
     c \<leftarrow> load cmd i;
     if c = 0 then Some (e, oc) else do_command env i e oc }"

section \<open>Keys\<close>

definition key_up :: "edit \<Rightarrow> edit option" where
  "key_up e = do {
     lb \<leftarrow> line_begin (e_buf e) (e_pos e);
     if lb > 0 then do {
       s \<leftarrow> line_begin (e_buf e) (lb - 1);
       c \<leftarrow> col_of (e_buf e) (e_pos e);
       p \<leftarrow> pos_for_col (e_buf e) (e_len e) s c;
       Some (e\<lparr>e_pos := p\<rparr>) }
     else Some e }"

definition key_down :: "edit \<Rightarrow> edit option" where
  "key_down e = do {
     ed \<leftarrow> line_end (e_buf e) (e_len e) (e_pos e);
     if ed < e_len e then do {
       c \<leftarrow> col_of (e_buf e) (e_pos e);
       p \<leftarrow> pos_for_col (e_buf e) (e_len e) (ed + 1) c;
       Some (e\<lparr>e_pos := p\<rparr>) }
     else Some e }"

definition edit_key :: "u32 \<Rightarrow> edit \<Rightarrow> edit option" where
  "edit_key k e =
     (if k = MIRROR_KEY_ESC then do {
        cmd \<leftarrow> store (e_cmd e) 0 0;
        Some (e\<lparr>e_cmd_mode := True, e_cmd_len := 0, e_cmd := cmd\<rparr>) }
      else if k = MIRROR_KEY_LEFT then Some (if e_pos e > 0 then e\<lparr>e_pos := e_pos e - 1\<rparr> else e)
      else if k = MIRROR_KEY_RIGHT then Some (if e_pos e < e_len e then e\<lparr>e_pos := e_pos e + 1\<rparr> else e)
      else if k = MIRROR_KEY_UP then key_up e
      else if k = MIRROR_KEY_DOWN then key_down e
      else if k = MIRROR_KEY_BACKSPACE then do_backspace e
      else if k = 9 then do { c \<leftarrow> col_of (e_buf e) (e_pos e); do_insert 32 (TAB_W - c mod TAB_W) e }
      else if k = 10 then do_insert 10 1 e
      else if sint k \<ge> 32 \<and> sint k \<le> 126 then do_insert (ucast k) 1 e
      else Some e)"

definition cmd_key :: "'d edit_env \<Rightarrow> u32 \<Rightarrow> edit \<Rightarrow> 'd outcome \<Rightarrow> (edit \<times> 'd outcome) option" where
  "cmd_key env k e oc =
     (if k = MIRROR_KEY_ESC then Some (e\<lparr>e_cmd_mode := False\<rparr>, oc)
      else if k = MIRROR_KEY_ENTER then run_command env (e\<lparr>e_cmd_mode := False\<rparr>) oc
      else if k = MIRROR_KEY_BACKSPACE then
        (if e_cmd_len e > 0 then do {
           cmd \<leftarrow> store (e_cmd e) (e_cmd_len e - 1) 0;
           Some (e\<lparr>e_cmd_len := e_cmd_len e - 1, e_cmd := cmd\<rparr>, oc) }
         else Some (e\<lparr>e_cmd_mode := False\<rparr>, oc))
      else if sint k \<ge> 32 \<and> sint k \<le> 126 \<and> e_cmd_len e < CMD_MAX then do {
        cmd \<leftarrow> store (e_cmd e) (e_cmd_len e) (ucast k);
        cmd \<leftarrow> store cmd (e_cmd_len e + 1) 0;
        Some (e\<lparr>e_cmd_len := e_cmd_len e + 1, e_cmd := cmd\<rparr>, oc) }
      else Some (e, oc))"

section \<open>The program\<close>

definition startup_screen :: "mirror \<Rightarrow> mirror option" where
  "startup_screen m = do {
     m \<leftarrow> mirror_status 0 (Some (lit ''lunaria edit'')) (Some (lit ''v0.1'')) ATTR_TITLE m;
     m \<leftarrow> mirror_box 8 8 64 7 ATTR_FRAME (Some (lit '' open file '')) m;
     m \<leftarrow> mirror_puts 12 11 (Some (lit ''file name:'')) ATTR_TEXT m;
     m \<leftarrow> mirror_puts 12 16 (Some (lit ''enter opens it; a new name starts an empty buffer'')) ATTR_TEXT m;
     m \<leftarrow> mirror_puts 12 17 (Some (lit ''esc starts with an empty unnamed buffer'')) ATTR_TEXT m;
     mirror_status 24 (Some (lit ''a tiny text editor for LunariaOS'')) (Some (lit ''built on mirror'')) ATTR_STATUS m }"

definition startup :: "'d edit_env \<Rightarrow> edit \<Rightarrow> mirror \<Rightarrow> 'd outcome \<Rightarrow> (edit \<times> mirror \<times> 'd outcome) option" where
  "startup env e m oc = do {
     m \<leftarrow> startup_screen m;
     (r, name, m, oc) \<leftarrow> mirror_input (ev_kernel env) 26 11 44 (replicate 23 0) (int FS_MAX_NAME) ATTR_FIELD m oc;
     name \<leftarrow> (if r < 0 then store name 0 0 else Some name);
     c \<leftarrow> load name 0;
     if c = 0 then do { e \<leftarrow> set_msg (lit ''new buffer - :w <name> saves it'') e; Some (e, m, oc) }
     else do {
       (n, e, oc) \<leftarrow> load_into env name e oc;
       e \<leftarrow> (if n < 0 then do {
               f \<leftarrow> strcpy (e_fname e) name;
               s \<leftarrow> strcpy (e_msg e) (lit ''new file - '');
               s \<leftarrow> scat s f;
               Some (e\<lparr>e_fname := f, e_msg := s\<rparr>) }
             else say_loaded (nat n) e);
       Some (e, m, oc) } }"

text \<open>One round of the loop: show, wait for a key, act.\<close>

definition edit_show :: "'d edit_env \<Rightarrow> edit \<Rightarrow> mirror \<Rightarrow> 'd outcome \<Rightarrow> (edit \<times> mirror \<times> 'd outcome) option" where
  "edit_show env e m oc = do {
     e \<leftarrow> scroll_fix e;
     (m, oc) \<leftarrow> draw (ev_kernel env) e m oc;
     (m, oc) \<leftarrow> mirror_flush (ev_kernel env) m oc;
     Some (e, m, oc) }"

definition edit_act :: "'d edit_env \<Rightarrow> u32 \<Rightarrow> edit \<Rightarrow> 'd outcome \<Rightarrow> (edit \<times> 'd outcome) option" where
  "edit_act env k e oc = do {
     s \<leftarrow> store (e_msg e) 0 0;
     let e = e\<lparr>e_msg := s\<rparr>;
     if e_cmd_mode e then cmd_key env k e oc else map_option (\<lambda>e. (e, oc)) (edit_key k e) }"

partial_function (option) edit_loop :: "'d edit_env \<Rightarrow> edit \<Rightarrow> mirror \<Rightarrow> 'd outcome \<Rightarrow> (edit \<times> mirror \<times> 'd outcome) option" where
  "edit_loop env e m oc = do {
     (e, m, oc) \<leftarrow> edit_show env e m oc;
     (k, oc) \<leftarrow> mirror_getkey (ev_kernel env) oc;
     (e, oc) \<leftarrow> edit_act env k e oc;
     if e_quit e then Some (e, m, oc) else edit_loop env e m oc }"

text \<open>The statics start as zeroes; \<open>_start\<close> sets the ones it needs.\<close>

definition edit_start :: "'d edit_env \<Rightarrow> edit \<Rightarrow> mirror \<Rightarrow> 'd outcome \<Rightarrow> (edit \<times> mirror \<times> 'd outcome) option" where
  "edit_start env e m oc = do {
     cmd \<leftarrow> store (e_cmd e) 0 0;
     f \<leftarrow> store (e_fname e) 0 0;
     s \<leftarrow> store (e_msg e) 0 0;
     let e = e\<lparr>e_len := 0, e_pos := 0, e_top := 0, e_offx := 0, e_dirty := False, e_cmd_mode := False, e_cmd_len := 0,
       e_quit := False, e_cmd := cmd, e_fname := f, e_msg := s\<rparr>;
     (m, oc) \<leftarrow> mirror_init (ev_kernel env) ATTR_TEXT m oc;
     (e, m, oc) \<leftarrow> startup env e m oc;
     (e, m, oc) \<leftarrow> edit_loop env e m oc;
     (m, oc) \<leftarrow> mirror_flush (ev_kernel env) (mirror_clear ATTR_TEXT m) oc;
     oc \<leftarrow> sys_exit (ev_kernel env) oc;
     Some (e, m, oc) }"

end
