(* ===== verification/EditText.thy ===== *)
theory EditText
  imports Edit
begin

text \<open>
home/edit.c: lines and columns, the text before and after the caret as an abstract page with its keys, and the scroll
  position.
\<close>

section \<open>Lines and columns\<close>

text \<open>The line a text ends in, and the columns it takes.\<close>

definition last_line :: "byte list \<Rightarrow> byte list" where
  "last_line b = rev (takeWhile (\<lambda>c. c \<noteq> 10) (rev b))"

definition first_line :: "byte list \<Rightarrow> byte list" where
  "first_line a = takeWhile (\<lambda>c. c \<noteq> 10) a"

definition width_from :: "nat \<Rightarrow> byte list \<Rightarrow> nat" where
  "width_from c cs = foldl (\<lambda>c ch. next_col ch c) c cs"

text \<open>The longest prefix of a line that ends no further right than column \<open>w\<close>.\<close>

fun fit :: "nat \<Rightarrow> nat \<Rightarrow> byte list \<Rightarrow> byte list" where
  "fit c w [] = []"
| "fit c w (x # xs) = (if next_col x c \<le> w then x # fit (next_col x c) w xs else [])"

lemma width_from_simps [simp]: "width_from c [] = c" "width_from c (x # xs) = width_from (next_col x c) xs"
  by (simp_all add: width_from_def)

lemma width_from_append: "width_from c (xs @ ys) = width_from (width_from c xs) ys"
  by (simp add: width_from_def)

lemma next_col_gt: "c < next_col x c"
  using mod_less_divisor [of 4 c] by (auto simp: next_col_def TAB_W_def simp del: mod_less_divisor)

lemma last_line_snoc [simp]: "last_line (b @ [c]) = (if c = 10 then [] else last_line b @ [c])"
  by (simp add: last_line_def)

lemma last_line_Nil [simp]: "last_line [] = []"
  by (simp add: last_line_def)

lemma length_last_line: "length (last_line b) \<le> length b"
  using length_takeWhile_le [of "\<lambda>c. c \<noteq> 10" "rev b"] by (simp add: last_line_def)

lemma last_line_split:
  obtains "last_line b = b" "10 \<notin> set b" | b' where "b = b' @ 10 # last_line b" "10 \<notin> set (last_line b)"
proof (induction b arbitrary: thesis rule: rev_induct)
  case (snoc c b)
  show ?case
  proof (cases "c = 10")
    case True
    then show ?thesis using snoc.prems(2) by simp
  next
    case False
    then show ?thesis using snoc.prems by (rule_tac snoc.IH) auto
  qed
qed simp

lemma line_begin_eq: "p \<le> length buf \<Longrightarrow> line_begin buf p = Some (p - length (last_line (take p buf)))"
proof (induction p)
  case (Suc p)
  have "length (last_line (take p buf)) \<le> p" using length_last_line [of "take p buf"] Suc.prems by simp
  then show ?case using Suc by (simp add: take_Suc_conv_app_nth Suc_diff_le)
qed simp

lemma line_end_loop_eq:
  "p + n \<le> length buf \<Longrightarrow> line_end_loop buf p n = Some (p + length (first_line (take n (drop p buf))))"
proof (induction n arbitrary: p)
  case (Suc n)
  then have "take (Suc n) (drop p buf) = buf ! p # take n (drop (Suc p) buf)" by (simp add: Cons_nth_drop_Suc [symmetric])
  with Suc show ?case by (simp add: first_line_def)
qed (simp add: first_line_def)

lemma line_end_eq:
  "p \<le> len \<Longrightarrow> len \<le> length buf \<Longrightarrow> line_end buf len p = Some (p + length (first_line (take (len - p) (drop p buf))))"
  by (simp add: line_end_def line_end_loop_eq)

lemma col_loop_eq: "i + n \<le> length buf \<Longrightarrow> col_loop buf i n c = Some (width_from c (take n (drop i buf)))"
proof (induction n arbitrary: i c)
  case (Suc n)
  then have "take (Suc n) (drop i buf) = buf ! i # take n (drop (Suc i) buf)" by (simp add: Cons_nth_drop_Suc [symmetric])
  with Suc show ?case by simp
qed simp

lemma last_line_take:
  assumes "p \<le> length buf"
  shows "take (length (last_line (take p buf))) (drop (p - length (last_line (take p buf))) buf) = last_line (take p buf)"
proof -
  let ?l = "last_line (take p buf)"
  have le: "length ?l \<le> p" using length_last_line [of "take p buf"] assms by simp
  have "\<exists>b'. take p buf = b' @ ?l" by (cases rule: last_line_split [of "take p buf"]) (metis append_Nil, metis append.assoc append_Cons append_Nil)
  then obtain b' where b: "take p buf = b' @ ?l" by blast
  have len: "length b' = p - length ?l" using arg_cong [OF b, of length] assms by simp
  have "?l = drop (length b') (take p buf)" by (subst b) simp
  also have "\<dots> = take (length ?l) (drop (p - length ?l) buf)" using le by (simp only: drop_take len) simp
  finally show ?thesis by simp
qed

lemma col_of_eq: "p \<le> length buf \<Longrightarrow> col_of buf p = Some (width_from 0 (last_line (take p buf)))"
  using length_last_line [of "take p buf"] last_line_take [of p buf]
  by (simp add: col_of_def line_begin_eq col_loop_eq)

lemma col_walk_eq:
  assumes "i + n \<le> length buf" and "c \<le> w"
  shows "\<exists>j d. col_walk buf w i n c = Some (j, d) \<and> (if w < d \<and> j > i then j - 1 else j) = i + length (fit c w (take n (drop i buf))) \<and> (w < d \<longrightarrow> i < j)"
  using assms
proof (induction n arbitrary: i c)
  case (Suc n)
  then have t: "take (Suc n) (drop i buf) = buf ! i # take n (drop (Suc i) buf)" by (simp add: Cons_nth_drop_Suc [symmetric])
  let ?d = "next_col (buf ! i) c"
  show ?case
  proof (cases "c < w \<and> ?d \<le> w")
    case True
    from Suc.IH [of "i + 1" ?d] Suc.prems True obtain j d where
      "col_walk buf w (i + 1) n ?d = Some (j, d)" "(if w < d \<and> j > i + 1 then j - 1 else j) = i + 1 + length (fit ?d w (take n (drop (i + 1) buf)))"
      "w < d \<longrightarrow> i + 1 < j" by auto
    with True Suc.prems show ?thesis by (auto simp: t split: if_splits)
  next
    case False
    show ?thesis
    proof (cases "c < w")
      case True
      with False have d: "?d > w" by simp
      have "col_walk buf w i (Suc n) c = col_walk buf w (i + 1) n ?d" using True Suc.prems(1) by simp
      also have "\<dots> = Some (i + 1, ?d)" using d by (cases n) simp_all
      finally show ?thesis using d by (simp add: t del: col_walk.simps take_Suc)
    next
      case False
      then have "c = w" using Suc.prems(2) by simp
      then show ?thesis using next_col_gt [of w "buf ! i"] by (simp add: t)
    qed
  qed
qed simp

lemma pos_for_col_eq:
  assumes "s \<le> len" "len \<le> length buf"
  shows "pos_for_col buf len s w = Some (s + length (fit 0 w (first_line (take (len - s) (drop s buf)))))"
proof -
  let ?l = "first_line (take (len - s) (drop s buf))"
  have tl: "take (length ?l) (drop s buf) = ?l"
  proof -
    have "?l = take (length ?l) (take (len - s) (drop s buf))" unfolding first_line_def by (rule takeWhile_eq_take)
    moreover have "length ?l \<le> len - s"
      using length_takeWhile_le [of "\<lambda>c. c \<noteq> 10" "take (len - s) (drop s buf)"] unfolding first_line_def by simp
    ultimately show ?thesis by (metis min.absorb1 take_take)
  qed
  have "s + length ?l \<le> length buf" using length_takeWhile_le [of "\<lambda>c. c \<noteq> 10" "take (len - s) (drop s buf)"] assms by (simp add: first_line_def)
  from col_walk_eq [OF this, of 0 w] tl line_end_eq [OF assms] show ?thesis by (auto simp: pos_for_col_def)
qed

lemma newlines_eq: "i + n \<le> length buf \<Longrightarrow> newlines buf i n k = Some (k + count_list (take n (drop i buf)) 10)"
proof (induction n arbitrary: i k)
  case (Suc n)
  then have "take (Suc n) (drop i buf) = buf ! i # take n (drop (Suc i) buf)" by (simp add: Cons_nth_drop_Suc [symmetric])
  with Suc show ?case by simp
qed simp

section \<open>The edited text\<close>

text \<open>What is before the caret and what is after it.\<close>

type_synonym page = "byte list \<times> byte list"

definition page :: "edit \<Rightarrow> page" where
  "page e = (take (e_pos e) (e_buf e), take (e_len e - e_pos e) (drop (e_pos e) (e_buf e)))"

definition type_chars :: "byte \<Rightarrow> nat \<Rightarrow> page \<Rightarrow> page" where
  "type_chars c n g = (case g of (b, a) \<Rightarrow> if length b + length a + n \<ge> 65536 then g else (b @ replicate n c, a))"

text \<open>Up and down go to the place of the line above or below that is no further right.\<close>

definition page_up :: "page \<Rightarrow> page" where
  "page_up g = (case g of (b, a) \<Rightarrow>
     let l = last_line b
     in if length l = length b then g
        else
          let pre = take (length b - length l - 1) b; above = last_line pre; keep = fit 0 (width_from 0 l) above
          in (take (length pre - length above) pre @ keep, drop (length keep) above @ 10 # l @ a))"

definition page_down :: "page \<Rightarrow> page" where
  "page_down g = (case g of (b, a) \<Rightarrow>
     let r = first_line a
     in if length r = length a then g
        else
          let below = drop (length r + 1) a; keep = fit 0 (width_from 0 (last_line b)) (first_line below)
          in (b @ r @ 10 # keep, drop (length keep) below))"

definition page_key :: "u32 \<Rightarrow> page \<Rightarrow> page" where
  "page_key k g = (case g of (b, a) \<Rightarrow>
     if k = MIRROR_KEY_LEFT then (if b = [] then g else (butlast b, last b # a))
     else if k = MIRROR_KEY_RIGHT then (case a of [] \<Rightarrow> g | c # a \<Rightarrow> (b @ [c], a))
     else if k = MIRROR_KEY_UP then page_up g
     else if k = MIRROR_KEY_DOWN then page_down g
     else if k = MIRROR_KEY_BACKSPACE then (butlast b, a)
     else if k = 9 then type_chars 32 (4 - width_from 0 (last_line b) mod 4) g
     else if k = 10 then type_chars 10 1 g
     else if 32 \<le> sint k \<and> sint k \<le> 126 then type_chars (ucast k) 1 g
     else g)"

definition edit_wf :: "edit \<Rightarrow> bool" where
  "edit_wf e \<longleftrightarrow> length (e_buf e) = 65536 \<and> e_len e < 65536 \<and> e_pos e \<le> e_len e \<and> 0 \<le> e_offx e \<and>
     length (e_cmd e) = 51 \<and> length (e_fname e) = 23 \<and> length (e_msg e) = 72 \<and>
     0 \<in> set (e_cmd e) \<and> 0 \<in> set (e_fname e) \<and> 0 \<in> set (e_msg e) \<and> e_cmd_len e \<le> 50 \<and> e_cmd e ! e_cmd_len e = 0"

lemma edit_wfD:
  assumes "edit_wf e"
  shows "length (e_buf e) = 65536" "e_len e < 65536" "e_pos e \<le> e_len e" "e_pos e \<le> length (e_buf e)" "e_len e \<le> length (e_buf e)"
  using assms by (simp_all add: edit_wf_def)

lemma page_lengths:
  assumes "edit_wf e"
  shows "length (fst (page e)) = e_pos e" "length (snd (page e)) = e_len e - e_pos e"
  using edit_wfD [OF assms] by (simp_all add: page_def)

section \<open>The moves of the buffer\<close>

lemma edit_move_up_eq:
  assumes "p + j + n \<le> length buf"
  shows "\<exists>b. move_up p n j buf = Some b \<and> length b = length buf \<and> take p b = take p buf \<and>
    drop (p + n) b = take j (drop p buf) @ drop (p + n + j) buf"
  using assms
proof (induction j arbitrary: buf)
  case (Suc j)
  let ?b = "buf[p + j + n := buf ! (p + j)]"
  have "p + j + n \<le> length ?b" using Suc.prems by simp
  from Suc.IH [OF this] obtain b where b: "move_up p n j ?b = Some b" "length b = length buf" "take p b = take p ?b"
    "drop (p + n) b = take j (drop p ?b) @ drop (p + n + j) ?b" by auto
  have "take j (drop p ?b) = take j (drop p buf)" by (rule nth_equalityI) (use Suc.prems in auto)
  moreover have "drop (p + n + j) ?b = buf ! (p + j) # drop (p + n + Suc j) buf"
    using Suc.prems by (simp add: drop_update_swap Cons_nth_drop_Suc [symmetric] add_ac)
  moreover have "take (Suc j) (drop p buf) = take j (drop p buf) @ [buf ! (p + j)]"
    using Suc.prems by (simp add: take_Suc_conv_app_nth)
  ultimately show ?case using b Suc.prems by simp
qed simp

lemma fill_gap_eq:
  "p + n \<le> length buf \<Longrightarrow> fill_gap p n c buf = Some (take p buf @ replicate n c @ drop (p + n) buf)"
proof (induction n arbitrary: p buf)
  case (Suc n)
  then show ?case by (simp add: take_Suc_conv_app_nth drop_update_swap)
qed simp

lemma edit_move_down_eq:
  "0 < i \<Longrightarrow> i + n \<le> length buf \<Longrightarrow>
    move_down i n buf = Some (take (i - 1) buf @ take n (drop i buf) @ drop (i + n - 1) buf)"
proof (induction n arbitrary: i buf)
  case 0
  then show ?case by (simp add: append_take_drop_id)
next
  case (Suc n)
  then obtain i' where i: "i = Suc i'" by (cases i) auto
  let ?b = "buf[i' := buf ! i]"
  have "move_down (i + 1) n ?b = Some (take i ?b @ take n (drop (i + 1) ?b) @ drop (i + n) ?b)"
    using Suc.IH [of "i + 1" ?b] Suc.prems by simp
  moreover have "take i ?b = take i' buf @ [buf ! i]" using Suc.prems by (simp add: i take_Suc_conv_app_nth)
  moreover have "drop (i + 1) ?b = drop (i + 1) buf" "drop (i + n) ?b = drop (i + n) buf" by (simp_all add: i)
  moreover have "take (Suc n) (drop i buf) = buf ! i # take n (drop (Suc i) buf)"
    using Suc.prems by (simp add: Cons_nth_drop_Suc [symmetric])
  ultimately show ?case using Suc.prems by (simp add: i)
qed

lemma set_msg_loop_ok:
  "0 \<in> set s \<Longrightarrow> i \<le> 71 \<Longrightarrow> length m = 72 \<Longrightarrow> \<exists>m'. set_msg_loop i s m = Some m' \<and> length m' = 72 \<and> 0 \<in> set m'"
proof (induction s arbitrary: i m)
  case (Cons c s)
  then show ?case by (cases "c \<noteq> 0 \<and> i < 71") (auto simp: set_update_memI)
qed simp

lemma set_msg_ok:
  assumes "0 \<in> set s" "length (e_msg e) = 72"
  obtains m where "set_msg s e = Some (e\<lparr>e_msg := m\<rparr>)" "length m = 72" "0 \<in> set m"
  using set_msg_loop_ok [OF assms(1), of 0 "e_msg e"] assms(2) by (auto simp: set_msg_def)

lemma lit_NUL [simp]: "0 \<in> set (lit s)"
  by (simp add: lit_def)

lemma page_msg [simp]: "page (e\<lparr>e_msg := m\<rparr>) = page e"
  by (simp add: page_def)

lemma edit_wf_msg: "edit_wf e \<Longrightarrow> length m = 72 \<Longrightarrow> 0 \<in> set m \<Longrightarrow> edit_wf (e\<lparr>e_msg := m\<rparr>)"
  by (simp add: edit_wf_def)

lemma do_insert_page:
  assumes "edit_wf e" "n \<le> 4"
  obtains e' where "do_insert c n e = Some e'" "edit_wf e'" "page e' = type_chars c n (page e)"
    "e_top e' = e_top e" "take (e_pos e) (e_buf e') = take (e_pos e) (e_buf e)" "e_pos e \<le> e_pos e'" "e_len e \<le> e_len e'"
proof (cases "e_len e + n \<ge> BUF_MAX")
  case True
  obtain m where m: "set_msg (lit ''buffer full'') e = Some (e\<lparr>e_msg := m\<rparr>)" "length m = 72" "0 \<in> set m"
    by (rule set_msg_ok [of "lit ''buffer full''" e]) (use assms(1) in \<open>simp_all add: edit_wf_def\<close>)
  have "type_chars c n (page e) = page e"
    using page_lengths [OF assms(1)] edit_wfD(3) [OF assms(1)] True by (simp add: type_chars_def BUF_MAX_def split_beta)
  then show thesis using that [of "e\<lparr>e_msg := m\<rparr>"] m True assms(1) by (simp add: do_insert_def edit_wf_msg)
next
  case False
  note w = edit_wfD [OF assms(1)]
  let ?p = "e_pos e" and ?j = "e_len e - e_pos e" and ?buf = "e_buf e"
  have fits: "?p + ?j + n \<le> length ?buf" using w False by (simp add: BUF_MAX_def)
  from edit_move_up_eq [OF fits] obtain b where b: "move_up ?p n ?j ?buf = Some b" "length b = length ?buf" "take ?p b = take ?p ?buf"
    "drop (?p + n) b = take ?j (drop ?p ?buf) @ drop (?p + n + ?j) ?buf" by blast
  let ?b = "take ?p ?buf @ replicate n c @ take ?j (drop ?p ?buf) @ drop (?p + n + ?j) ?buf"
  let ?e = "e\<lparr>e_buf := ?b, e_pos := ?p + n, e_len := e_len e + n, e_dirty := True\<rparr>"
  have f: "fill_gap ?p n c b = Some ?b" using fill_gap_eq [of ?p n b c] b fits by simp
  have ins: "do_insert c n e = Some ?e" using False b(1) f by (simp add: do_insert_def)
  have "length ?b = 65536" using w fits by simp
  then have wf: "edit_wf ?e" using assms(1) False by (simp add: edit_wf_def BUF_MAX_def)
  have "page ?e = (take ?p ?buf @ replicate n c, take ?j (drop ?p ?buf))" using w by (simp add: page_def)
  also have "\<dots> = type_chars c n (page e)"
    using page_lengths [OF assms(1)] w False by (simp add: type_chars_def page_def BUF_MAX_def)
  finally show thesis using that [OF ins wf] w by simp
qed

lemma do_backspace_page:
  assumes "edit_wf e"
  obtains e' where "do_backspace e = Some e'" "edit_wf e'" "page e' = (butlast (fst (page e)), snd (page e))"
    "e_top e' = e_top e" "e_pos e' = e_pos e - 1" "take (e_pos e - 1) (e_buf e') = take (e_pos e - 1) (e_buf e)"
proof (cases "e_pos e = 0")
  case True
  then show thesis using that [of e] assms by (simp add: do_backspace_def page_def)
next
  case False
  note w = edit_wfD [OF assms]
  let ?p = "e_pos e" and ?j = "e_len e - e_pos e" and ?buf = "e_buf e"
  obtain b where b: "b = take (?p - 1) ?buf @ take ?j (drop ?p ?buf) @ drop (?p + ?j - 1) ?buf" by blast
  let ?e = "e\<lparr>e_buf := b, e_pos := ?p - 1, e_len := e_len e - 1, e_dirty := True\<rparr>"
  have m: "do_backspace e = Some ?e" using edit_move_down_eq [of ?p ?j ?buf] False w by (simp add: do_backspace_def b)
  have "length b = 65536" using w False by (simp add: b)
  then have wf: "edit_wf ?e" using assms False w by (auto simp: edit_wf_def)
  have "butlast (take ?p ?buf) = take (?p - 1) ?buf" using w by (simp add: butlast_take)
  then have "page ?e = (butlast (fst (page e)), snd (page e))" using w False by (simp add: page_def b)
  with that [OF m wf] show thesis using w by (simp add: b)
qed

section \<open>Moving between lines\<close>

definition text_of :: "edit \<Rightarrow> byte list" where
  "text_of e = take (e_len e) (e_buf e)"

lemma page_text:
  assumes "edit_wf e"
  shows "page e = (take (e_pos e) (text_of e), drop (e_pos e) (text_of e))"
  using edit_wfD [OF assms] by (simp add: page_def text_of_def drop_take min_def)

lemma page_at: "edit_wf e \<Longrightarrow> q \<le> e_len e \<Longrightarrow> edit_wf (e\<lparr>e_pos := q\<rparr>) \<and> page (e\<lparr>e_pos := q\<rparr>) = (take q (text_of e), drop q (text_of e))"
  by (simp add: edit_wf_def page_def text_of_def drop_take min_def)

lemma fit_prefix: "\<exists>ys. xs = fit c w xs @ ys"
  by (induction c w xs rule: fit.induct) auto

lemma first_line_newline [simp]: "10 \<notin> set l \<Longrightarrow> first_line (l @ 10 # r) = l"
  by (auto simp: first_line_def takeWhile_tail takeWhile_eq_all_conv)

lemma last_line_newline [simp]: "10 \<notin> set l \<Longrightarrow> last_line (b @ 10 # l) = l"
proof (induction l rule: rev_induct)
  case Nil
  show ?case using last_line_snoc [of b 10] by simp
next
  case (snoc c l)
  then show ?case using last_line_snoc [of "b @ 10 # l" c] by simp
qed

lemma newline_free_last_line: "10 \<notin> set (last_line b)"
  by (auto simp: last_line_def dest: set_takeWhileD)

lemma newline_free_first_line: "10 \<notin> set (first_line b)"
  by (auto simp: first_line_def dest: set_takeWhileD)

lemma first_line_split:
  obtains "first_line a = a" | a' where "a = first_line a @ 10 # a'"
proof (cases "dropWhile (\<lambda>c. c \<noteq> 10) a")
  case Nil
  then show thesis using that(1) takeWhile_dropWhile_id [of "\<lambda>c. c \<noteq> 10" a] by (simp add: first_line_def)
next
  case (Cons c a')
  then have "c = 10" using hd_dropWhile [of "\<lambda>c. c \<noteq> 10" a] by simp
  then have "a = first_line a @ 10 # a'"
    using takeWhile_dropWhile_id [of "\<lambda>c. c \<noteq> 10" a] Cons by (simp add: first_line_def)
  then show thesis by (rule that(2))
qed

lemma last_line_suffix: "\<exists>x. b = x @ last_line b"
proof (cases rule: last_line_split [of b])
  case 1
  then show ?thesis by (intro exI [of _ "[]"]) simp
next
  case (2 b')
  then show ?thesis by (intro exI [of _ "b' @ [10]"]) simp
qed

text \<open>The place in the line of \<open>x @ l\<close> that starts after \<open>x\<close>.\<close>

lemma pos_in_line:
  assumes "edit_wf e" and t: "text_of e = x @ y" and l: "first_line y = l"
  obtains e' where "pos_for_col (e_buf e) (e_len e) (length x) w = Some (length x + length (fit 0 w l))"
    "e' = e\<lparr>e_pos := length x + length (fit 0 w l)\<rparr>" "edit_wf e'" "page e' = (x @ fit 0 w l, drop (length (fit 0 w l)) y)"
proof -
  note w = edit_wfD [OF assms(1)]
  have len: "length x + length y = e_len e" using arg_cong [OF t, of length] w by (simp add: text_of_def)
  have "take (e_len e - length x) (drop (length x) (e_buf e)) = y"
    using arg_cong [OF t, of "drop (length x)"] by (simp add: text_of_def drop_take)
  then have p: "pos_for_col (e_buf e) (e_len e) (length x) w = Some (length x + length (fit 0 w l))"
    using pos_for_col_eq [of "length x" "e_len e" "e_buf e" w] len w l by simp
  obtain z where z: "l = fit 0 w l @ z" using fit_prefix by blast
  have "\<exists>r. y = l @ r" using takeWhile_dropWhile_id [of "\<lambda>c. c \<noteq> 10" y] l unfolding first_line_def by metis
  then obtain r where r: "y = l @ r" by blast
  have y: "y = fit 0 w l @ z @ r" using r z by (metis append.assoc)
  have "take (length (fit 0 w l)) y = fit 0 w l" by (metis y append_eq_conv_conj)
  moreover have "length (fit 0 w l) \<le> length y" by (metis y length_append le_add1)
  ultimately have "edit_wf (e\<lparr>e_pos := length x + length (fit 0 w l)\<rparr>)"
    "page (e\<lparr>e_pos := length x + length (fit 0 w l)\<rparr>) = (x @ fit 0 w l, drop (length (fit 0 w l)) y)"
    using page_at [OF assms(1), of "length x + length (fit 0 w l)"] len t by simp_all
  with p show thesis by (intro that [of "e\<lparr>e_pos := length x + length (fit 0 w l)\<rparr>"]) simp_all
qed

lemma key_up_page:
  assumes "edit_wf e"
  obtains e' q where "key_up e = Some e'" "e' = e\<lparr>e_pos := q\<rparr>" "edit_wf e'" "page e' = page_up (page e)"
proof -
  note w = edit_wfD [OF assms]
  let ?b = "fst (page e)" and ?a = "snd (page e)"
  have b: "?b = take (e_pos e) (e_buf e)" by (simp add: page_def)
  have lb: "line_begin (e_buf e) (e_pos e) = Some (e_pos e - length (last_line ?b))" using line_begin_eq [OF w(4)] b by simp
  have t: "text_of e = ?b @ ?a" using page_text [OF assms] by simp
  note bl = page_lengths(1) [OF assms]
  show thesis
  proof (cases rule: last_line_split [of ?b])
    case 1
    then have "key_up e = Some e" "page_up (page e) = page e" using lb bl by (simp_all add: key_up_def page_up_def split_beta)
    then show thesis using that [of e "e_pos e"] assms by simp
  next
    case (2 b')
    let ?l = "last_line ?b" and ?above = "last_line b'"
    obtain x where x: "b' = x @ ?above" using last_line_suffix by blast
    have len: "e_pos e - length ?l = length b' + 1" using arg_cong [OF 2(1), of length] bl by simp
    have t': "text_of e = x @ (?above @ 10 # ?l @ ?a)" using t 2(1) x by (metis append.assoc append_Cons)
    have "take (length b') (e_buf e) = b'"
    proof -
      have "b' = take (length b') ?b" by (subst 2(1)) simp
      also have "\<dots> = take (length b') (e_buf e)" using len by (simp only: b take_take) (simp add: min_def)
      finally show ?thesis by simp
    qed
    moreover have "length b' \<le> length (e_buf e)" using len w by simp
    ultimately have s: "line_begin (e_buf e) (length b') = Some (length x)"
      using line_begin_eq [of "length b'" "e_buf e"] arg_cong [OF x, of length] by simp
    have c: "col_of (e_buf e) (e_pos e) = Some (width_from 0 ?l)" using col_of_eq [OF w(4)] b by simp
    have fl: "first_line (?above @ 10 # ?l @ ?a) = ?above" by (rule first_line_newline [OF newline_free_last_line])
    obtain e' where e': "pos_for_col (e_buf e) (e_len e) (length x) (width_from 0 ?l) = Some (length x + length (fit 0 (width_from 0 ?l) ?above))"
      "e' = e\<lparr>e_pos := length x + length (fit 0 (width_from 0 ?l) ?above)\<rparr>" "edit_wf e'"
      "page e' = (x @ fit 0 (width_from 0 ?l) ?above, drop (length (fit 0 (width_from 0 ?l) ?above)) (?above @ 10 # ?l @ ?a))"
      by (rule pos_in_line [OF assms t' fl])
    have k: "key_up e = Some e'" using lb len s c e'(1,2) by (simp add: key_up_def)
    have pre: "take (length ?b - length ?l - 1) ?b = b'" by (subst (2) 2(1)) (use len bl in simp)
    have "take (length b' - length ?above) b' = x" by (subst (2) x) (use arg_cong [OF x, of length] in simp)
    moreover obtain z where "?above = fit 0 (width_from 0 ?l) ?above @ z" using fit_prefix by blast
    then have "length (fit 0 (width_from 0 ?l) ?above) \<le> length ?above" by (metis length_append le_add1)
    ultimately have "page e' = page_up (?b, ?a)" using e'(4) pre len bl by (simp add: page_up_def Let_def del: prod.collapse)
    then show thesis using that [OF k e'(2,3)] by simp
  qed
qed

lemma key_down_page:
  assumes "edit_wf e"
  obtains e' q where "key_down e = Some e'" "e' = e\<lparr>e_pos := q\<rparr>" "edit_wf e'" "page e' = page_down (page e)"
proof -
  note w = edit_wfD [OF assms]
  let ?b = "fst (page e)" and ?a = "snd (page e)"
  have t: "text_of e = ?b @ ?a" using page_text [OF assms] by simp
  note bl = page_lengths [OF assms]
  have le: "line_end (e_buf e) (e_len e) (e_pos e) = Some (e_pos e + length (first_line ?a))"
    using line_end_eq [OF w(3,5)] by (simp add: page_def)
  show thesis
  proof (cases rule: first_line_split [of ?a])
    case 1
    then have "key_down e = Some e" "page_down (page e) = page e"
      using le bl w(3) by (simp_all add: key_down_def page_down_def split_beta)
    then show thesis using that [of e "e_pos e"] assms by simp
  next
    case (2 a')
    let ?r = "first_line ?a" and ?w = "width_from 0 (last_line ?b)"
    have t': "text_of e = (?b @ ?r @ [10]) @ a'" using t 2 by (metis append.assoc append_Cons append_Nil)
    have len: "length ?a = length ?r + 1 + length a'" using arg_cong [OF 2, of length] by simp
    have c: "col_of (e_buf e) (e_pos e) = Some ?w" using col_of_eq [OF w(4)] by (simp add: page_def)
    obtain e' where e': "pos_for_col (e_buf e) (e_len e) (length (?b @ ?r @ [10])) ?w = Some (length (?b @ ?r @ [10]) + length (fit 0 ?w (first_line a')))"
      "e' = e\<lparr>e_pos := length (?b @ ?r @ [10]) + length (fit 0 ?w (first_line a'))\<rparr>" "edit_wf e'"
      "page e' = ((?b @ ?r @ [10]) @ fit 0 ?w (first_line a'), drop (length (fit 0 ?w (first_line a'))) a')"
      by (rule pos_in_line [OF assms t' refl])
    have k: "key_down e = Some e'" using le len bl w(3) c e'(1,2) by (simp add: key_down_def)
    have "drop (length ?r + 1) ?a = a'" by (subst (2) 2) simp
    then have "page e' = page_down (?b, ?a)" using e'(4) len by (simp add: page_down_def Let_def del: prod.collapse)
    then show thesis using that [OF k e'(2,3)] by simp
  qed
qed

section \<open>The scroll position\<close>

definition line_start :: "byte list \<Rightarrow> nat \<Rightarrow> bool" where
  "line_start buf s \<longleftrightarrow> s = 0 \<or> buf ! (s - 1) = 10"

definition line_top :: "edit \<Rightarrow> nat" where
  "line_top e = e_pos e - length (last_line (fst (page e)))"

text \<open>What every edit keeps: the first visible line starts a line, unless it lies below the caret's.\<close>

definition top_ok :: "edit \<Rightarrow> bool" where
  "top_ok e \<longleftrightarrow> e_top e \<le> e_len e + 1 \<and> (e_top e \<le> line_top e \<longrightarrow> line_start (e_buf e) (e_top e))"

lemma line_start_take:
  "line_start buf s \<Longrightarrow> take p b = take p buf \<Longrightarrow> s \<le> p \<Longrightarrow> line_start b s"
  unfolding line_start_def by (metis Suc_diff_1 Suc_le_lessD gr0I nth_take)

lemma line_top_le: "edit_wf e \<Longrightarrow> line_top e \<le> e_pos e"
  by (simp add: line_top_def)

lemma top_ok_kept:
  assumes "edit_wf e" "line_start (e_buf e) (e_top e)" "e_top e \<le> e_pos e" and "edit_wf e'" "e_top e' = e_top e"
    and "take p (e_buf e') = take p (e_buf e)" "e_top e \<le> p \<or> e_pos e' < e_top e" "e_top e \<le> e_len e' + 1"
  shows "top_ok e'"
  using assms line_start_take [of "e_buf e" "e_top e" p "e_buf e'"] line_top_le [OF assms(4)] by (auto simp: top_ok_def)

text \<open>A key of the text in a state scroll_fix left.\<close>

lemma edit_key_text:
  assumes "edit_wf e" "line_start (e_buf e) (e_top e)" "e_top e \<le> e_pos e"
  obtains e' where "edit_key k e = Some e'" "edit_wf e'" "top_ok e'" "page e' = page_key k (page e)"
proof -
  note w = edit_wfD [OF assms(1)]
  note kept = top_ok_kept [OF assms] and result = that
  have move: thesis if "edit_key k e = Some (e\<lparr>e_pos := q\<rparr>)" "edit_wf (e\<lparr>e_pos := q\<rparr>)" "page (e\<lparr>e_pos := q\<rparr>) = page_key k (page e)" for q
    using that(1-3) kept [of "e\<lparr>e_pos := q\<rparr>" "e_len e"] assms(3) w(3) by (intro result [of "e\<lparr>e_pos := q\<rparr>"]) simp_all
  have stay: thesis if "edit_key k e = Some e" "page_key k (page e) = page e"
    using that kept [of e "e_len e"] assms w(3) by (intro result [of e]) simp_all
  have insert: thesis if "edit_key k e = do_insert c n e" "n \<le> 4" "page_key k (page e) = type_chars c n (page e)" for c n
  proof -
    obtain e' where e': "do_insert c n e = Some e'" "edit_wf e'" "page e' = type_chars c n (page e)" "e_top e' = e_top e"
      "take (e_pos e) (e_buf e') = take (e_pos e) (e_buf e)" "e_pos e \<le> e_pos e'" "e_len e \<le> e_len e'"
      by (rule do_insert_page [OF assms(1) \<open>n \<le> 4\<close>])
    show thesis using that(1,3) e' kept [of e' "e_pos e"] assms(3) w(3) by (intro result [of e']) simp_all
  qed
  have pg: "page e = (take (e_pos e) (text_of e), drop (e_pos e) (text_of e))" by (rule page_text [OF assms(1)])
  have lt: "length (text_of e) = e_len e" using w by (simp add: text_of_def)
  consider "k = MIRROR_KEY_ESC" | "k = MIRROR_KEY_LEFT" | "k = MIRROR_KEY_RIGHT" | "k = MIRROR_KEY_UP" | "k = MIRROR_KEY_DOWN"
    | "k = MIRROR_KEY_BACKSPACE" | "k = 9" | "k = 10" | "32 \<le> sint k" "sint k \<le> 126" "k \<notin> {27, 0xE0, 0xE1, 0xE2, 0xE3, 8, 9, 10}"
    | "\<not> (32 \<le> sint k \<and> sint k \<le> 126)" "k \<notin> {27, 0xE0, 0xE1, 0xE2, 0xE3, 8, 9, 10}"
    unfolding mirror_keys by auto
  then show thesis
  proof cases
    case 1
    let ?e = "e\<lparr>e_cmd_mode := True, e_cmd_len := 0, e_cmd := (e_cmd e)[0 := 0]\<rparr>"
    have "edit_wf ?e" using assms(1) by (auto simp: edit_wf_def set_update_memI)
    moreover have "page ?e = page_key k (page e)" using 1 by (simp add: page_def page_key_def mirror_keys)
    moreover have "top_ok ?e" using kept [of ?e "e_len e"] calculation(1) assms(3) w(3) by simp
    ultimately show thesis using 1 assms(1) by (intro result [of ?e]) (simp_all add: edit_key_def edit_wf_def mirror_keys)
  next
    case 2
    show thesis
    proof (cases "e_pos e = 0")
      case True
      then show thesis using stay 2 pg by (simp add: edit_key_def page_key_def mirror_keys)
    next
      case False
      then obtain q where q: "e_pos e = Suc q" by (cases "e_pos e") auto
      have "take (Suc q) (text_of e) = take q (text_of e) @ [text_of e ! q]" "drop q (text_of e) = text_of e ! q # drop (Suc q) (text_of e)"
        using lt w(3) q by (simp_all add: take_Suc_conv_app_nth Cons_nth_drop_Suc)
      then show thesis using move [of q] page_at [OF assms(1), of q] 2 q w(3) pg by (simp add: edit_key_def page_key_def mirror_keys)
    qed
  next
    case 3
    show thesis
    proof (cases "e_pos e < e_len e")
      case False
      then show thesis using stay 3 pg lt by (simp add: edit_key_def page_key_def mirror_keys)
    next
      case True
      then have "take (Suc (e_pos e)) (text_of e) = take (e_pos e) (text_of e) @ [text_of e ! e_pos e]"
        "drop (e_pos e) (text_of e) = text_of e ! e_pos e # drop (Suc (e_pos e)) (text_of e)"
        using lt by (simp_all add: take_Suc_conv_app_nth Cons_nth_drop_Suc)
      then show thesis using move [of "Suc (e_pos e)"] page_at [OF assms(1), of "Suc (e_pos e)"] 3 True pg
        by (simp add: edit_key_def page_key_def mirror_keys)
    qed
  next
    case 4
    obtain e' q where "key_up e = Some e'" "e' = e\<lparr>e_pos := q\<rparr>" "edit_wf e'" "page e' = page_up (page e)" by (rule key_up_page [OF assms(1)])
    then show thesis using move [of q] 4 by (simp add: edit_key_def page_key_def mirror_keys split_beta)
  next
    case 5
    obtain e' q where "key_down e = Some e'" "e' = e\<lparr>e_pos := q\<rparr>" "edit_wf e'" "page e' = page_down (page e)" by (rule key_down_page [OF assms(1)])
    then show thesis using move [of q] 5 by (simp add: edit_key_def page_key_def mirror_keys split_beta)
  next
    case 6
    obtain e' where e': "do_backspace e = Some e'" "edit_wf e'" "page e' = (butlast (fst (page e)), snd (page e))" "e_top e' = e_top e"
      "e_pos e' = e_pos e - 1" "take (e_pos e - 1) (e_buf e') = take (e_pos e - 1) (e_buf e)" by (rule do_backspace_page [OF assms(1)])
    have "e_top e \<le> e_pos e - 1 \<or> e_pos e' < e_top e" "e_top e \<le> e_len e' + 1" using e'(5) assms(3) edit_wfD(3) [OF e'(2)] by linarith+
    then show thesis using result [of e'] kept [OF e'(2,4,6)] e' 6 by (simp add: edit_key_def page_key_def mirror_keys split_beta)
  next
    case 7
    then show thesis using insert [of 32 "4 - width_from 0 (last_line (fst (page e))) mod 4"] col_of_eq [OF w(4)]
      by (simp add: edit_key_def page_key_def mirror_keys TAB_W_def page_def)
  next
    case 8
    then show thesis using insert [of 10 1] by (simp add: edit_key_def page_key_def mirror_keys split_beta)
  next
    case 9
    then show thesis using insert [of "ucast k" 1] by (simp add: edit_key_def page_key_def mirror_keys split_beta)
  next
    case 10
    then show thesis by (intro stay) (auto simp: edit_key_def page_key_def mirror_keys split_beta)
  qed
qed

section \<open>Scrolling\<close>

text \<open>The lines between two places.\<close>

definition breaks :: "byte list \<Rightarrow> nat \<Rightarrow> nat \<Rightarrow> nat" where
  "breaks buf i j = count_list (take (j - i) (drop i buf)) 10"

lemma line_startI: "p \<le> length buf \<Longrightarrow> line_start buf (p - length (last_line (take p buf)))"
proof (induction p)
  case (Suc p)
  have "length (last_line (take p buf)) \<le> p" using length_last_line [of "take p buf"] Suc.prems by simp
  then show ?case using Suc by (auto simp: take_Suc_conv_app_nth line_start_def Suc_diff_le)
qed (simp add: line_start_def)

text \<open>A line start no later than \<open>p\<close> is no later than the start of the line of \<open>p\<close>.\<close>

lemma line_start_le:
  "p \<le> length buf \<Longrightarrow> line_start buf s \<Longrightarrow> s \<le> p \<Longrightarrow> s \<le> p - length (last_line (take p buf))"
proof (induction p)
  case (Suc p)
  have le: "length (last_line (take p buf)) \<le> p" using length_last_line [of "take p buf"] Suc.prems by simp
  show ?case
  proof (cases "s = Suc p")
    case True
    then show ?thesis using Suc.prems by (simp add: take_Suc_conv_app_nth line_start_def)
  next
    case False
    then show ?thesis using Suc le by (auto simp: take_Suc_conv_app_nth Suc_diff_le)
  qed
qed simp

lemma top_up_eq:
  assumes "line_start buf lb" "tp \<le> length buf + 1"
  shows "top_up buf lb tp = Some (if lb < tp then lb else tp)"
  using assms(2)
proof (induction tp rule: less_induct)
  case (less tp)
  show ?case
  proof (cases "lb < tp")
    case True
    let ?t = "tp - 1 - length (last_line (take (tp - 1) buf))"
    have p: "tp - 1 \<le> length buf" using less.prems by simp
    have t: "?t < tp" "lb \<le> ?t" using True line_start_le [OF p assms(1)] by simp_all
    then have "top_up buf lb ?t = Some lb" using less.IH [of ?t] less.prems by auto
    then show ?thesis using True line_begin_eq [OF p] by (subst top_up.simps) simp
  qed (subst top_up.simps, simp)
qed

lemma take_drop_Cons:
  "e < j \<Longrightarrow> j \<le> length buf \<Longrightarrow> take (j - e) (drop e buf) = buf ! e # take (j - (e + 1)) (drop (e + 1) buf)"
  by (simp add: Cons_nth_drop_Suc [symmetric] Suc_diff_Suc [symmetric])

lemma breaks_less:
  assumes "line_start buf s" "s \<le> lb" "lb \<le> len" "line_start buf lb" "len \<le> length buf"
  shows "s = lb \<and> breaks buf s lb = 0 \<or>
    s < lb \<and> (let e = s + length (first_line (take (len - s) (drop s buf)))
      in e < lb \<and> line_start buf (e + 1) \<and> breaks buf s lb = Suc (breaks buf (e + 1) lb))"
proof (cases "s = lb")
  case False
  let ?a = "take (len - s) (drop s buf)"
  have lt: "s < lb" using False assms(2) by simp
  have in_a: "?a ! (lb - 1 - s) = 10" "lb - 1 - s < length ?a"
    using lt assms by (simp_all add: line_start_def less_diff_conv)
  then have nl: "10 \<in> set ?a" using nth_mem [OF in_a(2)] by simp
  let ?l = "first_line ?a"
  have n1: "length ?l \<le> lb - 1 - s"
  proof (rule ccontr)
    assume "\<not> length ?l \<le> lb - 1 - s"
    then have i: "lb - 1 - s < length ?l" by simp
    then have "?l ! (lb - 1 - s) = ?a ! (lb - 1 - s)" unfolding first_line_def by (rule takeWhile_nth)
    then show False using nth_mem [OF i] newline_free_first_line [of ?a] in_a(1) by simp
  qed
  have n2: "?a ! length ?l = 10" using nth_length_takeWhile [of "\<lambda>c. c \<noteq> 10" ?a] n1 in_a(2) unfolding first_line_def by simp
  let ?e = "s + length ?l"
  have e: "?e < lb" using n1 lt by linarith
  then have b: "buf ! ?e = 10" using n2 assms by simp
  have eq: "lb - s = length ?l + (lb - ?e)" using e by simp
  have "take (lb - s) (drop s buf) = take (length ?l) (drop s buf) @ take (lb - ?e) (drop ?e buf)"
    by (subst eq, subst take_add) (simp add: add.commute)
  moreover have "take (length ?l) (drop s buf) = ?l"
  proof -
    have "?l = take (length ?l) ?a" unfolding first_line_def by (rule takeWhile_eq_take)
    moreover have "take (length ?l) ?a = take (length ?l) (drop s buf)" using n1 lt assms(3) by simp
    ultimately show ?thesis by simp
  qed
  moreover have "take (lb - ?e) (drop ?e buf) = 10 # take (lb - (?e + 1)) (drop (?e + 1) buf)"
    using take_drop_Cons [OF e le_trans [OF assms(3,5)]] by (simp only: b)
  moreover have "count_list ?l 10 = 0" using newline_free_first_line [of ?a] by (simp add: count_list_0_iff)
  ultimately have "breaks buf s lb = Suc (breaks buf (?e + 1) lb)" by (simp add: breaks_def)
  then show ?thesis using e lt b by (simp add: Let_def line_start_def)
qed (simp add: breaks_def)

lemma last_visible_ge: "s \<le> len \<Longrightarrow> len \<le> length buf \<Longrightarrow> \<exists>la. last_visible buf len s n = Some la \<and> s \<le> la"
proof (induction n arbitrary: s)
  case (Suc n)
  let ?e = "s + length (first_line (take (len - s) (drop s buf)))"
  show ?case
  proof (cases "?e \<ge> len")
    case False
    from Suc.IH [of "?e + 1"] Suc.prems False obtain la where "last_visible buf len (?e + 1) n = Some la" "?e + 1 \<le> la" by auto
    then show ?thesis using False Suc.prems by (simp add: line_end_eq)
  qed (use Suc.prems in \<open>simp add: line_end_eq\<close>)
qed simp

text \<open>The last visible line is no earlier than a line exactly when at most \<open>n\<close> newlines lie between.\<close>

lemma last_visible_eq:
  assumes "line_start buf s" "s \<le> lb" "lb \<le> len" "line_start buf lb" "len \<le> length buf"
  shows "\<exists>la. last_visible buf len s n = Some la \<and> (lb \<le> la \<longleftrightarrow> breaks buf s lb \<le> n)"
  using assms(1,2)
proof (induction n arbitrary: s)
  case 0
  then show ?case using breaks_less [OF 0 assms(3-5)] by (auto simp: Let_def)
next
  case (Suc n)
  let ?e = "s + length (first_line (take (len - s) (drop s buf)))"
  have le: "line_end buf len s = Some ?e" using line_end_eq Suc.prems assms(3,5) by simp
  consider "s = lb" "breaks buf s lb = 0" | "s < lb" "?e < lb" "line_start buf (?e + 1)" "breaks buf s lb = Suc (breaks buf (?e + 1) lb)"
    using breaks_less [OF Suc.prems assms(3-5)] by (auto simp: Let_def)
  then show ?case
  proof cases
    case 1
    then show ?thesis using last_visible_ge [of s len buf "Suc n"] assms(3,5) by auto
  next
    case 2
    from Suc.IH [OF 2(3)] 2(2) obtain la where "last_visible buf len (?e + 1) n = Some la" "lb \<le> la \<longleftrightarrow> breaks buf (?e + 1) lb \<le> n" by auto
    then show ?thesis using 2 le assms(3) by simp
  qed
qed

text \<open>The loop that brings a lower line on the screen.\<close>

lemma top_down_eq:
  assumes "line_start buf s" "s \<le> lb" "lb \<le> len" "line_start buf lb" "len \<le> length buf"
  shows "\<exists>t. top_down buf len lb s = Some t \<and> line_start buf t \<and> s \<le> t \<and> t \<le> lb \<and> breaks buf t lb \<le> 22 \<and>
    (breaks buf s lb \<le> 22 \<longrightarrow> t = s)"
  using assms(1,2)
proof (induction "lb - s" arbitrary: s rule: less_induct)
  case less
  from last_visible_eq [OF less.prems assms(3-5), of 22] obtain la where la: "last_visible buf len s 22 = Some la"
    "lb \<le> la \<longleftrightarrow> breaks buf s lb \<le> 22" by blast
  show ?case
  proof (cases "breaks buf s lb \<le> 22")
    case True
    then show ?thesis using la less.prems by (subst top_down.simps) (simp add: TEXT_ROWS_def)
  next
    case False
    let ?e = "s + length (first_line (take (len - s) (drop s buf)))"
    have e: "s < lb" "?e < lb" "line_start buf (?e + 1)" using breaks_less [OF less.prems assms(3-5)] False by (auto simp: Let_def)
    have "lb - (?e + 1) < lb - s" "?e + 1 \<le> lb" using e(1,2) by linarith+
    from less.hyps [OF this(1) e(3) this(2)] obtain t where t: "top_down buf len lb (?e + 1) = Some t" "line_start buf t" "?e + 1 \<le> t"
      "t \<le> lb" "breaks buf t lb \<le> 22" by blast
    have "line_end buf len s = Some ?e" using line_end_eq e(1) assms(3,5) by simp
    then have "top_down buf len lb s = Some t" using t(1) la False by (subst top_down.simps) (simp add: TEXT_ROWS_def)
    then show ?thesis using t(2-5) False by simp
  qed
qed

text \<open>After scroll_fix the caret's line and column are on the screen.\<close>

definition caret_col :: "edit \<Rightarrow> nat" where
  "caret_col e = width_from 0 (last_line (fst (page e)))"

definition in_view :: "edit \<Rightarrow> bool" where
  "in_view e \<longleftrightarrow> line_start (e_buf e) (e_top e) \<and> e_top e \<le> line_top e \<and> breaks (e_buf e) (e_top e) (line_top e) \<le> 22 \<and>
     0 \<le> int (caret_col e) - e_offx e \<and> int (caret_col e) - e_offx e < 80"

lemma scroll_fix_run:
  assumes "edit_wf e" "top_ok e"
  obtains t x where "scroll_fix e = Some (e\<lparr>e_top := t, e_offx := x\<rparr>)" "line_start (e_buf e) t" "t \<le> line_top e"
    "breaks (e_buf e) t (line_top e) \<le> 22" "0 \<le> x" "0 \<le> int (caret_col e) - x" "int (caret_col e) - x < 80"
    "in_view e \<longrightarrow> t = e_top e \<and> x = e_offx e"
proof -
  note w = edit_wfD [OF assms(1)]
  have b: "fst (page e) = take (e_pos e) (e_buf e)" by (simp add: page_def)
  let ?lb = "line_top e" and ?c = "caret_col e"
  have lb: "line_begin (e_buf e) (e_pos e) = Some ?lb" using line_begin_eq [OF w(4)] by (simp add: line_top_def b)
  have ls: "line_start (e_buf e) ?lb" using line_startI [OF w(4)] by (simp add: line_top_def b)
  have le: "?lb \<le> e_len e" using line_top_le [OF assms(1)] w(3) by simp
  let ?s = "if ?lb < e_top e then ?lb else e_top e"
  have up: "top_up (e_buf e) ?lb (e_top e) = Some ?s" using top_up_eq [OF ls] assms(2) w by (simp add: top_ok_def)
  have s: "line_start (e_buf e) ?s" "?s \<le> ?lb" using ls assms(2) by (auto simp: top_ok_def)
  from top_down_eq [OF s le ls w(5)] obtain t where t: "top_down (e_buf e) (e_len e) ?lb ?s = Some t" "line_start (e_buf e) t" "t \<le> ?lb"
    "breaks (e_buf e) t ?lb \<le> 22" "breaks (e_buf e) ?s ?lb \<le> 22 \<longrightarrow> t = ?s" by blast
  have c: "col_of (e_buf e) (e_pos e) = Some ?c" using col_of_eq [OF w(4)] by (simp add: caret_col_def b)
  let ?x = "if int ?c < e_offx e then int ?c else if int ?c \<ge> e_offx e + 80 then int ?c - 79 else e_offx e"
  have x: "0 \<le> ?x" "0 \<le> int ?c - ?x" "int ?c - ?x < 80" using assms(1) by (auto simp: edit_wf_def)
  have "scroll_fix e = Some (e\<lparr>e_top := t, e_offx := ?x\<rparr>)"
    using lb up t(1) c x(1) assms(1) by (simp add: scroll_fix_def Let_def MIRROR_COLS_def edit_wf_def)
  moreover have "t = e_top e \<and> ?x = e_offx e" if "in_view e" using t(5) that by (simp add: in_view_def)
  ultimately show thesis using that [of ?x t] t x by blast
qed

end
