(* ===== verification/EditView.thy ===== *)
theory EditView
  imports EditText
begin

text \<open>
home/edit.c: what the editor draws, cell by cell: the lines of the text with their tabs spread out, clipped to the
  window, and the caret.
\<close>

section \<open>Drawing that keeps what is above\<close>

text \<open>A drawing that changes cells from index \<open>n\<close> on only.\<close>

definition keeps_below :: "nat \<Rightarrow> mirror \<Rightarrow> mirror \<Rightarrow> bool" where
  "keeps_below n m m' \<longleftrightarrow> mirror_wf m' \<and> m_front m' = m_front m \<and> (\<forall>j<2000. j < n \<longrightarrow> m_back m' ! j = m_back m ! j)"

lemma keeps_below_refl: "mirror_wf m \<Longrightarrow> keeps_below n m m"
  by (simp add: keeps_below_def)

lemma keeps_below_trans: "keeps_below n m m' \<Longrightarrow> keeps_below n m' m'' \<Longrightarrow> keeps_below n m m''"
  by (simp add: keeps_below_def)

lemma keeps_below_less: "keeps_below n m m' \<Longrightarrow> k \<le> n \<Longrightarrow> keeps_below k m m'"
  by (simp add: keeps_below_def)

lemma keeps_below_wf: "keeps_below n m m' \<Longrightarrow> mirror_wf m'"
  by (simp add: keeps_below_def)

lemma putc_wf:
  assumes "mirror_wf m" "ch \<noteq> 10"
  obtains m' where "mirror_putc x y ch attr m = Some m'" "mirror_wf m'" "m_front m' = m_front m"
    "\<forall>j<2000. m_back m' ! j = (if 0 \<le> x \<and> x < 80 \<and> 0 \<le> y \<and> j = nat (y * 80 + x) then \<lparr>mc_ch = ch, mc_attr = attr\<rparr> else m_back m ! j)"
proof -
  let ?m = "if 0 \<le> x \<and> x < 80 \<and> 0 \<le> y \<and> y < 25
    then m\<lparr>m_back := (m_back m)[nat (y * 80 + x) := \<lparr>mc_ch = ch, mc_attr = attr\<rparr>]\<rparr> else m"
  have p: "mirror_putc x y ch attr m = Some ?m" using assms(1) mirror_putc_eq by (simp add: mirror_wf_def)
  have c: "mirror_wf ?m" using assms by (auto simp: mirror_wf_def)
  have "m_back ?m ! j = (if 0 \<le> x \<and> x < 80 \<and> 0 \<le> y \<and> j = nat (y * 80 + x) then \<lparr>mc_ch = ch, mc_attr = attr\<rparr> else m_back m ! j)"
    if "j < 2000" for j using assms(1) that by (auto simp: mirror_wf_def nth_list_update)
  with p c show thesis by (intro that [of ?m]) simp_all
qed

lemma putc_keeps:
  assumes "mirror_wf m" "ch \<noteq> 10" "0 \<le> x \<Longrightarrow> int n \<le> y * 80 + x"
  obtains m' where "mirror_putc x y ch attr m = Some m'" "keeps_below n m m'"
proof -
  obtain m' where m': "mirror_putc x y ch attr m = Some m'" "mirror_wf m'" "m_front m' = m_front m"
    "\<forall>j<2000. m_back m' ! j = (if 0 \<le> x \<and> x < 80 \<and> 0 \<le> y \<and> j = nat (y * 80 + x) then \<lparr>mc_ch = ch, mc_attr = attr\<rparr> else m_back m ! j)"
    by (rule putc_wf [OF assms(1,2), where x = x and y = y and attr = attr])
  have "m_back m' ! j = m_back m ! j" if "j < 2000" "j < n" for j
  proof -
    have "j \<noteq> nat (y * 80 + x)" if "0 \<le> x" using \<open>j < n\<close> assms(3) [OF that] by linarith
    then show ?thesis using m'(4) \<open>j < 2000\<close> by auto
  qed
  then show thesis using m'(1-3) by (intro that [of m']) (simp_all add: keeps_below_def)
qed

lemma put_sn_keeps:
  "0 \<in> set s \<Longrightarrow> mirror_wf m \<Longrightarrow> int n \<le> cy * 80 + startx \<Longrightarrow> startx \<le> cx \<Longrightarrow>
    \<exists>p. put_sn_loop startx maxw s attr (m, cx, cy) = Some p \<and> keeps_below n m (fst p)"
proof (induction s arbitrary: m cx cy)
  case (Cons c s)
  show ?case
  proof (cases "c = 0 \<or> 0 \<le> maxw \<and> cx - startx \<ge> maxw")
    case True
    then show ?thesis using Cons.prems(2) by (auto simp: keeps_below_refl)
  next
    case False
    then have s: "0 \<in> set s" using Cons.prems(1) by auto
    show ?thesis
    proof (cases "c = 10")
      case True
      have "int n \<le> (cy + 1) * 80 + startx" using Cons.prems(3) by simp
      from Cons.IH [OF s Cons.prems(2) this order_refl] show ?thesis using False True by auto
    next
      case False': False
      have "int n \<le> cy * 80 + cx" using Cons.prems(3,4) by simp
      then obtain m' where m': "mirror_putc cx cy c attr m = Some m'" "keeps_below n m m'" by (rule putc_keeps [OF Cons.prems(2) False'])
      have "startx \<le> cx + 1" using Cons.prems(4) by simp
      from Cons.IH [OF s keeps_below_wf [OF m'(2)] Cons.prems(3) this] obtain p where
        "put_sn_loop startx maxw s attr (m', cx + 1, cy) = Some p" "keeps_below n m' (fst p)" by blast
      then show ?thesis using False False' m'(1) keeps_below_trans [OF m'(2)] by (cases p) auto
    qed
  qed
qed simp

text \<open>Characters put all alike: the cells named hold them.\<close>

lemma putc_all_keeps:
  "mirror_wf m \<Longrightarrow> \<forall>(x, y, ch)\<in>set ps. ch \<noteq> 10 \<and> (0 \<le> x \<longrightarrow> int n \<le> y * 80 + x) \<Longrightarrow>
    \<exists>m'. putc_all ps attr m = Some m' \<and> keeps_below n m m'"
proof (induction ps arbitrary: m)
  case (Cons q ps)
  obtain x y ch where q: "q = (x, y, ch)" by (cases q)
  then have ch: "ch \<noteq> 10" "0 \<le> x \<Longrightarrow> int n \<le> y * 80 + x" using Cons.prems(2) by auto
  obtain m1 where m1: "mirror_putc x y ch attr m = Some m1" "keeps_below n m m1" by (rule putc_keeps [OF Cons.prems(1) ch])
  from Cons.IH [OF keeps_below_wf [OF m1(2)]] Cons.prems(2) obtain m2 where "putc_all ps attr m1 = Some m2" "keeps_below n m1 m2" by auto
  then show ?case using m1 keeps_below_trans by (auto simp: q)
qed (simp add: keeps_below_refl)

lemma putc_all_cell:
  assumes "\<forall>(x, y, c)\<in>set ps. c = ch" "ch \<noteq> 10" "j < 2000"
  shows "mirror_wf m \<Longrightarrow> putc_all ps attr m = Some m' \<Longrightarrow>
    m_back m ! j = \<lparr>mc_ch = ch, mc_attr = attr\<rparr> \<or> (\<exists>(x, y, c)\<in>set ps. 0 \<le> x \<and> x < 80 \<and> 0 \<le> y \<and> j = nat (y * 80 + x)) \<Longrightarrow>
    m_back m' ! j = \<lparr>mc_ch = ch, mc_attr = attr\<rparr>"
  using assms(1)
proof (induction ps arbitrary: m)
  case (Cons q ps)
  obtain x y where q: "q = (x, y, ch)" using Cons.prems(4) by (cases q) auto
  obtain m1 where m1: "mirror_putc x y ch attr m = Some m1" "mirror_wf m1" "m_front m1 = m_front m"
    "\<forall>j<2000. m_back m1 ! j = (if 0 \<le> x \<and> x < 80 \<and> 0 \<le> y \<and> j = nat (y * 80 + x) then \<lparr>mc_ch = ch, mc_attr = attr\<rparr> else m_back m ! j)"
    by (rule putc_wf [OF Cons.prems(1) assms(2), where x = x and y = y and attr = attr])
  have "putc_all ps attr m1 = Some m'" using Cons.prems(2) m1(1) by (simp add: q)
  moreover have "m_back m1 ! j = \<lparr>mc_ch = ch, mc_attr = attr\<rparr> \<or> (\<exists>(x, y, c)\<in>set ps. 0 \<le> x \<and> x < 80 \<and> 0 \<le> y \<and> j = nat (y * 80 + x))"
    using Cons.prems(3) m1(4) assms(3) by (auto simp: q)
  ultimately show ?case using Cons.IH [OF m1(2)] Cons.prems(4) by simp
qed simp

lemma mirror_fill_keeps:
  assumes "mirror_wf m" "ch \<noteq> 10" "int n \<le> y * 80"
  obtains m' where "mirror_fill x y w h ch attr m = Some m'" "keeps_below n m m'"
    "\<forall>i<2000. x \<le> 0 \<and> 0 < x + w \<and> 0 \<le> y \<and> 0 < h \<and> y < 25 \<and> i = nat (y * 80) \<longrightarrow> m_back m' ! i = \<lparr>mc_ch = ch, mc_attr = attr\<rparr>"
proof (cases "w \<le> 0 \<or> h \<le> 0")
  case True
  then show thesis by (intro that [of m] keeps_below_refl assms(1)) (auto simp: mirror_fill_def)
next
  case False
  define x0 y0 x1 y1 where b: "x0 = (if x < 0 then 0 else x)" "y0 = (if y < 0 then 0 else y)"
    "x1 = (if x + w > MIRROR_COLS then MIRROR_COLS else x + w)" "y1 = (if y + h > MIRROR_ROWS then MIRROR_ROWS else y + h)"
  define ps where "ps = [(xx, yy, ch). yy \<leftarrow> [y0..y1 - 1], xx \<leftarrow> [x0..x1 - 1]]"
  have mem: "(xx, yy, c) \<in> set ps \<longleftrightarrow> c = ch \<and> y0 \<le> yy \<and> yy < y1 \<and> x0 \<le> xx \<and> xx < x1" for xx yy c by (force simp: ps_def)
  have "c \<noteq> 10 \<and> (0 \<le> xx \<longrightarrow> int n \<le> yy * 80 + xx)" if "(xx, yy, c) \<in> set ps" for xx yy c
    using that assms(2,3) unfolding mem by (auto simp: b split: if_splits)
  then have "\<forall>(x, y, ch)\<in>set ps. ch \<noteq> 10 \<and> (0 \<le> x \<longrightarrow> int n \<le> y * 80 + x)" by blast
  then obtain m' where m': "putc_all ps attr m = Some m'" "keeps_below n m m'" using putc_all_keeps [OF assms(1)] by blast
  have "m_back m' ! i = \<lparr>mc_ch = ch, mc_attr = attr\<rparr>"
    if "i < 2000" "x \<le> 0" "0 < x + w" "0 \<le> y" "0 < h" "y < 25" "i = nat (y * 80)" for i
  proof -
    have "(0, y, ch) \<in> set ps" using that by (auto simp: mem b MIRROR_COLS_def MIRROR_ROWS_def)
    then have "\<exists>(x, y, c)\<in>set ps. 0 \<le> x \<and> x < 80 \<and> 0 \<le> y \<and> i = nat (y * 80 + x)" using that by force
    moreover have "\<forall>(x, y, c)\<in>set ps. c = ch" using mem by auto
    ultimately show ?thesis using putc_all_cell [OF _ assms(2) that(1) assms(1) m'(1)] by blast
  qed
  then show thesis using that [of m'] m' False by (simp add: mirror_fill_def Let_def ps_def b)
qed

lemma mirror_status_keeps:
  assumes "mirror_wf m" "0 \<in> set left" "0 \<in> set right" "r < 25"
  obtains m' where "mirror_status (int r) (Some left) (Some right) attr m = Some m'" "keeps_below (r * 80) m m'"
    "m_back m' ! (r * 80) = blank_cell attr"
proof -
  obtain m1 where m1: "mirror_fill 0 (int r) MIRROR_COLS 1 32 attr m = Some m1" "keeps_below (r * 80) m m1"
    "\<forall>i<2000. 0 \<le> (0 :: int) \<and> 0 < 0 + MIRROR_COLS \<and> 0 \<le> int r \<and> 0 < (1 :: int) \<and> int r < 25 \<and> i = nat (int r * 80) \<longrightarrow>
      m_back m1 ! i = \<lparr>mc_ch = 32, mc_attr = attr\<rparr>"
    by (rule mirror_fill_keeps [OF assms(1), of 32 "r * 80" "int r" 0 MIRROR_COLS 1 attr]) auto
  have first: "m_back m1 ! (r * 80) = blank_cell attr" using m1(3) assms(4) by (simp add: MIRROR_COLS_def blank_cell_def nat_mult_distrib)
  have n1: "int (r * 80 + 1) \<le> int r * 80 + 1" by simp
  obtain m2 q where m2: "put_sn_loop 1 (- 1) left attr (m1, 1, int r) = Some (m2, q)" "keeps_below (r * 80 + 1) m1 m2"
    using put_sn_keeps [OF assms(2) keeps_below_wf [OF m1(2)] n1 order_refl] by (metis prod.exhaust fst_conv)
  obtain c where c: "load right 0 = Some c" using assms(3) by (cases right) auto
  obtain n where n: "strlen right = Some n" using assms(3) split_list_first [OF assms(3)] strlen_terminated nul_free_def by metis
  define rx where "rx = (if MIRROR_COLS - 1 - int n < 1 then 1 else MIRROR_COLS - 1 - int n)"
  have n2: "int (r * 80 + 1) \<le> int r * 80 + rx" by (simp add: rx_def)
  obtain m3 p where m3: "put_sn_loop rx (MIRROR_COLS - rx - 1) right attr (m2, rx, int r) = Some (m3, p)" "keeps_below (r * 80 + 1) m2 m3"
    using put_sn_keeps [OF assms(3) keeps_below_wf [OF m2(2)] n2 order_refl] by (metis prod.exhaust fst_conv)
  let ?m = "if c = 0 then m2 else m3"
  have k: "keeps_below (r * 80 + 1) m1 ?m" using m2(2) m3(2) keeps_below_trans by (auto intro: keeps_below_refl)
  have "mirror_status (int r) (Some left) (Some right) attr m = Some ?m"
    using assms(4) m1(1) m2(1) m3(1) n unfolding rx_def by (simp add: mirror_status_def put_sn_def Let_def c MIRROR_ROWS_def)
  moreover have "keeps_below (r * 80) m ?m" using keeps_below_trans [OF m1(2) keeps_below_less [OF k]] by simp
  moreover have "m_back ?m ! (r * 80) = blank_cell attr" using k first assms(4) by (simp add: keeps_below_def)
  ultimately show thesis by (rule that)
qed

section \<open>A line on its row\<close>

text \<open>What a character shows as, and a line with its tabs spread out.\<close>

definition glyph :: "byte \<Rightarrow> byte" where
  "glyph c = (if sint c < 32 \<or> sint c > 126 then 46 else c)"

definition spread :: "nat \<Rightarrow> byte \<Rightarrow> byte list" where
  "spread col c = (if c = 9 then replicate (4 - col mod 4) 32 else [glyph c])"

fun expand :: "nat \<Rightarrow> byte list \<Rightarrow> byte list" where
  "expand col [] = []"
| "expand col (c # cs) = spread col c @ expand (next_col c col) cs"

text \<open>\<open>m'\<close> is \<open>m\<close> with the text \<open>gs\<close> put at column \<open>col\<close> of a row, as far as the window from column \<open>offx\<close> shows it.\<close>

definition row_shows :: "nat \<Rightarrow> int \<Rightarrow> int \<Rightarrow> byte list \<Rightarrow> mirror \<Rightarrow> mirror \<Rightarrow> bool" where
  "row_shows row offx col gs m m' \<longleftrightarrow> mirror_wf m' \<and> m_front m' = m_front m \<and>
     (\<forall>j<2000. m_back m' ! j =
        (if j div 80 = row \<and> col \<le> offx + int (j mod 80) \<and> offx + int (j mod 80) < col + int (length gs)
         then \<lparr>mc_ch = gs ! nat (offx + int (j mod 80) - col), mc_attr = ATTR_TEXT\<rparr> else m_back m ! j))"

lemma row_shows_append:
  assumes "row_shows row offx col g1 m m1" "row_shows row offx (col + int (length g1)) g2 m1 m2"
  shows "row_shows row offx col (g1 @ g2) m m2"
proof -
  have "nat (offx + int (j mod 80) - (col + int (length g1))) = nat (offx + int (j mod 80) - col) - length g1" for j by linarith
  then show ?thesis using assms by (auto simp: row_shows_def nth_append)
qed

lemma row_shows_none: "mirror_wf m \<Longrightarrow> gs = [] \<or> col \<ge> offx + 80 \<Longrightarrow> row_shows row offx col gs m m"
  by (auto simp: row_shows_def)

lemma row_index: "row < 25 \<Longrightarrow> 0 \<le> sx \<Longrightarrow> sx < 80 \<Longrightarrow> j < 2000 \<Longrightarrow>
    j = nat (int row * 80 + sx) \<longleftrightarrow> j div 80 = row \<and> int (j mod 80) = sx"
  by (auto simp: nat_add_distrib nat_mult_distrib)

lemma putc_row:
  assumes "mirror_wf m" "ch \<noteq> 10" "row < 25"
  obtains m' where "(if 0 \<le> col - offx \<and> col - offx < MIRROR_COLS then mirror_putc (col - offx) (int row) ch ATTR_TEXT m else Some m) = Some m'"
    "row_shows row offx col [ch] m m'"
proof (cases "0 \<le> col - offx \<and> col - offx < 80")
  case True
  obtain m' where m': "mirror_putc (col - offx) (int row) ch ATTR_TEXT m = Some m'" "mirror_wf m'" "m_front m' = m_front m"
    "\<forall>j<2000. m_back m' ! j = (if 0 \<le> col - offx \<and> col - offx < 80 \<and> 0 \<le> int row \<and> j = nat (int row * 80 + (col - offx))
      then \<lparr>mc_ch = ch, mc_attr = ATTR_TEXT\<rparr> else m_back m ! j)"
    by (rule putc_wf [OF assms(1,2), where x = "col - offx" and y = "int row" and attr = ATTR_TEXT])
  have "row_shows row offx col [ch] m m'"
    unfolding row_shows_def
  proof (intro conjI allI impI m'(2,3))
    fix j :: nat assume j: "j < 2000"
    have "j = nat (int row * 80 + (col - offx)) \<longleftrightarrow> j div 80 = row \<and> col \<le> offx + int (j mod 80) \<and> offx + int (j mod 80) < col + 1"
      using row_index [OF assms(3) _ _ j, of "col - offx"] True by auto
    moreover have "nat (offx + int (j mod 80) - col) = 0" if "col \<le> offx + int (j mod 80)" "offx + int (j mod 80) < col + 1" using that by linarith
    ultimately show "m_back m' ! j = (if j div 80 = row \<and> col \<le> offx + int (j mod 80) \<and> offx + int (j mod 80) < col + int (length [ch])
         then \<lparr>mc_ch = [ch] ! nat (offx + int (j mod 80) - col), mc_attr = ATTR_TEXT\<rparr> else m_back m ! j)"
      using m'(4) j True by simp
  qed
  then show thesis using that m'(1) True by (simp add: MIRROR_COLS_def)
next
  case False
  have "row_shows row offx col [ch] m m"
    unfolding row_shows_def
  proof (intro conjI allI impI refl assms(1))
    fix j :: nat assume j: "j < 2000"
    have "\<not> (col \<le> offx + int (j mod 80) \<and> offx + int (j mod 80) < col + int (length [ch]))"
      using False pos_mod_bound [of 80 "int j"] by (simp add: zmod_int) linarith
    then show "m_back m ! j = (if j div 80 = row \<and> col \<le> offx + int (j mod 80) \<and> offx + int (j mod 80) < col + int (length [ch])
         then \<lparr>mc_ch = [ch] ! nat (offx + int (j mod 80) - col), mc_attr = ATTR_TEXT\<rparr> else m_back m ! j)" by auto
  qed
  moreover have "(if 0 \<le> col - offx \<and> col - offx < MIRROR_COLS then mirror_putc (col - offx) (int row) ch ATTR_TEXT m else Some m) = Some m"
    unfolding MIRROR_COLS_def using False by (rule if_not_P)
  ultimately show thesis by (intro that [of m])
qed

lemma row_shows_wf: "row_shows row offx col gs m m' \<Longrightarrow> mirror_wf m'"
  by (simp add: row_shows_def)

lemma tab_row:
  assumes "row < 25"
  shows "mirror_wf m \<Longrightarrow> \<exists>m'. tab_cells (int row) (col - offx) n m = Some m' \<and> row_shows row offx col (replicate n 32) m m'"
proof (induction n arbitrary: col m)
  case (Suc n)
  obtain m1 where m1: "(if 0 \<le> col - offx \<and> col - offx < MIRROR_COLS then mirror_putc (col - offx) (int row) 32 ATTR_TEXT m else Some m) = Some m1"
    "row_shows row offx col [32] m m1" by (rule putc_row [OF Suc.prems _ assms, of 32 col offx]) auto
  from Suc.IH [OF row_shows_wf [OF m1(2)], of "col + 1"] obtain m2 where m2: "tab_cells (int row) (col + 1 - offx) n m1 = Some m2"
    "row_shows row offx (col + 1) (replicate n 32) m1 m2" by blast
  have "row_shows row offx col (replicate (Suc n) 32) m m2" using row_shows_append [OF m1(2)] m2(2) by simp
  moreover have "tab_cells (int row) (col - offx) (Suc n) m = Some m2"
    using m1(1) m2(1) by (simp add: algebra_simps)
  ultimately show ?case by blast
qed (simp add: row_shows_none)

lemma glyph_newline [simp]: "glyph c \<noteq> 10"
  by (auto simp: glyph_def)

lemma next_col_spread: "next_col c col = col + length (spread col c)"
  by (simp add: next_col_def spread_def TAB_W_def)

lemma draw_char_row:
  assumes "mirror_wf m" "row < 25"
  obtains m' where "draw_char (int row) offx col c m = Some m'" "row_shows row offx (int col) (spread col c) m m'"
proof (cases "c = 9")
  case True
  from tab_row [OF assms(2,1), of "int col" offx "4 - col mod 4"] show thesis using that True by (auto simp: draw_char_def spread_def TAB_W_def)
next
  case False
  obtain m' where "(if 0 \<le> int col - offx \<and> int col - offx < MIRROR_COLS then mirror_putc (int col - offx) (int row) (glyph c) ATTR_TEXT m else Some m) = Some m'"
    "row_shows row offx (int col) [glyph c] m m'" by (rule putc_row [OF assms(1) glyph_newline assms(2)])
  then show thesis using that [of m'] False unfolding draw_char_def spread_def Let_def glyph_def [symmetric] by simp
qed

lemma draw_chars_row:
  assumes "row < 25"
  shows "i + n \<le> length buf \<Longrightarrow> mirror_wf m \<Longrightarrow> \<exists>m'. draw_chars buf (int row) offx i n col m = Some m' \<and>
    row_shows row offx (int col) (expand col (take n (drop i buf))) m m'"
proof (induction n arbitrary: i col m)
  case (Suc n)
  let ?c = "buf ! i" and ?rest = "take n (drop (i + 1) buf)"
  have t: "take (Suc n) (drop i buf) = ?c # ?rest" using Suc.prems(1) by (simp add: Cons_nth_drop_Suc [symmetric])
  obtain m1 where m1: "draw_char (int row) offx col ?c m = Some m1" "row_shows row offx (int col) (spread col ?c) m m1"
    by (rule draw_char_row [OF Suc.prems(2) assms])
  note c1 = row_shows_wf [OF m1(2)]
  have nc: "int col + int (length (spread col ?c)) = int (next_col ?c col)" by (simp add: next_col_spread)
  obtain m2 where m2: "(if int (next_col ?c col) - offx \<ge> MIRROR_COLS then Some m1 else draw_chars buf (int row) offx (i + 1) n (next_col ?c col) m1) = Some m2"
    "row_shows row offx (int (next_col ?c col)) (expand (next_col ?c col) ?rest) m1 m2"
  proof (cases "int (next_col ?c col) - offx \<ge> MIRROR_COLS")
    case True
    then show thesis using that [of m1] row_shows_none [OF c1] by (simp add: MIRROR_COLS_def)
  next
    case False
    with Suc.IH [of "i + 1" m1 "next_col ?c col"] Suc.prems(1) c1 show thesis using that by auto
  qed
  have "row_shows row offx (int col) (expand col (?c # ?rest)) m m2" using row_shows_append [OF m1(2)] m2(2) nc by simp
  moreover have "draw_chars buf (int row) offx i (Suc n) col m = Some m2" using m1(1) m2(1) Suc.prems(1) by (simp add: Let_def)
  ultimately show ?case unfolding t by blast
qed (simp add: row_shows_none)

text \<open>The row of a line: its spread text from column \<open>offx\<close> on, and blanks after it.\<close>

definition line_cell :: "int \<Rightarrow> byte list \<Rightarrow> nat \<Rightarrow> mirror_cell" where
  "line_cell offx l x = \<lparr>mc_ch = (if offx + int x < int (length (expand 0 l)) then expand 0 l ! nat (offx + int x) else 32), mc_attr = ATTR_TEXT\<rparr>"

lemma fill_row_eq:
  assumes "mirror_wf m" "row < 25"
  obtains m' where "mirror_fill 0 (int row) MIRROR_COLS 1 32 ATTR_TEXT m = Some m'" "row_shows row 0 0 (replicate 80 32) m m'"
proof -
  have all: "mirror_wf m1 \<Longrightarrow> a + n = 80 \<Longrightarrow>
      \<exists>m'. putc_all (map (\<lambda>x. (x, int row, 32)) [int a..79]) ATTR_TEXT m1 = Some m' \<and> row_shows row 0 (int a) (replicate n 32) m1 m'"
    for a n m1
  proof (induction n arbitrary: a m1)
    case (Suc n)
    have up: "[int a..79] = int a # [int (a + 1)..79]" using Suc.prems(2) by (subst upto_rec1) (simp_all add: add.commute)
    obtain m2 where m2: "(if 0 \<le> int a - 0 \<and> int a - 0 < MIRROR_COLS then mirror_putc (int a - 0) (int row) 32 ATTR_TEXT m1 else Some m1) = Some m2"
      "row_shows row 0 (int a) [32] m1 m2" by (rule putc_row [OF Suc.prems(1) _ assms(2), of 32 "int a" 0]) auto
    have put: "mirror_putc (int a) (int row) 32 ATTR_TEXT m1 = Some m2" using m2(1) Suc.prems(2) by (simp add: MIRROR_COLS_def split: if_splits)
    from Suc.IH [OF row_shows_wf [OF m2(2)], of "a + 1"] Suc.prems(2) obtain m3 where
      m3: "putc_all (map (\<lambda>x. (x, int row, 32)) [int (a + 1)..79]) ATTR_TEXT m2 = Some m3"
      "row_shows row 0 (int (a + 1)) (replicate n 32) m2 m3" by auto
    have "int a + int (length [32 :: byte]) = int (a + 1)" by simp
    then have "row_shows row 0 (int a) ([32] @ replicate n 32) m1 m3" using row_shows_append [OF m2(2)] m3(2) by metis
    then show ?case using put m3(1) unfolding up by auto
  qed (auto simp: row_shows_none)
  from all [OF assms(1), of 0 80] obtain m' where m': "putc_all (map (\<lambda>x. (x, int row, 32)) [0..79]) ATTR_TEXT m = Some m'"
    "row_shows row 0 0 (replicate 80 32) m m'" by auto
  have "mirror_fill 0 (int row) MIRROR_COLS 1 32 ATTR_TEXT m = putc_all (map (\<lambda>x. (x, int row, 32)) [0..79]) ATTR_TEXT m"
    using assms(2) by (simp add: mirror_fill_def MIRROR_COLS_def MIRROR_ROWS_def)
  with m' that show thesis by simp
qed

text \<open>One row drawn, all others left.\<close>

definition row_drawn :: "nat \<Rightarrow> (nat \<Rightarrow> mirror_cell) \<Rightarrow> mirror \<Rightarrow> mirror \<Rightarrow> bool" where
  "row_drawn row f m m' \<longleftrightarrow> mirror_wf m' \<and> m_front m' = m_front m \<and>
     (\<forall>j<2000. m_back m' ! j = (if j div 80 = row then f (j mod 80) else m_back m ! j))"

lemma draw_line_row:
  assumes "edit_wf e" "mirror_wf m" "row < 25"
  obtains m' where "draw_line (int row) s e m = Some m'"
    "row_drawn row (\<lambda>x. if s \<le> e_len e then line_cell (e_offx e) (first_line (drop s (text_of e))) x else blank_cell ATTR_TEXT) m m'"
proof -
  note w = edit_wfD [OF assms(1)]
  obtain m1 where m1: "mirror_fill 0 (int row) MIRROR_COLS 1 32 ATTR_TEXT m = Some m1" "row_shows row 0 0 (replicate 80 32) m m1"
    by (rule fill_row_eq [OF assms(2,3)])
  note c1 = row_shows_wf [OF m1(2)]
  have b1: "m_back m1 ! j = (if j div 80 = row then blank_cell ATTR_TEXT else m_back m ! j)" if "j < 2000" for j
    using m1(2) that by (auto simp: row_shows_def blank_cell_def nat_less_iff)
  have front: "m_front m1 = m_front m" using m1(2) by (simp add: row_shows_def)
  show thesis
  proof (cases "s \<le> e_len e")
    case False
    then show thesis using that [of m1] m1(1) b1 c1 front by (simp add: draw_line_def row_drawn_def)
  next
    case True
    let ?l = "first_line (drop s (text_of e))"
    have ds: "drop s (text_of e) = take (e_len e - s) (drop s (e_buf e))" by (simp add: text_of_def drop_take)
    have le: "line_end (e_buf e) (e_len e) s = Some (s + length ?l)" using line_end_eq [OF True w(5)] ds by simp
    have ll: "length ?l \<le> e_len e - s" using length_takeWhile_le [of "\<lambda>c. c \<noteq> 10" "drop s (text_of e)"] w by (simp add: first_line_def text_of_def)
    have tl: "take (length ?l) (drop s (e_buf e)) = ?l"
    proof -
      have "?l = take (length ?l) (drop s (text_of e))" unfolding first_line_def by (rule takeWhile_eq_take)
      moreover have "take k (drop s (text_of e)) = take k (drop s (e_buf e))" if "k \<le> e_len e - s" for k using that by (simp add: ds)
      ultimately show ?thesis using ll by metis
    qed
    have "s + length ?l \<le> length (e_buf e)" using ll True w by linarith
    from draw_chars_row [OF assms(3) this c1, where col = 0 and offx = "e_offx e"] obtain m2 where
      m2: "draw_chars (e_buf e) (int row) (e_offx e) s (length ?l) 0 m1 = Some m2"
      "row_shows row (e_offx e) 0 (expand 0 ?l) m1 m2" unfolding tl by auto
    have "m_back m2 ! j = (if j div 80 = row then line_cell (e_offx e) ?l (j mod 80) else m_back m ! j)" if "j < 2000" for j
      using m2(2) that b1 assms(1) by (auto simp: row_shows_def line_cell_def blank_cell_def edit_wf_def)
    then have "row_drawn row (line_cell (e_offx e) ?l) m m2" using m2(2) front by (simp add: row_drawn_def row_shows_def)
    moreover have "draw_line (int row) s e m = Some m2" using m1(1) m2(1) le True by (simp add: draw_line_def)
    ultimately show thesis using that [of m2] True by simp
  qed
qed

section \<open>The text on the screen\<close>

fun split_lines :: "byte list \<Rightarrow> byte list list" where
  "split_lines [] = [[]]"
| "split_lines (c # cs) = (if c = 10 then [] # split_lines cs else (c # hd (split_lines cs)) # tl (split_lines cs))"

lemma split_lines_first:
  "split_lines a = first_line a # (if length (first_line a) = length a then [] else split_lines (drop (length (first_line a) + 1) a))"
proof (induction a)
  case (Cons c cs)
  show ?case
  proof (cases "c = 10")
    case False
    then have "first_line (c # cs) = c # first_line cs" by (simp add: first_line_def)
    with Cons False show ?thesis by simp
  qed (simp add: first_line_def)
qed (simp add: first_line_def)

text \<open>The cell of row \<open>r\<close> of the window, \<open>r\<close> counted from the first line shown.\<close>

definition text_cell :: "edit \<Rightarrow> nat \<Rightarrow> nat \<Rightarrow> mirror_cell" where
  "text_cell e r x =
     (let ls = split_lines (drop (e_top e) (text_of e))
      in if r < length ls then line_cell (e_offx e) (ls ! r) x else blank_cell ATTR_TEXT)"

text \<open>What is drawn of a text is printable.\<close>

lemma expand_no_newline: "10 \<notin> set (expand col l)"
  by (induction l arbitrary: col) (auto simp: spread_def glyph_def)

lemma text_cell_char:
  assumes "0 \<le> e_offx e"
  shows "not_newline (text_cell e r x)"
proof -
  have "not_newline (line_cell offx l x)" if "0 \<le> offx" for offx l
    using expand_no_newline [of 0 l] that
    by (auto simp: line_cell_def not_newline_def in_set_conv_nth nat_less_iff)
  then show ?thesis using assms by (simp add: text_cell_def Let_def blank_cell_def not_newline_def)
qed

lemma row_drawn_wf: "row_drawn row f m m' \<Longrightarrow> mirror_wf m'"
  by (simp add: row_drawn_def)

lemma draw_rows_text:
  assumes "edit_wf e"
  shows "mirror_wf m \<Longrightarrow> row + n \<le> 25 \<Longrightarrow> (s \<le> e_len e \<and> ls = split_lines (drop s (text_of e)) \<or> s > e_len e \<and> ls = []) \<Longrightarrow>
    \<exists>m'. draw_rows (int row) n s e m = Some m' \<and> mirror_wf m' \<and> m_front m' = m_front m \<and>
      (\<forall>j<2000. m_back m' ! j = (if row \<le> j div 80 \<and> j div 80 < row + n
         then (if j div 80 - row < length ls then line_cell (e_offx e) (ls ! (j div 80 - row)) (j mod 80) else blank_cell ATTR_TEXT)
         else m_back m ! j))"
proof (induction n arbitrary: row s ls m)
  case (Suc n)
  note w = edit_wfD [OF assms]
  have row: "row < 25" using Suc.prems(2) by simp
  let ?l = "first_line (drop s (text_of e))"
  obtain m1 where m1: "draw_line (int row) s e m = Some m1"
    "row_drawn row (\<lambda>x. if s \<le> e_len e then line_cell (e_offx e) ?l x else blank_cell ATTR_TEXT) m m1"
    by (rule draw_line_row [OF assms Suc.prems(1) row])
  note c1 = row_drawn_wf [OF m1(2)]
  have lt: "length (text_of e) = e_len e" using w by (simp add: text_of_def)
  have ds: "drop s (text_of e) = take (e_len e - s) (drop s (e_buf e))" by (simp add: text_of_def drop_take)
  obtain s' where s': "(if s \<le> e_len e then do { ed \<leftarrow> line_end (e_buf e) (e_len e) s;
             Some (if ed < e_len e then ed + 1 else e_len e + 1) } else Some s) = Some s'"
      "s' \<le> e_len e \<and> tl ls = split_lines (drop s' (text_of e)) \<or> s' > e_len e \<and> tl ls = []"
  proof (cases "s \<le> e_len e")
    case False
    then show thesis using that [of s] Suc.prems(3) by simp
  next
    case True
    have le: "line_end (e_buf e) (e_len e) s = Some (s + length ?l)" using line_end_eq [OF True w(5)] ds by simp
    have ls: "ls = ?l # (if length ?l = length (drop s (text_of e)) then [] else split_lines (drop (length ?l + 1) (drop s (text_of e))))"
      using Suc.prems(3) True split_lines_first [of "drop s (text_of e)"] by simp
    have ll: "length ?l \<le> e_len e - s" using length_takeWhile_le [of "\<lambda>c. c \<noteq> 10" "drop s (text_of e)"] lt by (simp add: first_line_def)
    show thesis
    proof (cases "s + length ?l < e_len e")
      case True': True
      have "tl ls = split_lines (drop (s + length ?l + 1) (text_of e))" unfolding ls using True' lt by (simp add: add_ac)
      then show thesis using that [of "s + length ?l + 1"] le True True' by simp
    next
      case False
      then have "tl ls = []" unfolding ls using ll lt True by simp
      then show thesis using that [of "e_len e + 1"] le True False by simp
    qed
  qed
  have "row + 1 + n \<le> 25" using Suc.prems(2) by simp
  from Suc.IH [OF c1 this s'(2)] obtain m2 where m2: "draw_rows (int (row + 1)) n s' e m1 = Some m2" "mirror_wf m2" "m_front m2 = m_front m1"
    "\<forall>j<2000. m_back m2 ! j = (if row + 1 \<le> j div 80 \<and> j div 80 < row + 1 + n
         then (if j div 80 - (row + 1) < length (tl ls) then line_cell (e_offx e) (tl ls ! (j div 80 - (row + 1))) (j mod 80) else blank_cell ATTR_TEXT)
         else m_back m1 ! j)" by blast
  have hd: "ls = [] \<longleftrightarrow> s > e_len e" "s \<le> e_len e \<Longrightarrow> ls ! 0 = ?l"
    using Suc.prems(3) split_lines_first [of "drop s (text_of e)"] by auto
  have "m_back m2 ! j = (if row \<le> j div 80 \<and> j div 80 < row + Suc n
         then (if j div 80 - row < length ls then line_cell (e_offx e) (ls ! (j div 80 - row)) (j mod 80) else blank_cell ATTR_TEXT)
         else m_back m ! j)" if "j < 2000" for j
  proof -
    consider "j div 80 = row" | "row + 1 \<le> j div 80" | "j div 80 < row" by linarith
    then show ?thesis
    proof cases
      case 1
      then show ?thesis using m2(4) m1(2) that hd by (auto simp: row_drawn_def)
    next
      case 2
      then obtain i where i: "j div 80 - row = Suc i" "j div 80 - (row + 1) = i" by (metis Suc_diff_le diff_Suc_Suc Suc_eq_plus1)
      have "tl ls ! i = ls ! Suc i" if "i < length (tl ls)" using that by (simp add: nth_tl)
      moreover have "i < length (tl ls) \<longleftrightarrow> Suc i < length ls" by auto
      ultimately show ?thesis using 2 m2(4) m1(2) that i by (auto simp: row_drawn_def)
    next
      case 3
      then show ?thesis using m2(4) m1(2) that by (auto simp: row_drawn_def)
    qed
  qed
  moreover have "draw_rows (int row) (Suc n) s e m = Some m2" using m1(1) s'(1) m2(1) by (simp add: add.commute)
  moreover have "m_front m2 = m_front m" using m2(3) m1(2) by (simp add: row_drawn_def)
  ultimately show ?case using m2(2) by blast
qed auto

section \<open>The messages\<close>

lemma terminated_split: "0 \<in> set s \<Longrightarrow> \<exists>r. s = cstr s @ 0 # r \<and> length (cstr s) < length s"
proof -
  assume "0 \<in> set s"
  then obtain r where r: "s = cstr s @ 0 # r" using terminated by blast
  have "length s = length (cstr s) + Suc (length r)" by (subst r) simp
  with r show ?thesis by auto
qed

lemma strcpy_ok:
  assumes "0 \<in> set s" "length (cstr s) < length d"
  obtains d' where "strcpy d s = Some d'" "length d' = length d" "0 \<in> set d'" "cstr d' = cstr s"
proof -
  obtain r where r: "s = cstr s @ 0 # r" using terminated_split [OF assms(1)] by blast
  have n: "nul_free (cstr s)" by simp
  have "strcpy d s = Some (cstr s @ 0 # drop (Suc (length (cstr s))) d)"
    by (subst r) (simp add: strcpy_terminated [OF n] assms(2))
  then show thesis by (rule that) (use assms(2) in simp_all)
qed

lemma scat_ok:
  assumes "0 \<in> set s"
  shows "0 \<in> set d \<Longrightarrow> length (cstr d) + length (cstr s) < length d \<Longrightarrow>
    \<exists>d'. scat d s = Some d' \<and> length d' = length d \<and> 0 \<in> set d' \<and> cstr d' = cstr d @ cstr s"
proof (induction d)
  case (Cons c d)
  show ?case
  proof (cases "c = 0")
    case True
    then obtain d' where "strcpy (c # d) s = Some d'" "length d' = length (c # d)" "0 \<in> set d'" "cstr d' = cstr s"
      using strcpy_ok [OF assms, of "c # d"] Cons.prems(2) by auto
    then show ?thesis using True by simp
  next
    case False
    then obtain d' where "scat d s = Some d'" "length d' = length d" "0 \<in> set d'" "cstr d' = cstr d @ cstr s"
      using Cons by auto
    then show ?thesis using False by simp
  qed
qed simp

lemma cstr_lit [simp]: "nul_free (asc s) \<Longrightarrow> cstr (lit s) = asc s"
  by (simp add: lit_def)

lemma scatn_ok:
  assumes "0 \<in> set d" "length (cstr d) + 11 < length d"
  obtains d' where "scatn d n = Some d'" "length d' = length d" "0 \<in> set d'" "cstr d' = cstr d @ itoa_text (of_nat n)"
proof -
  let ?t = "itoa_text (of_nat n) @ 0 # drop (Suc (length (itoa_text (of_nat n)))) (replicate 12 0)"
  have l: "length (itoa_text (of_nat n)) \<le> 11" by (rule itoa_text_length)
  then have i: "itoa (of_nat n) (replicate 12 0) = Some ?t" by (intro itoa_eq) simp
  have c: "cstr ?t = itoa_text (of_nat n)" using nul_free_itoa_text by (rule cstr_terminated)
  have "0 \<in> set ?t" by simp
  from scat_ok [OF this assms(1)] assms(2) l show thesis using that unfolding c by (auto simp: scatn_def i)
qed

lemma blank_local: "0 < n \<Longrightarrow> 0 \<in> set (replicate n (0 :: byte))"
  by simp

section \<open>The frame\<close>

lemma cstr_short: "0 \<in> set s \<Longrightarrow> length (cstr s) < length s"
  using terminated_split by blast

lemma draw_title_keeps:
  assumes "edit_wf e" "mirror_wf m"
  obtains m' where "draw_title e m = Some m'" "keeps_below 0 m m'"
proof -
  have nf: "nul_free (asc ''lunaria edit - '')" "nul_free (asc ''(untitled)'')" by simp_all
  obtain l1 where l1: "strcpy (replicate 76 0) (lit ''lunaria edit - '') = Some l1" "length l1 = 76" "0 \<in> set l1" "cstr l1 = asc ''lunaria edit - ''"
    using strcpy_ok [of "lit ''lunaria edit - ''" "replicate 76 0"] cstr_lit [OF nf(1)] by auto
  obtain c where c: "load (e_fname e) 0 = Some c" using assms(1) by (cases "e_fname e") (auto simp: edit_wf_def)
  let ?n = "if c \<noteq> 0 then e_fname e else lit ''(untitled)''"
  have n: "0 \<in> set ?n" "length (cstr ?n) < 23" using assms(1) cstr_short [of "e_fname e"] cstr_lit [OF nf(2)] by (auto simp: edit_wf_def)
  obtain l2 where l2: "scat l1 ?n = Some l2" "0 \<in> set l2" using scat_ok [OF n(1) l1(3)] l1(2,4) n(2) by auto
  let ?d = "if e_dirty e then lit ''modified'' else lit ''''"
  have "0 \<in> set ?d" by simp
  then obtain m' where m': "mirror_status (int 0) (Some l2) (Some ?d) ATTR_TITLE m = Some m'" "keeps_below (0 * 80) m m'"
    using mirror_status_keeps [OF assms(2) l2(2), of ?d 0 ATTR_TITLE] by auto
  then show thesis using that [of m'] l1(1) l2(1) c by (simp add: draw_title_def)
qed

lemma breaks_to_caret:
  assumes "edit_wf e" "t \<le> line_top e"
  shows "breaks (e_buf e) t (e_pos e) = breaks (e_buf e) t (line_top e)"
proof -
  note w = edit_wfD [OF assms(1)]
  let ?l = "last_line (fst (page e))"
  have b: "fst (page e) = take (e_pos e) (e_buf e)" by (simp add: page_def)
  have len: "length ?l \<le> e_pos e" using length_last_line [of "fst (page e)"] page_lengths(1) [OF assms(1)] by simp
  have l: "take (length ?l) (drop (line_top e) (e_buf e)) = ?l" using last_line_take [OF w(4)] by (simp add: line_top_def b)
  have eq: "e_pos e - t = (line_top e - t) + length ?l" using len assms(2) by (simp add: line_top_def)
  have "take (e_pos e - t) (drop t (e_buf e)) = take (line_top e - t) (drop t (e_buf e)) @ take (length ?l) (drop (line_top e) (e_buf e))"
    unfolding eq take_add using assms(2) by simp
  moreover have "count_list ?l 10 = 0" using newline_free_last_line by (simp add: count_list_0_iff)
  ultimately show ?thesis by (simp add: breaks_def l)
qed

text \<open>Where the caret is on the screen.\<close>

definition caret :: "edit \<Rightarrow> int \<times> int" where
  "caret e = (if e_cmd_mode e then (2 + int (e_cmd_len e), 24)
     else (int (caret_col e) - e_offx e, 1 + int (breaks (e_buf e) (e_top e) (line_top e))))"

lemma mirror_cursor_run:
  assumes "sys_ok (oc_sys oc)" "shown (oc_sys oc)" "0 \<le> x" "x < 80" "0 \<le> y" "y < 25"
  obtains oc' where "mirror_cursor k x y oc = Some oc'" "shows_term (move_to x y (cur_term (oc_sys oc))) oc oc'"
proof -
  have u: "uint (of_int x :: u32) = x" "uint (of_int y :: u32) = y"
    using assms(3-6) by (simp_all add: uint_word_of_int)
  have lt: "(of_int x :: u32) < 80" "(of_int y :: u32) < 25" using assms(3-6) u by (simp_all add: word_less_def)
  obtain oc' where "sys_goto_xy k (of_int x) (of_int y) oc = Some oc'"
    "shows_term (if (of_int x :: u32) < 80 \<and> (of_int y :: u32) < 25 then move_to (uint (of_int x :: u32)) (uint (of_int y :: u32)) (cur_term (oc_sys oc))
      else cur_term (oc_sys oc)) oc oc'" by (rule sys_goto_xy_eq [OF assms(1,2)])
  then show thesis using that [of oc'] lt u by (simp add: mirror_cursor_def)
qed

lemma draw_command_run:
  assumes "edit_wf e" "mirror_wf m" "sys_ok (oc_sys oc)" "shown (oc_sys oc)"
  obtains m' oc' where "draw_command k e m oc = Some (m', oc')" "keeps_below 1920 m m'" "m_back m' ! 1920 = blank_cell ATTR_STATUS"
    "shows_term (move_to (2 + int (e_cmd_len e)) 24 (cur_term (oc_sys oc))) oc oc'"
proof -
  obtain l1 where l1: "strcpy (replicate 76 0) (lit '':'') = Some l1" "length l1 = 76" "0 \<in> set l1" "cstr l1 = asc '':''"
    using strcpy_ok [of "lit '':''" "replicate 76 0"] cstr_lit [of "'':''"] by auto
  have c: "0 \<in> set (e_cmd e)" "length (cstr (e_cmd e)) < 51" using assms(1) cstr_short [of "e_cmd e"] by (auto simp: edit_wf_def)
  obtain l2 where l2: "scat l1 (e_cmd e) = Some l2" "0 \<in> set l2" using scat_ok [OF c(1) l1(3)] l1(2,4) c(2) by auto
  let ?r = "lit ''enter run - esc cancel''"
  obtain m' where m': "mirror_status (int 24) (Some l2) (Some ?r) ATTR_STATUS m = Some m'" "keeps_below (24 * 80) m m'"
    "m_back m' ! (24 * 80) = blank_cell ATTR_STATUS"
    by (rule mirror_status_keeps [OF assms(2) l2(2) lit_NUL, where r = 24]) simp_all
  have cl: "e_cmd_len e \<le> 50" using assms(1) by (simp add: edit_wf_def)
  obtain oc' where "mirror_cursor k (2 + int (e_cmd_len e)) 24 oc = Some oc'"
    "shows_term (move_to (2 + int (e_cmd_len e)) 24 (cur_term (oc_sys oc))) oc oc'"
    by (rule mirror_cursor_run [OF assms(3,4), where k = k and x = "2 + int (e_cmd_len e)" and y = 24]) (use cl in auto)
  then show thesis using that [of m' oc'] l1(1) l2(1) m' by (simp add: draw_command_def)
qed

lemma draw_position_run:
  assumes "edit_wf e" "mirror_wf m" "sys_ok (oc_sys oc)" "shown (oc_sys oc)" "in_view e"
  obtains m' oc' where "draw_position k e m oc = Some (m', oc')" "keeps_below 1920 m m'" "m_back m' ! 1920 = blank_cell ATTR_STATUS"
    "shows_term (move_to (int (caret_col e) - e_offx e) (1 + int (breaks (e_buf e) (e_top e) (line_top e))) (cur_term (oc_sys oc))) oc oc'"
proof -
  note w = edit_wfD [OF assms(1)]
  have b: "fst (page e) = take (e_pos e) (e_buf e)" by (simp add: page_def)
  have col: "col_of (e_buf e) (e_pos e) = Some (caret_col e)" using col_of_eq [OF w(4)] by (simp add: caret_col_def b)
  obtain l where line: "line_of (e_buf e) (e_pos e) = Some l" using newlines_eq [of 0 "e_pos e" "e_buf e" 1] w by (simp add: line_of_def)
  obtain r1 where r1: "strcpy (replicate 26 0) (lit ''L'') = Some r1" "length r1 = 26" "0 \<in> set r1" "cstr r1 = asc ''L''"
    using strcpy_ok [of "lit ''L''" "replicate 26 0"] cstr_lit [of "''L''"] by auto
  have "length (cstr r1) + 11 < length r1" using r1 by simp
  then obtain r2 where r2: "scatn r1 l = Some r2" "length r2 = 26" "0 \<in> set r2" "cstr r2 = asc ''L'' @ itoa_text (of_nat l)"
    using scatn_ok [OF r1(3), of l] r1(2,4) by metis
  have t1: "length (itoa_text (of_nat l)) \<le> 11" by (rule itoa_text_length)
  have nC: "cstr (lit '' C'') = asc '' C''" by (rule cstr_lit) simp
  have "length (cstr r2) + length (cstr (lit '' C'')) < length r2" using r2(2,4) t1 nC by simp
  from scat_ok [OF lit_NUL r2(3) this] obtain r3 where r3: "scat r2 (lit '' C'') = Some r3" "length r3 = 26" "0 \<in> set r3"
    "cstr r3 = (asc ''L'' @ itoa_text (of_nat l)) @ asc '' C''" using r2(2,4) nC by auto
  have "length (cstr r3) + 11 < length r3" using r3(2,4) t1 by simp
  then obtain r4 where r4: "scatn r3 (caret_col e + 1) = Some r4" "0 \<in> set r4" using scatn_ok [OF r3(3)] by metis
  obtain c0 where c0: "load (e_msg e) 0 = Some c0" using assms(1) by (cases "e_msg e") (auto simp: edit_wf_def)
  let ?s = "if c0 \<noteq> 0 then e_msg e else lit ''esc commands | arrows move | type to edit''"
  have esc: "cstr (lit ''esc commands | arrows move | type to edit'') = asc ''esc commands | arrows move | type to edit''"
    by (rule cstr_lit) simp
  have s: "0 \<in> set ?s" "length (cstr ?s) < length (replicate 76 (0 :: byte))"
    using assms(1) cstr_short [of "e_msg e"] esc by (auto simp: edit_wf_def)
  obtain l1 where l1: "strcpy (replicate 76 0) ?s = Some l1" "0 \<in> set l1" by (rule strcpy_ok [OF s])
  obtain m' where m': "mirror_status (int 24) (Some l1) (Some r4) ATTR_STATUS m = Some m'" "keeps_below (24 * 80) m m'"
    "m_back m' ! (24 * 80) = blank_cell ATTR_STATUS"
    by (rule mirror_status_keeps [OF assms(2) l1(2) r4(2), where r = 24]) simp_all
  have tp: "e_top e \<le> line_top e" "e_top e + (e_pos e - e_top e) \<le> length (e_buf e)"
    using assms(5) line_top_le [OF assms(1)] w(4) by (simp_all add: in_view_def)
  have rows: "newlines (e_buf e) (e_top e) (e_pos e - e_top e) 0 = Some (breaks (e_buf e) (e_top e) (line_top e))"
    using newlines_eq [OF tp(2), of 0] breaks_to_caret [OF assms(1) tp(1)] by (simp add: breaks_def)
  obtain oc' where oc': "mirror_cursor k (int (caret_col e) - e_offx e) (1 + int (breaks (e_buf e) (e_top e) (line_top e))) oc = Some oc'"
    "shows_term (move_to (int (caret_col e) - e_offx e) (1 + int (breaks (e_buf e) (e_top e) (line_top e))) (cur_term (oc_sys oc))) oc oc'"
    by (rule mirror_cursor_run [OF assms(3,4), where k = k and x = "int (caret_col e) - e_offx e"
        and y = "1 + int (breaks (e_buf e) (e_top e) (line_top e))"]) (use assms(5) in \<open>auto simp: in_view_def\<close>)
  have "draw_position k e m oc = Some (m', oc')"
    using r1(1) line r2(1) r3(1) col r4(1) c0 l1(1) m'(1) rows oc'(1) by (simp add: draw_position_def)
  then show thesis using m'(2,3) oc'(2) by (intro that [of m' oc']) simp_all
qed

lemma draw_run:
  assumes "edit_wf e" "mirror_wf m" "sys_ok (oc_sys oc)" "shown (oc_sys oc)" "in_view e"
  obtains m' oc' where "draw k e m oc = Some (m', oc')" "mirror_wf m'" "m_front m' = m_front m"
    "\<forall>r<23. \<forall>x<80. m_back m' ! ((r + 1) * 80 + x) = text_cell e r x" "m_back m' ! 1920 = blank_cell ATTR_STATUS"
    "shows_term (move_to (fst (caret e)) (snd (caret e)) (cur_term (oc_sys oc))) oc oc'"
proof -
  obtain m1 where m1: "draw_title e m = Some m1" "keeps_below 0 m m1" by (rule draw_title_keeps [OF assms(1,2)])
  have tp: "e_top e \<le> e_len e" using assms(5) line_top_le [OF assms(1)] edit_wfD(3) [OF assms(1)] by (simp add: in_view_def)
  let ?ls = "split_lines (drop (e_top e) (text_of e))"
  have "1 + 23 \<le> (25 :: nat)" "e_top e \<le> e_len e \<and> ?ls = ?ls \<or> e_top e > e_len e \<and> ?ls = []" using tp by simp_all
  from draw_rows_text [OF assms(1) keeps_below_wf [OF m1(2)] this] obtain m2 where m2: "draw_rows 1 23 (e_top e) e m1 = Some m2"
    "mirror_wf m2" "m_front m2 = m_front m1" "\<forall>j<2000. m_back m2 ! j = (if 1 \<le> j div 80 \<and> j div 80 < 1 + 23
         then (if j div 80 - 1 < length ?ls then line_cell (e_offx e) (?ls ! (j div 80 - 1)) (j mod 80) else blank_cell ATTR_TEXT)
         else m_back m1 ! j)" by auto
  obtain m3 oc' where m3: "(if e_cmd_mode e then draw_command k e m2 oc else draw_position k e m2 oc) = Some (m3, oc')"
    "keeps_below 1920 m2 m3" "m_back m3 ! 1920 = blank_cell ATTR_STATUS"
    "shows_term (move_to (fst (caret e)) (snd (caret e)) (cur_term (oc_sys oc))) oc oc'"
  proof (cases "e_cmd_mode e")
    case True
    show thesis by (rule draw_command_run [OF assms(1) m2(2) assms(3,4), of k]) (use that True in \<open>simp add: caret_def\<close>)
  next
    case False
    show thesis by (rule draw_position_run [OF assms(1) m2(2) assms(3-5), of k]) (use that False in \<open>simp add: caret_def\<close>)
  qed
  have "m_back m3 ! ((r + 1) * 80 + x) = text_cell e r x" if "r < 23" "x < 80" for r x
  proof -
    have ix: "(r + 1) * 80 + x < 1920" "((r + 1) * 80 + x) div 80 = r + 1" "((r + 1) * 80 + x) mod 80 = x"
      using that mod_mult_self3 [of "r + 1" 80 x] by auto
    have "m_back m3 ! ((r + 1) * 80 + x) = m_back m2 ! ((r + 1) * 80 + x)" using m3(2) ix(1) by (simp add: keeps_below_def)
    also have "\<dots> = text_cell e r x" using m2(4) [rule_format, of "(r + 1) * 80 + x"] ix that by (simp add: text_cell_def Let_def)
    finally show ?thesis .
  qed
  moreover have "draw k e m oc = Some (m3, oc')" using m1(1) m2(1) m3(1) by (simp add: draw_def)
  moreover have "mirror_wf m3" "m_front m3 = m_front m" using m3(2) m2(3) m1(2) by (simp_all add: keeps_below_def)
  ultimately show thesis using that [of m3 oc'] m3(3,4) by simp
qed

section \<open>What the editor shows\<close>

text \<open>A drawn frame keeps the mirror's invariant.\<close>

lemma frame_inv:
  assumes "mirror_inv m oc" "mirror_wf m'" "m_front m' = m_front m" "shows_term t oc oc'"
    "t_cells t = t_cells (cur_term (oc_sys oc))" "t_color t = t_color (cur_term (oc_sys oc))"
  shows "mirror_inv m' oc'"
  using assms shows_termD [OF assms(4)] looks_like_cells [OF assms(5)]
  by (simp add: mirror_inv_def mirror_wf_def dark_def)

lemma edit_show_run:
  assumes "edit_wf e" "top_ok e" "mirror_inv m oc"
  obtains e' m' oc' t x where "edit_show env e m oc = Some (e', m', oc')" "e' = e\<lparr>e_top := t, e_offx := x\<rparr>" "edit_wf e'" "in_view e'"
    "mirror_inv m' oc'" "\<forall>r<23. \<forall>x<80. look (cell_nth (cur_term (oc_sys oc')) ((r + 1) * 80 + x)) = look (text_cell e' r x)"
    "(t_cursor_x (cur_term (oc_sys oc')), t_cursor_y (cur_term (oc_sys oc'))) = caret e'"
    "oc_keys oc' = oc_keys oc" "sy_kbd (oc_sys oc') = sy_kbd (oc_sys oc)" "sy_fs (oc_sys oc') = sy_fs (oc_sys oc)"
    "in_view e \<longrightarrow> t = e_top e \<and> x = e_offx e"
proof -
  let ?k = "ev_kernel env"
  have o: "sys_ok (oc_sys oc)" "shown (oc_sys oc)" and wf0: "mirror_wf m" using assms(3) by (simp_all add: mirror_inv_def)
  obtain t x where s: "scroll_fix e = Some (e\<lparr>e_top := t, e_offx := x\<rparr>)" "line_start (e_buf e) t" "t \<le> line_top e"
    "breaks (e_buf e) t (line_top e) \<le> 22" "0 \<le> x" "0 \<le> int (caret_col e) - x" "int (caret_col e) - x < 80"
    "in_view e \<longrightarrow> t = e_top e \<and> x = e_offx e" by (rule scroll_fix_run [OF assms(1,2)])
  let ?e = "e\<lparr>e_top := t, e_offx := x\<rparr>"
  have same: "page ?e = page e" by (simp add: page_def)
  then have lt: "line_top ?e = line_top e" "caret_col ?e = caret_col e" by (simp_all add: line_top_def caret_col_def)
  have wf: "edit_wf ?e" using assms(1) s(5) by (simp add: edit_wf_def)
  have v: "in_view ?e" using s lt by (simp add: in_view_def)
  obtain m1 oc1 where d: "draw ?k ?e m oc = Some (m1, oc1)" "mirror_wf m1" "m_front m1 = m_front m"
    "\<forall>r<23. \<forall>x<80. m_back m1 ! ((r + 1) * 80 + x) = text_cell ?e r x" "m_back m1 ! 1920 = blank_cell ATTR_STATUS"
    "shows_term (move_to (fst (caret ?e)) (snd (caret ?e)) (cur_term (oc_sys oc))) oc oc1"
    by (rule draw_run [OF wf wf0 o v])
  have inv1: "mirror_inv m1 oc1" by (rule frame_inv [OF assms(3) d(2,3,6)]) (simp_all add: move_to_def)
  have o1: "sys_ok (oc_sys oc1)" "shown (oc_sys oc1)" "mirror_wf m1" using inv1 by (simp_all add: mirror_inv_def)
  have "1920 < length (m_back m1)" using o1(3) by (simp add: mirror_wf_def)
  then have "blank_cell ATTR_STATUS \<in> set (m_back m1)" using d(5) nth_mem by metis
  moreover have "drop_bit 4 (mc_attr (blank_cell ATTR_STATUS)) \<noteq> 0" by (simp add: blank_cell_def ATTR_STATUS_def)
  ultimately have nb: "\<not> all_blank m1" unfolding all_blank_def by blast
  obtain oc2 cs where f: "mirror_flush ?k m1 oc1 = Some (m1\<lparr>m_front := m_back m1\<rparr>, oc2)" "shows_term ((cur_term (oc_sys oc1))\<lparr>t_cells := cs\<rparr>) oc1 oc2"
    "\<forall>j<2000. cell_nth (cur_term (oc_sys oc2)) j = (if m_back m1 ! j \<noteq> m_front m1 ! j \<and> not_newline (m_back m1 ! j) then m_back m1 ! j
       else cell_nth (cur_term (oc_sys oc1)) j)" by (rule mirror_flush_cells [OF o1 nb])
  obtain oc3 where f3: "mirror_flush ?k m1 oc1 = Some (m1\<lparr>m_front := m_back m1\<rparr>, oc3)" "mirror_inv (m1\<lparr>m_front := m_back m1\<rparr>) oc3"
    by (rule mirror_flush_inv [OF inv1])
  have inv2: "mirror_inv (m1\<lparr>m_front := m_back m1\<rparr>) oc2" using f(1) f3 by simp
  let ?t = "cur_term (oc_sys oc2)"
  have "look (cell_nth ?t ((r + 1) * 80 + x)) = look (text_cell ?e r x)" if "r < 23" "x < 80" for r x
  proof -
    have j: "(r + 1) * 80 + x < 2000" using that by simp
    have "looks_like (m_back m1) ?t" using inv2 by (simp add: mirror_inv_def)
    moreover have "not_newline (text_cell ?e r x)" using s(5) by (intro text_cell_char) simp
    moreover have "m_back m1 ! ((r + 1) * 80 + x) = text_cell ?e r x" using d(4) that by blast
    ultimately show ?thesis using j unfolding looks_like_def by metis
  qed
  moreover have "cur_term (oc_sys oc2) = (cur_term (oc_sys oc1))\<lparr>t_cells := cs\<rparr>" by (rule shows_termD(3) [OF f(2) o1(1)])
  then have "(t_cursor_x ?t, t_cursor_y ?t) = caret ?e" using shows_termD(3) [OF d(6) o(1)] by (simp add: move_to_def)
  moreover have "oc_keys oc2 = oc_keys oc" "sy_kbd (oc_sys oc2) = sy_kbd (oc_sys oc)"
    using shows_termD [OF f(2) o1(1)] shows_termD [OF d(6) o(1)] by simp_all
  moreover have "sy_fs (oc_sys oc2) = sy_fs (oc_sys oc)" using f(2) d(6) by (simp add: shows_term_def redraw_def)
  moreover have "edit_show env e m oc = Some (?e, m1\<lparr>m_front := m_back m1\<rparr>, oc2)" using s(1) d(1) f(1) by (simp add: edit_show_def)
  ultimately show thesis using that [of ?e "m1\<lparr>m_front := m_back m1\<rparr>" oc2 x t] wf v inv2 s(8) by simp
qed

end
