(* ===== verification/EditRun.thy ===== *)
theory EditRun
  imports EditView UserMem
begin

text \<open>
home/edit.c: the commands on files over the system calls and the file system, and the properties of the editor.
\<close>

section \<open>The objects in memory\<close>

text \<open>The name's object and the buffer do not overlap.\<close>

definition env_ok :: "'d edit_env \<Rightarrow> bool" where
  "env_ok env \<longleftrightarrow> unat (ev_buf env) + 65536 \<le> 4294967296 \<and> unat (ev_name env) + 64 \<le> 4294967296 \<and>
     (unat (ev_name env) + 64 \<le> unat (ev_buf env) \<or> unat (ev_buf env) + 65536 \<le> unat (ev_name env))"

definition laid :: "'d edit_env \<Rightarrow> byte list \<Rightarrow> edit \<Rightarrow> umem \<Rightarrow> umem" where
  "laid env name e u = put_region (put_region u (ev_buf env) (e_buf e)) (ev_name env) name"

lemma string_at_prefix: "string_at (put_region u p (s @ 0 # r)) p s" if "nul_free s" "unat p + length s + 1 \<le> 4294967296"
  using that by (auto simp: string_at_def put_region_def of_nat_unat_small nth_append)

lemma region_nth: "i < n \<Longrightarrow> region u p n ! i = u (p + of_nat i)"
  by (simp add: region_def)

lemma laid_string:
  assumes "env_ok env" "nul_free nm" "length (nm @ 0 # r) \<le> 64"
  shows "user_string (laid env (nm @ 0 # r) e u) (ev_name env) = Some (nm @ [0])"
  unfolding laid_def using assms by (intro user_string_at string_at_prefix) (simp_all add: env_ok_def)

lemma laid_buffer:
  assumes "env_ok env" "length name \<le> 64" "length (e_buf e) = 65536" "n \<le> 65536"
  shows "region (laid env name e u) (ev_buf env) n = take n (e_buf e)"
proof (rule nth_equalityI)
  fix i assume "i < length (region (laid env name e u) (ev_buf env) n)"
  then have i: "i < n" by simp
  have x: "unat (ev_buf env + of_nat i) = unat (ev_buf env) + i" using u32_shift [of "ev_buf env" i] i assms(1,4) by (simp add: env_ok_def)
  have "laid env name e u (ev_buf env + of_nat i) = e_buf e ! i"
    using assms i by (auto simp: laid_def put_region_eq env_ok_def x)
  then show "region (laid env name e u) (ev_buf env) n ! i = take n (e_buf e) ! i" using i by (simp add: region_nth)
qed (use assms in simp)

lemma laid_written:
  assumes "env_ok env" "length name \<le> 64" "length (e_buf e) = 65536" "length bs \<le> 65536"
  shows "region (put_region (laid env name e u) (ev_buf env) bs) (ev_buf env) 65536 = bs @ drop (length bs) (e_buf e)"
proof (rule nth_equalityI)
  fix i assume "i < length (region (put_region (laid env name e u) (ev_buf env) bs) (ev_buf env) 65536)"
  then have i: "i < 65536" by simp
  have x: "unat (ev_buf env + of_nat i) = unat (ev_buf env) + i" using u32_shift [of "ev_buf env" i] i assms(1) by (simp add: env_ok_def)
  have w: "unat (ev_buf env) + length bs \<le> 4294967296" using assms(1,4) by (simp add: env_ok_def)
  have b: "laid env name e u (ev_buf env + of_nat i) = e_buf e ! i"
    using arg_cong [OF laid_buffer [OF assms(1-3), of 65536 u], of "\<lambda>l. l ! i"] i assms(3) by (simp add: region_nth)
  have "put_region (laid env name e u) (ev_buf env) bs (ev_buf env + of_nat i) = (bs @ drop (length bs) (e_buf e)) ! i"
    using i b assms(3) by (auto simp: put_region_eq [OF w] x nth_append)
  then show "region (put_region (laid env name e u) (ev_buf env) bs) (ev_buf env) 65536 ! i = (bs @ drop (length bs) (e_buf e)) ! i"
    using i by (simp add: region_nth)
qed (use assms in simp)

lemma with_objects_laid:
  "with_objects env name e f oc = do { (n, oc') \<leftarrow> f (oc\<lparr>oc_user := laid env name e (oc_user oc)\<rparr>);
     Some (n, e\<lparr>e_buf := region (oc_user oc') (ev_buf env) (length (e_buf e))\<rparr>, oc') }"
  by (simp add: with_objects_def laid_def)

section \<open>Saving and loading\<close>

lemma save_call:
  assumes "env_ok env" "nul_free nm" "length (nm @ 0 # r) \<le> 64" "edit_wf e"
    and "fs_write (k_disk (ev_kernel env)) (fs_sb (sy_fs (oc_sys oc))) (nm @ [0]) FS_FILE (text_of e) (of_nat (e_len e))
      (fs_dev (sy_fs (oc_sys oc))) = Some (v, d)"
  obtains oc' where "with_objects env (nm @ 0 # r) e (sys_write_file (ev_kernel env) (ev_name env) (ev_buf env) (of_nat (e_len e))) oc =
      Some (of_int v, e, oc')" "oc_sys oc' = (oc_sys oc)\<lparr>sy_fs := (sy_fs (oc_sys oc))\<lparr>fs_dev := d\<rparr>\<rparr>" "oc_keys oc' = oc_keys oc"
proof -
  note w = edit_wfD [OF assms(4)]
  let ?u = "laid env (nm @ 0 # r) e (oc_user oc)"
  have n: "unat (of_nat (e_len e) :: u32) = e_len e" using w(2) by (simp add: of_nat_unat_small)
  have data: "region ?u (ev_buf env) (e_len e) = text_of e" using laid_buffer [OF assms(1,3) w(1)] w(2) by (simp add: text_of_def)
  have same: "region ?u (ev_buf env) 65536 = e_buf e" using laid_buffer [OF assms(1,3) w(1), of 65536] w(1) by simp
  note s = laid_string [OF assms(1-3), of e "oc_user oc"]
  let ?oc = "ret v (set_fs ((sy_fs (oc_sys oc))\<lparr>fs_dev := d\<rparr>) (oc\<lparr>oc_user := ?u, oc_regs := (oc_regs oc)\<lparr>r_eax := 5,
    r_ebx := ev_name env, r_ecx := ev_buf env, r_edx := of_nat (e_len e)\<rparr>\<rparr>))"
  have "sys_write_file (ev_kernel env) (ev_name env) (ev_buf env) (of_nat (e_len e)) (oc\<lparr>oc_user := ?u\<rparr>) = Some (of_int v, ?oc)"
    using s assms(5) by (simp add: sys_write_file_def int80_eax_def int80_def syscall_handler_def file_call_def Let_def n data) (simp add: ret_def)
  then have "with_objects env (nm @ 0 # r) e (sys_write_file (ev_kernel env) (ev_name env) (ev_buf env) (of_nat (e_len e))) oc = Some (of_int v, e, ?oc)"
    using same w(1) by (simp add: with_objects_laid)
  then show thesis by (rule that) simp_all
qed

lemma load_call:
  assumes "env_ok env" "nul_free nm" "length (nm @ 0 # r) \<le> 64" "edit_wf e"
    and "fs_read (k_disk (ev_kernel env)) (fs_sb (sy_fs (oc_sys oc))) (nm @ [0]) (take 65535 (e_buf e)) 65535
      (fs_dev (sy_fs (oc_sys oc))) = Some (v, bs, d)"
  obtains oc' where "with_objects env (nm @ 0 # r) e (sys_read_file (ev_kernel env) (ev_name env) (ev_buf env) (of_nat (BUF_MAX - 1))) oc =
      Some (of_int v, e\<lparr>e_buf := bs @ drop 65535 (e_buf e)\<rparr>, oc')" "length bs = 65535"
    "oc_sys oc' = (oc_sys oc)\<lparr>sy_fs := (sy_fs (oc_sys oc))\<lparr>fs_dev := d\<rparr>\<rparr>" "oc_keys oc' = oc_keys oc"
proof -
  note w = edit_wfD [OF assms(4)]
  let ?u = "laid env (nm @ 0 # r) e (oc_user oc)"
  have data: "region ?u (ev_buf env) 65535 = take 65535 (e_buf e)" by (rule laid_buffer [OF assms(1,3) w(1)]) simp
  have len: "length bs = 65535" using fs_read_length [OF assms(5)] w(1) by simp
  have new: "region (put_region ?u (ev_buf env) bs) (ev_buf env) 65536 = bs @ drop 65535 (e_buf e)"
    using laid_written [OF assms(1,3) w(1), of bs] len by simp
  note s = laid_string [OF assms(1-3), of e "oc_user oc"]
  let ?oc = "ret v (set_fs ((sy_fs (oc_sys oc))\<lparr>fs_dev := d\<rparr>) (oc\<lparr>oc_regs := (oc_regs oc)\<lparr>r_eax := 4,
    r_ebx := ev_name env, r_ecx := ev_buf env, r_edx := 65535\<rparr>, oc_user := put_region ?u (ev_buf env) bs\<rparr>))"
  have "sys_read_file (ev_kernel env) (ev_name env) (ev_buf env) 65535 (oc\<lparr>oc_user := ?u\<rparr>) = Some (of_int v, ?oc)"
    using s assms(5) by (simp add: sys_read_file_def int80_eax_def int80_def syscall_handler_def file_call_def Let_def data) (simp add: ret_def)
  then have "with_objects env (nm @ 0 # r) e (sys_read_file (ev_kernel env) (ev_name env) (ev_buf env) (of_nat (BUF_MAX - 1))) oc =
      Some (of_int v, e\<lparr>e_buf := bs @ drop 65535 (e_buf e)\<rparr>, ?oc)"
    using new w(1) by (simp add: with_objects_laid BUF_MAX_def)
  then show thesis by (rule that) (simp_all add: len)
qed

text \<open>The message of a save and of a load fit their 72 bytes.\<close>

lemma saved_message:
  assumes "length m = 72" "0 \<in> set name" "length (cstr name) < 23"
  obtains m' where "(do { m \<leftarrow> strcpy m (lit ''saved ''); m \<leftarrow> scat m name; m \<leftarrow> scat m (lit '' (''); m \<leftarrow> scatn m n; scat m (lit '' bytes)'') }) = Some m'"
    "length m' = 72" "0 \<in> set m'"
proof -
  have c: "cstr (lit ''saved '') = asc ''saved ''" "cstr (lit '' ('') = asc '' (''" "cstr (lit '' bytes)'') = asc '' bytes)''"
    by (rule cstr_lit; simp)+
  have l: "length (cstr (lit ''saved '')) < length m" using c(1) assms(1) by simp
  obtain m1 where m1: "strcpy m (lit ''saved '') = Some m1" "length m1 = 72" "0 \<in> set m1" "cstr m1 = asc ''saved ''"
    by (rule strcpy_ok [OF lit_NUL l]) (simp add: assms(1) c(1))
  obtain m2 where m2: "scat m1 name = Some m2" "length m2 = 72" "0 \<in> set m2" "cstr m2 = asc ''saved '' @ cstr name"
    using scat_ok [OF assms(2) m1(3)] m1(2,4) assms(3) by auto
  obtain m3 where m3: "scat m2 (lit '' ('') = Some m3" "length m3 = 72" "0 \<in> set m3" "cstr m3 = (asc ''saved '' @ cstr name) @ asc '' (''"
    using scat_ok [OF lit_NUL m2(3), of "'' (''"] m2(2,4) assms(3) c(2) by auto
  have "length (cstr m3) + 11 < length m3" using m3(2,4) assms(3) by simp
  then obtain m4 where m4: "scatn m3 n = Some m4" "length m4 = 72" "0 \<in> set m4" "cstr m4 = cstr m3 @ itoa_text (of_nat n)"
    using scatn_ok [OF m3(3), of n] m3(2) by metis
  have "length (cstr m4) + length (cstr (lit '' bytes)'')) < length m4"
    using m4(2,4) m3(4) assms(3) itoa_text_length [of "of_nat n"] c(3) by simp
  from scat_ok [OF lit_NUL m4(3) this] obtain m5 where "scat m4 (lit '' bytes)'') = Some m5" "length m5 = 72" "0 \<in> set m5"
    using m4(2) by auto
  then show thesis using that [of m5] m1(1) m2(1) m3(1) m4(1) by simp
qed

lemma say_loaded_ok:
  assumes "length (e_msg e) = 72"
  obtains m where "say_loaded n e = Some (e\<lparr>e_msg := m\<rparr>)" "length m = 72" "0 \<in> set m"
proof -
  have c: "cstr (lit ''loaded '') = asc ''loaded ''" "cstr (lit '' bytes'') = asc '' bytes''" by (rule cstr_lit; simp)+
  have l: "length (cstr (lit ''loaded '')) < length (e_msg e)" using c(1) assms by simp
  obtain m1 where m1: "strcpy (e_msg e) (lit ''loaded '') = Some m1" "length m1 = 72" "0 \<in> set m1" "cstr m1 = asc ''loaded ''"
    by (rule strcpy_ok [OF lit_NUL l]) (simp add: assms c(1))
  have "length (cstr m1) + 11 < length m1" using m1(2,4) by simp
  then obtain m2 where m2: "scatn m1 n = Some m2" "length m2 = 72" "0 \<in> set m2" "cstr m2 = cstr m1 @ itoa_text (of_nat n)"
    using scatn_ok [OF m1(3), of n] m1(2) by metis
  have "length (cstr m2) + length (cstr (lit '' bytes'')) < length m2"
    using m2(2,4) m1(4) itoa_text_length [of "of_nat n"] c(2) by simp
  from scat_ok [OF lit_NUL m2(3) this] obtain m3 where "scat m2 (lit '' bytes'') = Some m3" "length m3 = 72" "0 \<in> set m3"
    using m2(2) by auto
  then show thesis using that [of m3] m1(1) m2(1) by (simp add: say_loaded_def)
qed

text \<open>The file system as the programs see it.\<close>

definition disk_of :: "'d outcome \<Rightarrow> 'd" where
  "disk_of oc = fs_dev (sy_fs (oc_sys oc))"

text \<open>Only the drive differs.\<close>

definition on_drive :: "'d \<Rightarrow> 'd outcome \<Rightarrow> 'd outcome \<Rightarrow> bool" where
  "on_drive d oc oc' \<longleftrightarrow> oc_sys oc' = (oc_sys oc)\<lparr>sy_fs := (sy_fs (oc_sys oc))\<lparr>fs_dev := d\<rparr>\<rparr> \<and> oc_keys oc' = oc_keys oc"

lemma save_file_run:
  assumes "env_ok env" "nul_free nm" "nm \<noteq> []" "length nm < 23" "length (nm @ 0 # r) \<le> 64" "edit_wf e"
    and "fs_write (k_disk (ev_kernel env)) (fs_sb (sy_fs (oc_sys oc))) (nm @ [0]) FS_FILE (text_of e) (of_nat (e_len e))
      (disk_of oc) = Some (0, d)"
  obtains e' oc' f m where "save_file env (nm @ 0 # r) e oc = Some (True, e', oc')" "e' = e\<lparr>e_fname := f, e_dirty := False, e_msg := m\<rparr>"
    "edit_wf e'" "cstr f = nm" "on_drive d oc oc'"
proof -
  obtain oc' where c: "with_objects env (nm @ 0 # r) e (sys_write_file (ev_kernel env) (ev_name env) (ev_buf env) (of_nat (e_len e))) oc =
      Some (of_int 0, e, oc')" "oc_sys oc' = (oc_sys oc)\<lparr>sy_fs := (sy_fs (oc_sys oc))\<lparr>fs_dev := d\<rparr>\<rparr>" "oc_keys oc' = oc_keys oc"
    by (rule save_call [OF assms(1,2,5,6) assms(7) [unfolded disk_of_def]])
  have nm: "0 \<in> set (nm @ 0 # r)" "cstr (nm @ 0 # r) = nm" using assms(2) by simp_all
  obtain f where f: "strcpy (e_fname e) (nm @ 0 # r) = Some f" "length f = 23" "0 \<in> set f" "cstr f = nm"
    using strcpy_ok [OF nm(1), of "e_fname e"] nm(2) assms(4,6) by (auto simp: edit_wf_def)
  obtain m where m: "(do { m \<leftarrow> strcpy (e_msg e) (lit ''saved ''); m \<leftarrow> scat m (nm @ 0 # r); m \<leftarrow> scat m (lit '' (''); m \<leftarrow> scatn m (e_len e);
      scat m (lit '' bytes)'') }) = Some m" "length m = 72" "0 \<in> set m"
    by (rule saved_message [of "e_msg e" "nm @ 0 # r" "e_len e"]) (use assms(4,6) nm in \<open>auto simp: edit_wf_def\<close>)
  obtain c0 s where c0: "nm = c0 # s" "c0 \<noteq> 0" using assms(2,3) by (cases nm) auto
  let ?e = "e\<lparr>e_fname := f, e_dirty := False, e_msg := m\<rparr>"
  have l0: "load (nm @ 0 # r) 0 = Some c0" by (simp add: c0(1))
  have "save_file env (nm @ 0 # r) e oc = Some (True, ?e, oc')"
    using c(1) f(1) m(1) assms(2,4) c0(2) l0
    by (auto simp: save_file_def strlen_terminated FS_MAX_NAME_def split: bind_splits)
  moreover have "edit_wf ?e" using assms(6) f m by (simp add: edit_wf_def)
  ultimately show thesis using that f(4) c(2,3) by (simp add: on_drive_def)
qed

lemma load_into_run:
  assumes "env_ok env" "nul_free nm" "length nm < 23" "length (nm @ 0 # r) \<le> 64" "edit_wf e"
    and "fs_read (k_disk (ev_kernel env)) (fs_sb (sy_fs (oc_sys oc))) (nm @ [0]) (take 65535 (e_buf e)) 65535
      (disk_of oc) = Some (int (length t), t @ u, d)" "length t \<le> 65535"
  obtains e' oc' b f where "load_into env (nm @ 0 # r) e oc = Some (int (length t), e', oc')"
    "e' = e\<lparr>e_buf := b, e_len := length t, e_pos := 0, e_top := 0, e_offx := 0, e_dirty := False, e_fname := f\<rparr>"
    "edit_wf e'" "text_of e' = t" "cstr f = nm" "on_drive d oc oc'"
proof -
  obtain oc' where c: "with_objects env (nm @ 0 # r) e (sys_read_file (ev_kernel env) (ev_name env) (ev_buf env) (of_nat (BUF_MAX - 1))) oc =
      Some (of_int (int (length t)), e\<lparr>e_buf := (t @ u) @ drop 65535 (e_buf e)\<rparr>, oc')" "length (t @ u) = 65535"
    "oc_sys oc' = (oc_sys oc)\<lparr>sy_fs := (sy_fs (oc_sys oc))\<lparr>fs_dev := d\<rparr>\<rparr>" "oc_keys oc' = oc_keys oc"
    by (rule load_call [OF assms(1,2,4,5) assms(6) [unfolded disk_of_def]])
  have nm: "0 \<in> set (nm @ 0 # r)" "cstr (nm @ 0 # r) = nm" using assms(2) by simp_all
  obtain f where f: "strcpy (e_fname e) (nm @ 0 # r) = Some f" "length f = 23" "0 \<in> set f" "cstr f = nm"
    using strcpy_ok [OF nm(1), of "e_fname e"] nm(2) assms(3,5) by (auto simp: edit_wf_def)
  have n: "sint (of_nat (length t) :: u32) = int (length t)"
    using sint_small [of "of_nat (length t)"] assms(7) by (simp add: of_nat_unat_small)
  let ?b = "(t @ u) @ drop 65535 (e_buf e)"
  let ?e = "e\<lparr>e_buf := ?b, e_len := length t, e_pos := 0, e_top := 0, e_offx := 0, e_dirty := False, e_fname := f\<rparr>"
  have "load_into env (nm @ 0 # r) e oc = Some (int (length t), ?e, oc')" using c(1) f(1) n by (simp add: load_into_def)
  moreover have "edit_wf ?e" using assms(5,7) f c(2) by (simp add: edit_wf_def)
  ultimately show thesis using that f(4) c(3,4) by (simp add: text_of_def on_drive_def)
qed

section \<open>Commands with a file name\<close>

lemma run_command_eq:
  assumes "e_cmd e = s @ 0 # r" "nul_free s" "s \<noteq> []" "hd s \<noteq> 32" "last s \<noteq> 32"
  shows "run_command env e oc = do_command env 0 e oc"
proof -
  obtain c s' where s: "s = c # s'" using assms(3) by (cases s) auto
  have c: "c \<noteq> 32" "c \<noteq> 0" using assms(2,4) s by simp_all
  have b: "blanks_at (e_cmd e) = Some 0" using c s assms(1) by simp
  have "(s @ 0 # r) ! length s' = last s" by (simp add: s nth_append last_conv_nth nth_Cons')
  then have t: "trim_blanks 0 (length s) (e_cmd e) = Some (e_cmd e)" using assms(1,5) s by simp
  have "load (e_cmd e) 0 = Some c" using assms(1) s by simp
  then have run: "run_command env e oc = do_command env 0 (e\<lparr>e_cmd := s @ 0 # r\<rparr>) oc"
    using b t c assms(1,2) by (simp add: run_command_def)
  have eq: "e\<lparr>e_cmd := s @ 0 # r\<rparr> = e" by (simp flip: assms(1))
  from run show ?thesis unfolding eq .
qed

lemma strcmp_literal:
  "nul_free s \<Longrightarrow> nul_free (asc t) \<Longrightarrow> s \<noteq> asc t \<Longrightarrow> \<exists>k. strcmp (s @ 0 # r) (lit t) = Some k \<and> k \<noteq> 0"
  using strcmp_total [of s "asc t" r "[]"] by (auto simp: lit_def)

lemma named_command:
  assumes "e_cmd e = c # 32 # nm @ 0 # r" "c = 101 \<or> c = 119" "nul_free nm" "nm \<noteq> []" "hd nm \<noteq> 32"
  shows "do_command env 0 e oc =
    (if c = 101 then open_file env (nm @ 0 # r) e oc
     else do { (_, e, oc) \<leftarrow> save_file env (nm @ 0 # r) e oc; Some (e, oc) })"
proof -
  let ?s = "c # 32 # nm"
  have s: "nul_free ?s" "e_cmd e = ?s @ 0 # r" using assms(1-3) by auto
  have long: "length ?s > 2" using assms(4) by (cases nm) auto
  have "\<exists>k. strcmp (?s @ 0 # r) (lit t) = Some k \<and> k \<noteq> 0" if "t \<in> {''q'', ''q!'', ''w'', ''wq'', ''n''}" for t
    using that long by (intro strcmp_literal [OF s(1)]) auto
  then obtain k1 k2 k3 k4 k5 where k: "strcmp (?s @ 0 # r) (lit ''q'') = Some k1" "strcmp (?s @ 0 # r) (lit ''q!'') = Some k2"
    "strcmp (?s @ 0 # r) (lit ''w'') = Some k3" "strcmp (?s @ 0 # r) (lit ''wq'') = Some k4" "strcmp (?s @ 0 # r) (lit ''n'') = Some k5"
    and nz: "k1 \<noteq> 0" "k2 \<noteq> 0" "k3 \<noteq> 0" "k4 \<noteq> 0" "k5 \<noteq> 0" by (metis insertCI)
  obtain c0 nm' where nm: "nm = c0 # nm'" using assms(4) by (cases nm) auto
  have "argument 0 (e_cmd e) = Some (nm @ 0 # r)" using assms(1,5) by (simp add: argument_def nm)
  moreover have "load (?s @ 0 # r) 0 = Some c" "load (?s @ 0 # r) 1 = Some 32" by simp_all
  ultimately show ?thesis using assms(2) nz by (auto simp: do_command_def s(2) k Let_def simp del: strcmp.simps append_Cons load_in)
qed

section \<open>Sessions\<close>

text \<open>The text around the caret, and the command line while one is open.\<close>

type_synonym session = "page \<times> byte list option"

definition session :: "edit \<Rightarrow> session" where
  "session e = (page e, if e_cmd_mode e then Some (take (e_cmd_len e) (e_cmd e)) else None)"

definition session_key :: "u32 \<Rightarrow> session \<Rightarrow> session" where
  "session_key k s = (case s of
     (g, None) \<Rightarrow> if k = MIRROR_KEY_ESC then (g, Some []) else (page_key k g, None)
   | (g, Some c) \<Rightarrow>
       if k = MIRROR_KEY_ESC then (g, None)
       else if k = MIRROR_KEY_BACKSPACE then (if c = [] then (g, None) else (g, Some (butlast c)))
       else if 32 \<le> sint k \<and> sint k \<le> 126 \<and> length c < 50 then (g, Some (c @ [ucast k]))
       else (g, Some c))"

lemma page_cmd [simp]:
  "page (e\<lparr>e_cmd_mode := x\<rparr>) = page e" "page (e\<lparr>e_cmd_len := n, e_cmd := c\<rparr>) = page e"
  by (simp_all add: page_def)

lemma edit_key_mode:
  assumes "edit_key k e = Some e'" "length (e_cmd e) = 51"
  shows "e_cmd_mode e' = (e_cmd_mode e \<or> k = MIRROR_KEY_ESC)" "k = MIRROR_KEY_ESC \<longrightarrow> e_cmd_len e' = 0"
  using assms by (auto simp: edit_key_def key_up_def key_down_def do_insert_def do_backspace_def set_msg_def split: if_splits bind_splits)

lemma cmd_key_session:
  assumes "edit_wf e" "top_ok e" "e_cmd_mode e" "k \<noteq> MIRROR_KEY_ENTER"
  obtains e' where "cmd_key env k e oc = Some (e', oc)" "edit_wf e'" "top_ok e'" "session e' = session_key k (session e)"
proof -
  let ?n = "e_cmd_len e"
  have w: "length (e_cmd e) = 51" "?n \<le> 50" "e_cmd e ! ?n = 0" using assms(1) by (simp_all add: edit_wf_def)
  have top: "top_ok (e\<lparr>e_cmd_mode := x\<rparr>)" "top_ok (e\<lparr>e_cmd_len := n, e_cmd := c\<rparr>)" for x n c
    using assms(2) by (simp_all add: top_ok_def line_top_def)
  consider "k = MIRROR_KEY_ESC" | "k = MIRROR_KEY_BACKSPACE" "?n = 0" | "k = MIRROR_KEY_BACKSPACE" "?n > 0"
    | "32 \<le> sint k" "sint k \<le> 126" "?n < 50" "k \<noteq> 27" "k \<noteq> 8" | "\<not> (32 \<le> sint k \<and> sint k \<le> 126 \<and> ?n < 50)" "k \<noteq> 27" "k \<noteq> 8"
    unfolding mirror_keys by auto
  then show thesis
  proof cases
    case 1
    let ?e = "e\<lparr>e_cmd_mode := False\<rparr>"
    have "edit_wf ?e" using assms(1) by (simp add: edit_wf_def)
    then show thesis using that [of ?e] 1 assms(3) top by (simp add: cmd_key_def session_def session_key_def)
  next
    case 2
    let ?e = "e\<lparr>e_cmd_mode := False\<rparr>"
    have "edit_wf ?e" using assms(1) by (simp add: edit_wf_def)
    then show thesis using that [of ?e] 2 assms(3) top by (simp add: cmd_key_def session_def session_key_def mirror_keys)
  next
    case 3
    let ?e = "e\<lparr>e_cmd_len := ?n - 1, e_cmd := (e_cmd e)[?n - 1 := 0]\<rparr>"
    have "edit_wf ?e" using assms(1) 3 w by (auto simp: edit_wf_def set_update_memI)
    moreover have "butlast (take ?n (e_cmd e)) = take (?n - 1) (e_cmd e)" using w by (simp add: butlast_take)
    moreover have "e_cmd e \<noteq> []" using w(1) by auto
    ultimately show thesis using that [of ?e] 3 w assms(3) top by (simp add: cmd_key_def session_def session_key_def mirror_keys)
  next
    case 4
    let ?c = "(e_cmd e)[?n := ucast k, ?n + 1 := 0]"
    let ?e = "e\<lparr>e_cmd_len := ?n + 1, e_cmd := ?c\<rparr>"
    have "edit_wf ?e" using assms(1) 4 w by (auto simp: edit_wf_def set_update_memI)
    moreover have "take (?n + 1) ?c = take ?n (e_cmd e) @ [ucast k]" using 4 w by (simp add: take_Suc_conv_app_nth)
    ultimately show thesis using that [of ?e] 4 w assms(3,4) top by (simp add: cmd_key_def session_def session_key_def mirror_keys CMD_MAX_def min_def)
  next
    case 5
    then have "\<not> (32 \<le> sint k \<and> sint k \<le> 126 \<and> ?n < CMD_MAX)" by (simp add: CMD_MAX_def)
    then have "cmd_key env k e oc = Some (e, oc)" using 5 assms(4) unfolding cmd_key_def mirror_keys by auto
    moreover have "session e = session_key k (session e)" using 5 assms(3) w by (auto simp: session_def session_key_def mirror_keys min_def)
    ultimately show thesis using that assms(1,2) by blast
  qed
qed

section \<open>Properties\<close>

text \<open>C11: A key does to the buffer, its length and the caret's offset what it does to the text before and after the caret:
  a character goes in at the caret while there is room, tab fills up to the tab stop, backspace takes the character before
  the caret, left and right move over one character, up and down go to the neighbouring line's last place no further right
  than the caret's column; escape opens and closes the command line, which takes up to fifty characters. The one key left
  out is enter on the open command line, which runs the command.\<close>

theorem edit_keys_session:
  assumes "edit_wf e" and "in_view e" and "\<not> (e_cmd_mode e \<and> k = MIRROR_KEY_ENTER)"
  shows "\<exists>e'. edit_act env k e oc = Some (e', oc) \<and> edit_wf e' \<and> top_ok e' \<and> session e' = session_key k (session e)"
proof -
  let ?e = "e\<lparr>e_msg := (e_msg e)[0 := 0]\<rparr>"
  have m: "length (e_msg e) = 72" using assms(1) by (simp add: edit_wf_def)
  then have wf: "edit_wf ?e" using assms(1) by (intro edit_wf_msg) (simp_all add: set_update_memI)
  have v: "line_start (e_buf ?e) (e_top ?e)" "e_top ?e \<le> e_pos ?e"
    using assms(2) line_top_le [OF assms(1)] by (simp_all add: in_view_def)
  have s: "session ?e = session e" by (simp add: session_def)
  show ?thesis
  proof (cases "e_cmd_mode e")
    case True
    have top: "top_ok ?e" using v edit_wfD(3) [OF wf] by (simp add: top_ok_def)
    have open_line: "e_cmd_mode ?e" "k \<noteq> MIRROR_KEY_ENTER" using True assms(3) by simp_all
    obtain e' where "cmd_key env k ?e oc = Some (e', oc)" "edit_wf e'" "top_ok e'" "session e' = session_key k (session ?e)"
      by (rule cmd_key_session [OF wf top open_line])
    then show ?thesis using True m s by (simp add: edit_act_def)
  next
    case False
    obtain e' where e': "edit_key k ?e = Some e'" "edit_wf e'" "top_ok e'" "page e' = page_key k (page ?e)" by (rule edit_key_text [OF wf v])
    have "length (e_cmd ?e) = 51" using wf by (simp add: edit_wf_def)
    then have "session e' = session_key k (session e)"
      using edit_key_mode [OF e'(1)] e'(4) False by (auto simp: session_def session_key_def page_key_def mirror_keys)
    then show ?thesis using e' False m by (simp add: edit_act_def)
  qed
qed

text \<open>A state to try things on: a text with the caret at its end and the command line's contents.\<close>

definition sample :: "byte list \<Rightarrow> byte list \<Rightarrow> edit" where
  "sample t c = \<lparr>e_buf = t @ replicate (65536 - length t) 0, e_len = length t, e_pos = length t, e_top = 0, e_offx = 0, e_dirty = False,
     e_cmd_mode = False, e_cmd_len = length c, e_quit = False, e_cmd = c @ replicate (51 - length c) 0, e_fname = replicate 23 0,
     e_msg = replicate 72 0\<rparr>"

lemma sample_simps:
  assumes "length t < 65536" "length c < 51"
  shows "page (sample t c) = (t, [])" "text_of (sample t c) = t" "e_cmd (sample t c) = c @ 0 # replicate (50 - length c) 0"
    "edit_wf (sample t c)" "\<not> e_dirty (sample t c)" "\<not> e_cmd_mode (sample t c)"
proof -
  show "page (sample t c) = (t, [])" "text_of (sample t c) = t" using assms by (simp_all add: sample_def page_def text_of_def)
  have r: "replicate (51 - length c) (0 :: byte) = 0 # replicate (50 - length c) 0"
    using assms(2) by (simp add: Suc_diff_le flip: replicate_Suc)
  then show "e_cmd (sample t c) = c @ 0 # replicate (50 - length c) 0" by (simp add: sample_def)
  have z: "0 \<in> set (replicate n (0 :: byte))" if "0 < n" for n :: nat using that by simp
  let ?s = "sample t c"
  have "length (e_buf ?s) = 65536" "e_len ?s < 65536" "e_pos ?s \<le> e_len ?s" "e_cmd_len ?s \<le> 50" using assms by (simp_all add: sample_def)
  moreover have "length (e_cmd ?s) = 51" "length (e_fname ?s) = 23" "length (e_msg ?s) = 72" using assms by (simp_all add: sample_def)
  moreover have "0 \<in> set (e_fname ?s)" "0 \<in> set (e_msg ?s)" unfolding sample_def edit.simps by (rule z; simp)+
  moreover have "0 \<in> set (e_cmd ?s)" "e_cmd ?s ! e_cmd_len ?s = 0" using r by (simp_all add: sample_def)
  moreover have "0 \<le> e_offx ?s" by (simp add: sample_def)
  ultimately show "edit_wf ?s" unfolding edit_wf_def by blast
qed (simp_all add: sample_def)

lemma sample_view:
  assumes "length t < 65536" "length c < 51" "10 \<notin> set t" "width_from 0 t < 80"
  shows "in_view (sample t c)" "caret (sample t c) = (int (width_from 0 t), 1)" "top_ok (sample t c)"
proof -
  have l: "last_line t = t" using last_line_split [of t] assms(3) by (metis in_set_conv_decomp)
  have lt: "line_top (sample t c) = 0" "caret_col (sample t c) = width_from 0 t"
    using sample_simps(1) [OF assms(1,2)] l by (simp_all add: line_top_def caret_col_def) (simp add: sample_def)
  show "in_view (sample t c)" using lt assms(4) by (simp add: in_view_def line_start_def breaks_def) (simp add: sample_def)
  show "caret (sample t c) = (int (width_from 0 t), 1)" using lt by (simp add: caret_def breaks_def) (simp add: sample_def)
  show "top_ok (sample t c)" by (simp add: top_ok_def line_start_def) (simp add: sample_def)
qed

definition no_env :: "'d kernel \<Rightarrow> 'd edit_env" where
  "no_env k = \<lparr>ev_kernel = k, ev_name = 0x400000, ev_buf = 0x401000\<rparr>"

lemma edit_keys_session_witness:
  "\<exists>e1. edit_act (no_env no_kernel) 9 (sample [97] []) (tiny_call 0 0 0 0) = Some (e1, tiny_call 0 0 0 0) \<and>
    page e1 = ([97, 32, 32, 32], [])"
proof -
  have l: "length [97 :: byte] < 65536" "length ([] :: byte list) < 51" "10 \<notin> set [97 :: byte]" "width_from 0 [97] < 80"
    by (simp_all add: next_col_def)
  note s = sample_simps [OF l(1,2)] and v = sample_view [OF l]
  have n: "session (sample [97] []) = (([97], []), None)" using s by (simp add: session_def)
  have "last_line [97] = [97]" by (simp add: last_line_def)
  then have k: "session_key 9 (([97], []), None) = (([97, 32, 32, 32], []), None)"
    by (simp add: session_key_def page_key_def type_chars_def mirror_keys next_col_def numeral_3_eq_3)
  from edit_keys_session [OF s(4) v(1), of 9 "no_env no_kernel" "tiny_call 0 0 0 0"] s(6)
  show ?thesis unfolding n k by (auto simp: session_def)
qed

text \<open>C12: After the editor shows itself, the rows 1 to 23 of the terminal look like the lines of the text from the first
  visible one on, each with its tabs spread out and cut to the eighty columns from the horizontal scroll, with blanks
  after its end and below the last line; the terminal's cursor is on the caret (or at the command line's end), which is
  inside the window; a window that already held the caret does not move.\<close>

theorem editor_shows_text:
  assumes "edit_wf e" and "top_ok e" and "mirror_session (ev_kernel env) m oc"
  shows "\<exists>e' m' oc'. edit_show env e m oc = Some (e', m', oc') \<and> session e' = session e \<and> in_view e' \<and> (in_view e \<longrightarrow> e' = e) \<and>
    (\<forall>r<23. \<forall>x<80. look (cell_nth (cur_term (oc_sys oc')) ((r + 1) * 80 + x)) = look (text_cell e' r x)) \<and>
    (t_cursor_x (cur_term (oc_sys oc')), t_cursor_y (cur_term (oc_sys oc'))) = caret e'"
proof -
  obtain e' m' oc' t x where s: "edit_show env e m oc = Some (e', m', oc')" "e' = e\<lparr>e_top := t, e_offx := x\<rparr>" "edit_wf e'" "in_view e'"
    "mirror_inv m' oc'" "\<forall>r<23. \<forall>x<80. look (cell_nth (cur_term (oc_sys oc')) ((r + 1) * 80 + x)) = look (text_cell e' r x)"
    "(t_cursor_x (cur_term (oc_sys oc')), t_cursor_y (cur_term (oc_sys oc'))) = caret e'"
    "oc_keys oc' = oc_keys oc" "sy_kbd (oc_sys oc') = sy_kbd (oc_sys oc)" "sy_fs (oc_sys oc') = sy_fs (oc_sys oc)"
    "in_view e \<longrightarrow> t = e_top e \<and> x = e_offx e"
    by (rule edit_show_run [OF assms(1,2) mirror_session_inv [OF assms(3)], of env])
  have "session e' = session e" using s(2) by (simp add: session_def page_def)
  moreover have "in_view e \<longrightarrow> e' = e" using s(2,11) by simp
  ultimately show ?thesis using s by blast
qed

lemma tiny_session: "\<exists>m oc. mirror_init no_kernel ATTR_TEXT (\<lparr>m_back = [], m_front = []\<rparr>) (tiny_call 0 0 0 0) = Some (m, oc) \<and> mirror_session no_kernel m oc"
proof -
  have ok: "sys_ok (oc_sys (tiny_call 0 0 0 0))" "dark (cur_term (oc_sys (tiny_call 0 0 0 0)))"
    by (simp_all add: tiny_call_def tiny_sys_ok tiny_dark)
  obtain m oc where i: "mirror_init no_kernel ATTR_TEXT (\<lparr>m_back = [], m_front = []\<rparr>) (tiny_call 0 0 0 0) = Some (m, oc)"
    by (rule mirror_init_run [OF ok])
  then show ?thesis using session_init [OF ok i] by blast
qed

lemma editor_shows_text_witness:
  "\<exists>m oc m' oc'. mirror_init no_kernel ATTR_TEXT (\<lparr>m_back = [], m_front = []\<rparr>) (tiny_call 0 0 0 0) = Some (m, oc) \<and>
    edit_show (no_env no_kernel) (sample [9, 65] []) m oc = Some (sample [9, 65] [], m', oc') \<and>
    look (cell_nth (cur_term (oc_sys oc')) 84) = (65, 7) \<and> look (cell_nth (cur_term (oc_sys oc')) 80) = (32, 0) \<and>
    (t_cursor_x (cur_term (oc_sys oc')), t_cursor_y (cur_term (oc_sys oc'))) = (5, 1)"
proof -
  have l: "length [9, 65 :: byte] < 65536" "length ([] :: byte list) < 51" "10 \<notin> set [9, 65 :: byte]" "width_from 0 [9, 65] < 80"
    by (simp_all add: next_col_def TAB_W_def)
  note s = sample_simps [OF l(1,2)] and v = sample_view [OF l]
  obtain m oc where i: "mirror_init no_kernel ATTR_TEXT (\<lparr>m_back = [], m_front = []\<rparr>) (tiny_call 0 0 0 0) = Some (m, oc)"
    "mirror_session no_kernel m oc" using tiny_session by blast
  have k: "mirror_session (ev_kernel (no_env no_kernel)) m oc" using i(2) by (simp add: no_env_def)
  from editor_shows_text [OF s(4) v(3) k] v(1) obtain m' oc' where r: "edit_show (no_env no_kernel) (sample [9, 65] []) m oc = Some (sample [9, 65] [], m', oc')"
    "\<forall>r<23. \<forall>x<80. look (cell_nth (cur_term (oc_sys oc')) ((r + 1) * 80 + x)) = look (text_cell (sample [9, 65] []) r x)"
    "(t_cursor_x (cur_term (oc_sys oc')), t_cursor_y (cur_term (oc_sys oc'))) = caret (sample [9, 65] [])" by blast
  have top: "e_top (sample [9, 65] []) = 0" "e_offx (sample [9, 65] []) = 0" by (simp_all add: sample_def)
  have c: "look (line_cell 0 [9, 65] 4) = (65, 7)" "look (line_cell 0 [9, 65] 0) = (32, 0)" by code_simp+
  have "text_cell (sample [9, 65] []) 0 x = line_cell 0 [9, 65] x" for x by (simp add: text_cell_def top s(2))
  then have "look (cell_nth (cur_term (oc_sys oc')) 84) = (65, 7)" "look (cell_nth (cur_term (oc_sys oc')) 80) = (32, 0)"
    using r(2) [rule_format, of 0 4] r(2) [rule_format, of 0 0] c by simp_all
  moreover have "width_from 0 [9, 65] = 5" by code_simp
  ultimately show ?thesis using i(1) r(1,3) v(2) by auto
qed

text \<open>C13: What the editor saves it loads. \<open>:w name\<close> makes the text the contents of the file, in the file system as by one
  write, and leaves the text and caret; \<open>:e name\<close>, in any editor with nothing unsaved, then brings exactly that text
  back, with the caret at its start.\<close>

theorem edit_save_load:
  assumes "reliable_device (k_disk (ev_kernel env)) sec cap dev_ok" and "env_ok env" and "edit_wf e" and "edit_wf e2" and "\<not> e_dirty e2"
    and "e_cmd e = 119 # 32 # nm @ 0 # r" and "e_cmd e2 = 101 # 32 # nm @ 0 # r2"
    and "nul_free nm" and "nm \<noteq> []" and "length nm < 23" and "hd nm \<noteq> 32" and "last nm \<noteq> 32"
    and "fs_sb (sy_fs (oc_sys oc)) = sb" and "fs_ok sb cap (sec (disk_of oc))" and "dev_ok (disk_of oc)"
    and "\<And>q. parent_name nm = Some q \<Longrightarrow> files sb (sec (disk_of oc)) q \<noteq> None"
    and "chosen_slot sb (sec (disk_of oc)) nm \<noteq> None"
    and "next_free sb (sec (disk_of oc)) + 128 + 4 * length nm \<le> cap"
  shows "\<exists>e1 oc1 e3 oc2. run_command env e oc = Some (e1, oc1) \<and> page e1 = page e \<and> \<not> e_dirty e1 \<and>
    files sb (sec (disk_of oc1)) = spec_write (files sb (sec (disk_of oc))) nm FS_FILE (text_of e) \<and>
    run_command env e2 oc1 = Some (e3, oc2) \<and> page e3 = ([], text_of e)"
proof -
  let ?d = "disk_of oc" and ?n = "of_nat (e_len e) :: u32"
  have lr: "length (nm @ 0 # r) \<le> 64" "length (nm @ 0 # r2) \<le> 64"
    using assms(3,4) arg_cong [OF assms(6), of length] arg_cong [OF assms(7), of length] by (simp_all add: edit_wf_def)
  have n: "unat ?n = e_len e" using edit_wfD(2) [OF assms(3)] by (simp add: of_nat_unat_small)
  have lt: "length (text_of e) = e_len e" using edit_wfD [OF assms(3)] by (simp add: text_of_def)
  have sect: "sectors_for ?n \<le> 128" using n edit_wfD(2) [OF assms(3)] by (subst sectors_for_eq) simp_all
  then have room: "next_free sb (sec ?d) + sectors_for ?n + 4 * length nm \<le> cap" using assms(18) by linarith
  have small: "unat ?n + 511 < 2 ^ 32" "unat ?n \<le> length (text_of e)" using n lt edit_wfD(2) [OF assms(3)] by simp_all
  have par: "lookup sb (sec ?d) q \<noteq> None" if "parent_name nm = Some q" for q using assms(16) [OF that] by (simp add: files_None)
  from reliable_device.fs_write_refines [OF assms(1,14,15,8-10) par assms(17) small room, of "[]" FS_FILE]
  obtain d1 where d1: "fs_write (k_disk (ev_kernel env)) sb (nm @ [0]) FS_FILE (text_of e) ?n ?d = Some (0, d1)" "dev_ok d1" "fs_ok sb cap (sec d1)"
    "files sb (sec d1) = spec_write (files sb (sec ?d)) nm FS_FILE (text_of e)" using n lt by auto
  obtain e1 oc1 f m where s: "save_file env (nm @ 0 # r) e oc = Some (True, e1, oc1)" "e1 = e\<lparr>e_fname := f, e_dirty := False, e_msg := m\<rparr>"
    "edit_wf e1" "cstr f = nm" "on_drive d1 oc oc1"
    by (rule save_file_run [OF assms(2,8-10) lr(1) assms(3) d1(1) [folded assms(13)]])
  have w: "run_command env e oc = Some (e1, oc1)"
    using run_command_eq [of e "119 # 32 # nm" r env oc] named_command [OF assms(6) _ assms(8,9,11), of env oc] assms(6,8,9,12) s(1) by simp
  have oc1: "disk_of oc1 = d1" "fs_sb (sy_fs (oc_sys oc1)) = sb" using s(5) assms(13) by (simp_all add: on_drive_def disk_of_def)
  have fl: "files sb (sec d1) nm = Some (FS_FILE, text_of e)" using d1(4) by (simp add: spec_write_same)
  have sl: "sint (of_nat (length (text_of e)) :: u32) = int (length (text_of e))"
    using sint_small [of "of_nat (length (text_of e))"] lt edit_wfD(2) [OF assms(3)] by (simp add: of_nat_unat_small)
  obtain d2 where d2: "fs_read (k_disk (ev_kernel env)) sb (nm @ 0 # []) (take 65535 (e_buf e2)) 65535 d1 =
      Some (int (length (text_of e)), text_of e @ drop (length (text_of e)) (take 65535 (e_buf e2)), d2)"
    by (rule read_file_eq [OF assms(1) d1(3,2) assms(8) fl, of 65535 "take 65535 (e_buf e2)" "[]"])
      (use sl lt edit_wfD(2) [OF assms(3)] edit_wfD(1) [OF assms(4)] in simp_all)
  have len: "length (text_of e) \<le> 65535" using lt edit_wfD(2) [OF assms(3)] by simp
  obtain e3 oc2 b g where l: "load_into env (nm @ 0 # r2) e2 oc1 = Some (int (length (text_of e)), e3, oc2)"
    "e3 = e2\<lparr>e_buf := b, e_len := length (text_of e), e_pos := 0, e_top := 0, e_offx := 0, e_dirty := False, e_fname := g\<rparr>"
    "edit_wf e3" "text_of e3 = text_of e" "cstr g = nm" "on_drive d2 oc1 oc2"
    by (rule load_into_run [OF assms(2,8,10) lr(2) assms(4) d2 [folded oc1] len])
  have "length (e_msg e3) = 72" using l(3) by (simp add: edit_wf_def)
  then obtain m3 where m3: "say_loaded (e_len e3) e3 = Some (e3\<lparr>e_msg := m3\<rparr>)" by (rule say_loaded_ok)
  have "open_file env (nm @ 0 # r2) e2 oc1 = Some (e3\<lparr>e_msg := m3\<rparr>, oc2)"
    using assms(5,8,10) l(1) m3 by (simp add: open_file_def strlen_terminated FS_MAX_NAME_def)
  then have "run_command env e2 oc1 = Some (e3\<lparr>e_msg := m3\<rparr>, oc2)"
    using run_command_eq [of e2 "101 # 32 # nm" r2 env oc1] named_command [OF assms(7) _ assms(8,9,11), of env oc1] assms(7,8,9,12) by simp
  moreover have "page (e3\<lparr>e_msg := m3\<rparr>) = ([], text_of e)" using page_text [OF l(3)] l(2,4) by simp
  moreover have "page e1 = page e" "\<not> e_dirty e1" using s(2) by (simp_all add: page_def)
  ultimately show ?thesis using w d1(4) oc1(1) by blast
qed

definition blank_call :: "drive outcome" where
  "blank_call = \<lparr>oc_regs = \<lparr>r_esi = 0, r_ebx = 0, r_edx = 0, r_ecx = 0, r_eax = 0\<rparr>, oc_frame = (0, 0), oc_user = (\<lambda>_. 0), oc_keys = [],
     oc_sys = \<lparr>sy_fs = fs_boot empty_sb drive_blank, sy_wm = sy_wm tiny_sys, sy_kbd = kbd_init, sy_mem = sy_mem tiny_sys,
       sy_exit = exit_fn.exit_to_shell\<rparr>\<rparr>"

definition drive_env :: "drive edit_env" where
  "drive_env = no_env \<lparr>k_disk = ata_disk drive_pio, k_entry = (\<lambda>_. 0)\<rparr>"

lemma edit_save_load_witness:
  "\<exists>e1 oc1 e3 oc2. run_command drive_env (sample [65, 10, 66] [119, 32, 102]) blank_call = Some (e1, oc1) \<and>
    files empty_sb (drive_sec (disk_of oc1)) = [[102] \<mapsto> (FS_FILE, [65, 10, 66])] \<and>
    run_command drive_env (sample [] [101, 32, 102]) oc1 = Some (e3, oc2) \<and> page e3 = ([], [65, 10, 66])"
proof -
  have l: "length [65, 10, 66 :: byte] < 65536" "length [119, 32, 102 :: byte] < 51" "length ([] :: byte list) < 65536"
    "length [101, 32, 102 :: byte] < 51" by simp_all
  note s = sample_simps [OF l(1,2)] and s2 = sample_simps [OF l(3,4)]
  have c: "e_cmd (sample [65, 10, 66] [119, 32, 102]) = 119 # 32 # [102] @ 0 # replicate 47 0"
    "e_cmd (sample [] [101, 32, 102]) = 101 # 32 # [102] @ 0 # replicate 47 0" using s(3) s2(3) by simp_all
  have dk: "k_disk (ev_kernel drive_env) = ata_disk drive_pio" by (simp add: drive_env_def no_env_def)
  have env: "env_ok drive_env" by (simp add: drive_env_def no_env_def env_ok_def)
  have fs: "fs_sb (sy_fs (oc_sys blank_call)) = empty_sb" "disk_of blank_call = drive_blank" by (simp_all add: blank_call_def disk_of_def fs_boot_sel)
  have p: "parent_name [102 :: byte] = None" by (simp add: parent_name_def)
  have nm: "nul_free [102]" "[102 :: byte] \<noteq> []" "length [102 :: byte] < 23" "hd [102 :: byte] \<noteq> 32" "last [102 :: byte] \<noteq> 32" by simp_all
  have room: "next_free empty_sb (drive_sec drive_blank) + 128 + 4 * length [102 :: byte] \<le> 2 ^ 28" using next_free_blank by simp
  have par: "files empty_sb (drive_sec drive_blank) q \<noteq> None" if "parent_name [102] = Some q" for q using that p by simp
  from edit_save_load [of drive_env drive_sec "2 ^ 28" drive_good, unfolded dk, OF reliable_drive env s(4) s2(4,5) c nm fs(1), unfolded fs(2),
      OF fs_ok_blank drive_good_blank par chosen_slot_blank room] s(2) p
  show ?thesis by (auto simp: spec_write.simps files_blank)
qed

end
