(* ===== verification/Paint.thy ===== *)
theory Paint
  imports Mirror
begin

text \<open>
home/paint.c: the paint program. Its canvas is 80 by 24 colours; the view arrays remember what every cell of the
  screen shows, so that only cells that change are drawn. The two-dimensional arrays are lists, row by row; cx, cy
  and fgcol are ints of the code, unbounded here and shown to stay in range. The name "paint.bit" and the local buf
  lie in the memory of the program where the environment says.
\<close>

section \<open>The state\<close>

text \<open>What the linker and the stack give: the kernel behind \<open>int $0x80\<close>, and where the name "paint.bit" and the local buf lie.\<close>

record 'd paint_env =
  pe_kernel :: "'d kernel"
  pe_name :: u32
  pe_buf :: u32

record paint =
  pn_pix :: "byte list"
  pn_ch :: "byte list"
  pn_attr :: "byte list"
  pn_line :: "byte list"
  pn_cx :: int
  pn_cy :: int
  pn_fg :: int
  pn_drawing :: bool

definition CANV_W :: int where "CANV_W = 80"
definition CANV_H :: int where "CANV_H = 24"
definition STATUS_ROW :: int where "STATUS_ROW = 24"
definition STATUS_W :: int where "STATUS_W = 80"
definition HELP_END :: int where "HELP_END = STATUS_W - 9"
definition ATTR_BAR :: byte where "ATTR_BAR = 0x1F"
definition ATTR_CURSOR :: byte where "ATTR_CURSOR = 0x0F"
definition C_LIGHT_GREY :: int where "C_LIGHT_GREY = 7"

text \<open>The elements of the two-dimensional arrays, row by row.\<close>

definition at_cell :: "int \<Rightarrow> int \<Rightarrow> int" where
  "at_cell y x = y * CANV_W + x"

definition USER_COLOR :: "byte \<Rightarrow> byte \<Rightarrow> byte" where
  "USER_COLOR bg fg = push_bit 4 bg OR fg"

definition cname :: "string list" where
  "cname = [''black'', ''blue'', ''green'', ''cyan'', ''red'', ''magenta'', ''brown'', ''grey'',
    ''dkgrey'', ''lblue'', ''lgreen'', ''lcyan'', ''lred'', ''lmagenta'', ''yellow'', ''white'']"

section \<open>Drawing\<close>

text \<open>A cell put on the screen, and what the view remembers of it.\<close>

definition put_view :: "'d kernel \<Rightarrow> byte \<Rightarrow> int \<Rightarrow> int \<Rightarrow> byte \<Rightarrow> paint \<Rightarrow> 'd outcome \<Rightarrow> (paint \<times> 'd outcome) option" where
  "put_view k ch x y attr p oc = do {
     oc \<leftarrow> sys_putchar_at k ch (of_int x) (of_int y) (ucast attr) oc;
     vc \<leftarrow> storei (pn_ch p) (at_cell y x) ch;
     va \<leftarrow> storei (pn_attr p) (at_cell y x) attr;
     Some (p\<lparr>pn_ch := vc, pn_attr := va\<rparr>, oc) }"

definition draw_content :: "'d kernel \<Rightarrow> int \<Rightarrow> int \<Rightarrow> paint \<Rightarrow> 'd outcome \<Rightarrow> (paint \<times> 'd outcome) option" where
  "draw_content k x y p oc =
     (if y < 0 \<or> y \<ge> CANV_H \<or> x < 0 \<or> x \<ge> CANV_W then Some (p, oc)
      else do {
        col \<leftarrow> loadi (pn_pix p) (at_cell y x);
        let attr = USER_COLOR col col;
        vc \<leftarrow> loadi (pn_ch p) (at_cell y x);
        va \<leftarrow> loadi (pn_attr p) (at_cell y x);
        if vc = 32 \<and> va = attr then Some (p, oc) else put_view k 32 x y attr p oc })"

definition draw_cursor :: "'d kernel \<Rightarrow> paint \<Rightarrow> 'd outcome \<Rightarrow> (paint \<times> 'd outcome) option" where
  "draw_cursor k p oc = do {
     (p, oc) \<leftarrow> put_view k 42 (pn_cx p) (pn_cy p) ATTR_CURSOR p oc;
     oc \<leftarrow> sys_goto_xy k (of_int (pn_cx p)) (of_int (pn_cy p)) oc;
     Some (p, oc) }"

fun status_put :: "int \<Rightarrow> byte list \<Rightarrow> int \<Rightarrow> byte list \<Rightarrow> (int \<times> byte list) option" where
  "status_put i [] end l = None"
| "status_put i (c # s) end l =
     (if c \<noteq> 0 \<and> i < end then do { l \<leftarrow> storei l i c; status_put (i + 1) s end l } else Some (i, l))"

definition status_build :: "paint \<Rightarrow> paint option" where
  "status_build p = do {
     let l = replicate (nat STATUS_W) 32;
     (i, l) \<leftarrow> status_put 0 (if pn_drawing p then lit ''DRAW'' else lit ''MOVE'') HELP_END l;
     (i, l) \<leftarrow> status_put i (lit ''  col:'') HELP_END l;
     num \<leftarrow> itoa (of_int (pn_fg p)) (replicate 8 0);
     (i, l) \<leftarrow> status_put i num HELP_END l;
     (i, l) \<leftarrow> status_put i (lit '' '') HELP_END l;
     nm \<leftarrow> loadi cname (pn_fg p);
     (i, l) \<leftarrow> status_put i (lit nm) HELP_END l;
     (i, l) \<leftarrow> status_put i (lit ''  [] col  spc toggle  s save  l load  enter new'') HELP_END l;
     (i, l) \<leftarrow> status_put HELP_END (lit '' esc quit'') STATUS_W l;
     Some (p\<lparr>pn_line := l\<rparr>) }"

fun status_cells :: "'d kernel \<Rightarrow> int list \<Rightarrow> paint \<Rightarrow> 'd outcome \<Rightarrow> (paint \<times> 'd outcome) option" where
  "status_cells k [] p oc = Some (p, oc)"
| "status_cells k (x # xs) p oc = do {
     c \<leftarrow> loadi (pn_line p) x;
     vc \<leftarrow> loadi (pn_ch p) (at_cell STATUS_ROW x);
     va \<leftarrow> loadi (pn_attr p) (at_cell STATUS_ROW x);
     (p, oc) \<leftarrow> (if vc = c \<and> va = ATTR_BAR then Some (p, oc) else put_view k c x STATUS_ROW ATTR_BAR p oc);
     status_cells k xs p oc }"

definition flush_status :: "'d kernel \<Rightarrow> paint \<Rightarrow> 'd outcome \<Rightarrow> (paint \<times> 'd outcome) option" where
  "flush_status k = status_cells k [0..STATUS_W - 1]"

fun content_cells :: "'d kernel \<Rightarrow> (int \<times> int) list \<Rightarrow> paint \<Rightarrow> 'd outcome \<Rightarrow> (paint \<times> 'd outcome) option" where
  "content_cells k [] p oc = Some (p, oc)"
| "content_cells k ((x, y) # ps) p oc = do { (p, oc) \<leftarrow> draw_content k x y p oc; content_cells k ps p oc }"

definition redraw_all :: "'d kernel \<Rightarrow> paint \<Rightarrow> 'd outcome \<Rightarrow> (paint \<times> 'd outcome) option" where
  "redraw_all k p oc = do {
     (p, oc) \<leftarrow> content_cells k [(x, y). y \<leftarrow> [0..CANV_H - 1], x \<leftarrow> [0..CANV_W - 1]] p oc;
     (p, oc) \<leftarrow> flush_status k p oc;
     draw_cursor k p oc }"

definition step :: "'d kernel \<Rightarrow> int \<Rightarrow> int \<Rightarrow> paint \<Rightarrow> 'd outcome \<Rightarrow> (paint \<times> 'd outcome) option" where
  "step k dx dy p oc =
     (let nx = pn_cx p + dx; ny = pn_cy p + dy
      in if nx < 0 \<or> nx \<ge> CANV_W \<or> ny < 0 \<or> ny \<ge> CANV_H then Some (p, oc)
         else do {
           (p, oc) \<leftarrow> draw_content k (pn_cx p) (pn_cy p) p oc;
           let p = p\<lparr>pn_cx := nx, pn_cy := ny\<rparr>;
           p \<leftarrow> (if pn_drawing p then do { b \<leftarrow> storei (pn_pix p) (at_cell ny nx) (of_int (pn_fg p)); Some (p\<lparr>pn_pix := b\<rparr>) } else Some p);
           (p, oc) \<leftarrow> draw_content k nx ny p oc;
           draw_cursor k p oc })"

definition clear_canvas :: "'d kernel \<Rightarrow> paint \<Rightarrow> 'd outcome \<Rightarrow> (paint \<times> 'd outcome) option" where
  "clear_canvas k p oc = redraw_all k (p\<lparr>pn_pix := replicate 1920 0, pn_cx := 0, pn_cy := 0\<rparr>) oc"

definition init_canvas :: "paint \<Rightarrow> paint" where
  "init_canvas p = p\<lparr>pn_ch := replicate 2000 32, pn_attr := replicate 2000 0, pn_pix := replicate 1920 0, pn_cx := 0, pn_cy := 0,
     pn_fg := C_LIGHT_GREY, pn_drawing := False\<rparr>"

section \<open>The file\<close>

definition bit_header :: "byte list" where
  "bit_header = [66, 73, 84, 1, of_int (CANV_W AND 0xFF), of_int (drop_bit 8 CANV_W AND 0xFF), of_int (CANV_H AND 0xFF),
     of_int (drop_bit 8 CANV_H AND 0xFF)]"

definition bit_name :: "byte list" where
  "bit_name = lit ''paint.bit''"

text \<open>The image of the canvas; the call's result is not looked at.\<close>

definition save_bit :: "'d paint_env \<Rightarrow> paint \<Rightarrow> 'd outcome \<Rightarrow> 'd outcome option" where
  "save_bit env p oc = do {
     let buf = bit_header @ pn_pix p;
     (_, oc) \<leftarrow> sys_write_file (pe_kernel env) (pe_name env) (pe_buf env) (of_nat (length buf))
       (oc\<lparr>oc_user := put_region (put_region (oc_user oc) (pe_buf env) buf) (pe_name env) bit_name\<rparr>);
     Some oc }"

text \<open>The pixels of an image that has the magic and the size of the canvas.\<close>

definition bit_pixels :: "int \<Rightarrow> byte list \<Rightarrow> byte list option" where
  "bit_pixels n buf =
     (if n < 8 then None
      else if buf ! 0 \<noteq> 66 \<or> buf ! 1 \<noteq> 73 \<or> buf ! 2 \<noteq> 84 \<or> buf ! 3 \<noteq> 1 then None
      else
        let w = uint (buf ! 4) OR push_bit 8 (uint (buf ! 5)); h = uint (buf ! 6) OR push_bit 8 (uint (buf ! 7))
        in if w \<noteq> CANV_W \<or> h \<noteq> CANV_H \<or> n < 8 + CANV_W * CANV_H then None else Some (take 1920 (drop 8 buf)))"

definition load_bit :: "'d paint_env \<Rightarrow> paint \<Rightarrow> 'd outcome \<Rightarrow> (paint \<times> 'd outcome) option" where
  "load_bit env p oc = do {
     (n, oc) \<leftarrow> sys_read_file (pe_kernel env) (pe_name env) (pe_buf env) 1928
       (oc\<lparr>oc_user := put_region (oc_user oc) (pe_name env) bit_name\<rparr>);
     case bit_pixels (sint n) (region (oc_user oc) (pe_buf env) 1928) of
       None \<Rightarrow> Some (p, oc)
     | Some px \<Rightarrow> redraw_all (pe_kernel env) (p\<lparr>pn_pix := px, pn_cx := 0, pn_cy := 0\<rparr>) oc }"

section \<open>The program\<close>

definition set_mode :: "'d kernel \<Rightarrow> paint \<Rightarrow> 'd outcome \<Rightarrow> (paint \<times> 'd outcome) option" where
  "set_mode k p oc = do {
     p \<leftarrow> status_build p;
     (p, oc) \<leftarrow> flush_status k p oc;
     draw_cursor k p oc }"

text \<open>One key of the loop, escape apart.\<close>

definition paint_key :: "'d paint_env \<Rightarrow> u32 \<Rightarrow> paint \<Rightarrow> 'd outcome \<Rightarrow> (paint \<times> 'd outcome) option" where
  "paint_key env c p oc =
     (let k = pe_kernel env
      in if c = 0xE0 then step k 0 (-1) p oc
         else if c = 0xE1 then step k 0 1 p oc
         else if c = 0xE2 then step k (-1) 0 p oc
         else if c = 0xE3 then step k 1 0 p oc
         else if c = 32 then set_mode k (p\<lparr>pn_drawing := \<not> pn_drawing p\<rparr>) oc
         else if c = 91 then set_mode k (p\<lparr>pn_fg := (pn_fg p + 15) mod 16\<rparr>) oc
         else if c = 93 then set_mode k (p\<lparr>pn_fg := (pn_fg p + 1) mod 16\<rparr>) oc
         else if c = 115 \<or> c = 83 then do { oc \<leftarrow> save_bit env p oc; draw_cursor k p oc }
         else if c = 108 \<or> c = 76 then do { (p, oc) \<leftarrow> load_bit env p oc; draw_cursor k p oc }
         else if c = 10 then clear_canvas k p oc
         else draw_cursor k p oc)"

partial_function (option) paint_loop :: "'d paint_env \<Rightarrow> paint \<Rightarrow> 'd outcome \<Rightarrow> (paint \<times> 'd outcome) option" where
  "paint_loop env p oc = do {
     (c, oc) \<leftarrow> sys_getc (pe_kernel env) oc;
     if c = 0x1B then do { oc \<leftarrow> sys_clear (pe_kernel env) oc; oc \<leftarrow> sys_exit (pe_kernel env) oc; Some (p, oc) }
     else do { (p, oc) \<leftarrow> paint_key env c p oc; paint_loop env p oc } }"

definition paint_open :: "'d paint_env \<Rightarrow> paint \<Rightarrow> 'd outcome \<Rightarrow> (paint \<times> 'd outcome) option" where
  "paint_open env p oc = do {
     let p = init_canvas p;
     oc \<leftarrow> sys_clear (pe_kernel env) oc;
     p \<leftarrow> status_build p;
     redraw_all (pe_kernel env) p oc }"

definition paint_start :: "'d paint_env \<Rightarrow> paint \<Rightarrow> 'd outcome \<Rightarrow> (paint \<times> 'd outcome) option" where
  "paint_start env p oc = do { (p, oc) \<leftarrow> paint_open env p oc; paint_loop env p oc }"

end
