(* ===== verification/PaintSpec.thy ===== *)
theory PaintSpec
  imports Paint EditRun
begin

text \<open>
The correctness of home/paint.c: the view is what the terminal shows, every key acts on the canvas as an abstract painter
  and leaves the screen showing it, and an image saved is loaded again.
\<close>

section \<open>The view\<close>

definition paint_wf :: "paint \<Rightarrow> bool" where
  "paint_wf p \<longleftrightarrow> length (pn_pix p) = 1920 \<and> length (pn_ch p) = 2000 \<and> length (pn_attr p) = 2000 \<and> length (pn_line p) = 80 \<and>
     10 \<notin> set (pn_line p) \<and> 0 \<le> pn_cx p \<and> pn_cx p < 80 \<and> 0 \<le> pn_cy p \<and> pn_cy p < 24 \<and> 0 \<le> pn_fg p \<and> pn_fg p < 16"

definition view_cell :: "paint \<Rightarrow> nat \<Rightarrow> mirror_cell" where
  "view_cell p j = \<lparr>mc_ch = pn_ch p ! j, mc_attr = pn_attr p ! j\<rparr>"

definition set_view :: "nat \<Rightarrow> mirror_cell \<Rightarrow> paint \<Rightarrow> paint" where
  "set_view j c p = p\<lparr>pn_ch := (pn_ch p)[j := mc_ch c], pn_attr := (pn_attr p)[j := mc_attr c]\<rparr>"

text \<open>The view is what the terminal looks like.\<close>

definition synced :: "paint \<Rightarrow> 'd outcome \<Rightarrow> bool" where
  "synced p oc \<longleftrightarrow> (\<forall>j<2000. look (view_cell p j) = look (cell_nth (cur_term (oc_sys oc)) j))"

text \<open>A drawing that changes view and screen together, at the cells of a set to those of a picture, and moves no cursor.\<close>

definition draws_cells :: "nat set \<Rightarrow> (nat \<Rightarrow> mirror_cell) \<Rightarrow> 'd outcome \<Rightarrow> paint \<Rightarrow> 'd outcome \<Rightarrow> (paint \<times> 'd outcome) option \<Rightarrow> bool" where
  "draws_cells J f oc0 p oc r \<longleftrightarrow> (\<exists>vc va oc'. r = Some (p\<lparr>pn_ch := vc, pn_attr := va\<rparr>, oc') \<and> length vc = 2000 \<and> length va = 2000 \<and>
     drawn_from oc0 oc' \<and> synced (p\<lparr>pn_ch := vc, pn_attr := va\<rparr>) oc' \<and>
     (\<forall>j<2000. \<lparr>mc_ch = vc ! j, mc_attr = va ! j\<rparr> = (if j \<in> J then f j else view_cell p j)))"

lemma draws_cellsI:
  assumes "r = Some (p\<lparr>pn_ch := vc, pn_attr := va\<rparr>, oc')" "length vc = 2000" "length va = 2000" "drawn_from oc0 oc'"
    "synced (p\<lparr>pn_ch := vc, pn_attr := va\<rparr>) oc'" "\<And>j. j < 2000 \<Longrightarrow> \<lparr>mc_ch = vc ! j, mc_attr = va ! j\<rparr> = (if j \<in> J then f j else view_cell p j)"
  shows "draws_cells J f oc0 p oc r"
  unfolding draws_cells_def using assms by blast

lemma draws_cells_cong: "(\<forall>j\<in>J. f j = g j) \<Longrightarrow> draws_cells J f oc0 p oc r \<Longrightarrow> draws_cells J g oc0 p oc r"
proof -
  assume "\<forall>j\<in>J. f j = g j"
  then have "(if j \<in> J then f j else view_cell p j) = (if j \<in> J then g j else view_cell p j)" for j by simp
  then show "draws_cells J f oc0 p oc r \<Longrightarrow> draws_cells J g oc0 p oc r" by (simp only: draws_cells_def)
qed

lemma canvas_index:
  assumes "0 \<le> x" "x < 80" "0 \<le> y" "y < 25"
  shows "nat (at_cell y x) < 2000" "nat (at_cell y x) mod 80 = nat x" "nat (at_cell y x) div 80 = nat y" "0 \<le> at_cell y x" "at_cell y x < 2000"
proof -
  have e: "nat (at_cell y x) = nat y * 80 + nat x" using assms by (simp add: at_cell_def CANV_W_def nat_add_distrib nat_mult_distrib)
  have x: "nat x < 80" and y: "nat y < 25" using assms by auto
  show "nat (at_cell y x) < 2000" unfolding e using x y by linarith
  show "nat (at_cell y x) mod 80 = nat x" "nat (at_cell y x) div 80 = nat y" unfolding e using x by simp_all
  show "0 \<le> at_cell y x" "at_cell y x < 2000" using assms by (simp_all add: at_cell_def CANV_W_def)
qed

lemma put_view_draws:
  assumes "drawn_from oc0 oc" "synced p oc" "paint_wf p" "0 \<le> x" "x < 80" "0 \<le> y" "y < 25" "ch \<noteq> 10"
  shows "draws_cells {nat (at_cell y x)} (\<lambda>_. \<lparr>mc_ch = ch, mc_attr = attr\<rparr>) oc0 p oc (put_view k ch x y attr p oc)"
proof -
  note i = canvas_index [OF assms(4-7)]
  let ?j = "nat (at_cell y x)" and ?c = "\<lparr>mc_ch = ch, mc_attr = attr\<rparr>"
  obtain oc' where o: "put_nth k ?j ?c oc = Some oc'" "drawn_from oc0 oc'"
    "\<forall>j<2000. cell_nth (cur_term (oc_sys oc')) j = (if j = ?j \<and> not_newline ?c then ?c else cell_nth (cur_term (oc_sys oc)) j)"
    using put_nth_drawn [OF assms(1) i(1)] by blast
  have xy: "(of_nat (nat x) :: u32) = of_int x" "(of_nat (nat y) :: u32) = of_int y" using assms(4,6) by simp_all
  have call: "sys_putchar_at k ch (of_int x) (of_int y) (ucast attr) oc = Some oc'" using o(1) unfolding put_nth_def i(2,3) xy by simp
  have "put_view k ch x y attr p oc = Some (p\<lparr>pn_ch := (pn_ch p)[?j := ch], pn_attr := (pn_attr p)[?j := attr]\<rparr>, oc')"
    using call i(4,5) assms(3) by (simp add: put_view_def storei_Some paint_wf_def)
  moreover have "synced (p\<lparr>pn_ch := (pn_ch p)[?j := ch], pn_attr := (pn_attr p)[?j := attr]\<rparr>) oc'"
    using assms(2,3,8) o(3) i(1) by (auto simp: synced_def view_cell_def not_newline_def paint_wf_def nth_list_update)
  ultimately show ?thesis
    by (intro draws_cellsI [where vc = "(pn_ch p)[?j := ch]" and va = "(pn_attr p)[?j := attr]" and oc' = oc'] o(2))
      (use assms(3) in \<open>auto simp: paint_wf_def view_cell_def nth_list_update\<close>)
qed

lemma draws_none: "drawn_from oc0 oc \<Longrightarrow> synced p oc \<Longrightarrow> paint_wf p \<Longrightarrow> (\<forall>j<2000. j \<in> J \<longrightarrow> view_cell p j = f j) \<Longrightarrow> draws_cells J f oc0 p oc (Some (p, oc))"
  by (rule draws_cellsI [where p = p and vc = "pn_ch p" and va = "pn_attr p" and oc' = oc]) (simp_all add: paint_wf_def view_cell_def)

lemma paint_wf_view: "length vc = 2000 \<Longrightarrow> length va = 2000 \<Longrightarrow> paint_wf p \<Longrightarrow> paint_wf (p\<lparr>pn_ch := vc, pn_attr := va\<rparr>)"
  by (simp add: paint_wf_def)

lemma draws_then:
  assumes "draws_cells J f oc0 p oc r" "paint_wf p"
    and "\<And>vc va oc'. length vc = 2000 \<Longrightarrow> length va = 2000 \<Longrightarrow> drawn_from oc0 oc' \<Longrightarrow> synced (p\<lparr>pn_ch := vc, pn_attr := va\<rparr>) oc' \<Longrightarrow>
      draws_cells J' f oc0 (p\<lparr>pn_ch := vc, pn_attr := va\<rparr>) oc' (g (p\<lparr>pn_ch := vc, pn_attr := va\<rparr>, oc'))"
  shows "draws_cells (J \<union> J') f oc0 p oc (r \<bind> g)"
proof -
  obtain vc va oc' where r: "r = Some (p\<lparr>pn_ch := vc, pn_attr := va\<rparr>, oc')" "length vc = 2000" "length va = 2000"
    "drawn_from oc0 oc'" "synced (p\<lparr>pn_ch := vc, pn_attr := va\<rparr>) oc'"
    "\<forall>j<2000. \<lparr>mc_ch = vc ! j, mc_attr = va ! j\<rparr> = (if j \<in> J then f j else view_cell p j)" using assms(1) by (auto simp: draws_cells_def)
  from assms(3) [OF r(2-5)] obtain vc' va' oc'' where s: "g (p\<lparr>pn_ch := vc, pn_attr := va\<rparr>, oc') = Some (p\<lparr>pn_ch := vc', pn_attr := va'\<rparr>, oc'')"
    "length vc' = 2000" "length va' = 2000" "drawn_from oc0 oc''" "synced (p\<lparr>pn_ch := vc', pn_attr := va'\<rparr>) oc''"
    "\<forall>j<2000. \<lparr>mc_ch = vc' ! j, mc_attr = va' ! j\<rparr> = (if j \<in> J' then f j else \<lparr>mc_ch = vc ! j, mc_attr = va ! j\<rparr>)"
    by (auto simp: draws_cells_def view_cell_def)
  have "\<lparr>mc_ch = vc' ! j, mc_attr = va' ! j\<rparr> = (if j \<in> J \<union> J' then f j else view_cell p j)" if "j < 2000" for j
    unfolding s(6) [rule_format, OF that] r(6) [rule_format, OF that] by auto
  then show ?thesis using r(1) s(1) by (intro draws_cellsI [OF _ s(2-5)]) simp_all
qed

section \<open>What is drawn\<close>

definition block :: "byte \<Rightarrow> mirror_cell" where
  "block col = \<lparr>mc_ch = 32, mc_attr = USER_COLOR col col\<rparr>"

text \<open>The picture without the cursor.\<close>

definition canvas_cell :: "paint \<Rightarrow> nat \<Rightarrow> mirror_cell" where
  "canvas_cell p j = (if j < 1920 then block (pn_pix p ! j) else \<lparr>mc_ch = pn_line p ! (j - 1920), mc_attr = ATTR_BAR\<rparr>)"

lemma canvas_cell_view [simp]: "canvas_cell (p\<lparr>pn_ch := vc, pn_attr := va\<rparr>) = canvas_cell p"
  by (simp add: canvas_cell_def fun_eq_iff)

lemma draw_content_draws:
  assumes "drawn_from oc0 oc" "synced p oc" "paint_wf p" "0 \<le> x" "x < 80" "0 \<le> y" "y < 24"
  shows "draws_cells {nat (at_cell y x)} (canvas_cell p) oc0 p oc (draw_content k x y p oc)"
proof -
  have y: "y < 25" using assms(7) by simp
  note i = canvas_index [OF assms(4-6) y]
  let ?j = "nat (at_cell y x)"
  have j: "at_cell y x < 1920" "?j < 1920" using assms(4-7) by (simp_all add: at_cell_def CANV_W_def)
  let ?a = "USER_COLOR (pn_pix p ! ?j) (pn_pix p ! ?j)"
  have c: "canvas_cell p ?j = \<lparr>mc_ch = 32, mc_attr = ?a\<rparr>" using j by (simp add: canvas_cell_def block_def)
  have d: "draw_content k x y p oc = (if pn_ch p ! ?j = 32 \<and> pn_attr p ! ?j = ?a then Some (p, oc) else put_view k 32 x y ?a p oc)"
    using assms i j by (simp add: draw_content_def CANV_H_def CANV_W_def loadi_Some paint_wf_def Let_def)
  show ?thesis
  proof (cases "pn_ch p ! ?j = 32 \<and> pn_attr p ! ?j = ?a")
    case True
    then show ?thesis unfolding d using assms(1-3) c by (simp add: draws_none view_cell_def)
  next
    case False
    have "draws_cells {?j} (\<lambda>_. \<lparr>mc_ch = 32, mc_attr = ?a\<rparr>) oc0 p oc (put_view k 32 x y ?a p oc)"
      by (rule put_view_draws [OF assms(1-6) y]) simp
    then show ?thesis unfolding d if_not_P [OF False] by (rule draws_cells_cong [rotated]) (simp add: c)
  qed
qed

lemma content_cells_draw:
  "drawn_from oc0 oc \<Longrightarrow> synced p oc \<Longrightarrow> paint_wf p \<Longrightarrow> \<forall>(x, y)\<in>set ps. 0 \<le> x \<and> x < 80 \<and> 0 \<le> y \<and> y < 24 \<Longrightarrow>
    draws_cells ((\<lambda>(x, y). nat (at_cell y x)) ` set ps) (canvas_cell p) oc0 p oc (content_cells k ps p oc)"
proof (induction ps arbitrary: p oc)
  case (Cons q ps)
  obtain x y where q: "q = (x, y)" by (cases q)
  have "draws_cells ({nat (at_cell y x)} \<union> (\<lambda>(x, y). nat (at_cell y x)) ` set ps) (canvas_cell p) oc0 p oc
      (draw_content k x y p oc \<bind> (\<lambda>(p, oc). content_cells k ps p oc))"
  proof (rule draws_then [OF draw_content_draws Cons.prems(3)])
    fix vc va oc' assume s: "length vc = 2000" "length va = 2000" "drawn_from oc0 oc'" "synced (p\<lparr>pn_ch := vc, pn_attr := va\<rparr>) oc'"
    have w: "paint_wf (p\<lparr>pn_ch := vc, pn_attr := va\<rparr>)" by (rule paint_wf_view [OF s(1,2) Cons.prems(3)])
    show "draws_cells ((\<lambda>(x, y). nat (at_cell y x)) ` set ps) (canvas_cell p) oc0 (p\<lparr>pn_ch := vc, pn_attr := va\<rparr>) oc'
        (case (p\<lparr>pn_ch := vc, pn_attr := va\<rparr>, oc') of (p, oc) \<Rightarrow> content_cells k ps p oc)"
      using Cons.IH [OF s(3,4) w] Cons.prems(4) by simp
  qed (use Cons.prems q in auto)
  then show ?case by (simp add: q)
qed (simp add: draws_none)

lemma status_cells_draw:
  "drawn_from oc0 oc \<Longrightarrow> synced p oc \<Longrightarrow> paint_wf p \<Longrightarrow> set xs \<subseteq> {0..79} \<Longrightarrow>
    draws_cells ((\<lambda>x. nat (at_cell 24 x)) ` set xs) (canvas_cell p) oc0 p oc (status_cells k xs p oc)"
proof (induction xs arbitrary: p oc)
  case (Cons x xs)
  have x: "0 \<le> x" "x < 80" using Cons.prems(4) by auto
  have y: "(0 :: int) \<le> 24" "(24 :: int) < 25" by simp_all
  note i = canvas_index [OF x y]
  let ?j = "nat (at_cell 24 x)" and ?c = "pn_line p ! nat x"
  have j: "?j = 1920 + nat x" using x by (simp add: at_cell_def CANV_W_def nat_add_distrib)
  have c: "canvas_cell p ?j = \<lparr>mc_ch = ?c, mc_attr = ATTR_BAR\<rparr>" by (simp add: canvas_cell_def j)
  have mem: "?c \<in> set (pn_line p)" using Cons.prems(3) x by (simp add: paint_wf_def)
  then have nl: "?c \<noteq> 10" using Cons.prems(3) by (auto simp: paint_wf_def)
  let ?r = "if pn_ch p ! ?j = ?c \<and> pn_attr p ! ?j = ATTR_BAR then Some (p, oc) else put_view k ?c x STATUS_ROW ATTR_BAR p oc"
  have r: "draws_cells {?j} (canvas_cell p) oc0 p oc ?r"
  proof (cases "pn_ch p ! ?j = ?c \<and> pn_attr p ! ?j = ATTR_BAR")
    case True
    then show ?thesis using Cons.prems(1-3) c by (simp add: draws_none view_cell_def)
  next
    case False
    have "draws_cells {?j} (\<lambda>_. \<lparr>mc_ch = ?c, mc_attr = ATTR_BAR\<rparr>) oc0 p oc (put_view k ?c x STATUS_ROW ATTR_BAR p oc)"
      unfolding STATUS_ROW_def by (rule put_view_draws [OF Cons.prems(1-3) x y nl])
    then show ?thesis unfolding if_not_P [OF False] by (rule draws_cells_cong [rotated]) (simp add: c)
  qed
  have "draws_cells ({?j} \<union> (\<lambda>x. nat (at_cell 24 x)) ` set xs) (canvas_cell p) oc0 p oc (?r \<bind> (\<lambda>(p, oc). status_cells k xs p oc))"
  proof (rule draws_then [OF r Cons.prems(3)])
    fix vc va oc' assume s: "length vc = 2000" "length va = 2000" "drawn_from oc0 oc'" "synced (p\<lparr>pn_ch := vc, pn_attr := va\<rparr>) oc'"
    have w: "paint_wf (p\<lparr>pn_ch := vc, pn_attr := va\<rparr>)" by (rule paint_wf_view [OF s(1,2) Cons.prems(3)])
    show "draws_cells ((\<lambda>x. nat (at_cell 24 x)) ` set xs) (canvas_cell p) oc0 (p\<lparr>pn_ch := vc, pn_attr := va\<rparr>) oc'
        (case (p\<lparr>pn_ch := vc, pn_attr := va\<rparr>, oc') of (p, oc) \<Rightarrow> status_cells k xs p oc)"
      using Cons.IH [OF s(3,4) w] Cons.prems(4) by simp
  qed
  moreover have "status_cells k (x # xs) p oc = (?r \<bind> (\<lambda>(p, oc). status_cells k xs p oc))"
    using Cons.prems(3) x i by (simp add: STATUS_ROW_def loadi_Some paint_wf_def)
  ultimately show ?case by simp
qed (simp add: draws_none)

section \<open>The status line\<close>

lemma status_put_eq:
  "nul_free s \<Longrightarrow> int i + int (length s) \<le> end \<Longrightarrow> end \<le> int (length l) \<Longrightarrow>
    status_put (int i) (s @ 0 # r) end l = Some (int (i + length s), blit l i s)"
proof (induction s arbitrary: i l)
  case (Cons c s)
  have "status_put (int (Suc i)) (s @ 0 # r) end (l[i := c]) = Some (int (Suc i + length s), blit (l[i := c]) (Suc i) s)"
    using Cons by (intro Cons.IH) simp_all
  then show ?case using Cons.prems by (simp add: storei_Some blit_Cons add.commute)
qed simp

definition status_text :: "bool \<Rightarrow> int \<Rightarrow> byte list" where
  "status_text d c = asc (if d then ''DRAW'' else ''MOVE'') @ asc ''  col:'' @ itoa_text (of_int c) @ asc '' '' @ asc (cname ! nat c) @
     asc ''  [] col  spc toggle  s save  l load  enter new''"

definition status_line :: "bool \<Rightarrow> int \<Rightarrow> byte list" where
  "status_line d c = status_text d c @ replicate (71 - length (status_text d c)) 32 @ asc '' esc quit''"

lemma colour_number:
  assumes "0 \<le> c" "c < 16"
  shows "length (itoa_text (of_int c)) \<le> 2" "0 \<le> sint (of_int c :: u32)"
proof -
  obtain n where n: "c = int n" using assms(1) by (metis nonneg_int_cases)
  then have u: "unat (of_int c :: u32) = nat c" using assms(2) by (simp add: of_nat_unat_small)
  have s: "sint (of_int c :: u32) = c" using sint_small [of "of_int c"] u assms by simp
  then show "0 \<le> sint (of_int c :: u32)" using assms by simp
  have "unat (of_int c :: u32) < 10 ^ Suc 1" using u assms by simp
  then have "length (itoa_digits (of_int c)) \<le> 2" using itoa_digits_length [of "of_int c" 1] by (simp add: numeral_2_eq_2)
  then show "length (itoa_text (of_int c)) \<le> 2" using assms s by (simp add: itoa_text_def)
qed

lemma status_step:
  assumes "nul_free s" "length t + length s \<le> 71"
  shows "status_put (int (length t)) (s @ 0 # r) 71 (t @ replicate (80 - length t) 32) =
    Some (int (length (t @ s)), (t @ s) @ replicate (80 - length (t @ s)) 32)"
proof -
  have "replicate (80 - length t) 32 = replicate (length s) 32 @ replicate (80 - length (t @ s)) (32 :: byte)"
    using assms(2) by (simp flip: replicate_add)
  then have "blit (t @ replicate (80 - length t) 32) (length t) s = (t @ s) @ replicate (80 - length (t @ s)) 32" by (simp add: blit_def)
  then show ?thesis using status_put_eq [of s "length t" 71 "t @ replicate (80 - length t) 32" r] assms by simp
qed

lemma cname_ok: "0 \<le> c \<Longrightarrow> c < 16 \<Longrightarrow> nul_free (asc (cname ! nat c)) \<and> length (asc (cname ! nat c)) \<le> 8 \<and> 10 \<notin> set (asc (cname ! nat c))"
proof -
  assume "0 \<le> c" "c < 16"
  then have "cname ! nat c \<in> set cname" by (intro nth_mem) (auto simp: cname_def)
  moreover have "\<forall>s\<in>set cname. nul_free (asc s) \<and> length (asc s) \<le> 8 \<and> 10 \<notin> set (asc s)" by (simp add: cname_def)
  ultimately show ?thesis by blast
qed

lemma itoa_text_newline: "10 \<notin> set (itoa_text n)"
proof -
  have "10 \<notin> set (itoa_digits m)" for m using itoa_digits_dec [of m] by (auto simp: list_all_iff is_dec_def)
  then show ?thesis by (auto simp: itoa_text_def)
qed

lemma status_line_ok:
  assumes "0 \<le> c" "c < 16"
  shows "length (status_text d c) \<le> 71" "length (status_line d c) = 80" "10 \<notin> set (status_line d c)"
proof -
  show l: "length (status_text d c) \<le> 71" using colour_number(1) [OF assms] cname_ok [OF assms] by (simp add: status_text_def)
  then show "length (status_line d c) = 80" by (simp add: status_line_def)
  show "10 \<notin> set (status_line d c)" using cname_ok [OF assms] itoa_text_newline by (auto simp: status_line_def status_text_def)
qed

lemma pad_end:
  assumes "length t \<le> 71" "length e = 9"
  shows "blit (t @ replicate (80 - length t) 32) 71 e = t @ replicate (71 - length t) 32 @ e"
proof -
  have r: "replicate (80 - length t) 32 = replicate (71 - length t) 32 @ replicate 9 (32 :: byte)" using assms(1) by (simp flip: replicate_add)
  show ?thesis unfolding r using assms by (simp add: blit_def)
qed

lemma status_end:
  assumes "length t \<le> 71" "length e = 9" "nul_free e"
  shows "status_put 71 (e @ 0 # r) 80 (t @ replicate (80 - length t) 32) = Some (80, t @ replicate (71 - length t) 32 @ e)"
  using status_put_eq [of e 71 80 "t @ replicate (80 - length t) 32" r] pad_end [OF assms(1,2)] assms by simp

lemma status_build_eq:
  assumes "0 \<le> pn_fg p" "pn_fg p < 16"
  shows "status_build p = Some (p\<lparr>pn_line := status_line (pn_drawing p) (pn_fg p)\<rparr>)"
proof -
  let ?c = "pn_fg p" and ?d = "pn_drawing p"
  define m n nm hlp cl sp es where d: "m = asc (if ?d then ''DRAW'' else ''MOVE'')" "n = itoa_text (of_int ?c)" "nm = asc (cname ! nat ?c)"
    "hlp = asc ''  [] col  spc toggle  s save  l load  enter new''" "cl = asc ''  col:''" "sp = asc '' ''" "es = asc '' esc quit''"
  have s: "nul_free m" "nul_free cl" "nul_free n" "nul_free sp" "nul_free nm" "nul_free hlp" "nul_free es"
    using cname_ok [OF assms] nul_free_itoa_text by (simp_all add: d)
  have len: "length m = 4" "length cl = 6" "length n \<le> 2" "length sp = 1" "length nm \<le> 8" "length hlp = 47" "length es = 9"
    using cname_ok [OF assms] colour_number(1) [OF assms] by (simp_all add: d)
  obtain r where num: "itoa (of_int ?c) (replicate 8 0) = Some (n @ 0 # r)"
    using itoa_eq [of "of_int ?c" "replicate 8 0"] len(3) by (auto simp: d(2))
  have nth: "loadi cname ?c = Some (cname ! nat ?c)" using assms by (simp add: loadi_Some cname_def)
  have c: "(if ?d then lit ''DRAW'' else lit ''MOVE'') = m @ [0]" "lit ''  col:'' = cl @ [0]" "lit '' '' = sp @ [0]"
    "lit (cname ! nat ?c) = nm @ [0]" "lit ''  [] col  spc toggle  s save  l load  enter new'' = hlp @ [0]" "lit '' esc quit'' = es @ [0]"
    by (simp_all add: d lit_def)
  let ?t = "((((m @ cl) @ n) @ sp) @ nm) @ hlp"
  have t: "status_text ?d ?c = ?t" by (simp add: status_text_def d)
  have "status_put 0 (m @ [0]) 71 (replicate 80 32) = Some (int (length m), m @ replicate (80 - length m) 32)"
    using status_step [of m "[]" "[]"] s(1) len by simp
  moreover note status_step [of cl m "[]"] status_step [of n "m @ cl" r] status_step [of sp "(m @ cl) @ n" "[]"]
    status_step [of nm "((m @ cl) @ n) @ sp" "[]"] status_step [of hlp "(((m @ cl) @ n) @ sp) @ nm" "[]"] status_end [of ?t es "[]"]
  ultimately have "status_build p = Some (p\<lparr>pn_line := ?t @ replicate (71 - length ?t) 32 @ es\<rparr>)" using s len num nth
    by (simp add: status_build_def c HELP_END_def STATUS_W_def)
  then show ?thesis unfolding status_line_def t d(7) .
qed

section \<open>The picture\<close>

definition cursor_cell :: "paint \<Rightarrow> nat" where
  "cursor_cell p = nat (at_cell (pn_cy p) (pn_cx p))"

definition picture :: "paint \<Rightarrow> nat \<Rightarrow> mirror_cell" where
  "picture p j = (if j = cursor_cell p then \<lparr>mc_ch = 42, mc_attr = ATTR_CURSOR\<rparr> else canvas_cell p j)"

text \<open>The state and the machine, but for the cell of the cursor; and all of it, as every key leaves it.\<close>

definition nearly_shown :: "paint \<Rightarrow> 'd outcome \<Rightarrow> bool" where
  "nearly_shown p oc \<longleftrightarrow> paint_wf p \<and> pn_line p = status_line (pn_drawing p) (pn_fg p) \<and> sys_ok (oc_sys oc) \<and> shown (oc_sys oc) \<and> synced p oc \<and>
     (\<forall>j<2000. j \<noteq> cursor_cell p \<longrightarrow> view_cell p j = canvas_cell p j)"

definition paint_inv :: "paint \<Rightarrow> 'd outcome \<Rightarrow> bool" where
  "paint_inv p oc \<longleftrightarrow> nearly_shown p oc \<and> (\<forall>j<2000. look (cell_nth (cur_term (oc_sys oc)) j) = look (picture p j)) \<and>
     t_cursor_x (cur_term (oc_sys oc)) = pn_cx p \<and> t_cursor_y (cur_term (oc_sys oc)) = pn_cy p"

type_synonym canvas = "byte list \<times> (int \<times> int) \<times> int \<times> bool"

definition canvas :: "paint \<Rightarrow> canvas" where
  "canvas p = (pn_pix p, (pn_cx p, pn_cy p), pn_fg p, pn_drawing p)"

text \<open>The machine after some drawing: only the screen differs.\<close>

definition same_disk :: "'d outcome \<Rightarrow> 'd outcome \<Rightarrow> bool" where
  "same_disk oc oc' \<longleftrightarrow> sy_fs (oc_sys oc') = sy_fs (oc_sys oc) \<and> oc_keys oc' = oc_keys oc \<and> sy_kbd (oc_sys oc') = sy_kbd (oc_sys oc)"

lemma same_disk_trans: "same_disk oc oc1 \<Longrightarrow> same_disk oc1 oc2 \<Longrightarrow> same_disk oc oc2"
  by (simp add: same_disk_def)

lemma shows_term_disk: "shows_term t oc oc' \<Longrightarrow> same_disk oc oc'"
  by (simp add: shows_term_def same_disk_def redraw_def)

lemma drawn_fromD:
  assumes "drawn_from oc0 oc"
  shows "sys_ok (oc_sys oc)" "shown (oc_sys oc)" "same_disk oc0 oc"
  using assms shows_termD(1,2) shows_term_disk by (auto simp: drawn_from_def)

lemma drawn_from_refl:
  assumes "sys_ok (oc_sys oc)" "shown (oc_sys oc)"
  shows "drawn_from oc oc"
proof -
  have "shows_term (cur_term (oc_sys oc)\<lparr>t_cells := t_cells (cur_term (oc_sys oc))\<rparr>) oc oc" using shows_term_refl [OF assms] by simp
  then show ?thesis using assms unfolding drawn_from_def by blast
qed

lemma paint_wf_cursor:
  assumes "paint_wf p"
  shows "cursor_cell p < 1920" "0 \<le> pn_cx p" "pn_cx p < 80" "0 \<le> pn_cy p" "pn_cy p < 24" "pn_cy p < 25"
  using assms by (auto simp: paint_wf_def cursor_cell_def at_cell_def CANV_W_def)

lemma draw_cursor_inv:
  assumes "nearly_shown p oc"
  obtains p' oc' where "draw_cursor k p oc = Some (p', oc')" "paint_inv p' oc'" "canvas p' = canvas p" "same_disk oc oc'"
proof -
  have n: "paint_wf p" "pn_line p = status_line (pn_drawing p) (pn_fg p)" "sys_ok (oc_sys oc)" "shown (oc_sys oc)" "synced p oc"
    "\<forall>j<2000. j \<noteq> cursor_cell p \<longrightarrow> view_cell p j = canvas_cell p j" using assms by (simp_all add: nearly_shown_def)
  note c = paint_wf_cursor [OF n(1)]
  have "draws_cells {cursor_cell p} (\<lambda>_. \<lparr>mc_ch = 42, mc_attr = ATTR_CURSOR\<rparr>) oc p oc (put_view k 42 (pn_cx p) (pn_cy p) ATTR_CURSOR p oc)"
    unfolding cursor_cell_def by (rule put_view_draws [OF drawn_from_refl [OF n(3,4)] n(5,1) c(2,3,4,6)]) simp
  then obtain vc va oc1 where d: "put_view k 42 (pn_cx p) (pn_cy p) ATTR_CURSOR p oc = Some (p\<lparr>pn_ch := vc, pn_attr := va\<rparr>, oc1)"
    "length vc = 2000" "length va = 2000" "drawn_from oc oc1" "synced (p\<lparr>pn_ch := vc, pn_attr := va\<rparr>) oc1"
    "\<forall>j<2000. \<lparr>mc_ch = vc ! j, mc_attr = va ! j\<rparr> = (if j \<in> {cursor_cell p} then \<lparr>mc_ch = 42, mc_attr = ATTR_CURSOR\<rparr> else view_cell p j)"
    by (auto simp: draws_cells_def)
  let ?p = "p\<lparr>pn_ch := vc, pn_attr := va\<rparr>"
  note o1 = drawn_fromD [OF d(4)]
  have u: "uint (of_int (pn_cx p) :: u32) = pn_cx p" "uint (of_int (pn_cy p) :: u32) = pn_cy p" using c by (simp_all add: uint_word_of_int)
  then have lt: "(of_int (pn_cx p) :: u32) < 80" "(of_int (pn_cy p) :: u32) < 25" using c by (simp_all add: word_less_def)
  let ?t = "move_to (pn_cx p) (pn_cy p) (cur_term (oc_sys oc1))"
  obtain oc2 where g: "sys_goto_xy k (of_int (pn_cx p)) (of_int (pn_cy p)) oc1 = Some oc2" "shows_term ?t oc1 oc2"
    using sys_goto_xy_eq [OF o1(1,2), of k "of_int (pn_cx p)" "of_int (pn_cy p)"] lt u by auto
  note o2 = shows_termD [OF g(2) o1(1)]
  have cells: "cell_nth (cur_term (oc_sys oc2)) j = cell_nth (cur_term (oc_sys oc1)) j" for j
    unfolding o2(3) by (simp add: cell_nth_def move_to_def)
  have view: "view_cell ?p j = picture ?p j" if "j < 2000" for j
    using d(6) n(6) that by (auto simp: view_cell_def picture_def cursor_cell_def)
  have sync: "synced ?p oc2" using d(5) by (simp add: synced_def cells)
  then have look: "\<forall>j<2000. look (cell_nth (cur_term (oc_sys oc2)) j) = look (picture ?p j)" using view by (simp add: synced_def)
  have "nearly_shown ?p oc2"
    using n(1,2) paint_wf_view [OF d(2,3) n(1)] o2(1,2) sync view by (simp add: nearly_shown_def picture_def cursor_cell_def)
  then have inv: "paint_inv ?p oc2" using look o2(3) by (simp add: paint_inv_def move_to_def)
  have run: "draw_cursor k p oc = Some (?p, oc2)" using d(1) g(1) by (simp add: draw_cursor_def)
  show thesis by (rule that [OF run inv _ same_disk_trans [OF o1(3) shows_term_disk [OF g(2)]]]) (simp add: canvas_def)
qed

section \<open>The operations\<close>

text \<open>The state with the view wrong at most in a set of cells.\<close>

definition shown_but :: "nat set \<Rightarrow> paint \<Rightarrow> 'd outcome \<Rightarrow> bool" where
  "shown_but C p oc \<longleftrightarrow> paint_wf p \<and> pn_line p = status_line (pn_drawing p) (pn_fg p) \<and> sys_ok (oc_sys oc) \<and> shown (oc_sys oc) \<and> synced p oc \<and>
     (\<forall>j<2000. j \<notin> C \<longrightarrow> view_cell p j = canvas_cell p j)"

lemma shown_butD:
  assumes "shown_but C p oc"
  shows "paint_wf p" "pn_line p = status_line (pn_drawing p) (pn_fg p)" "sys_ok (oc_sys oc)" "shown (oc_sys oc)" "synced p oc"
    "j < 2000 \<Longrightarrow> j \<notin> C \<Longrightarrow> view_cell p j = canvas_cell p j"
  using assms by (simp_all add: shown_but_def)

lemma nearly_shown_but: "nearly_shown p oc \<longleftrightarrow> shown_but {cursor_cell p} p oc"
  by (simp add: nearly_shown_def shown_but_def)

lemma shown_but_mono: "shown_but C p oc \<Longrightarrow> C \<subseteq> D \<Longrightarrow> shown_but D p oc"
  unfolding shown_but_def by blast

lemma draws_shown:
  assumes "draws_cells J (canvas_cell p) oc p oc r" "shown_but C p oc"
  obtains vc va oc' where "r = Some (p\<lparr>pn_ch := vc, pn_attr := va\<rparr>, oc')" "shown_but (C - J) (p\<lparr>pn_ch := vc, pn_attr := va\<rparr>) oc'" "same_disk oc oc'"
proof -
  note s = shown_butD [OF assms(2)]
  obtain vc va oc' where d: "r = Some (p\<lparr>pn_ch := vc, pn_attr := va\<rparr>, oc')" "length vc = 2000" "length va = 2000" "drawn_from oc oc'"
    "synced (p\<lparr>pn_ch := vc, pn_attr := va\<rparr>) oc'"
    "\<forall>j<2000. \<lparr>mc_ch = vc ! j, mc_attr = va ! j\<rparr> = (if j \<in> J then canvas_cell p j else view_cell p j)"
    using assms(1) by (auto simp: draws_cells_def)
  note o = drawn_fromD [OF d(4)]
  have "view_cell (p\<lparr>pn_ch := vc, pn_attr := va\<rparr>) j = canvas_cell p j" if "j < 2000" "j \<notin> C - J" for j
    using d(6) s(6) that by (auto simp: view_cell_def)
  then have "shown_but (C - J) (p\<lparr>pn_ch := vc, pn_attr := va\<rparr>) oc'"
    using paint_wf_view [OF d(2,3) s(1)] s(2) o(1,2) d(5) by (simp add: shown_but_def)
  from that [OF d(1) this o(3)] show thesis .
qed

lemma paint_inv_nearly: "paint_inv p oc \<Longrightarrow> nearly_shown p oc"
  by (simp add: paint_inv_def)

lemma canvas_view [simp]: "canvas (p\<lparr>pn_ch := vc, pn_attr := va\<rparr>) = canvas p"
  by (simp add: canvas_def)

lemma cursor_cell_view [simp]: "cursor_cell (p\<lparr>pn_ch := vc, pn_attr := va\<rparr>) = cursor_cell p"
  by (simp add: cursor_cell_def)

lemma content_shown:
  assumes "shown_but C p oc" "0 \<le> x" "x < 80" "0 \<le> y" "y < 24"
  obtains vc va oc' where "draw_content k x y p oc = Some (p\<lparr>pn_ch := vc, pn_attr := va\<rparr>, oc')"
    "shown_but (C - {nat (at_cell y x)}) (p\<lparr>pn_ch := vc, pn_attr := va\<rparr>) oc'" "same_disk oc oc'"
proof -
  note s = shown_butD [OF assms(1)]
  from draws_shown [OF draw_content_draws [OF drawn_from_refl [OF s(3,4)] s(5,1) assms(2-5)] assms(1)] that show thesis by blast
qed

lemma status_columns: "(\<lambda>x. nat (at_cell 24 x)) ` set [0..79] = {1920..<2000}"
proof -
  have "j \<in> (\<lambda>x. nat (at_cell 24 x)) ` {0..79}" if "1920 \<le> j" "j < 2000" for j
    by (rule image_eqI [where x = "int j - 1920"]) (use that in \<open>simp_all add: at_cell_def CANV_W_def\<close>)
  then show ?thesis by (auto simp: at_cell_def CANV_W_def)
qed

lemma status_shown:
  assumes "shown_but C p oc"
  obtains vc va oc' where "flush_status k p oc = Some (p\<lparr>pn_ch := vc, pn_attr := va\<rparr>, oc')"
    "shown_but (C - {1920..<2000}) (p\<lparr>pn_ch := vc, pn_attr := va\<rparr>) oc'" "same_disk oc oc'"
proof -
  note s = shown_butD [OF assms]
  have "set [0..79 :: int] \<subseteq> {0..79}" by simp
  from draws_shown [OF status_cells_draw [OF drawn_from_refl [OF s(3,4)] s(5,1) this, of k] assms, unfolded status_columns] that
  show thesis by (auto simp: flush_status_def STATUS_W_def)
qed

definition screen_cells :: "(int \<times> int) list" where
  "screen_cells = [(x, y). y \<leftarrow> [0..CANV_H - 1], x \<leftarrow> [0..CANV_W - 1]]"

lemma screen_cells_ok: "\<forall>(x, y)\<in>set screen_cells. 0 \<le> x \<and> x < 80 \<and> 0 \<le> y \<and> y < 24"
  by (auto simp: screen_cells_def CANV_H_def CANV_W_def)

lemma screen_cells_all: "(\<lambda>(x, y). nat (at_cell y x)) ` set screen_cells = {..<1920}"
proof -
  have "j \<in> (\<lambda>(x, y). nat (at_cell y x)) ` set screen_cells" if "j < 1920" for j
  proof (rule image_eqI [where x = "(int (j mod 80), int (j div 80))"])
    have "int (j div 80) * 80 + int (j mod 80) = int j" by (metis div_mult_mod_eq of_nat_add of_nat_mult of_nat_numeral)
    then show "j = (case (int (j mod 80), int (j div 80)) of (x, y) \<Rightarrow> nat (at_cell y x))" by (simp add: at_cell_def CANV_W_def)
    have "j div 80 < 24" "j mod 80 < 80" using that by (linarith, simp)
    then show "(int (j mod 80), int (j div 80)) \<in> set screen_cells" by (simp add: screen_cells_def CANV_H_def CANV_W_def image_iff)
  qed
  moreover have "nat (at_cell y x) < 1920" if "0 \<le> x" "x < 80" "0 \<le> y" "y < 24" for x y using that by (simp add: at_cell_def CANV_W_def)
  ultimately show ?thesis using screen_cells_ok by fast
qed

lemma redraw_all_inv:
  assumes "shown_but UNIV p oc"
  obtains p' oc' where "redraw_all k p oc = Some (p', oc')" "paint_inv p' oc'" "canvas p' = canvas p" "same_disk oc oc'"
proof -
  note s = shown_butD [OF assms]
  obtain vc va oc1 where c: "content_cells k screen_cells p oc = Some (p\<lparr>pn_ch := vc, pn_attr := va\<rparr>, oc1)"
    "shown_but (UNIV - {..<1920}) (p\<lparr>pn_ch := vc, pn_attr := va\<rparr>) oc1" "same_disk oc oc1"
    using draws_shown [OF content_cells_draw [OF drawn_from_refl [OF s(3,4)] s(5,1) screen_cells_ok, of k] assms] screen_cells_all by metis
  let ?p1 = "p\<lparr>pn_ch := vc, pn_attr := va\<rparr>"
  obtain vc2 va2 oc2 where f: "flush_status k ?p1 oc1 = Some (?p1\<lparr>pn_ch := vc2, pn_attr := va2\<rparr>, oc2)"
    "shown_but (UNIV - {..<1920} - {1920..<2000}) (?p1\<lparr>pn_ch := vc2, pn_attr := va2\<rparr>) oc2" "same_disk oc1 oc2"
    by (rule status_shown [OF c(2)])
  let ?p2 = "?p1\<lparr>pn_ch := vc2, pn_attr := va2\<rparr>"
  have "nearly_shown ?p2 oc2" using f(2) by (auto simp: nearly_shown_but shown_but_def)
  then obtain p' oc' where d: "draw_cursor k ?p2 oc2 = Some (p', oc')" "paint_inv p' oc'"
    "canvas p' = canvas ?p2" "same_disk oc2 oc'" by (rule draw_cursor_inv)
  have "redraw_all k p oc = Some (p', oc')" using c(1) f(1) d(1) by (simp add: redraw_all_def screen_cells_def)
  then show thesis using d(2,3) same_disk_trans [OF same_disk_trans [OF c(3) f(3)] d(4)] by (intro that [of p' oc']) simp_all
qed

text \<open>What a key does to the canvas; saving and loading apart.\<close>

definition canvas_move :: "int \<Rightarrow> int \<Rightarrow> canvas \<Rightarrow> canvas" where
  "canvas_move dx dy s =
     (case s of (pix, (x, y), col, d) \<Rightarrow>
       let nx = x + dx; ny = y + dy
       in if nx < 0 \<or> nx \<ge> 80 \<or> ny < 0 \<or> ny \<ge> 24 then s
          else (if d then pix[nat (ny * 80 + nx) := of_int col] else pix, (nx, ny), col, d))"

definition canvas_key :: "u32 \<Rightarrow> canvas \<Rightarrow> canvas" where
  "canvas_key c s =
     (case s of (pix, xy, col, d) \<Rightarrow>
       if c = 0xE0 then canvas_move 0 (-1) s
       else if c = 0xE1 then canvas_move 0 1 s
       else if c = 0xE2 then canvas_move (-1) 0 s
       else if c = 0xE3 then canvas_move 1 0 s
       else if c = 32 then (pix, xy, col, \<not> d)
       else if c = 91 then (pix, xy, (col - 1) mod 16, d)
       else if c = 93 then (pix, xy, (col + 1) mod 16, d)
       else if c = 10 then (replicate 1920 0, (0, 0), col, d)
       else s)"

text \<open>An operation answers, leaves the canvas so and the screen showing it, and does not touch the disk.\<close>

definition paints :: "canvas \<Rightarrow> 'd outcome \<Rightarrow> (paint \<times> 'd outcome) option \<Rightarrow> bool" where
  "paints s oc r \<longleftrightarrow> (\<exists>p' oc'. r = Some (p', oc') \<and> paint_inv p' oc' \<and> canvas p' = s \<and> same_disk oc oc')"

lemma paintsI: "r = Some (p', oc') \<Longrightarrow> paint_inv p' oc' \<Longrightarrow> canvas p' = s \<Longrightarrow> same_disk oc oc' \<Longrightarrow> paints s oc r"
  unfolding paints_def by blast

lemma draw_cursor_paints: "nearly_shown p oc \<Longrightarrow> paints (canvas p) oc (draw_cursor k p oc)"
  by (erule draw_cursor_inv) (rule paintsI)

lemma redraw_paints: "shown_but UNIV p oc \<Longrightarrow> paints (canvas p) oc (redraw_all k p oc)"
  by (erule redraw_all_inv) (rule paintsI)

lemma paints_before: "same_disk oc oc1 \<Longrightarrow> paints s oc1 r \<Longrightarrow> paints s oc r"
  unfolding paints_def using same_disk_trans by blast

lemma same_disk_refl [simp]: "same_disk oc oc"
  by (simp add: same_disk_def)

lemma set_mode_paints:
  assumes "paint_inv p oc" "0 \<le> c" "c < 16" and p: "p' = p\<lparr>pn_fg := c, pn_drawing := d\<rparr>"
  shows "paints (canvas p') oc (set_mode k p' oc)"
proof -
  note s = shown_butD [OF paint_inv_nearly [OF assms(1), unfolded nearly_shown_but]]
  let ?p = "p'\<lparr>pn_line := status_line d c\<rparr>"
  have b: "status_build p' = Some ?p" using status_build_eq [of p'] assms(2,3) by (simp add: p)
  have cur: "cursor_cell p < 1920" "cursor_cell ?p = cursor_cell p" using paint_wf_cursor(1) [OF s(1)] by (simp_all add: cursor_cell_def p)
  have "view_cell ?p j = canvas_cell ?p j" if "j < 2000" "j \<notin> {cursor_cell p} \<union> {1920..<2000}" for j
    using s(6) [OF that(1)] that by (simp add: view_cell_def canvas_cell_def p)
  then have "shown_but ({cursor_cell p} \<union> {1920..<2000}) ?p oc"
    using s(1-5) status_line_ok [OF assms(2,3), of d] assms(2,3)
    by (simp add: shown_but_def paint_wf_def synced_def view_cell_def p)
  from status_shown [OF this, of k] obtain vc va oc1 where f: "flush_status k ?p oc = Some (?p\<lparr>pn_ch := vc, pn_attr := va\<rparr>, oc1)"
    "shown_but ({cursor_cell p} \<union> {1920..<2000} - {1920..<2000}) (?p\<lparr>pn_ch := vc, pn_attr := va\<rparr>) oc1" "same_disk oc oc1" by blast
  have "nearly_shown (?p\<lparr>pn_ch := vc, pn_attr := va\<rparr>) oc1"
    unfolding nearly_shown_but cursor_cell_view cur(2) by (rule shown_but_mono [OF f(2)]) auto
  from paints_before [OF f(3) draw_cursor_paints [OF this, of k]] show ?thesis
    using b f(1) by (simp add: set_mode_def) (simp add: canvas_def)
qed

lemma step_paints:
  assumes "paint_inv p oc"
  shows "paints (canvas_move dx dy (canvas p)) oc (step k dx dy p oc)"
proof (cases "pn_cx p + dx < 0 \<or> pn_cx p + dx \<ge> 80 \<or> pn_cy p + dy < 0 \<or> pn_cy p + dy \<ge> 24")
  case True
  then have "canvas_move dx dy (canvas p) = canvas p" by (auto simp: canvas_move_def canvas_def Let_def)
  then show ?thesis using assms True by (intro paintsI [of _ p oc]) (simp_all add: step_def CANV_W_def CANV_H_def Let_def)
next
  case False
  let ?nx = "pn_cx p + dx" and ?ny = "pn_cy p + dy"
  have n: "0 \<le> ?nx" "?nx < 80" "0 \<le> ?ny" "?ny < 24" "?ny < 25" using False by auto
  note o = paint_inv_nearly [OF assms, unfolded nearly_shown_but]
  note s = shown_butD [OF o] and w = paint_wf_cursor [OF shown_butD(1) [OF o]]
  obtain vc va oc1 where d: "draw_content k (pn_cx p) (pn_cy p) p oc = Some (p\<lparr>pn_ch := vc, pn_attr := va\<rparr>, oc1)"
    "shown_but ({cursor_cell p} - {nat (at_cell (pn_cy p) (pn_cx p))}) (p\<lparr>pn_ch := vc, pn_attr := va\<rparr>) oc1" "same_disk oc oc1"
    by (rule content_shown [OF o w(2-5)])
  let ?q = "p\<lparr>pn_ch := vc, pn_attr := va\<rparr>" and ?i = "nat (at_cell ?ny ?nx)"
  note t = shown_butD [OF d(2)]
  have i: "0 \<le> at_cell ?ny ?nx" "at_cell ?ny ?nx < 1920" using n by (simp_all add: at_cell_def CANV_W_def)
  define b where "b = (if pn_drawing p then (pn_pix p)[?i := of_int (pn_fg p)] else pn_pix p)"
  let ?r = "?q\<lparr>pn_cx := ?nx, pn_cy := ?ny, pn_pix := b\<rparr>"
  have b: "length b = 1920" "\<And>j. j \<noteq> ?i \<Longrightarrow> b ! j = pn_pix p ! j" using s(1) by (simp_all add: b_def paint_wf_def)
  have "view_cell ?r j = canvas_cell ?r j" if "j < 2000" "j \<notin> {?i}" for j
    using t(6) [OF that(1)] b(2) that by (simp add: view_cell_def canvas_cell_def cursor_cell_def)
  then have r: "shown_but {?i} ?r oc1"
    using t(1-5) n b(1) by (simp add: shown_but_def paint_wf_def synced_def view_cell_def)
  obtain vc2 va2 oc2 where e: "draw_content k ?nx ?ny ?r oc1 = Some (?r\<lparr>pn_ch := vc2, pn_attr := va2\<rparr>, oc2)"
    "shown_but ({?i} - {?i}) (?r\<lparr>pn_ch := vc2, pn_attr := va2\<rparr>) oc2" "same_disk oc1 oc2"
    by (rule content_shown [OF r n(1-4)])
  have "nearly_shown (?r\<lparr>pn_ch := vc2, pn_attr := va2\<rparr>) oc2" unfolding nearly_shown_but by (rule shown_but_mono [OF e(2)]) simp
  from paints_before [OF same_disk_trans [OF d(3) e(3)] draw_cursor_paints [OF this, of k]]
  have p: "paints (canvas ?r) oc (draw_cursor k (?r\<lparr>pn_ch := vc2, pn_attr := va2\<rparr>) oc2)" by (simp only: canvas_view)
  have c: "canvas_move dx dy (canvas p) = canvas ?r"
    using False by (auto simp: canvas_move_def canvas_def Let_def b_def at_cell_def CANV_W_def)
  have st: "(if pn_drawing p then do { v \<leftarrow> storei (pn_pix p) (at_cell ?ny ?nx) (of_int (pn_fg p)); Some (?q\<lparr>pn_cx := ?nx, pn_cy := ?ny, pn_pix := v\<rparr>) }
      else Some (?q\<lparr>pn_cx := ?nx, pn_cy := ?ny\<rparr>)) = Some ?r"
    using i s(1) by (simp add: storei_Some paint_wf_def b_def)
  have "step k dx dy p oc = draw_cursor k (?r\<lparr>pn_ch := vc2, pn_attr := va2\<rparr>) oc2"
    using False d(1) e(1) st by (simp add: step_def CANV_W_def CANV_H_def Let_def cong: if_cong)
  then show ?thesis using p c by simp
qed

section \<open>Sessions\<close>

lemma paint_open_paints:
  assumes "sys_ok (oc_sys oc)" "dark (cur_term (oc_sys oc))"
  shows "paints (replicate 1920 0, (0, 0), 7, False) oc (paint_open env p oc)"
proof -
  let ?t = "(cur_term (oc_sys oc))\<lparr>t_cells := blanks (t_color (cur_term (oc_sys oc))) 2000, t_cursor_x := 0, t_cursor_y := 0\<rparr>"
  obtain oc1 where c: "sys_clear (pe_kernel env) oc = Some oc1" "shows_term ?t oc oc1" by (rule sys_clear_eq [OF assms(1)])
  note d = shows_termD [OF c(2) assms(1)]
  let ?p = "(init_canvas p)\<lparr>pn_line := status_line False 7\<rparr>"
  have b: "status_build (init_canvas p) = Some ?p" using status_build_eq [of "init_canvas p"] by (simp add: init_canvas_def C_LIGHT_GREY_def)
  have "look (view_cell ?p j) = look (cell_nth ?t j)" if "j < 2000" for j
    using that assms(2) by (simp add: view_cell_def init_canvas_def look_def cell_nth_def nth_blanks dark_def)
  then have sy: "synced ?p oc1" by (simp add: synced_def d(3))
  have "paint_wf ?p" using status_line_ok [of 7 False] by (simp add: paint_wf_def init_canvas_def C_LIGHT_GREY_def)
  moreover have "pn_line ?p = status_line (pn_drawing ?p) (pn_fg ?p)" by (simp add: init_canvas_def C_LIGHT_GREY_def)
  ultimately have "shown_but UNIV ?p oc1" using sy d(1,2) unfolding shown_but_def by blast
  from paints_before [OF shows_term_disk [OF c(2)] redraw_paints [OF this, of "pe_kernel env"]]
  show ?thesis using b c(1) by (simp add: paint_open_def) (simp add: canvas_def init_canvas_def C_LIGHT_GREY_def)
qed

lemma paint_key_paints:
  assumes "paint_inv p oc" and "c \<notin> {115, 83, 108, 76}"
  shows "paints (canvas_key c (canvas p)) oc (paint_key env c p oc)"
proof -
  note n = paint_inv_nearly [OF assms(1)]
  note s = shown_butD [OF n [unfolded nearly_shown_but]]
  have fg: "0 \<le> pn_fg p" "pn_fg p < 16" using s(1) by (simp_all add: paint_wf_def)
  have m: "(pn_fg p + 15) mod 16 = (pn_fg p - 1) mod 16" using mod_add_self2 [of "pn_fg p - 1" 16] by (simp add: add.commute)
  have clear: "paints (replicate 1920 0, (0, 0), pn_fg p, pn_drawing p) oc (clear_canvas (pe_kernel env) p oc)"
  proof -
    have "shown_but UNIV (p\<lparr>pn_pix := replicate 1920 0, pn_cx := 0, pn_cy := 0\<rparr>) oc"
      using s(1-5) by (simp add: shown_but_def paint_wf_def synced_def view_cell_def)
    from redraw_paints [OF this, of "pe_kernel env"] show ?thesis by (simp add: clear_canvas_def canvas_def)
  qed
  have mode: "paints (canvas (p\<lparr>pn_fg := x, pn_drawing := d\<rparr>)) oc (set_mode k (p\<lparr>pn_fg := x, pn_drawing := d\<rparr>) oc)"
    if "0 \<le> x" "x < 16" for x d k by (rule set_mode_paints [OF assms(1) that refl])
  consider "c \<in> {0xE0, 0xE1, 0xE2, 0xE3}" | "c = 32" | "c = 91" | "c = 93" | "c = 10" | "c \<notin> {0xE0, 0xE1, 0xE2, 0xE3, 32, 91, 93, 10}" by blast
  then show ?thesis
  proof cases
    case 1
    have "canvas_key 0xE0 (canvas p) = canvas_move 0 (-1) (canvas p)" "canvas_key 0xE1 (canvas p) = canvas_move 0 1 (canvas p)"
      "canvas_key 0xE2 (canvas p) = canvas_move (-1) 0 (canvas p)" "canvas_key 0xE3 (canvas p) = canvas_move 1 0 (canvas p)"
      by (simp_all add: canvas_key_def canvas_def)
    then show ?thesis using 1 step_paints [OF assms(1)] by (auto simp: paint_key_def)
  next
    case 2
    then show ?thesis using mode [OF fg, of "\<not> pn_drawing p"] by (simp add: paint_key_def canvas_key_def canvas_def)
  next
    case 3
    then show ?thesis using mode [of "(pn_fg p + 15) mod 16" "pn_drawing p"] m by (simp add: paint_key_def canvas_key_def canvas_def)
  next
    case 4
    then show ?thesis using mode [of "(pn_fg p + 1) mod 16" "pn_drawing p"] by (simp add: paint_key_def canvas_key_def canvas_def)
  next
    case 5
    then show ?thesis using clear by (simp add: paint_key_def canvas_key_def canvas_def)
  next
    case 6
    then have "canvas_key c (canvas p) = canvas p" "paint_key env c p oc = draw_cursor (pe_kernel env) p oc"
      using assms(2) by (simp_all add: canvas_key_def canvas_def paint_key_def)
    then show ?thesis using draw_cursor_paints [OF n] by simp
  qed
qed

text \<open>A call on files leaves the screen alone.\<close>

lemma paint_inv_fs:
  assumes "paint_inv p oc" "sys_ok (oc_sys oc')" "oc_sys oc' = (oc_sys oc)\<lparr>sy_fs := fs\<rparr>"
  shows "paint_inv p oc'"
proof -
  have c: "cur_term (oc_sys oc') = cur_term (oc_sys oc)" "shown (oc_sys oc') = shown (oc_sys oc)" using assms(3) by (simp_all add: cur_term_def shown_def)
  show ?thesis using assms(1,2) by (simp add: paint_inv_def nearly_shown_def synced_def c)
qed

lemma file_stub_inv:
  assumes "paint_inv p oc" "int80_eax k (\<lambda>r. r\<lparr>r_eax := n, r_ebx := a, r_ecx := b, r_edx := c\<rparr>) (oc\<lparr>oc_user := u\<rparr>) = Some (v, oc')" "n \<in> {4, 5}"
  shows "paint_inv p oc'"
proof -
  let ?oc = "oc\<lparr>oc_user := u, oc_regs := (oc_regs oc)\<lparr>r_eax := n, r_ebx := a, r_ecx := b, r_edx := c\<rparr>\<rparr>"
  have "file_call (k_disk k) ?oc = Some oc'"
    using assms(2,3) by (auto simp: int80_eax_def int80_def syscall_handler_def Let_def split: bind_splits)
  note e = file_call_effect [OF this]
  obtain fs where fs: "oc_sys oc' = (oc_sys oc)\<lparr>sy_fs := fs\<rparr>" using e by (auto simp: file_effect_def)
  have "sys_ok (oc_sys ?oc)" using assms(1) by (simp add: paint_inv_def nearly_shown_def)
  from paint_inv_fs [OF assms(1) file_effect_ok [OF e this] fs] show ?thesis .
qed

lemma bit_pixels_length: "bit_pixels n buf = Some px \<Longrightarrow> length buf = 1928 \<Longrightarrow> length px = 1920"
  by (auto simp: bit_pixels_def Let_def split: if_splits)

text \<open>The load once the call has answered.\<close>

lemma load_bit_paints:
  assumes "paint_inv p oc" "sys_read_file (pe_kernel env) (pe_name env) (pe_buf env) 1928 (oc\<lparr>oc_user := put_region (oc_user oc) (pe_name env) bit_name\<rparr>) = Some (n, oc1)"
  shows "paints (case bit_pixels (sint n) (region (oc_user oc1) (pe_buf env) 1928) of None \<Rightarrow> canvas p
    | Some px \<Rightarrow> (px, (0, 0), pn_fg p, pn_drawing p)) oc1 (load_bit env p oc)"
proof -
  have i: "paint_inv p oc1" using file_stub_inv [OF assms(1) assms(2) [unfolded sys_read_file_def]] by simp
  note s = shown_butD [OF paint_inv_nearly [OF i, unfolded nearly_shown_but]]
  show ?thesis
  proof (cases "bit_pixels (sint n) (region (oc_user oc1) (pe_buf env) 1928)")
    case None
    then show ?thesis using assms(2) i by (intro paintsI [of _ p oc1]) (simp_all add: load_bit_def)
  next
    case (Some px)
    have "shown_but UNIV (p\<lparr>pn_pix := px, pn_cx := 0, pn_cy := 0\<rparr>) oc1"
      using s(1-5) bit_pixels_length [OF Some] by (simp add: shown_but_def paint_wf_def synced_def view_cell_def)
    from redraw_paints [OF this, of "pe_kernel env"] show ?thesis using assms(2) Some by (simp add: load_bit_def) (simp add: canvas_def)
  qed
qed

text \<open>Any run of the program, from its start through any keys.\<close>

inductive paint_session :: "'d paint_env \<Rightarrow> paint \<Rightarrow> 'd outcome \<Rightarrow> bool" for env where
  paint_begins: "sys_ok (oc_sys oc) \<Longrightarrow> dark (cur_term (oc_sys oc)) \<Longrightarrow> paint_open env p oc = Some (p', oc') \<Longrightarrow> paint_session env p' oc'"
| paint_goes_on: "paint_session env p oc \<Longrightarrow> paint_key env c p oc = Some (p', oc') \<Longrightarrow> paint_session env p' oc'"

lemma paint_key_inv:
  assumes "paint_inv p oc" "paint_key env c p oc = Some (p', oc')"
  shows "paint_inv p' oc'"
proof -
  consider "c \<notin> {115, 83, 108, 76}" | "c \<in> {115, 83}" | "c \<in> {108, 76}" by blast
  then show ?thesis
  proof cases
    case 1
    from paint_key_paints [OF assms(1) 1, of env] assms(2) show ?thesis by (simp add: paints_def)
  next
    case 2
    then obtain v oc1 where c: "sys_write_file (pe_kernel env) (pe_name env) (pe_buf env) (of_nat (length (bit_header @ pn_pix p)))
       (oc\<lparr>oc_user := put_region (put_region (oc_user oc) (pe_buf env) (bit_header @ pn_pix p)) (pe_name env) bit_name\<rparr>) = Some (v, oc1)"
      "draw_cursor (pe_kernel env) p oc1 = Some (p', oc')"
      using assms(2) by (auto simp: paint_key_def save_bit_def Let_def split: bind_splits)
    have "paint_inv p oc1" using file_stub_inv [OF assms(1) c(1) [unfolded sys_write_file_def]] by simp
    from draw_cursor_paints [OF paint_inv_nearly [OF this], of "pe_kernel env"] c(2) show ?thesis by (simp add: paints_def)
  next
    case 3
    then obtain n oc1 p2 oc2 where c: "sys_read_file (pe_kernel env) (pe_name env) (pe_buf env) 1928 (oc\<lparr>oc_user := put_region (oc_user oc) (pe_name env) bit_name\<rparr>) = Some (n, oc1)"
      "load_bit env p oc = Some (p2, oc2)" "draw_cursor (pe_kernel env) p2 oc2 = Some (p', oc')"
      using assms(2) by (auto simp: paint_key_def load_bit_def split: bind_splits)
    have "paint_inv p2 oc2" using load_bit_paints [OF assms(1) c(1)] c(2) by (simp add: paints_def)
    from draw_cursor_paints [OF paint_inv_nearly [OF this], of "pe_kernel env"] c(3) show ?thesis by (simp add: paints_def)
  qed
qed

lemma paint_session_inv: "paint_session env p oc \<Longrightarrow> paint_inv p oc"
proof (induction rule: paint_session.induct)
  case (paint_begins oc p p' oc')
  from paint_open_paints [OF paint_begins(1,2), of env p] paint_begins(3) show ?case by (simp add: paints_def)
qed (rule paint_key_inv)

text \<open>C14: The paint program paints. In every state that any keys lead to from the start, saving and loading among them,
  a key that does neither answers, does to the canvas (colours, cursor, colour and mode of the pen) what \<open>canvas_key\<close>
  says, and leaves the terminal looking like the picture of the canvas: a block of each cell's colour, the cursor's
  star, and the line with the mode and the colour below; the terminal's cursor is on the star.\<close>

theorem paint_key_shows:
  assumes "paint_session env p oc" and "c \<notin> {115, 83, 108, 76}"
  shows "\<exists>p' oc'. paint_key env c p oc = Some (p', oc') \<and> canvas p' = canvas_key c (canvas p) \<and>
    (\<forall>j<2000. look (cell_nth (cur_term (oc_sys oc')) j) = look (picture p' j)) \<and> shown (oc_sys oc') \<and>
    pn_line p' = status_line (pn_drawing p') (pn_fg p') \<and>
    (t_cursor_x (cur_term (oc_sys oc')), t_cursor_y (cur_term (oc_sys oc'))) = (pn_cx p', pn_cy p')"
  using paint_key_paints [OF paint_session_inv [OF assms(1)] assms(2), of env]
  unfolding paints_def paint_inv_def nearly_shown_def by blast

definition paint_blank :: paint where
  "paint_blank = \<lparr>pn_pix = [], pn_ch = [], pn_attr = [], pn_line = [], pn_cx = 0, pn_cy = 0, pn_fg = 0, pn_drawing = False\<rparr>"

definition paint_at :: "'d kernel \<Rightarrow> 'd paint_env" where
  "paint_at k = \<lparr>pe_kernel = k, pe_name = 0x400000, pe_buf = 0x401000\<rparr>"

lemma paint_begun:
  assumes "sys_ok (oc_sys oc)" "dark (cur_term (oc_sys oc))"
  obtains p oc' where "paint_open env paint_blank oc = Some (p, oc')" "paint_session env p oc'"
    "canvas p = (replicate 1920 0, (0, 0), 7, False)" "same_disk oc oc'"
proof -
  obtain p oc' where o: "paint_open env paint_blank oc = Some (p, oc')" "canvas p = (replicate 1920 0, (0, 0), 7, False)" "same_disk oc oc'"
    using paint_open_paints [OF assms, of env paint_blank] by (auto simp: paints_def)
  from that [OF o(1) paint_begins [OF assms o(1)] o(2,3)] show thesis .
qed

lemma paint_key_shows_witness:
  "\<exists>p oc p' oc'. paint_open (paint_at no_kernel) paint_blank (tiny_call 0 0 0 0) = Some (p, oc) \<and>
    paint_key (paint_at no_kernel) 0xE3 p oc = Some (p', oc') \<and> canvas p' = (replicate 1920 0, (1, 0), 7, False) \<and>
    look (cell_nth (cur_term (oc_sys oc')) 1) = (42, 0x0F) \<and> look (cell_nth (cur_term (oc_sys oc')) 0) = (32, 0)"
proof -
  have ok: "sys_ok (oc_sys (tiny_call 0 0 0 0))" "dark (cur_term (oc_sys (tiny_call 0 0 0 0)))"
    by (simp_all add: tiny_call_def tiny_sys_ok tiny_dark)
  obtain p oc where o: "paint_open (paint_at no_kernel) paint_blank (tiny_call 0 0 0 0) = Some (p, oc)"
    "paint_session (paint_at no_kernel) p oc" "canvas p = (replicate 1920 0, (0, 0), 7, False)" by (rule paint_begun [OF ok])
  have c: "(0xE3 :: u32) \<notin> {115, 83, 108, 76}" by simp
  obtain p' oc' where k: "paint_key (paint_at no_kernel) 0xE3 p oc = Some (p', oc')" "canvas p' = canvas_key 0xE3 (canvas p)"
    "\<forall>j<2000. look (cell_nth (cur_term (oc_sys oc')) j) = look (picture p' j)" using paint_key_shows [OF o(2) c] by blast
  have v: "canvas p' = (replicate 1920 0, (1, 0), 7, False)" using k(2) by (simp add: o(3) canvas_key_def canvas_move_def)
  then have "cursor_cell p' = 1" "pn_pix p' = replicate 1920 0" by (simp_all add: canvas_def cursor_cell_def at_cell_def)
  then have "look (picture p' 1) = (42, 0x0F)" "look (picture p' 0) = (32, 0)"
    by (simp_all add: picture_def look_def canvas_cell_def block_def ATTR_CURSOR_def USER_COLOR_def)
  then show ?thesis using o(1) k(1,3) v by auto
qed

section \<open>The file\<close>

definition paint_env_ok :: "'d paint_env \<Rightarrow> bool" where
  "paint_env_ok env \<longleftrightarrow> unat (pe_buf env) + 1928 \<le> 4294967296 \<and> unat (pe_name env) + 10 \<le> 4294967296 \<and>
     (unat (pe_name env) + 10 \<le> unat (pe_buf env) \<or> unat (pe_buf env) + 1928 \<le> unat (pe_name env))"

definition bit_file :: "byte list" where
  "bit_file = [112, 97, 105, 110, 116, 46, 98, 105, 116]"

lemma bit_name_eq: "bit_name = bit_file @ [0]"
  by (simp add: bit_name_def lit_def bit_file_def)

lemma bit_file_simps [simp]: "nul_free bit_file" "length bit_file = 9" "bit_file \<noteq> []"
  by (simp_all add: bit_file_def)

lemma bit_name_user: "paint_env_ok env \<Longrightarrow> user_string (put_region u (pe_name env) bit_name) (pe_name env) = Some (bit_file @ [0])"
  unfolding bit_name_eq by (rule user_string_at, rule string_at_put) (simp_all add: paint_env_ok_def)

lemma region_put: "unat x + length bs \<le> 4294967296 \<Longrightarrow> region (put_region u x bs) x (length bs) = bs"
proof (rule nth_equalityI)
  fix i assume a: "unat x + length bs \<le> 4294967296" and "i < length (region (put_region u x bs) x (length bs))"
  then have i: "i < length bs" by simp
  then show "region (put_region u x bs) x (length bs) ! i = bs ! i" using a u32_shift [of x i] by (simp add: region_nth put_region_eq)
qed simp

lemma region_put_apart:
  assumes "unat x + n \<le> 4294967296" "unat y + length bs \<le> 4294967296" "unat y + length bs \<le> unat x \<or> unat x + n \<le> unat y"
  shows "region (put_region u y bs) x n = region u x n"
proof (rule nth_equalityI)
  fix i assume "i < length (region (put_region u y bs) x n)"
  then have i: "i < n" by simp
  have "unat (x + of_nat i) = unat x + i" using u32_shift [of x i] i assms(1) by simp
  then show "region (put_region u y bs) x n ! i = region u x n ! i" using i assms(2,3) by (auto simp: region_nth put_region_eq)
qed simp

lemma bit_pixels_image:
  assumes "length px = 1920"
  shows "bit_pixels 1928 (bit_header @ px) = Some px"
proof -
  have h: "bit_header = [66, 73, 84, 1, 80, 0, 24, 0]" by (simp add: bit_header_def CANV_W_def CANV_H_def)
  show ?thesis unfolding h using assms by (simp add: bit_pixels_def CANV_W_def CANV_H_def Let_def)
qed

lemma bit_header_length [simp]: "length bit_header = 8"
  by (simp add: bit_header_def)

lemma save_key_run:
  assumes "paint_env_ok env" "paint_inv p oc" "fs_write (k_disk (pe_kernel env)) (fs_sb (sy_fs (oc_sys oc))) (bit_file @ [0]) FS_FILE
      (bit_header @ pn_pix p) 1928 (disk_of oc) = Some (v, d)"
  shows "paints (canvas p) (oc\<lparr>oc_sys := (oc_sys oc)\<lparr>sy_fs := (sy_fs (oc_sys oc))\<lparr>fs_dev := d\<rparr>\<rparr>\<rparr>) (paint_key env 115 p oc)"
proof -
  let ?u = "put_region (put_region (oc_user oc) (pe_buf env) (bit_header @ pn_pix p)) (pe_name env) bit_name"
  have l: "length (bit_header @ pn_pix p) = 1928" using assms(2) by (simp add: paint_inv_def nearly_shown_def paint_wf_def)
  have b: "region ?u (pe_buf env) 1928 = bit_header @ pn_pix p"
    using region_put [of "pe_buf env" "bit_header @ pn_pix p"] l assms(1)
    by (subst region_put_apart) (auto simp: paint_env_ok_def bit_name_eq)
  let ?oc = "ret v (set_fs ((sy_fs (oc_sys oc))\<lparr>fs_dev := d\<rparr>) (oc\<lparr>oc_user := ?u, oc_regs := (oc_regs oc)\<lparr>r_eax := 5,
    r_ebx := pe_name env, r_ecx := pe_buf env, r_edx := 1928\<rparr>\<rparr>))"
  have call: "sys_write_file (pe_kernel env) (pe_name env) (pe_buf env) 1928 (oc\<lparr>oc_user := ?u\<rparr>) = Some (of_int v, ?oc)"
    using assms(3) bit_name_user [OF assms(1)] b
    by (simp add: sys_write_file_def int80_eax_def int80_def syscall_handler_def file_call_def Let_def disk_of_def) (simp add: ret_def)
  then have s: "save_bit env p oc = Some ?oc" using l by (simp add: save_bit_def Let_def)
  have i: "paint_inv p ?oc" using file_stub_inv [OF assms(2) call [unfolded sys_write_file_def]] by simp
  have "paint_key env 115 p oc = draw_cursor (pe_kernel env) p ?oc" using s by (simp add: paint_key_def Let_def)
  then have "paints (canvas p) ?oc (paint_key env 115 p oc)" using draw_cursor_paints [OF paint_inv_nearly [OF i]] by simp
  then show ?thesis by (rule paints_before [rotated]) (simp add: same_disk_def)
qed

lemma load_key_run:
  assumes "paint_env_ok env" "paint_inv p oc" "length px = 1920"
    and "fs_read (k_disk (pe_kernel env)) (fs_sb (sy_fs (oc_sys oc))) (bit_file @ [0]) (region (oc_user oc) (pe_buf env) 1928) 1928
      (disk_of oc) = Some (1928, bit_header @ px, d)"
  obtains oc1 where "paints (px, (0, 0), pn_fg p, pn_drawing p) oc1 (paint_key env 108 p oc)"
proof -
  let ?u = "put_region (oc_user oc) (pe_name env) bit_name"
  have b: "region ?u (pe_buf env) 1928 = region (oc_user oc) (pe_buf env) 1928"
    using assms(1) by (intro region_put_apart) (auto simp: paint_env_ok_def bit_name_eq)
  let ?v = "put_region ?u (pe_buf env) (bit_header @ px)"
  let ?oc = "ret 1928 (set_fs ((sy_fs (oc_sys oc))\<lparr>fs_dev := d\<rparr>) (oc\<lparr>oc_regs := (oc_regs oc)\<lparr>r_eax := 4,
    r_ebx := pe_name env, r_ecx := pe_buf env, r_edx := 1928\<rparr>, oc_user := ?v\<rparr>))"
  have call: "sys_read_file (pe_kernel env) (pe_name env) (pe_buf env) 1928 (oc\<lparr>oc_user := ?u\<rparr>) = Some (1928, ?oc)"
    using assms(4) bit_name_user [OF assms(1)] b
    by (simp add: sys_read_file_def int80_eax_def int80_def syscall_handler_def file_call_def Let_def disk_of_def) (simp add: ret_def)
  have new: "region ?v (pe_buf env) 1928 = bit_header @ px"
    using region_put [of "pe_buf env" "bit_header @ px"] assms(1,3) by (simp add: paint_env_ok_def)
  have n: "sint (1928 :: u32) = 1928" by simp
  from load_bit_paints [OF assms(2) call] obtain p2 oc2 where l: "load_bit env p oc = Some (p2, oc2)" "paint_inv p2 oc2"
    "canvas p2 = (px, (0, 0), pn_fg p, pn_drawing p)" by (auto simp: paints_def new n bit_pixels_image [OF assms(3)])
  have "paint_key env 108 p oc = draw_cursor (pe_kernel env) p2 oc2" using l(1) by (simp add: paint_key_def Let_def)
  then show thesis using that draw_cursor_paints [OF paint_inv_nearly [OF l(2)], of "pe_kernel env"] l(3) by simp
qed

text \<open>C15: What the paint program saves it loads. The key s makes \<open>paint.bit\<close> the header and the pixels of the canvas,
  in the file system as by one write, and leaves the canvas; the key l, in any session of the program on that file
  system, whatever is painted there, then brings exactly those pixels back and the cursor to the corner.\<close>

theorem paint_save_load:
  assumes "reliable_device (k_disk (pe_kernel env)) sec cap dev_ok" and "paint_env_ok env" and "paint_session env p oc"
    and "fs_sb (sy_fs (oc_sys oc)) = sb" and "fs_ok sb cap (sec (disk_of oc))" and "dev_ok (disk_of oc)"
    and "chosen_slot sb (sec (disk_of oc)) bit_file \<noteq> None" and "next_free sb (sec (disk_of oc)) + 4 + 4 * 9 \<le> cap"
  shows "\<exists>p1 oc1. paint_key env 115 p oc = Some (p1, oc1) \<and> canvas p1 = canvas p \<and>
    files sb (sec (disk_of oc1)) = spec_write (files sb (sec (disk_of oc))) bit_file FS_FILE (bit_header @ pn_pix p) \<and>
    (\<forall>p2 oc2. paint_session env p2 oc2 \<and> sy_fs (oc_sys oc2) = sy_fs (oc_sys oc1) \<longrightarrow>
      (\<exists>p3 oc3. paint_key env 108 p2 oc2 = Some (p3, oc3) \<and> canvas p3 = (pn_pix p, (0, 0), pn_fg p2, pn_drawing p2)))"
proof -
  note i = paint_session_inv [OF assms(3)]
  let ?d = "disk_of oc" and ?bs = "bit_header @ pn_pix p"
  have l: "length (pn_pix p) = 1920" using i by (simp add: paint_inv_def nearly_shown_def paint_wf_def)
  have "sectors_for 1928 = 4" by (subst sectors_for_eq) simp_all
  then have room: "next_free sb (sec ?d) + sectors_for 1928 + 4 * length bit_file \<le> cap" using assms(8) by simp
  have par: "lookup sb (sec ?d) q \<noteq> None" if "parent_name bit_file = Some q" for q
    using that by (simp add: parent_name_def bit_file_def)
  have small: "unat (1928 :: u32) + 511 < 2 ^ 32" "unat (1928 :: u32) \<le> length ?bs" using l by simp_all
  have name: "length bit_file < 23" by simp
  from reliable_device.fs_write_refines [OF assms(1,5,6) bit_file_simps(1,3) name par assms(7) small room, of "[]" FS_FILE]
  obtain d1 where d1: "fs_write (k_disk (pe_kernel env)) sb (bit_file @ [0]) FS_FILE ?bs 1928 ?d = Some (0, d1)" "dev_ok d1"
    "fs_ok sb cap (sec d1)" "files sb (sec d1) = spec_write (files sb (sec ?d)) bit_file FS_FILE ?bs" using l by auto
  obtain p1 oc1 where s: "paint_key env 115 p oc = Some (p1, oc1)" "canvas p1 = canvas p" "sy_fs (oc_sys oc1) = (sy_fs (oc_sys oc))\<lparr>fs_dev := d1\<rparr>"
    using save_key_run [OF assms(2) i d1(1) [folded assms(4)]] by (auto simp: paints_def same_disk_def)
  have dk: "disk_of oc1 = d1" using s(3) by (simp add: disk_of_def)
  have fl: "files sb (sec d1) bit_file = Some (FS_FILE, ?bs)" by (simp add: d1(4) spec_write_same)
  have "\<exists>p3 oc3. paint_key env 108 p2 oc2 = Some (p3, oc3) \<and> canvas p3 = (pn_pix p, (0, 0), pn_fg p2, pn_drawing p2)"
    if a: "paint_session env p2 oc2" "sy_fs (oc_sys oc2) = sy_fs (oc_sys oc1)" for p2 oc2
  proof -
    have fs: "fs_sb (sy_fs (oc_sys oc2)) = sb" "disk_of oc2 = d1" using a(2) s(3) assms(4) by (simp_all add: disk_of_def)
    obtain d2 where "fs_read (k_disk (pe_kernel env)) sb (bit_file @ 0 # []) (region (oc_user oc2) (pe_buf env) 1928) 1928 d1 =
        Some (int (length ?bs), ?bs @ drop (length ?bs) (region (oc_user oc2) (pe_buf env) 1928), d2)"
      by (rule read_file_eq [OF assms(1) d1(3,2) bit_file_simps(1) fl, of 1928 "region (oc_user oc2) (pe_buf env) 1928" "[]"])
        (use l in simp_all)
    then have r: "fs_read (k_disk (pe_kernel env)) (fs_sb (sy_fs (oc_sys oc2))) (bit_file @ [0]) (region (oc_user oc2) (pe_buf env) 1928) 1928
        (disk_of oc2) = Some (1928, ?bs, d2)" using l fs by simp
    obtain oc4 where "paints (pn_pix p, (0, 0), pn_fg p2, pn_drawing p2) oc4 (paint_key env 108 p2 oc2)"
      by (rule load_key_run [OF assms(2) paint_session_inv [OF a(1)] l r])
    then show ?thesis by (auto simp: paints_def)
  qed
  then show ?thesis using s(1,2) d1(4) dk by blast
qed

lemma paint_save_load_witness:
  "\<exists>p oc p1 oc1 p3 oc3. paint_open (paint_at (ev_kernel drive_env)) paint_blank blank_call = Some (p, oc) \<and>
    paint_key (paint_at (ev_kernel drive_env)) 115 p oc = Some (p1, oc1) \<and>
    files empty_sb (drive_sec (disk_of oc1)) = [bit_file \<mapsto> (FS_FILE, bit_header @ replicate 1920 0)] \<and>
    paint_key (paint_at (ev_kernel drive_env)) 108 p1 oc1 = Some (p3, oc3) \<and> canvas p3 = (replicate 1920 0, (0, 0), 7, False)"
proof -
  let ?env = "paint_at (ev_kernel drive_env)"
  have dk: "k_disk (pe_kernel ?env) = ata_disk drive_pio" by (simp add: paint_at_def drive_env_def no_env_def)
  have env: "paint_env_ok ?env" by (simp add: paint_at_def paint_env_ok_def)
  have fs: "fs_sb (sy_fs (oc_sys blank_call)) = empty_sb" "disk_of blank_call = drive_blank" by (simp_all add: blank_call_def disk_of_def fs_boot_sel)
  have ok: "sys_ok (oc_sys blank_call)" "dark (cur_term (oc_sys blank_call))"
    using tiny_sys_ok tiny_dark by (simp_all add: blank_call_def sys_ok_def fs_boot_ok cur_term_def)
  obtain p oc where o: "paint_open ?env paint_blank blank_call = Some (p, oc)" "paint_session ?env p oc"
    "canvas p = (replicate 1920 0, (0, 0), 7, False)" "same_disk blank_call oc" by (rule paint_begun [OF ok])
  have fs': "fs_sb (sy_fs (oc_sys oc)) = empty_sb" "disk_of oc = drive_blank" using o(4) fs by (simp_all add: same_disk_def disk_of_def)
  have px: "pn_pix p = replicate 1920 0" using o(3) by (simp add: canvas_def)
  have room: "next_free empty_sb (drive_sec drive_blank) + 4 + 4 * 9 \<le> 2 ^ 28" using next_free_blank by simp
  have slot: "chosen_slot empty_sb (drive_sec drive_blank) bit_file \<noteq> None" by (rule chosen_slot_blank)
  from paint_save_load [of ?env drive_sec "2 ^ 28" drive_good, unfolded dk, OF reliable_drive env o(2) fs'(1), unfolded fs'(2), OF fs_ok_blank drive_good_blank slot room]
  obtain p1 oc1 where r: "paint_key ?env 115 p oc = Some (p1, oc1)" "canvas p1 = canvas p"
    "files empty_sb (drive_sec (disk_of oc1)) = spec_write (files empty_sb (drive_sec drive_blank)) bit_file FS_FILE (bit_header @ pn_pix p)"
    "\<forall>p2 oc2. paint_session ?env p2 oc2 \<and> sy_fs (oc_sys oc2) = sy_fs (oc_sys oc1) \<longrightarrow>
      (\<exists>p3 oc3. paint_key ?env 108 p2 oc2 = Some (p3, oc3) \<and> canvas p3 = (pn_pix p, (0, 0), pn_fg p2, pn_drawing p2))" by blast
  obtain p3 oc3 where q: "paint_key ?env 108 p1 oc1 = Some (p3, oc3)" "canvas p3 = (pn_pix p, (0, 0), pn_fg p1, pn_drawing p1)"
    using r(4) paint_goes_on [OF o(2) r(1)] by blast
  have "parent_name bit_file = None" by (simp add: parent_name_def bit_file_def)
  then have "files empty_sb (drive_sec (disk_of oc1)) = [bit_file \<mapsto> (FS_FILE, bit_header @ replicate 1920 0)]"
    unfolding r(3) px by (simp add: spec_write.simps files_blank)
  moreover have "pn_fg p1 = 7" "\<not> pn_drawing p1" using r(2) o(3) by (simp_all add: canvas_def)
  ultimately show ?thesis using o(1) r(1) q px by auto
qed

end
