(* ===== verification/Seeder.thy ===== *)
theory Seeder
  imports FsSpec
begin

text \<open>
tools/fs_seeder.c: the host program that builds the disk image. The host's files are a function from names to contents;
  the offsets, lengths and sector numbers are ints and longs of the host, unbounded here; the properties bound them by
  the disk.
\<close>

section \<open>The disk image\<close>

text \<open>The stream on \<open>bin/disk.img\<close>: the bytes of the file and the position. What the seeder writes is taken to succeed,
  as it does not look at the results.\<close>

record image =
  im_bytes :: "nat \<Rightarrow> byte"
  im_pos :: nat

definition img_seek :: "nat \<Rightarrow> image \<Rightarrow> image" where
  "img_seek n f = f\<lparr>im_pos := n\<rparr>"

definition img_write :: "byte list \<Rightarrow> image \<Rightarrow> image" where
  "img_write bs f = f\<lparr>im_bytes := (\<lambda>x. if im_pos f \<le> x \<and> x < im_pos f + length bs then bs ! (x - im_pos f) else im_bytes f x),
     im_pos := im_pos f + length bs\<rparr>"

definition FS_DIR_LBA :: nat where "FS_DIR_LBA = 200"
definition FS_DIR_SECTORS :: nat where "FS_DIR_SECTORS = 64"
definition FS_DATA_LBA :: nat where "FS_DATA_LBA = 300"

text \<open>The static superblock after its four assignments, as written.\<close>

definition seed_super :: "byte list" where
  "seed_super = FS_MAGIC @ [0, 0] @ bytes32 (of_nat FS_DIR_LBA) @ bytes32 (of_nat FS_DIR_SECTORS) @ bytes32 (of_nat FS_DATA_LBA)"

definition no_entry :: file_entry where
  "no_entry = \<lparr>fe_name = replicate 23 0, fe_type = 0, fe_lba = 0, fe_size = 0\<rparr>"

section \<open>The built-in files\<close>

definition welcome_text :: "byte list" where
  "welcome_text =
     asc ''Welcome to LunariaOS!'' @ [10]"

definition hello_text :: "byte list" where
  "hello_text =
     asc ''Hello from filesystem!'' @ [10]"

definition demo_text :: "byte list" where
  "demo_text =
     asc ''/* tcc demo: print fib(10) when a shell argument starts with '' @ [39] @ asc ''f'' @ [39] @ asc '','' @ [10] @
     asc ''   otherwise print the argument count main() received. print() and'' @ [10] @
     asc ''   print_dec() exist in both the compile-and-run symbol table and the'' @ [10] @
     asc ''   flat -o image runtime, so the same file works either way. */'' @ [10] @
     asc ''int magic(int n) { return n < 2 ? n : magic(n - 1) + magic(n - 2); }'' @ [10] @
     asc ''int main(int argc, char **argv)'' @ [10] @
     asc ''{'' @ [10] @
     asc ''    if (argc >= 2 && argv[1][0] == '' @ [39] @ asc ''f'' @ [39] @ asc '')'' @ [10] @
     asc ''    {'' @ [10] @
     asc ''        int r = magic(10);'' @ [10] @
     asc ''        print('' @ [34] @ asc ''demo: fib(10)='' @ [34] @ asc '');'' @ [10] @
     asc ''        print_dec(r);'' @ [10] @
     asc ''        print('' @ [34, 92] @ asc ''n'' @ [34] @ asc '');'' @ [10] @
     asc ''        return r;'' @ [10] @
     asc ''    }'' @ [10] @
     asc ''    print('' @ [34] @ asc ''demo: argc='' @ [34] @ asc '');'' @ [10] @
     asc ''    print_dec(argc);'' @ [10] @
     asc ''    print('' @ [34, 92] @ asc ''n'' @ [34] @ asc '');'' @ [10] @
     asc ''    return argc;'' @ [10] @
     asc ''}'' @ [10]"

definition print_text :: "byte list" where
  "print_text =
     asc ''/* flat-libc demo: printf() links into an -o image because tcc pulls'' @ [10] @
     asc ''   libc.a (seeded on the disk) into the image. print() works'' @ [10] @
     asc ''   everywhere; printf()/malloc()/fopen() are flat-binary extras. */'' @ [10] @
     asc ''int main(int argc, char **argv)'' @ [10] @
     asc ''{'' @ [10] @
     asc ''    printf('' @ [34] @ asc ''print.c: argc=%d'' @ [92] @ asc ''n'' @ [34] @ asc '', argc);'' @ [10] @
     asc ''    if (argc >= 2)'' @ [10] @
     asc ''        printf('' @ [34] @ asc ''print.c: argv[1]=%s'' @ [92] @ asc ''n'' @ [34] @ asc '', argv[1]);'' @ [10] @
     asc ''    printf('' @ [34] @ asc ''print.c: u64=%llu'' @ [92] @ asc ''n'' @ [34] @ asc '', 1234567890123ull);'' @ [10] @
     asc ''    return argc;'' @ [10] @
     asc ''}'' @ [10]"

text \<open>A text written whole at the next free sector, and its entry; the name was set before.\<close>

definition seed_text :: "byte list \<Rightarrow> file_entry \<Rightarrow> nat \<times> image \<Rightarrow> file_entry \<times> nat \<times> image" where
  "seed_text txt e st = (case st of (lba, f) \<Rightarrow>
     (e\<lparr>fe_lba := of_nat lba, fe_size := of_nat (length txt)\<rparr>, lba + (length txt + 511) div 512, img_write txt (img_seek (lba * 512) f)))"

definition named_entry :: "byte list \<Rightarrow> file_entry option" where
  "named_entry s = do { nm \<leftarrow> strcpy (fe_name no_entry) s; Some (no_entry\<lparr>fe_name := nm\<rparr>) }"

section \<open>The files given as arguments\<close>

text \<open>The name in the file system: the last part of the path, and for a program without \<open>prog_\<close> and the extension.\<close>

definition seed_name :: "byte list \<Rightarrow> byte list option" where
  "seed_name arg = do {
     r \<leftarrow> strrchr arg 47;
     let base = (case r of Some i \<Rightarrow> drop (Suc i) arg | None \<Rightarrow> arg);
     name \<leftarrow> strncpy (replicate 23 0) base 22;
     c \<leftarrow> strncmp name (lit ''prog_'') 5;
     if c = 0 then do {
       n \<leftarrow> strlen (drop 5 name);
       name \<leftarrow> memmove name 0 5 (n + 1);
       d \<leftarrow> strrchr name 46;
       (case d of Some i \<Rightarrow> store name i 0 | None \<Rightarrow> Some name) }
     else Some name }"

text \<open>The contents, a zero-filled sector at a time.\<close>

function seed_sectors :: "byte list \<Rightarrow> nat \<times> image \<Rightarrow> nat \<times> image" where
  "seed_sectors bs st =
     (if bs = [] then st
      else (case st of (lba, f) \<Rightarrow>
        seed_sectors (drop 512 bs) (lba + 1, img_write (take 512 bs @ replicate (512 - length (take 512 bs)) 0) f)))"
  by pat_completeness auto
termination by (relation "measure (\<lambda>(bs, st). length bs)") auto

declare seed_sectors.simps [simp del]

text \<open>The loop over the arguments. \<open>host\<close> gives what \<open>fopen\<close> opens for reading; the strings of argv are terminated.\<close>

fun seed_args :: "(byte list \<Rightarrow> byte list option) \<Rightarrow> byte list list \<Rightarrow> file_entry list \<times> nat \<times> nat \<times> image \<Rightarrow>
    (file_entry list \<times> nat \<times> nat \<times> image) option" where
  "seed_args host [] st = Some st"
| "seed_args host (arg # args) (es, n, lba, f) =
     (if n \<ge> FS_DIR_SECTORS * FS_ENTRIES_PER_SECTOR then Some (es, n, lba, f)
      else case host (cstr arg) of
        None \<Rightarrow> seed_args host args (es, n, lba, f)
      | Some bs \<Rightarrow> do {
          name \<leftarrow> seed_name arg;
          nm \<leftarrow> strcpy (fe_name (es ! n)) name;
          let es = es[n := \<lparr>fe_name = nm, fe_type = FS_FILE, fe_lba = of_nat lba, fe_size = of_nat (length bs)\<rparr>];
          let (lba, f) = seed_sectors bs (lba, img_seek (lba * 512) f);
          seed_args host args (es, n + 1, lba, f) })"

text \<open>main on the image that \<open>fopen\<close> opened.\<close>

definition seeder :: "(byte list \<Rightarrow> byte list option) \<Rightarrow> byte list list \<Rightarrow> image \<Rightarrow> image option" where
  "seeder host args f = do {
     e1 \<leftarrow> named_entry (lit ''readme.txt'');
     e2 \<leftarrow> named_entry (lit ''hello.txt'');
     e3 \<leftarrow> named_entry (lit ''demo.c'');
     e4 \<leftarrow> named_entry (lit ''print.c'');
     let f = img_write (replicate (FS_DIR_SECTORS * 512) 0) (img_seek (FS_DIR_LBA * 512) f);
     let f = img_write seed_super (img_seek (unat FS_SUPER_LBA * 512) f);
     let (e1, lba, f) = seed_text welcome_text e1 (FS_DATA_LBA, f);
     let (e2, lba, f) = seed_text hello_text e2 (lba, f);
     let (e3, lba, f) = seed_text demo_text e3 (lba, f);
     let (e4, lba, f) = seed_text print_text e4 (lba, f);
     (es, n, lba, f) \<leftarrow> seed_args host args ((replicate (FS_DIR_SECTORS * FS_ENTRIES_PER_SECTOR) no_entry)[2 := e3, 3 := e4], 4, lba, f);
     let f = img_write (entry_bytes e1) (img_seek (FS_DIR_LBA * 512) f);
     let f = img_write (entry_bytes e2) f;
     Some (img_write (concat (map entry_bytes (take (n - 2) (drop 2 es)))) f) }"

end
