(* ===== verification/SeederSpec.thy ===== *)
theory SeederSpec
  imports Seeder FsRefine
begin

text \<open>
The correctness of tools/fs_seeder.c: the image it builds is a disk that the kernel mounts, with a consistent file system
  whose files are the seeded ones.
\<close>

section \<open>The names\<close>

definition base_of :: "byte list \<Rightarrow> byte list" where
  "base_of s = (case last_index 0 None s 47 of Some i \<Rightarrow> drop (Suc i) s | None \<Rightarrow> s)"

definition without_extension :: "byte list \<Rightarrow> byte list" where
  "without_extension p = (case last_index 0 None p 46 of Some i \<Rightarrow> take i p | None \<Rightarrow> p)"

definition seeded_name :: "byte list \<Rightarrow> byte list" where
  "seeded_name s = (let b = take 22 (base_of s) in if take 5 b = asc ''prog_'' then without_extension (drop 5 b) else b)"

lemma nul_free_drop [simp]: "nul_free s \<Longrightarrow> nul_free (drop n s)"
  by (induction s arbitrary: n) (auto simp: drop_Cons split: nat.splits)

lemma nul_free_take [simp]: "nul_free s \<Longrightarrow> nul_free (take n s)"
  by (induction s arbitrary: n) (auto simp: take_Cons split: nat.splits)

lemma index_in_name: "last_index 0 None s c = Some i \<Longrightarrow> i < length s"
  by (simp add: last_index_eq)

lemma strncmp_prefix:
  "nul_free a \<Longrightarrow> nul_free b \<Longrightarrow> \<exists>c. strncmp (a @ 0 # r) (b @ r') (length b) = Some c \<and> (c = 0 \<longleftrightarrow> take (length b) a = b)"
proof (induction b arbitrary: a)
  case (Cons y b)
  then show ?case by (cases a) (auto simp: uint_0_iff)
qed simp

lemma seed_base:
  assumes "nul_free s"
  shows "(do { r \<leftarrow> strrchr (s @ 0 # t) 47; Some (case r of Some i \<Rightarrow> drop (Suc i) (s @ 0 # t) | None \<Rightarrow> s @ 0 # t) }) = Some (base_of s @ 0 # t)"
  using strrchr_from_eq [OF assms, of 47 0 None t] index_in_name [of s 47]
  by (auto simp: strrchr_def base_of_def split: option.splits)

lemma nul_free_base: "nul_free s \<Longrightarrow> nul_free (base_of s)"
  by (simp add: base_of_def split: option.splits)

lemma seed_name_eq:
  assumes "nul_free s"
  obtains r where "seed_name (s @ 0 # t) = Some (seeded_name s @ 0 # r)" "length (seeded_name s @ 0 # r) = 23" "nul_free (seeded_name s)"
proof -
  let ?b = "base_of s"
  define b where "b = take 22 ?b"
  define z where "z = replicate (22 - length b) (0 :: byte)"
  have nf: "nul_free b" "length b \<le> 22" using nul_free_base [OF assms] by (simp_all add: b_def)
  obtain q where q: "strrchr (s @ 0 # t) 47 = Some q" "(case q of Some i \<Rightarrow> drop (Suc i) (s @ 0 # t) | None \<Rightarrow> s @ 0 # t) = ?b @ 0 # t"
    using seed_base [OF assms, of t] by (auto split: bind_splits)
  have n: "strncpy (replicate 23 0) (?b @ 0 # t) 22 = Some (b @ 0 # z)"
  proof -
    have "22 - length ?b = 22 - length b" by (simp add: b_def)
    then have "take 22 ?b @ replicate (22 - length ?b) 0 @ drop 22 (replicate 23 0) = b @ z @ [0]" by (simp add: b_def [symmetric] z_def)
    moreover have "z @ [0] = 0 # z" by (simp add: z_def replicate_append_same)
    ultimately show ?thesis using strncpy_terminated [OF nul_free_base [OF assms], of 22 "replicate 23 0" t] by simp
  qed
  have p: "nul_free (asc ''prog_'')" "length (asc ''prog_'') = 5" by simp_all
  obtain c where c: "strncmp (b @ 0 # z) (lit ''prog_'') 5 = Some c" "c = 0 \<longleftrightarrow> take 5 b = asc ''prog_''"
    using strncmp_prefix [OF nf(1) p(1), of z "[0]", unfolded p(2)] unfolding lit_def by blast
  show thesis
  proof (cases "take 5 b = asc ''prog_''")
    case False
    then have e: "seeded_name s = b" by (simp add: seeded_name_def b_def Let_def)
    have "seed_name (s @ 0 # t) = Some (b @ 0 # z)" using q n c False by (simp add: seed_name_def Let_def)
    then show thesis using that [of z] e nf by (simp add: z_def)
  next
    case True
    define d where "d = drop 5 b"
    have l: "5 \<le> length b" using arg_cong [OF True, of length] by simp
    have d: "nul_free d" "length d + 5 = length b" using nf l by (simp_all add: d_def)
    have dr: "drop 5 (b @ 0 # z) = d @ 0 # z" using l by (simp add: d_def)
    have len: "length (b @ 0 # z) = 23" using nf(2) by (simp add: z_def)
    have "take (length d + 1) (d @ 0 # z) = d @ [0]" by simp
    then have m: "memmove (b @ 0 # z) 0 5 (length d + 1) = Some (blit (b @ 0 # z) 0 (d @ [0]))"
      using memmove_eq [of 0 "length d + 1" "b @ 0 # z" 5] len d(2) nf(2) dr by simp
    define w where "w = drop (length d + 1) (b @ 0 # z)"
    have w: "blit (b @ 0 # z) 0 (d @ [0]) = d @ 0 # w" "length (d @ 0 # w) = 23" using len d(2) nf(2) by (simp_all add: blit_def w_def)
    have x: "strrchr (d @ 0 # w) 46 = Some (last_index 0 None d 46)" using strrchr_from_eq [OF d(1), of 46 0 None w] by (simp add: strrchr_def)
    have run: "seed_name (s @ 0 # t) = (case last_index 0 None d 46 of Some i \<Rightarrow> store (d @ 0 # w) i 0 | None \<Rightarrow> Some (d @ 0 # w))"
      using q n c True dr d(1) m w(1) x by (simp add: seed_name_def Let_def)
    have e: "seeded_name s = without_extension d" using True by (simp add: seeded_name_def b_def d_def Let_def)
    show thesis
    proof (cases "last_index 0 None d 46")
      case None
      then show thesis using that [of w] run e w(2) d(1) by (simp add: without_extension_def)
    next
      case (Some i)
      have i: "i < length d" by (rule index_in_name [OF Some])
      then have "(d @ 0 # w)[i := 0] = take i d @ 0 # drop (Suc i) (d @ 0 # w)" by (simp add: upd_conv_take_nth_drop)
      then have "seed_name (s @ 0 # t) = Some (take i d @ 0 # drop (Suc i) (d @ 0 # w))" using run Some i by (simp add: store_def)
      moreover have "seeded_name s = take i d" using e Some by (simp add: without_extension_def)
      ultimately show thesis using that i w(2) d(1) by simp
    qed
  qed
qed

section \<open>Files in the image\<close>

definition secs :: "byte list \<Rightarrow> nat" where
  "secs bs = (length bs + 511) div 512"

lemma secs_enough: "length bs \<le> secs bs * 512"
proof -
  have "length bs < secs bs * 512 + 512 - 511 + 0 \<or> length bs \<le> secs bs * 512"
    using div_mult_mod_eq [of "length bs + 511" 512] mod_less_divisor [of 512 "length bs + 511"] unfolding secs_def by linarith
  then show ?thesis by linarith
qed

text \<open>Entries for files, in order, with their contents one behind the other from one sector to another.\<close>

fun placed :: "(nat \<Rightarrow> byte) \<Rightarrow> nat \<Rightarrow> file_entry list \<Rightarrow> (byte list \<times> byte list) list \<Rightarrow> nat \<Rightarrow> bool" where
  "placed b lo [] [] hi \<longleftrightarrow> lo = hi"
| "placed b lo (e # es) ((nm, bs) # fl) hi \<longleftrightarrow>
     name_ok e \<and> entry_name e = nm \<and> fe_type e = FS_FILE \<and> fe_lba e = of_nat lo \<and> fe_size e = of_nat (length bs) \<and>
     (\<forall>i<length bs. b (lo * 512 + i) = bs ! i) \<and> placed b (lo + secs bs) es fl hi"
| "placed b lo _ _ hi \<longleftrightarrow> False"

lemma placed_length: "placed b lo es fl hi \<Longrightarrow> length es = length fl"
  by (induction b lo es fl hi rule: placed.induct) auto

lemma placed_end: "placed b lo es fl hi \<Longrightarrow> hi = lo + sum_list (map (\<lambda>p. secs (snd p)) fl)"
  by (induction b lo es fl hi rule: placed.induct) auto

lemma placed_snoc:
  "placed b lo es fl hi \<Longrightarrow> name_ok e \<Longrightarrow> entry_name e = nm \<Longrightarrow> fe_type e = FS_FILE \<Longrightarrow> fe_lba e = of_nat hi \<Longrightarrow>
    fe_size e = of_nat (length bs) \<Longrightarrow> \<forall>i<length bs. b (hi * 512 + i) = bs ! i \<Longrightarrow> placed b lo (es @ [e]) (fl @ [(nm, bs)]) (hi + secs bs)"
  by (induction b lo es fl hi rule: placed.induct) auto

lemma placed_cong:
  "placed b lo es fl hi \<Longrightarrow> \<forall>x. lo * 512 \<le> x \<and> x < hi * 512 \<longrightarrow> b' x = b x \<Longrightarrow> placed b' lo es fl hi"
proof (induction b lo es fl hi rule: placed.induct)
  case (2 b lo e es nm bs fl hi)
  have le: "lo + secs bs \<le> hi" using placed_end [of b "lo + secs bs" es fl hi] 2(2) by simp
  have "b' (lo * 512 + i) = bs ! i" if "i < length bs" for i
  proof -
    have "lo * 512 + i < hi * 512" using that secs_enough [of bs] mult_le_mono1 [OF le, of 512] by (simp add: add_mult_distrib)
    then show ?thesis using 2(2,3) that by simp
  qed
  moreover have "placed b' (lo + secs bs) es fl hi" using 2 by simp
  ultimately show ?case using 2(2) by simp
qed auto

lemma placed_nth:
  "placed b lo es fl hi \<Longrightarrow> k < length es \<Longrightarrow> \<exists>l. lo \<le> l \<and> l + secs (snd (fl ! k)) \<le> hi \<and> name_ok (es ! k) \<and> entry_name (es ! k) = fst (fl ! k) \<and>
    fe_type (es ! k) = FS_FILE \<and> fe_lba (es ! k) = of_nat l \<and> fe_size (es ! k) = of_nat (length (snd (fl ! k))) \<and>
    (\<forall>i<length (snd (fl ! k)). b (l * 512 + i) = snd (fl ! k) ! i) \<and>
    (\<forall>j<k. \<exists>m. fe_lba (es ! j) = of_nat m \<and> m + secs (snd (fl ! j)) \<le> l)"
proof (induction b lo es fl hi arbitrary: k rule: placed.induct)
  case (2 b lo e es nm bs fl hi)
  have le: "lo + secs bs \<le> hi" using placed_end [of b "lo + secs bs" es fl hi] 2(2) by simp
  show ?case
  proof (cases k)
    case 0
    then show ?thesis using 2(2) le by (intro exI [of _ lo]) auto
  next
    case (Suc k')
    have "placed b (lo + secs bs) es fl hi" "k' < length es" using 2(2,3) Suc by simp_all
    from 2(1) [OF this] obtain l where l: "lo + secs bs \<le> l" "l + secs (snd (fl ! k')) \<le> hi" "name_ok (es ! k')" "entry_name (es ! k') = fst (fl ! k')"
      "fe_type (es ! k') = FS_FILE" "fe_lba (es ! k') = of_nat l" "fe_size (es ! k') = of_nat (length (snd (fl ! k')))"
      "\<forall>i<length (snd (fl ! k')). b (l * 512 + i) = snd (fl ! k') ! i"
      "\<forall>j<k'. \<exists>m. fe_lba (es ! j) = of_nat m \<and> m + secs (snd (fl ! j)) \<le> l" by blast
    have "\<exists>m. fe_lba ((e # es) ! j) = of_nat m \<and> m + secs (snd (((nm, bs) # fl) ! j)) \<le> l" if "j < k" for j
    proof (cases j)
      case 0
      then show ?thesis using 2(2) l(1) by auto
    next
      case (Suc j')
      then show ?thesis using l(9) that \<open>k = Suc k'\<close> by simp
    qed
    then show ?thesis using l Suc by (intro exI [of _ l]) simp
  qed
qed auto

section \<open>Writing them\<close>

lemma img_write_simps [simp]:
  "im_pos (img_write bs f) = im_pos f + length bs" "im_pos (img_seek n f) = n" "im_bytes (img_seek n f) = im_bytes f"
  "x < im_pos f \<Longrightarrow> im_bytes (img_write bs f) x = im_bytes f x"
  "i < length bs \<Longrightarrow> im_bytes (img_write bs f) (im_pos f + i) = bs ! i"
  by (simp_all add: img_write_def img_seek_def)

lemma seed_sectors_run:
  assumes "im_pos f = lba * 512"
  shows "\<exists>f'. seed_sectors bs (lba, f) = (lba + secs bs, f') \<and> (\<forall>i<length bs. im_bytes f' (lba * 512 + i) = bs ! i) \<and>
    (\<forall>x<lba * 512. im_bytes f' x = im_bytes f x)"
  using assms
proof (induction "length bs" arbitrary: bs lba f rule: less_induct)
  case less
  show ?case
  proof (cases "bs = []")
    case True
    then show ?thesis by (simp add: seed_sectors.simps secs_def)
  next
    case False
    let ?b = "take 512 bs @ replicate (512 - length (take 512 bs)) 0"
    let ?f = "img_write ?b f"
    have l: "length ?b = 512" by simp
    have p: "im_pos ?f = (lba + 1) * 512" unfolding img_write_simps(1) l less.prems by simp
    have "length (drop 512 bs) < length bs" using False by simp
    from less.hyps [OF this p] obtain f' where f: "seed_sectors (drop 512 bs) (lba + 1, ?f) = (lba + 1 + secs (drop 512 bs), f')"
      "\<forall>i<length (drop 512 bs). im_bytes f' ((lba + 1) * 512 + i) = drop 512 bs ! i" "\<forall>x<(lba + 1) * 512. im_bytes f' x = im_bytes ?f x" by blast
    have s: "secs bs = Suc (secs (drop 512 bs))"
    proof (cases "length bs \<le> 512")
      case True
      then show ?thesis using False by (simp add: secs_def div_nat_eqI Suc_le_eq)
    next
      case False
      then have "length bs + 511 = (length (drop 512 bs) + 511) + 512" by simp
      then show ?thesis unfolding secs_def by (metis div_add_self2 Suc_eq_plus1 zero_neq_numeral)
    qed
    have "seed_sectors bs (lba, f) = (lba + secs bs, f')" using False f(1) s by (subst seed_sectors.simps) simp
    moreover have "im_bytes f' (lba * 512 + i) = bs ! i" if "i < length bs" for i
    proof (cases "i < 512")
      case True
      then have "im_bytes f' (lba * 512 + i) = im_bytes ?f (im_pos f + i)" using f(3) less.prems by simp
      also have "\<dots> = ?b ! i" by (rule img_write_simps(5)) (use True in simp)
      finally show ?thesis using True that by (simp add: nth_append)
    next
      case False
      then have "drop 512 bs ! (i - 512) = bs ! i" "lba * 512 + i = (lba + 1) * 512 + (i - 512)" using that by simp_all
      then show ?thesis using f(2) [rule_format, of "i - 512"] that False by (metis length_drop diff_less_mono not_less)
    qed
    moreover have "im_bytes f' x = im_bytes f x" if "x < lba * 512" for x using f(3) that less.prems by simp
    ultimately show ?thesis by blast
  qed
qed

text \<open>The files the arguments name, as far as they can be opened.\<close>

fun host_files :: "(byte list \<Rightarrow> byte list option) \<Rightarrow> byte list list \<Rightarrow> (byte list \<times> byte list) list" where
  "host_files host [] = []"
| "host_files host (arg # args) =
     (case host (cstr arg) of None \<Rightarrow> host_files host args | Some bs \<Rightarrow> (seeded_name (cstr arg), bs) # host_files host args)"

text \<open>The array of entries in use, with two for the first two files, and the state of the loop.\<close>

definition used :: "file_entry list \<Rightarrow> file_entry list \<Rightarrow> nat \<Rightarrow> file_entry list" where
  "used es2 es n = es2 @ take (n - 2) (drop 2 es)"

definition seeding :: "file_entry list \<Rightarrow> (nat \<Rightarrow> byte) \<Rightarrow> (byte list \<times> byte list) list \<Rightarrow> file_entry list \<times> nat \<times> nat \<times> image \<Rightarrow> bool" where
  "seeding es2 low fl st \<longleftrightarrow> (case st of (es, n, lba, f) \<Rightarrow>
     length es = 1024 \<and> 2 \<le> n \<and> n \<le> 1024 \<and> length es2 = 2 \<and> (\<forall>k. n \<le> k \<and> k < 1024 \<longrightarrow> es ! k = no_entry) \<and>
     placed (im_bytes f) 300 (used es2 es n) fl lba \<and> (\<forall>x<300 * 512. im_bytes f x = low x))"

lemma seed_entry:
  assumes "nul_free s" "length s < 23"
  obtains nm where "strcpy (fe_name no_entry) (s @ 0 # r) = Some nm" "length nm = 23" "0 \<in> set nm" "cstr nm = s"
  using assms strcpy_terminated [OF assms(1), of "fe_name no_entry" r] by (auto simp: no_entry_def)

lemma used_snoc:
  assumes "length es = 1024" "2 \<le> n" "n < 1024"
  shows "used es2 (es[n := e]) (n + 1) = used es2 es n @ [e]"
proof -
  have "drop 2 (es[n := e]) = (drop 2 es)[n - 2 := e]" using assms(2) by (rule drop_update_swap)
  moreover have "n + 1 - 2 = Suc (n - 2)" using assms(2) by simp
  ultimately show ?thesis using assms by (simp add: used_def take_Suc_conv_app_nth)
qed

lemma seeding_step:
  assumes "seeding es2 low fl (es, n, lba, f)" "n < 1024" "nul_free s" "host s = Some bs"
  obtains es' f' where "seed_args host ((s @ 0 # r) # args) (es, n, lba, f) = seed_args host args (es', n + 1, lba + secs bs, f')"
    "seeding es2 low (fl @ [(seeded_name s, bs)]) (es', n + 1, lba + secs bs, f')"
proof -
  have st: "length es = 1024" "2 \<le> n" "length es2 = 2" "\<forall>k. n \<le> k \<and> k < 1024 \<longrightarrow> es ! k = no_entry"
    "placed (im_bytes f) 300 (used es2 es n) fl lba" "\<forall>x<300 * 512. im_bytes f x = low x" using assms(1) by (simp_all add: seeding_def)
  have zero: "es ! n = no_entry" using st(4) assms(2) by blast
  obtain q where q: "seed_name (s @ 0 # r) = Some (seeded_name s @ 0 # q)" "length (seeded_name s @ 0 # q) = 23" "nul_free (seeded_name s)"
    by (rule seed_name_eq [OF assms(3), of r])
  have short: "length (seeded_name s) < 23" using q(2) by simp
  obtain nm where nm: "strcpy (fe_name no_entry) (seeded_name s @ 0 # q) = Some nm" "length nm = 23" "0 \<in> set nm" "cstr nm = seeded_name s"
    by (rule seed_entry [OF q(3) short])
  let ?e = "\<lparr>fe_name = nm, fe_type = FS_FILE, fe_lba = of_nat lba, fe_size = of_nat (length bs)\<rparr>"
  have "im_pos (img_seek (lba * 512) f) = lba * 512" by simp
  from seed_sectors_run [OF this, of bs] obtain f' where f: "seed_sectors bs (lba, img_seek (lba * 512) f) = (lba + secs bs, f')"
    "\<forall>i<length bs. im_bytes f' (lba * 512 + i) = bs ! i" "\<forall>x<lba * 512. im_bytes f' x = im_bytes f x" by auto
  have lo: "300 \<le> lba" using placed_end [OF st(5)] by simp
  have run: "seed_args host ((s @ 0 # r) # args) (es, n, lba, f) = seed_args host args (es[n := ?e], n + 1, lba + secs bs, f')"
    using assms(2-4) q(1) zero nm(1) f(1) by (simp add: FS_DIR_SECTORS_def FS_ENTRIES_PER_SECTOR_def Let_def)
  have "placed (im_bytes f') 300 (used es2 es n) fl lba" by (rule placed_cong [OF st(5)]) (use f(3) in simp)
  moreover have "used es2 (es[n := ?e]) (n + 1) = used es2 es n @ [?e]"
    by (rule used_snoc [OF st(1,2) assms(2)])
  ultimately have p: "placed (im_bytes f') 300 (used es2 (es[n := ?e]) (n + 1)) (fl @ [(seeded_name s, bs)]) (lba + secs bs)"
    using f(2) nm by (simp add: placed_snoc name_ok_def entry_name_def)
  have "im_bytes f' x = low x" if "x < 300 * 512" for x using that lo f(3) st(6) by simp
  then have "seeding es2 low (fl @ [(seeded_name s, bs)]) (es[n := ?e], n + 1, lba + secs bs, f')"
    using st(1-4) p assms(2) unfolding seeding_def by simp
  with run show thesis by (rule that)
qed

lemma seed_args_run:
  "seeding es2 low fl (es, n, lba, f) \<Longrightarrow> \<forall>a\<in>set args. 0 \<in> set a \<Longrightarrow>
    \<exists>es' n' lba' f'. seed_args host args (es, n, lba, f) = Some (es', n', lba', f') \<and>
      seeding es2 low (fl @ take (1024 - n) (host_files host args)) (es', n', lba', f')"
proof (induction args arbitrary: fl es n lba f)
  case Nil
  then show ?case by auto
next
  case (Cons a args)
  have a: "0 \<in> set a" "\<forall>a\<in>set args. 0 \<in> set a" using Cons.prems(2) by simp_all
  obtain r where r: "a = cstr a @ 0 # r" using terminated [OF a(1)] by blast
  show ?case
  proof (cases "n < 1024")
    case False
    then have n: "n = 1024" using Cons.prems(1) by (simp add: seeding_def)
    then show ?thesis using Cons.prems(1) by (simp add: FS_DIR_SECTORS_def FS_ENTRIES_PER_SECTOR_def)
  next
    case True
    show ?thesis
    proof (cases "host (cstr a)")
      case None
      then show ?thesis using Cons.IH [OF Cons.prems(1) a(2)] True by (simp add: FS_DIR_SECTORS_def FS_ENTRIES_PER_SECTOR_def)
    next
      case (Some bs)
      have nf: "nul_free (cstr a)" by simp
      obtain es' f' where s: "seed_args host ((cstr a @ 0 # r) # args) (es, n, lba, f) = seed_args host args (es', n + 1, lba + secs bs, f')"
        "seeding es2 low (fl @ [(seeded_name (cstr a), bs)]) (es', n + 1, lba + secs bs, f')"
        by (rule seeding_step [where s = "cstr a" and host = host and args = args and r = r, OF Cons.prems(1) True nf Some])
      have "1024 - n = Suc (1024 - (n + 1))" using True by simp
      then show ?thesis using Cons.IH [OF s(2) a(2)] s(1) Some by (simp flip: r)
    qed
  qed
qed

section \<open>The built-in files\<close>

definition seed_files :: "(byte list \<times> byte list) list" where
  "seed_files = [(asc ''readme.txt'', welcome_text), (asc ''hello.txt'', hello_text), (asc ''demo.c'', demo_text), (asc ''print.c'', print_text)]"

definition seeded_files :: "(byte list \<Rightarrow> byte list option) \<Rightarrow> byte list list \<Rightarrow> (byte list \<times> byte list) list" where
  "seeded_files host args = seed_files @ take 1020 (host_files host args)"

lemma named_entry_eq:
  assumes "nul_free (asc s)" "length (asc s) < 23"
  obtains nm where "named_entry (lit s) = Some (no_entry\<lparr>fe_name := nm\<rparr>)" "length nm = 23" "0 \<in> set nm" "cstr nm = asc s"
proof -
  obtain nm where "strcpy (fe_name no_entry) (asc s @ 0 # []) = Some nm" "length nm = 23" "0 \<in> set nm" "cstr nm = asc s"
    by (rule seed_entry [OF assms])
  then show thesis using that by (simp add: named_entry_def lit_def)
qed

lemma seed_text_run:
  assumes "placed (im_bytes f) 300 es fl lba" "e = no_entry\<lparr>fe_name := nm\<rparr>" "length nm = 23" "0 \<in> set nm"
  obtains e' f' where "seed_text txt e (lba, f) = (e', lba + secs txt, f')" "placed (im_bytes f') 300 (es @ [e']) (fl @ [(cstr nm, txt)]) (lba + secs txt)"
    "\<forall>x<300 * 512. im_bytes f' x = im_bytes f x"
proof -
  let ?e = "e\<lparr>fe_lba := of_nat lba, fe_size := of_nat (length txt)\<rparr>" and ?g = "img_seek (lba * 512) f"
  let ?f = "img_write txt ?g"
  have lo: "300 \<le> lba" using placed_end [OF assms(1)] by simp
  have below: "im_bytes ?f x = im_bytes f x" if "x < lba * 512" for x using that by simp
  have whole: "\<forall>i<length txt. im_bytes ?f (lba * 512 + i) = txt ! i"
    using img_write_simps(5) [of _ "txt" ?g] by simp
  have "placed (im_bytes ?f) 300 es fl lba" by (rule placed_cong [OF assms(1)]) (use below in simp)
  then have "placed (im_bytes ?f) 300 (es @ [?e]) (fl @ [(cstr nm, txt)]) (lba + secs txt)"
    using whole assms(2-4) by (intro placed_snoc) (simp_all add: name_ok_def entry_name_def no_entry_def FS_FILE_def)
  moreover have "\<forall>x<300 * 512. im_bytes ?f x = im_bytes f x" using below lo by simp
  moreover have "seed_text txt e (lba, f) = (?e, lba + secs txt, ?f)" by (simp add: seed_text_def secs_def)
  ultimately show thesis by (intro that [of ?e ?f])
qed

text \<open>The directory as it is before and after the entries are written.\<close>

lemma entry_bytes_length: "placed b lo es fl hi \<Longrightarrow> x \<in> set es \<Longrightarrow> length (entry_bytes x) = 32"
proof -
  assume p: "placed b lo es fl hi" and "x \<in> set es"
  then obtain k where "k < length es" "es ! k = x" by (auto simp: in_set_conv_nth)
  then have "name_ok x" using placed_nth [OF p, of k] by auto
  then show ?thesis by (simp add: name_ok_def)
qed

lemma nth_concat_const:
  "\<forall>x\<in>set xs. length (g x) = w \<Longrightarrow> m < length xs \<Longrightarrow> k < w \<Longrightarrow> concat (map g xs) ! (w * m + k) = g (xs ! m) ! k"
proof (induction xs arbitrary: m)
  case (Cons x xs)
  then show ?case by (cases m) (auto simp: nth_append)
qed simp

lemma length_concat_map_const: "\<forall>x\<in>set xs. length (g x) = w \<Longrightarrow> length (concat (map g xs)) = w * length xs"
  by (induction xs) auto

definition fixed_low :: "image \<Rightarrow> nat \<Rightarrow> byte" where
  "fixed_low f x = (if 200 * 512 \<le> x \<and> x < 264 * 512 then 0
     else if 128 * 512 \<le> x \<and> x < 128 * 512 + 20 then seed_super ! (x - 128 * 512) else im_bytes f x)"

lemma seed_super_length [simp]: "length seed_super = 20"
  by (simp add: seed_super_def FS_MAGIC_def)

lemma fixed_low_eq:
  "im_bytes (img_write seed_super (img_seek (128 * 512) (img_write (replicate (64 * 512) 0) (img_seek (200 * 512) f)))) x = fixed_low f x"
proof (cases "102400 \<le> x \<and> x < 135168")
  case True
  then have "x - 102400 < 32768" by linarith
  then have "replicate 32768 (0 :: byte) ! (x - 102400) = 0" by simp
  then show ?thesis using True by (simp add: img_write_def img_seek_def fixed_low_def)
qed (auto simp: img_write_def img_seek_def fixed_low_def)

text \<open>The run up to the directory.\<close>

lemma seeder_run:
  assumes "\<forall>a\<in>set args. 0 \<in> set a"
  obtains f' es lba where "seeder host args f = Some (img_write (concat (map entry_bytes es)) (img_seek (200 * 512) f'))"
    "placed (im_bytes f') 300 es (seeded_files host args) lba" "\<forall>x<300 * 512. im_bytes f' x = fixed_low f x"
proof -
  let ?f = "img_write seed_super (img_seek (128 * 512) (img_write (replicate (64 * 512) 0) (img_seek (200 * 512) f)))"
  have short: "nul_free (asc ''readme.txt'')" "length (asc ''readme.txt'') < 23" "nul_free (asc ''hello.txt'')" "length (asc ''hello.txt'') < 23"
    "nul_free (asc ''demo.c'')" "length (asc ''demo.c'') < 23" "nul_free (asc ''print.c'')" "length (asc ''print.c'') < 23" by simp_all
  obtain n1 where n1: "named_entry (lit ''readme.txt'') = Some (no_entry\<lparr>fe_name := n1\<rparr>)" "length n1 = 23" "0 \<in> set n1" "cstr n1 = asc ''readme.txt''"
    by (rule named_entry_eq [OF short(1,2)])
  obtain n2 where n2: "named_entry (lit ''hello.txt'') = Some (no_entry\<lparr>fe_name := n2\<rparr>)" "length n2 = 23" "0 \<in> set n2" "cstr n2 = asc ''hello.txt''"
    by (rule named_entry_eq [OF short(3,4)])
  obtain n3 where n3: "named_entry (lit ''demo.c'') = Some (no_entry\<lparr>fe_name := n3\<rparr>)" "length n3 = 23" "0 \<in> set n3" "cstr n3 = asc ''demo.c''"
    by (rule named_entry_eq [OF short(5,6)])
  obtain n4 where n4: "named_entry (lit ''print.c'') = Some (no_entry\<lparr>fe_name := n4\<rparr>)" "length n4 = 23" "0 \<in> set n4" "cstr n4 = asc ''print.c''"
    by (rule named_entry_eq [OF short(7,8)])
  have start: "placed (im_bytes ?f) 300 [] [] 300" by simp
  obtain e1 f1 where s1: "seed_text welcome_text (no_entry\<lparr>fe_name := n1\<rparr>) (300, ?f) = (e1, 300 + secs welcome_text, f1)"
    "placed (im_bytes f1) 300 ([] @ [e1]) ([] @ [(cstr n1, welcome_text)]) (300 + secs welcome_text)" "\<forall>x<300 * 512. im_bytes f1 x = im_bytes ?f x"
    by (rule seed_text_run [OF start refl n1(2,3)])
  obtain e2 f2 where s2: "seed_text hello_text (no_entry\<lparr>fe_name := n2\<rparr>) (300 + secs welcome_text, f1) = (e2, 300 + secs welcome_text + secs hello_text, f2)"
    "placed (im_bytes f2) 300 (([] @ [e1]) @ [e2]) (([] @ [(cstr n1, welcome_text)]) @ [(cstr n2, hello_text)]) (300 + secs welcome_text + secs hello_text)"
    "\<forall>x<300 * 512. im_bytes f2 x = im_bytes f1 x" by (rule seed_text_run [OF s1(2) refl n2(2,3)])
  let ?l = "300 + secs welcome_text + secs hello_text"
  obtain e3 f3 where s3: "seed_text demo_text (no_entry\<lparr>fe_name := n3\<rparr>) (?l, f2) = (e3, ?l + secs demo_text, f3)"
    "placed (im_bytes f3) 300 ((([] @ [e1]) @ [e2]) @ [e3]) ((([] @ [(cstr n1, welcome_text)]) @ [(cstr n2, hello_text)]) @ [(cstr n3, demo_text)]) (?l + secs demo_text)"
    "\<forall>x<300 * 512. im_bytes f3 x = im_bytes f2 x" by (rule seed_text_run [OF s2(2) refl n3(2,3)])
  let ?l4 = "?l + secs demo_text + secs print_text"
  obtain e4 f4 where s4: "seed_text print_text (no_entry\<lparr>fe_name := n4\<rparr>) (?l + secs demo_text, f3) = (e4, ?l4, f4)"
    "placed (im_bytes f4) 300 (((([] @ [e1]) @ [e2]) @ [e3]) @ [e4])
      (((([] @ [(cstr n1, welcome_text)]) @ [(cstr n2, hello_text)]) @ [(cstr n3, demo_text)]) @ [(cstr n4, print_text)]) ?l4"
    "\<forall>x<300 * 512. im_bytes f4 x = im_bytes f3 x" by (rule seed_text_run [OF s3(2) refl n4(2,3)])
  let ?es = "(replicate 1024 no_entry)[2 := e3, 3 := e4]"
  have fl: "(((([] @ [(cstr n1, welcome_text)]) @ [(cstr n2, hello_text)]) @ [(cstr n3, demo_text)]) @ [(cstr n4, print_text)]) = seed_files"
    by (simp add: seed_files_def n1(4) n2(4) n3(4) n4(4))
  have r: "replicate 1024 no_entry = no_entry # no_entry # no_entry # no_entry # replicate 1020 no_entry"
    using replicate_add [of 4 1020 no_entry] by (simp add: numeral_eq_Suc)
  have u: "used [e1, e2] ?es 4 = [e1, e2, e3, e4]" unfolding r by (simp add: used_def numeral_eq_Suc)
  have low: "\<forall>x<300 * 512. im_bytes f4 x = fixed_low f x" using s1(3) s2(3) s3(3) s4(3) fixed_low_eq by simp
  have "seeding [e1, e2] (fixed_low f) seed_files (?es, 4, ?l4, f4)"
    using s4(2) low u unfolding fl by (simp add: seeding_def)
  from seed_args_run [OF this assms, of host] obtain es' n' lba' f' where a: "seed_args host args (?es, 4, ?l4, f4) = Some (es', n', lba', f')"
    "seeding [e1, e2] (fixed_low f) (seed_files @ take 1020 (host_files host args)) (es', n', lba', f')" by auto
  have w: "img_write (concat (map entry_bytes (take (n' - 2) (drop 2 es')))) (img_write (entry_bytes e2) (img_write (entry_bytes e1) g)) =
      img_write (concat (map entry_bytes (used [e1, e2] es' n'))) g" for g
    by (rule image.equality) (auto simp: img_write_def used_def nth_append fun_eq_iff)
  have run: "seeder host args f = Some (img_write (concat (map entry_bytes (used [e1, e2] es' n'))) (img_seek (200 * 512) f'))"
    using s1(1) s2(1) s3(1) s4(1) n1(1) n2(1) n3(1) n4(1) a(1) unfolding w [symmetric]
    by (simp add: seeder_def Let_def FS_DIR_SECTORS_def FS_DIR_LBA_def FS_DATA_LBA_def FS_SUPER_LBA_def FS_ENTRIES_PER_SECTOR_def)
  have "placed (im_bytes f') 300 (used [e1, e2] es' n') (seeded_files host args) lba'" "\<forall>x<300 * 512. im_bytes f' x = fixed_low f x"
    using a(2) unfolding seeding_def seeded_files_def by simp_all
  with run show thesis by (rule that)
qed

section \<open>The disk the kernel finds\<close>

text \<open>The sectors of the image, and the superblock in it.\<close>

definition img_sec :: "image \<Rightarrow> u32 \<Rightarrow> byte list" where
  "img_sec f l = map (\<lambda>i. im_bytes f (unat l * 512 + i)) [0..<512]"

definition seed_sb :: superblock where
  "seed_sb = \<lparr>sb_magic = FS_MAGIC @ [0, 0], dir_lba = 200, dir_sectors = 64, data_lba = 300\<rparr>"

lemma img_sec_length [simp]: "length (img_sec f l) = 512"
  by (simp add: img_sec_def)

lemma img_sec_nth: "i < 512 \<Longrightarrow> img_sec f l ! i = im_bytes f (unat l * 512 + i)"
  by (simp add: img_sec_def)

definition seeded_image :: "file_entry list \<Rightarrow> image \<Rightarrow> image" where
  "seeded_image es f = img_write (concat (map entry_bytes es)) (img_seek (200 * 512) f)"

lemma seeded_image_bytes:
  assumes "\<forall>e\<in>set es. length (entry_bytes e) = 32" "length es \<le> 1024" "\<forall>x<300 * 512. im_bytes f x = fixed_low f0 x"
  shows "k < length es \<Longrightarrow> j < 32 \<Longrightarrow> im_bytes (seeded_image es f) (200 * 512 + (32 * k + j)) = entry_bytes (es ! k) ! j"
    and "length es \<le> k \<Longrightarrow> k < 1024 \<Longrightarrow> j < 32 \<Longrightarrow> im_bytes (seeded_image es f) (200 * 512 + (32 * k + j)) = 0"
    and "300 * 512 \<le> x \<Longrightarrow> im_bytes (seeded_image es f) x = im_bytes f x"
    and "j < 20 \<Longrightarrow> im_bytes (seeded_image es f) (128 * 512 + j) = seed_super ! j"
proof -
  have l: "length (concat (map entry_bytes es)) = 32 * length es" by (rule length_concat_map_const [OF assms(1)])
  show "im_bytes (seeded_image es f) (200 * 512 + (32 * k + j)) = entry_bytes (es ! k) ! j" if "k < length es" "j < 32"
  proof -
    have "32 * k + j < 32 * length es" using that by simp
    then show ?thesis using nth_concat_const [OF assms(1) that] l by (simp add: seeded_image_def img_write_def img_seek_def)
  qed
  show "im_bytes (seeded_image es f) (200 * 512 + (32 * k + j)) = 0" if "length es \<le> k" "k < 1024" "j < 32"
  proof -
    have "32 * length es \<le> 32 * k + j" "32 * k + j < 32768" using that by simp_all
    then show ?thesis using assms(3) l by (simp add: seeded_image_def img_write_def img_seek_def fixed_low_def)
  qed
  show "im_bytes (seeded_image es f) x = im_bytes f x" if "300 * 512 \<le> x"
    using that l assms(2) by (simp add: seeded_image_def img_write_def img_seek_def)
  show "im_bytes (seeded_image es f) (128 * 512 + j) = seed_super ! j" if "j < 20"
    using that assms(3) by (simp add: seeded_image_def img_write_def img_seek_def fixed_low_def)
qed

lemma seeded_super:
  assumes "\<forall>j<20. im_bytes f (128 * 512 + j) = seed_super ! j"
  shows "superblock_of (img_sec f 128) = seed_sb" "take 20 (img_sec f 128) = seed_super"
proof -
  show t: "take 20 (img_sec f 128) = seed_super"
  proof (rule nth_equalityI)
    fix i assume "i < length (take 20 (img_sec f 128))"
    then have "i < 20" by simp
    then show "take 20 (img_sec f 128) ! i = seed_super ! i" using assms img_sec_nth [of i f 128] by simp
  qed simp
  define r where "r = drop 20 (img_sec f 128)"
  have s: "img_sec f 128 = seed_super @ r" unfolding t [symmetric] r_def by simp
  have m: "length (FS_MAGIC @ [0, 0]) = 8" by (simp add: FS_MAGIC_def)
  have "le32 (img_sec f 128) 8 = 200"
    using le32_append [OF m, of 200 "bytes32 64 @ bytes32 300 @ r"] by (simp add: s seed_super_def FS_DIR_LBA_def FS_DIR_SECTORS_def FS_DATA_LBA_def)
  moreover have "le32 (img_sec f 128) 12 = 64"
    using le32_append [of "(FS_MAGIC @ [0, 0]) @ bytes32 200" 12 64 "bytes32 300 @ r"] m
    by (simp add: s seed_super_def FS_DIR_LBA_def FS_DIR_SECTORS_def FS_DATA_LBA_def)
  moreover have "le32 (img_sec f 128) 16 = 300"
    using le32_append [of "(FS_MAGIC @ [0, 0]) @ bytes32 200 @ bytes32 64" 16 300 r] m
    by (simp add: s seed_super_def FS_DIR_LBA_def FS_DIR_SECTORS_def FS_DATA_LBA_def)
  moreover have "take 8 (img_sec f 128) = FS_MAGIC @ [0, 0]" using m by (simp add: s seed_super_def)
  ultimately show "superblock_of (img_sec f 128) = seed_sb" by (simp add: superblock_of_def seed_sb_def)
qed

lemma seeded_slot:
  assumes "s < 64" "i < 16"
  shows "(\<forall>j<32. im_bytes f (200 * 512 + (32 * (16 * s + i) + j)) = entry_bytes e ! j) \<Longrightarrow> length (fe_name e) = 23 \<Longrightarrow>
      slot_entry seed_sb (img_sec f) (s, i) = e"
    and "im_bytes f (200 * 512 + (32 * (16 * s + i) + 0)) = 0 \<Longrightarrow> \<not> live seed_sb (img_sec f) (s, i)"
proof -
  have u: "unat (200 + of_nat s :: u32) = 200 + s" using assms(1) by (simp add: unat_add_no_wrap of_nat_unat_small)
  have sec: "img_sec f (200 + of_nat s) ! (32 * i + j) = im_bytes f (200 * 512 + (32 * (16 * s + i) + j))" if "j < 32" for j
  proof -
    have "32 * i + j < 512" using that assms(2) by simp
    moreover have "(200 + s) * 512 + (32 * i + j) = 200 * 512 + (32 * (16 * s + i) + j)" by simp
    ultimately show ?thesis using img_sec_nth [of "32 * i + j" f "200 + of_nat s"] u by metis
  qed
  have len: "32 * i + 32 \<le> length (img_sec f (200 + of_nat s))" using assms(2) by simp
  show "slot_entry seed_sb (img_sec f) (s, i) = e"
    if b: "\<forall>j<32. im_bytes f (200 * 512 + (32 * (16 * s + i) + j)) = entry_bytes e ! j" and n: "length (fe_name e) = 23"
  proof -
    have "take 32 (drop (32 * i) (img_sec f (200 + of_nat s))) = take 32 (drop (32 * 0) (entry_bytes e))"
      by (rule nth_equalityI) (use n b sec len in simp_all)
    from entry_at_cong [OF this len] n entry_at_bytes [OF n] show ?thesis by (simp add: slot_entry_def seed_sb_def)
  qed
  show "\<not> live seed_sb (img_sec f) (s, i)" if "im_bytes f (200 * 512 + (32 * (16 * s + i) + 0)) = 0"
    using that sec [of 0] entry_free_at [of i "img_sec f (200 + of_nat s)"] len by (simp add: live_def slot_entry_def seed_sb_def)
qed

text \<open>A slot of the directory of the image, and the file behind it.\<close>

definition slot_index :: "nat \<times> nat \<Rightarrow> nat" where
  "slot_index p = 16 * fst p + snd p"

lemma slot_index_inj: "p \<in> set (slots seed_sb) \<Longrightarrow> q \<in> set (slots seed_sb) \<Longrightarrow> slot_index p = slot_index q \<Longrightarrow> p = q"
proof -
  assume a: "p \<in> set (slots seed_sb)" "q \<in> set (slots seed_sb)" "slot_index p = slot_index q"
  have "snd p < 16" "snd q < 16" using slot_pair [OF a(1)] slot_pair [OF a(2)] by simp_all
  then have f: "fst p = fst q" using a(3) unfolding slot_index_def by linarith
  then have "snd p = snd q" using a(3) by (simp add: slot_index_def)
  then show "p = q" using f by (rule prod_eqI [rotated])
qed

lemma slot_of_index: "k < 1024 \<Longrightarrow> (k div 16, k mod 16) \<in> set (slots seed_sb) \<and> slot_index (k div 16, k mod 16) = k"
proof -
  assume "k < 1024"
  then have "k div 16 < 64" by linarith
  then show ?thesis by (simp add: seed_sb_def slot_index_def)
qed

definition sized :: "nat \<Rightarrow> (byte list \<times> byte list) list \<Rightarrow> bool" where
  "sized cap fl \<longleftrightarrow> (\<forall>p\<in>set fl. length (snd p) + 511 < 2 ^ 32) \<and> 300 + sum_list (map (\<lambda>p. secs (snd p)) fl) \<le> cap \<and> cap < 2 ^ 32"

lemma size_word:
  assumes "length bs + 511 < 2 ^ 32" "fe_size e = of_nat (length bs)"
  shows "unat (fe_size e) = length bs" "entry_sectors e = secs bs"
proof -
  show u: "unat (fe_size e) = length bs" using assms by (simp add: of_nat_unat_small)
  then show "entry_sectors e = secs bs" using sectors_for_eq [of "fe_size e"] assms(1) by (simp add: entry_sectors_def sectors_for_def secs_def)
qed

text \<open>An image with the directory written.\<close>

definition seeded_ok :: "file_entry list \<Rightarrow> (byte list \<times> byte list) list \<Rightarrow> nat \<Rightarrow> nat \<Rightarrow> image \<Rightarrow> bool" where
  "seeded_ok es fl hi cap f \<longleftrightarrow> placed (im_bytes f) 300 es fl hi \<and> sized cap fl \<and> length fl \<le> 1024 \<and>
     distinct (map fst fl) \<and> [] \<notin> set (map fst fl) \<and>
     (\<forall>k j. k < length es \<longrightarrow> j < 32 \<longrightarrow> im_bytes f (200 * 512 + (32 * k + j)) = entry_bytes (es ! k) ! j) \<and>
     (\<forall>k j. length es \<le> k \<longrightarrow> k < 1024 \<longrightarrow> j < 32 \<longrightarrow> im_bytes f (200 * 512 + (32 * k + j)) = 0)"

lemma seeded_okD:
  assumes "seeded_ok es fl hi cap f"
  shows "placed (im_bytes f) 300 es fl hi" "sized cap fl" "length fl \<le> 1024" "distinct (map fst fl)" "[] \<notin> set (map fst fl)"
    "k < length es \<Longrightarrow> j < 32 \<Longrightarrow> im_bytes f (200 * 512 + (32 * k + j)) = entry_bytes (es ! k) ! j"
    "length es \<le> k \<Longrightarrow> k < 1024 \<Longrightarrow> j < 32 \<Longrightarrow> im_bytes f (200 * 512 + (32 * k + j)) = 0" "length es = length fl"
  using assms placed_length [of "im_bytes f" 300 es fl hi] unfolding seeded_ok_def by blast+

lemma seeded_entry:
  assumes d: "seeded_ok es fl hi cap f" and "k < length es"
  obtains l where "300 \<le> l" "l + secs (snd (fl ! k)) \<le> cap" "name_ok (es ! k)" "entry_name (es ! k) = fst (fl ! k)"
    "fe_type (es ! k) = FS_FILE" "unat (fe_lba (es ! k)) = l" "unat (fe_size (es ! k)) = length (snd (fl ! k))"
    "entry_sectors (es ! k) = secs (snd (fl ! k))" "\<forall>i<length (snd (fl ! k)). im_bytes f (l * 512 + i) = snd (fl ! k) ! i"
    "\<forall>j<k. unat (fe_lba (es ! j)) + secs (snd (fl ! j)) \<le> l"
proof -
  note placed_es = seeded_okD(1) [OF d] and sized_fl = seeded_okD(2) [OF d] and few = seeded_okD(3) [OF d] and names = seeded_okD(4,5) [OF d]
    and entries = seeded_okD(6) [OF d] and rest = seeded_okD(7) [OF d] and len = seeded_okD(8) [OF d]
  have hi: "hi \<le> cap" "cap < 2 ^ 32" using placed_end [OF placed_es] sized_fl by (simp_all add: sized_def)
  obtain l where l: "300 \<le> l" "l + secs (snd (fl ! k)) \<le> hi" "name_ok (es ! k)" "entry_name (es ! k) = fst (fl ! k)"
    "fe_type (es ! k) = FS_FILE" "fe_lba (es ! k) = of_nat l" "fe_size (es ! k) = of_nat (length (snd (fl ! k)))"
    "\<forall>i<length (snd (fl ! k)). im_bytes f (l * 512 + i) = snd (fl ! k) ! i"
    "\<forall>j<k. \<exists>m. fe_lba (es ! j) = of_nat m \<and> m + secs (snd (fl ! j)) \<le> l" using placed_nth [OF placed_es assms(2)] by blast
  have small: "unat (of_nat m :: u32) = m" if "m \<le> l" for m using that l(2) hi by (simp add: of_nat_unat_small)
  have "fl ! k \<in> set fl" using assms(2) len by simp
  then have sz: "length (snd (fl ! k)) + 511 < 2 ^ 32" using sized_fl unfolding sized_def by blast
  have before: "\<forall>j<k. unat (fe_lba (es ! j)) + secs (snd (fl ! j)) \<le> l"
  proof (intro allI impI)
    fix j assume "j < k"
    then obtain m where "fe_lba (es ! j) = of_nat m" "m + secs (snd (fl ! j)) \<le> l" using l(9) by blast
    then show "unat (fe_lba (es ! j)) + secs (snd (fl ! j)) \<le> l" using small [of m] by simp
  qed
  show thesis using l hi small [of l] size_word [OF sz l(7)] before by (intro that [of l]) auto
qed

lemma seeded_slots:
  assumes d: "seeded_ok es fl hi cap f" and "p \<in> set (slots seed_sb)"
  shows "live seed_sb (img_sec f) p \<longleftrightarrow> slot_index p < length es"
    and "slot_index p < length es \<Longrightarrow> slot_entry seed_sb (img_sec f) p = es ! slot_index p"
proof -
  note placed_es = seeded_okD(1) [OF d] and sized_fl = seeded_okD(2) [OF d] and few = seeded_okD(3) [OF d] and names = seeded_okD(4,5) [OF d]
    and entries = seeded_okD(6) [OF d] and rest = seeded_okD(7) [OF d] and len = seeded_okD(8) [OF d]
  obtain s i where p: "p = (s, i)" "s < 64" "i < 16" 
  proof -
    have "dir_sectors seed_sb = 64" by (simp add: seed_sb_def)
    then show thesis using slot_pair [OF assms(2)] that [of "fst p" "snd p"] by simp
  qed
  have k: "slot_index p = 16 * s + i" "slot_index p < 1024" using p by (simp_all add: slot_index_def)
  have e: "slot_entry seed_sb (img_sec f) p = es ! slot_index p" if a: "slot_index p < length es"
    unfolding p(1)
  proof (rule seeded_slot(1) [OF p(2,3)])
    show "\<forall>j<32. im_bytes f (200 * 512 + (32 * (16 * s + i) + j)) = entry_bytes (es ! slot_index (s, i)) ! j"
      using entries [OF a] k(1) p(1) by simp
    show "length (fe_name (es ! slot_index (s, i))) = 23" by (rule seeded_entry [OF d a]) (simp add: name_ok_def p(1))
  qed
  then show "slot_index p < length es \<Longrightarrow> slot_entry seed_sb (img_sec f) p = es ! slot_index p" .
  show "live seed_sb (img_sec f) p \<longleftrightarrow> slot_index p < length es"
  proof (cases "slot_index p < length es")
    case True
    obtain n: "name_ok (es ! slot_index p)" "entry_name (es ! slot_index p) = fst (fl ! slot_index p)" by (rule seeded_entry [OF d True])
    have "fst (fl ! slot_index p) \<noteq> []" using names(2) True len by (metis nth_mem length_map nth_map)
    then have "\<not> entry_free (es ! slot_index p)" using n by (cases "fe_name (es ! slot_index p)") (auto simp: entry_free_def entry_name_def name_ok_def)
    then show ?thesis using e [OF True] True by (simp add: live_def)
  next
    case False
    then have "im_bytes f (200 * 512 + (32 * (16 * s + i) + 0)) = 0" using rest [of "slot_index p" 0] k by simp
    then show ?thesis using seeded_slot(2) [OF p(2,3)] False p(1) by simp
  qed
qed

lemma seeded_fs_ok:
  assumes d: "seeded_ok es fl hi cap f"
  shows "fs_ok seed_sb cap (img_sec f)"
proof -
  note placed_es = seeded_okD(1) [OF d] and sized_fl = seeded_okD(2) [OF d] and few = seeded_okD(3) [OF d] and names = seeded_okD(4,5) [OF d]
    and entries = seeded_okD(6) [OF d] and rest = seeded_okD(7) [OF d] and len = seeded_okD(8) [OF d]
  show ?thesis unfolding fs_ok_def
proof (intro conjI ballI impI)
  have "300 \<le> cap" "cap < 2 ^ 32" using sized_fl by (simp_all add: sized_def)
  then show "geometry_ok seed_sb cap" by (simp add: geometry_ok_def seed_sb_def)
next
  fix p assume p: "p \<in> set (slots seed_sb)" "live seed_sb (img_sec f) p"
  then have k: "slot_index p < length es" using seeded_slots(1) [OF d] by blast
  obtain l where l: "300 \<le> l" "l + secs (snd (fl ! slot_index p)) \<le> cap" "name_ok (es ! slot_index p)" "unat (fe_lba (es ! slot_index p)) = l"
    "unat (fe_size (es ! slot_index p)) = length (snd (fl ! slot_index p))" "entry_sectors (es ! slot_index p) = secs (snd (fl ! slot_index p))"
    by (rule seeded_entry [OF d k])
  have "length (snd (fl ! slot_index p)) + 511 < 2 ^ 32" using sized_fl k len by (simp add: sized_def)
  then show "entry_ok seed_sb cap (slot_entry seed_sb (img_sec f) p)"
    using l unfolding seeded_slots(2) [OF d p(1) k] by (simp add: entry_ok_def seed_sb_def word_le_nat_alt)
next
  fix p q assume p: "p \<in> set (slots seed_sb)" "live seed_sb (img_sec f) p" and q: "q \<in> set (slots seed_sb)" "live seed_sb (img_sec f) q" and "p \<noteq> q"
  then have k: "slot_index p < length es" "slot_index q < length es" "slot_index p \<noteq> slot_index q" using seeded_slots(1) [OF d] slot_index_inj by blast+
  obtain l where l: "entry_name (es ! slot_index p) = fst (fl ! slot_index p)" "unat (fe_lba (es ! slot_index p)) = l"
    "entry_sectors (es ! slot_index p) = secs (snd (fl ! slot_index p))" "\<forall>j. j < slot_index p \<longrightarrow> unat (fe_lba (es ! j)) + secs (snd (fl ! j)) \<le> l"
    by (rule seeded_entry [OF d k(1)])
  obtain m where m: "entry_name (es ! slot_index q) = fst (fl ! slot_index q)" "unat (fe_lba (es ! slot_index q)) = m"
    "entry_sectors (es ! slot_index q) = secs (snd (fl ! slot_index q))" "\<forall>j. j < slot_index q \<longrightarrow> unat (fe_lba (es ! j)) + secs (snd (fl ! j)) \<le> m"
    by (rule seeded_entry [OF d k(2)])
  have "map fst fl ! slot_index p \<noteq> map fst fl ! slot_index q" using nth_eq_iff_index_eq [OF names(1)] k len by simp
  then have "fst (fl ! slot_index p) \<noteq> fst (fl ! slot_index q)" using k len by simp
  moreover have "slot_index p < slot_index q \<or> slot_index q < slot_index p" using k(3) by linarith
  ultimately show "apart (slot_entry seed_sb (img_sec f) p) (slot_entry seed_sb (img_sec f) q)"
    using l m unfolding seeded_slots(2) [OF d p(1) k(1)] seeded_slots(2) [OF d q(1) k(2)] by (auto simp: apart_def)
qed
qed

lemma seeded_bytes:
  assumes d: "seeded_ok es fl hi cap f" and "k < length es"
  shows "file_bytes (img_sec f) (es ! k) = snd (fl ! k)"
proof -
  note placed_es = seeded_okD(1) [OF d] and sized_fl = seeded_okD(2) [OF d] and few = seeded_okD(3) [OF d] and names = seeded_okD(4,5) [OF d]
    and entries = seeded_okD(6) [OF d] and rest = seeded_okD(7) [OF d] and len = seeded_okD(8) [OF d]
  obtain l where l: "300 \<le> l" "l + secs (snd (fl ! k)) \<le> cap" "unat (fe_lba (es ! k)) = l" "unat (fe_size (es ! k)) = length (snd (fl ! k))"
    "entry_sectors (es ! k) = secs (snd (fl ! k))" "\<forall>i<length (snd (fl ! k)). im_bytes f (l * 512 + i) = snd (fl ! k) ! i" by (rule seeded_entry [OF d assms(2)])
  let ?n = "length (snd (fl ! k))" and ?g = "\<lambda>m. img_sec f (fe_lba (es ! k) + of_nat m)"
  have len512: "\<forall>m\<in>set [0..<secs (snd (fl ! k))]. length (?g m) = 512" by simp
  have enough: "?n \<le> 512 * secs (snd (fl ! k))" using secs_enough [of "snd (fl ! k)"] by simp
  have "take ?n (concat (map ?g [0..<secs (snd (fl ! k))])) = snd (fl ! k)"
  proof (rule nth_equalityI)
    show "length (take ?n (concat (map ?g [0..<secs (snd (fl ! k))]))) = ?n" using length_concat_map_const [OF len512] enough by simp
    fix i assume "i < length (take ?n (concat (map ?g [0..<secs (snd (fl ! k))])))"
    then have i: "i < ?n" by simp
    then have d: "i div 512 < secs (snd (fl ! k))" using enough by (simp add: less_mult_imp_div_less mult.commute)
    have "cap < 2 ^ 32" using sized_fl by (simp add: sized_def)
    then have "unat (of_nat (i div 512) :: u32) = i div 512" "unat (fe_lba (es ! k)) + i div 512 < 2 ^ 32" using d l(2,3) by (simp_all add: of_nat_unat_small)
    then have u: "unat (fe_lba (es ! k) + of_nat (i div 512)) = l + i div 512" using l(3) by (simp add: unat_add_no_wrap)
    have "concat (map ?g [0..<secs (snd (fl ! k))]) ! i = ?g (i div 512) ! (i mod 512)"
      using nth_concat_const [OF len512, of "i div 512" "i mod 512"] d by simp
    also have "\<dots> = im_bytes f ((l + i div 512) * 512 + i mod 512)" by (simp add: img_sec_nth u)
    also have "(l + i div 512) * 512 + i mod 512 = l * 512 + i" by (simp add: add_mult_distrib)
    finally show "take ?n (concat (map ?g [0..<secs (snd (fl ! k))])) ! i = snd (fl ! k) ! i" using i l(6) by simp
  qed
  then show ?thesis using l(4,5) by (simp add: file_bytes_def)
qed

lemma seeded_contents:
  assumes d: "seeded_ok es fl hi cap f"
  shows "files seed_sb (img_sec f) nm = map_option (Pair FS_FILE) (map_of fl nm)"
proof -
  note placed_es = seeded_okD(1) [OF d] and sized_fl = seeded_okD(2) [OF d] and few = seeded_okD(3) [OF d] and names = seeded_okD(4,5) [OF d]
    and entries = seeded_okD(6) [OF d] and rest = seeded_okD(7) [OF d] and len = seeded_okD(8) [OF d]
  note ok = seeded_fs_ok [OF d]
  show ?thesis
proof (cases "map_of fl nm")
  case None
  have "\<not> holds_name seed_sb (img_sec f) nm p" if "p \<in> set (slots seed_sb)" for p
  proof
    assume h: "holds_name seed_sb (img_sec f) nm p"
    then have k: "slot_index p < length es" using seeded_slots(1) [OF d that] by (simp add: holds_name_def)
    obtain "entry_name (es ! slot_index p) = fst (fl ! slot_index p)" by (rule seeded_entry [OF d k])
    then have "nm = fst (fl ! slot_index p)" using h seeded_slots(2) [OF d that k] by (simp add: holds_name_def)
    then show False using None k len by (metis map_of_eq_None_iff nth_mem imageI)
  qed
  then have "lookup seed_sb (img_sec f) nm = None" by (simp add: lookup_def find_None_all)
  then show ?thesis using None by (simp add: files_def)
next
  case (Some bs)
  then obtain k where k: "k < length es" "fl ! k = (nm, bs)" using len map_of_SomeD [OF Some] by (auto simp: in_set_conv_nth)
  then have p: "(k div 16, k mod 16) \<in> set (slots seed_sb)" "slot_index (k div 16, k mod 16) = k" using slot_of_index [of k] few len by auto
  let ?p = "(k div 16, k mod 16)"
  obtain e: "entry_name (es ! k) = nm" "fe_type (es ! k) = FS_FILE" by (rule seeded_entry [OF d k(1)]) (simp add: k(2))
  have s: "slot_entry seed_sb (img_sec f) ?p = es ! k" "live seed_sb (img_sec f) ?p" using seeded_slots [OF d p(1)] k(1) p(2) by simp_all
  then have h: "holds_name seed_sb (img_sec f) nm ?p" using e(1) by (simp add: holds_name_def)
  have "q = ?p" if "q \<in> set (slots seed_sb)" "holds_name seed_sb (img_sec f) nm q" for q
    using holds_name_unique [OF ok that(1) p(1) that(2) h] .
  then have "find (holds_name seed_sb (img_sec f) nm) (slots seed_sb) = Some ?p" by (rule find_unique [where P = "holds_name seed_sb (img_sec f) nm", OF p(1) h])
  then show ?thesis using Some s(1) e(2) seeded_bytes [OF d k(1)] k(2) by (simp add: files_def lookup_def)
qed
qed

section \<open>The seeded disk\<close>

text \<open>A file system reads no sector beyond the capacity.\<close>

lemma seed_sb_simps [simp]: "dir_lba seed_sb = 200" "dir_sectors seed_sb = 64" "data_lba seed_sb = 300"
  by (simp_all add: seed_sb_def)

lemma dir_same:
  assumes "\<forall>l. unat l < cap \<longrightarrow> g l = f l" "300 \<le> cap" "p \<in> set (slots seed_sb)"
  shows "slot_entry seed_sb g p = slot_entry seed_sb f p" "live seed_sb g p \<longleftrightarrow> live seed_sb f p"
proof -
  have "fst p < 64" using slot_pair [OF assms(3)] by simp
  then have "unat (200 + of_nat (fst p) :: u32) = 200 + fst p" by (simp add: unat_add_no_wrap of_nat_unat_small)
  then have "g (200 + of_nat (fst p)) = f (200 + of_nat (fst p))" using assms(1,2) \<open>fst p < 64\<close> by simp
  then show "slot_entry seed_sb g p = slot_entry seed_sb f p" "live seed_sb g p \<longleftrightarrow> live seed_sb f p" by (simp_all add: slot_entry_def live_def)
qed

lemma same_file_system:
  assumes "\<forall>l. unat l < cap \<longrightarrow> g l = f l" "fs_ok seed_sb cap f"
  shows "fs_ok seed_sb cap g" "files seed_sb g = files seed_sb f"
proof -
  have cap: "300 \<le> cap" "cap < 2 ^ 32" using assms(2) by (simp_all add: fs_ok_def geometry_ok_def)
  note d = dir_same [OF assms(1) cap(1)]
  show "fs_ok seed_sb cap g" using assms(2) d unfolding fs_ok_def by simp
  have "files seed_sb g nm = files seed_sb f nm" for nm
  proof -
    have l: "lookup seed_sb g nm = lookup seed_sb f nm"
    proof -
      have "find (holds_name seed_sb g nm) (slots seed_sb) = find (holds_name seed_sb f nm) (slots seed_sb)"
        by (rule find_cong_set) (simp add: holds_name_def d)
      then show ?thesis using d(1) find_Some_in [of "holds_name seed_sb f nm" "slots seed_sb"]
        by (cases "find (holds_name seed_sb f nm) (slots seed_sb)") (auto simp: lookup_def)
    qed
    have "file_bytes g e = file_bytes f e" if "lookup seed_sb f nm = Some e" for e
    proof (rule file_bytes_cong)
      fix k assume k: "k < entry_sectors e"
      have "unat (fe_lba e) + entry_sectors e \<le> cap" using lookup_entry_ok [OF assms(2) that] by (simp add: entry_ok_def)
      then have "unat (fe_lba e + of_nat k) = unat (fe_lba e) + k" "unat (fe_lba e) + k < cap"
        using k cap(2) by (simp_all add: unat_add_no_wrap of_nat_unat_small)
      then show "g (fe_lba e + of_nat k) = f (fe_lba e + of_nat k)" using assms(1) by simp
    qed
    then show ?thesis using l by (cases "lookup seed_sb f nm") (simp_all add: files_def)
  qed
  then show "files seed_sb g = files seed_sb f" by (rule ext)
qed

lemma seeded_mount:
  assumes "reliable_device dk sec cap dev_ok" "dev_ok d" "128 < cap" "take 20 (sec d 128) = seed_super" "superblock_of (sec d 128) = seed_sb"
  obtains d' where "fs_mount dk sb d = Some (0, seed_sb, d')" "dev_ok d'" "sec d' = sec d"
proof -
  have "unat (128 :: u32) < cap" using assms(3) by simp
  from reliable_device.read_E [OF assms(1,2) this] obtain d' where r: "dk_read dk 128 d = (Some (sec d 128), d')" "dev_ok d'" "sec d' = sec d" .
  have "nul_free FS_MAGIC" by (simp add: FS_MAGIC_def)
  then have "strcmp (FS_MAGIC @ 0 # 0 # bytes32 200 @ bytes32 64 @ bytes32 300) (FS_MAGIC @ 0 # []) = Some 0" by simp
  then have "strcmp seed_super (FS_MAGIC @ [0]) = Some 0"
    by (simp add: seed_super_def FS_DIR_LBA_def FS_DIR_SECTORS_def FS_DATA_LBA_def)
  then have "fs_mount dk sb d = Some (0, seed_sb, d')" using r(1) assms(4,5) by (simp add: fs_mount_def FS_SUPER_LBA_def)
  then show thesis using r(2,3) by (rule that)
qed

text \<open>C4: The disk the seeder builds is a disk the kernel accepts. From any image file, whenever the seeded names (those of
  the built-in files and of the arguments that open, a program without \<open>prog_\<close> and extension) are distinct and not
  empty and the contents fit the disk, the seeder succeeds, and on a disk with those sectors fs_mount answers 0 with
  the superblock of the image, the file system is consistent, and its files are exactly the seeded ones, with the
  contents they had on the host.\<close>

theorem seeded_disk:
  assumes "reliable_device dk sec cap dev_ok" and "\<forall>a\<in>set args. 0 \<in> set a"
    and "distinct (map fst (seeded_files host args))" and "[] \<notin> set (map fst (seeded_files host args))"
    and "sized cap (seeded_files host args)"
  shows "\<exists>f'. seeder host args f = Some f' \<and>
    (\<forall>d sb. dev_ok d \<and> (\<forall>l. unat l < cap \<longrightarrow> sec d l = img_sec f' l) \<longrightarrow>
      (\<exists>d'. fs_mount dk sb d = Some (0, seed_sb, d') \<and> dev_ok d' \<and> sec d' = sec d) \<and> fs_ok seed_sb cap (sec d) \<and>
      (\<forall>nm. files seed_sb (sec d) nm = map_option (Pair FS_FILE) (map_of (seeded_files host args) nm)))"
proof -
  let ?fl = "seeded_files host args"
  obtain f0 es hi where r: "seeder host args f = Some (seeded_image es f0)" "placed (im_bytes f0) 300 es ?fl hi" "\<forall>x<300 * 512. im_bytes f0 x = fixed_low f x"
    unfolding seeded_image_def by (rule seeder_run [OF assms(2), of host f])
  let ?f = "seeded_image es f0"
  have few: "length ?fl \<le> 1024" by (simp add: seeded_files_def seed_files_def)
  have es: "\<forall>e\<in>set es. length (entry_bytes e) = 32" "length es \<le> 1024" using entry_bytes_length [OF r(2)] placed_length [OF r(2)] few by auto
  note b = seeded_image_bytes [OF es r(3)]
  have p: "placed (im_bytes ?f) 300 es ?fl hi" by (rule placed_cong [OF r(2)]) (use b(3) in simp)
  have ok: "seeded_ok es ?fl hi cap ?f" using p assms(3-5) few b(1,2) unfolding seeded_ok_def by blast
  have super: "superblock_of (img_sec ?f 128) = seed_sb" "take 20 (img_sec ?f 128) = seed_super" using seeded_super [of ?f] b(4) by simp_all
  have cap: "128 < cap" using assms(5) by (simp add: sized_def)
  have "(\<exists>d'. fs_mount dk sb d = Some (0, seed_sb, d') \<and> dev_ok d' \<and> sec d' = sec d) \<and> fs_ok seed_sb cap (sec d) \<and>
      (\<forall>nm. files seed_sb (sec d) nm = map_option (Pair FS_FILE) (map_of ?fl nm))"
    if d: "dev_ok d" "\<forall>l. unat l < cap \<longrightarrow> sec d l = img_sec ?f l" for d sb
  proof -
    have s: "sec d 128 = img_sec ?f 128" using d(2) cap by simp
    obtain d' where "fs_mount dk sb d = Some (0, seed_sb, d')" "dev_ok d'" "sec d' = sec d"
      by (rule seeded_mount [OF assms(1) d(1) cap, of sb]) (simp_all add: s super)
    then show ?thesis using same_file_system [OF d(2) seeded_fs_ok [OF ok]] seeded_contents [OF ok] by auto
  qed
  then show ?thesis using r(1) by blast
qed

definition sample_host :: "byte list \<Rightarrow> byte list option" where
  "sample_host s = (if s = asc ''bin/prog_hi.bin'' then Some [1, 2, 3] else None)"

definition sample_args :: "byte list list" where
  "sample_args = [lit ''bin/prog_hi.bin'', lit ''bin/none'']"

lemma sample_seeded: "seeded_files sample_host sample_args = seed_files @ [(asc ''hi'', [1, 2, 3])]"
proof -
  have c: "cstr (lit ''bin/prog_hi.bin'') = asc ''bin/prog_hi.bin''" "cstr (lit ''bin/none'') = asc ''bin/none''" by (simp_all add: lit_def)
  have "seeded_name (asc ''bin/prog_hi.bin'') = asc ''hi''" by code_simp
  then show ?thesis by (simp only: seeded_files_def sample_args_def host_files.simps c sample_host_def) simp
qed

lemma seed_sizes: "length welcome_text = 22" "length hello_text = 23" "length demo_text = 626" "length print_text = 413"
  by code_simp+

lemma sample_sized: "sized (2 ^ 28) (seeded_files sample_host sample_args)"
  unfolding sample_seeded by (simp add: sized_def seed_files_def secs_def seed_sizes)

definition blank_image :: image where
  "blank_image = \<lparr>im_bytes = (\<lambda>_. 0), im_pos = 0\<rparr>"

lemma seeded_disk_witness:
  "\<exists>f' d d'. seeder sample_host sample_args blank_image = Some f' \<and> fs_mount (ata_disk drive_pio) empty_sb d = Some (0, seed_sb, d') \<and>
    files seed_sb (drive_sec d) (asc ''hi'') = Some (FS_FILE, [1, 2, 3]) \<and> files seed_sb (drive_sec d) (asc ''readme.txt'') = Some (FS_FILE, welcome_text)"
proof -
  have a: "\<forall>a\<in>set sample_args. 0 \<in> set a" by (simp add: sample_args_def lit_def)
  have n: "distinct (map fst (seeded_files sample_host sample_args))" "[] \<notin> set (map fst (seeded_files sample_host sample_args))"
    unfolding sample_seeded by (simp_all add: seed_files_def)
  from seeded_disk [OF reliable_drive a n sample_sized, of blank_image] obtain f' where f: "seeder sample_host sample_args blank_image = Some f'"
    "\<forall>d sb. drive_good d \<and> (\<forall>l. unat l < 2 ^ 28 \<longrightarrow> drive_sec d l = img_sec f' l) \<longrightarrow>
      (\<exists>d'. fs_mount (ata_disk drive_pio) sb d = Some (0, seed_sb, d') \<and> drive_good d' \<and> drive_sec d' = drive_sec d) \<and> fs_ok seed_sb (2 ^ 28) (drive_sec d) \<and>
      (\<forall>nm. files seed_sb (drive_sec d) nm = map_option (Pair FS_FILE) (map_of (seeded_files sample_host sample_args) nm))" by blast
  let ?d = "drive_blank\<lparr>vw_sec := img_sec f'\<rparr>"
  have "drive_good ?d" using drive_good_blank by (simp add: drive_good_def drive_sound_def drive_ok_def drive_blank_def)
  moreover have "drive_sec ?d l = img_sec f' l" if "unat l < 2 ^ 28" for l using and_mask_28 [OF that] by (simp add: drive_sec_def)
  ultimately obtain d' where d: "fs_mount (ata_disk drive_pio) empty_sb ?d = Some (0, seed_sb, d')"
    "\<forall>nm. files seed_sb (drive_sec ?d) nm = map_option (Pair FS_FILE) (map_of (seeded_files sample_host sample_args) nm)" using f(2) by blast
  have "map_of (seeded_files sample_host sample_args) (asc ''hi'') = Some [1, 2, 3]"
    "map_of (seeded_files sample_host sample_args) (asc ''readme.txt'') = Some welcome_text"
    unfolding sample_seeded by (simp_all add: seed_files_def)
  then show ?thesis using f(1) d by auto
qed

end
