(* ===== verification/Boot.thy ===== *)
theory Boot
  imports ShellRun Gdt
begin

text \<open>
kernel/kernel.c: the boot of the kernel. Built without PAGER_TEST, whose log and probe are for tests. The boot sector's
  work (boot/boot.asm, kernel/entry.asm) is done when it starts: the E820 map is read and the image with its zeroed
  data is in memory.
\<close>

section \<open>The machine at power on\<close>

text \<open>What the linker and the boot sector give: the addresses of the tables and handlers, the end of the kernel and the
  E820 map.\<close>

record boot_env =
  be_gdt :: u32
  be_tss :: u32
  be_idt :: u32
  be_isr :: "isr \<Rightarrow> u32"
  be_kernel_end :: u32
  be_map :: "e820_entry list"

text \<open>The tables, the registers that hold them (limit and base), cr0, the ports written so far and the machine of the shell.\<close>

record 'd boot =
  bt_gdt :: "gdt_entry list"
  bt_tss :: tss
  bt_gdtr :: "u16 \<times> u32"
  bt_idt :: "idt_entry list"
  bt_idtr :: "u16 \<times> u32"
  bt_cr0 :: u32
  bt_ports :: "port_write list"
  bt_shell :: "'d shell"

section \<open>kmain\<close>

text \<open>The bits EM, TS and MP of cr0; fninit changes no state that is modelled.\<close>

definition fpu_init :: "u32 \<Rightarrow> u32" where
  "fpu_init cr0 =
     (let cr0 = cr0 AND NOT (push_bit 2 1);
          cr0 = cr0 AND NOT (push_bit 3 1)
      in cr0 OR push_bit 1 1)"

text \<open>What paging_init does to cr0: paging on (PG), with write protection for the kernel too (WP).\<close>

definition paging_on :: "u32 \<Rightarrow> u32" where
  "paging_on cr0 = cr0 OR (0x80000000 OR 0x00010000)"

text \<open>The calls that set up the processor, the memory, the timer and the screen.\<close>

definition hardware_init :: "boot_env \<Rightarrow> 'd boot \<Rightarrow> 'd boot option" where
  "hardware_init env b = do {
     (gdt, tss, gdtr) \<leftarrow> gdt_init (be_gdt env) (be_tss env) (bt_gdt b) (bt_tss b);
     (pic, idt, idtr) \<leftarrow> idt_init (be_isr env) (be_idt env) (bt_idt b);
     let s = bt_shell b;
     let y = sh_sys s;
     m \<leftarrow> memory_init (be_map env) (be_kernel_end env) (sy_mem y);
     m \<leftarrow> paging_init (be_map env) m;
     (timer, pit) \<leftarrow> pit_init 100 (sh_pit s);
     w \<leftarrow> wm_init (sy_wm y);
     Some (b\<lparr>bt_gdt := gdt, bt_tss := tss, bt_gdtr := gdtr, bt_idt := idt, bt_idtr := idtr, bt_cr0 := paging_on (fpu_init (bt_cr0 b)),
       bt_ports := bt_ports b @ pic @ timer @ vga_init, bt_shell := s\<lparr>sh_sys := y\<lparr>sy_mem := m, sy_wm := w\<rparr>, sh_pit := pit\<rparr>\<rparr>) }"

text \<open>The messages about the memory; both numbers are written to the same array.\<close>

definition say_memory :: "'d shell \<Rightarrow> 'd shell option" where
  "say_memory s = do {
     s \<leftarrow> say 1 (lit ''[MEM]: '') s;
     kb \<leftarrow> itoa (memory_total_kb (sy_mem (sh_sys s))) (replicate 12 0);
     s \<leftarrow> say 1 kb s;
     s \<leftarrow> say 1 (lit '' KB total, '') s;
     kb \<leftarrow> itoa (memory_free_frames (sy_mem (sh_sys s))) kb;
     s \<leftarrow> say 1 kb s;
     say 1 (litln '' free frames (paging ON)'') s }"

definition mount_disk :: "'d disk \<Rightarrow> 'd shell \<Rightarrow> 'd shell option" where
  "mount_disk dk s = (let y = sh_sys s; fs = sy_fs y in do {
     (r, sb, d) \<leftarrow> fs_mount dk (fs_sb fs) (fs_dev fs);
     let s = s\<lparr>sh_sys := y\<lparr>sy_fs := fs\<lparr>fs_sb := sb, fs_dev := d\<rparr>\<rparr>\<rparr>;
     if r = 0 then say 1 (litln ''[FS]: Mounted'') s else say 4 (litln ''[FS]: BAD MAGIC'') s })"

definition greet :: "'d disk \<Rightarrow> 'd shell \<Rightarrow> 'd shell option" where
  "greet dk s = do {
     s \<leftarrow> say 2 (litln ''LunariaOS V-0'') s;
     s \<leftarrow> say 2 (litln ''Booted'') s;
     s \<leftarrow> on_term (print_banner 1) s;
     s \<leftarrow> say_memory s;
     s \<leftarrow> mount_disk dk s;
     s \<leftarrow> on_term (\<lambda>t. term_print t (litln '''')) s;
     show_current s }"

text \<open>kmain up to the call of the shell, and with it.\<close>

definition kmain_boot :: "boot_env \<Rightarrow> 'd disk \<Rightarrow> 'd boot \<Rightarrow> 'd boot option" where
  "kmain_boot env dk b = do {
     b \<leftarrow> hardware_init env b;
     s \<leftarrow> greet dk (bt_shell b);
     Some (b\<lparr>bt_shell := s\<rparr>) }"

definition kmain :: "boot_env \<Rightarrow> 'd disk \<Rightarrow> 'd boot \<Rightarrow> 'd cmd_end option" where
  "kmain env dk b = do { b \<leftarrow> kmain_boot env dk b; shell_run dk (bt_shell b) }"

end
