(* ===== verification/BootSpec.thy ===== *)
theory BootSpec
  imports Boot ShellSpec IdMap
begin

text \<open>
The correctness of kernel/kernel.c: the boot reaches the shell, with every part of the kernel in the state its own
  properties start from.
\<close>

section \<open>The terminals\<close>




section \<open>The messages\<close>











section \<open>The disk\<close>






section \<open>The boot\<close>














end
