(* ===== verification/Intrin.thy ===== *)
theory Intrin
  imports Prelude "HOL-Library.Signed_Division"
begin

text \<open>
home/tcc.c: the 64-bit arithmetic helpers that tcc compiles into every image it writes and every program it runs, given there
  as source text (flat_intrin). A long long is a 64-bit word, its halves are its two 32-bit words, the shift count an int.
\<close>

type_synonym u64 = "64 word"

section \<open>The two words of a number\<close>

definition lo_word :: "u64 \<Rightarrow> u32" where "lo_word n = ucast n"
definition hi_word :: "u64 \<Rightarrow> u32" where "hi_word n = ucast (drop_bit 32 n)"
definition join :: "u32 \<Rightarrow> u32 \<Rightarrow> u64" where "join hi lo = push_bit 32 (ucast hi) OR ucast lo"

section \<open>Division\<close>

text \<open>The local variables of the division loop.\<close>

record divmod =
  dm_rlo :: u32
  dm_rhi :: u32
  dm_qlo :: u32
  dm_qhi :: u32

definition rt_step :: "u64 \<Rightarrow> u64 \<Rightarrow> nat \<Rightarrow> divmod \<Rightarrow> divmod" where
  "rt_step n d i s =
     (let nlo = lo_word n; nhi = hi_word n; dlo = lo_word d; dhi = hi_word d;
          b = (if i \<ge> 32 then drop_bit (i - 32) nhi AND 1 else drop_bit i nlo AND 1);
          rhi2 = push_bit 1 (dm_rhi s) OR drop_bit 31 (dm_rlo s);
          rlo = push_bit 1 (dm_rlo s) OR b;
          rhi = rhi2
      in if rhi > dhi \<or> rhi = dhi \<and> rlo \<ge> dlo then
           let c = (if rlo < dlo then 1 else 0);
               rlo = rlo - dlo;
               rhi = rhi - dhi - c
           in if i \<ge> 32 then s\<lparr>dm_rlo := rlo, dm_rhi := rhi, dm_qhi := dm_qhi s OR push_bit (i - 32) 1\<rparr>
              else s\<lparr>dm_rlo := rlo, dm_rhi := rhi, dm_qlo := dm_qlo s OR push_bit i 1\<rparr>
         else s\<lparr>dm_rlo := rlo, dm_rhi := rhi\<rparr>)"

text \<open>The loop, from the bit below \<open>k\<close> down to bit 0.\<close>

primrec rt_loop :: "u64 \<Rightarrow> u64 \<Rightarrow> nat \<Rightarrow> divmod \<Rightarrow> divmod" where
  "rt_loop n d 0 s = s"
| "rt_loop n d (Suc i) s = rt_loop n d i (rt_step n d i s)"

definition rt_divmod :: "u64 \<Rightarrow> u64 \<Rightarrow> bool \<Rightarrow> u64" where
  "rt_divmod n d want_r =
     (if lo_word d = 0 \<and> hi_word d = 0 then 0
      else let s = rt_loop n d 64 \<lparr>dm_rlo = 0, dm_rhi = 0, dm_qlo = 0, dm_qhi = 0\<rparr>
           in if want_r then join (dm_rhi s) (dm_rlo s) else join (dm_qhi s) (dm_qlo s))"

definition udivdi3 :: "u64 \<Rightarrow> u64 \<Rightarrow> u64" where "udivdi3 a b = rt_divmod a b False"
definition umoddi3 :: "u64 \<Rightarrow> u64 \<Rightarrow> u64" where "umoddi3 a b = rt_divmod a b True"

definition divdi3 :: "u64 \<Rightarrow> u64 \<Rightarrow> u64" where
  "divdi3 a b =
     (let neg = (a <s 0) \<noteq> (b <s 0);
          ua = (if a <s 0 then 0 - a else a);
          ub = (if b <s 0 then 0 - b else b);
          q = rt_divmod ua ub False
      in if neg then 0 - q else q)"

definition moddi3 :: "u64 \<Rightarrow> u64 \<Rightarrow> u64" where
  "moddi3 a b =
     (let neg = a <s 0;
          ua = (if a <s 0 then 0 - a else a);
          ub = (if b <s 0 then 0 - b else b);
          r = rt_divmod ua ub True
      in if neg then 0 - r else r)"

section \<open>Shifts\<close>

text \<open>A shift of a 32-bit word has no defined result when the count is negative or above 31.\<close>

definition shr :: "u32 \<Rightarrow> int \<Rightarrow> u32 option" where
  "shr x b = (if 0 \<le> b \<and> b < 32 then Some (drop_bit (nat b) x) else None)"
definition shl :: "u32 \<Rightarrow> int \<Rightarrow> u32 option" where
  "shl x b = (if 0 \<le> b \<and> b < 32 then Some (push_bit (nat b) x) else None)"
definition sar :: "u32 \<Rightarrow> int \<Rightarrow> u32 option" where
  "sar x b = (if 0 \<le> b \<and> b < 32 then Some (signed_drop_bit (nat b) x) else None)"

definition lshrdi3 :: "u64 \<Rightarrow> int \<Rightarrow> u64 option" where
  "lshrdi3 u b =
     (let lo = lo_word u; hi = hi_word u in
      if b = 0 then Some u
      else if b \<ge> 32 then do { rlo \<leftarrow> shr hi (b - 32); Some (join 0 rlo) }
      else do { x \<leftarrow> shr lo b; y \<leftarrow> shl hi (32 - b); rhi \<leftarrow> shr hi b; Some (join rhi (x OR y)) })"

definition ashldi3 :: "u64 \<Rightarrow> int \<Rightarrow> u64 option" where
  "ashldi3 u b =
     (let lo = lo_word u; hi = hi_word u in
      if b = 0 then Some u
      else if b \<ge> 32 then do { rhi \<leftarrow> shl lo (b - 32); Some (join rhi 0) }
      else do { rlo \<leftarrow> shl lo b; x \<leftarrow> shl hi b; y \<leftarrow> shr lo (32 - b); Some (join (x OR y) rlo) })"

definition ashrdi3 :: "u64 \<Rightarrow> int \<Rightarrow> u64 option" where
  "ashrdi3 u b =
     (let lo = lo_word u; hi = hi_word u in
      if b = 0 then Some u
      else if b \<ge> 32 then do { rlo \<leftarrow> sar hi (b - 32); rhi \<leftarrow> sar hi 31; Some (join rhi rlo) }
      else do { x \<leftarrow> shr lo b; y \<leftarrow> shl hi (32 - b); rhi \<leftarrow> sar hi b; Some (join rhi (x OR y)) })"

section \<open>Words of a number\<close>

lemma bit_words:
  "bit (lo_word n) i \<longleftrightarrow> i < 32 \<and> bit n i"
  "bit (hi_word n) i \<longleftrightarrow> i < 32 \<and> bit n (i + 32)"
  "bit (join h l) i \<longleftrightarrow> (if i < 32 then bit l i else i < 64 \<and> bit h (i - 32))"
  by (auto simp: lo_word_def hi_word_def join_def bit_simps add.commute dest: bit_imp_le_length)

lemma half_less: "unat (x :: u32) < 2 ^ 32"
  using unsigned_less [of x, where ?'a = nat] by simp

lemma unat_wide: "unat (ucast x :: u64) = unat x" for x :: u32
proof -
  have "unat x < 2 ^ 64" using half_less [of x] by (rule order_less_trans) simp
  then show ?thesis unfolding unsigned_ucast_eq by (simp add: take_bit_nat_eq_self)
qed

lemma nat_pair_less: "h < 2 ^ 32 \<Longrightarrow> l < 2 ^ 32 \<Longrightarrow> h * 2 ^ 32 + l < 2 ^ 64" for h l :: nat
  by simp

lemma nat_pair_borrow:
  fixes h l h' l' :: nat
  assumes "h' < h" and "l' < 2 ^ 32"
  shows "(h - h' - 1) * 2 ^ 32 + (2 ^ 32 + l - l') = h * 2 ^ 32 + l - (h' * 2 ^ 32 + l')"
proof -
  obtain k where "h = Suc (h' + k)" using less_imp_Suc_add [OF assms(1)] by blast
  then show ?thesis using assms(2) by (simp add: algebra_simps)
qed

lemma unat_join: "unat (join h l) = unat h * 2 ^ 32 + unat l"
proof -
  note h = half_less [of h] and l = half_less [of l]
  have "join h l = push_bit 32 (ucast h) + ucast l"
    unfolding join_def by (rule disjunctive_add [symmetric]) (auto simp: bit_simps dest: bit_imp_le_length)
  moreover have u: "unat (ucast h :: u64) = unat h" "unat (ucast l :: u64) = unat l" by (rule unat_wide)+
  moreover have "unat (push_bit 32 (ucast h) :: u64) = unat h * 2 ^ 32"
    using h u(1) by (simp add: push_bit_eq_mult unat_word_ariths)
  ultimately show ?thesis using nat_pair_less [OF h l] by (simp add: unat_word_ariths)
qed

lemma join_words [simp]: "join (hi_word n) (lo_word n) = n"
  by (rule bit_word_eqI) (auto simp: bit_words)

lemma words_join [simp]: "hi_word (join h l) = h" "lo_word (join h l) = l"
  by (rule bit_word_eqI; simp add: bit_words)+

lemma nat_pair_le:
  fixes h l h' l' :: nat
  assumes "l < 2 ^ 32" and "l' < 2 ^ 32"
  shows "h' * 2 ^ 32 + l' \<le> h * 2 ^ 32 + l \<longleftrightarrow> h' < h \<or> h = h' \<and> l' \<le> l"
  using assms by (cases h h' rule: linorder_cases) (auto dest: less_imp_Suc_add)

lemma join_less: "join h' l' \<le> join h l \<longleftrightarrow> h' < h \<or> h = h' \<and> l' \<le> l"
  unfolding word_le_nat_alt word_less_nat_alt unat_join word_unat_eq_iff by (rule nat_pair_le [OF half_less half_less])

lemma join_diff:
  assumes "join h' l' \<le> join h l"
  shows "join (h - h' - (if l < l' then 1 else 0)) (l - l') = join h l - join h' l'"
proof -
  have "unat (join (h - h' - (if l < l' then 1 else 0)) (l - l')) = unat (join h l) - unat (join h' l')"
  proof (cases "l < l'")
    case True
    then have "h' < h" using assms unfolding join_less by auto
    then have "unat (h - h' - 1) = unat h - unat h' - 1" "unat (l - l') = 2 ^ 32 + unat l - unat l'" "unat h' < unat h"
      using True by (auto simp: unat_sub_if' word_less_nat_alt)
    then show ?thesis using True nat_pair_borrow [OF _ half_less [of l']] unfolding unat_join by simp
  next
    case False
    then have "unat (l - l') = unat l - unat l'" "unat l' \<le> unat l" by (auto simp: unat_sub_if' word_less_nat_alt)
    moreover have "unat (h - h') = unat h - unat h'" "unat h' \<le> unat h" using assms unfolding join_less by (auto simp: unat_sub_if' word_less_nat_alt)
    ultimately show ?thesis using False unfolding unat_join by (simp add: algebra_simps)
  qed
  then show ?thesis using assms by (simp add: word_unat_eq_iff unat_sub)
qed

lemma join_shift:
  "0 < k \<Longrightarrow> k < 32 \<Longrightarrow> join (push_bit k h OR drop_bit (32 - k) l) (push_bit k l OR b) = push_bit k (join h l) OR join 0 b"
  by (rule bit_word_eqI) (auto simp: bit_words bit_simps add.commute dest: bit_imp_le_length)

lemma join_set: "join (h OR push_bit i 1) l = join h l OR push_bit (i + 32) 1"
  "i < 32 \<Longrightarrow> join h (l OR push_bit i 1) = join h l OR push_bit i 1"
  by (rule bit_word_eqI, auto simp: bit_words bit_simps)+

section \<open>Division\<close>

abbreviation dm_rem :: "divmod \<Rightarrow> u64" where "dm_rem s \<equiv> join (dm_rhi s) (dm_rlo s)"
abbreviation dm_quot :: "divmod \<Rightarrow> u64" where "dm_quot s \<equiv> join (dm_qhi s) (dm_qlo s)"

definition shift_in :: "u64 \<Rightarrow> nat \<Rightarrow> u64 \<Rightarrow> u64" where
  "shift_in n i r = push_bit 1 r OR (drop_bit i n AND 1)"

lemma numerator_bit:
  "i < 64 \<Longrightarrow> join 0 (if i \<ge> 32 then drop_bit (i - 32) (hi_word n) AND 1 else drop_bit i (lo_word n) AND 1) = drop_bit i n AND 1"
  by (rule bit_word_eqI) (auto simp: bit_words bit_simps)

lemma rt_step_words:
  assumes "i < 64"
  shows "dm_rem (rt_step n d i s) = (if d \<le> shift_in n i (dm_rem s) then shift_in n i (dm_rem s) - d else shift_in n i (dm_rem s))"
    and "dm_quot (rt_step n d i s) = (if d \<le> shift_in n i (dm_rem s) then dm_quot s OR push_bit i 1 else dm_quot s)"
proof -
  let ?b = "if i \<ge> 32 then drop_bit (i - 32) (hi_word n) AND 1 else drop_bit i (lo_word n) AND 1"
  obtain h l where hl: "push_bit 1 (dm_rhi s) OR drop_bit 31 (dm_rlo s) = h" "push_bit 1 (dm_rlo s) OR ?b = l" by blast
  have r: "shift_in n i (dm_rem s) = join h l"
    using join_shift [of 1 "dm_rhi s" "dm_rlo s" ?b] numerator_bit [OF assms, of n] hl by (simp only: shift_in_def) simp
  have d: "d \<le> join h l \<longleftrightarrow> hi_word d < h \<or> h = hi_word d \<and> lo_word d \<le> l"
    using join_less [of "hi_word d" "lo_word d" h l] by simp
  have m: "d \<le> join h l \<Longrightarrow> join (h - hi_word d - (if l < lo_word d then 1 else 0)) (l - lo_word d) = join h l - d"
    using join_diff [of "hi_word d" "lo_word d" h l] by simp
  have q: "i \<ge> 32 \<Longrightarrow> join (dm_qhi s OR push_bit (i - 32) 1) (dm_qlo s) = dm_quot s OR push_bit i 1"
    "i < 32 \<Longrightarrow> join (dm_qhi s) (dm_qlo s OR push_bit i 1) = dm_quot s OR push_bit i 1"
    using join_set(1) [of "dm_qhi s" "i - 32" "dm_qlo s"] join_set(2) [of i "dm_qhi s" "dm_qlo s"] by simp_all
  have s: "rt_step n d i s =
    (if d \<le> join h l then
       if i \<ge> 32 then s\<lparr>dm_rlo := l - lo_word d, dm_rhi := h - hi_word d - (if l < lo_word d then 1 else 0), dm_qhi := dm_qhi s OR push_bit (i - 32) 1\<rparr>
       else s\<lparr>dm_rlo := l - lo_word d, dm_rhi := h - hi_word d - (if l < lo_word d then 1 else 0), dm_qlo := dm_qlo s OR push_bit i 1\<rparr>
     else s\<lparr>dm_rlo := l, dm_rhi := h\<rparr>)"
    unfolding rt_step_def Let_def hl d by (rule if_cong) auto
  show "dm_rem (rt_step n d i s) = (if d \<le> shift_in n i (dm_rem s) then shift_in n i (dm_rem s) - d else shift_in n i (dm_rem s))"
    unfolding r s using m by (cases "d \<le> join h l"; cases "32 \<le> i") simp_all
  show "dm_quot (rt_step n d i s) = (if d \<le> shift_in n i (dm_rem s) then dm_quot s OR push_bit i 1 else dm_quot s)"
    unfolding r s using q by (cases "d \<le> join h l"; cases "32 \<le> i") simp_all
qed

lemma unat_shift_in:
  assumes "unat r < 2 ^ 63"
  shows "unat (shift_in n i r) = 2 * unat r + unat n div 2 ^ i mod 2"
proof -
  have "shift_in n i r = push_bit 1 r + (drop_bit i n AND 1)"
    unfolding shift_in_def by (rule disjunctive_add [symmetric]) (simp only: bit_push_bit_iff bit_and_iff bit_1_iff, simp)
  moreover have d: "unat (drop_bit i n) = unat n div 2 ^ i" by (simp add: unat_drop_bit_eq flip: drop_bit_eq_div)
  moreover have "unat (drop_bit i n AND 1) = unat n div 2 ^ i mod 2"
    unfolding and_one_eq unat_mod d by simp
  moreover have "unat (push_bit 1 r) = 2 * unat r"
    using assms by (simp add: push_bit_eq_mult unat_word_ariths)
  ultimately show ?thesis using assms by (simp add: unat_word_ariths)
qed

lemma long_division:
  fixes A D b :: nat
  assumes "0 < D" and "b < 2"
  shows "(2 * A + b) mod D = (if D \<le> 2 * (A mod D) + b then 2 * (A mod D) + b - D else 2 * (A mod D) + b)"
    and "(2 * A + b) div D = 2 * (A div D) + (if D \<le> 2 * (A mod D) + b then 1 else 0)"
proof -
  define r where "r = A mod D"
  let ?x = "2 * r + b" let ?c = "if D \<le> ?x then 1 else 0 :: nat"
  have r: "r < D" using assms(1) by (simp add: r_def)
  obtain y z where y: "y = ?x - ?c * D" and z: "z = 2 * (A div D) + ?c" by blast
  have "A = A div D * D + r" by (simp add: r_def)
  then have e: "2 * A + b = y + z * D" unfolding y z by (auto simp: algebra_simps)
  have x: "y < D" using r assms(2) unfolding y by auto
  have "(2 * A + b) mod D = y" unfolding e using x by simp
  then show "(2 * A + b) mod D = (if D \<le> 2 * (A mod D) + b then 2 * (A mod D) + b - D else 2 * (A mod D) + b)"
    unfolding y r_def by simp
  show "(2 * A + b) div D = 2 * (A div D) + (if D \<le> 2 * (A mod D) + b then 1 else 0)"
    unfolding r_def [symmetric] z [symmetric] e using x assms(1) by simp
qed

lemma unat_or_bit:
  fixes q :: u64
  assumes "even (unat q div 2 ^ i)" and "unat q + 2 ^ i < 2 ^ 64"
  shows "unat (q OR push_bit i 1) = unat q + 2 ^ i"
proof -
  have "bit (unat q) i = bit q i" by (simp add: bit_unsigned_iff)
  then have "\<not> bit q i" using assms(1) by (simp add: bit_iff_odd)
  then have "q OR push_bit i 1 = q + push_bit i 1" by (intro disjunctive_add [symmetric]) (auto simp: bit_simps)
  moreover have "unat (push_bit i 1 :: u64) = 2 ^ i" proof -
    have "unat (push_bit i 1 :: u64) = take_bit 64 (push_bit i 1)" by (simp only: unsigned_push_bit_eq unsigned_1) simp
    moreover have "(2 :: nat) ^ i < 2 ^ 64" using assms(2) by simp
    then have "i < 64" by (rule power_less_imp_less_exp [rotated]) simp
    ultimately show ?thesis using assms(2) by (simp add: push_bit_eq_mult take_bit_nat_eq_self)
  qed
  ultimately show ?thesis using assms(2) by (simp add: unat_word_ariths)
qed

lemma rt_loop_run:
  assumes "k \<le> 64" and "d \<noteq> 0" and "unat (dm_rem s) = unat n div 2 ^ k mod unat d" and "unat (dm_quot s) = unat n div 2 ^ k div unat d * 2 ^ k"
  shows "unat (dm_rem (rt_loop n d k s)) = unat n mod unat d \<and> unat (dm_quot (rt_loop n d k s)) = unat n div unat d"
  using assms
proof (induction k arbitrary: s)
  case (Suc i)
  define A D b where "A = unat n div 2 ^ Suc i" and "D = unat d" and "b = unat n div 2 ^ i mod 2"
  have D: "0 < D" using Suc.prems(2) by (simp add: D_def unat_gt_0)
  have b: "b < 2" by (simp add: b_def)
  have n: "unat n < 2 ^ 64" using unsigned_less [of n, where ?'a = nat] by simp
  have e: "unat n div 2 ^ i = 2 * A + b" by (simp add: A_def b_def power_Suc2 div_mult2_eq del: power_Suc)
  have A: "A < 2 ^ 63" proof -
    have "A \<le> unat n div 2" unfolding A_def by (simp add: div_mult2_eq)
    also have "\<dots> < 2 ^ 63" using n by (simp add: less_mult_imp_div_less)
    finally show ?thesis .
  qed
  have r: "unat (dm_rem s) = A mod D" and q: "unat (dm_quot s) = A div D * 2 ^ Suc i" using Suc.prems(3,4) by (simp_all add: A_def D_def)
  have "unat (dm_rem s) < 2 ^ 63" using A r by (metis mod_less_eq_dividend order_le_less_trans)
  then have x: "unat (shift_in n i (dm_rem s)) = 2 * (A mod D) + b" by (simp add: unat_shift_in r b_def)
  then have c: "d \<le> shift_in n i (dm_rem s) \<longleftrightarrow> D \<le> 2 * (A mod D) + b" by (simp add: word_le_nat_alt D_def)
  note w = rt_step_words [of i n d s] long_division [OF D b, of A]
  have "(2 * A + b) div D * 2 ^ i \<le> (2 * A + b) * 2 ^ i" by (intro mult_right_mono) auto
  also have "\<dots> \<le> unat n" unfolding e [symmetric] by simp
  finally have "(2 * A + b) div D * 2 ^ i < 2 ^ 64" using n by simp
  then have "(2 * (A div D) + (if D \<le> 2 * (A mod D) + b then 1 else 0)) * 2 ^ i < 2 ^ 64" unfolding w(4) .
  then have q': "D \<le> 2 * (A mod D) + b \<Longrightarrow> unat (dm_quot s OR push_bit i 1) = unat (dm_quot s) + 2 ^ i"
    by (intro unat_or_bit) (simp_all add: q algebra_simps)
  have "unat (dm_rem (rt_step n d i s)) = unat n div 2 ^ i mod unat d"
    using w(1) Suc.prems(1) by (simp add: c e w(3) x unat_sub D_def [symmetric])
  moreover have "unat (dm_quot (rt_step n d i s)) = unat n div 2 ^ i div unat d * 2 ^ i"
  proof -
    have "i < 64" using Suc.prems(1) by simp
    then show ?thesis unfolding w(2) [OF \<open>i < 64\<close>] c e D_def [symmetric] w(4)
      using q' by (cases "D \<le> 2 * (A mod D) + b") (simp_all add: q algebra_simps)
  qed
  ultimately show ?case using Suc.IH [of "rt_step n d i s"] Suc.prems(1,2) by simp
qed simp

lemma rt_divmod_eq: "rt_divmod n d want = (if d = 0 then 0 else if want then n mod d else n div d)"
proof (cases "d = 0")
  case False
  let ?s = "\<lparr>dm_rlo = 0, dm_rhi = 0, dm_qlo = 0, dm_qhi = 0\<rparr>"
  have z: "join 0 0 = 0" by (simp add: join_def)
  have n: "unat n < 2 ^ 64" using unsigned_less [of n, where ?'a = nat] by simp
  have "\<not> (lo_word d = 0 \<and> hi_word d = 0)" using False z by (metis join_words)
  moreover have "unat (dm_rem (rt_loop n d 64 ?s)) = unat n mod unat d \<and> unat (dm_quot (rt_loop n d 64 ?s)) = unat n div unat d"
    using n False by (intro rt_loop_run) (simp_all add: z)
  ultimately show ?thesis using False by (auto simp: rt_divmod_def Let_def word_unat_eq_iff unat_div unat_mod)
qed (simp add: rt_divmod_def lo_word_def hi_word_def)

lemma uint_magnitude: "uint (if a <s 0 then 0 - a else a) = \<bar>sint a\<bar>" for a :: u64
proof -
  have r: "- (2 ^ 63) \<le> sint a" "sint a < 2 ^ 63" using sint_greater_eq [of a] sint_less [of a] by simp_all
  have "uint (word_of_int x :: u64) = x" if "0 \<le> x" "x < 2 ^ 64" for x using that by (simp add: uint_word_of_int_eq take_bit_int_eq_self)
  moreover have "(if a <s 0 then 0 - a else a) = word_of_int \<bar>sint a\<bar>" by (simp add: word_sless_alt abs_if)
  ultimately show ?thesis using r by simp
qed

lemma magnitude_zero: "(if b <s 0 then 0 - b else b) = 0 \<longleftrightarrow> b = 0" for b :: u64
  by auto

lemma divdi3_eq: "divdi3 a b = word_of_int (sint a sdiv sint b)"
proof -
  let ?a = "if a <s 0 then 0 - a else a" let ?b = "if b <s 0 then 0 - b else b"
  have "rt_divmod ?a ?b False = word_of_int (\<bar>sint a\<bar> div \<bar>sint b\<bar>)"
    unfolding rt_divmod_eq magnitude_zero by (simp only: word_div_def uint_magnitude) simp
  then show ?thesis
    by (auto simp: divdi3_def Let_def signed_divide_int_def word_sless_alt sgn_if abs_if)
qed

lemma moddi3_eq: "moddi3 a b = (if b = 0 then 0 else word_of_int (sint a smod sint b))"
proof -
  let ?a = "if a <s 0 then 0 - a else a" let ?b = "if b <s 0 then 0 - b else b"
  have "rt_divmod ?a ?b True = (if b = 0 then 0 else word_of_int (\<bar>sint a\<bar> mod \<bar>sint b\<bar>))"
    unfolding rt_divmod_eq magnitude_zero by (simp only: word_mod_def uint_magnitude) simp
  then show ?thesis
    by (auto simp: moddi3_def Let_def signed_modulo_int_def word_sless_alt sgn_if abs_if)
qed

section \<open>Shifts\<close>

lemma join_drop:
  "32 \<le> k \<Longrightarrow> join 0 (drop_bit (k - 32) (hi_word u)) = drop_bit k u"
  "0 < k \<Longrightarrow> k < 32 \<Longrightarrow> join (drop_bit k (hi_word u)) (drop_bit k (lo_word u) OR push_bit (32 - k) (hi_word u)) = drop_bit k u"
  by (rule bit_word_eqI, auto simp: bit_words bit_simps add.commute dest: bit_imp_le_length)+

lemma join_push:
  "32 \<le> k \<Longrightarrow> k < 64 \<Longrightarrow> join (push_bit (k - 32) (lo_word u)) 0 = push_bit k u"
  "0 < k \<Longrightarrow> k < 32 \<Longrightarrow> join (push_bit k (hi_word u) OR drop_bit (32 - k) (lo_word u)) (push_bit k (lo_word u)) = push_bit k u"
  by (rule bit_word_eqI, auto simp: bit_words bit_simps add.commute dest: bit_imp_le_length)+

lemma bit_sar:
  "bit (signed_drop_bit k x) n \<longleftrightarrow> n < 32 \<and> bit x (min 31 (k + n))"
  "bit (signed_drop_bit k u) n \<longleftrightarrow> n < 64 \<and> bit u (min 63 (k + n))" for x :: u32 and u :: u64
proof -
  have "\<not> n < 32 \<Longrightarrow> \<not> bit x (k + n)" "\<not> n < 64 \<Longrightarrow> \<not> bit u (k + n)"
    using bit_imp_le_length [of x "k + n"] bit_imp_le_length [of u "k + n"] by auto
  moreover have "n < w \<Longrightarrow> (if w - k \<le> n \<and> n < w then w - 1 else k + n) = min (w - 1) (k + n)" for w by auto
  note this [of 32] this [of 64]
  ultimately show "bit (signed_drop_bit k x) n \<longleftrightarrow> n < 32 \<and> bit x (min 31 (k + n))"
    "bit (signed_drop_bit k u) n \<longleftrightarrow> n < 64 \<and> bit u (min 63 (k + n))"
    unfolding bit_signed_drop_bit_iff by (cases "n < 32"; cases "n < 64"; simp)+
qed

lemma join_signed:
  "32 \<le> k \<Longrightarrow> k < 64 \<Longrightarrow> join (signed_drop_bit 31 (hi_word u)) (signed_drop_bit (k - 32) (hi_word u)) = signed_drop_bit k u"
  "0 < k \<Longrightarrow> k < 32 \<Longrightarrow> join (signed_drop_bit k (hi_word u)) (drop_bit k (lo_word u) OR push_bit (32 - k) (hi_word u)) = signed_drop_bit k u"
proof -
  have e: "bit u (32 + (m - 32)) = (if m < 32 then bit u 32 else bit u m)" for m by simp
  show "32 \<le> k \<Longrightarrow> k < 64 \<Longrightarrow> join (signed_drop_bit 31 (hi_word u)) (signed_drop_bit (k - 32) (hi_word u)) = signed_drop_bit k u"
    "0 < k \<Longrightarrow> k < 32 \<Longrightarrow> join (signed_drop_bit k (hi_word u)) (drop_bit k (lo_word u) OR push_bit (32 - k) (hi_word u)) = signed_drop_bit k u"
    by (rule bit_word_eqI, auto simp: bit_words bit_or_iff bit_drop_bit_eq bit_push_bit_iff bit_sar min_def add.commute e)+
qed

text \<open>The 64-bit helpers that tcc puts into every image compute what C's operators mean: the quotient and the remainder
  of unsigned and of signed numbers, truncated towards zero (0 when the divisor is 0, which C leaves open), and the
  three shifts for every count from 0 to 63, the only ones with a result.\<close>

theorem helpers_exact:
  "udivdi3 a b = a div b \<and> umoddi3 a b = (if b = 0 then 0 else a mod b) \<and>
   divdi3 a b = word_of_int (sint a sdiv sint b) \<and> moddi3 a b = (if b = 0 then 0 else word_of_int (sint a smod sint b)) \<and>
   lshrdi3 a (int k) = (if k < 64 then Some (drop_bit k a) else None) \<and>
   ashldi3 a (int k) = (if k < 64 then Some (push_bit k a) else None) \<and>
   ashrdi3 a (int k) = (if k < 64 then Some (signed_drop_bit k a) else None)"
proof -
  have "k = 0 \<or> (0 < k \<and> k < 32) \<or> (32 \<le> k \<and> k < 64) \<or> 64 \<le> k" by auto
  then have "lshrdi3 a (int k) = (if k < 64 then Some (drop_bit k a) else None) \<and>
   ashldi3 a (int k) = (if k < 64 then Some (push_bit k a) else None) \<and>
   ashrdi3 a (int k) = (if k < 64 then Some (signed_drop_bit k a) else None)"
    using join_drop [of k a] join_push [of k a] join_signed [of k a]
    by (elim disjE) (simp_all add: lshrdi3_def ashldi3_def ashrdi3_def shl_def shr_def sar_def nat_diff_distrib)
  then show ?thesis unfolding udivdi3_def umoddi3_def rt_divmod_eq divdi3_eq moddi3_eq by simp
qed

end
