(* ===== verification/StdioWrite.thy ===== *)
theory StdioWrite
  imports StdioSpec
begin

text \<open>
What writing a file through a stream of home/lib/stdio.c does, down to the disk.
\<close>

section \<open>A block of the heap\<close>

text \<open>An address of the image, of the stack or of a held block: what malloc leaves alone.\<close>

definition steady :: "u32 \<Rightarrow> heap \<Rightarrow> (nat \<times> nat) set \<Rightarrow> u32 \<Rightarrow> bool" where
  "steady st h0 al x \<longleftrightarrow> unat x < unat (heap_brk (heap_boot st h0)) \<or> unat USER_STACK \<le> unat x \<or> (\<exists>(a, s)\<in>al. unat x \<in> {a..<a + s})"

lemma malloc_block:
  assumes "heap_run st h0 h al" and "loaded h0" and "unat len \<le> 0x7FFFFFF0" and "malloc st len h = Some (f, h')" and "f \<noteq> 0"
  obtains a s where "heap_run st h0 h' (insert (a, s) al)" "unat f = a + 8" "(unat len + 7) div 8 * 8 + 8 \<le> s" "a + s \<le> 8384512"
    "of_nat a + BLOCK_HDR = f" "\<And>x. steady st h0 al x \<Longrightarrow> bytes h' x = bytes h x \<and> unat x \<notin> {a..<a + s}"
proof -
  let ?lo = "unat (heap_brk (heap_boot st h0))" and ?n = "(unat len + 7) div 8 * 8 + 8"
  from heap_run_live [OF assms(1,2)] obtain fl where lv: "live ?lo h fl al" by blast
  then have ok: "heap_ok ?lo h fl" by (simp add: live_def)
  from malloc_spec [OF ok assms(3) refl, of st] assms(4,5) obtain b fl' where b: "f = b + BLOCK_HDR" "taken ?lo ?n h fl b h' fl'" by auto
  note p = taken_ptr [OF b(2)]
  have s: "?n \<le> unat (bsize h' b)" "unat b + unat (bsize h' b) \<le> unat (heap_brk h')" "heap_ok ?lo h' fl'" using b(2) by (auto simp: taken_def)
  have "heap_run st h0 h' (insert (unat b, unat (bsize h' b)) al)"
    using heap_run.alloc [OF assms(1,3,4) refl] assms(5) b(1) p(2) by simp
  moreover have "bytes h' x = bytes h x \<and> unat x \<notin> {unat b..<unat b + unat (bsize h' b)}" if "steady st h0 al x" for x
  proof -
    from b(2) have t: "{unat b..<unat b + unat (bsize h' b)} \<subseteq> cells fl \<union> {unat (heap_brk h)..<unat (heap_brk h')}"
      "\<And>x. unat x \<notin> cells fl \<Longrightarrow> unat x \<notin> {unat (heap_brk h)..<unat (heap_brk h')} \<Longrightarrow> bytes h' x = bytes h x"
      by (auto simp: taken_def)
    have c: "cells fl \<subseteq> {?lo..<unat (heap_brk h)}" "?lo \<le> unat (heap_brk h)" "unat (heap_brk h') \<le> unat USER_STACK" "heap_brk h \<le> heap_brk h'"
      using ok s(3) b(2) sep_cells [of ?lo "unat (heap_brk h)" fl] by (auto simp: heap_ok_def taken_def word_le_nat_alt)
    have "unat x \<notin> cells fl \<and> unat x \<notin> {unat (heap_brk h)..<unat (heap_brk h')}"
      using that [unfolded steady_def]
    proof (elim disjE bexE)
      fix y assume y: "y \<in> al" "case y of (a, s) \<Rightarrow> unat x \<in> {a..<a + s}"
      then obtain a s where a: "(a, s) \<in> al" "unat x \<in> {a..<a + s}" by auto
      from live_block(4,7) [OF lv a(1)] a(2) show ?thesis by auto
    next
      assume "unat x < ?lo"
      then show ?thesis using c(1,2) by auto
    next
      assume "unat USER_STACK \<le> unat x"
      moreover have "unat (heap_brk h) \<le> unat (heap_brk h')" using c(4) by (simp add: word_le_nat_alt)
      ultimately show ?thesis using c(1,3) by fastforce
    qed
    then show ?thesis using t by blast
  qed
  ultimately show thesis using s heap_ok_top [OF s(3)] p b(1) by (intro that [of "unat b" "unat (bsize h' b)"]) simp_all
qed

text \<open>Whatever is written into a held block, the run goes on.\<close>

lemma heap_run_stores:
  assumes "heap_run st h0 h al" and "(a, s) \<in> al" and "\<And>x. u x \<noteq> bytes h x \<Longrightarrow> a + 8 \<le> unat x \<and> unat x < a + s"
  shows "heap_run st h0 (h\<lparr>bytes := u\<rparr>) al"
proof -
  have "heap_run st h0 (h\<lparr>bytes := (\<lambda>x. if x \<in> D then u x else bytes h x)\<rparr>) al"
    if "finite D" "D \<subseteq> {x. u x \<noteq> bytes h x}" for D :: "u32 set"
    using that
  proof (induction D rule: finite_induct)
    case empty
    then show ?case using assms(1) by simp
  next
    case (insert y D)
    let ?h = "h\<lparr>bytes := (\<lambda>x. if x \<in> D then u x else bytes h x)\<rparr>"
    have "heap_run st h0 (?h\<lparr>bytes := (bytes ?h)(y := u y)\<rparr>) al"
      using insert assms(3) [of y] by (intro heap_run.store [OF _ assms(2)]) auto
    moreover have "(bytes ?h)(y := u y) = (\<lambda>x. if x \<in> insert y D then u x else bytes h x)" by auto
    ultimately show ?case by simp
  qed
  from this [of "{x. u x \<noteq> bytes h x}"] have "heap_run st h0 (h\<lparr>bytes := (\<lambda>x. if u x \<noteq> bytes h x then u x else bytes h x)\<rparr>) al" by simp
  moreover have "(\<lambda>x. if u x \<noteq> bytes h x then u x else bytes h x) = u" by auto
  ultimately show ?thesis by simp
qed

section \<open>Writing to a file\<close>

lemma sys_fwrite_eq:
  "sys_fwrite k fd buf n oc = do {
     (v, fs) \<leftarrow> fs_write_fd (sint fd) (region (oc_user oc) buf (unat n)) n (sy_fs (oc_sys oc));
     Some (of_int v, ret v (set_fs fs (oc\<lparr>oc_regs := (oc_regs oc)\<lparr>r_eax := 14, r_ebx := fd, r_ecx := buf, r_edx := n\<rparr>\<rparr>))) }"
  by (auto simp: sys_fwrite_def int80_eax_def int80_def syscall_handler_def file_call_def Let_def ret_def split: bind_splits)

lemma sys_close_eq:
  "sys_close k fd oc = do {
     (v, fs) \<leftarrow> fs_close (k_disk k) (sint fd) (sy_fs (oc_sys oc));
     Some (of_int v, ret v (set_fs fs (oc\<lparr>oc_regs := (oc_regs oc)\<lparr>r_eax := 16, r_ebx := fd\<rparr>\<rparr>))) }"
  by (auto simp: sys_close_def int80_eax_def int80_def syscall_handler_def file_call_def Let_def ret_def split: bind_splits)

text \<open>The stream \<open>f\<close> has the only writable handle, \<open>i\<close>, with the name \<open>nm\<close>; \<open>bs\<close> was written to it.\<close>

definition storing :: "nat \<Rightarrow> byte list \<Rightarrow> u32 \<Rightarrow> byte list \<Rightarrow> 'd prog \<Rightarrow> bool" where
  "storing i nm f bs p \<longleftrightarrow> file_fits f \<and> f_kind f p = 0 \<and> handles_ok (fs_of p) \<and> length bs \<le> 65536 \<and>
     (\<exists>h. fd_lookup (sint (f_fd f p)) (fs_of p) = Some (i, h) \<and> h_writable h \<and> h_type h = FS_FILE \<and>
       h_name h = nm @ 0 # replicate (22 - length nm) 0 \<and> h_wlen h = of_nat (length bs) \<and> h_offset h = of_nat (length bs) \<and>
       take (length bs) (fs_wbuf (fs_of p)) = bs)"

lemma fwrite_storing:
  assumes "storing i nm f bs p" and "length bs + unat n \<le> 65536"
  obtains q where "fwrite env ptr 1 n f p = Some (n, q)" "storing i nm f (bs @ region (mem_of p) ptr (unat n)) q"
    "mem_of q = mem_of p" "heap_of q = heap_of p" "fs_sb (fs_of q) = fs_sb (fs_of p)" "fs_dev (fs_of q) = fs_dev (fs_of p)"
proof (cases "n = 0")
  case True
  then show thesis using assms(1) by (intro that [of p]) (simp_all add: fwrite_def region_def)
next
  case False
  obtain h where h: "fd_lookup (sint (f_fd f p)) (fs_of p) = Some (i, h)" "h_writable h" "h_type h = FS_FILE"
    "h_name h = nm @ 0 # replicate (22 - length nm) 0" "h_wlen h = of_nat (length bs)" "h_offset h = of_nat (length bs)"
    "take (length bs) (fs_wbuf (fs_of p)) = bs" "file_fits f" "f_kind f p = 0" "handles_ok (fs_of p)"
    using assms(1) by (auto simp: storing_def)
  let ?b = "region (mem_of p) ptr (unat n)" and ?n = "of_nat (length bs) + n :: u32"
  let ?h = "h\<lparr>h_wlen := ?n, h_offset := ?n, h_dirty := True\<rparr>"
  have lb: "unat (of_nat (length bs) :: u32) = length bs" using assms(2) by (intro of_nat_unat_small) simp
  have nn: "unat ?n = length bs + unat n" using assms(2) lb by (simp add: unat_add_no_wrap)
  have mx: "max (of_nat (length bs)) ?n = ?n" using nn lb by (simp add: max_def word_le_nat_alt)
  have "unat (h_offset h) + unat n \<le> 65536" "unat n \<le> length ?b" using assms(2) lb h(6) by simp_all
  from fs_write_fd_spec [OF h(10,1,2) this] obtain fs where w: "fs_write_fd (sint (f_fd f p)) ?b n (fs_of p) = Some (int (unat n), fs)" "handles_ok fs"
    "fs_handles fs = (fs_handles (fs_of p))[i := ?h]" "fs_dev fs = fs_dev (fs_of p)" "fs_sb fs = fs_sb (fs_of p)"
    "take (length bs + unat n) (fs_wbuf fs) = overwrite bs (length bs) ?b"
    unfolding h(5,6) mx nn lb by (auto simp: h(7))
  define q where "q = p\<lparr>p_oc := ret (int (unat n)) (set_fs fs ((p_oc p)\<lparr>oc_regs :=
    (oc_regs (p_oc p))\<lparr>r_eax := 14, r_ebx := f_fd f p, r_ecx := ptr, r_edx := n\<rparr>\<rparr>))\<rparr>"
  have q: "mem_of q = mem_of p" "heap_of q = heap_of p" "fs_of q = fs" by (simp_all add: q_def mem_of_def heap_of_def fs_of_def)
  have c: "call (sys_fwrite (u_kernel env) (f_fd f p) ptr n) p = Some (n, q)"
    using w(1) by (simp add: call_def sys_fwrite_eq mem_of_def fs_of_def q_def)
  have "unat n \<noteq> 0" using False by (simp add: unat_eq_0)
  moreover have "unat n < 2 ^ 31" using assms(2) by simp
  ultimately have sn: "0 < sint n" using sint_small [of n] by linarith
  have loop: "fwrite_loop env f ptr 0 n p = Some (n, q)"
    using False c sn by (subst fwrite_loop.simps, simp add: word_neq_0_conv) (subst fwrite_loop.simps, simp)
  have run: "fwrite env ptr 1 n f p = Some (n, q)"
    using False loop h(8,9) by (simp add: fwrite_def file_fits_def Let_def)
  have fld: "f_fd f q = f_fd f p" "f_kind f q = f_kind f p" by (simp_all add: f_fd_def f_kind_def q(1))
  have i: "i < 8" "sint (f_fd f p) = 3 + int i" "h_used h" using h(1) by (auto simp: fd_lookup_Some)
  have lk: "fd_lookup (sint (f_fd f q)) (fs_of q) = Some (i, ?h)"
    unfolding fld q(3) i(2) fd_lookup_Some w(3) using i(1,3) handles_okD(1) [OF h(10)] by simp
  have "storing i nm f (bs @ ?b) q"
    unfolding storing_def using lk h w(2,6) assms(2) q(3) fld lb
    by (intro conjI exI [of _ ?h]) (simp_all add: overwrite_def)
  then show thesis using run q w by (intro that [of q]) simp_all
qed

context reliable_device begin

lemma fopen_storing:
  assumes "k_disk (u_kernel env) = dk" and "handles_ok (fs_of p)"
    and "fs_ok (fs_sb (fs_of p)) cap (sec (fs_dev (fs_of p)))" and "dev_ok (fs_dev (fs_of p))"
    and "string_at (mem_of p) path nm" and "length nm < 23" and "string_at (mem_of p) mode m" and "m \<noteq> []" and "hd m = 119" and "43 \<notin> set m"
    and "free_handle (fs_of p) = Some i" and "writers (fs_of p) = {}"
    and "\<And>t c. files (fs_sb (fs_of p)) (sec (fs_dev (fs_of p))) nm = Some (t, c) \<Longrightarrow> t \<noteq> FS_DIR"
    and "malloc (u_heap_start env) 20 (heap_of p) = Some (f, h)" and "file_fits f"
  obtains q where "fopen env path mode p = Some (f, q)" "storing i nm f [] q" "fs_sb (fs_of q) = fs_sb (fs_of p)"
    "dev_ok (fs_dev (fs_of q))" "sec (fs_dev (fs_of q)) = sec (fs_dev (fs_of p))"
    "heap_of q = h\<lparr>bytes := mem_of q\<rparr>" "\<And>x. off_file f x \<Longrightarrow> mem_of q x = bytes h x"
proof -
  let ?fs = "fs_of p" and ?fl = "FS_O_WRONLY OR FS_O_CREAT OR FS_O_TRUNC" and ?h = "(new_handle nm True)\<lparr>h_type := FS_FILE\<rparr>"
  have nf: "nul_free nm" using assms(5) by (simp add: string_at_def)
  have nodir: "fe_type e \<noteq> FS_DIR" if "lookup (fs_sb ?fs) (sec (fs_dev ?fs)) nm = Some e" for e
    using that assms(13) by (simp add: files_def)
  from fs_open_create [OF assms(3,4) nf assms(6,11,12) nodir refl, of "[]"] obtain d where
    d: "fs_open dk (nm @ [0]) ?fl ?fs = Some (3 + int i, set_handle i ?h (?fs\<lparr>fs_dev := d\<rparr>))" "dev_ok d" "sec d = sec (fs_dev ?fs)" by auto
  have ok: "handles_ok (set_handle i ?h (?fs\<lparr>fs_dev := d\<rparr>))" by (rule fs_open_ok [OF assms(2) d(1)])
  have i: "i < 8" using free_handle_Some [OF assms(11)] by simp
  have hs: "length (fs_handles ?fs) = 8" using handles_okD(1) [OF assms(2)] .
  define q1 where "q1 = p\<lparr>p_oc := ret (3 + int i) (set_fs (set_handle i ?h (?fs\<lparr>fs_dev := d\<rparr>))
    ((p_oc p)\<lparr>oc_regs := (oc_regs (p_oc p))\<lparr>r_eax := 12, r_ebx := path, r_ecx := ?fl\<rparr>\<rparr>))\<rparr>"
  have q1: "mem_of q1 = mem_of p" "fs_of q1 = set_handle i ?h (?fs\<lparr>fs_dev := d\<rparr>)" "heap_of q1 = heap_of p"
    by (simp_all add: q1_def mem_of_def fs_of_def heap_of_def)
  have c: "call (sys_open (u_kernel env) path ?fl) p = Some (of_int (3 + int i), q1)"
    using d(1) user_string_at [OF assms(5)] assms(1)
    by (simp add: call_def sys_open_eq q1_def mem_of_def fs_of_def)
  have fd: "sint (of_int (3 + int i) :: u32) = 3 + int i"
  proof -
    have "unat (of_nat (3 + i) :: u32) = 3 + i" using i by (intro of_nat_unat_small) simp
    then show ?thesis using sint_small [of "of_nat (3 + i)"] i by simp
  qed
  obtain q2 where q2: "with_heap (malloc (u_heap_start env) 20) q1 = Some (f, q2)" "mem_of q2 = bytes h" "fs_of q2 = fs_of q1" "heap_of q2 = h"
    by (rule with_heap_eq [of "malloc (u_heap_start env) 20" q1 f h]) (use q1(3) assms(14) in simp_all)
  let ?q = "new_file f (of_int (3 + int i)) q2"
  note nw = new_file_fields [OF assms(15), where fd = "of_int (3 + int i)" and p = q2]
  obtain m' where m': "m = 119 # m'" using assms(8,9) by (cases m) auto
  have fl: "(O_WRONLY OR O_CREAT OR O_TRUNC) = ?fl" by (simp add: O_WRONLY_def O_CREAT_def O_TRUNC_def fs_consts)
  have m: "mode_flags (mem_of p) mode = Some (Some ?fl)"
    using has_plus_at [OF assms(7), of False] assms(7,10) m' fl by (simp add: mode_flags_def string_at_Cons)
  have run: "fopen env path mode p = Some (f, ?q)"
    using m c q2(1) fd assms(15) by (simp add: fopen_def file_fits_def)
  have fsq: "fs_of ?q = set_handle i ?h (?fs\<lparr>fs_dev := d\<rparr>)" unfolding nw(7) q2(3) q1(2) ..
  have "fd_lookup (sint (f_fd f ?q)) (fs_of ?q) = Some (i, ?h)"
    unfolding nw(1) fd fsq using i hs by (simp add: fd_lookup_Some new_handle_def)
  then have st: "storing i nm f [] ?q"
    unfolding storing_def using nw(2) ok fsq assms(15) by (auto simp: new_handle_def handle_zero_def)
  have hp: "heap_of ?q = h\<lparr>bytes := mem_of ?q\<rparr>"
    unfolding q2(4) [symmetric] by (simp add: heap_of_def new_file_def set_ungot_def set_fd_def set_mem_def mem_of_def)
  show thesis by (rule that [OF run st _ _ _ hp]) (use d(2,3) fsq nw(6) q2(2) in simp_all)
qed

lemma fclose_storing:
  assumes "k_disk (u_kernel env) = dk" and "storing i nm f bs p"
    and "fs_ok (fs_sb (fs_of p)) cap (sec (fs_dev (fs_of p)))" and "dev_ok (fs_dev (fs_of p))"
    and "nul_free nm" and "nm \<noteq> []" and "length nm < 23"
    and "\<And>q. parent_name nm = Some q \<Longrightarrow> files (fs_sb (fs_of p)) (sec (fs_dev (fs_of p))) q \<noteq> None"
    and "chosen_slot (fs_sb (fs_of p)) (sec (fs_dev (fs_of p))) nm \<noteq> None"
    and "next_free (fs_sb (fs_of p)) (sec (fs_dev (fs_of p))) + sectors_for (of_nat (length bs)) + 4 * length nm \<le> cap"
    and "free f (heap_of p) = Some h"
  obtains q where "fclose env f p = Some (0, q)" "heap_of q = h" "fs_sb (fs_of q) = fs_sb (fs_of p)" "dev_ok (fs_dev (fs_of q))"
    "fs_ok (fs_sb (fs_of q)) cap (sec (fs_dev (fs_of q)))" "handles_ok (fs_of q)"
    "files (fs_sb (fs_of q)) (sec (fs_dev (fs_of q))) = spec_write (files (fs_sb (fs_of p)) (sec (fs_dev (fs_of p)))) nm FS_FILE bs"
proof -
  let ?fs = "fs_of p" and ?n = "of_nat (length bs) :: u32"
  obtain e where e: "fd_lookup (sint (f_fd f p)) ?fs = Some (i, e)" "h_writable e" "h_type e = FS_FILE"
    "h_name e = nm @ 0 # replicate (22 - length nm) 0" "h_wlen e = ?n" "take (length bs) (fs_wbuf ?fs) = bs"
    "file_fits f" "f_kind f p = 0" "handles_ok ?fs" "length bs \<le> 65536"
    using assms(2) by (auto simp: storing_def)
  have n: "unat ?n = length bs" using e(10) by (intro of_nat_unat_small) simp
  have len: "unat ?n \<le> length (fs_wbuf ?fs)" "unat ?n + 511 < 2 ^ 32" using handles_okD(2) [OF e(9)] n e(10) by simp_all
  from fs_write_refines [OF assms(3-7), of ?n "fs_wbuf ?fs" "replicate (22 - length nm) 0" FS_FILE] assms(8) [unfolded files_None] assms(9,10) len
  obtain d where d: "fs_write dk (fs_sb ?fs) (nm @ 0 # replicate (22 - length nm) 0) FS_FILE (fs_wbuf ?fs) ?n (fs_dev ?fs) = Some (0, d)" "dev_ok d"
    "fs_ok (fs_sb ?fs) cap (sec d)" "files (fs_sb ?fs) (sec d) = spec_write (files (fs_sb ?fs) (sec (fs_dev ?fs))) nm FS_FILE (take (unat ?n) (fs_wbuf ?fs))" by auto
  let ?fs' = "set_handle i (e\<lparr>h_used := False\<rparr>) (?fs\<lparr>fs_dev := d\<rparr>)"
  have cl: "fs_close dk (sint (f_fd f p)) ?fs = Some (0, ?fs')" using e(1-5) d(1) by (simp add: fs_close_def)
  define q1 where "q1 = p\<lparr>p_oc := ret 0 (set_fs ?fs' ((p_oc p)\<lparr>oc_regs := (oc_regs (p_oc p))\<lparr>r_eax := 16, r_ebx := f_fd f p\<rparr>\<rparr>))\<rparr>"
  have q1: "mem_of q1 = mem_of p" "fs_of q1 = ?fs'" "heap_of q1 = heap_of p"
    by (simp_all add: q1_def mem_of_def fs_of_def heap_of_def)
  have c: "call (sys_close (u_kernel env) (f_fd f p)) p = Some (0, q1)"
    using cl assms(1) by (simp add: call_def sys_close_eq fs_of_def q1_def)
  obtain q2 where q2: "with_heap (\<lambda>h. map_option (Pair ()) (free f h)) q1 = Some ((), q2)" "fs_of q2 = fs_of q1" "heap_of q2 = h"
    by (rule with_heap_eq [of "\<lambda>h. map_option (Pair ()) (free f h)" q1 "()" h]) (use q1(3) assms(11) in simp_all)
  have "fclose env f p = Some (0, q2)" using c q2(1) e(7,8) by (simp add: fclose_def file_fits_def)
  moreover have "handles_ok ?fs'" by (rule fs_close_ok [OF e(9) cl])
  ultimately show thesis using d n e(6) q2 q1(2) by (intro that [of q2]) simp_all
qed

end

text \<open>A program that writes pieces of its memory, each an address and a length, one fwrite after the other.\<close>

fun put_pieces :: "'d uenv \<Rightarrow> u32 \<Rightarrow> (u32 \<times> u32) list \<Rightarrow> 'd prog \<Rightarrow> 'd prog option" where
  "put_pieces env f [] p = Some p"
| "put_pieces env f ((ptr, n) # rs) p = do {
     (r, p) \<leftarrow> fwrite env ptr 1 n f p;
     if r = n then put_pieces env f rs p else None }"

definition pieces :: "umem \<Rightarrow> (u32 \<times> u32) list \<Rightarrow> byte list" where
  "pieces u rs = concat (map (\<lambda>(ptr, n). region u ptr (unat n)) rs)"

lemma pieces_simps [simp]: "pieces u [] = []" "pieces u ((ptr, n) # rs) = region u ptr (unat n) @ pieces u rs"
  by (simp_all add: pieces_def)

lemma put_pieces_storing:
  assumes "storing i nm f bs p" and "length bs + length (pieces (mem_of p) rs) \<le> 65536"
  obtains q where "put_pieces env f rs p = Some q" "storing i nm f (bs @ pieces (mem_of p) rs) q"
    "mem_of q = mem_of p" "heap_of q = heap_of p" "fs_sb (fs_of q) = fs_sb (fs_of p)" "fs_dev (fs_of q) = fs_dev (fs_of p)"
  using assms
proof (induction rs arbitrary: bs p thesis)
  case (Cons r rs)
  obtain ptr n where r: "r = (ptr, n)" by fastforce
  have "length bs + unat n \<le> 65536" using Cons.prems(3) r by simp
  from fwrite_storing [OF Cons.prems(2) this, of env ptr] obtain q1 where
    q1: "fwrite env ptr 1 n f p = Some (n, q1)" "storing i nm f (bs @ region (mem_of p) ptr (unat n)) q1"
    "mem_of q1 = mem_of p" "heap_of q1 = heap_of p" "fs_sb (fs_of q1) = fs_sb (fs_of p)" "fs_dev (fs_of q1) = fs_dev (fs_of p)" by metis
  show ?case
    by (rule Cons.IH [OF _ q1(2)]) (use Cons.prems(1,3) q1 r in simp_all)
next
  case Nil
  show ?case by (rule Nil.prems(1) [of p]) (use Nil.prems(2) in simp_all)
qed

text \<open>A program that opens a path with fopen in mode w, writes pieces of its memory and closes the stream has stored
  exactly those bytes, one piece after the other, under that path: in the file system nothing else changes,
  fclose answers 0, and what lies in the image, on the stack or in a held block is as before the fopen. This runs through the allocator, the system calls, the handle table and the disk.\<close>

theorem stdio_writes_file:
  assumes "reliable_device dk sec cap dev_ok" and "k_disk (u_kernel env) = dk" and "handles_ok (fs_of p)"
    and "fs_ok (fs_sb (fs_of p)) cap (sec (fs_dev (fs_of p)))" and "dev_ok (fs_dev (fs_of p))"
    and "string_at (mem_of p) path nm" and "nm \<noteq> []" and "length nm < 23" and "string_at (mem_of p) mode (asc ''w'')"
    and "free_handle (fs_of p) = Some i" and "writers (fs_of p) = {}"
    and "\<And>t c. files (fs_sb (fs_of p)) (sec (fs_dev (fs_of p))) nm = Some (t, c) \<Longrightarrow> t \<noteq> FS_DIR"
    and "\<And>q. parent_name nm = Some q \<Longrightarrow> files (fs_sb (fs_of p)) (sec (fs_dev (fs_of p))) q \<noteq> None"
    and "chosen_slot (fs_sb (fs_of p)) (sec (fs_dev (fs_of p))) nm \<noteq> None"
    and "heap_run (u_heap_start env) h0 (heap_of p) al" and "loaded h0"
    and "malloc (u_heap_start env) 20 (heap_of p) = Some (f, h)" and "f \<noteq> 0"
  shows "\<exists>p1. fopen env path mode p = Some (f, p1) \<and> (\<forall>x. steady (u_heap_start env) h0 al x \<longrightarrow> mem_of p1 x = mem_of p x) \<and>
    (\<forall>rs. length (pieces (mem_of p1) rs) \<le> 65536 \<and>
        next_free (fs_sb (fs_of p)) (sec (fs_dev (fs_of p))) + sectors_for (of_nat (length (pieces (mem_of p1) rs))) + 4 * length nm \<le> cap \<longrightarrow>
      (\<exists>p2 p3. put_pieces env f rs p1 = Some p2 \<and> fclose env f p2 = Some (0, p3) \<and>
        files (fs_sb (fs_of p3)) (sec (fs_dev (fs_of p3))) =
          spec_write (files (fs_sb (fs_of p)) (sec (fs_dev (fs_of p)))) nm FS_FILE (pieces (mem_of p1) rs)))"
proof -
  have "unat (20 :: u32) \<le> 0x7FFFFFF0" by simp
  from malloc_block [OF assms(15,16) this assms(17,18)] obtain a s where
    a: "heap_run (u_heap_start env) h0 h (insert (a, s) al)" "unat f = a + 8" "32 \<le> s" "a + s \<le> 8384512" "of_nat a + BLOCK_HDR = f"
    "\<And>x. steady (u_heap_start env) h0 al x \<Longrightarrow> bytes h x = mem_of p x \<and> unat x \<notin> {a..<a + s}" by (auto simp: heap_of_def)
  have ff: "file_fits f" using a(2-4) assms(18) by (simp add: file_fits_def)
  have w: "asc ''w'' \<noteq> []" "hd (asc ''w'') = 119" "43 \<notin> set (asc ''w'')" by simp_all
  obtain p1 where p1: "fopen env path mode p = Some (f, p1)" "storing i nm f [] p1" "fs_sb (fs_of p1) = fs_sb (fs_of p)"
    "dev_ok (fs_dev (fs_of p1))" "sec (fs_dev (fs_of p1)) = sec (fs_dev (fs_of p))" "heap_of p1 = h\<lparr>bytes := mem_of p1\<rparr>"
    "\<And>x. off_file f x \<Longrightarrow> mem_of p1 x = bytes h x"
    by (rule reliable_device.fopen_storing [OF assms(1-6,8,9) w assms(10-12,17) ff]) auto
  have "a + 8 \<le> unat x \<and> unat x < a + s" if "mem_of p1 x \<noteq> bytes h x" for x
  proof -
    have "\<not> off_file f x" using p1(7) that by blast
    then show ?thesis using a(2,3) by (simp add: off_file_def)
  qed
  then have "heap_run (u_heap_start env) h0 (heap_of p1) (insert (a, s) al)"
    unfolding p1(6) by (rule heap_run_stores [OF a(1) insertI1])
  from free_returns [OF this assms(16), of a s 20] a(3,5) obtain h' where h': "free f (heap_of p1) = Some h'" by auto
  have nf: "nul_free nm" using assms(6) by (simp add: string_at_def)
  show ?thesis
  proof (rule exI [of _ p1], intro conjI allI impI p1(1))
    fix x assume x: "steady (u_heap_start env) h0 al x"
    then have "off_file f x" using a(2,3,6) by (fastforce simp: off_file_def)
    then show "mem_of p1 x = mem_of p x" using p1(7) a(6) x by simp
  next
    fix rs
    let ?bs = "pieces (mem_of p1) rs"
    assume room: "length ?bs \<le> 65536 \<and>
      next_free (fs_sb (fs_of p)) (sec (fs_dev (fs_of p))) + sectors_for (of_nat (length ?bs)) + 4 * length nm \<le> cap"
    obtain p2 where p2: "put_pieces env f rs p1 = Some p2" "storing i nm f ?bs p2" "heap_of p2 = heap_of p1"
      "fs_sb (fs_of p2) = fs_sb (fs_of p)" "fs_dev (fs_of p2) = fs_dev (fs_of p1)"
      by (rule put_pieces_storing [OF p1(2), of rs env]) (use room p1(3) in auto)
    have same: "sec (fs_dev (fs_of p2)) = sec (fs_dev (fs_of p))" using p2(5) p1(5) by simp
    note cl = reliable_device.fclose_storing [OF assms(1,2) p2(2), unfolded p2(4) same p2(3), OF assms(4) _ nf assms(7,8,13,14) _ h']
    obtain p3 where "fclose env f p2 = Some (0, p3)" "files (fs_sb (fs_of p3)) (sec (fs_dev (fs_of p3))) =
        spec_write (files (fs_sb (fs_of p)) (sec (fs_dev (fs_of p)))) nm FS_FILE ?bs"
      by (rule cl) (use p1(4) p2(5) room in auto)
    then show "\<exists>p2 p3. put_pieces env f rs p1 = Some p2 \<and> fclose env f p2 = Some (0, p3) \<and> files (fs_sb (fs_of p3)) (sec (fs_dev (fs_of p3))) =
          spec_write (files (fs_sb (fs_of p)) (sec (fs_dev (fs_of p)))) nm FS_FILE ?bs"
      using p2(1) by blast
  qed
qed

text \<open>A program on an empty disk, its strings above its heap, the 5s it writes on its stack.\<close>

definition tiny_writer :: "drive prog" where
  "tiny_writer = (tiny_prog drive_blank)\<lparr>p_oc := (p_oc (tiny_prog drive_blank))\<lparr>
      oc_user := (\<lambda>x. if x = 0x7FF900 then 97 else if x = 0x7FF910 then 119 else if 0x7FF000 \<le> x \<and> x < 0x7FF100 then 5 else 0),
      oc_sys := (oc_sys (p_oc (tiny_prog drive_blank)))\<lparr>sy_mem := tiny\<lparr>brk := 0x400200\<rparr>\<rparr>\<rparr>,
    p_brk := 0x400200, p_heap_state := 1\<rparr>"

lemma stdio_writes_file_witness:
  "\<exists>f p1 p2 p3. fopen tiny_env 0x7FF900 0x7FF910 tiny_writer = Some (f, p1) \<and>
    put_pieces tiny_env f [(0x7FF000, 2), (0x7FF010, 1)] p1 = Some p2 \<and> fclose tiny_env f p2 = Some (0, p3) \<and>
    files (fs_sb (fs_of p3)) (drive_sec (fs_dev (fs_of p3))) = [asc ''a'' \<mapsto> (FS_FILE, [5, 5, 5])]"
proof -
  let ?p = tiny_writer and ?H = "heap_of tiny_writer"
  let ?h0 = "?H\<lparr>heap_brk := 0, heap_state := 0, kern := tiny\<lparr>brk := 0x400100\<rparr>\<rparr>"
  have fsp: "fs_of ?p = fs_boot empty_sb drive_blank" by (simp add: fs_of_def tiny_writer_def tiny_prog_def)
  have H: "heap_state ?H = 1" "heap_brk ?H = 0x400200" "kern ?H = tiny\<lparr>brk := 0x400200\<rparr>" "freelist ?H = 0"
    by (simp_all add: heap_of_def tiny_writer_def tiny_prog_def)
  have boot: "heap_boot 0x400200 ?h0 = ?H"
    using H by (simp add: heap_boot_def sys_sbrk_def vm_sbrk_def tiny_def USER_TOP_def USER_STACK_def)
  have ld: "loaded ?h0" using H(4) by (simp add: loaded_def tiny_def USER_BASE_def USER_STACK_def)
  have run: "heap_run 0x400200 ?h0 ?H {}" by (rule heap_run.boot) (use boot H in simp_all)
  have "unat (20 :: u32) \<le> 0x7FFFFFF0" by simp
  from malloc_run_spec [OF run ld this] obtain f h where f: "malloc 0x400200 20 ?H = Some (f, h)" "f \<noteq> 0" "unat f + 20 \<le> 0x7FF000"
    by (auto simp: H USER_STACK_def)
  have str: "string_at (mem_of ?p) 0x7FF900 (asc ''a'')" "string_at (mem_of ?p) 0x7FF910 (asc ''w'')"
    by (simp_all add: string_at_Cons string_at_Nil mem_of_def tiny_writer_def)
  have env: "k_disk (u_kernel tiny_env) = ata_disk drive_pio" "u_heap_start tiny_env = 0x400200" by (simp_all add: tiny_env_def)
  have par: "parent_name (asc ''a'') = None" by (simp add: parent_name_def)
  note w = stdio_writes_file [OF reliable_drive env(1), where p = ?p and path = "0x7FF900" and mode = "0x7FF910" and nm = "asc ''a''" and i = 0
      and f = f and h = h and ?h0.0 = ?h0 and al = "{}"]
  from w [unfolded fsp fs_boot_sel env(2), OF fs_boot_ok fs_ok_blank drive_good_blank str(1) _ _ str(2) boot_free boot_writers _ _ _ run ld f(1,2)]
  obtain p1 where p1: "fopen tiny_env 0x7FF900 0x7FF910 ?p = Some (f, p1)" "\<And>x. steady 0x400200 ?h0 {} x \<Longrightarrow> mem_of p1 x = mem_of ?p x"
    "\<And>rs. length (pieces (mem_of p1) rs) \<le> 65536 \<Longrightarrow>
      next_free empty_sb (drive_sec drive_blank) + sectors_for (of_nat (length (pieces (mem_of p1) rs))) + 4 \<le> 2 ^ 28 \<Longrightarrow>
      (\<exists>p2 p3. put_pieces tiny_env f rs p1 = Some p2 \<and> fclose tiny_env f p2 = Some (0, p3) \<and>
        files (fs_sb (fs_of p3)) (drive_sec (fs_dev (fs_of p3))) = spec_write Map.empty (asc ''a'') FS_FILE (pieces (mem_of p1) rs))"
    using par by (auto simp: files_blank chosen_slot_blank)
  have five: "mem_of p1 x = 5" if "0x7FF000 \<le> x" "x < 0x7FF100" for x
  proof -
    have "x \<noteq> 0x7FF900" "x \<noteq> 0x7FF910" using that by auto
    moreover have "steady 0x400200 ?h0 {} x" using that by (simp add: steady_def USER_STACK_def word_le_nat_alt)
    ultimately show ?thesis using p1(2) [of x] that by (simp add: mem_of_def tiny_writer_def)
  qed
  have "pieces (mem_of p1) [(0x7FF000, 2), (0x7FF010, 1)] = [5, 5, 5]"
    by (simp add: region_def upt_rec five)
  then show ?thesis using p1(1) p1(3) [of "[(0x7FF000, 2), (0x7FF010, 1)]"] next_free_blank par by (auto simp: spec_write.simps sectors_for_def)
qed

end
